(* ===== verification/Prelude.thy ===== *)
theory Prelude
  imports Complex_Main "HOL-Library.Word" "HOL-Library.Signed_Division"
begin

text \<open>
  What the components share: the machine types, the errors and the result type
  of operations that can fail, the observable effects of a packet handler, the
  interface of \<^verbatim>\<open>std::map\<close> (a locale) with its model as an association list
  in key order, and the conversions C++ performs between number types.

  A \<^verbatim>\<open>double\<close> is modelled by a rational number: the arithmetic of the code is
  exact, a division by zero (infinity or NaN in the code) is an error value.
  A \<^verbatim>\<open>unsigned\<close> is a 32-bit word, an \<^verbatim>\<open>int\<close> is an integer.
\<close>

named_theorems comp_simps \<open>unfolding of the small operations of the components\<close>

type_synonym u32 = "32 word"
type_synonym u8 = "8 word"
type_synonym time = rat

text \<open>Undefined behaviour, failed assertions and calls of \<^verbatim>\<open>exit\<close> and
  \<^verbatim>\<open>abort\<close> are values.\<close>

datatype error = NullDeref | UseAfterFree | OutOfBounds | DivByZero | AssertFail | Exit | Abort | NoReturn | Loops

type_synonym 'a result = "error + 'a"

definition bind_r :: "'a result \<Rightarrow> ('a \<Rightarrow> 'b result) \<Rightarrow> 'b result" where
  "bind_r m f = (case m of Inl e \<Rightarrow> Inl e | Inr x \<Rightarrow> f x)"

lemma bind_r_simps [simp]:
  "bind_r (Inl e) f = Inl e"
  "bind_r (Inr x) f = f x"
  by (simp_all add: bind_r_def)

lemma bind_r_eq_Inr [simp]: "bind_r m f = Inr y \<longleftrightarrow> (\<exists>x. m = Inr x \<and> f x = Inr y)"
  by (cases m) simp_all

lemma bind_r_cong [fundef_cong]:
  assumes "m = m'" and "\<And>x. m' = Inr x \<Longrightarrow> f x = g x"
  shows "bind_r m f = bind_r m' g"
  using assms by (cases m') auto

subsection \<open>C++ conversions\<close>

text \<open>\<^verbatim>\<open>(int) d\<close> drops the fraction.  (The conversion of a value that does
  not fit an \<^verbatim>\<open>int\<close> is not modelled: the result is the mathematical one.)\<close>

definition int_of_double :: "rat \<Rightarrow> int" where
  "int_of_double d = (if 0 \<le> d then \<lfloor>d\<rfloor> else \<lceil>d\<rceil>)"

lemma int_of_double_le: "0 \<le> d \<Longrightarrow> of_int (int_of_double d) \<le> d"
  by (simp add: int_of_double_def)

lemma int_of_double_nonneg: "0 \<le> d \<Longrightarrow> 0 \<le> int_of_double d"
  by (simp add: int_of_double_def)

lemma int_of_double_of_int [simp]: "int_of_double (of_int i) = i"
  by (simp add: int_of_double_def)

text \<open>An \<^verbatim>\<open>int\<close> compared with a \<^verbatim>\<open>size_t\<close> is converted to 64 bits.\<close>

definition size_t_of_int :: "int \<Rightarrow> nat" where
  "size_t_of_int i = nat (i mod 2 ^ 64)"

lemma size_t_of_int_nonneg: "0 \<le> i \<Longrightarrow> i < 2 ^ 64 \<Longrightarrow> size_t_of_int i = nat i"
  by (simp add: size_t_of_int_def)

subsection \<open>Arrays and pointers\<close>

definition arr_at :: "int \<Rightarrow> 'a list \<Rightarrow> 'a result" where
  "arr_at i a = (if 0 \<le> i \<and> i < int (length a) then Inr (a ! nat i) else Inl OutOfBounds)"

definition arr_put :: "int \<Rightarrow> 'a \<Rightarrow> 'a list \<Rightarrow> 'a list result" where
  "arr_put i v a = (if 0 \<le> i \<and> i < int (length a) then Inr (a[nat i := v]) else Inl OutOfBounds)"

definition c_rem :: "int \<Rightarrow> int \<Rightarrow> int result" where
  "c_rem a b = (if b = 0 then Inl DivByZero else Inr (a smod b))"

definition deref :: "'a option \<Rightarrow> 'a result" where
  "deref x = (case x of None \<Rightarrow> Inl NullDeref | Some y \<Rightarrow> Inr y)"

lemma smod_nonneg: "0 \<le> (a::int) \<Longrightarrow> 0 < n \<Longrightarrow> a smod n = a mod n"
  by (simp add: smod_int_alt_def sgn_if)

lemma arr_at_nth [simp]: "0 \<le> i \<Longrightarrow> nat i < length a \<Longrightarrow> arr_at i a = Inr (a ! nat i)"
  by (simp add: arr_at_def)

lemma arr_put_nth [simp]: "0 \<le> i \<Longrightarrow> nat i < length a \<Longrightarrow> arr_put i v a = Inr (a[nat i := v])"
  by (simp add: arr_put_def)

lemma deref_Some [simp]: "deref (Some x) = Inr x"
  by (simp add: deref_def)

subsection \<open>The interface of std::map\<close>

locale std_map =
  fixes empty :: 'm
    and get :: "'k::linorder \<Rightarrow> 'm \<Rightarrow> 'v option"
    and put :: "'k \<Rightarrow> 'v \<Rightarrow> 'm \<Rightarrow> 'm"
    and del :: "'k \<Rightarrow> 'm \<Rightarrow> 'm"
    and keys :: "'m \<Rightarrow> 'k list"
    and invar :: "'m \<Rightarrow> bool"
  assumes get_empty: "get k empty = None"
    and get_put: "get k (put k' v m) = (if k = k' then Some v else get k m)"
    and get_del: "get k (del k' m) = (if k = k' then None else get k m)"
    and keys_get: "k \<in> set (keys m) \<longleftrightarrow> get k m \<noteq> None"
    and invar_empty: "invar empty"
    and invar_put: "invar m \<Longrightarrow> invar (put k v m)"
    and invar_del: "invar m \<Longrightarrow> invar (del k m)"
    and keys_sorted: "invar m \<Longrightarrow> sorted_wrt (<) (keys m)"
begin

lemma distinct_keys: "invar m \<Longrightarrow> distinct (keys m)"
  using keys_sorted strict_sorted_iff by blast

lemma put_put_get: "get k (put k' v (put k' w m)) = get k (put k' v m)"
  by (simp add: get_put)

lemma set_keys_put: "set (keys (put k v m)) = insert k (set (keys m))"
  by (auto simp: keys_get get_put split: if_splits)

lemma set_keys_del: "set (keys (del k m)) = set (keys m) - {k}"
  by (auto simp: keys_get get_del split: if_splits)

text \<open>Iteration visits the same keys in the same order after an assignment to
  an existing key.\<close>

lemma keys_put_existing:
  assumes "invar m" and "get k m \<noteq> None"
  shows "keys (put k v m) = keys m"
proof -
  have "set (keys (put k v m)) = set (keys m)"
    using assms by (auto simp: set_keys_put keys_get)
  then show ?thesis
    using assms keys_sorted[of m] keys_sorted[OF invar_put[OF assms(1)], of k v]
    by (metis strict_sorted_equal)
qed

lemma length_keys_put_fresh:
  assumes "invar m" and "get k m = None"
  shows "length (keys (put k v m)) = Suc (length (keys m))"
proof -
  have "length (keys (put k v m)) = card (set (keys (put k v m)))"
    using distinct_keys[OF invar_put[OF assms(1)], of k v] by (simp add: distinct_card)
  also have "\<dots> = Suc (card (set (keys m)))"
    using assms(2) by (simp add: set_keys_put keys_get)
  also have "card (set (keys m)) = length (keys m)"
    using distinct_keys[OF assms(1)] by (simp add: distinct_card)
  finally show ?thesis .
qed

end

subsection \<open>Its model: an association list in key order\<close>

type_synonym ('k, 'v) omap = "('k \<times> 'v) list"

definition om_empty :: "('k, 'v) omap" where
  "om_empty = []"

definition om_get :: "'k \<Rightarrow> ('k, 'v) omap \<Rightarrow> 'v option" where
  "om_get k m = map_of m k"

fun om_put :: "'k::linorder \<Rightarrow> 'v \<Rightarrow> ('k, 'v) omap \<Rightarrow> ('k, 'v) omap" where
  "om_put k v [] = [(k, v)]"
| "om_put k v ((k', v') # m) =
     (if k < k' then (k, v) # (k', v') # m
      else if k = k' then (k, v) # m
      else (k', v') # om_put k v m)"

definition om_del :: "'k \<Rightarrow> ('k, 'v) omap \<Rightarrow> ('k, 'v) omap" where
  "om_del k m = filter (\<lambda>e. fst e \<noteq> k) m"

definition om_keys :: "('k, 'v) omap \<Rightarrow> 'k list" where
  "om_keys m = List.map fst m"

definition om_inv :: "('k::linorder, 'v) omap \<Rightarrow> bool" where
  "om_inv m = sorted_wrt (<) (om_keys m)"

text \<open>A loop over the map that updates every value.\<close>

definition om_map :: "('v \<Rightarrow> 'w) \<Rightarrow> ('k, 'v) omap \<Rightarrow> ('k, 'w) omap" where
  "om_map f m = List.map (\<lambda>(k, v). (k, f v)) m"

lemma om_get_Nil [simp]: "om_get k [] = None"
  by (simp add: om_get_def)

lemma om_get_Cons: "om_get k ((k', v) # m) = (if k = k' then Some v else om_get k m)"
  by (simp add: om_get_def)

lemma om_get_put: "om_get k (om_put k' v m) = (if k = k' then Some v else om_get k m)"
  by (induction m) (auto simp: om_get_Cons)

lemma om_get_del: "om_get k (om_del k' m) = (if k = k' then None else om_get k m)"
  by (induction m) (auto simp: om_get_Cons om_del_def)

lemma om_keys_simps [simp]:
  "om_keys [] = []"
  "om_keys (e # m) = fst e # om_keys m"
  by (simp_all add: om_keys_def)

lemma length_om_keys [simp]: "length (om_keys m) = length m"
  by (simp add: om_keys_def)

lemma om_keys_get: "k \<in> set (om_keys m) \<longleftrightarrow> om_get k m \<noteq> None"
  by (simp add: om_keys_def om_get_def map_of_eq_None_iff)

lemma set_om_keys_put: "set (om_keys (om_put k v m)) = insert k (set (om_keys m))"
  by (induction k v m rule: om_put.induct) (simp_all add: insert_commute)

lemma om_inv_simps [simp]:
  "om_inv []"
  "om_inv (e # m) \<longleftrightarrow> (\<forall>k\<in>set (om_keys m). fst e < k) \<and> om_inv m"
  by (simp_all add: om_inv_def)

lemma om_inv_put: "om_inv m \<Longrightarrow> om_inv (om_put k v m)"
  by (induction k v m rule: om_put.induct) (auto simp: set_om_keys_put intro: less_trans)

lemma om_inv_del: "om_inv m \<Longrightarrow> om_inv (om_del k m)"
  by (induction m) (auto simp: om_del_def om_keys_def)

interpretation om: std_map om_empty om_get om_put om_del om_keys om_inv
  by unfold_locales
    (auto simp: om_empty_def om_get_put om_get_del om_keys_get om_inv_put om_inv_del,
      simp add: om_inv_def)

lemma om_keys_map [simp]: "om_keys (om_map f m) = om_keys m"
  by (simp add: om_map_def om_keys_def split_beta)

lemma om_inv_map [simp]: "om_inv (om_map f m) = om_inv m"
  by (simp add: om_inv_def)

lemma length_om_map [simp]: "length (om_map f m) = length m"
  by (simp add: om_map_def)

lemma om_get_map [simp]: "om_get k (om_map f m) = map_option f (om_get k m)"
  by (induction m) (auto simp: om_map_def om_get_Cons)

lemma om_get_mem: "om_get k m = Some v \<Longrightarrow> (k, v) \<in> set m"
  by (simp add: om_get_def map_of_SomeD)

lemma om_mem_get: "om_inv m \<Longrightarrow> (k, v) \<in> set m \<Longrightarrow> om_get k m = Some v"
  using om.distinct_keys[of m] map_of_is_SomeI[of m k v] by (simp add: om_get_def om_keys_def)

lemma om_mem_get_iff: "om_inv m \<Longrightarrow> (k, v) \<in> set m \<longleftrightarrow> om_get k m = Some v"
  by (rule iffI) (rule om_mem_get, assumption+, rule om_get_mem)

text \<open>The values after an assignment, as far as a property of all entries or a
  sum over them is concerned.\<close>

lemma om_all_put:
  assumes "\<forall>(k, v)\<in>set m. P k v" and "P k' v'"
  shows "\<forall>(k, v)\<in>set (om_put k' v' m). P k v"
  using assms by (induction k' v' m rule: om_put.induct) (auto split: if_splits)

lemma om_all_map:
  assumes "\<forall>(k, v)\<in>set m. P k v" and "\<And>k v. P k v \<Longrightarrow> P k (f v)"
  shows "\<forall>(k, v)\<in>set (om_map f m). P k v"
  using assms by (auto simp: om_map_def)

definition om_sum :: "('v \<Rightarrow> 'a::ab_group_add) \<Rightarrow> ('k, 'v) omap \<Rightarrow> 'a" where
  "om_sum f m = sum_list (List.map (\<lambda>(k, v). f v) m)"

lemma om_sum_simps [simp]:
  "om_sum f [] = 0"
  "om_sum f ((k, v) # m) = f v + om_sum f m"
  by (simp_all add: om_sum_def)

lemma om_get_None_less: "om_inv m \<Longrightarrow> \<forall>k'\<in>set (om_keys m). k < k' \<Longrightarrow> om_get k m = None"
  using om_keys_get by fastforce

lemma om_sum_put:
  assumes "om_inv m"
  shows "om_sum f (om_put k v m) =
    om_sum f m + f v - (case om_get k m of None \<Rightarrow> 0 | Some w \<Rightarrow> f w)"
  using assms
proof (induction m)
  case (Cons e m)
  obtain k' w where e: "e = (k', w)" by (cases e)
  show ?case
  proof (cases "k < k'")
    case True
    then have "om_get k (e # m) = None"
      using Cons.prems e by (intro om_get_None_less) auto
    then show ?thesis using True e by simp
  qed (use Cons e in \<open>auto simp: om_get_Cons algebra_simps\<close>)
qed simp

lemma om_sum_map: "om_sum f (om_map g m) = om_sum (\<lambda>v. f (g v)) m"
  by (induction m) (auto simp: om_map_def)

lemma om_sum_add: "om_sum (\<lambda>v. f v + g v) m = om_sum f m + om_sum g m"
  by (induction m) (auto simp: algebra_simps)

end
