(* ===== verification/Packet.thy ===== *)
theory Packet
  imports Prelude
begin

text \<open>
  The packet of \<^verbatim>\<open>common/packet.h\<close>, \<^verbatim>\<open>common/ip.h\<close> and \<^verbatim>\<open>common/flags.h\<close> as far
  as the components read or write it: the common header with the rows that the
  load balancers add, the IP header and the flags.  Fields that no modelled
  component reads (next hop, interface, tracing times) are left out.
\<close>

record CongaRow =
  en_flag :: int
  srcLeaf :: int
  portChose :: int
  congDegree :: int

record CLBRow =
  record_en :: bool
  vp_id :: u32
  p_en :: bool
  p_index :: u32
  SN_HSN :: u32
  gen_id :: u32
  block_size :: u32
  burst_id :: u32
  road_ecn :: bool
  response_en :: bool
  vp_rid :: u32
  vp_rcnt :: u32
  vp_recn :: bool
  ecn_ratio :: rat
  ecn_accratio :: rat
  burst_rate :: rat

text \<open>\<^verbatim>\<open>CLOVERow\<close> has the fields of \<^verbatim>\<open>CLBRow\<close>; \<^verbatim>\<open>HermesRow\<close> adds the send time and
  the reported round trip time.\<close>

record CLOVERow =
  clove_record_en :: bool
  clove_vp_id :: u32
  clove_p_en :: bool
  clove_p_index :: u32
  clove_SN_HSN :: u32
  clove_gen_id :: u32
  clove_block_size :: u32
  clove_burst_id :: u32
  clove_road_ecn :: bool
  clove_response_en :: bool
  clove_vp_rid :: u32
  clove_vp_rcnt :: u32
  clove_vp_recn :: bool
  clove_ecn_ratio :: rat
  clove_ecn_accratio :: rat
  clove_burst_rate :: rat

record HermesRow =
  hermes_record_en :: bool
  hermes_vp_id :: u32
  hermes_p_en :: bool
  hermes_p_index :: u32
  hermes_SN_HSN :: u32
  hermes_gen_id :: u32
  hermes_block_size :: u32
  hermes_burst_id :: u32
  hermes_road_ecn :: bool
  hermes_vp_time :: rat
  hermes_response_en :: bool
  hermes_vp_rid :: u32
  hermes_vp_rcnt :: u32
  hermes_vp_recn :: bool
  hermes_ecn_ratio :: rat
  hermes_ecn_accratio :: rat
  hermes_burst_rate :: rat
  hermes_vp_rtt :: rat

record packet =
  uid :: int
  pkt_size :: int
  timestamp :: rat
  saddr :: int
  sport :: int
  daddr :: int
  dport :: int
  ttl :: int
  fid :: int
  ecnecho :: u8
  ce :: u8
  ect :: u8
  ifTunnel :: int
  vPath :: int
  ifCONGA :: int
  LBTag :: int
  CE :: int
  ecmpHashKey :: u32
  flowID :: int
  congaRouteRow :: CongaRow
  congaResponseRow :: CongaRow
  clb_row :: CLBRow
  clove_row :: CLOVERow
  hermes_row :: HermesRow

definition CongaRow_zero :: CongaRow where
  "CongaRow_zero = \<lparr> en_flag = 0, srcLeaf = 0, portChose = 0, congDegree = 0 \<rparr>"

definition CLBRow_zero :: CLBRow where
  "CLBRow_zero = \<lparr> record_en = False, vp_id = 0, p_en = False, p_index = 0, SN_HSN = 0,
     gen_id = 0, block_size = 0, burst_id = 0, road_ecn = False, response_en = False,
     vp_rid = 0, vp_rcnt = 0, vp_recn = False, ecn_ratio = 0, ecn_accratio = 0,
     burst_rate = 0 \<rparr>"

definition CLOVERow_zero :: CLOVERow where
  "CLOVERow_zero = \<lparr> clove_record_en = False, clove_vp_id = 0, clove_p_en = False, clove_p_index = 0,
     clove_SN_HSN = 0, clove_gen_id = 0, clove_block_size = 0, clove_burst_id = 0,
     clove_road_ecn = False, clove_response_en = False, clove_vp_rid = 0, clove_vp_rcnt =
     0, clove_vp_recn = False, clove_ecn_ratio = 0, clove_ecn_accratio = 0,
     clove_burst_rate = 0 \<rparr>"

definition HermesRow_zero :: HermesRow where
  "HermesRow_zero = \<lparr> hermes_record_en = False, hermes_vp_id = 0, hermes_p_en = False, hermes_p_index = 0,
     hermes_SN_HSN = 0, hermes_gen_id = 0, hermes_block_size = 0, hermes_burst_id = 0,
     hermes_road_ecn = False, hermes_vp_time = 0, hermes_response_en = False,
     hermes_vp_rid = 0, hermes_vp_rcnt = 0, hermes_vp_recn = False, hermes_ecn_ratio = 0,
     hermes_ecn_accratio = 0, hermes_burst_rate = 0, hermes_vp_rtt = 0 \<rparr>"

text \<open>\<^verbatim>\<open>Packet::alloc\<close> clears the headers (\<^verbatim>\<open>Packet::init\<close>) and the rows.\<close>

definition Packet_alloc :: packet where
  "Packet_alloc = \<lparr> uid = 0, pkt_size = 0, timestamp = 0, saddr = 0, sport = 0, daddr = 0,
     dport = 0, ttl = 0, fid = 0, ecnecho = 0, ce = 0, ect = 0, ifTunnel = 0, vPath = 0, ifCONGA = 0, LBTag = 0,
     CE = 0, ecmpHashKey = 0, flowID = 0,
     congaRouteRow = CongaRow_zero, congaResponseRow = CongaRow_zero, clb_row = CLBRow_zero,
     clove_row = CLOVERow_zero, hermes_row = HermesRow_zero \<rparr>"

text \<open>A handler hands a packet to the object its classifier finds for it
  (\<^verbatim>\<open>target->recv(p)\<close>) or frees it when there is none.  Objects are numbered;
  \<^verbatim>\<open>c_find\<close> is the lookup \<^verbatim>\<open>c_->find(p)\<close>.\<close>

type_synonym nsobject = nat

datatype effect = Recv nsobject packet | Free packet

fun effect_packet :: "effect \<Rightarrow> packet" where
  "effect_packet (Recv _ p) = p"
| "effect_packet (Free p) = p"

definition hand_over :: "(packet \<Rightarrow> nsobject option) \<Rightarrow> packet \<Rightarrow> effect" where
  "hand_over c_find p = (case c_find p of None \<Rightarrow> Free p | Some t \<Rightarrow> Recv t p)"

lemma effect_packet_hand_over [simp]: "effect_packet (hand_over c_find p) = p"
  by (simp add: hand_over_def split: option.split)

end
