(* ===== verification/ReorderBuffer.thy ===== *)
theory ReorderBuffer
  imports Packet
begin

text \<open>
  The reorder buffer of the CLB processor (\<^verbatim>\<open>clb/clb-processor.cc\<close>,
  \<^verbatim>\<open>Init_PacketQueue\<close> to \<^verbatim>\<open>reorder\<close>): an array of \<^verbatim>\<open>QUEUE_SIZE\<close> slots indexed
  by the sequence number modulo the size, and the next sequence number to
  deliver.  Its specification is an abstract buffer that holds the packets that
  arrived ahead of a gap and delivers the longest run without a gap.
\<close>

subsection \<open>The code\<close>

definition QUEUE_SIZE :: nat where
  "QUEUE_SIZE = 100000"

record reorder_info =
  seq :: u32
  flag :: bool
  reorder_p :: packet
  slot_time :: rat

record reorder_buf =
  reorder_value :: u32
  PacketQueue :: "nat \<Rightarrow> reorder_info"

definition QID :: "u32 \<Rightarrow> nat" where
  "QID x = unat x mod QUEUE_SIZE"

text \<open>\<^verbatim>\<open>QID\<close> of an \<^verbatim>\<open>int\<close> is the signed remainder of C.\<close>

definition QID_int :: "int \<Rightarrow> int" where
  "QID_int x = x smod int QUEUE_SIZE"

definition clear_flag :: "nat \<Rightarrow> reorder_buf \<Rightarrow> reorder_buf" where
  "clear_flag i rb = rb\<lparr>PacketQueue := (PacketQueue rb)(i := (PacketQueue rb i)\<lparr>flag := False\<rparr>)\<rparr>"

definition Init_PacketQueue :: "reorder_buf \<Rightarrow> reorder_buf" where
  "Init_PacketQueue rb = fold clear_flag [0..<QUEUE_SIZE] rb"

text \<open>One round of the loop that empties a full buffer.\<close>

definition flush_step ::
    "(packet \<Rightarrow> nsobject option) \<Rightarrow> nat \<Rightarrow> reorder_buf \<times> effect list \<Rightarrow> reorder_buf \<times> effect list" where
  "flush_step c_find i st = (case st of (rb, out) \<Rightarrow>
     let j = QID (reorder_value rb + of_nat i) in
     if flag (PacketQueue rb j)
     then (clear_flag j rb, out @ [hand_over c_find (reorder_p (PacketQueue rb j))])
     else (rb, out))"

definition flush :: "(packet \<Rightarrow> nsobject option) \<Rightarrow> reorder_buf \<Rightarrow> reorder_buf \<times> effect list" where
  "flush c_find rb = fold (flush_step c_find) [0..<QUEUE_SIZE] (rb, [])"

text \<open>\<^verbatim>\<open>int seq\<close> is the signed reading of the sequence number; the comparison
  with \<^verbatim>\<open>QUEUE_SIZE\<close> is unsigned.  The result is the return value, the buffer
  and what was delivered; a negative index is out of bounds.\<close>

definition Enqueue_PacketQueue ::
    "(packet \<Rightarrow> nsobject option) \<Rightarrow> rat \<Rightarrow> packet \<Rightarrow> reorder_buf \<Rightarrow> (int \<times> reorder_buf \<times> effect list) result" where
  "Enqueue_PacketQueue c_find now p rb =
    (let s = sint (SN_HSN (clb_row p));
         (rb1, out) =
           (if unat (word_of_int s - reorder_value rb) > QUEUE_SIZE
            then (case flush c_find rb of (rb', out) \<Rightarrow> (rb'\<lparr>reorder_value := word_of_int s\<rparr>, out))
            else (rb, []))
     in if QID_int s < 0 then Inl OutOfBounds
        else let i = nat (QID_int s) in
          if flag (PacketQueue rb1 i) then Inr (-1, rb1, out)
          else Inr (0, rb1\<lparr>PacketQueue := (PacketQueue rb1)(i :=
                 \<lparr> seq = word_of_int s, flag = True, reorder_p = p, slot_time = now \<rparr>)\<rparr>, out))"

definition flagged :: "reorder_buf \<Rightarrow> nat set" where
  "flagged rb = {i. i < QUEUE_SIZE \<and> flag (PacketQueue rb i)}"

lemma QUEUE_SIZE_pos [simp]: "0 < QUEUE_SIZE"
  by (simp add: QUEUE_SIZE_def)

lemma QID_less [simp]: "QID x < QUEUE_SIZE"
  by (simp add: QID_def)

lemma clear_flag_simps [simp]:
  "reorder_value (clear_flag i rb) = reorder_value rb"
  "flag (PacketQueue (clear_flag i rb) j) = (i \<noteq> j \<and> flag (PacketQueue rb j))"
  "reorder_p (PacketQueue (clear_flag i rb) j) = reorder_p (PacketQueue rb j)"
  by (auto simp: clear_flag_def)

lemma flagged_clear: "flagged (clear_flag i rb) = flagged rb - {i}"
  by (auto simp: flagged_def)

lemma finite_flagged [simp]: "finite (flagged rb)"
  by (simp add: flagged_def)

lemma flagged_rv [simp]: "flagged (rb\<lparr>reorder_value := v\<rparr>) = flagged rb"
  by (simp add: flagged_def)

text \<open>The loop of \<^verbatim>\<open>Dequeue_PacketQueue\<close>; each round clears one flag.\<close>

function dequeue_loop ::
    "(packet \<Rightarrow> nsobject option) \<Rightarrow> reorder_buf \<Rightarrow> int \<Rightarrow> effect list \<Rightarrow> int \<times> reorder_buf \<times> effect list" where
  "dequeue_loop c_find rb ret out =
    (let j = QID (reorder_value rb) in
     if flag (PacketQueue rb j)
     then dequeue_loop c_find ((clear_flag j rb)\<lparr>reorder_value := reorder_value rb + 1\<rparr>) (ret + 1)
            (out @ [hand_over c_find (reorder_p (PacketQueue rb j))])
     else (ret, rb, out))"
  by pat_completeness auto
termination
proof (relation "measure (\<lambda>(c_find, rb, ret, out). card (flagged rb))", goal_cases)
  case (2 c_find rb ret out j)
  then have "j \<in> flagged rb" by (simp add: flagged_def)
  then have "card (flagged rb - {j}) < card (flagged rb)"
    by (intro card_Diff1_less finite_flagged)
  then show ?case by (simp only: in_measure prod.case flagged_rv flagged_clear)
qed simp

declare dequeue_loop.simps [simp del]

definition Dequeue_PacketQueue ::
    "(packet \<Rightarrow> nsobject option) \<Rightarrow> reorder_buf \<Rightarrow> int \<times> reorder_buf \<times> effect list" where
  "Dequeue_PacketQueue c_find rb =
    (if \<not> flag (PacketQueue rb (QID (reorder_value rb))) then (0, rb, [])
     else dequeue_loop c_find rb 0 [])"

text \<open>\<^verbatim>\<open>reorder\<close> ignores both return values and returns 2.\<close>

definition reorder ::
    "(packet \<Rightarrow> nsobject option) \<Rightarrow> rat \<Rightarrow> packet \<Rightarrow> reorder_buf \<Rightarrow> (int \<times> reorder_buf \<times> effect list) result" where
  "reorder c_find now p rb =
    bind_r (Enqueue_PacketQueue c_find now p rb) (\<lambda>(_, rb1, out1).
      case Dequeue_PacketQueue c_find rb1 of (_, rb2, out2) \<Rightarrow> Inr (2, rb2, out1 @ out2))"

text \<open>A sequence of arrivals.\<close>

fun reorder_all ::
    "(packet \<Rightarrow> nsobject option) \<Rightarrow> (rat \<times> packet) list \<Rightarrow> reorder_buf \<Rightarrow> (reorder_buf \<times> effect list) result" where
  "reorder_all c_find [] rb = Inr (rb, [])"
| "reorder_all c_find ((now, p) # ps) rb =
    bind_r (reorder c_find now p rb) (\<lambda>(_, rb1, out1).
      bind_r (reorder_all c_find ps rb1) (\<lambda>(rb2, out2). Inr (rb2, out1 @ out2)))"

subsection \<open>Sequence numbers and slots\<close>

lemma sint_small:
  fixes w :: u32
  assumes "unat w < 2 ^ 31"
  shows "sint w = int (unat w)"
proof -
  have "int (unat w) < int (2 ^ 31)" using assms by (simp only: of_nat_less_iff)
  then have "uint w < 2 ^ 31" by simp
  moreover have "- (2 ^ 31) \<le> uint w" by (rule order_trans[OF _ uint_nonnegative]) simp
  ultimately have "signed_take_bit 31 (uint w) = uint w"
    by (intro signed_take_bit_int_eq_self)
  then show ?thesis by (simp add: sint_uint)
qed

lemma unat_u32: "k < 2 ^ 32 \<Longrightarrow> unat (of_nat k :: u32) = k"
  by (simp add: unat_of_nat)

lemma QID_of_nat: "n < 2 ^ 32 \<Longrightarrow> QID (of_nat n) = n mod QUEUE_SIZE"
  by (simp add: QID_def unat_of_nat)

lemma QID_int_of_nat: "QID_int (int s) = int (s mod QUEUE_SIZE)"
  by (simp add: QID_int_def signed_modulo_int_def zmod_int sgn_if)

lemma word_diff_ge:
  assumes "n \<le> s" and "s < 2 ^ 32"
  shows "unat (of_nat s - of_nat n :: u32) = s - n"
proof -
  have eq: "(of_nat s - of_nat n :: u32) = of_nat (s - n)"
    using assms(1) by (simp add: of_nat_diff)
  have "s - n < 2 ^ 32" using assms(2) by linarith
  then show ?thesis by (simp only: eq unat_u32)
qed

lemma word_diff_less:
  assumes "s < n" and "n < 2 ^ 32"
  shows "unat (of_nat s - of_nat n :: u32) = 2 ^ 32 + s - n"
proof -
  have "(of_nat (2 ^ 32 + s - n) :: u32) = of_nat (2 ^ 32) + of_nat s - of_nat n"
    using assms by (simp only: of_nat_diff of_nat_add)
  then have eq: "(of_nat s - of_nat n :: u32) = of_nat (2 ^ 32 + s - n)"
    by simp
  have "2 ^ 32 + s - n < 2 ^ 32" using assms by linarith
  then show ?thesis by (simp only: eq unat_u32)
qed

lemma mod_window_inj:
  fixes a b n q :: nat
  assumes "a mod q = b mod q" "n \<le> a" "a < n + q" "n \<le> b" "b < n + q"
  shows "a = b"
proof -
  have "a = b" if "a \<le> b" "a mod q = b mod q" "n \<le> a" "b < n + q" for a b :: nat
  proof -
    have "q dvd b - a" using that(1,2) mod_eq_dvd_iff_nat[of a b q] by simp
    moreover have "b - a < q" using that by linarith
    ultimately show ?thesis using that(1) nat_dvd_not_less by fastforce
  qed
  then show ?thesis using assms by (metis nat_le_linear)
qed

subsection \<open>The abstract buffer\<close>

text \<open>The abstract buffer is the next number to deliver and the packets that
  wait, by number.  \<^verbatim>\<open>gap_at n M g\<close>: \<^verbatim>\<open>g\<close> is the first number from \<^verbatim>\<open>n\<close> on that waits for
  its packet.\<close>

definition gap_at :: "nat \<Rightarrow> (nat \<rightharpoonup> packet) \<Rightarrow> nat \<Rightarrow> bool" where
  "gap_at n M g \<longleftrightarrow> n \<le> g \<and> (\<forall>s\<in>{n..<g}. M s \<noteq> None) \<and> M g = None"

definition sq :: "packet \<Rightarrow> nat" where
  "sq p = unat (SN_HSN (clb_row p))"

definition rb_abs :: "nat \<Rightarrow> (nat \<rightharpoonup> packet) \<Rightarrow> reorder_buf \<Rightarrow> bool" where
  "rb_abs n M rb \<longleftrightarrow>
     reorder_value rb = of_nat n \<and> dom M \<subseteq> {n..<n + QUEUE_SIZE} \<and>
     (\<forall>s\<in>{n..<n + QUEUE_SIZE}.
        (if flag (PacketQueue rb (s mod QUEUE_SIZE))
         then M s = Some (reorder_p (PacketQueue rb (s mod QUEUE_SIZE))) else M s = None))"

lemma gap_at_unique: "gap_at n M g \<Longrightarrow> gap_at n M g' \<Longrightarrow> g = g'"
  unfolding gap_at_def by (metis atLeastLessThan_iff nat_neq_iff)

lemma gap_at_exists:
  assumes "dom M \<subseteq> {n..<n + q}"
  shows "\<exists>g. gap_at n M g \<and> g \<le> n + q"
proof -
  let ?P = "\<lambda>g. n \<le> g \<and> M g = None"
  have ex: "?P (n + q)" using assms by (auto simp: domIff)
  then have "?P (LEAST g. ?P g)" by (rule LeastI)
  moreover have "(LEAST g. ?P g) \<le> n + q" using ex by (rule Least_le)
  moreover have "M s \<noteq> None" if "s \<in> {n..<(LEAST g. ?P g)}" for s
    using that not_less_Least by fastforce
  ultimately show ?thesis unfolding gap_at_def by blast
qed

lemma rb_absD:
  assumes "rb_abs n M rb"
  shows "reorder_value rb = of_nat n"
    and "dom M \<subseteq> {n..<n + QUEUE_SIZE}"
    and "\<And>s. n \<le> s \<Longrightarrow> s < n + QUEUE_SIZE \<Longrightarrow>
      flag (PacketQueue rb (s mod QUEUE_SIZE)) \<longleftrightarrow> M s \<noteq> None"
    and "\<And>s p. M s = Some p \<Longrightarrow> reorder_p (PacketQueue rb (s mod QUEUE_SIZE)) = p"
proof -
  show "reorder_value rb = of_nat n" "dom M \<subseteq> {n..<n + QUEUE_SIZE}"
    using assms by (simp_all add: rb_abs_def)
  show fl: "flag (PacketQueue rb (s mod QUEUE_SIZE)) \<longleftrightarrow> M s \<noteq> None"
    if "n \<le> s" "s < n + QUEUE_SIZE" for s
    using assms that by (auto simp: rb_abs_def split: if_splits)
  show "reorder_p (PacketQueue rb (s mod QUEUE_SIZE)) = p" if "M s = Some p" for s p
  proof -
    have "s \<in> {n..<n + QUEUE_SIZE}"
      using assms that by (auto simp: rb_abs_def)
    then show ?thesis using fl[of s] assms that unfolding rb_abs_def by fastforce
  qed
qed

text \<open>Delivering the packet that is next moves the window by one.\<close>

lemma rb_abs_step:
  assumes rb: "rb_abs n M rb" and "M n \<noteq> None" and "n < 2 ^ 32"
  shows "rb_abs (Suc n) (M(n := None))
    ((clear_flag (QID (reorder_value rb)) rb)\<lparr>reorder_value := reorder_value rb + 1\<rparr>)"
proof -
  note D = rb_absD[OF rb]
  have q: "QID (reorder_value rb) = n mod QUEUE_SIZE" using D(1) assms(3) by (simp add: QID_of_nat)
  have *: "flag (PacketQueue (clear_flag (n mod QUEUE_SIZE) rb) (s mod QUEUE_SIZE)) \<longleftrightarrow> M s \<noteq> None"
    if "Suc n \<le> s" "s < Suc n + QUEUE_SIZE" for s
  proof (cases "s = n + QUEUE_SIZE")
    case True
    then show ?thesis using D(2) by auto
  next
    case False
    then have "n mod QUEUE_SIZE \<noteq> s mod QUEUE_SIZE"
      using that mod_window_inj[of n QUEUE_SIZE s n] by auto
    then show ?thesis using that False D(3)[of s] by simp
  qed
  have "dom (M(n := None)) \<subseteq> {Suc n..<Suc n + QUEUE_SIZE}"
    using D(2) by (fastforce simp: domIff split: if_splits)
  moreover have "if flag (PacketQueue (clear_flag (n mod QUEUE_SIZE) rb) (s mod QUEUE_SIZE))
      then M s = Some (reorder_p (PacketQueue rb (s mod QUEUE_SIZE)))
      else M s = None" if "Suc n \<le> s" "s < Suc n + QUEUE_SIZE" for s
    using *[OF that] D(4)[of s] that by (auto simp del: clear_flag_simps(2))
  ultimately show ?thesis
    using D(1) by (simp add: rb_abs_def q[simplified D(1)] del: clear_flag_simps(2))
qed

lemma dequeue_loop_run:
  assumes "rb_abs n M rb" and "gap_at n M g" and "g < 2 ^ 32"
  shows "\<exists>rb'. dequeue_loop c_find rb r out =
      (r + int (g - n), rb', out @ List.map (\<lambda>s. hand_over c_find (the (M s))) [n..<g]) \<and>
    rb_abs g (M |` {g..}) rb'"
  using assms
proof (induction "g - n" arbitrary: n M rb r out)
  case 0
  note D = rb_absD[OF 0(2)]
  have g: "g = n" "M n = None" using 0 by (auto simp: gap_at_def)
  have "M |` {n..} = M"
  proof
    fix s show "(M |` {n..}) s = M s"
      using D(2) by (cases "M s") (auto simp: restrict_map_def)
  qed
  moreover have "\<not> flag (PacketQueue rb (QID (reorder_value rb)))"
    using D(1) D(3)[of n] g 0(4) by (simp add: QID_of_nat)
  ultimately show ?case using 0(2) g
    by (subst dequeue_loop.simps) (simp add: Let_def)
next
  case (Suc k)
  note D = rb_absD[OF Suc(3)]
  have n: "n < g" using Suc(2) by simp
  then have "M n \<noteq> None" using Suc.prems(2) by (simp add: gap_at_def)
  then obtain p where p: "M n = Some p" by blast
  have q: "QID (reorder_value rb) = n mod QUEUE_SIZE" using D(1) n Suc.prems(3) by (simp add: QID_of_nat)
  have fl: "flag (PacketQueue rb (QID (reorder_value rb)))" using q p D(3)[of n] by simp
  have rp: "reorder_p (PacketQueue rb (QID (reorder_value rb))) = p" using q p D(4)[of n] by simp
  let ?rb = "(clear_flag (QID (reorder_value rb)) rb)\<lparr>reorder_value := reorder_value rb + 1\<rparr>"
  have step: "rb_abs (Suc n) (M(n := None)) ?rb"
    using rb_abs_step[OF Suc.prems(1)] p n Suc.prems(3) by simp
  have gap: "gap_at (Suc n) (M(n := None)) g" using Suc.prems(2) n by (auto simp: gap_at_def)
  have len: "k = g - Suc n" using Suc(2) by simp
  obtain rb' where IH: "dequeue_loop c_find ?rb (r + 1) (out @ [hand_over c_find p]) =
      (r + 1 + int (g - Suc n), rb',
       (out @ [hand_over c_find p]) @ List.map (\<lambda>s. hand_over c_find (the ((M(n := None)) s))) [Suc n..<g])"
    and abs: "rb_abs g ((M(n := None)) |` {g..}) rb'"
    using Suc.hyps(1)[OF len step gap Suc.prems(3), of "r + 1" "out @ [hand_over c_find p]"] by blast
  have "(M(n := None)) |` {g..} = M |` {g..}" using n by (auto simp: restrict_map_def)
  moreover have "[n..<g] = n # [Suc n..<g]" using n by (simp add: upt_conv_Cons)
  moreover have "List.map (\<lambda>s. hand_over c_find (the ((M(n := None)) s))) [Suc n..<g] =
      List.map (\<lambda>s. hand_over c_find (the (M s))) [Suc n..<g]" by simp
  ultimately show ?case using IH abs fl rp p n
    by (subst dequeue_loop.simps) (simp add: Let_def)
qed

subsection \<open>An arrival inside the window\<close>

text \<open>The slot that \<^verbatim>\<open>Enqueue_PacketQueue\<close> writes, when it does not flush.\<close>

lemma Enqueue_no_flush:
  assumes "sq p < 2 ^ 31" and "unat (SN_HSN (clb_row p) - reorder_value rb) \<le> QUEUE_SIZE"
  shows "Enqueue_PacketQueue c_find now p rb =
    (let i = sq p mod QUEUE_SIZE in
     if flag (PacketQueue rb i) then Inr (-1, rb, [])
     else Inr (0, rb\<lparr>PacketQueue := (PacketQueue rb)(i :=
            \<lparr> seq = SN_HSN (clb_row p), flag = True, reorder_p = p, slot_time = now \<rparr>)\<rparr>, []))"
proof -
  have s: "sint (SN_HSN (clb_row p)) = int (sq p)"
    using assms(1) by (simp add: sq_def sint_small)
  have w: "word_of_int (int (sq p)) = SN_HSN (clb_row p)"
    by (simp add: sq_def)
  show ?thesis
    unfolding Enqueue_PacketQueue_def Let_def s
    unfolding w QID_int_of_nat
    using assms(2) by simp
qed

lemma SN_of_nat: "SN_HSN (clb_row p) = of_nat (sq p)"
  by (simp add: sq_def)

lemma window_diff:
  assumes "rb_abs n M rb" and "n \<le> sq p" and "sq p < n + QUEUE_SIZE" and "sq p < 2 ^ 31"
  shows "unat (SN_HSN (clb_row p) - reorder_value rb) \<le> QUEUE_SIZE"
  using assms rb_absD(1)[OF assms(1)] word_diff_ge[of n "sq p"] by (simp add: SN_of_nat)

lemma rb_abs_insert:
  assumes rb: "rb_abs n M rb" and s: "n \<le> s" "s < n + QUEUE_SIZE"
  shows "rb_abs n (M(s \<mapsto> p)) (rb\<lparr>PacketQueue := (PacketQueue rb)(s mod QUEUE_SIZE :=
      \<lparr> seq = w, flag = True, reorder_p = p, slot_time = now \<rparr>)\<rparr>)"
proof -
  note D = rb_absD[OF rb]
  have "(t mod QUEUE_SIZE = s mod QUEUE_SIZE) = (t = s)" if "t \<in> {n..<n + QUEUE_SIZE}" for t
    using that s mod_window_inj[of s QUEUE_SIZE t n] by auto
  then show ?thesis
    using rb s unfolding rb_abs_def by (auto split: if_splits)
qed

lemma Dequeue_PacketQueue_loop: "Dequeue_PacketQueue c_find rb = dequeue_loop c_find rb 0 []"
  using dequeue_loop.simps[of c_find rb 0 "[]"] by (simp add: Dequeue_PacketQueue_def Let_def)

text \<open>A packet inside the window whose number is not waiting: the code inserts it
  and delivers the packets up to the first gap.\<close>

lemma reorder_window:
  assumes rb: "rb_abs n M rb" and Mn: "M n = None"
    and s: "n \<le> sq p" "sq p < n + QUEUE_SIZE" "M (sq p) = None" "sq p < 2 ^ 31"
    and gap: "gap_at n (M(sq p \<mapsto> p)) g" and big: "g < 2 ^ 32"
  shows "\<exists>rb'. reorder c_find now p rb =
      Inr (2, rb', List.map (\<lambda>s. hand_over c_find (the ((M(sq p \<mapsto> p)) s))) [n..<g]) \<and>
    rb_abs g ((M(sq p \<mapsto> p)) |` {g..}) rb'"
proof -
  let ?rb = "rb\<lparr>PacketQueue := (PacketQueue rb)(sq p mod QUEUE_SIZE :=
      \<lparr> seq = SN_HSN (clb_row p), flag = True, reorder_p = p, slot_time = now \<rparr>)\<rparr>"
  have enq: "Enqueue_PacketQueue c_find now p rb = Inr (0, ?rb, [])"
    using Enqueue_no_flush[OF s(4) window_diff[OF rb s(1,2,4)]] rb_absD(3)[OF rb s(1,2)] s(3)
    by (simp add: Let_def)
  have ins: "rb_abs n (M(sq p \<mapsto> p)) ?rb" by (rule rb_abs_insert[OF rb s(1,2)])
  obtain rb' where run: "dequeue_loop c_find ?rb 0 [] = (0 + int (g - n), rb',
      [] @ List.map (\<lambda>s. hand_over c_find (the ((M(sq p \<mapsto> p)) s))) [n..<g])"
    and abs: "rb_abs g ((M(sq p \<mapsto> p)) |` {g..}) rb'"
    using dequeue_loop_run[OF ins gap big] by blast
  show ?thesis using enq abs run by (simp add: reorder_def Dequeue_PacketQueue_loop)
qed

text \<open>A second packet with a number that is waiting is dropped without a trace: it
  is neither delivered nor freed.\<close>

lemma reorder_duplicate:
  assumes rb: "rb_abs n M rb" and Mn: "M n = None"
    and s: "n \<le> sq p" "sq p < n + QUEUE_SIZE" "M (sq p) \<noteq> None" "sq p < 2 ^ 31" and "n < 2 ^ 32"
  shows "reorder c_find now p rb = Inr (2, rb, [])"
proof -
  have enq: "Enqueue_PacketQueue c_find now p rb = Inr (-1, rb, [])"
    using Enqueue_no_flush[OF s(4) window_diff[OF rb s(1,2,4)]] rb_absD(3)[OF rb s(1,2)] s(3)
    by (simp add: Let_def)
  have "\<not> flag (PacketQueue rb (QID (reorder_value rb)))"
    using rb_absD(1)[OF rb] rb_absD(3)[OF rb, of n] Mn assms(7) by (simp add: QID_of_nat)
  then show ?thesis using enq by (simp add: reorder_def Dequeue_PacketQueue_def)
qed

subsection \<open>Sequences of arrivals\<close>

definition arrived :: "(rat \<times> packet) list \<Rightarrow> nat \<rightharpoonup> packet" where
  "arrived ps = map_of (List.map (\<lambda>(t, p). (sq p, p)) ps)"

lemma arrived_simps [simp]:
  "arrived [] = Map.empty"
  "arrived ((t, p) # ps) = (arrived ps)(sq p \<mapsto> p)"
  by (simp_all add: arrived_def)

lemma dom_arrived: "dom (arrived ps) = sq ` snd ` set ps"
  unfolding arrived_def by (force simp: dom_map_of_conv_image_fst image_image split_beta)

lemma arrivedD: "arrived ps s = Some p \<Longrightarrow> sq p = s \<and> p \<in> snd ` set ps"
  unfolding arrived_def by (drule map_of_SomeD) force

lemma gap_at_after_arrival:
  assumes g: "gap_at n (M1 ++ N) g" and g1: "gap_at n M1 g1"
  shows "g1 \<le> g" and "gap_at g1 ((M1 |` {g1..}) ++ N) g"
    and "s \<ge> g1 \<Longrightarrow> ((M1 |` {g1..}) ++ N) s = (M1 ++ N) s"
proof -
  show le: "g1 \<le> g"
  proof (rule ccontr)
    assume "\<not> g1 \<le> g"
    then have "M1 g \<noteq> None" using g g1 unfolding gap_at_def by (meson atLeastLessThan_iff not_le)
    then show False using g by (auto simp: gap_at_def map_add_def split: option.splits)
  qed
  show eq: "((M1 |` {g1..}) ++ N) s = (M1 ++ N) s" if "s \<ge> g1" for s
    using that by (simp add: map_add_def split: option.split)
  show "gap_at g1 ((M1 |` {g1..}) ++ N) g"
    using g g1 le eq unfolding gap_at_def by (metis atLeastLessThan_iff order_trans)
qed

lemma reorder_all_run:
  assumes "rb_abs n M rb" and "M n = None" and "distinct (List.map (sq \<circ> snd) ps)"
    and "\<forall>(t, p)\<in>set ps. sq p \<notin> dom M \<and> n \<le> sq p \<and> sq p < n + QUEUE_SIZE \<and> sq p < 2 ^ 31"
    and "gap_at n (M ++ arrived ps) g" and "g < 2 ^ 32"
  shows "\<exists>rb'. reorder_all c_find ps rb =
      Inr (rb', List.map (\<lambda>s. hand_over c_find (the ((M ++ arrived ps) s))) [n..<g]) \<and>
    rb_abs g ((M ++ arrived ps) |` {g..}) rb'"
  using assms
proof (induction ps arbitrary: n M rb)
  case Nil
  have gn: "gap_at n M n" using Nil(2) by (simp add: gap_at_def)
  have "gap_at n M g" using Nil(5) by simp
  then have "g = n" using gn by (rule gap_at_unique)
  moreover have "M |` {n..} = M"
  proof
    fix s show "(M |` {n..}) s = M s"
      using rb_absD(2)[OF Nil(1)] by (cases "M s") (auto simp: restrict_map_def)
  qed
  ultimately show ?case using Nil by simp
next
  case (Cons a ps)
  obtain t p where a: "a = (t, p)" by (cases a)
  let ?M1 = "M(sq p \<mapsto> p)"
  have s: "n \<le> sq p" "sq p < n + QUEUE_SIZE" "M (sq p) = None" "sq p < 2 ^ 31"
    using Cons.prems(4) a by auto
  have fresh: "sq p \<notin> dom (arrived ps)" using Cons.prems(3) a by (simp add: dom_arrived image_comp)
  have N: "M ++ arrived (a # ps) = ?M1 ++ arrived ps"
    using fresh by (simp add: a map_add_upd_left)
  have "dom ?M1 \<subseteq> {n..<n + QUEUE_SIZE}" using rb_absD(2)[OF Cons.prems(1)] s by auto
  then obtain g1 where g1: "gap_at n ?M1 g1" using gap_at_exists by blast
  note G = gap_at_after_arrival[OF Cons.prems(5)[unfolded N] g1]
  let ?M2 = "?M1 |` {g1..}"
  have big: "g1 < 2 ^ 32" using G(1) Cons.prems(6) by linarith
  obtain rb1 where r1: "reorder c_find t p rb =
      Inr (2, rb1, List.map (\<lambda>s. hand_over c_find (the (?M1 s))) [n..<g1])"
    and abs: "rb_abs g1 ?M2 rb1"
    using reorder_window[OF Cons.prems(1,2) s g1 big] by blast
  have ge: "n \<le> g1" using g1 by (simp add: gap_at_def)
  have "sq q \<notin> dom ?M2 \<and> g1 \<le> sq q \<and> sq q < g1 + QUEUE_SIZE \<and> sq q < 2 ^ 31"
    if "(u, q) \<in> set ps" for u q
  proof -
    have q: "sq q \<notin> dom M" "n \<le> sq q" "sq q < n + QUEUE_SIZE" "sq q < 2 ^ 31"
      using Cons.prems(4) that by auto
    have "sq q \<noteq> sq p" using Cons.prems(3) a that by force
    then have "?M1 (sq q) = None" using q by auto
    then have "\<not> sq q < g1" using g1 q(2) unfolding gap_at_def by (meson atLeastLessThan_iff)
    then show ?thesis using q ge \<open>?M1 (sq q) = None\<close> by (auto simp: restrict_map_def split: if_splits)
  qed
  then have win: "\<forall>(t, p)\<in>set ps. sq p \<notin> dom ?M2 \<and> g1 \<le> sq p \<and> sq p < g1 + QUEUE_SIZE \<and> sq p < 2 ^ 31"
    by blast
  have M2g: "?M2 g1 = None" using g1 by (simp add: gap_at_def restrict_map_def)
  obtain rb2 where r2: "reorder_all c_find ps rb1 =
      Inr (rb2, List.map (\<lambda>s. hand_over c_find (the ((?M2 ++ arrived ps) s))) [g1..<g])"
    and abs2: "rb_abs g ((?M2 ++ arrived ps) |` {g..}) rb2"
    using Cons.IH[OF abs M2g _ win G(2) Cons.prems(6)] Cons.prems(3) by auto
  have "(?M2 ++ arrived ps) |` {g..} = (?M1 ++ arrived ps) |` {g..}"
    using G(1,3) by (auto simp: restrict_map_def fun_eq_iff)
  moreover have "List.map (\<lambda>s. hand_over c_find (the ((?M2 ++ arrived ps) s))) [g1..<g] =
      List.map (\<lambda>s. hand_over c_find (the ((?M1 ++ arrived ps) s))) [g1..<g]"
    using G(3) by simp
  moreover have "the (?M1 s) = the ((?M1 ++ arrived ps) s)" if "s \<in> {n..<g1}" for s
  proof -
    have "?M1 s \<noteq> None" using g1 that unfolding gap_at_def by blast
    moreover have "arrived ps s = None"
    proof (rule ccontr)
      assume "arrived ps s \<noteq> None"
      then obtain u q where "(u, q) \<in> set ps" "sq q = s"
        using dom_arrived[of ps] by (force simp: domIff)
      then show False using win that by force
    qed
    ultimately show ?thesis by (simp add: map_add_def)
  qed
  then have "List.map (\<lambda>s. hand_over c_find (the (?M1 s))) [n..<g1] =
      List.map (\<lambda>s. hand_over c_find (the ((?M1 ++ arrived ps) s))) [n..<g1]" by simp
  moreover have "[n..<g] = [n..<g1] @ [g1..<g]"
    using ge G(1) by (metis le_Suc_ex upt_add_eq_append)
  ultimately show ?case using abs2 r1 r2 unfolding N by (simp add: a)
qed

lemma Init_PacketQueue_simps [simp]:
  "reorder_value (Init_PacketQueue rb) = reorder_value rb"
  "i < QUEUE_SIZE \<Longrightarrow> \<not> flag (PacketQueue (Init_PacketQueue rb) i)"
proof -
  have *: "reorder_value (fold clear_flag is rb) = reorder_value rb \<and>
      (flag (PacketQueue (fold clear_flag is rb) i) \<longrightarrow> i \<notin> set is)" for "is" i
    by (induction "is" arbitrary: rb rule: rev_induct) auto
  show "reorder_value (Init_PacketQueue rb) = reorder_value rb"
    using * by (simp add: Init_PacketQueue_def)
  show "i < QUEUE_SIZE \<Longrightarrow> \<not> flag (PacketQueue (Init_PacketQueue rb) i)"
    using *[of "[0..<QUEUE_SIZE]" i] by (simp add: Init_PacketQueue_def)
qed

lemma rb_abs_empty:
  assumes "reorder_value rb = of_nat n" and "\<And>i. i < QUEUE_SIZE \<Longrightarrow> \<not> flag (PacketQueue rb i)"
  shows "rb_abs n Map.empty rb"
  using assms by (simp add: rb_abs_def)

subsection \<open>The flush\<close>

text \<open>The waiting packets in order of their numbers.\<close>

definition waiting :: "nat \<Rightarrow> (nat \<rightharpoonup> packet) \<Rightarrow> packet list" where
  "waiting n M = List.map (the \<circ> M) (filter (\<lambda>s. M s \<noteq> None) [n..<n + QUEUE_SIZE])"

lemma flush_steps:
  assumes rb: "rb_abs n M rb" and "n + QUEUE_SIZE \<le> 2 ^ 32" and "k \<le> QUEUE_SIZE"
  shows "\<exists>rb'. fold (flush_step c_find) [0..<k] (rb, []) =
      (rb', List.map (hand_over c_find \<circ> the \<circ> M) (filter (\<lambda>s. M s \<noteq> None) [n..<n + k])) \<and>
    reorder_value rb' = of_nat n \<and>
    (\<forall>s\<in>{n..<n + QUEUE_SIZE}.
       (flag (PacketQueue rb' (s mod QUEUE_SIZE)) \<longleftrightarrow> n + k \<le> s \<and> M s \<noteq> None) \<and>
       reorder_p (PacketQueue rb' (s mod QUEUE_SIZE)) = reorder_p (PacketQueue rb (s mod QUEUE_SIZE)))"
  using assms(3)
proof (induction k)
  case 0
  then show ?case using rb_absD[OF rb] by simp
next
  case (Suc k)
  note D = rb_absD[OF rb]
  obtain rb' where IH: "fold (flush_step c_find) [0..<k] (rb, []) =
      (rb', List.map (hand_over c_find \<circ> the \<circ> M) (filter (\<lambda>s. M s \<noteq> None) [n..<n + k]))"
    and rv: "reorder_value rb' = of_nat n"
    and sl: "\<And>s. s \<in> {n..<n + QUEUE_SIZE} \<Longrightarrow>
      flag (PacketQueue rb' (s mod QUEUE_SIZE)) \<longleftrightarrow> n + k \<le> s \<and> M s \<noteq> None"
    and rp: "\<And>s. s \<in> {n..<n + QUEUE_SIZE} \<Longrightarrow>
      reorder_p (PacketQueue rb' (s mod QUEUE_SIZE)) = reorder_p (PacketQueue rb (s mod QUEUE_SIZE))"
    using Suc by auto
  have q: "QID (reorder_value rb' + of_nat k) = (n + k) mod QUEUE_SIZE"
    using rv QID_of_nat[of "n + k"] assms(2) Suc.prems by simp
  have in_win: "n + k \<in> {n..<n + QUEUE_SIZE}" using Suc.prems by simp
  have inj: "((n + k) mod QUEUE_SIZE = s mod QUEUE_SIZE) = (s = n + k)"
    if "s \<in> {n..<n + QUEUE_SIZE}" for s
    using that in_win mod_window_inj[of "n + k" QUEUE_SIZE s n] by auto
  show ?case
  proof (cases "M (n + k)")
    case None
    have "flush_step c_find k (rb', out) = (rb', out)" for out
      using q sl[OF in_win] None by (simp add: flush_step_def Let_def)
    moreover have "flag (PacketQueue rb' (s mod QUEUE_SIZE)) \<longleftrightarrow> n + Suc k \<le> s \<and> M s \<noteq> None"
      if "s \<in> {n..<n + QUEUE_SIZE}" for s
      using sl[OF that] None by (cases "s = n + k") auto
    ultimately show ?thesis using IH rv rp None by simp
  next
    case (Some p)
    have "flush_step c_find k (rb', out) =
        (clear_flag ((n + k) mod QUEUE_SIZE) rb', out @ [hand_over c_find p])" for out
      using q sl[OF in_win] rp[OF in_win] D(4)[OF Some] Some by (simp add: flush_step_def Let_def)
    moreover have "flag (PacketQueue (clear_flag ((n + k) mod QUEUE_SIZE) rb') (s mod QUEUE_SIZE))
        \<longleftrightarrow> n + Suc k \<le> s \<and> M s \<noteq> None" if "s \<in> {n..<n + QUEUE_SIZE}" for s
      using sl[OF that] inj[OF that] by auto
    ultimately show ?thesis using IH rv rp Some by simp
  qed
qed

lemma flush_run:
  assumes rb: "rb_abs n M rb" and "n + QUEUE_SIZE \<le> 2 ^ 32"
  shows "\<exists>rb'. flush c_find rb = (rb', List.map (hand_over c_find) (waiting n M)) \<and>
    (\<forall>i<QUEUE_SIZE. \<not> flag (PacketQueue rb' i))"
proof -
  obtain rb' where r: "flush c_find rb =
      (rb', List.map (hand_over c_find \<circ> the \<circ> M) (filter (\<lambda>s. M s \<noteq> None) [n..<n + QUEUE_SIZE]))"
    and sl: "\<And>s. s \<in> {n..<n + QUEUE_SIZE} \<Longrightarrow> \<not> flag (PacketQueue rb' (s mod QUEUE_SIZE))"
    using flush_steps[OF rb assms(2), of QUEUE_SIZE c_find] by (auto simp: flush_def)
  have "\<not> flag (PacketQueue rb' i)" if "i < QUEUE_SIZE" for i
  proof -
    let ?s = "n + (i + QUEUE_SIZE - n mod QUEUE_SIZE) mod QUEUE_SIZE"
    have "n mod QUEUE_SIZE \<le> i + QUEUE_SIZE" by (simp add: trans_le_add2)
    then have "?s mod QUEUE_SIZE = i"
      using that by (metis (no_types, lifting) le_add_diff_inverse mod_add_left_eq mod_add_right_eq mod_add_self2 mod_less)
    then show ?thesis using sl[of ?s] by simp
  qed
  then show ?thesis using r by (auto simp: waiting_def comp_assoc)
qed

text \<open>A packet more than \<^verbatim>\<open>QUEUE_SIZE\<close> ahead, and also one behind the window, empties
  the buffer and is delivered itself; the window restarts after it.\<close>

lemma reorder_outside:
  assumes rb: "rb_abs n M rb" and small: "n + QUEUE_SIZE < 2 ^ 32" "sq p < 2 ^ 31"
    and far: "sq p < n \<or> n + QUEUE_SIZE < sq p"
  shows "\<exists>rb'. reorder c_find now p rb =
      Inr (2, rb', List.map (hand_over c_find) (waiting n M @ [p])) \<and> rb_abs (Suc (sq p)) Map.empty rb'"
proof -
  have s: "sint (SN_HSN (clb_row p)) = int (sq p)" "word_of_int (int (sq p)) = (of_nat (sq p) :: u32)"
    using small(2) by (simp_all add: sq_def sint_small)
  have n32: "n < 2 ^ 32" using small(1) by (simp add: QUEUE_SIZE_def)
  have full: "QUEUE_SIZE < unat (of_nat (sq p) - reorder_value rb)"
  proof (cases "sq p < n")
    case True
    then show ?thesis
      using rb_absD(1)[OF rb] word_diff_less[OF True n32] small(1) by (simp add: QUEUE_SIZE_def)
  next
    case False
    then show ?thesis
      using rb_absD(1)[OF rb] word_diff_ge[of n "sq p"] far small(2) by simp
  qed
  obtain rb1 where fl: "flush c_find rb = (rb1, List.map (hand_over c_find) (waiting n M))"
    and empty: "\<And>i. i < QUEUE_SIZE \<Longrightarrow> \<not> flag (PacketQueue rb1 i)"
    using flush_run[OF rb less_imp_le[OF small(1)]] by blast
  let ?rb1 = "rb1\<lparr>reorder_value := of_nat (sq p)\<rparr>"
  let ?rb2 = "?rb1\<lparr>PacketQueue := (PacketQueue rb1)(sq p mod QUEUE_SIZE :=
      \<lparr> seq = of_nat (sq p), flag = True, reorder_p = p, slot_time = now \<rparr>)\<rparr>"
  have abs1: "rb_abs (sq p) Map.empty ?rb1" using empty by (intro rb_abs_empty) auto
  have abs2: "rb_abs (sq p) [sq p \<mapsto> p] ?rb2"
    using rb_abs_insert[OF abs1, of "sq p" p "of_nat (sq p)" now] by simp
  have enq: "Enqueue_PacketQueue c_find now p rb =
      Inr (0, ?rb2, List.map (hand_over c_find) (waiting n M))"
    unfolding Enqueue_PacketQueue_def Let_def s(1)
    unfolding s(2) QID_int_of_nat
    using full fl empty by simp
  have gap: "gap_at (sq p) [sq p \<mapsto> p] (Suc (sq p))" by (simp add: gap_at_def)
  have big: "Suc (sq p) < 2 ^ 32" using small(2) by simp
  have "[sq p \<mapsto> p] |` {Suc (sq p)..} = Map.empty" by (simp add: restrict_map_def fun_eq_iff)
  then show ?thesis
    using enq dequeue_loop_run[OF abs2 gap big, of c_find 0 "[]"]
    by (auto simp: reorder_def Dequeue_PacketQueue_loop)
qed

subsection \<open>The properties\<close>

text \<open>C1: Packets numbered within \<^verbatim>\<open>1..QUEUE_SIZE\<close>, no number twice, arrive in any
  order at an empty buffer that waits for number 1.  What the code delivers in
  total is the packets 1, 2, ..., g-1 in this order, where g is the first number
  that has not arrived.\<close>

theorem reorder_in_order:
  assumes "reorder_value rb = 1"
    and "distinct (List.map (sq \<circ> snd) ps)"
    and "\<forall>(t, p)\<in>set ps. 1 \<le> sq p \<and> sq p \<le> QUEUE_SIZE"
    and "1 \<le> g" and "{1..<g} \<subseteq> sq ` snd ` set ps" and "g \<notin> sq ` snd ` set ps"
  shows "\<exists>rb' qs. reorder_all c_find ps (Init_PacketQueue rb) = Inr (rb', List.map (hand_over c_find) qs) \<and>
    List.map sq qs = [1..<g] \<and> set qs \<subseteq> snd ` set ps"
proof -
  have abs: "rb_abs 1 Map.empty (Init_PacketQueue rb)"
    using assms(1) by (intro rb_abs_empty) auto
  have "arrived ps s \<noteq> None" if "s \<in> {1..<g}" for s
    using that assms(5) dom_arrived[of ps] by blast
  then have gap: "gap_at 1 (Map.empty ++ arrived ps) g"
    using assms(4,6) dom_arrived[of ps] by (auto simp: gap_at_def)
  have "g \<le> Suc QUEUE_SIZE"
  proof (rule ccontr)
    assume "\<not> g \<le> Suc QUEUE_SIZE"
    then have "Suc QUEUE_SIZE \<in> sq ` snd ` set ps" using assms(5) by (auto simp: subset_iff)
    then show False using assms(3) by force
  qed
  then have big: "g < 2 ^ 32" by (simp add: QUEUE_SIZE_def)
  have win: "\<forall>(t, p)\<in>set ps. sq p \<notin> dom Map.empty \<and> 1 \<le> sq p \<and> sq p < 1 + QUEUE_SIZE \<and> sq p < 2 ^ 31"
    using assms(3) by (auto simp: QUEUE_SIZE_def)
  obtain rb' where run: "reorder_all c_find ps (Init_PacketQueue rb) =
      Inr (rb', List.map (hand_over c_find) (List.map (\<lambda>s. the (arrived ps s)) [1..<g]))"
    using reorder_all_run[OF abs _ assms(2) win gap big, of c_find] by (auto simp: comp_def)
  have el: "sq (the (arrived ps s)) = s \<and> the (arrived ps s) \<in> snd ` set ps" if "s \<in> {1..<g}" for s
    using \<open>\<And>s. s \<in> {1..<g} \<Longrightarrow> arrived ps s \<noteq> None\<close>[OF that] arrivedD[of ps s] by auto
  then have "List.map (sq \<circ> (\<lambda>s. the (arrived ps s))) [1..<g] = List.map id [1..<g]"
    by (intro map_cong) auto
  then have "List.map sq (List.map (\<lambda>s. the (arrived ps s)) [1..<g]) = [1..<g]" by simp
  moreover have "set (List.map (\<lambda>s. the (arrived ps s)) [1..<g]) \<subseteq> snd ` set ps"
    using el by auto
  ultimately show ?thesis using run by blast
qed

text \<open>A number outside the window, more than \<^verbatim>\<open>QUEUE_SIZE\<close> ahead of the next
  one or already delivered, makes the code deliver everything that waits in
  order, then the packet itself, and wait for its successor: nothing in the buffer
  is lost, and a late packet moves the window backwards.\<close>

theorem reorder_flushes_outside_window:
  assumes "rb_abs n M rb" and "n + QUEUE_SIZE < 2 ^ 32" and "sq p < 2 ^ 31"
    and "sq p < n \<or> n + QUEUE_SIZE < sq p"
  shows "\<exists>rb'. reorder c_find now p rb =
      Inr (2, rb', List.map (hand_over c_find) (waiting n M @ [p])) \<and>
    reorder_value rb' = SN_HSN (clb_row p) + 1 \<and> flagged rb' = {}"
proof -
  obtain rb' where r: "reorder c_find now p rb =
      Inr (2, rb', List.map (hand_over c_find) (waiting n M @ [p]))"
    and abs: "rb_abs (Suc (sq p)) Map.empty rb'"
    using reorder_outside[OF assms] by blast
  have "\<not> flag (PacketQueue rb' i)" if "i < QUEUE_SIZE" for i
  proof -
    let ?n = "Suc (sq p)"
    let ?s = "?n + (i + QUEUE_SIZE - ?n mod QUEUE_SIZE) mod QUEUE_SIZE"
    have "?n mod QUEUE_SIZE \<le> i + QUEUE_SIZE" by (simp add: trans_le_add2)
    then have "?s mod QUEUE_SIZE = i"
      using that by (metis (no_types, lifting) le_add_diff_inverse mod_add_left_eq mod_add_right_eq mod_add_self2 mod_less)
    then show ?thesis using rb_absD(3)[OF abs, of ?s] by simp
  qed
  then have "flagged rb' = {}" by (simp add: flagged_def)
  moreover have "reorder_value rb' = SN_HSN (clb_row p) + 1"
    using rb_absD(1)[OF abs] by (simp add: SN_of_nat)
  ultimately show ?thesis using r by blast
qed

text \<open>The test for a full buffer lets the number \<^verbatim>\<open>QUEUE_SIZE\<close> ahead of the next
  one through: it takes the slot of the next number, so the packet is delivered at
  once although all the packets from the next number on are missing.\<close>

theorem reorder_ahead_by_QUEUE_SIZE:
  assumes "rb_abs n M rb" and "M n = None" and "sq p = n + QUEUE_SIZE" and "sq p < 2 ^ 31"
  shows "\<exists>rb' rest. reorder c_find now p rb = Inr (2, rb', hand_over c_find p # rest)"
proof -
  note D = rb_absD[OF assms(1)]
  let ?rb = "rb\<lparr>PacketQueue := (PacketQueue rb)(n mod QUEUE_SIZE :=
      \<lparr> seq = SN_HSN (clb_row p), flag = True, reorder_p = p, slot_time = now \<rparr>)\<rparr>"
  have "unat (SN_HSN (clb_row p) - reorder_value rb) \<le> QUEUE_SIZE"
    using D(1) word_diff_ge[of n "sq p"] assms(3,4) by (simp add: SN_of_nat)
  then have enq: "Enqueue_PacketQueue c_find now p rb = Inr (0, ?rb, [])"
    using Enqueue_no_flush[OF assms(4)] D(3)[of n] assms(2,3) by (simp add: Let_def)
  have ins: "rb_abs n (M(n \<mapsto> p)) ?rb" by (rule rb_abs_insert[OF assms(1)]) simp_all
  then obtain g where gap: "gap_at n (M(n \<mapsto> p)) g" and "g \<le> n + QUEUE_SIZE"
    using gap_at_exists rb_absD(2) by blast
  moreover have "n < g" using gap by (cases "n = g") (auto simp: gap_at_def)
  ultimately have "g < 2 ^ 32" "[n..<g] = n # [Suc n..<g]"
    using assms(3,4) by (simp_all add: upt_conv_Cons)
  then show ?thesis
    using enq dequeue_loop_run[OF ins gap, of c_find 0 "[]"]
    by (auto simp: reorder_def Dequeue_PacketQueue_loop)
qed

text \<open>From number \<^verbatim>\<open>2^31\<close> on, the signed reading of the number is negative and so is
  its remainder: unless it is a multiple of the size, the array is read before its
  beginning.\<close>

theorem reorder_negative_index:
  assumes "2 ^ 31 \<le> sq p" and "\<not> QUEUE_SIZE dvd (2 ^ 32 - sq p)"
  shows "reorder c_find now p rb = Inl OutOfBounds"
proof -
  let ?w = "SN_HSN (clb_row p)"
  have u: "uint ?w = int (sq p)" by (simp add: sq_def)
  have lt: "sq p < 2 ^ 32" unfolding sq_def by (rule order_less_le_trans[OF unsigned_less]) simp
  have s: "sint ?w = - int (2 ^ 32 - sq p)"
  proof -
    have "2147483648 \<le> int (sq p)" "int (sq p) < 4294967296" using assms(1) lt by simp_all
    then have "(int (sq p) + 2147483648) mod 4294967296 = int (sq p) - 2147483648"
      by (simp add: mod_pos_geq mod_pos_pos_trivial)
    then have "sint ?w = int (sq p) - 2 ^ 32"
      by (simp add: sint_uint u signed_take_bit_eq_take_bit_shift take_bit_eq_mod del: uint_nat)
    then show ?thesis using u lt by (simp add: of_nat_diff)
  qed
  have "QID_int (sint ?w) = - int ((2 ^ 32 - sq p) mod QUEUE_SIZE)"
    using lt by (simp add: s QID_int_def signed_modulo_int_def zmod_int)
  moreover have "0 < (2 ^ 32 - sq p) mod QUEUE_SIZE" using assms(2) by (simp add: dvd_eq_mod_eq_0)
  ultimately show ?thesis by (simp add: reorder_def Enqueue_PacketQueue_def Let_def split_beta)
qed

subsection \<open>The properties at concrete inputs\<close>

definition numbered :: "u32 \<Rightarrow> packet" where
  "numbered n = Packet_alloc\<lparr>clb_row := CLBRow_zero\<lparr>SN_HSN := n\<rparr>\<rparr>"

definition clear_buf :: "u32 \<Rightarrow> reorder_buf" where
  "clear_buf n = \<lparr> reorder_value = n, PacketQueue =
     (\<lambda>_. \<lparr> seq = 0, flag = False, reorder_p = Packet_alloc, slot_time = 0 \<rparr>) \<rparr>"

lemma sq_numbered [simp]:
  "sq (numbered n) = unat n"
  "SN_HSN (clb_row (numbered n)) = n"
  by (simp_all add: sq_def numbered_def)

lemma clear_buf_abs: "rb_abs n Map.empty (clear_buf (of_nat n))"
  by (rule rb_abs_empty) (simp_all add: clear_buf_def)

lemma reorder_in_order_witness:
  "\<exists>rb' qs. reorder_all (\<lambda>_. Some 0) [(0, numbered 2), (1, numbered 4), (2, numbered 1)]
      (Init_PacketQueue (clear_buf 1)) = Inr (rb', List.map (hand_over (\<lambda>_. Some 0)) qs) \<and>
    List.map sq qs = [1..<3] \<and> set qs \<subseteq> {numbered 2, numbered 4, numbered 1}"
  using reorder_in_order[of "clear_buf 1" "[(0, numbered 2), (1, numbered 4), (2, numbered 1)]" 3
      "\<lambda>_. Some 0"]
  by (simp add: clear_buf_def QUEUE_SIZE_def atLeastLessThan_nat_numeral)

lemma reorder_flushes_outside_window_witness:
  "\<exists>rb'. reorder (\<lambda>_. None) 0 (numbered 3) (clear_buf (of_nat 7)) =
      Inr (2, rb', List.map (hand_over (\<lambda>_. None)) (waiting 7 Map.empty @ [numbered 3])) \<and>
    reorder_value rb' = 4 \<and> flagged rb' = {}"
  using reorder_flushes_outside_window[of 7 Map.empty "clear_buf (of_nat 7)" "numbered 3"
      "\<lambda>_. None" 0, OF clear_buf_abs]
  by (simp add: QUEUE_SIZE_def)

lemma reorder_ahead_by_QUEUE_SIZE_witness:
  "\<exists>rb' rest. reorder (\<lambda>_. None) 0 (numbered 100001) (clear_buf (of_nat 1)) =
      Inr (2, rb', Free (numbered 100001) # rest)"
  using reorder_ahead_by_QUEUE_SIZE[of 1 Map.empty "clear_buf (of_nat 1)" "numbered 100001"
      "\<lambda>_. None" 0, OF clear_buf_abs]
  by (simp add: QUEUE_SIZE_def hand_over_def)

lemma reorder_negative_index_witness:
  "reorder (\<lambda>_. None) 0 (numbered 2147483648) (clear_buf 1) = Inl OutOfBounds"
  using reorder_negative_index[of "numbered 2147483648" "\<lambda>_. None" 0 "clear_buf 1"]
  by (simp add: QUEUE_SIZE_def)

end
