(* ===== verification/CLBProcessor.thy ===== *)
theory CLBProcessor
  imports ReorderBuffer
begin

text \<open>
  The CLB processor of \<^verbatim>\<open>clb/clb-processor.h\<close> and \<^verbatim>\<open>clb/clb-processor.cc\<close>: one end
  of a pair of hosts.  As a sender it spreads packets over virtual paths by smooth
  weighted round robin and probes a path with a burst; as a receiver it counts
  packets per path, reports the counts in the packets it sends and puts the packets
  back in order.  A pointer to a \<^verbatim>\<open>vp_record\<close> or \<^verbatim>\<open>ca_response\<close> is the key under
  which its map holds it; the simulation clock is the argument \<^verbatim>\<open>now\<close>, a value
  of \<^verbatim>\<open>rand()\<close> the argument \<^verbatim>\<open>rnd\<close>.  Debug output and counters are left out.
\<close>

subsection \<open>Constants and data\<close>

definition PRE_RTT :: rat where "PRE_RTT = 16 / 100000"
definition T_REFRESH :: rat where "T_REFRESH = PRE_RTT"
definition T_RSSTIME :: rat where "T_RSSTIME = PRE_RTT * 50"
definition RATE_ALPHA :: rat where "RATE_ALPHA = 1"
definition FLY_ALPHA :: rat where "FLY_ALPHA = 30 / 100"
definition COST_EQUAL :: rat where "COST_EQUAL = 1 / 10000"
definition BURST_PKTCNT :: int where "BURST_PKTCNT = 10"
definition INIT_RRATE :: rat where "INIT_RRATE = 3333333"

record ca_record =
  send_cnt :: u32
  recv_cnt :: u32
  send_undefined :: u32
  recv_undefined :: int
  flying :: rat
  rate :: rat
  r_rate :: rat
  c_rate :: rat
  fresh_time :: rat
  update_time :: rat
  r_time :: rat
  recv_ece_cnt :: u32
  valid :: int
  pending :: int

record vp_record =
  hashkey :: u32
  ca_row :: ca_record

record ca_response =
  rsp_hashkey :: u32
  rsp_recv_cnt :: u32
  rsp_recv_ecn :: bool
  rsp_recv_ecn_cnt :: u32
  rsp_burst_pending :: int
  rsp_burst_cnt :: int
  rsp_burst_time :: rat
  rsp_time :: rat

record clb_processor =
  src :: int
  dst :: int
  VP_SIZE :: int
  hashkey_counter :: u32
  ece_cnt :: u32
  max_ece_cnt :: u32
  init_rrate :: rat
  sequence :: u32
  global_ca :: ca_record
  global_response :: ca_response
  burst_time :: rat
  burst_pending :: bool
  burst_vp :: "u32 option"
  burst_cnt :: int
  vp_map :: "(u32, vp_record) omap"
  ca_queue :: "u32 list"
  ca_map :: "(u32, ca_response) omap"
  rbuf :: reorder_buf

definition init_rate :: rat where
  "init_rate = 1"

definition init_ca_record :: "rat \<Rightarrow> rat \<Rightarrow> ca_record" where
  "init_ca_record now irr = \<lparr> send_cnt = 0, recv_cnt = 0, send_undefined = 0, recv_undefined = 0,
     flying = 0, rate = init_rate, r_rate = irr, c_rate = 0, fresh_time = now, update_time = now,
     r_time = now, recv_ece_cnt = 0, valid = 1, pending = 0 \<rparr>"

definition init_vp_record :: "rat \<Rightarrow> rat \<Rightarrow> vp_record" where
  "init_vp_record now irr = \<lparr> hashkey = 0, ca_row = init_ca_record now irr \<rparr>"

text \<open>\<^verbatim>\<open>init_ca_response\<close> leaves \<^verbatim>\<open>recv_ecn_cnt\<close> alone; \<^verbatim>\<open>new ca_response()\<close> has
  cleared it.\<close>

definition init_ca_response :: "rat \<Rightarrow> ca_response" where
  "init_ca_response now = \<lparr> rsp_hashkey = 0, rsp_recv_cnt = 0, rsp_recv_ecn = False,
     rsp_recv_ecn_cnt = 0, rsp_burst_pending = 0, rsp_burst_cnt = 0, rsp_burst_time = now,
     rsp_time = now \<rparr>"

text \<open>Assignments through a pointer into one of the maps.\<close>

definition upd_vp :: "u32 \<Rightarrow> (ca_record \<Rightarrow> ca_record) \<Rightarrow> clb_processor \<Rightarrow> clb_processor" where
  "upd_vp k f s = (case om_get k (vp_map s) of None \<Rightarrow> s
     | Some vp \<Rightarrow> s\<lparr>vp_map := om_put k (vp\<lparr>ca_row := f (ca_row vp)\<rparr>) (vp_map s)\<rparr>)"

definition upd_ca :: "u32 \<Rightarrow> (ca_response \<Rightarrow> ca_response) \<Rightarrow> clb_processor \<Rightarrow> clb_processor" where
  "upd_ca k f s = (case om_get k (ca_map s) of None \<Rightarrow> s
     | Some ca \<Rightarrow> s\<lparr>ca_map := om_put k (f ca) (ca_map s)\<rparr>)"

subsection \<open>Virtual paths\<close>

definition vp_alloc :: "rat \<Rightarrow> clb_processor \<Rightarrow> u32 \<times> clb_processor" where
  "vp_alloc now s =
    (let k = hashkey_counter s;
         vp = (init_vp_record now (init_rrate s))\<lparr>hashkey := k\<rparr>
     in (k, s\<lparr>hashkey_counter := k + 1, vp_map := om_put k vp (vp_map s)\<rparr>))"

definition vp_free :: "u32 \<Rightarrow> clb_processor \<Rightarrow> clb_processor" where
  "vp_free k s = (if om_get k (vp_map s) = None then s else s\<lparr>vp_map := om_del k (vp_map s)\<rparr>)"

definition vp_missing :: "clb_processor \<Rightarrow> bool" where
  "vp_missing s \<longleftrightarrow> length (vp_map s) < size_t_of_int (VP_SIZE s)"

text \<open>\<^verbatim>\<open>vp_init\<close> loops until there are enough paths; that it returns is proved
  below.\<close>

partial_function (option) vp_init :: "rat \<Rightarrow> clb_processor \<Rightarrow> clb_processor option" where
  "vp_init now s = (if vp_missing s then vp_init now (snd (vp_alloc now s)) else Some s)"

definition vp_get :: "u32 \<Rightarrow> clb_processor \<Rightarrow> vp_record option" where
  "vp_get k s = om_get k (vp_map s)"

text \<open>\<^verbatim>\<open>vp_next_at_ratio\<close>: its first loop collects the paths of unlimited rate, or
  sums the rates; its last loop picks a path in proportion to the rates.\<close>

definition ratio_step :: "u32 list \<times> rat \<Rightarrow> u32 \<times> vp_record \<Rightarrow> u32 list \<times> rat" where
  "ratio_step st e = (case (st, e) of ((vp_tr, rate_cnt), (k, vp)) \<Rightarrow>
     if valid (ca_row vp) = 0 then (vp_tr, rate_cnt)
     else if \<bar>r_rate (ca_row vp) - 10 ^ 37\<bar> < 10 ^ 36 then (vp_tr @ [k], rate_cnt)
     else if vp_tr \<noteq> [] then (vp_tr, rate_cnt)
     else if \<bar>r_rate (ca_row vp)\<bar> < 1 / 10 then (vp_tr, rate_cnt)
     else (vp_tr, rate_cnt + r_rate (ca_row vp) / 100))"

fun ratio_pick :: "rat \<Rightarrow> u32 option \<Rightarrow> (u32 \<times> vp_record) list \<Rightarrow> u32 option" where
  "ratio_pick rand_cnt vp_tmp [] = vp_tmp"
| "ratio_pick rand_cnt vp_tmp ((k, vp) # m) =
    (if valid (ca_row vp) = 0 then ratio_pick rand_cnt vp_tmp m
     else if \<bar>r_rate (ca_row vp)\<bar> < 1 / 10 then ratio_pick rand_cnt (Some k) m
     else if rand_cnt - r_rate (ca_row vp) / 100 \<le> 0 then Some k
     else ratio_pick (rand_cnt - r_rate (ca_row vp) / 100) (Some k) m)"

definition vp_next_at_ratio :: "rat \<Rightarrow> nat \<Rightarrow> clb_processor \<Rightarrow> (u32 option \<times> clb_processor) result" where
  "vp_next_at_ratio now rnd s =
    (if vp_missing s then (case vp_alloc now s of (k, s') \<Rightarrow> Inr (Some k, s'))
     else if burst_pending s then Inr (burst_vp s, s)
     else case foldl ratio_step ([], 0) (vp_map s) of (vp_tr, rate_cnt) \<Rightarrow>
       if vp_tr \<noteq> [] then Inr (Some (vp_tr ! (rnd mod length vp_tr)), s)
       else if rate_cnt < 1 then
         (if vp_map s = [] then Inl DivByZero
          else Inr (Some (fst (vp_map s ! (rnd mod length (vp_map s)))), s))
       else Inr (ratio_pick (of_int (int rnd mod int_of_double rate_cnt)) None (vp_map s), s))"

definition cost :: "ca_record \<Rightarrow> rat result" where
  "cost ca = (if r_rate ca = 0 then Inl DivByZero
     else Inr ((flying ca + of_int (uint (send_undefined ca))) / r_rate ca))"

fun cost_loop :: "rat \<Rightarrow> u32 list \<Rightarrow> (u32 \<times> vp_record) list \<Rightarrow> (u32 list) result" where
  "cost_loop cost_min vp_tr [] = Inr vp_tr"
| "cost_loop cost_min vp_tr ((k, vp) # m) =
    (if valid (ca_row vp) = 0 then cost_loop cost_min vp_tr m
     else bind_r (cost (ca_row vp)) (\<lambda>vp_cost.
       if \<bar>vp_cost - cost_min\<bar> < COST_EQUAL then cost_loop cost_min (vp_tr @ [k]) m
       else if vp_cost < cost_min then cost_loop vp_cost [k] m
       else cost_loop cost_min vp_tr m))"

definition vp_next_at_cost :: "rat \<Rightarrow> nat \<Rightarrow> clb_processor \<Rightarrow> (u32 option \<times> clb_processor) result" where
  "vp_next_at_cost now rnd s =
    (if vp_missing s then (case vp_alloc now s of (k, s') \<Rightarrow> Inr (Some k, s'))
     else bind_r (cost_loop (10 ^ 37) [] (vp_map s)) (\<lambda>vp_tr.
       if vp_tr \<noteq> [] then Inr (Some (vp_tr ! (rnd mod length vp_tr)), s)
       else Inr (None, s)))"

text \<open>Smooth weighted round robin: every path gains its weight, the path with the
  largest value (compared with the maximum so far cut down to an \<^verbatim>\<open>int\<close>) is
  chosen and pays the total.\<close>

fun swrr_loop ::
    "(u32 \<times> vp_record) list \<Rightarrow> rat \<Rightarrow> int \<Rightarrow> u32 \<Rightarrow> (u32 \<times> vp_record) list \<times> rat \<times> u32" where
  "swrr_loop [] tot max_weight max_vp = ([], tot, max_vp)"
| "swrr_loop ((k, vp) # m) tot max_weight max_vp =
    (let weight = r_rate (ca_row vp);
         car = (ca_row vp)\<lparr>c_rate := c_rate (ca_row vp) + weight\<rparr>;
         (mw, mv) = (if c_rate car > of_int max_weight then (int_of_double (c_rate car), k)
                     else (max_weight, max_vp));
         (m', t', v') = swrr_loop m (tot + weight) mw mv
     in ((k, vp\<lparr>ca_row := car\<rparr>) # m', t', v'))"

definition vp_next_at_ratio_SWRR :: "rat \<Rightarrow> clb_processor \<Rightarrow> (u32 option \<times> clb_processor) result" where
  "vp_next_at_ratio_SWRR now s =
    (if vp_missing s then (case vp_alloc now s of (k, s') \<Rightarrow> Inr (Some k, s'))
     else if burst_pending s then Inr (burst_vp s, s)
     else case vp_map s of [] \<Rightarrow> Inl NullDeref
       | (k0, vp0) # _ \<Rightarrow>
         (case swrr_loop (vp_map s) 0 (int_of_double (c_rate (ca_row vp0))) k0 of (m, tot, max_vp) \<Rightarrow>
            Inr (Some max_vp,
                 upd_vp max_vp (\<lambda>ca. ca\<lparr>c_rate := c_rate ca - tot\<rparr>) (s\<lparr>vp_map := m\<rparr>))))"

definition vp_next :: "rat \<Rightarrow> clb_processor \<Rightarrow> (u32 option \<times> clb_processor) result" where
  "vp_next now s = vp_next_at_ratio_SWRR now s"

fun burst_get_loop :: "rat \<Rightarrow> u32 option \<Rightarrow> (u32 \<times> vp_record) list \<Rightarrow> u32 option" where
  "burst_get_loop expire_time found [] = found"
| "burst_get_loop expire_time found ((k, vp) # m) =
    (if r_time (ca_row vp) < expire_time then burst_get_loop (r_time (ca_row vp)) (Some k) m
     else burst_get_loop expire_time found m)"

definition vp_burst_get :: "u32 \<Rightarrow> vp_record \<Rightarrow> clb_processor \<Rightarrow> u32" where
  "vp_burst_get k vp s = (case burst_get_loop (r_time (ca_row vp)) None (vp_map s) of
     None \<Rightarrow> k | Some k' \<Rightarrow> k')"

subsection \<open>Responses\<close>

definition ca_alloc :: "rat \<Rightarrow> u32 \<Rightarrow> clb_processor \<Rightarrow> clb_processor" where
  "ca_alloc now k s = s\<lparr>ca_map := om_put k ((init_ca_response now)\<lparr>rsp_hashkey := k\<rparr>) (ca_map s),
     ca_queue := ca_queue s @ [k]\<rparr>"

definition ca_free :: "u32 \<Rightarrow> clb_processor \<Rightarrow> clb_processor" where
  "ca_free k s = (if om_get k (ca_map s) = None then s else s\<lparr>ca_map := om_del k (ca_map s)\<rparr>)"

fun ca_next_loop :: "(u32, 'r) omap \<Rightarrow> u32 list \<Rightarrow> u32 option \<times> u32 list" where
  "ca_next_loop m [] = (None, [])"
| "ca_next_loop m (t # q) =
    (if om_get t m = None then ca_next_loop m q else (Some t, q @ [t]))"

definition ca_next :: "clb_processor \<Rightarrow> u32 option \<times> clb_processor" where
  "ca_next s = (case ca_next_loop (ca_map s) (ca_queue s) of (t, q) \<Rightarrow> (t, s\<lparr>ca_queue := q\<rparr>))"

definition ca_get :: "u32 \<Rightarrow> clb_processor \<Rightarrow> ca_response option" where
  "ca_get k s = om_get k (ca_map s)"

subsection \<open>Counters and rates\<close>

definition ca_record_send :: "rat \<Rightarrow> ca_record \<Rightarrow> ca_record" where
  "ca_record_send now ca = ca\<lparr>send_undefined := send_undefined ca + 1, fresh_time := now\<rparr>"

definition ca_record_recv :: "rat \<Rightarrow> u32 \<Rightarrow> ca_record \<Rightarrow> ca_record" where
  "ca_record_recv now current_recv ca =
    (let ru = sint (current_recv - recv_cnt ca) in
     if ru < 0 then ca else ca\<lparr>recv_undefined := ru, fresh_time := now\<rparr>)"

text \<open>\<^verbatim>\<open>vp_update_rrate\<close>: a reported mark sets the weight to the measured rate;
  when the path has had no mark for \<^verbatim>\<open>T_RSSTIME\<close>, the path that waited longest is
  probed with a burst.\<close>

definition vp_update_rrate :: "rat \<Rightarrow> packet \<Rightarrow> u32 \<Rightarrow> clb_processor \<Rightarrow> clb_processor" where
  "vp_update_rrate now p k s =
    (let s1 = (if vp_recn (clb_row p)
               then (let s' = upd_vp k (\<lambda>ca. ca\<lparr>r_rate := rate ca, recv_ece_cnt := recv_ece_cnt ca + 1,
                                             r_time := now\<rparr>) s
                     in case vp_get k s' of None \<Rightarrow> s'
                          | Some vp \<Rightarrow> if recv_ece_cnt (ca_row vp) > max_ece_cnt s'
                              then s'\<lparr>max_ece_cnt := recv_ece_cnt (ca_row vp)\<rparr> else s')
               else s)
     in case vp_get k s1 of None \<Rightarrow> s1
        | Some vp \<Rightarrow>
            if now - r_time (ca_row vp) > T_RSSTIME \<and> \<not> burst_pending s1
            then s1\<lparr>burst_pending := True, burst_vp := Some (vp_burst_get k vp s1),
                    burst_cnt := BURST_PKTCNT, burst_time := now\<rparr>
            else s1)"

definition update_ca_record :: "rat \<Rightarrow> ca_record \<Rightarrow> ca_record result" where
  "update_ca_record now ca =
    (let delta_time = now - update_time ca in
     if delta_time = 0 then Inl DivByZero
     else let calculate_rate = of_int (recv_undefined ca) / delta_time;
              new_rate = (1 - RATE_ALPHA) * rate ca + RATE_ALPHA * calculate_rate;
              delta_fly = of_int (uint (send_undefined ca)) - of_int (recv_undefined ca);
              new_fly = (1 - FLY_ALPHA) * flying ca + FLY_ALPHA * delta_fly
          in Inr (ca\<lparr>rate := new_rate, flying := new_fly,
                     send_cnt := send_cnt ca + send_undefined ca,
                     recv_cnt := recv_cnt ca + word_of_int (recv_undefined ca),
                     send_undefined := 0, recv_undefined := 0, update_time := now\<rparr>))"

definition update_ca_response :: "rat \<Rightarrow> packet \<Rightarrow> ca_response \<Rightarrow> ca_response" where
  "update_ca_response now p r =
    (let ecn = (ce p \<noteq> 0 \<or> road_ecn (clb_row p)) in
     r\<lparr>rsp_recv_cnt := rsp_recv_cnt r + 1, rsp_recv_ecn := ecn,
       rsp_recv_ecn_cnt := rsp_recv_ecn_cnt r + (if ecn then 1 else 0), rsp_time := now\<rparr>)"

subsection \<open>Probe packets\<close>

definition pkt_alloc :: "rat \<Rightarrow> clb_processor \<Rightarrow> packet" where
  "pkt_alloc now s = Packet_alloc\<lparr>pkt_size := 1500, timestamp := now, saddr := src s, sport := 100,
     daddr := dst s, dport := 100, ttl := 128, ect := 0, ecnecho := 0, ce := 0\<rparr>"

text \<open>\<^verbatim>\<open>vp_burst\<close> sends a whole burst at once.\<close>

definition vp_burst :: "(packet \<Rightarrow> nsobject option) \<Rightarrow> rat \<Rightarrow> vp_record \<Rightarrow> clb_processor \<Rightarrow> effect list" where
  "vp_burst c_find now vp s =
    List.map (\<lambda>i. let p = pkt_alloc now s in
        hand_over c_find (p\<lparr>clb_row := (clb_row p)\<lparr>burst_id := word_of_int i, vp_id := hashkey vp\<rparr>,
                            ecmpHashKey := hashkey vp\<rparr>))
      (rev [1..BURST_PKTCNT])"

text \<open>\<^verbatim>\<open>update_ca_burst\<close>: the receiver counts the packets of a burst; the packet
  with number 1, the last one, makes it report the rate.  A burst that takes no time
  has no finite rate.\<close>

definition update_ca_burst ::
    "(packet \<Rightarrow> nsobject option) \<Rightarrow> rat \<Rightarrow> packet \<Rightarrow> clb_processor \<Rightarrow> ca_response \<Rightarrow> (ca_response \<times> effect list) result" where
  "update_ca_burst c_find now p s r =
    (if rsp_burst_pending r = 0 \<or> now - rsp_burst_time r > T_RSSTIME
     then Inr (r\<lparr>rsp_burst_pending := 1, rsp_burst_cnt := 1, rsp_burst_time := now\<rparr>, [])
     else let r1 = r\<lparr>rsp_burst_cnt := rsp_burst_cnt r + 1\<rparr> in
       if burst_id (clb_row p) = 1
       then (let delta_time = now - rsp_burst_time r1 in
             if delta_time = 0 then Inl DivByZero
             else let rp = pkt_alloc now s;
                      rp' = rp\<lparr>clb_row := (clb_row rp)\<lparr>response_en := True, vp_rid := rsp_hashkey r1,
                              burst_rate := of_int (rsp_burst_cnt r1) / delta_time\<rparr>\<rparr>
                  in Inr (r1\<lparr>rsp_burst_pending := 0\<rparr>, [hand_over c_find rp']))
       else Inr (r1, []))"

subsection \<open>Packets in\<close>

text \<open>The second half of \<^verbatim>\<open>recv\<close>: the response of the path the packet came on,
  then the reorder buffer.\<close>

definition recv_as_receiver ::
    "(packet \<Rightarrow> nsobject option) \<Rightarrow> rat \<Rightarrow> packet \<Rightarrow> clb_processor \<Rightarrow> (int \<times> clb_processor \<times> effect list) result" where
  "recv_as_receiver c_find now p s =
    (let k = vp_id (clb_row p);
         s1 = (if ca_get k s = None then ca_alloc now k s else s)
     in case ca_get k s1 of None \<Rightarrow> Inr (1, s1, [])
        | Some response \<Rightarrow>
          bind_r (if burst_id (clb_row p) > 0 then update_ca_burst c_find now p s1 response
                  else Inr (response, [])) (\<lambda>(response', out1).
            let s2 = upd_ca k (\<lambda>_. update_ca_response now p response') s1;
                s3 = s2\<lparr>ece_cnt := ece_cnt s2 + ucast (ecnecho p)\<rparr>
            in bind_r (reorder c_find now p (rbuf s3)) (\<lambda>(ret, rb, out2).
                 Inr (ret, s3\<lparr>rbuf := rb\<rparr>, out1 @ out2))))"

definition clb_recv ::
    "(packet \<Rightarrow> nsobject option) \<Rightarrow> rat \<Rightarrow> packet \<Rightarrow> clb_processor \<Rightarrow> (int \<times> clb_processor \<times> effect list) result" where
  "clb_recv c_find now p s =
    (let row = clb_row p;
         s1 = (if response_en row
               then s\<lparr>global_ca := ca_record_recv now (vp_rcnt row) (global_ca s)\<rparr> else s);
         s2 = s1\<lparr>global_response := update_ca_response now p (global_response s1)\<rparr>
     in if response_en row then
          (case vp_get (vp_rid row) s2 of
             None \<Rightarrow> recv_as_receiver c_find now p s2
           | Some vp \<Rightarrow>
               if hashkey vp \<noteq> vp_rid row then Inl AssertFail
               else if burst_rate row > 1 then
                 Inr (1, (if r_rate (ca_row vp) < burst_rate row
                          then upd_vp (vp_rid row) (\<lambda>ca. ca\<lparr>r_rate := burst_rate row\<rparr>) s2
                          else s2), [])
               else recv_as_receiver c_find now p
                 (vp_update_rrate now p (vp_rid row)
                   (upd_vp (vp_rid row) (ca_record_recv now (vp_rcnt row)) s2)))
        else recv_as_receiver c_find now p s2)"

subsection \<open>Packets out\<close>

text \<open>The burst number of a packet that leaves on path \<^verbatim>\<open>k\<close>.\<close>

definition stamp_burst :: "rat \<Rightarrow> u32 \<Rightarrow> clb_processor \<Rightarrow> u32 \<times> clb_processor" where
  "stamp_burst now k s =
    (if burst_pending s \<and> burst_vp s = Some k
     then (let s' = s\<lparr>burst_cnt := burst_cnt s - 1\<rparr> in
           (word_of_int (burst_cnt s),
            if burst_cnt s' = 0
            then upd_vp k (\<lambda>ca. ca\<lparr>r_time := now\<rparr>) (s'\<lparr>burst_pending := False\<rparr>) else s'))
     else (0, s))"

text \<open>The report that a packet carries: of the path whose turn it is, or the global
  one when no path has been seen.\<close>

definition take_response :: "clb_processor \<Rightarrow> (u32 \<times> u32 \<times> bool \<times> bool) \<times> clb_processor" where
  "take_response s =
    (let s1 = s\<lparr>global_response := (global_response s)\<lparr>rsp_recv_ecn := False\<rparr>\<rparr>;
         (t, s2) = ca_next s1
     in case t of
          None \<Rightarrow> ((0, rsp_recv_cnt (global_response s), rsp_recv_ecn (global_response s), False), s2)
        | Some k \<Rightarrow> (case ca_get k s2 of
            None \<Rightarrow> ((0, rsp_recv_cnt (global_response s), rsp_recv_ecn (global_response s), False), s2)
          | Some ca \<Rightarrow> ((rsp_hashkey ca, rsp_recv_cnt ca, rsp_recv_ecn ca, True),
                       upd_ca k (\<lambda>ca. ca\<lparr>rsp_recv_ecn := False\<rparr>) s2)))"

definition clb_send :: "rat \<Rightarrow> packet \<Rightarrow> clb_processor \<Rightarrow> (int \<times> packet \<times> clb_processor) result" where
  "clb_send now p s =
    bind_r (vp_next now s) (\<lambda>(vpo, s1).
      case vpo of None \<Rightarrow> Inl NullDeref | Some k \<Rightarrow>
      (case vp_get k s1 of None \<Rightarrow> Inl NullDeref | Some vp \<Rightarrow>
        let s2 = s1\<lparr>sequence := sequence s1 + 1, global_ca := ca_record_send now (global_ca s1)\<rparr>;
            s3 = upd_vp k (ca_record_send now) s2;
            (bid, s4) = stamp_burst now k s3;
            ((rid, rcnt, recn, ren), s5) = take_response s4
        in Inr (0, p\<lparr>ecmpHashKey := hashkey vp,
                     clb_row := (clb_row p)\<lparr>vp_id := hashkey vp, SN_HSN := sequence s2, burst_id := bid,
                       record_en := True, vp_rid := rid, vp_rcnt := rcnt, vp_recn := recn,
                       response_en := ren\<rparr>\<rparr>, s5)))"

subsection \<open>The timer and the constructor\<close>

fun update_ca_records :: "rat \<Rightarrow> (u32 \<times> vp_record) list \<Rightarrow> ((u32 \<times> vp_record) list) result" where
  "update_ca_records now [] = Inr []"
| "update_ca_records now ((k, vp) # m) =
    bind_r (update_ca_record now (ca_row vp)) (\<lambda>ca.
      bind_r (update_ca_records now m) (\<lambda>m'. Inr ((k, vp\<lparr>ca_row := ca\<rparr>) # m')))"

text \<open>\<^verbatim>\<open>expire\<close> returns the new state and the delay of the next expiry.\<close>

definition clb_expire :: "rat \<Rightarrow> clb_processor \<Rightarrow> (clb_processor \<times> rat) result" where
  "clb_expire now s =
    bind_r (update_ca_record now (global_ca s)) (\<lambda>g.
      bind_r (update_ca_records now (vp_map s)) (\<lambda>m.
        Inr (s\<lparr>global_ca := g, vp_map := m\<rparr>, T_REFRESH)))"

text \<open>Fields that the constructor leaves unset (\<^verbatim>\<open>burst_time\<close>, \<^verbatim>\<open>burst_cnt\<close> and the
  contents of free slots) are written before they are read.\<close>

definition blank_CLBProcessor :: "rat \<Rightarrow> int \<Rightarrow> int \<Rightarrow> int \<Rightarrow> clb_processor" where
  "blank_CLBProcessor now src0 dst0 sz = \<lparr> src = src0, dst = dst0, VP_SIZE = sz, hashkey_counter = 0, ece_cnt = 0,
      max_ece_cnt = 1, init_rrate = INIT_RRATE, sequence = 0,
      global_ca = init_ca_record now INIT_RRATE, global_response = init_ca_response now,
      burst_time = 0, burst_pending = False, burst_vp = None, burst_cnt = 0, vp_map = om_empty,
      ca_queue = [], ca_map = om_empty,
      rbuf = Init_PacketQueue \<lparr> reorder_value = 1, PacketQueue =
        (\<lambda>_. \<lparr> seq = 0, flag = False, reorder_p = Packet_alloc, slot_time = 0 \<rparr>) \<rparr> \<rparr>"

definition new_CLBProcessor :: "rat \<Rightarrow> int \<Rightarrow> int \<Rightarrow> int \<Rightarrow> clb_processor option" where
  "new_CLBProcessor now src0 dst0 sz = vp_init now (blank_CLBProcessor now src0 dst0 sz)"

end
