(* ===== verification/CLBInvariant.thy ===== *)
theory CLBInvariant
  imports CLBProcessor
begin

text \<open>
  The invariant of the CLB processor: the path table has exactly the keys
  \<^verbatim>\<open>0..VP_SIZE-1\<close>, the round robin values add up to zero, every packet sent is
  counted once globally and once on a path, a pending burst has a path and packets
  left, and the response ring holds each known path once.
\<close>

definition sent :: "ca_record \<Rightarrow> u32" where
  "sent ca = send_cnt ca + send_undefined ca"

definition paths_inv :: "int \<Rightarrow> u32 \<Rightarrow> (u32, vp_record) omap \<Rightarrow> bool" where
  "paths_inv N sq0 m \<longleftrightarrow>
     om_keys m = List.map of_nat [0..<nat N] \<and>
     (\<forall>(k, vp)\<in>set m. hashkey vp = k) \<and>
     om_sum (\<lambda>vp. c_rate (ca_row vp)) m = 0 \<and>
     om_sum (\<lambda>vp. sent (ca_row vp)) m = sq0"

definition ring_inv :: "(u32, 'a ca_response_scheme) omap \<Rightarrow> u32 list \<Rightarrow> bool" where
  "ring_inv m q \<longleftrightarrow> om_inv m \<and> (\<forall>(k, r)\<in>set m. rsp_hashkey r = k) \<and>
     distinct q \<and> set q = set (om_keys m)"

definition burst_inv :: "clb_processor \<Rightarrow> bool" where
  "burst_inv s \<longleftrightarrow> (burst_pending s \<longrightarrow>
     (\<exists>k. burst_vp s = Some k \<and> om_get k (vp_map s) \<noteq> None) \<and>
     1 \<le> burst_cnt s \<and> burst_cnt s \<le> BURST_PKTCNT)"

definition clb_inv :: "clb_processor \<Rightarrow> bool" where
  "clb_inv s \<longleftrightarrow> 0 < VP_SIZE s \<and> VP_SIZE s < 2 ^ 31 \<and>
     paths_inv (VP_SIZE s) (sequence s) (vp_map s) \<and> sent (global_ca s) = sequence s \<and>
     burst_inv s \<and> ring_inv (ca_map s) (ca_queue s)"

subsection \<open>Key lists\<close>

lemma unat_upt_u32: "N \<le> 2 ^ 32 \<Longrightarrow> j < N \<Longrightarrow> unat (of_nat j :: u32) = j"
  by (simp add: unat_u32)

lemma of_nat_u32_less_iff:
  assumes "i < 2 ^ 32" and "j < 2 ^ 32"
  shows "(of_nat i :: u32) < of_nat j \<longleftrightarrow> i < j" and "(of_nat i :: u32) = of_nat j \<longleftrightarrow> i = j"
  using assms by (simp only: word_less_nat_alt unat_u32) (metis assms unat_u32)

lemma sorted_upt_u32:
  assumes "N \<le> 2 ^ 32"
  shows "sorted_wrt (<) (List.map of_nat [0..<N] :: u32 list)"
  unfolding sorted_wrt_map
  by (rule sorted_wrt_mono_rel[OF _ sorted_wrt_upt]) (use assms of_nat_u32_less_iff(1) in auto)

lemma paths_inv_om_inv: "N < 2 ^ 31 \<Longrightarrow> paths_inv N q m \<Longrightarrow> om_inv m"
  unfolding paths_inv_def om_inv_def using sorted_upt_u32[of "nat N"] by (simp add: nat_le_iff)

lemma paths_inv_length: "paths_inv N q m \<Longrightarrow> length m = nat N"
  unfolding paths_inv_def by (metis length_map length_om_keys length_upt minus_nat.diff_0)

lemma paths_inv_hashkey: "N < 2 ^ 31 \<Longrightarrow> paths_inv N q m \<Longrightarrow> om_get k m = Some vp \<Longrightarrow> hashkey vp = k"
  unfolding paths_inv_def using om_get_mem by fastforce

lemma paths_inv_key:
  assumes "N < 2 ^ 31" and "paths_inv N q m" and "om_get k m \<noteq> None"
  shows "uint k < N"
proof -
  have "k \<in> set (om_keys m)" using assms(3) by (simp add: om_keys_get)
  then obtain j where j: "j < nat N" "k = of_nat j" using assms(2) by (auto simp: paths_inv_def)
  moreover have "j < 2 ^ 32"
  proof -
    have "int j < N" using j(1) by simp
    then have "int j < 2147483648" using assms(1) by simp
    then show ?thesis by simp
  qed
  then have "unat (of_nat j :: u32) = j" by (rule unat_u32)
  ultimately have "unat k < nat N" by simp
  then have "int (unat k) < N" by linarith
  then show ?thesis by simp
qed

text \<open>An assignment to an existing path, in terms of what it does to the sums.\<close>

lemma paths_inv_put:
  assumes "N < 2 ^ 31" and inv: "paths_inv N q m" and get: "om_get k m = Some vp"
    and "hashkey vp' = k" and "c_rate (ca_row vp') = c_rate (ca_row vp)"
    and "q' = q + sent (ca_row vp') - sent (ca_row vp)"
  shows "paths_inv N q' (om_put k vp' m)"
proof -
  have om: "om_inv m" using paths_inv_om_inv assms(1) inv by blast
  have "om_keys (om_put k vp' m) = om_keys m"
    by (rule om.keys_put_existing[OF om]) (simp add: get)
  moreover have "\<forall>(j, v)\<in>set (om_put k vp' m). hashkey v = j"
    using inv assms(4) by (intro om_all_put) (auto simp: paths_inv_def)
  ultimately show ?thesis
    using inv get assms(5,6) unfolding paths_inv_def
    by (auto simp: om_sum_put[OF om])
qed

lemma paths_inv_upd_vp:
  assumes "N < 2 ^ 31" and "paths_inv N q (vp_map s)"
    and "\<And>ca. c_rate (f ca) = c_rate ca" and "\<And>ca. sent (f ca) = sent ca"
  shows "paths_inv N q (vp_map (upd_vp k f s))"
proof (cases "om_get k (vp_map s)")
  case (Some vp)
  then have "hashkey vp = k" using paths_inv_hashkey assms(1,2) by blast
  then show ?thesis
    using paths_inv_put[OF assms(1,2) Some, of "vp\<lparr>ca_row := f (ca_row vp)\<rparr>" q] assms(3,4) Some
    by (simp add: upd_vp_def)
qed (use assms in \<open>simp add: upd_vp_def\<close>)

lemma upd_vp_simps [simp]:
  "VP_SIZE (upd_vp k f s) = VP_SIZE s"
  "sequence (upd_vp k f s) = sequence s"
  "global_ca (upd_vp k f s) = global_ca s"
  "global_response (upd_vp k f s) = global_response s"
  "burst_pending (upd_vp k f s) = burst_pending s"
  "burst_vp (upd_vp k f s) = burst_vp s"
  "burst_cnt (upd_vp k f s) = burst_cnt s"
  "ca_queue (upd_vp k f s) = ca_queue s"
  "ca_map (upd_vp k f s) = ca_map s"
  "rbuf (upd_vp k f s) = rbuf s"
  "src (upd_vp k f s) = src s"
  "dst (upd_vp k f s) = dst s"
  by (simp_all add: upd_vp_def split: option.split)

lemma upd_ca_simps [simp]:
  "VP_SIZE (upd_ca k g s) = VP_SIZE s"
  "sequence (upd_ca k g s) = sequence s"
  "global_ca (upd_ca k g s) = global_ca s"
  "burst_pending (upd_ca k g s) = burst_pending s"
  "burst_vp (upd_ca k g s) = burst_vp s"
  "burst_cnt (upd_ca k g s) = burst_cnt s"
  "vp_map (upd_ca k g s) = vp_map s"
  "ca_queue (upd_ca k g s) = ca_queue s"
  "rbuf (upd_ca k g s) = rbuf s"
  by (simp_all add: upd_ca_def split: option.split)

lemma get_upd_vp [simp]:
  "om_get j (vp_map (upd_vp k f s)) =
    (if j = k then map_option (\<lambda>vp. vp\<lparr>ca_row := f (ca_row vp)\<rparr>) (om_get j (vp_map s))
     else om_get j (vp_map s))"
  by (simp add: upd_vp_def om_get_put split: option.split)

lemma burst_inv_upd_vp [simp]: "burst_inv (upd_vp k f s) = burst_inv s"
  by (auto simp: burst_inv_def)

lemma ring_inv_put:
  assumes "ring_inv m q" and "om_get k m = Some r" and "rsp_hashkey r' = k"
  shows "ring_inv (om_put k r' m) q"
proof -
  have "\<forall>(j, v)\<in>set (om_put k r' m). rsp_hashkey v = j"
    using assms by (intro om_all_put) (auto simp: ring_inv_def)
  then show ?thesis
    using assms by (simp add: ring_inv_def om_inv_put om.keys_put_existing)
qed

lemma ring_inv_upd_ca:
  assumes "ring_inv (ca_map s) q" and "\<And>r. om_get k (ca_map s) = Some r \<Longrightarrow> rsp_hashkey (g r) = rsp_hashkey r"
  shows "ring_inv (ca_map (upd_ca k g s)) q"
proof (cases "om_get k (ca_map s)")
  case (Some r)
  then have "rsp_hashkey r = k" using assms(1) om_get_mem[OF Some] by (auto simp: ring_inv_def)
  then show ?thesis using ring_inv_put[OF assms(1) Some, of "g r"] assms(2)[OF Some] Some
    by (simp add: upd_ca_def)
qed (use assms in \<open>simp add: upd_ca_def\<close>)

subsection \<open>The constructor\<close>

lemma paths_inv_alloc:
  assumes "paths_inv (int j) q m" and "Suc j < 2 ^ 31"
    and "hashkey vp = of_nat j" and "c_rate (ca_row vp) = 0" and "sent (ca_row vp) = 0"
  shows "paths_inv (int (Suc j)) q (om_put (of_nat j) vp m)"
proof -
  have om: "om_inv m" using paths_inv_om_inv[OF _ assms(1)] assms(2) by simp
  have keys: "om_keys m = List.map of_nat [0..<j]" using assms(1) by (simp add: paths_inv_def)
  have fresh: "om_get (of_nat j) m = None"
  proof -
    have "(of_nat j :: u32) \<noteq> of_nat i" if "i < j" for i
      using that of_nat_u32_less_iff(2)[of j i] assms(2) by simp
    then have "(of_nat j :: u32) \<notin> set (List.map of_nat [0..<j])"
      unfolding set_map set_upt by (metis (no_types, lifting) atLeastLessThan_iff imageE)
    then show ?thesis using keys om_keys_get[of "of_nat j" m] by simp
  qed
  have "sorted_wrt (<) (om_keys (om_put (of_nat j) vp m))"
    using om.keys_sorted[OF om_inv_put[OF om]] .
  moreover have "sorted_wrt (<) (List.map of_nat [0..<Suc j] :: u32 list)"
    using assms(2) by (intro sorted_upt_u32) simp
  moreover have "set (om_keys (om_put (of_nat j) vp m)) = set (List.map of_nat [0..<Suc j])"
    using keys by (simp add: set_om_keys_put lessThan_Suc flip: lessThan_atLeast0)
  ultimately have "om_keys (om_put (of_nat j) vp m) = List.map of_nat [0..<Suc j]"
    by (metis strict_sorted_equal)
  moreover have "\<forall>(k, v)\<in>set (om_put (of_nat j) vp m). hashkey v = k"
    using assms(1,3) by (intro om_all_put) (auto simp: paths_inv_def)
  ultimately show ?thesis
    using assms(1,4,5) fresh unfolding paths_inv_def by (simp add: om_sum_put[OF om] nat_add_distrib)
qed

text \<open>The loop of \<^verbatim>\<open>vp_init\<close> returns, whatever the number of paths to add.\<close>

lemma vp_init_returns:
  assumes "paths_inv (int j) 0 (vp_map s)" and "hashkey_counter s = of_nat j"
    and "j \<le> nat (VP_SIZE s)" and "0 \<le> VP_SIZE s" and "VP_SIZE s < 2 ^ 31"
  shows "\<exists>m c. vp_init now s = Some (s\<lparr>hashkey_counter := c, vp_map := m\<rparr>) \<and>
    paths_inv (VP_SIZE s) 0 m"
  using assms
proof (induction "nat (VP_SIZE s) - j" arbitrary: j s)
  case 0
  then have j: "int j = VP_SIZE s" by simp
  moreover have "length (vp_map s) = j" using paths_inv_length[OF 0(2)] by simp
  ultimately have "\<not> vp_missing s"
    using 0(6) by (simp add: vp_missing_def size_t_of_int_nonneg)
  then show ?case using 0(2) j
    by (intro exI[of _ "vp_map s"] exI[of _ "hashkey_counter s"]) (subst vp_init.simps, simp)
next
  case (Suc d)
  have lt: "j < nat (VP_SIZE s)" using Suc(2) by simp
  have size: "size_t_of_int (VP_SIZE s) = nat (VP_SIZE s)"
    using Suc.prems(4,5) by (simp add: size_t_of_int_nonneg)
  have miss: "vp_missing s"
    using paths_inv_length[OF Suc.prems(1)] lt size by (simp add: vp_missing_def)
  let ?s = "snd (vp_alloc now s)"
  have fields: "hashkey_counter ?s = of_nat (Suc j)" "VP_SIZE ?s = VP_SIZE s"
    using Suc.prems(2) by (simp_all add: vp_alloc_def Let_def add.commute)
  have "nat (VP_SIZE s) < 2147483648" using Suc.prems(5) by simp
  then have "Suc j < 2 ^ 31" using lt by simp
  then have inv: "paths_inv (int (Suc j)) 0 (vp_map ?s)"
    using paths_inv_alloc[OF Suc.prems(1)] Suc.prems(2)
    by (simp add: vp_alloc_def Let_def init_vp_record_def init_ca_record_def sent_def)
  have d: "d = nat (VP_SIZE ?s) - Suc j" using Suc(2) fields by simp
  obtain m c where "vp_init now ?s = Some (?s\<lparr>hashkey_counter := c, vp_map := m\<rparr>)"
    and "paths_inv (VP_SIZE s) 0 m"
    using Suc.hyps(1)[OF d inv fields(1)] lt Suc.prems(4,5) fields by auto
  moreover have "?s\<lparr>hashkey_counter := c, vp_map := m\<rparr> = s\<lparr>hashkey_counter := c, vp_map := m\<rparr>"
    by (simp add: vp_alloc_def Let_def)
  ultimately show ?case using miss
    by (intro exI[of _ m] exI[of _ c]) (subst vp_init.simps, simp)
qed

lemma new_CLBProcessor_inv:
  assumes "0 < sz" and "sz < 2 ^ 31"
  shows "\<exists>s. new_CLBProcessor now a b sz = Some s \<and> clb_inv s \<and> VP_SIZE s = sz \<and>
    src s = a \<and> dst s = b \<and> sequence s = 0 \<and> rb_abs 1 Map.empty (rbuf s)"
proof -
  let ?b = "blank_CLBProcessor now a b sz"
  have blank: "vp_map ?b = om_empty" "hashkey_counter ?b = 0" "VP_SIZE ?b = sz"
    by (simp_all add: blank_CLBProcessor_def)
  have "paths_inv (int 0) 0 om_empty" by (simp add: paths_inv_def om_empty_def)
  then obtain m c where r: "vp_init now ?b = Some (?b\<lparr>hashkey_counter := c, vp_map := m\<rparr>)"
    and m: "paths_inv sz 0 m"
    using vp_init_returns[of 0 ?b now] assms blank by auto
  let ?s = "?b\<lparr>hashkey_counter := c, vp_map := m\<rparr>"
  have "clb_inv ?s"
    using m assms unfolding clb_inv_def burst_inv_def ring_inv_def
    by (simp add: blank_CLBProcessor_def init_ca_record_def sent_def om_empty_def)
  moreover have "rb_abs 1 Map.empty (rbuf ?s)"
    by (rule rb_abs_empty) (simp_all add: blank_CLBProcessor_def)
  ultimately show ?thesis
    using r unfolding new_CLBProcessor_def by (simp add: blank_CLBProcessor_def)
qed

subsection \<open>Choosing a path\<close>

definition gain :: "vp_record \<Rightarrow> vp_record" where
  "gain vp = vp\<lparr>ca_row := (ca_row vp)\<lparr>c_rate := c_rate (ca_row vp) + r_rate (ca_row vp)\<rparr>\<rparr>"

lemma gain_simps [simp]:
  "hashkey (gain vp) = hashkey vp"
  "c_rate (ca_row (gain vp)) = c_rate (ca_row vp) + r_rate (ca_row vp)"
  "r_rate (ca_row (gain vp)) = r_rate (ca_row vp)"
  "r_time (ca_row (gain vp)) = r_time (ca_row vp)"
  "sent (ca_row (gain vp)) = sent (ca_row vp)"
  by (simp_all add: gain_def sent_def)

text \<open>The loop gives every path its weight, adds up the weights and chooses a
  path of the table.\<close>

lemma swrr_loop_effect:
  "\<exists>k. swrr_loop m t mw mv = (om_map gain m, t + om_sum (\<lambda>vp. r_rate (ca_row vp)) m, k) \<and>
    (k = mv \<or> k \<in> set (om_keys m))"
proof (induction m arbitrary: t mw mv)
  case (Cons e m)
  obtain k vp where e: "e = (k, vp)" by (cases e)
  let ?c = "c_rate (ca_row vp) + r_rate (ca_row vp)"
  obtain mw' mv' where m': "(if ?c > of_int mw then (int_of_double ?c, k) else (mw, mv)) = (mw', mv')"
    and mv': "mv' = mv \<or> mv' = k" by (cases "?c > of_int mw") auto
  obtain k' where IH: "swrr_loop m (t + r_rate (ca_row vp)) mw' mv' =
      (om_map gain m, t + r_rate (ca_row vp) + om_sum (\<lambda>vp. r_rate (ca_row vp)) m, k')"
    and k': "k' = mv' \<or> k' \<in> set (om_keys m)"
    using Cons[of "t + r_rate (ca_row vp)" mw' mv'] by blast
  show ?case using IH k' mv' m'
    by (auto simp: e Let_def om_map_def gain_def)
qed (simp add: om_map_def)

text \<open>What \<^verbatim>\<open>vp_next\<close> does when the table is complete.\<close>

lemma not_vp_missing:
  assumes "paths_inv (VP_SIZE s) q (vp_map s)" and "0 < VP_SIZE s" and "VP_SIZE s < 2 ^ 31"
  shows "\<not> vp_missing s" and "vp_map s \<noteq> []"
  using assms paths_inv_length[OF assms(1)]
  by (auto simp: vp_missing_def size_t_of_int_nonneg)

lemma vp_next_ok:
  assumes P: "paths_inv (VP_SIZE s) q (vp_map s)" and N: "0 < VP_SIZE s" "VP_SIZE s < 2 ^ 31"
    and B: "burst_inv s"
  shows "\<exists>k m. vp_next now s = Inr (Some k, s\<lparr>vp_map := m\<rparr>) \<and> om_get k m \<noteq> None \<and>
    paths_inv (VP_SIZE s) q m \<and> (burst_pending s \<longrightarrow> burst_vp s = Some k \<and> m = vp_map s) \<and>
    (\<forall>j. map_option (\<lambda>vp. vp\<lparr>ca_row := (ca_row vp)\<lparr>c_rate := 0\<rparr>\<rparr>) (om_get j m) =
         map_option (\<lambda>vp. vp\<lparr>ca_row := (ca_row vp)\<lparr>c_rate := 0\<rparr>\<rparr>) (om_get j (vp_map s)))"
proof (cases "burst_pending s")
  case True
  then obtain k where "burst_vp s = Some k" "om_get k (vp_map s) \<noteq> None"
    using B by (auto simp: burst_inv_def)
  then show ?thesis
    using True P not_vp_missing(1)[OF P N]
    by (intro exI[of _ k] exI[of _ "vp_map s"]) (simp add: vp_next_def vp_next_at_ratio_SWRR_def)
next
  case False
  obtain k0 vp0 rest where m0: "vp_map s = (k0, vp0) # rest"
    using not_vp_missing(2)[OF P N] by (cases "vp_map s") auto
  let ?T = "om_sum (\<lambda>vp. r_rate (ca_row vp)) (vp_map s)"
  obtain k where k: "swrr_loop (vp_map s) 0 (int_of_double (c_rate (ca_row vp0))) k0 =
      (om_map gain (vp_map s), ?T, k)" and "k = k0 \<or> k \<in> set (om_keys (vp_map s))"
    using swrr_loop_effect[of "vp_map s" 0] by auto
  then have "k \<in> set (om_keys (vp_map s))" using m0 by auto
  then obtain vp where vp: "om_get k (vp_map s) = Some vp" by (auto simp: om_keys_get)
  let ?v = "gain vp"
  let ?v' = "?v\<lparr>ca_row := (ca_row ?v)\<lparr>c_rate := c_rate (ca_row ?v) - ?T\<rparr>\<rparr>"
  let ?m = "om_put k ?v' (om_map gain (vp_map s))"
  have om: "om_inv (vp_map s)" using paths_inv_om_inv[OF N(2) P] .
  have keys: "om_keys ?m = om_keys (vp_map s)"
    using om.keys_put_existing[of "om_map gain (vp_map s)" k ?v'] om vp by simp
  have hk: "\<forall>(j, v)\<in>set ?m. hashkey v = j"
  proof (rule om_all_put)
    show "\<forall>(j, v)\<in>set (om_map gain (vp_map s)). hashkey v = j"
      using P by (intro om_all_map) (auto simp: paths_inv_def)
    show "hashkey ?v' = k" using paths_inv_hashkey[OF N(2) P vp] by simp
  qed
  have "om_sum (\<lambda>vp. c_rate (ca_row vp)) ?m = 0"
    using P vp om by (simp add: om_sum_put om_sum_map om_sum_add paths_inv_def)
  moreover have "om_sum (\<lambda>vp. sent (ca_row vp)) ?m = q"
    using P vp om by (simp add: om_sum_put om_sum_map paths_inv_def sent_def[of "_\<lparr>c_rate := _\<rparr>"])
      (simp add: sent_def gain_def)
  ultimately have inv: "paths_inv (VP_SIZE s) q ?m"
    using keys hk P by (simp add: paths_inv_def)
  have "vp_next now s = Inr (Some k, s\<lparr>vp_map := ?m\<rparr>)"
    using False not_vp_missing(1)[OF P N] m0 k vp
    by (simp add: vp_next_def vp_next_at_ratio_SWRR_def upd_vp_def)
  moreover have "om_get k ?m \<noteq> None" by (simp add: om_get_put)
  moreover have "map_option (\<lambda>vp. vp\<lparr>ca_row := (ca_row vp)\<lparr>c_rate := 0\<rparr>\<rparr>) (om_get j ?m) =
      map_option (\<lambda>vp. vp\<lparr>ca_row := (ca_row vp)\<lparr>c_rate := 0\<rparr>\<rparr>) (om_get j (vp_map s))" for j
    using vp by (auto simp: om_get_put gain_def option.map_comp comp_def)
  ultimately show ?thesis using False inv by blast
qed

subsection \<open>Sending\<close>

lemma ca_next_loop_rotates:
  assumes "set q \<subseteq> set (om_keys m)"
  shows "ca_next_loop m q = (if q = [] then (None, []) else (Some (hd q), tl q @ [hd q]))"
  using assms by (cases q) (auto simp: om_keys_get)

lemma ring_inv_rotate: "ring_inv m q \<Longrightarrow> q \<noteq> [] \<Longrightarrow> ring_inv m (tl q @ [hd q])"
  by (cases q) (auto simp: ring_inv_def)

lemma take_response_inv:
  assumes "ring_inv (ca_map s) (ca_queue s)"
  shows "\<exists>resp g q m. take_response s = (resp, s\<lparr>global_response := g, ca_queue := q, ca_map := m\<rparr>) \<and>
    ring_inv m q"
proof (cases "ca_queue s")
  case Nil
  then show ?thesis using assms
    by (intro exI[of _ "(0, rsp_recv_cnt (global_response s), rsp_recv_ecn (global_response s), False)"]
      exI[of _ "(global_response s)\<lparr>rsp_recv_ecn := False\<rparr>"] exI[of _ "[]"] exI[of _ "ca_map s"])
      (simp add: take_response_def ca_next_def Let_def)
next
  case (Cons k q)
  then have "om_get k (ca_map s) \<noteq> None" using assms om_keys_get[of k "ca_map s"]
    by (auto simp: ring_inv_def)
  then obtain r where r: "om_get k (ca_map s) = Some r" by blast
  have "rsp_hashkey r = k" using assms om_get_mem[OF r] by (auto simp: ring_inv_def)
  then have "ring_inv (om_put k (r\<lparr>rsp_recv_ecn := False\<rparr>) (ca_map s)) (q @ [k])"
    using ring_inv_put[OF ring_inv_rotate[OF assms] r] Cons by simp
  then show ?thesis using Cons r
    by (intro exI[of _ "(rsp_hashkey r, rsp_recv_cnt r, rsp_recv_ecn r, True)"]
      exI[of _ "(global_response s)\<lparr>rsp_recv_ecn := False\<rparr>"] exI[of _ "q @ [k]"]
      exI[of _ "om_put k (r\<lparr>rsp_recv_ecn := False\<rparr>) (ca_map s)"])
      (simp add: take_response_def ca_next_def ca_get_def upd_ca_def Let_def)
qed

lemma paths_inv_count:
  assumes "N < 2 ^ 31" and "paths_inv N q (vp_map s)" and "om_get k (vp_map s) \<noteq> None"
  shows "paths_inv N (q + 1) (vp_map (upd_vp k (ca_record_send now) s))"
proof -
  obtain vp where vp: "om_get k (vp_map s) = Some vp" using assms(3) by blast
  have "hashkey vp = k" using paths_inv_hashkey[OF assms(1,2) vp] .
  then show ?thesis
    using paths_inv_put[OF assms(1,2) vp, of "vp\<lparr>ca_row := ca_record_send now (ca_row vp)\<rparr>" "q + 1"] vp
    by (simp add: upd_vp_def ca_record_send_def sent_def)
qed

lemma stamp_burst_effect:
  assumes "burst_inv s" and "N < 2 ^ 31" and "paths_inv N q (vp_map s)"
  shows "\<exists>bid s'. stamp_burst now k s = (bid, s') \<and> burst_inv s' \<and> paths_inv N q (vp_map s') \<and>
    VP_SIZE s' = VP_SIZE s \<and> sequence s' = sequence s \<and> global_ca s' = global_ca s \<and>
    ca_map s' = ca_map s \<and> ca_queue s' = ca_queue s \<and> rbuf s' = rbuf s \<and>
    src s' = src s \<and> dst s' = dst s \<and> global_response s' = global_response s"
proof -
  let ?s = "s\<lparr>burst_cnt := burst_cnt s - 1, burst_pending := False\<rparr>"
  have "paths_inv N q (vp_map (upd_vp k (\<lambda>ca. ca\<lparr>r_time := now\<rparr>) ?s))"
    using assms(2,3) by (intro paths_inv_upd_vp) (simp_all add: sent_def)
  then show ?thesis
    using assms by (auto simp: stamp_burst_def Let_def burst_inv_def)
qed

text \<open>Everything that is known of a packet that has been sent.\<close>

lemma clb_send_ok:
  assumes inv: "clb_inv s"
  shows "\<exists>k bid s' rid rcnt recn ren. clb_send now p s =
      Inr (0, p\<lparr>ecmpHashKey := k, clb_row := (clb_row p)\<lparr>vp_id := k, SN_HSN := sequence s + 1,
              burst_id := bid, record_en := True, vp_rid := rid, vp_rcnt := rcnt, vp_recn := recn,
              response_en := ren\<rparr>\<rparr>, s') \<and>
    uint k < VP_SIZE s \<and> clb_inv s' \<and> sequence s' = sequence s + 1 \<and> VP_SIZE s' = VP_SIZE s \<and>
    rbuf s' = rbuf s"
proof -
  have P: "paths_inv (VP_SIZE s) (sequence s) (vp_map s)" and N: "0 < VP_SIZE s" "VP_SIZE s < 2 ^ 31"
    and B: "burst_inv s" and R: "ring_inv (ca_map s) (ca_queue s)"
    and G: "sent (global_ca s) = sequence s"
    using inv by (simp_all add: clb_inv_def)
  obtain k m where nx: "vp_next now s = Inr (Some k, s\<lparr>vp_map := m\<rparr>)"
    and km: "om_get k m \<noteq> None" and Pm: "paths_inv (VP_SIZE s) (sequence s) m"
    and bm: "burst_pending s \<longrightarrow> burst_vp s = Some k \<and> m = vp_map s"
    using vp_next_ok[OF P N B] by blast
  obtain vp where vp: "om_get k m = Some vp" using km by blast
  have hk: "hashkey vp = k" using paths_inv_hashkey[OF N(2) Pm vp] .
  let ?s2 = "s\<lparr>vp_map := m, sequence := sequence s + 1, global_ca := ca_record_send now (global_ca s)\<rparr>"
  let ?s3 = "upd_vp k (ca_record_send now) ?s2"
  have P3: "paths_inv (VP_SIZE s) (sequence s + 1) (vp_map ?s3)"
    using paths_inv_count[OF N(2), of "sequence s" ?s2 k now] Pm km by simp
  have B3: "burst_inv ?s3" using bm B by (auto simp: burst_inv_def)
  obtain bid s4 where st: "stamp_burst now k ?s3 = (bid, s4)" and B4: "burst_inv s4"
    and P4: "paths_inv (VP_SIZE s) (sequence s + 1) (vp_map s4)"
    and eq4: "VP_SIZE s4 = VP_SIZE s" "sequence s4 = sequence s + 1"
      "global_ca s4 = ca_record_send now (global_ca s)" "ca_map s4 = ca_map s"
      "ca_queue s4 = ca_queue s" "rbuf s4 = rbuf s"
    using stamp_burst_effect[OF B3 N(2) P3, of now k] by auto
  obtain resp g q m' where tr: "take_response s4 =
      (resp, s4\<lparr>global_response := g, ca_queue := q, ca_map := m'\<rparr>)" and R4: "ring_inv m' q"
    using take_response_inv[of s4] R eq4 by auto
  obtain rid rcnt recn ren where resp: "resp = (rid, rcnt, recn, ren)" by (cases resp)
  let ?s5 = "s4\<lparr>global_response := g, ca_queue := q, ca_map := m'\<rparr>"
  have inv5: "clb_inv ?s5"
    using N P4 B4 R4 eq4 G
    by (simp add: clb_inv_def burst_inv_def sent_def ca_record_send_def algebra_simps)
  have same5: "sequence ?s5 = sequence s + 1" "VP_SIZE ?s5 = VP_SIZE s" "rbuf ?s5 = rbuf s"
    using eq4 by simp_all
  have key: "uint k < VP_SIZE s" using paths_inv_key[OF N(2) Pm km] .
  have sq: "sequence ?s2 = sequence s + 1" by simp
  have "clb_send now p s = Inr (0, p\<lparr>ecmpHashKey := k, clb_row := (clb_row p)\<lparr>vp_id := k,
      SN_HSN := sequence s + 1, burst_id := bid, record_en := True, vp_rid := rid, vp_rcnt := rcnt,
      vp_recn := recn, response_en := ren\<rparr>\<rparr>, ?s5)"
    unfolding clb_send_def nx bind_r_simps prod.case option.case vp_get_def
    by (simp add: vp hk st tr resp Let_def)
  then show ?thesis using inv5 same5 key by blast
qed

end
