(* ===== verification/CLBReceive.thy ===== *)
theory CLBReceive
  imports CLBInvariant
begin

text \<open>
  The invariant of the CLB processor under \<^verbatim>\<open>recv\<close> and \<^verbatim>\<open>expire\<close>, the states
  that can be reached, and what the processor promises about them.
\<close>

subsection \<open>Feedback\<close>

lemma burst_get_loop_key:
  "burst_get_loop t f m = f \<or> (\<exists>k. burst_get_loop t f m = Some k \<and> k \<in> set (om_keys m))"
  by (induction t f m rule: burst_get_loop.induct) auto

lemma vp_burst_get_key:
  assumes "om_get k (vp_map s) \<noteq> None"
  shows "om_get (vp_burst_get k vp s) (vp_map s) \<noteq> None"
  using assms burst_get_loop_key[of "r_time (ca_row vp)" None "vp_map s"]
  by (auto simp: vp_burst_get_def om_keys_get)

text \<open>\<^verbatim>\<open>vp_burst_get\<close> finds a path whose probe or mark is the oldest.\<close>

lemma burst_get_loop_oldest:
  assumes "burst_get_loop t f m = Some k" and "\<forall>(j, v)\<in>set m. om_get j M = Some v"
    and "\<And>j. f = Some j \<Longrightarrow> \<exists>v. om_get j M = Some v \<and> r_time (ca_row v) = t"
  shows "(\<exists>v. om_get k M = Some v \<and> r_time (ca_row v) \<le> t \<and>
    (\<forall>(j, w)\<in>set m. r_time (ca_row v) \<le> r_time (ca_row w)))"
  using assms
proof (induction t f m rule: burst_get_loop.induct)
  case (2 t f j vp m)
  show ?case
  proof (cases "r_time (ca_row vp) < t")
    case True
    then show ?thesis using 2(1)[OF True] 2(3-) by fastforce
  next
    case False
    then show ?thesis using 2(2)[OF False] 2(3-) by fastforce
  qed
qed auto

lemma burst_get_loop_None:
  "burst_get_loop t None m = None \<longleftrightarrow> (\<forall>(j, w)\<in>set m. t \<le> r_time (ca_row w))"
proof -
  have some: "burst_get_loop t (Some k) m \<noteq> None" for t k and m :: "(u32 \<times> vp_record) list"
    by (induction m arbitrary: t k) auto
  show ?thesis
  proof (induction m)
    case (Cons e m)
    then show ?case using some by (cases e) auto
  qed simp
qed

lemma vp_update_rrate_inv:
  assumes "clb_inv s" and "om_get k (vp_map s) \<noteq> None"
  shows "clb_inv (vp_update_rrate now p k s)" and "rbuf (vp_update_rrate now p k s) = rbuf s"
proof -
  let ?f = "\<lambda>ca. ca\<lparr>r_rate := rate ca, recv_ece_cnt := recv_ece_cnt ca + 1, r_time := now\<rparr>"
  define s1 where "s1 = (if vp_recn (clb_row p)
     then (case vp_get k (upd_vp k ?f s) of None \<Rightarrow> upd_vp k ?f s
           | Some vp \<Rightarrow> if recv_ece_cnt (ca_row vp) > max_ece_cnt (upd_vp k ?f s)
               then (upd_vp k ?f s)\<lparr>max_ece_cnt := recv_ece_cnt (ca_row vp)\<rparr> else upd_vp k ?f s)
     else s)"
  have P: "paths_inv (VP_SIZE s) (sequence s) (vp_map (upd_vp k ?f s))"
    using assms(1) by (intro paths_inv_upd_vp) (auto simp: clb_inv_def sent_def)
  have "clb_inv (upd_vp k ?f s)"
    using assms(1) P by (simp add: clb_inv_def)
  then have s1: "clb_inv s1" "om_get k (vp_map s1) \<noteq> None" "rbuf s1 = rbuf s"
    using assms by (auto simp: s1_def clb_inv_def burst_inv_def split: option.split)
  then obtain vp where vp: "om_get k (vp_map s1) = Some vp" by blast
  have up: "vp_update_rrate now p k s =
      (if now - r_time (ca_row vp) > T_RSSTIME \<and> \<not> burst_pending s1
       then s1\<lparr>burst_pending := True, burst_vp := Some (vp_burst_get k vp s1),
               burst_cnt := BURST_PKTCNT, burst_time := now\<rparr> else s1)"
    unfolding vp_update_rrate_def Let_def s1_def[symmetric] by (simp add: vp_get_def vp)
  have "om_get (vp_burst_get k vp s1) (vp_map s1) \<noteq> None" by (rule vp_burst_get_key[OF s1(2)])
  then have "burst_inv (s1\<lparr>burst_pending := True, burst_vp := Some (vp_burst_get k vp s1),
               burst_cnt := BURST_PKTCNT, burst_time := now\<rparr>)"
    by (simp add: burst_inv_def BURST_PKTCNT_def)
  then show "clb_inv (vp_update_rrate now p k s)" "rbuf (vp_update_rrate now p k s) = rbuf s"
    using s1 unfolding up by (simp_all add: clb_inv_def)
qed

lemma clb_inv_upd_vp:
  assumes "clb_inv s" and "\<And>ca. c_rate (f ca) = c_rate ca" and "\<And>ca. sent (f ca) = sent ca"
  shows "clb_inv (upd_vp k f s)"
  using assms paths_inv_upd_vp[of "VP_SIZE s" "sequence s" s f k] by (simp add: clb_inv_def)

lemma sent_ca_record_recv [simp]: "sent (ca_record_recv now c ca) = sent ca"
  and c_rate_ca_record_recv [simp]: "c_rate (ca_record_recv now c ca) = c_rate ca"
  by (simp_all add: ca_record_recv_def Let_def sent_def)

subsection \<open>Receiving\<close>

lemma ca_alloc_inv:
  assumes "clb_inv s" and "ca_get k s = None"
  shows "clb_inv (ca_alloc now k s)"
proof -
  have R: "ring_inv (ca_map s) (ca_queue s)" using assms(1) by (simp add: clb_inv_def)
  have "\<forall>(j, r)\<in>set (om_put k ((init_ca_response now)\<lparr>rsp_hashkey := k\<rparr>) (ca_map s)). rsp_hashkey r = j"
    using R by (intro om_all_put) (auto simp: ring_inv_def)
  moreover have "k \<notin> set (om_keys (ca_map s))"
    using assms(2) om_keys_get[of k "ca_map s"] by (simp add: ca_get_def)
  ultimately have "ring_inv (ca_map (ca_alloc now k s)) (ca_queue (ca_alloc now k s))"
    using R by (simp add: ring_inv_def ca_alloc_def om_inv_put set_om_keys_put)
  then show ?thesis using assms(1) by (simp add: clb_inv_def ca_alloc_def burst_inv_def)
qed

lemma update_ca_burst_hashkey:
  "update_ca_burst c_find now p s r = Inr (r', out) \<Longrightarrow> rsp_hashkey r' = rsp_hashkey r"
  by (auto simp: update_ca_burst_def Let_def split: if_splits)

lemma recv_as_receiver_inv:
  assumes inv: "clb_inv s" and r: "recv_as_receiver c_find now p s = Inr (ret, s', out)"
  shows "clb_inv s'" and "sequence s' = sequence s" and "VP_SIZE s' = VP_SIZE s"
proof -
  let ?k = "vp_id (clb_row p)"
  define s1 where "s1 = (if ca_get ?k s = None then ca_alloc now ?k s else s)"
  have s1: "clb_inv s1" "sequence s1 = sequence s" "VP_SIZE s1 = VP_SIZE s"
    using inv ca_alloc_inv by (auto simp: s1_def ca_alloc_def)
  have "ca_get ?k s1 \<noteq> None" by (auto simp: s1_def ca_get_def ca_alloc_def om_get_put)
  then obtain rsp where rsp: "ca_get ?k s1 = Some rsp" by blast
  obtain rsp' out1 rb out2 where b: "(if burst_id (clb_row p) > 0
      then update_ca_burst c_find now p s1 rsp else Inr (rsp, [])) = Inr (rsp', out1)"
    and s': "s' = (let s2 = upd_ca ?k (\<lambda>_. update_ca_response now p rsp') s1;
                s3 = s2\<lparr>ece_cnt := ece_cnt s2 + ucast (ecnecho p)\<rparr> in s3\<lparr>rbuf := rb\<rparr>)"
    using r rsp unfolding recv_as_receiver_def Let_def s1_def[symmetric] by (auto simp: split_beta)
  have "rsp_hashkey rsp' = rsp_hashkey rsp"
    using b update_ca_burst_hashkey by (auto split: if_splits)
  then have "ring_inv (ca_map (upd_ca ?k (\<lambda>_. update_ca_response now p rsp') s1)) (ca_queue s1)"
    using s1(1) rsp by (intro ring_inv_upd_ca) (auto simp: clb_inv_def ca_get_def update_ca_response_def Let_def)
  then show "clb_inv s'" "sequence s' = sequence s" "VP_SIZE s' = VP_SIZE s"
    using s1 by (simp_all add: s' Let_def clb_inv_def burst_inv_def)
qed

text \<open>\<^verbatim>\<open>clb_recv\<close> up to the receiver part: the packet is a rate report, or its
  feedback has been taken in.\<close>

lemma clb_recv_cases:
  assumes inv: "clb_inv s"
  obtains (probe) s' where "clb_recv c_find now p s = Inr (1, s', [])" "clb_inv s'"
      "sequence s' = sequence s" "VP_SIZE s' = VP_SIZE s" "rbuf s' = rbuf s"
      "response_en (clb_row p)" "1 < burst_rate (clb_row p)"
      "vp_get (vp_rid (clb_row p)) s \<noteq> None"
  | (data) s1 where "clb_recv c_find now p s = recv_as_receiver c_find now p s1" "clb_inv s1"
      "sequence s1 = sequence s" "VP_SIZE s1 = VP_SIZE s" "rbuf s1 = rbuf s" "ca_map s1 = ca_map s"
proof -
  let ?row = "clb_row p"
  define s1 where "s1 = (if response_en ?row
    then s\<lparr>global_ca := ca_record_recv now (vp_rcnt ?row) (global_ca s)\<rparr> else s)"
  define s2 where "s2 = s1\<lparr>global_response := update_ca_response now p (global_response s1)\<rparr>"
  have s2: "clb_inv s2" "sequence s2 = sequence s" "VP_SIZE s2 = VP_SIZE s" "rbuf s2 = rbuf s"
      "ca_map s2 = ca_map s" "vp_map s2 = vp_map s"
    using inv by (auto simp: s2_def s1_def clb_inv_def burst_inv_def)
  have code: "clb_recv c_find now p s =
      (if response_en ?row then
          (case vp_get (vp_rid ?row) s2 of
             None \<Rightarrow> recv_as_receiver c_find now p s2
           | Some vp \<Rightarrow>
               if hashkey vp \<noteq> vp_rid ?row then Inl AssertFail
               else if burst_rate ?row > 1 then
                 Inr (1, (if r_rate (ca_row vp) < burst_rate ?row
                          then upd_vp (vp_rid ?row) (\<lambda>ca. ca\<lparr>r_rate := burst_rate ?row\<rparr>) s2
                          else s2), [])
               else recv_as_receiver c_find now p
                 (vp_update_rrate now p (vp_rid ?row)
                   (upd_vp (vp_rid ?row) (ca_record_recv now (vp_rcnt ?row)) s2)))
        else recv_as_receiver c_find now p s2)"
    unfolding clb_recv_def Let_def s1_def[symmetric] s2_def[symmetric] by (rule refl)
  show ?thesis
  proof (cases "response_en ?row \<and> vp_get (vp_rid ?row) s2 \<noteq> None")
    case False
    then have "clb_recv c_find now p s = recv_as_receiver c_find now p s2"
      unfolding code by auto
    then show ?thesis using data[of s2] s2 by simp
  next
    case True
    then obtain vp where vp: "vp_get (vp_rid ?row) s2 = Some vp" by blast
    have hk: "hashkey vp = vp_rid ?row"
      using vp s2(1) paths_inv_hashkey by (auto simp: clb_inv_def vp_get_def)
    show ?thesis
    proof (cases "burst_rate ?row > 1")
      case rate: True
      let ?s = "upd_vp (vp_rid ?row) (\<lambda>ca. ca\<lparr>r_rate := burst_rate ?row\<rparr>) s2"
      have "clb_inv ?s" using s2(1) by (rule clb_inv_upd_vp) (simp_all add: sent_def)
      moreover have "clb_recv c_find now p s =
          Inr (1, (if r_rate (ca_row vp) < burst_rate ?row then ?s else s2), [])"
        unfolding code using True vp hk rate by simp
      ultimately show ?thesis
        using probe[of "if r_rate (ca_row vp) < burst_rate ?row then ?s else s2"] s2 True rate
        by (simp add: vp_get_def)
    next
      case False
      let ?s = "upd_vp (vp_rid ?row) (ca_record_recv now (vp_rcnt ?row)) s2"
      have s: "clb_inv ?s" using s2(1) by (rule clb_inv_upd_vp) simp_all
      have key: "om_get (vp_rid ?row) (vp_map ?s) \<noteq> None" using vp by (simp add: vp_get_def)
      have "clb_recv c_find now p s = recv_as_receiver c_find now p (vp_update_rrate now p (vp_rid ?row) ?s)"
        unfolding code using True vp hk False by simp
      moreover have "sequence (vp_update_rrate now p k s) = sequence s \<and>
          VP_SIZE (vp_update_rrate now p k s) = VP_SIZE s \<and> ca_map (vp_update_rrate now p k s) = ca_map s" for k s
        by (auto simp: vp_update_rrate_def Let_def split: option.split)
      ultimately show ?thesis
        using data[OF _ vp_update_rrate_inv(1)[OF s key]] vp_update_rrate_inv(2)[OF s key] s2 by simp
    qed
  qed
qed

lemma clb_recv_inv:
  assumes "clb_inv s" and "clb_recv c_find now p s = Inr (ret, s', out)"
  shows "clb_inv s'" and "sequence s' = sequence s" and "VP_SIZE s' = VP_SIZE s"
proof -
  have "clb_inv s' \<and> sequence s' = sequence s \<and> VP_SIZE s' = VP_SIZE s"
    using assms(1)
  proof (cases rule: clb_recv_cases[of s c_find now p])
    case (probe t)
    then show ?thesis using assms(2) by simp
  next
    case (data s1)
    then show ?thesis
      using assms(2) recv_as_receiver_inv[of s1 c_find now p ret s' out] by simp
  qed
  then show "clb_inv s'" and "sequence s' = sequence s" and "VP_SIZE s' = VP_SIZE s" by auto
qed

subsection \<open>The timer\<close>

lemma update_ca_record_inv:
  assumes "update_ca_record now ca = Inr ca'"
  shows "sent ca' = sent ca" and "c_rate ca' = c_rate ca" and "r_rate ca' = r_rate ca"
    and "recv_cnt ca' = recv_cnt ca + word_of_int (recv_undefined ca)"
    and "send_undefined ca' = 0" and "recv_undefined ca' = 0" and "update_time ca' = now"
  using assms by (auto simp: update_ca_record_def Let_def sent_def split: if_splits)

lemma update_ca_records_inv:
  assumes "update_ca_records now m = Inr m'"
  shows "om_keys m' = om_keys m"
    and "om_sum (\<lambda>vp. c_rate (ca_row vp)) m' = om_sum (\<lambda>vp. c_rate (ca_row vp)) m"
    and "om_sum (\<lambda>vp. sent (ca_row vp)) m' = om_sum (\<lambda>vp. sent (ca_row vp)) m"
    and "(\<forall>(k, vp)\<in>set m. hashkey vp = k) \<Longrightarrow> (\<forall>(k, vp)\<in>set m'. hashkey vp = k)"
  using assms by (induction now m arbitrary: m' rule: update_ca_records.induct)
    (auto simp: update_ca_record_inv, fastforce)

lemma clb_expire_inv:
  assumes "clb_inv s" and "clb_expire now s = Inr (s', d)"
  shows "clb_inv s'" and "d = T_REFRESH" and "VP_SIZE s' = VP_SIZE s" and "sequence s' = sequence s"
proof -
  obtain g m where g: "update_ca_record now (global_ca s) = Inr g"
    and m: "update_ca_records now (vp_map s) = Inr m"
    and s': "s' = s\<lparr>global_ca := g, vp_map := m\<rparr>" "d = T_REFRESH"
    using assms(2) by (auto simp: clb_expire_def)
  have P: "paths_inv (VP_SIZE s) (sequence s) m"
    using assms(1) update_ca_records_inv[OF m] unfolding clb_inv_def paths_inv_def by simp
  have "om_get k m \<noteq> None \<longleftrightarrow> om_get k (vp_map s) \<noteq> None" for k
    using update_ca_records_inv(1)[OF m] om_keys_get[of k m] om_keys_get[of k "vp_map s"] by simp
  then have "burst_inv s'" using assms(1) by (auto simp: s' clb_inv_def burst_inv_def)
  then show "clb_inv s'" using assms(1) P update_ca_record_inv(1)[OF g] by (simp add: s' clb_inv_def)
  show "d = T_REFRESH" "VP_SIZE s' = VP_SIZE s" "sequence s' = sequence s" using s' by simp_all
qed

end
