(* ===== verification/CLBProperties.thy ===== *)
theory CLBProperties
  imports CLBReceive
begin

text \<open>
  What the CLB processor promises: the reachable states and their invariant, the
  stamps of sent packets, the burst, the reports, the probe rate and the rotation
  of the round robin.
\<close>

subsection \<open>Reachable states\<close>

inductive clb_reach :: "int \<Rightarrow> clb_processor \<Rightarrow> bool" for N where
  start: "new_CLBProcessor now a b N = Some s \<Longrightarrow> clb_reach N s"
| send: "clb_reach N s \<Longrightarrow> clb_send now p s = Inr (ret, p', s') \<Longrightarrow> clb_reach N s'"
| recv: "clb_reach N s \<Longrightarrow> clb_recv c_find now p s = Inr (ret, s', out) \<Longrightarrow> clb_reach N s'"
| expire: "clb_reach N s \<Longrightarrow> clb_expire now s = Inr (s', d) \<Longrightarrow> clb_reach N s'"

lemma clb_reach_clb_inv:
  assumes "clb_reach N s" and "0 < N" and "N < 2 ^ 31"
  shows "clb_inv s \<and> VP_SIZE s = N"
  using assms(1)
proof induction
  case (start now a b s)
  then show ?case using new_CLBProcessor_inv[OF assms(2,3), of now a b] by auto
next
  case (send s now p ret p' s')
  then show ?case using clb_send_ok[of s now p] by auto
next
  case (recv s c_find now p ret s' out)
  then show ?case using clb_recv_inv[of s c_find now p ret s' out] by simp
next
  case (expire s now s' d)
  then show ?case using clb_expire_inv[of s now s' d] by simp
qed

lemma clb_new_reach:
  assumes "0 < N" and "N < 2 ^ 31"
  obtains s where "new_CLBProcessor now a b N = Some s" "clb_reach N s" "clb_inv s" "VP_SIZE s = N"
    "sequence s = 0" "rb_abs 1 Map.empty (rbuf s)"
  using new_CLBProcessor_inv[OF assms, of now a b] clb_reach.start by blast

text \<open>C2: In every state that sends, receives and timer expiries reach, the table has
  exactly the paths \<^verbatim>\<open>0..N-1\<close>, each under its own key, and the round robin values
  add up to zero.\<close>

theorem clb_path_table_invariant:
  assumes "clb_reach N s" and "0 < N" and "N < 2 ^ 31"
  shows "om_keys (vp_map s) = List.map of_nat [0..<nat N] \<and>
    (\<forall>(k, vp)\<in>set (vp_map s). hashkey vp = k) \<and>
    om_sum (\<lambda>vp. c_rate (ca_row vp)) (vp_map s) = 0"
  using clb_reach_clb_inv[OF assms] by (simp add: clb_inv_def paths_inv_def)

text \<open>Every packet sent is counted: the sequence number, the packets counted
  globally and the packets counted over all the paths agree (modulo \<^verbatim>\<open>2^32\<close>).\<close>

theorem clb_sent_accounting:
  assumes "clb_reach N s" and "0 < N" and "N < 2 ^ 31"
  shows "send_cnt (global_ca s) + send_undefined (global_ca s) = sequence s \<and>
    om_sum (\<lambda>vp. send_cnt (ca_row vp) + send_undefined (ca_row vp)) (vp_map s) = sequence s"
  using clb_reach_clb_inv[OF assms] by (simp add: clb_inv_def paths_inv_def sent_def)

text \<open>From a reachable state \<^verbatim>\<open>send\<close> succeeds: the packet leaves on a path of the
  table, carries the next sequence number and is otherwise unchanged.\<close>

theorem clb_send_stamps:
  assumes "clb_reach N s" and "0 < N" and "N < 2 ^ 31"
  shows "\<exists>p' s'. clb_send now p s = Inr (0, p', s') \<and>
    uint (vp_id (clb_row p')) < N \<and> ecmpHashKey p' = vp_id (clb_row p') \<and>
    SN_HSN (clb_row p') = sequence s + 1 \<and> sequence s' = sequence s + 1 \<and> record_en (clb_row p') \<and>
    p'\<lparr>ecmpHashKey := ecmpHashKey p, clb_row := clb_row p\<rparr> = p \<and>
    road_ecn (clb_row p') = road_ecn (clb_row p) \<and> burst_rate (clb_row p') = burst_rate (clb_row p)"
proof -
  have inv: "clb_inv s" "VP_SIZE s = N" using clb_reach_clb_inv[OF assms] by auto
  then show ?thesis using clb_send_ok[OF inv(1), of now p] by auto
qed

lemma recv_as_receiver_errors:
  assumes "recv_as_receiver c_find now p s = Inl e"
  shows "e = DivByZero \<or> e = OutOfBounds"
proof -
  have ro: "reorder c_find now p rb = Inl e \<Longrightarrow> e = OutOfBounds" for rb
    by (auto simp: reorder_def Enqueue_PacketQueue_def Let_def split_beta split: if_splits)
  have ub: "update_ca_burst c_find now p s r = Inl e \<Longrightarrow> e = DivByZero" for s r
    by (auto simp: update_ca_burst_def Let_def split: if_splits)
  have bind_l: "bind_r m f = Inl e \<Longrightarrow> m = Inl e \<or> (\<exists>x. m = Inr x \<and> f x = Inl e)" for m :: "'x result" and f :: "'x \<Rightarrow> 'y result"
    by (cases m) auto
  show ?thesis
    using assms ro ub unfolding recv_as_receiver_def Let_def
    by (auto split: option.splits if_splits prod.splits dest!: bind_l)
qed

text \<open>In a reachable state the assertion of \<^verbatim>\<open>recv\<close> holds and no null pointer is
  read: the only failures are a burst that took no time and a slot index below zero.
  The return value tells the caller to free the packet (1, a rate report) or to leave
  it (2).\<close>

theorem clb_recv_outcomes:
  assumes "clb_reach N s" and "0 < N" and "N < 2 ^ 31"
  shows "(\<exists>e. clb_recv c_find now p s = Inl e \<and> (e = DivByZero \<or> e = OutOfBounds)) \<or>
    (\<exists>s' out. clb_recv c_find now p s = Inr (2, s', out)) \<or>
    (\<exists>s'. clb_recv c_find now p s = Inr (1, s', []) \<and> rbuf s' = rbuf s \<and>
       response_en (clb_row p) \<and> 1 < burst_rate (clb_row p))"
proof -
  have inv: "clb_inv s" using clb_reach_clb_inv[OF assms] by simp
  have two: "ret = 2" if r: "recv_as_receiver c_find now p s1 = Inr (ret, s', out)" for s1 ret s' out
  proof -
    have "ca_get (vp_id (clb_row p)) (if ca_get (vp_id (clb_row p)) s1 = None
        then ca_alloc now (vp_id (clb_row p)) s1 else s1) \<noteq> None"
      by (auto simp: ca_get_def ca_alloc_def om_get_put)
    then show ?thesis using r
      by (auto simp: recv_as_receiver_def Let_def reorder_def split_beta split: option.splits)
  qed
  show ?thesis
    using inv
  proof (cases rule: clb_recv_cases[of s c_find now p])
    case (data s1)
    show ?thesis
    proof (cases "recv_as_receiver c_find now p s1")
      case (Inl e)
      then show ?thesis using data recv_as_receiver_errors by auto
    next
      case (Inr t)
      obtain ret s' out where "t = (ret, s', out)" by (cases t)
      then show ?thesis using Inr data two by auto
    qed
  qed auto
qed

subsection \<open>A sequence of sends\<close>

fun clb_sends :: "(rat \<times> packet) list \<Rightarrow> clb_processor \<Rightarrow> (packet list \<times> clb_processor) result" where
  "clb_sends [] s = Inr ([], s)"
| "clb_sends ((now, p) # tps) s =
    bind_r (clb_send now p s) (\<lambda>(_, p', s1).
      bind_r (clb_sends tps s1) (\<lambda>(ps', s2). Inr (p' # ps', s2)))"

text \<open>One send in detail: the burst number and the report.\<close>

lemma clb_send_detail:
  assumes inv: "clb_inv s"
  shows "\<exists>k p' s'. clb_send now p s = Inr (0, p', s') \<and> clb_inv s' \<and> vp_id (clb_row p') = k \<and>
    VP_SIZE s' = VP_SIZE s \<and>
    (if burst_pending s
     then burst_vp s = Some k \<and> burst_id (clb_row p') = word_of_int (burst_cnt s) \<and>
       burst_cnt s' = burst_cnt s - 1 \<and> burst_pending s' = (burst_cnt s \<noteq> 1) \<and> burst_vp s' = Some k
     else burst_id (clb_row p') = 0 \<and> \<not> burst_pending s') \<and>
    (case ca_queue s of
       [] \<Rightarrow> \<not> response_en (clb_row p') \<and> ca_queue s' = [] \<and> ca_map s' = ca_map s
     | j # q \<Rightarrow> (\<exists>r. om_get j (ca_map s) = Some r \<and> response_en (clb_row p') \<and>
         vp_rid (clb_row p') = j \<and> vp_rcnt (clb_row p') = rsp_recv_cnt r \<and>
         vp_recn (clb_row p') = rsp_recv_ecn r \<and> ca_queue s' = q @ [j] \<and>
         ca_map s' = om_put j (r\<lparr>rsp_recv_ecn := False\<rparr>) (ca_map s)))"
proof -
  have P: "paths_inv (VP_SIZE s) (sequence s) (vp_map s)" and N: "0 < VP_SIZE s" "VP_SIZE s < 2 ^ 31"
    and B: "burst_inv s" and R: "ring_inv (ca_map s) (ca_queue s)"
    using inv by (simp_all add: clb_inv_def)
  obtain k m where nx: "vp_next now s = Inr (Some k, s\<lparr>vp_map := m\<rparr>)"
    and km: "om_get k m \<noteq> None" and Pm: "paths_inv (VP_SIZE s) (sequence s) m"
    and bm: "burst_pending s \<longrightarrow> burst_vp s = Some k \<and> m = vp_map s"
    using vp_next_ok[OF P N B] by blast
  obtain vp where vp: "om_get k m = Some vp" using km by blast
  have hk: "hashkey vp = k" using paths_inv_hashkey[OF N(2) Pm vp] .
  let ?s3 = "upd_vp k (ca_record_send now)
    (s\<lparr>vp_map := m, sequence := sequence s + 1, global_ca := ca_record_send now (global_ca s)\<rparr>)"
  obtain bid s4 where st: "stamp_burst now k ?s3 = (bid, s4)" by fastforce
  have b4: "if burst_pending s
     then burst_vp s = Some k \<and> bid = word_of_int (burst_cnt s) \<and>
       burst_cnt s4 = burst_cnt s - 1 \<and> burst_pending s4 = (burst_cnt s \<noteq> 1) \<and> burst_vp s4 = Some k
     else bid = 0 \<and> \<not> burst_pending s4" and
    m4: "ca_queue s4 = ca_queue s" "ca_map s4 = ca_map s" "VP_SIZE s4 = VP_SIZE s"
    using st bm by (auto simp: stamp_burst_def Let_def split: if_splits)
  obtain rid rcnt recn ren s5 where tr: "take_response s4 = ((rid, rcnt, recn, ren), s5)"
    by (metis surj_pair)
  obtain resp g q0 m0 where tr': "take_response s4 =
      (resp, s4\<lparr>global_response := g, ca_queue := q0, ca_map := m0\<rparr>)"
    using take_response_inv[of s4] R m4 by auto
  have s5: "s5 = s4\<lparr>global_response := g, ca_queue := q0, ca_map := m0\<rparr>" using tr tr' by simp
  have q5: "case ca_queue s of
       [] \<Rightarrow> \<not> ren \<and> ca_queue s5 = [] \<and> ca_map s5 = ca_map s
     | j # q \<Rightarrow> (\<exists>r. om_get j (ca_map s) = Some r \<and> ren \<and> rid = j \<and> rcnt = rsp_recv_cnt r \<and>
         recn = rsp_recv_ecn r \<and> ca_queue s5 = q @ [j] \<and>
         ca_map s5 = om_put j (r\<lparr>rsp_recv_ecn := False\<rparr>) (ca_map s))"
  proof (cases "ca_queue s")
    case Nil
    then show ?thesis using tr m4 by (auto simp: take_response_def ca_next_def Let_def)
  next
    case (Cons j q)
    then have "om_get j (ca_map s) \<noteq> None" using R om_keys_get[of j "ca_map s"] by (auto simp: ring_inv_def)
    then obtain r where r: "om_get j (ca_map s) = Some r" by blast
    have "rsp_hashkey r = j" using R om_get_mem[OF r] by (auto simp: ring_inv_def)
    then show ?thesis using Cons r tr m4
      by (auto simp: take_response_def ca_next_def ca_get_def upd_ca_def Let_def)
  qed
  let ?p = "p\<lparr>ecmpHashKey := k, clb_row := (clb_row p)\<lparr>vp_id := k, SN_HSN := sequence s + 1,
              burst_id := bid, record_en := True, vp_rid := rid, vp_rcnt := rcnt, vp_recn := recn,
              response_en := ren\<rparr>\<rparr>"
  have run: "clb_send now p s = Inr (0, ?p, s5)"
    using nx vp hk st tr by (simp add: clb_send_def vp_get_def Let_def)
  have inv5: "clb_inv s5" using clb_send_ok[OF inv, of now p] run by auto
  have b5: "burst_cnt s5 = burst_cnt s4" "burst_pending s5 = burst_pending s4"
    "burst_vp s5 = burst_vp s4" "VP_SIZE s5 = VP_SIZE s" using s5 m4 by simp_all
  show ?thesis
    by (rule exI[of _ k], rule exI[of _ ?p], rule exI[of _ s5])
      (use run inv5 b4 b5 q5 in \<open>cases "ca_queue s"; simp\<close>)
qed

text \<open>C8: Once a burst is pending, exactly the next packets sent, as many as are left,
  leave on the burst path, numbered down to 1; then the burst is over.\<close>

theorem clb_burst_stamps:
  assumes "clb_reach N s" and "0 < N" and "N < 2 ^ 31"
    and "burst_pending s" and "burst_vp s = Some k" and "int (length tps) = burst_cnt s"
  shows "\<exists>ps' s'. clb_sends tps s = Inr (ps', s') \<and>
    List.map (\<lambda>p. vp_id (clb_row p)) ps' = replicate (length tps) k \<and>
    List.map (\<lambda>p. burst_id (clb_row p)) ps' = rev (List.map of_nat [1..<Suc (length tps)]) \<and>
    \<not> burst_pending s'"
proof -
  have "clb_inv s" using clb_reach_clb_inv[OF assms(1-3)] by simp
  then show ?thesis using assms(4-6)
  proof (induction tps arbitrary: s)
    case Nil
    then have False by (auto simp: clb_inv_def burst_inv_def)
    then show ?case ..
  next
    case (Cons tp tps)
    obtain now p where tp: "tp = (now, p)" by (cases tp)
    obtain p' s' where r: "clb_send now p s = Inr (0, p', s')" and inv: "clb_inv s'"
      and b: "vp_id (clb_row p') = k" "burst_id (clb_row p') = word_of_int (burst_cnt s)"
        "burst_cnt s' = burst_cnt s - 1" "burst_pending s' = (burst_cnt s \<noteq> 1)" "burst_vp s' = Some k"
      using clb_send_detail[OF Cons.prems(1), of now p] Cons.prems(2,3) by auto
    have id: "burst_id (clb_row p') = of_nat (Suc (length tps))"
      using b(2) by (simp flip: Cons.prems(4))
    show ?case
    proof (cases tps)
      case Nil
      then show ?thesis using r b id Cons.prems(4) tp by simp
    next
      case (Cons a as)
      then have "burst_cnt s \<noteq> 1" using Cons.prems(4) by simp
      then obtain ps' s'' where "clb_sends tps s' = Inr (ps', s'')"
        "List.map (\<lambda>p. vp_id (clb_row p)) ps' = replicate (length tps) k"
        "List.map (\<lambda>p. burst_id (clb_row p)) ps' = rev (List.map of_nat [1..<Suc (length tps)])"
        "\<not> burst_pending s''"
        using Cons.IH[OF inv] b Cons.prems(4) by auto
      then show ?thesis using r b id tp by simp
    qed
  qed
qed

subsection \<open>Reports\<close>

lemma clb_sends_report:
  assumes "clb_inv s" and "ca_queue s = q1 @ q2" and "length tps = length q1"
  shows "\<exists>ps' s'. clb_sends tps s = Inr (ps', s') \<and> List.map (\<lambda>p. vp_rid (clb_row p)) ps' = q1 \<and>
    (\<forall>p\<in>set ps'. response_en (clb_row p)) \<and>
    List.map (\<lambda>p. (vp_rcnt (clb_row p), vp_recn (clb_row p))) ps' =
      List.map (\<lambda>k. (rsp_recv_cnt (the (om_get k (ca_map s))), rsp_recv_ecn (the (om_get k (ca_map s))))) q1 \<and>
    ca_queue s' = q2 @ q1"
  using assms
proof (induction q1 arbitrary: s q2 tps)
  case (Cons j q1)
  obtain now p tps' where tps: "tps = (now, p) # tps'"
    using Cons.prems(3) by (cases tps) auto
  obtain p' s1 r where sd: "clb_send now p s = Inr (0, p', s1)" and inv: "clb_inv s1"
    and r: "om_get j (ca_map s) = Some r" "response_en (clb_row p')" "vp_rid (clb_row p') = j"
      "vp_rcnt (clb_row p') = rsp_recv_cnt r" "vp_recn (clb_row p') = rsp_recv_ecn r"
      "ca_queue s1 = (q1 @ q2) @ [j]" "ca_map s1 = om_put j (r\<lparr>rsp_recv_ecn := False\<rparr>) (ca_map s)"
    using clb_send_detail[OF Cons.prems(1), of now p] Cons.prems(2) by auto
  have "distinct (ca_queue s)" using Cons.prems(1) by (simp add: clb_inv_def ring_inv_def)
  then have "j \<notin> set q1" using Cons.prems(2) by simp
  then have same: "om_get k (ca_map s1) = om_get k (ca_map s)" if "k \<in> set q1" for k
    using that r(7) by (auto simp: om_get_put)
  obtain ps' s' where "clb_sends tps' s1 = Inr (ps', s')"
    "List.map (\<lambda>p. vp_rid (clb_row p)) ps' = q1" "\<forall>p\<in>set ps'. response_en (clb_row p)"
    "List.map (\<lambda>p. (vp_rcnt (clb_row p), vp_recn (clb_row p))) ps' =
      List.map (\<lambda>k. (rsp_recv_cnt (the (om_get k (ca_map s1))), rsp_recv_ecn (the (om_get k (ca_map s1))))) q1"
    "ca_queue s' = (q2 @ [j]) @ q1"
    using Cons.IH[OF inv, of "q2 @ [j]" tps'] r(6) tps Cons.prems(3) by auto
  then show ?case using sd r tps same by simp
qed simp

text \<open>C16: As many packets as there are known paths carry one report of every path:
  its count of received packets and its pending mark, in the order of the ring,
  which is the same afterwards.\<close>

theorem clb_reports_every_path:
  assumes "clb_reach N s" and "0 < N" and "N < 2 ^ 31" and "length tps = length (ca_queue s)"
  shows "\<exists>ps' s'. clb_sends tps s = Inr (ps', s') \<and>
    List.map (\<lambda>p. vp_rid (clb_row p)) ps' = ca_queue s \<and>
    distinct (ca_queue s) \<and> set (ca_queue s) = set (om_keys (ca_map s)) \<and>
    (\<forall>p\<in>set ps'. response_en (clb_row p)) \<and>
    List.map (\<lambda>p. (vp_rcnt (clb_row p), vp_recn (clb_row p))) ps' =
      List.map (\<lambda>k. (rsp_recv_cnt (the (om_get k (ca_map s))), rsp_recv_ecn (the (om_get k (ca_map s)))))
        (ca_queue s) \<and>
    ca_queue s' = ca_queue s"
proof -
  have inv: "clb_inv s" using clb_reach_clb_inv[OF assms(1-3)] by simp
  show ?thesis
    using clb_sends_report[OF inv, of "ca_queue s" "[]" tps] assms(4) inv
    by (auto simp: clb_inv_def ring_inv_def)
qed

text \<open>A reported count that is not older than the known one, followed by the
  timer: the known count becomes the reported one, and the rate is the number of
  packets acknowledged since the last expiry over the time since.\<close>

theorem clb_feedback_counts:
  assumes "0 \<le> sint (c - recv_cnt ca)" and "now' \<noteq> update_time ca"
  shows "\<exists>ca'. update_ca_record now' (ca_record_recv now c ca) = Inr ca' \<and> recv_cnt ca' = c \<and>
    rate ca' = of_int (sint (c - recv_cnt ca)) / (now' - update_time ca) \<and>
    send_cnt ca' = send_cnt ca + send_undefined ca \<and>
    send_undefined ca' = 0 \<and> recv_undefined ca' = 0 \<and> r_rate ca' = r_rate ca"
proof -
  have "recv_cnt ca + word_of_int (sint (c - recv_cnt ca)) = c" by simp
  then show ?thesis
    using assms by (simp add: update_ca_record_def ca_record_recv_def RATE_ALPHA_def Let_def)
qed

subsection \<open>Probes\<close>

text \<open>When a report finds no burst pending and the path it is about has had no
  mark and no probe for longer than \<^verbatim>\<open>T_RSSTIME\<close>, a burst of 10 packets starts, on a
  path whose last mark or probe is the oldest of all.\<close>

theorem clb_burst_starts_on_oldest:
  assumes "clb_inv s" and "vp_get k s = Some vp" and "\<not> vp_recn (clb_row p)"
    and "\<not> burst_pending s" and "now - r_time (ca_row vp) > T_RSSTIME"
  shows "\<exists>j v. vp_update_rrate now p k s =
      s\<lparr>burst_pending := True, burst_vp := Some j, burst_cnt := 10, burst_time := now\<rparr> \<and>
    om_get j (vp_map s) = Some v \<and> (\<forall>(i, w)\<in>set (vp_map s). r_time (ca_row v) \<le> r_time (ca_row w))"
proof -
  let ?t = "r_time (ca_row vp)"
  have om: "om_inv (vp_map s)" using assms(1) paths_inv_om_inv by (auto simp: clb_inv_def)
  have vp: "om_get k (vp_map s) = Some vp" using assms(2) by (simp add: vp_get_def)
  have run: "vp_update_rrate now p k s = s\<lparr>burst_pending := True,
      burst_vp := Some (vp_burst_get k vp s), burst_cnt := 10, burst_time := now\<rparr>"
    using assms by (simp add: vp_update_rrate_def Let_def BURST_PKTCNT_def)
  show ?thesis
  proof (cases "burst_get_loop ?t None (vp_map s)")
    case None
    then have "vp_burst_get k vp s = k" by (simp add: vp_burst_get_def)
    then show ?thesis using None run vp by (auto simp: burst_get_loop_None)
  next
    case (Some j)
    have "\<forall>(j, v)\<in>set (vp_map s). om_get j (vp_map s) = Some v" using om_mem_get[OF om] by auto
    then obtain v where "om_get j (vp_map s) = Some v"
      "\<forall>(i, w)\<in>set (vp_map s). r_time (ca_row v) \<le> r_time (ca_row w)"
      using burst_get_loop_oldest[OF Some, of "vp_map s"] by auto
    moreover have "vp_burst_get k vp s = j" using Some by (simp add: vp_burst_get_def)
    ultimately show ?thesis using run by auto
  qed
qed

text \<open>The packets of a burst at the receiver.\<close>

fun update_ca_bursts ::
    "(packet \<Rightarrow> nsobject option) \<Rightarrow> clb_processor \<Rightarrow> (rat \<times> packet) list \<Rightarrow> ca_response \<Rightarrow> (ca_response \<times> effect list) result" where
  "update_ca_bursts c_find s [] r = Inr (r, [])"
| "update_ca_bursts c_find s ((now, p) # tps) r =
    bind_r (update_ca_burst c_find now p s r) (\<lambda>(r1, out1).
      bind_r (update_ca_bursts c_find s tps r1) (\<lambda>(r2, out2). Inr (r2, out1 @ out2)))"

lemma update_ca_bursts_middle:
  assumes "rsp_burst_pending r = 1" and "\<forall>(t, p)\<in>set tps. t - rsp_burst_time r \<le> T_RSSTIME \<and> burst_id (clb_row p) \<noteq> 1"
    and "t - rsp_burst_time r \<le> T_RSSTIME" and "burst_id (clb_row p) = 1" and "t \<noteq> rsp_burst_time r"
  shows "\<exists>r' rp. update_ca_bursts c_find s (tps @ [(t, p)]) r = Inr (r', [hand_over c_find rp]) \<and>
    rsp_burst_pending r' = 0 \<and> response_en (clb_row rp) \<and> vp_rid (clb_row rp) = rsp_hashkey r \<and>
    saddr rp = src s \<and> daddr rp = dst s \<and>
    burst_rate (clb_row rp) = of_int (rsp_burst_cnt r + int (length tps) + 1) / (t - rsp_burst_time r)"
  using assms
proof (induction tps arbitrary: r)
  case Nil
  then show ?case
    by (simp add: update_ca_burst_def pkt_alloc_def Packet_alloc_def CLBRow_zero_def Let_def)
      (rule exI, rule conjI, rule refl, simp)
next
  case (Cons a tps)
  obtain t0 p0 where a: "a = (t0, p0)" by (cases a)
  let ?r = "r\<lparr>rsp_burst_cnt := rsp_burst_cnt r + 1\<rparr>"
  have "update_ca_burst c_find t0 p0 s r = Inr (?r, [])"
    using Cons.prems(1,2) a by (auto simp: update_ca_burst_def Let_def)
  then show ?case using Cons.IH[of ?r] Cons.prems a by (auto simp: algebra_simps)
qed

text \<open>C9: A burst of at least two packets, of which only the last is numbered 1 and
  all arrive within \<^verbatim>\<open>T_RSSTIME\<close>, makes the receiver send one report, addressed to
  the sender, for this path: the number of packets over the time from the first to
  the last.\<close>

theorem clb_burst_measures_rate:
  assumes "rsp_burst_pending r = 0"
    and "\<forall>(t, p)\<in>set tps. t - t0 \<le> T_RSSTIME \<and> burst_id (clb_row p) \<noteq> 1"
    and "t1 - t0 \<le> T_RSSTIME" and "burst_id (clb_row p1) = 1" and "t1 \<noteq> t0"
  shows "\<exists>r' rp. update_ca_bursts c_find s ((t0, p0) # tps @ [(t1, p1)]) r = Inr (r', [hand_over c_find rp]) \<and>
    rsp_burst_pending r' = 0 \<and> response_en (clb_row rp) \<and> vp_rid (clb_row rp) = rsp_hashkey r \<and>
    saddr rp = src s \<and> daddr rp = dst s \<and>
    burst_rate (clb_row rp) = of_nat (length tps + 2) / (t1 - t0)"
proof -
  let ?r = "r\<lparr>rsp_burst_pending := 1, rsp_burst_cnt := 1, rsp_burst_time := t0\<rparr>"
  have "update_ca_burst c_find t0 p0 s r = Inr (?r, [])"
    using assms(1) by (simp add: update_ca_burst_def)
  then show ?thesis
    using update_ca_bursts_middle[of ?r tps t1 p1 c_find s] assms by (auto simp: algebra_simps)
qed

end
