(* ===== verification/NodeTable.thy ===== *)
theory NodeTable
  imports Packet
begin

text \<open>
  The object that a load balancer keeps at a node: a table with one processor for
  each remote address, made when the first packet to or from it passes.  The code is
  the same, class by class, for CLB (\<^verbatim>\<open>clb/clb.cc\<close>), CLOVE (\<^verbatim>\<open>clb/clove.cc\<close>) and
  Hermes (\<^verbatim>\<open>clb/hermes.cc\<close>); here it is a function of the processor's constructor
  and its two operations, whose contract is the locale \<^verbatim>\<open>end_processor\<close>.
\<close>

record 'p lb_node =
  node_address :: int
  vp_size :: int
  node_table :: "(int, 'p) omap"

definition new_node :: "int \<Rightarrow> int \<Rightarrow> 'p lb_node" where
  "new_node addr sz = \<lparr> node_address = addr, vp_size = sz, node_table = om_empty \<rparr>"

type_synonym 'p maker = "rat \<Rightarrow> int \<Rightarrow> int \<Rightarrow> int \<Rightarrow> 'p option"
type_synonym 'p handler = "rat \<Rightarrow> packet \<Rightarrow> 'p \<Rightarrow> (int \<times> packet \<times> 'p \<times> effect list) result"

text \<open>The processor of an address; a constructor that does not return is an error.\<close>

definition node_processor :: "'p maker \<Rightarrow> rat \<Rightarrow> int \<Rightarrow> 'p lb_node \<Rightarrow> ('p \<times> 'p lb_node) result" where
  "node_processor new now addr n =
    (case om_get addr (node_table n) of
       Some np \<Rightarrow> Inr (np, n)
     | None \<Rightarrow> (case new now (node_address n) addr (vp_size n) of
         None \<Rightarrow> Inl Loops
       | Some np \<Rightarrow> Inr (np, n\<lparr>node_table := om_put addr np (node_table n)\<rparr>)))"

text \<open>One handler of the processor of an address, applied to a packet.\<close>

definition node_proc ::
    "'p maker \<Rightarrow> 'p handler \<Rightarrow> int \<Rightarrow> rat \<Rightarrow> packet \<Rightarrow> 'p lb_node \<Rightarrow> (int \<times> packet \<times> 'p lb_node \<times> effect list) result" where
  "node_proc new h addr now p n =
    bind_r (node_processor new now addr n) (\<lambda>(np, n1).
      bind_r (h now p np) (\<lambda>(ret, p', np', out).
        Inr (ret, p', n1\<lparr>node_table := om_put addr np' (node_table n1)\<rparr>, out)))"

text \<open>\<^verbatim>\<open>recv\<close> of the node's object runs off its end for a packet that is neither from
  nor to the node.\<close>

definition node_recv ::
    "'p maker \<Rightarrow> 'p handler \<Rightarrow> 'p handler \<Rightarrow> rat \<Rightarrow> packet \<Rightarrow> 'p lb_node \<Rightarrow>
     (int \<times> packet \<times> 'p lb_node \<times> effect list) result" where
  "node_recv new rx tx now p n =
    (if daddr p = node_address n then node_proc new rx (saddr p) now p n
     else if saddr p = node_address n then node_proc new tx (daddr p) now p n
     else Inl NoReturn)"

subsection \<open>The contract of a processor\<close>

locale end_processor =
  fixes new :: "'p maker" and rx :: "'p handler" and tx :: "'p handler"
    and good :: "int \<Rightarrow> 'p \<Rightarrow> bool"
  assumes new_good: "0 < N \<Longrightarrow> N < 2 ^ 31 \<Longrightarrow> \<exists>np. new now a b N = Some np \<and> good N np"
    and rx_good: "good N np \<Longrightarrow> rx now p np = Inr (ret, p', np', out) \<Longrightarrow> good N np'"
    and tx_good: "0 < N \<Longrightarrow> N < 2 ^ 31 \<Longrightarrow> good N np \<Longrightarrow>
      \<exists>p' np'. tx now p np = Inr (0, p', np', []) \<and> good N np' \<and>
        p'\<lparr>ecmpHashKey := ecmpHashKey p, clb_row := clb_row p, clove_row := clove_row p,
           hermes_row := hermes_row p\<rparr> = p \<and> uint (ecmpHashKey p') < N"
begin

definition node_inv :: "int \<Rightarrow> int \<Rightarrow> 'p lb_node \<Rightarrow> bool" where
  "node_inv addr N n \<longleftrightarrow> node_address n = addr \<and> vp_size n = N \<and> 0 < N \<and> N < 2 ^ 31 \<and>
     om_inv (node_table n) \<and> (\<forall>(a, np)\<in>set (node_table n). good N np)"

lemma new_node_inv: "0 < N \<Longrightarrow> N < 2 ^ 31 \<Longrightarrow> node_inv addr N (new_node addr N)"
  by (simp add: node_inv_def new_node_def om_empty_def)

lemma node_inv_get: "node_inv addr N n \<Longrightarrow> om_get a (node_table n) = Some np \<Longrightarrow> good N np"
  using om_get_mem by (fastforce simp: node_inv_def)

lemma node_inv_put:
  assumes "node_inv addr N n" and "good N np"
  shows "node_inv addr N (n\<lparr>node_table := om_put a np (node_table n)\<rparr>)"
proof -
  have "\<forall>(a, np)\<in>set (om_put a np (node_table n)). good N np"
    using assms by (intro om_all_put) (auto simp: node_inv_def)
  then show ?thesis using assms(1) by (simp add: node_inv_def om_inv_put)
qed

lemma node_processor_ok:
  assumes "node_inv addr N n"
  shows "\<exists>np n'. node_processor new now a n = Inr (np, n') \<and> node_inv addr N n' \<and> good N np \<and>
    (\<forall>b. b \<noteq> a \<longrightarrow> om_get b (node_table n') = om_get b (node_table n))"
proof (cases "om_get a (node_table n)")
  case (Some np')
  then show ?thesis using assms node_inv_get[OF assms(1) Some] by (simp add: node_processor_def)
next
  case None
  obtain np where new: "new now (node_address n) a (vp_size n) = Some np" "good N np"
    using new_good[of N now "node_address n" a] assms by (auto simp: node_inv_def)
  show ?thesis
    using None new node_inv_put[OF assms new(2), of a] by (simp add: node_processor_def om_get_put)
qed

lemma node_proc_step:
  assumes inv: "node_inv addr N n" and h: "\<And>np ret p' np' out. good N np \<Longrightarrow> h now p np = Inr (ret, p', np', out) \<Longrightarrow> good N np'"
    and r: "node_proc new h a now p n = Inr (ret, p', n', out)"
  shows "node_inv addr N n' \<and> (\<forall>b. b \<noteq> a \<longrightarrow> om_get b (node_table n') = om_get b (node_table n))"
proof -
  obtain np n1 where g: "node_processor new now a n = Inr (np, n1)" "node_inv addr N n1" "good N np"
    "\<forall>b. b \<noteq> a \<longrightarrow> om_get b (node_table n1) = om_get b (node_table n)"
    using node_processor_ok[OF inv] by blast
  obtain np' where c: "h now p np = Inr (ret, p', np', out)"
    and n': "n' = n1\<lparr>node_table := om_put a np' (node_table n1)\<rparr>"
    using r g(1) by (auto simp: node_proc_def)
  show ?thesis using node_inv_put[OF g(2) h[OF g(3) c], of a] g(4) by (simp add: n' om_get_put)
qed

text \<open>A packet touches only the processor of its other end.\<close>

lemma node_recv_step:
  assumes inv: "node_inv addr N n" and r: "node_recv new rx tx now p n = Inr (ret, p', n', out)"
  shows "node_inv addr N n' \<and>
    (\<forall>b. b \<noteq> (if daddr p = addr then saddr p else daddr p) \<longrightarrow>
       om_get b (node_table n') = om_get b (node_table n))"
proof (cases "daddr p = addr")
  case True
  then have "node_proc new rx (saddr p) now p n = Inr (ret, p', n', out)"
    using r inv by (simp add: node_recv_def node_inv_def)
  from node_proc_step[OF inv rx_good this] show ?thesis using True by simp
next
  case False
  then have s: "node_proc new tx (daddr p) now p n = Inr (ret, p', n', out)"
    using r inv by (simp add: node_recv_def node_inv_def split: if_splits)
  have "good N np'" if g: "good N np" and c: "tx now p np = Inr (ret, p', np', out)" for np ret p' np' out
    using tx_good[OF _ _ g, of now p] inv c by (auto simp: node_inv_def)
  from node_proc_step[OF inv this s] show ?thesis using False by simp
qed

text \<open>Sending from a node always succeeds and changes the packet's rows only.\<close>

lemma node_send_total:
  assumes inv: "node_inv addr N n" and "daddr p \<noteq> addr" and "saddr p = addr"
  shows "\<exists>p' n'. node_recv new rx tx now p n = Inr (0, p', n', []) \<and> uint (ecmpHashKey p') < N \<and>
    p'\<lparr>ecmpHashKey := ecmpHashKey p, clb_row := clb_row p, clove_row := clove_row p,
       hermes_row := hermes_row p\<rparr> = p \<and> om_get (daddr p) (node_table n') \<noteq> None"
proof -
  obtain np n1 where g: "node_processor new now (daddr p) n = Inr (np, n1)" "good N np"
    using node_processor_ok[OF inv] by blast
  obtain p' np' where "tx now p np = Inr (0, p', np', [])" "uint (ecmpHashKey p') < N"
    "p'\<lparr>ecmpHashKey := ecmpHashKey p, clb_row := clb_row p, clove_row := clove_row p,
       hermes_row := hermes_row p\<rparr> = p"
    using tx_good[OF _ _ g(2), of now p] inv by (auto simp: node_inv_def)
  then show ?thesis
    using g assms(2,3) inv by (auto simp: node_recv_def node_proc_def node_inv_def om_get_put)
qed

end

end
