(* ===== verification/CLBNode.thy ===== *)
theory CLBNode
  imports CLBProperties NodeTable
begin

text \<open>
  The CLB object of a node (\<^verbatim>\<open>clb/clb.h\<close>, \<^verbatim>\<open>clb/clb.cc\<close>): the node table with CLB
  processors.
\<close>

type_synonym clb_node = "clb_processor lb_node"

definition new_CLB :: "int \<Rightarrow> int \<Rightarrow> clb_node" where
  "new_CLB addr sz = new_node addr sz"

definition clb_rcv :: "(packet \<Rightarrow> nsobject option) \<Rightarrow> clb_processor handler" where
  "clb_rcv c_find now p np = bind_r (clb_recv c_find now p np) (\<lambda>(ret, np', out). Inr (ret, p, np', out))"

definition clb_snd :: "clb_processor handler" where
  "clb_snd now p np = bind_r (clb_send now p np) (\<lambda>(ret, p', np'). Inr (ret, p', np', []))"

definition clb_node_recv ::
    "(packet \<Rightarrow> nsobject option) \<Rightarrow> rat \<Rightarrow> packet \<Rightarrow> clb_node \<Rightarrow> (int \<times> packet \<times> clb_node \<times> effect list) result" where
  "clb_node_recv c_find now p n = node_recv new_CLBProcessor (clb_rcv c_find) clb_snd now p n"

text \<open>The timer of the processor of an address.\<close>

definition clb_node_expire :: "rat \<Rightarrow> int \<Rightarrow> clb_node \<Rightarrow> clb_node result" where
  "clb_node_expire now addr n =
    (case om_get addr (node_table n) of None \<Rightarrow> Inr n
     | Some np \<Rightarrow> bind_r (clb_expire now np) (\<lambda>(np', _).
         Inr (n\<lparr>node_table := om_put addr np' (node_table n)\<rparr>)))"

subsection \<open>CLB processors keep the contract\<close>

lemma clb_snd_ok:
  assumes "0 < N" and "N < 2 ^ 31" and "clb_reach N np"
  shows "\<exists>p' np'. clb_snd now p np = Inr (0, p', np', []) \<and> clb_reach N np' \<and>
    p'\<lparr>ecmpHashKey := ecmpHashKey p, clb_row := clb_row p, clove_row := clove_row p,
       hermes_row := hermes_row p\<rparr> = p \<and> uint (ecmpHashKey p') < N"
proof -
  have "clb_inv np" "VP_SIZE np = N" using clb_reach_clb_inv[OF assms(3,1,2)] by auto
  then obtain k bid s' rid rcnt recn ren where s: "clb_send now p np =
      Inr (0, p\<lparr>ecmpHashKey := k, clb_row := (clb_row p)\<lparr>vp_id := k, SN_HSN := sequence np + 1,
              burst_id := bid, record_en := True, vp_rid := rid, vp_rcnt := rcnt, vp_recn := recn,
              response_en := ren\<rparr>\<rparr>, s')" "uint k < N"
    using clb_send_ok[of np now p] by auto
  then show ?thesis using clb_reach.send[OF assms(3) s(1)] by (simp add: clb_snd_def)
qed

interpretation clbn: end_processor new_CLBProcessor "clb_rcv c_find" clb_snd clb_reach for c_find
proof unfold_locales
  show "\<exists>np. new_CLBProcessor now a b N = Some np \<and> clb_reach N np" if "0 < N" "N < 2 ^ 31" for N now a b
    using clb_new_reach[OF that, of now a b] by blast
  show "clb_reach N np'" if "clb_reach N np" "clb_rcv c_find now p np = Inr (ret, p', np', out)"
    for N np now p ret p' np' out
    using that clb_reach.recv[OF that(1), of c_find now p] by (auto simp: clb_rcv_def)
qed (rule clb_snd_ok)

inductive node_reach :: "int \<Rightarrow> int \<Rightarrow> clb_node \<Rightarrow> bool" for addr N where
  start: "node_reach addr N (new_CLB addr N)"
| recv: "node_reach addr N n \<Longrightarrow> clb_node_recv c_find now p n = Inr (ret, p', n', out) \<Longrightarrow> node_reach addr N n'"
| expire: "node_reach addr N n \<Longrightarrow> clb_node_expire now a n = Inr n' \<Longrightarrow> node_reach addr N n'"

lemma node_reach_inv: "node_reach addr N n \<Longrightarrow> 0 < N \<Longrightarrow> N < 2 ^ 31 \<Longrightarrow> clbn.node_inv addr N n"
proof (induction rule: node_reach.induct)
  case start
  then show ?case using clbn.new_node_inv by (simp add: new_CLB_def)
next
  case (recv n c_find now p ret p' n' out)
  then show ?case using clbn.node_recv_step unfolding clb_node_recv_def by blast
next
  case (expire n now a n')
  have inv: "clbn.node_inv addr N n" using expire by simp
  show ?case
  proof (cases "om_get a (node_table n)")
    case None
    then show ?thesis using inv expire(2) by (simp add: clb_node_expire_def)
  next
    case (Some np)
    then obtain np' d where c: "clb_expire now np = Inr (np', d)"
      and n': "n' = n\<lparr>node_table := om_put a np' (node_table n)\<rparr>"
      using expire(2) by (auto simp: clb_node_expire_def)
    have "clb_reach N np'" using clb_reach.expire[OF clbn.node_inv_get[OF inv Some] c] .
    then show ?thesis using clbn.node_inv_put[OF inv] n' by blast
  qed
qed

text \<open>C28: A node keeps one processor for each remote address, each in a state that
  sends, receives and expiries of that processor alone can reach: a packet touches
  only the processor of its other end.\<close>

theorem clb_node_isolates_pairs:
  assumes "node_reach addr N n" and "0 < N" and "N < 2 ^ 31"
    and "clb_node_recv c_find now p n = Inr (ret, p', n', out)"
  shows "om_inv (node_table n') \<and> (\<forall>(a, np)\<in>set (node_table n'). clb_reach N np) \<and>
    (\<forall>b. b \<noteq> (if daddr p = addr then saddr p else daddr p) \<longrightarrow>
       om_get b (node_table n') = om_get b (node_table n))"
  using clbn.node_recv_step[OF node_reach_inv[OF assms(1-3)] assms(4)[unfolded clb_node_recv_def]]
  by (simp add: clbn.node_inv_def)

text \<open>A packet that a node sends leaves on one of the paths, with no header changed
  but its rows, and sending never fails; a packet that is neither from nor to the
  node makes \<^verbatim>\<open>CLB::recv\<close> end without a return value.\<close>

theorem clb_node_send_total:
  assumes "node_reach addr N n" and "0 < N" and "N < 2 ^ 31" and "daddr p \<noteq> addr"
  shows "if saddr p = addr
    then \<exists>p' n'. clb_node_recv c_find now p n = Inr (0, p', n', []) \<and> uint (ecmpHashKey p') < N \<and>
      p'\<lparr>ecmpHashKey := ecmpHashKey p, clb_row := clb_row p, clove_row := clove_row p,
         hermes_row := hermes_row p\<rparr> = p \<and> om_get (daddr p) (node_table n') \<noteq> None
    else clb_node_recv c_find now p n = Inl NoReturn"
proof -
  note inv = node_reach_inv[OF assms(1-3)]
  then show ?thesis
    using clbn.node_send_total[OF inv assms(4)] assms(4)
    by (auto simp: clb_node_recv_def node_recv_def clbn.node_inv_def)
qed

end
