(* ===== verification/CLBRoundRobin.thy ===== *)
theory CLBRoundRobin
  imports CLBReceive
begin

text \<open>
  The smooth weighted round robin of the CLB processor on paths of equal weight: it
  visits the paths \<^verbatim>\<open>0, 1, ..., N-1\<close> in turn and is then back where it started.
\<close>

subsection \<open>Tables with the keys 0, 1, ..., n-1\<close>

definition tabulate :: "nat \<Rightarrow> nat \<Rightarrow> (nat \<Rightarrow> 'v) \<Rightarrow> (u32, 'v) omap" where
  "tabulate a n f = List.map (\<lambda>j. (of_nat j, f j)) [a..<n]"

lemma tabulate_simps:
  "n \<le> a \<Longrightarrow> tabulate a n f = []"
  "a < n \<Longrightarrow> tabulate a n f = (of_nat a, f a) # tabulate (Suc a) n f"
  by (simp_all add: tabulate_def upt_conv_Cons)

lemma om_put_tabulate:
  assumes "a \<le> i" and "i < n" and "n \<le> 2 ^ 32"
  shows "om_put (of_nat i) v (tabulate a n f) = tabulate a n (f(i := v))"
  using assms
proof (induction "n - a" arbitrary: a)
  case (Suc d)
  have a: "a < n" using Suc.prems by simp
  show ?case
  proof (cases "a = i")
    case True
    have "tabulate (Suc i) n (f(i := v)) = tabulate (Suc i) n f" by (simp add: tabulate_def)
    then show ?thesis using True a by (simp add: tabulate_simps(2))
  next
    case False
    then have "\<not> (of_nat i :: u32) < of_nat a" "(of_nat i :: u32) \<noteq> of_nat a"
      using Suc.prems a of_nat_u32_less_iff[of i a] by auto
    then show ?thesis using False a Suc.hyps(1)[of "Suc a"] Suc.hyps(2) Suc.prems
      by (simp add: tabulate_simps(2))
  qed
qed simp

lemma om_get_tabulate:
  assumes "a \<le> i" and "i < n" and "n \<le> 2 ^ 32"
  shows "om_get (of_nat i) (tabulate a n f) = Some (f i)"
  using om_get_put[of "of_nat i" "of_nat i" "f i" "tabulate a n f"] om_put_tabulate[OF assms, of "f i" f]
  by simp

lemma om_map_tabulate: "om_map g (tabulate a n f) = tabulate a n (g \<circ> f)"
  by (simp add: om_map_def tabulate_def)

lemma om_sum_tabulate_const:
  assumes "\<And>j. g (f j) = (c :: rat)"
  shows "om_sum g (tabulate 0 n f) = of_nat n * c"
  by (induction n) (simp_all add: tabulate_def om_sum_def assms algebra_simps)

lemma tabulate_keys:
  assumes "om_keys m = List.map of_nat [0..<n]"
  shows "\<exists>f. m = tabulate 0 n f"
proof (intro exI nth_equalityI)
  show len: "length m = length (tabulate 0 n (\<lambda>j. snd (m ! j)))"
    using arg_cong[OF assms, of length] by (simp add: tabulate_def)
  fix j assume j: "j < length m"
  then have "j < n" using len by (simp add: tabulate_def)
  moreover have "om_keys m ! j = fst (m ! j)" using j by (simp add: om_keys_def)
  ultimately have "fst (m ! j) = of_nat j" using assms by simp
  then show "m ! j = tabulate 0 n (\<lambda>j. snd (m ! j)) ! j"
    using \<open>j < n\<close> by (simp add: tabulate_def prod_eq_iff)
qed

subsection \<open>The choice\<close>

definition better :: "int \<times> u32 \<Rightarrow> u32 \<times> vp_record \<Rightarrow> int \<times> u32" where
  "better st e = (if c_rate (ca_row (snd e)) + r_rate (ca_row (snd e)) > of_int (fst st)
     then (int_of_double (c_rate (ca_row (snd e)) + r_rate (ca_row (snd e))), fst e) else st)"

lemma swrr_loop_choose:
  "snd (snd (swrr_loop m t mw mv)) = snd (foldl better (mw, mv) m)"
  by (induction m t mw mv rule: swrr_loop.induct)
    (auto simp: Let_def split_beta better_def)

lemma choose_below:
  assumes "0 < W" and "mw < W"
    and "\<forall>(k, vp)\<in>set m. c_rate (ca_row vp) + r_rate (ca_row vp) < of_int W"
  shows "fst (foldl better (mw, mv) m) < W"
  using assms(2,3)
proof (induction m arbitrary: mw mv)
  case (Cons e m)
  have "int_of_double d < W" if "d < of_int W" for d
    using that assms(1) by (auto simp: int_of_double_def floor_less_iff ceiling_less_iff
        intro: order_le_less_trans[of _ 0])
  then have "fst (better (mw, mv) e) < W"
    using Cons.prems by (auto simp: better_def)
  then show ?case using Cons.IH[of "fst (better (mw, mv) e)" "snd (better (mw, mv) e)"] Cons.prems by simp
qed simp

lemma choose_skip:
  assumes "\<forall>(k, vp)\<in>set m. c_rate (ca_row vp) + r_rate (ca_row vp) \<le> of_int mw"
  shows "foldl better (mw, mv) m = (mw, mv)"
  using assms by (induction m) (auto simp: better_def)

text \<open>When every path before \<^verbatim>\<open>i\<close> is below the integer \<^verbatim>\<open>W\<close>, path \<^verbatim>\<open>i\<close> has it and none after
  is above, path \<^verbatim>\<open>i\<close> is chosen.\<close>

lemma choose_tabulate:
  assumes "i < n" and "0 < W" and "mw < W"
    and "\<And>j. j < i \<Longrightarrow> c_rate (ca_row (f j)) + r_rate (ca_row (f j)) < of_int W"
    and "c_rate (ca_row (f i)) + r_rate (ca_row (f i)) = of_int W"
    and "\<And>j. i < j \<Longrightarrow> j < n \<Longrightarrow> c_rate (ca_row (f j)) + r_rate (ca_row (f j)) \<le> of_int W"
  shows "snd (foldl better (mw, mv) (tabulate 0 n f)) = of_nat i"
proof -
  have split: "tabulate 0 n f = tabulate 0 i f @ (of_nat i, f i) # tabulate (Suc i) n f"
  proof -
    have "[0..<n] = [0..<i] @ i # [Suc i..<n]"
      using assms(1) upt_add_eq_append[of 0 i "n - i"] by (simp add: upt_conv_Cons)
    then show ?thesis by (simp add: tabulate_def)
  qed
  obtain mw' mv' where b: "foldl better (mw, mv) (tabulate 0 i f) = (mw', mv')" by fastforce
  have "mw' < W"
    using choose_below[OF assms(2,3), of "tabulate 0 i f" mv] assms(4) b by (auto simp: tabulate_def)
  then have "better (mw', mv') (of_nat i, f i) = (W, of_nat i)"
    using assms(5) by (simp add: better_def)
  moreover have "foldl better (W, of_nat i) (tabulate (Suc i) n f) = (W, of_nat i)"
    using assms(6) by (intro choose_skip) (auto simp: tabulate_def)
  ultimately show ?thesis using b by (simp add: split)
qed

subsection \<open>One round\<close>

fun vp_nexts :: "rat \<Rightarrow> nat \<Rightarrow> clb_processor \<Rightarrow> (u32 list \<times> clb_processor) result" where
  "vp_nexts now 0 s = Inr ([], s)"
| "vp_nexts now (Suc n) s =
    bind_r (vp_next now s) (\<lambda>(vpo, s1).
      case vpo of None \<Rightarrow> Inl NullDeref | Some k \<Rightarrow>
        bind_r (vp_nexts now n s1) (\<lambda>(ks, s2). Inr (k # ks, s2)))"

text \<open>The table after \<^verbatim>\<open>i\<close> of \<^verbatim>\<open>n\<close> choices with weight \<^verbatim>\<open>w\<close>: every path has gained \<^verbatim>\<open>i\<close> times, those
  before \<^verbatim>\<open>i\<close> have paid once.\<close>

definition turn :: "nat \<Rightarrow> int \<Rightarrow> (nat \<Rightarrow> vp_record) \<Rightarrow> nat \<Rightarrow> nat \<Rightarrow> vp_record" where
  "turn n w f i j = (f j)\<lparr>ca_row := (ca_row (f j))\<lparr>r_rate := of_int w,
     c_rate := of_int (int i * w - (if j < i then int n * w else 0))\<rparr>\<rparr>"

lemma turn_simps [simp]:
  "r_rate (ca_row (turn n w f i j)) = of_int w"
  "c_rate (ca_row (turn n w f i j)) = of_int (int i * w - (if j < i then int n * w else 0))"
  by (simp_all add: turn_def)

lemma upd_vp_table:
  "om_get k m = Some vp \<Longrightarrow>
    upd_vp k h (s\<lparr>vp_map := m\<rparr>) = s\<lparr>vp_map := om_put k (vp\<lparr>ca_row := h (ca_row vp)\<rparr>) m\<rparr>"
  by (simp add: upd_vp_def)

lemma vp_next_turn:
  assumes "i < n" and "n < 2 ^ 31" and "0 < w" and "VP_SIZE s = int n" and "\<not> burst_pending s"
    and "vp_map s = tabulate 0 n (turn n w f i)"
  shows "vp_next now s = Inr (Some (of_nat i), s\<lparr>vp_map := tabulate 0 n (turn n w f (Suc i))\<rparr>)"
proof -
  let ?t = "turn n w f i" and ?m = "tabulate 0 n (turn n w f i)"
  have nz: "0 < n" using assms(1) by simp
  have miss: "\<not> vp_missing s"
    using assms(2,4,6) by (simp add: vp_missing_def size_t_of_int_nonneg tabulate_def)
  let ?mw = "int_of_double (c_rate (ca_row (?t 0)))"
  have start: "?m = (of_nat 0, ?t 0) # tabulate (Suc 0) n ?t" using nz by (rule tabulate_simps(2))
  have i1: "int i + 1 \<le> int n" using assms(1) by simp
  have prod: "int i * w + w \<le> int n * w"
    using mult_right_mono[OF i1, of w] assms(3) by (simp add: algebra_simps)
  have iw: "0 \<le> int i * w" using assms(3) by simp
  have nw: "0 \<le> int n * w" using assms(3) by simp
  have mw: "?mw < int i * w + w"
    unfolding turn_simps int_of_double_of_int
    using assms(3) iw nw by (cases "0 < i") (simp_all only: if_True if_False)
  have sel: "snd (foldl better (?mw, of_nat 0) ?m) = of_nat i"
  proof (rule choose_tabulate[where W = "int i * w + w"])
    show "i < n" by fact
    show "0 < int i * w + w" using assms(3) iw by linarith
    show "?mw < int i * w + w" by fact
    show "c_rate (ca_row (?t i)) + r_rate (ca_row (?t i)) = of_int (int i * w + w)" by simp
    fix j
    show "j < i \<Longrightarrow> c_rate (ca_row (?t j)) + r_rate (ca_row (?t j)) < of_int (int i * w + w)"
      using assms(3) nz by simp
    show "i < j \<Longrightarrow> c_rate (ca_row (?t j)) + r_rate (ca_row (?t j)) \<le> of_int (int i * w + w)" by simp
  qed
  have tot: "om_sum (\<lambda>vp. r_rate (ca_row vp)) ?m = of_nat n * of_int w"
    by (rule om_sum_tabulate_const) simp
  have loop: "swrr_loop ?m 0 ?mw (of_nat 0) = (om_map gain ?m, of_nat n * of_int w, of_nat i)"
    using swrr_loop_effect[of ?m 0 ?mw "of_nat 0"] swrr_loop_choose[of ?m 0 ?mw "of_nat 0"] sel tot by auto
  have n32: "n \<le> 2 ^ 32" using assms(2) by simp
  have upd: "upd_vp (of_nat i) (\<lambda>ca. ca\<lparr>c_rate := c_rate ca - of_nat n * of_int w\<rparr>)
      (s\<lparr>vp_map := om_map gain ?m\<rparr>) = s\<lparr>vp_map := tabulate 0 n (turn n w f (Suc i))\<rparr>"
  proof -
    let ?g = "gain (?t i)"
    let ?v = "?g\<lparr>ca_row := (ca_row ?g)\<lparr>c_rate := c_rate (ca_row ?g) - of_nat n * of_int w\<rparr>\<rparr>"
    have get: "om_get (of_nat i) (om_map gain ?m) = Some ?g"
      using om_get_tabulate[of 0 i n ?t] assms(1) n32 by simp
    have "om_put (of_nat i) ?v (om_map gain ?m) = tabulate 0 n ((gain \<circ> ?t)(i := ?v))"
      unfolding om_map_tabulate using assms(1) n32 by (intro om_put_tabulate) simp_all
    also have "(gain \<circ> ?t)(i := ?v) = turn n w f (Suc i)"
      by (rule ext) (auto simp: turn_def gain_def less_Suc_eq algebra_simps)
    finally have put: "om_put (of_nat i) ?v (om_map gain ?m) = tabulate 0 n (turn n w f (Suc i))" .
    show ?thesis unfolding upd_vp_table[OF get] put ..
  qed
  have "vp_next now s = (case swrr_loop ?m 0 ?mw (of_nat 0) of (m, t, max_vp) \<Rightarrow>
      Inr (Some max_vp, upd_vp max_vp (\<lambda>ca. ca\<lparr>c_rate := c_rate ca - t\<rparr>) (s\<lparr>vp_map := m\<rparr>)))"
    unfolding vp_next_def vp_next_at_ratio_SWRR_def assms(6) using miss assms(5)
    by (subst (1) start) (simp only: if_False list.case prod.case)
  then show ?thesis unfolding loop by (simp only: prod.case upd)
qed

lemma vp_nexts_turn:
  assumes "i + d = n" and "n < 2 ^ 31" and "0 < w" and "VP_SIZE s = int n" and "\<not> burst_pending s"
    and "vp_map s = tabulate 0 n (turn n w f i)"
  shows "vp_nexts now d s =
    Inr (List.map of_nat [i..<n], s\<lparr>vp_map := tabulate 0 n (turn n w f n)\<rparr>)"
  using assms
proof (induction d arbitrary: i s)
  case (Suc d)
  have i: "i < n" using Suc.prems(1) by simp
  let ?s = "s\<lparr>vp_map := tabulate 0 n (turn n w f (Suc i))\<rparr>"
  have "vp_nexts now d ?s = Inr (List.map of_nat [Suc i..<n], ?s\<lparr>vp_map := tabulate 0 n (turn n w f n)\<rparr>)"
    using Suc.prems by (intro Suc.IH) simp_all
  moreover have "[i..<n] = i # [Suc i..<n]" using i by (simp add: upt_conv_Cons)
  ultimately show ?case using vp_next_turn[OF i Suc.prems(2-6), of now] by simp
qed (simp flip: assms(6))

text \<open>C3: With equal positive integer weights and balanced counters, as many choices as
  there are paths visit each path once, in the order of the keys, and leave the
  table as it was.\<close>

theorem clb_equal_weights_round_robin:
  assumes "clb_inv s" and "\<not> burst_pending s" and "0 < w"
    and "\<forall>(k, vp)\<in>set (vp_map s). r_rate (ca_row vp) = of_int w \<and> c_rate (ca_row vp) = 0"
  shows "vp_nexts now (nat (VP_SIZE s)) s = Inr (List.map of_nat [0..<nat (VP_SIZE s)], s)"
proof -
  define n where "n = nat (VP_SIZE s)"
  have N: "VP_SIZE s = int n" "n < 2 ^ 31" and keys: "om_keys (vp_map s) = List.map of_nat [0..<n]"
    using assms(1) by (simp_all add: n_def clb_inv_def paths_inv_def nat_less_iff)
  obtain f where f: "vp_map s = tabulate 0 n f" using tabulate_keys[OF keys] by blast
  have "turn n w f 0 j = f j" "turn n w f n j = f j" if "j < n" for j
  proof -
    have "(of_nat j, f j) \<in> set (vp_map s)" using that by (auto simp: f tabulate_def)
    then have "r_rate (ca_row (f j)) = of_int w" "c_rate (ca_row (f j)) = 0" using assms(4) by auto
    then show "turn n w f 0 j = f j" "turn n w f n j = f j" using that by (simp_all add: turn_def)
  qed
  then have t: "tabulate 0 n (turn n w f 0) = vp_map s" "tabulate 0 n (turn n w f n) = vp_map s"
    by (simp_all add: f tabulate_def)
  show ?thesis
    using vp_nexts_turn[of 0 n n w s f now] N assms(2,3) t by (simp flip: n_def)
qed

end
