(* ===== verification/CLBWitness.thy ===== *)
theory CLBWitness
  imports CLBNode CLBRoundRobin
begin

text \<open>
  The properties of the CLB processor at concrete states: a processor with two
  paths as the constructor makes it, and the same after a first packet with a report.
\<close>

definition ex_path :: "u32 \<Rightarrow> vp_record" where
  "ex_path k = (init_vp_record 0 INIT_RRATE)\<lparr>hashkey := k\<rparr>"

definition ex_proc :: clb_processor where
  "ex_proc = (blank_CLBProcessor 0 1 2 2)\<lparr>hashkey_counter := 2,
     vp_map := [(0, ex_path 0), (1, ex_path 1)]\<rparr>"

lemma new_ex_proc: "new_CLBProcessor 0 1 2 2 = Some ex_proc"
proof -
  let ?b = "blank_CLBProcessor 0 1 2 2"
  have 0: "vp_map ?b = []" "VP_SIZE ?b = 2" "hashkey_counter ?b = 0" "init_rrate ?b = INIT_RRATE"
    by (simp_all add: blank_CLBProcessor_def om_empty_def)
  let ?s1 = "?b\<lparr>hashkey_counter := 1, vp_map := [(0, ex_path 0)]\<rparr>"
  have 1: "vp_init 0 ?b = vp_init 0 ?s1"
    by (subst vp_init.simps) (simp add: vp_missing_def size_t_of_int_def 0 vp_alloc_def ex_path_def Let_def)
  have 2: "vp_init 0 ?s1 = vp_init 0 ex_proc"
    by (subst vp_init.simps)
      (simp add: vp_missing_def size_t_of_int_def 0 vp_alloc_def ex_path_def ex_proc_def Let_def)
  have 3: "vp_init 0 ex_proc = Some ex_proc"
    by (subst vp_init.simps) (simp add: vp_missing_def size_t_of_int_def 0 ex_proc_def)
  show ?thesis by (simp add: new_CLBProcessor_def 1 2 3)
qed

lemma ex_proc_reach: "clb_reach 2 ex_proc"
  by (rule clb_reach.start[OF new_ex_proc])

lemma ex_proc_inv: "clb_inv ex_proc" "VP_SIZE ex_proc = 2"
  using clb_reach_clb_inv[OF ex_proc_reach] by simp_all

lemma ex_proc_simps:
  "vp_map ex_proc = [(0, ex_path 0), (1, ex_path 1)]" "ca_queue ex_proc = []" "ca_map ex_proc = []"
  "\<not> burst_pending ex_proc" "sequence ex_proc = 0"
  by (simp_all add: ex_proc_def blank_CLBProcessor_def om_empty_def)

lemma ex_path_simps:
  "r_rate (ca_row (ex_path k)) = 3333333" "c_rate (ca_row (ex_path k)) = 0"
  "r_time (ca_row (ex_path k)) = 0" "hashkey (ex_path k) = k" "recv_cnt (ca_row (ex_path k)) = 0"
  by (simp_all add: ex_path_def init_vp_record_def init_ca_record_def INIT_RRATE_def)

text \<open>A packet that reports on path 0 arrives on path 5 after one second.\<close>

definition ex_report :: packet where
  "ex_report = Packet_alloc\<lparr>clb_row := CLBRow_zero\<lparr>SN_HSN := 1, vp_id := 5, response_en := True,
     vp_rid := 0, vp_rcnt := 0\<rparr>\<rparr>"

lemma ex_report_simps:
  "clb_row ex_report = CLBRow_zero\<lparr>SN_HSN := 1, vp_id := 5, response_en := True, vp_rid := 0, vp_rcnt := 0\<rparr>"
  by (simp add: ex_report_def)

lemma ex_burst:
  "\<exists>s. clb_reach 2 s \<and> burst_pending s \<and> burst_vp s = Some 0 \<and> burst_cnt s = 10 \<and> ca_queue s = [5]"
proof -
  have rb: "rb_abs 1 Map.empty (rbuf ex_proc)"
    by (rule rb_abs_empty) (simp_all add: ex_proc_def blank_CLBProcessor_def)
  have sq: "sq ex_report = 1" by (simp add: sq_def ex_report_simps)
  have gap: "gap_at 1 (Map.empty(sq ex_report \<mapsto> ex_report)) 2" by (auto simp: gap_at_def sq)
  obtain rb' out where ro: "reorder (\<lambda>_. None) 1 ex_report (rbuf ex_proc) = Inr (2, rb', out)"
    using reorder_window[OF rb _ _ _ _ _ gap, of "\<lambda>_. None" 1] by (auto simp: sq QUEUE_SIZE_def)
  have "\<exists>s out. clb_recv (\<lambda>_. None) 1 ex_report ex_proc = Inr (2, s, out) \<and>
      burst_pending s \<and> burst_vp s = Some 0 \<and> burst_cnt s = 10 \<and> ca_queue s = [5]"
    using ro
    by (simp add: clb_recv_def Let_def ex_report_simps CLBRow_zero_def vp_get_def ex_proc_simps om_get_Cons
        ex_path_simps vp_update_rrate_def upd_vp_def ca_record_recv_def T_RSSTIME_def PRE_RTT_def
        recv_as_receiver_def ca_get_def ca_alloc_def upd_ca_def vp_burst_get_def BURST_PKTCNT_def)
  then show ?thesis using clb_reach.recv[OF ex_proc_reach] by blast
qed

lemma clb_path_table_invariant_witness:
  "om_keys (vp_map ex_proc) = [0, 1] \<and> om_sum (\<lambda>vp. c_rate (ca_row vp)) (vp_map ex_proc) = 0"
  using clb_path_table_invariant[OF ex_proc_reach] by (simp add: upt_rec)

lemma clb_sent_accounting_witness:
  "send_cnt (global_ca ex_proc) + send_undefined (global_ca ex_proc) = 0"
  using clb_sent_accounting[OF ex_proc_reach] by (simp add: ex_proc_simps)

lemma clb_send_stamps_witness:
  "\<exists>p' s'. clb_send 1 Packet_alloc ex_proc = Inr (0, p', s') \<and> uint (vp_id (clb_row p')) < 2 \<and>
    SN_HSN (clb_row p') = 1"
  using clb_send_stamps[OF ex_proc_reach, of 1 Packet_alloc] by (auto simp: ex_proc_simps)

lemma clb_recv_outcomes_witness:
  "\<exists>s' out. clb_recv (\<lambda>_. None) 1 (Packet_alloc\<lparr>clb_row := CLBRow_zero\<rparr>) ex_proc = Inl DivByZero \<or>
    clb_recv (\<lambda>_. None) 1 (Packet_alloc\<lparr>clb_row := CLBRow_zero\<rparr>) ex_proc = Inl OutOfBounds \<or>
    clb_recv (\<lambda>_. None) 1 (Packet_alloc\<lparr>clb_row := CLBRow_zero\<rparr>) ex_proc = Inr (2, s', out)"
  using clb_recv_outcomes[OF ex_proc_reach, of "\<lambda>_. None" 1 "Packet_alloc\<lparr>clb_row := CLBRow_zero\<rparr>"]
  by (auto simp: CLBRow_zero_def)

lemma clb_burst_stamps_witness:
  "\<exists>s ps' s'. clb_sends (replicate 10 (1, Packet_alloc)) s = Inr (ps', s') \<and>
    List.map (\<lambda>p. vp_id (clb_row p)) ps' = replicate 10 0 \<and>
    List.map (\<lambda>p. burst_id (clb_row p)) ps' = [10, 9, 8, 7, 6, 5, 4, 3, 2, 1] \<and> \<not> burst_pending s'"
proof -
  obtain s where s: "clb_reach 2 s" "burst_pending s" "burst_vp s = Some 0" "burst_cnt s = 10"
    using ex_burst by blast
  have "\<exists>ps' s'. clb_sends (replicate 10 (1, Packet_alloc)) s = Inr (ps', s') \<and>
    List.map (\<lambda>p. vp_id (clb_row p)) ps' = replicate 10 0 \<and>
    List.map (\<lambda>p. burst_id (clb_row p)) ps' = rev (List.map of_nat [1..<Suc 10]) \<and> \<not> burst_pending s'"
    using clb_burst_stamps[OF s(1) _ _ s(2,3), of "replicate 10 (1, Packet_alloc)"] s(4) by simp
  moreover have "rev (List.map of_nat [1..<Suc 10]) = [10, 9, 8, 7, 6, 5, 4, 3, 2, 1 :: u32]"
    by (simp add: upt_rec)
  ultimately show ?thesis by metis
qed

lemma clb_reports_every_path_witness:
  "\<exists>s ps' s'. clb_sends [(1, Packet_alloc)] s = Inr (ps', s') \<and>
    List.map (\<lambda>p. vp_rid (clb_row p)) ps' = [5] \<and> ca_queue s' = [5]"
proof -
  obtain s where s: "clb_reach 2 s" "ca_queue s = [5]" using ex_burst by blast
  have len: "length [(1, Packet_alloc)] = length (ca_queue s)" using s(2) by simp
  have "\<exists>ps' s'. clb_sends [(1, Packet_alloc)] s = Inr (ps', s') \<and>
    List.map (\<lambda>p. vp_rid (clb_row p)) ps' = ca_queue s \<and> ca_queue s' = ca_queue s"
    using clb_reports_every_path[OF s(1) _ _ len] by fastforce
  then show ?thesis unfolding s(2) by (rule exI[of _ s])
qed

lemma clb_feedback_counts_witness:
  "\<exists>ca'. update_ca_record 2 (ca_record_recv 1 7 (init_ca_record 0 1)) = Inr ca' \<and> recv_cnt ca' = 7 \<and>
    rate ca' = 7 / 2"
  using clb_feedback_counts[of 7 "init_ca_record 0 1" 2 1] by (simp add: init_ca_record_def) blast

lemma clb_burst_starts_on_oldest_witness:
  "\<exists>j. burst_vp (vp_update_rrate 1 Packet_alloc 0 ex_proc) = Some j"
proof -
  have "vp_get 0 ex_proc = Some (ex_path 0)" by (simp add: vp_get_def ex_proc_simps om_get_Cons)
  then show ?thesis
    using clb_burst_starts_on_oldest[OF ex_proc_inv(1), of 0 "ex_path 0" Packet_alloc 1]
    by (auto simp: Packet_alloc_def CLBRow_zero_def ex_proc_simps ex_path_simps T_RSSTIME_def PRE_RTT_def)
qed

lemma clb_burst_measures_rate_witness:
  "\<exists>r' rp. update_ca_bursts (\<lambda>_. None) ex_proc
      [(0, Packet_alloc), (1 / 1000, Packet_alloc\<lparr>clb_row := CLBRow_zero\<lparr>burst_id := 1\<rparr>\<rparr>)]
      (init_ca_response 0) = Inr (r', [Free rp]) \<and> burst_rate (clb_row rp) = 2000"
  using clb_burst_measures_rate[of "init_ca_response 0" "[]" 0 "1 / 1000"
      "Packet_alloc\<lparr>clb_row := CLBRow_zero\<lparr>burst_id := 1\<rparr>\<rparr>" "\<lambda>_. None" ex_proc Packet_alloc]
  by (auto simp: init_ca_response_def T_RSSTIME_def PRE_RTT_def hand_over_def)

lemma clb_equal_weights_round_robin_witness:
  "vp_nexts 1 2 ex_proc = Inr ([0, 1], ex_proc)"
  using clb_equal_weights_round_robin[OF ex_proc_inv(1), of 3333333 1]
  by (simp add: ex_proc_simps ex_path_simps ex_proc_inv(2) upt_rec)

lemma ex_node: "node_reach 1 2 (new_CLB 1 2)"
  by (rule node_reach.start)

lemma clb_node_send_total_witness:
  "\<exists>p' n'. clb_node_recv (\<lambda>_. None) 0 (Packet_alloc\<lparr>saddr := 1, daddr := 9\<rparr>) (new_CLB 1 2) =
    Inr (0, p', n', []) \<and> uint (ecmpHashKey p') < 2"
  using clb_node_send_total[OF ex_node, of "Packet_alloc\<lparr>saddr := 1, daddr := 9\<rparr>" "\<lambda>_. None" 0] by auto

lemma clb_node_isolates_pairs_witness:
  "\<exists>ret p' n' out. clb_node_recv (\<lambda>_. None) 0 (Packet_alloc\<lparr>saddr := 1, daddr := 9\<rparr>) (new_CLB 1 2) =
      Inr (ret, p', n', out) \<and> (\<forall>(a, np)\<in>set (node_table n'). clb_reach 2 np)"
proof -
  have "\<exists>p' n'. clb_node_recv (\<lambda>_. None) 0 (Packet_alloc\<lparr>saddr := 1, daddr := 9\<rparr>) (new_CLB 1 2) =
      Inr (0, p', n', [])"
    using clbn.node_send_total[OF node_reach_inv[OF ex_node],
        where p = "Packet_alloc\<lparr>saddr := 1, daddr := 9\<rparr>" and c_find = "\<lambda>_. None" and now = 0]
    by (auto simp: clb_node_recv_def)
  then show ?thesis using clb_node_isolates_pairs[OF ex_node] by fastforce
qed

end
