(* ===== verification/FifoQueue.thy ===== *)
theory FifoQueue
  imports Packet "HOL-Library.Multiset"
begin

text \<open>
  The linked list of packets that every queue uses (\<^verbatim>\<open>class PacketQueue\<close> of
  \<^verbatim>\<open>queue/queue.h\<close> and \<^verbatim>\<open>queue/queue.cc\<close>) and the interface of a first-in
  first-out queue, which it provides.  A packet in a queue is its address with its
  contents: \<^verbatim>\<open>remove\<close> compares addresses.
\<close>

type_synonym pkt_ref = "nat \<times> packet"

record packet_queue =
  pq_list :: "pkt_ref list"
  pq_len :: int
  pq_bytes :: int

definition ref_size :: "pkt_ref \<Rightarrow> int" where
  "ref_size p = pkt_size (snd p)"

definition pq_new :: packet_queue where
  "pq_new = \<lparr> pq_list = [], pq_len = 0, pq_bytes = 0 \<rparr>"

definition pq_enque :: "pkt_ref \<Rightarrow> packet_queue \<Rightarrow> packet_queue" where
  "pq_enque p q = q\<lparr>pq_list := pq_list q @ [p], pq_len := pq_len q + 1,
     pq_bytes := pq_bytes q + ref_size p\<rparr>"

definition pq_deque :: "packet_queue \<Rightarrow> pkt_ref option \<times> packet_queue" where
  "pq_deque q = (case pq_list q of [] \<Rightarrow> (None, q)
     | p # ps \<Rightarrow> (Some p, q\<lparr>pq_list := ps, pq_len := pq_len q - 1, pq_bytes := pq_bytes q - ref_size p\<rparr>))"

fun lookup_loop :: "int \<Rightarrow> pkt_ref list \<Rightarrow> pkt_ref option" where
  "lookup_loop n [] = None"
| "lookup_loop n (p # ps) = (if n - 1 < 0 then Some p else lookup_loop (n - 1) ps)"

definition pq_lookup :: "int \<Rightarrow> packet_queue \<Rightarrow> pkt_ref option" where
  "pq_lookup n q = lookup_loop n (pq_list q)"

definition pq_enqueHead :: "pkt_ref \<Rightarrow> packet_queue \<Rightarrow> packet_queue" where
  "pq_enqueHead p q = q\<lparr>pq_list := p # pq_list q, pq_len := pq_len q + 1,
     pq_bytes := pq_bytes q + ref_size p\<rparr>"

definition pq_head :: "packet_queue \<Rightarrow> pkt_ref option" where
  "pq_head q = (case pq_list q of [] \<Rightarrow> None | p # _ \<Rightarrow> Some p)"

definition pq_tail :: "packet_queue \<Rightarrow> pkt_ref option" where
  "pq_tail q = (if pq_list q = [] then None else Some (last (pq_list q)))"

text \<open>\<^verbatim>\<open>remove\<close>: the packet at the address is unlinked; the program aborts when there
  is none.\<close>

fun unlink :: "nat \<Rightarrow> pkt_ref list \<Rightarrow> (pkt_ref \<times> pkt_ref list) option" where
  "unlink a [] = None"
| "unlink a (p # ps) = (if fst p = a then Some (p, ps)
     else (case unlink a ps of None \<Rightarrow> None | Some (t, ps') \<Rightarrow> Some (t, p # ps')))"

definition pq_remove :: "nat option \<Rightarrow> packet_queue \<Rightarrow> packet_queue result" where
  "pq_remove target q =
    (case target of None \<Rightarrow> Inl Abort
     | Some a \<Rightarrow> (case unlink a (pq_list q) of None \<Rightarrow> Inl Abort
         | Some (p, ps) \<Rightarrow> Inr (q\<lparr>pq_list := ps, pq_len := pq_len q - 1, pq_bytes := pq_bytes q - ref_size p\<rparr>)))"

text \<open>\<^verbatim>\<open>remove(pkt, prev)\<close>: the successor of \<^verbatim>\<open>prev\<close> becomes that of \<^verbatim>\<open>pkt\<close>.\<close>

definition pq_remove_after :: "pkt_ref option \<Rightarrow> nat option \<Rightarrow> packet_queue \<Rightarrow> packet_queue result" where
  "pq_remove_after pkt prev q =
    (case pkt of None \<Rightarrow> Inr q
     | Some p \<Rightarrow>
       if map_option fst (pq_head q) = Some (fst p) then Inr (snd (pq_deque q))
       else (case prev of None \<Rightarrow> Inl NullDeref
         | Some a \<Rightarrow> Inr (q\<lparr>pq_list := takeWhile (\<lambda>r. fst r \<noteq> a) (pq_list q) @
              filter (\<lambda>r. fst r = a) (take 1 (dropWhile (\<lambda>r. fst r \<noteq> a) (pq_list q))) @
              drop 1 (dropWhile (\<lambda>r. fst r \<noteq> fst p) (pq_list q)),
              pq_len := pq_len q - 1, pq_bytes := pq_bytes q - ref_size p\<rparr>)))"

subsection \<open>The interface of a first-in first-out queue\<close>

locale packet_fifo =
  fixes new :: 'q
    and enq :: "'p \<Rightarrow> 'q \<Rightarrow> 'q"
    and deq :: "'q \<Rightarrow> 'p option \<times> 'q"
    and items :: "'q \<Rightarrow> 'p list"
    and invar :: "'q \<Rightarrow> bool"
  assumes items_new: "items new = []"
    and items_enq: "items (enq p q) = items q @ [p]"
    and deq_empty: "items q = [] \<Longrightarrow> deq q = (None, q)"
    and deq_cons: "items q = p # ps \<Longrightarrow> \<exists>q'. deq q = (Some p, q') \<and> items q' = ps"
    and invar_new: "invar new"
    and invar_enq: "invar q \<Longrightarrow> invar (enq p q)"
    and invar_deq: "invar q \<Longrightarrow> invar (snd (deq q))"
begin

lemma items_enqs: "items (foldl (\<lambda>q p. enq p q) q ps) = items q @ ps"
  by (induction ps arbitrary: q) (simp_all add: items_enq)

lemma invar_enqs: "invar q \<Longrightarrow> invar (foldl (\<lambda>q p. enq p q) q ps)"
  by (induction ps arbitrary: q) (simp_all add: invar_enq)

lemma deq_enq: "items q \<noteq> [] \<Longrightarrow> \<exists>p q'. deq q = (Some p, q') \<and> items q = p # items q'"
  by (metis deq_cons neq_Nil_conv)

lemma items_deq: "items (snd (deq q)) = tl (items q)"
  using deq_cons[of q] deq_empty[of q] by (cases "items q") auto

lemma fst_deq: "fst (deq q) = (case items q of [] \<Rightarrow> None | p # _ \<Rightarrow> Some p)"
  using deq_cons[of q] deq_empty[of q] by (cases "items q") auto

text \<open>Nothing is lost and nothing is made: what is dequeued and what remains is what
  was there.\<close>

lemma deq_conserves:
  "deq q = (po, q') \<Longrightarrow> mset (items q) = mset (case po of None \<Rightarrow> [] | Some p \<Rightarrow> [p]) + mset (items q')"
  using deq_cons[of q] deq_empty[of q] by (cases "items q") auto

lemma drop_front_keeps:
  "items (snd (deq (enq p q))) = tl (items q @ [p])"
  by (simp add: items_deq items_enq)

end

definition pq_inv :: "packet_queue \<Rightarrow> bool" where
  "pq_inv q \<longleftrightarrow> pq_len q = int (length (pq_list q)) \<and> pq_bytes q = sum_list (List.map ref_size (pq_list q))"

lemma pq_simps [simp]:
  "pq_list pq_new = []" "pq_list (pq_enque p q) = pq_list q @ [p]"
  "pq_len (pq_enque p q) = pq_len q + 1" "pq_bytes (pq_enque p q) = pq_bytes q + ref_size p"
  by (simp_all add: pq_new_def pq_enque_def)

interpretation pq: packet_fifo pq_new pq_enque pq_deque pq_list pq_inv
  by unfold_locales (auto simp: pq_inv_def pq_new_def pq_enque_def pq_deque_def split: list.split)

lemma unlink_Some:
  "unlink a ps = Some (p, ps') \<Longrightarrow> fst p = a \<and>
    (\<exists>xs ys. ps = xs @ p # ys \<and> ps' = xs @ ys \<and> (\<forall>r\<in>set xs. fst r \<noteq> a))"
proof (induction ps arbitrary: ps')
  case (Cons r ps)
  show ?case
  proof (cases "fst r = a")
    case True
    then have "r # ps = [] @ p # ps \<and> ps' = [] @ ps \<and> (\<forall>r\<in>set []. fst r \<noteq> a)" using Cons.prems by simp
    then show ?thesis using True Cons.prems by fastforce
  next
    case False
    then obtain ps'' where u: "unlink a ps = Some (p, ps'')" "ps' = r # ps''"
      using Cons.prems by (auto split: option.splits)
    obtain xs ys where "ps = xs @ p # ys" "ps'' = xs @ ys" "\<forall>r\<in>set xs. fst r \<noteq> a" "fst p = a"
      using Cons.IH[OF u(1)] by blast
    then have "r # ps = (r # xs) @ p # ys \<and> ps' = (r # xs) @ ys \<and> (\<forall>r\<in>set (r # xs). fst r \<noteq> a)"
      using False u(2) by simp
    then show ?thesis using \<open>fst p = a\<close> by blast
  qed
qed simp

lemma unlink_exists: "a \<in> fst ` set ps \<Longrightarrow> \<exists>p ps'. unlink a ps = Some (p, ps')"
  by (induction ps) (force split: option.split)+

lemma unlink_last:
  assumes "distinct (List.map fst (ps @ [p]))"
  shows "unlink (fst p) (ps @ [p]) = Some (p, ps)"
  using assms by (induction ps) auto

lemma pq_remove_inv: "pq_inv q \<Longrightarrow> pq_remove t q = Inr q' \<Longrightarrow> pq_inv q'"
  by (auto simp: pq_remove_def pq_inv_def split: option.splits dest!: unlink_Some)

text \<open>The counters of a packet queue are always the number of packets in it and the
  sum of their sizes, whichever operations are applied; \<^verbatim>\<open>remove\<close> aborts exactly when
  the packet is not in the queue.\<close>

theorem packet_queue_counters:
  assumes "pq_inv q"
  shows "pq_inv (pq_enque p q) \<and> pq_inv (pq_enqueHead p q) \<and> pq_inv (snd (pq_deque q)) \<and>
    (case pq_remove (Some a) q of
       Inl e \<Rightarrow> e = Abort \<and> a \<notin> fst ` set (pq_list q)
     | Inr q' \<Rightarrow> pq_inv q' \<and> a \<in> fst ` set (pq_list q))"
proof -
  have "case pq_remove (Some a) q of
       Inl e \<Rightarrow> e = Abort \<and> a \<notin> fst ` set (pq_list q)
     | Inr q' \<Rightarrow> pq_inv q' \<and> a \<in> fst ` set (pq_list q)"
  proof (cases "unlink a (pq_list q)")
    case None
    then show ?thesis using unlink_exists[of a "pq_list q"] by (auto simp: pq_remove_def)
  next
    case (Some t)
    obtain r ps where t: "t = (r, ps)" by (cases t)
    then have "a \<in> fst ` set (pq_list q)" using unlink_Some[of a "pq_list q" r ps] Some by force
    then show ?thesis
      using Some t pq_remove_inv[OF assms, of "Some a"] by (simp add: pq_remove_def)
  qed
  moreover have "pq_inv (pq_enqueHead p q)" using assms by (simp add: pq_inv_def pq_enqueHead_def)
  ultimately show ?thesis using pq.invar_enq[OF assms] pq.invar_deq[OF assms] by blast
qed

lemma packet_queue_counters_witness:
  "pq_inv (pq_enque (1, Packet_alloc) pq_new) \<and>
    (case pq_remove (Some 7) pq_new of Inl e \<Rightarrow> e = Abort | Inr q' \<Rightarrow> False)"
  using packet_queue_counters[OF pq.invar_new, of "(1, Packet_alloc)" 7]
  by (simp split: sum.splits)

end
