(* ===== verification/DropTail.thy ===== *)
theory DropTail
  imports FifoQueue
begin

text \<open>
  \<^verbatim>\<open>class Queue\<close> (\<^verbatim>\<open>queue/queue.h\<close>, \<^verbatim>\<open>queue/queue.cc\<close>) and its discipline \<^verbatim>\<open>class
  DropTail\<close> (\<^verbatim>\<open>queue/drop-tail.cc\<close>).  The virtual \<^verbatim>\<open>enque\<close> and \<^verbatim>\<open>deque\<close> of a discipline
  are the arguments of \<^verbatim>\<open>Queue_recv\<close>, \<^verbatim>\<open>Queue_resume\<close> and \<^verbatim>\<open>Queue_reset\<close>, and their
  contract is the locale \<^verbatim>\<open>discipline\<close>.  The utilisation and flow monitors write
  statistics and files only and are left out.
\<close>

record queue_base =
  qlim :: int
  blocked :: int
  unblock_on_resume :: int
  true_ave :: rat
  total_time :: rat
  ecn_threshold :: int
  last_hop :: int
  next_hop :: int
  ifTagTimeStamp :: int

record droptail = queue_base +
  dt_q :: packet_queue
  drop_front :: bool
  summarystats :: bool
  qib :: bool
  mean_pktsize :: int

text \<open>\<^verbatim>\<open>updateStats\<close>: the time average of the queue size.\<close>

definition updateStats :: "rat \<Rightarrow> int \<Rightarrow> 'a queue_base_scheme \<Rightarrow> 'a queue_base_scheme" where
  "updateStats now queuesize s =
    (let newtime = now - total_time s in
     if newtime > 0
     then s\<lparr>true_ave := (total_time s * true_ave s + newtime * of_int queuesize) / now, total_time := now\<rparr>
     else s)"

definition mark_ce :: "pkt_ref \<Rightarrow> pkt_ref" where
  "mark_ce p = (fst p, (snd p)\<lparr>ce := 1\<rparr>)"

subsection \<open>DropTail\<close>

text \<open>The test for a full queue, for a packet that asks to enter.\<close>

definition would_overflow :: "'a droptail_scheme \<Rightarrow> packet_queue \<Rightarrow> pkt_ref \<Rightarrow> bool" where
  "would_overflow s q p \<longleftrightarrow>
     (\<not> qib s \<and> pq_len q + 1 \<ge> qlim s) \<or>
     (qib s \<and> pq_bytes q + ref_size p \<ge> qlim s * mean_pktsize s)"

definition ecn_marks :: "'a queue_base_scheme \<Rightarrow> packet_queue \<Rightarrow> bool" where
  "ecn_marks s q \<longleftrightarrow> ecn_threshold s > 0 \<and> pq_len q + 1 \<ge> ecn_threshold s"

definition qsize :: "'a droptail_scheme \<Rightarrow> int" where
  "qsize s = (if qib s then pq_bytes (dt_q s) else pq_len (dt_q s))"

text \<open>\<^verbatim>\<open>enque\<close> returns the new queue and the packets dropped.\<close>

definition droptail_enque :: "rat \<Rightarrow> pkt_ref \<Rightarrow> 'a droptail_scheme \<Rightarrow> 'a droptail_scheme \<times> pkt_ref list" where
  "droptail_enque now p s =
    (let s1 = (if summarystats s then updateStats now (qsize s) s else s);
         p1 = (if ecn_marks s1 (dt_q s1) then mark_ce p else p)
     in if would_overflow s1 (dt_q s1) p1
        then (if drop_front s1
              then (case pq_deque (pq_enque p1 (dt_q s1)) of (pp, q') \<Rightarrow>
                      (s1\<lparr>dt_q := q'\<rparr>, case pp of None \<Rightarrow> [] | Some pp \<Rightarrow> [pp]))
              else (s1, [p1]))
        else (s1\<lparr>dt_q := pq_enque p1 (dt_q s1)\<rparr>, []))"

definition droptail_deque :: "rat \<Rightarrow> 'a droptail_scheme \<Rightarrow> pkt_ref option \<times> 'a droptail_scheme" where
  "droptail_deque now s =
    (let s1 = (if summarystats s then updateStats now (qsize s) s else s)
     in case pq_deque (dt_q s1) of (p, q') \<Rightarrow> (p, s1\<lparr>dt_q := q'\<rparr>))"

definition too_long :: "'a droptail_scheme \<Rightarrow> bool" where
  "too_long s \<longleftrightarrow> (\<not> qib s \<and> pq_len (dt_q s) > qlim s) \<or>
     (qib s \<and> pq_bytes (dt_q s) > qlim s * mean_pktsize s)"

text \<open>\<^verbatim>\<open>shrink_queue\<close>; dropping from an empty queue is a null pointer at the front and
  an abort at the tail, so the loop always ends.\<close>

function shrink_loop ::
    "'a droptail_scheme \<Rightarrow> pkt_ref list \<Rightarrow> ('a droptail_scheme \<times> pkt_ref list) result" where
  "shrink_loop s dropped =
    (if too_long s then
       (if drop_front s
        then (case pq_deque (dt_q s) of
                (None, _) \<Rightarrow> Inl NullDeref
              | (Some pp, q') \<Rightarrow> shrink_loop (s\<lparr>dt_q := q'\<rparr>) (dropped @ [pp]))
        else (case pq_tail (dt_q s) of
                None \<Rightarrow> Inl Abort
              | Some pp \<Rightarrow> (case pq_remove (Some (fst pp)) (dt_q s) of
                  Inl e \<Rightarrow> Inl e
                | Inr q' \<Rightarrow> shrink_loop (s\<lparr>dt_q := q'\<rparr>) (dropped @ [pp]))))
     else Inr (s, dropped))"
  by pat_completeness auto
termination
proof (relation "measure (\<lambda>(s, d). length (pq_list (dt_q s)))", goal_cases)
  case (2 s dropped)
  then show ?case by (auto simp: pq_deque_def split: list.splits)
next
  case (3 s dropped)
  then show ?case by (auto simp: pq_remove_def split: option.splits dest!: unlink_Some)
qed simp

declare shrink_loop.simps [simp del]

definition shrink_queue :: "'a droptail_scheme \<Rightarrow> ('a droptail_scheme \<times> pkt_ref list) result" where
  "shrink_queue s = shrink_loop s []"

subsection \<open>The queue around a discipline\<close>

text \<open>What a queue does to the outside: it hands a packet to its target or drops it.\<close>

datatype queue_out = Target pkt_ref | Drop pkt_ref

text \<open>\<^verbatim>\<open>Queue::recv\<close>; the discipline is given by its two operations.\<close>

definition Queue_recv ::
    "(rat \<Rightarrow> pkt_ref \<Rightarrow> 'a queue_base_scheme \<Rightarrow> 'a queue_base_scheme \<times> pkt_ref list) \<Rightarrow>
     (rat \<Rightarrow> 'a queue_base_scheme \<Rightarrow> (pkt_ref option \<times> 'a queue_base_scheme) option) \<Rightarrow>
     rat \<Rightarrow> pkt_ref \<Rightarrow> 'a queue_base_scheme \<Rightarrow> ('a queue_base_scheme \<times> queue_out list) result" where
  "Queue_recv enq deq now p s =
    (let p1 = (if ifTagTimeStamp s = 1 then (fst p, (snd p)\<lparr>timestamp := now\<rparr>) else p) in
     if last_hop s = next_hop s then Inl Exit
     else case enq now p1 s of (s1, dropped) \<Rightarrow>
       if blocked s1 = 0 then
         (case deq now s1 of
            None \<Rightarrow> Inl Loops
          | Some (None, s2) \<Rightarrow> Inr (s2, List.map Drop dropped)
          | Some (Some q, s2) \<Rightarrow> Inr (s2\<lparr>blocked := 1\<rparr>, List.map Drop dropped @ [Target q]))
       else Inr (s1, List.map Drop dropped))"

definition Queue_resume ::
    "(rat \<Rightarrow> 'a queue_base_scheme \<Rightarrow> (pkt_ref option \<times> 'a queue_base_scheme) option) \<Rightarrow>
     rat \<Rightarrow> 'a queue_base_scheme \<Rightarrow> ('a queue_base_scheme \<times> queue_out list) result" where
  "Queue_resume deq now s =
    (case deq now s of
       None \<Rightarrow> Inl Loops
     | Some (Some p, s1) \<Rightarrow> Inr (s1, [Target p])
     | Some (None, s1) \<Rightarrow>
         Inr (s1\<lparr>blocked := (if unblock_on_resume s1 \<noteq> 0 then 0 else 1)\<rparr>, []))"

text \<open>\<^verbatim>\<open>Queue::reset\<close> drops what the discipline still gives out; the loop need not
  end for every discipline.\<close>

partial_function (option) reset_loop ::
    "(rat \<Rightarrow> 's \<Rightarrow> (pkt_ref option \<times> 's) option) \<Rightarrow> rat \<Rightarrow> 's \<Rightarrow> queue_out list \<Rightarrow> ('s \<times> queue_out list) option" where
  "reset_loop deq now s out =
    (case deq now s of
       None \<Rightarrow> None
     | Some (po, s1) \<Rightarrow> (case po of None \<Rightarrow> Some (s1, out)
         | Some p \<Rightarrow> reset_loop deq now s1 (out @ [Drop p])))"

definition Queue_reset ::
    "(rat \<Rightarrow> 'a queue_base_scheme \<Rightarrow> (pkt_ref option \<times> 'a queue_base_scheme) option) \<Rightarrow>
     rat \<Rightarrow> 'a queue_base_scheme \<Rightarrow> ('a queue_base_scheme \<times> queue_out list) result" where
  "Queue_reset deq now s =
    (case reset_loop deq now (s\<lparr>total_time := 0, true_ave := 0\<rparr>) [] of None \<Rightarrow> Inl Loops | Some t \<Rightarrow> Inr t)"

definition out_mset :: "queue_out list \<Rightarrow> nat multiset" where
  "out_mset out = mset (List.map (\<lambda>x. case x of Target p \<Rightarrow> fst p | Drop p \<Rightarrow> fst p) out)"

lemma out_mset_simps [simp]:
  "out_mset [] = {#}" "out_mset (Target p # out) = add_mset (fst p) (out_mset out)"
  "out_mset (Drop p # out) = add_mset (fst p) (out_mset out)"
  "out_mset (a @ b) = out_mset a + out_mset b" "out_mset (List.map Drop ps) = mset (List.map fst ps)"
  by (simp_all add: out_mset_def comp_def)

subsection \<open>The contract of a discipline\<close>

text \<open>A queue has two different ends.\<close>

definition wired :: "'a queue_base_scheme \<Rightarrow> bool" where
  "wired s \<longleftrightarrow> last_hop s \<noteq> next_hop s"

lemma wired_blocked [simp]: "wired (s\<lparr>blocked := b\<rparr>) = wired s"
  by (simp add: wired_def)

text \<open>A run of a queue: arrivals and calls of its resume handler.\<close>

datatype queue_event = Arrive rat pkt_ref | Resume rat

fun queue_run ::
    "(rat \<Rightarrow> pkt_ref \<Rightarrow> 'a queue_base_scheme \<Rightarrow> 'a queue_base_scheme \<times> pkt_ref list) \<Rightarrow>
     (rat \<Rightarrow> 'a queue_base_scheme \<Rightarrow> (pkt_ref option \<times> 'a queue_base_scheme) option) \<Rightarrow>
     queue_event list \<Rightarrow> 'a queue_base_scheme \<Rightarrow> ('a queue_base_scheme \<times> queue_out list) result" where
  "queue_run enq deq [] s = Inr (s, [])"
| "queue_run enq deq (e # es) s =
    bind_r (case e of Arrive now p \<Rightarrow> Queue_recv enq deq now p s | Resume now \<Rightarrow> Queue_resume deq now s)
      (\<lambda>(s1, out1). bind_r (queue_run enq deq es s1) (\<lambda>(s2, out2). Inr (s2, out1 @ out2)))"

definition arrivals :: "queue_event list \<Rightarrow> nat multiset" where
  "arrivals es = mset (concat (List.map (\<lambda>e. case e of Arrive now p \<Rightarrow> [fst p] | Resume now \<Rightarrow> []) es))"

text \<open>The address of a packet is its identity: contents may be marked on the way.\<close>

locale discipline =
  fixes enq :: "rat \<Rightarrow> pkt_ref \<Rightarrow> 'a queue_base_scheme \<Rightarrow> 'a queue_base_scheme \<times> pkt_ref list"
    and deq :: "rat \<Rightarrow> 'a queue_base_scheme \<Rightarrow> (pkt_ref option \<times> 'a queue_base_scheme) option"
    and held :: "'a queue_base_scheme \<Rightarrow> nat multiset"
    and invar :: "'a queue_base_scheme \<Rightarrow> bool"
  assumes enq_invar: "invar s \<Longrightarrow> invar (fst (enq now p s))"
    and enq_held: "invar s \<Longrightarrow> held (fst (enq now p s)) + mset (List.map fst (snd (enq now p s))) =
      add_mset (fst p) (held s)"
    and enq_base: "blocked (fst (enq now p s)) = blocked s"
      "wired (fst (enq now p s)) = wired s"
    and deq_returns: "invar s \<Longrightarrow> \<exists>po s'. deq now s = Some (po, s') \<and> invar s' \<and>
      blocked s' = blocked s \<and> wired s' = wired s \<and>
      held s = (case po of None \<Rightarrow> {#} | Some p \<Rightarrow> {# fst p #}) + held s' \<and>
      (po = None \<longrightarrow> held s = {#})"
    and invar_flags: "invar (s\<lparr>blocked := b\<rparr>) = invar s" "invar (s\<lparr>total_time := t, true_ave := v\<rparr>) = invar s"
    and held_flags: "held (s\<lparr>blocked := b\<rparr>) = held s" "held (s\<lparr>total_time := t, true_ave := v\<rparr>) = held s"
begin

lemma recv_ok:
  assumes "invar s" and "wired s"
  shows "\<exists>s' out. Queue_recv enq deq now p s = Inr (s', out) \<and> invar s' \<and> wired s' \<and> (blocked s' = 0 \<longrightarrow> held s' = {#}) \<and>
    add_mset (fst p) (held s) = out_mset out + held s'"
proof -
  define p1 where "p1 = (if ifTagTimeStamp s = 1 then (fst p, (snd p)\<lparr>timestamp := now\<rparr>) else p)"
  have p1: "fst p1 = fst p" by (simp add: p1_def)
  obtain s1 dropped where e: "enq now p1 s = (s1, dropped)" by fastforce
  have hops: "last_hop s \<noteq> next_hop s" using assms(2) by (simp add: wired_def)
  have w1: "wired s1" using enq_base(2)[of now p1 s] e assms(2) by simp
  have inv1: "invar s1" and h0: "held s1 + mset (List.map fst dropped) = add_mset (fst p) (held s)"
    using enq_invar[OF assms(1), of now p1] enq_held[OF assms(1), of now p1] e p1 by simp_all
  have h1: "add_mset (fst p) (held s) = mset (List.map fst dropped) + held s1"
    using h0 by (metis add.commute)
  show ?thesis
  proof (cases "blocked s1 = 0")
    case False
    then have "Queue_recv enq deq now p s = Inr (s1, List.map Drop dropped)"
      using e hops by (simp add: Queue_recv_def p1_def[symmetric])
    then show ?thesis using inv1 h1 w1 False by simp
  next
    case True
    obtain po s2 where d: "deq now s1 = Some (po, s2)" "invar s2" "blocked s2 = blocked s1"
      "held s1 = (case po of None \<Rightarrow> {#} | Some p \<Rightarrow> {# fst p #}) + held s2" "po = None \<longrightarrow> held s1 = {#}"
      and w2: "wired s2"
      using deq_returns[OF inv1, of now] w1 by blast
    show ?thesis
    proof (cases po)
      case None
      then have "Queue_recv enq deq now p s = Inr (s2, List.map Drop dropped)"
        using e hops True d(1) by (simp add: Queue_recv_def p1_def[symmetric])
      then show ?thesis using d None h1 w2 by simp
    next
      case (Some q)
      then have "Queue_recv enq deq now p s = Inr (s2\<lparr>blocked := 1\<rparr>, List.map Drop dropped @ [Target q])"
        using e hops True d(1) by (simp add: Queue_recv_def p1_def[symmetric])
      moreover have "invar (s2\<lparr>blocked := 1\<rparr>)" "held (s2\<lparr>blocked := 1\<rparr>) = held s2"
        using d(2) invar_flags(1) held_flags(1) by auto
      moreover have "add_mset (fst p) (held s) =
          out_mset (List.map Drop dropped @ [Target q]) + held s2"
        unfolding h1 d(4) Some by simp
      ultimately show ?thesis using w2
        by (intro exI[of _ "s2\<lparr>blocked := 1\<rparr>"] exI[of _ "List.map Drop dropped @ [Target q]"]) simp
    qed
  qed
qed

lemma resume_ok:
  assumes "invar s"
  shows "\<exists>s' out. Queue_resume deq now s = Inr (s', out) \<and> invar s' \<and> wired s' = wired s \<and>
    held s = out_mset out + held s' \<and> (out = [] \<longleftrightarrow> held s = {#}) \<and>
    (out = [] \<longrightarrow> held s' = {#}) \<and> (out \<noteq> [] \<longrightarrow> blocked s' = blocked s)"
proof -
  obtain po s1 where d: "deq now s = Some (po, s1)" "invar s1" "blocked s1 = blocked s"
    "wired s1 = wired s"
    "held s = (case po of None \<Rightarrow> {#} | Some p \<Rightarrow> {# fst p #}) + held s1" "po = None \<longrightarrow> held s = {#}"
    using deq_returns[OF assms] by blast
  then show ?thesis
    by (cases po) (auto simp: Queue_resume_def invar_flags(1) held_flags(1))
qed

text \<open>Any run: every packet that was there or arrived is handed on, dropped or still
  there, and afterwards, as before, a queue that is not blocked is empty.\<close>

lemma run_ok:
  assumes "invar s" and "wired s" and "blocked s = 0 \<longrightarrow> held s = {#}"
  shows "\<exists>s' out. queue_run enq deq es s = Inr (s', out) \<and> invar s' \<and>
    (blocked s' = 0 \<longrightarrow> held s' = {#}) \<and> arrivals es + held s = out_mset out + held s'"
  using assms
proof (induction es arbitrary: s)
  case Nil
  then show ?case by (simp add: arrivals_def)
next
  case (Cons e es)
  have "\<exists>s1 out1. (case e of Arrive now p \<Rightarrow> Queue_recv enq deq now p s | Resume now \<Rightarrow> Queue_resume deq now s) =
      Inr (s1, out1) \<and> invar s1 \<and> wired s1 \<and> (blocked s1 = 0 \<longrightarrow> held s1 = {#}) \<and>
      arrivals [e] + held s = out_mset out1 + held s1"
  proof (cases e)
    case (Arrive now p)
    then show ?thesis using recv_ok[OF Cons.prems(1,2), of now p] by (simp add: arrivals_def)
  next
    case (Resume now)
    obtain s1 out1 where r: "Queue_resume deq now s = Inr (s1, out1)" "invar s1" "wired s1 = wired s"
      "held s = out_mset out1 + held s1" "out1 = [] \<longleftrightarrow> held s = {#}"
      "out1 = [] \<longrightarrow> held s1 = {#}" "out1 \<noteq> [] \<longrightarrow> blocked s1 = blocked s"
      using resume_ok[OF Cons.prems(1), of now] by blast
    have "blocked s1 = 0 \<longrightarrow> held s1 = {#}"
      using r(5,6,7) Cons.prems(3) by (cases "out1 = []") auto
    then show ?thesis using r Cons.prems(2) Resume by (simp add: arrivals_def)
  qed
  then obtain s1 out1 where s1: "(case e of Arrive now p \<Rightarrow> Queue_recv enq deq now p s
      | Resume now \<Rightarrow> Queue_resume deq now s) = Inr (s1, out1)" "invar s1" "wired s1"
      "blocked s1 = 0 \<longrightarrow> held s1 = {#}" and h: "arrivals [e] + held s = out_mset out1 + held s1"
    by blast
  obtain s2 out2 where s2: "queue_run enq deq es s1 = Inr (s2, out2)" "invar s2"
    "blocked s2 = 0 \<longrightarrow> held s2 = {#}" and h2: "arrivals es + held s1 = out_mset out2 + held s2"
    using Cons.IH[OF s1(2,3,4)] by blast
  have "arrivals (e # es) = arrivals [e] + arrivals es" by (simp add: arrivals_def)
  then have "arrivals (e # es) + held s = out_mset (out1 @ out2) + held s2"
    using h h2 by (metis (no_types, opaque_lifting) add.commute add.left_commute out_mset_simps(4))
  then show ?case using s1(1) s2 by simp
qed

lemma reset_loop_ok:
  assumes "invar s"
  shows "\<exists>s' out'. reset_loop deq now s out = Some (s', out @ out') \<and> held s' = {#} \<and>
    out_mset out' = held s \<and> (\<forall>x\<in>set out'. \<exists>p. x = Drop p)"
  using assms
proof (induction "size (held s)" arbitrary: s out)
  case (0 s out)
  obtain po s1 where d: "deq now s = Some (po, s1)"
    "held s = (case po of None \<Rightarrow> {#} | Some p \<Rightarrow> {# fst p #}) + held s1"
    using deq_returns[OF 0(2)] by blast
  then have "po = None" "held s1 = {#}" using 0(1) by (auto split: option.splits)
  then show ?case using d 0(1)
    by (intro exI[of _ s1] exI[of _ "[]"]) (subst reset_loop.simps, simp)
next
  case (Suc n s out)
  obtain po s1 where d: "deq now s = Some (po, s1)" "invar s1"
    "held s = (case po of None \<Rightarrow> {#} | Some p \<Rightarrow> {# fst p #}) + held s1" "po = None \<longrightarrow> held s = {#}"
    using deq_returns[OF Suc.prems] by blast
  then obtain p where p: "po = Some p" using Suc.hyps(2) by (cases po) auto
  then have "n = size (held s1)" using d(3) Suc.hyps(2) by simp
  then obtain s' out' where "reset_loop deq now s1 (out @ [Drop p]) = Some (s', (out @ [Drop p]) @ out')"
    "held s' = {#}" "out_mset out' = held s1" "\<forall>x\<in>set out'. \<exists>p. x = Drop p"
    using Suc.hyps(1)[OF _ d(2)] by blast
  then show ?case using d(1,3) p
    by (intro exI[of _ s'] exI[of _ "Drop p # out'"]) (subst reset_loop.simps, simp)
qed

end

subsection \<open>DropTail keeps the contract\<close>

definition dt_inv :: "droptail \<Rightarrow> bool" where
  "dt_inv s \<longleftrightarrow> pq_inv (dt_q s)"

definition dt_held :: "droptail \<Rightarrow> nat multiset" where
  "dt_held s = mset (List.map fst (pq_list (dt_q s)))"

lemma updateStats_simps [simp]:
  "qlim (updateStats now k s) = qlim s" "blocked (updateStats now k s) = blocked s"
  "ecn_threshold (updateStats now k s) = ecn_threshold s"
  "dt_q (updateStats now k (t :: 'a droptail_scheme)) = dt_q t"
  "drop_front (updateStats now k t) = drop_front t" "qib (updateStats now k t) = qib t"
  "mean_pktsize (updateStats now k t) = mean_pktsize t"
  "last_hop (updateStats now k s) = last_hop s" "next_hop (updateStats now k s) = next_hop s"
  by (simp_all add: updateStats_def Let_def)

lemma mark_ce_simps [simp]: "fst (mark_ce p) = fst p" "ref_size (mark_ce p) = ref_size p"
  by (simp_all add: mark_ce_def ref_size_def)

text \<open>\<^verbatim>\<open>enque\<close> in terms of the list of packets: the packet, marked when the queue has
  reached the threshold, is appended, or one packet is dropped.\<close>

definition entering :: "'a droptail_scheme \<Rightarrow> pkt_ref \<Rightarrow> pkt_ref" where
  "entering s p = (if ecn_marks s (dt_q s) then mark_ce p else p)"

lemma droptail_enque_list:
  fixes s :: "'a droptail_scheme"
  shows "fst (droptail_enque now p s) = (let s1 = (if summarystats s then updateStats now (qsize s) s else s) in
      s1\<lparr>dt_q := dt_q (fst (droptail_enque now p s))\<rparr>)"
    and "pq_list (dt_q (fst (droptail_enque now p s))) =
      (if would_overflow s (dt_q s) p
       then (if drop_front s then tl (pq_list (dt_q s) @ [entering s p]) else pq_list (dt_q s))
       else pq_list (dt_q s) @ [entering s p])"
    and "snd (droptail_enque now p s) =
      (if would_overflow s (dt_q s) p
       then (if drop_front s then [hd (pq_list (dt_q s) @ [entering s p])] else [entering s p]) else [])"
    and "pq_inv (dt_q s) \<Longrightarrow> pq_inv (dt_q (fst (droptail_enque now p s)))"
proof -
  let ?s1 = "if summarystats s then updateStats now (qsize s) s else s"
  have s1: "dt_q ?s1 = dt_q s" "drop_front ?s1 = drop_front s" "qib ?s1 = qib s"
    "mean_pktsize ?s1 = mean_pktsize s" "qlim ?s1 = qlim s" "ecn_threshold ?s1 = ecn_threshold s" by simp_all
  have over: "would_overflow ?s1 (dt_q ?s1) (if ecn_marks ?s1 (dt_q ?s1) then mark_ce p else p) =
      would_overflow s (dt_q s) p"
    unfolding would_overflow_def ecn_marks_def s1 by simp
  have ent: "(if ecn_marks ?s1 (dt_q ?s1) then mark_ce p else p) = entering s p"
    unfolding entering_def ecn_marks_def s1 by simp
  obtain x xs where l: "pq_list (dt_q s) @ [entering s p] = x # xs"
    by (cases "pq_list (dt_q s) @ [entering s p]") auto
  then obtain q' where q': "pq_deque (pq_enque (entering s p) (dt_q s)) = (Some x, q')" "pq_list q' = xs"
    using pq.deq_cons[of "pq_enque (entering s p) (dt_q s)" x xs] by auto
  have eq: "droptail_enque now p s =
      (if would_overflow s (dt_q s) p
       then (if drop_front s then (?s1\<lparr>dt_q := q'\<rparr>, [x]) else (?s1, [entering s p]))
       else (?s1\<lparr>dt_q := pq_enque (entering s p) (dt_q s)\<rparr>, []))"
    unfolding droptail_enque_def Let_def over unfolding ent unfolding s1 q' by simp
  show "fst (droptail_enque now p s) = (let s1 = ?s1 in s1\<lparr>dt_q := dt_q (fst (droptail_enque now p s))\<rparr>)"
    by (simp add: eq Let_def)
  show "pq_list (dt_q (fst (droptail_enque now p s))) =
      (if would_overflow s (dt_q s) p
       then (if drop_front s then tl (pq_list (dt_q s) @ [entering s p]) else pq_list (dt_q s))
       else pq_list (dt_q s) @ [entering s p])"
    unfolding eq using l q' by simp
  show "snd (droptail_enque now p s) =
      (if would_overflow s (dt_q s) p
       then (if drop_front s then [hd (pq_list (dt_q s) @ [entering s p])] else [entering s p]) else [])"
    unfolding eq using l by simp
  show "pq_inv (dt_q s) \<Longrightarrow> pq_inv (dt_q (fst (droptail_enque now p s)))"
    unfolding eq using q' pq.invar_enq[of "dt_q s" "entering s p"]
      pq.invar_deq[of "pq_enque (entering s p) (dt_q s)"] by simp
qed

lemma entering_fst [simp]: "fst (entering s p) = fst p" "ref_size (entering s p) = ref_size p"
  by (simp_all add: entering_def)

lemma droptail_enque_base [simp]:
  fixes s :: "'a droptail_scheme"
  shows "blocked (fst (droptail_enque now p s)) = blocked s"
    "qlim (fst (droptail_enque now p s)) = qlim s" "qib (fst (droptail_enque now p s)) = qib s"
    "mean_pktsize (fst (droptail_enque now p s)) = mean_pktsize s"
    "drop_front (fst (droptail_enque now p s)) = drop_front s"
    "last_hop (fst (droptail_enque now p s)) = last_hop s"
    "next_hop (fst (droptail_enque now p s)) = next_hop s"
  by (subst droptail_enque_list(1); simp add: Let_def)+

lemma droptail_deque_list:
  fixes s :: "'a droptail_scheme"
  shows "fst (droptail_deque now s) = (case pq_list (dt_q s) of [] \<Rightarrow> None | p # _ \<Rightarrow> Some p)"
    and "pq_list (dt_q (snd (droptail_deque now s))) = tl (pq_list (dt_q s))"
    and "pq_inv (dt_q s) \<Longrightarrow> pq_inv (dt_q (snd (droptail_deque now s)))"
    and "blocked (snd (droptail_deque now s)) = blocked s"
    and "wired (snd (droptail_deque now s)) = wired s"
  using pq.fst_deq[of "dt_q s"] pq.items_deq[of "dt_q s"] pq.invar_deq[of "dt_q s"]
  by (auto simp: droptail_deque_def wired_def Let_def split_beta)

interpretation dt: discipline droptail_enque "\<lambda>now s. Some (droptail_deque now s)" dt_held dt_inv
proof unfold_locales
  fix s :: droptail and now p b t v
  show "dt_inv s \<Longrightarrow> dt_inv (fst (droptail_enque now p s))"
    by (simp add: dt_inv_def droptail_enque_list(4))
  show "dt_held (fst (droptail_enque now p s)) + mset (List.map fst (snd (droptail_enque now p s))) =
      add_mset (fst p) (dt_held s)"
    by (cases "pq_list (dt_q s)") (auto simp: dt_held_def droptail_enque_list(2,3))
  show "blocked (fst (droptail_enque now p s)) = blocked s" by simp
  show "wired (fst (droptail_enque now p s)) = wired s" by (simp add: wired_def)
  show "\<exists>po s'. Some (droptail_deque now s) = Some (po, s') \<and> dt_inv s' \<and> blocked s' = blocked s \<and> wired s' = wired s \<and>
      dt_held s = (case po of None \<Rightarrow> {#} | Some p \<Rightarrow> {# fst p #}) + dt_held s' \<and>
      (po = None \<longrightarrow> dt_held s = {#})" if "dt_inv s"
    using that droptail_deque_list[where s = s and now = now]
    by (cases "pq_list (dt_q s)"; cases "droptail_deque now s") (auto simp: dt_inv_def dt_held_def)
  show "dt_inv (s\<lparr>blocked := b\<rparr>) = dt_inv s" "dt_inv (s\<lparr>total_time := t, true_ave := v\<rparr>) = dt_inv s"
    "dt_held (s\<lparr>blocked := b\<rparr>) = dt_held s" "dt_held (s\<lparr>total_time := t, true_ave := v\<rparr>) = dt_held s"
    by (simp_all add: dt_inv_def dt_held_def)
qed

subsection \<open>The properties\<close>

text \<open>Any run of arrivals and resumptions of a drop-tail queue ends, every packet
  that was there or arrived is handed to the target, dropped or still queued, and a
  queue that is not blocked is empty.\<close>

theorem droptail_run_conserves:
  fixes s :: droptail
  assumes "pq_inv (dt_q s)" and "last_hop s \<noteq> next_hop s" and "blocked s = 0 \<longrightarrow> pq_list (dt_q s) = []"
  shows "\<exists>s' out. queue_run droptail_enque (\<lambda>now s. Some (droptail_deque now s)) es s = Inr (s', out) \<and>
    pq_inv (dt_q s') \<and> (blocked s' = 0 \<longrightarrow> pq_list (dt_q s') = []) \<and>
    arrivals es + mset (List.map fst (pq_list (dt_q s))) =
      out_mset out + mset (List.map fst (pq_list (dt_q s')))"
  using dt.run_ok[of s es] assms by (simp add: dt_inv_def dt_held_def wired_def)

text \<open>A packet that arrives at a drop-tail queue is marked exactly when the queue
  with it reaches the threshold; it is appended when there is room, and otherwise
  either it or the packet at the front is dropped.\<close>

theorem droptail_enque_effect:
  fixes s :: droptail
  assumes "pq_inv (dt_q s)"
  shows "let (s', dropped) = droptail_enque now p s;
      p' = (if 0 < ecn_threshold s \<and> ecn_threshold s \<le> int (length (pq_list (dt_q s))) + 1
            then (fst p, (snd p)\<lparr>ce := 1\<rparr>) else p);
      full = (if qib s
              then qlim s * mean_pktsize s \<le> sum_list (List.map ref_size (pq_list (dt_q s))) + pkt_size (snd p)
              else qlim s \<le> int (length (pq_list (dt_q s))) + 1)
    in pq_inv (dt_q s') \<and>
       (if \<not> full then pq_list (dt_q s') = pq_list (dt_q s) @ [p'] \<and> dropped = []
        else if drop_front s then dropped @ pq_list (dt_q s') = pq_list (dt_q s) @ [p'] \<and> length dropped = 1
        else pq_list (dt_q s') = pq_list (dt_q s) \<and> dropped = [p'])"
proof -
  have ent: "entering s p = (if 0 < ecn_threshold s \<and> ecn_threshold s \<le> int (length (pq_list (dt_q s))) + 1
            then (fst p, (snd p)\<lparr>ce := 1\<rparr>) else p)"
    using assms by (simp add: entering_def ecn_marks_def pq_inv_def mark_ce_def)
  have full: "would_overflow s (dt_q s) p = (if qib s
              then qlim s * mean_pktsize s \<le> sum_list (List.map ref_size (pq_list (dt_q s))) + pkt_size (snd p)
              else qlim s \<le> int (length (pq_list (dt_q s))) + 1)"
    using assms by (simp add: would_overflow_def pq_inv_def ref_size_def)
  show ?thesis
    unfolding Let_def ent[symmetric] full[symmetric]
    using droptail_enque_list(2,3)[where now = now and p = p and s = s]
      droptail_enque_list(4)[OF assms, of now p]
    by (cases "droptail_enque now p s") auto
qed

text \<open>A queue that counts packets never holds \<^verbatim>\<open>qlim\<close> packets: a packet is accepted
  without a drop exactly when the queue then has at most \<^verbatim>\<open>qlim - 1\<close>.\<close>

theorem droptail_below_limit:
  fixes s :: droptail
  assumes "pq_inv (dt_q s)" and "\<not> qib s" and "int (length (pq_list (dt_q s))) < qlim s"
  shows "int (length (pq_list (dt_q (fst (droptail_enque now p s))))) < qlim s \<and>
    (snd (droptail_enque now p s) = [] \<longleftrightarrow> int (length (pq_list (dt_q s))) + 1 < qlim s)"
  using assms by (auto simp: droptail_enque_list(2,3) would_overflow_def pq_inv_def)

text \<open>A queue that counts bytes and drops at the tail always stays below its limit of
  \<^verbatim>\<open>qlim * mean_pktsize\<close> bytes.\<close>

theorem droptail_bytes_below_limit:
  fixes s :: droptail
  assumes "pq_inv (dt_q s)" and "qib s" and "\<not> drop_front s" and "pq_bytes (dt_q s) < qlim s * mean_pktsize s"
  shows "pq_bytes (dt_q (fst (droptail_enque now p s))) < qlim s * mean_pktsize s"
proof -
  have "pq_inv (dt_q (fst (droptail_enque now p s)))" by (rule droptail_enque_list(4)[OF assms(1)])
  then show ?thesis
    using assms by (simp add: pq_inv_def droptail_enque_list(2) would_overflow_def)
qed

lemma shrink_loop_count:
  fixes s :: "'a droptail_scheme"
  assumes "pq_inv (dt_q s)" and "\<not> qib s" and "0 \<le> qlim s" and "distinct (List.map fst (pq_list (dt_q s)))"
  shows "\<exists>s'. shrink_loop s d = Inr (s', d @
      (if drop_front s then take (length (pq_list (dt_q s)) - nat (qlim s)) (pq_list (dt_q s))
       else rev (drop (nat (qlim s)) (pq_list (dt_q s))))) \<and>
    pq_list (dt_q s') = (if drop_front s then drop (length (pq_list (dt_q s)) - nat (qlim s)) (pq_list (dt_q s))
       else take (nat (qlim s)) (pq_list (dt_q s))) \<and> pq_inv (dt_q s')"
  using assms
proof (induction "length (pq_list (dt_q s)) - nat (qlim s)" arbitrary: s d)
  case 0
  then have "\<not> too_long s" by (auto simp: too_long_def pq_inv_def)
  then show ?case using 0 by (subst shrink_loop.simps) simp
next
  case (Suc n)
  let ?l = "pq_list (dt_q s)"
  have long: "too_long s" "?l \<noteq> []" using Suc by (auto simp: too_long_def pq_inv_def)
  show ?case
  proof (cases "drop_front s")
    case True
    obtain p ps where l: "?l = p # ps" using long(2) by (cases ?l) auto
    then obtain q' where q': "pq_deque (dt_q s) = (Some p, q')" "pq_list q' = ps"
      using pq.deq_cons by blast
    have inv: "pq_inv q'" using pq.invar_deq[OF Suc.prems(1)] q' by simp
    have n: "n = length (pq_list (dt_q (s\<lparr>dt_q := q'\<rparr>))) - nat (qlim (s\<lparr>dt_q := q'\<rparr>))"
      using Suc.hyps(2) l q' by simp
    have step: "shrink_loop s d = shrink_loop (s\<lparr>dt_q := q'\<rparr>) (d @ [p])"
      using True long q' by (subst shrink_loop.simps) simp
    have k: "length ?l - nat (qlim s) = Suc (length ps - nat (qlim s))" using Suc.hyps(2) l by simp
    show ?thesis unfolding step k
      using Suc.hyps(1)[OF n, of "d @ [p]"] Suc.prems l q' inv True by simp
  next
    case False
    obtain ps p where l: "?l = ps @ [p]" using long(2) by (metis rev_exhaust)
    let ?q = "(dt_q s)\<lparr>pq_list := ps, pq_len := pq_len (dt_q s) - 1, pq_bytes := pq_bytes (dt_q s) - ref_size p\<rparr>"
    have rem: "pq_remove (Some (fst p)) (dt_q s) = Inr ?q"
      using unlink_last[of ps p] Suc.prems(4) l by (simp add: pq_remove_def)
    have inv: "pq_inv ?q" by (rule pq_remove_inv[OF Suc.prems(1) rem])
    have tl: "pq_tail (dt_q s) = Some p" using l by (simp add: pq_tail_def)
    have n: "n = length (pq_list (dt_q (s\<lparr>dt_q := ?q\<rparr>))) - nat (qlim (s\<lparr>dt_q := ?q\<rparr>))"
      using Suc.hyps(2) l by simp
    have step: "shrink_loop s d = shrink_loop (s\<lparr>dt_q := ?q\<rparr>) (d @ [p])"
      using False long tl rem by (subst shrink_loop.simps) simp
    have "nat (qlim s) \<le> length ps" using Suc.hyps(2) l by simp
    then show ?thesis unfolding step
      using Suc.hyps(1)[OF n, of "d @ [p]"] Suc.prems l inv False by simp
  qed
qed

text \<open>Shrinking a queue that counts packets ends with its first or, when it drops from
  the front, its last \<^verbatim>\<open>qlim\<close> packets; the others are dropped, from the end they leave at.\<close>

theorem shrink_queue_effect:
  assumes "pq_inv (dt_q s)" and "\<not> qib s" and "0 \<le> qlim s" and "distinct (List.map fst (pq_list (dt_q s)))"
  shows "\<exists>s'. shrink_queue s = Inr (s',
      if drop_front s then take (length (pq_list (dt_q s)) - nat (qlim s)) (pq_list (dt_q s))
      else rev (drop (nat (qlim s)) (pq_list (dt_q s)))) \<and>
    pq_list (dt_q s') = (if drop_front s then drop (length (pq_list (dt_q s)) - nat (qlim s)) (pq_list (dt_q s))
       else take (nat (qlim s)) (pq_list (dt_q s)))"
  using shrink_loop_count[OF assms, of "[]"] by (auto simp: shrink_queue_def)

text \<open>Resetting a drop-tail queue drops all its packets and leaves it empty.\<close>

theorem droptail_reset_drops_all:
  fixes s :: droptail
  assumes "pq_inv (dt_q s)"
  shows "\<exists>s' out. Queue_reset (\<lambda>now s. Some (droptail_deque now s)) now s = Inr (s', out) \<and>
    pq_list (dt_q s') = [] \<and> out_mset out = mset (List.map fst (pq_list (dt_q s))) \<and>
    (\<forall>x\<in>set out. \<exists>p. x = Drop p)"
proof -
  let ?s = "s\<lparr>total_time := 0, true_ave := 0\<rparr>"
  have "dt_inv ?s" using assms by (simp add: dt_inv_def)
  from dt.reset_loop_ok[OF this, of now "[]"] show ?thesis
    by (auto simp: Queue_reset_def dt_held_def)
qed

subsection \<open>The properties at concrete inputs\<close>

definition ex_droptail :: "pkt_ref list \<Rightarrow> droptail" where
  "ex_droptail ps = \<lparr> qlim = 3, blocked = 0, unblock_on_resume = 1, true_ave = 0, total_time = 0,
     ecn_threshold = 2, last_hop = 1, next_hop = 2, ifTagTimeStamp = 0,
     dt_q = foldl (\<lambda>q p. pq_enque p q) pq_new ps,
     drop_front = False, summarystats = True, qib = False, mean_pktsize = 1500 \<rparr>"

lemma ex_droptail_inv: "pq_inv (dt_q (ex_droptail ps))" "pq_list (dt_q (ex_droptail ps)) = ps"
  using pq.invar_enqs[OF pq.invar_new] pq.items_enqs[of pq_new ps] by (simp_all add: ex_droptail_def)

lemma droptail_run_conserves_witness:
  "\<exists>s' out. queue_run droptail_enque (\<lambda>now s. Some (droptail_deque now s))
      [Arrive 1 (7, Packet_alloc), Arrive 1 (8, Packet_alloc), Resume 2] (ex_droptail []) = Inr (s', out) \<and>
    {#7, 8#} = out_mset out + mset (List.map fst (pq_list (dt_q s')))"
  using droptail_run_conserves[OF ex_droptail_inv(1), of "[]"
      "[Arrive 1 (7, Packet_alloc), Arrive 1 (8, Packet_alloc), Resume 2]"]
  by (simp add: ex_droptail_inv(2)) (auto simp: ex_droptail_def arrivals_def)

lemma droptail_enque_effect_witness:
  "pq_list (dt_q (fst (droptail_enque 1 (8, Packet_alloc) (ex_droptail [(7, Packet_alloc)])))) =
    [(7, Packet_alloc), (8, Packet_alloc\<lparr>ce := 1\<rparr>)]"
  using droptail_enque_effect[OF ex_droptail_inv(1), of 1 "(8, Packet_alloc)" "[(7, Packet_alloc)]"]
  by (simp add: ex_droptail_inv(2) Let_def split_beta) (simp add: ex_droptail_def)

lemma droptail_below_limit_witness:
  "length (pq_list (dt_q (fst (droptail_enque 1 (8, Packet_alloc) (ex_droptail [(6, Packet_alloc), (7, Packet_alloc)]))))) < 3"
  using droptail_below_limit[OF ex_droptail_inv(1), of "[(6, Packet_alloc), (7, Packet_alloc)]" 1 "(8, Packet_alloc)"]
  by (simp add: ex_droptail_inv(2)) (simp add: ex_droptail_def)

lemma droptail_bytes_below_limit_witness:
  "pq_bytes (dt_q (fst (droptail_enque 1 (8, Packet_alloc) ((ex_droptail [])\<lparr>qib := True\<rparr>)))) < 4500"
  using droptail_bytes_below_limit[of "(ex_droptail [])\<lparr>qib := True\<rparr>" 1 "(8, Packet_alloc)"] ex_droptail_inv(1)[of "[]"]
  by (simp add: ex_droptail_def pq_new_def)

lemma shrink_queue_effect_witness:
  "\<exists>s'. shrink_queue ((ex_droptail [(6, Packet_alloc), (7, Packet_alloc)])\<lparr>qlim := 1\<rparr>) = Inr (s', [(7, Packet_alloc)]) \<and>
    pq_list (dt_q s') = [(6, Packet_alloc)]"
  using shrink_queue_effect[of "(ex_droptail [(6, Packet_alloc), (7, Packet_alloc)])\<lparr>qlim := 1\<rparr>"]
    ex_droptail_inv[of "[(6, Packet_alloc), (7, Packet_alloc)]"]
  by (simp add: ex_droptail_def)

lemma droptail_reset_drops_all_witness:
  "\<exists>s' out. Queue_reset (\<lambda>now s. Some (droptail_deque now s)) 5 (ex_droptail [(6, Packet_alloc)]) = Inr (s', out) \<and>
    pq_list (dt_q s') = [] \<and> out_mset out = {#6#}"
  using droptail_reset_drops_all[OF ex_droptail_inv(1), of 5 "[(6, Packet_alloc)]"]
  by (auto simp: ex_droptail_inv(2))

end
