(* ===== verification/CLBQueue.thy ===== *)
theory CLBQueue
  imports DropTail "HOL-Library.Char_ord" "HOL-Library.List_Lexorder"
begin

text \<open>
  The queue of a CLB network (\<^verbatim>\<open>clb/clb-queue.h\<close>, \<^verbatim>\<open>clb/clb-queue.cc\<close>): a
  drop-tail queue with, beside its list, one list of burst packets for each
  destination and path.  The burst lists are served first, in turn.  The turn is
  the map iterator \<^verbatim>\<open>bqIt\<close>: the key it points at, or \<^verbatim>\<open>None\<close> at the end.
\<close>

subsection \<open>Keys\<close>

text \<open>\<^verbatim>\<open>sprintf(dp, "%d-%d", dst, vp)\<close>.\<close>

definition digit :: "nat \<Rightarrow> char" where
  "digit n = char_of (48 + n)"

fun show_nat :: "nat \<Rightarrow> string" where
  "show_nat n = (if n < 10 then [digit n] else show_nat (n div 10) @ [digit (n mod 10)])"

declare show_nat.simps [simp del]

definition show_int :: "int \<Rightarrow> string" where
  "show_int i = (if i < 0 then CHR ''-'' # show_nat (nat (- i)) else show_nat (nat i))"

definition dst_vp_key :: "packet \<Rightarrow> string" where
  "dst_vp_key p = show_int (daddr p) @ ''-'' @ show_int (sint (ecmpHashKey p))"

subsection \<open>The queue\<close>

record clb_queue = droptail +
  bqMap :: "(string, packet_queue) omap"
  bqIt :: "string option"

definition om_first :: "('k, 'v) omap \<Rightarrow> 'k option" where
  "om_first m = (case om_keys m of [] \<Rightarrow> None | k # _ \<Rightarrow> Some k)"

definition om_next :: "'k::linorder \<Rightarrow> ('k, 'v) omap \<Rightarrow> 'k option" where
  "om_next k m = (case filter (\<lambda>j. k < j) (om_keys m) of [] \<Rightarrow> None | j # _ \<Rightarrow> Some j)"

definition clbq_enque :: "rat \<Rightarrow> pkt_ref \<Rightarrow> clb_queue \<Rightarrow> clb_queue \<times> pkt_ref list" where
  "clbq_enque now p s =
    (if burst_id (clb_row (snd p)) > 0 then
       (let k = dst_vp_key (snd p);
            m = (if om_get k (bqMap s) = None then om_put k pq_new (bqMap s) else bqMap s);
            bq = (case om_get k m of None \<Rightarrow> pq_new | Some q \<Rightarrow> q);
            p1 = (if ecn_marks s bq then mark_ce p else p)
        in if would_overflow s bq p1 then (s\<lparr>bqMap := m\<rparr>, [p1])
           else (s\<lparr>bqMap := om_put k (pq_enque p1 bq) m\<rparr>, []))
     else droptail_enque now p s)"

text \<open>The loop of \<^verbatim>\<open>deque\<close>: it returns with a packet, or breaks.\<close>

partial_function (option) bq_loop ::
    "string option \<Rightarrow> clb_queue \<Rightarrow> (pkt_ref option option \<times> clb_queue) option" where
  "bq_loop tmpIt s =
    (case (if bqIt s = None then om_first (bqMap s) else bqIt s) of
       None \<Rightarrow> Some (None, s)
     | Some k \<Rightarrow>
       (case om_get k (bqMap s) of
          None \<Rightarrow> None
        | Some bq \<Rightarrow>
          if pq_len bq > 0
          then (case pq_deque bq of (pb, bq') \<Rightarrow>
                  Some (Some pb, s\<lparr>bqMap := om_put k bq' (bqMap s), bqIt := om_next k (bqMap s)\<rparr>))
          else if om_next k (bqMap s) = tmpIt then Some (None, s\<lparr>bqIt := om_next k (bqMap s)\<rparr>)
          else bq_loop tmpIt (s\<lparr>bqIt := om_next k (bqMap s)\<rparr>)))"

definition clbq_deque :: "rat \<Rightarrow> clb_queue \<Rightarrow> (pkt_ref option \<times> clb_queue) option" where
  "clbq_deque now s =
    (case bq_loop (bqIt s) s of
       None \<Rightarrow> None
     | Some (Some pb, s') \<Rightarrow> Some (pb, s')
     | Some (None, s') \<Rightarrow> Some (droptail_deque now s'))"

text \<open>\<^verbatim>\<open>CLBQueue::shrink_queue\<close> is the code of the base class again.\<close>

definition clbq_shrink_queue :: "clb_queue \<Rightarrow> (clb_queue \<times> pkt_ref list) result" where
  "clbq_shrink_queue s = shrink_loop s []"

definition new_CLBQueue :: "int \<Rightarrow> int \<Rightarrow> int \<Rightarrow> int \<Rightarrow> bool \<Rightarrow> bool \<Rightarrow> int \<Rightarrow> clb_queue" where
  "new_CLBQueue limit thr a b front bytes mean = \<lparr> qlim = limit, blocked = 0, unblock_on_resume = 1,
     true_ave = 0, total_time = 0, ecn_threshold = thr, last_hop = a, next_hop = b, ifTagTimeStamp = 0,
     dt_q = pq_new, drop_front = front, summarystats = False, qib = bytes, mean_pktsize = mean,
     bqMap = om_empty, bqIt = None \<rparr>"

subsection \<open>The iterator\<close>

definition iter :: "('k, 'v) omap \<Rightarrow> nat \<Rightarrow> 'k option" where
  "iter m i = (if i < length m then Some (om_keys m ! i) else None)"

lemma om_first_iter: "om_first m = iter m 0"
  by (cases m) (simp_all add: om_first_def iter_def)

lemma om_next_iter:
  assumes "om_inv m" and "i < length m"
  shows "om_next (om_keys m ! i) m = iter m (Suc i)"
proof -
  let ?ks = "om_keys m" and ?k = "om_keys m ! i"
  have sorted: "sorted_wrt (<) ?ks" using assms(1) by (simp add: om_inv_def)
  have split: "?ks = take (Suc i) ?ks @ drop (Suc i) ?ks" by simp
  have lo: "\<not> ?k < j" if j: "j \<in> set (take (Suc i) ?ks)" for j
  proof -
    obtain n where "n < Suc i" "j = ?ks ! n" using j by (auto simp: in_set_conv_nth)
    then show ?thesis using sorted assms(2) sorted_wrt_nth_less[OF sorted, of n i]
      by (cases "n = i") auto
  qed
  have hi: "?k < j" if j: "j \<in> set (drop (Suc i) ?ks)" for j
  proof -
    obtain n where "n < length m - Suc i" "j = ?ks ! (Suc i + n)" using j by (auto simp: in_set_conv_nth)
    then show ?thesis using sorted_wrt_nth_less[OF sorted, of i "Suc i + n"] by simp
  qed
  have "filter (\<lambda>j. ?k < j) ?ks = filter (\<lambda>j. ?k < j) (take (Suc i) ?ks) @ filter (\<lambda>j. ?k < j) (drop (Suc i) ?ks)"
    using split by (metis filter_append)
  also have "\<dots> = drop (Suc i) ?ks" using lo hi by (simp add: filter_empty_conv filter_id_conv)
  finally show ?thesis
    by (cases "Suc i < length m") (simp_all add: om_next_def iter_def flip: Cons_nth_drop_Suc)
qed

lemma iter_inj:
  assumes "om_inv m" and "i \<le> length m" and "j \<le> length m"
  shows "iter m i = iter m j \<longleftrightarrow> i = j"
  using assms om.distinct_keys[OF assms(1)] by (auto simp: iter_def nth_eq_iff_index_eq)

lemma iter_get:
  assumes "om_inv m" and "i < length m"
  shows "om_get (om_keys m ! i) m = Some (snd (m ! i))"
  using assms om_mem_get[OF assms(1), of "fst (m ! i)" "snd (m ! i)"] by (simp add: om_keys_def)

subsection \<open>The invariant\<close>

text \<open>The iterator is never at the first key: it is stepped before it is kept.\<close>

definition bq_inv :: "clb_queue \<Rightarrow> bool" where
  "bq_inv s \<longleftrightarrow> om_inv (bqMap s) \<and> (\<forall>(k, q)\<in>set (bqMap s). pq_inv q) \<and> pq_inv (dt_q s) \<and>
     (case bqIt s of None \<Rightarrow> True
      | Some k \<Rightarrow> k \<in> set (om_keys (bqMap s)) \<and> (\<exists>j\<in>set (om_keys (bqMap s)). j < k))"

lemma bq_inv_iter:
  assumes "bq_inv s" and "bqMap s \<noteq> []"
  shows "\<exists>t. 1 \<le> t \<and> t \<le> length (bqMap s) \<and> bqIt s = iter (bqMap s) t"
proof (cases "bqIt s")
  case None
  have "bqIt s = iter (bqMap s) (length (bqMap s))" using None by (simp add: iter_def)
  then show ?thesis using assms(2) by (intro exI[of _ "length (bqMap s)"]) (simp add: Suc_leI)
next
  case (Some k)
  have sorted: "sorted_wrt (<) (om_keys (bqMap s))" using assms(1) by (simp add: bq_inv_def om_inv_def)
  obtain j where "k \<in> set (om_keys (bqMap s))" "j \<in> set (om_keys (bqMap s))" "j < k"
    using assms(1) Some by (auto simp: bq_inv_def)
  then obtain t u where t: "t < length (bqMap s)" "k = om_keys (bqMap s) ! t"
    and u: "u < length (bqMap s)" "om_keys (bqMap s) ! u < om_keys (bqMap s) ! t"
    by (auto simp: in_set_conv_nth)
  have "t \<noteq> 0"
  proof
    assume "t = 0"
    then have "om_keys (bqMap s) ! t \<le> om_keys (bqMap s) ! u"
      using sorted_wrt_nth_less[OF sorted, of 0 u] u(1) by (cases "u = 0") auto
    then show False using u(2) by simp
  qed
  then show ?thesis using t Some by (intro exI[of _ t]) (simp add: iter_def Suc_leI)
qed

definition bq_empty :: "(string, packet_queue) omap \<Rightarrow> nat \<Rightarrow> bool" where
  "bq_empty m j \<longleftrightarrow> pq_list (snd (m ! j)) = []"

lemma bq_loop_step:
  assumes m: "bqMap s = m" and om: "om_inv m" and pqs: "\<forall>(k, q)\<in>set m. pq_inv q"
    and i: "i \<le> length m" "bqIt s = iter m i" and ne: "m \<noteq> []"
    and i': "i' = (if i = length m then 0 else i)"
  shows "\<not> bq_empty m i' \<Longrightarrow> \<exists>p q'. pq_deque (snd (m ! i')) = (Some p, q') \<and>
      bq_loop tmp s = Some (Some (Some p),
        s\<lparr>bqMap := om_put (om_keys m ! i') q' m, bqIt := iter m (Suc i')\<rparr>)"
    and "bq_empty m i' \<Longrightarrow> bq_loop tmp s =
      (if iter m (Suc i') = tmp then Some (None, s\<lparr>bqIt := iter m (Suc i')\<rparr>)
       else bq_loop tmp (s\<lparr>bqIt := iter m (Suc i')\<rparr>))"
proof -
  have lt: "i' < length m" using i(1) ne i' by (cases "i = length m") auto
  have it: "(if bqIt s = None then om_first (bqMap s) else bqIt s) = Some (om_keys m ! i')"
    using i i' lt ne m by (auto simp: iter_def om_first_iter)
  have get: "om_get (om_keys m ! i') (bqMap s) = Some (snd (m ! i'))"
    using iter_get[OF om lt] m by simp
  have nx: "om_next (om_keys m ! i') (bqMap s) = iter m (Suc i')"
    using om_next_iter[OF om lt] m by simp
  have "(fst (m ! i'), snd (m ! i')) \<in> set m" using lt by simp
  then have inv: "pq_inv (snd (m ! i'))" using pqs by blast
  note unf = bq_loop.simps[of tmp s, unfolded it option.case get nx]
  show "\<exists>p q'. pq_deque (snd (m ! i')) = (Some p, q') \<and>
      bq_loop tmp s = Some (Some (Some p),
        s\<lparr>bqMap := om_put (om_keys m ! i') q' m, bqIt := iter m (Suc i')\<rparr>)" if full: "\<not> bq_empty m i'"
  proof -
    obtain p ps where l: "pq_list (snd (m ! i')) = p # ps"
      using full by (cases "pq_list (snd (m ! i'))") (auto simp: bq_empty_def)
    then obtain q' where "pq_deque (snd (m ! i')) = (Some p, q')" using pq.deq_cons by blast
    moreover have "pq_len (snd (m ! i')) > 0" using inv l by (simp add: pq_inv_def)
    ultimately show ?thesis using unf m by simp
  qed
  show "bq_loop tmp s =
      (if iter m (Suc i') = tmp then Some (None, s\<lparr>bqIt := iter m (Suc i')\<rparr>)
       else bq_loop tmp (s\<lparr>bqIt := iter m (Suc i')\<rparr>))" if "bq_empty m i'"
  proof -
    have "\<not> pq_len (snd (m ! i')) > 0" using inv that by (simp add: pq_inv_def bq_empty_def)
    then show ?thesis using unf by simp
  qed
qed

text \<open>The loop from position \<^verbatim>\<open>i\<close>, when it started at \<^verbatim>\<open>t\<close> and has found the lists
  in between empty: it takes the first packet of a list, or all lists are empty.\<close>

lemma bq_loop_walk:
  assumes om: "om_inv m" and pqs: "\<forall>(k, q)\<in>set m. pq_inv q" and t: "1 \<le> t" "t \<le> length m"
    and s: "bqMap s = m" "i \<le> length m" "bqIt s = iter m i"
    and seen: "\<forall>j<length m. (if t \<le> i then t \<le> j \<and> j < i else t \<le> j \<or> j < i) \<longrightarrow> bq_empty m j"
  shows "(\<exists>j p q'. j < length m \<and> \<not> bq_empty m j \<and> pq_deque (snd (m ! j)) = (Some p, q') \<and>
      bq_loop (iter m t) s = Some (Some (Some p),
        s\<lparr>bqMap := om_put (om_keys m ! j) q' m, bqIt := iter m (Suc j)\<rparr>)) \<or>
    (\<forall>j<length m. bq_empty m j) \<and> bq_loop (iter m t) s = Some (None, s\<lparr>bqIt := iter m t\<rparr>)"
  using s seen
proof (induction "if t \<le> i then length m - i + t else t - i" arbitrary: i s rule: less_induct)
  case (less i s)
  have ne: "m \<noteq> []" using t by auto
  define i' where "i' = (if i = length m then 0 else i)"
  have lt: "i' < length m" using less.prems(2) ne by (auto simp: i'_def)
  note step = bq_loop_step[OF less.prems(1) om pqs less.prems(2,3) ne i'_def, of "iter m t"]
  show ?case
  proof (cases "bq_empty m i'")
    case False
    then show ?thesis using step(1)[OF False] lt by blast
  next
    case True
    let ?s = "s\<lparr>bqIt := iter m (Suc i')\<rparr>"
    have eq: "iter m (Suc i') = iter m t \<longleftrightarrow> Suc i' = t"
      using lt t(2) by (intro iter_inj[OF om]) auto
    have seen': "\<forall>j<length m. (if t \<le> Suc i' then (t \<le> i \<and> i < length m \<and> t \<le> j \<and> j < Suc i') \<or> (Suc i' = t)
        else t \<le> j \<or> j < Suc i') \<longrightarrow> bq_empty m j"
    proof (intro allI impI)
      fix j assume j: "j < length m" and c: "if t \<le> Suc i' then (t \<le> i \<and> i < length m \<and> t \<le> j \<and> j < Suc i') \<or> (Suc i' = t)
        else t \<le> j \<or> j < Suc i'"
      show "bq_empty m j"
      proof (cases "j = i'")
        case False
        then have "j < i' \<or> Suc i' \<le> j" by linarith
        then show ?thesis
          using less.prems(4)[rule_format, OF j] c j t(1) by (cases "i = length m") (auto simp: i'_def split: if_splits)
      qed (use True in simp)
    qed
    show ?thesis
    proof (cases "Suc i' = t")
      case round: True
      have "bq_empty m j" if "j < length m" for j
        using seen'[rule_format, OF that] round by simp
      moreover have "bq_loop (iter m t) s = Some (None, s\<lparr>bqIt := iter m t\<rparr>)"
        using step(2)[OF True] unfolding round by simp
      ultimately show ?thesis by blast
    next
      case False
      have go: "bq_loop (iter m t) s = bq_loop (iter m t) ?s" using step(2)[OF True] eq False by simp
      have dec: "(if t \<le> Suc i' then length m - Suc i' + t else t - Suc i') <
          (if t \<le> i then length m - i + t else t - i)"
        using lt False t less.prems(2) by (auto simp: i'_def split: if_splits)
      have seen2: "\<forall>j<length m. (if t \<le> Suc i' then t \<le> j \<and> j < Suc i' else t \<le> j \<or> j < Suc i') \<longrightarrow> bq_empty m j"
      proof (intro allI impI)
        fix j assume j: "j < length m" and c: "if t \<le> Suc i' then t \<le> j \<and> j < Suc i' else t \<le> j \<or> j < Suc i'"
        have "t \<le> i \<and> i < length m" if "t \<le> Suc i'"
          using that False t(1) less.prems(2) by (auto simp: i'_def split: if_splits)
        then show "bq_empty m j" using seen'[rule_format, OF j] c by (cases "t \<le> Suc i'") auto
      qed
      have s': "bqMap ?s = m" "Suc i' \<le> length m" "bqIt ?s = iter m (Suc i')"
        using less.prems(1) lt by simp_all
      show ?thesis
        using less.hyps[OF dec s' seen2] unfolding go by simp
    qed
  qed
qed

subsection \<open>Dequeueing\<close>

lemma clbq_deque_cases:
  assumes inv: "bq_inv s"
  obtains (burst) j p q' where "j < length (bqMap s)" "\<not> bq_empty (bqMap s) j"
      "pq_deque (snd (bqMap s ! j)) = (Some p, q')"
      "clbq_deque now s = Some (Some p, s\<lparr>bqMap := om_put (om_keys (bqMap s) ! j) q' (bqMap s),
         bqIt := iter (bqMap s) (Suc j)\<rparr>)"
  | (plain) "\<forall>j<length (bqMap s). bq_empty (bqMap s) j"
      "clbq_deque now s = Some (droptail_deque now s)"
proof (cases "bqMap s = []")
  case True
  then have "bqIt s = None" using inv by (auto simp: bq_inv_def split: option.splits)
  then have "bq_loop (bqIt s) s = Some (None, s)"
    using True by (subst bq_loop.simps) (simp add: om_first_def)
  then have "clbq_deque now s = Some (droptail_deque now s)" by (simp add: clbq_deque_def)
  then show ?thesis using plain True by simp
next
  case False
  have om: "om_inv (bqMap s)" and pqs: "\<forall>(k, q)\<in>set (bqMap s). pq_inv q"
    using inv by (auto simp: bq_inv_def)
  obtain t where t: "1 \<le> t" "t \<le> length (bqMap s)" and it: "bqIt s = iter (bqMap s) t"
    using bq_inv_iter[OF inv False] by blast
  have seen: "\<forall>j<length (bqMap s). (if t \<le> t then t \<le> j \<and> j < t else t \<le> j \<or> j < t) \<longrightarrow> bq_empty (bqMap s) j"
    by auto
  have same: "s\<lparr>bqIt := iter (bqMap s) t\<rparr> = s" using it by (metis clb_queue.surjective clb_queue.update_convs(2))
  from bq_loop_walk[OF om pqs t refl t(2) it seen] show ?thesis
  proof (elim disjE exE conjE)
    fix j p q'
    assume j: "j < length (bqMap s)" "\<not> bq_empty (bqMap s) j" "pq_deque (snd (bqMap s ! j)) = (Some p, q')"
      and r: "bq_loop (iter (bqMap s) t) s = Some (Some (Some p),
        s\<lparr>bqMap := om_put (om_keys (bqMap s) ! j) q' (bqMap s), bqIt := iter (bqMap s) (Suc j)\<rparr>)"
    have "clbq_deque now s = Some (Some p, s\<lparr>bqMap := om_put (om_keys (bqMap s) ! j) q' (bqMap s),
         bqIt := iter (bqMap s) (Suc j)\<rparr>)"
      unfolding clbq_deque_def it r by simp
    then show ?thesis using burst j by blast
  next
    assume e: "\<forall>j<length (bqMap s). bq_empty (bqMap s) j"
      and r: "bq_loop (iter (bqMap s) t) s = Some (None, s\<lparr>bqIt := iter (bqMap s) t\<rparr>)"
    have "clbq_deque now s = Some (droptail_deque now s)"
      unfolding clbq_deque_def it r same by simp
    then show ?thesis using plain e by blast
  qed
qed

definition bq_held :: "(string, packet_queue) omap \<Rightarrow> nat multiset" where
  "bq_held m = mset (concat (List.map (\<lambda>(k, q). List.map fst (pq_list q)) m))"

lemma bq_held_put:
  assumes "om_inv m"
  shows "bq_held (om_put k q m) + (case om_get k m of None \<Rightarrow> {#} | Some w \<Rightarrow> mset (List.map fst (pq_list w))) =
    bq_held m + mset (List.map fst (pq_list q))"
  using assms
proof (induction k q m rule: om_put.induct)
  case (1 k v)
  then show ?case by (simp add: bq_held_def)
next
  case (2 k v k' v' m)
  have H: "bq_held ((j, u) # m) = mset (List.map fst (pq_list u)) + bq_held m" for j u m
    by (simp add: bq_held_def)
  consider "k < k'" | "k = k'" | "k' < k" by fastforce
  then show ?case
  proof cases
    case 1
    then have "om_get k ((k', v') # m) = None" using 2(2) by (intro om_get_None_less) auto
    then show ?thesis using 1 by (simp add: H)
  next
    case 3
    then have IH: "bq_held (om_put k v m) + (case om_get k m of None \<Rightarrow> {#} | Some w \<Rightarrow> mset (List.map fst (pq_list w))) =
        bq_held m + mset (List.map fst (pq_list v))"
      using 2 by auto
    have "om_put k v ((k', v') # m) = (k', v') # om_put k v m" "om_get k ((k', v') # m) = om_get k m"
      using 3 by (auto simp: om_get_Cons)
    then show ?thesis using IH by (simp only: H) (simp add: add.assoc)
  qed (simp add: H om_get_Cons)
qed

lemma bq_held_empty:
  assumes "\<forall>j<length m. bq_empty m j"
  shows "bq_held m = {#}"
proof -
  have "pq_list (snd e) = []" if "e \<in> set m" for e
    using that assms by (auto simp: bq_empty_def in_set_conv_nth)
  then show ?thesis by (force simp: bq_held_def)
qed

subsection \<open>The queue keeps the contract of a discipline\<close>

definition cq_held :: "clb_queue \<Rightarrow> nat multiset" where
  "cq_held s = mset (List.map fst (pq_list (dt_q s))) + bq_held (bqMap s)"

lemma clbq_burst_deque_inv:
  assumes inv: "bq_inv s" and j: "j < length (bqMap s)"
    and d: "pq_deque (snd (bqMap s ! j)) = (Some p, q')"
  defines "s' \<equiv> s\<lparr>bqMap := om_put (om_keys (bqMap s) ! j) q' (bqMap s), bqIt := iter (bqMap s) (Suc j)\<rparr>"
  shows "bq_inv s'" and "cq_held s = add_mset (fst p) (cq_held s')"
proof -
  let ?m = "bqMap s" and ?k = "om_keys (bqMap s) ! j"
  have om: "om_inv ?m" and pqs: "\<forall>(k, q)\<in>set ?m. pq_inv q" using inv by (auto simp: bq_inv_def)
  have get: "om_get ?k ?m = Some (snd (?m ! j))" by (rule iter_get[OF om j])
  have keys: "om_keys (om_put ?k q' ?m) = om_keys ?m"
    using om.keys_put_existing[OF om] get by simp
  have "(fst (?m ! j), snd (?m ! j)) \<in> set ?m" using j by simp
  then have "pq_inv (snd (?m ! j))" using pqs by blast
  then have "pq_inv q'" using pq.invar_deq[of "snd (?m ! j)"] d by simp
  then have "\<forall>(k, q)\<in>set (om_put ?k q' ?m). pq_inv q" using pqs by (intro om_all_put) auto
  moreover have "?k < x \<and> ?k \<in> set (om_keys ?m) \<and> x \<in> set (om_keys ?m)" if "iter ?m (Suc j) = Some x" for x
    using that om j sorted_wrt_nth_less[of "(<)" "om_keys ?m" j "Suc j"]
    by (auto simp: iter_def om_inv_def split: if_splits)
  ultimately show "bq_inv s'"
    using inv om keys by (auto simp: s'_def bq_inv_def om_inv_put split: option.split)
  obtain p0 ps where l: "pq_list (snd (?m ! j)) = p0 # ps"
    using d pq.deq_empty[of "snd (?m ! j)"] by (cases "pq_list (snd (?m ! j))") auto
  then have "p0 = p" "pq_list q' = ps" using pq.deq_cons[OF l] d by auto
  then have "bq_held (bqMap s') + add_mset (fst p) (mset (List.map fst ps)) = bq_held ?m + mset (List.map fst ps)"
    using bq_held_put[OF om, where k = ?k and q = q'] get l by (simp add: s'_def)
  then have "add_mset (fst p) (bq_held (bqMap s')) + mset (List.map fst ps) = bq_held ?m + mset (List.map fst ps)"
    by simp
  then have "bq_held ?m = add_mset (fst p) (bq_held (bqMap s'))"
    by (simp only: add_right_cancel)
  then show "cq_held s = add_mset (fst p) (cq_held s')" by (simp add: cq_held_def s'_def)
qed

text \<open>A burst packet enters the list of its key, and only that.\<close>

lemma clbq_enque_burst:
  assumes inv: "bq_inv s" and b: "burst_id (clb_row (snd p)) > 0"
  shows "bq_inv (fst (clbq_enque now p s))"
    and "cq_held (fst (clbq_enque now p s)) + mset (List.map fst (snd (clbq_enque now p s))) = add_mset (fst p) (cq_held s)"
proof -
  let ?k = "dst_vp_key (snd p)"
  define m where "m = (if om_get ?k (bqMap s) = None then om_put ?k pq_new (bqMap s) else bqMap s)"
  define bq where "bq = (case om_get ?k m of None \<Rightarrow> pq_new | Some q \<Rightarrow> q)"
  define p1 where "p1 = (if ecn_marks s bq then mark_ce p else p)"
  have eq: "clbq_enque now p s = (if would_overflow s bq p1 then (s\<lparr>bqMap := m\<rparr>, [p1])
       else (s\<lparr>bqMap := om_put ?k (pq_enque p1 bq) m\<rparr>, []))"
    using b unfolding clbq_enque_def Let_def m_def[symmetric] bq_def[symmetric] p1_def[symmetric] by simp
  have om: "om_inv (bqMap s)" and pqs: "\<forall>(k, q)\<in>set (bqMap s). pq_inv q" using inv by (auto simp: bq_inv_def)
  have omm: "om_inv m" using om by (simp add: m_def om_inv_put)
  have pqm: "\<forall>(k, q)\<in>set m. pq_inv q"
    using pqs om_all_put[OF pqs, where k' = ?k and v' = pq_new] by (simp add: m_def pq.invar_new)
  have getm: "om_get ?k m = Some bq"
    by (auto simp: bq_def m_def om_get_put)
  then have "pq_inv bq" using om_get_mem[OF getm] pqm by auto
  then have pqm': "\<forall>(k, q)\<in>set (om_put ?k (pq_enque p1 bq) m). pq_inv q"
    by (intro om_all_put[OF pqm]) (rule pq.invar_enq)
  have keys: "set (om_keys (bqMap s)) \<subseteq> set (om_keys m)" "set (om_keys (om_put ?k (pq_enque p1 bq) m)) = set (om_keys m)"
    using getm om_keys_get[of ?k m] by (auto simp: m_def set_om_keys_put)
  show "bq_inv (fst (clbq_enque now p s))"
    using inv omm pqm pqm' keys unfolding eq bq_inv_def
    by (auto simp: om_inv_put split: option.splits)
  have held_m: "bq_held m = bq_held (bqMap s)"
    using bq_held_put[OF om, where k = ?k and q = pq_new] by (auto simp: m_def)
  have "bq_held (om_put ?k (pq_enque p1 bq) m) + mset (List.map fst (pq_list bq)) =
      bq_held m + mset (List.map fst (pq_list bq)) + {#fst p1#}"
    using bq_held_put[OF omm, where k = ?k and q = "pq_enque p1 bq"] getm by simp
  then have "bq_held (om_put ?k (pq_enque p1 bq) m) + mset (List.map fst (pq_list bq)) =
      add_mset (fst p1) (bq_held m) + mset (List.map fst (pq_list bq))" by simp
  then have "bq_held (om_put ?k (pq_enque p1 bq) m) = add_mset (fst p1) (bq_held m)"
    by (simp only: add_right_cancel)
  then show "cq_held (fst (clbq_enque now p s)) + mset (List.map fst (snd (clbq_enque now p s))) = add_mset (fst p) (cq_held s)"
    unfolding eq using held_m by (simp add: cq_held_def p1_def)
qed

text \<open>Any other packet goes through the base class, which does not see the burst
  lists.\<close>

lemma droptail_keeps_bursts [simp]:
  fixes s :: clb_queue
  shows "bqMap (fst (droptail_enque now p s)) = bqMap s" "bqIt (fst (droptail_enque now p s)) = bqIt s"
    "bqMap (snd (droptail_deque now s)) = bqMap s" "bqIt (snd (droptail_deque now s)) = bqIt s"
  by (simp_all add: droptail_enque_def droptail_deque_def updateStats_def Let_def split_beta)

interpretation cq: discipline clbq_enque clbq_deque cq_held bq_inv
proof unfold_locales
  fix s :: clb_queue and now p b t v
  have plain: "clbq_enque now p s = droptail_enque now p s" if "\<not> burst_id (clb_row (snd p)) > 0"
    using that by (simp add: clbq_enque_def)
  show "bq_inv s \<Longrightarrow> bq_inv (fst (clbq_enque now p s))"
    using clbq_enque_burst(1)[of s p now] droptail_enque_list(4)[of s now p] plain
    by (cases "burst_id (clb_row (snd p)) > 0") (auto simp: bq_inv_def split: option.splits)
  show "cq_held (fst (clbq_enque now p s)) + mset (List.map fst (snd (clbq_enque now p s))) =
      add_mset (fst p) (cq_held s)" if inv: "bq_inv s"
  proof (cases "burst_id (clb_row (snd p)) > 0")
    case False
    show ?thesis
      unfolding plain[OF False] cq_held_def
      by (cases "pq_list (dt_q s)") (auto simp: droptail_enque_list(2,3))
  qed (rule clbq_enque_burst(2)[OF inv])
  show "blocked (fst (clbq_enque now p s)) = blocked s" "wired (fst (clbq_enque now p s)) = wired s"
    by (simp_all add: clbq_enque_def Let_def wired_def)
  show "\<exists>po s'. clbq_deque now s = Some (po, s') \<and> bq_inv s' \<and> blocked s' = blocked s \<and> wired s' = wired s \<and>
      cq_held s = (case po of None \<Rightarrow> {#} | Some p \<Rightarrow> {# fst p #}) + cq_held s' \<and>
      (po = None \<longrightarrow> cq_held s = {#})" if inv: "bq_inv s"
    using inv
  proof (cases rule: clbq_deque_cases[of s now])
    case (burst j p q')
    show ?thesis
      using burst(4) clbq_burst_deque_inv[OF inv burst(1,3)] by (simp add: wired_def)
  next
    case plain
    have "bq_inv (snd (droptail_deque now s))"
      using inv droptail_deque_list(3)[of s now] by (auto simp: bq_inv_def split: option.splits)
    then show ?thesis
      using plain(2) droptail_deque_list[where s = s and now = now] bq_held_empty[OF plain(1)]
        droptail_keeps_bursts(3)[where s = s and now = now]
      by (cases "pq_list (dt_q s)"; cases "droptail_deque now s") (auto simp: cq_held_def)
  qed
  show "bq_inv (s\<lparr>blocked := b\<rparr>) = bq_inv s" "bq_inv (s\<lparr>total_time := t, true_ave := v\<rparr>) = bq_inv s"
    "cq_held (s\<lparr>blocked := b\<rparr>) = cq_held s" "cq_held (s\<lparr>total_time := t, true_ave := v\<rparr>) = cq_held s"
    by (simp_all add: bq_inv_def cq_held_def split: option.split)
qed

subsection \<open>Keys tell destinations and paths apart\<close>

definition digits_value :: "string \<Rightarrow> nat" where
  "digits_value cs = foldl (\<lambda>n c. 10 * n + (of_char c - 48)) 0 cs"

lemma digit_value: "n < 10 \<Longrightarrow> (of_char (digit n) :: nat) = 48 + n"
  by (simp add: digit_def)

lemma digits_value_show_nat: "digits_value (show_nat n) = n"
proof (induction n rule: show_nat.induct)
  case (1 n)
  show ?case
  proof (cases "n < 10")
    case True
    then show ?thesis by (subst show_nat.simps) (simp add: digits_value_def digit_value)
  next
    case False
    then show ?thesis using 1 by (subst show_nat.simps) (simp add: digits_value_def digit_value)
  qed
qed

lemma show_nat_inj: "show_nat m = show_nat n \<longleftrightarrow> m = n"
  by (metis digits_value_show_nat)

lemma digit_not_minus: "n < 10 \<Longrightarrow> digit n \<noteq> CHR ''-''"
proof
  assume "n < 10" and "digit n = CHR ''-''"
  then have "48 + n = (of_char CHR ''-'' :: nat)" using digit_value by metis
  then show False by simp
qed

lemma minus_notin_show_nat: "CHR ''-'' \<notin> set (show_nat n)"
proof (induction n rule: show_nat.induct)
  case (1 n)
  show ?case
  proof (cases "n < 10")
    case True
    then show ?thesis using digit_not_minus[of n] by (subst show_nat.simps) auto
  next
    case False
    then show ?thesis using 1 digit_not_minus[of "n mod 10"] by (subst show_nat.simps) auto
  qed
qed

lemma split_at_minus:
  assumes "xs @ CHR ''-'' # ys = xs' @ CHR ''-'' # ys'" and "CHR ''-'' \<notin> set xs" and "CHR ''-'' \<notin> set xs'"
  shows "xs = xs' \<and> ys = ys'"
  using assms by (induction xs arbitrary: xs') (auto simp: Cons_eq_append_conv append_eq_Cons_conv)

lemma show_nat_no_minus: "show_nat n \<noteq> CHR ''-'' # r"
  using minus_notin_show_nat[of n] by auto

lemma show_int_inj: "show_int i = show_int j \<longleftrightarrow> i = j"
  using show_nat_no_minus show_nat_no_minus[symmetric]
  by (auto simp: show_int_def show_nat_inj)

lemma show_int_split:
  assumes "show_int i @ CHR ''-'' # ys = show_int i' @ CHR ''-'' # ys'"
  shows "i = i' \<and> ys = ys'"
proof (cases "i < 0 \<longleftrightarrow> i' < 0")
  case True
  then have "show_nat (nat \<bar>i\<bar>) @ CHR ''-'' # ys = show_nat (nat \<bar>i'\<bar>) @ CHR ''-'' # ys'"
    using assms by (cases "i < 0") (simp_all add: show_int_def)
  then have "nat \<bar>i\<bar> = nat \<bar>i'\<bar> \<and> ys = ys'"
    using split_at_minus minus_notin_show_nat show_nat_inj by metis
  then show ?thesis using True by linarith
next
  case False
  have ne: "show_nat n \<noteq> []" for n by (subst show_nat.simps) simp
  have "hd (show_nat n @ zs) \<noteq> CHR ''-''" for n zs
    using minus_notin_show_nat[of n] ne[of n] by (metis hd_append2 list.set_sel(1))
  then have "hd (show_nat n @ zs) \<noteq> CHR ''-''" "CHR ''-'' \<noteq> hd (show_nat n @ zs)" for n zs by metis+
  moreover have "hd (show_int i @ CHR ''-'' # ys) = hd (show_int i' @ CHR ''-'' # ys')" using assms by simp
  ultimately show ?thesis using False by (auto simp: show_int_def split: if_splits)
qed

subsection \<open>The properties\<close>

text \<open>The key of a burst list, as printed, tells every two pairs of destination and
  path apart.\<close>

theorem dst_vp_key_injective:
  "dst_vp_key p = dst_vp_key q \<longleftrightarrow> daddr p = daddr q \<and> ecmpHashKey p = ecmpHashKey q"
proof
  assume "dst_vp_key p = dst_vp_key q"
  then have "daddr p = daddr q \<and> show_int (sint (ecmpHashKey p)) = show_int (sint (ecmpHashKey q))"
    by (intro show_int_split) (simp add: dst_vp_key_def)
  then show "daddr p = daddr q \<and> ecmpHashKey p = ecmpHashKey q"
    by (auto simp: show_int_inj intro: signed_word_eqI)
qed (simp add: dst_vp_key_def)

text \<open>C25: The loop of \<^verbatim>\<open>CLBQueue::deque\<close> ends, because the iterator is never left at the
  first list.  When any burst list holds a packet, the packet returned is the first
  of a burst list; otherwise it is the one the base class returns.\<close>

theorem clbq_deque_priority:
  assumes "bq_inv s"
  shows "\<exists>po s'. clbq_deque now s = Some (po, s') \<and> bq_inv s' \<and>
    (if \<exists>(k, q)\<in>set (bqMap s). pq_list q \<noteq> []
     then dt_q s' = dt_q s \<and> (\<exists>(k, q)\<in>set (bqMap s). \<exists>p ps. pq_list q = p # ps \<and> po = Some p \<and>
       map_option pq_list (om_get k (bqMap s')) = Some ps)
     else (po, s') = droptail_deque now s)"
  using assms
proof (cases rule: clbq_deque_cases[of s now])
  case (burst j p q')
  let ?k = "om_keys (bqMap s) ! j"
  have e: "(?k, snd (bqMap s ! j)) \<in> set (bqMap s)" using burst(1) by (simp add: om_keys_def)
  obtain p0 ps where l: "pq_list (snd (bqMap s ! j)) = p0 # ps"
    using burst(2) by (cases "pq_list (snd (bqMap s ! j))") (auto simp: bq_empty_def)
  then have l': "p0 = p" "pq_list q' = ps" using pq.deq_cons[OF l] burst(3) by auto
  have "\<exists>(k, q)\<in>set (bqMap s). pq_list q \<noteq> []" using e l by force
  moreover have "\<exists>(k, q)\<in>set (bqMap s). \<exists>p' ps. pq_list q = p' # ps \<and> Some p = Some p' \<and>
       map_option pq_list (om_get k (om_put ?k q' (bqMap s))) = Some ps"
    using e l l' by (intro bexI[OF _ e]) (simp add: om_get_put)
  ultimately show ?thesis
    using burst(4) clbq_burst_deque_inv(1)[OF assms burst(1,3)] by simp
next
  case plain
  have "\<not> (\<exists>(k, q)\<in>set (bqMap s). pq_list q \<noteq> [])"
    using plain(1) by (force simp: bq_empty_def in_set_conv_nth)
  moreover have "bq_inv (snd (droptail_deque now s))"
    using assms droptail_deque_list(3)[of s now] by (auto simp: bq_inv_def split: option.splits)
  ultimately show ?thesis using plain(2) by (cases "droptail_deque now s") simp
qed

text \<open>C26: Any run of arrivals and resumptions of a CLB queue ends, every packet that
  was there or arrived is handed on, dropped or still in one of the lists, and a queue
  that is not blocked holds nothing.\<close>

theorem clbq_run_conserves:
  assumes "bq_inv s" and "last_hop s \<noteq> next_hop s" and "blocked s = 0 \<longrightarrow> cq_held s = {#}"
  shows "\<exists>s' out. queue_run clbq_enque clbq_deque es s = Inr (s', out) \<and> bq_inv s' \<and>
    (blocked s' = 0 \<longrightarrow> cq_held s' = {#}) \<and> arrivals es + cq_held s = out_mset out + cq_held s'"
  using cq.run_ok[of s es] assms by (simp add: wired_def)

lemma new_CLBQueue_inv:
  "bq_inv (new_CLBQueue limit thr a b front bytes mean)" "cq_held (new_CLBQueue limit thr a b front bytes mean) = {#}"
  by (simp_all add: new_CLBQueue_def bq_inv_def om_empty_def pq.invar_new cq_held_def bq_held_def)

definition ex_burst_packet :: pkt_ref where
  "ex_burst_packet = (7, Packet_alloc\<lparr>daddr := 3, clb_row := CLBRow_zero\<lparr>burst_id := 10\<rparr>\<rparr>)"

lemma clbq_deque_priority_witness:
  "\<exists>s'. clbq_deque 0 (fst (clbq_enque 0 ex_burst_packet (new_CLBQueue 50 0 1 2 False False 1500))) =
    Some (Some ex_burst_packet, s')"
proof -
  let ?s = "fst (clbq_enque 0 ex_burst_packet (new_CLBQueue 50 0 1 2 False False 1500))"
  have inv: "bq_inv ?s" by (intro cq.enq_invar new_CLBQueue_inv)
  have "bqMap ?s = [(dst_vp_key (snd ex_burst_packet), pq_enque ex_burst_packet pq_new)]"
    by (simp add: clbq_enque_def ex_burst_packet_def CLBRow_zero_def new_CLBQueue_def om_empty_def
        would_overflow_def ecn_marks_def pq_new_def om_get_Cons Let_def)
  then show ?thesis using clbq_deque_priority[OF inv, of 0] by auto
qed

lemma clbq_run_conserves_witness:
  "\<exists>s' out. queue_run clbq_enque clbq_deque [Arrive 0 ex_burst_packet, Arrive 0 (8, Packet_alloc), Resume 1]
      (new_CLBQueue 50 0 1 2 False False 1500) = Inr (s', out) \<and> {#7, 8#} = out_mset out + cq_held s'"
  using clbq_run_conserves[OF new_CLBQueue_inv(1), of 50 0 1 2 False False 1500
      "[Arrive 0 ex_burst_packet, Arrive 0 (8, Packet_alloc), Resume 1]"]
  by (simp add: new_CLBQueue_inv(2)) (auto simp: new_CLBQueue_def arrivals_def ex_burst_packet_def)

end
