(* ===== verification/PathKeys.thy ===== *)
theory PathKeys
  imports CLBInvariant
begin

text \<open>
  Tables of paths whose keys are \<^verbatim>\<open>0..N-1\<close>, for the processors of CLOVE and Hermes,
  and the ring of responses that both share.
\<close>

definition keys_upto :: "int \<Rightarrow> (u32, 'v) omap \<Rightarrow> bool" where
  "keys_upto N m \<longleftrightarrow> om_keys m = List.map of_nat [0..<nat N]"

lemma keys_upto_inv: "N < 2 ^ 31 \<Longrightarrow> keys_upto N m \<Longrightarrow> om_inv m"
  unfolding keys_upto_def om_inv_def using sorted_upt_u32[of "nat N"] by (simp add: nat_le_iff)

lemma keys_upto_length: "keys_upto N m \<Longrightarrow> length m = nat N"
  by (metis keys_upto_def length_map length_om_keys length_upt diff_zero)

lemma keys_upto_key:
  assumes "N < 2 ^ 31" and "keys_upto N m" and "om_get k m \<noteq> None"
  shows "uint k < N"
proof -
  have "k \<in> set (om_keys m)" using assms(3) by (simp add: om_keys_get)
  then obtain j where j: "j < nat N" "k = of_nat j" using assms(2) by (auto simp: keys_upto_def)
  have "int j < 2147483648" using j(1) assms(1) by simp
  then have "unat (of_nat j :: u32) = j" by (intro unat_u32) simp
  then have "unat k < nat N" using j by simp
  then have "int (unat k) < N" by linarith
  then show ?thesis by simp
qed

lemma keys_upto_alloc:
  assumes "keys_upto (int j) m" and "Suc j < 2 ^ 31"
  shows "keys_upto (int (Suc j)) (om_put (of_nat j) v m)" and "om_get (of_nat j) m = None"
proof -
  have om: "om_inv m" using keys_upto_inv[OF _ assms(1)] assms(2) by simp
  have keys: "om_keys m = List.map of_nat [0..<j]" using assms(1) by (simp add: keys_upto_def)
  have "(of_nat j :: u32) \<noteq> of_nat i" if "i < j" for i
    using that of_nat_u32_less_iff(2)[of j i] assms(2) by simp
  then have "(of_nat j :: u32) \<notin> set (List.map of_nat [0..<j])"
    unfolding set_map set_upt by (metis (no_types, lifting) atLeastLessThan_iff imageE)
  then show "om_get (of_nat j) m = None" using keys om_keys_get[of "of_nat j" m] by simp
  have "sorted_wrt (<) (om_keys (om_put (of_nat j) v m))"
    using om.keys_sorted[OF om_inv_put[OF om]] .
  moreover have "sorted_wrt (<) (List.map of_nat [0..<Suc j] :: u32 list)"
    using assms(2) by (intro sorted_upt_u32) simp
  moreover have "set (om_keys (om_put (of_nat j) v m)) = set (List.map of_nat [0..<Suc j])"
    using keys by (simp add: set_om_keys_put lessThan_Suc flip: lessThan_atLeast0)
  ultimately have "om_keys (om_put (of_nat j) v m) = List.map of_nat [0..<Suc j]"
    by (metis strict_sorted_equal)
  then show "keys_upto (int (Suc j)) (om_put (of_nat j) v m)" by (simp add: keys_upto_def nat_add_distrib)
qed

lemma keys_upto_put:
  assumes "N < 2 ^ 31" and "keys_upto N m" and "om_get k m \<noteq> None"
  shows "keys_upto N (om_put k v m)"
  using assms om.keys_put_existing[OF keys_upto_inv[OF assms(1,2)] assms(3), of v]
  by (simp add: keys_upto_def)

subsection \<open>The ring of responses\<close>

definition T_VP_EXPIRE :: rat where "T_VP_EXPIRE = 1 / 2"

text \<open>The loop of \<^verbatim>\<open>ca_next\<close> on the map and the queue of responses: responses older
  than \<^verbatim>\<open>T_VP_EXPIRE\<close> are freed on the way.\<close>

fun ring_next ::
    "rat \<Rightarrow> (u32, 'a ca_response_scheme) omap \<Rightarrow> u32 list \<Rightarrow> u32 option \<times> (u32, 'a ca_response_scheme) omap \<times> u32 list" where
  "ring_next now m [] = (None, m, [])"
| "ring_next now m (t # q) =
    (case om_get t m of
       None \<Rightarrow> ring_next now m q
     | Some ca \<Rightarrow> if now - rsp_time ca > T_VP_EXPIRE then ring_next now (om_del t m) q
         else (Some t, m, q @ [t]))"

lemma ring_inv_alloc:
  assumes "ring_inv m q" and "om_get k m = None" and "rsp_hashkey r = k"
  shows "ring_inv (om_put k r m) (q @ [k])"
proof -
  have "\<forall>(j, r)\<in>set (om_put k r m). rsp_hashkey r = j"
    using assms(1,3) by (intro om_all_put) (auto simp: ring_inv_def)
  moreover have "k \<notin> set (om_keys m)" using assms(2) om_keys_get[of k m] by simp
  ultimately show ?thesis using assms(1) by (simp add: ring_inv_def om_inv_put set_om_keys_put)
qed

lemma ring_inv_del_hd:
  assumes "ring_inv m (t # q)"
  shows "ring_inv (om_del t m) q"
proof -
  have "set (om_keys (om_del t m)) = set (om_keys m) - {t}" by (rule om.set_keys_del)
  then show ?thesis using assms by (auto simp: ring_inv_def om_inv_del) (auto simp: om_del_def)
qed

text \<open>The response that is next in the ring is alive; expired responses are dropped,
  live ones kept.\<close>

definition fresh_response :: "rat \<Rightarrow> 'a ca_response_scheme \<Rightarrow> bool" where
  "fresh_response now r \<longleftrightarrow> now - rsp_time r \<le> T_VP_EXPIRE"

lemma ring_next_ok:
  assumes "ring_inv m q"
  shows "\<exists>t m' q'. ring_next now m q = (t, m', q') \<and> ring_inv m' q' \<and>
    (\<forall>k. t = Some k \<longrightarrow> (\<exists>r. om_get k m' = Some r \<and> fresh_response now r)) \<and>
    (t = None \<longrightarrow> q' = []) \<and>
    (\<forall>j r. om_get j m' = Some r \<longrightarrow> om_get j m = Some r) \<and>
    (\<forall>j r. om_get j m = Some r \<longrightarrow> fresh_response now r \<longrightarrow> om_get j m' = Some r)"
  using assms
proof (induction now m q rule: ring_next.induct)
  case (2 now m t q)
  have "t \<in> set (om_keys m)" using 2(3) by (auto simp: ring_inv_def)
  then obtain r where r: "om_get t m = Some r" by (auto simp: om_keys_get)
  show ?case
  proof (cases "now - rsp_time r > T_VP_EXPIRE")
    case True
    obtain t' m' q' where IH: "ring_next now (om_del t m) q = (t', m', q')" "ring_inv m' q'"
      "\<forall>k. t' = Some k \<longrightarrow> (\<exists>r. om_get k m' = Some r \<and> fresh_response now r)" "t' = None \<longrightarrow> q' = []"
      "\<forall>j r. om_get j m' = Some r \<longrightarrow> om_get j (om_del t m) = Some r"
      "\<forall>j r. om_get j (om_del t m) = Some r \<longrightarrow> fresh_response now r \<longrightarrow> om_get j m' = Some r"
      using 2(2)[OF r True ring_inv_del_hd[OF 2(3)]] by blast
    have "ring_next now m (t # q) = (t', m', q')" using r True IH(1) by simp
    moreover have "om_get j m = Some x" if "om_get j m' = Some x" for j x
      using IH(5) that by (metis om_get_del option.distinct(1))
    moreover have "om_get j m' = Some x" if "om_get j m = Some x" "fresh_response now x" for j x
    proof -
      have "j \<noteq> t" using that r True by (auto simp: fresh_response_def)
      then show ?thesis using IH(6) that by (simp add: om_get_del)
    qed
    ultimately show ?thesis using IH(2-4) by blast
  next
    case False
    have "ring_inv m (q @ [t])" using 2(3) by (auto simp: ring_inv_def)
    then show ?thesis using r False by (simp add: fresh_response_def)
  qed
qed simp

end
