(* ===== verification/Clove.thy ===== *)
theory Clove
  imports PathKeys NodeTable
begin

text \<open>
  CLOVE (\<^verbatim>\<open>clb/clove.cc\<close>, \<^verbatim>\<open>clb/clove-processor.h\<close>, \<^verbatim>\<open>clb/clove-processor.cc\<close>): paths have
  weights that a reported mark reduces by a third and that grow back to the full
  value after a time without reduction; the path of a packet is chosen by smooth
  weighted round robin.  \<^verbatim>\<open>struct ca_response\<close> is the one of CLB.  The fields of the
  class that only debug code or commented out code uses are left out.
\<close>

definition CLOVE_WI :: rat where "CLOVE_WI = 100"
definition T_WEIGHT_EXPIRE :: rat where "T_WEIGHT_EXPIRE = PRE_RTT * 200"
definition CLOVE_INIT_RRATE :: rat where "CLOVE_INIT_RRATE = 830000"

record clove_ca_record =
  cv_send_cnt :: u32
  cv_recv_cnt :: u32
  cv_send_undefined :: u32
  cv_recv_undefined :: int
  cv_flying :: rat
  cv_rate :: rat
  cv_r_rate :: int
  weight :: rat
  current_weight :: rat
  cv_fresh_time :: rat
  cv_update_time :: rat
  cv_r_time :: rat
  cv_recv_ece_cnt :: u32
  cv_valid :: int
  cv_pending :: int

record clove_vp_record =
  cv_hashkey :: u32
  cv_ca_row :: clove_ca_record

record FlowletRecord =
  fr_src_ip :: int
  fr_src_port :: int
  fr_dst_ip :: int
  fr_dst_port :: int
  fr_hashkey :: u32
  fr_timeStamp :: rat

record clove_processor =
  cv_src :: int
  cv_dst :: int
  cv_VP_SIZE :: int
  cv_hashkey_counter :: u32
  cv_ece_cnt :: u32
  cv_init_rrate :: rat
  cv_vp_map :: "(u32, clove_vp_record) omap"
  cv_ca_queue :: "u32 list"
  cv_ca_map :: "(u32, ca_response) omap"
  cv_flow_table :: "FlowletRecord list"

definition clove_init_ca_record :: "rat \<Rightarrow> rat \<Rightarrow> clove_ca_record" where
  "clove_init_ca_record now irr = \<lparr> cv_send_cnt = 0, cv_recv_cnt = 0, cv_send_undefined = 0,
     cv_recv_undefined = 0, cv_flying = 0, cv_rate = 1, cv_r_rate = int_of_double irr,
     weight = CLOVE_WI, current_weight = 0, cv_fresh_time = now, cv_update_time = now,
     cv_r_time = now, cv_recv_ece_cnt = 0, cv_valid = 1, cv_pending = 0 \<rparr>"

definition clove_init_vp_record :: "rat \<Rightarrow> rat \<Rightarrow> clove_vp_record" where
  "clove_init_vp_record now irr = \<lparr> cv_hashkey = 0, cv_ca_row = clove_init_ca_record now irr \<rparr>"

definition clove_upd_vp ::
    "u32 \<Rightarrow> (clove_ca_record \<Rightarrow> clove_ca_record) \<Rightarrow> clove_processor \<Rightarrow> clove_processor" where
  "clove_upd_vp k f s = (case om_get k (cv_vp_map s) of None \<Rightarrow> s
     | Some vp \<Rightarrow> s\<lparr>cv_vp_map := om_put k (vp\<lparr>cv_ca_row := f (cv_ca_row vp)\<rparr>) (cv_vp_map s)\<rparr>)"

definition clove_upd_ca :: "u32 \<Rightarrow> (ca_response \<Rightarrow> ca_response) \<Rightarrow> clove_processor \<Rightarrow> clove_processor" where
  "clove_upd_ca k f s = (case om_get k (cv_ca_map s) of None \<Rightarrow> s
     | Some ca \<Rightarrow> s\<lparr>cv_ca_map := om_put k (f ca) (cv_ca_map s)\<rparr>)"

subsection \<open>Paths\<close>

definition clove_vp_alloc :: "rat \<Rightarrow> clove_processor \<Rightarrow> u32 \<times> clove_processor" where
  "clove_vp_alloc now s =
    (let k = cv_hashkey_counter s;
         vp = (clove_init_vp_record now (cv_init_rrate s))\<lparr>cv_hashkey := k\<rparr>
     in (k, s\<lparr>cv_hashkey_counter := k + 1, cv_vp_map := om_put k vp (cv_vp_map s)\<rparr>))"

definition clove_vp_free :: "u32 \<Rightarrow> clove_processor \<Rightarrow> clove_processor" where
  "clove_vp_free k s = (if om_get k (cv_vp_map s) = None then s else s\<lparr>cv_vp_map := om_del k (cv_vp_map s)\<rparr>)"

partial_function (option) clove_vp_init :: "rat \<Rightarrow> clove_processor \<Rightarrow> clove_processor option" where
  "clove_vp_init now s =
    (if length (cv_vp_map s) < size_t_of_int (cv_VP_SIZE s)
     then clove_vp_init now (snd (clove_vp_alloc now s)) else Some s)"

definition clove_vp_get :: "u32 \<Rightarrow> clove_processor \<Rightarrow> clove_vp_record option" where
  "clove_vp_get k s = om_get k (cv_vp_map s)"

text \<open>One path in the loop of \<^verbatim>\<open>vp_next\<close>: an old reduction ends, the path gains its
  weight.\<close>

definition clove_age :: "rat \<Rightarrow> clove_ca_record \<Rightarrow> clove_ca_record" where
  "clove_age now car =
    (if now - cv_r_time car > T_WEIGHT_EXPIRE \<and> weight car \<noteq> CLOVE_WI
     then car\<lparr>weight := CLOVE_WI\<rparr> else car)"

fun clove_next_loop ::
    "rat \<Rightarrow> (u32 \<times> clove_vp_record) list \<Rightarrow> rat \<Rightarrow> int \<Rightarrow> u32 \<Rightarrow> (u32 \<times> clove_vp_record) list \<times> rat \<times> u32" where
  "clove_next_loop now [] tot max_weight max_vp = ([], tot, max_vp)"
| "clove_next_loop now ((k, vp) # m) tot max_weight max_vp =
    (let aged = clove_age now (cv_ca_row vp);
         car = aged\<lparr>current_weight := current_weight aged + weight aged\<rparr>;
         (mw, mv) = (if current_weight car > of_int max_weight then (int_of_double (current_weight car), k)
                     else (max_weight, max_vp));
         (m', t', v') = clove_next_loop now m (tot + weight aged) mw mv
     in ((k, vp\<lparr>cv_ca_row := car\<rparr>) # m', t', v'))"

definition clove_vp_next :: "rat \<Rightarrow> clove_processor \<Rightarrow> (u32 \<times> clove_processor) result" where
  "clove_vp_next now s =
    (case cv_vp_map s of [] \<Rightarrow> Inl NullDeref
     | (k0, vp0) # _ \<Rightarrow>
       (case clove_next_loop now (cv_vp_map s) 0 (int_of_double (current_weight (cv_ca_row vp0))) k0 of
          (m, tot, max_vp) \<Rightarrow>
            Inr (max_vp, clove_upd_vp max_vp (\<lambda>ca. ca\<lparr>current_weight := current_weight ca - tot\<rparr>)
                   (s\<lparr>cv_vp_map := m\<rparr>))))"

subsection \<open>Responses\<close>

definition clove_ca_alloc :: "rat \<Rightarrow> u32 \<Rightarrow> clove_processor \<Rightarrow> clove_processor" where
  "clove_ca_alloc now k s =
    s\<lparr>cv_ca_map := om_put k ((init_ca_response now)\<lparr>rsp_hashkey := k\<rparr>) (cv_ca_map s),
      cv_ca_queue := cv_ca_queue s @ [k]\<rparr>"

definition clove_ca_free :: "u32 \<Rightarrow> clove_processor \<Rightarrow> clove_processor" where
  "clove_ca_free k s = (if om_get k (cv_ca_map s) = None then s else s\<lparr>cv_ca_map := om_del k (cv_ca_map s)\<rparr>)"

definition clove_ca_next :: "rat \<Rightarrow> clove_processor \<Rightarrow> u32 option \<times> clove_processor" where
  "clove_ca_next now s = (case ring_next now (cv_ca_map s) (cv_ca_queue s) of
     (t, m, q) \<Rightarrow> (t, s\<lparr>cv_ca_map := m, cv_ca_queue := q\<rparr>))"

definition clove_ca_get :: "u32 \<Rightarrow> clove_processor \<Rightarrow> ca_response option" where
  "clove_ca_get k s = om_get k (cv_ca_map s)"

subsection \<open>Packets\<close>

text \<open>\<^verbatim>\<open>ecn_truncate\<close> clears the echo of a mark while some path has full weight.\<close>

definition clove_ecn_truncate :: "packet \<Rightarrow> clove_processor \<Rightarrow> bool \<times> packet" where
  "clove_ecn_truncate p s =
    (if list_ex (\<lambda>(k, vp). \<bar>weight (cv_ca_row vp) - CLOVE_WI\<bar> < 1) (cv_vp_map s)
     then (True, p\<lparr>ecnecho := 0\<rparr>) else (False, p))"

definition clove_feedback :: "rat \<Rightarrow> packet \<Rightarrow> clove_ca_record \<Rightarrow> clove_ca_record" where
  "clove_feedback now p ca =
    (if clove_vp_recn (clove_row p)
     then (let ca' = (if weight ca > 1 \<and> now - cv_r_time ca > 5 * PRE_RTT
                      then ca\<lparr>weight := weight ca - weight ca / 3, cv_r_time := now\<rparr> else ca)
           in ca'\<lparr>cv_recv_ece_cnt := cv_recv_ece_cnt ca' + 1\<rparr>)
     else ca)"

text \<open>The two parts of \<^verbatim>\<open>recv\<close>: the sender's, which takes the feedback of the other
  end, and the receiver's, which notes the mark of this packet in the response for
  its path.\<close>

definition clove_take_feedback :: "rat \<Rightarrow> packet \<Rightarrow> clove_processor \<Rightarrow> clove_processor result" where
  "clove_take_feedback now p s =
    (if clove_response_en (clove_row p) then
       (case clove_vp_get (clove_vp_rid (clove_row p)) s of
          None \<Rightarrow> Inr s
        | Some vp \<Rightarrow> if cv_hashkey vp \<noteq> clove_vp_rid (clove_row p) then Inl AssertFail
            else Inr (clove_upd_vp (clove_vp_rid (clove_row p)) (clove_feedback now p) s))
     else Inr s)"

definition clove_note_mark :: "rat \<Rightarrow> packet \<Rightarrow> clove_processor \<Rightarrow> clove_processor" where
  "clove_note_mark now p s =
    (let k = clove_vp_id (clove_row p);
         s1 = (if clove_ca_get k s = None then clove_ca_alloc now k s else s)
     in if ce p \<noteq> 0
        then clove_upd_ca k (\<lambda>r. r\<lparr>rsp_recv_ecn_cnt := rsp_recv_ecn_cnt r + 1, rsp_recv_ecn := True\<rparr>) s1
        else s1)"

definition clove_recv :: "rat \<Rightarrow> packet \<Rightarrow> clove_processor \<Rightarrow> (int \<times> packet \<times> clove_processor) result" where
  "clove_recv now p s =
    bind_r (clove_take_feedback now p s)
      (\<lambda>s1.
        let p1 = (if ecnecho p \<noteq> 0 then snd (clove_ecn_truncate p s1) else p);
            s2 = (if ecnecho p1 \<noteq> 0 then s1\<lparr>cv_ece_cnt := cv_ece_cnt s1 + 1\<rparr> else s1)
        in Inr (0, p1, clove_note_mark now p1 s2))"

definition clove_send :: "rat \<Rightarrow> packet \<Rightarrow> clove_processor \<Rightarrow> (int \<times> packet \<times> clove_processor) result" where
  "clove_send now p s =
    bind_r (clove_vp_next now s) (\<lambda>(k, s1).
      case clove_vp_get k s1 of None \<Rightarrow> Inl NullDeref
      | Some vp \<Rightarrow>
        let s2 = clove_upd_vp k (\<lambda>ca. ca\<lparr>cv_send_cnt := cv_send_cnt ca + 1\<rparr>) s1;
            (t, s3) = clove_ca_next now s2;
            ((rid, recn, ren), s4) =
              (case t of None \<Rightarrow> ((0, False, False), s3)
               | Some j \<Rightarrow> (case clove_ca_get j s3 of None \<Rightarrow> ((0, False, False), s3)
                   | Some ca \<Rightarrow> ((rsp_hashkey ca, rsp_recv_ecn ca, True),
                       clove_upd_ca j (\<lambda>r. r\<lparr>rsp_recv_ecn := False\<rparr>) s3)))
        in Inr (0, p\<lparr>ecmpHashKey := cv_hashkey vp,
                     clove_row := (clove_row p)\<lparr>clove_vp_id := cv_hashkey vp, clove_record_en := True,
                       clove_vp_rid := rid, clove_vp_recn := recn, clove_response_en := ren\<rparr>\<rparr>, s4))"

text \<open>\<^verbatim>\<open>find_flowlet\<close>: the first record with the addresses and ports of the packet.\<close>

definition find_flowlet :: "packet \<Rightarrow> clove_processor \<Rightarrow> FlowletRecord option" where
  "find_flowlet p s = List.find (\<lambda>r. fr_src_ip r = saddr p \<and> fr_dst_ip r = daddr p \<and>
     fr_src_port r = sport p \<and> fr_dst_port r = dport p) (cv_flow_table s)"

definition new_CLOVEProcessor :: "rat \<Rightarrow> int \<Rightarrow> int \<Rightarrow> int \<Rightarrow> clove_processor option" where
  "new_CLOVEProcessor now src0 dst0 sz =
    clove_vp_init now \<lparr> cv_src = src0, cv_dst = dst0, cv_VP_SIZE = sz, cv_hashkey_counter = 0,
      cv_ece_cnt = 0, cv_init_rrate = CLOVE_INIT_RRATE, cv_vp_map = om_empty, cv_ca_queue = [],
      cv_ca_map = om_empty, cv_flow_table = [] \<rparr>"

subsection \<open>The node\<close>

definition clove_rx :: "clove_processor handler" where
  "clove_rx now p np = bind_r (clove_recv now p np) (\<lambda>(ret, p', np'). Inr (ret, p', np', []))"

definition clove_tx :: "clove_processor handler" where
  "clove_tx now p np = bind_r (clove_send now p np) (\<lambda>(ret, p', np'). Inr (ret, p', np', []))"

definition clove_node_recv ::
    "rat \<Rightarrow> packet \<Rightarrow> clove_processor lb_node \<Rightarrow> (int \<times> packet \<times> clove_processor lb_node \<times> effect list) result" where
  "clove_node_recv now p n = node_recv new_CLOVEProcessor clove_rx clove_tx now p n"

end
