(* ===== verification/CloveProperties.thy ===== *)
theory CloveProperties
  imports Clove PathKeys
begin

text \<open>
  The invariant of the CLOVE processor, the reaction to marks and what it promises.
\<close>

text \<open>A weight is the full weight reduced at most twelve times.\<close>

definition weight_ok :: "rat \<Rightarrow> bool" where
  "weight_ok w \<longleftrightarrow> (\<exists>n<13. w = CLOVE_WI * (2 / 3) ^ n)"

definition cv_paths_inv :: "int \<Rightarrow> (u32, clove_vp_record) omap \<Rightarrow> bool" where
  "cv_paths_inv N m \<longleftrightarrow> keys_upto N m \<and>
     (\<forall>(k, vp)\<in>set m. cv_hashkey vp = k \<and> weight_ok (weight (cv_ca_row vp))) \<and>
     om_sum (\<lambda>vp. current_weight (cv_ca_row vp)) m = 0"

definition cv_inv :: "int \<Rightarrow> clove_processor \<Rightarrow> bool" where
  "cv_inv N s \<longleftrightarrow> cv_VP_SIZE s = N \<and> 0 < N \<and> N < 2 ^ 31 \<and> cv_paths_inv N (cv_vp_map s) \<and>
     ring_inv (cv_ca_map s) (cv_ca_queue s)"

lemma weight_ok_init: "weight_ok CLOVE_WI"
  unfolding weight_ok_def by (rule exI[of _ 0]) simp

lemma weight_ok_reduce:
  assumes "weight_ok w" and "1 < w"
  shows "weight_ok (2 * w / 3)"
proof -
  obtain n where n: "n < 13" "w = CLOVE_WI * (2 / 3) ^ n" using assms(1) by (auto simp: weight_ok_def)
  have "n \<noteq> 12" using assms(2) n(2) by (auto simp: CLOVE_WI_def eval_nat_numeral)
  then show ?thesis using n unfolding weight_ok_def by (intro exI[of _ "Suc n"]) simp
qed

lemma weight_ok_bounds:
  assumes "weight_ok w"
  shows "2 / 3 < w" and "w \<le> CLOVE_WI"
proof -
  obtain n where n: "n < 13" "w = CLOVE_WI * (2 / 3) ^ n" using assms by (auto simp: weight_ok_def)
  have "(2 / 3 :: rat) ^ 12 \<le> (2 / 3) ^ n" using n(1) by (intro power_decreasing) auto
  then have "CLOVE_WI * (2 / 3) ^ 12 \<le> w" by (simp add: n(2) CLOVE_WI_def)
  then show "2 / 3 < w" by (simp add: CLOVE_WI_def eval_nat_numeral)
  have "(2 / 3 :: rat) ^ n \<le> 1" by (intro power_le_one) auto
  then show "w \<le> CLOVE_WI" by (simp add: n(2) CLOVE_WI_def)
qed

lemma weight_ok_full:
  assumes "weight_ok w"
  shows "\<bar>w - CLOVE_WI\<bar> < 1 \<longleftrightarrow> w = CLOVE_WI"
proof -
  obtain n where n: "w = CLOVE_WI * (2 / 3) ^ n" using assms by (auto simp: weight_ok_def)
  have "w \<le> 99" if "0 < n"
  proof -
    have "(2 / 3 :: rat) ^ n \<le> (2 / 3) ^ 1" using that by (intro power_decreasing) auto
    then show ?thesis by (simp add: n CLOVE_WI_def)
  qed
  then show ?thesis using n by (cases "n = 0") (auto simp: CLOVE_WI_def)
qed

subsection \<open>Assignments to a path\<close>

lemma cv_paths_inv_put:
  assumes N: "N < 2 ^ 31" and inv: "cv_paths_inv N m" and get: "om_get k m = Some vp"
    and "cv_hashkey vp' = k" and "weight_ok (weight (cv_ca_row vp'))"
    and "current_weight (cv_ca_row vp') = current_weight (cv_ca_row vp)"
  shows "cv_paths_inv N (om_put k vp' m)"
proof -
  have ku: "keys_upto N m" using inv by (simp add: cv_paths_inv_def)
  have om: "om_inv m" by (rule keys_upto_inv[OF N ku])
  have "\<forall>(j, v)\<in>set (om_put k vp' m). cv_hashkey v = j \<and> weight_ok (weight (cv_ca_row v))"
    using inv assms(4,5) by (intro om_all_put) (auto simp: cv_paths_inv_def)
  then show ?thesis
    using inv get assms(6) keys_upto_put[OF N ku, of k vp'] om
    by (simp add: cv_paths_inv_def om_sum_put)
qed

lemma cv_paths_get:
  assumes "cv_paths_inv N m" and "om_get k m = Some vp"
  shows "cv_hashkey vp = k" and "weight_ok (weight (cv_ca_row vp))"
  using assms om_get_mem[OF assms(2)] by (auto simp: cv_paths_inv_def)

lemma clove_upd_vp_inv:
  assumes inv: "cv_inv N s"
    and f: "\<And>ca. weight_ok (weight ca) \<Longrightarrow> weight_ok (weight (f ca))" "\<And>ca. current_weight (f ca) = current_weight ca"
  shows "cv_inv N (clove_upd_vp k f s)"
proof (cases "om_get k (cv_vp_map s)")
  case (Some vp)
  have P: "cv_paths_inv N (cv_vp_map s)" and N: "N < 2 ^ 31" using inv by (simp_all add: cv_inv_def)
  have "cv_paths_inv N (om_put k (vp\<lparr>cv_ca_row := f (cv_ca_row vp)\<rparr>) (cv_vp_map s))"
    using cv_paths_get[OF P Some] f by (intro cv_paths_inv_put[OF N P Some]) simp_all
  then show ?thesis using inv Some by (simp add: clove_upd_vp_def cv_inv_def)
qed (use inv in \<open>simp add: clove_upd_vp_def\<close>)

subsection \<open>The constructor\<close>

lemma clove_vp_init_returns:
  assumes "cv_paths_inv (int j) (cv_vp_map s)" and "cv_hashkey_counter s = of_nat j"
    and "j \<le> nat (cv_VP_SIZE s)" and "0 \<le> cv_VP_SIZE s" and "cv_VP_SIZE s < 2 ^ 31"
  shows "\<exists>m c. clove_vp_init now s = Some (s\<lparr>cv_hashkey_counter := c, cv_vp_map := m\<rparr>) \<and>
    cv_paths_inv (cv_VP_SIZE s) m"
  using assms
proof (induction "nat (cv_VP_SIZE s) - j" arbitrary: j s)
  case 0
  then have j: "int j = cv_VP_SIZE s" by simp
  have "length (cv_vp_map s) = j" using keys_upto_length[of "int j" "cv_vp_map s"] 0(2) by (simp add: cv_paths_inv_def)
  then have "\<not> length (cv_vp_map s) < size_t_of_int (cv_VP_SIZE s)"
    using 0(6) j by (simp add: size_t_of_int_nonneg)
  then show ?case using 0(2) j
    by (intro exI[of _ "cv_vp_map s"] exI[of _ "cv_hashkey_counter s"]) (subst clove_vp_init.simps, simp)
next
  case (Suc d)
  have lt: "j < nat (cv_VP_SIZE s)" using Suc(2) by simp
  have ku: "keys_upto (int j) (cv_vp_map s)" using Suc.prems(1) by (simp add: cv_paths_inv_def)
  have miss: "length (cv_vp_map s) < size_t_of_int (cv_VP_SIZE s)"
    using keys_upto_length[OF ku] lt Suc.prems(4,5) by (simp add: size_t_of_int_nonneg)
  let ?s = "snd (clove_vp_alloc now s)"
  let ?vp = "(clove_init_vp_record now (cv_init_rrate s))\<lparr>cv_hashkey := of_nat j\<rparr>"
  have fields: "cv_hashkey_counter ?s = of_nat (Suc j)" "cv_VP_SIZE ?s = cv_VP_SIZE s"
    "cv_vp_map ?s = om_put (of_nat j) ?vp (cv_vp_map s)"
    using Suc.prems(2) by (simp_all add: clove_vp_alloc_def Let_def add.commute)
  have "nat (cv_VP_SIZE s) < 2147483648" using Suc.prems(5) by simp
  then have j31: "Suc j < 2 ^ 31" using lt by simp
  have om: "om_inv (cv_vp_map s)" using j31 by (intro keys_upto_inv[OF _ ku]) simp
  have "\<forall>(k, v)\<in>set (om_put (of_nat j) ?vp (cv_vp_map s)). cv_hashkey v = k \<and> weight_ok (weight (cv_ca_row v))"
    using Suc.prems(1) by (intro om_all_put)
      (auto simp: cv_paths_inv_def clove_init_vp_record_def clove_init_ca_record_def weight_ok_init)
  then have inv: "cv_paths_inv (int (Suc j)) (cv_vp_map ?s)"
    using keys_upto_alloc[OF ku j31] Suc.prems(1) om unfolding fields(3) cv_paths_inv_def
    by (simp add: om_sum_put clove_init_vp_record_def clove_init_ca_record_def)
  have d: "d = nat (cv_VP_SIZE ?s) - Suc j" using Suc(2) fields by simp
  obtain m c where "clove_vp_init now ?s = Some (?s\<lparr>cv_hashkey_counter := c, cv_vp_map := m\<rparr>)"
    and "cv_paths_inv (cv_VP_SIZE s) m"
    using Suc.hyps(1)[OF d inv fields(1)] lt Suc.prems(4,5) fields by auto
  moreover have "?s\<lparr>cv_hashkey_counter := c, cv_vp_map := m\<rparr> = s\<lparr>cv_hashkey_counter := c, cv_vp_map := m\<rparr>"
    by (simp add: clove_vp_alloc_def Let_def)
  ultimately show ?case using miss
    by (intro exI[of _ m] exI[of _ c]) (subst clove_vp_init.simps, simp)
qed

lemma new_CLOVEProcessor_inv:
  assumes "0 < sz" and "sz < 2 ^ 31"
  shows "\<exists>s. new_CLOVEProcessor now a b sz = Some s \<and> cv_inv sz s"
proof -
  let ?b = "\<lparr> cv_src = a, cv_dst = b, cv_VP_SIZE = sz, cv_hashkey_counter = 0,
      cv_ece_cnt = 0, cv_init_rrate = CLOVE_INIT_RRATE, cv_vp_map = om_empty, cv_ca_queue = [],
      cv_ca_map = om_empty, cv_flow_table = [] \<rparr>"
  have "cv_paths_inv (int 0) (cv_vp_map ?b)" by (simp add: cv_paths_inv_def keys_upto_def om_empty_def)
  then obtain m c where "clove_vp_init now ?b = Some (?b\<lparr>cv_hashkey_counter := c, cv_vp_map := m\<rparr>)"
    "cv_paths_inv sz m"
    using clove_vp_init_returns[of 0 ?b now] assms by auto
  then show ?thesis using assms by (simp add: new_CLOVEProcessor_def cv_inv_def ring_inv_def om_empty_def)
qed

subsection \<open>Choosing a path\<close>

definition cv_gain :: "rat \<Rightarrow> clove_vp_record \<Rightarrow> clove_vp_record" where
  "cv_gain now vp = (let aged = clove_age now (cv_ca_row vp)
     in vp\<lparr>cv_ca_row := aged\<lparr>current_weight := current_weight aged + weight aged\<rparr>\<rparr>)"

definition aged_weight :: "rat \<Rightarrow> clove_vp_record \<Rightarrow> rat" where
  "aged_weight now vp = weight (clove_age now (cv_ca_row vp))"

lemma cv_gain_simps [simp]:
  "cv_hashkey (cv_gain now vp) = cv_hashkey vp"
  "current_weight (cv_ca_row (cv_gain now vp)) = current_weight (cv_ca_row vp) + aged_weight now vp"
  "weight (cv_ca_row (cv_gain now vp)) = aged_weight now vp"
  by (simp_all add: cv_gain_def aged_weight_def clove_age_def Let_def)

lemma clove_next_loop_effect:
  "\<exists>k. clove_next_loop now m t mw mv = (om_map (cv_gain now) m, t + om_sum (aged_weight now) m, k) \<and>
    (k = mv \<or> k \<in> set (om_keys m))"
proof (induction m arbitrary: t mw mv)
  case (Cons e m)
  obtain k vp where e: "e = (k, vp)" by (cases e)
  let ?a = "clove_age now (cv_ca_row vp)"
  let ?c = "current_weight ?a + weight ?a"
  obtain mw' mv' where m': "(if ?c > of_int mw then (int_of_double ?c, k) else (mw, mv)) = (mw', mv')"
    and mv': "mv' = mv \<or> mv' = k" by (cases "?c > of_int mw") auto
  obtain k' where IH: "clove_next_loop now m (t + weight ?a) mw' mv' =
      (om_map (cv_gain now) m, t + weight ?a + om_sum (aged_weight now) m, k')"
    and k': "k' = mv' \<or> k' \<in> set (om_keys m)"
    using Cons[of "t + weight ?a" mw' mv'] by blast
  show ?case using IH k' mv' m'
    by (auto simp: e Let_def om_map_def cv_gain_def[of now vp] aged_weight_def[of now vp])
qed (simp add: om_map_def)

lemma weight_ok_aged: "weight_ok (weight (cv_ca_row vp)) \<Longrightarrow> weight_ok (aged_weight now vp)"
  by (simp add: aged_weight_def clove_age_def weight_ok_init)

text \<open>The running maximum is an integer, so the path taken may fall short of the
  largest current weight by the rounding.\<close>

lemma clove_next_loop_max:
  assumes "clove_next_loop now m t mw mv = (m', t', v')"
  shows "\<exists>mx\<ge>mw. (\<forall>(j, vp)\<in>set m. current_weight (cv_ca_row (cv_gain now vp)) < of_int mx + 1) \<and>
    (v' = mv \<and> mx = mw \<or>
     (\<exists>vp. (v', vp) \<in> set m \<and> of_int mx - 1 < current_weight (cv_ca_row (cv_gain now vp))))"
  using assms
proof (induction m arbitrary: t mw mv m' t')
  case (Cons e m)
  obtain k vp where e: "e = (k, vp)" by (cases e)
  let ?a = "clove_age now (cv_ca_row vp)"
  let ?c = "current_weight ?a + weight ?a"
  have c: "current_weight (cv_ca_row (cv_gain now vp)) = ?c" by (simp add: cv_gain_def Let_def)
  let ?mw = "if ?c > of_int mw then int_of_double ?c else mw"
  let ?mv = "if ?c > of_int mw then k else mv"
  have split: "(if ?c > of_int mw then (int_of_double ?c, k) else (mw, mv)) = (?mw, ?mv)" by simp
  obtain m1 t1 where rest: "clove_next_loop now m (t + weight ?a) ?mw ?mv = (m1, t1, v')"
    using Cons.prems unfolding e clove_next_loop.simps Let_def
    by (auto simp: split split: prod.splits if_splits)
  have trunc: "?c < of_int (int_of_double ?c) + 1" "of_int (int_of_double ?c) - 1 < ?c"
    "?c > of_int mw \<Longrightarrow> mw \<le> int_of_double ?c"
    by (auto simp: int_of_double_def) linarith+
  obtain mx where mx: "?mw \<le> mx" "\<forall>(j, vp)\<in>set m. current_weight (cv_ca_row (cv_gain now vp)) < of_int mx + 1"
    "v' = ?mv \<and> mx = ?mw \<or> (\<exists>vp. (v', vp) \<in> set m \<and> of_int mx - 1 < current_weight (cv_ca_row (cv_gain now vp)))"
    using Cons.IH[OF rest] by blast
  have "mw \<le> mx" using mx(1) trunc(3) by (auto split: if_splits)
  moreover have "?c < of_int mx + 1"
  proof (cases "?c > of_int mw")
    case True
    then have "of_int (int_of_double ?c) \<le> (of_int mx :: rat)" using mx(1) by simp
    then show ?thesis using trunc(1) by linarith
  next
    case False
    then have "of_int mw \<le> (of_int mx :: rat)" using mx(1) by simp
    then show ?thesis using False by linarith
  qed
  moreover have "v' = mv \<and> mx = mw \<or>
     (\<exists>vp'. (v', vp') \<in> set (e # m) \<and> of_int mx - 1 < current_weight (cv_ca_row (cv_gain now vp')))"
    using mx(3) trunc(2) c by (cases "?c > of_int mw") (auto simp: e intro: exI[of _ vp])
  ultimately show ?case using mx(2) c by (intro exI[of _ mx]) (auto simp: e)
qed auto

definition cv_due :: "rat \<Rightarrow> clove_vp_record \<Rightarrow> rat" where
  "cv_due now vp = current_weight (cv_ca_row (cv_gain now vp))"

lemma clove_vp_next_ok:
  assumes inv: "cv_inv N s"
  shows "\<exists>k vp m. clove_vp_next now s = Inr (k, s\<lparr>cv_vp_map := m\<rparr>) \<and> cv_paths_inv N m \<and>
    om_get k (cv_vp_map s) = Some vp \<and>
    (\<forall>j v. om_get j (cv_vp_map s) = Some v \<longrightarrow> cv_due now v < cv_due now vp + 2) \<and>
    (\<forall>j v. om_get j (cv_vp_map s) = Some v \<longrightarrow>
       (\<exists>c. om_get j m = Some (v\<lparr>cv_ca_row := (clove_age now (cv_ca_row v))\<lparr>current_weight := c\<rparr>\<rparr>)))"
proof -
  have P: "cv_paths_inv N (cv_vp_map s)" and N: "0 < N" "N < 2 ^ 31" using inv by (simp_all add: cv_inv_def)
  have ku: "keys_upto N (cv_vp_map s)" using P by (simp add: cv_paths_inv_def)
  have om: "om_inv (cv_vp_map s)" using keys_upto_inv[OF N(2) ku] .
  have "cv_vp_map s \<noteq> []" using keys_upto_length[OF ku] N(1) by auto
  then obtain k0 vp0 rest where m0: "cv_vp_map s = (k0, vp0) # rest" by (cases "cv_vp_map s") auto
  let ?T = "om_sum (aged_weight now) (cv_vp_map s)"
  let ?w0 = "int_of_double (current_weight (cv_ca_row vp0))"
  obtain k where k: "clove_next_loop now (cv_vp_map s) 0 ?w0 k0 = (om_map (cv_gain now) (cv_vp_map s), ?T, k)"
    using clove_next_loop_effect[of now "cv_vp_map s" 0 ?w0 k0] by auto
  obtain mx where mx: "\<forall>(j, vp)\<in>set (cv_vp_map s). cv_due now vp < of_int mx + 1"
    and ch: "k = k0 \<and> mx = ?w0 \<or> (\<exists>vp. (k, vp) \<in> set (cv_vp_map s) \<and> of_int mx - 1 < cv_due now vp)"
    using clove_next_loop_max[OF k] unfolding cv_due_def by blast
  have first: "of_int ?w0 - 1 < cv_due now vp0"
  proof -
    have "weight_ok (aged_weight now vp0)" using P m0 by (intro weight_ok_aged) (simp add: cv_paths_inv_def)
    moreover have "of_int ?w0 < current_weight (cv_ca_row vp0) + 1" by (simp add: int_of_double_def) linarith
    ultimately show ?thesis using weight_ok_bounds(1) by (fastforce simp: cv_due_def)
  qed
  obtain vp where vp: "(k, vp) \<in> set (cv_vp_map s)" "of_int mx - 1 < cv_due now vp"
    using ch first m0 by auto
  have get: "om_get k (cv_vp_map s) = Some vp" using om_mem_get[OF om vp(1)] .
  have due: "cv_due now v < cv_due now vp + 2" if "om_get j (cv_vp_map s) = Some v" for j v
    using mx vp(2) om_get_mem[OF that] by force
  let ?v = "cv_gain now vp"
  let ?v' = "?v\<lparr>cv_ca_row := (cv_ca_row ?v)\<lparr>current_weight := current_weight (cv_ca_row ?v) - ?T\<rparr>\<rparr>"
  let ?m = "om_put k ?v' (om_map (cv_gain now) (cv_vp_map s))"
  have keys: "keys_upto N ?m"
    using om.keys_put_existing[of "om_map (cv_gain now) (cv_vp_map s)" k ?v'] om get ku by (simp add: keys_upto_def)
  have hk: "\<forall>(j, v)\<in>set ?m. cv_hashkey v = j \<and> weight_ok (weight (cv_ca_row v))"
  proof (rule om_all_put)
    show "\<forall>(j, v)\<in>set (om_map (cv_gain now) (cv_vp_map s)). cv_hashkey v = j \<and> weight_ok (weight (cv_ca_row v))"
      using P weight_ok_aged by (intro om_all_map) (auto simp: cv_paths_inv_def)
    show "cv_hashkey ?v' = k \<and> weight_ok (weight (cv_ca_row ?v'))"
      using cv_paths_get[OF P get] weight_ok_aged by simp
  qed
  have "om_sum (\<lambda>vp. current_weight (cv_ca_row vp)) ?m = 0"
    using P get om by (simp add: om_sum_put om_sum_map om_sum_add cv_paths_inv_def)
  then have inv': "cv_paths_inv N ?m" using keys hk by (simp add: cv_paths_inv_def)
  have run: "clove_vp_next now s = Inr (k, s\<lparr>cv_vp_map := ?m\<rparr>)"
    using m0 k get by (simp add: clove_vp_next_def clove_upd_vp_def)
  have upd: "\<exists>c. om_get j ?m = Some (v\<lparr>cv_ca_row := (clove_age now (cv_ca_row v))\<lparr>current_weight := c\<rparr>\<rparr>)"
    if "om_get j (cv_vp_map s) = Some v" for j v
    using that get by (cases "j = k") (auto simp: om_get_put cv_gain_def Let_def)
  show ?thesis using run inv' get due upd by blast
qed

subsection \<open>Packets\<close>

lemma clove_upd_vp_get:
  "om_get j (cv_vp_map (clove_upd_vp k f s)) =
     map_option (\<lambda>vp. if j = k then vp\<lparr>cv_ca_row := f (cv_ca_row vp)\<rparr> else vp) (om_get j (cv_vp_map s))"
  by (cases "om_get j (cv_vp_map s)") (auto simp: clove_upd_vp_def om_get_put split: option.split)

lemma clove_upd_simps [simp]:
  "cv_ca_map (clove_upd_vp k f s) = cv_ca_map s" "cv_ca_queue (clove_upd_vp k f s) = cv_ca_queue s"
  "cv_VP_SIZE (clove_upd_vp k f s) = cv_VP_SIZE s" "cv_vp_map (clove_upd_ca k g s) = cv_vp_map s"
  "cv_ca_queue (clove_upd_ca k g s) = cv_ca_queue s" "cv_VP_SIZE (clove_upd_ca k g s) = cv_VP_SIZE s"
  by (simp_all add: clove_upd_vp_def clove_upd_ca_def split: option.split)

lemma clove_upd_ca_get:
  "om_get j (cv_ca_map (clove_upd_ca k g s)) =
     map_option (\<lambda>r. if j = k then g r else r) (om_get j (cv_ca_map s))"
  by (cases "om_get j (cv_ca_map s)") (auto simp: clove_upd_ca_def om_get_put split: option.split)

lemma clove_upd_ca_inv:
  assumes "cv_inv N s" and "\<And>r. rsp_hashkey (g r) = rsp_hashkey r"
  shows "cv_inv N (clove_upd_ca k g s)"
proof (cases "om_get k (cv_ca_map s)")
  case (Some r)
  have R: "ring_inv (cv_ca_map s) (cv_ca_queue s)" using assms(1) by (simp add: cv_inv_def)
  have "rsp_hashkey r = k" using R om_get_mem[OF Some] by (auto simp: ring_inv_def)
  then show ?thesis
    using ring_inv_put[OF R Some, of "g r"] assms Some by (simp add: cv_inv_def clove_upd_ca_def)
qed (use assms in \<open>simp add: clove_upd_ca_def\<close>)

lemma clove_ca_alloc_inv:
  assumes "cv_inv N s" and "clove_ca_get k s = None"
  shows "cv_inv N (clove_ca_alloc now k s)"
  using assms ring_inv_alloc[of "cv_ca_map s" "cv_ca_queue s" k "(init_ca_response now)\<lparr>rsp_hashkey := k\<rparr>"]
  by (simp add: cv_inv_def clove_ca_alloc_def clove_ca_get_def)

lemma clove_ca_next_ok:
  assumes "cv_inv N s"
  shows "\<exists>t m q. clove_ca_next now s = (t, s\<lparr>cv_ca_map := m, cv_ca_queue := q\<rparr>) \<and> ring_inv m q \<and>
    (\<forall>k. t = Some k \<longrightarrow> (\<exists>r. om_get k m = Some r \<and> fresh_response now r \<and> rsp_hashkey r = k)) \<and>
    (\<forall>j r. om_get j m = Some r \<longrightarrow> om_get j (cv_ca_map s) = Some r) \<and>
    (\<forall>j r. om_get j (cv_ca_map s) = Some r \<longrightarrow> fresh_response now r \<longrightarrow> om_get j m = Some r \<and> t \<noteq> None)"
proof -
  obtain t m q where r: "ring_next now (cv_ca_map s) (cv_ca_queue s) = (t, m, q)" "ring_inv m q"
    "\<forall>k. t = Some k \<longrightarrow> (\<exists>r. om_get k m = Some r \<and> fresh_response now r)" "t = None \<longrightarrow> q = []"
    "\<forall>j r. om_get j m = Some r \<longrightarrow> om_get j (cv_ca_map s) = Some r"
    "\<forall>j r. om_get j (cv_ca_map s) = Some r \<longrightarrow> fresh_response now r \<longrightarrow> om_get j m = Some r"
    using ring_next_ok[of "cv_ca_map s" "cv_ca_queue s" now] assms unfolding cv_inv_def by blast
  have hk: "rsp_hashkey r = k" if "om_get k m = Some r" for k r
    using r(2) om_get_mem[OF that] by (auto simp: ring_inv_def)
  have "t \<noteq> None" if "om_get j m = Some x" for j x
  proof -
    have "j \<in> set q" using that r(2) om_keys_get[of j m] by (simp add: ring_inv_def)
    then show ?thesis using r(4) by auto
  qed
  then have "\<forall>j x. om_get j (cv_ca_map s) = Some x \<longrightarrow> fresh_response now x \<longrightarrow> om_get j m = Some x \<and> t \<noteq> None"
    using r(6) by metis
  moreover have "\<forall>k. t = Some k \<longrightarrow> (\<exists>r. om_get k m = Some r \<and> fresh_response now r \<and> rsp_hashkey r = k)"
    using r(3) hk by blast
  moreover have "clove_ca_next now s = (t, s\<lparr>cv_ca_map := m, cv_ca_queue := q\<rparr>)"
    using r(1) by (simp add: clove_ca_next_def)
  ultimately show ?thesis using r(2,5) by blast
qed

lemma clove_take_feedback_ok:
  assumes inv: "cv_inv N s"
  shows "\<exists>s'. clove_take_feedback now p s = Inr s' \<and> cv_inv N s' \<and> cv_ca_map s' = cv_ca_map s \<and>
    (\<forall>k. om_get k (cv_vp_map s') = map_option (\<lambda>vp.
       if clove_response_en (clove_row p) \<and> clove_vp_rid (clove_row p) = k
       then vp\<lparr>cv_ca_row := clove_feedback now p (cv_ca_row vp)\<rparr> else vp) (om_get k (cv_vp_map s)))"
proof (cases "clove_response_en (clove_row p) \<and> om_get (clove_vp_rid (clove_row p)) (cv_vp_map s) \<noteq> None")
  case True
  then obtain vp where vp: "om_get (clove_vp_rid (clove_row p)) (cv_vp_map s) = Some vp" by auto
  have P: "cv_paths_inv N (cv_vp_map s)" using inv by (simp add: cv_inv_def)
  let ?s = "clove_upd_vp (clove_vp_rid (clove_row p)) (clove_feedback now p) s"
  have run: "clove_take_feedback now p s = Inr ?s"
    using True vp cv_paths_get(1)[OF P vp] by (simp add: clove_take_feedback_def clove_vp_get_def)
  have "cv_inv N ?s" using inv
    by (rule clove_upd_vp_inv) (auto simp: clove_feedback_def Let_def intro: weight_ok_reduce)
  then show ?thesis using run True
    by (intro exI[of _ ?s]) (auto simp: clove_upd_vp_get intro: map_option_cong)
next
  case False
  then have "clove_take_feedback now p s = Inr s"
    by (auto simp: clove_take_feedback_def clove_vp_get_def)
  moreover have "om_get k (cv_vp_map s) = map_option (\<lambda>vp.
       if clove_response_en (clove_row p) \<and> clove_vp_rid (clove_row p) = k
       then vp\<lparr>cv_ca_row := clove_feedback now p (cv_ca_row vp)\<rparr> else vp) (om_get k (cv_vp_map s))" for k
    using False by (cases "om_get k (cv_vp_map s)") auto
  ultimately show ?thesis using inv by blast
qed

lemma clove_note_mark_ok:
  assumes inv: "cv_inv N s" and k: "k = clove_vp_id (clove_row p)"
  shows "cv_inv N (clove_note_mark now p s)" and "cv_vp_map (clove_note_mark now p s) = cv_vp_map s"
    and "om_get j (cv_ca_map s) = Some r \<Longrightarrow>
      \<exists>r'. om_get j (cv_ca_map (clove_note_mark now p s)) = Some r' \<and> rsp_time r' = rsp_time r \<and>
        (rsp_recv_ecn r' \<longleftrightarrow> rsp_recv_ecn r \<or> j = k \<and> ce p \<noteq> 0)"
    and "om_get k (cv_ca_map s) = None \<Longrightarrow>
      \<exists>r'. om_get k (cv_ca_map (clove_note_mark now p s)) = Some r' \<and> rsp_time r' = now \<and>
        (rsp_recv_ecn r' \<longleftrightarrow> ce p \<noteq> 0)"
proof -
  let ?s1 = "if clove_ca_get k s = None then clove_ca_alloc now k s else s"
  have i: "cv_inv N ?s1" using clove_ca_alloc_inv[OF inv] inv by simp
  show "cv_inv N (clove_note_mark now p s)"
    unfolding clove_note_mark_def Let_def k[symmetric] using i clove_upd_ca_inv[OF i] by simp
  show "cv_vp_map (clove_note_mark now p s) = cv_vp_map s"
    by (simp add: clove_note_mark_def Let_def clove_ca_alloc_def)
  show "\<exists>r'. om_get j (cv_ca_map (clove_note_mark now p s)) = Some r' \<and> rsp_time r' = rsp_time r \<and>
        (rsp_recv_ecn r' \<longleftrightarrow> rsp_recv_ecn r \<or> j = k \<and> ce p \<noteq> 0)" if "om_get j (cv_ca_map s) = Some r"
    using that by (auto simp: clove_note_mark_def Let_def clove_upd_ca_get clove_ca_alloc_def clove_ca_get_def
      om_get_put k[symmetric])
  show "\<exists>r'. om_get k (cv_ca_map (clove_note_mark now p s)) = Some r' \<and> rsp_time r' = now \<and>
        (rsp_recv_ecn r' \<longleftrightarrow> ce p \<noteq> 0)" if "om_get k (cv_ca_map s) = None"
    using that by (auto simp: clove_note_mark_def Let_def clove_upd_ca_get clove_ca_alloc_def clove_ca_get_def
      om_get_put k[symmetric] init_ca_response_def)
qed

lemma clove_ecn_truncate_packet:
  assumes "cv_inv N s"
  shows "snd (clove_ecn_truncate p s) =
    (if list_ex (\<lambda>(k, vp). weight (cv_ca_row vp) = CLOVE_WI) (cv_vp_map s) then p\<lparr>ecnecho := 0\<rparr> else p)"
proof -
  have "\<bar>weight (cv_ca_row vp) - CLOVE_WI\<bar> < 1 \<longleftrightarrow> weight (cv_ca_row vp) = CLOVE_WI"
    if "(k, vp) \<in> set (cv_vp_map s)" for k vp
    using assms that by (intro weight_ok_full) (auto simp: cv_inv_def cv_paths_inv_def)
  then show ?thesis by (auto simp: clove_ecn_truncate_def list_ex_iff)
qed

lemma clove_recv_ok:
  assumes inv: "cv_inv N s"
  shows "\<exists>p' s'. clove_recv now p s = Inr (0, p', s') \<and> cv_inv N s' \<and>
    (\<forall>k. om_get k (cv_vp_map s') = map_option (\<lambda>vp.
       if clove_response_en (clove_row p) \<and> clove_vp_rid (clove_row p) = k
       then vp\<lparr>cv_ca_row := clove_feedback now p (cv_ca_row vp)\<rparr> else vp) (om_get k (cv_vp_map s))) \<and>
    p' = (if ecnecho p \<noteq> 0 \<and> list_ex (\<lambda>(k, vp). weight (cv_ca_row vp) = CLOVE_WI) (cv_vp_map s')
          then p\<lparr>ecnecho := 0\<rparr> else p) \<and>
    (\<forall>k r. om_get k (cv_ca_map s) = Some r \<longrightarrow>
       (\<exists>r'. om_get k (cv_ca_map s') = Some r' \<and> rsp_time r' = rsp_time r \<and>
          (rsp_recv_ecn r' \<longleftrightarrow> rsp_recv_ecn r \<or> k = clove_vp_id (clove_row p) \<and> ce p \<noteq> 0)))"
proof -
  obtain s1 where s1: "clove_take_feedback now p s = Inr s1" "cv_inv N s1" "cv_ca_map s1 = cv_ca_map s"
    "\<forall>k. om_get k (cv_vp_map s1) = map_option (\<lambda>vp.
       if clove_response_en (clove_row p) \<and> clove_vp_rid (clove_row p) = k
       then vp\<lparr>cv_ca_row := clove_feedback now p (cv_ca_row vp)\<rparr> else vp) (om_get k (cv_vp_map s))"
    using clove_take_feedback_ok[OF inv] by blast
  define p1 where "p1 = (if ecnecho p \<noteq> 0 then snd (clove_ecn_truncate p s1) else p)"
  define s2 where "s2 = (if ecnecho p1 \<noteq> 0 then s1\<lparr>cv_ece_cnt := cv_ece_cnt s1 + 1\<rparr> else s1)"
  define s3 where "s3 = clove_note_mark now p1 s2"
  have run: "clove_recv now p s = Inr (0, p1, s3)"
    by (simp add: clove_recv_def s1(1) Let_def p1_def s2_def s3_def)
  have i2: "cv_inv N s2" and m2: "cv_ca_map s2 = cv_ca_map s" "cv_vp_map s2 = cv_vp_map s1"
    using s1(2,3) by (simp_all add: s2_def cv_inv_def)
  have p1: "clove_row p1 = clove_row p" "ce p1 = ce p"
    by (simp_all add: p1_def clove_ecn_truncate_packet[OF s1(2)])
  have vp3: "cv_vp_map s3 = cv_vp_map s1" using clove_note_mark_ok(2)[OF i2 refl] m2 by (simp add: s3_def)
  have pkt: "p1 = (if ecnecho p \<noteq> 0 \<and> list_ex (\<lambda>(k, vp). weight (cv_ca_row vp) = CLOVE_WI) (cv_vp_map s3)
          then p\<lparr>ecnecho := 0\<rparr> else p)"
    by (simp add: p1_def vp3 clove_ecn_truncate_packet[OF s1(2)])
  have "\<exists>r'. om_get k (cv_ca_map s3) = Some r' \<and> rsp_time r' = rsp_time r \<and>
          (rsp_recv_ecn r' \<longleftrightarrow> rsp_recv_ecn r \<or> k = clove_vp_id (clove_row p) \<and> ce p \<noteq> 0)"
    if "om_get k (cv_ca_map s) = Some r" for k r
    using clove_note_mark_ok(3)[OF i2 refl, of k r now p1] that m2 p1 by (simp add: s3_def)
  moreover have "cv_inv N s3" using clove_note_mark_ok(1)[OF i2 refl] by (simp add: s3_def)
  ultimately show ?thesis using run pkt s1(4) vp3
    by (intro exI[of _ p1] exI[of _ s3]) simp
qed

text \<open>What \<^verbatim>\<open>send\<close> does: the path it takes, the weights after it and the response it
  reports.\<close>

lemma clove_send_ok:
  assumes inv: "cv_inv N s"
  shows "\<exists>k vp rid recn ren s'. clove_send now p s = Inr (0, p\<lparr>ecmpHashKey := k,
      clove_row := (clove_row p)\<lparr>clove_vp_id := k, clove_record_en := True, clove_vp_rid := rid,
        clove_vp_recn := recn, clove_response_en := ren\<rparr>\<rparr>, s') \<and> cv_inv N s' \<and>
    om_get k (cv_vp_map s) = Some vp \<and>
    (\<forall>j v. om_get j (cv_vp_map s) = Some v \<longrightarrow> cv_due now v < cv_due now vp + 2 \<and>
       (\<exists>v'. om_get j (cv_vp_map s') = Some v' \<and> weight (cv_ca_row v') = aged_weight now v \<and>
         cv_send_cnt (cv_ca_row v') = cv_send_cnt (cv_ca_row v) + (if j = k then 1 else 0))) \<and>
    (if ren then \<exists>r. om_get rid (cv_ca_map s) = Some r \<and> fresh_response now r \<and> recn = rsp_recv_ecn r \<and>
         om_get rid (cv_ca_map s') = Some (r\<lparr>rsp_recv_ecn := False\<rparr>)
     else \<not> recn \<and> (\<forall>j r. om_get j (cv_ca_map s) = Some r \<longrightarrow> \<not> fresh_response now r))"
proof -
  obtain k vp m where n: "clove_vp_next now s = Inr (k, s\<lparr>cv_vp_map := m\<rparr>)" "cv_paths_inv N m"
    "om_get k (cv_vp_map s) = Some vp"
    "\<forall>j v. om_get j (cv_vp_map s) = Some v \<longrightarrow> cv_due now v < cv_due now vp + 2"
    "\<forall>j v. om_get j (cv_vp_map s) = Some v \<longrightarrow>
       (\<exists>c. om_get j m = Some (v\<lparr>cv_ca_row := (clove_age now (cv_ca_row v))\<lparr>current_weight := c\<rparr>\<rparr>))"
    using clove_vp_next_ok[OF inv] by blast
  let ?f = "\<lambda>ca. ca\<lparr>cv_send_cnt := cv_send_cnt ca + 1\<rparr>"
  define s2 where "s2 = clove_upd_vp k ?f (s\<lparr>cv_vp_map := m\<rparr>)"
  have i1: "cv_inv N (s\<lparr>cv_vp_map := m\<rparr>)" using inv n(2) by (simp add: cv_inv_def)
  have i2: "cv_inv N s2" unfolding s2_def using i1 by (rule clove_upd_vp_inv) simp_all
  have ca2: "cv_ca_map s2 = cv_ca_map s" by (simp add: s2_def)
  obtain c where vpk: "om_get k m = Some (vp\<lparr>cv_ca_row := (clove_age now (cv_ca_row vp))\<lparr>current_weight := c\<rparr>\<rparr>)"
    using n(3,5) by blast
  have hk: "cv_hashkey vp = k" using cv_paths_get(1)[of N "cv_vp_map s"] inv n(3) by (simp add: cv_inv_def)
  have paths: "\<exists>v'. om_get j (cv_vp_map s2) = Some v' \<and> weight (cv_ca_row v') = aged_weight now v \<and>
         cv_send_cnt (cv_ca_row v') = cv_send_cnt (cv_ca_row v) + (if j = k then 1 else 0)"
    if v: "om_get j (cv_vp_map s) = Some v" for j v
  proof -
    obtain c where "om_get j m = Some (v\<lparr>cv_ca_row := (clove_age now (cv_ca_row v))\<lparr>current_weight := c\<rparr>\<rparr>)"
      using n(5) v by blast
    then show ?thesis by (simp add: s2_def clove_upd_vp_get aged_weight_def clove_age_def)
  qed
  obtain t m3 q3 where nx: "clove_ca_next now s2 = (t, s2\<lparr>cv_ca_map := m3, cv_ca_queue := q3\<rparr>)" "ring_inv m3 q3"
    "\<forall>k. t = Some k \<longrightarrow> (\<exists>r. om_get k m3 = Some r \<and> fresh_response now r \<and> rsp_hashkey r = k)"
    "\<forall>j r. om_get j m3 = Some r \<longrightarrow> om_get j (cv_ca_map s) = Some r"
    "\<forall>j r. om_get j (cv_ca_map s) = Some r \<longrightarrow> fresh_response now r \<longrightarrow> om_get j m3 = Some r \<and> t \<noteq> None"
    using clove_ca_next_ok[OF i2, of now] unfolding ca2 by blast
  define s3 where "s3 = s2\<lparr>cv_ca_map := m3, cv_ca_queue := q3\<rparr>"
  have i3: "cv_inv N s3" using i2 nx(2) by (simp add: s3_def cv_inv_def)
  have vp3: "cv_vp_map s3 = cv_vp_map s2" by (simp add: s3_def)
  have paths3: "\<forall>j v. om_get j (cv_vp_map s) = Some v \<longrightarrow> cv_due now v < cv_due now vp + 2 \<and>
       (\<exists>v'. om_get j (cv_vp_map s3) = Some v' \<and> weight (cv_ca_row v') = aged_weight now v \<and>
         cv_send_cnt (cv_ca_row v') = cv_send_cnt (cv_ca_row v) + (if j = k then 1 else 0))"
    using n(4) paths unfolding vp3 by blast
  show ?thesis
  proof (cases t)
    case None
    have "clove_send now p s = Inr (0, p\<lparr>ecmpHashKey := k, clove_row := (clove_row p)\<lparr>clove_vp_id := k,
        clove_record_en := True, clove_vp_rid := 0, clove_vp_recn := False, clove_response_en := False\<rparr>\<rparr>, s3)"
      using n(1) vpk nx(1) None hk by (simp add: clove_send_def clove_vp_get_def s2_def[symmetric] s3_def)
    moreover have "\<forall>j r. om_get j (cv_ca_map s) = Some r \<longrightarrow> \<not> fresh_response now r" using nx(5) None by blast
    ultimately show ?thesis using i3 n(3) paths3
      by (intro exI[of _ k] exI[of _ vp] exI[of _ 0] exI[of _ False] exI[of _ False] exI[of _ s3]) simp
  next
    case (Some j)
    then obtain r where r: "om_get j m3 = Some r" "fresh_response now r" "rsp_hashkey r = j" using nx(3) by blast
    define s4 where "s4 = clove_upd_ca j (\<lambda>r. r\<lparr>rsp_recv_ecn := False\<rparr>) s3"
    have run: "clove_send now p s = Inr (0, p\<lparr>ecmpHashKey := k, clove_row := (clove_row p)\<lparr>clove_vp_id := k,
        clove_record_en := True, clove_vp_rid := j, clove_vp_recn := rsp_recv_ecn r, clove_response_en := True\<rparr>\<rparr>, s4)"
      using n(1) vpk nx(1) Some r hk
      by (simp add: clove_send_def clove_vp_get_def clove_ca_get_def s2_def[symmetric] s3_def s4_def)
    have i4: "cv_inv N s4" unfolding s4_def using clove_upd_ca_inv[OF i3] by simp
    have vp4: "cv_vp_map s4 = cv_vp_map s3" by (simp add: s4_def)
    have "om_get j (cv_ca_map s4) = Some (r\<lparr>rsp_recv_ecn := False\<rparr>)"
      using r(1) by (simp add: s4_def clove_upd_ca_get s3_def)
    moreover have "om_get j (cv_ca_map s) = Some r" using nx(4) r(1) by blast
    ultimately have rep: "if True then \<exists>r'. om_get j (cv_ca_map s) = Some r' \<and> fresh_response now r' \<and>
        rsp_recv_ecn r = rsp_recv_ecn r' \<and> om_get j (cv_ca_map s4) = Some (r'\<lparr>rsp_recv_ecn := False\<rparr>)
      else \<not> rsp_recv_ecn r \<and> (\<forall>j r. om_get j (cv_ca_map s) = Some r \<longrightarrow> \<not> fresh_response now r)"
      using r(2) by simp
    show ?thesis
      by (rule exI[of _ k], rule exI[of _ vp], rule exI[of _ j], rule exI[of _ "rsp_recv_ecn r"],
          rule exI[of _ True], rule exI[of _ s4], intro conjI run i4 n(3) rep paths3[folded vp4])
  qed
qed

subsection \<open>Reachable processors\<close>

inductive clove_reach :: "int \<Rightarrow> clove_processor \<Rightarrow> bool" for N where
  start: "new_CLOVEProcessor now a b N = Some s \<Longrightarrow> clove_reach N s"
| recv: "clove_reach N s \<Longrightarrow> clove_recv now p s = Inr (ret, p', s') \<Longrightarrow> clove_reach N s'"
| send: "clove_reach N s \<Longrightarrow> clove_send now p s = Inr (ret, p', s') \<Longrightarrow> clove_reach N s'"

lemma clove_reach_inv: "clove_reach N s \<Longrightarrow> 0 < N \<Longrightarrow> N < 2 ^ 31 \<Longrightarrow> cv_inv N s"
proof (induction rule: clove_reach.induct)
  case (start now a b s)
  then show ?case using new_CLOVEProcessor_inv[of N now a b] by auto
next
  case (recv s now p ret p' s')
  then show ?case using clove_recv_ok[of N s now p] by auto
next
  case (send s now p ret p' s')
  then show ?case using clove_send_ok[of N s now p] by auto
qed

interpretation clovn: end_processor new_CLOVEProcessor clove_rx clove_tx cv_inv
proof unfold_locales
  show "\<exists>np. new_CLOVEProcessor now a b N = Some np \<and> cv_inv N np" if "0 < N" "N < 2 ^ 31" for N now a b
    using new_CLOVEProcessor_inv[OF that] by blast
  show "cv_inv N np'" if "cv_inv N np" "clove_rx now p np = Inr (ret, p', np', out)" for N np now p ret p' np' out
    using that clove_recv_ok[OF that(1), of now p] by (auto simp: clove_rx_def)
  show "\<exists>p' np'. clove_tx now p np = Inr (0, p', np', []) \<and> cv_inv N np' \<and>
      p'\<lparr>ecmpHashKey := ecmpHashKey p, clb_row := clb_row p, clove_row := clove_row p,
         hermes_row := hermes_row p\<rparr> = p \<and> uint (ecmpHashKey p') < N"
    if "0 < N" "N < 2 ^ 31" "cv_inv N np" for N np now p
  proof -
    note good = that
    obtain k vp rid recn ren np' where s: "clove_send now p np = Inr (0, p\<lparr>ecmpHashKey := k,
        clove_row := (clove_row p)\<lparr>clove_vp_id := k, clove_record_en := True, clove_vp_rid := rid,
          clove_vp_recn := recn, clove_response_en := ren\<rparr>\<rparr>, np')" "cv_inv N np'"
      and k: "om_get k (cv_vp_map np) = Some vp"
      using clove_send_ok[OF good(3), of now p] by blast
    have "uint k < N"
      using keys_upto_key[of N "cv_vp_map np" k] good k s(2) by (simp add: cv_inv_def cv_paths_inv_def)
    then show ?thesis using s by (simp add: clove_tx_def)
  qed
qed

text \<open>C20: The processor of CLOVE keeps its paths numbered from zero, the current weights
  of the round robin sum to zero, every weight is the full weight reduced by a third
  at most twelve times, and the ring of responses holds each response once.\<close>

theorem clove_invariant:
  assumes "clove_reach N s" and "0 < N" and "N < 2 ^ 31"
  shows "om_keys (cv_vp_map s) = List.map of_nat [0..<nat N] \<and>
    om_sum (\<lambda>vp. current_weight (cv_ca_row vp)) (cv_vp_map s) = 0 \<and>
    (\<forall>(k, vp)\<in>set (cv_vp_map s). cv_hashkey vp = k \<and> (\<exists>n<13. weight (cv_ca_row vp) = 100 * (2 / 3) ^ n)) \<and>
    distinct (cv_ca_queue s) \<and> set (cv_ca_queue s) = set (om_keys (cv_ca_map s))"
proof -
  have inv: "cv_inv N s" using clove_reach_inv[OF assms] .
  then have P: "cv_paths_inv N (cv_vp_map s)" and R: "ring_inv (cv_ca_map s) (cv_ca_queue s)"
    by (simp_all add: cv_inv_def)
  then have "\<forall>(k, vp)\<in>set (cv_vp_map s). cv_hashkey vp = k \<and> (\<exists>n<13. weight (cv_ca_row vp) = 100 * (2 / 3) ^ n)"
    by (auto simp: cv_paths_inv_def weight_ok_def CLOVE_WI_def)
  then show ?thesis using P R by (simp add: cv_paths_inv_def keys_upto_def ring_inv_def)
qed

text \<open>Sending with CLOVE always succeeds.  The packet takes a path whose current
  weight is, up to the rounding of the running maximum to an integer (less than 2 of
  the weights' 100), the largest; a weight that has not been reduced for 200 round
  trips is full again; only the taken path's counter grows.  The packet reports one
  response that is at most half a second old, whose mark is cleared, and reports
  none only when there is no such response.\<close>

theorem clove_send_effect:
  assumes "clove_reach N s" and "0 < N" and "N < 2 ^ 31"
  shows "\<exists>k vp rid recn ren s'. clove_send now p s = Inr (0, p\<lparr>ecmpHashKey := k,
      clove_row := (clove_row p)\<lparr>clove_vp_id := k, clove_record_en := True, clove_vp_rid := rid,
        clove_vp_recn := recn, clove_response_en := ren\<rparr>\<rparr>, s') \<and>
    om_get k (cv_vp_map s) = Some vp \<and>
    (\<forall>j v. om_get j (cv_vp_map s) = Some v \<longrightarrow> cv_due now v < cv_due now vp + 2 \<and>
       (\<exists>v'. om_get j (cv_vp_map s') = Some v' \<and>
         weight (cv_ca_row v') = (if now - cv_r_time (cv_ca_row v) > 200 * PRE_RTT then 100 else weight (cv_ca_row v)) \<and>
         cv_send_cnt (cv_ca_row v') = cv_send_cnt (cv_ca_row v) + (if j = k then 1 else 0))) \<and>
    (if ren then \<exists>r. om_get rid (cv_ca_map s) = Some r \<and> now - rsp_time r \<le> 1 / 2 \<and> recn = rsp_recv_ecn r \<and>
         om_get rid (cv_ca_map s') = Some (r\<lparr>rsp_recv_ecn := False\<rparr>)
     else \<not> recn \<and> (\<forall>j r. om_get j (cv_ca_map s) = Some r \<longrightarrow> now - rsp_time r > 1 / 2))"
proof -
  have aged: "aged_weight now v =
      (if now - cv_r_time (cv_ca_row v) > 200 * PRE_RTT then 100 else weight (cv_ca_row v))" for v
    by (simp add: aged_weight_def clove_age_def T_WEIGHT_EXPIRE_def CLOVE_WI_def mult.commute)
  have fresh: "fresh_response now r \<longleftrightarrow> now - rsp_time r \<le> 1 / 2" for r
    by (simp add: fresh_response_def T_VP_EXPIRE_def)
  show ?thesis using clove_send_ok[OF clove_reach_inv[OF assms], of now p]
    unfolding aged fresh not_le by blast
qed

text \<open>Receiving with CLOVE always succeeds.  A reported mark cuts the weight of its
  path by a third unless the weight is at most 1 or was cut within five round trips;
  no other weight changes.  The echo of a mark is hidden from the transport as long as
  some path has its full weight.\<close>

theorem clove_recv_effect:
  assumes "clove_reach N s" and "0 < N" and "N < 2 ^ 31"
  shows "\<exists>p' s'. clove_recv now p s = Inr (0, p', s') \<and>
    (\<forall>k vp. om_get k (cv_vp_map s) = Some vp \<longrightarrow> (\<exists>vp'. om_get k (cv_vp_map s') = Some vp' \<and>
       current_weight (cv_ca_row vp') = current_weight (cv_ca_row vp) \<and>
       weight (cv_ca_row vp') =
         (if clove_response_en (clove_row p) \<and> clove_vp_rid (clove_row p) = k \<and> clove_vp_recn (clove_row p) \<and>
             1 < weight (cv_ca_row vp) \<and> 5 * PRE_RTT < now - cv_r_time (cv_ca_row vp)
          then 2 / 3 * weight (cv_ca_row vp) else weight (cv_ca_row vp)))) \<and>
    p' = (if ecnecho p \<noteq> 0 \<and> list_ex (\<lambda>(k, vp). weight (cv_ca_row vp) = 100) (cv_vp_map s')
          then p\<lparr>ecnecho := 0\<rparr> else p)"
proof -
  obtain p' s' where r: "clove_recv now p s = Inr (0, p', s')"
    "\<forall>k. om_get k (cv_vp_map s') = map_option (\<lambda>vp.
       if clove_response_en (clove_row p) \<and> clove_vp_rid (clove_row p) = k
       then vp\<lparr>cv_ca_row := clove_feedback now p (cv_ca_row vp)\<rparr> else vp) (om_get k (cv_vp_map s))"
    "p' = (if ecnecho p \<noteq> 0 \<and> list_ex (\<lambda>(k, vp). weight (cv_ca_row vp) = CLOVE_WI) (cv_vp_map s')
          then p\<lparr>ecnecho := 0\<rparr> else p)"
    using clove_recv_ok[OF clove_reach_inv[OF assms], of now p] by blast
  have "\<exists>vp'. om_get k (cv_vp_map s') = Some vp' \<and>
       current_weight (cv_ca_row vp') = current_weight (cv_ca_row vp) \<and>
       weight (cv_ca_row vp') =
         (if clove_response_en (clove_row p) \<and> clove_vp_rid (clove_row p) = k \<and> clove_vp_recn (clove_row p) \<and>
             1 < weight (cv_ca_row vp) \<and> 5 * PRE_RTT < now - cv_r_time (cv_ca_row vp)
          then 2 / 3 * weight (cv_ca_row vp) else weight (cv_ca_row vp))"
    if "om_get k (cv_vp_map s) = Some vp" for k vp
    using that r(2) by (simp add: clove_feedback_def Let_def)
  moreover note r(3)[unfolded CLOVE_WI_def]
  ultimately show ?thesis using r(1) by blast
qed

text \<open>No packet renews a response: whatever arrives after it was made, it keeps the
  time it was made at, and half a second later it is reported no more, although
  packets of its path may still be arriving.\<close>

theorem clove_response_lifetime:
  assumes "clove_reach N s" and "0 < N" and "N < 2 ^ 31" and "om_get k (cv_ca_map s) = Some r"
  shows "(\<exists>p' s' r'. clove_recv now p s = Inr (0, p', s') \<and> om_get k (cv_ca_map s') = Some r' \<and>
      rsp_time r' = rsp_time r) \<and>
    (now - rsp_time r > 1 / 2 \<longrightarrow> (\<exists>p' s'. clove_send now p s = Inr (0, p', s') \<and>
      \<not> (clove_response_en (clove_row p') \<and> clove_vp_rid (clove_row p') = k)))"
proof -
  note inv = clove_reach_inv[OF assms(1-3)]
  have "\<exists>p' s' r'. clove_recv now p s = Inr (0, p', s') \<and> om_get k (cv_ca_map s') = Some r' \<and>
      rsp_time r' = rsp_time r" using clove_recv_ok[OF inv, of now p] assms(4) by blast
  moreover have "\<exists>p' s'. clove_send now p s = Inr (0, p', s') \<and>
      \<not> (clove_response_en (clove_row p') \<and> clove_vp_rid (clove_row p') = k)" if late: "now - rsp_time r > 1 / 2"
  proof -
    obtain j rid recn ren s' where s: "clove_send now p s = Inr (0, p\<lparr>ecmpHashKey := j,
        clove_row := (clove_row p)\<lparr>clove_vp_id := j, clove_record_en := True, clove_vp_rid := rid,
          clove_vp_recn := recn, clove_response_en := ren\<rparr>\<rparr>, s')"
      and rep: "ren \<Longrightarrow> \<exists>r. om_get rid (cv_ca_map s) = Some r \<and> fresh_response now r"
      using clove_send_ok[OF inv, of now p] by metis
    have "\<not> (ren \<and> rid = k)" using rep assms(4) late by (auto simp: fresh_response_def T_VP_EXPIRE_def)
    then show ?thesis using s by simp
  qed
  ultimately show ?thesis by blast
qed

end
