(* ===== verification/CloveWitness.thy ===== *)
theory CloveWitness
  imports CloveProperties
begin

text \<open>
  The properties of CLOVE at concrete states: a processor with two paths as the
  constructor makes it, and the same after a marked packet with a report.
\<close>

definition ex_clove_path :: "u32 \<Rightarrow> clove_vp_record" where
  "ex_clove_path k = (clove_init_vp_record 0 CLOVE_INIT_RRATE)\<lparr>cv_hashkey := k\<rparr>"

definition ex_clove :: clove_processor where
  "ex_clove = \<lparr> cv_src = 1, cv_dst = 2, cv_VP_SIZE = 2, cv_hashkey_counter = 2, cv_ece_cnt = 0,
     cv_init_rrate = CLOVE_INIT_RRATE, cv_vp_map = [(0, ex_clove_path 0), (1, ex_clove_path 1)],
     cv_ca_queue = [], cv_ca_map = [], cv_flow_table = [] \<rparr>"

lemma new_ex_clove: "new_CLOVEProcessor 0 1 2 2 = Some ex_clove"
proof -
  let ?b = "ex_clove\<lparr>cv_hashkey_counter := 0, cv_vp_map := []\<rparr>"
  let ?s1 = "ex_clove\<lparr>cv_hashkey_counter := 1, cv_vp_map := [(0, ex_clove_path 0)]\<rparr>"
  have 1: "clove_vp_init 0 ?b = clove_vp_init 0 ?s1"
    by (subst clove_vp_init.simps) (simp add: size_t_of_int_def clove_vp_alloc_def ex_clove_path_def ex_clove_def Let_def)
  have 2: "clove_vp_init 0 ?s1 = clove_vp_init 0 ex_clove"
    by (subst clove_vp_init.simps) (simp add: size_t_of_int_def clove_vp_alloc_def ex_clove_path_def ex_clove_def Let_def)
  have 3: "clove_vp_init 0 ex_clove = Some ex_clove"
    by (subst clove_vp_init.simps) (simp add: size_t_of_int_def ex_clove_def)
  have b: "?b = \<lparr> cv_src = 1, cv_dst = 2, cv_VP_SIZE = 2, cv_hashkey_counter = 0, cv_ece_cnt = 0,
     cv_init_rrate = CLOVE_INIT_RRATE, cv_vp_map = om_empty, cv_ca_queue = [], cv_ca_map = om_empty,
     cv_flow_table = [] \<rparr>" by (simp add: ex_clove_def om_empty_def)
  show ?thesis unfolding new_CLOVEProcessor_def b[symmetric] by (simp only: 1 2 3)
qed

lemma ex_clove_reach: "clove_reach 2 ex_clove"
  by (rule clove_reach.start[OF new_ex_clove])

text \<open>A marked packet on path 5 reports a mark on path 0 after one second.\<close>

definition ex_clove_report :: packet where
  "ex_clove_report = Packet_alloc\<lparr>ce := 1, ecnecho := 1, clove_row := CLOVERow_zero\<lparr>clove_vp_id := 5,
     clove_response_en := True, clove_vp_rid := 0, clove_vp_recn := True\<rparr>\<rparr>"

definition ex_clove_response :: ca_response where
  "ex_clove_response = (init_ca_response 1)\<lparr>rsp_hashkey := 5, rsp_recv_ecn_cnt := 1, rsp_recv_ecn := True\<rparr>"

definition ex_clove_reduced :: clove_vp_record where
  "ex_clove_reduced = (ex_clove_path 0)\<lparr>cv_ca_row := (cv_ca_row (ex_clove_path 0))\<lparr>weight := 200 / 3,
     cv_r_time := 1, cv_recv_ece_cnt := 1\<rparr>\<rparr>"

definition ex_clove1 :: clove_processor where
  "ex_clove1 = ex_clove\<lparr>cv_vp_map := [(0, ex_clove_reduced), (1, ex_clove_path 1)],
     cv_ca_queue := [5], cv_ca_map := [(5, ex_clove_response)]\<rparr>"

lemma ex_clove_recv: "clove_recv 1 ex_clove_report ex_clove = Inr (0, ex_clove_report\<lparr>ecnecho := 0\<rparr>, ex_clove1)"
  by (simp add: clove_recv_def clove_take_feedback_def clove_note_mark_def clove_ecn_truncate_def Let_def
      ex_clove_report_def ex_clove_def ex_clove1_def ex_clove_reduced_def ex_clove_response_def ex_clove_path_def
      clove_init_vp_record_def clove_init_ca_record_def clove_vp_get_def clove_ca_get_def clove_upd_vp_def
      clove_upd_ca_def clove_feedback_def clove_ca_alloc_def om_get_Cons CLOVE_WI_def PRE_RTT_def CLOVERow_zero_def
      init_ca_response_def)

lemma ex_clove1_reach: "clove_reach 2 ex_clove1"
  by (rule clove_reach.recv[OF ex_clove_reach ex_clove_recv])

lemma clove_invariant_witness:
  "om_keys (cv_vp_map ex_clove1) = [0, 1] \<and> om_sum (\<lambda>vp. current_weight (cv_ca_row vp)) (cv_vp_map ex_clove1) = 0"
  using clove_invariant[OF ex_clove1_reach] by (simp add: upt_rec)

lemma clove_send_effect_witness:
  "\<exists>k rid recn ren s'. clove_send 2 ex_clove_report ex_clove1 = Inr (0, ex_clove_report\<lparr>ecmpHashKey := k,
      clove_row := (clove_row ex_clove_report)\<lparr>clove_vp_id := k, clove_record_en := True, clove_vp_rid := rid,
        clove_vp_recn := recn, clove_response_en := ren\<rparr>\<rparr>, s') \<and>
    (\<exists>v'. om_get 0 (cv_vp_map s') = Some v' \<and> weight (cv_ca_row v') = 100)"
proof -
  have v: "om_get 0 (cv_vp_map ex_clove1) = Some ex_clove_reduced" "cv_r_time (cv_ca_row ex_clove_reduced) = 1"
    by (simp_all add: ex_clove1_def om_get_Cons ex_clove_reduced_def)
  show ?thesis
    using clove_send_effect[OF ex_clove1_reach, of 2 ex_clove_report] v by (fastforce simp: PRE_RTT_def)
qed

lemma clove_recv_effect_witness:
  "\<exists>p' s' vp'. clove_recv 1 ex_clove_report ex_clove = Inr (0, p', s') \<and> om_get 0 (cv_vp_map s') = Some vp' \<and>
    weight (cv_ca_row vp') = 200 / 3"
proof -
  have v: "om_get 0 (cv_vp_map ex_clove) = Some (ex_clove_path 0)"
    "cv_r_time (cv_ca_row (ex_clove_path 0)) = 0" "weight (cv_ca_row (ex_clove_path 0)) = 100"
    by (simp_all add: ex_clove_def om_get_Cons ex_clove_path_def clove_init_vp_record_def
        clove_init_ca_record_def CLOVE_WI_def)
  have p: "clove_response_en (clove_row ex_clove_report)" "clove_vp_rid (clove_row ex_clove_report) = 0"
    "clove_vp_recn (clove_row ex_clove_report)"
    by (simp_all add: ex_clove_report_def)
  show ?thesis
    using clove_recv_effect[OF ex_clove_reach, of 1 ex_clove_report] v p by (fastforce simp: PRE_RTT_def)
qed

lemma clove_response_lifetime_witness:
  "\<exists>p' s'. clove_send 2 ex_clove_report ex_clove1 = Inr (0, p', s') \<and>
      \<not> (clove_response_en (clove_row p') \<and> clove_vp_rid (clove_row p') = 5)"
  using clove_response_lifetime[OF ex_clove1_reach, of 5 ex_clove_response 2 ex_clove_report]
  by (simp add: ex_clove1_def om_get_Cons ex_clove_response_def init_ca_response_def)

end
