(* ===== verification/Hermes.thy ===== *)
theory Hermes
  imports PathKeys NodeTable
begin

text \<open>
  Hermes (\<^verbatim>\<open>clb/hermes.cc\<close>, \<^verbatim>\<open>clb/hermes-processor.h\<close>, \<^verbatim>\<open>clb/hermes-processor.cc\<close>): the
  receiver measures the delay and the share of marked packets of a path, the sender
  ranks its paths by the reports, and a flow stays on its path unless that path is
  congested and another one is clearly better.  The fields of the class that only
  debug code or commented out code uses are left out.
\<close>

definition ECN_PCNT :: nat where "ECN_PCNT = 25"
definition TH_ECN :: rat where "TH_ECN = 4 / 10"
definition TH_RTT_HIGH :: rat where "TH_RTT_HIGH = 15 / 100000"
definition TH_RTT_LOW :: rat where "TH_RTT_LOW = 1 / 10000"
definition TH_BIAS :: rat where "TH_BIAS = 5 / 100000"
definition HERMES_REFRESH :: rat where "HERMES_REFRESH = 3 / 1000"
definition T_ECN_EXPIRE :: rat where "T_ECN_EXPIRE = 25 * PRE_RTT"
definition T_RTT_EXPIRE :: rat where "T_RTT_EXPIRE = 10 * PRE_RTT"
definition HERMES_WI :: rat where "HERMES_WI = 100"
definition HERMES_INIT_RRATE :: rat where "HERMES_INIT_RRATE = 3333333"
definition R_LIMIT :: rat where "R_LIMIT = 3 / 4 * HERMES_INIT_RRATE"
definition DELTA_RTT :: rat where "DELTA_RTT = 2 / 100000"
definition DELTA_ECN :: rat where "DELTA_ECN = 5 / 100"

datatype ptype = FAILED | CONGESTED | GREY | GOOD

text \<open>The numbers of the constants order the ranks.\<close>

fun ptype_code :: "ptype \<Rightarrow> nat" where
  "ptype_code FAILED = 0"
| "ptype_code CONGESTED = 1"
| "ptype_code GREY = 2"
| "ptype_code GOOD = 3"

lemma ptype_code_inject: "ptype_code a = ptype_code b \<longleftrightarrow> a = b"
  by (cases a; cases b) simp_all

instantiation ptype :: linorder
begin

definition less_eq_ptype :: "ptype \<Rightarrow> ptype \<Rightarrow> bool" where
  "less_eq_ptype a b \<longleftrightarrow> ptype_code a \<le> ptype_code b"

definition less_ptype :: "ptype \<Rightarrow> ptype \<Rightarrow> bool" where
  "less_ptype a b \<longleftrightarrow> ptype_code a < ptype_code b"

instance
  by standard (auto simp: less_eq_ptype_def less_ptype_def ptype_code_inject)

end

record hermes_ca_record =
  hm_send_cnt :: u32
  hm_recv_cnt :: u32
  hm_send_undefined :: u32
  hm_recv_undefined :: int
  hm_flying :: rat
  hm_rate :: rat
  hm_r_rate :: int
  hm_weight :: rat
  hm_current_weight :: rat
  hm_fresh_time :: rat
  hm_update_time :: rat
  hm_r_time :: rat
  c_rtt :: rat
  rank :: ptype
  vp_ecn_ratio :: rat
  hm_recv_ece_cnt :: u32
  hm_valid :: int
  hm_pending :: int

record hermes_vp_record =
  hm_hashkey :: u32
  hm_ca_row :: hermes_ca_record

text \<open>\<^verbatim>\<open>struct ca_response\<close> has the fields of the response of CLB and four more.\<close>

record hermes_response = ca_response +
  recv_rtt :: rat
  ecn_bitmap :: "bool list"
  ecn_time :: rat
  rtt_time :: rat

record hermes_processor =
  hm_src :: int
  hm_dst :: int
  hm_VP_SIZE :: int
  hm_hashkey_counter :: u32
  hm_ece_cnt :: u32
  hm_init_rrate :: rat
  hm_vp_map :: "(u32, hermes_vp_record) omap"
  hm_ca_queue :: "u32 list"
  hm_ca_map :: "(u32, hermes_response) omap"
  flow_table :: "(u32, u32) omap"

definition hermes_init_ca_record :: "rat \<Rightarrow> rat \<Rightarrow> hermes_ca_record" where
  "hermes_init_ca_record now irr = \<lparr> hm_send_cnt = 0, hm_recv_cnt = 0, hm_send_undefined = 0,
     hm_recv_undefined = 0, hm_flying = 0, hm_rate = 1, hm_r_rate = int_of_double irr,
     hm_weight = HERMES_WI, hm_current_weight = 0, hm_fresh_time = now, hm_update_time = now,
     hm_r_time = now, c_rtt = 0, rank = GOOD, vp_ecn_ratio = 0, hm_recv_ece_cnt = 0,
     hm_valid = 1, hm_pending = 0 \<rparr>"

definition hermes_init_vp_record :: "rat \<Rightarrow> rat \<Rightarrow> hermes_vp_record" where
  "hermes_init_vp_record now irr = \<lparr> hm_hashkey = 0, hm_ca_row = hermes_init_ca_record now irr \<rparr>"

definition hermes_init_ca_response :: "rat \<Rightarrow> hermes_response" where
  "hermes_init_ca_response now = \<lparr> rsp_hashkey = 0, rsp_recv_cnt = 0, rsp_recv_ecn = False,
     rsp_recv_ecn_cnt = 0, rsp_burst_pending = 0, rsp_burst_cnt = 0, rsp_burst_time = now,
     rsp_time = now, recv_rtt = 0, ecn_bitmap = [], ecn_time = now, rtt_time = now \<rparr>"

definition hermes_upd_vp ::
    "u32 \<Rightarrow> (hermes_ca_record \<Rightarrow> hermes_ca_record) \<Rightarrow> hermes_processor \<Rightarrow> hermes_processor" where
  "hermes_upd_vp k f s = (case om_get k (hm_vp_map s) of None \<Rightarrow> s
     | Some vp \<Rightarrow> s\<lparr>hm_vp_map := om_put k (vp\<lparr>hm_ca_row := f (hm_ca_row vp)\<rparr>) (hm_vp_map s)\<rparr>)"

definition hermes_upd_ca ::
    "u32 \<Rightarrow> (hermes_response \<Rightarrow> hermes_response) \<Rightarrow> hermes_processor \<Rightarrow> hermes_processor" where
  "hermes_upd_ca k f s = (case om_get k (hm_ca_map s) of None \<Rightarrow> s
     | Some ca \<Rightarrow> s\<lparr>hm_ca_map := om_put k (f ca) (hm_ca_map s)\<rparr>)"

subsection \<open>Paths\<close>

definition hermes_vp_alloc :: "rat \<Rightarrow> hermes_processor \<Rightarrow> u32 \<times> hermes_processor" where
  "hermes_vp_alloc now s =
    (let k = hm_hashkey_counter s;
         vp = (hermes_init_vp_record now (hm_init_rrate s))\<lparr>hm_hashkey := k\<rparr>
     in (k, s\<lparr>hm_hashkey_counter := k + 1, hm_vp_map := om_put k vp (hm_vp_map s)\<rparr>))"

definition hermes_vp_free :: "u32 \<Rightarrow> hermes_processor \<Rightarrow> hermes_processor" where
  "hermes_vp_free k s = (if om_get k (hm_vp_map s) = None then s else s\<lparr>hm_vp_map := om_del k (hm_vp_map s)\<rparr>)"

partial_function (option) hermes_vp_init :: "rat \<Rightarrow> hermes_processor \<Rightarrow> hermes_processor option" where
  "hermes_vp_init now s =
    (if length (hm_vp_map s) < size_t_of_int (hm_VP_SIZE s)
     then hermes_vp_init now (snd (hermes_vp_alloc now s)) else Some s)"

definition hermes_vp_get :: "u32 \<Rightarrow> hermes_processor \<Rightarrow> hermes_vp_record option" where
  "hermes_vp_get k s = om_get k (hm_vp_map s)"

text \<open>\<^verbatim>\<open>vp_next\<close> collects the paths by rank and scans the best non-empty class for the
  path with the fewest packets since the last refresh; \<^verbatim>\<open>r\<close> is the value of \<^verbatim>\<open>rand()\<close>,
  used when every path has failed.\<close>

definition of_rank :: "ptype \<Rightarrow> (u32, hermes_vp_record) omap \<Rightarrow> (u32 \<times> hermes_vp_record) list" where
  "of_rank rk m = filter (\<lambda>(k, vp). rank (hm_ca_row vp) = rk) m"

fun least_sent :: "(u32 \<times> hermes_vp_record) list \<Rightarrow> u32 \<times> hermes_vp_record \<Rightarrow> u32 \<times> hermes_vp_record" where
  "least_sent [] vp = vp"
| "least_sent (e # m) vp =
    least_sent m (if hm_send_undefined (hm_ca_row (snd e)) < hm_send_undefined (hm_ca_row (snd vp)) then e else vp)"

definition hermes_vp_next :: "nat \<Rightarrow> hermes_processor \<Rightarrow> u32 result" where
  "hermes_vp_next r s =
    (let good = of_rank GOOD (hm_vp_map s); grey = of_rank GREY (hm_vp_map s);
         cong = of_rank CONGESTED (hm_vp_map s)
     in if good \<noteq> [] then Inr (fst (least_sent good (hd good)))
        else if grey \<noteq> [] then Inr (fst (least_sent grey (hd grey)))
        else if cong \<noteq> [] then Inr (fst (least_sent cong (hd cong)))
        else if hm_vp_map s = [] then Inl DivByZero
        else Inr (fst (hm_vp_map s ! (r mod length (hm_vp_map s)))))"

subsection \<open>Responses\<close>

definition hermes_ca_alloc :: "rat \<Rightarrow> u32 \<Rightarrow> hermes_processor \<Rightarrow> hermes_processor" where
  "hermes_ca_alloc now k s =
    s\<lparr>hm_ca_map := om_put k ((hermes_init_ca_response now)\<lparr>rsp_hashkey := k\<rparr>) (hm_ca_map s),
      hm_ca_queue := hm_ca_queue s @ [k]\<rparr>"

definition hermes_ca_free :: "u32 \<Rightarrow> hermes_processor \<Rightarrow> hermes_processor" where
  "hermes_ca_free k s = (if om_get k (hm_ca_map s) = None then s else s\<lparr>hm_ca_map := om_del k (hm_ca_map s)\<rparr>)"

definition hermes_ca_next :: "rat \<Rightarrow> hermes_processor \<Rightarrow> u32 option \<times> hermes_processor" where
  "hermes_ca_next now s = (case ring_next now (hm_ca_map s) (hm_ca_queue s) of
     (t, m, q) \<Rightarrow> (t, s\<lparr>hm_ca_map := m, hm_ca_queue := q\<rparr>))"

definition hermes_ca_get :: "u32 \<Rightarrow> hermes_processor \<Rightarrow> hermes_response option" where
  "hermes_ca_get k s = om_get k (hm_ca_map s)"

text \<open>\<^verbatim>\<open>while (ecn_bitmap.size() > ECN_PCNT) erase(begin())\<close> after a \<^verbatim>\<open>push_back\<close>.\<close>

fun trim_bitmap :: "bool list \<Rightarrow> bool list" where
  "trim_bitmap [] = []"
| "trim_bitmap (b # bs) = (if length (b # bs) > ECN_PCNT then trim_bitmap bs else b # bs)"

definition push_mark :: "bool \<Rightarrow> bool list \<Rightarrow> bool list" where
  "push_mark b bs = trim_bitmap (bs @ [b])"

definition count_marks :: "bool list \<Rightarrow> nat" where
  "count_marks bs = length (filter (\<lambda>b. b) bs)"

subsection \<open>Packets\<close>

definition hermes_ecn_truncate :: "packet \<Rightarrow> hermes_processor \<Rightarrow> bool \<times> packet" where
  "hermes_ecn_truncate p s =
    (if list_ex (\<lambda>(k, vp). \<bar>hm_weight (hm_ca_row vp) - HERMES_WI\<bar> < 1) (hm_vp_map s)
     then (True, p\<lparr>ecnecho := 0\<rparr>) else (False, p))"

definition classify_rank :: "rat \<Rightarrow> rat \<Rightarrow> ptype" where
  "classify_rank ratio rtt =
    (if ratio < TH_ECN \<and> rtt < TH_RTT_LOW then GOOD
     else if ratio > TH_ECN \<and> rtt > TH_RTT_HIGH then CONGESTED else GREY)"

definition hermes_feedback :: "packet \<Rightarrow> hermes_ca_record \<Rightarrow> hermes_ca_record" where
  "hermes_feedback p ca =
    (let row = hermes_row p;
         ca1 = (if hermes_vp_recn row then ca\<lparr>hm_recv_ece_cnt := hm_recv_ece_cnt ca + 1\<rparr> else ca)
     in ca1\<lparr>c_rtt := hermes_vp_rtt row, vp_ecn_ratio := hermes_ecn_ratio row,
            rank := classify_rank (hermes_ecn_ratio row) (hermes_vp_rtt row)\<rparr>)"

definition hermes_take_feedback :: "packet \<Rightarrow> hermes_processor \<Rightarrow> hermes_processor result" where
  "hermes_take_feedback p s =
    (if hermes_response_en (hermes_row p) then
       (case hermes_vp_get (hermes_vp_rid (hermes_row p)) s of
          None \<Rightarrow> Inr s
        | Some vp \<Rightarrow> if hm_hashkey vp \<noteq> hermes_vp_rid (hermes_row p) then Inl AssertFail
            else Inr (hermes_upd_vp (hermes_vp_rid (hermes_row p)) (hermes_feedback p) s))
     else Inr s)"

text \<open>The receiver's part of \<^verbatim>\<open>recv\<close>; \<^verbatim>\<open>u\<close> is the value of \<^verbatim>\<open>(double) rand() / RAND_MAX\<close>.\<close>

definition hermes_note :: "rat \<Rightarrow> rat \<Rightarrow> packet \<Rightarrow> hermes_response \<Rightarrow> hermes_response" where
  "hermes_note u now p r =
    (let marked = (ce p \<noteq> 0);
         r1 = r\<lparr>recv_rtt := now - hermes_vp_time (hermes_row p) + u * TH_BIAS, rtt_time := now,
                ecn_bitmap := push_mark marked (ecn_bitmap r), ecn_time := now\<rparr>
     in if marked then r1\<lparr>rsp_recv_ecn_cnt := rsp_recv_ecn_cnt r1 + 1, rsp_recv_ecn := True\<rparr> else r1)"

definition hermes_recv :: "rat \<Rightarrow> rat \<Rightarrow> packet \<Rightarrow> hermes_processor \<Rightarrow> (int \<times> hermes_processor) result" where
  "hermes_recv u now p s =
    bind_r (hermes_take_feedback p s) (\<lambda>s1.
      let s2 = (if ecnecho p \<noteq> 0 then s1\<lparr>hm_ece_cnt := hm_ece_cnt s1 + 1\<rparr> else s1);
          k = hermes_vp_id (hermes_row p);
          s3 = (if hermes_ca_get k s2 = None then hermes_ca_alloc now k s2 else s2)
      in Inr (0, hermes_upd_ca k (hermes_note u now p) s3))"

text \<open>The choice of the path for a flow: a new flow takes the next path; a known one
  keeps its path unless it is congested, slow and the next path is better in both
  measures.  The result is the key of the path.\<close>

definition hermes_route :: "nat \<Rightarrow> u32 \<Rightarrow> hermes_processor \<Rightarrow> u32 result" where
  "hermes_route r fl s =
    (case om_get fl (flow_table s) of
       None \<Rightarrow> hermes_vp_next r s
     | Some k \<Rightarrow>
       (case hermes_vp_get k s of
          None \<Rightarrow> Inl NullDeref
        | Some vp \<Rightarrow>
          if rank (hm_ca_row vp) = CONGESTED \<and> hm_rate (hm_ca_row vp) < R_LIMIT
          then bind_r (hermes_vp_next r s) (\<lambda>k'.
            case hermes_vp_get k' s of
              None \<Rightarrow> Inl NullDeref
            | Some vp' \<Rightarrow>
              Inr (if c_rtt (hm_ca_row vp) - c_rtt (hm_ca_row vp') > DELTA_RTT \<and>
                      vp_ecn_ratio (hm_ca_row vp) - vp_ecn_ratio (hm_ca_row vp') > DELTA_ECN
                   then k' else k))
          else Inr k))"

text \<open>The response as it is reported: a delay that is too old is reset, an old bitmap
  gets an unmarked entry.\<close>

definition hermes_age_response :: "rat \<Rightarrow> hermes_response \<Rightarrow> hermes_response" where
  "hermes_age_response now ca =
    (let ca1 = ca\<lparr>rsp_recv_ecn := False\<rparr>;
         ca2 = (if now - rtt_time ca1 > T_RTT_EXPIRE then ca1\<lparr>recv_rtt := 0, rtt_time := now\<rparr> else ca1)
     in if now - ecn_time ca2 > T_ECN_EXPIRE then ca2\<lparr>ecn_bitmap := push_mark False (ecn_bitmap ca2)\<rparr> else ca2)"

definition hermes_send :: "nat \<Rightarrow> rat \<Rightarrow> packet \<Rightarrow> hermes_processor \<Rightarrow> (int \<times> packet \<times> hermes_processor) result" where
  "hermes_send r now p s =
    (let fl = of_int (flowID p) in
     bind_r (hermes_route r fl s) (\<lambda>k.
      case hermes_vp_get k s of None \<Rightarrow> Inl NullDeref
      | Some vp \<Rightarrow>
        let s1 = s\<lparr>flow_table := om_put fl (hm_hashkey vp) (flow_table s)\<rparr>;
            s2 = hermes_upd_vp k (\<lambda>ca. ca\<lparr>hm_send_cnt := hm_send_cnt ca + 1,
                   hm_send_undefined := hm_send_undefined ca + 1\<rparr>) s1;
            (t, s3) = hermes_ca_next now s2;
            stamp = (\<lambda>rid recn rtt ratio ren. p\<lparr>ecmpHashKey := hm_hashkey vp,
              hermes_row := (hermes_row p)\<lparr>hermes_vp_id := hm_hashkey vp, hermes_vp_time := now,
                hermes_record_en := True, hermes_vp_rid := rid, hermes_vp_recn := recn,
                hermes_vp_rtt := rtt, hermes_ecn_ratio := ratio, hermes_response_en := ren\<rparr>\<rparr>)
        in (case t of
              None \<Rightarrow> Inr (0, stamp 0 False 0 0 False, s3)
            | Some j \<Rightarrow> (case hermes_ca_get j s3 of
                None \<Rightarrow> Inl NullDeref
              | Some ca \<Rightarrow>
                let ca' = hermes_age_response now ca
                in if ecn_bitmap ca' = [] then Inl DivByZero
                   else Inr (0, stamp (rsp_hashkey ca) (rsp_recv_ecn ca) (recv_rtt ca')
                          (of_nat (count_marks (ecn_bitmap ca')) / of_nat (length (ecn_bitmap ca'))) True,
                        hermes_upd_ca j (\<lambda>_. ca') s3)))))"

text \<open>The refresh timer; the result is the delay until it expires again.\<close>

definition hermes_expire :: "hermes_processor \<Rightarrow> hermes_processor \<times> rat" where
  "hermes_expire s =
    (s\<lparr>hm_vp_map := om_map (\<lambda>vp. vp\<lparr>hm_ca_row := (hm_ca_row vp)\<lparr>
         hm_rate := of_int (uint (hm_send_undefined (hm_ca_row vp))) / HERMES_REFRESH, hm_send_undefined := 0\<rparr>\<rparr>)
         (hm_vp_map s)\<rparr>, HERMES_REFRESH)"

definition new_HermesProcessor :: "rat \<Rightarrow> int \<Rightarrow> int \<Rightarrow> int \<Rightarrow> hermes_processor option" where
  "new_HermesProcessor now src0 dst0 sz =
    hermes_vp_init now \<lparr> hm_src = src0, hm_dst = dst0, hm_VP_SIZE = sz, hm_hashkey_counter = 0,
      hm_ece_cnt = 0, hm_init_rrate = HERMES_INIT_RRATE, hm_vp_map = om_empty, hm_ca_queue = [],
      hm_ca_map = om_empty, flow_table = om_empty \<rparr>"

subsection \<open>The node\<close>

definition hermes_rx :: "rat \<Rightarrow> hermes_processor handler" where
  "hermes_rx u now p np = bind_r (hermes_recv u now p np) (\<lambda>(ret, np'). Inr (ret, p, np', []))"

definition hermes_tx :: "nat \<Rightarrow> hermes_processor handler" where
  "hermes_tx r now p np = bind_r (hermes_send r now p np) (\<lambda>(ret, p', np'). Inr (ret, p', np', []))"

definition hermes_node_recv ::
    "rat \<Rightarrow> nat \<Rightarrow> rat \<Rightarrow> packet \<Rightarrow> hermes_processor lb_node \<Rightarrow>
     (int \<times> packet \<times> hermes_processor lb_node \<times> effect list) result" where
  "hermes_node_recv u r now p n = node_recv new_HermesProcessor (hermes_rx u) (hermes_tx r) now p n"

end
