(* ===== verification/HermesProperties.thy ===== *)
theory HermesProperties
  imports Hermes
begin

text \<open>
  The invariant of the Hermes processor and what its operations promise.
\<close>

definition hm_paths_inv :: "int \<Rightarrow> (u32, hermes_vp_record) omap \<Rightarrow> bool" where
  "hm_paths_inv N m \<longleftrightarrow> keys_upto N m \<and>
     (\<forall>(k, vp)\<in>set m. hm_hashkey vp = k \<and> rank (hm_ca_row vp) \<noteq> FAILED)"

definition bitmap_ok :: "bool list \<Rightarrow> bool" where
  "bitmap_ok bs \<longleftrightarrow> bs \<noteq> [] \<and> length bs \<le> ECN_PCNT"

definition hm_resp_inv :: "(u32, hermes_response) omap \<Rightarrow> u32 list \<Rightarrow> bool" where
  "hm_resp_inv m q \<longleftrightarrow> ring_inv m q \<and> (\<forall>(k, r)\<in>set m. bitmap_ok (ecn_bitmap r))"

definition hm_inv :: "int \<Rightarrow> hermes_processor \<Rightarrow> bool" where
  "hm_inv N s \<longleftrightarrow> hm_VP_SIZE s = N \<and> 0 < N \<and> N < 2 ^ 31 \<and> hm_paths_inv N (hm_vp_map s) \<and>
     hm_resp_inv (hm_ca_map s) (hm_ca_queue s) \<and>
     (\<forall>(f, k)\<in>set (flow_table s). om_get k (hm_vp_map s) \<noteq> None)"

subsection \<open>The bitmap\<close>

lemma trim_bitmap_drop: "trim_bitmap bs = drop (length bs - ECN_PCNT) bs"
proof (induction bs rule: trim_bitmap.induct)
  case (2 b bs)
  show ?case
  proof (cases "length (b # bs) > ECN_PCNT")
    case True
    then have "length (b # bs) - ECN_PCNT = Suc (length bs - ECN_PCNT)" by simp
    then show ?thesis using 2[OF True] True by simp
  qed simp
qed simp

lemma push_mark_drop: "push_mark b bs = drop (Suc (length bs) - ECN_PCNT) (bs @ [b])"
  by (simp add: push_mark_def trim_bitmap_drop)

lemma push_mark_ok: "bitmap_ok (push_mark b bs)"
  by (auto simp: bitmap_ok_def push_mark_drop ECN_PCNT_def)

lemma count_marks_le: "count_marks bs \<le> length bs"
  by (simp add: count_marks_def)

text \<open>Marks pushed one after the other leave the last \<^verbatim>\<open>ECN_PCNT\<close> of them.\<close>

lemma fold_push_mark:
  "length bs \<le> ECN_PCNT \<Longrightarrow>
   fold push_mark xs bs = drop (length bs + length xs - ECN_PCNT) (bs @ xs)"
proof (induction xs arbitrary: bs)
  case (Cons x xs)
  have len: "length (push_mark x bs) \<le> ECN_PCNT" using push_mark_ok[of x bs] by (simp add: bitmap_ok_def)
  let ?a = "Suc (length bs) - ECN_PCNT"
  have "fold push_mark (x # xs) bs = drop (length (push_mark x bs) + length xs - ECN_PCNT) (push_mark x bs @ xs)"
    using Cons.IH[OF len] by simp
  also have "push_mark x bs @ xs = drop ?a (bs @ x # xs)"
    using Cons.prems by (simp add: push_mark_drop ECN_PCNT_def)
  also have "length (push_mark x bs) = Suc (length bs) - ?a" by (simp add: push_mark_drop)
  also have "drop (Suc (length bs) - ?a + length xs - ECN_PCNT) (drop ?a (bs @ x # xs)) =
      drop (length bs + length (x # xs) - ECN_PCNT) (bs @ x # xs)"
    unfolding drop_drop using Cons.prems
    by (intro arg_cong2[where f = drop] refl) (simp add: ECN_PCNT_def)
  finally show ?case .
qed simp

subsection \<open>Choosing a path\<close>

lemma least_sent_least:
  "least_sent m e \<in> insert e (set m) \<and>
   (\<forall>f\<in>insert e (set m). hm_send_undefined (hm_ca_row (snd (least_sent m e))) \<le> hm_send_undefined (hm_ca_row (snd f)))"
proof (induction m e rule: least_sent.induct)
  case (2 f m e)
  let ?u = "\<lambda>x :: u32 \<times> hermes_vp_record. hm_send_undefined (hm_ca_row (snd x))"
  let ?b = "if ?u f < ?u e then f else e"
  have IH: "least_sent m ?b \<in> insert ?b (set m)" "\<forall>g\<in>insert ?b (set m). ?u (least_sent m ?b) \<le> ?u g"
    using 2 by blast+
  have "?u (least_sent m ?b) \<le> ?u ?b" using IH(2) by blast
  moreover have "?u ?b \<le> ?u f" "?u ?b \<le> ?u e" by auto
  ultimately have "\<forall>g\<in>insert e (set (f # m)). ?u (least_sent m ?b) \<le> ?u g"
    using IH(2) order_trans by fastforce
  moreover have "least_sent m ?b \<in> insert e (set (f # m))" using IH(1) by (auto split: if_splits)
  ultimately show ?case by simp
qed simp

text \<open>The least loaded path of one rank.\<close>

lemma of_rank_choice:
  assumes "of_rank rk m \<noteq> []"
  shows "\<exists>k vp. least_sent (of_rank rk m) (hd (of_rank rk m)) = (k, vp) \<and> (k, vp) \<in> set m \<and>
    rank (hm_ca_row vp) = rk \<and>
    (\<forall>(j, v)\<in>set m. rank (hm_ca_row v) = rk \<longrightarrow>
       hm_send_undefined (hm_ca_row vp) \<le> hm_send_undefined (hm_ca_row v))"
proof -
  obtain k vp where c: "least_sent (of_rank rk m) (hd (of_rank rk m)) = (k, vp)" by fastforce
  have "hd (of_rank rk m) \<in> set (of_rank rk m)" using assms by simp
  then have "(k, vp) \<in> set (of_rank rk m)"
    "\<forall>f\<in>set (of_rank rk m). hm_send_undefined (hm_ca_row vp) \<le> hm_send_undefined (hm_ca_row (snd f))"
    using least_sent_least[of "of_rank rk m" "hd (of_rank rk m)"] c by (auto simp: insert_absorb)
  then show ?thesis using c by (fastforce simp: of_rank_def)
qed

lemma of_rank_empty: "of_rank rk m = [] \<longleftrightarrow> (\<forall>(k, vp)\<in>set m. rank (hm_ca_row vp) \<noteq> rk)"
  by (auto simp: of_rank_def filter_empty_conv)

lemma ptype_le [simp]: "a \<le> GOOD" "FAILED \<le> a"
  by (cases a; simp add: less_eq_ptype_def)+

text \<open>No path has a better rank, and none of the same rank fewer packets.\<close>

definition best_path :: "hermes_processor \<Rightarrow> hermes_vp_record \<Rightarrow> bool" where
  "best_path s vp \<longleftrightarrow>
    (\<forall>(j, v)\<in>set (hm_vp_map s). rank (hm_ca_row v) \<le> rank (hm_ca_row vp) \<and>
       (rank (hm_ca_row v) = rank (hm_ca_row vp) \<longrightarrow>
          hm_send_undefined (hm_ca_row vp) \<le> hm_send_undefined (hm_ca_row v)))"

lemma hermes_vp_next_ok:
  assumes inv: "hm_inv N s"
  shows "\<exists>k vp. hermes_vp_next r s = Inr k \<and> om_get k (hm_vp_map s) = Some vp \<and> best_path s vp"
proof -
  let ?m = "hm_vp_map s"
  have P: "keys_upto N ?m" "\<forall>(k, vp)\<in>set ?m. rank (hm_ca_row vp) \<noteq> FAILED" and N: "0 < N" "N < 2 ^ 31"
    using inv by (auto simp: hm_inv_def hm_paths_inv_def)
  have om: "om_inv ?m" using keys_upto_inv[OF N(2) P(1)] .
  have "?m \<noteq> []" using keys_upto_length[OF P(1)] N(1) by auto
  then have some: "of_rank GOOD ?m \<noteq> [] \<or> of_rank GREY ?m \<noteq> [] \<or> of_rank CONGESTED ?m \<noteq> []"
    using P(2) ptype.exhaust by (cases ?m) (auto simp: of_rank_def)
  define rk where "rk = (if of_rank GOOD ?m \<noteq> [] then GOOD else if of_rank GREY ?m \<noteq> [] then GREY else CONGESTED)"
  have ne: "of_rank rk ?m \<noteq> []" using some by (auto simp: rk_def)
  have best: "rank (hm_ca_row v) \<le> rk" if "(j, v) \<in> set ?m" for j v
    using that P(2) by (cases "rank (hm_ca_row v)") (auto simp: rk_def of_rank_empty less_eq_ptype_def)
  obtain k vp where c: "least_sent (of_rank rk ?m) (hd (of_rank rk ?m)) = (k, vp)" "(k, vp) \<in> set ?m"
    "rank (hm_ca_row vp) = rk" "\<forall>(j, v)\<in>set ?m. rank (hm_ca_row v) = rk \<longrightarrow>
       hm_send_undefined (hm_ca_row vp) \<le> hm_send_undefined (hm_ca_row v)"
    using of_rank_choice[OF ne] by blast
  have "hermes_vp_next r s = Inr k"
    using c(1) ne some by (auto simp: hermes_vp_next_def Let_def rk_def split: if_splits)
  moreover have "om_get k ?m = Some vp" using om_mem_get[OF om c(2)] .
  moreover have "best_path s vp" using best c(3,4) by (auto simp: best_path_def)
  ultimately show ?thesis by blast
qed

subsection \<open>Assignments\<close>

lemma hm_paths_get:
  assumes "hm_paths_inv N m" and "om_get k m = Some vp"
  shows "hm_hashkey vp = k" and "rank (hm_ca_row vp) \<noteq> FAILED"
  using assms om_get_mem[OF assms(2)] by (auto simp: hm_paths_inv_def)

lemma hermes_upd_vp_get:
  "om_get j (hm_vp_map (hermes_upd_vp k f s)) =
     map_option (\<lambda>vp. if j = k then vp\<lparr>hm_ca_row := f (hm_ca_row vp)\<rparr> else vp) (om_get j (hm_vp_map s))"
  by (cases "om_get j (hm_vp_map s)") (auto simp: hermes_upd_vp_def om_get_put split: option.split)

lemma hermes_upd_ca_get:
  "om_get j (hm_ca_map (hermes_upd_ca k g s)) =
     map_option (\<lambda>r. if j = k then g r else r) (om_get j (hm_ca_map s))"
  by (cases "om_get j (hm_ca_map s)") (auto simp: hermes_upd_ca_def om_get_put split: option.split)

lemma hermes_upd_simps [simp]:
  "hm_ca_map (hermes_upd_vp k f s) = hm_ca_map s" "hm_ca_queue (hermes_upd_vp k f s) = hm_ca_queue s"
  "flow_table (hermes_upd_vp k f s) = flow_table s" "hm_VP_SIZE (hermes_upd_vp k f s) = hm_VP_SIZE s"
  "hm_vp_map (hermes_upd_ca k g s) = hm_vp_map s" "hm_ca_queue (hermes_upd_ca k g s) = hm_ca_queue s"
  "flow_table (hermes_upd_ca k g s) = flow_table s" "hm_VP_SIZE (hermes_upd_ca k g s) = hm_VP_SIZE s"
  by (simp_all add: hermes_upd_vp_def hermes_upd_ca_def split: option.split)

lemma hermes_upd_vp_inv:
  assumes inv: "hm_inv N s" and f: "\<And>ca. rank ca \<noteq> FAILED \<Longrightarrow> rank (f ca) \<noteq> FAILED"
  shows "hm_inv N (hermes_upd_vp k f s)"
proof (cases "om_get k (hm_vp_map s)")
  case (Some vp)
  have P: "hm_paths_inv N (hm_vp_map s)" and N: "N < 2 ^ 31" using inv by (simp_all add: hm_inv_def)
  let ?v = "vp\<lparr>hm_ca_row := f (hm_ca_row vp)\<rparr>"
  have "\<forall>(j, v)\<in>set (om_put k ?v (hm_vp_map s)). hm_hashkey v = j \<and> rank (hm_ca_row v) \<noteq> FAILED"
    using P hm_paths_get[OF P Some] f by (intro om_all_put) (auto simp: hm_paths_inv_def)
  moreover have "keys_upto N (om_put k ?v (hm_vp_map s))"
    using keys_upto_put[OF N, of "hm_vp_map s" k ?v] P Some by (simp add: hm_paths_inv_def)
  ultimately have "hm_paths_inv N (hm_vp_map (hermes_upd_vp k f s))"
    using Some by (simp add: hm_paths_inv_def hermes_upd_vp_def)
  moreover have "om_get j (hm_vp_map (hermes_upd_vp k f s)) = None \<longleftrightarrow> om_get j (hm_vp_map s) = None" for j
    by (simp add: hermes_upd_vp_get)
  ultimately show ?thesis using inv by (simp add: hm_inv_def)
qed (use inv in \<open>simp add: hermes_upd_vp_def\<close>)

lemma hm_resp_inv_put:
  assumes R: "hm_resp_inv m q" and "om_get k m = Some r" and "rsp_hashkey r' = k" and "bitmap_ok (ecn_bitmap r')"
  shows "hm_resp_inv (om_put k r' m) q"
proof -
  have "\<forall>(k, r)\<in>set (om_put k r' m). bitmap_ok (ecn_bitmap r)"
    using assms by (intro om_all_put) (auto simp: hm_resp_inv_def)
  then show ?thesis using ring_inv_put[of m q k r r'] assms by (simp add: hm_resp_inv_def)
qed

lemma hm_resp_inv_alloc:
  assumes R: "hm_resp_inv m q" and "om_get k m = None" and "rsp_hashkey r' = k" and "bitmap_ok (ecn_bitmap r')"
  shows "hm_resp_inv (om_put k r' m) (q @ [k])"
proof -
  have "\<forall>(k, r)\<in>set (om_put k r' m). bitmap_ok (ecn_bitmap r)"
    using assms by (intro om_all_put) (auto simp: hm_resp_inv_def)
  then show ?thesis using ring_inv_alloc[of m q k r'] assms by (simp add: hm_resp_inv_def)
qed

lemma hm_resp_get:
  assumes "hm_resp_inv m q" and "om_get k m = Some r"
  shows "rsp_hashkey r = k" and "bitmap_ok (ecn_bitmap r)"
  using assms om_get_mem[OF assms(2)] by (auto simp: hm_resp_inv_def ring_inv_def)

subsection \<open>The constructor\<close>

lemma hermes_vp_init_returns:
  assumes "hm_paths_inv (int j) (hm_vp_map s)" and "hm_hashkey_counter s = of_nat j"
    and "j \<le> nat (hm_VP_SIZE s)" and "0 \<le> hm_VP_SIZE s" and "hm_VP_SIZE s < 2 ^ 31"
  shows "\<exists>m c. hermes_vp_init now s = Some (s\<lparr>hm_hashkey_counter := c, hm_vp_map := m\<rparr>) \<and>
    hm_paths_inv (hm_VP_SIZE s) m"
  using assms
proof (induction "nat (hm_VP_SIZE s) - j" arbitrary: j s)
  case 0
  then have j: "int j = hm_VP_SIZE s" by simp
  have "length (hm_vp_map s) = j" using keys_upto_length[of "int j" "hm_vp_map s"] 0(2) by (simp add: hm_paths_inv_def)
  then have "\<not> length (hm_vp_map s) < size_t_of_int (hm_VP_SIZE s)"
    using 0(6) j by (simp add: size_t_of_int_nonneg)
  then show ?case using 0(2) j
    by (intro exI[of _ "hm_vp_map s"] exI[of _ "hm_hashkey_counter s"]) (subst hermes_vp_init.simps, simp)
next
  case (Suc d)
  have lt: "j < nat (hm_VP_SIZE s)" using Suc(2) by simp
  have ku: "keys_upto (int j) (hm_vp_map s)" using Suc.prems(1) by (simp add: hm_paths_inv_def)
  have miss: "length (hm_vp_map s) < size_t_of_int (hm_VP_SIZE s)"
    using keys_upto_length[OF ku] lt Suc.prems(4,5) by (simp add: size_t_of_int_nonneg)
  let ?s = "snd (hermes_vp_alloc now s)"
  let ?vp = "(hermes_init_vp_record now (hm_init_rrate s))\<lparr>hm_hashkey := of_nat j\<rparr>"
  have fields: "hm_hashkey_counter ?s = of_nat (Suc j)" "hm_VP_SIZE ?s = hm_VP_SIZE s"
    "hm_vp_map ?s = om_put (of_nat j) ?vp (hm_vp_map s)"
    using Suc.prems(2) by (simp_all add: hermes_vp_alloc_def Let_def add.commute)
  have "nat (hm_VP_SIZE s) < 2147483648" using Suc.prems(5) by simp
  then have j31: "Suc j < 2 ^ 31" using lt by simp
  have "\<forall>(k, v)\<in>set (om_put (of_nat j) ?vp (hm_vp_map s)). hm_hashkey v = k \<and> rank (hm_ca_row v) \<noteq> FAILED"
    using Suc.prems(1) by (intro om_all_put)
      (auto simp: hm_paths_inv_def hermes_init_vp_record_def hermes_init_ca_record_def)
  then have inv: "hm_paths_inv (int (Suc j)) (hm_vp_map ?s)"
    using keys_upto_alloc[OF ku j31] unfolding fields(3) hm_paths_inv_def by simp
  have d: "d = nat (hm_VP_SIZE ?s) - Suc j" using Suc(2) fields by simp
  obtain m c where "hermes_vp_init now ?s = Some (?s\<lparr>hm_hashkey_counter := c, hm_vp_map := m\<rparr>)"
    and "hm_paths_inv (hm_VP_SIZE s) m"
    using Suc.hyps(1)[OF d inv fields(1)] lt Suc.prems(4,5) fields by auto
  moreover have "?s\<lparr>hm_hashkey_counter := c, hm_vp_map := m\<rparr> = s\<lparr>hm_hashkey_counter := c, hm_vp_map := m\<rparr>"
    by (simp add: hermes_vp_alloc_def Let_def)
  ultimately show ?case using miss
    by (intro exI[of _ m] exI[of _ c]) (subst hermes_vp_init.simps, simp)
qed

lemma new_HermesProcessor_inv:
  assumes "0 < sz" and "sz < 2 ^ 31"
  shows "\<exists>s. new_HermesProcessor now a b sz = Some s \<and> hm_inv sz s"
proof -
  let ?b = "\<lparr> hm_src = a, hm_dst = b, hm_VP_SIZE = sz, hm_hashkey_counter = 0,
      hm_ece_cnt = 0, hm_init_rrate = HERMES_INIT_RRATE, hm_vp_map = om_empty, hm_ca_queue = [],
      hm_ca_map = om_empty, flow_table = om_empty \<rparr>"
  have "hm_paths_inv (int 0) (hm_vp_map ?b)" by (simp add: hm_paths_inv_def keys_upto_def om_empty_def)
  then obtain m c where "hermes_vp_init now ?b = Some (?b\<lparr>hm_hashkey_counter := c, hm_vp_map := m\<rparr>)"
    "hm_paths_inv sz m"
    using hermes_vp_init_returns[of 0 ?b now] assms by auto
  then show ?thesis using assms
    by (simp add: new_HermesProcessor_def hm_inv_def hm_resp_inv_def ring_inv_def om_empty_def)
qed

subsection \<open>Packets\<close>

lemma hermes_take_feedback_ok:
  assumes inv: "hm_inv N s"
  shows "\<exists>s'. hermes_take_feedback p s = Inr s' \<and> hm_inv N s' \<and> hm_ca_map s' = hm_ca_map s \<and>
    flow_table s' = flow_table s \<and>
    (\<forall>k. om_get k (hm_vp_map s') = map_option (\<lambda>vp.
       if hermes_response_en (hermes_row p) \<and> hermes_vp_rid (hermes_row p) = k
       then vp\<lparr>hm_ca_row := hermes_feedback p (hm_ca_row vp)\<rparr> else vp) (om_get k (hm_vp_map s)))"
proof (cases "hermes_response_en (hermes_row p) \<and> om_get (hermes_vp_rid (hermes_row p)) (hm_vp_map s) \<noteq> None")
  case True
  then obtain vp where vp: "om_get (hermes_vp_rid (hermes_row p)) (hm_vp_map s) = Some vp" by auto
  have P: "hm_paths_inv N (hm_vp_map s)" using inv by (simp add: hm_inv_def)
  let ?s = "hermes_upd_vp (hermes_vp_rid (hermes_row p)) (hermes_feedback p) s"
  have run: "hermes_take_feedback p s = Inr ?s"
    using True vp hm_paths_get(1)[OF P vp] by (simp add: hermes_take_feedback_def hermes_vp_get_def)
  have "hm_inv N ?s" using inv
    by (rule hermes_upd_vp_inv) (auto simp: hermes_feedback_def Let_def classify_rank_def)
  then show ?thesis using run True
    by (intro exI[of _ ?s]) (auto simp: hermes_upd_vp_get intro: map_option_cong)
next
  case False
  then have "hermes_take_feedback p s = Inr s"
    by (auto simp: hermes_take_feedback_def hermes_vp_get_def)
  moreover have "om_get k (hm_vp_map s) = map_option (\<lambda>vp.
       if hermes_response_en (hermes_row p) \<and> hermes_vp_rid (hermes_row p) = k
       then vp\<lparr>hm_ca_row := hermes_feedback p (hm_ca_row vp)\<rparr> else vp) (om_get k (hm_vp_map s))" for k
    using False by (cases "om_get k (hm_vp_map s)") auto
  ultimately show ?thesis using inv by blast
qed

lemma hermes_note_simps [simp]:
  "rsp_hashkey (hermes_note u now p r) = rsp_hashkey r" "rsp_time (hermes_note u now p r) = rsp_time r"
  "ecn_bitmap (hermes_note u now p r) = push_mark (ce p \<noteq> 0) (ecn_bitmap r)"
  by (simp_all add: hermes_note_def Let_def)

text \<open>The receiver's part, as an assignment to the response of the packet's path.\<close>

lemma hermes_note_inv:
  fixes s :: hermes_processor
  assumes inv: "hm_inv N s"
  defines "s' \<equiv> (\<lambda>k u now p. hermes_upd_ca k (hermes_note u now p)
      (if hermes_ca_get k s = None then hermes_ca_alloc now k s else s))"
  shows "hm_inv N (s' k u now p)" and "hm_vp_map (s' k u now p) = hm_vp_map s"
    and "flow_table (s' k u now p) = flow_table s"
    and "om_get j (hm_ca_map (s' k u now p)) =
      (if j = k then Some (hermes_note u now p (case om_get k (hm_ca_map s) of Some r \<Rightarrow> r
         | None \<Rightarrow> (hermes_init_ca_response now)\<lparr>rsp_hashkey := k\<rparr>))
       else om_get j (hm_ca_map s))"
proof -
  have R: "hm_resp_inv (hm_ca_map s) (hm_ca_queue s)" using inv by (simp add: hm_inv_def)
  show "om_get j (hm_ca_map (s' k u now p)) =
      (if j = k then Some (hermes_note u now p (case om_get k (hm_ca_map s) of Some r \<Rightarrow> r
         | None \<Rightarrow> (hermes_init_ca_response now)\<lparr>rsp_hashkey := k\<rparr>))
       else om_get j (hm_ca_map s))" for j
    by (auto simp: s'_def hermes_upd_ca_get hermes_ca_get_def hermes_ca_alloc_def om_get_put split: option.split)
      (cases "om_get j (hm_ca_map s)"; simp)+
  show same: "hm_vp_map (s' k u now p) = hm_vp_map s" "flow_table (s' k u now p) = flow_table s"
    by (simp_all add: s'_def hermes_ca_alloc_def)
  have size: "hm_VP_SIZE (s' k u now p) = hm_VP_SIZE s" by (simp add: s'_def hermes_ca_alloc_def)
  have "hm_resp_inv (hm_ca_map (s' k u now p)) (hm_ca_queue (s' k u now p))"
  proof (cases "om_get k (hm_ca_map s)")
    case None
    let ?r = "(hermes_init_ca_response now)\<lparr>rsp_hashkey := k\<rparr>"
    have twice: "om_put k x (om_put k y m) = om_put k x m" for x y :: hermes_response and m
      by (induction k y m rule: om_put.induct) auto
    have "hm_ca_map (s' k u now p) = om_put k (hermes_note u now p ?r) (hm_ca_map s)"
      "hm_ca_queue (s' k u now p) = hm_ca_queue s @ [k]"
      using None by (simp_all add: s'_def hermes_ca_get_def hermes_upd_ca_def hermes_ca_alloc_def om_get_put twice)
    then show ?thesis using hm_resp_inv_alloc[OF R None, of "hermes_note u now p ?r"] push_mark_ok by simp
  next
    case (Some r)
    then show ?thesis
      using hm_resp_inv_put[OF R Some, of "hermes_note u now p r"] hm_resp_get[OF R Some] push_mark_ok
      by (simp add: s'_def hermes_ca_get_def hermes_upd_ca_def)
  qed
  then show "hm_inv N (s' k u now p)" using inv same size by (simp add: hm_inv_def)
qed

lemma hermes_recv_ok:
  assumes inv: "hm_inv N s"
  shows "\<exists>s'. hermes_recv u now p s = Inr (0, s') \<and> hm_inv N s' \<and> flow_table s' = flow_table s \<and>
    (\<forall>k. om_get k (hm_vp_map s') = map_option (\<lambda>vp.
       if hermes_response_en (hermes_row p) \<and> hermes_vp_rid (hermes_row p) = k
       then vp\<lparr>hm_ca_row := hermes_feedback p (hm_ca_row vp)\<rparr> else vp) (om_get k (hm_vp_map s))) \<and>
    (\<forall>j. om_get j (hm_ca_map s') =
      (if j = hermes_vp_id (hermes_row p)
       then Some (hermes_note u now p (case om_get j (hm_ca_map s) of Some r \<Rightarrow> r
         | None \<Rightarrow> (hermes_init_ca_response now)\<lparr>rsp_hashkey := j\<rparr>))
       else om_get j (hm_ca_map s)))"
proof -
  obtain s1 where s1: "hermes_take_feedback p s = Inr s1" "hm_inv N s1" "hm_ca_map s1 = hm_ca_map s"
    "flow_table s1 = flow_table s"
    "\<forall>k. om_get k (hm_vp_map s1) = map_option (\<lambda>vp.
       if hermes_response_en (hermes_row p) \<and> hermes_vp_rid (hermes_row p) = k
       then vp\<lparr>hm_ca_row := hermes_feedback p (hm_ca_row vp)\<rparr> else vp) (om_get k (hm_vp_map s))"
    using hermes_take_feedback_ok[OF inv] by blast
  define s2 where "s2 = (if ecnecho p \<noteq> 0 then s1\<lparr>hm_ece_cnt := hm_ece_cnt s1 + 1\<rparr> else s1)"
  have i2: "hm_inv N s2" and m2: "hm_ca_map s2 = hm_ca_map s" "hm_vp_map s2 = hm_vp_map s1" "flow_table s2 = flow_table s"
    using s1(2-4) by (simp_all add: s2_def hm_inv_def)
  let ?k = "hermes_vp_id (hermes_row p)"
  let ?s3 = "hermes_upd_ca ?k (hermes_note u now p)
      (if hermes_ca_get ?k s2 = None then hermes_ca_alloc now ?k s2 else s2)"
  have run: "hermes_recv u now p s = Inr (0, ?s3)"
    unfolding hermes_recv_def s1(1) s2_def by (simp only: bind_r_simps Let_def)
  have ca: "\<forall>j. om_get j (hm_ca_map ?s3) =
      (if j = ?k then Some (hermes_note u now p (case om_get j (hm_ca_map s) of Some r \<Rightarrow> r
         | None \<Rightarrow> (hermes_init_ca_response now)\<lparr>rsp_hashkey := j\<rparr>))
       else om_get j (hm_ca_map s))"
    using hermes_note_inv(4)[OF i2, of _ ?k u now p] unfolding m2 by simp
  have vp: "\<forall>k. om_get k (hm_vp_map ?s3) = map_option (\<lambda>vp.
       if hermes_response_en (hermes_row p) \<and> hermes_vp_rid (hermes_row p) = k
       then vp\<lparr>hm_ca_row := hermes_feedback p (hm_ca_row vp)\<rparr> else vp) (om_get k (hm_vp_map s))"
    unfolding hermes_note_inv(2)[OF i2] m2 by (rule s1(5))
  have fl: "flow_table ?s3 = flow_table s" unfolding hermes_note_inv(3)[OF i2] m2 by (rule refl)
  show ?thesis by (rule exI[of _ ?s3], intro conjI run hermes_note_inv(1)[OF i2] fl vp ca)
qed

text \<open>The route of a flow that is on path \<^verbatim>\<open>k0\<close>.\<close>

definition may_move :: "hermes_vp_record \<Rightarrow> hermes_vp_record \<Rightarrow> bool" where
  "may_move vp0 vp \<longleftrightarrow> rank (hm_ca_row vp0) = CONGESTED \<and> hm_rate (hm_ca_row vp0) < R_LIMIT \<and>
     c_rtt (hm_ca_row vp) + DELTA_RTT < c_rtt (hm_ca_row vp0) \<and>
     vp_ecn_ratio (hm_ca_row vp) + DELTA_ECN < vp_ecn_ratio (hm_ca_row vp0)"

lemma hermes_route_ok:
  assumes inv: "hm_inv N s"
  shows "\<exists>k vp. hermes_route r fl s = Inr k \<and> om_get k (hm_vp_map s) = Some vp \<and>
    (case om_get fl (flow_table s) of None \<Rightarrow> best_path s vp
     | Some k0 \<Rightarrow> k = k0 \<or> best_path s vp \<and> (\<exists>vp0. om_get k0 (hm_vp_map s) = Some vp0 \<and> may_move vp0 vp))"
proof -
  obtain k vp where nx: "hermes_vp_next r s = Inr k" "om_get k (hm_vp_map s) = Some vp" "best_path s vp"
    using hermes_vp_next_ok[OF inv, of r] by blast
  show ?thesis
  proof (cases "om_get fl (flow_table s)")
    case None
    then show ?thesis using nx by (simp add: hermes_route_def)
  next
    case (Some k0)
    have "om_get k0 (hm_vp_map s) \<noteq> None" using inv om_get_mem[OF Some] by (auto simp: hm_inv_def)
    then obtain vp0 where vp0: "om_get k0 (hm_vp_map s) = Some vp0" by auto
    show ?thesis
    proof (cases "rank (hm_ca_row vp0) = CONGESTED \<and> hm_rate (hm_ca_row vp0) < R_LIMIT \<and>
        c_rtt (hm_ca_row vp0) - c_rtt (hm_ca_row vp) > DELTA_RTT \<and>
        vp_ecn_ratio (hm_ca_row vp0) - vp_ecn_ratio (hm_ca_row vp) > DELTA_ECN")
      case True
      then have "may_move vp0 vp" by (simp add: may_move_def algebra_simps)
      then show ?thesis using True Some vp0 nx by (simp add: hermes_route_def hermes_vp_get_def)
    next
      case False
      then have "hermes_route r fl s = Inr k0" using Some vp0 nx by (auto simp: hermes_route_def hermes_vp_get_def)
      then show ?thesis using Some vp0 by simp
    qed
  qed
qed

lemma hermes_ca_next_ok:
  assumes "hm_inv N s"
  shows "\<exists>t m q. hermes_ca_next now s = (t, s\<lparr>hm_ca_map := m, hm_ca_queue := q\<rparr>) \<and> hm_resp_inv m q \<and>
    (\<forall>k. t = Some k \<longrightarrow> (\<exists>r. om_get k m = Some r \<and> fresh_response now r)) \<and>
    (\<forall>j r. om_get j m = Some r \<longrightarrow> om_get j (hm_ca_map s) = Some r) \<and>
    (\<forall>j r. om_get j (hm_ca_map s) = Some r \<longrightarrow> fresh_response now r \<longrightarrow> t \<noteq> None)"
proof -
  have R: "hm_resp_inv (hm_ca_map s) (hm_ca_queue s)" using assms by (simp add: hm_inv_def)
  then have "ring_inv (hm_ca_map s) (hm_ca_queue s)" by (simp add: hm_resp_inv_def)
  from ring_next_ok[OF this, of now] obtain t m q where r:
    "ring_next now (hm_ca_map s) (hm_ca_queue s) = (t, m, q)" "ring_inv m q"
    "\<forall>k. t = Some k \<longrightarrow> (\<exists>r. om_get k m = Some r \<and> fresh_response now r)" "t = None \<longrightarrow> q = []"
    "\<forall>j r. om_get j m = Some r \<longrightarrow> om_get j (hm_ca_map s) = Some r"
    "\<forall>j r. om_get j (hm_ca_map s) = Some r \<longrightarrow> fresh_response now r \<longrightarrow> om_get j m = Some r"
    by blast
  have om: "om_inv m" using r(2) by (simp add: ring_inv_def)
  have "bitmap_ok (ecn_bitmap x)" if "(k, x) \<in> set m" for k x
    using hm_resp_get(2)[OF R] om_mem_get[OF om that] r(5) by blast
  then have "hm_resp_inv m q" using r(2) by (auto simp: hm_resp_inv_def)
  moreover have "t \<noteq> None" if "om_get j m = Some x" for j x
  proof -
    have "j \<in> set q" using that r(2) om_keys_get[of j m] by (simp add: ring_inv_def)
    then show ?thesis using r(4) by auto
  qed
  then have "\<forall>j x. om_get j (hm_ca_map s) = Some x \<longrightarrow> fresh_response now x \<longrightarrow> t \<noteq> None" using r(6) by metis
  moreover have "hermes_ca_next now s = (t, s\<lparr>hm_ca_map := m, hm_ca_queue := q\<rparr>)"
    using r(1) by (simp add: hermes_ca_next_def)
  ultimately show ?thesis using r(3,5) by blast
qed

lemma hermes_age_response_ok:
  assumes "bitmap_ok (ecn_bitmap r)"
  shows "bitmap_ok (ecn_bitmap (hermes_age_response now r))"
    and "rsp_hashkey (hermes_age_response now r) = rsp_hashkey r"
    and "\<not> rsp_recv_ecn (hermes_age_response now r)"
    and "recv_rtt (hermes_age_response now r) = (if now - rtt_time r > T_RTT_EXPIRE then 0 else recv_rtt r)"
    and "ecn_bitmap (hermes_age_response now r) =
      (if now - ecn_time r > T_ECN_EXPIRE then push_mark False (ecn_bitmap r) else ecn_bitmap r)"
  using assms push_mark_ok by (simp_all add: hermes_age_response_def Let_def)

definition mark_ratio :: "bool list \<Rightarrow> rat" where
  "mark_ratio bs = of_nat (count_marks bs) / of_nat (length bs)"

lemma mark_ratio_bounds: "bitmap_ok bs \<Longrightarrow> 0 \<le> mark_ratio bs \<and> mark_ratio bs \<le> 1"
  using count_marks_le[of bs] by (simp add: mark_ratio_def bitmap_ok_def divide_le_eq_1)

definition hermes_stamp :: "rat \<Rightarrow> u32 \<Rightarrow> u32 \<Rightarrow> bool \<Rightarrow> rat \<Rightarrow> rat \<Rightarrow> bool \<Rightarrow> packet \<Rightarrow> packet" where
  "hermes_stamp now k rid recn rtt ratio ren p =
    p\<lparr>ecmpHashKey := k, hermes_row := (hermes_row p)\<lparr>hermes_vp_id := k, hermes_vp_time := now,
      hermes_record_en := True, hermes_vp_rid := rid, hermes_vp_recn := recn,
      hermes_vp_rtt := rtt, hermes_ecn_ratio := ratio, hermes_response_en := ren\<rparr>\<rparr>"

text \<open>What a packet reports when the response \<^verbatim>\<open>r\<close> of path \<^verbatim>\<open>rid\<close> is the next.\<close>

definition reports :: "rat \<Rightarrow> hermes_response \<Rightarrow> bool \<Rightarrow> rat \<Rightarrow> rat \<Rightarrow> bool" where
  "reports now r recn rtt ratio \<longleftrightarrow> fresh_response now r \<and> recn = rsp_recv_ecn r \<and>
     rtt = (if now - rtt_time r > T_RTT_EXPIRE then 0 else recv_rtt r) \<and>
     ratio = mark_ratio (if now - ecn_time r > T_ECN_EXPIRE then push_mark False (ecn_bitmap r) else ecn_bitmap r)"

lemma hermes_send_ok:
  assumes inv: "hm_inv N s"
  shows "\<exists>k vp rid recn rtt ratio ren s'.
    hermes_send r now p s = Inr (0, hermes_stamp now k rid recn rtt ratio ren p, s') \<and> hm_inv N s' \<and>
    hermes_route r (of_int (flowID p)) s = Inr k \<and> om_get k (hm_vp_map s) = Some vp \<and>
    flow_table s' = om_put (of_int (flowID p)) k (flow_table s) \<and>
    (\<forall>j. om_get j (hm_vp_map s') = map_option (\<lambda>v. if j = k
       then v\<lparr>hm_ca_row := (hm_ca_row v)\<lparr>hm_send_cnt := hm_send_cnt (hm_ca_row v) + 1,
         hm_send_undefined := hm_send_undefined (hm_ca_row v) + 1\<rparr>\<rparr> else v) (om_get j (hm_vp_map s))) \<and>
    (if ren then \<exists>x. om_get rid (hm_ca_map s) = Some x \<and> reports now x recn rtt ratio
     else recn = False \<and> ratio = 0 \<and> (\<forall>j x. om_get j (hm_ca_map s) = Some x \<longrightarrow> \<not> fresh_response now x)) \<and>
    0 \<le> ratio \<and> ratio \<le> 1"
proof -
  let ?fl = "of_int (flowID p) :: u32"
  obtain k vp where n: "hermes_route r ?fl s = Inr k" "om_get k (hm_vp_map s) = Some vp"
    using hermes_route_ok[OF inv] by blast
  have hk: "hm_hashkey vp = k" using hm_paths_get(1)[of N "hm_vp_map s"] inv n(2) by (simp add: hm_inv_def)
  let ?f = "\<lambda>ca. ca\<lparr>hm_send_cnt := hm_send_cnt ca + 1, hm_send_undefined := hm_send_undefined ca + 1\<rparr>"
  define s1 where "s1 = s\<lparr>flow_table := om_put ?fl k (flow_table s)\<rparr>"
  define s2 where "s2 = hermes_upd_vp k ?f s1"
  have "\<forall>(f, j)\<in>set (om_put ?fl k (flow_table s)). om_get j (hm_vp_map s) \<noteq> None"
    using inv n(2) by (intro om_all_put) (auto simp: hm_inv_def)
  then have "hm_inv N s1" using inv by (simp add: s1_def hm_inv_def)
  then have i2: "hm_inv N s2" unfolding s2_def by (rule hermes_upd_vp_inv) simp
  have ca2: "hm_ca_map s2 = hm_ca_map s" and fl2: "flow_table s2 = om_put ?fl k (flow_table s)"
    by (simp_all add: s2_def s1_def)
  have vp2: "\<forall>j. om_get j (hm_vp_map s2) = map_option (\<lambda>v. if j = k
       then v\<lparr>hm_ca_row := (hm_ca_row v)\<lparr>hm_send_cnt := hm_send_cnt (hm_ca_row v) + 1,
         hm_send_undefined := hm_send_undefined (hm_ca_row v) + 1\<rparr>\<rparr> else v) (om_get j (hm_vp_map s))"
    by (simp add: s2_def s1_def hermes_upd_vp_get)
  obtain t m3 q3 where nx: "hermes_ca_next now s2 = (t, s2\<lparr>hm_ca_map := m3, hm_ca_queue := q3\<rparr>)"
    "hm_resp_inv m3 q3" "\<forall>k. t = Some k \<longrightarrow> (\<exists>r. om_get k m3 = Some r \<and> fresh_response now r)"
    "\<forall>j r. om_get j m3 = Some r \<longrightarrow> om_get j (hm_ca_map s) = Some r"
    "\<forall>j r. om_get j (hm_ca_map s) = Some r \<longrightarrow> fresh_response now r \<longrightarrow> t \<noteq> None"
    using hermes_ca_next_ok[OF i2, of now] unfolding ca2 by (elim exE conjE) rule
  define s3 where "s3 = s2\<lparr>hm_ca_map := m3, hm_ca_queue := q3\<rparr>"
  have i3: "hm_inv N s3" using i2 nx(2) by (simp add: s3_def hm_inv_def)
  have vp3: "hm_vp_map s3 = hm_vp_map s2" "flow_table s3 = flow_table s2" by (simp_all add: s3_def)
  show ?thesis
  proof (cases t)
    case None
    have run: "hermes_send r now p s = Inr (0, hermes_stamp now k 0 False 0 0 False p, s3)"
      using n nx(1) None hk
      by (simp add: hermes_send_def hermes_vp_get_def s1_def[symmetric] s2_def[symmetric] s3_def hermes_stamp_def Let_def)
    have rep: "if False then \<exists>x. om_get 0 (hm_ca_map s) = Some x \<and> reports now x False 0 0
     else False = False \<and> (0::rat) = 0 \<and> (\<forall>j x. om_get j (hm_ca_map s) = Some x \<longrightarrow> \<not> fresh_response now x)"
      using nx(5) None by auto
    show ?thesis
      by (rule exI[of _ k], rule exI[of _ vp], rule exI[of _ 0], rule exI[of _ False], rule exI[of _ 0],
          rule exI[of _ 0], rule exI[of _ False], rule exI[of _ s3],
          intro conjI run i3 n rep vp2[folded vp3(1)] fl2[folded vp3(2)]) simp_all
  next
    case (Some j)
    then obtain x where x: "om_get j m3 = Some x" "fresh_response now x" using nx(3) by blast
    have xo: "rsp_hashkey x = j" "bitmap_ok (ecn_bitmap x)" using hm_resp_get[OF nx(2) x(1)] .
    note ag = hermes_age_response_ok[OF xo(2), of now]
    define y where "y = hermes_age_response now x"
    define s4 where "s4 = hermes_upd_ca j (\<lambda>_. y) s3"
    have yo: "bitmap_ok (ecn_bitmap y)" using ag(1) by (simp add: y_def)
    have run: "hermes_send r now p s = Inr (0, hermes_stamp now k j (rsp_recv_ecn x) (recv_rtt y)
        (mark_ratio (ecn_bitmap y)) True p, s4)"
      using n nx(1) Some hk x xo yo
      by (simp add: hermes_send_def hermes_vp_get_def s1_def[symmetric] s2_def[symmetric] s3_def
          hermes_stamp_def Let_def hermes_ca_get_def y_def[symmetric] s4_def bitmap_ok_def mark_ratio_def)
    have "hm_resp_inv (om_put j y m3) q3"
      using hm_resp_inv_put[OF nx(2) x(1), of y] ag(2) yo xo by (simp add: y_def)
    then have i4: "hm_inv N s4" using i3 x(1) by (simp add: s4_def hermes_upd_ca_def s3_def hm_inv_def)
    have vp4: "hm_vp_map s4 = hm_vp_map s2" "flow_table s4 = flow_table s2" using vp3 by (simp_all add: s4_def)
    have "om_get j (hm_ca_map s) = Some x" using nx(4) x(1) by blast
    then have rep: "if True then \<exists>z. om_get j (hm_ca_map s) = Some z \<and>
        reports now z (rsp_recv_ecn x) (recv_rtt y) (mark_ratio (ecn_bitmap y))
      else rsp_recv_ecn x = False \<and> mark_ratio (ecn_bitmap y) = 0 \<and>
        (\<forall>j x. om_get j (hm_ca_map s) = Some x \<longrightarrow> \<not> fresh_response now x)"
      using x(2) ag(4,5) by (simp add: reports_def y_def)
    have b: "0 \<le> mark_ratio (ecn_bitmap y)" "mark_ratio (ecn_bitmap y) \<le> 1"
      using mark_ratio_bounds[OF yo] by simp_all
    show ?thesis
      by (rule exI[of _ k], rule exI[of _ vp], rule exI[of _ j], rule exI[of _ "rsp_recv_ecn x"],
          rule exI[of _ "recv_rtt y"], rule exI[of _ "mark_ratio (ecn_bitmap y)"], rule exI[of _ True],
          rule exI[of _ s4], intro conjI run i4 n rep b vp2[folded vp4(1)] fl2[folded vp4(2)])
  qed
qed

lemma hermes_expire_inv:
  assumes "hm_inv N s"
  shows "hm_inv N (fst (hermes_expire s))"
proof -
  let ?f = "\<lambda>vp. vp\<lparr>hm_ca_row := (hm_ca_row vp)\<lparr>
         hm_rate := of_int (uint (hm_send_undefined (hm_ca_row vp))) / HERMES_REFRESH, hm_send_undefined := 0\<rparr>\<rparr>"
  have "\<forall>(k, vp)\<in>set (om_map ?f (hm_vp_map s)). hm_hashkey vp = k \<and> rank (hm_ca_row vp) \<noteq> FAILED"
    using assms by (intro om_all_map) (auto simp: hm_inv_def hm_paths_inv_def)
  then show ?thesis using assms by (simp add: hermes_expire_def hm_inv_def hm_paths_inv_def keys_upto_def)
qed

subsection \<open>Reachable processors\<close>

inductive hermes_reach :: "int \<Rightarrow> hermes_processor \<Rightarrow> bool" for N where
  start: "new_HermesProcessor now a b N = Some s \<Longrightarrow> hermes_reach N s"
| recv: "hermes_reach N s \<Longrightarrow> hermes_recv u now p s = Inr (ret, s') \<Longrightarrow> hermes_reach N s'"
| send: "hermes_reach N s \<Longrightarrow> hermes_send r now p s = Inr (ret, p', s') \<Longrightarrow> hermes_reach N s'"
| expire: "hermes_reach N s \<Longrightarrow> hermes_reach N (fst (hermes_expire s))"

lemma hermes_reach_inv: "hermes_reach N s \<Longrightarrow> 0 < N \<Longrightarrow> N < 2 ^ 31 \<Longrightarrow> hm_inv N s"
proof (induction rule: hermes_reach.induct)
  case (start now a b s)
  then show ?case using new_HermesProcessor_inv[of N now a b] by auto
next
  case (recv s u now p ret s')
  then show ?case using hermes_recv_ok[of N s u now p] by auto
next
  case (send s r now p ret p' s')
  then show ?case using hermes_send_ok[of N s r now p] by auto
qed (simp add: hermes_expire_inv)

interpretation hermn: end_processor new_HermesProcessor "hermes_rx u" "hermes_tx r" hm_inv for u r
proof unfold_locales
  show "\<exists>np. new_HermesProcessor now a b N = Some np \<and> hm_inv N np" if "0 < N" "N < 2 ^ 31" for N now a b
    using new_HermesProcessor_inv[OF that] by blast
  show "hm_inv N np'" if "hm_inv N np" "hermes_rx u now p np = Inr (ret, p', np', out)" for N np now p ret p' np' out
    using that hermes_recv_ok[OF that(1), of u now p] by (auto simp: hermes_rx_def)
  show "\<exists>p' np'. hermes_tx r now p np = Inr (0, p', np', []) \<and> hm_inv N np' \<and>
      p'\<lparr>ecmpHashKey := ecmpHashKey p, clb_row := clb_row p, clove_row := clove_row p,
         hermes_row := hermes_row p\<rparr> = p \<and> uint (ecmpHashKey p') < N"
    if "0 < N" "N < 2 ^ 31" "hm_inv N np" for N np now p
  proof -
    note good = that
    obtain k vp rid recn rtt ratio ren np' where s:
      "hermes_send r now p np = Inr (0, hermes_stamp now k rid recn rtt ratio ren p, np')" "hm_inv N np'"
      and k: "om_get k (hm_vp_map np) = Some vp"
      using hermes_send_ok[OF good(3), of r now p] by blast
    have "uint k < N"
      using keys_upto_key[of N "hm_vp_map np" k] good k by (simp add: hm_inv_def hm_paths_inv_def)
    then show ?thesis using s by (simp add: hermes_tx_def hermes_stamp_def)
  qed
qed

text \<open>C21: In every state of a Hermes processor the paths are numbered from zero and none
  has failed, every flow is on an existing path, and the bitmap of every response has
  between 1 and 25 entries, so the ratio of marks that \<^verbatim>\<open>send\<close> computes never divides by
  zero.\<close>

theorem hermes_invariant:
  assumes "hermes_reach N s" and "0 < N" and "N < 2 ^ 31"
  shows "om_keys (hm_vp_map s) = List.map of_nat [0..<nat N] \<and>
    (\<forall>(k, vp)\<in>set (hm_vp_map s). hm_hashkey vp = k \<and> rank (hm_ca_row vp) \<noteq> FAILED) \<and>
    (\<forall>(f, k)\<in>set (flow_table s). om_get k (hm_vp_map s) \<noteq> None) \<and>
    (\<forall>(k, r)\<in>set (hm_ca_map s). 1 \<le> length (ecn_bitmap r) \<and> length (ecn_bitmap r) \<le> 25) \<and>
    distinct (hm_ca_queue s) \<and> set (hm_ca_queue s) = set (om_keys (hm_ca_map s))"
proof -
  have inv: "hm_inv N s" using hermes_reach_inv[OF assms] .
  have "\<forall>(k, r)\<in>set (hm_ca_map s). 1 \<le> length (ecn_bitmap r) \<and> length (ecn_bitmap r) \<le> 25"
    using inv by (auto simp: hm_inv_def hm_resp_inv_def bitmap_ok_def ECN_PCNT_def Suc_le_eq)
  then show ?thesis
    using inv by (simp add: hm_inv_def hm_paths_inv_def keys_upto_def hm_resp_inv_def ring_inv_def)
qed

text \<open>C22: Sending with Hermes always succeeds.  A new flow goes to a least loaded path of
  the best rank; a known flow stays on its path, or leaves it for a least loaded path
  of the best rank when its own is congested, below three quarters of the initial
  rate, and worse in delay and in marks by the fixed margins.  The flow table records
  the path, only its counters grow, and the packet carries the delay, the mark and the
  share of marks of the next response that is at most half a second old.\<close>

theorem hermes_send_effect:
  assumes "hermes_reach N s" and "0 < N" and "N < 2 ^ 31"
  shows "\<exists>k vp rid recn rtt ratio ren s'.
    hermes_send r now p s = Inr (0, hermes_stamp now k rid recn rtt ratio ren p, s') \<and>
    om_get k (hm_vp_map s) = Some vp \<and>
    (case om_get (of_int (flowID p)) (flow_table s) of
       None \<Rightarrow> best_path s vp
     | Some k0 \<Rightarrow> k = k0 \<or> best_path s vp \<and> (\<exists>vp0. om_get k0 (hm_vp_map s) = Some vp0 \<and> may_move vp0 vp)) \<and>
    flow_table s' = om_put (of_int (flowID p)) k (flow_table s) \<and>
    (\<forall>j. map_option (\<lambda>v. hm_send_undefined (hm_ca_row v)) (om_get j (hm_vp_map s')) =
      map_option (\<lambda>v. hm_send_undefined (hm_ca_row v) + (if j = k then 1 else 0)) (om_get j (hm_vp_map s))) \<and>
    (if ren then \<exists>x. om_get rid (hm_ca_map s) = Some x \<and> reports now x recn rtt ratio
     else \<forall>j x. om_get j (hm_ca_map s) = Some x \<longrightarrow> \<not> fresh_response now x) \<and>
    0 \<le> ratio \<and> ratio \<le> 1"
proof -
  note inv = hermes_reach_inv[OF assms]
  obtain k vp rid recn rtt ratio ren s' where s:
    "hermes_send r now p s = Inr (0, hermes_stamp now k rid recn rtt ratio ren p, s')"
    "hermes_route r (of_int (flowID p)) s = Inr k" "om_get k (hm_vp_map s) = Some vp"
    "flow_table s' = om_put (of_int (flowID p)) k (flow_table s)" "0 \<le> ratio" "ratio \<le> 1"
    and paths: "\<forall>j. om_get j (hm_vp_map s') = map_option (\<lambda>v. if j = k
       then v\<lparr>hm_ca_row := (hm_ca_row v)\<lparr>hm_send_cnt := hm_send_cnt (hm_ca_row v) + 1,
         hm_send_undefined := hm_send_undefined (hm_ca_row v) + 1\<rparr>\<rparr> else v) (om_get j (hm_vp_map s))"
    and rep: "if ren then \<exists>x. om_get rid (hm_ca_map s) = Some x \<and> reports now x recn rtt ratio
     else recn = False \<and> ratio = 0 \<and> (\<forall>j x. om_get j (hm_ca_map s) = Some x \<longrightarrow> \<not> fresh_response now x)"
    using hermes_send_ok[OF inv, of r now p] by (elim exE conjE) rule
  have route: "case om_get (of_int (flowID p)) (flow_table s) of None \<Rightarrow> best_path s vp
     | Some k0 \<Rightarrow> k = k0 \<or> best_path s vp \<and> (\<exists>vp0. om_get k0 (hm_vp_map s) = Some vp0 \<and> may_move vp0 vp)"
    using hermes_route_ok[OF inv, of r "of_int (flowID p)"] s(2,3) by auto
  have counts: "\<forall>j. map_option (\<lambda>v. hm_send_undefined (hm_ca_row v)) (om_get j (hm_vp_map s')) =
      map_option (\<lambda>v. hm_send_undefined (hm_ca_row v) + (if j = k then 1 else 0)) (om_get j (hm_vp_map s))"
    using paths by (auto simp: option.map_comp comp_def intro: map_option_cong)
  have rep': "if ren then \<exists>x. om_get rid (hm_ca_map s) = Some x \<and> reports now x recn rtt ratio
     else \<forall>j x. om_get j (hm_ca_map s) = Some x \<longrightarrow> \<not> fresh_response now x"
    using rep by (simp split: if_splits)
  show ?thesis
    by (rule exI[of _ k], rule exI[of _ vp], rule exI[of _ rid], rule exI[of _ recn], rule exI[of _ rtt],
        rule exI[of _ ratio], rule exI[of _ ren], rule exI[of _ s'], intro conjI s route counts rep')
qed

text \<open>Receiving with Hermes always succeeds.  A report sets the delay, the share of
  marks and the rank of its path alone: good when both are low, congested when both
  are high, grey otherwise, so a path never fails.\<close>

theorem hermes_recv_effect:
  assumes "hermes_reach N s" and "0 < N" and "N < 2 ^ 31"
  shows "\<exists>s'. hermes_recv u now p s = Inr (0, s') \<and> flow_table s' = flow_table s \<and>
    (\<forall>k vp. om_get k (hm_vp_map s) = Some vp \<longrightarrow> (\<exists>vp'. om_get k (hm_vp_map s') = Some vp' \<and>
      (if hermes_response_en (hermes_row p) \<and> hermes_vp_rid (hermes_row p) = k
       then c_rtt (hm_ca_row vp') = hermes_vp_rtt (hermes_row p) \<and>
         vp_ecn_ratio (hm_ca_row vp') = hermes_ecn_ratio (hermes_row p) \<and>
         (rank (hm_ca_row vp') = GOOD \<longleftrightarrow>
            hermes_ecn_ratio (hermes_row p) < 4 / 10 \<and> hermes_vp_rtt (hermes_row p) < 1 / 10000) \<and>
         (rank (hm_ca_row vp') = CONGESTED \<longleftrightarrow>
            hermes_ecn_ratio (hermes_row p) > 4 / 10 \<and> hermes_vp_rtt (hermes_row p) > 15 / 100000) \<and>
         rank (hm_ca_row vp') \<noteq> FAILED
       else vp' = vp)))"
proof -
  obtain s' where s': "hermes_recv u now p s = Inr (0, s')" "flow_table s' = flow_table s"
    "\<forall>k. om_get k (hm_vp_map s') = map_option (\<lambda>vp.
       if hermes_response_en (hermes_row p) \<and> hermes_vp_rid (hermes_row p) = k
       then vp\<lparr>hm_ca_row := hermes_feedback p (hm_ca_row vp)\<rparr> else vp) (om_get k (hm_vp_map s))"
    using hermes_recv_ok[OF hermes_reach_inv[OF assms], of u now p] by blast
  let ?on = "\<lambda>k. hermes_response_en (hermes_row p) \<and> hermes_vp_rid (hermes_row p) = k"
  have rank: "rank (hm_ca_row (vp\<lparr>hm_ca_row := hermes_feedback p (hm_ca_row vp)\<rparr>)) =
      classify_rank (hermes_ecn_ratio (hermes_row p)) (hermes_vp_rtt (hermes_row p))" for vp
    by (simp add: hermes_feedback_def Let_def)
  have "\<exists>vp'. om_get k (hm_vp_map s') = Some vp' \<and>
      (if ?on k
       then c_rtt (hm_ca_row vp') = hermes_vp_rtt (hermes_row p) \<and>
         vp_ecn_ratio (hm_ca_row vp') = hermes_ecn_ratio (hermes_row p) \<and>
         (rank (hm_ca_row vp') = GOOD \<longleftrightarrow>
            hermes_ecn_ratio (hermes_row p) < 4 / 10 \<and> hermes_vp_rtt (hermes_row p) < 1 / 10000) \<and>
         (rank (hm_ca_row vp') = CONGESTED \<longleftrightarrow>
            hermes_ecn_ratio (hermes_row p) > 4 / 10 \<and> hermes_vp_rtt (hermes_row p) > 15 / 100000) \<and>
         rank (hm_ca_row vp') \<noteq> FAILED
       else vp' = vp)" if k: "om_get k (hm_vp_map s) = Some vp" for k vp
  proof (cases "?on k")
    case True
    have "rank (hm_ca_row (vp\<lparr>hm_ca_row := hermes_feedback p (hm_ca_row vp)\<rparr>)) = GOOD \<longleftrightarrow>
        hermes_ecn_ratio (hermes_row p) < 4 / 10 \<and> hermes_vp_rtt (hermes_row p) < 1 / 10000"
      "rank (hm_ca_row (vp\<lparr>hm_ca_row := hermes_feedback p (hm_ca_row vp)\<rparr>)) = CONGESTED \<longleftrightarrow>
        hermes_ecn_ratio (hermes_row p) > 4 / 10 \<and> hermes_vp_rtt (hermes_row p) > 15 / 100000"
      "rank (hm_ca_row (vp\<lparr>hm_ca_row := hermes_feedback p (hm_ca_row vp)\<rparr>)) \<noteq> FAILED"
      unfolding rank by (auto simp: classify_rank_def TH_ECN_def TH_RTT_LOW_def TH_RTT_HIGH_def)
    moreover have "c_rtt (hermes_feedback p ca) = hermes_vp_rtt (hermes_row p)"
      "vp_ecn_ratio (hermes_feedback p ca) = hermes_ecn_ratio (hermes_row p)" for ca
      by (simp_all add: hermes_feedback_def Let_def)
    ultimately show ?thesis using True k s'(3)
      by (intro exI[of _ "vp\<lparr>hm_ca_row := hermes_feedback p (hm_ca_row vp)\<rparr>"]) auto
  qed (use k s'(3) in auto)
  then show ?thesis using s'(1,2) by blast
qed

text \<open>Packets received one after the other.\<close>

fun hermes_recvs :: "(rat \<times> rat \<times> packet) list \<Rightarrow> hermes_processor \<Rightarrow> hermes_processor result" where
  "hermes_recvs [] s = Inr s"
| "hermes_recvs ((u, now, p) # ps) s = bind_r (hermes_recv u now p s) (\<lambda>(ret, s'). hermes_recvs ps s')"

definition marks_on :: "u32 \<Rightarrow> (rat \<times> rat \<times> packet) list \<Rightarrow> bool list" where
  "marks_on k ps = List.map (\<lambda>(u, now, p). ce p \<noteq> 0) (filter (\<lambda>(u, now, p). hermes_vp_id (hermes_row p) = k) ps)"

definition bitmap_of :: "u32 \<Rightarrow> hermes_processor \<Rightarrow> bool list" where
  "bitmap_of k s = (case om_get k (hm_ca_map s) of None \<Rightarrow> [] | Some r \<Rightarrow> ecn_bitmap r)"

lemma bitmap_of_length: "hm_inv N s \<Longrightarrow> length (bitmap_of k s) \<le> ECN_PCNT"
  using hm_resp_get(2)[of "hm_ca_map s" "hm_ca_queue s" k]
  by (auto simp: bitmap_of_def hm_inv_def bitmap_ok_def split: option.split)

lemma hermes_recvs_bitmap:
  assumes "hm_inv N s"
  shows "\<exists>s'. hermes_recvs ps s = Inr s' \<and> hm_inv N s' \<and>
    bitmap_of k s' = fold push_mark (marks_on k ps) (bitmap_of k s)"
  using assms
proof (induction ps arbitrary: s)
  case (Cons e ps)
  obtain u now p where e: "e = (u, now, p)" by (cases e) auto
  obtain s1 where s1: "hermes_recv u now p s = Inr (0, s1)" "hm_inv N s1"
    "\<forall>j. om_get j (hm_ca_map s1) =
      (if j = hermes_vp_id (hermes_row p)
       then Some (hermes_note u now p (case om_get j (hm_ca_map s) of Some r \<Rightarrow> r
         | None \<Rightarrow> (hermes_init_ca_response now)\<lparr>rsp_hashkey := j\<rparr>))
       else om_get j (hm_ca_map s))"
    using hermes_recv_ok[OF Cons.prems, of u now p] by blast
  have b1: "bitmap_of k s1 =
      (if hermes_vp_id (hermes_row p) = k then push_mark (ce p \<noteq> 0) (bitmap_of k s) else bitmap_of k s)"
    using s1(3) by (auto simp: bitmap_of_def hermes_init_ca_response_def split: option.split)
  show ?case using Cons.IH[OF s1(2)] s1(1) b1
    by (cases "hermes_vp_id (hermes_row p) = k") (auto simp: e marks_on_def)
qed (simp add: marks_on_def)

text \<open>The bitmap of a path is a sliding window: after any packets received, without a
  send between them, it holds the last 25 of its earlier entries followed by the marks
  of the packets that came on this path, in order.\<close>

theorem hermes_bitmap_window:
  assumes "hermes_reach N s" and "0 < N" and "N < 2 ^ 31"
  shows "\<exists>s'. hermes_recvs ps s = Inr s' \<and>
    bitmap_of k s' = (let bs = bitmap_of k s @ marks_on k ps in drop (length bs - 25) bs)"
proof -
  have inv: "hm_inv N s" using hermes_reach_inv[OF assms] .
  show ?thesis
    using hermes_recvs_bitmap[OF inv, of ps k] fold_push_mark[OF bitmap_of_length[OF inv], of "marks_on k ps" k]
    by (auto simp: ECN_PCNT_def Let_def)
qed

subsection \<open>A processor with two paths\<close>

definition ex_hermes_path :: "u32 \<Rightarrow> hermes_vp_record" where
  "ex_hermes_path k = (hermes_init_vp_record 0 HERMES_INIT_RRATE)\<lparr>hm_hashkey := k\<rparr>"

definition ex_hermes :: hermes_processor where
  "ex_hermes = \<lparr> hm_src = 1, hm_dst = 2, hm_VP_SIZE = 2, hm_hashkey_counter = 2, hm_ece_cnt = 0,
     hm_init_rrate = HERMES_INIT_RRATE, hm_vp_map = [(0, ex_hermes_path 0), (1, ex_hermes_path 1)],
     hm_ca_queue = [], hm_ca_map = [], flow_table = [] \<rparr>"

lemma new_ex_hermes: "new_HermesProcessor 0 1 2 2 = Some ex_hermes"
proof -
  let ?b = "ex_hermes\<lparr>hm_hashkey_counter := 0, hm_vp_map := []\<rparr>"
  let ?s1 = "ex_hermes\<lparr>hm_hashkey_counter := 1, hm_vp_map := [(0, ex_hermes_path 0)]\<rparr>"
  have 1: "hermes_vp_init 0 ?b = hermes_vp_init 0 ?s1"
    by (subst hermes_vp_init.simps) (simp add: size_t_of_int_def hermes_vp_alloc_def ex_hermes_path_def ex_hermes_def Let_def)
  have 2: "hermes_vp_init 0 ?s1 = hermes_vp_init 0 ex_hermes"
    by (subst hermes_vp_init.simps) (simp add: size_t_of_int_def hermes_vp_alloc_def ex_hermes_path_def ex_hermes_def Let_def)
  have 3: "hermes_vp_init 0 ex_hermes = Some ex_hermes"
    by (subst hermes_vp_init.simps) (simp add: size_t_of_int_def ex_hermes_def)
  have b: "?b = \<lparr> hm_src = 1, hm_dst = 2, hm_VP_SIZE = 2, hm_hashkey_counter = 0, hm_ece_cnt = 0,
     hm_init_rrate = HERMES_INIT_RRATE, hm_vp_map = om_empty, hm_ca_queue = [], hm_ca_map = om_empty,
     flow_table = om_empty \<rparr>" by (simp add: ex_hermes_def om_empty_def)
  show ?thesis unfolding new_HermesProcessor_def b[symmetric] by (simp only: 1 2 3)
qed

lemma ex_hermes_reach: "hermes_reach 2 ex_hermes"
  by (rule hermes_reach.start[OF new_ex_hermes])

text \<open>A marked packet on path 5 reports that path 0 is slow and marked.\<close>

definition ex_hermes_report :: packet where
  "ex_hermes_report = Packet_alloc\<lparr>ce := 1, flowID := 3, hermes_row := HermesRow_zero\<lparr>hermes_vp_id := 5,
     hermes_response_en := True, hermes_vp_rid := 0, hermes_vp_rtt := 1 / 1000, hermes_ecn_ratio := 1 / 2\<rparr>\<rparr>"

lemma hermes_invariant_witness:
  "om_keys (hm_vp_map ex_hermes) = [0, 1] \<and> distinct (hm_ca_queue ex_hermes)"
  using hermes_invariant[OF ex_hermes_reach] by (simp add: upt_rec)

lemma hermes_send_effect_witness:
  "\<exists>k rid recn rtt ratio ren s'. hermes_send 0 1 ex_hermes_report ex_hermes =
      Inr (0, hermes_stamp 1 k rid recn rtt ratio ren ex_hermes_report, s') \<and> flow_table s' = om_put 3 k []"
proof -
  have "flowID ex_hermes_report = 3" "flow_table ex_hermes = []" by (simp_all add: ex_hermes_report_def ex_hermes_def)
  then have fl: "om_put (of_int (flowID ex_hermes_report)) k (flow_table ex_hermes) = om_put 3 k []" for k by simp
  have "(0::int) < 2" "(2::int) < 2 ^ 31" by simp_all
  from hermes_send_effect[OF ex_hermes_reach this, of 0 1 ex_hermes_report] show ?thesis unfolding fl
    by (elim exE conjE) (intro exI conjI)
qed

lemma hermes_recv_effect_witness:
  "\<exists>s' vp'. hermes_recv (1 / 2) 1 ex_hermes_report ex_hermes = Inr (0, s') \<and>
    om_get 0 (hm_vp_map s') = Some vp' \<and> rank (hm_ca_row vp') = CONGESTED"
proof -
  have v: "om_get 0 (hm_vp_map ex_hermes) = Some (ex_hermes_path 0)" by (simp add: ex_hermes_def om_get_Cons)
  have p: "hermes_response_en (hermes_row ex_hermes_report)" "hermes_vp_rid (hermes_row ex_hermes_report) = 0"
    "hermes_vp_rtt (hermes_row ex_hermes_report) = 1 / 1000" "hermes_ecn_ratio (hermes_row ex_hermes_report) = 1 / 2"
    by (simp_all add: ex_hermes_report_def)
  show ?thesis using hermes_recv_effect[OF ex_hermes_reach, of "1 / 2" 1 ex_hermes_report] v p by fastforce
qed

lemma hermes_bitmap_window_witness:
  "\<exists>s'. hermes_recvs [(0, 1, ex_hermes_report), (0, 2, ex_hermes_report)] ex_hermes = Inr s' \<and>
    bitmap_of 5 s' = [True, True]"
  using hermes_bitmap_window[OF ex_hermes_reach, of "[(0, 1, ex_hermes_report), (0, 2, ex_hermes_report)]" 5]
  by (simp add: marks_on_def bitmap_of_def ex_hermes_report_def ex_hermes_def)

end
