(* ===== verification/Dre.thy ===== *)
theory Dre
  imports Packet
begin

text \<open>
  The discounting rate estimator of a link (\<^verbatim>\<open>link/dre.h\<close>, \<^verbatim>\<open>link/dre.cc\<close>): the bits
  sent are added to a counter that a timer halves, and the counter, relative to the
  bandwidth, is quantised to the congestion metric of CONGA.
\<close>

definition MAX_CE :: int where "MAX_CE = 8"
definition T_DRE :: rat where "T_DRE = 4 / 100000"
definition ALPHA :: rat where "ALPHA = 1 / 2"

record dre_agent =
  dre_bandWidth :: rat
  dre_X :: rat
  dre_cost :: int
  dre_util :: rat

definition new_DREAgent :: "rat \<Rightarrow> dre_agent" where
  "new_DREAgent band = \<lparr> dre_bandWidth = band, dre_X = 0, dre_cost = 0, dre_util = 0 \<rparr>"

text \<open>The cast of \<^verbatim>\<open>(int) X*ALPHA/(T_DRE*bandWidth)*MAX_CE\<close> applies to \<^verbatim>\<open>X\<close>; the assignment
  drops the fraction of the product.  A bandwidth of zero makes the quotient
  undefined.\<close>

definition updateDRECost :: "dre_agent \<Rightarrow> dre_agent result" where
  "updateDRECost s =
    (if dre_bandWidth s = 0 then Inl DivByZero
     else let c = int_of_double (of_int (int_of_double (dre_X s)) * ALPHA / (T_DRE * dre_bandWidth s) * of_int MAX_CE)
          in Inr (s\<lparr>dre_util := dre_X s * ALPHA / (T_DRE * dre_bandWidth s),
                    dre_cost := if c \<ge> MAX_CE then MAX_CE - 1 else c\<rparr>))"

definition dre_recv :: "packet \<Rightarrow> dre_agent \<Rightarrow> dre_agent result" where
  "dre_recv p s = updateDRECost (s\<lparr>dre_X := dre_X s + of_int (pkt_size p * 8)\<rparr>)"

text \<open>The timer; the result is the delay until it expires again.\<close>

definition decayTimeout :: "dre_agent \<Rightarrow> dre_agent \<times> rat" where
  "decayTimeout s = (s\<lparr>dre_X := dre_X s * (1 - ALPHA)\<rparr>, T_DRE)"

definition dreCost :: "dre_agent \<Rightarrow> (int \<times> dre_agent) result" where
  "dreCost s = bind_r (updateDRECost s) (\<lambda>s'. Inr (dre_cost s', s'))"

subsection \<open>The metric\<close>

definition dre_ok :: "dre_agent \<Rightarrow> bool" where
  "dre_ok s \<longleftrightarrow> 0 < dre_bandWidth s \<and> 0 \<le> dre_X s"

definition dre_metric :: "rat \<Rightarrow> rat \<Rightarrow> int" where
  "dre_metric band x = min (MAX_CE - 1) \<lfloor>of_int \<lfloor>x\<rfloor> * of_int MAX_CE / (2 * T_DRE * band)\<rfloor>"

lemma new_dre_ok: "0 < band \<Longrightarrow> dre_ok (new_DREAgent band)"
  by (simp add: dre_ok_def new_DREAgent_def)

lemma dre_metric_bounds: "0 < band \<Longrightarrow> 0 \<le> x \<Longrightarrow> 0 \<le> dre_metric band x \<and> dre_metric band x < 8"
  by (simp add: dre_metric_def MAX_CE_def T_DRE_def)

lemma dre_metric_mono:
  assumes "0 < band" and "x \<le> y"
  shows "dre_metric band x \<le> dre_metric band y"
proof -
  have "of_int \<lfloor>x\<rfloor> * of_int MAX_CE / (2 * T_DRE * band) \<le> (of_int \<lfloor>y\<rfloor> * of_int MAX_CE / (2 * T_DRE * band) :: rat)"
    using assms floor_mono[of x y]
    by (intro divide_right_mono mult_right_mono) (auto simp: MAX_CE_def T_DRE_def)
  then show ?thesis unfolding dre_metric_def by (intro min.mono floor_mono) auto
qed

lemma updateDRECost_ok:
  assumes "dre_ok s"
  shows "updateDRECost s = Inr (s\<lparr>dre_util := dre_X s / (2 * T_DRE * dre_bandWidth s),
    dre_cost := dre_metric (dre_bandWidth s) (dre_X s)\<rparr>)"
proof -
  have x: "int_of_double (dre_X s) = \<lfloor>dre_X s\<rfloor>" using assms by (simp add: int_of_double_def dre_ok_def)
  let ?d = "of_int \<lfloor>dre_X s\<rfloor> * ALPHA / (T_DRE * dre_bandWidth s) * of_int MAX_CE"
  have d: "?d = of_int \<lfloor>dre_X s\<rfloor> * of_int MAX_CE / (2 * T_DRE * dre_bandWidth s)" by (simp add: ALPHA_def)
  have "0 \<le> ?d" using assms by (simp add: dre_ok_def ALPHA_def T_DRE_def MAX_CE_def)
  then have "int_of_double ?d = \<lfloor>of_int \<lfloor>dre_X s\<rfloor> * of_int MAX_CE / (2 * T_DRE * dre_bandWidth s)\<rfloor>"
    unfolding d by (simp add: int_of_double_def)
  moreover have "dre_X s * ALPHA / (T_DRE * dre_bandWidth s) = dre_X s / (2 * T_DRE * dre_bandWidth s)"
    by (simp add: ALPHA_def)
  ultimately show ?thesis
    using assms unfolding updateDRECost_def x Let_def by (auto simp: dre_metric_def dre_ok_def min_def)
qed

lemma dre_recv_ok:
  assumes "dre_ok s" and "0 \<le> pkt_size p"
  shows "\<exists>s'. dre_recv p s = Inr s' \<and> dre_ok s' \<and> dre_bandWidth s' = dre_bandWidth s \<and>
    dre_X s' = dre_X s + of_int (pkt_size p * 8) \<and> dre_cost s' = dre_metric (dre_bandWidth s') (dre_X s') \<and>
    dre_util s' = dre_X s' / (2 * T_DRE * dre_bandWidth s')"
proof -
  have "dre_ok (s\<lparr>dre_X := dre_X s + of_int (pkt_size p * 8)\<rparr>)" using assms by (simp add: dre_ok_def)
  then show ?thesis using updateDRECost_ok assms by (simp add: dre_recv_def dre_ok_def)
qed

lemma dreCost_ok:
  assumes "dre_ok s"
  shows "\<exists>s'. dreCost s = Inr (dre_metric (dre_bandWidth s) (dre_X s), s') \<and> dre_ok s' \<and>
    dre_bandWidth s' = dre_bandWidth s \<and> dre_X s' = dre_X s"
  using updateDRECost_ok[OF assms] assms by (simp add: dreCost_def dre_ok_def)

subsection \<open>Accuracy of the estimate\<close>

text \<open>A history: the packets of each interval between two expirations of the timer.\<close>

fun dre_interval :: "packet list \<Rightarrow> dre_agent \<Rightarrow> dre_agent result" where
  "dre_interval [] s = Inr s"
| "dre_interval (p # ps) s = bind_r (dre_recv p s) (dre_interval ps)"

fun dre_history :: "packet list list \<Rightarrow> dre_agent \<Rightarrow> dre_agent result" where
  "dre_history [] s = Inr s"
| "dre_history (ps # h) s = bind_r (dre_interval ps s) (\<lambda>s'. dre_history h (fst (decayTimeout s')))"

definition bits :: "packet list \<Rightarrow> int" where
  "bits ps = (\<Sum>p\<leftarrow>ps. pkt_size p * 8)"

lemma dre_interval_ok:
  assumes "dre_ok s" and "\<forall>p\<in>set ps. 0 \<le> pkt_size p"
  shows "\<exists>s'. dre_interval ps s = Inr s' \<and> dre_ok s' \<and> dre_bandWidth s' = dre_bandWidth s \<and>
    dre_X s' = dre_X s + of_int (bits ps) \<and>
    (ps \<noteq> [] \<longrightarrow> dre_cost s' = dre_metric (dre_bandWidth s') (dre_X s') \<and>
      dre_util s' = dre_X s' / (2 * T_DRE * dre_bandWidth s'))"
  using assms
proof (induction ps arbitrary: s)
  case (Cons p ps)
  obtain s1 where s1: "dre_recv p s = Inr s1" "dre_ok s1" "dre_bandWidth s1 = dre_bandWidth s"
    "dre_X s1 = dre_X s + of_int (pkt_size p * 8)" "dre_cost s1 = dre_metric (dre_bandWidth s1) (dre_X s1)"
    "dre_util s1 = dre_X s1 / (2 * T_DRE * dre_bandWidth s1)"
    using dre_recv_ok[of s p] Cons.prems by auto
  obtain s2 where s2: "dre_interval ps s1 = Inr s2" "dre_ok s2" "dre_bandWidth s2 = dre_bandWidth s1"
    "dre_X s2 = dre_X s1 + of_int (bits ps)" "ps \<noteq> [] \<longrightarrow> dre_cost s2 = dre_metric (dre_bandWidth s2) (dre_X s2) \<and>
      dre_util s2 = dre_X s2 / (2 * T_DRE * dre_bandWidth s2)"
    using Cons.IH[OF s1(2)] Cons.prems by auto
  show ?case using s1 s2 by (cases ps) (auto simp: bits_def)
qed (simp add: bits_def)

lemma dre_history_ok:
  assumes "dre_ok s" and "\<forall>ps\<in>set h. (\<forall>p\<in>set ps. 0 \<le> pkt_size p) \<and> of_int (bits ps) \<le> b" and "dre_X s \<le> b"
  shows "\<exists>s'. dre_history h s = Inr s' \<and> dre_ok s' \<and> dre_bandWidth s' = dre_bandWidth s \<and> dre_X s' \<le> b"
  using assms
proof (induction h arbitrary: s)
  case (Cons ps h)
  obtain s1 where s1: "dre_interval ps s = Inr s1" "dre_ok s1" "dre_bandWidth s1 = dre_bandWidth s"
    "dre_X s1 = dre_X s + of_int (bits ps)"
    using dre_interval_ok[of s ps] Cons.prems by auto
  let ?s2 = "fst (decayTimeout s1)"
  have "of_int (bits ps) \<le> b" using Cons.prems(2) by simp
  then have "dre_X ?s2 \<le> b" using s1(4) Cons.prems(3) by (simp add: decayTimeout_def ALPHA_def)
  moreover have "dre_ok ?s2" "dre_bandWidth ?s2 = dre_bandWidth s"
    using s1 by (simp_all add: decayTimeout_def dre_ok_def ALPHA_def)
  ultimately show ?case using Cons.IH[of ?s2] s1 Cons.prems(2) by auto
qed simp

text \<open>The estimator of a link never reports more than the offered load: after any
  history in which no interval between two expirations carries more than \<^verbatim>\<open>b\<close> bits, the
  utilisation computed with the last packet of an interval is at most \<^verbatim>\<open>b\<close> divided by
  what the link can carry in an interval, and the metric is between 0 and 7 and at most
  the metric of twice \<^verbatim>\<open>b\<close>.\<close>

theorem dre_bounded_by_load:
  assumes "0 < band" and "\<forall>qs\<in>set (ps # h). (\<forall>p\<in>set qs. 0 \<le> pkt_size p) \<and> of_int (bits qs) \<le> b"
    and "ps \<noteq> []"
  shows "\<exists>s. bind_r (dre_history h (new_DREAgent band)) (dre_interval ps) = Inr s \<and>
    dre_util s \<le> b / (T_DRE * band) \<and> 0 \<le> dre_cost s \<and> dre_cost s < 8 \<and> dre_cost s \<le> dre_metric band (2 * b)"
proof -
  have "0 \<le> bits ps" unfolding bits_def using assms(2) by (intro sum_list_nonneg) auto
  then have "(0::rat) \<le> of_int (bits ps)" by simp
  moreover have "of_int (bits ps) \<le> b" using assms(2) by simp
  ultimately have b: "0 \<le> b" "of_int (bits ps) \<le> b" by linarith+
  obtain s1 where s1: "dre_history h (new_DREAgent band) = Inr s1" "dre_ok s1" "dre_bandWidth s1 = band" "dre_X s1 \<le> b"
    using dre_history_ok[OF new_dre_ok[OF assms(1)], of h b] assms(2) b(1) by (auto simp: new_DREAgent_def)
  obtain s2 where s2: "dre_interval ps s1 = Inr s2" "dre_ok s2" "dre_bandWidth s2 = band"
    "dre_X s2 = dre_X s1 + of_int (bits ps)" "dre_cost s2 = dre_metric band (dre_X s2)"
    "dre_util s2 = dre_X s2 / (2 * T_DRE * band)"
    using dre_interval_ok[OF s1(2), of ps] assms(2,3) s1(3) by auto
  have x: "dre_X s2 \<le> 2 * b" using s2(4) s1(4) b(2) by linarith
  then have "dre_util s2 \<le> 2 * b / (2 * T_DRE * band)"
    unfolding s2(6) using assms(1) by (intro divide_right_mono) (simp_all add: T_DRE_def)
  then have "dre_util s2 \<le> b / (T_DRE * band)" by simp
  then show ?thesis using s1(1) s2 dre_metric_bounds[OF assms(1), of "dre_X s2"] dre_metric_mono[OF assms(1) x]
    by (simp add: dre_ok_def)
qed

lemma dre_bounded_by_load_witness:
  "\<exists>s. bind_r (dre_history [[Packet_alloc\<lparr>pkt_size := 1000\<rparr>]] (new_DREAgent 1000000000))
      (dre_interval [Packet_alloc\<lparr>pkt_size := 1000\<rparr>]) = Inr s \<and> dre_util s \<le> 1 / 5 \<and> dre_cost s \<le> 1"
proof -
  have m: "dre_metric 1000000000 (2 * 8000) = 1" by (simp add: dre_metric_def MAX_CE_def T_DRE_def floor_eq_iff)
  show ?thesis
    using dre_bounded_by_load[of 1000000000 "[Packet_alloc\<lparr>pkt_size := 1000\<rparr>]" "[[Packet_alloc\<lparr>pkt_size := 1000\<rparr>]]" 8000]
    unfolding m by (auto simp: bits_def T_DRE_def)
qed

end
