(* ===== verification/LinkDelay.thy ===== *)
theory LinkDelay
  imports Dre FifoQueue
begin

text \<open>
  A link (\<^verbatim>\<open>link/delay.h\<close>, \<^verbatim>\<open>link/delay.cc\<close>): it raises the congestion metric that a
  packet of CONGA carries to its own, computed by its rate estimator, and schedules
  the packet's arrival after the transmission time and the delay.
\<close>

text \<open>What is scheduled, with the delay from now: a packet of a dynamic link comes back
  to the link itself, another goes to the target, and the sender's handler is told
  when the transmission ends.\<close>

datatype sched = To_self nat rat | To_target packet rat | To_sender rat

record link =
  ld_bandwidth :: rat
  ld_delay :: rat
  ld_dynamic :: bool
  ld_avoidReordering :: bool
  ld_latest_time :: rat
  ld_itq :: "packet_queue option"
  ld_time :: "nat \<Rightarrow> rat"
  ld_dre :: "dre_agent option"

definition new_LinkDelay :: "rat \<Rightarrow> rat \<Rightarrow> bool \<Rightarrow> link" where
  "new_LinkDelay bw dly avoid = \<lparr> ld_bandwidth = bw, ld_delay = dly, ld_dynamic = False,
     ld_avoidReordering = avoid, ld_latest_time = 0, ld_itq = None, ld_time = (\<lambda>_. 0), ld_dre = None \<rparr>"

text \<open>\<^verbatim>\<open>$link isDynamic\<close>\<close>

definition link_isDynamic :: "link \<Rightarrow> link" where
  "link_isDynamic s = s\<lparr>ld_dynamic := True, ld_itq := Some pq_new\<rparr>"

definition txtime :: "packet \<Rightarrow> link \<Rightarrow> rat result" where
  "txtime p s = (if ld_bandwidth s = 0 then Inl DivByZero else Inr (8 * of_int (pkt_size p) / ld_bandwidth s))"

text \<open>The estimator is made when the first packet of CONGA passes.\<close>

definition link_meter :: "packet \<Rightarrow> link \<Rightarrow> (int \<times> link) result" where
  "link_meter p s =
    bind_r (dre_recv p (case ld_dre s of None \<Rightarrow> new_DREAgent (ld_bandwidth s) | Some d \<Rightarrow> d)) (\<lambda>d.
      bind_r (dreCost d) (\<lambda>(c, d'). Inr (c, s\<lparr>ld_dre := Some d'\<rparr>)))"

definition link_mark_conga :: "packet \<Rightarrow> link \<Rightarrow> (packet \<times> link) result" where
  "link_mark_conga p s =
    (if ifCONGA p = 1
     then bind_r (link_meter p s) (\<lambda>(c, s'). Inr (if c > CE p then p\<lparr>CE := c\<rparr> else p, s'))
     else Inr (p, s))"

definition link_mark_route :: "packet \<Rightarrow> link \<Rightarrow> (packet \<times> link) result" where
  "link_mark_route p s =
    (if en_flag (congaRouteRow p) = 1
     then bind_r (link_meter p s) (\<lambda>(c, s').
       Inr (if c > congDegree (congaRouteRow p)
            then p\<lparr>congaRouteRow := (congaRouteRow p)\<lparr>congDegree := c\<rparr>\<rparr> else p, s'))
     else Inr (p, s))"

definition link_schedule :: "rat \<Rightarrow> nat \<times> packet \<Rightarrow> rat \<Rightarrow> link \<Rightarrow> (sched list \<times> link) result" where
  "link_schedule now r txt s =
    (if ld_dynamic s then
       (case ld_itq s of None \<Rightarrow> Inl NullDeref
        | Some q \<Rightarrow> Inr ([To_self (fst r) (txt + ld_delay s), To_sender txt],
            s\<lparr>ld_itq := Some (pq_enque r q), ld_time := (ld_time s)(fst r := now + (txt + ld_delay s))\<rparr>))
     else if ld_avoidReordering s then
       (if txt + ld_delay s < ld_latest_time s - now \<and> ld_latest_time s > 0
        then (let l = ld_latest_time s + txt
              in Inr ([To_target (snd r) (l - now), To_sender txt], s\<lparr>ld_latest_time := l\<rparr>))
        else Inr ([To_target (snd r) (txt + ld_delay s), To_sender txt],
                  s\<lparr>ld_latest_time := now + txt + ld_delay s\<rparr>))
     else Inr ([To_target (snd r) (txt + ld_delay s), To_sender txt], s))"

definition link_recv :: "rat \<Rightarrow> nat \<times> packet \<Rightarrow> link \<Rightarrow> (sched list \<times> link) result" where
  "link_recv now r s =
    bind_r (link_mark_conga (snd r) s) (\<lambda>(p1, s1).
      bind_r (link_mark_route p1 s1) (\<lambda>(p2, s2).
        bind_r (txtime p2 s2) (\<lambda>txt. link_schedule now (fst r, p2) txt s2)))"

text \<open>The event of a packet in transit on a dynamic link: the head of the queue is
  delivered, and must be the packet whose event it is, or have the same time.\<close>

definition link_handle :: "nat \<Rightarrow> link \<Rightarrow> ((nat \<times> packet) \<times> link) result" where
  "link_handle e s =
    (case ld_itq s of None \<Rightarrow> Inl NullDeref
     | Some q \<Rightarrow> (case pq_deque q of
         (None, _) \<Rightarrow> Inl NullDeref
       | (Some r, q') \<Rightarrow> if ld_time s (fst r) \<noteq> ld_time s e then Inl AssertFail
           else Inr (r, s\<lparr>ld_itq := Some q'\<rparr>)))"

text \<open>\<^verbatim>\<open>reset\<close> cancels and drops the packets in transit.\<close>

fun drain :: "nat \<Rightarrow> packet_queue \<Rightarrow> (nat \<times> packet) list \<times> packet_queue" where
  "drain 0 q = ([], q)"
| "drain (Suc n) q = (case pq_deque q of (None, q') \<Rightarrow> ([], q')
     | (Some r, q') \<Rightarrow> (let (rs, q'') = drain n q' in (r # rs, q'')))"

definition link_reset :: "link \<Rightarrow> (nat \<times> packet) list \<times> link" where
  "link_reset s = (case ld_itq s of None \<Rightarrow> ([], s)
     | Some q \<Rightarrow> if pq_len q \<noteq> 0
         then (let (rs, q') = drain (Suc (length (pq_list q))) q in (rs, s\<lparr>ld_itq := Some q'\<rparr>))
         else ([], s))"

subsection \<open>The metric\<close>

definition link_ok :: "link \<Rightarrow> bool" where
  "link_ok s \<longleftrightarrow> 0 < ld_bandwidth s \<and> (\<forall>d. ld_dre s = Some d \<longrightarrow> dre_ok d)"

definition link_rest :: "link \<Rightarrow> link" where
  "link_rest s = s\<lparr>ld_dre := None\<rparr>"

lemma link_meter_ok:
  assumes "link_ok s" and "0 \<le> pkt_size p"
  shows "\<exists>c d. link_meter p s = Inr (c, s\<lparr>ld_dre := Some d\<rparr>) \<and> dre_ok d \<and> 0 \<le> c \<and> c < 8"
proof -
  let ?d = "case ld_dre s of None \<Rightarrow> new_DREAgent (ld_bandwidth s) | Some d \<Rightarrow> d"
  have "dre_ok ?d" using assms(1) new_dre_ok by (auto simp: link_ok_def split: option.split)
  then obtain d1 where d1: "dre_recv p ?d = Inr d1" "dre_ok d1" using dre_recv_ok[of ?d p] assms(2) by auto
  obtain d2 where d2: "dreCost d1 = Inr (dre_metric (dre_bandWidth d1) (dre_X d1), d2)" "dre_ok d2"
    using dreCost_ok[OF d1(2)] by auto
  have "0 < dre_bandWidth d1" "0 \<le> dre_X d1" using d1(2) by (simp_all add: dre_ok_def)
  from dre_metric_bounds[OF this] show ?thesis using d1(1) d2 by (auto simp: link_meter_def)
qed

lemma link_mark_conga_ok:
  assumes "link_ok s" and "0 \<le> pkt_size p"
  shows "\<exists>c d. link_mark_conga p s = Inr (p\<lparr>CE := c\<rparr>, s\<lparr>ld_dre := d\<rparr>) \<and> link_ok (s\<lparr>ld_dre := d\<rparr>) \<and>
    CE p \<le> c \<and> (c = CE p \<or> 0 \<le> c \<and> c < 8 \<and> ifCONGA p = 1)"
proof (cases "ifCONGA p = 1")
  case True
  obtain c d where m: "link_meter p s = Inr (c, s\<lparr>ld_dre := Some d\<rparr>)" "dre_ok d" "0 \<le> c" "c < 8"
    using link_meter_ok[OF assms] by blast
  show ?thesis using m True assms(1)
    by (intro exI[of _ "max c (CE p)"] exI[of _ "Some d"]) (simp add: link_mark_conga_def link_ok_def max_def)
next
  case False
  then show ?thesis using assms(1)
    by (intro exI[of _ "CE p"] exI[of _ "ld_dre s"]) (simp add: link_mark_conga_def)
qed

lemma link_mark_route_ok:
  assumes "link_ok s" and "0 \<le> pkt_size p"
  shows "\<exists>c d. link_mark_route p s = Inr (p\<lparr>congaRouteRow := (congaRouteRow p)\<lparr>congDegree := c\<rparr>\<rparr>, s\<lparr>ld_dre := d\<rparr>) \<and>
    link_ok (s\<lparr>ld_dre := d\<rparr>) \<and> congDegree (congaRouteRow p) \<le> c \<and>
    (c = congDegree (congaRouteRow p) \<or> 0 \<le> c \<and> c < 8 \<and> en_flag (congaRouteRow p) = 1)"
proof (cases "en_flag (congaRouteRow p) = 1")
  case True
  obtain c d where m: "link_meter p s = Inr (c, s\<lparr>ld_dre := Some d\<rparr>)" "dre_ok d" "0 \<le> c" "c < 8"
    using link_meter_ok[OF assms] by blast
  show ?thesis using m True assms(1)
    by (intro exI[of _ "max c (congDegree (congaRouteRow p))"] exI[of _ "Some d"])
      (simp add: link_mark_route_def link_ok_def max_def)
next
  case False
  then show ?thesis using assms(1)
    by (intro exI[of _ "congDegree (congaRouteRow p)"] exI[of _ "ld_dre s"]) (simp add: link_mark_route_def)
qed

text \<open>A packet before and after a link: only the metrics differ.\<close>

definition raised :: "packet \<Rightarrow> packet \<Rightarrow> bool" where
  "raised p p' \<longleftrightarrow> (\<exists>c c'. p' = p\<lparr>CE := c, congaRouteRow := (congaRouteRow p)\<lparr>congDegree := c'\<rparr>\<rparr> \<and>
     CE p \<le> c \<and> (c = CE p \<or> 0 \<le> c \<and> c < 8 \<and> ifCONGA p = 1) \<and>
     congDegree (congaRouteRow p) \<le> c' \<and>
     (c' = congDegree (congaRouteRow p) \<or> 0 \<le> c' \<and> c' < 8 \<and> en_flag (congaRouteRow p) = 1))"

lemma link_recv_ok:
  assumes "link_ok s" and "0 \<le> pkt_size (snd r)"
  shows "\<exists>p d. link_recv now r s =
      link_schedule now (fst r, p) (8 * of_int (pkt_size (snd r)) / ld_bandwidth s) (s\<lparr>ld_dre := d\<rparr>) \<and>
    raised (snd r) p \<and> link_ok (s\<lparr>ld_dre := d\<rparr>)"
proof -
  obtain c d where 1: "link_mark_conga (snd r) s = Inr ((snd r)\<lparr>CE := c\<rparr>, s\<lparr>ld_dre := d\<rparr>)" "link_ok (s\<lparr>ld_dre := d\<rparr>)"
    "CE (snd r) \<le> c" "c = CE (snd r) \<or> 0 \<le> c \<and> c < 8 \<and> ifCONGA (snd r) = 1"
    using link_mark_conga_ok[OF assms] by blast
  let ?p = "(snd r)\<lparr>CE := c\<rparr>"
  obtain c' d' where 2: "link_mark_route ?p (s\<lparr>ld_dre := d\<rparr>) =
      Inr (?p\<lparr>congaRouteRow := (congaRouteRow ?p)\<lparr>congDegree := c'\<rparr>\<rparr>, (s\<lparr>ld_dre := d\<rparr>)\<lparr>ld_dre := d'\<rparr>)"
    "link_ok ((s\<lparr>ld_dre := d\<rparr>)\<lparr>ld_dre := d'\<rparr>)" "congDegree (congaRouteRow ?p) \<le> c'"
    "c' = congDegree (congaRouteRow ?p) \<or> 0 \<le> c' \<and> c' < 8 \<and> en_flag (congaRouteRow ?p) = 1"
    using link_mark_route_ok[OF 1(2), of ?p] assms(2) by auto
  let ?q = "(snd r)\<lparr>CE := c, congaRouteRow := (congaRouteRow (snd r))\<lparr>congDegree := c'\<rparr>\<rparr>"
  have q: "raised (snd r) ?q" unfolding raised_def
    using 1(3,4) 2(3,4) by (intro exI[of _ c] exI[of _ c']) simp
  have "link_recv now r s =
      link_schedule now (fst r, ?q) (8 * of_int (pkt_size (snd r)) / ld_bandwidth s) (s\<lparr>ld_dre := d'\<rparr>)"
    using assms(1) 1(1) 2(1) by (simp add: link_recv_def txtime_def link_ok_def)
  then show ?thesis using q 2(2) by auto
qed

text \<open>A link keeps the largest congestion metric of the path: the packet that it
  schedules is the one received, with metrics that are not smaller, that only packets
  of CONGA get, and that a link sets to values between 0 and 7; the packet arrives, on a
  static link, after its transmission time and the delay, and the sender is told when
  the transmission ends.\<close>

theorem link_raises_metric:
  assumes "link_ok s" and "0 \<le> pkt_size p" and "\<not> ld_dynamic s" and "\<not> ld_avoidReordering s"
  shows "\<exists>p' s'. link_recv now (a, p) s = Inr ([To_target p' (8 * of_int (pkt_size p) / ld_bandwidth s + ld_delay s),
      To_sender (8 * of_int (pkt_size p) / ld_bandwidth s)], s') \<and> raised p p' \<and> link_ok s'"
  using link_recv_ok[OF assms(1), of "(a, p)" now] assms(2-4) by (auto simp: link_schedule_def)

lemma link_raises_metric_witness:
  "\<exists>p' s'. link_recv 1 (0, Packet_alloc\<lparr>pkt_size := 1000\<rparr>) (new_LinkDelay 8000 2 False) =
    Inr ([To_target p' 3, To_sender 1], s') \<and> raised (Packet_alloc\<lparr>pkt_size := 1000\<rparr>) p'"
  using link_raises_metric[of "new_LinkDelay 8000 2 False" "Packet_alloc\<lparr>pkt_size := 1000\<rparr>" 1 0]
  by (auto simp: link_ok_def new_LinkDelay_def)

subsection \<open>No reordering\<close>

text \<open>Packets sent over a link whose bandwidth and delay may change before each of them;
  the result is the list of the arrival times.\<close>

fun arrival :: "rat \<Rightarrow> sched list \<Rightarrow> rat option" where
  "arrival now (To_target p t # es) = Some (now + t)"
| "arrival now (e # es) = arrival now es"
| "arrival now [] = None"

fun link_recvs :: "(rat \<times> rat \<times> rat \<times> nat \<times> packet) list \<Rightarrow> link \<Rightarrow> (rat option list \<times> link) result" where
  "link_recvs [] s = Inr ([], s)"
| "link_recvs ((now, bw, dly, r) # rs) s =
    bind_r (link_recv now r (s\<lparr>ld_bandwidth := bw, ld_delay := dly\<rparr>)) (\<lambda>(es, s').
      bind_r (link_recvs rs s') (\<lambda>(ts, s''). Inr (arrival now es # ts, s'')))"

definition sane_arrivals :: "(rat \<times> rat \<times> rat \<times> nat \<times> packet) list \<Rightarrow> bool" where
  "sane_arrivals rs \<longleftrightarrow> (\<forall>(now, bw, dly, r)\<in>set rs. 0 < now \<and> 0 < bw \<and> 0 \<le> dly \<and> 0 \<le> pkt_size (snd r))"

definition due :: "rat \<times> rat \<times> rat \<times> nat \<times> packet \<Rightarrow> rat" where
  "due x = (case x of (now, bw, dly, r) \<Rightarrow> now + 8 * of_int (pkt_size (snd r)) / bw + dly)"

lemma link_recvs_sorted:
  assumes "\<not> ld_dynamic s" and "ld_avoidReordering s" and "\<forall>d. ld_dre s = Some d \<longrightarrow> dre_ok d" and "0 \<le> ld_latest_time s"
    and "sane_arrivals rs"
  shows "\<exists>ts s'. link_recvs rs s = Inr (List.map Some ts, s') \<and> sorted (ld_latest_time s # ts) \<and>
    list_all2 (\<lambda>x t. due x \<le> t) rs ts"
  using assms
proof (induction rs arbitrary: s)
  case (Cons x rs)
  obtain now bw dly r where x: "x = (now, bw, dly, r)" by (cases x) auto
  have ok: "0 < now" "0 < bw" "0 \<le> dly" "0 \<le> pkt_size (snd r)" "sane_arrivals rs"
    using Cons.prems(5) by (auto simp: sane_arrivals_def x)
  let ?s = "s\<lparr>ld_bandwidth := bw, ld_delay := dly\<rparr>"
  let ?txt = "8 * of_int (pkt_size (snd r)) / bw"
  have nn: "0 \<le> ?txt" using ok(2,4) by simp
  have l: "link_ok ?s" using ok(2) Cons.prems(3) by (simp add: link_ok_def)
  obtain p d where r: "link_recv now r ?s = link_schedule now (fst r, p) ?txt (?s\<lparr>ld_dre := d\<rparr>)"
    and d: "link_ok (?s\<lparr>ld_dre := d\<rparr>)"
    using link_recv_ok[OF l ok(4), of now] by auto
  define t where "t = (if ?txt + dly < ld_latest_time s - now \<and> ld_latest_time s > 0
    then ld_latest_time s + ?txt else now + ?txt + dly)"
  define s1 where "s1 = ?s\<lparr>ld_dre := d, ld_latest_time := t\<rparr>"
  have run: "\<exists>es. link_recv now r ?s = Inr (es, s1) \<and> arrival now es = Some t"
    unfolding r using Cons.prems(1,2) by (auto simp: link_schedule_def t_def s1_def Let_def)
  have ts: "ld_latest_time s \<le> t" "due x \<le> t"
  proof -
    have x': "due x = now + ?txt + dly" by (simp add: due_def x)
    show "ld_latest_time s \<le> t" "due x \<le> t"
      using nn ok(1,3) Cons.prems(4) unfolding t_def x' by (simp_all only: split: if_splits) linarith+
  qed
  have s1: "\<not> ld_dynamic s1" "ld_avoidReordering s1" "\<forall>d. ld_dre s1 = Some d \<longrightarrow> dre_ok d" "ld_latest_time s1 = t"
    using Cons.prems(1,2) d by (simp_all add: s1_def link_ok_def)
  have "0 \<le> ld_latest_time s1" using s1(4) ts(1) Cons.prems(4) by linarith
  from Cons.IH[OF s1(1-3) this ok(5)] obtain us s2 where
    "link_recvs rs s1 = Inr (List.map Some us, s2)" "sorted (t # us)" "list_all2 (\<lambda>x t. due x \<le> t) rs us"
    using s1(4) by auto
  then show ?case using run ts by (intro exI[of _ "t # us"] exI[of _ s2]) (auto simp: x)
qed simp

text \<open>With \<^verbatim>\<open>avoidReordering_\<close> packets arrive in the order in which they were sent,
  also when the bandwidth or the delay is changed between them, and none arrives
  before its own transmission time and delay have passed.\<close>

theorem link_no_reordering:
  assumes "sane_arrivals rs"
  shows "\<exists>ts s'. link_recvs rs (new_LinkDelay bw dly True) = Inr (List.map Some ts, s') \<and> sorted ts \<and>
    list_all2 (\<lambda>x t. due x \<le> t) rs ts"
  using link_recvs_sorted[of "new_LinkDelay bw dly True" rs] assms by (auto simp: new_LinkDelay_def)

lemma link_no_reordering_witness:
  "\<exists>ts s'. link_recvs [(1, 8, 10, 0, Packet_alloc\<lparr>pkt_size := 1\<rparr>), (2, 8, 0, 1, Packet_alloc\<lparr>pkt_size := 1\<rparr>)]
     (new_LinkDelay 8 10 True) = Inr (List.map Some ts, s') \<and> sorted ts \<and> length ts = 2"
proof -
  have "sane_arrivals [(1, 8, 10, 0, Packet_alloc\<lparr>pkt_size := 1\<rparr>), (2, 8, 0, 1, Packet_alloc\<lparr>pkt_size := 1\<rparr>)]"
    by (simp add: sane_arrivals_def)
  from link_no_reordering[OF this, of 8 10] obtain ts s' where
    ts: "link_recvs [(1, 8, 10, 0, Packet_alloc\<lparr>pkt_size := 1\<rparr>), (2, 8, 0, 1, Packet_alloc\<lparr>pkt_size := 1\<rparr>)]
      (new_LinkDelay 8 10 True) = Inr (List.map Some ts, s')" "sorted ts"
    "list_all2 (\<lambda>x t. due x \<le> t)
      [(1, 8, 10, 0, Packet_alloc\<lparr>pkt_size := 1\<rparr>), (2, 8, 0, 1, Packet_alloc\<lparr>pkt_size := 1\<rparr>)] ts" by blast
  have "length ts = 2" using list_all2_lengthD[OF ts(3)] by simp
  then show ?thesis using ts(1,2) by blast
qed

subsection \<open>Packets in transit on a dynamic link\<close>

definition transit_queue :: "link \<Rightarrow> nat list" where
  "transit_queue s = (case ld_itq s of None \<Rightarrow> [] | Some q \<Rightarrow> List.map fst (pq_list q))"

text \<open>The events of one call: when the link is called back for a packet, and when its sender is told that the
  transmission has ended.\<close>

fun self_events :: "rat \<Rightarrow> sched list \<Rightarrow> (rat \<times> nat) list" where
  "self_events now [] = []"
| "self_events now (To_self e d # es) = (now + d, e) # self_events now es"
| "self_events now (x # es) = self_events now es"

fun sender_told :: "rat \<Rightarrow> sched list \<Rightarrow> rat \<Rightarrow> rat" where
  "sender_told now [] free = free"
| "sender_told now (To_sender d # es) free = sender_told now es (now + d)"
| "sender_told now (x # es) free = sender_told now es free"

text \<open>The runs of a dynamic link: the clock, the time at which the sender is told that its last transmission has
  ended, the pending events, the packets sent with the times at which they are due, those delivered with
  the times at which they were, and the link.  The sender sends no packet before it is told; nothing happens
  later than a pending event is due; of the events that are due first any may be next; the bandwidth may be
  changed at any time, the delay only be raised.\<close>

inductive transit :: "rat \<Rightarrow> rat \<Rightarrow> (rat \<times> nat) list \<Rightarrow> (nat \<times> rat) list \<Rightarrow> (nat \<times> rat) list \<Rightarrow> link \<Rightarrow> bool" where
  start: "0 < bw \<Longrightarrow> 0 \<le> dly \<Longrightarrow> transit 0 0 [] [] [] (link_isDynamic (new_LinkDelay bw dly avoid))"
| changed: "transit now free pend ins outs s \<Longrightarrow> 0 < bw \<Longrightarrow> ld_delay s \<le> dly \<Longrightarrow>
    transit now free pend ins outs (s\<lparr>ld_bandwidth := bw, ld_delay := dly\<rparr>)"
| sent: "transit now free pend ins outs s \<Longrightarrow> now \<le> t \<Longrightarrow> free \<le> t \<Longrightarrow> \<forall>x\<in>set pend. t \<le> fst x \<Longrightarrow>
    fst r \<notin> set (transit_queue s) \<union> snd ` set pend \<Longrightarrow> 0 \<le> pkt_size (snd r) \<Longrightarrow> link_recv t r s = Inr (es, s') \<Longrightarrow>
    transit t (sender_told t es free) (pend @ self_events t es)
      (ins @ [(fst r, t + 8 * of_int (pkt_size (snd r)) / ld_bandwidth s + ld_delay s)]) outs s'"
| arrived: "transit now free pend ins outs s \<Longrightarrow> (t, e) \<in> set pend \<Longrightarrow> \<forall>x\<in>set pend. t \<le> fst x \<Longrightarrow>
    link_handle e s = Inr (r, s') \<Longrightarrow> transit t free (remove1 (t, e) pend) ins (outs @ [(fst r, t)]) s'"

definition transit_inv :: "rat \<Rightarrow> (rat \<times> nat) list \<Rightarrow> (nat \<times> rat) list \<Rightarrow> (nat \<times> rat) list \<Rightarrow> link \<Rightarrow> bool" where
  "transit_inv free pend ins outs s \<longleftrightarrow> link_ok s \<and> ld_dynamic s \<and> ld_itq s \<noteq> None \<and> 0 \<le> ld_delay s \<and>
     (\<forall>x\<in>set pend. ld_time s (snd x) = fst x) \<and>
     mset (List.map fst pend) = mset (List.map (ld_time s) (transit_queue s)) \<and>
     sorted (List.map (ld_time s) (transit_queue s)) \<and>
     (\<forall>a\<in>set (transit_queue s). ld_time s a \<le> free + ld_delay s) \<and>
     ins = outs @ List.map (\<lambda>a. (a, ld_time s a)) (transit_queue s)"

text \<open>The event that is due first delivers the head of the queue, which is due at the same time.\<close>

lemma link_handle_first:
  assumes i: "transit_inv free pend ins outs s" and e: "(t, e) \<in> set pend" and f: "\<forall>x\<in>set pend. t \<le> fst x"
  shows "\<exists>r s'. link_handle e s = Inr (r, s') \<and> transit_queue s = fst r # transit_queue s' \<and> ld_time s (fst r) = t \<and>
    ld_itq s' \<noteq> None \<and> ld_time s' = ld_time s \<and> link_ok s' \<and> ld_dynamic s' \<and> ld_delay s' = ld_delay s"
proof -
  obtain q where q: "ld_itq s = Some q" using i by (auto simp: transit_inv_def)
  then have tq: "transit_queue s = List.map fst (pq_list q)" by (simp add: transit_queue_def)
  have "mset (List.map fst pend) = mset (List.map (ld_time s) (transit_queue s))" using i by (simp add: transit_inv_def)
  then have m: "fst ` set pend = ld_time s ` set (transit_queue s)" by (metis list.set_map mset_eq_setD)
  have te: "ld_time s e = t" using i e by (auto simp: transit_inv_def)
  have "t \<in> ld_time s ` set (transit_queue s)" using m e by force
  then obtain a where a: "a \<in> set (transit_queue s)" "ld_time s a = t" by blast
  then obtain r rs where rs: "pq_list q = r # rs" using tq by (cases "pq_list q") auto
  obtain q' where q': "pq_deque q = (Some r, q')" "pq_list q' = rs" using pq.deq_cons[OF rs] by blast
  have "ld_time s (fst r) \<le> t" using i a tq rs by (auto simp: transit_inv_def)
  moreover have "ld_time s (fst r) \<in> fst ` set pend" using m tq rs by simp
  then have "t \<le> ld_time s (fst r)" using f by auto
  ultimately have r: "ld_time s (fst r) = t" by simp
  then have "link_handle e s = Inr (r, s\<lparr>ld_itq := Some q'\<rparr>)" using q q'(1) te by (simp add: link_handle_def)
  then show ?thesis using i tq rs q' r by (simp add: transit_queue_def transit_inv_def link_ok_def)
qed

lemma transit_inv_sent:
  assumes i: "transit_inv free pend ins outs s" and t: "free \<le> t" and n: "fst r \<notin> set (transit_queue s) \<union> snd ` set pend"
    and z: "0 \<le> pkt_size (snd r)" and r: "link_recv t r s = Inr (es, s')"
  shows "transit_inv (sender_told t es free) (pend @ self_events t es)
    (ins @ [(fst r, t + 8 * of_int (pkt_size (snd r)) / ld_bandwidth s + ld_delay s)]) outs s'"
proof -
  obtain q where q: "ld_itq s = Some q" "ld_dynamic s" "link_ok s" using i by (auto simp: transit_inv_def)
  obtain p d where l: "link_recv t r s =
      link_schedule t (fst r, p) (8 * of_int (pkt_size (snd r)) / ld_bandwidth s) (s\<lparr>ld_dre := d\<rparr>)"
    "link_ok (s\<lparr>ld_dre := d\<rparr>)"
    using link_recv_ok[OF q(3) z, of t] by auto
  define tx where "tx = 8 * of_int (pkt_size (snd r)) / ld_bandwidth s"
  let ?t = "t + (tx + ld_delay s)"
  have tx: "0 \<le> tx" using z q(3) by (simp add: tx_def link_ok_def)
  have e: "es = [To_self (fst r) (tx + ld_delay s), To_sender tx]"
      "s' = s\<lparr>ld_dre := d, ld_itq := Some (pq_enque (fst r, p) q), ld_time := (ld_time s)(fst r := ?t)\<rparr>"
    using r q unfolding l(1) by (simp_all add: link_schedule_def tx_def)
  have tq: "transit_queue s' = transit_queue s @ [fst r]"
    using q(1) by (simp add: e(2) transit_queue_def pq_enque_def)
  have o: "ld_time s' a = ld_time s a" if "a \<in> set (transit_queue s) \<union> snd ` set pend" for a using n that by (auto simp: e(2))
  have same: "List.map (ld_time s') (transit_queue s) = List.map (ld_time s) (transit_queue s)"
      "List.map (\<lambda>a. (a, ld_time s' a)) (transit_queue s) = List.map (\<lambda>a. (a, ld_time s a)) (transit_queue s)"
    using o by simp_all
  have new: "ld_time s' (fst r) = ?t" by (simp add: e(2))
  have late: "ld_time s a \<le> ?t" if "a \<in> set (transit_queue s)" for a
  proof -
    have "ld_time s a \<le> free + ld_delay s" using i that by (simp add: transit_inv_def)
    then show ?thesis using t tx by linarith
  qed
  have told: "sender_told t es free = t + tx" "self_events t es = [(?t, fst r)]" by (simp_all add: e(1))
  have "sorted (List.map (ld_time s') (transit_queue s'))"
    using i late unfolding tq by (simp add: same new sorted_append transit_inv_def)
  moreover have "mset (List.map fst (pend @ self_events t es)) = mset (List.map (ld_time s') (transit_queue s'))"
    using i unfolding tq told by (simp add: same new transit_inv_def)
  moreover have "\<forall>x\<in>set (pend @ self_events t es). ld_time s' (snd x) = fst x"
  proof
    fix x assume x: "x \<in> set (pend @ self_events t es)"
    show "ld_time s' (snd x) = fst x"
    proof (cases "x \<in> set pend")
      case True
      then show ?thesis using i o[of "snd x"] by (simp add: transit_inv_def)
    qed (use x new in \<open>simp add: told\<close>)
  qed
  moreover have "\<forall>a\<in>set (transit_queue s'). ld_time s' a \<le> t + tx + ld_delay s'"
  proof
    fix a assume "a \<in> set (transit_queue s')"
    then have "ld_time s' a \<le> ?t" using late o new unfolding tq by auto
    then show "ld_time s' a \<le> t + tx + ld_delay s'" by (simp add: e(2) add.assoc)
  qed
  moreover have "ins @ [(fst r, t + tx + ld_delay s)] = outs @ List.map (\<lambda>a. (a, ld_time s' a)) (transit_queue s')"
    using i unfolding tq by (simp add: same new transit_inv_def add.assoc)
  moreover have "link_ok s'" "ld_dynamic s'" "ld_itq s' \<noteq> None" "0 \<le> ld_delay s'" using l(2) q(2) i by (simp_all add: e(2) link_ok_def transit_inv_def)
  ultimately show ?thesis unfolding tx_def[symmetric] told(1) by (simp add: transit_inv_def)
qed

lemma transit_inv_reach: "transit now free pend ins outs s \<Longrightarrow> transit_inv free pend ins outs s"
proof (induction rule: transit.induct)
  case (start bw dly avoid)
  then show ?case
    by (simp add: transit_inv_def link_isDynamic_def new_LinkDelay_def link_ok_def transit_queue_def pq_new_def)
next
  case (changed now free pend ins outs s bw dly)
  have "transit_queue (s\<lparr>ld_bandwidth := bw, ld_delay := dly\<rparr>) = transit_queue s" by (simp add: transit_queue_def)
  then show ?case using changed.IH changed.hyps(2,3) by (force simp: transit_inv_def link_ok_def)
next
  case (sent now free pend ins outs s t r es s')
  show ?case by (rule transit_inv_sent) (use sent in simp_all)
next
  case (arrived now free pend ins outs s t e r s')
  obtain r' s'' where h: "link_handle e s = Inr (r', s'')" "transit_queue s = fst r' # transit_queue s''" "ld_time s (fst r') = t"
    "ld_itq s'' \<noteq> None" "ld_time s'' = ld_time s" "link_ok s''" "ld_dynamic s''" "ld_delay s'' = ld_delay s"
    using link_handle_first[OF arrived.IH arrived.hyps(2,3)] by blast
  have e: "r' = r" "s'' = s'" using h(1) arrived.hyps(4) by simp_all
  have "mset ((t, e) # remove1 (t, e) pend) = mset pend" using arrived.hyps(2) by simp
  then have "image_mset fst (mset ((t, e) # remove1 (t, e) pend)) = image_mset fst (mset pend)" by (rule arg_cong)
  then have "mset (t # List.map fst (remove1 (t, e) pend)) = mset (List.map fst pend)" by (simp only: mset_map list.map fst_conv flip: mset_map)
  then have "mset (List.map fst (remove1 (t, e) pend)) = mset (List.map (ld_time s') (transit_queue s'))"
    using arrived.IH h(2,3,5) unfolding e by (simp add: transit_inv_def)
  moreover have "\<forall>x\<in>set (remove1 (t, e) pend). ld_time s' (snd x) = fst x"
    using arrived.IH h(5) unfolding e by (auto simp: transit_inv_def dest: notin_set_remove1)
  ultimately show ?case using h(2-) arrived.IH unfolding e by (simp add: transit_inv_def)
qed

text \<open>C27: A dynamic link whose sender waits for the end of each transmission and whose delay is never reduced delivers
  the packets in the order in which they were sent, each when its transmission time and the delay have passed; it
  accepts any packet at any time, and the event that is due first always finds its time at the head of the queue, so
  the assertion of \<^verbatim>\<open>handle\<close> holds.\<close>

theorem dynamic_link_in_order:
  assumes "transit now free pend ins outs s"
  shows "ins = outs @ List.map (\<lambda>a. (a, ld_time s a)) (transit_queue s) \<and> sorted (List.map (ld_time s) (transit_queue s)) \<and>
    (\<forall>t r. 0 \<le> pkt_size (snd r) \<longrightarrow> (\<exists>es s'. link_recv t r s = Inr (es, s'))) \<and>
    (\<forall>(t, e)\<in>set pend. (\<forall>x\<in>set pend. t \<le> fst x) \<longrightarrow>
       (\<exists>r s'. link_handle e s = Inr (r, s') \<and> transit_queue s = fst r # transit_queue s' \<and> ld_time s (fst r) = t))"
proof -
  have inv: "transit_inv free pend ins outs s" using transit_inv_reach[OF assms] .
  have "\<exists>es s'. link_recv t r s = Inr (es, s')" if "0 \<le> pkt_size (snd r)" for t r
  proof -
    have "link_ok s" "ld_dynamic s" "ld_itq s \<noteq> None" using inv by (simp_all add: transit_inv_def)
    then show ?thesis using link_recv_ok[OF _ that, of s t] by (auto simp: link_schedule_def)
  qed
  moreover have "\<exists>r s'. link_handle e s = Inr (r, s') \<and> transit_queue s = fst r # transit_queue s' \<and> ld_time s (fst r) = t"
    if "(t, e) \<in> set pend" "\<forall>x\<in>set pend. t \<le> fst x" for t e
    using link_handle_first[OF inv that] by blast
  ultimately show ?thesis using inv by (auto simp: transit_inv_def)
qed

text \<open>Two packets of 1 byte at 8 bits per second and a delay of 1 s, sent at 1 s and at 2 s, are due at 3 s and at 4 s.\<close>

lemma dynamic_link_in_order_witness:
  "\<exists>s. transit 2 3 [(3, 7), (4, 8)] [(7, 3), (8, 4)] [] s \<and> transit_queue s = [7, 8] \<and> ld_time s 7 = 3 \<and>
    (\<exists>r s'. link_handle 7 s = Inr (r, s') \<and> fst r = 7)"
proof -
  let ?p = "Packet_alloc\<lparr>pkt_size := 1\<rparr>"
  let ?s = "link_isDynamic (new_LinkDelay 8 1 False)"
  note run = link_recv_def link_mark_conga_def link_mark_route_def Packet_alloc_def CongaRow_zero_def
        txtime_def link_schedule_def link_isDynamic_def new_LinkDelay_def transit_queue_def pq_enque_def pq_new_def
  have 0: "transit 0 0 [] [] [] ?s" by (rule transit.start) simp_all
  obtain s1 where r1: "link_recv 1 (7, ?p) ?s = Inr ([To_self 7 2, To_sender 1], s1)" "transit_queue s1 = [7]" "ld_bandwidth s1 = 8" "ld_delay s1 = 1"
      "link_recv 2 (8, ?p) s1 = Inr ([To_self 8 2, To_sender 1], s1\<lparr>ld_itq := Some (pq_enque (8, ?p) (the (ld_itq s1))), ld_time := (ld_time s1)(8 := 4)\<rparr>)"
      "ld_itq s1 \<noteq> None"
    by (simp add: run)
  define s2 where "s2 = s1\<lparr>ld_itq := Some (pq_enque (8, ?p) (the (ld_itq s1))), ld_time := (ld_time s1)(8 := 4)\<rparr>"
  have q2: "transit_queue s2 = [7, 8]" using r1(2,6) by (auto simp: s2_def transit_queue_def pq_enque_def)
  have 1: "transit 1 2 [(3, 7)] [(7, 3)] [] s1"
    using transit.sent[OF 0, of 1 "(7, ?p)", OF _ _ _ _ _ r1(1)] by (simp add: transit_queue_def link_isDynamic_def new_LinkDelay_def pq_new_def)
  have 2: "transit 2 3 [(3, 7), (4, 8)] [(7, 3), (8, 4)] [] s2"
    using transit.sent[OF 1, of 2 "(8, ?p)", OF _ _ _ _ _ r1(5)[folded s2_def]] by (simp add: r1(2,3,4))
  show ?thesis using dynamic_link_in_order[OF 2] 2 q2 by (intro exI[of _ s2]) auto
qed

text \<open>When the delay is reduced while a packet is in transit, a later packet is due first and the assertion of
  \<^verbatim>\<open>handle\<close> fails at its event.\<close>

lemma reduced_delay_asserts:
  "bind_r (link_recv 1 (7, Packet_alloc) (link_isDynamic (new_LinkDelay 8 10 False))) (\<lambda>(es, s).
     bind_r (link_recv 2 (8, Packet_alloc) (s\<lparr>ld_delay := 1\<rparr>)) (\<lambda>(es', s').
       bind_r (link_handle 8 s') (\<lambda>_. Inr ()))) = Inl AssertFail"
  by (simp add: link_recv_def link_mark_conga_def link_mark_route_def Packet_alloc_def CongaRow_zero_def link_handle_def
      txtime_def link_schedule_def link_isDynamic_def new_LinkDelay_def pq_enque_def pq_new_def pq_deque_def)

end
