(* ===== verification/Conga.thy ===== *)
theory Conga
  imports LinkDelay
begin

text \<open>
  CONGA at a leaf switch (\<^verbatim>\<open>clb/conga.h\<close>, \<^verbatim>\<open>clb/conga.cc\<close>): for every other leaf a table
  of the congestion of the paths to it, learnt from the responses of that leaf, and a
  table of the congestion of the paths from it, which is reported back.  The queues
  registered for debugging and the debug output are left out.
\<close>

record conga =
  slots :: int
  leafDownPortNumber :: int
  route_table :: "(int, int list) omap"
  response_table :: "(int, (int, int) omap) omap"
  route_count :: "(int, int list) omap"

definition new_Conga :: "int \<Rightarrow> int \<Rightarrow> conga" where
  "new_Conga sl down = \<lparr> slots = sl, leafDownPortNumber = down, route_table = om_empty,
     response_table = om_empty, route_count = om_empty \<rparr>"

definition serv2leaf :: "conga \<Rightarrow> int \<Rightarrow> int" where
  "serv2leaf c server = (if leafDownPortNumber c > 0 then server sdiv leafDownPortNumber c else server sdiv 40)"

text \<open>The scan of a row of the table: the ports with the least cost seen so far, and
  that cost.\<close>

fun route_scan :: "int list \<Rightarrow> nat \<Rightarrow> nat list \<Rightarrow> int \<Rightarrow> nat list \<times> int" where
  "route_scan [] i tmp fee = (tmp, fee)"
| "route_scan (c # cs) i tmp fee =
    (if c < fee then route_scan cs (Suc i) [i] c
     else if c = fee then route_scan cs (Suc i) (tmp @ [i]) fee
     else route_scan cs (Suc i) tmp fee)"

text \<open>The choice of the port; \<^verbatim>\<open>r\<close> is the value of \<^verbatim>\<open>rand()\<close>.\<close>

definition choose_port :: "nat \<Rightarrow> int \<Rightarrow> conga \<Rightarrow> int result" where
  "choose_port r dst c =
    (case om_get dst (route_table c) of
       Some row \<Rightarrow>
         (let tmp = fst (route_scan (take (nat (slots c)) row) 0 [] 0x7fffffff)
          in if tmp = [] then Inl DivByZero else Inr (int (tmp ! (r mod length tmp))))
     | None \<Rightarrow> if slots c = 0 then Inl DivByZero else Inr (int r smod slots c))"

definition set_route_row :: "int \<Rightarrow> packet \<Rightarrow> packet" where
  "set_route_row port p =
    p\<lparr>congaRouteRow := \<lparr> en_flag = 1, srcLeaf = saddr p, portChose = port, congDegree = 0 \<rparr>\<rparr>"

definition set_response_row :: "nat \<Rightarrow> int \<Rightarrow> conga \<Rightarrow> packet \<Rightarrow> packet result" where
  "set_response_row rnd dst c p =
    (case om_get dst (response_table c) of
       None \<Rightarrow> Inr (p\<lparr>congaResponseRow := (congaResponseRow p)\<lparr>en_flag := 0\<rparr>\<rparr>)
     | Some m \<Rightarrow>
       if m = [] then Inl DivByZero
       else (let e = m ! (rnd mod length m)
             in Inr (p\<lparr>congaResponseRow :=
                  \<lparr> en_flag = 1, srcLeaf = saddr p, portChose = fst e, congDegree = snd e \<rparr>\<rparr>)))"

definition array_set :: "int \<Rightarrow> int \<Rightarrow> int list \<Rightarrow> int list result" where
  "array_set i v a = (if 0 \<le> i \<and> i < int (length a) then Inr (a[nat i := v]) else Inl OutOfBounds)"

definition new_array :: "int \<Rightarrow> int list result" where
  "new_array n = (if n < 0 then Inl Abort else Inr (replicate (nat n) 0))"

definition count_route :: "int \<Rightarrow> int \<Rightarrow> conga \<Rightarrow> conga result" where
  "count_route dst port c =
    bind_r (case om_get dst (route_count c) of Some row \<Rightarrow> Inr row | None \<Rightarrow> new_array (slots c)) (\<lambda>row.
      bind_r (array_set port ((if 0 \<le> port \<and> port < int (length row) then row ! nat port else 0) + 1) row) (\<lambda>row'.
        Inr (c\<lparr>route_count := om_put dst row' (route_count c)\<rparr>)))"

text \<open>\<^verbatim>\<open>route\<close>; \<^verbatim>\<open>r\<close> and \<^verbatim>\<open>rnd\<close> are the two values of \<^verbatim>\<open>rand()\<close> that it draws.\<close>

definition conga_route :: "nat \<Rightarrow> nat \<Rightarrow> packet \<Rightarrow> conga \<Rightarrow> (int \<times> packet \<times> conga) result" where
  "conga_route r rnd p c =
    (let dst = serv2leaf c (daddr p) in
     bind_r (choose_port r dst c) (\<lambda>port.
       bind_r (set_response_row rnd dst c (set_route_row port p)) (\<lambda>p'.
         bind_r (count_route dst port c) (\<lambda>c'. Inr (port, p', c')))))"

text \<open>\<^verbatim>\<open>recv\<close>: the row of the path is noted for the response, the row of the response
  updates the table of paths.  A port that is too large is reported, and then written
  beyond the end of the row.\<close>

definition conga_note_route :: "packet \<Rightarrow> conga \<Rightarrow> packet \<times> conga" where
  "conga_note_route p c =
    (let row = congaRouteRow p in
     if en_flag row \<noteq> 0 then
       (let src = serv2leaf c (saddr p);
            m = (case om_get src (response_table c) of None \<Rightarrow> om_empty | Some m \<Rightarrow> m)
        in (p\<lparr>congaRouteRow := row\<lparr>en_flag := 0\<rparr>\<rparr>,
            c\<lparr>response_table := om_put src (om_put (portChose row) (congDegree row) m) (response_table c)\<rparr>))
     else (p, c))"

definition conga_take_response :: "packet \<Rightarrow> conga \<Rightarrow> (packet \<times> conga) result" where
  "conga_take_response p c =
    (let row = congaResponseRow p in
     if en_flag row \<noteq> 0 then
       (let dst = serv2leaf c (saddr p)
        in bind_r (case om_get dst (route_table c) of Some a \<Rightarrow> Inr a | None \<Rightarrow> new_array (slots c)) (\<lambda>a.
             bind_r (array_set (portChose row) (congDegree row) a) (\<lambda>a'.
               Inr (p\<lparr>congaResponseRow := row\<lparr>en_flag := 0\<rparr>\<rparr>,
                    c\<lparr>route_table := om_put dst a' (route_table c)\<rparr>))))
     else Inr (p, c))"

definition conga_recv :: "packet \<Rightarrow> conga \<Rightarrow> (packet \<times> conga) result" where
  "conga_recv p c = (case conga_note_route p c of (p', c') \<Rightarrow> conga_take_response p' c')"

subsection \<open>The invariant\<close>

definition int_max :: int where "int_max = 0x7fffffff"

definition conga_inv :: "conga \<Rightarrow> bool" where
  "conga_inv c \<longleftrightarrow> 0 < slots c \<and>
     (\<forall>(d, row)\<in>set (route_table c). length row = nat (slots c) \<and> (\<forall>x\<in>set row. x \<le> int_max)) \<and>
     (\<forall>(d, m)\<in>set (response_table c). m \<noteq> []) \<and>
     (\<forall>(d, row)\<in>set (route_count c). length row = nat (slots c))"

lemma new_Conga_inv: "0 < sl \<Longrightarrow> conga_inv (new_Conga sl down)"
  by (simp add: conga_inv_def new_Conga_def om_empty_def)

text \<open>The ports that the scan collects are those of least cost.\<close>

lemma route_scan_least:
  assumes "set pre \<subseteq> {..int_max}" and "fee = Min (insert int_max (set pre))"
    and "tmp = filter (\<lambda>j. pre ! j = fee) [0..<length pre]" and "set cs \<subseteq> {..int_max}"
  shows "fst (route_scan cs (length pre) tmp fee) =
      filter (\<lambda>j. (pre @ cs) ! j = Min (insert int_max (set (pre @ cs)))) [0..<length (pre @ cs)]"
  using assms
proof (induction cs arbitrary: pre tmp fee)
  case Nil
  then show ?case by simp
next
  case (Cons c cs)
  let ?pre = "pre @ [c]"
  have min: "Min (insert int_max (set ?pre)) = min c fee"
  proof -
    have "insert int_max (set ?pre) = insert c (insert int_max (set pre))" by auto
    moreover have "Min (insert c (insert int_max (set pre))) = min c (Min (insert int_max (set pre)))"
      by (rule Min_insert) auto
    ultimately show ?thesis using Cons.prems(2) by simp
  qed
  have keep: "filter (\<lambda>j. ?pre ! j = v) [0..<length pre] = filter (\<lambda>j. pre ! j = v) [0..<length pre]" for v
    by (rule filter_cong) (auto simp: nth_append)
  have above: "filter (\<lambda>j. pre ! j = c) [0..<length pre] = []" if "c < fee"
  proof -
    have "fee \<le> pre ! j" if "j < length pre" for j
      unfolding Cons.prems(2) using that by (intro Min_le) auto
    then show ?thesis using that by (fastforce simp: filter_empty_conv)
  qed
  define tmp' where "tmp' = (if c < fee then [length pre] else if c = fee then tmp @ [length pre] else tmp)"
  have tmp': "tmp' = filter (\<lambda>j. ?pre ! j = min c fee) [0..<length ?pre]"
  proof -
    have "filter (\<lambda>j. ?pre ! j = v) [0..<length ?pre] =
        filter (\<lambda>j. pre ! j = v) [0..<length pre] @ (if c = v then [length pre] else [])" for v
    proof -
      have "[0..<length ?pre] = [0..<length pre] @ [length pre]" by simp
      then show ?thesis unfolding filter_append using keep by simp
    qed
    then show ?thesis using Cons.prems(3) above by (auto simp: tmp'_def min_def)
  qed
  have "route_scan (c # cs) (length pre) tmp fee = route_scan cs (length ?pre) tmp' (min c fee)"
    by (auto simp: tmp'_def min_def)
  moreover have "fst (route_scan cs (length ?pre) tmp' (min c fee)) =
      filter (\<lambda>j. (?pre @ cs) ! j = Min (insert int_max (set (?pre @ cs)))) [0..<length (?pre @ cs)]"
    using Cons.prems(1,4) min tmp' by (intro Cons.IH) auto
  moreover have "?pre @ cs = pre @ c # cs" by simp
  ultimately show ?case by (simp only:)
qed

definition least_ports :: "int list \<Rightarrow> nat list" where
  "least_ports row = filter (\<lambda>j. \<forall>x\<in>set row. row ! j \<le> x) [0..<length row]"

lemma route_scan_ports:
  assumes "set row \<subseteq> {..int_max}"
  shows "fst (route_scan row 0 [] 0x7fffffff) = least_ports row"
proof (cases "row = []")
  case False
  have le: "x \<le> int_max" if "x \<in> set row" for x using assms that by auto
  have "Min (insert int_max (set row)) = Min (set row)"
  proof -
    have "Min (set row) \<le> int_max" using False le Min_in[of "set row"] by auto
    then show ?thesis using False by (simp add: Min_insert min_absorb2)
  qed
  moreover have "row ! j = Min (set row) \<longleftrightarrow> (\<forall>x\<in>set row. row ! j \<le> x)" if "j < length row" for j
    using that False by (metis List.finite_set Min_eq_iff nth_mem set_empty)
  ultimately have "filter (\<lambda>j. row ! j = Min (insert int_max (set row))) [0..<length row] = least_ports row"
    unfolding least_ports_def by (intro filter_cong) auto
  then show ?thesis using route_scan_least[of "[]" int_max "[]" row] assms by (simp add: int_max_def)
qed (simp add: least_ports_def)

lemma least_ports_ne:
  assumes "row \<noteq> []"
  shows "least_ports row \<noteq> []"
proof -
  have "Min (set row) \<in> set row" using assms by simp
  then obtain j where "j < length row" "row ! j = Min (set row)" by (auto simp: in_set_conv_nth)
  then show ?thesis by (auto simp: least_ports_def filter_empty_conv intro!: bexI[of _ j])
qed

lemma least_ports_iff: "j \<in> set (least_ports row) \<longleftrightarrow> j < length row \<and> (\<forall>x\<in>set row. row ! j \<le> x)"
  by (auto simp: least_ports_def)

subsection \<open>The operations\<close>

text \<open>The ports that \<^verbatim>\<open>route\<close> may choose for a leaf.\<close>

definition candidates :: "int \<Rightarrow> conga \<Rightarrow> nat list" where
  "candidates dst c = (case om_get dst (route_table c) of Some row \<Rightarrow> least_ports row | None \<Rightarrow> [0..<nat (slots c)])"

lemma choose_port_ok:
  assumes "conga_inv c"
  shows "candidates dst c \<noteq> []"
    and "choose_port r dst c = Inr (int (candidates dst c ! (r mod length (candidates dst c))))"
    and "j \<in> set (candidates dst c) \<Longrightarrow> int j < slots c"
proof -
  have sl: "0 < slots c" using assms by (simp add: conga_inv_def)
  have row: "length row = nat (slots c)" "set row \<subseteq> {..int_max}" if "om_get dst (route_table c) = Some row" for row
    using om_get_mem[OF that] assms by (auto simp: conga_inv_def)
  show ne: "candidates dst c \<noteq> []"
  proof (cases "om_get dst (route_table c)")
    case (Some a)
    then have "a \<noteq> []" using sl row(1)[OF Some] by auto
    then show ?thesis using Some least_ports_ne by (simp add: candidates_def)
  qed (use sl in \<open>simp add: candidates_def\<close>)
  show "choose_port r dst c = Inr (int (candidates dst c ! (r mod length (candidates dst c))))"
  proof (cases "om_get dst (route_table c)")
    case None
    have "int r smod slots c = int (r mod nat (slots c))"
      using sl by (simp add: smod_int_alt_def sgn_if zmod_int)
    then show ?thesis using None sl by (simp add: choose_port_def candidates_def)
  next
    case (Some a)
    have "fst (route_scan (take (nat (slots c)) a) 0 [] 0x7fffffff) = least_ports a"
      using row[OF Some] route_scan_ports by simp
    then show ?thesis using ne Some by (simp add: choose_port_def candidates_def Let_def)
  qed
  show "j \<in> set (candidates dst c) \<Longrightarrow> int j < slots c"
    using row(1) sl by (auto simp: candidates_def least_ports_iff split: option.splits)
qed

lemma array_set_ok [simp]:
  "array_set i v a = Inr a' \<longleftrightarrow> 0 \<le> i \<and> i < int (length a) \<and> a' = a[nat i := v]"
  by (auto simp: array_set_def)

lemma count_route_ok:
  assumes "conga_inv c" and "0 \<le> port" and "port < slots c"
  shows "\<exists>m. count_route dst port c = Inr (c\<lparr>route_count := m\<rparr>) \<and> conga_inv (c\<lparr>route_count := m\<rparr>)"
proof -
  define row where "row = (case om_get dst (route_count c) of Some row \<Rightarrow> row | None \<Rightarrow> replicate (nat (slots c)) (0::int))"
  have get: "(case om_get dst (route_count c) of Some row \<Rightarrow> Inr row | None \<Rightarrow> new_array (slots c)) = Inr row"
    using assms by (auto simp: row_def new_array_def split: option.split)
  have len: "length row = nat (slots c)"
    using assms(1) om_get_mem[of dst "route_count c"] by (auto simp: row_def conga_inv_def split: option.split)
  let ?row = "row[nat port := row ! nat port + 1]"
  have "\<forall>(d, r)\<in>set (om_put dst ?row (route_count c)). length r = nat (slots c)"
    using assms(1) len by (intro om_all_put) (auto simp: conga_inv_def)
  then show ?thesis using assms len by (auto simp: count_route_def get conga_inv_def)
qed

text \<open>What a routed packet reports.\<close>

definition response_entry :: "nat \<Rightarrow> int \<Rightarrow> conga \<Rightarrow> packet \<Rightarrow> CongaRow" where
  "response_entry rnd dst c p = (case om_get dst (response_table c) of
     None \<Rightarrow> (congaResponseRow p)\<lparr>en_flag := 0\<rparr>
   | Some m \<Rightarrow> \<lparr> en_flag = 1, srcLeaf = saddr p, portChose = fst (m ! (rnd mod length m)),
       congDegree = snd (m ! (rnd mod length m)) \<rparr>)"

lemma conga_route_ok:
  assumes inv: "conga_inv c"
  defines "dst \<equiv> (\<lambda>p. serv2leaf c (daddr p))"
  defines "port \<equiv> (\<lambda>r p. candidates (dst p) c ! (r mod length (candidates (dst p) c)))"
  shows "\<exists>m. conga_route r rnd p c = Inr (int (port r p), p\<lparr>congaRouteRow := \<lparr> en_flag = 1, srcLeaf = saddr p,
      portChose = int (port r p), congDegree = 0 \<rparr>, congaResponseRow := response_entry rnd (dst p) c p\<rparr>,
      c\<lparr>route_count := m\<rparr>) \<and> conga_inv (c\<lparr>route_count := m\<rparr>) \<and> int (port r p) < slots c \<and>
      port r p \<in> set (candidates (dst p) c)"
proof -
  have mem: "port r p \<in> set (candidates (dst p) c)"
    using choose_port_ok(1)[OF inv, of "dst p"] by (simp add: port_def)
  then have lt: "int (port r p) < slots c" using choose_port_ok(3)[OF inv] by blast
  obtain m where m: "count_route (dst p) (int (port r p)) c = Inr (c\<lparr>route_count := m\<rparr>)" "conga_inv (c\<lparr>route_count := m\<rparr>)"
    using count_route_ok[OF inv _ lt, of "dst p"] by auto
  have ch: "choose_port r (dst p) c = Inr (int (port r p))" using choose_port_ok(2)[OF inv] by (simp add: port_def)
  have rsp: "set_response_row rnd (dst p) c (set_route_row i p) = Inr (p\<lparr>congaRouteRow := \<lparr> en_flag = 1,
      srcLeaf = saddr p, portChose = i, congDegree = 0 \<rparr>, congaResponseRow := response_entry rnd (dst p) c p\<rparr>)" for i
    using inv om_get_mem[of "dst p" "response_table c"]
    by (auto simp: set_response_row_def set_route_row_def response_entry_def conga_inv_def Let_def split: option.split)
  have "conga_route r rnd p c = Inr (int (port r p), p\<lparr>congaRouteRow := \<lparr> en_flag = 1, srcLeaf = saddr p,
      portChose = int (port r p), congDegree = 0 \<rparr>, congaResponseRow := response_entry rnd (dst p) c p\<rparr>,
      c\<lparr>route_count := m\<rparr>)"
    using ch rsp m(1) by (simp add: conga_route_def Let_def dst_def)
  then show ?thesis using m(2) lt mem by blast
qed

lemma om_put_ne: "om_put k v m \<noteq> []"
  by (cases m) (auto split: if_splits)

lemma conga_note_route_ok:
  assumes "conga_inv c"
  shows "\<exists>m. conga_note_route p c = (p\<lparr>congaRouteRow := (congaRouteRow p)\<lparr>en_flag := 0\<rparr>\<rparr>, c\<lparr>response_table := m\<rparr>) \<and>
    conga_inv (c\<lparr>response_table := m\<rparr>) \<and>
    (\<forall>d. om_get d m = (if en_flag (congaRouteRow p) \<noteq> 0 \<and> d = serv2leaf c (saddr p)
      then Some (om_put (portChose (congaRouteRow p)) (congDegree (congaRouteRow p))
        (case om_get d (response_table c) of None \<Rightarrow> om_empty | Some m \<Rightarrow> m))
      else om_get d (response_table c)))"
proof (cases "en_flag (congaRouteRow p) = 0")
  case True
  then show ?thesis using assms by (intro exI[of _ "response_table c"]) (simp add: conga_note_route_def Let_def)
next
  case False
  let ?old = "case om_get (serv2leaf c (saddr p)) (response_table c) of None \<Rightarrow> om_empty | Some m \<Rightarrow> m"
  let ?new = "om_put (portChose (congaRouteRow p)) (congDegree (congaRouteRow p)) ?old"
  let ?m = "om_put (serv2leaf c (saddr p)) ?new (response_table c)"
  have "?new \<noteq> []" by (rule om_put_ne)
  then have "\<forall>(d, m)\<in>set ?m. m \<noteq> []" using assms by (intro om_all_put) (auto simp: conga_inv_def)
  then show ?thesis using False assms
    by (intro exI[of _ ?m]) (simp add: conga_note_route_def Let_def conga_inv_def om_get_put)
qed

lemma conga_take_response_ok:
  assumes "conga_inv c" and "congDegree (congaResponseRow p) \<le> int_max"
  shows "if en_flag (congaResponseRow p) \<noteq> 0 \<and>
      \<not> (0 \<le> portChose (congaResponseRow p) \<and> portChose (congaResponseRow p) < slots c)
    then conga_take_response p c = Inl OutOfBounds
    else \<exists>m. conga_take_response p c =
        Inr (p\<lparr>congaResponseRow := (congaResponseRow p)\<lparr>en_flag := 0\<rparr>\<rparr>, c\<lparr>route_table := m\<rparr>) \<and>
      conga_inv (c\<lparr>route_table := m\<rparr>) \<and>
      (\<forall>d. om_get d m = (if en_flag (congaResponseRow p) \<noteq> 0 \<and> d = serv2leaf c (saddr p)
        then Some ((case om_get d (route_table c) of None \<Rightarrow> replicate (nat (slots c)) 0 | Some row \<Rightarrow> row)
          [nat (portChose (congaResponseRow p)) := congDegree (congaResponseRow p)])
        else om_get d (route_table c)))"
proof (cases "en_flag (congaResponseRow p) = 0")
  case True
  then show ?thesis using assms(1)
    by (auto simp: conga_take_response_def Let_def intro!: exI[of _ "route_table c"])
next
  case False
  let ?d = "serv2leaf c (saddr p)" and ?i = "portChose (congaResponseRow p)" and ?v = "congDegree (congaResponseRow p)"
  define row where "row = (case om_get ?d (route_table c) of None \<Rightarrow> replicate (nat (slots c)) 0 | Some row \<Rightarrow> row)"
  have sl: "0 < slots c" using assms(1) by (simp add: conga_inv_def)
  have get: "(case om_get ?d (route_table c) of Some a \<Rightarrow> Inr a | None \<Rightarrow> new_array (slots c)) = Inr row"
    using sl by (auto simp: row_def new_array_def split: option.split)
  have row: "length row = nat (slots c)" "\<forall>x\<in>set row. x \<le> int_max"
  proof -
    have "length row = nat (slots c) \<and> (\<forall>x\<in>set row. x \<le> int_max)"
    proof (cases "om_get ?d (route_table c)")
      case (Some a)
      then show ?thesis using om_get_mem[OF Some] assms(1) by (auto simp: row_def conga_inv_def)
    qed (simp add: row_def int_max_def)
    then show "length row = nat (slots c)" "\<forall>x\<in>set row. x \<le> int_max" by auto
  qed
  let ?m = "om_put ?d (row[nat ?i := ?v]) (route_table c)"
  have "\<forall>(d, r)\<in>set ?m. length r = nat (slots c) \<and> (\<forall>x\<in>set r. x \<le> int_max)"
    using assms row set_update_subset_insert[of row "nat ?i" ?v] by (intro om_all_put) (auto simp: conga_inv_def)
  then show ?thesis using False assms(1) row(1) sl get
    by (auto simp: conga_take_response_def Let_def conga_inv_def om_get_put row_def[symmetric] array_set_def
        intro!: exI[of _ ?m])
qed

lemma conga_recv_ok:
  assumes inv: "conga_inv c" and "congDegree (congaResponseRow p) \<le> int_max"
  shows "if en_flag (congaResponseRow p) \<noteq> 0 \<and>
      \<not> (0 \<le> portChose (congaResponseRow p) \<and> portChose (congaResponseRow p) < slots c)
    then conga_recv p c = Inl OutOfBounds
    else \<exists>c'. conga_recv p c = Inr (p\<lparr>congaRouteRow := (congaRouteRow p)\<lparr>en_flag := 0\<rparr>,
        congaResponseRow := (congaResponseRow p)\<lparr>en_flag := 0\<rparr>\<rparr>, c') \<and>
      conga_inv c' \<and> slots c' = slots c \<and> leafDownPortNumber c' = leafDownPortNumber c \<and>
      (\<forall>d. om_get d (response_table c') = (if en_flag (congaRouteRow p) \<noteq> 0 \<and> d = serv2leaf c (saddr p)
        then Some (om_put (portChose (congaRouteRow p)) (congDegree (congaRouteRow p))
          (case om_get d (response_table c) of None \<Rightarrow> om_empty | Some m \<Rightarrow> m))
        else om_get d (response_table c))) \<and>
      (\<forall>d. om_get d (route_table c') = (if en_flag (congaResponseRow p) \<noteq> 0 \<and> d = serv2leaf c (saddr p)
        then Some ((case om_get d (route_table c) of None \<Rightarrow> replicate (nat (slots c)) 0 | Some row \<Rightarrow> row)
          [nat (portChose (congaResponseRow p)) := congDegree (congaResponseRow p)])
        else om_get d (route_table c)))"
proof -
  obtain m where n: "conga_note_route p c = (p\<lparr>congaRouteRow := (congaRouteRow p)\<lparr>en_flag := 0\<rparr>\<rparr>, c\<lparr>response_table := m\<rparr>)"
    "conga_inv (c\<lparr>response_table := m\<rparr>)"
    "\<forall>d. om_get d m = (if en_flag (congaRouteRow p) \<noteq> 0 \<and> d = serv2leaf c (saddr p)
      then Some (om_put (portChose (congaRouteRow p)) (congDegree (congaRouteRow p))
        (case om_get d (response_table c) of None \<Rightarrow> om_empty | Some m \<Rightarrow> m))
      else om_get d (response_table c))"
    using conga_note_route_ok[OF inv] by blast
  let ?p = "p\<lparr>congaRouteRow := (congaRouteRow p)\<lparr>en_flag := 0\<rparr>\<rparr>" and ?c = "c\<lparr>response_table := m\<rparr>"
  have run: "conga_recv p c = conga_take_response ?p ?c" by (simp add: conga_recv_def n(1))
  have leaf: "serv2leaf ?c a = serv2leaf c a" for a by (simp add: serv2leaf_def)
  have deg: "congDegree (congaResponseRow ?p) \<le> int_max" using assms(2) by simp
  have same: "slots ?c = slots c" "route_table ?c = route_table c" "saddr ?p = saddr p"
    "congaResponseRow ?p = congaResponseRow p" by simp_all
  note t = conga_take_response_ok[OF n(2) deg, unfolded leaf same]
  show ?thesis
  proof (cases "en_flag (congaResponseRow p) \<noteq> 0 \<and>
      \<not> (0 \<le> portChose (congaResponseRow p) \<and> portChose (congaResponseRow p) < slots c)")
    case True
    show ?thesis using t unfolding if_P[OF True] run .
  next
    case False
    obtain m' where m': "conga_take_response ?p ?c =
        Inr (?p\<lparr>congaResponseRow := (congaResponseRow p)\<lparr>en_flag := 0\<rparr>\<rparr>, ?c\<lparr>route_table := m'\<rparr>)"
      "conga_inv (?c\<lparr>route_table := m'\<rparr>)"
      "\<forall>d. om_get d m' = (if en_flag (congaResponseRow p) \<noteq> 0 \<and> d = serv2leaf c (saddr p)
        then Some ((case om_get d (route_table c) of None \<Rightarrow> replicate (nat (slots c)) 0 | Some row \<Rightarrow> row)
          [nat (portChose (congaResponseRow p)) := congDegree (congaResponseRow p)])
        else om_get d (route_table c))"
      using t unfolding if_not_P[OF False] by blast
    have "conga_recv p c = Inr (p\<lparr>congaRouteRow := (congaRouteRow p)\<lparr>en_flag := 0\<rparr>,
        congaResponseRow := (congaResponseRow p)\<lparr>en_flag := 0\<rparr>\<rparr>, ?c\<lparr>route_table := m'\<rparr>)"
      unfolding run m'(1) by simp
    then show ?thesis using False m'(2,3) n(3)
      by (simp only: if_False, intro exI[of _ "?c\<lparr>route_table := m'\<rparr>"]) simp
  qed
qed

inductive conga_reach :: "int \<Rightarrow> int \<Rightarrow> conga \<Rightarrow> bool" for sl down where
  start: "conga_reach sl down (new_Conga sl down)"
| route: "conga_reach sl down c \<Longrightarrow> conga_route r rnd p c = Inr (port, p', c') \<Longrightarrow> conga_reach sl down c'"
| recv: "conga_reach sl down c \<Longrightarrow> congDegree (congaResponseRow p) \<le> int_max \<Longrightarrow>
    conga_recv p c = Inr (p', c') \<Longrightarrow> conga_reach sl down c'"

lemma conga_reach_inv: "conga_reach sl down c \<Longrightarrow> 0 < sl \<Longrightarrow> conga_inv c \<and> slots c = sl \<and> leafDownPortNumber c = down"
proof (induction rule: conga_reach.induct)
  case start
  then show ?case using new_Conga_inv by (simp add: new_Conga_def)
next
  case (route c r rnd p port p' c')
  then show ?case using conga_route_ok[where c = c and r = r and p = p and rnd = rnd] by auto
next
  case (recv c p p' c')
  then show ?case using conga_recv_ok[of c p] by (auto split: if_splits)
qed

text \<open>C23: CONGA routes every packet to a port of the switch.  When the paths to the leaf
  of the destination are known the port is one of least congestion, and every port of
  least congestion is chosen for some random number; otherwise any port may be
  chosen.  The packet carries the port, with no congestion yet, and an entry of the
  table that the other leaf is to be told.\<close>

theorem conga_route_least_congested:
  assumes "conga_reach sl down c" and "0 < sl"
  shows "(\<exists>j c'. conga_route r rnd p c = Inr (int j, p\<lparr>congaRouteRow := \<lparr> en_flag = 1, srcLeaf = saddr p,
      portChose = int j, congDegree = 0 \<rparr>, congaResponseRow := response_entry rnd (serv2leaf c (daddr p)) c p\<rparr>, c') \<and>
      int j < sl \<and>
      (\<forall>row. om_get (serv2leaf c (daddr p)) (route_table c) = Some row \<longrightarrow> (\<forall>i<nat sl. row ! j \<le> row ! i))) \<and>
    (\<forall>i. int i < sl \<longrightarrow> (\<forall>row. om_get (serv2leaf c (daddr p)) (route_table c) = Some row \<longrightarrow> (\<forall>x\<in>set row. row ! i \<le> x)) \<longrightarrow>
      (\<exists>r' p' c'. conga_route r' rnd p c = Inr (int i, p', c')))"
proof -
  have inv: "conga_inv c" and sl: "slots c = sl" using conga_reach_inv[OF assms] by auto
  let ?dst = "serv2leaf c (daddr p)"
  let ?C = "candidates ?dst c"
  have rowlen: "length row = nat sl" if "om_get ?dst (route_table c) = Some row" for row
    using om_get_mem[OF that] inv sl by (auto simp: conga_inv_def)
  have least: "\<forall>i<nat sl. row ! j \<le> row ! i" if "j \<in> set ?C" "om_get ?dst (route_table c) = Some row" for j row
    using that rowlen[OF that(2)] by (simp add: candidates_def least_ports_iff)
  define port where "port = (\<lambda>r. ?C ! (r mod length ?C))"
  have route: "\<exists>c'. conga_route r rnd p c = Inr (int (port r), p\<lparr>congaRouteRow := \<lparr> en_flag = 1, srcLeaf = saddr p,
      portChose = int (port r), congDegree = 0 \<rparr>, congaResponseRow := response_entry rnd ?dst c p\<rparr>, c') \<and>
      int (port r) < sl \<and> port r \<in> set ?C" for r
    using conga_route_ok[OF inv, where r = r and p = p and rnd = rnd] sl unfolding port_def by blast
  have every: "\<exists>r' p' c'. conga_route r' rnd p c = Inr (int i, p', c')"
    if i: "int i < sl" "\<forall>row. om_get ?dst (route_table c) = Some row \<longrightarrow> (\<forall>x\<in>set row. row ! i \<le> x)" for i
  proof -
    have "i \<in> set ?C" using i sl rowlen by (auto simp: candidates_def least_ports_iff split: option.split)
    then obtain n where "n < length ?C" "?C ! n = i" by (auto simp: in_set_conv_nth)
    then have "port n = i" by (simp add: port_def)
    then show ?thesis using route[of n] by blast
  qed
  show ?thesis using route[of r] least every by blast
qed

definition ex_conga_packet :: packet where
  "ex_conga_packet = Packet_alloc\<lparr>daddr := 7\<rparr>"

lemma conga_route_least_congested_witness:
  "(\<exists>j p' c'. conga_route 5 0 ex_conga_packet (new_Conga 2 4) = Inr (int j, p', c') \<and> int j < 2) \<and>
   (\<exists>r p' c'. conga_route r 0 ex_conga_packet (new_Conga 2 4) = Inr (int 1, p', c'))"
proof -
  have fresh: "om_get d (route_table (new_Conga 2 4)) = None" for d by (simp add: new_Conga_def om_empty_def)
  note r = conga_route_least_congested[OF conga_reach.start, where sl = 2 and down = 4 and r = 5 and rnd = 0
      and p = ex_conga_packet]
  have "0 < (2::int)" "int 1 < 2" by simp_all
  with r[THEN conjunct1] r[THEN conjunct2] fresh show ?thesis by (metis option.distinct(1))
qed

text \<open>Receiving at a leaf: the congestion of the path of the packet is noted under its
  port for the source's leaf, a response replaces the congestion of one port in the row
  of that leaf, and both flags are cleared.  A response with a port outside the switch
  is written out of bounds.\<close>

theorem conga_recv_effect:
  assumes "conga_reach sl down c" and "0 < sl" and "congDegree (congaResponseRow p) \<le> int_max"
  shows "if en_flag (congaResponseRow p) \<noteq> 0 \<and>
      \<not> (0 \<le> portChose (congaResponseRow p) \<and> portChose (congaResponseRow p) < sl)
    then conga_recv p c = Inl OutOfBounds
    else \<exists>c'. conga_recv p c = Inr (p\<lparr>congaRouteRow := (congaRouteRow p)\<lparr>en_flag := 0\<rparr>,
        congaResponseRow := (congaResponseRow p)\<lparr>en_flag := 0\<rparr>\<rparr>, c') \<and>
      (en_flag (congaRouteRow p) \<noteq> 0 \<longrightarrow> (\<exists>m. om_get (serv2leaf c (saddr p)) (response_table c') = Some m \<and>
         om_get (portChose (congaRouteRow p)) m = Some (congDegree (congaRouteRow p)))) \<and>
      (en_flag (congaResponseRow p) \<noteq> 0 \<longrightarrow> (\<exists>row. om_get (serv2leaf c (saddr p)) (route_table c') = Some row \<and>
         length row = nat sl \<and> row ! nat (portChose (congaResponseRow p)) = congDegree (congaResponseRow p))) \<and>
      (\<forall>d. d \<noteq> serv2leaf c (saddr p) \<longrightarrow> om_get d (route_table c') = om_get d (route_table c) \<and>
         om_get d (response_table c') = om_get d (response_table c))"
proof -
  have inv: "conga_inv c" and sl: "slots c = sl" using conga_reach_inv[OF assms(1,2)] by auto
  note r = conga_recv_ok[OF inv assms(3), unfolded sl]
  show ?thesis
  proof (cases "en_flag (congaResponseRow p) \<noteq> 0 \<and>
      \<not> (0 \<le> portChose (congaResponseRow p) \<and> portChose (congaResponseRow p) < sl)")
    case True
    show ?thesis using r unfolding if_P[OF True] .
  next
    case False
    note no = this
    obtain c' where c': "conga_recv p c = Inr (p\<lparr>congaRouteRow := (congaRouteRow p)\<lparr>en_flag := 0\<rparr>,
        congaResponseRow := (congaResponseRow p)\<lparr>en_flag := 0\<rparr>\<rparr>, c')" "conga_inv c'" "slots c' = sl"
      "\<forall>d. om_get d (response_table c') = (if en_flag (congaRouteRow p) \<noteq> 0 \<and> d = serv2leaf c (saddr p)
        then Some (om_put (portChose (congaRouteRow p)) (congDegree (congaRouteRow p))
          (case om_get d (response_table c) of None \<Rightarrow> om_empty | Some m \<Rightarrow> m))
        else om_get d (response_table c))"
      "\<forall>d. om_get d (route_table c') = (if en_flag (congaResponseRow p) \<noteq> 0 \<and> d = serv2leaf c (saddr p)
        then Some ((case om_get d (route_table c) of None \<Rightarrow> replicate (nat sl) 0 | Some row \<Rightarrow> row)
          [nat (portChose (congaResponseRow p)) := congDegree (congaResponseRow p)])
        else om_get d (route_table c))"
      using r unfolding if_not_P[OF False] by blast
    have "\<exists>row. om_get (serv2leaf c (saddr p)) (route_table c') = Some row \<and> length row = nat sl \<and>
        row ! nat (portChose (congaResponseRow p)) = congDegree (congaResponseRow p)" if e: "en_flag (congaResponseRow p) \<noteq> 0"
    proof -
      obtain row0 where row: "om_get (serv2leaf c (saddr p)) (route_table c') =
          Some (row0[nat (portChose (congaResponseRow p)) := congDegree (congaResponseRow p)])"
        using c'(5) e by simp
      have "length row0 = nat sl" using om_get_mem[OF row] c'(2,3) by (auto simp: conga_inv_def)
      then show ?thesis using row no e by simp
    qed
    moreover have "\<exists>m. om_get (serv2leaf c (saddr p)) (response_table c') = Some m \<and>
         om_get (portChose (congaRouteRow p)) m = Some (congDegree (congaRouteRow p))" if "en_flag (congaRouteRow p) \<noteq> 0"
      using c'(4) that by (simp add: om_get_put)
    moreover have "om_get d (route_table c') = om_get d (route_table c) \<and>
         om_get d (response_table c') = om_get d (response_table c)" if "d \<noteq> serv2leaf c (saddr p)" for d
      using c'(4,5) that by simp
    ultimately show ?thesis unfolding if_not_P[OF False] using c'(1) by blast
  qed
qed

lemma conga_recv_effect_witness:
  "\<exists>c'. conga_recv (Packet_alloc\<lparr>congaResponseRow := \<lparr> en_flag = 1, srcLeaf = 1, portChose = 1, congDegree = 6 \<rparr>\<rparr>) (new_Conga 2 4) =
      Inr (Packet_alloc\<lparr>congaResponseRow := \<lparr> en_flag = 0, srcLeaf = 1, portChose = 1, congDegree = 6 \<rparr>\<rparr>, c') \<and>
    (\<exists>row. om_get 0 (route_table c') = Some row \<and> row ! 1 = 6)"
  using conga_recv_effect[OF conga_reach.start, where sl = 2 and down = 4 and
      p = "Packet_alloc\<lparr>congaResponseRow := \<lparr> en_flag = 1, srcLeaf = 1, portChose = 1, congDegree = 6 \<rparr>\<rparr>"]
  by (auto simp: int_max_def Packet_alloc_def CongaRow_zero_def serv2leaf_def new_Conga_def)

end
