(* ===== verification/CongaFeedback.thy ===== *)
theory CongaFeedback
  imports Conga
begin

text \<open>
  CONGA across the network: a packet that leaf A routes crosses links, whose
  estimators raise the metric it carries; leaf B notes the metric and reports it on a
  packet of its own; leaf A reads the report.  The composition of
  \<^verbatim>\<open>Conga::route\<close>, \<^verbatim>\<open>LinkDelay::recv\<close> and \<^verbatim>\<open>Conga::recv\<close>.
\<close>

text \<open>A packet crosses the links in order, each at its time.\<close>

fun delivered :: "sched list \<Rightarrow> packet option" where
  "delivered (To_target p t # es) = Some p"
| "delivered (e # es) = delivered es"
| "delivered [] = None"

fun path_recv :: "(rat \<times> link) list \<Rightarrow> packet \<Rightarrow> packet result" where
  "path_recv [] p = Inr p"
| "path_recv ((now, s) # ls) p =
    bind_r (link_recv now (0, p) s) (\<lambda>(es, s').
      case delivered es of None \<Rightarrow> Inl NullDeref | Some p' \<Rightarrow> path_recv ls p')"

text \<open>The cost that the estimator of a link has once it has seen the packet, and the largest
  on a path.\<close>

definition link_cost :: "packet \<Rightarrow> link \<Rightarrow> int" where
  "link_cost p s = (case link_meter p s of Inl e \<Rightarrow> 0 | Inr (c, s') \<Rightarrow> c)"

definition path_cost :: "(rat \<times> link) list \<Rightarrow> packet \<Rightarrow> int \<Rightarrow> int" where
  "path_cost ls p c = fold (\<lambda>x. max (link_cost p (snd x))) ls c"

definition set_degree :: "int \<Rightarrow> packet \<Rightarrow> packet" where
  "set_degree c p = p\<lparr>congaRouteRow := (congaRouteRow p)\<lparr>congDegree := c\<rparr>\<rparr>"

definition static_ok :: "link \<Rightarrow> bool" where
  "static_ok s \<longleftrightarrow> link_ok s \<and> \<not> ld_dynamic s"

lemma set_degree_simps [simp]:
  "pkt_size (set_degree c p) = pkt_size p" "ifCONGA (set_degree c p) = ifCONGA p"
  "en_flag (congaRouteRow (set_degree c p)) = en_flag (congaRouteRow p)"
  "portChose (congaRouteRow (set_degree c p)) = portChose (congaRouteRow p)"
  "congDegree (congaRouteRow (set_degree c p)) = c" "set_degree c (set_degree d p) = set_degree c p"
  "saddr (set_degree c p) = saddr p" "congaResponseRow (set_degree c p) = congaResponseRow p"
  by (simp_all add: set_degree_def)

lemma set_degree_same: "congDegree (congaRouteRow p) = c \<Longrightarrow> set_degree c p = p"
  by (simp add: set_degree_def)

lemma link_meter_set_degree [simp]: "link_meter (set_degree c p) s = link_meter p s"
  by (simp add: link_meter_def dre_recv_def set_degree_def)

lemma link_cost_bounds:
  assumes "link_ok s" and "0 \<le> pkt_size p"
  shows "0 \<le> link_cost p s" and "link_cost p s < 8"
  using link_meter_ok[OF assms] by (auto simp: link_cost_def)

lemma path_cost_bounds:
  assumes "\<forall>x\<in>set ls. static_ok (snd x)" and "0 \<le> pkt_size p" and "0 \<le> c" and "c < 8"
  shows "0 \<le> path_cost ls p c \<and> path_cost ls p c < 8"
  using assms
proof (induction ls arbitrary: c)
  case (Cons x ls)
  have "0 \<le> link_cost p (snd x)" "link_cost p (snd x) < 8"
    using link_cost_bounds[of "snd x" p] Cons.prems by (simp_all add: static_ok_def)
  then have "0 \<le> path_cost ls p (max (link_cost p (snd x)) c) \<and> path_cost ls p (max (link_cost p (snd x)) c) < 8"
    using Cons.prems by (intro Cons.IH) simp_all
  then show ?case by (simp add: path_cost_def)
qed (simp add: path_cost_def)

lemma link_recv_cost:
  assumes "static_ok s" and "0 \<le> pkt_size p" and "ifCONGA p \<noteq> 1" and "en_flag (congaRouteRow p) = 1"
  shows "\<exists>es s'. link_recv now (a, p) s = Inr (es, s') \<and>
    delivered es = Some (set_degree (max (link_cost p s) (congDegree (congaRouteRow p))) p)"
proof -
  obtain c d where m: "link_meter p s = Inr (c, s\<lparr>ld_dre := Some d\<rparr>)"
    using link_meter_ok[of s p] assms(1,2) by (auto simp: static_ok_def)
  have c: "link_cost p s = c" by (simp add: link_cost_def m)
  have mark: "link_mark_route p s = Inr (set_degree (max c (congDegree (congaRouteRow p))) p, s\<lparr>ld_dre := Some d\<rparr>)"
    using assms(4) by (auto simp: link_mark_route_def m max_def set_degree_same) (simp add: set_degree_def)
  show ?thesis using assms(1,3)
    by (auto simp: link_recv_def link_mark_conga_def mark c txtime_def static_ok_def link_ok_def link_schedule_def Let_def)
qed

lemma path_recv_cost:
  assumes "\<forall>x\<in>set ls. static_ok (snd x)" and "0 \<le> pkt_size p" and "ifCONGA p \<noteq> 1" and "en_flag (congaRouteRow p) = 1"
  shows "path_recv ls p = Inr (set_degree (path_cost ls p (congDegree (congaRouteRow p))) p)"
  using assms
proof (induction ls arbitrary: p)
  case Nil
  then show ?case by (simp add: path_cost_def set_degree_same)
next
  case (Cons x ls)
  obtain now s where x: "x = (now, s)" by (cases x)
  let ?p = "set_degree (max (link_cost p s) (congDegree (congaRouteRow p))) p"
  obtain es s' where r: "link_recv now (0, p) s = Inr (es, s')" "delivered es = Some ?p"
    using link_recv_cost[of s p now 0] Cons.prems by (auto simp: x)
  have same: "link_cost ?p = link_cost p" by (simp add: link_cost_def fun_eq_iff)
  show ?case using Cons.IH[of ?p] Cons.prems r by (simp add: x path_cost_def same)
qed

text \<open>The entry for a port among the entries of a map.\<close>

lemma om_get_index: "om_get k m = Some v \<Longrightarrow> \<exists>i<length m. m ! i = (k, v)"
  using om_get_mem[of k m v] by (simp add: in_set_conv_nth)

lemma serv2leaf_same: "leafDownPortNumber c = leafDownPortNumber d \<Longrightarrow> serv2leaf c = serv2leaf d"
  by (simp add: serv2leaf_def fun_eq_iff)

text \<open>C10: Leaf A learns the congestion of the paths to leaf B: a packet that A routes over
  port \<^verbatim>\<open>j\<close> and that crosses links with the largest cost \<^verbatim>\<open>d\<close> is noted at B; B can
  draw that entry for any packet back to A's leaf, over whatever links, and when this
  packet is received at A its table has \<^verbatim>\<open>d\<close> for port \<^verbatim>\<open>j\<close> of leaf B.\<close>

theorem conga_feedback_roundtrip:
  assumes a: "conga_reach sl down a" and b: "conga_reach sl down b" and sl: "0 < sl"
    and ls: "\<forall>x\<in>set (ls @ ls'). static_ok (snd x)" and size: "0 \<le> pkt_size p" "0 \<le> pkt_size q"
    and fresh: "ifCONGA p \<noteq> 1" "ifCONGA q \<noteq> 1"
    and to_A: "serv2leaf a (daddr q) = serv2leaf a (saddr p)" "serv2leaf a (saddr q) = serv2leaf a (daddr p)"
    and int: "congDegree (congaResponseRow p2) \<le> int_max"
    and at_B: "conga_recv p2 b = Inr (p3, b1)"
    and out: "conga_route r rnd p a = Inr (j, p1, a1)" and path: "path_recv ls p1 = Inr p2"
  shows "\<exists>rnd'. \<forall>r'. \<exists>i q1 b2 q2 q3 a2 row. conga_route r' rnd' q b1 = Inr (i, q1, b2) \<and>
    path_recv ls' q1 = Inr q2 \<and> conga_recv q2 a1 = Inr (q3, a2) \<and>
    om_get (serv2leaf a (daddr p)) (route_table a2) = Some row \<and> row ! nat j = path_cost ls p 0"
proof -
  have ia: "conga_inv a" "slots a = sl" "leafDownPortNumber a = down"
    and ib: "conga_inv b" "slots b = sl" "leafDownPortNumber b = down"
    using conga_reach_inv[OF a sl] conga_reach_inv[OF b sl] by auto
  have leaf: "serv2leaf b = serv2leaf a" using ia(3) ib(3) by (intro serv2leaf_same) simp
  let ?A = "serv2leaf a (saddr p)" and ?d = "path_cost ls p 0"
  have d: "0 \<le> ?d" "?d \<le> int_max" "?d < 8"
    using path_cost_bounds[of ls p 0] ls size(1) by (simp_all add: int_max_def)
  obtain m where m: "a1 = a\<lparr>route_count := m\<rparr>" "conga_inv a1" "0 \<le> j" "j < sl" and
    p1: "\<exists>x. p1 = p\<lparr>congaRouteRow := \<lparr> en_flag = 1, srcLeaf = saddr p, portChose = j, congDegree = 0 \<rparr>, congaResponseRow := x\<rparr>"
  proof -
    obtain m i where r: "conga_route r rnd p a = Inr (int i, p\<lparr>congaRouteRow := \<lparr> en_flag = 1, srcLeaf = saddr p,
        portChose = int i, congDegree = 0 \<rparr>, congaResponseRow := response_entry rnd (serv2leaf a (daddr p)) a p\<rparr>,
        a\<lparr>route_count := m\<rparr>)" "conga_inv (a\<lparr>route_count := m\<rparr>)" "int i < sl"
      using conga_route_ok[OF ia(1), where r = r and rnd = rnd and p = p] ia(2) by metis
    then have "j = int i" "a1 = a\<lparr>route_count := m\<rparr>" "p1 = p\<lparr>congaRouteRow := \<lparr> en_flag = 1, srcLeaf = saddr p,
        portChose = j, congDegree = 0 \<rparr>, congaResponseRow := response_entry rnd (serv2leaf a (daddr p)) a p\<rparr>"
      using out by simp_all
    with r(2,3) show thesis by (intro that) auto
  qed
  have cost: "path_cost ls p1 = path_cost ls p"
  proof -
    have "link_meter p1 s = link_meter p s" for s using p1 by (auto simp: link_meter_def dre_recv_def)
    then show ?thesis by (simp add: path_cost_def link_cost_def fun_eq_iff)
  qed
  have p2: "p2 = set_degree ?d p1" using path_recv_cost[of ls p1] path ls size(1) fresh(1) p1 cost by auto
  have row2: "en_flag (congaRouteRow p2) = 1" "portChose (congaRouteRow p2) = j" "congDegree (congaRouteRow p2) = ?d"
    "saddr p2 = saddr p" using p1 p2 by auto
  obtain t where t: "om_get ?A (response_table b1) = Some t" "om_get j t = Some ?d"
    and b1: "conga_inv b1" "slots b1 = sl" "leafDownPortNumber b1 = down"
    using conga_recv_ok[OF ib(1) int] at_B row2 leaf ib by (auto simp: om_get_put split: if_splits)
  obtain k where k: "k < length t" "t ! k = (j, ?d)" using om_get_index[OF t(2)] by blast
  have leaf1: "serv2leaf b1 = serv2leaf a" using ia(3) b1(3) by (intro serv2leaf_same) simp
  have "\<exists>i q1 b2 q2 q3 a2 row. conga_route r' k q b1 = Inr (i, q1, b2) \<and>
    path_recv ls' q1 = Inr q2 \<and> conga_recv q2 a1 = Inr (q3, a2) \<and>
    om_get (serv2leaf a (daddr p)) (route_table a2) = Some row \<and> row ! nat j = ?d" for r'
  proof -
    have rsp: "response_entry k ?A b1 q = \<lparr> en_flag = 1, srcLeaf = saddr q, portChose = j, congDegree = ?d \<rparr>"
      using t(1) k by (simp add: response_entry_def)
    obtain i q1 b2 where q1: "conga_route r' k q b1 = Inr (i, q1, b2)"
      and q1': "\<exists>x. q1 = q\<lparr>congaRouteRow := \<lparr> en_flag = 1, srcLeaf = saddr q, portChose = i, congDegree = 0 \<rparr>,
        congaResponseRow := \<lparr> en_flag = 1, srcLeaf = x, portChose = j, congDegree = ?d \<rparr>\<rparr>"
      using conga_route_ok[OF b1(1), where r = r' and rnd = k and p = q] leaf1 to_A(1) rsp by auto
    obtain q2 where q2: "path_recv ls' q1 = Inr q2" "q2 = set_degree (path_cost ls' q1 0) q1"
      using path_recv_cost[of ls' q1] ls size(2) fresh(2) q1' by auto
    have row: "portChose (congaResponseRow q2) = j" "congDegree (congaResponseRow q2) = ?d"
      "en_flag (congaResponseRow q2) = 1" "saddr q2 = saddr q" using q1' q2(2) by auto
    have leaf': "serv2leaf a1 (saddr q) = serv2leaf a (daddr p)" 
      unfolding to_A(2)[symmetric] using m(1) by (intro serv2leaf_same[THEN fun_cong]) simp
    have len: "nat j < length row0" if "om_get (serv2leaf a (daddr p)) (route_table a1) = Some row0" for row0
      using om_get_mem[OF that] m ia(2) by (auto simp: conga_inv_def)
    have sl1: "slots a1 = sl" using m(1) ia(2) by simp
    have int2: "congDegree (congaResponseRow q2) \<le> int_max" using d(2) row(2) by simp
    have inside: "\<not> (en_flag (congaResponseRow q2) \<noteq> 0 \<and>
        \<not> (0 \<le> portChose (congaResponseRow q2) \<and> portChose (congaResponseRow q2) < slots a1))"
      using m(3,4) sl1 row(1) by simp
    obtain q3 a2 where r: "conga_recv q2 a1 = Inr (q3, a2)"
      "om_get (serv2leaf a (daddr p)) (route_table a2) =
        Some ((case om_get (serv2leaf a (daddr p)) (route_table a1) of None \<Rightarrow> replicate (nat sl) 0 | Some row \<Rightarrow> row)[nat j := ?d])"
      using conga_recv_ok[OF m(2) int2, unfolded if_not_P[OF inside]] row leaf' unfolding sl1 by auto
    have "(case om_get (serv2leaf a (daddr p)) (route_table a1) of None \<Rightarrow> replicate (nat sl) 0 | Some row \<Rightarrow> row)
        [nat j := ?d] ! nat j = ?d"
      using len m(3,4) by (simp split: option.split)
    then show ?thesis using q1 q2(1) r by blast
  qed
  then show ?thesis by blast
qed

text \<open>A path of one new link of 1 Gbit/s, and the same back.\<close>

definition ex_feedback_link :: "rat \<times> link" where
  "ex_feedback_link = (0, new_LinkDelay 1000000000 0 False)"

definition ex_feedback_there :: packet where
  "ex_feedback_there = Packet_alloc\<lparr>saddr := 1, daddr := 5, pkt_size := 1500\<rparr>"

definition ex_feedback_back :: packet where
  "ex_feedback_back = Packet_alloc\<lparr>saddr := 5, daddr := 1, pkt_size := 40\<rparr>"

lemma conga_feedback_roundtrip_witness:
  "\<exists>p1 p2 a1 p3 b1 rnd' q1 b2 q2 q3 a2 row.
    conga_route 0 0 ex_feedback_there (new_Conga 1 4) = Inr (0, p1, a1) \<and> path_recv [ex_feedback_link] p1 = Inr p2 \<and>
    conga_recv p2 (new_Conga 1 4) = Inr (p3, b1) \<and> conga_route 0 rnd' ex_feedback_back b1 = Inr (0, q1, b2) \<and>
    path_recv [ex_feedback_link] q1 = Inr q2 \<and> conga_recv q2 a1 = Inr (q3, a2) \<and>
    om_get 1 (route_table a2) = Some row \<and> row ! 0 = path_cost [ex_feedback_link] ex_feedback_there 0"
proof -
  let ?a = "new_Conga 1 4"
  have reach: "conga_reach 1 4 ?a" by (rule conga_reach.start)
  have inv: "conga_inv ?a" "slots ?a = 1" "leafDownPortNumber ?a = 4" using conga_reach_inv[OF reach] by simp_all
  have ls: "static_ok (snd ex_feedback_link)"
    by (simp add: ex_feedback_link_def static_ok_def link_ok_def new_LinkDelay_def)
  obtain p1 a1 where p1: "conga_route 0 0 ex_feedback_there ?a = Inr (0, p1, a1)"
    "p1 = ex_feedback_there\<lparr>congaRouteRow := \<lparr> en_flag = 1, srcLeaf = 1, portChose = 0, congDegree = 0 \<rparr>,
        congaResponseRow := (congaResponseRow ex_feedback_there)\<lparr>en_flag := 0\<rparr>\<rparr>"
    using conga_route_ok[OF inv(1), where r = 0 and rnd = 0 and p = ex_feedback_there] inv
    by (auto simp: ex_feedback_there_def response_entry_def new_Conga_def om_empty_def)
  obtain p2 where p2: "path_recv [ex_feedback_link] p1 = Inr p2" "\<exists>c. p2 = set_degree c p1"
    using path_recv_cost[of "[ex_feedback_link]" p1] ls p1(2)
    by (auto simp: ex_feedback_there_def Packet_alloc_def)
  have rsp: "en_flag (congaResponseRow p2) = 0" "congDegree (congaResponseRow p2) = 0"
    using p1(2) p2(2) by (auto simp: ex_feedback_there_def Packet_alloc_def CongaRow_zero_def)
  obtain p3 b1 where p3: "conga_recv p2 ?a = Inr (p3, b1)" "slots b1 = 1" "conga_inv b1"
    using conga_recv_ok[OF inv(1), of p2] rsp inv(2) by (auto simp: int_max_def)
  have one: "i = 0" if "conga_route 0 rnd' ex_feedback_back b1 = Inr (i, q1, b2)" for rnd' i q1 b2
    using conga_route_ok[OF p3(3), where r = 0 and rnd = rnd' and p = ex_feedback_back] that p3(2) by auto
  have side: "\<forall>x\<in>set ([ex_feedback_link] @ [ex_feedback_link]). static_ok (snd x)" "0 \<le> pkt_size ex_feedback_there"
    "0 \<le> pkt_size ex_feedback_back" "ifCONGA ex_feedback_there \<noteq> 1" "ifCONGA ex_feedback_back \<noteq> 1"
    "serv2leaf ?a (daddr ex_feedback_back) = serv2leaf ?a (saddr ex_feedback_there)"
    "serv2leaf ?a (saddr ex_feedback_back) = serv2leaf ?a (daddr ex_feedback_there)"
    "congDegree (congaResponseRow p2) \<le> int_max" "0 < (1::int)"
    using ls rsp(2) by (simp_all add: ex_feedback_there_def ex_feedback_back_def Packet_alloc_def int_max_def)
  obtain rnd' where "\<exists>i q1 b2 q2 q3 a2 row. conga_route 0 rnd' ex_feedback_back b1 = Inr (i, q1, b2) \<and>
    path_recv [ex_feedback_link] q1 = Inr q2 \<and> conga_recv q2 a1 = Inr (q3, a2) \<and>
    om_get (serv2leaf ?a (daddr ex_feedback_there)) (route_table a2) = Some row \<and>
    row ! nat 0 = path_cost [ex_feedback_link] ex_feedback_there 0"
    using conga_feedback_roundtrip[OF reach reach side(9) side(1-8) p3(1) p1(1) p2(1)] by blast
  moreover have "serv2leaf ?a (daddr ex_feedback_there) = 1" by (simp add: serv2leaf_def new_Conga_def ex_feedback_there_def)
  ultimately show ?thesis using p1(1) p2(1) p3(1) one by (metis nat_zero_as_int)
qed

end
