(* ===== verification/Classifier.thy ===== *)
theory Classifier
  imports Packet
begin

text \<open>
  The table of a classifier (\<^verbatim>\<open>classifier/classifier.h\<close>, \<^verbatim>\<open>classifier/classifier.cc\<close>):
  slots with the next objects of packets, which grow by doubling, the highest slot in
  use, and the lookup of a packet with its default target and its call into Tcl.
\<close>

record classifier =
  cl_slot :: "nsobject option list option"
  cl_nslot :: int
  cl_maxslot :: int
  cl_offset :: "packet \<Rightarrow> int"
  cl_shift :: nat
  cl_mask :: int
  cl_default :: "nsobject option"
  cl_nsize :: int
  cl_randSalt :: int

text \<open>\<^verbatim>\<open>offset_\<close> names the header field that \<^verbatim>\<open>classify\<close> reads.\<close>

definition new_Classifier :: "(packet \<Rightarrow> int) \<Rightarrow> classifier" where
  "new_Classifier off = \<lparr> cl_slot = None, cl_nslot = 0, cl_maxslot = -1, cl_offset = off, cl_shift = 0, cl_mask = -1,
     cl_default = None, cl_nsize = 0, cl_randSalt = 0 \<rparr>"

definition mshift :: "int \<Rightarrow> 'a classifier_scheme \<Rightarrow> int" where
  "mshift val c = and (drop_bit (cl_shift c) val) (cl_mask c)"

definition classify :: "packet \<Rightarrow> 'a classifier_scheme \<Rightarrow> int" where
  "classify p c = mshift (cl_offset c p) c"

definition set_table_size :: "int \<Rightarrow> 'a classifier_scheme \<Rightarrow> 'a classifier_scheme" where
  "set_table_size nn c = c\<lparr>cl_nsize := nn\<rparr>"

definition get_slot :: "int \<Rightarrow> 'a classifier_scheme \<Rightarrow> nsobject option" where
  "get_slot i c = (if 0 \<le> i \<and> i < cl_nslot c then (case cl_slot c of None \<Rightarrow> None | Some t \<Rightarrow> t ! nat i) else None)"

text \<open>\<^verbatim>\<open>nslot_ <<= 1\<close> on 32 bits, and the loop of \<^verbatim>\<open>alloc\<close>, which need not end.\<close>

definition shl1 :: "int \<Rightarrow> int" where
  "shl1 n = sint (push_bit 1 (word_of_int n :: u32))"

partial_function (option) grow :: "int \<Rightarrow> int \<Rightarrow> int option" where
  "grow slot n = (if n \<le> slot then grow slot (shl1 n) else Some n)"

definition cl_alloc :: "int \<Rightarrow> 'a classifier_scheme \<Rightarrow> 'a classifier_scheme result" where
  "cl_alloc slot c =
    (let old = cl_slot c;
         n0 = (if old = None then (if cl_nsize c \<noteq> 0 then cl_nsize c else 32) else cl_nslot c);
         kept = (case old of None \<Rightarrow> [] | Some t \<Rightarrow> t)
     in case grow slot n0 of None \<Rightarrow> Inl Loops
        | Some n \<Rightarrow> if n < 0 then Inl Abort
            else if n < int (length kept) then Inl OutOfBounds
            else Inr (c\<lparr>cl_slot := Some (kept @ replicate (nat n - length kept) None), cl_nslot := n\<rparr>))"

definition put_slot :: "int \<Rightarrow> nsobject option \<Rightarrow> 'a classifier_scheme \<Rightarrow> 'a classifier_scheme result" where
  "put_slot i p c =
    (case cl_slot c of None \<Rightarrow> Inl NullDeref
     | Some t \<Rightarrow> if 0 \<le> i \<and> i < int (length t) then Inr (c\<lparr>cl_slot := Some (t[nat i := p])\<rparr>) else Inl OutOfBounds)"

text \<open>\<^verbatim>\<open>rnd\<close> is the value of \<^verbatim>\<open>rand()\<close>.\<close>

definition install :: "int \<Rightarrow> int \<Rightarrow> nsobject option \<Rightarrow> 'a classifier_scheme \<Rightarrow> 'a classifier_scheme result" where
  "install rnd i p c =
    bind_r (if i \<ge> cl_nslot c then cl_alloc i c else Inr c) (\<lambda>c1.
      bind_r (put_slot i p c1) (\<lambda>c2.
        Inr (if i \<ge> cl_maxslot c2 then c2\<lparr>cl_maxslot := i, cl_randSalt := rnd\<rparr> else c2)))"

definition install_next :: "int \<Rightarrow> nsobject option \<Rightarrow> 'a classifier_scheme \<Rightarrow> (int \<times> 'a classifier_scheme) result" where
  "install_next rnd p c =
    (let i = cl_maxslot c + 1 in bind_r (install rnd i p c) (\<lambda>c'. Inr (i, c')))"

text \<open>The loop of \<^verbatim>\<open>clear\<close>: down to the next slot in use.\<close>

fun clear_loop :: "nsobject option list \<Rightarrow> nat \<Rightarrow> int" where
  "clear_loop t 0 = -1"
| "clear_loop t (Suc k) = (if t ! k = None then clear_loop t k else int k)"

definition clear_slot :: "int \<Rightarrow> int \<Rightarrow> 'a classifier_scheme \<Rightarrow> 'a classifier_scheme result" where
  "clear_slot rnd i c =
    bind_r (put_slot i None c) (\<lambda>c1.
      if i = cl_maxslot c1
      then (case cl_slot c1 of None \<Rightarrow> Inl NullDeref
            | Some t \<Rightarrow> Inr (c1\<lparr>cl_maxslot := clear_loop t (nat i), cl_randSalt := rnd\<rparr>))
      else Inr c1)"

text \<open>The first slot that is free or holds the null agent.\<close>

fun first_free :: "nsobject option \<Rightarrow> nsobject option list \<Rightarrow> nat \<Rightarrow> nat option" where
  "first_free z [] i = None"
| "first_free z (x # xs) i = (if x = None \<or> x = z then Some i else first_free z xs (Suc i))"

definition getnxt :: "nsobject option \<Rightarrow> 'a classifier_scheme \<Rightarrow> (int \<times> 'a classifier_scheme) result" where
  "getnxt z c =
    (case (case cl_slot c of None \<Rightarrow> None | Some t \<Rightarrow> first_free z t 0) of
       Some i \<Rightarrow> Inr (int i, c)
     | None \<Rightarrow> (let i = cl_nslot c in bind_r (cl_alloc i c) (\<lambda>c'. Inr (i, c'))))"

definition allocPort :: "nsobject option \<Rightarrow> 'a classifier_scheme \<Rightarrow> (int \<times> 'a classifier_scheme) result" where
  "allocPort z c = getnxt z c"

text \<open>The lookup of a packet.  \<^verbatim>\<open>cls\<close> is the virtual \<^verbatim>\<open>classify\<close>, which may fail and change
  packet and state; \<^verbatim>\<open>no_slot\<close> the procedure of that name in Tcl, which may change the
  classifier.\<close>

definition TWICE :: int where "TWICE = -1"

definition find_obj ::
    "(packet \<Rightarrow> 'a classifier_scheme \<Rightarrow> (int \<times> packet \<times> 'a classifier_scheme) result) \<Rightarrow>
     (int \<Rightarrow> 'a classifier_scheme \<Rightarrow> 'a classifier_scheme) \<Rightarrow>
     packet \<Rightarrow> 'a classifier_scheme \<Rightarrow> (nsobject option \<times> packet \<times> 'a classifier_scheme) result" where
  "find_obj cls no_slot p c =
    bind_r (cls p c) (\<lambda>(cl, p1, c1).
      if get_slot cl c1 \<noteq> None then Inr (get_slot cl c1, p1, c1)
      else if cl_default c1 \<noteq> None then Inr (cl_default c1, p1, c1)
      else (let c2 = no_slot cl c1
            in if cl = TWICE then bind_r (cls p1 c2) (\<lambda>(cl', p2, c3). Inr (get_slot cl' c3, p2, c3))
               else Inr (None, p1, c2)))"

subsection \<open>Doubling\<close>

lemma shl1_small: "0 \<le> n \<Longrightarrow> n < 2 ^ 30 \<Longrightarrow> shl1 n = 2 * n"
proof -
  assume n: "0 \<le> n" "n < 2 ^ 30"
  have "push_bit 1 (word_of_int n :: u32) = word_of_int (2 * n)" by (simp add: push_bit_eq_mult mult.commute)
  then have "shl1 n = sint (word_of_int (2 * n) :: u32)" by (simp only: shl1_def)
  then have "shl1 n = signed_take_bit 31 (2 * n)" by (simp only: sint_sbintrunc') simp
  also have "\<dots> = 2 * n" using n by (intro signed_take_bit_int_eq_self) simp_all
  finally show ?thesis .
qed

lemma grow_ends:
  assumes "0 < n" and "n < 2 ^ 31" and "slot < 2 ^ 30"
  shows "\<exists>k. grow slot n = Some (n * 2 ^ k) \<and> slot < n * 2 ^ k \<and> n * 2 ^ k < 2 ^ 31 \<and>
    (k = 0 \<or> n * 2 ^ (k - 1) \<le> slot)"
  using assms(1,2)
proof (induction "nat (slot + 1 - n)" arbitrary: n rule: less_induct)
  case less
  show ?case
  proof (cases "n \<le> slot")
    case False
    then show ?thesis using less.prems by (subst grow.simps) (auto intro!: exI[of _ 0])
  next
    case True
    then have two: "shl1 n = 2 * n" using less.prems assms(3) by (intro shl1_small) simp_all
    have "nat (slot + 1 - 2 * n) < nat (slot + 1 - n)" using less.prems True by simp
    then obtain k where k: "grow slot (2 * n) = Some (2 * n * 2 ^ k)" "slot < 2 * n * 2 ^ k" "2 * n * 2 ^ k < 2 ^ 31"
      "k = 0 \<or> 2 * n * 2 ^ (k - 1) \<le> slot"
      using less.hyps[of "2 * n"] less.prems True assms(3) by auto
    have "k = 0 \<or> n * 2 ^ k \<le> slot" using k(4) by (cases k) (simp_all add: mult.assoc mult.left_commute)
    then have "n * 2 ^ k \<le> slot" using True by auto
    then show ?thesis using k(1-3) True two
      by (subst grow.simps) (auto intro!: exI[of _ "Suc k"] simp: mult.assoc mult.left_commute)
  qed
qed

text \<open>From 32 slots, no number of doublings reaches \<^verbatim>\<open>2^30\<close> and more: \<^verbatim>\<open>2^30\<close> is not
  enough, and twice of it is negative and then zero.\<close>

definition stuck :: "int set" where
  "stuck = {0, - (2 ^ 31)} \<union> {2 ^ k | k. k \<le> (30::nat)}"

lemma shl1_stuck: "n \<in> stuck \<Longrightarrow> shl1 n \<in> stuck \<and> n \<le> 2 ^ 30"
proof -
  assume "n \<in> stuck"
  then consider "n = 0" | "n = - (2 ^ 31)" | "n = 2 ^ 30" | k where "n = 2 ^ k" "k < (30::nat)"
    by (auto simp: stuck_def le_less)
  then show ?thesis
  proof cases
    case (4 k)
    have "n < 2 ^ 30" unfolding 4(1) using 4(2) by (intro power_strict_increasing) simp_all
    then show ?thesis using 4 by (auto simp: shl1_small stuck_def intro!: exI[of _ "Suc k"])
  qed (simp_all add: stuck_def shl1_def)
qed

lemma grow_raw: "grow slot n = Some m \<Longrightarrow> 2 ^ 30 \<le> slot \<longrightarrow> n \<notin> stuck"
proof (erule grow.raw_induct[rotated], rule impI, rule notI)
  fix f :: "int \<Rightarrow> int \<Rightarrow> int option" and slot n y
  assume IH: "\<And>slot n y. f slot n = Some y \<Longrightarrow> 2 ^ 30 \<le> slot \<longrightarrow> n \<notin> stuck"
    and step: "(if n \<le> slot then f slot (shl1 n) else Some n) = Some y" and big: "2 ^ 30 \<le> slot" and n: "n \<in> stuck"
  have "n \<le> slot" using shl1_stuck[OF n] big by linarith
  then have "f slot (shl1 n) = Some y" using step by simp
  from IH[OF this] show False using big shl1_stuck[OF n] by blast
qed

lemma grow_loops: "2 ^ 30 \<le> slot \<Longrightarrow> grow slot 32 = None"
proof (rule ccontr)
  assume "2 ^ 30 \<le> slot" "grow slot 32 \<noteq> None"
  then obtain m where "grow slot 32 = Some m" by auto
  from grow_raw[OF this] have "32 \<notin> stuck" using \<open>2 ^ 30 \<le> slot\<close> by blast
  moreover have "(32::int) = 2 ^ 5 \<and> 5 \<le> (30::nat)" by simp
  ultimately show False unfolding stuck_def by blast
qed

subsection \<open>The contract of a slot table\<close>

text \<open>What the users of a table rely on: \<^verbatim>\<open>look\<close> reads a slot, \<^verbatim>\<open>top\<close> is the highest slot in
  use, and \<^verbatim>\<open>inst\<close> stores an object, enlarging the table when needed.\<close>

locale slot_table =
  fixes look :: "int \<Rightarrow> 't \<Rightarrow> nsobject option"
    and top :: "'t \<Rightarrow> int"
    and inst :: "int \<Rightarrow> int \<Rightarrow> nsobject option \<Rightarrow> 't \<Rightarrow> 't result"
    and good :: "'t \<Rightarrow> bool"
    and cap :: int
  assumes inst_ok: "good t \<Longrightarrow> 0 \<le> i \<Longrightarrow> i < cap \<Longrightarrow>
      \<exists>t'. inst rnd i (Some x) t = Inr t' \<and> good t' \<and> top t' = max i (top t) \<and>
        (\<forall>j. look j t' = (if j = i then Some x else look j t))"
    and top_ge: "good t \<Longrightarrow> -1 \<le> top t"
    and look_above: "good t \<Longrightarrow> top t < j \<Longrightarrow> look j t = None"
    and look_below: "good t \<Longrightarrow> j < 0 \<Longrightarrow> look j t = None"
begin

text \<open>Without holes: every slot up to the highest holds an object.\<close>

definition full :: "'t \<Rightarrow> bool" where
  "full t \<longleftrightarrow> (\<forall>j. 0 \<le> j \<longrightarrow> j \<le> top t \<longrightarrow> look j t \<noteq> None)"

fun install_all :: "(int \<times> nsobject) list \<Rightarrow> 't \<Rightarrow> 't result" where
  "install_all [] t = Inr t"
| "install_all ((rnd, x) # xs) t = bind_r (inst rnd (top t + 1) (Some x) t) (install_all xs)"

lemma install_all_ok:
  assumes "good t" and "full t" and "top t + int (length xs) < cap"
  shows "\<exists>t'. install_all xs t = Inr t' \<and> good t' \<and> full t' \<and> top t' = top t + int (length xs) \<and>
    (\<forall>j. look j t' = (if 0 \<le> j - (top t + 1) \<and> j - (top t + 1) < int (length xs)
       then Some (snd (xs ! nat (j - (top t + 1)))) else look j t))"
  using assms
proof (induction xs arbitrary: t)
  case (Cons x xs)
  obtain rnd y where x: "x = (rnd, y)" by (cases x)
  have le: "-1 \<le> top t" using Cons.prems(1) by (rule top_ge)
  obtain t1 where t1: "inst rnd (top t + 1) (Some y) t = Inr t1" "good t1" "top t1 = top t + 1"
    "\<forall>j. look j t1 = (if j = top t + 1 then Some y else look j t)"
    using inst_ok[OF Cons.prems(1), of "top t + 1" rnd y] le Cons.prems(3) by auto
  have "full t1" using Cons.prems(2) t1(3,4) by (auto simp: full_def)
  then obtain t2 where t2: "install_all xs t1 = Inr t2" "good t2" "full t2" "top t2 = top t1 + int (length xs)"
    "\<forall>j. look j t2 = (if 0 \<le> j - (top t1 + 1) \<and> j - (top t1 + 1) < int (length xs)
       then Some (snd (xs ! nat (j - (top t1 + 1)))) else look j t1)"
    using Cons.IH[OF t1(2)] Cons.prems(3) t1(3) by auto
  have "look j t2 = (if 0 \<le> j - (top t + 1) \<and> j - (top t + 1) < int (length (x # xs))
       then Some (snd ((x # xs) ! nat (j - (top t + 1)))) else look j t)" for j
  proof -
    have "nat (j - (top t + 1)) = Suc (nat (j - (top t + 2)))" if "top t + 1 < j" using that by simp
    then show ?thesis using t2(5) t1(3,4) x by (auto simp: nth_Cons' algebra_simps)
  qed
  then show ?case using t1(1) t2 t1(3) by (simp add: x)
qed auto

end

subsection \<open>The classifier as a slot table\<close>

definition cls_inv :: "'a classifier_scheme \<Rightarrow> bool" where
  "cls_inv c \<longleftrightarrow> cl_nslot c = (case cl_slot c of None \<Rightarrow> 0 | Some t \<Rightarrow> int (length t)) \<and>
     (cl_slot c \<noteq> None \<longrightarrow> 0 < cl_nslot c) \<and> cl_nslot c < 2 ^ 31 \<and> 0 \<le> cl_nsize c \<and> cl_nsize c < 2 ^ 31 \<and>
     -1 \<le> cl_maxslot c \<and> cl_maxslot c < cl_nslot c \<and>
     (\<forall>j. cl_maxslot c < j \<longrightarrow> get_slot j c = None) \<and>
     (0 \<le> cl_maxslot c \<longrightarrow> get_slot (cl_maxslot c) c \<noteq> None)"

lemma new_Classifier_inv: "cls_inv (new_Classifier off)"
  by (simp add: cls_inv_def new_Classifier_def get_slot_def)

lemma get_slot_salt: "get_slot j (c\<lparr>cl_slot := t, cl_maxslot := m, cl_randSalt := r\<rparr>) = get_slot j (c\<lparr>cl_slot := t\<rparr>)"
  by (simp add: get_slot_def)

lemma get_slot_Some: "cls_inv c \<Longrightarrow> get_slot j c \<noteq> None \<Longrightarrow> 0 \<le> j \<and> j \<le> cl_maxslot c"
  by (metis cls_inv_def get_slot_def linorder_not_le)

lemma cl_alloc_ok:
  assumes inv: "cls_inv c" and i: "cl_nslot c \<le> i" "i < 2 ^ 30"
  shows "\<exists>c' t. cl_alloc i c = Inr c' \<and> c' = c\<lparr>cl_slot := Some t, cl_nslot := int (length t)\<rparr> \<and> i < int (length t) \<and>
    cls_inv c' \<and> (\<forall>j. get_slot j c' = get_slot j c)"
proof -
  define n0 where "n0 = (if cl_slot c = None then (if cl_nsize c \<noteq> 0 then cl_nsize c else 32) else cl_nslot c)"
  define kept where "kept = (case cl_slot c of None \<Rightarrow> [] | Some t \<Rightarrow> t)"
  have n0: "0 < n0" "n0 < 2 ^ 31" and kept: "cl_nslot c = int (length kept)" "int (length kept) \<le> n0"
    using inv by (auto simp: n0_def kept_def cls_inv_def split: option.splits)
  obtain k where k: "grow i n0 = Some (n0 * 2 ^ k)" "i < n0 * 2 ^ k" "n0 * 2 ^ k < 2 ^ 31"
    using grow_ends[OF n0 i(2)] by blast
  have le: "n0 \<le> n0 * 2 ^ k" using n0(1) by simp
  let ?t = "kept @ replicate (nat (n0 * 2 ^ k) - length kept) None"
  have len: "int (length ?t) = n0 * 2 ^ k" using kept(2) le by simp
  let ?c = "c\<lparr>cl_slot := Some ?t, cl_nslot := int (length ?t)\<rparr>"
  have run: "cl_alloc i c = Inr ?c"
    using k(1) le n0(1) kept(2) len
    by (simp add: cl_alloc_def Let_def n0_def[symmetric] kept_def[symmetric] linorder_not_less)
  have look: "get_slot j ?c = get_slot j c" for j
    using inv le kept
    by (auto simp: get_slot_def kept_def nth_append cls_inv_def split: option.splits)
  have "cls_inv ?c" using inv look k(2,3) i(1) len unfolding cls_inv_def by auto
  then show ?thesis using run look k(2) len by (intro exI[of _ ?c] exI[of _ ?t]) simp
qed

lemma put_slot_ok:
  assumes "cls_inv c" and "0 \<le> i" and "i < cl_nslot c"
  shows "\<exists>t. put_slot i p c = Inr (c\<lparr>cl_slot := Some t\<rparr>) \<and> int (length t) = cl_nslot c \<and>
    (\<forall>j. get_slot j (c\<lparr>cl_slot := Some t\<rparr>) = (if j = i then p else get_slot j c))"
proof -
  obtain t where t: "cl_slot c = Some t" "cl_nslot c = int (length t)"
    using assms by (auto simp: cls_inv_def split: option.splits)
  then show ?thesis using assms(2,3)
    by (intro exI[of _ "t[nat i := p]"]) (auto simp: put_slot_def get_slot_def nth_list_update nat_eq_iff)
qed

lemma install_ok:
  assumes inv: "cls_inv c" and i: "0 \<le> i" "i < 2 ^ 30"
  shows "\<exists>c'. install rnd i (Some p) c = Inr c' \<and> cls_inv c' \<and> cl_maxslot c' = max i (cl_maxslot c) \<and>
    (\<forall>j. get_slot j c' = (if j = i then Some p else get_slot j c))"
proof -
  obtain c1 where c1: "(if i \<ge> cl_nslot c then cl_alloc i c else Inr c) = Inr c1" "cls_inv c1" "i < cl_nslot c1"
    "cl_maxslot c1 = cl_maxslot c" "\<forall>j. get_slot j c1 = get_slot j c"
  proof (cases "i \<ge> cl_nslot c")
    case True
    from cl_alloc_ok[OF inv True i(2)] True show thesis by (elim exE conjE) (rule that, auto)
  qed (use inv in \<open>auto intro: that\<close>)
  obtain t where t: "put_slot i (Some p) c1 = Inr (c1\<lparr>cl_slot := Some t\<rparr>)" "int (length t) = cl_nslot c1"
    "\<forall>j. get_slot j (c1\<lparr>cl_slot := Some t\<rparr>) = (if j = i then Some p else get_slot j c1)"
    using put_slot_ok[OF c1(2) i(1) c1(3)] by blast
  let ?c = "if i \<ge> cl_maxslot c1 then c1\<lparr>cl_slot := Some t, cl_maxslot := i, cl_randSalt := rnd\<rparr> else c1\<lparr>cl_slot := Some t\<rparr>"
  have run: "install rnd i (Some p) c = Inr ?c" by (simp add: install_def c1(1) t(1))
  have look: "get_slot j ?c = (if j = i then Some p else get_slot j c)" for j
    using t(3) c1(5) by (simp only: get_slot_salt if_distrib[of "get_slot j"] if_cancel)
  have "cls_inv ?c" using c1 t(2) look i(1) unfolding cls_inv_def by auto
  then show ?thesis using run look c1(4) by (intro exI[of _ ?c]) (auto simp: max_def)
qed

interpretation cls: slot_table get_slot cl_maxslot install cls_inv "2 ^ 30"
proof unfold_locales
  show "-1 \<le> cl_maxslot c" if "cls_inv c" for c :: "'a classifier_scheme" using that by (simp add: cls_inv_def)
  show "get_slot j c = None" if "cls_inv c" "cl_maxslot c < j" for j and c :: "'a classifier_scheme"
    using that by (simp add: cls_inv_def)
  show "get_slot j c = None" if "cls_inv c" "j < 0" for j and c :: "'a classifier_scheme"
    using that by (simp add: get_slot_def)
qed (rule install_ok)

subsection \<open>Clearing and allocating\<close>

lemma clear_loop_ok:
  assumes "k \<le> length t"
  shows "-1 \<le> clear_loop t k \<and> clear_loop t k < int k \<and> (0 \<le> clear_loop t k \<longrightarrow> t ! nat (clear_loop t k) \<noteq> None) \<and>
    (\<forall>j. clear_loop t k < int j \<longrightarrow> j < k \<longrightarrow> t ! j = None)"
  using assms by (induction k) (auto simp: less_Suc_eq)

lemma clear_slot_ok:
  assumes inv: "cls_inv c" and i: "0 \<le> i" "i < cl_nslot c"
  shows "\<exists>c'. clear_slot rnd i c = Inr c' \<and> cls_inv c' \<and> cl_maxslot c' \<le> cl_maxslot c \<and>
    (\<forall>j. get_slot j c' = (if j = i then None else get_slot j c))"
proof -
  obtain t where t: "put_slot i None c = Inr (c\<lparr>cl_slot := Some t\<rparr>)" "int (length t) = cl_nslot c"
    "\<And>j. get_slot j (c\<lparr>cl_slot := Some t\<rparr>) = (if j = i then None else get_slot j c)"
    using put_slot_ok[OF inv i, of None] by blast
  show ?thesis
  proof (cases "i = cl_maxslot c")
    case False
    have "cls_inv (c\<lparr>cl_slot := Some t\<rparr>)" using inv t(2,3) i False unfolding cls_inv_def by auto
    then show ?thesis using False t(1,3)
      by (intro exI[of _ "c\<lparr>cl_slot := Some t\<rparr>"]) (simp add: clear_slot_def)
  next
    case True
    let ?m = "clear_loop t (nat i)"
    let ?c = "c\<lparr>cl_slot := Some t, cl_maxslot := ?m, cl_randSalt := rnd\<rparr>"
    have m: "-1 \<le> ?m" "?m < i" "0 \<le> ?m \<Longrightarrow> t ! nat ?m \<noteq> None" "\<And>j. ?m < int j \<Longrightarrow> j < nat i \<Longrightarrow> t ! j = None"
      using clear_loop_ok[of "nat i" t] t(2) i by auto
    have look: "get_slot j ?c = (if j = i then None else get_slot j c)" for j
      unfolding get_slot_salt using t(3) by simp
    have "get_slot j ?c = None" if "?m < j" for j
    proof (cases "j < i")
      case True
      then have "t ! nat j = None" using m(1) m(4)[of "nat j"] that by simp
      then show ?thesis by (simp add: get_slot_def)
    next
      case False
      then show ?thesis using look inv \<open>i = cl_maxslot c\<close> by (auto simp: cls_inv_def)
    qed
    moreover have "get_slot ?m ?c \<noteq> None" if "0 \<le> ?m" using that m(2,3) i(2) by (simp add: get_slot_def)
    ultimately have "cls_inv ?c" using inv t(2) i m(1,2) unfolding cls_inv_def by auto
    moreover have "clear_slot rnd i c = Inr ?c" using True t(1) by (simp add: clear_slot_def)
    ultimately show ?thesis using look m(2) True by (intro exI[of _ ?c]) auto
  qed
qed

lemma first_free_ok:
  "case first_free z t i of None \<Rightarrow> \<forall>x\<in>set t. x \<noteq> None \<and> x \<noteq> z
   | Some k \<Rightarrow> i \<le> k \<and> k < i + length t \<and> (t ! (k - i) = None \<or> t ! (k - i) = z) \<and>
       (\<forall>j<k - i. t ! j \<noteq> None \<and> t ! j \<noteq> z)"
proof (induction z t i rule: first_free.induct)
  case (2 z x xs i)
  show ?case
  proof (cases "x = None \<or> x = z")
    case False
    have "(x # xs) ! j \<noteq> None \<and> (x # xs) ! j \<noteq> z"
      if "first_free z xs (Suc i) = Some k" "j < k - i" for j k
      using that 2[OF False] False by (cases j) auto
    then show ?thesis using 2[OF False] False
      by (auto simp: nth_Cons' split: option.splits)
  qed auto
qed simp

lemma getnxt_ok:
  assumes inv: "cls_inv c" and small: "cl_nslot c < 2 ^ 30"
  shows "\<exists>i c'. getnxt z c = Inr (i, c') \<and> cls_inv c' \<and> 0 \<le> i \<and> i < cl_nslot c' \<and>
    (get_slot i c = None \<or> get_slot i c = z) \<and> (\<forall>j. 0 \<le> j \<longrightarrow> j < i \<longrightarrow> get_slot j c \<noteq> None \<and> get_slot j c \<noteq> z) \<and>
    (\<forall>j. get_slot j c' = get_slot j c)"
proof (cases "case cl_slot c of None \<Rightarrow> None | Some t \<Rightarrow> first_free z t 0")
  case (Some k)
  then obtain t where t: "cl_slot c = Some t" "first_free z t 0 = Some k" by (auto split: option.splits)
  then have f: "k < length t" "t ! k = None \<or> t ! k = z" "\<forall>j<k. t ! j \<noteq> None \<and> t ! j \<noteq> z"
    using first_free_ok[where z = z and t = t and i = 0] by simp_all
  have len: "cl_nslot c = int (length t)" using inv t(1) by (simp add: cls_inv_def)
  have slot: "get_slot (int j) c = t ! j" if "j < length t" for j using that len t(1) by (simp add: get_slot_def)
  have "get_slot j c \<noteq> None \<and> get_slot j c \<noteq> z" if "0 \<le> j" "j < int k" for j
    using that f(1,3) slot[of "nat j"] by simp
  then show ?thesis using inv t f(1,2) len slot
    by (intro exI[of _ "int k"] exI[of _ c]) (simp add: getnxt_def)
next
  case None
  have n: "0 \<le> cl_nslot c" using inv by (auto simp: cls_inv_def split: option.splits)
  obtain c' t where c': "cl_alloc (cl_nslot c) c = Inr c'" "c' = c\<lparr>cl_slot := Some t, cl_nslot := int (length t)\<rparr>"
    "cl_nslot c < int (length t)" "cls_inv c'" "\<forall>j. get_slot j c' = get_slot j c"
    using cl_alloc_ok[OF inv order_refl small] by blast
  have used: "get_slot j c \<noteq> None \<and> get_slot j c \<noteq> z" if "0 \<le> j" "j < cl_nslot c" for j
  proof (cases "cl_slot c")
    case (Some t)
    then show ?thesis using None that inv first_free_ok[where z = z and t = t and i = 0] by (simp add: get_slot_def cls_inv_def)
  qed (use that inv in \<open>simp add: cls_inv_def\<close>)
  have "get_slot (cl_nslot c) c = None" by (simp add: get_slot_def)
  then show ?thesis using None n c' used
    by (intro exI[of _ "cl_nslot c"] exI[of _ c']) (simp add: getnxt_def Let_def)
qed

subsection \<open>The properties\<close>

inductive cls_reach :: "classifier \<Rightarrow> bool" where
  start: "cls_reach (new_Classifier off)"
| size: "cls_reach c \<Longrightarrow> 0 \<le> nn \<Longrightarrow> nn < 2 ^ 31 \<Longrightarrow> cls_reach (set_table_size nn c)"
| install: "cls_reach c \<Longrightarrow> install rnd i (Some p) c = Inr c' \<Longrightarrow> i < 2 ^ 30 \<Longrightarrow> cls_reach c'"
| next_slot: "cls_reach c \<Longrightarrow> install_next rnd (Some p) c = Inr (i, c') \<Longrightarrow> i < 2 ^ 30 \<Longrightarrow> cls_reach c'"
| clear: "cls_reach c \<Longrightarrow> clear_slot rnd i c = Inr c' \<Longrightarrow> cls_reach c'"
| alloc_port: "cls_reach c \<Longrightarrow> allocPort z c = Inr (i, c') \<Longrightarrow> i < 2 ^ 30 \<Longrightarrow> cls_reach c'"

lemma put_slot_range: "put_slot i p c = Inr c' \<Longrightarrow> cls_inv c \<Longrightarrow> 0 \<le> i \<and> i < cl_nslot c"
  by (auto simp: put_slot_def cls_inv_def split: option.splits if_splits)

lemma install_range:
  assumes "install rnd i p c = Inr c'" and "cls_inv c"
  shows "0 \<le> i"
proof (rule ccontr)
  assume neg: "\<not> 0 \<le> i"
  have "0 \<le> cl_nslot c" using assms(2) by (auto simp: cls_inv_def split: option.splits)
  then obtain c2 where "put_slot i p c = Inr c2" using assms(1) neg by (auto simp: install_def)
  from put_slot_range[OF this assms(2)] neg show False by simp
qed

lemma getnxt_small:
  assumes "getnxt z c = Inr (i, c')" and "i < 2 ^ 30" and "cls_inv c"
  shows "cls_inv c'"
proof (cases "case cl_slot c of None \<Rightarrow> None | Some t \<Rightarrow> first_free z t 0")
  case None
  then have "i = cl_nslot c" using assms(1) by (auto simp: getnxt_def Let_def)
  then show ?thesis using getnxt_ok[OF assms(3), of z] assms(1,2) by auto
qed (use assms in \<open>auto simp: getnxt_def\<close>)

lemma cls_reach_inv: "cls_reach c \<Longrightarrow> cls_inv c"
proof (induction rule: cls_reach.induct)
  case (start off)
  then show ?case by (rule new_Classifier_inv)
next
  case (size c nn)
  have look: "get_slot j (set_table_size nn c) = get_slot j c" for j by (simp add: get_slot_def set_table_size_def)
  show ?case using size unfolding cls_inv_def look by (auto simp: set_table_size_def)
next
  case (install c rnd i p c')
  then show ?case using install_ok[of c i rnd p] install_range[OF install.hyps(2)] by auto
next
  case (next_slot c rnd p i c')
  have "install rnd (cl_maxslot c + 1) (Some p) c = Inr c'" "i = cl_maxslot c + 1"
    using next_slot.hyps(2) by (auto simp: install_next_def Let_def)
  then show ?case using next_slot install_ok[of c i rnd p] by (auto simp: cls_inv_def)
next
  case (clear c rnd i c')
  then obtain c1 where "put_slot i None c = Inr c1" by (auto simp: clear_slot_def)
  from put_slot_range[OF this clear.IH] show ?case using clear clear_slot_ok[of c i rnd] by auto
next
  case (alloc_port c z i c')
  then show ?case using getnxt_small by (auto simp: allocPort_def)
qed

text \<open>C29: In every state that installs, removals and allocations of ports lead to, the number
  of slots is the length of the table, and \<^verbatim>\<open>maxslot_\<close> is the highest slot in use, or -1.\<close>

theorem classifier_maxslot:
  assumes "cls_reach c"
  shows "cl_nslot c = (case cl_slot c of None \<Rightarrow> 0 | Some t \<Rightarrow> int (length t)) \<and>
    cl_maxslot c = Max (insert (-1) {j. get_slot j c \<noteq> None})"
proof -
  have inv: "cls_inv c" using cls_reach_inv[OF assms] .
  have sub: "{j. get_slot j c \<noteq> None} \<subseteq> {0..cl_maxslot c}" using get_slot_Some[OF inv] by auto
  then have fin: "finite (insert (-1) {j. get_slot j c \<noteq> None})" using finite_subset by auto
  have "cl_maxslot c \<in> insert (-1) {j. get_slot j c \<noteq> None}"
    using inv unfolding cls_inv_def by (metis (mono_tags, lifting) insert_iff linorder_not_le mem_Collect_eq order_antisym_conv zle_add1_eq_le add.left_inverse uminus_add_conv_diff diff_0)
  moreover have "j \<le> cl_maxslot c" if "j \<in> insert (-1) {j. get_slot j c \<noteq> None}" for j
    using that sub inv by (auto simp: cls_inv_def)
  ultimately have "Max (insert (-1) {j. get_slot j c \<noteq> None}) = cl_maxslot c" using fin by (intro Max_eqI)
  then show ?thesis using inv by (simp add: cls_inv_def)
qed

lemma classifier_maxslot_witness:
  "\<exists>c. install 7 40 (Some 3) (new_Classifier dport) = Inr c \<and> cl_maxslot c = Max (insert (-1) {j. get_slot j c \<noteq> None})"
proof -
  obtain c where c: "install 7 40 (Some 3) (new_Classifier dport) = Inr c"
    using install_ok[OF new_Classifier_inv[of dport], of 40 7 3] by auto
  have "cls_reach c" by (rule cls_reach.install[OF cls_reach.start c]) simp
  from classifier_maxslot[OF this] c show ?thesis by blast
qed

text \<open>Installing: a slot below \<^verbatim>\<open>2^30\<close> always succeeds, stores the object and changes no
  other slot; a negative slot is written out of the table; and from \<^verbatim>\<open>2^30\<close> on the loop
  that doubles the size of a new table never ends.\<close>

theorem classifier_install:
  assumes "cls_reach c"
  shows "(0 \<le> i \<and> i < 2 ^ 30 \<longrightarrow> (\<exists>c'. install rnd i (Some p) c = Inr c' \<and> cl_maxslot c' = max i (cl_maxslot c) \<and>
      (\<forall>j. get_slot j c' = (if j = i then Some p else get_slot j c)))) \<and>
    (i < 0 \<longrightarrow> install rnd i (Some p) c \<in> {Inl NullDeref, Inl OutOfBounds}) \<and>
    (2 ^ 30 \<le> i \<longrightarrow> install rnd i (Some p) (new_Classifier off) = Inl Loops)"
proof -
  have inv: "cls_inv c" using cls_reach_inv[OF assms] .
  have "install rnd i (Some p) c \<in> {Inl NullDeref, Inl OutOfBounds}" if "i < 0"
  proof -
    have "\<not> i \<ge> cl_nslot c" using inv that by (auto simp: cls_inv_def split: option.splits)
    then show ?thesis using that by (auto simp: install_def put_slot_def split: option.split)
  qed
  moreover have "install rnd i (Some p) (new_Classifier off) = Inl Loops" if "2 ^ 30 \<le> i"
    using grow_loops[OF that] that by (simp add: install_def new_Classifier_def cl_alloc_def)
  ultimately show ?thesis using install_ok[OF inv, of i rnd p] by blast
qed

lemma classifier_install_witness:
  "(\<exists>c'. install 7 40 (Some 3) (new_Classifier dport) = Inr c' \<and> get_slot 40 c' = Some 3) \<and>
   install 7 (2 ^ 30) (Some 3) (new_Classifier dport) = Inl Loops"
  using classifier_install[OF cls_reach.start, of 40 7 3 dport] classifier_install[OF cls_reach.start, of "2 ^ 30" 7 3 dport]
  by auto

text \<open>Removing an object empties its slot only, and a port is always the lowest slot
  that is free or holds the null agent; allocating one changes no slot.\<close>

theorem classifier_clear_and_ports:
  assumes "cls_reach c"
  shows "(0 \<le> i \<and> i < cl_nslot c \<longrightarrow> (\<exists>c'. clear_slot rnd i c = Inr c' \<and>
      (\<forall>j. get_slot j c' = (if j = i then None else get_slot j c)))) \<and>
    (cl_nslot c < 2 ^ 30 \<longrightarrow> (\<exists>k c'. allocPort z c = Inr (k, c') \<and> 0 \<le> k \<and> k < cl_nslot c' \<and> get_slot k c \<in> {None, z} \<and>
      (\<forall>j. 0 \<le> j \<and> j < k \<longrightarrow> get_slot j c \<notin> {None, z}) \<and> (\<forall>j. get_slot j c' = get_slot j c)))"
proof -
  have inv: "cls_inv c" using cls_reach_inv[OF assms] .
  have "\<exists>k c'. allocPort z c = Inr (k, c') \<and> 0 \<le> k \<and> k < cl_nslot c' \<and> get_slot k c \<in> {None, z} \<and>
      (\<forall>j. 0 \<le> j \<and> j < k \<longrightarrow> get_slot j c \<notin> {None, z}) \<and> (\<forall>j. get_slot j c' = get_slot j c)" if "cl_nslot c < 2 ^ 30"
    using getnxt_ok[OF inv that, of z] unfolding allocPort_def by blast
  then show ?thesis using clear_slot_ok[OF inv, of i rnd] by blast
qed

lemma classifier_clear_and_ports_witness:
  "\<exists>c. install 7 0 (Some 3) (new_Classifier dport) = Inr c \<and> (\<exists>k c'. allocPort None c = Inr (k, c') \<and> 0 < k)"
proof -
  obtain c where c: "install 7 0 (Some 3) (new_Classifier dport) = Inr c" "get_slot 0 c = Some 3"
    using install_ok[OF new_Classifier_inv[of dport], of 0 7 3] by auto
  have n: "cl_nslot c = 32"
    using c(1) by (auto simp: install_def new_Classifier_def cl_alloc_def put_slot_def grow.simps split: if_splits)
  have "cls_reach c" by (rule cls_reach.install[OF cls_reach.start c(1)]) simp
  from classifier_clear_and_ports[OF this, of 0 0 None] n obtain k c' where k: "allocPort None c = Inr (k, c')" "0 \<le> k"
    "get_slot k c = None" by auto
  have "k \<noteq> 0" using k(3) c(2) by auto
  then show ?thesis using c(1) k(1,2) by (intro exI[of _ c] conjI exI[of _ k] exI[of _ c']) simp_all
qed

end
