(* ===== verification/Crc16.thy ===== *)
theory Crc16
  imports Prelude
begin

text \<open>
  The checksum that the multipath classifier hashes a flow with
  (\<^verbatim>\<open>tools/crc16.h\<close>, \<^verbatim>\<open>tools/crc16.cc\<close>), and its equality with the usual
  byte-wise algorithm of CRC-16/ARC.
\<close>

unbundle bit_operations_syntax

type_synonym u16 = "16 word"

definition CRC16 :: u16 where "CRC16 = 0x8005"

text \<open>One round of the first loop with the next bit of the message, and of the second
  loop with a zero bit.\<close>

definition crc_bit :: "bool \<Rightarrow> u16 \<Rightarrow> u16" where
  "crc_bit b out =
    (let bit_flag = drop_bit 15 out;
         out' = push_bit 1 out OR (if b then 1 else 0)
     in if bit_flag \<noteq> 0 then out' XOR CRC16 else out')"

text \<open>The bits of a byte, least significant first.\<close>

definition byte_bits :: "u8 \<Rightarrow> bool list" where
  "byte_bits d = List.map (\<lambda>i. drop_bit i d AND 1 \<noteq> 0) [0..<8]"

text \<open>The last loop: \<^verbatim>\<open>i\<close> runs from the highest bit down, \<^verbatim>\<open>j\<close> from the lowest up.\<close>

fun reflect_loop :: "nat \<Rightarrow> u16 \<Rightarrow> u16 \<Rightarrow> u16 \<Rightarrow> u16 \<Rightarrow> u16" where
  "reflect_loop 0 i j out crc = crc"
| "reflect_loop (Suc n) i j out crc =
    reflect_loop n (drop_bit 1 i) (push_bit 1 j) out (if i AND out \<noteq> 0 then crc OR j else crc)"

definition gen_crc16 :: "u8 list \<Rightarrow> u16" where
  "gen_crc16 data =
    (let out1 = fold crc_bit (concat (List.map byte_bits data)) 0;
         out2 = (crc_bit False ^^ 16) out1
     in reflect_loop 16 0x8000 1 out2 0)"

subsection \<open>Linear functions on words\<close>

definition lin :: "('a::len word \<Rightarrow> 'b::len word) \<Rightarrow> bool" where
  "lin f \<longleftrightarrow> (\<forall>x y. f (x XOR y) = f x XOR f y)"

lemma lin_0: "lin f \<Longrightarrow> f 0 = 0"
  by (metis lin_def xor_self_eq)

lemma lin_comp: "lin f \<Longrightarrow> lin g \<Longrightarrow> lin (\<lambda>x. f (g x))"
  by (simp add: lin_def)

lemma lin_funpow:
  fixes f :: "'a::len word \<Rightarrow> 'a word"
  shows "lin f \<Longrightarrow> lin (f ^^ n)"
  by (induction n) (simp_all add: lin_def)

lemma lin_xor: "lin f \<Longrightarrow> lin g \<Longrightarrow> lin (\<lambda>x. f x XOR g x)"
  by (simp add: lin_def xor.assoc xor.left_commute)

lemma take_bit_Suc_xor:
  fixes x :: "'a::len word"
  shows "take_bit (Suc n) x = take_bit n x XOR (if bit x n then push_bit n 1 else 0)"
  by (rule bit_eqI) (auto simp: bit_simps less_Suc_eq)

text \<open>Linear functions that agree on single bits are equal.\<close>

lemma lin_eq:
  fixes f g :: "'a::len word \<Rightarrow> 'b::len word"
  assumes "lin f" and "lin g" and "\<And>i. i < LENGTH('a) \<Longrightarrow> f (push_bit i 1) = g (push_bit i 1)"
  shows "f x = g x"
proof -
  have "f (take_bit n x) = g (take_bit n x)" if "n \<le> LENGTH('a)" for n
    using that
  proof (induction n)
    case 0
    then show ?case using assms(1,2) by (simp add: lin_0)
  next
    case (Suc n)
    then have "f (push_bit n 1) = g (push_bit n 1)" "f (take_bit n x) = g (take_bit n x)" using assms(3) by auto
    moreover have "f (a XOR b) = f a XOR f b" "g (a XOR b) = g a XOR g b" for a b
      using assms(1,2) by (simp_all add: lin_def)
    ultimately show ?case using lin_0[OF assms(1)] lin_0[OF assms(2)] by (simp add: take_bit_Suc_xor)
  qed
  from this[of "LENGTH('a)"] show ?thesis by (simp add: take_bit_word_eq_self)
qed

subsection \<open>The usual algorithm\<close>

definition arc_shift :: "u16 \<Rightarrow> u16" where
  "arc_shift r = drop_bit 1 r XOR (if bit r 0 then 0xA001 else 0)"

definition arc_byte :: "u8 \<Rightarrow> u16 \<Rightarrow> u16" where
  "arc_byte d r = (arc_shift ^^ 8) (r XOR ucast d)"

definition crc_arc :: "u8 list \<Rightarrow> u16" where
  "crc_arc data = fold arc_byte data 0"

lemma lin_arc_shift: "lin arc_shift"
  unfolding lin_def arc_shift_def
  by (auto simp: bit_simps intro!: bit_eqI) 

lemma crc_bit_xor: "crc_bit b s = crc_bit False s XOR (if b then 1 else 0)"
proof -
  have "push_bit 1 s OR 1 = push_bit 1 s XOR 1" 
    by (rule bit_eqI) (simp only: bit_or_iff bit_xor_iff bit_push_bit_iff bit_1_iff, auto)
  then show ?thesis by (simp add: crc_bit_def Let_def xor.assoc xor.commute xor.left_commute)
qed

lemma crc_bit_False: "crc_bit False s = push_bit 1 s XOR (if bit s 15 then CRC16 else 0)"
proof -
  have "drop_bit 15 s \<noteq> 0 \<longleftrightarrow> bit s 15"
  proof
    assume "bit s 15"
    then have "bit (drop_bit 15 s) 0" by (simp add: bit_simps)
    then show "drop_bit 15 s \<noteq> 0" by auto
  next
    assume "drop_bit 15 s \<noteq> 0"
    then obtain n where "bit (drop_bit 15 s) n" by (metis bit_0_eq bit_eqI bot_apply bot_bool_def)
    then have b: "bit s (15 + n)" by (simp add: bit_simps)
    then have "15 + n < 16" using bit_imp_le_length by fastforce
    then show "bit s 15" using b by (cases n) auto
  qed
  then show ?thesis by (simp add: crc_bit_def Let_def)
qed

lemma lin_crc_bit: "lin (crc_bit False)"
  unfolding lin_def crc_bit_False
  by (auto simp: bit_simps intro!: bit_eqI)

text \<open>The 16 zero bits at the end, and the reflection of the result.\<close>

definition push_out :: "u16 \<Rightarrow> u16" where
  "push_out = crc_bit False ^^ 16"

definition crc_reflect :: "u16 \<Rightarrow> u16" where
  "crc_reflect out = reflect_loop 16 0x8000 1 out 0"

lemma lin_push_out: "lin push_out"
  unfolding push_out_def by (rule lin_funpow[OF lin_crc_bit])

lemma and_push_bit_1: "push_bit n 1 AND out \<noteq> 0 \<longleftrightarrow> bit out n" if "n < 16" for out :: u16
proof
  assume "bit out n"
  then have "bit (push_bit n 1 AND out) n" using that by (simp only: bit_and_iff bit_push_bit_iff bit_1_iff) simp
  then show "push_bit n 1 AND out \<noteq> 0" by auto
next
  assume "push_bit n 1 AND out \<noteq> 0"
  then obtain m where "bit (push_bit n 1 AND out) m" by (metis bit_0_eq bit_eqI bot_apply bot_bool_def)
  then have "m = n" "bit out m" by (simp_all only: bit_and_iff bit_push_bit_iff bit_1_iff) auto
  then show "bit out n" by simp
qed

lemma reflect_loop_bits:
  assumes "n \<le> 16"
  shows "bit (reflect_loop n (push_bit (n - 1) 1) (push_bit (16 - n) 1) out crc) m \<longleftrightarrow>
    bit crc m \<or> 16 - n \<le> m \<and> m < 16 \<and> bit out (15 - m)"
  using assms
proof (induction n arbitrary: crc)
  case (Suc n)
  have i: "drop_bit 1 (push_bit n 1 :: u16) = push_bit (n - 1) 1" if "0 < n"
    using that Suc.prems
    by (intro bit_eqI) (simp only: bit_drop_bit_eq bit_push_bit_iff bit_1_iff comp_apply possible_bit_word, auto)
  have j: "push_bit 1 (push_bit (16 - Suc n) 1 :: u16) = push_bit (16 - n) 1"
    unfolding push_bit_push_bit using Suc.prems by (intro arg_cong[where f = "\<lambda>k. push_bit k 1"]) simp
  let ?crc = "if bit out n then crc OR push_bit (15 - n) 1 else crc"
  have step: "reflect_loop (Suc n) (push_bit (Suc n - 1) 1) (push_bit (16 - Suc n) 1) out crc =
      reflect_loop n (push_bit (n - 1) 1) (push_bit (16 - n) 1) out ?crc"
    using Suc.prems i j and_push_bit_1[of n out] by (cases n) (simp_all only: reflect_loop.simps, auto)
  have bitcrc: "bit ?crc m \<longleftrightarrow> bit crc m \<or> m = 15 - n \<and> bit out n"
    using Suc.prems by (simp only: if_split_asm bit_or_iff bit_push_bit_iff bit_1_iff possible_bit_word split: if_split) auto
  show ?case unfolding step using Suc.IH[of ?crc] Suc.prems bitcrc
    by (cases "m = 15 - n") (auto simp: not_less_eq_eq)
qed auto

lemma bit_crc_reflect: "bit (crc_reflect out) m \<longleftrightarrow> m < 16 \<and> bit out (15 - m)"
proof -
  have "(0x8000 :: u16) = push_bit (16 - 1) 1" "(1 :: u16) = push_bit (16 - 16) 1" by simp_all
  then show ?thesis unfolding crc_reflect_def using reflect_loop_bits[of 16 out 0 m] by simp
qed

lemma lin_crc_reflect: "lin crc_reflect"
  unfolding lin_def by (auto simp: bit_crc_reflect bit_xor_iff intro!: bit_eqI)

text \<open>The rounds on a single bit.\<close>

lemma bit_single: "k < 16 \<Longrightarrow> bit (push_bit k 1 :: u16) n \<longleftrightarrow> n = k"
  by (simp only: bit_push_bit_iff bit_1_iff possible_bit_word) auto

lemma poly_bits: "bit CRC16 n \<longleftrightarrow> n = 0 \<or> n = 2 \<or> n = 15" "bit (0xA001 :: u16) n \<longleftrightarrow> n = 0 \<or> n = 13 \<or> n = 15"
proof -
  have b: "bit (push_bit k 1 :: u16) n = (n = k)" if "k < 16" for k using bit_single[OF that] .
  have l: "15 < (16::nat)" "2 < (16::nat)" "13 < (16::nat)" "0 < (16::nat)" by simp_all
  have "CRC16 = push_bit 15 1 XOR push_bit 2 1 XOR push_bit 0 1" by (simp add: CRC16_def)
  then have "bit CRC16 n \<longleftrightarrow> bit (push_bit 15 1 XOR push_bit 2 1 XOR push_bit 0 1 :: u16) n" by (rule arg_cong)
  also have "\<dots> \<longleftrightarrow> ((n = 15) \<noteq> (n = 2)) \<noteq> (n = 0)" 
    by (simp only: bit_xor_iff b[OF l(1)] b[OF l(2)] b[OF l(3)] b[OF l(4)]) auto
  finally show "bit CRC16 n \<longleftrightarrow> n = 0 \<or> n = 2 \<or> n = 15" by auto
  have "(0xA001 :: u16) = push_bit 15 1 XOR push_bit 13 1 XOR push_bit 0 1" by simp
  then have "bit (0xA001 :: u16) n \<longleftrightarrow> bit (push_bit 15 1 XOR push_bit 13 1 XOR push_bit 0 1 :: u16) n" by (rule arg_cong)
  also have "\<dots> \<longleftrightarrow> ((n = 15) \<noteq> (n = 13)) \<noteq> (n = 0)" 
    by (simp only: bit_xor_iff b[OF l(1)] b[OF l(2)] b[OF l(3)] b[OF l(4)]) auto
  finally show "bit (0xA001 :: u16) n \<longleftrightarrow> n = 0 \<or> n = 13 \<or> n = 15" by auto
qed

lemma crc_reflect_single: "k < 16 \<Longrightarrow> crc_reflect (push_bit k 1) = push_bit (15 - k) 1"
  by (rule bit_eqI) (use bit_single[of k] bit_single[of "15 - k"] in \<open>auto simp: bit_crc_reflect\<close>)

lemma crc_reflect_poly: "crc_reflect CRC16 = 0xA001"
  by (rule bit_eqI) (unfold bit_crc_reflect poly_bits, arith)

lemma crc_bit_single: "crc_bit False (push_bit k 1) = (if k = 15 then CRC16 else push_bit (Suc k) 1)" if "k < 16"
proof -
  have "push_bit 1 (push_bit k 1) = (push_bit (Suc k) 1 :: u16)" by (simp only: push_bit_push_bit) simp
  moreover have "push_bit (Suc 15) 1 = (0 :: u16)"
    by (rule bit_eqI) (simp only: bit_push_bit_iff bit_1_iff possible_bit_word bit_0_eq, auto)
  ultimately show ?thesis unfolding crc_bit_False bit_single[OF that]
    by (cases "k = 15") (simp_all only: simp_thms if_True if_False eq_sym_conv[of 15] xor.left_neutral xor.right_neutral)
qed

lemma arc_shift_single: "arc_shift (push_bit k 1) = (if k = 0 then 0xA001 else push_bit (k - 1) 1)" if "k < 16"
proof -
  have "drop_bit 1 (push_bit k 1) = (if k = 0 then 0 else push_bit (k - 1) 1 :: u16)"
    using that by (intro bit_eqI)
      (simp only: bit_drop_bit_eq comp_apply bit_single if_distrib[where f = bit] bit_0_eq split: if_split, auto simp: bit_single)
  then show ?thesis using that unfolding arc_shift_def by (simp only: bit_single) auto
qed

lemma crc_reflect_shift: "crc_reflect (crc_bit False x) = arc_shift (crc_reflect x)"
proof (rule lin_eq[where f = "\<lambda>x. crc_reflect (crc_bit False x)" and g = "\<lambda>x. arc_shift (crc_reflect x)"])
  show "lin (\<lambda>x. crc_reflect (crc_bit False x))" by (rule lin_comp[OF lin_crc_reflect lin_crc_bit])
  show "lin (\<lambda>x. arc_shift (crc_reflect x))" by (rule lin_comp[OF lin_arc_shift lin_crc_reflect])
  fix i :: nat
  assume that: "i < LENGTH(16)"
  show "crc_reflect (crc_bit False (push_bit i 1)) = arc_shift (crc_reflect (push_bit i 1))"
  proof (cases "i = 15")
    case True
    then show ?thesis using crc_bit_single[of 15] crc_reflect_single[of 15] arc_shift_single[of 0] crc_reflect_poly by simp
  next
    case False
    have i: "i < 16" "Suc i < 16" "15 - i < 16" "15 - i \<noteq> 0" "15 - Suc i = 15 - i - 1" using that False by auto
    show ?thesis
      unfolding crc_bit_single[OF i(1)] crc_reflect_single[OF i(1)] arc_shift_single[OF i(3)]
      using i(4,5) crc_reflect_single[OF i(2)] False by simp
  qed
qed

lemma push_out_1: "crc_reflect (push_out 1) = 0xA001"
proof -
  have "(crc_bit False ^^ k) 1 = push_bit k 1" if "k \<le> 15" for k
    using that
  proof (induction k)
    case (Suc k)
    then have IH: "(crc_bit False ^^ k) 1 = push_bit k 1" and k: "k < 16" "k \<noteq> 15" by simp_all
    have "(crc_bit False ^^ Suc k) 1 = crc_bit False (push_bit k 1)" using IH by (simp only: funpow.simps comp_apply)
    then show ?case using crc_bit_single[OF k(1)] k(2) by (simp only: if_False)
  qed simp
  from this[of 15] have "(crc_bit False ^^ Suc 15) 1 = crc_bit False (push_bit 15 1)"
    by (simp only: funpow.simps comp_apply order_refl)
  then have "push_out 1 = CRC16" using crc_bit_single[of 15] by (simp add: push_out_def)
  then show ?thesis by (simp add: crc_reflect_poly)
qed

lemma push_out_bits:
  "crc_reflect (push_out (fold crc_bit bs s)) =
   fold (\<lambda>b r. arc_shift (r XOR (if b then 1 else 0))) bs (crc_reflect (push_out s))"
proof (induction bs arbitrary: s)
  case (Cons b bs)
  have lin: "f (x XOR y) = f x XOR f y" if "lin f" for f :: "u16 \<Rightarrow> u16" and x y
    using that by (simp add: lin_def)
  have "push_out (crc_bit False s) = crc_bit False (push_out s)"
    unfolding push_out_def by (rule funpow_swap1[symmetric])
  then have "crc_reflect (push_out (crc_bit b s)) =
      arc_shift (crc_reflect (push_out s)) XOR crc_reflect (push_out (if b then 1 else 0))"
    unfolding crc_bit_xor[of b s] lin[OF lin_push_out] lin[OF lin_crc_reflect] by (simp add: crc_reflect_shift)
  also have "crc_reflect (push_out (if b then 1 else 0)) = arc_shift (if b then 1 else 0)"
    using lin_0[OF lin_crc_reflect] lin_0[OF lin_push_out] lin_0[OF lin_arc_shift] arc_shift_single[of 0]
    by (simp add: push_out_1)
  finally have "crc_reflect (push_out (crc_bit b s)) =
      arc_shift (crc_reflect (push_out s) XOR (if b then 1 else 0))"
    unfolding lin[OF lin_arc_shift] .
  then show ?case using Cons.IH[of "crc_bit b s"] by simp
qed simp

text \<open>Eight rounds with the bits of a byte are the rounds of the byte-wise algorithm.\<close>

definition arc_bits :: "bool list \<Rightarrow> u16 \<Rightarrow> u16" where
  "arc_bits bs r = fold (\<lambda>b r. arc_shift (r XOR (if b then 1 else 0))) bs r"

lemma arc_bits_xor:
  "length bs = length cs \<Longrightarrow> arc_bits bs r XOR arc_bits cs s = arc_bits (map2 (\<noteq>) bs cs) (r XOR s)"
proof (induction bs cs arbitrary: r s rule: list_induct2)
  case (Cons b bs c cs)
  have "arc_shift (r XOR (if b then 1 else 0)) XOR arc_shift (s XOR (if c then 1 else 0)) =
      arc_shift (r XOR s XOR (if b \<noteq> c then 1 else 0))"
    unfolding lin_arc_shift[unfolded lin_def, rule_format, symmetric]
    by (cases b; cases c) (simp_all add: xor.assoc xor.left_commute xor.commute)
  then show ?case using Cons.IH by (simp add: arc_bits_def xor.assoc)
qed (simp add: arc_bits_def)

lemma byte_bits_bit: "byte_bits d = List.map (bit d) [0..<8]"
  by (simp add: byte_bits_def and_one_eq bit_iff_odd_drop_bit odd_iff_mod_2_eq_one)

lemma byte_bits_xor: "byte_bits (d XOR e) = map2 (\<noteq>) (byte_bits d) (byte_bits e)"
  unfolding byte_bits_bit map2_map_map bit_xor_iff by (simp add: upt_rec)

lemma byte_bits_single:
  assumes "i < 8"
  shows "byte_bits (push_bit i 1) = replicate i False @ True # replicate (7 - i) False"
proof (rule nth_equalityI)
  have b: "bit (push_bit i 1 :: u8) n \<longleftrightarrow> n = i" for n
    using assms by (simp only: bit_push_bit_iff bit_1_iff possible_bit_word) auto
  show "byte_bits (push_bit i 1) ! n = (replicate i False @ True # replicate (7 - i) False) ! n"
    if "n < length (byte_bits (push_bit i 1))" for n
    using that assms by (auto simp: byte_bits_bit b nth_append nth_Cons' simp del: push_bit_of_1)
qed (use assms in \<open>simp add: byte_bits_bit\<close>)

lemma arc_bits_zeros: "arc_bits (replicate n False) r = (arc_shift ^^ n) r"
  by (induction n arbitrary: r) (simp_all add: arc_bits_def funpow_swap1)

lemma arc_shifts_single: "i < 16 \<Longrightarrow> (arc_shift ^^ i) (push_bit i 1) = 1"
proof (induction i)
  case (Suc i)
  have "(arc_shift ^^ Suc i) (push_bit (Suc i) 1) = (arc_shift ^^ i) (arc_shift (push_bit (Suc i) 1))"
    by (simp only: funpow_Suc_right comp_apply)
  also have "arc_shift (push_bit (Suc i) 1) = push_bit i 1" using arc_shift_single[OF Suc.prems] by (simp only: nat.distinct if_False diff_Suc_1)
  finally show ?case using Suc by simp
qed simp

lemma arc_byte_bits: "arc_bits (byte_bits d) r = arc_byte d r"
proof -
  have len [simp]: "length (byte_bits e) = 8" for e by (simp add: byte_bits_def)
  have z: "byte_bits 0 = replicate 8 False" by (simp add: byte_bits_bit upt_rec eval_nat_numeral)
  have id: "map2 (\<noteq>) bs (replicate (length bs) False) = bs" for bs
    by (induction bs) auto
  have split: "arc_bits (byte_bits d) r = arc_bits (byte_bits d) 0 XOR arc_bits (byte_bits 0) r"
    using arc_bits_xor[of "byte_bits d" "byte_bits 0" 0 r] id[of "byte_bits d"] by (simp add: z)
  have zero: "arc_bits (byte_bits 0) r = (arc_shift ^^ 8) r" for r
    unfolding z arc_bits_zeros ..
  have "arc_bits (byte_bits d) 0 = (arc_shift ^^ 8) (ucast d)"
  proof (rule lin_eq[where f = "\<lambda>d. arc_bits (byte_bits d) 0" and g = "\<lambda>d. (arc_shift ^^ 8) (ucast d)"])
    show "lin (\<lambda>d. arc_bits (byte_bits d) 0)"
      unfolding lin_def using arc_bits_xor[of "byte_bits d" "byte_bits e" 0 0 for d e]
      by (simp add: byte_bits_xor)
    show "lin (\<lambda>d :: u8. (arc_shift ^^ 8) (ucast d))"
      by (rule lin_comp[OF lin_funpow[OF lin_arc_shift]]) (auto simp: lin_def bit_simps intro!: bit_eqI)
    show "arc_bits (byte_bits (push_bit i 1)) 0 = (arc_shift ^^ 8) (ucast (push_bit i 1 :: u8))"
      if "i < LENGTH(8)" for i
    proof -
      have i: "i < 8" using that by simp
      have u: "ucast (push_bit i 1 :: u8) = (push_bit i 1 :: u16)"
        using i by (intro bit_eqI) (simp only: bit_ucast_iff bit_push_bit_iff bit_1_iff possible_bit_word, auto)
      have "arc_bits (byte_bits (push_bit i 1)) 0 = (arc_shift ^^ (7 - i)) (arc_shift ((arc_shift ^^ i) 0 XOR 1))"
        unfolding byte_bits_single[OF i] using arc_bits_zeros[of i 0] arc_bits_zeros[of "7 - i"]
        by (simp add: arc_bits_def)
      also have "(arc_shift ^^ i) 0 = 0" using lin_0[OF lin_funpow[OF lin_arc_shift]] .
      also have "(arc_shift ^^ (7 - i)) (arc_shift (0 XOR 1)) = (arc_shift ^^ (8 - i)) 1"
      proof -
        have k: "8 - i = Suc (7 - i)" using i by simp
        show ?thesis unfolding k funpow_Suc_right by simp
      qed
      also have "\<dots> = (arc_shift ^^ (8 - i)) ((arc_shift ^^ i) (push_bit i 1))"
        using arc_shifts_single[of i] i by simp
      also have "\<dots> = (arc_shift ^^ 8) (push_bit i 1)"
      proof -
        have k: "arc_shift ^^ 8 = (arc_shift ^^ (8 - i)) \<circ> (arc_shift ^^ i)"
          using i by (simp only: flip: funpow_add) simp
        show ?thesis unfolding k comp_apply ..
      qed
      finally show ?thesis unfolding u .
    qed
  qed
  moreover have "(arc_shift ^^ 8) (r XOR ucast d) = (arc_shift ^^ 8) r XOR (arc_shift ^^ 8) (ucast d)"
    using lin_funpow[OF lin_arc_shift] by (simp add: lin_def)
  ultimately show ?thesis using split zero by (simp add: arc_byte_def xor.commute)
qed

text \<open>C19: The bit-serial checksum, which appends sixteen zero bits to the message and
  reverses the bits of the register at the end, is the byte-wise CRC-16/ARC with the
  reversed polynomial.\<close>

theorem gen_crc16_is_arc: "gen_crc16 data = crc_arc data"
proof -
  have "gen_crc16 data = crc_reflect (push_out (fold crc_bit (concat (List.map byte_bits data)) 0))"
    by (simp add: gen_crc16_def Let_def crc_reflect_def push_out_def)
  also have "\<dots> = arc_bits (concat (List.map byte_bits data)) 0"
    unfolding push_out_bits arc_bits_def using lin_0[OF lin_push_out] lin_0[OF lin_crc_reflect] by simp
  also have "\<dots> = fold arc_byte data 0"
  proof -
    have "arc_bits (concat (List.map byte_bits data)) r = fold arc_byte data r" for r
    proof (induction data arbitrary: r)
      case (Cons d data)
      have "arc_bits (byte_bits d @ bs) r = arc_bits bs (arc_bits (byte_bits d) r)" for bs
        by (simp add: arc_bits_def)
      then show ?case using Cons.IH by (simp add: arc_byte_bits)
    qed (simp add: arc_bits_def)
    then show ?thesis .
  qed
  finally show ?thesis by (simp add: crc_arc_def)
qed

end
