(* ===== verification/MultiPath.thy ===== *)
theory MultiPath
  imports Classifier Conga Crc16
begin

text \<open>
  The multipath classifier (\<^verbatim>\<open>classifier/classifier-mpath.h\<close>,
  \<^verbatim>\<open>classifier/classifier-mpath.cc\<close>): the slot of a packet by the hash of a tunnelled flow,
  by CONGA's tag or its route, at random, by flowlet, or by the path key that the load
  balancer of the sender chose (ECMP).
\<close>

record mp_flowlet =
  mf_hash :: u16
  mf_key :: int
  mf_time :: rat

record mpath = classifier +
  mp_sLeaf_Conga :: int
  mp_perPacket :: int
  mp_flowlets :: int
  FlowletTable :: "mp_flowlet list"
  mp_conga :: "conga option"

definition new_mpath :: "(packet \<Rightarrow> int) \<Rightarrow> int \<Rightarrow> int \<Rightarrow> int \<Rightarrow> int \<Rightarrow> conga option \<Rightarrow> mpath" where
  "new_mpath off leaf per fl salt cg =
    classifier.extend ((new_Classifier off)\<lparr>cl_randSalt := salt\<rparr>)
      (mpath.fields leaf per fl [] cg)"

text \<open>The 24 bytes that are hashed: six 32-bit fields, lowest byte first.\<close>

definition le_bytes :: "u32 \<Rightarrow> u8 list" where
  "le_bytes w = List.map (\<lambda>i. ucast (drop_bit (8 * i) w)) [0..<4]"

definition F_Tuple :: "packet \<Rightarrow> int \<Rightarrow> int \<Rightarrow> u8 list" where
  "F_Tuple p x salt = concat (List.map le_bytes
     [word_of_int (saddr p), word_of_int (daddr p), word_of_int x, word_of_int (dport p), word_of_int salt, ecmpHashKey p])"

definition flow_hash :: "packet \<Rightarrow> 'a mpath_scheme \<Rightarrow> u16" where
  "flow_hash p s = gen_crc16 (F_Tuple p (sport p) (cl_randSalt s))"

text \<open>\<^verbatim>\<open>mpath_route\<close>: CONGA's choice when the node runs CONGA, else \<^verbatim>\<open>rand()\<close>.\<close>

definition mpath_route :: "nat \<Rightarrow> nat \<Rightarrow> packet \<Rightarrow> 'a mpath_scheme \<Rightarrow> (int \<times> packet \<times> 'a mpath_scheme) result" where
  "mpath_route r rnd p s =
    (case mp_conga s of
       None \<Rightarrow> Inr (int r, p, s)
     | Some c \<Rightarrow> bind_r (conga_route r rnd p c) (\<lambda>(port, p', c'). Inr (port, p', s\<lparr>mp_conga := Some c'\<rparr>)))"

fun flowlet_at :: "u16 \<Rightarrow> mp_flowlet list \<Rightarrow> nat \<Rightarrow> nat option" where
  "flowlet_at h [] i = None"
| "flowlet_at h (f # fs) i = (if mf_hash f = h then Some i else flowlet_at h fs (Suc i))"

definition balance_flowlet ::
    "rat \<Rightarrow> nat \<Rightarrow> nat \<Rightarrow> packet \<Rightarrow> 'a mpath_scheme \<Rightarrow> (int \<times> packet \<times> 'a mpath_scheme) result" where
  "balance_flowlet now r rnd p s =
    (let crc = flow_hash p s in
     case flowlet_at crc (FlowletTable s) 0 of
       Some i \<Rightarrow>
         (let f = FlowletTable s ! i in
          if \<bar>now - mf_time f\<bar> \<le> 1 / 10000
          then Inr (mf_key f, p, s\<lparr>FlowletTable := (FlowletTable s)[i := f\<lparr>mf_time := now\<rparr>]\<rparr>)
          else bind_r (mpath_route r rnd p s) (\<lambda>(key, p', s').
            Inr (key, p', s'\<lparr>FlowletTable := (FlowletTable s')[i := f\<lparr>mf_key := key, mf_time := now\<rparr>]\<rparr>)))
     | None \<Rightarrow> bind_r (mpath_route r rnd p s) (\<lambda>(key, p', s').
         Inr (key, p', s'\<lparr>FlowletTable := FlowletTable s' @ [\<lparr> mf_hash = crc, mf_key = key, mf_time = now \<rparr>]\<rparr>)))"

definition balance_ecmp :: "packet \<Rightarrow> 'a mpath_scheme \<Rightarrow> int result" where
  "balance_ecmp p s =
    (if cl_maxslot s + 1 = 0 then Inl DivByZero else Inr (uint (ecmpHashKey p) mod (cl_maxslot s + 1)))"

text \<open>The hash of a tunnelled packet, scaled to the slots.\<close>

definition tunnel_key :: "packet \<Rightarrow> 'a mpath_scheme \<Rightarrow> int result" where
  "tunnel_key p s =
    (let crc = gen_crc16 (F_Tuple p (vPath p) (cl_randSalt s)); n = cl_maxslot s + 1 in
     if n = 0 then Inl DivByZero
     else if 0x10000 sdiv n = 0 then Inl DivByZero
     else Inr (uint crc sdiv (0x10000 sdiv n)))"

definition mp_key :: "rat \<Rightarrow> nat \<Rightarrow> nat \<Rightarrow> packet \<Rightarrow> 'a mpath_scheme \<Rightarrow> (int \<times> packet \<times> 'a mpath_scheme) result" where
  "mp_key now r rnd p s =
    (if ifTunnel p = 1 then bind_r (tunnel_key p s) (\<lambda>key. Inr (key, p, s))
     else if mp_sLeaf_Conga s = 1 \<and> ifCONGA p = 1 then Inr (LBTag p, p, s)
     else if mp_perPacket s = 1 then mpath_route r rnd p s
     else if mp_flowlets s = 1 then balance_flowlet now r rnd p s
     else bind_r (balance_ecmp p s) (\<lambda>key. Inr (key, p, s)))"

text \<open>\<^verbatim>\<open>classify\<close>; an empty slot ends the simulation.\<close>

definition mp_classify :: "rat \<Rightarrow> nat \<Rightarrow> nat \<Rightarrow> packet \<Rightarrow> 'a mpath_scheme \<Rightarrow> (int \<times> packet \<times> 'a mpath_scheme) result" where
  "mp_classify now r rnd p s =
    bind_r (mp_key now r rnd p s) (\<lambda>(key, p', s').
      if cl_maxslot s' + 1 = 0 then Inl DivByZero
      else (let cl = key smod (cl_maxslot s' + 1) in
            case cl_slot s' of None \<Rightarrow> Inl NullDeref
            | Some t \<Rightarrow> if cl < 0 \<or> int (length t) \<le> cl then Inl OutOfBounds
                else if t ! nat cl = None then Inl Exit
                else Inr (cl, p', s')))"

subsection \<open>The flowlet table\<close>

definition flowlet_rec :: "u16 \<Rightarrow> mp_flowlet list \<Rightarrow> mp_flowlet option" where
  "flowlet_rec h fs = List.find (\<lambda>f. mf_hash f = h) fs"

lemma flowlet_at_rec:
  "case flowlet_at h fs i of None \<Rightarrow> flowlet_rec h fs = None
   | Some k \<Rightarrow> i \<le> k \<and> k < i + length fs \<and> flowlet_rec h fs = Some (fs ! (k - i)) \<and> mf_hash (fs ! (k - i)) = h \<and>
       (\<forall>g g'. mf_hash g' = h \<longrightarrow> flowlet_rec g (fs[k - i := g']) = (if g = h then Some g' else flowlet_rec g fs))"
proof (induction h fs i rule: flowlet_at.induct)
  case (2 h f fs i)
  show ?case
  proof (cases "mf_hash f = h")
    case False
    note IH = 2[OF False]
    show ?thesis
    proof (cases "flowlet_at h fs (Suc i)")
      case None
      then show ?thesis using IH False by (simp add: flowlet_rec_def)
    next
      case (Some k)
      then have k: "Suc i \<le> k" "k < Suc i + length fs" "flowlet_rec h fs = Some (fs ! (k - Suc i))" "mf_hash (fs ! (k - Suc i)) = h"
        "\<And>g g'. mf_hash g' = h \<Longrightarrow> flowlet_rec g (fs[k - Suc i := g']) = (if g = h then Some g' else flowlet_rec g fs)"
        using IH by simp_all
      obtain m where m: "k = Suc i + m" using k(1) by (metis le_Suc_ex)
      show ?thesis using k Some False unfolding m by (auto simp: flowlet_rec_def)
    qed
  qed (auto simp: flowlet_rec_def)
qed (simp add: flowlet_rec_def)

lemma flowlet_rec_append: "flowlet_rec h (fs @ [f]) =
    (case flowlet_rec h fs of Some g \<Rightarrow> Some g | None \<Rightarrow> if mf_hash f = h then Some f else None)"
  by (induction fs) (simp_all add: flowlet_rec_def)

lemma distinct_update_hash:
  "i < length fs \<Longrightarrow> mf_hash f = mf_hash (fs ! i) \<Longrightarrow> List.map mf_hash (fs[i := f]) = List.map mf_hash fs"
  by (metis list_update_id map_update)

subsection \<open>The key\<close>

definition mp_inv :: "'a mpath_scheme \<Rightarrow> bool" where
  "mp_inv s \<longleftrightarrow> cls_inv s \<and> (\<forall>f\<in>set (FlowletTable s). 0 \<le> mf_key f) \<and> distinct (List.map mf_hash (FlowletTable s)) \<and>
     (\<forall>c. mp_conga s = Some c \<longrightarrow> conga_inv c)"

lemma get_slot_mpath [simp]:
  "get_slot j (s\<lparr>FlowletTable := t\<rparr>) = get_slot j s" "get_slot j (s\<lparr>mp_conga := g\<rparr>) = get_slot j s"
  by (simp_all add: get_slot_def)

lemma cls_inv_mpath [simp]:
  "cls_inv (s\<lparr>FlowletTable := t\<rparr>) = cls_inv s" "cls_inv (s\<lparr>mp_conga := g\<rparr>) = cls_inv s"
  by (simp_all add: cls_inv_def)

lemma flow_hash_mpath [simp]:
  "flow_hash p (s\<lparr>FlowletTable := t\<rparr>) = flow_hash p s" "flow_hash p (s\<lparr>mp_conga := g\<rparr>) = flow_hash p s"
  by (simp_all add: flow_hash_def)

definition conga_rows :: "packet \<Rightarrow> packet \<Rightarrow> bool" where
  "conga_rows p p' \<longleftrightarrow> p' = p\<lparr>congaRouteRow := congaRouteRow p', congaResponseRow := congaResponseRow p'\<rparr>"

lemma conga_rows_refl [simp]: "conga_rows p p"
  by (simp add: conga_rows_def)

lemma mpath_route_ok:
  assumes "mp_inv s"
  shows "\<exists>key p' g. mpath_route r rnd p s = Inr (key, p', s\<lparr>mp_conga := g\<rparr>) \<and> 0 \<le> key \<and> conga_rows p p' \<and>
    mp_inv (s\<lparr>mp_conga := g\<rparr>)"
proof (cases "mp_conga s")
  case None
  have same: "s\<lparr>mp_conga := None\<rparr> = s" using None[symmetric] by simp
  show ?thesis using None assms
    by (intro exI[of _ "int r"] exI[of _ p] exI[of _ None]) (simp add: mpath_route_def same)
next
  case (Some c)
  then have inv: "conga_inv c" using assms by (simp add: mp_inv_def)
  obtain i p' c' where c: "conga_route r rnd p c = Inr (int i, p', c')" "conga_inv c'" "conga_rows p p'"
    using conga_route_ok[OF inv, where r = r and rnd = rnd and p = p] by (auto simp: conga_rows_def)
  then show ?thesis using Some assms
    by (intro exI[of _ "int i"] exI[of _ p'] exI[of _ "Some c'"]) (simp add: mpath_route_def mp_inv_def)
qed

text \<open>What a packet does to the flowlet table: its flow's record has the key that was
  returned and the time, the other records stay.\<close>

lemma balance_flowlet_ok:
  assumes inv: "mp_inv s"
  shows "\<exists>key p' t g. balance_flowlet now r rnd p s = Inr (key, p', s\<lparr>mp_conga := g, FlowletTable := t\<rparr>) \<and> 0 \<le> key \<and>
    conga_rows p p' \<and> mp_inv (s\<lparr>mp_conga := g, FlowletTable := t\<rparr>) \<and>
    (\<forall>h. flowlet_rec h t = (if h = flow_hash p s then Some \<lparr> mf_hash = h, mf_key = key, mf_time = now \<rparr>
      else flowlet_rec h (FlowletTable s))) \<and>
    (\<forall>f. flowlet_rec (flow_hash p s) (FlowletTable s) = Some f \<longrightarrow> \<bar>now - mf_time f\<bar> \<le> 1 / 10000 \<longrightarrow>
      key = mf_key f \<and> p' = p \<and> g = mp_conga s)"
proof -
  let ?h = "flow_hash p s" and ?t = "FlowletTable s"
  obtain k p' g where m: "mpath_route r rnd p s = Inr (k, p', s\<lparr>mp_conga := g\<rparr>)" "0 \<le> k" "conga_rows p p'"
    "mp_inv (s\<lparr>mp_conga := g\<rparr>)"
    using mpath_route_ok[OF inv] by blast
  show ?thesis
  proof (cases "flowlet_at ?h ?t 0")
    case None
    then have no: "flowlet_rec ?h ?t = None" using flowlet_at_rec[of ?h ?t 0] by simp
    then have fresh: "?h \<notin> mf_hash ` set ?t" by (auto simp: flowlet_rec_def find_None_iff)
    let ?t' = "?t @ [\<lparr> mf_hash = ?h, mf_key = k, mf_time = now \<rparr>]"
    have "mp_inv (s\<lparr>mp_conga := g, FlowletTable := ?t'\<rparr>)" using m(2,4) fresh by (auto simp: mp_inv_def)
    moreover have "flowlet_rec h ?t' = (if h = ?h then Some \<lparr> mf_hash = h, mf_key = k, mf_time = now \<rparr>
        else flowlet_rec h ?t)" for h
      using no by (auto simp: flowlet_rec_append split: option.split)
    ultimately show ?thesis using None m no
      by (intro exI[of _ k] exI[of _ p'] exI[of _ ?t'] exI[of _ g]) (simp add: balance_flowlet_def Let_def)
  next
    case (Some i)
    let ?f = "?t ! i"
    have i: "i < length ?t" "flowlet_rec ?h ?t = Some ?f" "mf_hash ?f = ?h"
      "\<And>h f. mf_hash f = ?h \<Longrightarrow> flowlet_rec h (?t[i := f]) = (if h = ?h then Some f else flowlet_rec h ?t)"
      using flowlet_at_rec[of ?h ?t 0] Some by simp_all
    have keep: "mp_inv (s\<lparr>mp_conga := g', FlowletTable := ?t[i := f]\<rparr>)"
      if "mf_hash f = ?h" "0 \<le> mf_key f" "mp_inv (s\<lparr>mp_conga := g'\<rparr>)" for f g'
      using that distinct_update_hash[OF i(1), of f] i(3) set_update_subset_insert[of ?t i f] by (auto simp: mp_inv_def)
    have pos: "0 \<le> mf_key ?f" using i(1) inv by (simp add: mp_inv_def)
    show ?thesis
    proof (cases "\<bar>now - mf_time ?f\<bar> \<le> 1 / 10000")
      case True
      let ?f' = "\<lparr> mf_hash = ?h, mf_key = mf_key ?f, mf_time = now \<rparr>"
      have f': "?f\<lparr>mf_time := now\<rparr> = ?f'" using i(3) by simp
      show ?thesis using Some True i(2,3) pos inv keep[of ?f' "mp_conga s"] i(4)[of ?f']
        by (intro exI[of _ "mf_key ?f"] exI[of _ p] exI[of _ "?t[i := ?f']"] exI[of _ "mp_conga s"])
          (simp add: balance_flowlet_def Let_def f')
    next
      case False
      let ?f' = "\<lparr> mf_hash = ?h, mf_key = k, mf_time = now \<rparr>"
      have f': "?f\<lparr>mf_key := k, mf_time := now\<rparr> = ?f'" using i(3) by simp
      show ?thesis using Some False i(2,3) m keep[of ?f' g] i(4)[of ?f']
        by (intro exI[of _ k] exI[of _ p'] exI[of _ "?t[i := ?f']"] exI[of _ g])
          (simp add: balance_flowlet_def Let_def f')
    qed
  qed
qed

definition mp_after :: "'a mpath_scheme \<Rightarrow> 'a mpath_scheme \<Rightarrow> bool" where
  "mp_after s s' \<longleftrightarrow> s' = s\<lparr>mp_conga := mp_conga s', FlowletTable := FlowletTable s'\<rparr>"

lemma mp_after_simps:
  assumes "mp_after s s'"
  shows "get_slot j s' = get_slot j s" "cl_maxslot s' = cl_maxslot s" "cl_slot s' = cl_slot s" "cls_inv s' = cls_inv s"
    "flow_hash p s' = flow_hash p s" "mp_perPacket s' = mp_perPacket s" "mp_sLeaf_Conga s' = mp_sLeaf_Conga s"
    "mp_flowlets s' = mp_flowlets s"
proof -
  obtain g t where "s' = s\<lparr>mp_conga := g, FlowletTable := t\<rparr>" by (rule that[OF assms[unfolded mp_after_def]])
  then show "get_slot j s' = get_slot j s" "cl_maxslot s' = cl_maxslot s" "cl_slot s' = cl_slot s" "cls_inv s' = cls_inv s"
    "flow_hash p s' = flow_hash p s" "mp_perPacket s' = mp_perPacket s" "mp_sLeaf_Conga s' = mp_sLeaf_Conga s"
    "mp_flowlets s' = mp_flowlets s" by simp_all
qed

lemma mp_after_upd [simp]: "mp_after s (s\<lparr>mp_conga := g, FlowletTable := t\<rparr>)" "mp_after s (s\<lparr>mp_conga := g\<rparr>)" "mp_after s s"
  by (simp_all add: mp_after_def)

lemma mp_after_trans:
  assumes "mp_after s s1" and "mp_after s1 s2"
  shows "mp_after s s2"
proof -
  obtain g t where 1: "s1 = s\<lparr>mp_conga := g, FlowletTable := t\<rparr>" by (rule that[OF assms(1)[unfolded mp_after_def]])
  obtain g' t' where 2: "s2 = s1\<lparr>mp_conga := g', FlowletTable := t'\<rparr>" by (rule that[OF assms(2)[unfolded mp_after_def]])
  show ?thesis unfolding 2 1 by (simp add: mp_after_def)
qed

lemma mp_key_ok:
  assumes inv: "mp_inv s" and n: "0 \<le> cl_maxslot s" "cl_maxslot s < 0x10000" and tag: "0 \<le> LBTag p"
  shows "\<exists>key p' s'. mp_key now r rnd p s = Inr (key, p', s') \<and> 0 \<le> key \<and> conga_rows p p' \<and> mp_after s s' \<and> mp_inv s'"
proof -
  have pos: "0 < 0x10000 sdiv (cl_maxslot s + 1)"
  proof -
    have "0x10000 sdiv (cl_maxslot s + 1) = 0x10000 div (cl_maxslot s + 1)" using n by (simp add: signed_divide_int_def)
    moreover have "0 < 0x10000 div (cl_maxslot s + 1)" using n by (simp add: pos_imp_zdiv_pos_iff)
    ultimately show ?thesis by simp
  qed
  consider "ifTunnel p = 1" | "ifTunnel p \<noteq> 1" "mp_sLeaf_Conga s = 1 \<and> ifCONGA p = 1"
    | "ifTunnel p \<noteq> 1" "\<not> (mp_sLeaf_Conga s = 1 \<and> ifCONGA p = 1)" "mp_perPacket s = 1"
    | "ifTunnel p \<noteq> 1" "\<not> (mp_sLeaf_Conga s = 1 \<and> ifCONGA p = 1)" "mp_perPacket s \<noteq> 1" "mp_flowlets s = 1"
    | "ifTunnel p \<noteq> 1" "\<not> (mp_sLeaf_Conga s = 1 \<and> ifCONGA p = 1)" "mp_perPacket s \<noteq> 1" "mp_flowlets s \<noteq> 1"
    by blast
  then show ?thesis
  proof cases
    case 1
    let ?crc = "uint (gen_crc16 (F_Tuple p (vPath p) (cl_randSalt s)))"
    have "0 \<le> ?crc sdiv (0x10000 sdiv (cl_maxslot s + 1))"
      using pos by (simp add: signed_divide_int_def pos_imp_zdiv_nonneg_iff)
    then show ?thesis using 1 n(1) pos inv by (simp add: mp_key_def tunnel_key_def Let_def)
  next
    case 3
    obtain key p' g where "mpath_route r rnd p s = Inr (key, p', s\<lparr>mp_conga := g\<rparr>)" "0 \<le> key" "conga_rows p p'"
      "mp_inv (s\<lparr>mp_conga := g\<rparr>)" using mpath_route_ok[OF inv] by blast
    then show ?thesis using 3
      by (intro exI[of _ key] exI[of _ p'] exI[of _ "s\<lparr>mp_conga := g\<rparr>"]) (auto simp: mp_key_def)
  next
    case 4
    obtain key p' t g where "balance_flowlet now r rnd p s = Inr (key, p', s\<lparr>mp_conga := g, FlowletTable := t\<rparr>)" "0 \<le> key"
      "conga_rows p p'" "mp_inv (s\<lparr>mp_conga := g, FlowletTable := t\<rparr>)" using balance_flowlet_ok[OF inv] by blast
    then show ?thesis using 4
      by (intro exI[of _ key] exI[of _ p'] exI[of _ "s\<lparr>mp_conga := g, FlowletTable := t\<rparr>"]) (auto simp: mp_key_def)
  qed (use n(1) inv tag in \<open>simp_all add: mp_key_def balance_ecmp_def\<close>)
qed

lemma smod_pos: "0 \<le> (a::int) \<Longrightarrow> 0 < n \<Longrightarrow> a smod n = a mod n"
  by (simp add: signed_modulo_int_def signed_divide_int_def minus_div_mult_eq_mod sgn_if)

lemma mp_classify_key:
  assumes k: "mp_key now r rnd p s = Inr (key, p', s')" "0 \<le> key" "mp_after s s'"
    and inv: "cls_inv s" and n: "0 \<le> cl_maxslot s"
  shows "mp_classify now r rnd p s = (let cl = key mod (cl_maxslot s + 1) in
    if get_slot cl s = None then Inl Exit else Inr (cl, p', s'))"
proof -
  note same = mp_after_simps[OF k(3)]
  let ?cl = "key mod (cl_maxslot s + 1)"
  have cl: "key smod (cl_maxslot s + 1) = ?cl" "0 \<le> ?cl" "?cl < cl_maxslot s + 1"
    using k(2) n pos_mod_bound[of "cl_maxslot s + 1" key] by (simp_all add: smod_pos)
  obtain t where t: "cl_slot s = Some t" "cl_nslot s = int (length t)" "cl_maxslot s < int (length t)"
    using inv n by (auto simp: cls_inv_def split: option.splits)
  then have "get_slot ?cl s = t ! nat ?cl" using cl(2,3) by (simp add: get_slot_def)
  moreover have "\<not> ?cl < 0" "\<not> int (length t) \<le> ?cl" using cl(2,3) t(3) by linarith+
  ultimately show ?thesis using t(1) n by (simp add: mp_classify_def k(1) same Let_def cl(1))
qed

subsection \<open>Reachable states\<close>

inductive mp_reach :: "mpath \<Rightarrow> bool" where
  start: "(\<forall>c. cg = Some c \<longrightarrow> (\<exists>sl down. c = new_Conga sl down \<and> 0 < sl)) \<Longrightarrow> mp_reach (new_mpath off leaf per fl salt cg)"
| install: "mp_reach s \<Longrightarrow> install rnd i (Some x) s = Inr s' \<Longrightarrow> i < 2 ^ 30 \<Longrightarrow> mp_reach s'"
| clear: "mp_reach s \<Longrightarrow> clear_slot rnd i s = Inr s' \<Longrightarrow> mp_reach s'"
| classify: "mp_reach s \<Longrightarrow> mp_classify now r rnd p s = Inr (cl, p', s') \<Longrightarrow> 0 \<le> LBTag p \<Longrightarrow> cl_maxslot s < 0x10000 \<Longrightarrow> mp_reach s'"
| learn: "mp_reach s \<Longrightarrow> mp_conga s = Some c \<Longrightarrow> conga_recv p c = Inr (p', c') \<Longrightarrow>
    congDegree (congaResponseRow p) \<le> int_max \<Longrightarrow> mp_reach (s\<lparr>mp_conga := Some c'\<rparr>)"

lemma put_slot_rest:
  "put_slot i x s = Inr s' \<Longrightarrow> FlowletTable s' = FlowletTable s \<and> mp_conga s' = mp_conga s"
  "cl_alloc i s = Inr s' \<Longrightarrow> FlowletTable s' = FlowletTable s \<and> mp_conga s' = mp_conga s"
  by (auto simp: cl_alloc_def put_slot_def Let_def split: if_splits option.splits)

lemma install_rest:
  "install rnd i x s = Inr s' \<Longrightarrow> FlowletTable s' = FlowletTable s \<and> mp_conga s' = mp_conga s"
  "clear_slot rnd i s = Inr s' \<Longrightarrow> FlowletTable s' = FlowletTable s \<and> mp_conga s' = mp_conga s"
  by (auto simp: install_def clear_slot_def split: if_splits option.splits dest!: put_slot_rest)

lemma mp_reach_inv: "mp_reach s \<Longrightarrow> mp_inv s"
proof (induction rule: mp_reach.induct)
  case (start cg off leaf per fl salt)
  then show ?case using new_Conga_inv
    by (auto simp: mp_inv_def new_mpath_def cls_inv_def new_Classifier_def get_slot_def classifier.defs mpath.defs)
next
  case (install s rnd i x s')
  have "cls_inv s" using install.IH by (simp add: mp_inv_def)
  then show ?case using install_ok[of s i rnd x] install_range[OF install.hyps(2)] install_rest(1)[OF install.hyps(2)] install
    by (auto simp: mp_inv_def)
next
  case (clear s rnd i s')
  have inv: "cls_inv s" using clear.IH by (simp add: mp_inv_def)
  obtain c1 where "put_slot i None s = Inr c1" using clear.hyps(2) by (auto simp: clear_slot_def)
  from put_slot_range[OF this inv] show ?case
    using clear_slot_ok[OF inv, of i rnd] install_rest(2)[OF clear.hyps(2)] clear by (auto simp: mp_inv_def)
next
  case (classify s now r rnd p cl p' s')
  have "0 \<le> cl_maxslot s"
  proof -
    have "cl_maxslot s \<noteq> -1"
    proof
      assume e: "cl_maxslot s = -1"
      have "mp_key now r rnd p s = Inr (key, q, s1) \<Longrightarrow> cl_maxslot s1 = -1" for key q s1
        using e by (auto simp: mp_key_def mpath_route_def balance_flowlet_def Let_def split: if_splits option.splits)
      then show False using classify.hyps(2) by (fastforce simp: mp_classify_def split: if_splits)
    qed
    then show ?thesis using classify.IH by (simp add: mp_inv_def cls_inv_def)
  qed
  then obtain key q s1 where k: "mp_key now r rnd p s = Inr (key, q, s1)" "0 \<le> key" "mp_after s s1" "mp_inv s1"
    using mp_key_ok[OF classify.IH _ classify.hyps(4,3), of now r rnd] by blast
  have "cls_inv s" using classify.IH by (simp add: mp_inv_def)
  from mp_classify_key[OF k(1-3) this \<open>0 \<le> cl_maxslot s\<close>] have "s' = s1"
    using classify.hyps(2) by (simp add: Let_def split: if_splits)
  then show ?case using k(4) by simp
next
  case (learn s c p p' c')
  then have "conga_inv c" by (simp add: mp_inv_def)
  then have "conga_inv c'" using conga_recv_ok[of c p] learn.hyps(3,4) by (auto split: if_splits)
  then show ?case using learn.IH by (simp add: mp_inv_def)
qed

subsection \<open>The properties\<close>

text \<open>With between 1 and 65536 slots and none of them empty, the classifier finds an
  occupied slot for every packet, in every mode: it never divides by zero, reads out of
  the table or stops the simulation.  The table is unchanged, and of the packet only
  CONGA's rows may change.\<close>

theorem mpath_classify_total:
  assumes "mp_reach s" and "0 \<le> cl_maxslot s" and "cl_maxslot s < 0x10000" and "0 \<le> LBTag p"
    and "\<forall>j. 0 \<le> j \<and> j \<le> cl_maxslot s \<longrightarrow> get_slot j s \<noteq> None"
  shows "\<exists>cl p' s'. mp_classify now r rnd p s = Inr (cl, p', s') \<and> 0 \<le> cl \<and> cl \<le> cl_maxslot s \<and> get_slot cl s \<noteq> None \<and>
    p' = p\<lparr>congaRouteRow := congaRouteRow p', congaResponseRow := congaResponseRow p'\<rparr> \<and>
    cl_maxslot s' = cl_maxslot s \<and> (\<forall>j. get_slot j s' = get_slot j s)"
proof -
  have inv: "mp_inv s" using mp_reach_inv[OF assms(1)] .
  then have c: "cls_inv s" by (simp add: mp_inv_def)
  obtain key p' s' where k: "mp_key now r rnd p s = Inr (key, p', s')" "0 \<le> key" "mp_after s s'" "conga_rows p p'"
    using mp_key_ok[OF inv assms(2-4), of now r rnd] by blast
  let ?cl = "key mod (cl_maxslot s + 1)"
  have cl: "0 \<le> ?cl" "?cl \<le> cl_maxslot s"
    using assms(2) pos_mod_sign[of "cl_maxslot s + 1" key] pos_mod_bound[of "cl_maxslot s + 1" key] by linarith+
  then have occ: "get_slot ?cl s \<noteq> None" using assms(5) by blast
  have "mp_classify now r rnd p s = Inr (?cl, p', s')"
    using mp_classify_key[OF k(1-3) c assms(2), unfolded Let_def if_not_P[OF occ]] .
  then show ?thesis using cl occ k(4) mp_after_simps(1,2)[OF k(3)] unfolding conga_rows_def by blast
qed

definition ecmp_mode :: "packet \<Rightarrow> 'a mpath_scheme \<Rightarrow> bool" where
  "ecmp_mode p s \<longleftrightarrow> ifTunnel p \<noteq> 1 \<and> \<not> (mp_sLeaf_Conga s = 1 \<and> ifCONGA p = 1) \<and> mp_perPacket s \<noteq> 1 \<and> mp_flowlets s \<noteq> 1"

text \<open>ECMP: the slot is the path key modulo the number of slots, so equal keys always take
  the same slot and every slot is taken by some key; a hole in the table ends the
  simulation for the keys that fall on it, and an empty table divides by zero.\<close>

theorem mpath_ecmp_slot:
  assumes "mp_reach s" and "ecmp_mode p s"
  shows "mp_classify now r rnd p s =
    (if cl_maxslot s = -1 then Inl DivByZero
     else let cl = uint (ecmpHashKey p) mod (cl_maxslot s + 1) in
       if get_slot cl s = None then Inl Exit else Inr (cl, p, s))"
proof (cases "cl_maxslot s = -1")
  case True
  then show ?thesis using assms(2) by (auto simp: mp_classify_def mp_key_def balance_ecmp_def ecmp_mode_def)
next
  case False
  have c: "cls_inv s" using mp_reach_inv[OF assms(1)] by (simp add: mp_inv_def)
  then have n: "0 \<le> cl_maxslot s" using False by (simp add: cls_inv_def)
  have key: "mp_key now r rnd p s = Inr (uint (ecmpHashKey p) mod (cl_maxslot s + 1), p, s)"
    using assms(2) False by (auto simp: mp_key_def balance_ecmp_def ecmp_mode_def)
  have "0 \<le> uint (ecmpHashKey p) mod (cl_maxslot s + 1)" using n by (simp add: pos_mod_sign)
  from mp_classify_key[OF key this _ c n] show ?thesis using False by (simp add: Let_def)
qed

definition flowlet_mode :: "packet \<Rightarrow> 'a mpath_scheme \<Rightarrow> bool" where
  "flowlet_mode p s \<longleftrightarrow> ifTunnel p \<noteq> 1 \<and> \<not> (mp_sLeaf_Conga s = 1 \<and> ifCONGA p = 1) \<and> mp_perPacket s \<noteq> 1 \<and> mp_flowlets s = 1"

fun mp_run :: "(rat \<times> nat \<times> nat \<times> packet) list \<Rightarrow> mpath \<Rightarrow> (int list \<times> mpath) result" where
  "mp_run [] s = Inr ([], s)"
| "mp_run ((now, r, rnd, p) # es) s =
    bind_r (mp_classify now r rnd p s) (\<lambda>(cl, p', s').
      bind_r (mp_run es s') (\<lambda>(cls, s''). Inr (cl # cls, s'')))"

lemma mp_classify_flowlet:
  assumes inv: "mp_inv s" and mode: "flowlet_mode p s" and r: "mp_classify now r rnd p s = Inr (cl, p', s')"
  shows "mp_inv s' \<and> mp_after s s' \<and> 0 \<le> cl_maxslot s \<and>
    get_slot cl s \<noteq> None \<and> (\<exists>key. cl = key mod (cl_maxslot s + 1) \<and> 0 \<le> key \<and>
      flowlet_rec (flow_hash p s) (FlowletTable s') = Some \<lparr> mf_hash = flow_hash p s, mf_key = key, mf_time = now \<rparr> \<and>
      (\<forall>h. h \<noteq> flow_hash p s \<longrightarrow> flowlet_rec h (FlowletTable s') = flowlet_rec h (FlowletTable s)))"
proof -
  obtain key q t g where b: "balance_flowlet now r rnd p s = Inr (key, q, s\<lparr>mp_conga := g, FlowletTable := t\<rparr>)" "0 \<le> key"
    "mp_inv (s\<lparr>mp_conga := g, FlowletTable := t\<rparr>)"
    "\<forall>h. flowlet_rec h t = (if h = flow_hash p s then Some \<lparr> mf_hash = h, mf_key = key, mf_time = now \<rparr>
      else flowlet_rec h (FlowletTable s))"
    using balance_flowlet_ok[OF inv] by blast
  have key: "mp_key now r rnd p s = Inr (key, q, s\<lparr>mp_conga := g, FlowletTable := t\<rparr>)"
    using mode b(1) by (auto simp: mp_key_def flowlet_mode_def)
  have c: "cls_inv s" using inv by (simp add: mp_inv_def)
  have "cl_maxslot s \<noteq> -1" using r by (auto simp: mp_classify_def key)
  then have n: "0 \<le> cl_maxslot s" using c by (simp add: cls_inv_def)
  from mp_classify_key[OF key b(2) mp_after_upd(1) c n] r
  have "get_slot cl s \<noteq> None" "cl = key mod (cl_maxslot s + 1)" "s' = s\<lparr>mp_conga := g, FlowletTable := t\<rparr>"
    by (simp_all add: Let_def split: if_splits)
  then show ?thesis using b(2-4) n by auto
qed

lemma mp_run_keeps:
  assumes "mp_inv s" and "mp_run es s = Inr (cls, s')" and "flowlet_rec h (FlowletTable s) = Some f"
    and "\<forall>(now, r, rnd, q)\<in>set es. flowlet_mode q s \<and> flow_hash q s \<noteq> h"
  shows "mp_inv s' \<and> mp_after s s' \<and> flowlet_rec h (FlowletTable s') = Some f"
  using assms
proof (induction es arbitrary: s cls)
  case (Cons e es)
  obtain now r rnd q where e: "e = (now, r, rnd, q)" by (cases e) auto
  obtain cl q' s1 cls' where c: "mp_classify now r rnd q s = Inr (cl, q', s1)" "mp_run es s1 = Inr (cls', s')"
    using Cons.prems(2) by (auto simp: e)
  have mode: "flowlet_mode q s" "flow_hash q s \<noteq> h" using Cons.prems(4) by (auto simp: e)
  have s1: "mp_inv s1" "mp_after s s1" "flowlet_rec h (FlowletTable s1) = Some f"
    using mp_classify_flowlet[OF Cons.prems(1) mode(1) c(1)] mode(2) Cons.prems(3) by auto
  have "\<forall>(now, r, rnd, q)\<in>set es. flowlet_mode q s1 \<and> flow_hash q s1 \<noteq> h"
    using Cons.prems(4) mp_after_simps[OF s1(2)] by (auto simp: flowlet_mode_def)
  from Cons.IH[OF s1(1) c(2) s1(3) this] show ?case using mp_after_trans[OF s1(2)] by blast
qed simp

text \<open>C24: Flowlets: packets of the same flow that follow each other within 100 microseconds
  take the same slot, whatever packets of other flows are classified between them.\<close>

theorem mpath_flowlet_sticks:
  assumes "mp_reach s" and mode: "flowlet_mode p s" "flowlet_mode q s" and same: "flow_hash q s = flow_hash p s"
    and first: "mp_classify now r rnd p s = Inr (cl, p', s1)" and between: "mp_run es s1 = Inr (cls, s2)"
    and others: "\<forall>(t, r, rnd, x)\<in>set es. flowlet_mode x s \<and> flow_hash x s \<noteq> flow_hash p s"
    and soon: "\<bar>now' - now\<bar> \<le> 1 / 10000"
  shows "\<exists>s3. mp_classify now' r' rnd' q s2 = Inr (cl, q, s3)"
proof -
  have inv: "mp_inv s" using mp_reach_inv[OF assms(1)] .
  obtain key where k: "mp_inv s1" "mp_after s s1" "0 \<le> cl_maxslot s" "cl = key mod (cl_maxslot s + 1)" "0 \<le> key"
    "get_slot cl s \<noteq> None" "flowlet_rec (flow_hash p s) (FlowletTable s1) = Some \<lparr> mf_hash = flow_hash p s, mf_key = key, mf_time = now \<rparr>"
    using mp_classify_flowlet[OF inv mode(1) first] by blast
  note e1 = mp_after_simps[OF k(2)]
  have "\<forall>(t, r, rnd, x)\<in>set es. flowlet_mode x s1 \<and> flow_hash x s1 \<noteq> flow_hash p s"
    using others e1 by (auto simp: flowlet_mode_def)
  then have s2: "mp_inv s2" "mp_after s1 s2"
    "flowlet_rec (flow_hash p s) (FlowletTable s2) = Some \<lparr> mf_hash = flow_hash p s, mf_key = key, mf_time = now \<rparr>"
    using mp_run_keeps[OF k(1) between k(7)] by blast+
  note e2 = mp_after_simps[OF s2(2)]
  have h: "flow_hash q s2 = flow_hash p s" using e1 e2 same by simp
  have near: "\<bar>now' - mf_time \<lparr> mf_hash = flow_hash p s, mf_key = key, mf_time = now \<rparr>\<bar> \<le> 1 / 10000" using soon by simp
  obtain key' q' t g where b': "balance_flowlet now' r' rnd' q s2 = Inr (key', q', s2\<lparr>mp_conga := g, FlowletTable := t\<rparr>)"
    "\<forall>f. flowlet_rec (flow_hash p s) (FlowletTable s2) = Some f \<longrightarrow> \<bar>now' - mf_time f\<bar> \<le> 1 / 10000 \<longrightarrow>
      key' = mf_key f \<and> q' = q \<and> g = mp_conga s2"
    using balance_flowlet_ok[OF s2(1), of now' r' rnd' q] unfolding h by blast
  have "key' = mf_key \<lparr> mf_hash = flow_hash p s, mf_key = key, mf_time = now \<rparr> \<and> q' = q"
    using b'(2)[rule_format, OF s2(3) near] by blast
  then have b: "balance_flowlet now' r' rnd' q s2 = Inr (key, q, s2\<lparr>mp_conga := g, FlowletTable := t\<rparr>)"
    using b'(1) by simp
  have mk: "mp_key now' r' rnd' q s2 = Inr (key, q, s2\<lparr>mp_conga := g, FlowletTable := t\<rparr>)"
    using mode(2) e1 e2 b by (auto simp: mp_key_def flowlet_mode_def)
  have c: "cls_inv s2" using s2(1) by (simp add: mp_inv_def)
  have "0 \<le> cl_maxslot s2" using k(3) e1 e2 by simp
  from mp_classify_key[OF mk k(5) mp_after_upd(1) c this] show ?thesis
    using k(4,6) e1 e2 by (simp add: Let_def)
qed

text \<open>CONGA: when the switch has as many slots as CONGA has ports, the slot is the port that
  the packet carries, one of least congestion among those to the destination's leaf.\<close>

theorem mpath_conga_port_is_slot:
  assumes "mp_reach s" and "mp_conga s = Some c" and "slots c = cl_maxslot s + 1"
    and mode: "ifTunnel p \<noteq> 1" "\<not> (mp_sLeaf_Conga s = 1 \<and> ifCONGA p = 1)" "mp_perPacket s = 1"
    and full: "\<forall>j. 0 \<le> j \<and> j \<le> cl_maxslot s \<longrightarrow> get_slot j s \<noteq> None"
  shows "\<exists>j p' s'. mp_classify now r rnd p s = Inr (int j, p', s') \<and> portChose (congaRouteRow p') = int j \<and>
    en_flag (congaRouteRow p') = 1 \<and> int j \<le> cl_maxslot s \<and>
    (\<forall>row. om_get (serv2leaf c (daddr p)) (route_table c) = Some row \<longrightarrow> (\<forall>x\<in>set row. row ! j \<le> x))"
proof -
  have inv: "mp_inv s" using mp_reach_inv[OF assms(1)] .
  then have c: "conga_inv c" "cls_inv s" using assms(2) by (simp_all add: mp_inv_def)
  have n: "0 \<le> cl_maxslot s" using c(1) assms(3) by (simp add: conga_inv_def)
  obtain j p' c' where r: "conga_route r rnd p c = Inr (int j, p', c')" "int j < slots c"
    "j \<in> set (candidates (serv2leaf c (daddr p)) c)" "portChose (congaRouteRow p') = int j" "en_flag (congaRouteRow p') = 1"
    using conga_route_ok[OF c(1), where r = r and rnd = rnd and p = p] by auto
  have key: "mp_key now r rnd p s = Inr (int j, p', s\<lparr>mp_conga := Some c'\<rparr>)"
    using mode assms(2) r(1) by (auto simp: mp_key_def mpath_route_def)
  have j: "int j mod (cl_maxslot s + 1) = int j" "int j \<le> cl_maxslot s" using r(2) assms(3) by simp_all
  then have occ: "get_slot (int j) s \<noteq> None" using full by simp
  have "mp_classify now r rnd p s = Inr (int j, p', s\<lparr>mp_conga := Some c'\<rparr>)"
    using mp_classify_key[OF key _ mp_after_upd(2) c(2) n, unfolded Let_def j(1) if_not_P[OF occ]] by simp
  moreover have "\<forall>row. om_get (serv2leaf c (daddr p)) (route_table c) = Some row \<longrightarrow> (\<forall>x\<in>set row. row ! j \<le> x)"
    using r(3) by (auto simp: candidates_def least_ports_iff)
  ultimately show ?thesis using r(4,5) j(2) by blast
qed

subsection \<open>A classifier with two slots\<close>

definition ex_mpath :: "int \<Rightarrow> int \<Rightarrow> conga option \<Rightarrow> mpath" where
  "ex_mpath per fl cg = (new_mpath daddr 0 per fl 5 cg)\<lparr>cl_slot := Some (Some 3 # Some 4 # replicate 30 None), cl_nslot := 32,
     cl_maxslot := 1, cl_randSalt := 6\<rparr>"

lemma ex_mpath_reach:
  assumes "\<forall>c. cg = Some c \<longrightarrow> (\<exists>sl down. c = new_Conga sl down \<and> 0 < sl)"
  shows "mp_reach (ex_mpath per fl cg)"
proof -
  let ?s = "new_mpath daddr 0 per fl 5 cg"
  let ?s1 = "?s\<lparr>cl_slot := Some (Some 3 # replicate 31 None), cl_nslot := 32, cl_maxslot := 0, cl_randSalt := 6\<rparr>"
  have r: "replicate 32 None = None # replicate 31 None" "replicate 31 None = None # replicate 30 None"
    by (simp_all flip: replicate_Suc)
  have 1: "install 6 0 (Some 3) ?s = Inr ?s1"
    by (simp add: install_def cl_alloc_def put_slot_def grow.simps r(1) new_mpath_def new_Classifier_def classifier.defs
        del: bind_r_eq_Inr)
  have 2: "install 6 1 (Some 4) ?s1 = Inr (ex_mpath per fl cg)"
    by (simp add: install_def put_slot_def ex_mpath_def r(2))
  show ?thesis using mp_reach.install[OF mp_reach.install[OF mp_reach.start[OF assms] 1] 2] by simp
qed

lemma ex_mpath_slots:
  "cl_maxslot (ex_mpath per fl cg) = 1" "get_slot 0 (ex_mpath per fl cg) = Some 3" "get_slot 1 (ex_mpath per fl cg) = Some 4"
  "mp_perPacket (ex_mpath per fl cg) = per" "mp_flowlets (ex_mpath per fl cg) = fl" "mp_sLeaf_Conga (ex_mpath per fl cg) = 0"
  "mp_conga (ex_mpath per fl cg) = cg"
  by (simp_all add: ex_mpath_def get_slot_def new_mpath_def classifier.defs mpath.defs)

lemma ex_mpath_full: "\<forall>j. 0 \<le> j \<and> j \<le> cl_maxslot (ex_mpath per fl cg) \<longrightarrow> get_slot j (ex_mpath per fl cg) \<noteq> None"
proof (intro allI impI)
  fix j assume "0 \<le> j \<and> j \<le> cl_maxslot (ex_mpath per fl cg)"
  then have "j = 0 \<or> j = 1" unfolding ex_mpath_slots by auto
  then show "get_slot j (ex_mpath per fl cg) \<noteq> None" by (auto simp: ex_mpath_slots)
qed

lemma mpath_classify_total_witness:
  "\<exists>cl p' s'. mp_classify 0 9 0 Packet_alloc (ex_mpath 1 0 None) = Inr (cl, p', s') \<and> 0 \<le> cl \<and> cl \<le> 1"
  using mpath_classify_total[OF ex_mpath_reach[of None] _ _ _ ex_mpath_full,
      where p = Packet_alloc and now = 0 and r = 9 and rnd = 0]
  by (simp add: ex_mpath_slots Packet_alloc_def) blast

lemma mpath_ecmp_slot_witness:
  "mp_classify 0 0 0 (Packet_alloc\<lparr>ecmpHashKey := 3\<rparr>) (ex_mpath 0 0 None) =
     Inr (1, Packet_alloc\<lparr>ecmpHashKey := 3\<rparr>, ex_mpath 0 0 None)"
  using mpath_ecmp_slot[OF ex_mpath_reach[of None],
      where p = "Packet_alloc\<lparr>ecmpHashKey := 3\<rparr>" and now = 0 and r = 0 and rnd = 0]
  by (simp add: ex_mpath_slots ecmp_mode_def Packet_alloc_def)

lemma mpath_flowlet_sticks_witness:
  "\<exists>cl s1 s3. mp_classify 1 9 0 Packet_alloc (ex_mpath 0 1 None) = Inr (cl, Packet_alloc, s1) \<and>
     mp_classify (10001 / 10000) 4 0 Packet_alloc s1 = Inr (cl, Packet_alloc, s3)"
proof -
  let ?s = "ex_mpath 0 1 None" and ?p = Packet_alloc
  have reach: "mp_reach ?s" by (rule ex_mpath_reach) simp
  have mode: "flowlet_mode ?p ?s" by (simp add: flowlet_mode_def ex_mpath_slots Packet_alloc_def)
  have b: "balance_flowlet 1 9 0 ?p ?s = Inr (9, ?p,
      ?s\<lparr>FlowletTable := [\<lparr> mf_hash = flow_hash ?p ?s, mf_key = 9, mf_time = 1 \<rparr>]\<rparr>)"
    by (simp add: balance_flowlet_def mpath_route_def ex_mpath_def new_mpath_def classifier.defs mpath.defs Let_def)
  have k: "mp_key 1 9 0 ?p ?s = Inr (9, ?p, ?s\<lparr>FlowletTable := [\<lparr> mf_hash = flow_hash ?p ?s, mf_key = 9, mf_time = 1 \<rparr>]\<rparr>)"
    using mode b by (auto simp: mp_key_def flowlet_mode_def)
  have "mp_classify 1 9 0 ?p ?s = Inr (1, ?p, ?s\<lparr>FlowletTable := [\<lparr> mf_hash = flow_hash ?p ?s, mf_key = 9, mf_time = 1 \<rparr>]\<rparr>)"
    using mp_classify_key[OF k] mp_reach_inv[OF reach] by (simp add: ex_mpath_slots mp_inv_def mp_after_def)
  from mpath_flowlet_sticks[OF reach mode mode refl this, of "[]" "[]" _ "10001 / 10000" 4 0] this show ?thesis by auto
qed

lemma mpath_conga_port_is_slot_witness:
  "\<exists>j p' s'. mp_classify 0 3 0 Packet_alloc (ex_mpath 1 0 (Some (new_Conga 2 4))) = Inr (int j, p', s') \<and>
     portChose (congaRouteRow p') = int j"
proof -
  have reach: "mp_reach (ex_mpath 1 0 (Some (new_Conga 2 4)))" by (rule ex_mpath_reach) auto
  have "slots (new_Conga 2 4) = cl_maxslot (ex_mpath 1 0 (Some (new_Conga 2 4))) + 1"
    by (simp add: ex_mpath_slots new_Conga_def)
  from mpath_conga_port_is_slot[OF reach ex_mpath_slots(7) this _ _ ex_mpath_slots(4) ex_mpath_full, of Packet_alloc]
  show ?thesis by (simp add: ex_mpath_slots Packet_alloc_def) blast
qed

end
