(* ===== verification/Host.thy ===== *)
theory Host
  imports MultiPath CLBNode CloveProperties HermesProperties
begin

text \<open>
  \<^verbatim>\<open>Classifier::recv\<close> (\<^verbatim>\<open>classifier/classifier.cc\<close>) on the multipath classifier of a node:
  CONGA, CLB, CLOVE and Hermes see a packet in turn, when they are enabled, and a packet
  that none of them takes is classified and handed to the object in its slot.  The
  composition of the balancers with the classifier.
\<close>

record host =
  h_mpath :: mpath
  h_clb :: "clb_node option"
  h_clove :: "clove_processor lb_node option"
  h_hermes :: "hermes_processor lb_node option"
  h_nodeID :: int
  h_CLB_Node :: int
  h_BlockSize_N :: int
  h_ifTunnel :: int

text \<open>The values that a call draws or is given: the time, the random numbers, and the lookup
  that CLB uses for the packets it releases.\<close>

record inputs =
  in_now :: rat
  in_r :: nat
  in_rnd :: nat
  in_u :: rat
  in_h :: nat
  in_find :: "packet \<Rightarrow> nsobject option"

definition conga_stage :: "packet \<Rightarrow> host \<Rightarrow> (packet \<times> host) result" where
  "conga_stage p w =
    (case mp_conga (h_mpath w) of None \<Rightarrow> Inr (p, w)
     | Some c \<Rightarrow> bind_r (conga_recv p c) (\<lambda>(p', c'). Inr (p', w\<lparr>h_mpath := (h_mpath w)\<lparr>mp_conga := Some c'\<rparr>\<rparr>)))"

text \<open>A stage returns the packet when it goes on, and the effects so far.\<close>

type_synonym stage = "(packet option \<times> effect list \<times> host) result"

definition lb_stage :: "(int \<Rightarrow> effect list \<Rightarrow> packet \<Rightarrow> packet option \<times> effect list) \<Rightarrow>
    (packet \<Rightarrow> 'n \<Rightarrow> (int \<times> packet \<times> 'n \<times> effect list) result) \<Rightarrow> 'n option \<Rightarrow> ('n \<Rightarrow> host) \<Rightarrow> packet \<Rightarrow> host \<Rightarrow> stage" where
  "lb_stage taken f node upd p w =
    (case node of None \<Rightarrow> Inr (Some p, [], w)
     | Some n \<Rightarrow> bind_r (f p n) (\<lambda>(ret, p', n', out).
         case taken ret out p' of (q, out') \<Rightarrow> Inr (q, out', upd n')))"

definition clb_taken :: "int \<Rightarrow> effect list \<Rightarrow> packet \<Rightarrow> packet option \<times> effect list" where
  "clb_taken ret out p =
    (if ret = 1 then (None, out @ [Free p])
     else if ret = 2 then (None, out)
     else if sport p = 100 then (None, out)
     else (Some p, out))"

definition lb_taken :: "int \<Rightarrow> effect list \<Rightarrow> packet \<Rightarrow> packet option \<times> effect list" where
  "lb_taken ret out p =
    (if ret \<noteq> 0 then (None, out @ [Free p])
     else if sport p = 100 then (None, out)
     else (Some p, out))"

definition then_stage :: "stage \<Rightarrow> (packet \<Rightarrow> host \<Rightarrow> stage) \<Rightarrow> stage" where
  "then_stage st f = bind_r st (\<lambda>(q, out, w).
     case q of None \<Rightarrow> Inr (None, out, w)
     | Some p \<Rightarrow> bind_r (f p w) (\<lambda>(q', out', w'). Inr (q', out @ out', w')))"

definition clb_stage :: "inputs \<Rightarrow> packet \<Rightarrow> host \<Rightarrow> stage" where
  "clb_stage i p w = lb_stage clb_taken (clb_node_recv (in_find i) (in_now i)) (h_clb w) (\<lambda>n. w\<lparr>h_clb := Some n\<rparr>) p w"

definition clove_stage :: "inputs \<Rightarrow> packet \<Rightarrow> host \<Rightarrow> stage" where
  "clove_stage i p w = lb_stage lb_taken (clove_node_recv (in_now i)) (h_clove w) (\<lambda>n. w\<lparr>h_clove := Some n\<rparr>) p w"

definition hermes_stage :: "inputs \<Rightarrow> packet \<Rightarrow> host \<Rightarrow> stage" where
  "hermes_stage i p w =
    lb_stage lb_taken (hermes_node_recv (in_u i) (in_h i) (in_now i)) (h_hermes w) (\<lambda>n. w\<lparr>h_hermes := Some n\<rparr>) p w"

text \<open>The last part: a tunnel node hands the packet to the tunnel of the other address
  (\<^verbatim>\<open>tunnel\<close> stands for that agent), another looks up the packet.  \<^verbatim>\<open>no_slot\<close> is the Tcl
  procedure for a packet without an object.\<close>

definition forward ::
    "inputs \<Rightarrow> (int \<Rightarrow> packet \<Rightarrow> host \<Rightarrow> stage) \<Rightarrow> (int \<Rightarrow> mpath \<Rightarrow> mpath) \<Rightarrow> packet \<Rightarrow> host \<Rightarrow> stage" where
  "forward i tunnel no_slot p w =
    (if h_CLB_Node w = 1 then
       (if h_ifTunnel w = 0 \<and> h_BlockSize_N w = 0 then Inl Exit
        else (let w1 = w\<lparr>h_ifTunnel := (if h_ifTunnel w = 0 then 1 else h_ifTunnel w)\<rparr> in
          if saddr p = h_nodeID w \<and> daddr p = h_nodeID w then Inl Exit
          else tunnel (if saddr p = h_nodeID w then daddr p else saddr p) p w1))
     else bind_r (find_obj (mp_classify (in_now i) (in_r i) (in_rnd i)) no_slot p (h_mpath w)) (\<lambda>(node, p', s').
       Inr (None, [case node of None \<Rightarrow> Free p' | Some x \<Rightarrow> Recv x p'], w\<lparr>h_mpath := s'\<rparr>)))"

definition classifier_recv ::
    "inputs \<Rightarrow> (int \<Rightarrow> packet \<Rightarrow> host \<Rightarrow> stage) \<Rightarrow> (int \<Rightarrow> mpath \<Rightarrow> mpath) \<Rightarrow> packet \<Rightarrow> host \<Rightarrow> (effect list \<times> host) result" where
  "classifier_recv i tunnel no_slot p w =
    bind_r (conga_stage p w) (\<lambda>(p1, w1).
      bind_r (then_stage (then_stage (then_stage (clb_stage i p1 w1) (clove_stage i)) (hermes_stage i)) (forward i tunnel no_slot))
        (\<lambda>(q, out, w'). Inr (out, w')))"

subsection \<open>Sending\<close>

lemma then_stage_simps [simp]:
  "then_stage (Inl e) f = Inl e"
  "then_stage (Inr (None, out, w)) f = Inr (None, out, w)"
  "then_stage (Inr (Some p, out, w)) f = bind_r (f p w) (\<lambda>(q', out', w'). Inr (q', out @ out', w'))"
  by (simp_all add: then_stage_def)

lemma lb_stage_simps [simp]:
  "lb_stage taken f None upd p w = Inr (Some p, [], w)"
  "f p n = Inr (ret, p', n', out) \<Longrightarrow>
    lb_stage taken f (Some n) upd p w = (case taken ret out p' of (q, out') \<Rightarrow> Inr (q, out', upd n'))"
  by (simp_all add: lb_stage_def)

text \<open>A node with one load balancer: its paths number the slots of the classifier.\<close>

definition balanced :: "int \<Rightarrow> int \<Rightarrow> host \<Rightarrow> bool" where
  "balanced addr N w \<longleftrightarrow>
     (case (h_clb w, h_clove w, h_hermes w) of
        (Some n, None, None) \<Rightarrow> node_reach addr N n
      | (None, Some n, None) \<Rightarrow> clovn.node_inv addr N n
      | (None, None, Some n) \<Rightarrow> hermn.node_inv addr N n
      | _ \<Rightarrow> False)"

definition ecmp_host :: "int \<Rightarrow> host \<Rightarrow> bool" where
  "ecmp_host N w \<longleftrightarrow> mp_reach (h_mpath w) \<and> mp_conga (h_mpath w) = None \<and> h_CLB_Node w \<noteq> 1 \<and>
     cl_maxslot (h_mpath w) = N - 1 \<and> (\<forall>j. 0 \<le> j \<and> j < N \<longrightarrow> get_slot j (h_mpath w) \<noteq> None) \<and>
     mp_perPacket (h_mpath w) \<noteq> 1 \<and> mp_flowlets (h_mpath w) \<noteq> 1"

text \<open>What a balancer may change in a packet it stamps.\<close>

definition stamped :: "int \<Rightarrow> packet \<Rightarrow> packet \<Rightarrow> bool" where
  "stamped N p p' \<longleftrightarrow> p'\<lparr>ecmpHashKey := ecmpHashKey p, clb_row := clb_row p, clove_row := clove_row p,
     hermes_row := hermes_row p\<rparr> = p \<and> uint (ecmpHashKey p') < N"

lemma stamped_fields:
  "stamped N p p' \<Longrightarrow> sport p' = sport p \<and> ifTunnel p' = ifTunnel p \<and> ifCONGA p' = ifCONGA p"
  by (auto simp: stamped_def) (metis packet.select_convs packet.surjective packet.update_convs)+

lemma balancers_stamp:
  assumes "balanced addr N w" and "0 < N" and "N < 2 ^ 31" and p: "saddr p = addr" "daddr p \<noteq> addr"
  shows "\<exists>p' w'. then_stage (then_stage (clb_stage i p w) (clove_stage i)) (hermes_stage i) =
      Inr (if sport p = 100 then None else Some p', [], w') \<and> stamped N p p' \<and> h_mpath w' = h_mpath w \<and> h_CLB_Node w' = h_CLB_Node w \<and>
    h_nodeID w' = h_nodeID w"
proof -
  consider (clb) n where "h_clb w = Some n" "h_clove w = None" "h_hermes w = None" "node_reach addr N n"
    | (clove) n where "h_clb w = None" "h_clove w = Some n" "h_hermes w = None" "clovn.node_inv addr N n"
    | (hermes) n where "h_clb w = None" "h_clove w = None" "h_hermes w = Some n" "hermn.node_inv addr N n"
    using assms(1) by (auto simp: balanced_def split: option.splits)
  then show ?thesis
  proof cases
    case clb
    obtain p' n' where s: "clb_node_recv (in_find i) (in_now i) p n = Inr (0, p', n', [])" "stamped N p p'"
      using clbn.node_send_total[OF node_reach_inv[OF clb(4) assms(2,3)] p(2,1)]
      unfolding clb_node_recv_def stamped_def by blast
    then show ?thesis using clb stamped_fields[OF s(2)]
      by (auto simp: clb_stage_def clove_stage_def hermes_stage_def clb_taken_def)
  next
    case clove
    obtain p' n' where s: "clove_node_recv (in_now i) p n = Inr (0, p', n', [])" "stamped N p p'"
      using clovn.node_send_total[OF clove(4) p(2,1)] unfolding clove_node_recv_def stamped_def by blast
    then show ?thesis using clove stamped_fields[OF s(2)]
      by (auto simp: clb_stage_def clove_stage_def hermes_stage_def lb_taken_def)
  next
    case hermes
    obtain p' n' where s: "hermes_node_recv (in_u i) (in_h i) (in_now i) p n = Inr (0, p', n', [])" "stamped N p p'"
      using hermn.node_send_total[OF hermes(4) p(2,1)] unfolding hermes_node_recv_def stamped_def by blast
    then show ?thesis using hermes stamped_fields[OF s(2)]
      by (auto simp: clb_stage_def clove_stage_def hermes_stage_def lb_taken_def)
  qed
qed

text \<open>C4: A packet that a node with a load balancer sends leaves through the slot of the path
  that the balancer chose: path \<^verbatim>\<open>k\<close> is slot \<^verbatim>\<open>k\<close>.  This holds for CLB, CLOVE and Hermes, and
  sending never fails.\<close>

theorem host_path_is_slot:
  assumes "balanced addr N w" and "ecmp_host N w" and "0 < N" and "N < 2 ^ 31"
    and "saddr p = addr" and "daddr p \<noteq> addr" and "sport p \<noteq> 100" and "ifTunnel p \<noteq> 1" and "ifCONGA p \<noteq> 1"
  shows "\<exists>p' w' k x. classifier_recv i tunnel no_slot p w = Inr ([Recv x p'], w') \<and> stamped N p p' \<and>
    uint (ecmpHashKey p') = k \<and> get_slot k (h_mpath w) = Some x"
proof -
  obtain p' w' where s: "then_stage (then_stage (clb_stage i p w) (clove_stage i)) (hermes_stage i) = Inr (Some p', [], w')"
    "stamped N p p'" "h_mpath w' = h_mpath w" "h_CLB_Node w' = h_CLB_Node w"
    using balancers_stamp[OF assms(1,3-6), of i] assms(7) by auto
  note h = assms(2)[unfolded ecmp_host_def]
  have mode: "ecmp_mode p' (h_mpath w)"
    using h stamped_fields[OF s(2)] assms(8,9) by (simp add: ecmp_mode_def)
  let ?k = "uint (ecmpHashKey p')"
  have k: "0 \<le> ?k" "?k < N" using s(2) by (simp_all add: stamped_def)
  obtain x where x: "get_slot ?k (h_mpath w) = Some x" using h k by blast
  have c: "cls_inv (h_mpath w)" using mp_reach_inv h by (auto simp: mp_inv_def)
  have key: "mp_key (in_now i) (in_r i) (in_rnd i) p' (h_mpath w) = Inr (?k mod N, p', h_mpath w)"
    using mode h assms(3) by (auto simp: mp_key_def balance_ecmp_def ecmp_mode_def)
  have "mp_classify (in_now i) (in_r i) (in_rnd i) p' (h_mpath w) = Inr (?k, p', h_mpath w)"
    using mp_classify_key[OF key _ mp_after_upd(3) c] h k x assms(3) by (simp add: Let_def)
  then have "find_obj (mp_classify (in_now i) (in_r i) (in_rnd i)) no_slot p' (h_mpath w) = Inr (Some x, p', h_mpath w)"
    using x by (simp add: find_obj_def)
  then have "forward i tunnel no_slot p' w' = Inr (None, [Recv x p'], w'\<lparr>h_mpath := h_mpath w\<rparr>)"
    using s(3,4) h by (simp add: forward_def)
  then have "classifier_recv i tunnel no_slot p w = Inr ([Recv x p'], w'\<lparr>h_mpath := h_mpath w\<rparr>)"
    using s(1) h by (simp add: classifier_recv_def conga_stage_def)
  then show ?thesis using s(2) x by blast
qed

text \<open>A packet with source port 100, which CLB's own probes use, is lost at every node with a
  load balancer when no processor takes it: it is neither handed on nor freed.\<close>

theorem host_port_100_vanishes:
  assumes "balanced addr N w" and "0 < N" and "N < 2 ^ 31" and "mp_conga (h_mpath w) = None"
    and "saddr p = addr" and "daddr p \<noteq> addr" and "sport p = 100"
  shows "\<exists>w'. classifier_recv i tunnel no_slot p w = Inr ([], w')"
  using balancers_stamp[OF assms(1-3,5,6), of i] assms(4,7) by (auto simp: classifier_recv_def conga_stage_def)

subsection \<open>A node with CLB and two paths\<close>

definition ex_host :: host where
  "ex_host = \<lparr> h_mpath = ex_mpath 0 0 None, h_clb = Some (new_CLB 1 2), h_clove = None, h_hermes = None, h_nodeID = 1,
     h_CLB_Node = 0, h_BlockSize_N = 0, h_ifTunnel = 0 \<rparr>"

definition ex_inputs :: inputs where
  "ex_inputs = \<lparr> in_now = 1, in_r = 0, in_rnd = 0, in_u = 0, in_h = 0, in_find = (\<lambda>_. None) \<rparr>"

definition ex_host_packet :: "int \<Rightarrow> packet" where
  "ex_host_packet port = Packet_alloc\<lparr>saddr := 1, daddr := 2, sport := port\<rparr>"

lemma ex_host_ok: "balanced 1 2 ex_host" "ecmp_host 2 ex_host"
proof -
  show "balanced 1 2 ex_host" by (simp add: balanced_def ex_host_def node_reach.start)
  have "mp_reach (ex_mpath 0 0 None)" by (rule ex_mpath_reach) simp
  then show "ecmp_host 2 ex_host" using ex_mpath_full[of 0 0 None]
    by (simp add: ecmp_host_def ex_host_def ex_mpath_slots)
qed

lemma host_path_is_slot_witness:
  "\<exists>p' w' k x. classifier_recv ex_inputs (\<lambda>_ p w. Inr (None, [Free p], w)) (\<lambda>_ s. s) (ex_host_packet 7) ex_host = Inr ([Recv x p'], w') \<and>
    uint (ecmpHashKey p') = k \<and> get_slot k (ex_mpath 0 0 None) = Some x"
proof -
  have p: "saddr (ex_host_packet 7) = 1" "daddr (ex_host_packet 7) \<noteq> 1" "sport (ex_host_packet 7) \<noteq> 100"
    "ifTunnel (ex_host_packet 7) \<noteq> 1" "ifCONGA (ex_host_packet 7) \<noteq> 1" "0 < (2::int)" "2 < (2::int) ^ 31"
    by (simp_all add: ex_host_packet_def Packet_alloc_def)
  have w: "h_mpath ex_host = ex_mpath 0 0 None" by (simp add: ex_host_def)
  show ?thesis using host_path_is_slot[OF ex_host_ok p(6,7,1-5)] unfolding w by blast
qed

lemma host_port_100_vanishes_witness:
  "\<exists>w'. classifier_recv ex_inputs (\<lambda>_ p w. Inr (None, [Free p], w)) (\<lambda>_ s. s) (ex_host_packet 100) ex_host = Inr ([], w')"
proof -
  have p: "saddr (ex_host_packet 100) = 1" "daddr (ex_host_packet 100) \<noteq> 1" "sport (ex_host_packet 100) = 100"
    "0 < (2::int)" "2 < (2::int) ^ 31" "mp_conga (h_mpath ex_host) = None"
    by (simp_all add: ex_host_packet_def Packet_alloc_def ex_host_def ex_mpath_slots)
  show ?thesis by (rule host_port_100_vanishes[OF ex_host_ok(1) p(4-6,1-3)])
qed

end
