(* ===== verification/EventHeap.thy ===== *)
theory EventHeap
  imports Prelude "HOL-Library.Product_Lexorder" "HOL-Library.Multiset"
begin

text \<open>
  The binary heap of the event scheduler (\<^verbatim>\<open>common/heap.h\<close>, and its operations in
  \<^verbatim>\<open>common/scheduler.cc\<close>): an array ordered by the time of an event and, for equal times, by
  a counter of insertions.  The array is the list of its cells in use; cells beyond
  \<^verbatim>\<open>h_size\<close> are never read.
\<close>

record heap_elem =
  he_key :: rat
  he_s_key :: u32
  he_elem :: nat

record heap =
  h_elems :: "heap_elem list"
  h_s_key :: u32
  h_maxsize :: nat

definition new_Heap :: "nat \<Rightarrow> heap" where
  "new_Heap sz = \<lparr> h_elems = [], h_s_key = 0, h_maxsize = sz \<rparr>"

definition parent :: "nat \<Rightarrow> nat" where "parent i = (i - 1) div 2"
definition left :: "nat \<Rightarrow> nat" where "left i = i * 2 + 1"
definition right :: "nat \<Rightarrow> nat" where "right i = (i + 1) * 2"

definition swap_elems :: "nat \<Rightarrow> nat \<Rightarrow> heap_elem list \<Rightarrow> heap_elem list" where
  "swap_elems i j xs = xs[i := xs ! j, j := xs ! i]"

definition KEY_LESS_THAN :: "rat \<Rightarrow> u32 \<Rightarrow> rat \<Rightarrow> u32 \<Rightarrow> bool" where
  "KEY_LESS_THAN k1 ks1 k2 ks2 \<longleftrightarrow> k1 < k2 \<or> k1 = k2 \<and> ks1 < ks2"

text \<open>The position of an element plus one, or zero.\<close>

fun heap_member_loop :: "nat \<Rightarrow> heap_elem list \<Rightarrow> nat \<Rightarrow> nat" where
  "heap_member_loop e [] i = 0"
| "heap_member_loop e (x # xs) i = (if he_elem x = e then Suc i else heap_member_loop e xs (Suc i))"

definition heap_member :: "nat \<Rightarrow> heap \<Rightarrow> nat" where
  "heap_member e h = heap_member_loop e (h_elems h) 0"

lemma parent_less [simp]: "0 < i \<Longrightarrow> parent i < i"
  by (simp add: parent_def)

text \<open>The loop of \<^verbatim>\<open>heap_insert\<close>: parents move down until the place of the new element is
  found.\<close>

function sift_up :: "heap_elem \<Rightarrow> nat \<Rightarrow> heap_elem list \<Rightarrow> heap_elem list" where
  "sift_up x i xs =
    (if 0 < i \<and> KEY_LESS_THAN (he_key x) (he_s_key x) (he_key (xs ! parent i)) (he_s_key (xs ! parent i))
     then sift_up x (parent i) (xs[i := xs ! parent i])
     else xs[i := x])"
  by auto
termination by (relation "measure (\<lambda>(x, i, xs). i)") auto

definition heap_insert :: "rat \<Rightarrow> nat \<Rightarrow> heap \<Rightarrow> heap" where
  "heap_insert key e h =
    (let x = \<lparr> he_key = key, he_s_key = h_s_key h, he_elem = e \<rparr>;
         mx = (if h_maxsize h = length (h_elems h) then h_maxsize h * 2 else h_maxsize h)
     in h\<lparr>h_elems := sift_up x (length (h_elems h)) (h_elems h @ [x]), h_s_key := h_s_key h + 1, h_maxsize := mx\<rparr>)"

text \<open>The loop of \<^verbatim>\<open>heap_extract_min\<close>.\<close>

definition smaller_child :: "nat \<Rightarrow> heap_elem list \<Rightarrow> nat" where
  "smaller_child i xs =
    (let l = left i; r = right i in
     if r < length xs
     then (if KEY_LESS_THAN (he_key (xs ! l)) (he_s_key (xs ! l)) (he_key (xs ! r)) (he_s_key (xs ! r)) then l else r)
     else if l < length xs then l else i)"

lemma smaller_child_ge: "i \<le> smaller_child i xs"
  by (simp add: smaller_child_def left_def right_def Let_def)

lemma length_swap_elems [simp]: "length (swap_elems i j xs) = length xs"
  by (simp add: swap_elems_def)

function heapify :: "nat \<Rightarrow> heap_elem list \<Rightarrow> heap_elem list" where
  "heapify i xs =
    (if i < length xs then
       (let x = smaller_child i xs in
        if x \<noteq> i \<and> KEY_LESS_THAN (he_key (xs ! x)) (he_s_key (xs ! x)) (he_key (xs ! i)) (he_s_key (xs ! i))
        then heapify x (swap_elems i x xs) else xs)
     else xs)"
  by auto
termination
proof (relation "measure (\<lambda>(i, xs). length xs - i)")
  show "((x, swap_elems i x xs), (i, xs)) \<in> measure (\<lambda>(i, xs). length xs - i)"
    if "i < length xs" "x = smaller_child i xs"
      "x \<noteq> i \<and> KEY_LESS_THAN (he_key (xs ! x)) (he_s_key (xs ! x)) (he_key (xs ! i)) (he_s_key (xs ! i))" for i x xs
    using that smaller_child_ge[of i xs] by auto
qed auto

definition heap_min :: "heap \<Rightarrow> nat option" where
  "heap_min h = (case h_elems h of [] \<Rightarrow> None | x # _ \<Rightarrow> Some (he_elem x))"

definition heap_extract_min :: "heap \<Rightarrow> nat option \<times> heap" where
  "heap_extract_min h =
    (case h_elems h of [] \<Rightarrow> (None, h)
     | x # _ \<Rightarrow> (Some (he_elem x), h\<lparr>h_elems := heapify 0 (butlast ((h_elems h)[0 := last (h_elems h)]))\<rparr>))"

text \<open>\<^verbatim>\<open>heap_delete\<close> swaps the element up to the root.\<close>

function to_root :: "nat \<Rightarrow> heap_elem list \<Rightarrow> heap_elem list" where
  "to_root i xs = (if i = 0 then xs else to_root (parent i) (swap_elems i (parent i) xs))"
  by auto
termination by (relation "measure fst") auto

definition heap_delete :: "nat \<Rightarrow> heap \<Rightarrow> bool \<times> heap" where
  "heap_delete e h =
    (let i = heap_member e h in
     if i = 0 then (False, h)
     else (True, snd (heap_extract_min (h\<lparr>h_elems := to_root (i - 1) (h_elems h)\<rparr>))))"

declare sift_up.simps [simp del] heapify.simps [simp del] to_root.simps [simp del]

subsection \<open>The order\<close>

definition hkey :: "heap_elem \<Rightarrow> rat \<times> u32" where
  "hkey x = (he_key x, he_s_key x)"

lemma less_hkey: "KEY_LESS_THAN (he_key x) (he_s_key x) (he_key y) (he_s_key y) \<longleftrightarrow> hkey x < hkey y"
  by (auto simp: KEY_LESS_THAN_def hkey_def less_prod_def)

text \<open>The heap property, everywhere but between a place and its parent or its children.\<close>

definition ordered :: "nat set \<Rightarrow> heap_elem list \<Rightarrow> bool" where
  "ordered D xs \<longleftrightarrow> (\<forall>j. 0 < j \<longrightarrow> j < length xs \<longrightarrow> j \<notin> D \<longrightarrow> hkey (xs ! parent j) \<le> hkey (xs ! j))"

abbreviation children :: "nat \<Rightarrow> nat set" where
  "children i \<equiv> {j. 0 < j \<and> parent j = i}"

lemma ordered_root:
  assumes "ordered {} xs" and "j < length xs"
  shows "hkey (xs ! 0) \<le> hkey (xs ! j)"
  using assms(2)
proof (induction j rule: less_induct)
  case (less j)
  show ?case
  proof (cases "j = 0")
    case False
    then have "hkey (xs ! parent j) \<le> hkey (xs ! j)" using assms(1) less.prems by (simp add: ordered_def)
    moreover have "parent j < j" using False by simp
    ultimately show ?thesis using less.IH[of "parent j"] less.prems by (meson order.strict_trans order_trans)
  qed simp
qed

lemma mset_swap_elems: "i < length xs \<Longrightarrow> j < length xs \<Longrightarrow> mset (swap_elems i j xs) = mset xs"
  by (simp add: swap_elems_def mset_swap)

lemma nth_swap_elems:
  "i < length xs \<Longrightarrow> j < length xs \<Longrightarrow> swap_elems i j xs ! k = (if k = j then xs ! i else if k = i then xs ! j else xs ! k)"
  by (auto simp: swap_elems_def nth_list_update)

text \<open>Moving a hole at place \<^verbatim>\<open>i\<close> to its parent's place.\<close>

definition hole :: "nat \<Rightarrow> heap_elem list \<Rightarrow> bool" where
  "hole i xs \<longleftrightarrow> ordered ({i} \<union> children i) xs \<and>
     (0 < i \<longrightarrow> (\<forall>j\<in>children i. j < length xs \<longrightarrow> hkey (xs ! parent i) \<le> hkey (xs ! j)))"

lemma hole_cong:
  assumes "hole i xs"
  shows "hole i (xs[i := x])"
proof -
  have "hkey (xs[i := x] ! parent j) \<le> hkey (xs[i := x] ! j)"
    if "0 < j" "j < length (xs[i := x])" "j \<notin> {i} \<union> children i" for j
    using that assms by (auto simp: hole_def ordered_def)
  moreover have "hkey (xs[i := x] ! parent i) \<le> hkey (xs[i := x] ! j)"
    if "0 < i" "j \<in> children i" "j < length (xs[i := x])" for j
  proof -
    have "parent i < i" "i < j" using that(1,2) parent_less[of j] by auto
    then have "i \<noteq> parent i" "i \<noteq> j" by simp_all
    then show ?thesis using that assms by (simp add: hole_def)
  qed
  ultimately show ?thesis by (simp add: hole_def ordered_def)
qed

lemma hole_up:
  assumes "hole i xs" and i: "0 < i" "i < length xs"
  shows "hole (parent i) (xs[i := xs ! parent i])"
    and "j \<in> children (parent i) \<Longrightarrow> j < length xs \<Longrightarrow> j \<noteq> i \<Longrightarrow> hkey (xs ! parent i) \<le> hkey (xs ! j)"
proof -
  let ?p = "parent i"
  let ?ys = "xs[i := xs ! ?p]"
  have p: "?p < i" using i(1) by simp
  have ord: "hkey (xs ! parent j) \<le> hkey (xs ! j)" if "0 < j" "j < length xs" "j \<noteq> i" "parent j \<noteq> i" for j
    using that assms(1) by (simp add: hole_def ordered_def)
  show sib: "hkey (xs ! ?p) \<le> hkey (xs ! j)" if "j \<in> children ?p" "j < length xs" "j \<noteq> i" for j
    using ord[of j] that p by auto
  have "hkey (?ys ! parent j) \<le> hkey (?ys ! j)" if j: "0 < j" "j < length ?ys" "j \<notin> {?p} \<union> children ?p" for j
  proof (cases "parent j = i")
    case True
    then have "j \<noteq> i" using parent_less[OF j(1)] by auto
    then show ?thesis using True assms j by (simp add: hole_def)
  next
    case False
    moreover have "j \<noteq> i" using j(3) i(1) by auto
    ultimately show ?thesis using ord[of j] j by simp
  qed
  moreover have "hkey (?ys ! parent ?p) \<le> hkey (?ys ! j)" if pp: "0 < ?p" and j: "j \<in> children ?p" "j < length ?ys" for j
  proof -
    have q: "parent ?p < ?p" using pp by simp
    have up: "hkey (xs ! parent ?p) \<le> hkey (xs ! ?p)" using ord[of ?p] pp i(2) p q by simp
    have q': "?ys ! parent ?p = xs ! parent ?p" using p q by simp
    show ?thesis
    proof (cases "j = i")
      case False
      then show ?thesis using order_trans[OF up sib[of j]] j unfolding q' by simp
    qed (use up i(2) in \<open>simp add: q'\<close>)
  qed
  ultimately show "hole ?p ?ys" by (simp add: hole_def ordered_def)
qed

lemma hole_fill:
  assumes "hole i xs" and "i < length xs" and "\<forall>j\<in>children i. j < length xs \<longrightarrow> hkey x \<le> hkey (xs ! j)"
    and "0 < i \<longrightarrow> hkey (xs ! parent i) \<le> hkey x"
  shows "ordered {} (xs[i := x])"
  unfolding ordered_def
proof (intro allI impI)
  fix j assume j: "0 < j" "j < length (xs[i := x])" "j \<notin> {}"
  consider "j = i" | "parent j = i" "j \<noteq> i" | "parent j \<noteq> i" "j \<noteq> i" by blast
  then show "hkey (xs[i := x] ! parent j) \<le> hkey (xs[i := x] ! j)"
  proof cases
    case 1
    then show ?thesis using assms(4) j parent_less[OF j(1)] by simp
  next
    case 2
    then show ?thesis using assms(2,3) j by simp
  next
    case 3
    then show ?thesis using assms(1) j by (simp add: hole_def ordered_def)
  qed
qed

lemma mset_move:
  assumes "p \<noteq> i" and "i < length xs" and "p < length xs"
  shows "mset (xs[i := xs ! p, p := x]) = mset (xs[i := x])"
proof -
  have "xs[i := xs ! p, p := x] = (xs[i := x])[i := (xs[i := x]) ! p, p := (xs[i := x]) ! i]"
    using assms by simp
  also have "mset \<dots> = mset (xs[i := x])" using assms(2,3) by (intro mset_swap) simp_all
  finally show ?thesis .
qed

lemma sift_up_ok:
  assumes "i < length xs" and "hole i xs" and "\<forall>j\<in>children i. j < length xs \<longrightarrow> hkey x \<le> hkey (xs ! j)"
  shows "ordered {} (sift_up x i xs) \<and> mset (sift_up x i xs) = mset (xs[i := x])"
  using assms
proof (induction x i xs rule: sift_up.induct)
  case (1 x i xs)
  let ?p = "parent i"
  show ?case
  proof (cases "0 < i \<and> hkey x < hkey (xs ! ?p)")
    case True
    let ?ys = "xs[i := xs ! ?p]"
    have p: "?p < i" "?p < length xs" using True 1(2) parent_less[of i] by linarith+
    have "\<forall>j\<in>children ?p. j < length ?ys \<longrightarrow> hkey x \<le> hkey (?ys ! j)"
    proof (intro ballI impI)
      fix j assume j: "j \<in> children ?p" "j < length ?ys"
      have "hkey x \<le> hkey (xs ! ?p)" using True by (blast intro: less_imp_le)
      then show "hkey x \<le> hkey (?ys ! j)"
        using hole_up(2)[OF 1(3) _ 1(2), of j] True j 1(2) by (cases "j = i") (auto intro: order_trans)
    qed
    from 1(1)[OF _ _ hole_up(1)[OF 1(3) _ 1(2)] this] True p
    have "ordered {} (sift_up x ?p ?ys) \<and> mset (sift_up x ?p ?ys) = mset (?ys[?p := x])" by (simp add: less_hkey)
    moreover have "mset (?ys[?p := x]) = mset (xs[i := x])" using p 1(2) by (intro mset_move) simp_all
    moreover have "sift_up x i xs = sift_up x ?p ?ys" using True by (subst sift_up.simps) (simp only: less_hkey simp_thms if_True)
    ultimately show ?thesis by (simp only:)
  next
    case False
    then have "0 < i \<longrightarrow> hkey (xs ! ?p) \<le> hkey x" by (auto simp: not_less)
    from hole_fill[OF 1(3,2,4) this]
    have "ordered {} (xs[i := x])" .
    moreover have "sift_up x i xs = xs[i := x]" using False by (subst sift_up.simps) (simp only: less_hkey simp_thms if_False)
    ultimately show ?thesis by (simp only:)
  qed
qed

lemma to_root_ok:
  assumes "i < length xs" and "hole i xs"
  shows "ordered (children 0) (to_root i xs) \<and> mset (to_root i xs) = mset xs \<and> to_root i xs ! 0 = xs ! i"
  using assms
proof (induction i xs rule: to_root.induct)
  case (1 i xs)
  show ?case
  proof (cases "i = 0")
    case True
    then show ?thesis using 1(3) by (subst (1 2 3) to_root.simps) (auto simp: hole_def ordered_def)
  next
    case False
    let ?p = "parent i"
    have p: "?p < i" "?p < length xs" using False 1(2) parent_less[of i] by linarith+
    have sw: "swap_elems i ?p xs = xs[i := xs ! ?p, ?p := xs ! i]" by (simp add: swap_elems_def)
    have "hole ?p (swap_elems i ?p xs)"
      unfolding sw using hole_up(1)[OF 1(3) _ 1(2)] False by (intro hole_cong) simp
    with 1(1)[OF False] p have IH: "ordered (children 0) (to_root ?p (swap_elems i ?p xs))"
      "mset (to_root ?p (swap_elems i ?p xs)) = mset (swap_elems i ?p xs)"
      "to_root ?p (swap_elems i ?p xs) ! 0 = swap_elems i ?p xs ! ?p" by simp_all
    have "swap_elems i ?p xs ! ?p = xs ! i" using p 1(2) by (simp add: nth_swap_elems)
    moreover have "to_root i xs = to_root ?p (swap_elems i ?p xs)" using False by (subst to_root.simps) simp
    ultimately show ?thesis using IH mset_swap_elems[OF 1(2) p(2)] by simp
  qed
qed

lemma ordered_hole: "ordered {} xs \<Longrightarrow> hole i xs"
proof -
  assume o: "ordered {} xs"
  have "hkey (xs ! parent i) \<le> hkey (xs ! j)" if "0 < i" "j \<in> children i" "j < length xs" for j
  proof -
    have "i < j" using that(2) by (auto dest: parent_less)
    then have "hkey (xs ! parent i) \<le> hkey (xs ! i)" "hkey (xs ! i) \<le> hkey (xs ! j)"
      using o that by (auto simp: ordered_def)
    then show ?thesis by (rule order_trans)
  qed
  then show "hole i xs" using o by (auto simp: hole_def ordered_def)
qed

lemma smaller_child_ok:
  assumes "smaller_child i xs \<noteq> i"
  shows "smaller_child i xs \<in> children i" and "smaller_child i xs < length xs"
    and "j \<in> children i \<Longrightarrow> j < length xs \<Longrightarrow> hkey (xs ! smaller_child i xs) \<le> hkey (xs ! j)"
proof -
  have ch: "j = left i \<or> j = right i" if "j \<in> children i" for j
    using that by (auto simp: parent_def left_def right_def)
  have lr: "parent (left i) = i" "parent (right i) = i" "0 < left i" "0 < right i" "left i < right i"
    by (auto simp: parent_def left_def right_def)
  show "smaller_child i xs \<in> children i" "smaller_child i xs < length xs"
    using assms lr by (auto simp: smaller_child_def Let_def split: if_splits)
  show "hkey (xs ! smaller_child i xs) \<le> hkey (xs ! j)" if "j \<in> children i" "j < length xs"
    using ch[OF that(1)] that(2) lr(5) by (auto simp: smaller_child_def Let_def less_hkey not_less)
qed

lemma smaller_child_none:
  assumes "smaller_child i xs = i" and "j \<in> children i"
  shows "length xs \<le> j"
proof -
  have "j = left i \<or> j = right i" using assms(2) by (auto simp: parent_def left_def right_def)
  then show ?thesis using assms(1) by (auto simp: smaller_child_def left_def right_def Let_def split: if_splits)
qed

lemma heapify_ok:
  assumes "ordered (children i) xs" and "0 < i \<longrightarrow> (\<forall>j\<in>children i. j < length xs \<longrightarrow> hkey (xs ! parent i) \<le> hkey (xs ! j))"
  shows "ordered {} (heapify i xs) \<and> mset (heapify i xs) = mset xs"
  using assms
proof (induction i xs rule: heapify.induct)
  case (1 i xs)
  let ?x = "smaller_child i xs"
  show ?case
  proof (cases "i < length xs \<and> ?x \<noteq> i \<and> hkey (xs ! ?x) < hkey (xs ! i)")
    case True
    let ?ys = "swap_elems i ?x xs"
    have i: "i < length xs" and x: "?x \<in> children i" "?x < length xs" and lt: "hkey (xs ! ?x) < hkey (xs ! i)"
      and min: "\<And>j. j \<in> children i \<Longrightarrow> j < length xs \<Longrightarrow> hkey (xs ! ?x) \<le> hkey (xs ! j)"
      using True smaller_child_ok[of i xs] by auto
    have ix: "i < ?x" using x(1) by (auto dest: parent_less)
    have nth: "?ys ! k = (if k = ?x then xs ! i else if k = i then xs ! ?x else xs ! k)" for k
      using nth_swap_elems[OF i x(2)] .
    have ord: "hkey (xs ! parent j) \<le> hkey (xs ! j)" if "0 < j" "j < length xs" "parent j \<noteq> i" for j
      using that 1(2) by (simp add: ordered_def)
    have a: "ordered (children ?x) ?ys"
      unfolding ordered_def
    proof (intro allI impI)
      fix j assume j: "0 < j" "j < length ?ys" "j \<notin> children ?x"
      then have px: "parent j \<noteq> ?x" by simp
      consider "j = ?x" | "parent j = i" "j \<noteq> ?x" | "j = i" | "parent j \<noteq> i" "j \<noteq> i" "j \<noteq> ?x" by blast
      then show "hkey (?ys ! parent j) \<le> hkey (?ys ! j)"
      proof cases
        case 1
        then show ?thesis using x(1) ix lt by (simp add: nth)
      next
        case 2
        then have "j \<noteq> i" using j(1) parent_less[of j] by auto
        then show ?thesis using 2 ix min[of j] j by (simp add: nth)
      next
        case 3
        have "hkey (xs ! parent i) \<le> hkey (xs ! ?x)" using "1.prems"(2) 3 j(1) x by simp
        moreover have "parent i < i" using 3 j(1) by simp
        ultimately show ?thesis using 3 ix by (simp add: nth)
      next
        case 4
        then show ?thesis using ord[of j] j px by (simp add: nth)
      qed
    qed
    have b: "0 < ?x \<longrightarrow> (\<forall>j\<in>children ?x. j < length ?ys \<longrightarrow> hkey (?ys ! parent ?x) \<le> hkey (?ys ! j))"
    proof (intro impI ballI)
      fix j assume j: "j \<in> children ?x" "j < length ?ys"
      have jx: "?x < j" using j(1) by (auto dest: parent_less)
      have px: "parent ?x = i" using x(1) by simp
      have "hkey (xs ! ?x) \<le> hkey (xs ! j)" using ord[of j] j ix by auto
      then show "hkey (?ys ! parent ?x) \<le> hkey (?ys ! j)" unfolding px using ix jx by (simp add: nth)
    qed
    have "ordered {} (heapify ?x ?ys) \<and> mset (heapify ?x ?ys) = mset ?ys"
      using 1(1)[OF i refl _ a b] True by (simp add: less_hkey)
    moreover have "heapify i xs = heapify ?x ?ys" using True by (subst heapify.simps) (simp add: less_hkey Let_def)
    ultimately show ?thesis using mset_swap_elems[OF i x(2)] by (simp only:)
  next
    case False
    have "ordered {} xs"
      unfolding ordered_def
    proof (intro allI impI)
      fix j assume j: "0 < j" "j < length xs" "j \<notin> {}"
      show "hkey (xs ! parent j) \<le> hkey (xs ! j)"
      proof (cases "parent j = i")
        case True
        then have jc: "j \<in> children i" using j(1) by simp
        have il: "i < length xs" using True j parent_less[of j] by linarith
        have "?x \<noteq> i" using smaller_child_none[of i xs, OF _ jc] j(2) by linarith
        then have "hkey (xs ! i) \<le> hkey (xs ! ?x)" "hkey (xs ! ?x) \<le> hkey (xs ! j)"
          using False il smaller_child_ok(3)[OF _ jc j(2)] by (simp_all add: not_less)
        then show ?thesis unfolding True by (rule order_trans)
      next
        case False
        then show ?thesis using 1(2) j by (simp add: ordered_def)
      qed
    qed
    moreover have "heapify i xs = xs" using False by (subst heapify.simps) (auto simp: less_hkey Let_def)
    ultimately show ?thesis by simp
  qed
qed

text \<open>Extracting from an array whose places below the root are ordered.\<close>

lemma extract_ok:
  assumes "h_elems h = x # xs" and "ordered (children 0) (x # xs)"
  shows "\<exists>ys. heap_extract_min h = (Some (he_elem x), h\<lparr>h_elems := ys\<rparr>) \<and> ordered {} ys \<and> mset ys = mset xs"
proof -
  let ?zs = "butlast ((x # xs)[0 := last (x # xs)])"
  have ms: "mset ?zs = mset xs" by (cases xs rule: rev_cases) auto
  have "hkey (?zs ! parent j) \<le> hkey (?zs ! j)" if "0 < j" "j < length ?zs" "j \<notin> children 0" for j
  proof -
    have p: "0 < parent j" "parent j < j" using that by auto
    then have "?zs ! parent j = (x # xs) ! parent j" "?zs ! j = (x # xs) ! j"
      using that order.strict_trans[OF p(2), of "length xs"] by (auto simp: nth_butlast nth_Cons' split: if_splits)
    moreover have "j < length (x # xs)" using that(2) by (auto split: if_splits)
    ultimately show ?thesis using assms(2) that(1,3) unfolding ordered_def by metis
  qed
  then have "ordered (children 0) ?zs" by (simp add: ordered_def)
  from heapify_ok[OF this] ms show ?thesis
    by (intro exI[of _ "heapify 0 ?zs"]) (simp add: heap_extract_min_def assms(1))
qed

subsection \<open>The heap as a sorted list\<close>

text \<open>The elements in the order of their keys: no two have the same counter.  The counter is
  a 32-bit number; before it wraps around it is larger than those of all elements.\<close>

definition heap_ok :: "heap \<Rightarrow> bool" where
  "heap_ok h \<longleftrightarrow> ordered {} (h_elems h) \<and> distinct (List.map he_s_key (h_elems h)) \<and>
     distinct (List.map he_elem (h_elems h)) \<and> (\<forall>x\<in>set (h_elems h). he_s_key x < h_s_key h)"

definition in_order :: "heap \<Rightarrow> heap_elem list" where
  "in_order h = sort_key hkey (h_elems h)"

lemma inj_hkey: "distinct (List.map he_s_key xs) \<Longrightarrow> inj_on hkey (set xs)"
  by (auto simp: inj_on_def hkey_def distinct_map)

lemma sort_hkey_unique:
  assumes "mset ys = mset xs" and "distinct (List.map he_s_key xs)" and "sorted (List.map hkey ys)"
  shows "sort_key hkey xs = ys"
proof (rule sort_key_inj_key_eq)
  show "mset xs = mset ys" using assms(1) by simp
  show "inj_on hkey (set xs)" by (rule inj_hkey[OF assms(2)])
qed (rule assms(3))

lemma sort_hkey_mset:
  assumes "mset ys = mset xs" and "distinct (List.map he_s_key xs)"
  shows "sort_key hkey xs = sort_key hkey ys"
  using assms by (intro sort_hkey_unique) simp_all

lemma distinct_map_mset: "mset ys = mset xs \<Longrightarrow> distinct (List.map f ys) = distinct (List.map f xs)"
  by (metis mset_eq_imp_distinct_iff mset_map)

lemma new_Heap_ok: "heap_ok (new_Heap sz)" "in_order (new_Heap sz) = []"
  by (simp_all add: heap_ok_def new_Heap_def ordered_def in_order_def)

text \<open>Before the first later element: where an event with a new counter goes.\<close>

fun insert_after :: "heap_elem \<Rightarrow> heap_elem list \<Rightarrow> heap_elem list" where
  "insert_after x [] = [x]"
| "insert_after x (y # ys) = (if he_key x < he_key y then x # y # ys else y # insert_after x ys)"

lemma insort_after:
  assumes "\<forall>y\<in>set ys. he_s_key y < he_s_key x"
  shows "insort_key hkey x ys = insert_after x ys"
  using assms by (induction ys) (auto simp: hkey_def less_eq_prod_def)

lemma heap_insert_ok:
  assumes ok: "heap_ok h" and room: "h_s_key h + 1 \<noteq> 0" and e: "e \<notin> he_elem ` set (h_elems h)"
  shows "heap_ok (heap_insert key e h) \<and>
    in_order (heap_insert key e h) = insert_after \<lparr> he_key = key, he_s_key = h_s_key h, he_elem = e \<rparr> (in_order h) \<and>
    h_s_key (heap_insert key e h) = h_s_key h + 1"
proof -
  let ?x = "\<lparr> he_key = key, he_s_key = h_s_key h, he_elem = e \<rparr>"
  let ?xs = "h_elems h" and ?n = "length (h_elems h)"
  let ?ys = "sift_up ?x ?n (?xs @ [?x])"
  have hole: "hole ?n (?xs @ [?x])"
  proof -
    have "hkey ((?xs @ [?x]) ! parent j) \<le> hkey ((?xs @ [?x]) ! j)"
      if "0 < j" "j < length (?xs @ [?x])" "j \<notin> {?n} \<union> children ?n" for j
    proof -
      have "j < ?n" using that by auto
      then show ?thesis using ok that(1) parent_less[OF that(1)] by (simp add: nth_append heap_ok_def ordered_def)
    qed
    moreover have "\<not> j < length (?xs @ [?x])" if "j \<in> children ?n" for j using that parent_less[of j] by auto
    ultimately show ?thesis unfolding hole_def ordered_def by blast
  qed
  have none: "\<forall>j\<in>children ?n. j < length (?xs @ [?x]) \<longrightarrow> hkey ?x \<le> hkey ((?xs @ [?x]) ! j)"
  proof (intro ballI impI)
    fix j assume "j \<in> children ?n" "j < length (?xs @ [?x])"
    then show "hkey ?x \<le> hkey ((?xs @ [?x]) ! j)" using parent_less[of j] by auto
  qed
  have up: "ordered {} ?ys" "mset ?ys = mset (?x # ?xs)" using sift_up_ok[OF _ hole none] by simp_all
  have els: "h_elems (heap_insert key e h) = ?ys" "h_s_key (heap_insert key e h) = h_s_key h + 1"
    by (simp_all add: heap_insert_def Let_def)
  have keys: "\<forall>x\<in>set ?xs. he_s_key x < h_s_key h" using ok by (simp add: heap_ok_def)
  have ds: "distinct (List.map he_s_key (?x # ?xs))" "distinct (List.map he_elem (?x # ?xs))"
    using ok keys e by (auto simp: heap_ok_def)
  have lt: "h_s_key h < h_s_key h + 1" 
    using room unatSuc[of "h_s_key h"] by (simp add: word_less_nat_alt add.commute)
  have els_set: "set ?ys = set (?x # ?xs)" using up(2) by (rule mset_eq_setD)
  have below: "\<forall>y\<in>set ?ys. he_s_key y < h_s_key h + 1" 
  proof (intro ballI)
    fix y assume "y \<in> set ?ys"
    with els_set have "y = ?x \<or> y \<in> set ?xs" by (simp only: set_simps insert_iff)
    then show "he_s_key y < h_s_key h + 1"
    proof
      assume "y \<in> set ?xs"
      then have "he_s_key y < h_s_key h" using keys by blast
      then show ?thesis using lt by (rule less_trans)
    qed (use lt in simp)
  qed
  have "heap_ok (heap_insert key e h)"
    unfolding heap_ok_def els distinct_map_mset[OF up(2)] by (intro conjI up(1) ds below)
  moreover have "in_order (heap_insert key e h) = insert_after ?x (in_order h)"
  proof -
    have "in_order (heap_insert key e h) = sort_key hkey (?x # ?xs)"
      unfolding in_order_def els by (rule sort_hkey_mset[symmetric, OF up(2) ds(1)])
    also have "\<dots> = insort_key hkey ?x (in_order h)" by (simp add: in_order_def)
    also have "\<dots> = insert_after ?x (in_order h)" using keys by (intro insort_after) (simp add: in_order_def)
    finally show ?thesis .
  qed
  ultimately show ?thesis using els(2) by blast
qed

lemma heap_extract_ok:
  assumes ok: "heap_ok h"
  shows "case in_order h of [] \<Rightarrow> heap_extract_min h = (None, h)
    | x # xs \<Rightarrow> \<exists>h'. heap_extract_min h = (Some (he_elem x), h') \<and> heap_ok h' \<and> in_order h' = xs \<and> h_s_key h' = h_s_key h"
proof (cases "h_elems h")
  case Nil
  then show ?thesis by (simp add: in_order_def heap_extract_min_def)
next
  case (Cons x xs)
  have ord: "ordered {} (x # xs)" using ok Cons by (simp add: heap_ok_def)
  obtain ys where ys: "heap_extract_min h = (Some (he_elem x), h\<lparr>h_elems := ys\<rparr>)" "ordered {} ys" "mset ys = mset xs"
  proof -
    have "ordered (children 0) (x # xs)" using ord unfolding ordered_def by blast
    from extract_ok[OF Cons this] that show thesis by blast
  qed
  have d: "distinct (List.map he_s_key (x # xs))" "distinct (List.map he_elem (x # xs))"
    "\<forall>y\<in>set (x # xs). he_s_key y < h_s_key h" using ok Cons by (simp_all add: heap_ok_def)
  have min: "\<forall>y\<in>set xs. hkey x \<le> hkey y"
    using ordered_root[OF ord] by (fastforce simp: in_set_conv_nth nth_Cons')
  have "in_order h = x # sort_key hkey xs"
    unfolding in_order_def Cons using min d(1) by (intro sort_hkey_unique) simp_all
  moreover have "sort_key hkey xs = in_order (h\<lparr>h_elems := ys\<rparr>)"
    unfolding in_order_def using sort_hkey_mset[OF ys(3)] d(1) by simp
  moreover have "heap_ok (h\<lparr>h_elems := ys\<rparr>)"
    using ys(2) d distinct_map_mset[OF ys(3), of he_s_key] distinct_map_mset[OF ys(3), of he_elem] mset_eq_setD[OF ys(3)]
    by (simp add: heap_ok_def)
  ultimately show ?thesis using ys(1) by simp
qed

lemma heap_member_loop_ok:
  "(heap_member_loop e xs i = 0 \<longleftrightarrow> e \<notin> he_elem ` set xs) \<and>
   (heap_member_loop e xs i \<noteq> 0 \<longrightarrow> i < heap_member_loop e xs i \<and> heap_member_loop e xs i \<le> i + length xs \<and>
      he_elem (xs ! (heap_member_loop e xs i - 1 - i)) = e)"
proof (induction e xs i rule: heap_member_loop.induct)
  case (2 e x xs i)
  then show ?case by (cases "he_elem x = e") (auto simp: nth_Cons' Suc_diff_Suc)
qed simp

lemma remove_extract:
  assumes "mset (x # xs) = mset zs" and "distinct (List.map he_elem zs)"
  shows "mset xs = mset (filter (\<lambda>y. he_elem y \<noteq> he_elem x) zs)"
proof -
  have d: "distinct (List.map he_elem (x # xs))" using assms distinct_map_mset by metis
  have "mset (filter (\<lambda>y. he_elem y \<noteq> he_elem x) zs) = mset (filter (\<lambda>y. he_elem y \<noteq> he_elem x) (x # xs))"
    using assms(1) by (simp only: mset_filter)
  also have "filter (\<lambda>y. he_elem y \<noteq> he_elem x) (x # xs) = xs"
  proof -
    have "he_elem y \<noteq> he_elem x" if "y \<in> set xs" for y
    proof
      assume "he_elem y = he_elem x"
      then have "he_elem x \<in> set (List.map he_elem xs)" using that by (metis image_eqI list.set_map)
      then show False using d by simp
    qed
    then show ?thesis by simp
  qed
  finally show ?thesis by simp
qed

lemma filter_sort_hkey:
  "distinct (List.map he_s_key zs) \<Longrightarrow> filter P (sort_key hkey zs) = sort_key hkey (filter P zs)"
proof (rule sort_hkey_unique[symmetric])
  show "mset (filter P (sort_key hkey zs)) = mset (filter P zs)" by simp
  show "sorted (List.map hkey (filter P (sort_key hkey zs)))" by (intro sorted_filter) simp
qed (simp add: distinct_map_filter)

text \<open>Deleting keeps the order of the others.\<close>

lemma heap_delete_ok:
  assumes ok: "heap_ok h"
  shows "\<exists>h'. heap_delete e h = (e \<in> he_elem ` set (h_elems h), h') \<and> heap_ok h' \<and>
    in_order h' = filter (\<lambda>y. he_elem y \<noteq> e) (in_order h) \<and> h_s_key h' = h_s_key h"
proof (cases "e \<in> he_elem ` set (h_elems h)")
  case False
  then have "heap_member e h = 0" using heap_member_loop_ok by (simp add: heap_member_def)
  moreover have "filter (\<lambda>y. he_elem y \<noteq> e) (in_order h) = in_order h"
    using False by (auto simp: filter_id_conv in_order_def)
  ultimately show ?thesis using ok False by (simp add: heap_delete_def)
next
  case True
  let ?xs = "h_elems h"
  let ?i = "heap_member e h - 1"
  have m: "heap_member e h \<noteq> 0" "?i < length ?xs" "he_elem (?xs ! ?i) = e"
    using True heap_member_loop_ok[of e ?xs 0] by (auto simp: heap_member_def)
  have "ordered {} ?xs" using ok by (simp add: heap_ok_def)
  from to_root_ok[OF m(2) ordered_hole[OF this]] have r: "ordered (children 0) (to_root ?i ?xs)"
    "mset (to_root ?i ?xs) = mset ?xs" "he_elem (to_root ?i ?xs ! 0) = e" using m(3) by simp_all
  obtain z zs where z: "to_root ?i ?xs = z # zs" "he_elem z = e"
    using r(2,3) m(2) by (cases "to_root ?i ?xs") auto
  obtain ys where ys: "heap_extract_min (h\<lparr>h_elems := z # zs\<rparr>) = (Some e, h\<lparr>h_elems := ys\<rparr>)" "ordered {} ys" "mset ys = mset zs"
    using extract_ok[of "h\<lparr>h_elems := z # zs\<rparr>" z zs] r(1) z by auto
  have d: "distinct (List.map he_s_key ?xs)" "distinct (List.map he_elem ?xs)" "\<forall>y\<in>set ?xs. he_s_key y < h_s_key h"
    using ok by (simp_all add: heap_ok_def)
  let ?F = "filter (\<lambda>y. he_elem y \<noteq> e) ?xs"
  have F: "mset ys = mset ?F" using remove_extract[of z zs ?xs] r(2) z d(2) ys(3) by simp
  have dF: "distinct (List.map he_s_key ?F)" "distinct (List.map he_elem ?F)" using d by (simp_all add: distinct_map_filter)
  have "heap_ok (h\<lparr>h_elems := ys\<rparr>)"
    using ys(2) d(3) dF distinct_map_mset[OF F, of he_s_key] distinct_map_mset[OF F, of he_elem] mset_eq_setD[OF F]
    by (simp add: heap_ok_def)
  moreover have "in_order (h\<lparr>h_elems := ys\<rparr>) = filter (\<lambda>y. he_elem y \<noteq> e) (in_order h)"
    unfolding in_order_def filter_sort_hkey[OF d(1)] using sort_hkey_mset[OF F dF(1)] by simp
  moreover have "heap_delete e h = (True, h\<lparr>h_elems := ys\<rparr>)" using m(1) z(1) ys(1) by (simp add: heap_delete_def)
  ultimately show ?thesis using True by simp
qed

end
