(* ===== verification/Scheduler.thy ===== *)
theory Scheduler
  imports EventHeap
begin

text \<open>
  The event scheduler (\<^verbatim>\<open>common/scheduler.h\<close>, \<^verbatim>\<open>common/scheduler.cc\<close>): scheduling,
  cancelling and dispatching events over a queue of events, and two of its queues, the linked
  list and the heap.  Events are numbered; their fields are in a store, which the queue
  of the linked list reads.
\<close>

record event =
  ev_time :: rat
  ev_uid :: int
  ev_handler :: "nat option"

record 'q sched =
  sc_clock :: rat
  sc_halted :: bool
  sc_uid :: int
  sc_event :: "nat \<Rightarrow> event"
  sc_queue :: 'q

text \<open>The virtual methods of a scheduler.\<close>

record 'q queue_ops =
  q_insert :: "(nat \<Rightarrow> rat) \<Rightarrow> nat \<Rightarrow> 'q \<Rightarrow> 'q result"
  q_deque :: "'q \<Rightarrow> (nat option \<times> 'q) result"
  q_cancel :: "(nat \<Rightarrow> rat) \<Rightarrow> (nat \<Rightarrow> int) \<Rightarrow> nat \<Rightarrow> 'q \<Rightarrow> 'q result"

definition new_Scheduler :: "'q \<Rightarrow> 'q sched" where
  "new_Scheduler q = \<lparr> sc_clock = 0, sc_halted = False, sc_uid = 1,
     sc_event = (\<lambda>_. \<lparr> ev_time = 0, ev_uid = 0, ev_handler = None \<rparr>), sc_queue = q \<rparr>"

definition sc_time :: "'q sched \<Rightarrow> nat \<Rightarrow> rat" where
  "sc_time s e = ev_time (sc_event s e)"

definition sc_uid_of :: "'q sched \<Rightarrow> nat \<Rightarrow> int" where
  "sc_uid_of s e = ev_uid (sc_event s e)"

definition sched_schedule :: "'q queue_ops \<Rightarrow> nat option \<Rightarrow> nat \<Rightarrow> rat \<Rightarrow> 'q sched \<Rightarrow> 'q sched result" where
  "sched_schedule ops h e delay s =
    (if h = None then Inl Abort
     else if ev_uid (sc_event s e) > 0 then Inl Abort
     else if sc_uid s < 0 then Inl Abort
     else (let ev = \<lparr> ev_time = sc_clock s + delay, ev_uid = sc_uid s, ev_handler = h \<rparr>;
               s1 = s\<lparr>sc_uid := sc_uid s + 1, sc_event := (sc_event s)(e := ev)\<rparr>
           in bind_r (q_insert ops (sc_time s1) e (sc_queue s1)) (\<lambda>q. Inr (s1\<lparr>sc_queue := q\<rparr>))))"

definition sched_cancel :: "'q queue_ops \<Rightarrow> nat \<Rightarrow> 'q sched \<Rightarrow> 'q sched result" where
  "sched_cancel ops e s =
    (if ev_uid (sc_event s e) \<le> 0 then Inr s
     else bind_r (q_cancel ops (sc_time s) (sc_uid_of s) e (sc_queue s)) (\<lambda>q.
       Inr (s\<lparr>sc_queue := q, sc_event := (sc_event s)(e := (sc_event s e)\<lparr>ev_uid := - ev_uid (sc_event s e)\<rparr>)\<rparr>)))"

definition sched_dispatch :: "nat \<Rightarrow> 'q sched \<Rightarrow> 'q sched result" where
  "sched_dispatch e s =
    (if sc_time s e < sc_clock s then Inl Abort
     else Inr (s\<lparr>sc_clock := sc_time s e,
       sc_event := (sc_event s)(e := (sc_event s e)\<lparr>ev_uid := - ev_uid (sc_event s e)\<rparr>)\<rparr>))"

text \<open>What a handler does when an event is dispatched to it.\<close>

datatype action = Schedule "nat option" nat rat | Cancel nat | Halt

fun sched_act :: "'q queue_ops \<Rightarrow> action \<Rightarrow> 'q sched \<Rightarrow> 'q sched result" where
  "sched_act ops (Schedule h e d) s = sched_schedule ops h e d s"
| "sched_act ops (Cancel e) s = sched_cancel ops e s"
| "sched_act ops Halt s = Inr (s\<lparr>sc_halted := True\<rparr>)"

fun sched_acts :: "'q queue_ops \<Rightarrow> action list \<Rightarrow> 'q sched \<Rightarrow> 'q sched result" where
  "sched_acts ops [] s = Inr s"
| "sched_acts ops (a # as) s = bind_r (sched_act ops a s) (sched_acts ops as)"

text \<open>The loop of \<^verbatim>\<open>run\<close>, up to \<^verbatim>\<open>n\<close> dispatches.  \<^verbatim>\<open>beh\<close> is what the handlers do, which may depend
  on everything dispatched so far.\<close>

type_synonym behaviour = "(nat \<times> rat) list \<Rightarrow> action list"

fun sched_run :: "'q queue_ops \<Rightarrow> behaviour \<Rightarrow> nat \<Rightarrow> (nat \<times> rat) list \<Rightarrow> 'q sched \<Rightarrow>
    ((nat \<times> rat) list \<times> 'q sched) result" where
  "sched_run ops beh 0 tr s = Inr (tr, s)"
| "sched_run ops beh (Suc n) tr s =
    (if sc_halted s then Inr (tr, s)
     else bind_r (q_deque ops (sc_queue s)) (\<lambda>(x, q). case x of
       None \<Rightarrow> Inr (tr, s\<lparr>sc_queue := q\<rparr>)
     | Some e \<Rightarrow>
         bind_r (sched_dispatch e (s\<lparr>sc_queue := q\<rparr>)) (\<lambda>s1.
           let tr' = tr @ [(e, sc_clock s1)] in
           bind_r (sched_acts ops (beh tr') s1) (\<lambda>s2. sched_run ops beh n tr' s2))))"

subsection \<open>The two queues\<close>

fun list_insert :: "(nat \<Rightarrow> rat) \<Rightarrow> nat \<Rightarrow> nat list \<Rightarrow> nat list" where
  "list_insert tm e [] = [e]"
| "list_insert tm e (x # xs) = (if tm e < tm x then e # x # xs else x # list_insert tm e xs)"

fun list_cancel :: "nat \<Rightarrow> nat list \<Rightarrow> nat list result" where
  "list_cancel e [] = Inl Abort"
| "list_cancel e (x # xs) = (if x = e then Inr xs else bind_r (list_cancel e xs) (\<lambda>ys. Inr (x # ys)))"

fun list_deque :: "nat list \<Rightarrow> nat option \<times> nat list" where
  "list_deque [] = (None, [])"
| "list_deque (e # es) = (Some e, es)"

definition list_ops :: "nat list queue_ops" where
  "list_ops = \<lparr> q_insert = (\<lambda>tm e q. Inr (list_insert tm e q)), q_deque = (\<lambda>q. Inr (list_deque q)),
     q_cancel = (\<lambda>tm uid. list_cancel) \<rparr>"

definition list_lookup :: "int \<Rightarrow> nat list sched \<Rightarrow> nat option" where
  "list_lookup uid s = List.find (\<lambda>e. ev_uid (sc_event s e) = uid) (sc_queue s)"

definition heap_ops :: "heap queue_ops" where
  "heap_ops = \<lparr> q_insert = (\<lambda>tm e h. Inr (heap_insert (tm e) e h)), q_deque = (\<lambda>h. Inr (heap_extract_min h)),
     q_cancel = (\<lambda>tm uid e h. Inr (snd (heap_delete e h))) \<rparr>"

definition heap_lookup :: "int \<Rightarrow> heap sched \<Rightarrow> nat option" where
  "heap_lookup uid s = List.find (\<lambda>e. ev_uid (sc_event s e) = uid) (List.map he_elem (h_elems (sc_queue s)))"

lemma list_ops_simps [simp]:
  "q_insert list_ops tm e q = Inr (list_insert tm e q)" "q_deque list_ops q = Inr (list_deque q)" "q_cancel list_ops tm uid = list_cancel"
  by (simp_all add: list_ops_def)

subsection \<open>The contract of an event queue\<close>

text \<open>Events are due in the order of their times, and of their numbers for the same time.\<close>

definition due_order :: "(nat \<Rightarrow> rat) \<Rightarrow> (nat \<Rightarrow> int) \<Rightarrow> nat \<Rightarrow> nat \<Rightarrow> bool" where
  "due_order tm uid a b \<longleftrightarrow> tm a < tm b \<or> tm a = tm b \<and> uid a < uid b"

text \<open>\<^verbatim>\<open>evs\<close> lists the events in the order in which they are due, \<^verbatim>\<open>ok\<close> says that the queue is sound
  for the given times, \<^verbatim>\<open>room q n\<close> that \<^verbatim>\<open>n\<close> more insertions are possible, and \<^verbatim>\<open>legal\<close> which
  times the queue can take.  A queue may rely on the numbers when it cancels.\<close>

locale event_queue =
  fixes ops :: "'q queue_ops" and evs :: "'q \<Rightarrow> nat list" and ok :: "'q \<Rightarrow> (nat \<Rightarrow> rat) \<Rightarrow> bool"
    and room :: "'q \<Rightarrow> nat \<Rightarrow> bool" and legal :: "rat \<Rightarrow> bool"
  assumes insert_ok: "ok q tm \<Longrightarrow> room q (Suc n) \<Longrightarrow> e \<notin> set (evs q) \<Longrightarrow> \<forall>x\<in>set (evs q). tm' x = tm x \<Longrightarrow> legal (tm' e) \<Longrightarrow>
      \<exists>q'. q_insert ops tm' e q = Inr q' \<and> ok q' tm' \<and> evs q' = list_insert tm' e (evs q) \<and> room q' n"
    and deque_ok: "ok q tm \<Longrightarrow> case evs q of [] \<Rightarrow> q_deque ops q = Inr (None, q)
      | e # es \<Rightarrow> \<exists>q'. q_deque ops q = Inr (Some e, q') \<and> ok q' tm \<and> evs q' = es \<and> (\<forall>n. room q n \<longrightarrow> room q' n)"
    and cancel_ok: "ok q tm \<Longrightarrow> e \<in> set (evs q) \<Longrightarrow> sorted_wrt (due_order tm uid) (evs q) \<Longrightarrow>
      \<exists>q'. q_cancel ops tm uid e q = Inr q' \<and> ok q' tm \<and> evs q' = filter (\<lambda>x. x \<noteq> e) (evs q) \<and> (\<forall>n. room q n \<longrightarrow> room q' n)"
    and ok_distinct: "ok q tm \<Longrightarrow> distinct (evs q)"
    and ok_legal: "ok q tm \<Longrightarrow> e \<in> set (evs q) \<Longrightarrow> legal (tm e)"
    and room_less: "room q (Suc n) \<Longrightarrow> room q n"
    and ok_cong: "ok q tm \<Longrightarrow> \<forall>x\<in>set (evs q). tm' x = tm x \<Longrightarrow> ok q tm'"
    and legal_0: "legal 0"
    and legal_later: "legal t \<Longrightarrow> 0 \<le> d \<Longrightarrow> legal (t + d)"

text \<open>An action that schedules an event at a time the queue can take.\<close>

definition lawful :: "(rat \<Rightarrow> bool) \<Rightarrow> action \<Rightarrow> bool" where
  "lawful legal a \<longleftrightarrow> (\<forall>h e d t. a = Schedule h e d \<longrightarrow> legal t \<longrightarrow> legal (t + d))"

lemma lawful_any [simp]: "lawful (\<lambda>t. True) a"
  by (simp add: lawful_def)

lemma lawful_all [simp]: "list_all (lawful (\<lambda>t. True)) as"
  by (induction as) simp_all

lemma lawful_Schedule: "lawful legal (Schedule h e d) \<longleftrightarrow> (\<forall>t. legal t \<longrightarrow> legal (t + d))"
  by (simp add: lawful_def)

lemma list_insert_set [simp]: "set (list_insert tm e xs) = insert e (set xs)"
  by (induction xs) auto

lemma list_insert_distinct: "distinct (list_insert tm e xs) \<longleftrightarrow> distinct xs \<and> e \<notin> set xs"
  by (induction xs) auto

lemma list_insert_cong: "\<forall>x\<in>insert e (set xs). tm' x = tm x \<Longrightarrow> list_insert tm' e xs = list_insert tm e xs"
  by (induction xs) auto

lemma list_cancel_ok: "distinct xs \<Longrightarrow> e \<in> set xs \<Longrightarrow> list_cancel e xs = Inr (filter (\<lambda>x. x \<noteq> e) xs)"
  by (induction xs) (auto intro!: filter_True[symmetric])

interpretation lq: event_queue list_ops "\<lambda>q. q" "\<lambda>q tm. distinct q" "\<lambda>q n. True" "\<lambda>t. True"
  by unfold_locales (auto simp: list_insert_distinct list_cancel_ok split: list.split)

subsection \<open>The heap provides it\<close>

definition heap_evs :: "heap \<Rightarrow> nat list" where
  "heap_evs h = List.map he_elem (in_order h)"

definition heap_times :: "heap \<Rightarrow> (nat \<Rightarrow> rat) \<Rightarrow> bool" where
  "heap_times h tm \<longleftrightarrow> heap_ok h \<and> (\<forall>x\<in>set (h_elems h). he_key x = tm (he_elem x))"

definition heap_room :: "heap \<Rightarrow> nat \<Rightarrow> bool" where
  "heap_room h n \<longleftrightarrow> unat (h_s_key h) + n < 2 ^ 32"

lemma set_in_order [simp]: "set (in_order h) = set (h_elems h)"
  by (simp add: in_order_def)

lemma insert_after_list:
  "\<forall>y\<in>insert x (set ys). he_key y = tm (he_elem y) \<Longrightarrow>
    List.map he_elem (insert_after x ys) = list_insert tm (he_elem x) (List.map he_elem ys)"
proof (induction ys)
  case (Cons y ys)
  have k: "he_key x = tm (he_elem x)" "he_key y = tm (he_elem y)" "\<forall>z\<in>insert x (set ys). he_key z = tm (he_elem z)"
    by (rule bspec[OF Cons.prems], simp)+ (intro ballI bspec[OF Cons.prems], auto)
  show ?case unfolding insert_after.simps list.map list_insert.simps k(1,2)[symmetric] if_distrib[of "List.map he_elem"]
    Cons.IH[OF k(3)] ..
qed simp

lemma set_insert_after [simp]: "set (insert_after x ys) = insert x (set ys)"
  by (induction ys) auto

lemma distinct_in_order:
  assumes "heap_ok h"
  shows "distinct (List.map he_elem (in_order h))"
proof -
  have "mset (in_order h) = mset (h_elems h)" by (simp add: in_order_def)
  from distinct_map_mset[OF this, of he_elem] show ?thesis using assms unfolding heap_ok_def by blast
qed

interpretation hq: event_queue heap_ops heap_evs heap_times heap_room "\<lambda>t. True"
proof unfold_locales
  fix h tm tm' n e
  assume h: "heap_times h tm" and r: "heap_room h (Suc n)" and e: "e \<notin> set (heap_evs h)"
    and tm: "\<forall>x\<in>set (heap_evs h). tm' x = tm x"
  have unat: "unat (h_s_key h) + 1 < 2 ^ 32" using r by (simp add: heap_room_def)
  then have s: "unat (h_s_key h + 1) = unat (h_s_key h) + 1" by (simp add: unat_word_ariths)
  then have n0: "h_s_key h + 1 \<noteq> 0" by (metis add_is_0 one_neq_zero unat_0)
  have ok: "heap_ok h" and e': "e \<notin> he_elem ` set (h_elems h)"
    using h e by (simp_all add: heap_times_def heap_evs_def)
  let ?x = "\<lparr> he_key = tm' e, he_s_key = h_s_key h, he_elem = e \<rparr>" and ?h = "heap_insert (tm' e) e h"
  have i: "heap_ok ?h" "in_order ?h = insert_after ?x (in_order h)" "h_s_key ?h = h_s_key h + 1"
    using heap_insert_ok[OF ok n0 e', of "tm' e"] by blast+
  have keys: "\<forall>y\<in>insert ?x (set (in_order h)). he_key y = tm' (he_elem y)"
    using h tm by (auto simp: heap_times_def heap_evs_def)
  have "set (h_elems ?h) = insert ?x (set (h_elems h))" using i(2) by (metis set_in_order set_insert_after)
  then have "heap_times ?h tm'" using i(1) keys by (simp add: heap_times_def)
  moreover have "heap_evs ?h = list_insert tm' e (heap_evs h)"
    using insert_after_list[OF keys] i(2) by (simp add: heap_evs_def)
  moreover have "heap_room ?h n" using r s i(3) by (simp add: heap_room_def)
  ultimately show "\<exists>q'. q_insert heap_ops tm' e h = Inr q' \<and> heap_times q' tm' \<and>
      heap_evs q' = list_insert tm' e (heap_evs h) \<and> heap_room q' n"
    by (simp add: heap_ops_def)
next
  fix h tm
  assume h: "heap_times h tm"
  show "case heap_evs h of [] \<Rightarrow> q_deque heap_ops h = Inr (None, h)
    | e # es \<Rightarrow> \<exists>h'. q_deque heap_ops h = Inr (Some e, h') \<and> heap_times h' tm \<and> heap_evs h' = es \<and>
        (\<forall>n. heap_room h n \<longrightarrow> heap_room h' n)"
  proof (cases "in_order h")
    case Nil
    then show ?thesis using heap_extract_ok[of h] h by (simp add: heap_evs_def heap_ops_def heap_times_def)
  next
    case (Cons x xs)
    obtain h' where h': "heap_extract_min h = (Some (he_elem x), h')" "heap_ok h'" "in_order h' = xs" "h_s_key h' = h_s_key h"
      using heap_extract_ok[of h] h Cons by (auto simp: heap_times_def)
    have "set (h_elems h') \<subseteq> set (h_elems h)" using h'(3) Cons by (metis set_in_order set_subset_Cons)
    then show ?thesis using h h' Cons by (auto simp: heap_evs_def heap_ops_def heap_times_def heap_room_def)
  qed
next
  fix h tm uid e
  assume h: "heap_times h tm" and e: "e \<in> set (heap_evs h)"
  obtain h' where h': "heap_delete e h = (e \<in> he_elem ` set (h_elems h), h')" "heap_ok h'"
    "in_order h' = filter (\<lambda>y. he_elem y \<noteq> e) (in_order h)" "h_s_key h' = h_s_key h"
    using heap_delete_ok[of h e] h by (auto simp: heap_times_def)
  have "set (h_elems h') \<subseteq> set (h_elems h)" using h'(3) by (metis filter_is_subset set_in_order)
  then show "\<exists>h'. q_cancel heap_ops tm uid e h = Inr h' \<and> heap_times h' tm \<and>
      heap_evs h' = filter (\<lambda>x. x \<noteq> e) (heap_evs h) \<and> (\<forall>n. heap_room h n \<longrightarrow> heap_room h' n)"
    using h h' by (auto simp: heap_evs_def heap_ops_def heap_times_def heap_room_def filter_map comp_def)
next
  show "distinct (heap_evs h)" if "heap_times h tm" for h tm
    using that distinct_in_order by (simp add: heap_times_def heap_evs_def)
qed (auto simp: heap_room_def heap_times_def heap_evs_def)

subsection \<open>Any event queue does what the list does\<close>

definition sched_map :: "('q \<Rightarrow> 'r) \<Rightarrow> 'q sched \<Rightarrow> 'r sched" where
  "sched_map f s = \<lparr> sc_clock = sc_clock s, sc_halted = sc_halted s, sc_uid = sc_uid s, sc_event = sc_event s,
     sc_queue = f (sc_queue s) \<rparr>"

lemma sched_map_simps [simp]:
  "sc_clock (sched_map f s) = sc_clock s" "sc_halted (sched_map f s) = sc_halted s" "sc_uid (sched_map f s) = sc_uid s"
  "sc_event (sched_map f s) = sc_event s" "sc_queue (sched_map f s) = f (sc_queue s)" "sc_time (sched_map f s) = sc_time s"
  by (simp_all add: sched_map_def sc_time_def fun_eq_iff)

lemma sched_eqI:
  "sc_clock s = sc_clock t \<Longrightarrow> sc_halted s = sc_halted t \<Longrightarrow> sc_uid s = sc_uid t \<Longrightarrow> sc_event s = sc_event t \<Longrightarrow>
    sc_queue s = sc_queue t \<Longrightarrow> (s :: 'q sched) = t"
  by simp

inductive sched_reach :: "'q queue_ops \<Rightarrow> 'q \<Rightarrow> nat \<Rightarrow> 'q sched \<Rightarrow> bool" for ops q0 where
  start: "sched_reach ops q0 0 (new_Scheduler q0)"
| act: "sched_reach ops q0 n s \<Longrightarrow> sched_act ops a s = Inr s' \<Longrightarrow> \<forall>h e d. a = Schedule h e d \<longrightarrow> 0 \<le> d \<Longrightarrow>
    sched_reach ops q0 (Suc n) s'"
| dispatch: "sched_reach ops q0 n s \<Longrightarrow> q_deque ops (sc_queue s) = Inr (Some e, q) \<Longrightarrow>
    sched_dispatch e (s\<lparr>sc_queue := q\<rparr>) = Inr s' \<Longrightarrow> sched_reach ops q0 n s'"
| resume: "sched_reach ops q0 n s \<Longrightarrow> sched_reach ops q0 n (s\<lparr>sc_halted := False\<rparr>)"

definition before :: "'q sched \<Rightarrow> nat \<Rightarrow> nat \<Rightarrow> bool" where
  "before s = due_order (sc_time s) (sc_uid_of s)"

lemma before_iff: "before s a b \<longleftrightarrow> sc_time s a < sc_time s b \<or> sc_time s a = sc_time s b \<and> ev_uid (sc_event s a) < ev_uid (sc_event s b)"
  by (simp add: before_def due_order_def sc_uid_of_def)

lemma before_other [simp]: "before (s\<lparr>sc_halted := b\<rparr>) = before s" "before (s\<lparr>sc_clock := t\<rparr>) = before s"
  by (simp_all add: fun_eq_iff before_iff sc_time_def)

lemma list_insert_before:
  assumes "sorted_wrt P xs" and "\<forall>x\<in>set xs. \<forall>y\<in>set xs. P x y \<longrightarrow> tm x \<le> tm y" and "\<forall>x\<in>set xs. if tm e < tm x then P e x else P x e"
  shows "sorted_wrt P (list_insert tm e xs)"
  using assms
proof (induction xs)
  case (Cons x xs)
  have IH: "sorted_wrt P (list_insert tm e xs)" using Cons by simp
  show ?case
  proof (cases "tm e < tm x")
    case True
    have "P e y" if "y \<in> set xs" for y
    proof -
      have "P x y" using that Cons.prems(1) by simp
      then have "tm x \<le> tm y" using that Cons.prems(2) by simp
      then have "tm e < tm y" using True by simp
      then show ?thesis using that Cons.prems(3) by (metis list.set_intros(2))
    qed
    then show ?thesis using True Cons.prems(1,3) by simp
  next
    case False
    then show ?thesis using IH Cons.prems(1,3) by auto
  qed
qed simp

text \<open>A simulation: the initial actions, then \<^verbatim>\<open>n\<close> dispatches; the trace of what was
  dispatched and the clock at the end.\<close>

definition simulate :: "'q queue_ops \<Rightarrow> 'q \<Rightarrow> action list \<Rightarrow> behaviour \<Rightarrow> nat \<Rightarrow> ((nat \<times> rat) list \<times> rat) result" where
  "simulate ops q0 init beh n =
    bind_r (sched_acts ops init (new_Scheduler q0)) (\<lambda>s.
      bind_r (sched_run ops beh n [] s) (\<lambda>(tr, s'). Inr (tr, sc_clock s')))"

context event_queue
begin

definition good :: "'q sched \<Rightarrow> bool" where
  "good s \<longleftrightarrow> ok (sc_queue s) (sc_time s) \<and> (\<forall>e. 0 < ev_uid (sc_event s e) \<longleftrightarrow> e \<in> set (evs (sc_queue s))) \<and> 0 < sc_uid s \<and>
     legal (sc_clock s) \<and> sorted_wrt (before s) (evs (sc_queue s)) \<and> (\<forall>e\<in>set (evs (sc_queue s)). ev_uid (sc_event s e) < sc_uid s)"

definition due :: "'q sched \<Rightarrow> bool" where
  "due s \<longleftrightarrow> (\<forall>e\<in>set (evs (sc_queue s)). sc_clock s \<le> sc_time s e)"

lemma schedule_sim:
  assumes g: "good s" and r: "room (sc_queue s) (Suc n)" and la: "lawful legal (Schedule h e d)"
  shows "case sched_schedule ops h e d s of
      Inl x \<Rightarrow> sched_schedule list_ops h e d (sched_map evs s) = Inl x
    | Inr s' \<Rightarrow> sched_schedule list_ops h e d (sched_map evs s) = Inr (sched_map evs s') \<and> good s' \<and> room (sc_queue s') n \<and>
        (0 \<le> d \<longrightarrow> due s \<longrightarrow> due s')"
proof (cases "h = None \<or> ev_uid (sc_event s e) > 0")
  case True
  then show ?thesis by (auto simp: sched_schedule_def)
next
  case False
  let ?ev = "\<lparr> ev_time = sc_clock s + d, ev_uid = sc_uid s, ev_handler = h \<rparr>"
  let ?s1 = "s\<lparr>sc_uid := sc_uid s + 1, sc_event := (sc_event s)(e := ?ev)\<rparr>"
  have e: "e \<notin> set (evs (sc_queue s))" and ok: "ok (sc_queue s) (sc_time s)" and uid: "0 < sc_uid s"
    using g False by (auto simp: good_def)
  have same: "\<forall>x\<in>set (evs (sc_queue s)). sc_time ?s1 x = sc_time s x" using e by (auto simp: sc_time_def)
  have "legal (sc_time ?s1 e)" using la g by (simp add: lawful_def good_def sc_time_def)
  then obtain q' where q': "q_insert ops (sc_time ?s1) e (sc_queue s) = Inr q'" "ok q' (sc_time ?s1)"
    "evs q' = list_insert (sc_time ?s1) e (evs (sc_queue s))" "room q' n"
    using insert_ok[OF ok r e same] by blast
  let ?s' = "?s1\<lparr>sc_queue := q'\<rparr>"
  have run: "sched_schedule ops h e d s = Inr ?s'" using False uid q'(1) by (simp add: sched_schedule_def Let_def)
  have ins: "ok (sc_queue ?s') (sc_time ?s1)" "evs (sc_queue ?s') = list_insert (sc_time ?s1) e (evs (sc_queue s))"
    "room (sc_queue ?s') n"
    using q' by simp_all
  have tm: "sc_time ?s' = sc_time ?s1" by (simp add: sc_time_def fun_eq_iff)
  have "sched_schedule list_ops h e d (sched_map evs s) = Inr (sched_map evs ?s')"
    using False uid ins(2) by (auto simp: sched_schedule_def Let_def sched_map_def sc_time_def[abs_def])
  moreover
  define s' where "s' = ?s'"
  have te: "sc_time s' e = sc_clock s + d" "ev_uid (sc_event s' e) = sc_uid s" "sc_clock s' = sc_clock s" "sc_uid s' = sc_uid s + 1"
    by (simp_all add: s'_def sc_time_def)
  have tx: "sc_time s' x = sc_time s x" "ev_uid (sc_event s' x) = ev_uid (sc_event s x)" if "x \<noteq> e" for x
    using that by (simp_all add: s'_def sc_time_def)
  have ev: "evs (sc_queue s') = list_insert (sc_time s') e (evs (sc_queue s))" using ins(2) by (simp add: s'_def tm)
  have old: "ev_uid (sc_event s x) < sc_uid s" "x \<noteq> e" if "x \<in> set (evs (sc_queue s))" for x
    using that g e by (auto simp: good_def)
  have "sorted_wrt (before s) (evs (sc_queue s))" using g by (simp add: good_def)
  then have so: "sorted_wrt (before s') (evs (sc_queue s))"
    by (rule sorted_wrt_mono_rel[rotated]) (simp add: before_iff tx old)
  have "if sc_time s' e < sc_time s' x then before s' e x else before s' x e" if "x \<in> set (evs (sc_queue s))" for x
    using old[OF that] tx[OF old(2)[OF that]] te by (auto simp: before_iff)
  then have ne: "\<forall>x\<in>set (evs (sc_queue s)). if sc_time s' e < sc_time s' x then before s' e x else before s' x e"
    by blast
  have "sorted_wrt (before s') (list_insert (sc_time s') e (evs (sc_queue s)))"
    by (rule list_insert_before[OF so _ ne]) (auto simp: before_iff)
  moreover have "ev_uid (sc_event s' x) < sc_uid s + 1" if "x \<in> insert e (set (evs (sc_queue s)))" for x
    using that old[of x] tx(2)[of x] te(2) by (cases "x = e") auto
  ultimately have o: "sched_schedule list_ops h e d (sched_map evs s) = Inr (sched_map evs ?s')"
    "sorted_wrt (before ?s') (evs (sc_queue ?s'))" "\<forall>x\<in>set (evs (sc_queue ?s')). ev_uid (sc_event ?s' x) < sc_uid ?s'"
    unfolding s'_def[symmetric] te(4) ev by simp_all
  have "good ?s'"
    using g ins(1,2) uid e o(2,3) unfolding good_def tm by (auto simp: good_def)
  moreover have "due ?s'" if d: "0 \<le> d" and du: "due s"
  proof -
    have "sc_clock s \<le> sc_time s' x" if "x \<in> insert e (set (evs (sc_queue s)))" for x
      using that tx(1)[of x] te(1) d du by (cases "x = e") (auto simp: due_def)
    then have "due s'" unfolding due_def ev te(3) by simp
    then show ?thesis by (simp add: s'_def)
  qed
  ultimately show ?thesis using run ins(3) o(1) by simp
qed

text \<open>Taking an event out of the queue and clearing its number.\<close>

definition taken :: "nat \<Rightarrow> 'q \<Rightarrow> 'q sched \<Rightarrow> 'q sched" where
  "taken e q s = s\<lparr>sc_queue := q, sc_event := (sc_event s)(e := (sc_event s e)\<lparr>ev_uid := - ev_uid (sc_event s e)\<rparr>)\<rparr>"

lemma taken_simps [simp]:
  "sc_queue (taken e q s) = q" "sc_clock (taken e q s) = sc_clock s" "sc_uid (taken e q s) = sc_uid s"
  "sc_time (taken e q s) = sc_time s" "sc_halted (taken e q s) = sc_halted s"
  "ev_uid (sc_event (taken e q s) x) = (if x = e then - ev_uid (sc_event s x) else ev_uid (sc_event s x))"
  by (auto simp: taken_def sc_time_def fun_eq_iff)

lemma taken_ok:
  assumes g: "good s" and e: "e \<in> set (evs (sc_queue s))" and q: "ok q (sc_time s)"
    "evs q = filter (\<lambda>x. x \<noteq> e) (evs (sc_queue s))"
  shows "good (taken e q s)" and "due s \<Longrightarrow> due (taken e q s)"
proof -
  have "\<not> ev_uid (sc_event s e) < 0" using g e order.asym unfolding good_def by blast
  moreover have "sorted_wrt (before s) (evs q)" using g q(2) by (simp add: good_def sorted_wrt_filter)
  then have "sorted_wrt (before (taken e q s)) (evs q)"
    by (rule sorted_wrt_mono_rel[rotated]) (auto simp: before_iff q(2))
  ultimately show "good (taken e q s)" using g q by (auto simp: good_def)
  show "due (taken e q s)" if "due s" using that q(2) by (auto simp: due_def)
qed

lemma act_sim:
  assumes g: "good s" and r: "room (sc_queue s) (Suc n)" and la: "lawful legal a"
  shows "case sched_act ops a s of
      Inl x \<Rightarrow> sched_act list_ops a (sched_map evs s) = Inl x
    | Inr s' \<Rightarrow> sched_act list_ops a (sched_map evs s) = Inr (sched_map evs s') \<and> good s' \<and> room (sc_queue s') n \<and>
        ((\<forall>h e d. a = Schedule h e d \<longrightarrow> 0 \<le> d) \<longrightarrow> due s \<longrightarrow> due s')"
proof (cases a)
  case (Schedule h e d)
  then show ?thesis using schedule_sim[OF g r, of h e d] la by (auto split: sum.splits)
next
  case (Cancel e)
  show ?thesis
  proof (cases "ev_uid (sc_event s e) \<le> 0")
    case True
    then show ?thesis using Cancel g room_less[OF r] by (simp add: sched_cancel_def)
  next
    case False
    then have e: "e \<in> set (evs (sc_queue s))" and ok: "ok (sc_queue s) (sc_time s)"
      using g unfolding good_def by (meson not_le, blast)
    obtain q where q: "q_cancel ops (sc_time s) (sc_uid_of s) e (sc_queue s) = Inr q" "ok q (sc_time s)"
      "evs q = filter (\<lambda>x. x \<noteq> e) (evs (sc_queue s))" "\<forall>n. room (sc_queue s) n \<longrightarrow> room q n"
      using cancel_ok[OF ok e, of "sc_uid_of s"] g unfolding good_def before_def by blast
    have run: "sched_cancel ops e s = Inr (taken e q s)" using False q(1) by (simp add: sched_cancel_def taken_def)
    have "list_cancel e (evs (sc_queue s)) = Inr (evs q)" using list_cancel_ok[OF ok_distinct[OF ok] e] q(3) by simp
    then have "sched_cancel list_ops e (sched_map evs s) = Inr (sched_map evs (taken e q s))"
      using False by (simp add: sched_cancel_def taken_def sched_map_def)
    then show ?thesis using Cancel run taken_ok[OF g e q(2,3)] q(4) room_less[OF r] by simp
  qed
next
  case Halt
  have "sc_time (s\<lparr>sc_halted := True\<rparr>) = sc_time s" by (simp add: sc_time_def fun_eq_iff)
  then show ?thesis using Halt g room_less[OF r] by (simp add: sched_map_def good_def due_def)
qed

lemma acts_sim:
  assumes "good s" and "room (sc_queue s) (length as + n)" and "list_all (lawful legal) as"
  shows "case sched_acts ops as s of
      Inl x \<Rightarrow> sched_acts list_ops as (sched_map evs s) = Inl x
    | Inr s' \<Rightarrow> sched_acts list_ops as (sched_map evs s) = Inr (sched_map evs s') \<and> good s' \<and> room (sc_queue s') n"
  using assms
proof (induction as arbitrary: s)
  case (Cons a as)
  have r: "room (sc_queue s) (Suc (length as + n))" and la: "lawful legal a" using Cons.prems(2,3) by simp_all
  show ?case
  proof (cases "sched_act ops a s")
    case (Inl x)
    then show ?thesis using act_sim[OF Cons.prems(1) r la] by simp
  next
    case (Inr s1)
    then have "sched_act list_ops a (sched_map evs s) = Inr (sched_map evs s1)" "good s1" "room (sc_queue s1) (length as + n)"
      using act_sim[OF Cons.prems(1) r la] by simp_all
    then show ?thesis using Inr Cons.IH[of s1] Cons.prems(3) by (cases "sched_acts ops as s1") simp_all
  qed
qed simp

lemma deque_taken:
  assumes g: "good s" and d: "q_deque ops (sc_queue s) = Inr (Some e, q)"
  shows "evs (sc_queue s) = e # evs q" and "good (taken e q s)" and "due s \<Longrightarrow> due (taken e q s)"
    and "room (sc_queue s) n \<Longrightarrow> room q n" and "e \<notin> set (evs q)"
proof -
  have ok: "ok (sc_queue s) (sc_time s)" using g by (simp add: good_def)
  obtain q' where q': "evs (sc_queue s) = e # evs q" "ok q (sc_time s)" "\<forall>n. room (sc_queue s) n \<longrightarrow> room q n"
    using deque_ok[OF ok] d by (cases "evs (sc_queue s)") auto
  have dist: "distinct (e # evs q)" using ok_distinct[OF ok] q'(1) by simp
  then have f: "evs q = filter (\<lambda>x. x \<noteq> e) (evs (sc_queue s))" using q'(1) by (auto simp: filter_id_conv intro!: filter_True[symmetric])
  show "evs (sc_queue s) = e # evs q" "room (sc_queue s) n \<Longrightarrow> room q n" "e \<notin> set (evs q)" using q' dist by auto
  show "good (taken e q s)" "due s \<Longrightarrow> due (taken e q s)"
    using taken_ok[OF g _ q'(2) f] q'(1) by simp_all
qed

lemma dispatch_taken:
  "sched_dispatch e (s\<lparr>sc_queue := q\<rparr>) = (if sc_time s e < sc_clock s then Inl Abort
     else Inr ((taken e q s)\<lparr>sc_clock := sc_time s e\<rparr>))"
  by (simp add: sched_dispatch_def taken_def sc_time_def)

lemma good_clock:
  assumes "good s" and "legal t"
  shows "good (s\<lparr>sc_clock := t\<rparr>)"
proof -
  have "sc_time (s\<lparr>sc_clock := t\<rparr>) = sc_time s" by (simp add: sc_time_def fun_eq_iff)
  then show ?thesis using assms by (simp add: good_def)
qed

lemma run_sim:
  assumes "good s" and "room (sc_queue s) (n * k)" and "\<forall>tr. length (beh tr) \<le> k \<and> list_all (lawful legal) (beh tr)"
  shows "case sched_run ops beh n tr s of
      Inl x \<Rightarrow> sched_run list_ops beh n tr (sched_map evs s) = Inl x
    | Inr (tr', s') \<Rightarrow> sched_run list_ops beh n tr (sched_map evs s) = Inr (tr', sched_map evs s')"
  using assms(1,2)
proof (induction n arbitrary: tr s)
  case (Suc n)
  have ok: "ok (sc_queue s) (sc_time s)" using Suc.prems(1) by (simp add: good_def)
  have less: "room q (a + b) \<Longrightarrow> room q b" for q a b by (induction a) (auto dest: room_less)
  show ?case
  proof (cases "sc_halted s")
    case False
    show ?thesis
    proof (cases "evs (sc_queue s)")
      case Nil
      then show ?thesis using deque_ok[OF ok] False by (simp add: sched_map_def)
    next
      case (Cons e es)
      obtain q where q: "q_deque ops (sc_queue s) = Inr (Some e, q)" "evs q = es" using deque_ok[OF ok] Cons by auto
      note t = deque_taken[OF Suc.prems(1) q(1)]
      let ?s1 = "(taken e q s)\<lparr>sc_clock := sc_time s e\<rparr>" and ?tr = "tr @ [(e, sc_time s e)]"
      have ldeq: "list_deque (evs (sc_queue s)) = (Some e, evs q)" using Cons q(2) by simp
      have ldis: "sched_dispatch e ((sched_map evs s)\<lparr>sc_queue := evs q\<rparr>) =
          (if sc_time s e < sc_clock s then Inl Abort else Inr (sched_map evs ?s1))"
        by (simp add: sched_dispatch_def sc_time_def sched_map_def taken_def)
      show ?thesis
      proof (cases "sc_time s e < sc_clock s")
        case True
        then show ?thesis using False q(1) ldeq ldis by (simp add: dispatch_taken)
      next
        case nb: False
        have la: "list_all (lawful legal) (beh ?tr)" using assms(3) by blast
        have "legal (sc_time s e)" using ok_legal[OF ok] t(1) by simp
        then have g1: "good ?s1" using good_clock[OF t(2)] by simp
        have "room (sc_queue s) (k + n * k)" using Suc.prems(2) by simp
        then have r0: "room q (k + n * k)" by (rule t(4))
        have "room q ((k - length (beh ?tr)) + (length (beh ?tr) + n * k))" using r0 assms(3) by (simp add: algebra_simps)
        then have r1: "room (sc_queue ?s1) (length (beh ?tr) + n * k)" using less by simp
        show ?thesis
        proof (cases "sched_acts ops (beh ?tr) ?s1")
          case (Inl x)
          then show ?thesis using acts_sim[OF g1 r1 la] False nb q(1) ldeq ldis by (simp add: dispatch_taken)
        next
          case (Inr s2)
          then have s2: "sched_acts list_ops (beh ?tr) (sched_map evs ?s1) = Inr (sched_map evs s2)" "good s2"
            "room (sc_queue s2) (n * k)"
            using acts_sim[OF g1 r1 la] by simp_all
          from Suc.IH[OF s2(2,3), of ?tr] show ?thesis
            using Inr False nb q(1) ldeq ldis s2(1)
            by (cases "sched_run ops beh n ?tr s2") (auto simp: dispatch_taken)
        qed
      qed
    qed
  qed (use Suc.prems in simp)
qed simp

lemma reach_ok:
  assumes "sched_reach ops q0 n s" and "evs q0 = []" and "ok q0 (\<lambda>_. 0)" and "room q0 N" and "n \<le> N"
  shows "good s \<and> due s \<and> room (sc_queue s) (N - n)"
  using assms
proof (induction rule: sched_reach.induct)
  case start
  then show ?case using legal_0 by (simp add: good_def due_def new_Scheduler_def sc_time_def[abs_def])
next
  case (act n s a s')
  then have s: "good s" "due s" "room (sc_queue s) (N - n)" by simp_all
  have "room (sc_queue s) (Suc (N - Suc n))"
  proof -
    have "Suc (N - Suc n) = N - n" using act.prems(4) by simp
    with s(3) show ?thesis by (simp only:)
  qed
  from act_sim[OF s(1) this, of a] show ?case using act.hyps(2,3) s(2) legal_later by (simp add: lawful_def)
next
  case (dispatch n s e q s')
  then have s: "good s" "due s" "room (sc_queue s) (N - n)" by simp_all
  note t = deque_taken[OF s(1) dispatch.hyps(2)]
  have s': "s' = (taken e q s)\<lparr>sc_clock := sc_time s e\<rparr>"
    using dispatch.hyps(3) by (simp add: dispatch_taken split: if_splits)
  have tm: "sc_time s' = sc_time s" by (simp add: s' sc_time_def fun_eq_iff taken_def)
  have "due s'"
  proof -
    have "sorted_wrt (before s) (e # evs q)" using s(1) t(1) by (simp add: good_def)
    then have "sc_time s e \<le> sc_time s x" if "x \<in> set (evs q)" for x
      using that by (auto simp: before_iff)
    then show ?thesis by (simp add: due_def tm) (simp add: s')
  qed
  moreover have "ok (sc_queue s) (sc_time s)" using s(1) by (simp add: good_def)
  then have "legal (sc_time s e)" by (rule ok_legal) (simp add: t(1))
  ultimately show ?case using good_clock[OF t(2)] t(4)[OF s(3)] by (simp add: s')
next
  case (resume n s)
  have "sc_time (s\<lparr>sc_halted := False\<rparr>) = sc_time s" by (simp add: sc_time_def fun_eq_iff)
  then show ?case using resume by (simp add: good_def due_def)
qed

text \<open>A simulation runs like that of the linked list.\<close>

lemma simulate_sim:
  assumes q0: "evs q0 = []" "ok q0 (\<lambda>_. 0)" "room q0 (length init + n * k)"
    and beh: "\<forall>tr. length (beh tr) \<le> k \<and> list_all (lawful legal) (beh tr)" and init: "list_all (lawful legal) init"
  shows "simulate ops q0 init beh n = simulate list_ops [] init beh n"
proof -
  let ?s = "new_Scheduler q0"
  have g: "good ?s" "room (sc_queue ?s) (length init + n * k)"
    using reach_ok[OF sched_reach.start q0] q0(3) by (simp_all add: new_Scheduler_def)
  have m: "sched_map evs ?s = new_Scheduler []" using q0(1) by (simp add: sched_map_def new_Scheduler_def)
  show ?thesis
  proof (cases "sched_acts ops init ?s")
    case (Inl x)
    then show ?thesis using acts_sim[OF g init] by (simp add: simulate_def m)
  next
    case (Inr s1)
    then have s1: "sched_acts list_ops init (new_Scheduler []) = Inr (sched_map evs s1)" "good s1"
      "room (sc_queue s1) (n * k)" using acts_sim[OF g init] by (simp_all add: m)
    from run_sim[OF s1(2,3) beh, of "[]"] show ?thesis
      using Inr s1(1) by (cases "sched_run ops beh n [] s1") (auto simp: simulate_def)
  qed
qed

text \<open>What is dispatched next is due first, and the clock never goes back.\<close>

lemma deque_first:
  assumes "sched_reach ops q0 n s" and "evs q0 = []" and "ok q0 (\<lambda>_. 0)" and "room q0 n"
  shows "case q_deque ops (sc_queue s) of
      Inl x \<Rightarrow> False
    | Inr (None, q) \<Rightarrow> \<forall>x. ev_uid (sc_event s x) \<le> 0
    | Inr (Some e, q) \<Rightarrow> 0 < ev_uid (sc_event s e) \<and> (\<forall>x. x \<noteq> e \<longrightarrow> 0 < ev_uid (sc_event s x) \<longrightarrow> before s e x) \<and>
        (\<exists>s'. sched_dispatch e (s\<lparr>sc_queue := q\<rparr>) = Inr s' \<and> sc_clock s \<le> sc_clock s' \<and> sc_clock s' = sc_time s e)"
proof -
  have s: "good s" "due s" using reach_ok[OF assms order_refl] by simp_all
  then have ok: "ok (sc_queue s) (sc_time s)" by (simp add: good_def)
  show ?thesis
  proof (cases "evs (sc_queue s)")
    case Nil
    then show ?thesis using deque_ok[OF ok] s(1) by (auto simp: good_def not_less[symmetric])
  next
    case (Cons e es)
    obtain q where q: "q_deque ops (sc_queue s) = Inr (Some e, q)" using deque_ok[OF ok] Cons by auto
    have pend: "0 < ev_uid (sc_event s x) \<longleftrightarrow> x = e \<or> x \<in> set es" for x using s(1) Cons by (auto simp: good_def)
    have "sc_clock s \<le> sc_time s e" "\<forall>x\<in>set es. before s e x" using s Cons by (auto simp: due_def good_def)
    then show ?thesis using q pend by (auto simp: dispatch_taken)
  qed
qed

end

subsection \<open>The properties\<close>

lemma new_heap_sched:
  "heap_evs (new_Heap sz) = []" "heap_times (new_Heap sz) tm" "n < 2 ^ 32 \<Longrightarrow> heap_room (new_Heap sz) n"
  using new_Heap_ok by (simp_all add: heap_evs_def heap_times_def heap_room_def) (simp_all add: new_Heap_def)

text \<open>C18: The heap scheduler and the list scheduler run every simulation alike: with the same
  initial actions and handlers that behave alike they dispatch the same events at the
  same times, or stop with the same error, as long as fewer than \<^verbatim>\<open>2^32\<close> actions are
  taken.\<close>

theorem heap_is_list_scheduler:
  assumes "\<forall>tr. length (beh tr) \<le> k" and "length init + n * k < 2 ^ 32"
  shows "simulate heap_ops (new_Heap 32) init beh n = simulate list_ops [] init beh n"
  by (rule hq.simulate_sim[OF new_heap_sched(1,2) new_heap_sched(3)[OF assms(2)]]) (use assms(1) in simp_all)

text \<open>After any history of fewer than \<^verbatim>\<open>2^32\<close> actions with delays that are not negative, the
  heap scheduler takes an event that is pending and due before every other pending
  one, with ties in the order of scheduling; dispatching it never fails, and moves the
  clock to the event's time, never backwards.  When it takes none, none is pending.\<close>

theorem heap_dispatches_earliest:
  assumes "sched_reach heap_ops (new_Heap 32) n s" and "n < 2 ^ 32"
  shows "case heap_extract_min (sc_queue s) of
      (None, q) \<Rightarrow> \<forall>x. ev_uid (sc_event s x) \<le> 0
    | (Some e, q) \<Rightarrow> 0 < ev_uid (sc_event s e) \<and>
        (\<forall>x. x \<noteq> e \<longrightarrow> 0 < ev_uid (sc_event s x) \<longrightarrow> sc_time s e < sc_time s x \<or>
           sc_time s e = sc_time s x \<and> ev_uid (sc_event s e) < ev_uid (sc_event s x)) \<and>
        (\<exists>s'. sched_dispatch e (s\<lparr>sc_queue := q\<rparr>) = Inr s' \<and> sc_clock s \<le> sc_clock s' \<and> sc_clock s' = sc_time s e)"
  using hq.deque_first[OF assms(1) new_heap_sched(1,2) new_heap_sched(3)[OF assms(2)]]
  unfolding before_iff by (simp add: heap_ops_def)

text \<open>The same for the linked list, without a bound.\<close>

theorem list_dispatches_earliest:
  assumes "sched_reach list_ops [] n s"
  shows "case sc_queue s of
      [] \<Rightarrow> \<forall>x. ev_uid (sc_event s x) \<le> 0
    | e # q \<Rightarrow> 0 < ev_uid (sc_event s e) \<and>
        (\<forall>x. x \<noteq> e \<longrightarrow> 0 < ev_uid (sc_event s x) \<longrightarrow> sc_time s e < sc_time s x \<or>
           sc_time s e = sc_time s x \<and> ev_uid (sc_event s e) < ev_uid (sc_event s x)) \<and>
        (\<exists>s'. sched_dispatch e (s\<lparr>sc_queue := q\<rparr>) = Inr s' \<and> sc_clock s \<le> sc_clock s' \<and> sc_clock s' = sc_time s e)"
  using lq.deque_first[OF assms] by (cases "sc_queue s") (simp_all add: before_iff)

text \<open>The counter of insertions has 32 bits, though the place for it in an element has more:
  when it has wrapped around, the later of two events of the same time comes first.\<close>

theorem heap_counter_wraps:
  assumes "h_elems h = []" and "h_s_key h = -1"
  shows "fst (heap_extract_min (heap_insert t b (heap_insert t a h))) = Some b"
proof -
  let ?a = "\<lparr> he_key = t, he_s_key = -1, he_elem = a \<rparr>" and ?b = "\<lparr> he_key = t, he_s_key = 0, he_elem = b \<rparr>"
  have a: "sift_up ?a 0 [?a] = [?a]" by (simp add: sift_up.simps)
  have lt: "(0 :: u32) < -1" using word_gt_0[of "-1 :: u32"] by simp
  have p: "parent (Suc 0) = 0" by (simp add: parent_def)
  have "sift_up ?b 1 [?a, ?b] = sift_up ?b 0 [?a, ?a]"
    by (subst sift_up.simps) (simp add: p KEY_LESS_THAN_def lt)
  also have "\<dots> = [?b, ?a]" by (subst sift_up.simps) simp
  finally have b: "sift_up ?b 1 [?a, ?b] = [?b, ?a]" .
  have 1: "h_elems (heap_insert t a h) = [?a]" "h_s_key (heap_insert t a h) = 0"
    using a assms by (simp_all add: heap_insert_def Let_def)
  have "h_elems (heap_insert t b (heap_insert t a h)) = [?b, ?a]"
    using b 1 by (simp add: heap_insert_def[of t b] Let_def)
  then show ?thesis by (simp add: heap_extract_min_def)
qed

subsection \<open>Examples\<close>

lemma heap_is_list_scheduler_witness:
  "simulate heap_ops (new_Heap 32) [Schedule (Some 0) 1 2, Schedule (Some 0) 2 2, Schedule (Some 0) 3 1, Cancel 2] (\<lambda>_. []) 3 =
     Inr ([(3, 1), (1, 2)], 2)"
proof -
  have "simulate list_ops [] [Schedule (Some 0) 1 2, Schedule (Some 0) 2 2, Schedule (Some 0) 3 1, Cancel 2] (\<lambda>_. []) 3 =
     Inr ([(3, 1), (1, 2)], 2)"
    by (simp add: simulate_def new_Scheduler_def sched_schedule_def sched_cancel_def sc_time_def sched_dispatch_def
        eval_nat_numeral Let_def del: bind_r_eq_Inr)
  then show ?thesis
    using heap_is_list_scheduler[of "\<lambda>_. []" 0 "[Schedule (Some 0) 1 2, Schedule (Some 0) 2 2, Schedule (Some 0) 3 1, Cancel 2]" 3]
    by simp
qed

lemma heap_dispatches_earliest_witness:
  "\<exists>s. sched_act heap_ops (Schedule (Some 0) 5 3) (new_Scheduler (new_Heap 32)) = Inr s \<and> fst (heap_extract_min (sc_queue s)) = Some 5"
proof -
  obtain s where s: "sched_act heap_ops (Schedule (Some 0) 5 3) (new_Scheduler (new_Heap 32)) = Inr s" "0 < ev_uid (sc_event s 5)"
    "\<forall>x. x \<noteq> 5 \<longrightarrow> ev_uid (sc_event s x) = 0"
    by (simp add: sched_schedule_def new_Scheduler_def Let_def heap_ops_def)
  have "sched_reach heap_ops (new_Heap 32) (Suc 0) s" by (rule sched_reach.act[OF sched_reach.start s(1)]) simp
  note first = heap_dispatches_earliest[OF this]
  have "fst (heap_extract_min (sc_queue s)) = Some 5"
  proof (cases "fst (heap_extract_min (sc_queue s))")
    case None
    then have "ev_uid (sc_event s 5) \<le> 0" using first by (cases "heap_extract_min (sc_queue s)") simp
    then show ?thesis using s(2) by simp
  next
    case (Some e)
    then have "0 < ev_uid (sc_event s e)" using first by (cases "heap_extract_min (sc_queue s)") simp
    then show ?thesis using Some s(3) by fastforce
  qed
  then show ?thesis using s(1) by blast
qed

lemma list_dispatches_earliest_witness:
  "\<exists>s. sched_act list_ops (Schedule (Some 0) 5 3) (new_Scheduler []) = Inr s \<and> sc_queue s = [5] \<and> 0 < ev_uid (sc_event s 5)"
proof -
  obtain s where s: "sched_act list_ops (Schedule (Some 0) 5 3) (new_Scheduler []) = Inr s" "sc_queue s = [5]"
    by (simp add: sched_schedule_def new_Scheduler_def Let_def)
  have "sched_reach list_ops [] (Suc 0) s" by (rule sched_reach.act[OF sched_reach.start s(1)]) simp
  from list_dispatches_earliest[OF this] s show ?thesis by simp
qed

lemma heap_counter_wraps_witness:
  "fst (heap_extract_min (heap_insert 1 8 (heap_insert 1 7 \<lparr> h_elems = [], h_s_key = -1, h_maxsize = 32 \<rparr>))) = Some 8"
  by (rule heap_counter_wraps) simp_all

end
