(* ===== verification/CalendarQueue.thy ===== *)
theory CalendarQueue
  imports Scheduler
begin

text \<open>
  The calendar queue (\<^verbatim>\<open>common/scheduler.cc\<close>), the scheduler that the simulator uses unless a
  script chooses another: events are hashed by time into buckets, the days of a year; the
  queue grows and shrinks with the number of events, and adapts the length of a day.  An event
  in the queue is its time and its number; a bucket, a circular list in the code, is a list
  whose head is \<^verbatim>\<open>list_\<close> and whose last element is \<^verbatim>\<open>list_->prev_\<close>.  \<^verbatim>\<open>sq\<close> stands for \<^verbatim>\<open>sqrt\<close>.
\<close>

type_synonym ulong = "64 word"
type_synonym cal_event = "rat \<times> nat"

record bucket =
  b_list :: "cal_event list"
  b_count :: int

record calendar =
  min_bin_width :: rat
  adjust_new_width_interval :: u32
  time_to_newwidth :: u32
  head_search :: ulong
  insert_search :: ulong
  round_num :: int
  gap_num :: int
  last_time :: rat
  avg_gap :: rat
  cal_width :: rat
  diff0 :: rat
  diff1 :: rat
  diff2 :: rat
  stat_qsize :: int
  nbuckets :: int
  lastbucket :: int
  top_threshold :: int
  bot_threshold :: int
  buckets :: "bucket list"
  cal_qsize :: int
  cal_clock :: rat

definition c_fmod :: "rat \<Rightarrow> rat \<Rightarrow> rat" where
  "c_fmod x y = x - y * of_int (int_of_double (x / y))"

definition CALENDAR_HASH :: "rat \<Rightarrow> calendar \<Rightarrow> int result" where
  "CALENDAR_HASH t c = (if cal_width c = 0 \<or> nbuckets c = 0 then Inl DivByZero
     else Inr (int_of_double (c_fmod (t / cal_width c) (of_int (nbuckets c)))))"

definition put_bucket :: "int \<Rightarrow> bucket \<Rightarrow> calendar \<Rightarrow> calendar" where
  "put_bucket i b c = c\<lparr>buckets := (buckets c)[nat i := b]\<rparr>"

definition reinit :: "int \<Rightarrow> rat \<Rightarrow> rat \<Rightarrow> calendar \<Rightarrow> calendar result" where
  "reinit nbuck bwidth start c =
    (if nbuck < 0 then Inl Abort
     else (let c1 = c\<lparr>buckets := replicate (nat nbuck) \<lparr> b_list = [], b_count = 0 \<rparr>, cal_width := bwidth, nbuckets := nbuck,
             cal_qsize := 0, stat_qsize := 0\<rparr>
       in bind_r (CALENDAR_HASH start c1) (\<lambda>l.
         Inr (c1\<lparr>lastbucket := l, diff0 := bwidth * of_int nbuck / 2, diff1 := bwidth * of_int nbuck / 2 + bwidth,
           diff2 := bwidth * of_int nbuck, bot_threshold := nbuck div 2 - 2, top_threshold := nbuck * 2\<rparr>))))"

text \<open>The constructor with its two bound parameters.\<close>

definition new_Calendar :: "u32 \<Rightarrow> rat \<Rightarrow> calendar result" where
  "new_Calendar adj minw = reinit 4 1 0
    \<lparr> min_bin_width = minw, adjust_new_width_interval = adj, time_to_newwidth = adj, head_search = 0, insert_search = 0,
      round_num = 0, gap_num = 0, last_time = -2, avg_gap = -2, cal_width = 0, diff0 = 0, diff1 = 0, diff2 = 0, stat_qsize = 0,
      nbuckets = 0, lastbucket = 0, top_threshold = 0, bot_threshold = 0, buckets = [], cal_qsize = 0, cal_clock = 0 \<rparr>"

text \<open>\<^verbatim>\<open>insert2\<close> puts an event before those of the same time.\<close>

definition insert2 :: "cal_event \<Rightarrow> calendar \<Rightarrow> calendar result" where
  "insert2 e c =
    bind_r (CALENDAR_HASH (fst e) c) (\<lambda>i. bind_r (arr_at i (buckets c)) (\<lambda>b.
      let xs = b_list b;
          ys = (if xs \<noteq> [] \<and> fst e > fst (last xs) then xs else takeWhile (\<lambda>x. fst e > fst x) xs);
          zs = drop (length ys) xs;
          next = (if zs = [] then hd (xs @ [e]) else hd zs);
          one = (if xs = [] \<or> fst next \<noteq> fst e then 1 else 0)
      in Inr ((put_bucket i \<lparr> b_list = ys @ e # zs, b_count = b_count b + one \<rparr> c)\<lparr>stat_qsize := stat_qsize c + one,
           cal_qsize := cal_qsize c + 1\<rparr>)))"

fun insert2_all :: "cal_event list \<Rightarrow> calendar \<Rightarrow> calendar result" where
  "insert2_all [] c = Inr c"
| "insert2_all (e # es) c = bind_r (insert2 e c) (insert2_all es)"

text \<open>\<^verbatim>\<open>newwidth\<close> takes samples from the fullest bucket.\<close>

definition fullest :: "bucket list \<Rightarrow> nat" where
  "fullest bs = fold (\<lambda>i m. if b_count (bs ! i) > b_count (bs ! m) then i else m) [1..<length bs] 0"

definition newwidth :: "int \<Rightarrow> calendar \<Rightarrow> (rat \<times> calendar) result" where
  "newwidth newsize c =
    (let c1 = (if adjust_new_width_interval c \<noteq> 0 then c\<lparr>time_to_newwidth := adjust_new_width_interval c\<rparr> else c) in
     if adjust_new_width_interval c \<noteq> 0 \<and> avg_gap c > 0 then Inr (avg_gap c * 4, c1)
     else bind_r (arr_at (int (fullest (buckets c1))) (buckets c1)) (\<lambda>b.
       let nsamples = b_count b in
       if nsamples \<le> 4 then Inr (cal_width c1, c1)
       else case b_list b of [] \<Rightarrow> Inl NullDeref
       | x # xs \<Rightarrow>
           (let nw = fst (last (x # xs)) - fst x; m = (if newsize < nsamples then newsize else nsamples) in
            if \<not> nw > 0 then Inl AssertFail
            else if m = 0 then Inl DivByZero
            else Inr (nw / of_int m * 4, c1))))"

text \<open>\<^verbatim>\<open>resize\<close>: the new size and width, or nothing when the width is too small; then the events are
  moved, each bucket from its tail.\<close>

definition resize_plan :: "(rat \<Rightarrow> rat) \<Rightarrow> int \<Rightarrow> calendar \<Rightarrow> ((int \<times> rat) option \<times> calendar) result" where
  "resize_plan sq newsize c =
    (if newsize = nbuckets c then
       (let bw0 = (if head_search c \<noteq> 0 then of_nat (unat (head_search c)) else 1);
            bw1 = (if insert_search c \<noteq> 0 then bw0 / of_nat (unat (insert_search c)) else bw0);
            bw = sq bw1 * cal_width c
        in if bw < min_bin_width c then
             if time_to_newwidth c > 0
             then Inr (None, c\<lparr>time_to_newwidth := time_to_newwidth c - 1, head_search := 0, insert_search := 0, round_num := 0\<rparr>)
             else bind_r (newwidth newsize c) (\<lambda>(bw', c'). Inr (Some (newsize, bw'), c'))
           else Inr (Some (newsize, bw), c))
     else bind_r (newwidth newsize c) (\<lambda>(bw', c'). Inr (Some (if newsize < 4 then 4 else newsize, bw'), c')))"

definition resize :: "(rat \<Rightarrow> rat) \<Rightarrow> int \<Rightarrow> rat \<Rightarrow> calendar \<Rightarrow> calendar result" where
  "resize sq newsize start c =
    bind_r (resize_plan sq newsize c) (\<lambda>(plan, c1). case plan of None \<Rightarrow> Inr c1
      | Some (n, bw) \<Rightarrow>
          bind_r (reinit n bw start c1) (\<lambda>c2.
          bind_r (insert2_all (concat (List.map (\<lambda>b. rev (b_list b)) (buckets c1))) c2) (\<lambda>c3.
            Inr (c3\<lparr>head_search := 0, insert_search := 0, round_num := 0\<rparr>))))"

text \<open>The search of \<^verbatim>\<open>insert\<close> in a bucket: behind the last event that is not later.\<close>

definition insert_search_step :: "cal_event \<Rightarrow> cal_event list \<Rightarrow> calendar \<Rightarrow> (cal_event list \<times> int \<times> calendar) result" where
  "insert_search_step e xs c1 = (case xs of
         [] \<Rightarrow> Inr ([e], 1, c1)
       | h # hs \<Rightarrow>
           (let c2 = c1\<lparr>insert_search := insert_search c1 + 1\<rparr> in
            if fst e < fst h then Inr (e # h # hs, 1, c2)
            else (let zs = takeWhile (\<lambda>x. fst e < fst x) (rev (h # hs)); ys = dropWhile (\<lambda>x. fst e < fst x) (rev (h # hs)) in
              Inr (rev ys @ e # rev zs, if fst (hd ys) < fst e then 1 else 0,
                   c2\<lparr>insert_search := insert_search c2 + of_nat (length zs)\<rparr>))))"

definition cal_insert :: "(rat \<Rightarrow> rat) \<Rightarrow> cal_event \<Rightarrow> calendar \<Rightarrow> calendar result" where
  "cal_insert sq e c =
    (let newtime = fst e in
     bind_r (if cal_clock c > newtime
             then bind_r (CALENDAR_HASH newtime c) (\<lambda>i. Inr (i, c\<lparr>cal_clock := newtime, lastbucket := i\<rparr>))
             else bind_r (CALENDAR_HASH newtime c) (\<lambda>i. Inr (i, c))) (\<lambda>(i, c1).
     bind_r (arr_at i (buckets c1)) (\<lambda>b.
     bind_r (insert_search_step e (b_list b) c1) (\<lambda>(xs, one, c2).
       let c3 = (put_bucket i \<lparr> b_list = xs, b_count = b_count b + one \<rparr> c2)\<lparr>stat_qsize := stat_qsize c2 + one,
             cal_qsize := cal_qsize c2 + 1\<rparr>
       in if stat_qsize c3 > top_threshold c3 then resize sq (nbuckets c3 * 2) (cal_clock c3) c3 else Inr c3))))"

text \<open>\<^verbatim>\<open>head\<close>: the macro \<^verbatim>\<open>CAL_DEQUEUE\<close> looks at one bucket; it returns the event that it takes, and
  otherwise goes on with the next bucket and the earliest event so far.\<close>

type_synonym scan = "int \<times> (cal_event \<times> int) option \<times> calendar"

fun CAL_DEQUEUE :: "rat \<Rightarrow> scan \<Rightarrow> ((cal_event \<times> int) option \<times> scan) result" where
  "CAL_DEQUEUE d (i, m, c) =
    (let c' = c\<lparr>head_search := head_search c + 1\<rparr>; i' = (if i + 1 = nbuckets c then 0 else i + 1) in
     bind_r (arr_at i (buckets c)) (\<lambda>b. case b_list b of
       [] \<Rightarrow> Inr (None, i', m, c')
     | e # _ \<Rightarrow>
         if fst e - cal_clock c < d then Inr (Some (e, i), i, m, c')
         else Inr (None, i', (case m of None \<Rightarrow> Some (e, i) | Some (e', l) \<Rightarrow> if fst e' > fst e then Some (e, i) else m), c')))"

fun scan_year :: "nat \<Rightarrow> int \<Rightarrow> scan \<Rightarrow> ((cal_event \<times> int) option \<times> scan) result" where
  "scan_year 0 dec st = Inl Loops"
| "scan_year (Suc n) dec st =
    (if fst st = dec then Inr (None, st)
     else bind_r (CAL_DEQUEUE (diff2 (snd (snd st))) st) (\<lambda>(found, st'). case found of
       Some x \<Rightarrow> Inr (Some x, st') | None \<Rightarrow> scan_year n dec st'))"

definition scan_then :: "((cal_event \<times> int) option \<times> scan) result \<Rightarrow>
    (scan \<Rightarrow> ((cal_event \<times> int) option \<times> scan) result) \<Rightarrow> ((cal_event \<times> int) option \<times> scan) result" where
  "scan_then r f = bind_r r (\<lambda>(found, st). case found of Some x \<Rightarrow> Inr (Some x, st) | None \<Rightarrow> f st)"

definition scan_last :: "scan \<Rightarrow> ((cal_event \<times> int) option \<times> scan) result" where
  "scan_last st = (case st of (i, m, c) \<Rightarrow>
     bind_r (arr_at i (buckets c)) (\<lambda>b. case (m, b_list b) of
       (Some (e', l), []) \<Rightarrow> Inr (Some (e', l), st)
     | (Some (e', l), e # _) \<Rightarrow> Inr (Some (if fst e' < fst e then (e', l) else (e, i)), st)
     | (None, []) \<Rightarrow> Inl NullDeref
     | (None, e # _) \<Rightarrow> Inr (Some (e, i), st)))"

definition cal_head :: "calendar \<Rightarrow> (cal_event option \<times> calendar) result" where
  "cal_head c =
    (if cal_qsize c = 0 then Inr (None, c)
     else (let dec = (if lastbucket c \<noteq> 0 then lastbucket c - 1 else nbuckets c - 1) in
       bind_r (scan_then (scan_then (scan_then (CAL_DEQUEUE (diff0 c) (lastbucket c, None, c)) (CAL_DEQUEUE (diff1 c)))
                (scan_year (Suc (nat (nbuckets c))) dec)) scan_last) (\<lambda>(found, _, _, c'). case found of
         None \<Rightarrow> Inl NullDeref
       | Some (e, l) \<Rightarrow> Inr (Some e, c'\<lparr>lastbucket := l, cal_clock := fst e\<rparr>))))"

text \<open>The measurement of the gaps between events, which adapts the width.\<close>

definition snoop :: "(rat \<Rightarrow> rat) \<Rightarrow> rat \<Rightarrow> calendar \<Rightarrow> calendar result" where
  "snoop sq t c =
    (if last_time c < 0 then Inr (c\<lparr>last_time := t\<rparr>)
     else (let g = gap_num c + 1; c1 = c\<lparr>gap_num := g\<rparr> in
       if g < cal_qsize c then Inr c1
       else if g = 0 then Inl DivByZero
       else (let c2 = c1\<lparr>avg_gap := (t - last_time c) / of_int g, gap_num := 0, last_time := t, round_num := round_num c + 1\<rparr> in
         if round_num c2 > 20 \<and> (head_search c2 > push_bit 1 (insert_search c2) \<or> insert_search c2 > push_bit 1 (head_search c2))
         then bind_r (resize sq (nbuckets c2) (cal_clock c2) c2) (\<lambda>c3. Inr (c3\<lparr>round_num := 0\<rparr>))
         else if round_num c2 > 100 then Inr (c2\<lparr>round_num := 0, head_search := 0, insert_search := 0\<rparr>)
         else Inr c2)))"

definition cal_deque :: "(rat \<Rightarrow> rat) \<Rightarrow> calendar \<Rightarrow> (cal_event option \<times> calendar) result" where
  "cal_deque sq c =
    bind_r (cal_head c) (\<lambda>(x, c1). case x of None \<Rightarrow> Inr (None, c1)
    | Some e \<Rightarrow>
        bind_r (if adjust_new_width_interval c1 \<noteq> 0 then snoop sq (fst e) c1 else Inr c1) (\<lambda>c2.
        bind_r (arr_at (lastbucket c2) (buckets c2)) (\<lambda>b. case b_list b of
          [] \<Rightarrow> Inl NullDeref
        | _ # xs \<Rightarrow>
            (let one = (if xs = [] \<or> fst (hd xs) \<noteq> fst e then 1 else 0);
                 c3 = (put_bucket (lastbucket c2) \<lparr> b_list = xs, b_count = b_count b - one \<rparr> c2)\<lparr>stat_qsize := stat_qsize c2 - one,
                   cal_qsize := cal_qsize c2 - 1\<rparr>
             in bind_r (if stat_qsize c3 < bot_threshold c3 then resize sq (nbuckets c3 div 2) (cal_clock c3) c3 else Inr c3) (\<lambda>c4.
               Inr (Some e, c4))))))"

text \<open>\<^verbatim>\<open>cancel\<close> of an event that is in the queue (else its pointers are null).\<close>

definition cal_cancel :: "cal_event \<Rightarrow> calendar \<Rightarrow> calendar result" where
  "cal_cancel e c =
    bind_r (CALENDAR_HASH (fst e) c) (\<lambda>i. bind_r (arr_at i (buckets c)) (\<lambda>b.
      let xs = b_list b; n = length xs; k = length (takeWhile (\<lambda>x. x \<noteq> e) xs) in
      if k = n then Inl NullDeref
      else (let one = (if n = 1 \<or> fst (xs ! ((k + 1) mod n)) \<noteq> fst e \<and> fst (xs ! ((k + n - 1) mod n)) \<noteq> fst e then 1 else 0);
                ys = take k xs @ drop (k + 1) xs
        in if one = 1 \<and> (stat_qsize c - 1 < 0 \<or> b_count b - 1 < 0) then Inl AssertFail
           else if b_count b - one = 0 \<and> ys \<noteq> [] then Inl AssertFail
           else Inr ((put_bucket i \<lparr> b_list = ys, b_count = b_count b - one \<rparr> c)\<lparr>stat_qsize := stat_qsize c - one,
             cal_qsize := cal_qsize c - 1\<rparr>))))"

definition cal_lookup :: "int \<Rightarrow> calendar sched \<Rightarrow> nat option" where
  "cal_lookup uid s = List.find (\<lambda>e. ev_uid (sc_event s e) = uid)
     (List.map snd (concat (List.map b_list (buckets (sc_queue s)))))"

definition calendar_ops :: "(rat \<Rightarrow> rat) \<Rightarrow> calendar queue_ops" where
  "calendar_ops sq = \<lparr> q_insert = (\<lambda>tm e. cal_insert sq (tm e, e)),
     q_deque = (\<lambda>c. bind_r (cal_deque sq c) (\<lambda>(x, c'). Inr (map_option snd x, c'))),
     q_cancel = (\<lambda>tm uid e. cal_cancel (tm e, e)) \<rparr>"

subsection \<open>Days\<close>

text \<open>The bucket of a time that is not negative is its day modulo the length of a year.\<close>

definition day :: "rat \<Rightarrow> calendar \<Rightarrow> int" where
  "day t c = \<lfloor>t / cal_width c\<rfloor>"

definition bucket_of :: "rat \<Rightarrow> calendar \<Rightarrow> int" where
  "bucket_of t c = day t c mod nbuckets c"

definition shape :: "calendar \<Rightarrow> bool" where
  "shape c \<longleftrightarrow> 0 < cal_width c \<and> 4 \<le> nbuckets c \<and> length (buckets c) = nat (nbuckets c) \<and>
     diff0 c = cal_width c * of_int (nbuckets c) / 2 \<and> diff1 c = cal_width c * of_int (nbuckets c) / 2 + cal_width c \<and>
     diff2 c = cal_width c * of_int (nbuckets c) \<and> 0 \<le> gap_num c"

lemma floor_div_int: "0 < n \<Longrightarrow> \<lfloor>(q::rat) / of_int n\<rfloor> = \<lfloor>q\<rfloor> div n"
proof (rule floor_unique)
  assume n: "0 < n"
  have "of_int (\<lfloor>q\<rfloor> div n * n) \<le> (of_int \<lfloor>q\<rfloor> :: rat)" using n by (simp only: of_int_le_iff minus_mod_eq_div_mult[symmetric]) simp
  then have "of_int (\<lfloor>q\<rfloor> div n) * of_int n \<le> q" by (simp add: le_floor_iff flip: of_int_mult)
  then show "of_int (\<lfloor>q\<rfloor> div n) \<le> q / of_int n" using n by (simp add: pos_le_divide_eq)
  have "\<lfloor>q\<rfloor> < (\<lfloor>q\<rfloor> div n + 1) * n" using n by (metis less_add_one mult.commute mult_div_mod_eq pos_mod_bound add_less_cancel_left distrib_left mult.right_neutral)
  then have "q < of_int ((\<lfloor>q\<rfloor> div n + 1) * n)" by (simp add: floor_less_iff)
  then show "q / of_int n < of_int (\<lfloor>q\<rfloor> div n) + 1" using n by (simp add: pos_divide_less_eq)
qed

lemma CALENDAR_HASH_day:
  assumes "shape c" and "0 \<le> t"
  shows "CALENDAR_HASH t c = Inr (bucket_of t c)"
proof -
  let ?q = "t / cal_width c" and ?n = "nbuckets c"
  have p: "0 < cal_width c" "0 < ?n" using assms(1) by (auto simp: shape_def)
  then have q: "0 \<le> ?q" "0 \<le> ?q / of_int ?n" using assms(2) by simp_all
  have f: "c_fmod ?q (of_int ?n) = ?q - of_int (?n * (\<lfloor>?q\<rfloor> div ?n))"
    unfolding c_fmod_def int_of_double_def if_P[OF q(2)] floor_div_int[OF p(2)] by simp
  have "\<lfloor>?q\<rfloor> - ?n * (\<lfloor>?q\<rfloor> div ?n) = \<lfloor>?q\<rfloor> mod ?n" by (simp add: minus_mult_div_eq_mod)
  then have "\<lfloor>c_fmod ?q (of_int ?n)\<rfloor> = \<lfloor>?q\<rfloor> mod ?n" unfolding f floor_diff_of_int .
  moreover have "0 \<le> c_fmod ?q (of_int ?n)"
  proof -
    have "0 \<le> \<lfloor>?q\<rfloor> mod ?n" using p(2) by simp
    then have "0 \<le> \<lfloor>c_fmod ?q (of_int ?n)\<rfloor>" using calculation by simp
    then show ?thesis by simp
  qed
  ultimately show ?thesis using p by (simp add: CALENDAR_HASH_def int_of_double_def bucket_of_def day_def)
qed

lemma bucket_of_bounds: "shape c \<Longrightarrow> 0 \<le> bucket_of t c \<and> bucket_of t c < nbuckets c \<and> nat (bucket_of t c) < length (buckets c)"
  by (auto simp: shape_def bucket_of_def nat_less_iff)

subsection \<open>Events by time\<close>

text \<open>Sorting is stable: the order of events is given by their times and, for each time, by the order
  of its events.\<close>

definition all_events :: "calendar \<Rightarrow> cal_event list" where
  "all_events c = concat (List.map b_list (buckets c))"

definition at_time :: "rat \<Rightarrow> cal_event list \<Rightarrow> cal_event list" where
  "at_time t xs = filter (\<lambda>x. fst x = t) xs"

lemma at_time_simps [simp]:
  "at_time t [] = []" "at_time t (x # xs) = (if fst x = t then x # at_time t xs else at_time t xs)"
  "at_time t (xs @ ys) = at_time t xs @ at_time t ys" "at_time t (rev xs) = rev (at_time t xs)"
  "x \<in> set (at_time t xs) \<longleftrightarrow> x \<in> set xs \<and> fst x = t"
  by (simp_all add: at_time_def rev_filter)

lemma mset_at_time: "(\<And>t. at_time t xs = at_time t ys) \<Longrightarrow> mset xs = mset ys"
proof (rule multiset_eqI)
  fix x :: cal_event
  assume "\<And>t. at_time t xs = at_time t ys"
  then have "filter (\<lambda>y. fst y = fst x) xs = filter (\<lambda>y. fst y = fst x) ys" by (simp add: at_time_def)
  then have "count (mset (filter (\<lambda>y. fst y = fst x) xs)) x = count (mset (filter (\<lambda>y. fst y = fst x) ys)) x" by simp
  then show "count (mset xs) x = count (mset ys) x" by simp
qed

lemma sort_key_at_time:
  assumes "sorted (List.map fst ys)" and "\<And>t. at_time t ys = at_time t xs"
  shows "sort_key fst xs = ys"
proof (rule properties_for_sort_key)
  show "mset ys = mset xs" using mset_at_time assms(2) by blast
  show "filter (\<lambda>x. fst k = fst x) ys = filter (\<lambda>x. fst k = fst x) xs" if "k \<in> set ys" for k
    using assms(2)[of "fst k"] by (simp add: at_time_def eq_commute)
qed (rule assms(1))

lemma at_time_sort [simp]: "at_time t (sort_key fst xs) = at_time t xs"
  unfolding at_time_def by (rule sort_key_stable)

subsection \<open>Sound buckets\<close>

definition bucket_ok :: "calendar \<Rightarrow> int \<Rightarrow> bucket \<Rightarrow> bool" where
  "bucket_ok c i b \<longleftrightarrow> sorted (List.map fst (b_list b)) \<and> (\<forall>x\<in>set (b_list b). 0 \<le> fst x \<and> bucket_of (fst x) c = i) \<and>
     b_count b = int (card (fst ` set (b_list b)))"

definition cal_wf :: "calendar \<Rightarrow> bool" where
  "cal_wf c \<longleftrightarrow> shape c \<and> (\<forall>i<length (buckets c). bucket_ok c (int i) (buckets c ! i)) \<and> distinct (List.map snd (all_events c)) \<and>
     stat_qsize c = sum_list (List.map b_count (buckets c)) \<and> cal_qsize c = int (length (all_events c))"

lemmas cal_defs = cal_wf_def shape_def bucket_ok_def bucket_of_def day_def all_events_def

text \<open>The counters of searches and rounds, the clock and the thresholds do not matter for this.\<close>

lemma wf_other [simp]:
  "cal_wf (c\<lparr>head_search := a\<rparr>) = cal_wf c" "cal_wf (c\<lparr>insert_search := a\<rparr>) = cal_wf c"
  "cal_wf (c\<lparr>round_num := r\<rparr>) = cal_wf c" "cal_wf (c\<lparr>last_time := t\<rparr>) = cal_wf c" "cal_wf (c\<lparr>avg_gap := t\<rparr>) = cal_wf c"
  "cal_wf (c\<lparr>time_to_newwidth := w\<rparr>) = cal_wf c" "cal_wf (c\<lparr>lastbucket := l\<rparr>) = cal_wf c" "cal_wf (c\<lparr>cal_clock := t\<rparr>) = cal_wf c"
  by (simp_all add: cal_defs)

lemma all_events_other [simp]:
  "all_events (c\<lparr>head_search := a\<rparr>) = all_events c" "all_events (c\<lparr>insert_search := a\<rparr>) = all_events c"
  "all_events (c\<lparr>round_num := r\<rparr>) = all_events c" "all_events (c\<lparr>last_time := t\<rparr>) = all_events c" "all_events (c\<lparr>avg_gap := t\<rparr>) = all_events c"
  "all_events (c\<lparr>time_to_newwidth := w\<rparr>) = all_events c" "all_events (c\<lparr>lastbucket := l\<rparr>) = all_events c"
  "all_events (c\<lparr>cal_clock := t\<rparr>) = all_events c" "all_events (c\<lparr>gap_num := g\<rparr>) = all_events c"
  "all_events (c\<lparr>stat_qsize := k\<rparr>) = all_events c" "all_events (c\<lparr>cal_qsize := k\<rparr>) = all_events c"
  by (simp_all add: all_events_def)

lemma bucket_of_other [simp]:
  "bucket_of u (c\<lparr>head_search := a\<rparr>) = bucket_of u c" "bucket_of u (c\<lparr>insert_search := a\<rparr>) = bucket_of u c"
  "bucket_of u (c\<lparr>round_num := r\<rparr>) = bucket_of u c" "bucket_of u (c\<lparr>last_time := t\<rparr>) = bucket_of u c" "bucket_of u (c\<lparr>avg_gap := t\<rparr>) = bucket_of u c"
  "bucket_of u (c\<lparr>time_to_newwidth := w\<rparr>) = bucket_of u c" "bucket_of u (c\<lparr>lastbucket := l\<rparr>) = bucket_of u c"
  "bucket_of u (c\<lparr>cal_clock := t\<rparr>) = bucket_of u c" "bucket_of u (c\<lparr>gap_num := g\<rparr>) = bucket_of u c"
  "bucket_of u (c\<lparr>stat_qsize := k\<rparr>) = bucket_of u c" "bucket_of u (c\<lparr>cal_qsize := k\<rparr>) = bucket_of u c"
  "bucket_of u (c\<lparr>buckets := bs\<rparr>) = bucket_of u c" "bucket_of u (put_bucket i b c) = bucket_of u c"
  by (simp_all add: bucket_of_def day_def put_bucket_def)

lemma mset_concat_update: "i < length xss \<Longrightarrow> mset (concat (xss[i := ys])) + mset (xss ! i) = mset (concat xss) + mset ys"
proof (induction xss arbitrary: i)
  case (Cons xs xss)
  then show ?case by (cases i) (auto simp: algebra_simps)
qed simp

lemma sum_list_update_int: "i < length xs \<Longrightarrow> sum_list (xs[i := y]) = sum_list xs - xs ! i + (y :: int)"
proof (induction xs arbitrary: i)
  case (Cons x xs)
  then show ?case by (cases i) auto
qed simp

lemma concat_single: "i < length xss \<Longrightarrow> \<forall>j<length xss. j \<noteq> i \<longrightarrow> xss ! j = [] \<Longrightarrow> concat xss = xss ! i"
proof (induction xss arbitrary: i)
  case (Cons xs xss)
  show ?case
  proof (cases i)
    case 0
    have "xss ! j = []" if "j < length xss" for j using Cons.prems(2)[rule_format, of "Suc j"] that 0 by simp
    then have "concat xss = []" by (auto simp: in_set_conv_nth)
    then show ?thesis using 0 by simp
  next
    case (Suc k)
    have "xs = []" using Cons.prems(2)[rule_format, of 0] Suc by simp
    moreover have "\<forall>j<length xss. j \<noteq> k \<longrightarrow> xss ! j = []" using Cons.prems(2) Suc by (metis Suc_less_eq length_Cons nat.inject nth_Cons_Suc)
    ultimately show ?thesis using Cons.IH[of k] Cons.prems(1) Suc by simp
  qed
qed simp

lemma at_time_concat: "at_time t (concat xss) = concat (List.map (at_time t) xss)"
  by (induction xss) auto

lemma wf_bucket:
  assumes "cal_wf c" and "0 \<le> i" and "i < nbuckets c"
  shows "bucket_ok c i (buckets c ! nat i)" and "arr_at i (buckets c) = Inr (buckets c ! nat i)" and "nat i < length (buckets c)"
proof -
  show l: "nat i < length (buckets c)" using assms by (auto simp: cal_wf_def shape_def)
  then show "bucket_ok c i (buckets c ! nat i)" using assms(1,2) unfolding cal_wf_def by fastforce
  show "arr_at i (buckets c) = Inr (buckets c ! nat i)" using assms(2) l by simp
qed

lemma at_bucket:
  assumes wf: "cal_wf c"
  shows "at_time t (all_events c) = at_time t (b_list (buckets c ! nat (bucket_of t c)))"
proof -
  let ?i = "nat (bucket_of t c)"
  have b: "?i < length (buckets c)" "0 \<le> bucket_of t c" using bucket_of_bounds wf unfolding cal_wf_def by blast+
  have "at_time t (b_list (buckets c ! j)) = []" if "j < length (buckets c)" "j \<noteq> ?i" for j
  proof -
    have ok: "bucket_ok c (int j) (buckets c ! j)" using wf that(1) by (simp add: cal_wf_def)
    show ?thesis
    proof (rule ccontr)
      assume "at_time t (b_list (buckets c ! j)) \<noteq> []"
      then obtain x where "x \<in> set (b_list (buckets c ! j))" "fst x = t" by (metis at_time_simps(5) last_in_set)
      then have "bucket_of t c = int j" using ok by (auto simp: bucket_ok_def)
      then show False using that(2) by simp
    qed
  qed
  then have "concat (List.map (at_time t \<circ> b_list) (buckets c)) = List.map (at_time t \<circ> b_list) (buckets c) ! ?i"
    using b(1) by (intro concat_single) auto
  then show ?thesis using b(1) by (simp add: all_events_def at_time_concat)
qed

text \<open>An event comes into its bucket, or leaves it.\<close>

lemma wf_replace:
  assumes wf: "cal_wf c" and i: "0 \<le> i" "i < nbuckets c" and ok: "bucket_ok c i b'"
    and d: "distinct (List.map snd (all_events (put_bucket i b' c)))"
    and s: "k = stat_qsize c - b_count (buckets c ! nat i) + b_count b'"
    and q: "n = cal_qsize c - int (length (b_list (buckets c ! nat i))) + int (length (b_list b'))"
  shows "cal_wf ((put_bucket i b' c)\<lparr>stat_qsize := k, cal_qsize := n\<rparr>)"
proof -
  let ?c = "(put_bucket i b' c)\<lparr>stat_qsize := k, cal_qsize := n\<rparr>"
  note b = wf_bucket[OF wf i]
  have sh: "shape ?c" using wf by (simp add: cal_wf_def shape_def put_bucket_def)
  have bk: "bucket_ok ?c (int j) (buckets ?c ! j)" if "j < length (buckets ?c)" for j
  proof (cases "j = nat i")
    case True
    then show ?thesis using ok b(3) i(1) by (simp add: bucket_ok_def put_bucket_def)
  next
    case False
    have "bucket_ok c (int j) (buckets c ! j)" using wf that unfolding cal_wf_def by (simp add: put_bucket_def)
    then show ?thesis using False by (simp add: bucket_ok_def put_bucket_def)
  qed
  have st: "sum_list (List.map b_count (buckets ?c)) = k"
    using s wf b(3) by (simp add: put_bucket_def map_update sum_list_update_int cal_wf_def)
  have "length (concat ((List.map b_list (buckets c))[nat i := b_list b'])) + length (List.map b_list (buckets c) ! nat i) =
      length (concat (List.map b_list (buckets c))) + length (b_list b')"
    using arg_cong[OF mset_concat_update[of "nat i" "List.map b_list (buckets c)" "b_list b'"], of size] b(3) by simp
  then have "int (length (all_events ?c)) = n"
    using q wf b(3) by (simp add: all_events_def put_bucket_def map_update cal_wf_def del: length_concat)
  then show ?thesis using sh bk st d unfolding cal_wf_def by (simp add: put_bucket_def)
qed

lemma mset_put_bucket:
  assumes "cal_wf c" and "0 \<le> i" and "i < nbuckets c"
  shows "mset (all_events (put_bucket i b' c)) + mset (b_list (buckets c ! nat i)) = mset (all_events c) + mset (b_list b')"
  using mset_concat_update[of "nat i" "List.map b_list (buckets c)" "b_list b'"] wf_bucket(3)[OF assms]
  by (simp add: all_events_def put_bucket_def map_update)

lemma wf_add:
  assumes wf: "cal_wf c" and t: "0 \<le> fst x" and new: "snd x \<notin> snd ` set (all_events c)"
    and b: "b = buckets c ! nat (bucket_of (fst x) c)" "b_list b = ys @ zs" and so: "sorted (List.map fst (ys @ x # zs))"
    and one: "one = (if fst x \<in> fst ` set (b_list b) then 0 else 1)"
  defines "c' \<equiv> (put_bucket (bucket_of (fst x) c) \<lparr> b_list = ys @ x # zs, b_count = b_count b + one \<rparr> c)
    \<lparr>stat_qsize := stat_qsize c + one, cal_qsize := cal_qsize c + 1\<rparr>"
  shows "cal_wf c'" and "mset (all_events c') = add_mset x (mset (all_events c))"
    and "at_time u (all_events c') = (if u = fst x then at_time u ys @ x # at_time u zs else at_time u (all_events c))"
proof -
  let ?i = "bucket_of (fst x) c" and ?b = "\<lparr> b_list = ys @ x # zs, b_count = b_count b + one \<rparr>"
  have i: "0 \<le> ?i" "?i < nbuckets c" using bucket_of_bounds wf unfolding cal_wf_def by blast+
  note w = wf_bucket[OF wf i, folded b(1)]
  have "mset (all_events (put_bucket ?i ?b c)) + mset (ys @ zs) = mset (all_events c) + mset (ys @ x # zs)"
    using mset_put_bucket[OF wf i, of ?b] b by simp
  then have m: "mset (all_events (put_bucket ?i ?b c)) = add_mset x (mset (all_events c))" by simp
  have "card (fst ` set (ys @ x # zs)) = card (insert (fst x) (fst ` set (b_list b)))" using b(2) by simp
  also have "int \<dots> = int (card (fst ` set (b_list b))) + one" using one by (simp add: card_insert_if)
  finally have ok: "bucket_ok c ?i ?b" using w(1) b(2) t so by (auto simp: bucket_ok_def)
  have "distinct (List.map snd (x # all_events c))" using wf new by (simp add: cal_wf_def)
  moreover have "mset (List.map snd (all_events (put_bucket ?i ?b c))) = mset (List.map snd (x # all_events c))" using m by simp
  ultimately have d: "distinct (List.map snd (all_events (put_bucket ?i ?b c)))" by (metis mset_eq_imp_distinct_iff)
  show wf': "cal_wf c'" unfolding c'_def by (rule wf_replace[OF wf i ok d]) (simp_all add: b(1)[symmetric] b(2))
  show "mset (all_events c') = add_mset x (mset (all_events c))" using m by (simp add: c'_def)
  have "buckets c' ! nat (bucket_of u c') = (if bucket_of u c = ?i then ?b else buckets c ! nat (bucket_of u c))"
    using w(3) bucket_of_bounds[of c u] wf i(1) unfolding cal_wf_def c'_def by (simp add: put_bucket_def nth_list_update nat_eq_iff2)
  then show "at_time u (all_events c') = (if u = fst x then at_time u ys @ x # at_time u zs else at_time u (all_events c))"
    using at_bucket[OF wf', of u] at_bucket[OF wf, of u] b by auto
qed

definition same_params :: "calendar \<Rightarrow> calendar \<Rightarrow> bool" where
  "same_params c c' \<longleftrightarrow> (\<exists>bs k n. c' = c\<lparr>buckets := bs, stat_qsize := k, cal_qsize := n\<rparr>)"

lemma same_params_trans: "same_params c c' \<Longrightarrow> same_params c' c'' \<Longrightarrow> same_params c c''"
proof -
  assume "same_params c c'" "same_params c' c''"
  then obtain bs k n bs' k' n' where "c' = c\<lparr>buckets := bs, stat_qsize := k, cal_qsize := n\<rparr>"
    "c'' = c'\<lparr>buckets := bs', stat_qsize := k', cal_qsize := n'\<rparr>" unfolding same_params_def by blast
  then have "c'' = c\<lparr>buckets := bs', stat_qsize := k', cal_qsize := n'\<rparr>" by simp
  then show "same_params c c''" unfolding same_params_def by blast
qed

lemma sorted_last: "sorted (List.map fst xs) \<Longrightarrow> y \<in> set xs \<Longrightarrow> fst y \<le> (fst (last xs) :: rat)"
  by (cases xs rule: rev_cases) (auto simp: sorted_append)

lemma sorted_hd: "sorted (List.map fst xs) \<Longrightarrow> y \<in> set xs \<Longrightarrow> (fst (hd xs) :: rat) \<le> fst y"
  by (cases xs) auto

lemma sorted_takeWhile_dropWhile:
  assumes "sorted (List.map fst xs)" and "\<And>x y. P x \<longleftrightarrow> fst x < (t::rat)"
  shows "sorted (List.map fst (takeWhile P xs) @ t # List.map fst (dropWhile P xs))" and "\<forall>x\<in>set (dropWhile P xs). t \<le> fst x"
proof -
  have d: "\<forall>x\<in>set (dropWhile P xs). t \<le> fst x"
  proof (cases "dropWhile P xs")
    case (Cons y ys)
    have "\<not> P y" using Cons by (metis hd_dropWhile list.distinct(1) list.sel(1))
    moreover have "sorted (List.map fst (y # ys))"
      using assms(1) Cons by (metis dropWhile_eq_drop sorted_wrt_drop drop_map)
    ultimately show ?thesis using assms(2) Cons by fastforce
  next
    case Nil
    show ?thesis unfolding Nil by simp
  qed
  moreover have "sorted (List.map fst (dropWhile P xs))" using assms(1) by (metis dropWhile_eq_drop sorted_wrt_drop drop_map)
  moreover have "sorted (List.map fst (takeWhile P xs))" using assms(1) by (metis takeWhile_eq_take sorted_wrt_take take_map)
  moreover have "\<forall>x\<in>set (takeWhile P xs). fst x < t" using assms(2) by (auto dest: set_takeWhileD)
  ultimately show "sorted (List.map fst (takeWhile P xs) @ t # List.map fst (dropWhile P xs))" "\<forall>x\<in>set (dropWhile P xs). t \<le> fst x"
    by (fastforce simp: sorted_append)+
qed

lemma insert2_ok:
  assumes wf: "cal_wf c" and x: "0 \<le> fst x" "snd x \<notin> snd ` set (all_events c)"
  shows "\<exists>c'. insert2 x c = Inr c' \<and> cal_wf c' \<and> same_params c c' \<and> mset (all_events c') = add_mset x (mset (all_events c)) \<and>
    (\<forall>u. at_time u (all_events c') = (if u = fst x then x # at_time u (all_events c) else at_time u (all_events c)))"
proof -
  let ?i = "bucket_of (fst x) c"
  have sh: "shape c" and i: "0 \<le> ?i" "?i < nbuckets c" using bucket_of_bounds wf unfolding cal_wf_def by blast+
  note w = wf_bucket[OF wf i]
  define b where "b = buckets c ! nat ?i"
  define ys where "ys = takeWhile (\<lambda>y. fst x > fst y) (b_list b)"
  define zs where "zs = dropWhile (\<lambda>y. fst x > fst y) (b_list b)"
  have so: "sorted (List.map fst (b_list b))" using w(1) unfolding bucket_ok_def b_def by blast
  have split: "b_list b = ys @ zs" by (simp add: ys_def zs_def)
  note s = sorted_takeWhile_dropWhile[OF so, of "\<lambda>y. fst x > fst y" "fst x", folded ys_def zs_def, simplified]
  have ylt: "\<forall>y\<in>set ys. fst y < fst x" by (auto simp: ys_def dest: set_takeWhileD)
  have code: "(if b_list b \<noteq> [] \<and> fst x > fst (last (b_list b)) then b_list b else ys) = ys"
  proof (cases "b_list b \<noteq> [] \<and> fst x > fst (last (b_list b))")
    case True
    then have "\<forall>y\<in>set (b_list b). fst y < fst x" using sorted_last[OF so] by fastforce
    then have "ys = b_list b" by (simp add: ys_def takeWhile_eq_all_conv)
    then show ?thesis by simp
  next
    case False
    then show ?thesis by (rule if_not_P)
  qed
  have d: "drop (length ys) (b_list b) = zs" unfolding split by simp
  define one :: int where "one = (if fst x \<in> fst ` set (b_list b) then 0 else 1)"
  have one': "(if b_list b = [] \<or> fst (if zs = [] then hd (b_list b @ [x]) else hd zs) \<noteq> fst x then 1 else 0) = one"
  proof (cases "zs = []")
    case True
    then have "b_list b = ys" using split by simp
    then show ?thesis using ylt True by (cases ys) (auto simp: one_def)
  next
    case False
    then obtain z zs' where z: "zs = z # zs'" by (cases zs) auto
    have "fst x \<in> fst ` set (b_list b) \<longleftrightarrow> fst z = fst x"
    proof
      assume "fst x \<in> fst ` set (b_list b)"
      then obtain y where y: "y \<in> set (b_list b)" "fst y = fst x" by (metis imageE)
      then have "y \<in> set zs" using ylt split by auto
      moreover have "sorted (List.map fst zs)" using so split by (simp add: sorted_append)
      ultimately have "fst z \<le> fst y" using z by auto
      then show "fst z = fst x" using s(2) z y(2) by simp
    next
      assume "fst z = fst x"
      then show "fst x \<in> fst ` set (b_list b)" using split z by force
    qed
    then show ?thesis using False z split by (simp add: one_def)
  qed
  let ?c = "(put_bucket ?i \<lparr> b_list = ys @ x # zs, b_count = b_count b + one \<rparr> c)\<lparr>stat_qsize := stat_qsize c + one,
      cal_qsize := cal_qsize c + 1\<rparr>"
  have run: "insert2 x c = Inr ?c"
    unfolding insert2_def CALENDAR_HASH_day[OF sh x(1)] bind_r_simps w(2) Let_def b_def[symmetric] ys_def[symmetric] code d one' ..
  have so2: "sorted (List.map fst (ys @ x # zs))" using s(1) by simp
  note a = wf_add[OF wf x b_def split so2 one_def]
  have "at_time (fst x) ys = []" using ylt by (auto simp: at_time_def filter_empty_conv)
  then have "at_time (fst x) (all_events c) = at_time (fst x) zs" using at_bucket[OF wf, of "fst x"] split by (simp add: b_def)
  then have "at_time u (all_events ?c) = (if u = fst x then x # at_time u (all_events c) else at_time u (all_events c))" for u
    using a(3)[of u] \<open>at_time (fst x) ys = []\<close> by auto
  moreover have "same_params c ?c" by (auto simp: same_params_def put_bucket_def)
  ultimately show ?thesis using run a(1,2) by blast
qed

subsection \<open>Resizing\<close>

lemma insert2_all_ok:
  assumes "cal_wf c" and "\<forall>x\<in>set xs. 0 \<le> fst x" and "distinct (List.map snd xs)" and "snd ` set xs \<inter> snd ` set (all_events c) = {}"
  shows "\<exists>c'. insert2_all xs c = Inr c' \<and> cal_wf c' \<and> same_params c c' \<and>
    (\<forall>u. at_time u (all_events c') = rev (at_time u xs) @ at_time u (all_events c))"
  using assms
proof (induction xs arbitrary: c)
  case Nil
  have "same_params c c" unfolding same_params_def by (intro exI[of _ "buckets c"] exI[of _ "stat_qsize c"] exI[of _ "cal_qsize c"]) simp
  then show ?case using Nil.prems(1) by simp
next
  case (Cons x xs)
  obtain c1 where c1: "insert2 x c = Inr c1" "cal_wf c1" "same_params c c1" "mset (all_events c1) = add_mset x (mset (all_events c))"
    "\<And>u. at_time u (all_events c1) = (if u = fst x then x # at_time u (all_events c) else at_time u (all_events c))"
    using insert2_ok[OF Cons.prems(1), of x] Cons.prems(2,4) by auto
  have "set (all_events c1) = insert x (set (all_events c))" using arg_cong[OF c1(4), of set_mset] by simp
  then have "snd ` set xs \<inter> snd ` set (all_events c1) = {}" using Cons.prems(3,4) by auto
  then obtain c2 where c2: "insert2_all xs c1 = Inr c2" "cal_wf c2" "same_params c1 c2"
    "\<And>u. at_time u (all_events c2) = rev (at_time u xs) @ at_time u (all_events c1)"
    using Cons.IH[OF c1(2)] Cons.prems(2,3) by auto
  have "at_time u (all_events c2) = rev (at_time u (x # xs)) @ at_time u (all_events c)" for u
    using c2(4)[of u] c1(5)[of u] by simp
  then show ?case using c1(1) c2(1,2) same_params_trans[OF c1(3) c2(3)] by auto
qed

lemma reinit_ok:
  assumes "4 \<le> n" and "0 < w" and "0 \<le> start" and "0 \<le> gap_num c"
  shows "\<exists>c'. reinit n w start c = Inr c' \<and> cal_wf c' \<and> all_events c' = [] \<and> cal_clock c' = cal_clock c \<and>
    lastbucket c' = bucket_of start c'"
proof -
  let ?c = "c\<lparr>buckets := replicate (nat n) \<lparr> b_list = [], b_count = 0 \<rparr>, cal_width := w, nbuckets := n, cal_qsize := 0, stat_qsize := 0\<rparr>"
  let ?d = "?c\<lparr>diff0 := w * of_int n / 2, diff1 := w * of_int n / 2 + w, diff2 := w * of_int n\<rparr>"
  have sh: "shape ?d" using assms by (simp add: shape_def)
  have "CALENDAR_HASH start ?c = CALENDAR_HASH start ?d" by (simp add: CALENDAR_HASH_def)
  also have "\<dots> = Inr (bucket_of start ?d)" by (rule CALENDAR_HASH_day[OF sh assms(3)])
  finally have h: "CALENDAR_HASH start ?c = Inr (bucket_of start ?d)" .
  have s0: "sum_list (List.map b_count (replicate k \<lparr> b_list = [], b_count = 0 \<rparr>)) = 0"
    "concat (List.map b_list (replicate k \<lparr> b_list = [], b_count = 0 \<rparr>)) = []" for k
    by (induction k) auto
  have n: "\<not> n < 0" using assms(1) by simp
  show ?thesis
    unfolding reinit_def if_not_P[OF n] Let_def h bind_r_simps
    using assms s0 by (intro exI conjI) (rule refl, simp_all add: cal_defs)
qed

lemma fullest_less: "bs \<noteq> [] \<Longrightarrow> fullest bs < length bs"
proof -
  assume ne: "bs \<noteq> []"
  have "fold (\<lambda>i m. if b_count (bs ! i) > b_count (bs ! m) then i else m) is m < length bs" if "\<forall>i\<in>set is. i < length bs" "m < length bs" for "is" m
    using that by (induction "is" arbitrary: m) auto
  then show ?thesis using ne by (simp add: fullest_def)
qed

lemma newwidth_ok:
  assumes wf: "cal_wf c" and n: "1 \<le> newsize"
  shows "\<exists>w v. newwidth newsize c = Inr (w, c\<lparr>time_to_newwidth := v\<rparr>) \<and> 0 < w"
proof -
  define v where "v = (if adjust_new_width_interval c \<noteq> 0 then adjust_new_width_interval c else time_to_newwidth c)"
  have c1: "(if adjust_new_width_interval c \<noteq> 0 then c\<lparr>time_to_newwidth := adjust_new_width_interval c\<rparr> else c) = c\<lparr>time_to_newwidth := v\<rparr>"
    by (simp add: v_def)
  have sh: "0 < cal_width c" "buckets c \<noteq> []" using wf by (auto simp: cal_wf_def shape_def)
  let ?m = "fullest (buckets c)"
  define b where "b = buckets c ! ?m"
  have m: "?m < length (buckets c)" using fullest_less sh(2) by blast
  then have at: "arr_at (int ?m) (buckets c) = Inr b" by (simp add: b_def)
  have ok: "bucket_ok c (int ?m) b" using wf m by (simp add: cal_wf_def b_def)
  have "0 < fst (last (b_list b)) - fst (hd (b_list b)) \<and> b_list b \<noteq> []" if "4 < b_count b"
  proof -
    have so: "sorted (List.map fst (b_list b))" and card: "4 < card (fst ` set (b_list b))"
      using ok that unfolding bucket_ok_def by simp_all
    then have ne: "b_list b \<noteq> []" by auto
    have "fst (hd (b_list b)) \<noteq> fst (last (b_list b))"
    proof
      assume eq: "fst (hd (b_list b)) = fst (last (b_list b))"
      have "fst y = fst (hd (b_list b))" if "y \<in> set (b_list b)" for y
        using sorted_last[OF so that] sorted_hd[OF so that] eq by simp
      then have "fst ` set (b_list b) \<subseteq> {fst (hd (b_list b))}" by auto
      then have "card (fst ` set (b_list b)) \<le> 1" using card_mono[of "{fst (hd (b_list b))}"] by simp
      then show False using card by simp
    qed
    moreover have "fst (hd (b_list b)) \<le> fst (last (b_list b))" using sorted_last[OF so, of "hd (b_list b)"] ne by simp
    ultimately show ?thesis using ne by simp
  qed
  note long = this
  let ?c = "c\<lparr>time_to_newwidth := v\<rparr>"
  consider (gap) "adjust_new_width_interval c \<noteq> 0 \<and> avg_gap c > 0"
    | (few) "\<not> (adjust_new_width_interval c \<noteq> 0 \<and> avg_gap c > 0)" "b_count b \<le> 4"
    | (many) "\<not> (adjust_new_width_interval c \<noteq> 0 \<and> avg_gap c > 0)" "\<not> b_count b \<le> 4" by blast
  then show ?thesis
  proof cases
    case gap
    have "newwidth newsize c = Inr (avg_gap c * 4, ?c)" unfolding newwidth_def c1 Let_def if_P[OF gap] ..
    then show ?thesis using gap by auto
  next
    case few
    have "newwidth newsize c = Inr (cal_width c, ?c)" unfolding newwidth_def c1 Let_def if_not_P[OF few(1)] using few(2) at by simp
    then show ?thesis using sh(1) by auto
  next
    case many
    obtain x xs where xs: "b_list b = x # xs" "0 < fst (last (x # xs)) - fst x" using long many(2) by (cases "b_list b") auto
    let ?m = "if newsize < b_count b then newsize else b_count b"
    have m: "0 < ?m" "\<not> ?m = 0" using n many(2) by auto
    have at': "arr_at (int (fullest (buckets ?c))) (buckets ?c) = Inr b" using at by simp
    have nw: "\<not> \<not> 0 < fst (last (x # xs)) - fst x" using xs(2) by simp
    have "newwidth newsize c = Inr ((fst (last (x # xs)) - fst x) / of_int ?m * 4, ?c)"
      unfolding newwidth_def c1 Let_def if_not_P[OF many(1)] at' bind_r_simps if_not_P[OF many(2)] xs(1) list.case
        if_not_P[OF nw] if_not_P[OF m(2)] ..
    moreover have "0 < (fst (last (x # xs)) - fst x) / of_int ?m * 4" using xs(2) m(1) by (simp only: zero_less_divide_iff zero_less_mult_iff of_int_0_less_iff) simp
    ultimately show ?thesis by blast
  qed
qed

definition positive :: "(rat \<Rightarrow> rat) \<Rightarrow> bool" where
  "positive sq \<longleftrightarrow> (\<forall>x. 0 < x \<longrightarrow> 0 < sq x)"

definition tuned :: "calendar \<Rightarrow> calendar \<Rightarrow> bool" where
  "tuned c c' \<longleftrightarrow> (\<exists>v h i r. c' = c\<lparr>time_to_newwidth := v, head_search := h, insert_search := i, round_num := r\<rparr>)"

lemma tuned_refl: "tuned c c"
  unfolding tuned_def
  by (intro exI[of _ "time_to_newwidth c"] exI[of _ "head_search c"] exI[of _ "insert_search c"] exI[of _ "round_num c"]) simp

lemma resize_plan_ok:
  assumes wf: "cal_wf c" and n: "1 \<le> newsize" and sq: "positive sq"
  shows "\<exists>plan c'. resize_plan sq newsize c = Inr (plan, c') \<and> tuned c c' \<and>
    (case plan of None \<Rightarrow> True | Some (k, w) \<Rightarrow> 4 \<le> k \<and> 0 < w)"
proof -
  obtain w v where nw: "newwidth newsize c = Inr (w, c\<lparr>time_to_newwidth := v\<rparr>)" "0 < w" using newwidth_ok[OF wf n] by blast
  have sh: "0 < cal_width c" "4 \<le> nbuckets c" using wf by (simp_all add: cal_wf_def shape_def)
  define bw0 :: rat where "bw0 = (if head_search c \<noteq> 0 then of_nat (unat (head_search c)) else 1)"
  define bw1 where "bw1 = (if insert_search c \<noteq> 0 then bw0 / of_nat (unat (insert_search c)) else bw0)"
  have p: "(0::rat) < of_nat (unat u)" if "u \<noteq> 0" for u :: ulong using that by (simp only: of_nat_0_less_iff unat_gt_0) simp
  have "0 < bw0" using p[of "head_search c"] by (simp add: bw0_def)
  then have "0 < bw1" using p[of "insert_search c"] by (simp add: bw1_def)
  then have bw: "0 < sq bw1 * cal_width c" using sq sh(1) by (simp add: positive_def)
  have eq: "resize_plan sq newsize c =
    (if newsize = nbuckets c then
       (if sq bw1 * cal_width c < min_bin_width c then
             if time_to_newwidth c > 0
             then Inr (None, c\<lparr>time_to_newwidth := time_to_newwidth c - 1, head_search := 0, insert_search := 0, round_num := 0\<rparr>)
             else Inr (Some (newsize, w), c\<lparr>time_to_newwidth := v\<rparr>)
           else Inr (Some (newsize, sq bw1 * cal_width c), c))
     else Inr (Some (if newsize < 4 then 4 else newsize, w), c\<lparr>time_to_newwidth := v\<rparr>))"
    unfolding resize_plan_def Let_def bw0_def[symmetric] bw1_def[symmetric] nw(1) by simp
  consider (none) "resize_plan sq newsize c = Inr (None, c\<lparr>time_to_newwidth := time_to_newwidth c - 1, head_search := 0, insert_search := 0, round_num := 0\<rparr>)"
    | (new) k where "resize_plan sq newsize c = Inr (Some (k, w), c\<lparr>time_to_newwidth := v\<rparr>)" "4 \<le> k"
    | (root) "resize_plan sq newsize c = Inr (Some (newsize, sq bw1 * cal_width c), c)" "4 \<le> newsize"
  proof -
    let ?k = "if newsize = nbuckets c then newsize else if newsize < 4 then 4 else newsize"
    have "4 \<le> ?k" using sh(2) by simp
    show thesis
    proof (cases "newsize = nbuckets c \<and> sq bw1 * cal_width c < min_bin_width c \<and> time_to_newwidth c > 0")
      case True
      then show thesis using none eq by simp
    next
      case n1: False
      show thesis
      proof (cases "newsize = nbuckets c \<and> \<not> sq bw1 * cal_width c < min_bin_width c")
        case True
        then show thesis using root eq sh(2) by simp
      next
        case False
        then have "resize_plan sq newsize c = Inr (Some (?k, w), c\<lparr>time_to_newwidth := v\<rparr>)"
          using n1 eq by (cases "newsize = nbuckets c") simp_all
        then show thesis using new \<open>4 \<le> ?k\<close> by blast
      qed
    qed
  qed
  then show ?thesis
  proof cases
    case none
    then show ?thesis unfolding tuned_def by (intro exI conjI) (assumption, rule refl, simp)
  next
    case new
    have "tuned c (c\<lparr>time_to_newwidth := v\<rparr>)" unfolding tuned_def
      by (intro exI[of _ v] exI[of _ "head_search c"] exI[of _ "insert_search c"] exI[of _ "round_num c"]) simp
    then show ?thesis using new nw(2) by fastforce
  next
    case root
    then show ?thesis using bw tuned_refl by fastforce
  qed
qed

lemma wf_times: "cal_wf c \<Longrightarrow> x \<in> set (all_events c) \<Longrightarrow> 0 \<le> fst x"
proof -
  assume wf: "cal_wf c" and "x \<in> set (all_events c)"
  then obtain b where "b \<in> set (buckets c)" "x \<in> set (b_list b)" by (auto simp: all_events_def)
  moreover then obtain i where "i < length (buckets c)" "b = buckets c ! i" by (auto simp: in_set_conv_nth)
  ultimately show "0 \<le> fst x" using wf unfolding cal_wf_def bucket_ok_def by blast
qed

text \<open>The events stay, in the order of their buckets.\<close>

lemma resize_ok:
  assumes wf: "cal_wf c" and n: "1 \<le> newsize" and sq: "positive sq" and st: "0 \<le> start" "lastbucket c = bucket_of start c"
  shows "\<exists>c'. resize sq newsize start c = Inr c' \<and> cal_wf c' \<and> cal_clock c' = cal_clock c \<and> lastbucket c' = bucket_of start c' \<and>
    (\<forall>u. at_time u (all_events c') = at_time u (all_events c))"
proof -
  obtain plan c1 where p: "resize_plan sq newsize c = Inr (plan, c1)" "tuned c c1" "case plan of None \<Rightarrow> True | Some (k, w) \<Rightarrow> 4 \<le> k \<and> 0 < w"
    using resize_plan_ok[OF wf n sq] by blast
  have c1: "cal_wf c1" "all_events c1 = all_events c" "cal_clock c1 = cal_clock c" "lastbucket c1 = bucket_of start c1"
    "buckets c1 = buckets c"
  proof -
    obtain v h i r where "c1 = c\<lparr>time_to_newwidth := v, head_search := h, insert_search := i, round_num := r\<rparr>"
      using p(2) unfolding tuned_def by blast
    then show "cal_wf c1" "all_events c1 = all_events c" "cal_clock c1 = cal_clock c" "lastbucket c1 = bucket_of start c1"
      "buckets c1 = buckets c" using wf st(2) by simp_all
  qed
  show ?thesis
  proof (cases plan)
    case None
    then have "resize sq newsize start c = Inr c1" unfolding resize_def p(1) bind_r_simps by simp
    moreover have "\<forall>u. at_time u (all_events c1) = at_time u (all_events c)" unfolding c1(2) by blast
    ultimately show ?thesis using c1(1,3,4) by (intro exI[of _ c1] conjI)
  next
    case (Some kw)
    obtain k w where kw: "plan = Some (k, w)" "4 \<le> k" "0 < w" using Some p(3) by (cases kw) auto
    have "0 \<le> gap_num c1" using c1(1) by (simp add: cal_wf_def shape_def)
    then obtain c2 where c2: "reinit k w start c1 = Inr c2" "cal_wf c2" "all_events c2 = []" "cal_clock c2 = cal_clock c1"
      "lastbucket c2 = bucket_of start c2" using reinit_ok[OF kw(2,3) st(1)] by blast
    let ?xs = "concat (List.map (\<lambda>b. rev (b_list b)) (buckets c1))"
    have set: "set ?xs = set (all_events c1)" by (simp add: all_events_def)
    have m: "mset ?xs = mset (all_events c1)"
    proof -
      have "mset (concat (List.map (\<lambda>b. rev (b_list b)) bs)) = mset (concat (List.map b_list bs))" for bs by (induction bs) auto
      then show ?thesis by (simp add: all_events_def)
    qed
    have "distinct (List.map snd (all_events c1))" using c1(1) by (simp add: cal_wf_def)
    moreover have "mset (List.map snd ?xs) = mset (List.map snd (all_events c1))" using m by (metis mset_map)
    ultimately have d: "distinct (List.map snd ?xs)" by (metis mset_eq_imp_distinct_iff)
    have pos: "\<forall>x\<in>set ?xs. 0 \<le> fst x" unfolding set using wf_times[OF c1(1)] by blast
    have dj: "snd ` set ?xs \<inter> snd ` set (all_events c2) = {}" using c2(3) by simp
    obtain c3 where c3: "insert2_all ?xs c2 = Inr c3" "cal_wf c3" "same_params c2 c3"
      "\<And>u. at_time u (all_events c3) = rev (at_time u ?xs) @ at_time u (all_events c2)"
      using insert2_all_ok[OF c2(2) pos d dj] by blast
    have "rev (at_time u ?xs) = at_time u (all_events c)" for u
    proof -
      let ?i = "nat (bucket_of u c1)"
      have i: "?i < length (buckets c1)" using bucket_of_bounds c1(1) unfolding cal_wf_def by blast
      have "at_time u (b_list (buckets c1 ! j)) = []" if "j < length (buckets c1)" "j \<noteq> ?i" for j
      proof -
        have "bucket_ok c1 (int j) (buckets c1 ! j)" using c1(1) that(1) by (simp add: cal_wf_def)
        moreover have "int j \<noteq> bucket_of u c1" using that(2) by auto
        ultimately show ?thesis unfolding bucket_ok_def at_time_def filter_empty_conv by metis
      qed
      then have "at_time u ?xs = rev (at_time u (b_list (buckets c1 ! ?i)))"
        using i concat_single[of ?i "List.map (\<lambda>b. at_time u (rev (b_list b))) (buckets c1)"] by (simp add: at_time_concat comp_def)
      then show ?thesis using at_bucket[OF c1(1), of u] c1(2) by simp
    qed
    then have at: "at_time u (all_events c3) = at_time u (all_events c)" for u using c3(4) c2(3) by simp
    let ?c = "c3\<lparr>head_search := 0, insert_search := 0, round_num := 0\<rparr>"
    have run: "resize sq newsize start c = Inr ?c"
      unfolding resize_def p(1) kw(1) bind_r_simps prod.case option.case c2(1) c3(1) ..
    have "cal_clock ?c = cal_clock c" "lastbucket ?c = bucket_of start ?c"
      using c3(3) c2(4,5) c1(3) by (auto simp: same_params_def bucket_of_def day_def)
    then show ?thesis using run c3(2) at by auto
  qed
qed

subsection \<open>Inserting\<close>

text \<open>A queue whose clock is not ahead of its events.\<close>

definition cal_ok :: "calendar \<Rightarrow> bool" where
  "cal_ok c \<longleftrightarrow> cal_wf c \<and> 0 \<le> cal_clock c \<and> lastbucket c = bucket_of (cal_clock c) c \<and> (\<forall>x\<in>set (all_events c). cal_clock c \<le> fst x)"

lemma at_time_set: "(\<And>u. at_time u xs = at_time u ys) \<Longrightarrow> set xs = set ys"
  by (metis mset_at_time set_mset_mset)

lemma sorted_rev_search:
  fixes t :: rat
  assumes so: "sorted (List.map fst xs)"
  defines "ys \<equiv> rev (dropWhile (\<lambda>x. t < fst x) (rev xs))" and "zs \<equiv> rev (takeWhile (\<lambda>x. t < fst x) (rev xs))"
  shows "xs = ys @ zs" and "\<forall>y\<in>set ys. fst y \<le> t" and "\<forall>z\<in>set zs. t < fst z" and "sorted (List.map fst ys @ t # List.map fst zs)"
proof -
  have "rev (takeWhile (\<lambda>x. t < fst x) (rev xs) @ dropWhile (\<lambda>x. t < fst x) (rev xs)) = xs"
    unfolding takeWhile_dropWhile_id by (rule rev_rev_ident)
  then show split: "xs = ys @ zs" unfolding ys_def zs_def rev_append ..
  show gt: "\<forall>z\<in>set zs. t < fst z" by (auto simp: zs_def dest: set_takeWhileD)
  have sy: "sorted (List.map fst ys)" "sorted (List.map fst zs)" using so split by (simp_all add: sorted_append)
  show le: "\<forall>y\<in>set ys. fst y \<le> t"
  proof (cases "ys = []")
    case False
    then have "hd (rev ys) = last ys" by (simp add: hd_rev)
    moreover have "\<not> t < fst (hd (rev ys))" using False hd_dropWhile[of "\<lambda>x. t < fst x" "rev xs"] by (simp add: ys_def)
    ultimately have "fst (last ys) \<le> t" by simp
    then show ?thesis using sorted_last[OF sy(1)] by fastforce
  qed simp
  show "sorted (List.map fst ys @ t # List.map fst zs)" using sy gt le by (fastforce simp: sorted_append)
qed

lemma insert_search_step_ok:
  assumes so: "sorted (List.map fst xs)"
  shows "\<exists>ys zs s. insert_search_step e xs c = Inr (ys @ e # zs, if fst e \<in> fst ` set xs then 0 else 1, c\<lparr>insert_search := s\<rparr>) \<and>
    xs = ys @ zs \<and> (\<forall>z\<in>set zs. fst e < fst z) \<and> sorted (List.map fst (ys @ e # zs))"
proof (cases xs)
  case Nil
  have "insert_search_step e xs c = Inr ([] @ e # [], if fst e \<in> fst ` set xs then 0 else 1, c\<lparr>insert_search := insert_search c\<rparr>)"
    using Nil by (simp add: insert_search_step_def)
  then show ?thesis using Nil by (intro exI[of _ "[]"] exI[of _ "insert_search c"] conjI) simp_all
next
  case (Cons h hs)
  show ?thesis
  proof (cases "fst e < fst h")
    case True
    have "fst e < fst y" if "y \<in> set xs" for y using sorted_hd[OF so that] True Cons by simp
    then have gt: "\<forall>y\<in>set xs. fst e < fst y" by blast
    then have "fst e \<notin> fst ` set xs" by auto
    then have "insert_search_step e xs c = Inr ([] @ e # xs, if fst e \<in> fst ` set xs then 0 else 1, c\<lparr>insert_search := insert_search c + 1\<rparr>)"
      using Cons True by (simp add: insert_search_step_def)
    moreover have "sorted (List.map fst ([] @ e # xs))" using so gt by (auto simp: less_imp_le)
    ultimately show ?thesis using gt by (intro exI[of _ "[]"] exI[of _ xs] exI[of _ "insert_search c + 1"] conjI) simp_all
  next
    case False
    define dw where "dw = dropWhile (\<lambda>x. fst e < fst x) (rev xs)"
    define tw where "tw = takeWhile (\<lambda>x. fst e < fst x) (rev xs)"
    note r = sorted_rev_search[OF so, of "fst e", folded dw_def tw_def]
    have "h \<notin> set (rev tw)" using r(3) False by auto
    then have ne: "dw \<noteq> []" using r(1) Cons by (metis append_self_conv2 list.set_intros(1) rev.simps(1))
    have hd: "fst (hd dw) \<le> fst e" "hd dw \<in> set xs" using r(1,2) ne by (metis hd_in_set set_rev, metis Un_iff hd_in_set set_append set_rev)
    have "(if fst (hd dw) < fst e then 1 else 0 :: int) = (if fst e \<in> fst ` set xs then 0 else 1)"
    proof (cases "fst (hd dw) < fst e")
      case True
      have "fst y \<noteq> fst e" if "y \<in> set xs" for y
      proof (cases "y \<in> set (rev dw)")
        case True
        have "sorted (List.map fst (rev dw))" using so r(1) by (metis map_append sorted_append)
        then have "fst y \<le> fst (last (rev dw))" using True by (rule sorted_last)
        then show ?thesis using \<open>fst (hd dw) < fst e\<close> ne by (simp add: last_rev)
      next
        case False
        then have "y \<in> set (rev tw)" using that r(1) by (metis Un_iff set_append)
        then show ?thesis using r(3) by auto
      qed
      then have "fst e \<notin> fst ` set xs" by (metis imageE)
      then show ?thesis using True by simp
    next
      case False
      then have "fst (hd dw) = fst e" using hd(1) by simp
      then have "fst e \<in> fst ` set xs" using hd(2) by (metis image_eqI)
      then show ?thesis using False by simp
    qed
    then have "insert_search_step e xs c = Inr (rev dw @ e # rev tw, if fst e \<in> fst ` set xs then 0 else 1,
        c\<lparr>insert_search := insert_search c + 1 + of_nat (length tw)\<rparr>)"
      using False Cons by (simp add: insert_search_step_def dw_def tw_def Let_def)
    then show ?thesis using r(1,3,4) by (intro exI[of _ "rev dw"] exI[of _ "rev tw"] exI[of _ "insert_search c + 1 + of_nat (length tw)"] conjI) simp_all
  qed
qed

lemma cal_insert_ok:
  assumes ok: "cal_ok c" and x: "0 \<le> fst x" "snd x \<notin> snd ` set (all_events c)" and sq: "positive sq"
  shows "\<exists>c'. cal_insert sq x c = Inr c' \<and> cal_ok c' \<and>
    (\<forall>u. at_time u (all_events c') = (if u = fst x then at_time u (all_events c) @ [x] else at_time u (all_events c)))"
proof -
  let ?i = "bucket_of (fst x) c"
  have wf: "cal_wf c" and sh: "shape c" using ok by (simp_all add: cal_ok_def cal_wf_def)
  define c1 where "c1 = (if cal_clock c > fst x then c\<lparr>cal_clock := fst x, lastbucket := ?i\<rparr> else c)"
  have c1: "cal_wf c1" "all_events c1 = all_events c" "buckets c1 = buckets c" "0 \<le> cal_clock c1" "lastbucket c1 = bucket_of (cal_clock c1) c1"
    "\<forall>y\<in>set (all_events c1). cal_clock c1 \<le> fst y" "cal_clock c1 \<le> fst x" "bucket_of (fst x) c1 = ?i"
    using ok x(1) by (auto simp: c1_def cal_ok_def)
  have i: "0 \<le> ?i" "?i < nbuckets c" using bucket_of_bounds[OF sh] by blast+
  note w = wf_bucket[OF wf i]
  define b where "b = buckets c1 ! nat (bucket_of (fst x) c1)"
  have so: "sorted (List.map fst (b_list b))" using w(1) unfolding bucket_ok_def b_def c1(3,8) by blast
  have at: "arr_at ?i (buckets c1) = Inr b" using w(2) by (simp add: b_def c1(3,8))
  obtain ys zs s where st: "insert_search_step x (b_list b) c1 = Inr (ys @ x # zs, if fst x \<in> fst ` set (b_list b) then 0 else 1, c1\<lparr>insert_search := s\<rparr>)"
    "b_list b = ys @ zs" "\<forall>z\<in>set zs. fst x < fst z" "sorted (List.map fst (ys @ x # zs))"
    using insert_search_step_ok[OF so] by blast
  define one :: int where "one = (if fst x \<in> fst ` set (b_list b) then 0 else 1)"
  let ?c2 = "c1\<lparr>insert_search := s\<rparr>"
  have c2: "cal_wf ?c2" "snd x \<notin> snd ` set (all_events ?c2)" "b = buckets ?c2 ! nat (bucket_of (fst x) ?c2)"
    using c1(1,2) x(2) by (simp_all add: b_def)
  note a = wf_add[OF c2(1) x(1) c2(2,3) st(2,4) one_def]
  let ?c3 = "(put_bucket ?i \<lparr> b_list = ys @ x # zs, b_count = b_count b + one \<rparr> ?c2)\<lparr>stat_qsize := stat_qsize ?c2 + one,
      cal_qsize := cal_qsize ?c2 + 1\<rparr>"
  have bo: "bucket_of (fst x) ?c2 = ?i" using c1(8) by simp
  note a = a[unfolded bo]
  have clk: "cal_clock ?c3 = cal_clock c1" "lastbucket ?c3 = bucket_of (cal_clock c1) ?c3"
    using c1(5) by (simp_all add: put_bucket_def)
  have zs: "at_time (fst x) zs = []" unfolding at_time_def filter_empty_conv using st(3) by auto
  have old: "at_time (fst x) (all_events c) = at_time (fst x) ys"
    using at_bucket[OF c1(1), of "fst x"] c1(2) st(2) zs by (simp add: b_def)
  have at3: "at_time u (all_events ?c3) = (if u = fst x then at_time u (all_events c) @ [x] else at_time u (all_events c))" for u
    using a(3)[of u] zs old c1(2) by simp
  have ev: "\<forall>y\<in>set (all_events c'). cal_clock c1 \<le> fst y" if "\<forall>u. at_time u (all_events c') = at_time u (all_events ?c3)" for c'
  proof -
    have "set (all_events c') = set (all_events ?c3)" using that at_time_set by blast
    also have "\<dots> = insert x (set (all_events c))" using arg_cong[OF a(2), of set_mset] c1(2) by simp
    finally show ?thesis using c1(6,7) c1(2) by auto
  qed
  have first: "(if cal_clock c > fst x
      then bind_r (CALENDAR_HASH (fst x) c) (\<lambda>i. Inr (i, c\<lparr>cal_clock := fst x, lastbucket := i\<rparr>))
      else bind_r (CALENDAR_HASH (fst x) c) (\<lambda>i. Inr (i, c))) = Inr (?i, c1)"
    unfolding CALENDAR_HASH_day[OF sh x(1)] c1_def by simp
  have run: "cal_insert sq x c = (if stat_qsize ?c3 > top_threshold ?c3 then resize sq (nbuckets ?c3 * 2) (cal_clock ?c3) ?c3 else Inr ?c3)"
    unfolding cal_insert_def Let_def[of "fst x"] first bind_r_simps prod.case at st(1) one_def[symmetric] Let_def ..
  show ?thesis
  proof (cases "stat_qsize ?c3 > top_threshold ?c3")
    case True
    have nb: "1 \<le> nbuckets ?c3 * 2" using a(1) unfolding cal_wf_def shape_def by linarith
    obtain c' where c': "resize sq (nbuckets ?c3 * 2) (cal_clock ?c3) ?c3 = Inr c'" "cal_wf c'" "cal_clock c' = cal_clock ?c3"
      "lastbucket c' = bucket_of (cal_clock ?c3) c'" "\<forall>u. at_time u (all_events c') = at_time u (all_events ?c3)"
      using resize_ok[OF a(1) nb sq, of "cal_clock ?c3"] clk c1(4) by auto
    have "cal_ok c'" using c'(2-4) ev[OF c'(5)] clk(1) c1(4) by (simp add: cal_ok_def)
    then show ?thesis using run True c'(1,5) at3 by auto
  next
    case False
    have "cal_ok ?c3" using a(1) clk ev[of ?c3] c1(4) by (simp add: cal_ok_def)
    then show ?thesis using run False at3 by auto
  qed
qed

end
