(* ===== verification/CalendarOrder.thy ===== *)
theory CalendarOrder
  imports CalendarQueue
begin

text \<open>
  The calendar queue keeps the contract of an event queue: it takes events in the order of
  their times, those of one time in the order in which they were scheduled, through all
  resizings.
\<close>

subsection \<open>Removing an event\<close>

lemma wf_remove:
  assumes wf: "cal_wf c" and b: "b = buckets c ! nat (bucket_of (fst x) c)" "b_list b = ys @ x # zs"
    and one: "one = (if fst x \<in> fst ` set (ys @ zs) then 0 else 1)"
  defines "c' \<equiv> (put_bucket (bucket_of (fst x) c) \<lparr> b_list = ys @ zs, b_count = b_count b - one \<rparr> c)
    \<lparr>stat_qsize := stat_qsize c - one, cal_qsize := cal_qsize c - 1\<rparr>"
  shows "cal_wf c'" and "at_time u (all_events c') = filter (\<lambda>y. y \<noteq> x) (at_time u (all_events c))"
    and "b_count b - one = int (card (fst ` set (ys @ zs)))" and "b_count b \<le> stat_qsize c"
proof -
  let ?i = "bucket_of (fst x) c" and ?b = "\<lparr> b_list = ys @ zs, b_count = b_count b - one \<rparr>"
  have i: "0 \<le> ?i" "?i < nbuckets c" using bucket_of_bounds wf unfolding cal_wf_def by blast+
  note w = wf_bucket[OF wf i, folded b(1)]
  have "mset (all_events (put_bucket ?i ?b c)) + mset (ys @ x # zs) = mset (all_events c) + mset (ys @ zs)"
    using mset_put_bucket[OF wf i, of ?b] b by simp
  then have m: "mset (all_events c) = add_mset x (mset (all_events (put_bucket ?i ?b c)))" by simp
  have "card (fst ` set (b_list b)) = card (insert (fst x) (fst ` set (ys @ zs)))" using b(2) by simp
  also have "int \<dots> = int (card (fst ` set (ys @ zs))) + one" using one by (simp add: card_insert_if)
  finally show cnt: "b_count b - one = int (card (fst ` set (ys @ zs)))" using w(1) unfolding bucket_ok_def by linarith
  have so: "sorted (List.map fst (ys @ x # zs))" using w(1) b(2) unfolding bucket_ok_def by simp
  have ok: "bucket_ok c ?i ?b" using w(1) b(2) so cnt unfolding bucket_ok_def by (simp add: sorted_append)
  have dx: "distinct (List.map snd (all_events c))" using wf by (simp add: cal_wf_def)
  have "mset (List.map snd (all_events c)) = mset (List.map snd (x # all_events (put_bucket ?i ?b c)))" using m by simp
  then have "distinct (List.map snd (x # all_events (put_bucket ?i ?b c)))" using dx by (metis mset_eq_imp_distinct_iff)
  then have d: "distinct (List.map snd (all_events (put_bucket ?i ?b c)))" by simp
  show wf': "cal_wf c'" unfolding c'_def by (rule wf_replace[OF wf i ok d]) (simp_all add: b(1)[symmetric] b(2))
  have xz: "x \<notin> set ys" "x \<notin> set zs"
  proof -
    have "distinct (all_events c)" using dx distinct_map by blast
    moreover have "mset (all_events c) = mset (x # all_events (put_bucket ?i ?b c))" using m by simp
    ultimately have "x \<notin> set (all_events (put_bucket ?i ?b c))" by (metis distinct.simps(2) mset_eq_imp_distinct_iff)
    moreover have "set (ys @ zs) \<subseteq> set (all_events (put_bucket ?i ?b c))"
      using w(3) by (auto simp: all_events_def put_bucket_def intro!: bexI[of _ ?b] set_update_memI)
    ultimately show "x \<notin> set ys" "x \<notin> set zs" by auto
  qed
  have "buckets c' ! nat (bucket_of u c') = (if bucket_of u c = ?i then ?b else buckets c ! nat (bucket_of u c))"
    using w(3) bucket_of_bounds[of c u] wf i(1) unfolding cal_wf_def c'_def by (simp add: put_bucket_def nth_list_update nat_eq_iff2)
  moreover have "filter (\<lambda>y. y \<noteq> x) (at_time u ws) = at_time u ws" if "x \<notin> set ws" for ws
    using that by (auto simp: filter_id_conv)
  moreover have "filter (\<lambda>y. y \<noteq> x) (at_time u ws) = at_time u ws" if "u \<noteq> fst x" for ws
    using that by (auto simp: filter_id_conv)
  ultimately show "at_time u (all_events c') = filter (\<lambda>y. y \<noteq> x) (at_time u (all_events c))"
    using at_bucket[OF wf', of u] at_bucket[OF wf, of u] b xz by auto
  have "0 \<le> b_count y" if "y \<in> set (buckets c)" for y
    using wf that unfolding cal_wf_def bucket_ok_def by (metis in_set_conv_nth of_nat_0_le_iff)
  then have "b_count b \<le> sum_list (List.map b_count (buckets c))"
    using w(3) b(1) by (intro member_le_sum_list) auto
  then show "b_count b \<le> stat_qsize c" using wf by (simp add: cal_wf_def)
qed

lemma takeWhile_not: "x \<notin> set ys \<Longrightarrow> takeWhile (\<lambda>y. y \<noteq> x) (ys @ x # zs) = ys"
  by (induction ys) auto

text \<open>An event has its time for itself if and only if its two neighbours in the circle have others.\<close>

lemma neighbours:
  assumes so: "sorted (List.map fst (ys @ x # zs))"
  defines "xs \<equiv> ys @ x # zs" and "k \<equiv> length ys" and "n \<equiv> length (ys @ x # zs)"
  shows "n = 1 \<or> fst (xs ! ((k + 1) mod n)) \<noteq> fst x \<and> fst (xs ! ((k + n - 1) mod n)) \<noteq> (fst x :: rat) \<longleftrightarrow> fst x \<notin> fst ` set (ys @ zs)"
proof -
  have next': "xs ! ((k + 1) mod n) = (if zs \<noteq> [] then hd zs else hd (ys @ [x]))"
  proof (cases zs)
    case Nil
    then show ?thesis by (cases ys) (simp_all add: xs_def k_def n_def)
  next
    case (Cons z zs')
    then show ?thesis by (simp add: xs_def k_def n_def nth_append)
  qed
  have prev: "xs ! ((k + n - 1) mod n) = (if ys \<noteq> [] then last ys else last (x # zs))"
  proof (cases "ys = []")
    case True
    then show ?thesis by (simp add: xs_def k_def n_def last_conv_nth)
  next
    case False
    then have k: "0 < k" "k < n" by (simp_all add: k_def n_def)
    then have "k + n - 1 = k - 1 + n" by simp
    then have "(k + n - 1) mod n = k - 1" using k by (metis less_imp_diff_less mod_add_self2 mod_less)
    then show ?thesis using False by (simp add: xs_def k_def nth_append last_conv_nth)
  qed
  have le: "fst y \<le> fst x" if "y \<in> set ys" for y using so that by (simp add: sorted_append)
  have ge: "fst x \<le> fst z" if "z \<in> set zs" for z using so that by (simp add: sorted_append)
  have hz: "fst (hd zs) \<le> fst z" if "z \<in> set zs" for z using so that by (intro sorted_hd) (simp_all add: sorted_append)
  have ly: "fst y \<le> fst (last ys)" if "y \<in> set ys" for y using so that by (intro sorted_last) (simp_all add: sorted_append)
  have n1: "n = 1 \<longleftrightarrow> ys = [] \<and> zs = []" by (auto simp: n_def)
  have mem: "fst x \<in> fst ` set (ys @ zs) \<longleftrightarrow> (ys \<noteq> [] \<and> fst (last ys) = fst x) \<or> (zs \<noteq> [] \<and> fst (hd zs) = fst x)"
  proof
    assume "fst x \<in> fst ` set (ys @ zs)"
    then obtain y where y: "fst x = fst y" "y \<in> set (ys @ zs)" by (rule imageE)
    then have "y \<in> set ys \<or> y \<in> set zs" "fst y = fst x" by simp_all
    then show "(ys \<noteq> [] \<and> fst (last ys) = fst x) \<or> (zs \<noteq> [] \<and> fst (hd zs) = fst x)"
      using ly[of y] hz[of y] le[of "last ys"] ge[of "hd zs"] by (metis antisym empty_iff hd_in_set last_in_set list.set(1))
  next
    assume "(ys \<noteq> [] \<and> fst (last ys) = fst x) \<or> (zs \<noteq> [] \<and> fst (hd zs) = fst x)"
    then show "fst x \<in> fst ` set (ys @ zs)"
    proof
      assume "ys \<noteq> [] \<and> fst (last ys) = fst x"
      then show ?thesis by (intro image_eqI[of _ _ "last ys"]) auto
    next
      assume "zs \<noteq> [] \<and> fst (hd zs) = fst x"
      then show ?thesis by (intro image_eqI[of _ _ "hd zs"]) auto
    qed
  qed
  have "fst (hd ys) = fst x \<Longrightarrow> ys \<noteq> [] \<Longrightarrow> fst (last ys) = fst x"
    using ly[of "hd ys"] le[of "last ys"] by (simp add: antisym)
  moreover have "fst (last zs) = fst x \<Longrightarrow> zs \<noteq> [] \<Longrightarrow> fst (hd zs) = fst x"
    using hz[of "last zs"] ge[of "hd zs"] by (simp add: antisym)
  ultimately show ?thesis unfolding next' prev n1 mem by (cases "ys = []"; cases "zs = []") auto
qed

lemma cal_cancel_ok:
  assumes ok: "cal_ok c" and x: "x \<in> set (all_events c)"
  shows "\<exists>c'. cal_cancel x c = Inr c' \<and> cal_ok c' \<and> (\<forall>u. at_time u (all_events c') = filter (\<lambda>y. y \<noteq> x) (at_time u (all_events c)))"
proof -
  have wf: "cal_wf c" and sh: "shape c" using ok by (simp_all add: cal_ok_def cal_wf_def)
  let ?i = "bucket_of (fst x) c"
  have i: "0 \<le> ?i" "?i < nbuckets c" using bucket_of_bounds[OF sh] by blast+
  define b where "b = buckets c ! nat ?i"
  note w = wf_bucket[OF wf i, folded b_def]
  have "x \<in> set (at_time (fst x) (all_events c))" using x by simp
  then have "x \<in> set (b_list b)" unfolding at_bucket[OF wf] b_def by simp
  then obtain ys zs where sp: "b_list b = ys @ x # zs" "x \<notin> set ys" by (metis split_list_first)
  have so: "sorted (List.map fst (ys @ x # zs))" using w(1) sp unfolding bucket_ok_def by simp
  define one :: int where "one = (if fst x \<in> fst ` set (ys @ zs) then 0 else 1)"
  let ?c = "(put_bucket ?i \<lparr> b_list = ys @ zs, b_count = b_count b - one \<rparr> c)\<lparr>stat_qsize := stat_qsize c - one, cal_qsize := cal_qsize c - 1\<rparr>"
  note r = wf_remove[OF wf b_def sp(1) one_def]
  have k: "length (takeWhile (\<lambda>y. y \<noteq> x) (b_list b)) = length ys" unfolding sp(1) takeWhile_not[OF sp(2)] ..
  have cut: "take (length ys) (b_list b) @ drop (length ys + 1) (b_list b) = ys @ zs" by (simp add: sp(1))
  have n: "length ys \<noteq> length (b_list b)" by (simp add: sp(1))
  have on: "(if length (b_list b) = 1 \<or> fst (b_list b ! ((length ys + 1) mod length (b_list b))) \<noteq> fst x \<and>
      fst (b_list b ! ((length ys + length (b_list b) - 1) mod length (b_list b))) \<noteq> fst x then 1 else 0) = one"
    using neighbours[OF so] unfolding sp(1) one_def by simp
  have a1: "\<not> (one = 1 \<and> (stat_qsize c - 1 < 0 \<or> b_count b - 1 < 0))"
  proof
    assume "one = 1 \<and> (stat_qsize c - 1 < 0 \<or> b_count b - 1 < 0)"
    then show False using r(3,4) by auto
  qed
  have a2: "\<not> (b_count b - one = 0 \<and> ys @ zs \<noteq> [])"
  proof
    assume a: "b_count b - one = 0 \<and> ys @ zs \<noteq> []"
    then have "card (fst ` set (ys @ zs)) = 0" using r(3) by simp
    then have "fst ` set (ys @ zs) = {}" by simp
    then show False using a by simp
  qed
  have h: "CALENDAR_HASH (fst x) c = Inr ?i" using CALENDAR_HASH_day[OF sh wf_times[OF wf x]] .
  have run: "cal_cancel x c = Inr ?c"
    unfolding cal_cancel_def h bind_r_simps w(2) Let_def k if_not_P[OF n] on cut if_not_P[OF a1] if_not_P[OF a2] ..
  have "set (all_events ?c) \<subseteq> set (all_events c)"
  proof
    fix y
    assume "y \<in> set (all_events ?c)"
    then have "y \<in> set (at_time (fst y) (all_events ?c))" by simp
    then show "y \<in> set (all_events c)" unfolding r(2) by simp
  qed
  moreover have "cal_clock ?c = cal_clock c" "lastbucket ?c = lastbucket c" "bucket_of (cal_clock c) ?c = bucket_of (cal_clock c) c"
    by (simp_all add: put_bucket_def bucket_of_def day_def)
  ultimately have "cal_ok ?c" using ok r(1) unfolding cal_ok_def by auto
  then show ?thesis using run r(2) by blast
qed

subsection \<open>The search for the next event\<close>

text \<open>The buckets in the order of the search, and the events of the current year.\<close>

definition pos :: "calendar \<Rightarrow> nat \<Rightarrow> int" where
  "pos c k = (day (cal_clock c) c + int k) mod nbuckets c"

definition bl :: "calendar \<Rightarrow> int \<Rightarrow> cal_event list" where
  "bl c i = b_list (buckets c ! nat i)"

definition near :: "calendar \<Rightarrow> cal_event \<Rightarrow> bool" where
  "near c x \<longleftrightarrow> day (fst x) c - day (cal_clock c) c < nbuckets c"

lemma day_bounds:
  assumes "shape c"
  shows "cal_width c * of_int (day t c) \<le> t" and "t < cal_width c * (of_int (day t c) + 1)"
proof -
  have w: "0 < cal_width c" using assms by (simp add: shape_def)
  have "of_int (day t c) \<le> t / cal_width c" unfolding day_def by (rule of_int_floor_le)
  then show "cal_width c * of_int (day t c) \<le> t" unfolding pos_le_divide_eq[OF w] by (simp only: mult.commute)
  have "t / cal_width c < of_int (day t c) + 1" using floor_correct[of "t / cal_width c"] by (simp add: day_def)
  then show "t < cal_width c * (of_int (day t c) + 1)" using w by (simp add: pos_divide_less_eq mult.commute)
qed

lemma day_mono: "shape c \<Longrightarrow> s \<le> t \<Longrightarrow> day s c \<le> day t c"
  unfolding day_def shape_def by (intro floor_mono divide_right_mono) auto

lemma day_less: "shape c \<Longrightarrow> day s c < day t c \<Longrightarrow> s < t"
  using day_mono[of c t s] by (cases "s < t") auto

lemma pos_bounds: "shape c \<Longrightarrow> 0 \<le> pos c k \<and> pos c k < nbuckets c"
  by (simp add: pos_def shape_def)

lemma pos_Suc:
  assumes "shape c"
  shows "(if pos c k + 1 = nbuckets c then 0 else pos c k + 1) = pos c (Suc k)"
proof -
  have n: "0 < nbuckets c" using assms by (simp add: shape_def)
  have "pos c (Suc k) = (pos c k + 1) mod nbuckets c" by (simp add: pos_def mod_simps algebra_simps)
  then show ?thesis using pos_bounds[OF assms, of k] by auto
qed

lemma pos_inj:
  assumes "shape c" and "j < nat (nbuckets c)" and "k < nat (nbuckets c)" and "pos c j = pos c k"
  shows "j = k"
proof -
  have "nbuckets c dvd (int j - int k)" using assms(4) by (simp add: pos_def mod_eq_dvd_iff)
  then have dv: "nbuckets c dvd (int j - int k)" .
  show ?thesis
  proof (rule ccontr)
    assume "j \<noteq> k"
    then have "int j - int k \<noteq> 0" by simp
    then have "\<bar>nbuckets c\<bar> \<le> \<bar>int j - int k\<bar>" using dvd_imp_le_int dv by blast
    then show False using assms(2,3) by linarith
  qed
qed

text \<open>An event that is not before the clock is in the bucket of its day; the search meets it in the
  current year or later.\<close>

lemma pos_off:
  assumes sh: "shape c" and x: "cal_clock c \<le> fst x"
  defines "k \<equiv> nat ((day (fst x) c - day (cal_clock c) c) mod nbuckets c)"
  shows "bucket_of (fst x) c = pos c k" and "k < nat (nbuckets c)"
    and "near c x \<Longrightarrow> day (fst x) c = day (cal_clock c) c + int k"
    and "\<not> near c x \<Longrightarrow> day (cal_clock c) c + int k + nbuckets c \<le> day (fst x) c"
    and "day (cal_clock c) c + int k \<le> day (fst x) c"
proof -
  let ?d = "day (fst x) c - day (cal_clock c) c" and ?n = "nbuckets c"
  have n: "0 < ?n" using sh by (simp add: shape_def)
  have d: "0 \<le> ?d" using day_mono[OF sh x] by simp
  have k: "int k = ?d mod ?n" using n by (simp add: k_def)
  show "bucket_of (fst x) c = pos c k" unfolding bucket_of_def pos_def k by (simp add: mod_simps)
  show "k < nat ?n" using n k by (metis pos_mod_bound zless_nat_conj of_nat_less_iff int_nat_eq less_imp_le)
  show "near c x \<Longrightarrow> day (fst x) c = day (cal_clock c) c + int k" using k d by (simp add: near_def)
  have "?d = ?d div ?n * ?n + ?d mod ?n" by simp
  moreover have "?n \<le> ?d div ?n * ?n" if "?n \<le> ?d"
  proof -
    have "1 \<le> ?d div ?n" using that n by (simp add: pos_imp_zdiv_pos_iff int_one_le_iff_zero_less)
    then show ?thesis using n by simp
  qed
  ultimately show "day (cal_clock c) c + int k + ?n \<le> day (fst x) c" if "\<not> near c x"
    using k that unfolding near_def by linarith
  show "day (cal_clock c) c + int k \<le> day (fst x) c" using k zmod_le_nonneg_dividend[OF d, of ?n] by linarith
qed

text \<open>The test of \<^verbatim>\<open>CAL_DEQUEUE\<close> tells whether the event is in the current year.\<close>

lemma test_near:
  assumes sh: "shape c" and x: "cal_clock c \<le> fst x" and k: "bucket_of (fst x) c = pos c k" "k < nat (nbuckets c)"
    and d: "cal_width c * (of_nat k + 1) \<le> d" "d \<le> cal_width c * (of_int (nbuckets c) + of_nat k - 1)"
  shows "fst x - cal_clock c < d \<longleftrightarrow> near c x"
proof -
  let ?w = "cal_width c" and ?D = "of_int (day (cal_clock c) c) :: rat" and ?X = "of_int (day (fst x) c) :: rat"
  have w: "0 < ?w" using sh by (simp add: shape_def)
  note o = pos_off[OF sh x]
  have kk: "nat ((day (fst x) c - day (cal_clock c) c) mod nbuckets c) = k" using pos_inj[OF sh _ k(2)] o(1,2) k(1) by simp
  note o = o(3-4)[unfolded kk]
  note bx = day_bounds[OF sh, of "fst x"] and bc = day_bounds[OF sh, of "cal_clock c"]
  show ?thesis
  proof (cases "near c x")
    case True
    then have "?X = ?D + of_nat k" using o(1) by simp
    then have "fst x < ?w * (?D + of_nat k + 1)" using bx(2) by simp
    then have "fst x - cal_clock c < ?w * (of_nat k + 1)" using bc(1) by (simp add: algebra_simps)
    then show ?thesis using True d(1) by simp
  next
    case False
    then have "of_int (day (cal_clock c) c + int k + nbuckets c) \<le> ?X" using o(2)[OF False] by (simp only: of_int_le_iff)
    then have "?w * (?D + of_nat k + of_int (nbuckets c)) \<le> ?w * ?X" using w by simp
    then have "?w * (?D + of_nat k + of_int (nbuckets c)) \<le> fst x" using bx(1) by simp
    then have "?w * (of_int (nbuckets c) + of_nat k - 1) < fst x - cal_clock c" using bc(2) by (simp add: algebra_simps)
    then show ?thesis using False d(2) by simp
  qed
qed

text \<open>What the search knows after \<^verbatim>\<open>k\<close> buckets, and what it has found.\<close>

definition scanned :: "calendar \<Rightarrow> nat \<Rightarrow> (cal_event \<times> int) option \<Rightarrow> bool" where
  "scanned c k m \<longleftrightarrow> (\<forall>j<k. \<forall>x\<in>set (bl c (pos c j)). \<not> near c x) \<and>
     (case m of None \<Rightarrow> \<forall>j<k. bl c (pos c j) = []
      | Some (e, i) \<Rightarrow> bl c i \<noteq> [] \<and> e = hd (bl c i) \<and> i = bucket_of (fst e) c \<and> (\<forall>j<k. \<forall>x\<in>set (bl c (pos c j)). fst e \<le> fst x))"

definition found :: "calendar \<Rightarrow> cal_event \<Rightarrow> int \<Rightarrow> bool" where
  "found c e i \<longleftrightarrow> bl c i \<noteq> [] \<and> e = hd (bl c i) \<and> i = bucket_of (fst e) c \<and> (\<forall>x\<in>set (all_events c). fst e \<le> fst x)"

definition search :: "calendar \<Rightarrow> nat \<Rightarrow> ((cal_event \<times> int) option \<times> scan) result \<Rightarrow> bool" where
  "search c k r \<longleftrightarrow> (\<exists>h e i j m. r = Inr (Some (e, i), j, m, c\<lparr>head_search := h\<rparr>) \<and> found c e i) \<or>
     (\<exists>h m. r = Inr (None, pos c k, m, c\<lparr>head_search := h\<rparr>) \<and> scanned c k m)"

lemma bl_events:
  assumes "cal_ok c"
  shows "0 \<le> i \<Longrightarrow> i < nbuckets c \<Longrightarrow> sorted (List.map fst (bl c i))"
    and "0 \<le> i \<Longrightarrow> i < nbuckets c \<Longrightarrow> x \<in> set (bl c i) \<Longrightarrow> bucket_of (fst x) c = i"
    and "0 \<le> i \<Longrightarrow> i < nbuckets c \<Longrightarrow> x \<in> set (bl c i) \<Longrightarrow> cal_clock c \<le> fst x"
    and "x \<in> set (all_events c) \<longleftrightarrow> x \<in> set (bl c (bucket_of (fst x) c))"
proof -
  have wf: "cal_wf c" and clk: "\<forall>x\<in>set (all_events c). cal_clock c \<le> fst x" using assms by (simp_all add: cal_ok_def)
  show so: "sorted (List.map fst (bl c i))" and bo: "x \<in> set (bl c i) \<Longrightarrow> bucket_of (fst x) c = i" if "0 \<le> i" "i < nbuckets c" for i x
    using wf_bucket(1)[OF wf that] unfolding bucket_ok_def bl_def by blast+
  have "x \<in> set (all_events c) \<longleftrightarrow> x \<in> set (at_time (fst x) (all_events c))" for x by simp
  then show mem: "x \<in> set (all_events c) \<longleftrightarrow> x \<in> set (bl c (bucket_of (fst x) c))" for x
    unfolding at_bucket[OF wf] bl_def by simp
  show "cal_clock c \<le> fst x" if "0 \<le> i" "i < nbuckets c" "x \<in> set (bl c i)"
    using clk mem[of x] bo[OF that] that(3) by simp
qed

lemma day_later: "shape c \<Longrightarrow> day (fst x) c < day (fst y) c \<Longrightarrow> fst x \<le> fst y"
  using day_less by (simp add: less_imp_le)

lemma CAL_DEQUEUE_search:
  assumes ok: "cal_ok c" and sc: "scanned c k m" and k: "k < nat (nbuckets c)"
    and d: "cal_width c * (of_nat k + 1) \<le> d" "d \<le> cal_width c * (of_int (nbuckets c) + of_nat k - 1)"
  shows "search c (Suc k) (CAL_DEQUEUE d (pos c k, m, c\<lparr>head_search := h\<rparr>))"
proof -
  have wf: "cal_wf c" and sh: "shape c" using ok by (simp_all add: cal_ok_def cal_wf_def)
  let ?i = "pos c k"
  have i: "0 \<le> ?i" "?i < nbuckets c" using pos_bounds[OF sh] by blast+
  note be = bl_events[OF ok]
  have at: "arr_at ?i (buckets c) = Inr (buckets c ! nat ?i)" using wf_bucket(2)[OF wf i] .
  have wrap: "(if ?i + 1 = nbuckets c then 0 else ?i + 1) = pos c (Suc k)" by (rule pos_Suc[OF sh])
  show ?thesis
  proof (cases "bl c ?i")
    case Nil
    have "CAL_DEQUEUE d (?i, m, c\<lparr>head_search := h\<rparr>) = Inr (None, pos c (Suc k), m, c\<lparr>head_search := h + 1\<rparr>)"
      using Nil at by (simp add: bl_def Let_def wrap[symmetric])
    moreover have "scanned c (Suc k) m"
      using sc Nil unfolding scanned_def less_Suc_eq by (cases m) auto
    ultimately show ?thesis unfolding search_def by blast
  next
    case (Cons e es)
    have bo: "bucket_of (fst e) c = ?i" and clk: "cal_clock c \<le> fst e" using be(2,3)[OF i, of e] Cons by simp_all
    have least: "fst e \<le> fst y" if "y \<in> set (bl c ?i)" for y using sorted_hd[OF be(1)[OF i] that] Cons by simp
    have test: "fst e - cal_clock c < d \<longleftrightarrow> near c e" by (rule test_near[OF sh clk bo k d])
    show ?thesis
    proof (cases "near c e")
      case True
      have de: "day (fst e) c = day (cal_clock c) c + int k"
      proof -
        note o = pos_off[OF sh clk]
        have "nat ((day (fst e) c - day (cal_clock c) c) mod nbuckets c) = k" using pos_inj[OF sh _ k] o(1,2) bo by simp
        then show ?thesis using o(3)[OF True] by simp
      qed
      have "fst e \<le> fst x" if x: "x \<in> set (all_events c)" for x
      proof -
        define j where "j = nat ((day (fst x) c - day (cal_clock c) c) mod nbuckets c)"
        have xb: "x \<in> set (bl c (bucket_of (fst x) c))" using be(4) x by blast
        have cx: "cal_clock c \<le> fst x" using ok x by (simp add: cal_ok_def)
        note o = pos_off[OF sh cx, folded j_def]
        consider "j < k" | "j = k" | "k < j" by linarith
        then show ?thesis
        proof cases
          case 1
          then have "\<not> near c x" using sc xb o(1) by (simp add: scanned_def)
          then have "day (fst e) c < day (fst x) c" using o(4) de k by linarith
          then show ?thesis by (rule day_later[OF sh])
        next
          case 2
          then show ?thesis using least xb o(1) by simp
        next
          case 3
          then have "day (fst e) c < day (fst x) c" using o(5) de by linarith
          then show ?thesis by (rule day_later[OF sh])
        qed
      qed
      then have "found c e ?i" using Cons bo by (simp add: found_def)
      moreover have "CAL_DEQUEUE d (?i, m, c\<lparr>head_search := h\<rparr>) = Inr (Some (e, ?i), ?i, m, c\<lparr>head_search := h + 1\<rparr>)"
        using Cons at True test by (simp add: bl_def Let_def)
      ultimately show ?thesis unfolding search_def by blast
    next
      case False
      have far: "\<not> near c x" if "x \<in> set (bl c ?i)" for x
        using False day_mono[OF sh least[OF that]] by (simp add: near_def)
      let ?m = "case m of None \<Rightarrow> Some (e, ?i) | Some (e', l) \<Rightarrow> if fst e' > fst e then Some (e, ?i) else m"
      have "CAL_DEQUEUE d (?i, m, c\<lparr>head_search := h\<rparr>) = Inr (None, pos c (Suc k), ?m, c\<lparr>head_search := h + 1\<rparr>)"
        using Cons at False test by (simp add: bl_def Let_def wrap[symmetric])
      moreover have "scanned c (Suc k) ?m"
      proof (cases m)
        case None
        have old: "\<forall>j<k. bl c (pos c j) = []" "\<forall>j<k. \<forall>x\<in>set (bl c (pos c j)). \<not> near c x"
          using sc None by (simp_all add: scanned_def)
        have "\<forall>j<Suc k. \<forall>x\<in>set (bl c (pos c j)). \<not> near c x" using old(2) far less_Suc_eq by metis
        moreover have "\<forall>j<Suc k. \<forall>x\<in>set (bl c (pos c j)). fst e \<le> fst x"
          using old(1) least less_Suc_eq by (metis empty_iff list.set(1))
        moreover have "bl c ?i \<noteq> []" "e = hd (bl c ?i)" "?i = bucket_of (fst e) c" using Cons bo by simp_all
        ultimately show ?thesis unfolding scanned_def None option.case prod.case by blast
      next
        case (Some ei)
        obtain e' l where m: "m = Some (e', l)" using Some by (cases ei) simp
        have old: "\<forall>j<k. \<forall>x\<in>set (bl c (pos c j)). \<not> near c x" "\<forall>j<k. \<forall>x\<in>set (bl c (pos c j)). fst e' \<le> fst x"
          "bl c l \<noteq> []" "e' = hd (bl c l)" "l = bucket_of (fst e') c"
          using sc unfolding scanned_def m option.case prod.case by blast+
        have nn: "\<forall>j<Suc k. \<forall>x\<in>set (bl c (pos c j)). \<not> near c x" using old(1) far less_Suc_eq by metis
        show ?thesis
        proof (cases "fst e' > fst e")
          case True
          have "\<forall>j<Suc k. \<forall>x\<in>set (bl c (pos c j)). fst e \<le> fst x"
            using old(2) least True less_Suc_eq by (metis less_imp_le order_trans)
          moreover have "bl c ?i \<noteq> []" "e = hd (bl c ?i)" "?i = bucket_of (fst e) c" using Cons bo by simp_all
          ultimately show ?thesis using nn unfolding scanned_def m option.case prod.case if_P[OF True] by blast
        next
          case False
          have "\<forall>j<Suc k. \<forall>x\<in>set (bl c (pos c j)). fst e' \<le> fst x"
            using old(2) least False less_Suc_eq by (metis not_less order_trans)
          then show ?thesis using nn old(3-5) unfolding scanned_def m option.case prod.case if_not_P[OF False] by blast
        qed
      qed
      ultimately show ?thesis unfolding search_def by blast
    qed
  qed
qed

lemma scan_then_search:
  assumes "search c k r" and "\<And>m h. scanned c k m \<Longrightarrow> search c k' (f (pos c k, m, c\<lparr>head_search := h\<rparr>))"
  shows "search c k' (scan_then r f)"
  using assms(1) unfolding search_def[of c k]
proof (elim disjE exE conjE)
  fix h e i j m
  assume "r = Inr (Some (e, i), j, m, c\<lparr>head_search := h\<rparr>)" "found c e i"
  then show ?thesis by (auto simp: scan_then_def search_def)
next
  fix h m
  assume "r = Inr (None, pos c k, m, c\<lparr>head_search := h\<rparr>)" "scanned c k m"
  then show ?thesis using assms(2)[of m h] by (simp add: scan_then_def)
qed

lemma scan_year_search:
  assumes ok: "cal_ok c" and "scanned c k m" and "2 \<le> k" and "k < nat (nbuckets c)" and "nat (nbuckets c) - k \<le> fuel"
  shows "search c (nat (nbuckets c) - 1) (scan_year fuel (pos c (nat (nbuckets c) - 1)) (pos c k, m, c\<lparr>head_search := h\<rparr>))"
  using assms(2-)
proof (induction fuel arbitrary: k m h)
  case (Suc fuel)
  have sh: "shape c" using ok by (simp add: cal_ok_def cal_wf_def)
  show ?case
  proof (cases "k = nat (nbuckets c) - 1")
    case True
    then show ?thesis using Suc.prems(1) by (auto simp: search_def)
  next
    case False
    then have ne: "pos c k \<noteq> pos c (nat (nbuckets c) - 1)" using pos_inj[OF sh, of k "nat (nbuckets c) - 1"] Suc.prems(3) by auto
    have w: "0 < cal_width c" "diff2 c = cal_width c * of_int (nbuckets c)" using sh by (simp_all add: shape_def)
    have "of_nat k + 1 = (of_int (int k + 1) :: rat)" by simp
    also have "\<dots> \<le> of_int (nbuckets c)" using Suc.prems(3) by (simp only: of_int_le_iff)
    finally have d1: "cal_width c * (of_nat k + 1) \<le> diff2 c" using w by simp
    have "(1::rat) \<le> of_nat k" using Suc.prems(2) by simp
    then have d2: "diff2 c \<le> cal_width c * (of_int (nbuckets c) + of_nat k - 1)" using w by simp
    have st: "search c (Suc k) (CAL_DEQUEUE (diff2 c) (pos c k, m, c\<lparr>head_search := h\<rparr>))"
      by (rule CAL_DEQUEUE_search[OF ok Suc.prems(1,3) d1 d2])
    have "search c (nat (nbuckets c) - 1) (scan_then (CAL_DEQUEUE (diff2 c) (pos c k, m, c\<lparr>head_search := h\<rparr>))
        (scan_year fuel (pos c (nat (nbuckets c) - 1))))"
      by (rule scan_then_search[OF st], rule Suc.IH) (use Suc.prems False in auto)
    then show ?thesis using ne by (simp add: scan_then_def)
  qed
qed simp

lemma scan_last_search:
  assumes ok: "cal_ok c" and ev: "all_events c \<noteq> []" and sc: "scanned c (nat (nbuckets c) - 1) m"
  shows "\<exists>h e i j m'. scan_last (pos c (nat (nbuckets c) - 1), m, c\<lparr>head_search := h0\<rparr>) = Inr (Some (e, i), j, m', c\<lparr>head_search := h\<rparr>) \<and> found c e i"
proof -
  have wf: "cal_wf c" and sh: "shape c" using ok by (simp_all add: cal_ok_def cal_wf_def)
  let ?k = "nat (nbuckets c) - 1"
  let ?i = "pos c ?k"
  have i: "0 \<le> ?i" "?i < nbuckets c" using pos_bounds[OF sh] by blast+
  note be = bl_events[OF ok]
  have at: "arr_at ?i (buckets c) = Inr (buckets c ! nat ?i)" using wf_bucket(2)[OF wf i] .
  have all: "x \<in> set (bl c ?i) \<or> (\<exists>j<?k. x \<in> set (bl c (pos c j)))" if "x \<in> set (all_events c)" for x
  proof -
    have "cal_clock c \<le> fst x" using ok that by (simp add: cal_ok_def)
    note o = pos_off(1,2)[OF sh this]
    have "x \<in> set (bl c (bucket_of (fst x) c))" using be(4) that by blast
    then show ?thesis using o by (metis Suc_pred less_Suc_eq less_nat_zero_code neq0_conv One_nat_def)
  qed
  have hd: "bucket_of (fst e) c = ?i \<and> (\<forall>x\<in>set (bl c ?i). fst e \<le> fst x)" if "bl c ?i = e # es" for e es
  proof -
    have "bucket_of (fst e) c = ?i" using be(2)[OF i, of e] that by simp
    moreover have "fst e \<le> fst x" if "x \<in> set (bl c ?i)" for x using sorted_hd[OF be(1)[OF i] that] \<open>bl c ?i = e # es\<close> by simp
    ultimately show ?thesis by blast
  qed
  let ?r = "scan_last (?i, m, c\<lparr>head_search := h0\<rparr>)"
  have "\<exists>e i. ?r = Inr (Some (e, i), ?i, m, c\<lparr>head_search := h0\<rparr>) \<and> found c e i"
  proof (cases m)
    case None
    then have "\<forall>j<?k. bl c (pos c j) = []" using sc by (simp add: scanned_def)
    then have only: "x \<in> set (bl c ?i)" if "x \<in> set (all_events c)" for x using all[OF that] by auto
    then have "bl c ?i \<noteq> []" using ev by (metis last_in_set empty_iff list.set(1))
    then obtain e es where e: "bl c ?i = e # es" by (cases "bl c ?i") auto
    have "fst e \<le> fst x" if "x \<in> set (all_events c)" for x using only[OF that] hd[OF e] by blast
    then have "found c e ?i" using e hd[OF e] by (simp add: found_def)
    moreover have "?r = Inr (Some (e, ?i), ?i, m, c\<lparr>head_search := h0\<rparr>)" using None e at by (simp add: scan_last_def bl_def)
    ultimately show ?thesis by blast
  next
    case (Some ei)
    obtain e' l where m: "m = Some (e', l)" using Some by (cases ei) simp
    have old: "\<forall>j<?k. \<forall>x\<in>set (bl c (pos c j)). fst e' \<le> fst x" "bl c l \<noteq> []" "e' = hd (bl c l)" "l = bucket_of (fst e') c"
      using sc unfolding scanned_def m option.case prod.case by blast+
    show ?thesis
    proof (cases "bl c ?i")
      case Nil
      then have "fst e' \<le> fst x" if "x \<in> set (all_events c)" for x using all[OF that] old(1) by auto
      then have "found c e' l" using old unfolding found_def by blast
      moreover have "?r = Inr (Some (e', l), ?i, m, c\<lparr>head_search := h0\<rparr>)" using m Nil at by (simp add: scan_last_def bl_def)
      ultimately show ?thesis by blast
    next
      case (Cons e es)
      show ?thesis
      proof (cases "fst e' < fst e")
        case True
        then have "fst e' \<le> fst x" if "x \<in> set (all_events c)" for x using all[OF that] old(1) hd[OF Cons] by fastforce
        then have "found c e' l" using old unfolding found_def by blast
        moreover have "?r = Inr (Some (e', l), ?i, m, c\<lparr>head_search := h0\<rparr>)" using m Cons at True by (simp add: scan_last_def bl_def)
        ultimately show ?thesis by blast
      next
        case False
        then have "fst e \<le> fst x" if "x \<in> set (all_events c)" for x using all[OF that] old(1) hd[OF Cons] by fastforce
        then have "found c e ?i" using Cons hd[OF Cons] by (simp add: found_def)
        moreover have "?r = Inr (Some (e, ?i), ?i, m, c\<lparr>head_search := h0\<rparr>)" using m Cons at False by (simp add: scan_last_def bl_def)
        ultimately show ?thesis by blast
      qed
    qed
  qed
  then show ?thesis by blast
qed

lemma scan_last_then:
  assumes ok: "cal_ok c" and ev: "all_events c \<noteq> []" and r: "search c (nat (nbuckets c) - 1) r"
  shows "\<exists>h e i j m. scan_then r scan_last = Inr (Some (e, i), j, m, c\<lparr>head_search := h\<rparr>) \<and> found c e i"
  using r unfolding search_def
proof (elim disjE exE conjE)
  fix h e i j m
  assume "r = Inr (Some (e, i), j, m, c\<lparr>head_search := h\<rparr>)" "found c e i"
  then show ?thesis by (intro exI[of _ h] exI[of _ e] exI[of _ i] exI[of _ j] exI[of _ m]) (simp add: scan_then_def)
next
  fix h m
  assume r: "r = Inr (None, pos c (nat (nbuckets c) - 1), m, c\<lparr>head_search := h\<rparr>)" and sc: "scanned c (nat (nbuckets c) - 1) m"
  show ?thesis using scan_last_search[OF ok ev sc, of h] unfolding scan_then_def r by simp
qed

lemma cal_head_ok:
  assumes ok: "cal_ok c" and ev: "all_events c \<noteq> []"
  shows "\<exists>e h. cal_head c = Inr (Some e, c\<lparr>head_search := h, lastbucket := bucket_of (fst e) c, cal_clock := fst e\<rparr>) \<and>
    found c e (bucket_of (fst e) c)"
proof -
  have wf: "cal_wf c" and sh: "shape c" using ok by (simp_all add: cal_ok_def cal_wf_def)
  have n: "4 \<le> nbuckets c" and w: "0 < cal_width c" "diff0 c = cal_width c * of_int (nbuckets c) / 2" "diff1 c = cal_width c * of_int (nbuckets c) / 2 + cal_width c"
    using sh by (simp_all add: shape_def)
  have nr: "(4::rat) \<le> of_int (nbuckets c)" using n by simp
  have lb: "lastbucket c = pos c 0" using ok by (simp add: cal_ok_def pos_def bucket_of_def)
  have k0: "0 < nat (nbuckets c)" "1 < nat (nbuckets c)" "2 < nat (nbuckets c)" using n by simp_all
  have s0: "scanned c 0 None" by (simp add: scanned_def)
  have t0: "cal_width c * (of_nat 0 + 1) \<le> diff0 c" "diff0 c \<le> cal_width c * (of_int (nbuckets c) + of_nat 0 - 1)"
  proof -
    have "of_nat 0 + 1 \<le> (of_int (nbuckets c) / 2 :: rat)" using nr by simp
    then have "cal_width c * (of_nat 0 + 1) \<le> cal_width c * (of_int (nbuckets c) / 2)" using w(1) by (simp only: mult_le_cancel_left_pos)
    then show "cal_width c * (of_nat 0 + 1) \<le> diff0 c" using w(2) by simp
    have "of_int (nbuckets c) / 2 \<le> (of_int (nbuckets c) + of_nat 0 - 1 :: rat)" using nr by simp
    then have "cal_width c * (of_int (nbuckets c) / 2) \<le> cal_width c * (of_int (nbuckets c) + of_nat 0 - 1)" using w(1) by simp
    then show "diff0 c \<le> cal_width c * (of_int (nbuckets c) + of_nat 0 - 1)" using w(2) by simp
  qed
  have t1: "cal_width c * (of_nat 1 + 1) \<le> diff1 c" "diff1 c \<le> cal_width c * (of_int (nbuckets c) + of_nat 1 - 1)"
  proof -
    have "of_nat 1 + 1 \<le> (of_int (nbuckets c) / 2 + 1 :: rat)" "of_int (nbuckets c) / 2 + 1 \<le> (of_int (nbuckets c) + of_nat 1 - 1 :: rat)" using nr by simp_all
    then have "cal_width c * (of_nat 1 + 1) \<le> cal_width c * (of_int (nbuckets c) / 2 + 1)"
      "cal_width c * (of_int (nbuckets c) / 2 + 1) \<le> cal_width c * (of_int (nbuckets c) + of_nat 1 - 1)" using w(1) by simp_all
    then show "cal_width c * (of_nat 1 + 1) \<le> diff1 c" "diff1 c \<le> cal_width c * (of_int (nbuckets c) + of_nat 1 - 1)"
      using w(3) by (simp_all add: algebra_simps)
  qed
  have dec: "(if lastbucket c \<noteq> 0 then lastbucket c - 1 else nbuckets c - 1) = pos c (nat (nbuckets c) - 1)"
  proof -
    have "pos c (Suc (nat (nbuckets c) - 1)) = pos c 0" using n by (simp add: pos_def)
    then have "(if pos c (nat (nbuckets c) - 1) + 1 = nbuckets c then 0 else pos c (nat (nbuckets c) - 1) + 1) = lastbucket c"
      using pos_Suc[OF sh, of "nat (nbuckets c) - 1"] lb by simp
    then show ?thesis using pos_bounds[OF sh, of "nat (nbuckets c) - 1"] by (auto split: if_splits)
  qed
  have c0: "c = c\<lparr>head_search := head_search c\<rparr>" by simp
  have r1: "search c (Suc 0) (CAL_DEQUEUE (diff0 c) (lastbucket c, None, c))"
    by (subst (2) c0) (unfold lb, rule CAL_DEQUEUE_search[OF ok s0 k0(1) t0])
  have r2: "search c 2 (scan_then (CAL_DEQUEUE (diff0 c) (lastbucket c, None, c)) (CAL_DEQUEUE (diff1 c)))"
    by (rule scan_then_search[OF r1]) (use CAL_DEQUEUE_search[OF ok _ k0(2) t1] in \<open>simp add: numeral_2_eq_2\<close>)
  let ?dec = "if lastbucket c \<noteq> 0 then lastbucket c - 1 else nbuckets c - 1"
  have r3: "search c (nat (nbuckets c) - 1) (scan_then (scan_then (CAL_DEQUEUE (diff0 c) (lastbucket c, None, c)) (CAL_DEQUEUE (diff1 c)))
      (scan_year (Suc (nat (nbuckets c))) ?dec))"
    unfolding dec by (rule scan_then_search[OF r2], rule scan_year_search[OF ok]) (use k0 in simp_all)
  let ?r = "scan_then (scan_then (CAL_DEQUEUE (diff0 c) (lastbucket c, None, c)) (CAL_DEQUEUE (diff1 c))) (scan_year (Suc (nat (nbuckets c))) ?dec)"
  note scan_last_then[OF ok ev r3]
  then obtain h e i j m where f: "scan_then ?r scan_last = Inr (Some (e, i), j, m, c\<lparr>head_search := h\<rparr>)" "found c e i" by blast
  have q: "cal_qsize c \<noteq> 0" using wf ev by (simp add: cal_wf_def)
  have "cal_head c = Inr (Some e, c\<lparr>head_search := h, lastbucket := i, cal_clock := fst e\<rparr>)"
    unfolding cal_head_def if_not_P[OF q] Let_def f(1) by simp
  moreover have i: "i = bucket_of (fst e) c" using f(2) unfolding found_def by blast
  ultimately show ?thesis using f(2) unfolding i by blast
qed

end
