(* ===== verification/CalendarScheduler.thy ===== *)
theory CalendarScheduler
  imports CalendarOrder
begin

text \<open>
  Dispatching from the calendar queue, and the queue as an event queue: a simulation over it runs
  like one over the linked list.
\<close>

subsection \<open>Taking the first event\<close>

lemma wf_gap: "cal_wf c \<Longrightarrow> 0 \<le> g \<Longrightarrow> cal_wf (c\<lparr>gap_num := g\<rparr>)"
  by (simp add: cal_defs)

text \<open>Measuring the gaps may move the events to other buckets, no more.\<close>

lemma snoop_ok:
  assumes wf: "cal_wf c" and clk: "0 \<le> cal_clock c" "lastbucket c = bucket_of (cal_clock c) c" and sq: "positive sq"
  shows "\<exists>c'. snoop sq t c = Inr c' \<and> cal_wf c' \<and> cal_clock c' = cal_clock c \<and> lastbucket c' = bucket_of (cal_clock c) c' \<and>
    (\<forall>u. at_time u (all_events c') = at_time u (all_events c))"
proof -
  have g: "0 \<le> gap_num c" and nb: "1 \<le> nbuckets c" using wf by (simp_all add: cal_wf_def shape_def)
  let ?c1 = "c\<lparr>gap_num := gap_num c + 1\<rparr>"
  define c2 where "c2 = ?c1\<lparr>avg_gap := (t - last_time c) / of_int (gap_num c + 1), gap_num := 0, last_time := t, round_num := round_num c + 1\<rparr>"
  have c1: "cal_wf ?c1" by (rule wf_gap[OF wf]) (use g in simp)
  have wf2: "cal_wf c2" using wf unfolding c2_def by (simp add: cal_defs)
  have "lastbucket c2 = bucket_of (cal_clock c) c2" using clk(2) by (simp add: c2_def bucket_of_def day_def)
  moreover have "all_events c2 = all_events c" "cal_clock c2 = cal_clock c" "nbuckets c2 = nbuckets c" by (simp_all add: c2_def all_events_def)
  ultimately have c2: "cal_wf c2" "all_events c2 = all_events c" "cal_clock c2 = cal_clock c" "lastbucket c2 = bucket_of (cal_clock c) c2"
    "nbuckets c2 = nbuckets c"
    using wf2 by simp_all
  consider "last_time c < 0" | "\<not> last_time c < 0" "gap_num c + 1 < cal_qsize c"
    | "\<not> last_time c < 0" "\<not> gap_num c + 1 < cal_qsize c" "round_num c2 > 20 \<and> (head_search c2 > push_bit 1 (insert_search c2) \<or> insert_search c2 > push_bit 1 (head_search c2))"
    | "\<not> last_time c < 0" "\<not> gap_num c + 1 < cal_qsize c" "\<not> (round_num c2 > 20 \<and> (head_search c2 > push_bit 1 (insert_search c2) \<or> insert_search c2 > push_bit 1 (head_search c2)))"
    by blast
  then show ?thesis
  proof cases
    case 1
    then have "snoop sq t c = Inr (c\<lparr>last_time := t\<rparr>)" by (simp add: snoop_def)
    then show ?thesis using wf clk(2) by (intro exI conjI) (assumption, simp_all)
  next
    case 2
    then have "snoop sq t c = Inr ?c1" by (simp add: snoop_def)
    then show ?thesis using c1 clk(2) by (intro exI conjI) (assumption, simp_all)
  next
    case 3
    obtain c3 where c3: "resize sq (nbuckets c2) (cal_clock c2) c2 = Inr c3" "cal_wf c3" "cal_clock c3 = cal_clock c2"
      "lastbucket c3 = bucket_of (cal_clock c2) c3" "\<forall>u. at_time u (all_events c3) = at_time u (all_events c2)"
      using resize_ok[OF c2(1) _ sq, of "nbuckets c2" "cal_clock c2"] nb clk(1) c2(3-5) by auto
    have g1: "gap_num c + 1 \<noteq> 0" using g by simp
    have "snoop sq t c = Inr (c3\<lparr>round_num := 0\<rparr>)"
      unfolding snoop_def Let_def if_not_P[OF 3(1)] if_not_P[OF 3(2)] if_not_P[OF g1] c2_def[symmetric] if_P[OF 3(3)] c3(1) bind_r_simps ..
    then show ?thesis using c3(2-5) c2(2,3) by (intro exI conjI) (assumption, simp_all)
  next
    case 4
    have g1: "gap_num c + 1 \<noteq> 0" using g by simp
    have "snoop sq t c = Inr (if round_num c2 > 100 then c2\<lparr>round_num := 0, head_search := 0, insert_search := 0\<rparr> else c2)"
      unfolding snoop_def Let_def if_not_P[OF 4(1)] if_not_P[OF 4(2)] if_not_P[OF g1] c2_def[symmetric] if_not_P[OF 4(3)] by simp
    then show ?thesis using c2 by (intro exI conjI) (assumption, simp_all)
  qed
qed

text \<open>The first event of the least time is the first of its bucket.\<close>

lemma first_of_bucket:
  assumes wf: "cal_wf c" and at: "at_time (fst e) (all_events c) = e # es" and least: "\<forall>x\<in>set (all_events c). fst e \<le> fst x"
  shows "\<exists>zs. b_list (buckets c ! nat (bucket_of (fst e) c)) = e # zs \<and> sorted (List.map fst (e # zs)) \<and> set (e # zs) \<subseteq> set (all_events c)"
proof -
  let ?b = "buckets c ! nat (bucket_of (fst e) c)"
  have i: "0 \<le> bucket_of (fst e) c" "bucket_of (fst e) c < nbuckets c" using bucket_of_bounds wf unfolding cal_wf_def by blast+
  note w = wf_bucket[OF wf i]
  have so: "sorted (List.map fst (b_list ?b))" using w(1) unfolding bucket_ok_def by blast
  have "?b \<in> set (buckets c)" using w(3) by (rule nth_mem)
  then have sub: "set (b_list ?b) \<subseteq> set (all_events c)" unfolding all_events_def by auto
  have e: "at_time (fst e) (b_list ?b) = e # es" using at at_bucket[OF wf] by simp
  show ?thesis
  proof (cases "b_list ?b")
    case Nil
    then show ?thesis using e by simp
  next
    case (Cons h zs)
    have "e \<in> set (b_list ?b)" using e by (metis at_time_simps(5) list.set_intros(1))
    then have "fst h \<le> fst e" using so Cons by auto
    moreover have "fst e \<le> fst h" using sub Cons least by simp
    ultimately have "h = e" using e Cons by simp
    then show ?thesis using Cons so sub by simp
  qed
qed

lemma cal_deque_ok:
  assumes ok: "cal_ok c" and ev: "all_events c \<noteq> []" and sq: "positive sq"
  shows "\<exists>e es c'. cal_deque sq c = Inr (Some e, c') \<and> cal_ok c' \<and> at_time (fst e) (all_events c) = e # es \<and>
    (\<forall>x\<in>set (all_events c). fst e \<le> fst x) \<and> (\<forall>u. at_time u (all_events c') = filter (\<lambda>y. y \<noteq> e) (at_time u (all_events c)))"
proof -
  have wf: "cal_wf c" using ok by (simp add: cal_ok_def)
  obtain e h where hd: "cal_head c = Inr (Some e, c\<lparr>head_search := h, lastbucket := bucket_of (fst e) c, cal_clock := fst e\<rparr>)"
    and f: "found c e (bucket_of (fst e) c)" using cal_head_ok[OF ok ev] by blast
  obtain zs where zs: "b_list (buckets c ! nat (bucket_of (fst e) c)) = e # zs" and least: "\<forall>x\<in>set (all_events c). fst e \<le> fst x"
    using f unfolding found_def bl_def by (metis list.collapse)
  have at: "at_time (fst e) (all_events c) = e # at_time (fst e) zs" using at_bucket[OF wf, of "fst e"] zs by simp
  have e0: "0 \<le> fst e" using wf_times[OF wf, of e] at by (metis at_time_simps(5) list.set_intros(1))
  define c1 where "c1 = c\<lparr>head_search := h, lastbucket := bucket_of (fst e) c, cal_clock := fst e\<rparr>"
  have c1: "cal_wf c1" "all_events c1 = all_events c" "cal_clock c1 = fst e" "lastbucket c1 = bucket_of (cal_clock c1) c1"
    using wf unfolding c1_def by simp_all
  obtain c2 where c2: "(if adjust_new_width_interval c1 \<noteq> 0 then snoop sq (fst e) c1 else Inr c1) = Inr c2" "cal_wf c2"
    "cal_clock c2 = fst e" "lastbucket c2 = bucket_of (fst e) c2" "\<forall>u. at_time u (all_events c2) = at_time u (all_events c)"
  proof (cases "adjust_new_width_interval c1 = 0")
    case True
    then show ?thesis using c1 by (intro that[of c1]) simp_all
  next
    case False
    have "0 \<le> cal_clock c1" using e0 c1(3) by simp
    from snoop_ok[OF c1(1) this c1(4) sq, of "fst e"] show ?thesis using False c1(2,3) by (auto intro: that)
  qed
  have s2: "set (all_events c2) = set (all_events c)" using at_time_set c2(5) by blast
  obtain ws where ws: "b_list (buckets c2 ! nat (bucket_of (fst e) c2)) = e # ws" "sorted (List.map fst (e # ws))" "set (e # ws) \<subseteq> set (all_events c2)"
    using first_of_bucket[OF c2(2), of e "at_time (fst e) zs"] at least c2(5) s2 by auto
  define b where "b = buckets c2 ! nat (bucket_of (fst e) c2)"
  have i: "0 \<le> bucket_of (fst e) c2" "bucket_of (fst e) c2 < nbuckets c2" using bucket_of_bounds c2(2) unfolding cal_wf_def by blast+
  have arr: "arr_at (lastbucket c2) (buckets c2) = Inr b" using wf_bucket(2)[OF c2(2) i] c2(4) by (simp add: b_def)
  define one :: int where "one = (if ws = [] \<or> fst (hd ws) \<noteq> fst e then 1 else 0)"
  have one: "one = (if fst e \<in> fst ` set ([] @ ws) then 0 else 1)"
  proof (cases ws)
    case (Cons z ws')
    then have "fst e \<in> fst ` set ws \<longleftrightarrow> fst z = fst e" using ws(2) by force
    then show ?thesis using Cons by (simp add: one_def)
  qed (simp add: one_def)
  have bw: "b_list b = [] @ e # ws" using ws(1) by (simp add: b_def)
  let ?c3 = "(put_bucket (bucket_of (fst e) c2) \<lparr> b_list = [] @ ws, b_count = b_count b - one \<rparr> c2)
    \<lparr>stat_qsize := stat_qsize c2 - one, cal_qsize := cal_qsize c2 - 1\<rparr>"
  note r = wf_remove(1,2)[OF c2(2) b_def bw one]
  have clk: "cal_clock ?c3 = fst e" "lastbucket ?c3 = bucket_of (fst e) ?c3" using c2(3,4) by (simp_all add: put_bucket_def)
  have at3: "at_time u (all_events ?c3) = filter (\<lambda>y. y \<noteq> e) (at_time u (all_events c))" for u using r(2) c2(5) by simp
  have later: "fst e \<le> fst x" if "\<forall>u. at_time u (all_events c') = at_time u (all_events ?c3)" "x \<in> set (all_events c')" for c' x
  proof -
    have "x \<in> set (at_time (fst x) (all_events c'))" using that(2) by simp
    also have "at_time (fst x) (all_events c') = filter (\<lambda>y. y \<noteq> e) (at_time (fst x) (all_events c))" using that(1) at3 by simp
    finally show ?thesis using least by simp
  qed
  obtain c4 where c4: "(if stat_qsize ?c3 < bot_threshold ?c3 then resize sq (nbuckets ?c3 div 2) (cal_clock ?c3) ?c3 else Inr ?c3) = Inr c4"
    "cal_ok c4" "\<forall>u. at_time u (all_events c4) = at_time u (all_events ?c3)"
  proof (cases "stat_qsize ?c3 < bot_threshold ?c3")
    case True
    have nb: "1 \<le> nbuckets ?c3 div 2" using r(1) unfolding cal_wf_def shape_def by linarith
    obtain c' where c': "resize sq (nbuckets ?c3 div 2) (cal_clock ?c3) ?c3 = Inr c'" "cal_wf c'" "cal_clock c' = cal_clock ?c3"
      "lastbucket c' = bucket_of (cal_clock ?c3) c'" "\<forall>u. at_time u (all_events c') = at_time u (all_events ?c3)"
      using resize_ok[OF r(1) nb sq, of "cal_clock ?c3"] clk e0 by auto
    have "cal_ok c'" unfolding cal_ok_def c'(3) clk(1) using c'(2,4) clk(1) e0 later[OF c'(5)] by simp
    then show ?thesis using True c'(1,5) by (intro that[of c']) simp_all
  next
    case False
    have "cal_ok ?c3" unfolding cal_ok_def clk(1) using r(1) clk(2) e0 later[of ?c3] by simp
    then show ?thesis using False by (intro that[of ?c3]) simp_all
  qed
  have "cal_deque sq c = Inr (Some e, c4)"
    unfolding cal_deque_def hd c1_def[symmetric] bind_r_simps prod.case option.case c2(1) arr bw append_Nil list.case
      one_def[symmetric] Let_def
    using c4(1) unfolding c2(4) append_Nil by (simp only: bind_r_simps)
  then show ?thesis using c4(2,3) at least at3 by auto
qed

subsection \<open>The calendar queue provides the contract of an event queue\<close>

definition cal_sorted :: "calendar \<Rightarrow> cal_event list" where
  "cal_sorted c = sort_key fst (all_events c)"

definition cal_evs :: "calendar \<Rightarrow> nat list" where
  "cal_evs c = List.map snd (cal_sorted c)"

definition cal_times :: "calendar \<Rightarrow> (nat \<Rightarrow> rat) \<Rightarrow> bool" where
  "cal_times c tm \<longleftrightarrow> cal_ok c \<and> (\<forall>x\<in>set (all_events c). fst x = tm (snd x))"

text \<open>Where an event goes: behind those that are not later.\<close>

fun put_after :: "cal_event \<Rightarrow> cal_event list \<Rightarrow> cal_event list" where
  "put_after x [] = [x]"
| "put_after x (y # ys) = (if fst x < fst y then x # y # ys else y # put_after x ys)"

lemma set_put_after [simp]: "set (put_after x ys) = insert x (set ys)"
  by (induction ys) auto

lemma sorted_put_after: "sorted (List.map fst ys) \<Longrightarrow> sorted (List.map fst (put_after x ys))"
  by (induction ys) auto

lemma at_time_later: "sorted (List.map fst (y # ys)) \<Longrightarrow> u < fst y \<Longrightarrow> at_time u (y # ys) = []"
  unfolding at_time_def filter_empty_conv by auto

lemma at_time_put_after:
  "sorted (List.map fst ys) \<Longrightarrow> at_time u (put_after x ys) = (if u = fst x then at_time u ys @ [x] else at_time u ys)"
proof (induction ys)
  case (Cons y ys)
  then show ?case using at_time_later[of y ys "fst x"] by auto
qed simp

lemma put_after_list:
  "\<forall>y\<in>insert x (set ys). fst y = tm (snd y) \<Longrightarrow> List.map snd (put_after x ys) = list_insert tm (snd x) (List.map snd ys)"
proof (induction ys)
  case (Cons y ys)
  have k: "fst x = tm (snd x)" "fst y = tm (snd y)" "\<forall>z\<in>insert x (set ys). fst z = tm (snd z)"
    by (rule bspec[OF Cons.prems], simp)+ (intro ballI bspec[OF Cons.prems], auto)
  show ?case unfolding put_after.simps list.map list_insert.simps k(1,2)[symmetric] if_distrib[of "List.map snd"] Cons.IH[OF k(3)] ..
qed simp

lemma cal_sorted_simps [simp]: "set (cal_sorted c) = set (all_events c)" "sorted (List.map fst (cal_sorted c))"
  "at_time u (cal_sorted c) = at_time u (all_events c)"
  by (simp_all add: cal_sorted_def)

lemma set_cal_evs [simp]: "set (cal_evs c) = snd ` set (all_events c)"
  by (simp add: cal_evs_def)

lemma cal_sortedI: "sorted (List.map fst ys) \<Longrightarrow> (\<And>u. at_time u ys = at_time u (all_events c)) \<Longrightarrow> cal_sorted c = ys"
  unfolding cal_sorted_def by (rule sort_key_at_time)

lemma distinct_cal_evs:
  assumes "cal_wf c"
  shows "distinct (cal_evs c)"
proof -
  have "mset (cal_sorted c) = mset (all_events c)" by (simp add: cal_sorted_def)
  from distinct_map_mset[OF this, of snd] show ?thesis using assms by (simp add: cal_evs_def cal_wf_def)
qed

lemma times_mono: "cal_times c tm \<Longrightarrow> cal_ok c' \<Longrightarrow> set (all_events c') \<subseteq> set (all_events c) \<Longrightarrow> cal_times c' tm"
  by (auto simp: cal_times_def)

lemma cal_insert_contract:
  assumes c: "cal_times c tm" and e: "e \<notin> set (cal_evs c)" "0 \<le> tm' e" and tm: "\<forall>x\<in>set (cal_evs c). tm' x = tm x" and sq: "positive sq"
  shows "\<exists>c'. cal_insert sq (tm' e, e) c = Inr c' \<and> cal_times c' tm' \<and> cal_evs c' = list_insert tm' e (cal_evs c)"
proof -
  have ok: "cal_ok c" using c by (simp add: cal_times_def)
  obtain c' where c': "cal_insert sq (tm' e, e) c = Inr c'" "cal_ok c'"
    "\<And>u. at_time u (all_events c') = (if u = tm' e then at_time u (all_events c) @ [(tm' e, e)] else at_time u (all_events c))"
    using cal_insert_ok[OF ok _ _ sq, of "(tm' e, e)"] e by auto
  have so: "cal_sorted c' = put_after (tm' e, e) (cal_sorted c)"
    by (rule cal_sortedI) (simp_all add: sorted_put_after at_time_put_after c'(3))
  have keys: "\<forall>y\<in>insert (tm' e, e) (set (cal_sorted c)). fst y = tm' (snd y)" using c tm by (simp add: cal_times_def)
  have "set (all_events c') = insert (tm' e, e) (set (all_events c))" using arg_cong[OF so, of set] by simp
  then have "cal_times c' tm'" using c'(2) keys by (simp add: cal_times_def)
  moreover have "cal_evs c' = list_insert tm' e (cal_evs c)" using put_after_list[OF keys] so by (simp add: cal_evs_def)
  ultimately show ?thesis using c'(1) by blast
qed

lemma cal_deque_contract:
  assumes c: "cal_times c tm" and sq: "positive sq"
  shows "case cal_evs c of [] \<Rightarrow> cal_deque sq c = Inr (None, c)
    | e # es \<Rightarrow> \<exists>c'. cal_deque sq c = Inr (Some (tm e, e), c') \<and> cal_times c' tm \<and> cal_evs c' = es"
proof (cases "all_events c = []")
  case True
  then have "cal_qsize c = 0" using c by (simp add: cal_times_def cal_ok_def cal_wf_def)
  then show ?thesis using True by (simp add: cal_evs_def cal_sorted_def cal_deque_def cal_head_def)
next
  case False
  have ok: "cal_ok c" using c by (simp add: cal_times_def)
  obtain e es c' where d: "cal_deque sq c = Inr (Some e, c')" "cal_ok c'" "at_time (fst e) (all_events c) = e # es"
    "\<forall>x\<in>set (all_events c). fst e \<le> fst x" "\<And>u. at_time u (all_events c') = filter (\<lambda>y. y \<noteq> e) (at_time u (all_events c))"
    using cal_deque_ok[OF ok False sq] by blast
  have sub: "set (all_events c') \<subseteq> set (all_events c)"
  proof
    fix x assume "x \<in> set (all_events c')"
    then have "x \<in> set (at_time (fst x) (all_events c'))" by simp
    then show "x \<in> set (all_events c)" unfolding d(5) by simp
  qed
  have "distinct (List.map snd (all_events c))" using ok by (simp add: cal_ok_def cal_wf_def)
  then have "distinct (at_time (fst e) (all_events c))" unfolding at_time_def by (intro distinct_filter) (simp add: distinct_map)
  then have es: "filter (\<lambda>y. y \<noteq> e) (e # es) = es" unfolding d(3) by (auto simp: filter_id_conv)
  have "cal_sorted c = e # cal_sorted c'"
  proof (rule cal_sortedI)
    show "sorted (List.map fst (e # cal_sorted c'))" using d(4) sub by auto
    show "at_time u (e # cal_sorted c') = at_time u (all_events c)" for u
    proof (cases "u = fst e")
      case True
      then show ?thesis using d(3) d(5)[of u] es by simp
    next
      case False
      then have "filter (\<lambda>y. y \<noteq> e) (at_time u (all_events c)) = at_time u (all_events c)" by (auto simp: filter_id_conv)
      then show ?thesis using False d(5)[of u] by simp
    qed
  qed
  then have "cal_evs c = snd e # cal_evs c'" by (simp add: cal_evs_def)
  moreover have "e \<in> set (at_time (fst e) (all_events c))" unfolding d(3) by simp
  then have "e = (tm (snd e), snd e)" using c by (simp add: cal_times_def prod_eq_iff)
  ultimately show ?thesis using d(1) times_mono[OF c d(2) sub] by auto
qed

lemma cal_cancel_contract:
  assumes c: "cal_times c tm" and e: "e \<in> set (cal_evs c)"
  shows "\<exists>c'. cal_cancel (tm e, e) c = Inr c' \<and> cal_times c' tm \<and> cal_evs c' = filter (\<lambda>x. x \<noteq> e) (cal_evs c)"
proof -
  have ok: "cal_ok c" using c by (simp add: cal_times_def)
  have x: "(tm e, e) \<in> set (all_events c)" using c e by (force simp: cal_times_def)
  obtain c' where c': "cal_cancel (tm e, e) c = Inr c'" "cal_ok c'"
    "\<And>u. at_time u (all_events c') = filter (\<lambda>y. y \<noteq> (tm e, e)) (at_time u (all_events c))"
    using cal_cancel_ok[OF ok x] by blast
  have so: "cal_sorted c' = filter (\<lambda>y. y \<noteq> (tm e, e)) (cal_sorted c)"
  proof (rule cal_sortedI)
    show "sorted (List.map fst (filter (\<lambda>y. y \<noteq> (tm e, e)) (cal_sorted c)))" by (rule sorted_filter) simp
    have "at_time u (filter P xs) = filter P (at_time u xs)" for u P xs by (simp add: at_time_def conj_commute)
    then show "at_time u (filter (\<lambda>y. y \<noteq> (tm e, e)) (cal_sorted c)) = at_time u (all_events c')" for u by (simp add: c'(3))
  qed
  have "filter (\<lambda>y. y \<noteq> (tm e, e)) (cal_sorted c) = filter (\<lambda>y. snd y \<noteq> e) (cal_sorted c)"
    by (rule filter_cong) (use c in \<open>auto simp: cal_times_def\<close>)
  then have "cal_evs c' = filter (\<lambda>x. x \<noteq> e) (cal_evs c)" by (simp add: cal_evs_def so filter_map comp_def)
  moreover have "set (all_events c') \<subseteq> set (all_events c)" using arg_cong[OF so, of set] by auto
  ultimately show ?thesis using c'(1) times_mono[OF c c'(2)] by blast
qed

lemma calendar_event_queue:
  assumes sq: "positive sq"
  shows "event_queue (calendar_ops sq) cal_evs cal_times (\<lambda>q n. True) (\<lambda>t. 0 \<le> t)"
proof unfold_locales
  fix c tm tm' e
  assume "cal_times c tm" and "e \<notin> set (cal_evs c)" and "\<forall>x\<in>set (cal_evs c). tm' x = tm x" and "0 \<le> tm' e"
  then show "\<exists>q'. q_insert (calendar_ops sq) tm' e c = Inr q' \<and> cal_times q' tm' \<and> cal_evs q' = list_insert tm' e (cal_evs c) \<and> True"
    using cal_insert_contract[OF _ _ _ _ sq] by (simp add: calendar_ops_def)
next
  fix c tm
  assume c: "cal_times c tm"
  show "case cal_evs c of [] \<Rightarrow> q_deque (calendar_ops sq) c = Inr (None, c)
    | e # es \<Rightarrow> \<exists>q'. q_deque (calendar_ops sq) c = Inr (Some e, q') \<and> cal_times q' tm \<and> cal_evs q' = es \<and> (\<forall>n. True \<longrightarrow> True)"
    using cal_deque_contract[OF c sq] by (cases "cal_evs c") (auto simp: calendar_ops_def)
next
  fix c tm uid e
  assume "cal_times c tm" and "e \<in> set (cal_evs c)"
  then show "\<exists>q'. q_cancel (calendar_ops sq) tm uid e c = Inr q' \<and> cal_times q' tm \<and> cal_evs q' = filter (\<lambda>x. x \<noteq> e) (cal_evs c) \<and> (\<forall>n. True \<longrightarrow> True)"
    using cal_cancel_contract by (simp add: calendar_ops_def)
next
  fix c tm
  assume c: "cal_times c tm"
  show "distinct (cal_evs c)" using c distinct_cal_evs by (simp add: cal_times_def cal_ok_def)
  show "0 \<le> tm e" if "e \<in> set (cal_evs c)" for e
  proof -
    obtain x where x: "x \<in> set (all_events c)" "e = snd x" using \<open>e \<in> set (cal_evs c)\<close> by auto
    have "cal_wf c" using c by (simp add: cal_times_def cal_ok_def)
    from wf_times[OF this x(1)] show ?thesis using c x by (simp add: cal_times_def)
  qed
  show "cal_times c tm'" if "\<forall>x\<in>set (cal_evs c). tm' x = tm x" for tm' using c that by (simp add: cal_times_def)
qed simp_all

lemma new_Calendar_ok:
  "\<exists>c. new_Calendar adj minw = Inr c \<and> cal_times c tm \<and> cal_evs c = []"
proof -
  define c0 where "c0 = \<lparr> min_bin_width = minw, adjust_new_width_interval = adj, time_to_newwidth = adj, head_search = 0, insert_search = 0,
      round_num = 0, gap_num = 0, last_time = -2, avg_gap = -2, cal_width = 0, diff0 = 0, diff1 = 0, diff2 = 0, stat_qsize = 0,
      nbuckets = 0, lastbucket = 0, top_threshold = 0, bot_threshold = 0, buckets = [], cal_qsize = 0, cal_clock = 0 \<rparr>"
  have g: "0 \<le> gap_num c0" "cal_clock c0 = 0" by (simp_all add: c0_def)
  obtain c where c: "reinit 4 1 0 c0 = Inr c" "cal_wf c" "all_events c = []" "cal_clock c = 0" "lastbucket c = bucket_of 0 c"
    using reinit_ok[of 4 1 0 c0] g by auto
  then show ?thesis by (simp add: new_Calendar_def c0_def cal_times_def cal_ok_def cal_evs_def cal_sorted_def)
qed

lemma lawful_delay: "lawful (\<lambda>t. 0 \<le> t) a \<longleftrightarrow> (\<forall>h e d. a = Schedule h e d \<longrightarrow> 0 \<le> d)"
proof
  assume l: "lawful (\<lambda>t. 0 \<le> t) a"
  show "\<forall>h e d. a = Schedule h e d \<longrightarrow> 0 \<le> d"
  proof (intro allI impI)
    fix h e d assume "a = Schedule h e d"
    then have "0 \<le> (0::rat) + d" using l unfolding lawful_def by blast
    then show "0 \<le> d" by simp
  qed
qed (auto simp: lawful_def)

subsection \<open>The properties\<close>

text \<open>C7: With the calendar queue, the scheduler of the simulator, and with the linked list, every
  simulation runs alike: the same initial actions and handlers that behave alike give the
  same dispatches at the same times, or the same error.  This holds for any parameters of
  the queue, through all its resizings, as long as delays are not negative, handlers take
  at most \<^verbatim>\<open>k\<close> actions and \<^verbatim>\<open>sqrt\<close> of a positive number is positive.\<close>

theorem calendar_is_list_scheduler:
  assumes "new_Calendar adj minw = Inr q0" and "positive sq"
    and "\<forall>tr. length (beh tr) \<le> k"
    and "\<forall>a h e d. a \<in> set init \<or> (\<exists>tr. a \<in> set (beh tr)) \<longrightarrow> a = Schedule h e d \<longrightarrow> 0 \<le> d"
  shows "simulate (calendar_ops sq) q0 init beh n = simulate list_ops [] init beh n"
proof (rule event_queue.simulate_sim[OF calendar_event_queue[OF assms(2)]])
  show "cal_evs q0 = []" "cal_times q0 (\<lambda>_. 0)" using new_Calendar_ok[of adj minw "\<lambda>_. 0"] assms(1) by simp_all
  show "\<forall>tr. length (beh tr) \<le> k \<and> list_all (lawful (\<lambda>t. 0 \<le> t)) (beh tr)" "list_all (lawful (\<lambda>t. 0 \<le> t)) init"
    using assms(3,4) unfolding list_all_iff lawful_delay by blast+
qed simp

text \<open>C17: After any history of actions with delays that are not negative, the calendar queue takes
  an event that is pending and due before every other pending one, with ties in the order
  of scheduling; neither the queue nor the dispatch fails, and the clock moves to the
  event's time, never backwards.  When it takes none, none is pending.\<close>

theorem calendar_dispatches_earliest:
  assumes "new_Calendar adj minw = Inr q0" and "positive sq" and "sched_reach (calendar_ops sq) q0 n s"
  shows "case cal_deque sq (sc_queue s) of
      Inl x \<Rightarrow> False
    | Inr (None, q) \<Rightarrow> \<forall>x. ev_uid (sc_event s x) \<le> 0
    | Inr (Some (t, e), q) \<Rightarrow> 0 < ev_uid (sc_event s e) \<and>
        (\<forall>x. x \<noteq> e \<longrightarrow> 0 < ev_uid (sc_event s x) \<longrightarrow> sc_time s e < sc_time s x \<or>
           sc_time s e = sc_time s x \<and> ev_uid (sc_event s e) < ev_uid (sc_event s x)) \<and>
        (\<exists>s'. sched_dispatch e (s\<lparr>sc_queue := q\<rparr>) = Inr s' \<and> sc_clock s \<le> sc_clock s' \<and> sc_clock s' = sc_time s e)"
proof -
  have q0: "cal_evs q0 = []" "cal_times q0 (\<lambda>_. 0)" using new_Calendar_ok[of adj minw "\<lambda>_. 0"] assms(1) by simp_all
  show ?thesis using event_queue.deque_first[OF calendar_event_queue[OF assms(2)] assms(3) q0 TrueI]
    unfolding before_iff by (auto simp: calendar_ops_def split: sum.splits prod.splits option.splits)
qed

text \<open>\<^verbatim>\<open>schedule\<close> only warns of a negative delay.  At the start of a simulation the calendar queue
  then hashes a negative time to a negative index and reaches outside its buckets; the
  linked list takes the same event.\<close>

theorem calendar_negative_time:
  assumes "new_Calendar adj minw = Inr q0" and "-4 < d" and "d \<le> -1"
  shows "sched_schedule (calendar_ops sq) (Some h) e d (new_Scheduler q0) = Inl OutOfBounds \<and>
    (\<exists>s. sched_schedule list_ops (Some h) e d (new_Scheduler []) = Inr s \<and> sc_queue s = [e])"
proof (intro conjI)
  have q0: "cal_clock q0 = 0" "cal_width q0 = 1" "nbuckets q0 = 4"
    using assms(1) by (auto simp: new_Calendar_def reinit_def Let_def bind_r_eq_Inr)
  have "\<lceil>d / 4\<rceil> = 0" unfolding ceiling_eq_iff using assms(2,3) by simp
  then have "int_of_double (d / 4) = 0" using assms(3) by (simp add: int_of_double_def)
  then have i: "CALENDAR_HASH d q0 = Inr (int_of_double d)" "int_of_double d < 0"
    using assms(2,3) q0 by (simp_all add: CALENDAR_HASH_def c_fmod_def) (simp add: int_of_double_def)
  have "cal_insert sq (d, e) q0 = Inl OutOfBounds"
    using i q0 assms(3) by (simp add: cal_insert_def arr_at_def)
  then show "sched_schedule (calendar_ops sq) (Some h) e d (new_Scheduler q0) = Inl OutOfBounds"
    by (simp add: sched_schedule_def new_Scheduler_def calendar_ops_def sc_time_def)
  show "\<exists>s. sched_schedule list_ops (Some h) e d (new_Scheduler []) = Inr s \<and> sc_queue s = [e]"
    by (simp add: sched_schedule_def new_Scheduler_def)
qed

subsection \<open>Examples\<close>

lemma calendar_is_list_scheduler_witness:
  "\<exists>q0. new_Calendar 10 (1 / 1000000) = Inr q0 \<and>
    simulate (calendar_ops (\<lambda>x. (x + 1) / 2)) q0 [Schedule (Some 0) 1 2, Schedule (Some 0) 2 2, Schedule (Some 0) 3 1, Cancel 2] (\<lambda>_. []) 3 =
      Inr ([(3, 1), (1, 2)], 2)"
proof -
  obtain q0 where q0: "new_Calendar 10 (1 / 1000000) = Inr q0" using new_Calendar_ok[of 10 "1 / 1000000" "\<lambda>_. 0"] by blast
  have "simulate list_ops [] [Schedule (Some 0) 1 2, Schedule (Some 0) 2 2, Schedule (Some 0) 3 1, Cancel 2] (\<lambda>_. []) 3 =
     Inr ([(3, 1), (1, 2)], 2)"
    by (simp add: simulate_def new_Scheduler_def sched_schedule_def sched_cancel_def sc_time_def sched_dispatch_def
        eval_nat_numeral Let_def del: bind_r_eq_Inr)
  moreover have "positive (\<lambda>x. (x + 1) / 2)" by (simp add: positive_def)
  ultimately show ?thesis
    using calendar_is_list_scheduler[OF q0, of "\<lambda>x. (x + 1) / 2" "\<lambda>_. []" 0
        "[Schedule (Some 0) 1 2, Schedule (Some 0) 2 2, Schedule (Some 0) 3 1, Cancel 2]" 3] q0
    by simp
qed

lemma calendar_dispatches_earliest_witness:
  "\<exists>q0 s q. new_Calendar 0 1 = Inr q0 \<and> sched_act (calendar_ops (\<lambda>x. x)) (Schedule (Some 0) 5 3) (new_Scheduler q0) = Inr s \<and>
    cal_deque (\<lambda>x. x) (sc_queue s) = Inr (Some (3, 5), q)"
proof -
  let ?sq = "\<lambda>x :: rat. x"
  have sq: "positive ?sq" by (simp add: positive_def)
  obtain q0 where q0: "new_Calendar 0 1 = Inr q0" "cal_times q0 (\<lambda>_. 3)" "cal_evs q0 = []"
    using new_Calendar_ok[of 0 1 "\<lambda>_. 3"] by blast
  obtain q where q: "cal_insert ?sq (3, 5) q0 = Inr q" "cal_times q (\<lambda>_. 3)" "cal_evs q = [5]"
    using cal_insert_contract[OF q0(2) _ _ _ sq, of 5 "\<lambda>_. 3"] q0(3) by auto
  obtain s where s: "sched_act (calendar_ops ?sq) (Schedule (Some 0) 5 3) (new_Scheduler q0) = Inr s" "sc_queue s = q"
    "\<forall>x. x \<noteq> 5 \<longrightarrow> ev_uid (sc_event s x) = 0" "0 < ev_uid (sc_event s 5)"
    using q(1) by (auto simp: sched_schedule_def new_Scheduler_def calendar_ops_def sc_time_def)
  have "sched_reach (calendar_ops ?sq) q0 (Suc 0) s" by (rule sched_reach.act[OF sched_reach.start s(1)]) simp
  note first = calendar_dispatches_earliest[OF q0(1) sq this, unfolded s(2)]
  have "\<exists>c'. cal_deque ?sq q = Inr (Some (3, 5), c')"
    using first cal_deque_contract[OF q(2) sq] q(3) by auto
  then show ?thesis using q0(1) s(1,2) by blast
qed

lemma calendar_negative_time_witness:
  "\<exists>q0. new_Calendar 0 1 = Inr q0 \<and>
    sched_schedule (calendar_ops (\<lambda>x. x)) (Some 0) 7 (- 3 / 2) (new_Scheduler q0) = Inl OutOfBounds"
proof -
  obtain q0 where q0: "new_Calendar 0 1 = Inr q0" using new_Calendar_ok[of 0 1 "\<lambda>_. 0"] by blast
  then show ?thesis using calendar_negative_time[OF q0, of "- 3 / 2"] by simp
qed

end
