(* ===== verification/SplayScheduler.thy ===== *)
theory SplayScheduler
  imports Scheduler
begin

text \<open>
  The splay scheduler (\<^verbatim>\<open>common/splay-scheduler.cc\<close>): the events are the nodes of a binary
  search tree, \<^verbatim>\<open>prev_\<close> the left and \<^verbatim>\<open>next_\<close> the right child.  Inserting splits the tree at the
  new event by top-down splaying, taking the first event shortens the path to it, and
  cancelling finds an event by its time and its number.
\<close>

datatype splay = Null | Node splay nat splay

record splay_queue =
  root :: splay
  splay_qsize :: int

definition new_Splay :: splay_queue where
  "new_Splay = \<lparr> root = Null, splay_qsize = 0 \<rparr>"

text \<open>The loop of \<^verbatim>\<open>insert\<close> on the rest of the tree: what it hangs on the bottom of the left
  tree (the events that are not later than \<^verbatim>\<open>time\<close>) and of the right tree.\<close>

fun splay_split :: "(nat \<Rightarrow> rat) \<Rightarrow> rat \<Rightarrow> splay \<Rightarrow> splay \<times> splay" where
  "splay_split tm time Null = (Null, Null)"
| "splay_split tm time (Node t0 t tr) =
    (if time < tm t then
       (case t0 of Null \<Rightarrow> (Null, Node Null t tr)
        | Node xl x xr \<Rightarrow>
            if time < tm x
            then (let (l, r) = splay_split tm time xl in (l, Node r x (Node xr t tr)))
            else (let (l, r) = splay_split tm time t0 in (l, Node r t tr)))
     else
       (case tr of Null \<Rightarrow> (Node t0 t Null, Null)
        | Node xl x xr \<Rightarrow>
            if time \<ge> tm x
            then (let (l, r) = splay_split tm time xr in (Node (Node t0 t xl) x l, r))
            else (let (l, r) = splay_split tm time tr in (Node t0 t l, r))))"

definition splay_insert :: "(nat \<Rightarrow> rat) \<Rightarrow> nat \<Rightarrow> splay_queue \<Rightarrow> splay_queue" where
  "splay_insert tm n q =
    (let q1 = q\<lparr>splay_qsize := splay_qsize q + 1\<rparr> in
     if root q = Null then q1\<lparr>root := Node Null n Null\<rparr>
     else (let (l, r) = splay_split tm (tm n) (root q) in q1\<lparr>root := Node l n r\<rparr>))"

fun leftmost :: "splay \<Rightarrow> nat option" where
  "leftmost Null = None"
| "leftmost (Node Null t r) = Some t"
| "leftmost (Node l t r) = leftmost l"

definition splay_head :: "splay_queue \<Rightarrow> nat option" where
  "splay_head q = leftmost (root q)"

text \<open>The loop of \<^verbatim>\<open>deque\<close> below the node \<^verbatim>\<open>t\<close> whose left child is \<^verbatim>\<open>l\<close>: the event taken and the tree
  that replaces \<^verbatim>\<open>t\<close>.\<close>

fun splay_min :: "splay \<Rightarrow> nat \<Rightarrow> splay \<Rightarrow> nat \<Rightarrow> splay \<Rightarrow> nat \<times> splay" where
  "splay_min Null l lr t tr = (l, Node lr t tr)"
| "splay_min (Node Null ll llr) l lr t tr = (ll, Node (Node llr l lr) t tr)"
| "splay_min (Node (Node lll' lll lllr) ll llr) l lr t tr =
    (let (e, s) = splay_min lll' lll lllr ll (Node llr l lr) in (e, Node s t tr))"

definition splay_deque :: "splay_queue \<Rightarrow> nat option \<times> splay_queue" where
  "splay_deque q = (case root q of
     Null \<Rightarrow> (None, q)
   | Node Null t tr \<Rightarrow> (Some t, q\<lparr>root := tr, splay_qsize := splay_qsize q - 1\<rparr>)
   | Node (Node ll l lr) t tr \<Rightarrow>
       (let (e, s) = splay_min ll l lr t tr in (Some e, q\<lparr>root := s, splay_qsize := splay_qsize q - 1\<rparr>)))"

text \<open>What replaces a cancelled event: a subtree, or its successor \<^verbatim>\<open>q\<close>, taken from the right.\<close>

fun take_successor :: "splay \<Rightarrow> nat \<Rightarrow> splay \<Rightarrow> nat \<times> splay" where
  "take_successor Null q qr = (q, qr)"
| "take_successor (Node l x r) q qr = (let (e, s) = take_successor l x r in (e, Node s q qr))"

definition without_root :: "splay \<Rightarrow> splay \<Rightarrow> splay" where
  "without_root l r = (case r of
     Null \<Rightarrow> l
   | Node rl p rr \<Rightarrow>
       if l = Null then r
       else (let (e, s) = take_successor rl p rr in Node l e s))"

fun splay_unlink :: "(nat \<Rightarrow> rat) \<Rightarrow> (nat \<Rightarrow> int) \<Rightarrow> nat \<Rightarrow> splay \<Rightarrow> splay result" where
  "splay_unlink tm uid e Null = Inl Abort"
| "splay_unlink tm uid e (Node l t r) =
    (if t = e then Inr (without_root l r)
     else if tm e > tm t \<or> tm e = tm t \<and> uid e > uid t
     then bind_r (splay_unlink tm uid e r) (\<lambda>r'. Inr (Node l t r'))
     else bind_r (splay_unlink tm uid e l) (\<lambda>l'. Inr (Node l' t r)))"

definition splay_cancel :: "(nat \<Rightarrow> rat) \<Rightarrow> (nat \<Rightarrow> int) \<Rightarrow> nat \<Rightarrow> splay_queue \<Rightarrow> splay_queue result" where
  "splay_cancel tm uid e q = bind_r (splay_unlink tm uid e (root q)) (\<lambda>s. Inr (q\<lparr>root := s, splay_qsize := splay_qsize q - 1\<rparr>))"

fun uid_lookup :: "(nat \<Rightarrow> int) \<Rightarrow> int \<Rightarrow> splay \<Rightarrow> nat option" where
  "uid_lookup uid u Null = None"
| "uid_lookup uid u (Node l t r) =
    (if uid t = u then Some t
     else case uid_lookup uid u l of Some e \<Rightarrow> Some e | None \<Rightarrow> uid_lookup uid u r)"

definition splay_lookup :: "int \<Rightarrow> splay_queue sched \<Rightarrow> nat option" where
  "splay_lookup u s = uid_lookup (sc_uid_of s) u (root (sc_queue s))"

definition splay_ops :: "splay_queue queue_ops" where
  "splay_ops = \<lparr> q_insert = (\<lambda>tm e q. Inr (splay_insert tm e q)), q_deque = (\<lambda>q. Inr (splay_deque q)), q_cancel = splay_cancel \<rparr>"

subsection \<open>The events in order\<close>

fun inorder :: "splay \<Rightarrow> nat list" where
  "inorder Null = []"
| "inorder (Node l t r) = inorder l @ t # inorder r"

definition splay_evs :: "splay_queue \<Rightarrow> nat list" where
  "splay_evs q = inorder (root q)"

definition splay_ok :: "splay_queue \<Rightarrow> (nat \<Rightarrow> rat) \<Rightarrow> bool" where
  "splay_ok q tm \<longleftrightarrow> sorted (List.map tm (splay_evs q)) \<and> distinct (splay_evs q) \<and> splay_qsize q = int (length (splay_evs q))"

lemma inorder_Nil [simp]: "inorder t = [] \<longleftrightarrow> t = Null"
  by (cases t) auto

lemma splay_split_ok:
  assumes "splay_split tm time s = (l, r)" and "sorted (List.map tm (inorder s))"
  shows "inorder s = inorder l @ inorder r \<and> (\<forall>x\<in>set (inorder l). tm x \<le> time) \<and> (\<forall>x\<in>set (inorder r). time < tm x)"
  using assms
proof (induction tm time s arbitrary: l r rule: splay_split.induct)
  case (2 tm time t0 t tr)
  have so: "\<forall>x\<in>set (inorder t0). tm x \<le> tm t" "\<forall>x\<in>set (inorder tr). tm t \<le> tm x" "sorted (List.map tm (inorder t0))"
    "sorted (List.map tm (inorder tr))"
    using 2(6) by (auto simp: sorted_append)
  show ?case
  proof (cases "time < tm t")
    case early: True
    show ?thesis
    proof (cases t0)
      case (Node xl x xr)
      show ?thesis
      proof (cases "time < tm x")
        case True
        obtain a b where ab: "splay_split tm time xl = (a, b)" by fastforce
        have "sorted (List.map tm (inorder xl))" using so(3) Node by (simp add: sorted_append)
        then have "inorder xl = inorder a @ inorder b \<and> (\<forall>y\<in>set (inorder a). tm y \<le> time) \<and> (\<forall>y\<in>set (inorder b). time < tm y)"
          using 2(1)[OF early Node True ab] by blast
        moreover have "l = a" "r = Node b x (Node xr t tr)" using 2(5) early Node True ab by simp_all
        moreover have "\<forall>y\<in>set (inorder xr). tm x \<le> tm y" using so(3) Node by (auto simp: sorted_append)
        ultimately show ?thesis using Node early True so(2) by fastforce
      next
        case False
        obtain a b where ab: "splay_split tm time t0 = (a, b)" by fastforce
        then have "inorder t0 = inorder a @ inorder b \<and> (\<forall>y\<in>set (inorder a). tm y \<le> time) \<and> (\<forall>y\<in>set (inorder b). time < tm y)"
          using 2(2)[OF early Node False ab so(3)] by blast
        moreover have "l = a" "r = Node b t tr" using 2(5) early Node False ab by simp_all
        ultimately show ?thesis using early so(2) by fastforce
      qed
    qed (use 2(5) early so(2) in fastforce)
  next
    case late: False
    show ?thesis
    proof (cases tr)
      case (Node xl x xr)
      show ?thesis
      proof (cases "tm x \<le> time")
        case True
        obtain a b where ab: "splay_split tm time xr = (a, b)" by fastforce
        have "sorted (List.map tm (inorder xr))" using so(4) Node by (simp add: sorted_append)
        then have "inorder xr = inorder a @ inorder b \<and> (\<forall>y\<in>set (inorder a). tm y \<le> time) \<and> (\<forall>y\<in>set (inorder b). time < tm y)"
          using 2(3)[OF late Node True ab] by blast
        moreover have "l = Node (Node t0 t xl) x a" "r = b" using 2(5) late Node True ab by simp_all
        moreover have "\<forall>y\<in>set (inorder xl). tm y \<le> tm x" using so(4) Node by (auto simp: sorted_append)
        ultimately show ?thesis using Node late True so(1) by fastforce
      next
        case False
        obtain a b where ab: "splay_split tm time tr = (a, b)" by fastforce
        then have "inorder tr = inorder a @ inorder b \<and> (\<forall>y\<in>set (inorder a). tm y \<le> time) \<and> (\<forall>y\<in>set (inorder b). time < tm y)"
          using 2(4)[OF late Node False ab so(4)] by blast
        moreover have "l = Node t0 t a" "r = b" using 2(5) late Node False ab by simp_all
        ultimately show ?thesis using late so(1) by fastforce
      qed
    qed (use 2(5) late so(1) in fastforce)
  qed
qed simp

lemma list_insert_split:
  "\<forall>x\<in>set xs. tm x \<le> tm e \<Longrightarrow> \<forall>x\<in>set ys. tm e < tm x \<Longrightarrow> list_insert tm e (xs @ ys) = xs @ e # ys"
proof (induction xs)
  case Nil
  then show ?case by (cases ys) auto
qed auto

lemma splay_min_inorder:
  "splay_min ll l lr t tr = (e, s) \<Longrightarrow> e # inorder s = inorder ll @ l # inorder lr @ t # inorder tr"
proof (induction ll l lr t tr arbitrary: e s rule: splay_min.induct)
  case (3 lll' lll lllr ll llr l lr t tr)
  obtain a b where ab: "splay_min lll' lll lllr ll (Node llr l lr) = (a, b)" by fastforce
  then have "e = a" "s = Node b t tr" using 3(2) by simp_all
  then show ?case using 3(1)[OF ab] by (simp flip: append_Cons)
qed auto

lemma take_successor_inorder: "take_successor l q qr = (e, s) \<Longrightarrow> e # inorder s = inorder l @ q # inorder qr"
proof (induction l q qr arbitrary: e s rule: take_successor.induct)
  case (2 l x r q qr)
  obtain a b where ab: "take_successor l x r = (a, b)" by fastforce
  then have "e = a" "s = Node b q qr" using 2(2) by simp_all
  then show ?case using 2(1)[OF ab] by (simp flip: append_Cons)
qed simp

lemma without_root_inorder: "inorder (without_root l r) = inorder l @ inorder r"
proof (cases r)
  case (Node rl p rr)
  obtain e s where es: "take_successor rl p rr = (e, s)" by fastforce
  show ?thesis using take_successor_inorder[OF es] Node es by (simp add: without_root_def)
qed (simp add: without_root_def)

text \<open>With distinct events in due order, the search goes where the event is.\<close>

lemma splay_unlink_ok:
  assumes "sorted_wrt (due_order tm uid) (inorder s)" and "e \<in> set (inorder s)"
  shows "\<exists>s'. splay_unlink tm uid e s = Inr s' \<and> inorder s' = filter (\<lambda>x. x \<noteq> e) (inorder s)"
  using assms
proof (induction s)
  case (Node l t r)
  let ?P = "due_order tm uid"
  have irr: "\<not> ?P x x" and asym: "?P x y \<Longrightarrow> \<not> ?P y x" for x y by (auto simp: due_order_def)
  have so: "sorted_wrt ?P (inorder l)" "sorted_wrt ?P (inorder r)" "\<forall>x\<in>set (inorder l). ?P x t" "\<forall>x\<in>set (inorder r). ?P t x"
    "\<forall>x\<in>set (inorder l). \<forall>y\<in>set (inorder r). ?P x y"
    using Node.prems(1) by (auto simp: sorted_wrt_append)
  have keep: "filter (\<lambda>x. x \<noteq> e) xs = xs" if "e \<notin> set xs" for xs using that by (auto simp: filter_id_conv)
  show ?case
  proof (cases "t = e")
    case True
    then have "e \<notin> set (inorder l)" "e \<notin> set (inorder r)" using so(3,4) irr by auto
    then show ?thesis using True keep by (simp add: without_root_inorder)
  next
    case False
    have run: "splay_unlink tm uid e (Node l t r) = (if ?P t e then bind_r (splay_unlink tm uid e r) (\<lambda>r'. Inr (Node l t r'))
        else bind_r (splay_unlink tm uid e l) (\<lambda>l'. Inr (Node l' t r)))"
      using False by (auto simp: due_order_def)
    show ?thesis
    proof (cases "?P t e")
      case True
      then have "e \<notin> set (inorder l)" using so(3) asym by blast
      moreover from this have "e \<in> set (inorder r)" using Node.prems(2) False by simp
      moreover obtain r' where "splay_unlink tm uid e r = Inr r'" "inorder r' = filter (\<lambda>x. x \<noteq> e) (inorder r)"
        using Node.IH(2)[OF so(2)] calculation(2) by blast
      ultimately show ?thesis unfolding run using True False keep by simp
    next
      case gt: False
      then have "e \<notin> set (inorder r)" using so(4) by blast
      moreover from this have "e \<in> set (inorder l)" using Node.prems(2) False by simp
      moreover obtain l' where "splay_unlink tm uid e l = Inr l'" "inorder l' = filter (\<lambda>x. x \<noteq> e) (inorder l)"
        using Node.IH(1)[OF so(1)] calculation(2) by blast
      ultimately show ?thesis unfolding run using gt False keep by simp
    qed
  qed
qed simp

lemma splay_insert_evs:
  assumes "splay_ok q tm" and "e \<notin> set (splay_evs q)" and "\<forall>x\<in>set (splay_evs q). tm' x = tm x"
  shows "splay_ok (splay_insert tm' e q) tm'" and "splay_evs (splay_insert tm' e q) = list_insert tm' e (splay_evs q)"
proof -
  have "List.map tm' (splay_evs q) = List.map tm (splay_evs q)" using assms(3) by simp
  then have so: "sorted (List.map tm' (inorder (root q)))" using assms(1) unfolding splay_ok_def splay_evs_def by metis
  obtain l r where lr: "splay_split tm' (tm' e) (root q) = (l, r)" by fastforce
  note sp = splay_split_ok[OF lr so]
  have evs: "splay_evs (splay_insert tm' e q) = inorder l @ e # inorder r"
  proof (cases "root q = Null")
    case True
    then have "l = Null" "r = Null" using lr by simp_all
    then show ?thesis using True by (simp add: splay_insert_def splay_evs_def)
  qed (simp add: splay_insert_def splay_evs_def lr)
  then show ins: "splay_evs (splay_insert tm' e q) = list_insert tm' e (splay_evs q)"
    using sp list_insert_split[of "inorder l" tm' e "inorder r"] by (simp add: splay_evs_def)
  have "splay_qsize (splay_insert tm' e q) = splay_qsize q + 1" by (simp add: splay_insert_def Let_def lr)
  moreover have "sorted (List.map tm' (inorder l @ e # inorder r))"
    using so sp by (fastforce simp: sorted_append)
  moreover have "distinct (splay_evs (splay_insert tm' e q))" unfolding ins list_insert_distinct using assms(1,2) by (simp add: splay_ok_def)
  moreover have "splay_evs q = inorder l @ inorder r" using sp by (simp add: splay_evs_def)
  ultimately show "splay_ok (splay_insert tm' e q) tm'" using assms(1) unfolding splay_ok_def by (simp add: evs)
qed

lemma splay_deque_evs:
  "case splay_evs q of [] \<Rightarrow> splay_deque q = (None, q)
    | e # es \<Rightarrow> \<exists>s. splay_deque q = (Some e, q\<lparr>root := s, splay_qsize := splay_qsize q - 1\<rparr>) \<and> inorder s = es"
proof (cases "root q")
  case (Node l t tr)
  show ?thesis
  proof (cases l)
    case (Node ll l' lr)
    obtain e s where es: "splay_min ll l' lr t tr = (e, s)" by fastforce
    have "splay_evs q = e # inorder s" using splay_min_inorder[OF es] Node \<open>root q = Node l t tr\<close> by (simp add: splay_evs_def)
    moreover have "splay_deque q = (Some e, q\<lparr>root := s, splay_qsize := splay_qsize q - 1\<rparr>)"
      using Node \<open>root q = Node l t tr\<close> es by (simp add: splay_deque_def)
    ultimately show ?thesis by auto
  qed (auto simp: splay_deque_def splay_evs_def Node)
qed (simp add: splay_deque_def splay_evs_def)

interpretation sq: event_queue splay_ops splay_evs splay_ok "\<lambda>q n. True" "\<lambda>t. True"
proof unfold_locales
  fix q tm tm' e
  assume "splay_ok q tm" and "e \<notin> set (splay_evs q)" and "\<forall>x\<in>set (splay_evs q). tm' x = tm x"
  then show "\<exists>q'. q_insert splay_ops tm' e q = Inr q' \<and> splay_ok q' tm' \<and> splay_evs q' = list_insert tm' e (splay_evs q) \<and> True"
    using splay_insert_evs by (simp add: splay_ops_def)
next
  fix q tm
  assume q: "splay_ok q tm"
  show "case splay_evs q of [] \<Rightarrow> q_deque splay_ops q = Inr (None, q)
    | e # es \<Rightarrow> \<exists>q'. q_deque splay_ops q = Inr (Some e, q') \<and> splay_ok q' tm \<and> splay_evs q' = es \<and> (\<forall>n. True \<longrightarrow> True)"
    using splay_deque_evs[of q] q by (cases "splay_evs q") (auto simp: splay_ops_def splay_ok_def splay_evs_def)
next
  fix q tm uid e
  assume q: "splay_ok q tm" and e: "e \<in> set (splay_evs q)" and so: "sorted_wrt (due_order tm uid) (splay_evs q)"
  obtain s where s: "splay_unlink tm uid e (root q) = Inr s" "inorder s = filter (\<lambda>x. x \<noteq> e) (splay_evs q)"
    using splay_unlink_ok[of tm uid "root q" e] e so by (auto simp: splay_evs_def)
  have d: "distinct (splay_evs q)" using q by (simp add: splay_ok_def)
  have "filter (\<lambda>x. x \<noteq> e) (splay_evs q) = remove1 e (splay_evs q)" using d by (simp add: distinct_remove1_removeAll removeAll_filter_not_eq eq_commute)
  then have "length (splay_evs q) = Suc (length (inorder s))" using e s(2) by (simp add: length_remove1) (metis Suc_pred length_pos_if_in_set)
  moreover have "sorted (List.map tm (inorder s))" using q s(2) unfolding splay_ok_def by (simp add: sorted_filter)
  moreover have "distinct (inorder s)" using d s(2) by simp
  ultimately show "\<exists>q'. q_cancel splay_ops tm uid e q = Inr q' \<and> splay_ok q' tm \<and> splay_evs q' = filter (\<lambda>x. x \<noteq> e) (splay_evs q) \<and> (\<forall>n. True \<longrightarrow> True)"
    using s q by (simp add: splay_ops_def splay_cancel_def splay_ok_def splay_evs_def)
next
  fix q tm tm'
  assume "splay_ok q tm" and e: "\<forall>x\<in>set (splay_evs q). tm' x = tm x"
  moreover have "List.map tm' (splay_evs q) = List.map tm (splay_evs q)" using e by simp
  ultimately show "splay_ok q tm'" unfolding splay_ok_def by metis
qed (simp_all add: splay_ok_def)

subsection \<open>The properties\<close>

text \<open>C40: The splay scheduler and the list scheduler run every simulation alike, for any delays.  In
  particular cancelling, which finds an event by its time and number, never aborts.\<close>

theorem splay_is_list_scheduler:
  assumes "\<forall>tr. length (beh tr) \<le> k"
  shows "simulate splay_ops new_Splay init beh n = simulate list_ops [] init beh n"
proof (rule sq.simulate_sim[where k = k])
  show "splay_evs new_Splay = []" "splay_ok new_Splay (\<lambda>_. 0)" by (simp_all add: new_Splay_def splay_evs_def splay_ok_def)
qed (use assms in simp_all)

lemma splay_is_list_scheduler_witness:
  "simulate splay_ops new_Splay [Schedule (Some 0) 1 2, Schedule (Some 0) 2 2, Schedule (Some 0) 3 1, Cancel 2] (\<lambda>_. []) 3 =
     Inr ([(3, 1), (1, 2)], 2)"
proof -
  have "simulate list_ops [] [Schedule (Some 0) 1 2, Schedule (Some 0) 2 2, Schedule (Some 0) 3 1, Cancel 2] (\<lambda>_. []) 3 =
     Inr ([(3, 1), (1, 2)], 2)"
    by (simp add: simulate_def new_Scheduler_def sched_schedule_def sched_cancel_def sc_time_def sched_dispatch_def
        eval_nat_numeral Let_def del: bind_r_eq_Inr)
  then show ?thesis
    using splay_is_list_scheduler[of "\<lambda>_. []" 0 "[Schedule (Some 0) 1 2, Schedule (Some 0) 2 2, Schedule (Some 0) 3 1, Cancel 2]" 3]
    by simp
qed

end
