(* ===== verification/ReassemblyQueue.thy ===== *)
theory ReassemblyQueue
  imports Prelude
begin

unbundle bit_operations_syntax

text \<open>
  The reassembly queue of the full TCP agents (\<^verbatim>\<open>tcp/rq.cc\<close>): the blocks of sequence numbers
  that were received, as a list in the order of the sequence numbers (\<^verbatim>\<open>head_\<close> first) and as a
  stack in the order of insertion (\<^verbatim>\<open>top_\<close> first), and the next sequence number expected.  A
  block has a number that stands for its address; the stack holds these numbers.  The search
  pointers \<^verbatim>\<open>p\<close> and \<^verbatim>\<open>q\<close> of \<^verbatim>\<open>add\<close> are positions in the list: \<^verbatim>\<open>p\<close> is the block before
  position \<^verbatim>\<open>k\<close> (null for 0), \<^verbatim>\<open>q\<close> the block at position \<^verbatim>\<open>j\<close> (null at the end).  \<^verbatim>\<open>hint_\<close> is not
  modelled: it is always set to \<^verbatim>\<open>head_\<close> before it is read.
\<close>

record seginfo =
  startseq :: int
  endseq :: int
  pflags :: int
  rqflags :: int
  seg_cnt :: int
  seg_id :: nat

record reass_queue =
  rq_fifo :: "seginfo list"
  rq_lifo :: "nat list"
  rq_total :: int
  rcv_nxt :: int
  rq_fresh :: nat

definition new_ReassemblyQueue :: "int \<Rightarrow> reass_queue" where
  "new_ReassemblyQueue rcvnxt = \<lparr> rq_fifo = [], rq_lifo = [], rq_total = 0, rcv_nxt = rcvnxt, rq_fresh = 0 \<rparr>"

definition rq_empty :: "reass_queue \<Rightarrow> bool" where
  "rq_empty q \<longleftrightarrow> rq_fifo q = []"

definition maxseq :: "reass_queue \<Rightarrow> int" where
  "maxseq q = (if rq_fifo q = [] then -1 else endseq (last (rq_fifo q)))"

definition minseq :: "reass_queue \<Rightarrow> int" where
  "minseq q = (if rq_fifo q = [] then -1 else startseq (hd (rq_fifo q)))"

definition rq_clear :: "reass_queue \<Rightarrow> reass_queue" where
  "rq_clear q = q\<lparr>rq_fifo := [], rq_lifo := [], rq_total := 0\<rparr>"

definition rq_init :: "int \<Rightarrow> reass_queue \<Rightarrow> reass_queue" where
  "rq_init rcvnxt q = rq_clear (q\<lparr>rcv_nxt := rcvnxt\<rparr>)"

definition seg_len :: "seginfo \<Rightarrow> int" where
  "seg_len s = endseq s - startseq s"

fun cnts :: "seginfo list \<Rightarrow> int \<times> int" where
  "cnts [] = (0, 0)"
| "cnts (p # ps) = (let (b, n) = cnts ps in (b + 1, n + seg_len p))"

subsection \<open>Adding a block\<close>

text \<open>\<^verbatim>\<open>fremove\<close> and \<^verbatim>\<open>sremove\<close> of the block at position \<^verbatim>\<open>i\<close>.\<close>

definition rq_remove :: "nat \<Rightarrow> reass_queue \<Rightarrow> reass_queue" where
  "rq_remove i q = q\<lparr>rq_fifo := take i (rq_fifo q) @ drop (Suc i) (rq_fifo q),
     rq_lifo := filter (\<lambda>x. x \<noteq> seg_id (rq_fifo q ! i)) (rq_lifo q)\<rparr>"

definition rq_upd :: "nat \<Rightarrow> (seginfo \<Rightarrow> seginfo) \<Rightarrow> reass_queue \<Rightarrow> reass_queue" where
  "rq_upd i f q = q\<lparr>rq_fifo := (rq_fifo q)[i := f (rq_fifo q ! i)]\<rparr>"

text \<open>\<^verbatim>\<open>coalesce\<close> of the new block at position \<^verbatim>\<open>k\<close> with its neighbours.\<close>

definition advance :: "nat \<Rightarrow> reass_queue \<Rightarrow> reass_queue" where
  "advance i q = (if rcv_nxt q \<ge> startseq (rq_fifo q ! i) then q\<lparr>rcv_nxt := endseq (rq_fifo q ! i)\<rparr> else q)"

definition coalesce :: "nat \<Rightarrow> reass_queue \<Rightarrow> (int \<times> reass_queue) result" where
  "coalesce k q =
    (let xs = rq_fifo q; n = xs ! k;
         left = (0 < k \<and> endseq (xs ! (k - 1)) = startseq n);
         right = (Suc k < length xs \<and> endseq n = startseq (xs ! Suc k))
     in if left \<and> right then
          (let p = xs ! (k - 1); r = xs ! Suc k; flags = pflags p OR pflags n;
               q' = rq_upd (k - 1) (\<lambda>p. p\<lparr>endseq := endseq r, seg_cnt := seg_cnt p + (seg_cnt n + seg_cnt r), pflags := flags\<rparr>)
                 (rq_remove k (rq_remove (Suc k) q))
           in Inr (flags, advance (k - 1) q'))
        else if left then
          (let p = xs ! (k - 1); flags = pflags p OR pflags n;
               q' = rq_upd (k - 1) (\<lambda>p. p\<lparr>endseq := endseq n, pflags := flags, seg_cnt := seg_cnt p + seg_cnt n\<rparr>) (rq_remove k q)
           in Inr (flags, advance (k - 1) q'))
        else if right then
          (let r = xs ! Suc k; flags = pflags r OR pflags n;
               q' = rq_upd k (\<lambda>r. r\<lparr>startseq := startseq n, pflags := flags, seg_cnt := seg_cnt r + seg_cnt n\<rparr>) (rq_remove k q)
           in Inr (flags, advance k q'))
        else if k = 0 then Inl NullDeref
        else Inr (0, advance (k - 1) q))"

text \<open>The code at \<^verbatim>\<open>endfast\<close>: a new block between \<^verbatim>\<open>p\<close> and \<^verbatim>\<open>q\<close>.\<close>

definition endfast :: "nat \<Rightarrow> nat \<Rightarrow> bool \<Rightarrow> int \<Rightarrow> int \<Rightarrow> int \<Rightarrow> int \<Rightarrow> int \<Rightarrow> reass_queue \<Rightarrow> (int \<times> reass_queue) result" where
  "endfast k j needmerge start end tiflags flags cnt q =
    (let n = \<lparr> startseq = start, endseq = end, pflags = tiflags, rqflags = flags, seg_cnt = cnt, seg_id = rq_fresh q \<rparr>;
         q1 = q\<lparr>rq_fifo := take k (rq_fifo q) @ n # drop j (rq_fifo q), rq_lifo := rq_fresh q # rq_lifo q,
           rq_total := rq_total q + (end - start), rq_fresh := Suc (rq_fresh q)\<rparr>
     in if needmerge then coalesce k q1
        else Inr (tiflags, if rcv_nxt q1 \<ge> start then q1\<lparr>rcv_nxt := end\<rparr> else q1))"

text \<open>The loop that removes the blocks which the new one covers, from position \<^verbatim>\<open>i\<close> up to \<^verbatim>\<open>m\<close>
  blocks on: either the block is there already, or the flags and counts collected from the removed
  blocks and whether there were any.\<close>

datatype covered = Exact int reass_queue | Covered bool int int reass_queue

fun kill_covered :: "nat \<Rightarrow> int \<Rightarrow> int \<Rightarrow> nat \<Rightarrow> bool \<Rightarrow> int \<Rightarrow> int \<Rightarrow> reass_queue \<Rightarrow> covered" where
  "kill_covered 0 start end i altered tiflags cnt q = Covered altered tiflags cnt q"
| "kill_covered (Suc m) start end i altered tiflags cnt q =
    (let r = rq_fifo q ! i in
     if start = startseq r \<and> end = endseq r
     then (let f = pflags r OR tiflags in Exact f (rq_upd i (\<lambda>r. r\<lparr>pflags := f\<rparr>) q))
     else if start \<le> startseq r \<and> end \<ge> endseq r
     then kill_covered m start end i True (tiflags OR pflags r) (cnt + seg_cnt r)
       (rq_remove i (q\<lparr>rq_total := rq_total q - seg_len r\<rparr>))
     else kill_covered m start end (Suc i) altered tiflags cnt q)"

text \<open>The merges with the block on the left, at position \<^verbatim>\<open>k\<close>, and with the block on the right,
  before position \<^verbatim>\<open>j\<close>; then \<^verbatim>\<open>p\<close> and \<^verbatim>\<open>q\<close> are these blocks.\<close>

definition merge_left :: "nat \<Rightarrow> int \<Rightarrow> int \<Rightarrow> int \<Rightarrow> reass_queue \<Rightarrow> (bool \<times> nat \<times> int \<times> int \<times> reass_queue) result" where
  "merge_left k start tiflags cnt q =
    (if k \<ge> length (rq_fifo q) then Inl NullDeref
     else (let p = rq_fifo q ! k in
       if k = 0 \<or> startseq p < start
       then (let q1 = (if start < startseq p then rq_upd k (\<lambda>p. p\<lparr>startseq := start\<rparr>) (q\<lparr>rq_total := rq_total q + (startseq p - start)\<rparr>) else q);
                 q2 = rq_upd k (\<lambda>p. p\<lparr>pflags := pflags p OR tiflags, seg_cnt := seg_cnt p + 1\<rparr>) q1
             in Inr (True, Suc k, endseq p, cnt - 1, q2))
       else Inr (False, k, start, cnt, q)))"

definition merge_right :: "nat \<Rightarrow> int \<Rightarrow> int \<Rightarrow> bool \<Rightarrow> reass_queue \<Rightarrow> (bool \<times> nat \<times> int \<times> reass_queue) result" where
  "merge_right j end tiflags needmerge q =
    (if j = 0 then Inl NullDeref
     else (let i = j - 1; r = rq_fifo q ! i in
       if j = length (rq_fifo q) \<or> endseq r > end
       then (let q1 = (if end > endseq r then rq_upd i (\<lambda>r. r\<lparr>endseq := end\<rparr>) (q\<lparr>rq_total := rq_total q + (end - endseq r)\<rparr>) else q);
                 q2 = rq_upd i (\<lambda>r. r\<lparr>pflags := pflags r OR tiflags\<rparr>) q1
             in Inr (True, i, startseq r, q2))
       else Inr (needmerge, j, end, q)))"

text \<open>What \<^verbatim>\<open>add\<close> does once nothing is covered.\<close>

definition add_merged :: "nat \<Rightarrow> nat \<Rightarrow> int \<Rightarrow> int \<Rightarrow> int \<Rightarrow> int \<Rightarrow> int \<Rightarrow> reass_queue \<Rightarrow> (int \<times> reass_queue) result" where
  "add_merged k j start end tiflags flags cnt q =
    bind_r (merge_left k start tiflags cnt q) (\<lambda>(m1, k', start', cnt', q1).
    bind_r (merge_right j end tiflags m1 q1) (\<lambda>(m2, j', end', q2).
      if end' \<le> start' then Inr (tiflags, advance 0 q2)
      else if k' = 0 \<and> \<not> m2 \<or> j' \<ge> length (rq_fifo q2) \<and> \<not> m2 then Inl NullDeref
      else (let m3 = (m2 \<or> k' = j' \<and> endseq (rq_fifo q2 ! (k' - 1)) \<le> start' \<and> startseq (rq_fifo q2 ! j') \<ge> end' \<and>
                  (endseq (rq_fifo q2 ! (k' - 1)) = start' \<or> startseq (rq_fifo q2 ! j') = end'))
            in endfast k' j' m3 start' end' tiflags flags cnt' q2)))"

definition search_before :: "int \<Rightarrow> seginfo list \<Rightarrow> nat" where
  "search_before start xs = length (dropWhile (\<lambda>r. endseq r > start) (rev xs))"

definition search_after :: "int \<Rightarrow> seginfo list \<Rightarrow> nat" where
  "search_after end xs = length (takeWhile (\<lambda>r. startseq r < end) xs)"

text \<open>From \<^verbatim>\<open>again2\<close> on.\<close>

lemma kill_covered_length:
  "kill_covered m start end i altered f c q = Covered a f' c' q' \<Longrightarrow> i + m \<le> length (rq_fifo q) \<Longrightarrow>
    length (rq_fifo q') \<le> length (rq_fifo q) \<and> (a \<longrightarrow> altered \<or> length (rq_fifo q') < length (rq_fifo q))"
proof (induction m start "end" i altered f c q rule: kill_covered.induct)
  case (2 m start e i altered f c q)
  let ?r = "rq_fifo q ! i"
  have r: "length (rq_fifo (rq_remove i (q\<lparr>rq_total := rq_total q - seg_len ?r\<rparr>))) = length (rq_fifo q) - 1"
    using 2(4) by (simp add: rq_remove_def)
  consider "start = startseq ?r \<and> e = endseq ?r" | "\<not> (start = startseq ?r \<and> e = endseq ?r)" "start \<le> startseq ?r \<and> e \<ge> endseq ?r"
    | "\<not> (start = startseq ?r \<and> e = endseq ?r)" "\<not> (start \<le> startseq ?r \<and> e \<ge> endseq ?r)" by blast
  then show ?case
  proof cases
    case 1
    then show ?thesis using 2(3) by (simp add: Let_def)
  next
    case 2
    have "kill_covered m start e i True (f OR pflags ?r) (c + seg_cnt ?r) (rq_remove i (q\<lparr>rq_total := rq_total q - seg_len ?r\<rparr>)) = Covered a f' c' q'"
      using "2.prems"(1) unfolding kill_covered.simps Let_def if_not_P[OF 2(1)] if_P[OF 2(2)] .
    moreover have "i + m \<le> length (rq_fifo (rq_remove i (q\<lparr>rq_total := rq_total q - seg_len ?r\<rparr>)))" using r "2.prems"(2) by simp
    ultimately show ?thesis using "2.IH"(1)[OF refl 2] r "2.prems"(2) by force
  next
    case 3
    have "kill_covered m start e (Suc i) altered f c q = Covered a f' c' q'"
      using "2.prems"(1) unfolding kill_covered.simps Let_def if_not_P[OF 3(1)] if_not_P[OF 3(2)] .
    then show ?thesis using "2.IH"(2)[OF refl 3] "2.prems"(2) by simp
  qed
qed auto

function (sequential) add_again :: "int \<Rightarrow> int \<Rightarrow> int \<Rightarrow> int \<Rightarrow> int \<Rightarrow> reass_queue \<Rightarrow> (int \<times> reass_queue) result" where
  "add_again start end tiflags flags cnt q =
    (let xs = rq_fifo q; n = length xs in
     if xs = [] then Inl NullDeref
     else if start \<ge> endseq (last xs) then endfast n n (start = endseq (last xs)) start end tiflags flags cnt q
     else if end \<le> startseq (hd xs) then endfast 0 0 (end = startseq (hd xs)) start end tiflags flags cnt q
     else (let k = search_before start xs; j = search_after end xs; i = k - 1 in
       case kill_covered ((if i \<le> j then j else n) - i) start end i False tiflags cnt q of
         Exact f q' \<Rightarrow> Inr (f, q')
       | Covered altered tiflags' cnt' q' \<Rightarrow>
           if rq_fifo q' = [] then (if k = 0 then endfast 0 0 False start end tiflags' flags cnt' q' else Inl UseAfterFree)
           else if altered then add_again start end tiflags' flags cnt' q'
           else add_merged k j start end tiflags' flags cnt' q'))"
  by pat_completeness auto

lemma search_le: "search_before start xs \<le> length xs" "search_after end xs \<le> length xs"
  by (simp_all add: search_before_def search_after_def length_takeWhile_le)
    (metis length_dropWhile_le length_rev)

termination add_again
proof (relation "measure (\<lambda>(_, _, _, _, _, q). length (rq_fifo q))", goal_cases)
  case (2 start e tiflags flags cnt q xs n k j i altered f' c' q')
  have "i + ((if i \<le> j then j else n) - i) \<le> length (rq_fifo q)"
    using search_le[of start xs] search_le(2)[of e xs] unfolding 2(1,2,6,7,8) by auto
  then show ?case using kill_covered_length[OF 2(9)] 2(11) by simp
qed simp

definition rq_add :: "int \<Rightarrow> int \<Rightarrow> int \<Rightarrow> int \<Rightarrow> reass_queue \<Rightarrow> (int \<times> reass_queue) result" where
  "rq_add start end tiflags flags q =
    (if end < start then Inl Abort
     else if rq_fifo q = [] then
       (if rq_lifo q \<noteq> [] then Inl Abort
        else (let n = \<lparr> startseq = start, endseq = end, pflags = tiflags, rqflags = flags, seg_cnt = 1, seg_id = rq_fresh q \<rparr>;
                  q1 = q\<lparr>rq_fifo := [n], rq_lifo := [rq_fresh q], rq_fresh := Suc (rq_fresh q), rq_total := end - start\<rparr>
              in Inr (tiflags, if rcv_nxt q1 \<ge> start then q1\<lparr>rcv_nxt := end\<rparr> else q1)))
     else add_again start end tiflags flags 1 q)"

subsection \<open>The other operations\<close>

text \<open>\<^verbatim>\<open>clearto\<close>, with the flags of what it removes.\<close>

fun clear_blocks :: "int \<Rightarrow> nat \<Rightarrow> int \<Rightarrow> reass_queue \<Rightarrow> int \<times> reass_queue" where
  "clear_blocks seq 0 flag q = (flag, q)"
| "clear_blocks seq (Suc n) flag q =
    (let p = hd (rq_fifo q) in
     if endseq p \<le> seq then clear_blocks seq n (flag OR pflags p) (rq_remove 0 (q\<lparr>rq_total := rq_total q - seg_len p\<rparr>))
     else if startseq p \<le> seq
     then (flag OR pflags p, rq_upd 0 (\<lambda>p. p\<lparr>startseq := seq\<rparr>) (q\<lparr>rq_total := rq_total q - (seq - startseq p)\<rparr>))
     else (flag, q))"

definition clearto :: "int \<Rightarrow> reass_queue \<Rightarrow> int \<times> reass_queue" where
  "clearto seq q = clear_blocks seq (length (rq_fifo q)) 0 q"

definition cleartonxt :: "reass_queue \<Rightarrow> int \<times> reass_queue" where
  "cleartonxt q = clearto (rcv_nxt q) q"

text \<open>The blocks for a selective acknowledgement, from the top of the stack.\<close>

definition block_of :: "reass_queue \<Rightarrow> nat \<Rightarrow> seginfo option" where
  "block_of q i = List.find (\<lambda>s. seg_id s = i) (rq_fifo q)"

definition gensack :: "nat \<Rightarrow> reass_queue \<Rightarrow> (int \<times> int) list" where
  "gensack maxsblock q = List.map (\<lambda>s. (startseq s, endseq s)) (List.map_filter (block_of q) (take maxsblock (rq_lifo q)))"

fun hole_in :: "int \<Rightarrow> seginfo list \<Rightarrow> int \<times> int \<times> int" where
  "hole_in seq [] = (-1, -1, -1)"
| "hole_in seq (p # ps) =
    (if startseq p > seq then (seq, cnts (p # ps))
     else if startseq p \<le> seq \<and> endseq p \<ge> seq then (endseq p, if ps = [] then (-1, -1) else cnts ps)
     else hole_in seq ps)"

definition nexthole :: "int \<Rightarrow> reass_queue \<Rightarrow> int \<times> int \<times> int" where
  "nexthole seq q = hole_in seq (rq_fifo q)"

text \<open>\<^verbatim>\<open>getNextHoleRange\<close> leaves \<^verbatim>\<open>end\<close> as it was behind the last block.\<close>

fun hole_range :: "int \<Rightarrow> int \<Rightarrow> seginfo list \<Rightarrow> (int \<times> int) option" where
  "hole_range seq e [] = None"
| "hole_range seq e (p # ps) =
    (if startseq p > seq then Some (seq, startseq p)
     else if startseq p \<le> seq \<and> endseq p \<ge> seq then Some (endseq p, if ps = [] then e else startseq (hd ps))
     else hole_range seq e ps)"

definition getNextHoleRange :: "int \<Rightarrow> int \<Rightarrow> reass_queue \<Rightarrow> (int \<times> int) option" where
  "getNextHoleRange seq e q = hole_range seq e (rq_fifo q)"

text \<open>\<^verbatim>\<open>getLossSeqSum\<close>, from the tail; \<^verbatim>\<open>lastReceivedSeq\<close> is set once.\<close>

fun loss_sum :: "int \<Rightarrow> int \<Rightarrow> int \<Rightarrow> int \<Rightarrow> seginfo list \<Rightarrow> int" where
  "loss_sum thr loss received lst [] = loss"
| "loss_sum thr loss received lst (p # ps) =
    (if received + seg_len p \<ge> thr then
       (if lst = 0 then loss_sum thr loss (received + seg_len p) (startseq p) ps
        else loss_sum thr (loss + lst - endseq p) (received + seg_len p) lst ps)
     else loss_sum thr loss (received + seg_len p) lst ps)"

definition getLossSeqSum :: "int \<Rightarrow> int \<Rightarrow> reass_queue \<Rightarrow> int" where
  "getLossSeqSum mss dupThreshold q =
    (if rq_total q < (dupThreshold - 1) * mss then 0 else loss_sum ((dupThreshold - 1) * mss) 0 0 0 (rev (rq_fifo q)))"

text \<open>\<^verbatim>\<open>IsLost\<close>: its loop does not move \<^verbatim>\<open>p\<close>, so it looks at the last block again and again.\<close>

partial_function (option) lost_loop :: "int \<Rightarrow> int \<Rightarrow> int \<Rightarrow> seginfo \<Rightarrow> int \<Rightarrow> int \<Rightarrow> bool option" where
  "lost_loop seq thr dup p blocks bytes =
    (let blocks' = blocks + 1 in
     if startseq p \<ge> seq then
       (let bytes' = bytes + seg_len p in
        if blocks' \<ge> dup \<or> bytes' > thr then Some True else lost_loop seq thr dup p blocks' bytes')
     else (let bytes' = (if endseq p > seq then bytes + (endseq p - seq) else bytes)
           in Some (blocks' \<ge> dup \<or> bytes' > thr)))"

definition IsLost :: "int \<Rightarrow> int \<Rightarrow> int \<Rightarrow> reass_queue \<Rightarrow> bool option" where
  "IsLost seq mss dupThreshold q =
    (if rq_fifo q = [] then Some (0 \<ge> dupThreshold \<or> 0 > (dupThreshold - 1) * mss)
     else lost_loop seq ((dupThreshold - 1) * mss) dupThreshold (last (rq_fifo q)) 0 0)"

definition ifMissSegment :: "int \<Rightarrow> int \<Rightarrow> reass_queue \<Rightarrow> int" where
  "ifMissSegment seq mss q =
    (if rq_total q = 0 then 0
     else if minseq q > seq \<or> maxseq q < seq + mss then 0
     else if list_ex (\<lambda>p. startseq p \<le> seq \<and> endseq p \<ge> seq + mss) (rq_fifo q) then -1
     else 1)"

fun fack_loop :: "int \<Rightarrow> int \<Rightarrow> int \<Rightarrow> seginfo list \<Rightarrow> int" where
  "fack_loop stop loss lastEnd [] = loss"
| "fack_loop stop loss lastEnd (p # ps) =
    (if endseq p \<ge> stop then
       (if startseq p \<le> stop then loss + startseq p - lastEnd else loss + stop - lastEnd)
     else fack_loop stop (loss + (startseq p - lastEnd)) (endseq p) ps)"

definition getFACKLossSeqSum :: "int \<Rightarrow> int \<Rightarrow> int \<Rightarrow> reass_queue \<Rightarrow> int" where
  "getFACKLossSeqSum mss tcprexmtthresh highest_ack q =
    (if maxseq q - highest_ack \<le> tcprexmtthresh * mss then 0
     else (let stop = maxseq q - tcprexmtthresh * mss in
       case rq_fifo q of [] \<Rightarrow> 0
       | p # ps \<Rightarrow>
           (let loss = (if startseq p \<le> stop then startseq p - highest_ack else 0) in
            if endseq p \<ge> stop then loss else fack_loop stop loss (endseq p) ps)))"

end
