(* ===== verification/ReassemblyOrder.thy ===== *)
theory ReassemblyOrder
  imports ReassemblyQueue
begin

text \<open>
  The reassembly queue keeps its blocks sorted, apart and merged: adding a segment does what the
  textbook insertion into a list of intervals does, and the next sequence number expected is the
  first one that is missing.
\<close>

subsection \<open>Intervals\<close>

text \<open>The reference: an interval list, and the insertion of an interval that merges those it touches.\<close>

type_synonym interval = "int \<times> int"

fun merge_in :: "int \<Rightarrow> int \<Rightarrow> interval list \<Rightarrow> interval list" where
  "merge_in s e [] = [(s, e)]"
| "merge_in s e ((a, b) # r) =
    (if b < s then (a, b) # merge_in s e r
     else if e < a then (s, e) # (a, b) # r
     else merge_in (min s a) (max e b) r)"

definition apart :: "interval list \<Rightarrow> bool" where
  "apart xs \<longleftrightarrow> sorted_wrt (\<lambda>x y. snd x < fst y) xs \<and> (\<forall>x\<in>set xs. fst x \<le> snd x)"

lemma apart_simps [simp]:
  "apart []" "apart (x # xs) \<longleftrightarrow> fst x \<le> snd x \<and> (\<forall>y\<in>set xs. snd x < fst y) \<and> apart xs"
  by (auto simp: apart_def)

lemma apart_append: "apart (xs @ ys) \<longleftrightarrow> apart xs \<and> apart ys \<and> (\<forall>x\<in>set xs. \<forall>y\<in>set ys. snd x < fst y)"
  by (auto simp: apart_def sorted_wrt_append)

lemma apart_disjoint:
  assumes "apart xs" and "x \<in> set xs" and "y \<in> set xs" and "x \<noteq> y"
  shows "snd x < fst y \<or> snd y < fst x"
  using assms by (induction xs) auto

lemma merge_in_before: "\<forall>x\<in>set xs. snd x < s \<Longrightarrow> merge_in s e (xs @ ys) = xs @ merge_in s e ys"
  by (induction xs) auto

lemma merge_in_touch: "s \<le> snd x \<Longrightarrow> fst x \<le> e \<Longrightarrow> merge_in s e (x # ys) = merge_in (min s (fst x)) (max e (snd x)) ys"
  by (cases x) auto

lemma merge_in_after: "\<forall>x\<in>set xs. e < fst x \<Longrightarrow> \<forall>x\<in>set xs. fst x \<le> snd x \<Longrightarrow> s \<le> e \<Longrightarrow> merge_in s e xs = (s, e) # xs"
  by (cases xs) auto

lemma merge_in_not_Nil [simp]: "merge_in s e xs \<noteq> []"
  by (induction s e xs rule: merge_in.induct) auto

lemma merge_in_covered:
  assumes "apart (xs @ x # ys)" and "s \<le> fst x" and "snd x \<le> e"
  shows "merge_in s e (xs @ x # ys) = merge_in s e (xs @ ys)"
  using assms
proof (induction xs arbitrary: s e)
  case Nil
  then show ?case by (simp add: merge_in_touch min_absorb1 max_absorb1)
next
  case (Cons y xs)
  obtain a b where y: "y = (a, b)" by (cases y)
  have "b < fst x" "fst x \<le> snd x" "a \<le> b" using Cons.prems(1) y by (auto simp: apart_append)
  moreover have "merge_in (min s a) (max e b) (xs @ x # ys) = merge_in (min s a) (max e b) (xs @ ys)"
    by (rule Cons.IH) (use Cons.prems in auto)
  ultimately show ?case using Cons.prems Cons.IH[of s e] y by auto
qed

lemma merge_in_lower: "l < s \<Longrightarrow> \<forall>x\<in>set xs. l < fst x \<Longrightarrow> \<forall>x\<in>set (merge_in s e xs). l < fst x"
proof (induction xs arbitrary: s e)
  case (Cons y xs)
  obtain a b where "y = (a, b)" by (cases y)
  then show ?case using Cons.prems Cons.IH[of s e] Cons.IH[of "min s a" "max e b"] by simp
qed simp

text \<open>What the insertion does: one block, \<^verbatim>\<open>m\<close>, holds the new interval and everything it touches, the
  others stay.\<close>

definition merged :: "int \<Rightarrow> int \<Rightarrow> interval list \<Rightarrow> interval list \<Rightarrow> interval \<Rightarrow> bool" where
  "merged s e xs ys m \<longleftrightarrow> m \<in> set ys \<and> fst m \<le> s \<and> e \<le> snd m \<and> set ys \<subseteq> insert m (set xs) \<and>
     (\<forall>x\<in>set xs. x \<in> set ys \<or> fst m \<le> fst x \<and> snd x \<le> snd m) \<and>
     (\<forall>x\<in>set xs. s \<le> snd x \<longrightarrow> fst x \<le> e \<longrightarrow> fst m \<le> fst x \<and> snd x \<le> snd m)"

lemma merge_in_ok:
  assumes "apart xs" and "s \<le> e"
  shows "apart (merge_in s e xs) \<and> (\<exists>m. merged s e xs (merge_in s e xs) m)"
  using assms
proof (induction xs arbitrary: s e)
  case Nil
  have "merged s e [] [(s, e)] (s, e)" by (simp add: merged_def)
  then show ?case using Nil by auto
next
  case (Cons y xs)
  obtain a b where y: "y = (a, b)" by (cases y)
  have ab: "a \<le> b" "\<forall>z\<in>set xs. b < fst z" "apart xs" using Cons.prems(1) y by auto
  consider "b < s" | "\<not> b < s" "e < a" | "\<not> b < s" "\<not> e < a" by blast
  then show ?case
  proof cases
    case 1
    obtain m where m: "apart (merge_in s e xs)" "merged s e xs (merge_in s e xs) m" using Cons.IH[OF ab(3) Cons.prems(2)] by blast
    have eq: "merge_in s e (y # xs) = y # merge_in s e xs" using 1 y by simp
    have "\<forall>z\<in>set (merge_in s e xs). b < fst z" by (rule merge_in_lower) (use 1 ab(2) in auto)
    then have "apart (y # merge_in s e xs)" using m(1) ab(1) y by simp
    moreover have "merged s e (y # xs) (y # merge_in s e xs) m" using m(2) 1 y unfolding merged_def by auto
    ultimately show ?thesis unfolding eq by blast
  next
    case 2
    then have eq: "merge_in s e (y # xs) = (s, e) # y # xs" using y by simp
    have "apart ((s, e) # y # xs)" using Cons.prems 2 y ab by auto
    moreover have "merged s e (y # xs) ((s, e) # y # xs) (s, e)" using 2 y ab by (auto simp: merged_def)
    ultimately show ?thesis unfolding eq by blast
  next
    case 3
    have "min s a \<le> max e b" using Cons.prems(2) by simp
    then obtain m where m: "apart (merge_in (min s a) (max e b) xs)" "merged (min s a) (max e b) xs (merge_in (min s a) (max e b) xs) m"
      using Cons.IH[OF ab(3)] by blast
    have eq: "merge_in s e (y # xs) = merge_in (min s a) (max e b) xs" using 3 y by simp
    have "merged s e (y # xs) (merge_in (min s a) (max e b) xs) m" using m(2) y unfolding merged_def by auto
    then show ?thesis using m(1) unfolding eq by blast
  qed
qed

text \<open>The blocks before, those that overlap, and those behind.\<close>

definition join :: "interval list \<Rightarrow> int \<Rightarrow> int \<Rightarrow> interval list \<Rightarrow> interval list" where
  "join A lo hi B =
    (let l = (A \<noteq> [] \<and> snd (last A) = lo); r = (B \<noteq> [] \<and> fst (hd B) = hi)
     in (if l then butlast A else A) @ (if l then fst (last A) else lo, if r then snd (hd B) else hi) # (if r then tl B else B))"

lemma merge_in_run:
  assumes "apart (x # xs)" and "\<forall>y\<in>set (x # xs). s \<le> snd y \<and> fst y \<le> e"
  shows "merge_in s e (x # xs @ ys) = merge_in (min s (fst x)) (max e (snd (last (x # xs)))) ys"
  using assms
proof (induction xs arbitrary: x s e)
  case Nil
  then show ?case by (simp add: merge_in_touch)
next
  case (Cons y xs)
  let ?s = "min s (fst x)" and ?e = "max e (snd x)"
  have "merge_in s e (x # (y # xs) @ ys) = merge_in ?s ?e (y # xs @ ys)" using Cons.prems(2) by (simp add: merge_in_touch)
  also have "\<dots> = merge_in (min ?s (fst y)) (max ?e (snd (last (y # xs)))) ys"
    by (rule Cons.IH) (use Cons.prems in \<open>auto simp: min_le_iff_disj le_max_iff_disj\<close>)
  also have "min ?s (fst y) = ?s" using Cons.prems(1) by auto
  also have "max ?e (snd (last (y # xs))) = max e (snd (last (x # y # xs)))"
  proof -
    have "last (y # xs) \<in> set (y # xs)" by (rule last_in_set) simp
    moreover have "snd x < fst z \<and> fst z \<le> snd z" if "z \<in> set (y # xs)" for z
      using Cons.prems(1) that unfolding apart_def by auto
    ultimately have "snd x < snd (last (y # xs))" by fastforce
    then show ?thesis by simp
  qed
  finally show ?case .
qed

lemma merge_in_right:
  assumes "apart B" and "s \<le> e" and "\<forall>b\<in>set B. e \<le> fst b"
  shows "merge_in s e B = (s, if B \<noteq> [] \<and> fst (hd B) = e then snd (hd B) else e) # (if B \<noteq> [] \<and> fst (hd B) = e then tl B else B)"
proof (cases B)
  case (Cons b B')
  show ?thesis
  proof (cases "fst b = e")
    case True
    have "merge_in s e B = merge_in s (snd b) B'" using True assms Cons by (simp add: merge_in_touch min_absorb1 max_absorb2)
    also have "\<dots> = (s, snd b) # B'" by (rule merge_in_after) (use assms True Cons in \<open>auto simp: apart_def\<close>)
    finally show ?thesis using True Cons by simp
  next
    case False
    have "e < fst z" if "z \<in> set B" for z using that assms(1,3) Cons False by fastforce
    then have "merge_in s e B = (s, e) # B" using assms(1,2) by (intro merge_in_after) (auto simp: apart_def)
    then show ?thesis using False Cons by simp
  qed
qed simp

lemma merge_in_parts:
  assumes ap: "apart (A @ M @ B)" and se: "s \<le> e" and A: "\<forall>a\<in>set A. snd a \<le> s" and M: "\<forall>m\<in>set M. s < snd m \<and> fst m < e"
    and B: "\<forall>b\<in>set B. e \<le> fst b"
  shows "merge_in s e (A @ M @ B) = join A (if M = [] then s else min s (fst (hd M))) (if M = [] then e else max e (snd (last M))) B"
proof -
  define lo where "lo = (if M = [] then s else min s (fst (hd M)))"
  define hi where "hi = (if M = [] then e else max e (snd (last M)))"
  have apM: "apart M" "apart B" "apart A" and MB: "\<forall>x\<in>set M. \<forall>y\<in>set B. snd x < fst y" and AM: "\<forall>x\<in>set A. \<forall>y\<in>set M. snd x < fst y"
    using ap by (auto simp: apart_append)
  have mid: "merge_in s' e (M @ B) = merge_in (if M = [] then s' else min s' (fst (hd M))) hi B" if "s' \<le> s" for s'
  proof (cases M)
    case (Cons m M')
    have "s' \<le> snd y \<and> fst y \<le> e" if "y \<in> set (m # M')" for y using M \<open>s' \<le> s\<close> that Cons by fastforce
    moreover have "apart (m # M')" using apM(1) Cons by simp
    ultimately show ?thesis unfolding Cons hi_def using merge_in_run[of m M' s' e B] by simp
  qed (simp add: hi_def)
  have lohi: "lo \<le> s" "e \<le> hi" by (simp_all add: lo_def hi_def)
  have hiB: "\<forall>b\<in>set B. hi \<le> fst b" using B MB by (auto simp: hi_def less_imp_le)
  have rt: "merge_in l hi B = (l, if B \<noteq> [] \<and> fst (hd B) = hi then snd (hd B) else hi) # (if B \<noteq> [] \<and> fst (hd B) = hi then tl B else B)"
    if "l \<le> s" for l
    by (rule merge_in_right) (use apM(2) hiB that lohi se in auto)
  show ?thesis unfolding lo_def[symmetric] hi_def[symmetric]
  proof (cases "A \<noteq> [] \<and> snd (last A) = s")
    case True
    define A' a where "A' = butlast A" and "a = last A"
    have Aa: "A = A' @ [a]" "snd a = s" using True by (simp_all add: A'_def a_def)
    have lo: "lo = s" using AM Aa M by (auto simp: lo_def)
    have "fst a \<le> s" using apM(3) Aa by (auto simp: apart_append)
    have "\<forall>x\<in>set A'. snd x < s" using apM(3) Aa by (fastforce simp: apart_append)
    then have "merge_in s e (A @ M @ B) = A' @ merge_in s e (a # M @ B)" using Aa merge_in_before[of A' s e "a # M @ B"] by simp
    also have "merge_in s e (a # M @ B) = merge_in (fst a) e (M @ B)"
      using Aa \<open>fst a \<le> s\<close> se by (simp add: merge_in_touch min_absorb2 max_absorb1)
    also have "\<dots> = merge_in (fst a) hi B"
    proof -
      have "min (fst a) (fst (hd M)) = fst a" if "M \<noteq> []" using AM Aa \<open>fst a \<le> s\<close> that by (metis (no_types, lifting) apart_append apart_simps(2) apM(3) dual_order.strict_trans2 hd_in_set less_imp_le list.set_intros(1) min_absorb1 in_set_conv_decomp)
      then show ?thesis using mid[OF \<open>fst a \<le> s\<close>] by (auto split: if_splits)
    qed
    finally show "merge_in s e (A @ M @ B) = join A lo hi B"
      unfolding rt[OF \<open>fst a \<le> s\<close>] using Aa lo by (simp add: join_def)
  next
    case False
    have "\<forall>x\<in>set A. snd x < s"
    proof
      fix x assume x: "x \<in> set A"
      show "snd x < s"
      proof (cases "x = last A")
        case True
        then show ?thesis using False x A by (metis less_le list.size(3) length_pos_if_in_set less_irrefl)
      next
        case notlast: False
        have "A \<noteq> []" using x by auto
        then have "last A \<in> set A" by simp
        moreover have "x \<in> set (butlast A)" using x notlast by (metis append_butlast_last_id empty_iff empty_set in_set_butlast_appendI rotate1.simps(2) set_ConsD set_rotate1 list.set_cases)
        ultimately have "snd x < fst (last A)" "fst (last A) \<le> snd (last A)" using apM(3)
          by (metis (no_types, lifting) append_butlast_last_id apart_append empty_iff list.set(1) list.set_intros(1) apart_def)+
        then show ?thesis using A \<open>last A \<in> set A\<close> by fastforce
      qed
    qed
    then have "merge_in s e (A @ M @ B) = A @ merge_in lo hi B" using mid[of s] by (simp add: merge_in_before lo_def)
    moreover have "\<not> (A \<noteq> [] \<and> snd (last A) = lo)"
    proof (cases M)
      case Nil
      then show ?thesis using False by (simp add: lo_def)
    next
      case (Cons m M')
      have "snd (last A) < fst m" if "A \<noteq> []" using AM Cons last_in_set[OF that] by simp
      then show ?thesis using False Cons by (auto simp: lo_def min_def)
    qed
    ultimately show "merge_in s e (A @ M @ B) = join A lo hi B" unfolding rt[OF lohi(1)] by (auto simp: join_def Let_def)
  qed
qed

subsection \<open>The state\<close>

definition iv :: "seginfo \<Rightarrow> interval" where
  "iv s = (startseq s, endseq s)"

definition ivs :: "reass_queue \<Rightarrow> interval list" where
  "ivs q = List.map iv (rq_fifo q)"

definition iv_sum :: "interval list \<Rightarrow> int" where
  "iv_sum xs = sum_list (List.map (\<lambda>x. snd x - fst x) xs)"

definition ids_ok :: "reass_queue \<Rightarrow> bool" where
  "ids_ok q \<longleftrightarrow> distinct (rq_lifo q) \<and> distinct (List.map seg_id (rq_fifo q)) \<and> set (rq_lifo q) = seg_id ` set (rq_fifo q) \<and>
     (\<forall>i\<in>set (rq_lifo q). i < rq_fresh q)"

text \<open>The blocks are apart, only the last may be empty (a segment without data that ends the
  connection), and the total and the stack agree with them.\<close>

definition only_last_empty :: "interval list \<Rightarrow> bool" where
  "only_last_empty xs \<longleftrightarrow> (\<forall>x\<in>set xs. fst x < snd x \<or> (\<forall>y\<in>set xs. snd y \<le> snd x))"

definition rq_sound :: "reass_queue \<Rightarrow> bool" where
  "rq_sound q \<longleftrightarrow> apart (ivs q) \<and> only_last_empty (ivs q) \<and> rq_total q = iv_sum (ivs q) \<and> ids_ok q"

text \<open>\<^verbatim>\<open>rcv_nxt_\<close> is below all blocks, or the end of the first.\<close>

definition rcv_ok :: "reass_queue \<Rightarrow> bool" where
  "rcv_ok q \<longleftrightarrow> (\<forall>x\<in>set (ivs q). rcv_nxt q < fst x \<or> rcv_nxt q = snd x)"

text \<open>A segment that can arrive: with data, or at the end of all; and no data behind an empty last
  block.\<close>

definition may_add :: "int \<Rightarrow> int \<Rightarrow> interval list \<Rightarrow> bool" where
  "may_add s e xs \<longleftrightarrow> s \<le> e \<and> (s < e \<or> (\<forall>x\<in>set xs. snd x \<le> s)) \<and> (\<forall>x\<in>set xs. fst x = snd x \<longrightarrow> e \<le> fst x)"

lemma iv_sum_simps [simp]:
  "iv_sum [] = 0" "iv_sum (x # xs) = snd x - fst x + iv_sum xs" "iv_sum (xs @ ys) = iv_sum xs + iv_sum ys"
  by (simp_all add: iv_sum_def)

lemma iv_simps [simp]: "fst (iv s) = startseq s" "snd (iv s) = endseq s"
  by (simp_all add: iv_def)

lemma set_minus_nth:
  assumes "i < length xs" and "distinct xs"
  shows "set (take i xs @ drop (Suc i) xs) = set xs - {xs ! i}"
proof -
  have xs: "xs = take i xs @ xs ! i # drop (Suc i) xs" using assms(1) by (simp add: id_take_nth_drop)
  have "distinct (take i xs @ xs ! i # drop (Suc i) xs)" using assms(2) xs by simp
  moreover have "set xs = insert (xs ! i) (set (take i xs @ drop (Suc i) xs))" using arg_cong[OF xs, of set] by simp
  ultimately show ?thesis by auto
qed

lemma ids_remove:
  assumes "ids_ok q" and "i < length (rq_fifo q)"
  shows "ids_ok (rq_remove i q)"
proof -
  let ?xs = "List.map seg_id (rq_fifo q)"
  have m: "List.map seg_id (rq_fifo (rq_remove i q)) = take i ?xs @ drop (Suc i) ?xs" by (simp add: rq_remove_def take_map drop_map)
  have d: "distinct ?xs" using assms(1) by (simp add: ids_ok_def)
  have "distinct (take i ?xs @ ?xs ! i # drop (Suc i) ?xs)" using d assms(2) by (simp add: id_take_nth_drop[symmetric] del: nth_map)
  then have "distinct (List.map seg_id (rq_fifo (rq_remove i q)))" unfolding m by auto
  moreover have "seg_id ` set (rq_fifo (rq_remove i q)) = set ?xs - {?xs ! i}"
    using set_minus_nth[of i ?xs] assms(2) d m by (metis length_map list.set_map)
  ultimately show ?thesis using assms by (auto simp: ids_ok_def rq_remove_def)
qed

lemma ids_upd: "ids_ok q \<Longrightarrow> (\<And>s. seg_id (f s) = seg_id s) \<Longrightarrow> ids_ok (rq_upd i f q)"
proof (cases "i < length (rq_fifo q)")
  case True
  assume a: "ids_ok q" "\<And>s. seg_id (f s) = seg_id s"
  have m: "List.map seg_id (rq_fifo (rq_upd i f q)) = List.map seg_id (rq_fifo q)"
    using True a(2) by (simp add: rq_upd_def map_update list_update_same_conv)
  have "seg_id ` set (rq_fifo (rq_upd i f q)) = seg_id ` set (rq_fifo q)" using arg_cong[OF m, of set] by simp
  then show ?thesis using a(1) m by (simp add: ids_ok_def rq_upd_def)
qed (simp add: rq_upd_def list_update_beyond)

lemma ids_insert:
  assumes "ids_ok q" and "seg_id n = rq_fresh q"
  shows "ids_ok (q\<lparr>rq_fifo := take k (rq_fifo q) @ n # drop k (rq_fifo q), rq_lifo := rq_fresh q # rq_lifo q, rq_total := t, rq_fresh := Suc (rq_fresh q)\<rparr>)"
proof -
  have s: "set (take k (rq_fifo q)) \<union> set (drop k (rq_fifo q)) = set (rq_fifo q)" by (metis append_take_drop_id set_append)
  have f: "rq_fresh q \<notin> seg_id ` set (rq_fifo q)" using assms(1) unfolding ids_ok_def by (metis less_irrefl)
  have "distinct (List.map seg_id (take k (rq_fifo q)) @ List.map seg_id (drop k (rq_fifo q)))"
    using assms(1) unfolding map_append[symmetric] append_take_drop_id ids_ok_def by blast
  moreover have "rq_fresh q \<notin> seg_id ` set (take k (rq_fifo q))" "rq_fresh q \<notin> seg_id ` set (drop k (rq_fifo q))" using f s by auto
  moreover have "seg_id ` set (take k (rq_fifo q)) \<union> seg_id ` set (drop k (rq_fifo q)) = set (rq_lifo q)"
    using assms(1) s unfolding ids_ok_def by (metis image_Un)
  ultimately show ?thesis using assms by (auto simp: ids_ok_def less_Suc_eq)
qed

lemma ids_other [simp]: "ids_ok (q\<lparr>rq_total := t\<rparr>) = ids_ok q" "ids_ok (q\<lparr>rcv_nxt := r\<rparr>) = ids_ok q" "ids_ok (advance i q) = ids_ok q"
  by (simp_all add: ids_ok_def advance_def)

lemma ivs_other [simp]: "ivs (q\<lparr>rq_total := t\<rparr>) = ivs q" "ivs (q\<lparr>rcv_nxt := r\<rparr>) = ivs q" "ivs (advance i q) = ivs q"
  by (simp_all add: ivs_def advance_def)

subsection \<open>Adding\<close>

text \<open>A step that leaves \<^verbatim>\<open>x\<close> as a block around the new interval, and moves \<^verbatim>\<open>rcv_nxt_\<close> to its end
  if \<^verbatim>\<open>x\<close> starts at or below it.\<close>

definition advanced :: "int \<Rightarrow> int \<Rightarrow> reass_queue \<Rightarrow> reass_queue \<Rightarrow> bool" where
  "advanced s e q q' \<longleftrightarrow> (\<exists>x\<in>set (ivs q'). (x = hd (ivs q') \<or> fst x \<le> s \<and> e \<le> snd x) \<and>
     rcv_nxt q' = (if fst x \<le> rcv_nxt q then snd x else rcv_nxt q))"

lemma advance_rcv: "i < length (rq_fifo q) \<Longrightarrow>
    rcv_nxt (advance i q) = (if fst (ivs q ! i) \<le> rcv_nxt q then snd (ivs q ! i) else rcv_nxt q)"
  by (simp add: advance_def ivs_def)

lemma advanced_at:
  assumes "i < length (rq_fifo q1)" and "i = 0 \<or> fst (ivs q1 ! i) \<le> s \<and> e \<le> snd (ivs q1 ! i)" and "rcv_nxt q1 = rcv_nxt q"
  shows "advanced s e q (advance i q1)"
proof -
  have i: "i < length (ivs q1)" using assms(1) by (simp add: ivs_def)
  then have "ivs q1 ! i = hd (ivs q1) \<or> fst (ivs q1 ! i) \<le> s \<and> e \<le> snd (ivs q1 ! i)"
    using assms(2) by (auto simp: hd_conv_nth)
  moreover have "ivs q1 ! i \<in> set (ivs q1)" using i by (rule nth_mem)
  ultimately show ?thesis unfolding advanced_def using advance_rcv[OF assms(1)] assms(3) by (intro bexI[of _ "ivs q1 ! i"]) simp_all
qed

lemma coalesce_ok:
  assumes fifo: "rq_fifo q = a @ n # b" and k: "k = length a" and ids: "ids_ok q" and se: "startseq n \<le> endseq n"
    and le: "\<forall>x\<in>set a \<union> set b. startseq x \<le> endseq x"
    and t: "a \<noteq> [] \<and> endseq (last a) = startseq n \<or> b \<noteq> [] \<and> startseq (hd b) = endseq n"
  shows "\<exists>f q'. coalesce k q = Inr (f, q') \<and> ivs q' = join (List.map iv a) (startseq n) (endseq n) (List.map iv b) \<and>
    rq_total q' = rq_total q \<and> ids_ok q' \<and> advanced (startseq n) (endseq n) q q'"
proof -
  let ?l = "0 < k \<and> endseq (rq_fifo q ! (k - 1)) = startseq n" and ?r = "Suc k < length (rq_fifo q) \<and> endseq n = startseq (rq_fifo q ! Suc k)"
  have n: "rq_fifo q ! k = n" using fifo k by simp
  have l: "?l \<longleftrightarrow> a \<noteq> [] \<and> endseq (last a) = startseq n" using fifo k by (auto simp: nth_append last_conv_nth)
  have r: "?r \<longleftrightarrow> b \<noteq> [] \<and> startseq (hd b) = endseq n" using fifo k by (auto simp: nth_append hd_conv_nth)
  have lm: "last (List.map iv a) = iv (last a)" "hd (List.map iv b) = iv (hd b)" if "a \<noteq> []" "b \<noteq> []" using that by (simp_all add: last_map hd_map)
  consider "?l" "?r" | "?l" "\<not> ?r" | "\<not> ?l" "?r" using t l r by blast
  then show ?thesis
  proof cases
    case 1
    obtain a' p where a: "a = a' @ [p]" "endseq p = startseq n" using 1 l by (metis append_butlast_last_id)
    obtain r b' where b: "b = r # b'" "startseq r = endseq n" using 1 \<open>?r \<longleftrightarrow> _\<close> by (metis list.collapse)
    define q' where "q' = rq_upd (k - 1) (\<lambda>x. x\<lparr>endseq := endseq r, seg_cnt := seg_cnt x + (seg_cnt n + seg_cnt r), pflags := pflags p OR pflags n\<rparr>)
        (rq_remove k (rq_remove (Suc k) q))"
    have c: "coalesce k q = Inr (pflags p OR pflags n, advance (k - 1) q')"
      unfolding coalesce_def Let_def n using 1 fifo k a b by (simp add: nth_append q'_def)
    have f: "rq_fifo q' = a' @ p\<lparr>endseq := endseq r, seg_cnt := seg_cnt p + (seg_cnt n + seg_cnt r), pflags := pflags p OR pflags n\<rparr> # b'"
      using fifo k a b by (simp add: q'_def rq_upd_def rq_remove_def nth_append)
    have "ids_ok (rq_remove k (rq_remove (Suc k) q))"
      by (rule ids_remove[OF ids_remove[OF ids]]) (use fifo k b in \<open>simp_all add: rq_remove_def\<close>)
    then have i: "ids_ok q'" unfolding q'_def by (rule ids_upd) simp
    have v: "ivs q' = List.map iv a' @ (startseq p, endseq r) # List.map iv b'" by (simp add: ivs_def f iv_def)
    have "startseq p \<le> startseq n" "endseq n \<le> endseq r" using le a b by force+
    then have "advanced (startseq n) (endseq n) q (advance (k - 1) q')"
      by (intro advanced_at) (use k a f v in \<open>simp_all add: nth_append q'_def rq_upd_def rq_remove_def\<close>)
    moreover have "ivs q' = join (List.map iv a) (startseq n) (endseq n) (List.map iv b)" unfolding v by (simp add: a b join_def iv_def)
    moreover have "rq_total q' = rq_total q" by (simp add: q'_def rq_upd_def rq_remove_def)
    ultimately show ?thesis using c i by (auto simp: advance_def)
  next
    case 2
    obtain a' p where a: "a = a' @ [p]" "endseq p = startseq n" using 2 l by (metis append_butlast_last_id)
    define q' where "q' = rq_upd (k - 1) (\<lambda>x. x\<lparr>endseq := endseq n, pflags := pflags p OR pflags n, seg_cnt := seg_cnt x + seg_cnt n\<rparr>) (rq_remove k q)"
    have c: "coalesce k q = Inr (pflags p OR pflags n, advance (k - 1) q')"
      unfolding coalesce_def Let_def n using 2 fifo k a by (auto simp: nth_append q'_def)
    have f: "rq_fifo q' = a' @ p\<lparr>endseq := endseq n, pflags := pflags p OR pflags n, seg_cnt := seg_cnt p + seg_cnt n\<rparr> # b"
      using fifo k a by (simp add: q'_def rq_upd_def rq_remove_def nth_append)
    have "ids_ok (rq_remove k q)" by (rule ids_remove[OF ids]) (use fifo k in simp)
    then have i: "ids_ok q'" unfolding q'_def by (rule ids_upd) simp
    have v: "ivs q' = List.map iv a' @ (startseq p, endseq n) # List.map iv b" by (simp add: ivs_def f iv_def)
    have "startseq p \<le> startseq n" using le a by force
    then have "advanced (startseq n) (endseq n) q (advance (k - 1) q')"
      by (intro advanced_at) (use k a f v in \<open>simp_all add: nth_append q'_def rq_upd_def rq_remove_def\<close>)
    moreover have "\<not> (b \<noteq> [] \<and> startseq (hd b) = endseq n)" using 2(2) r by blast
    then have "ivs q' = join (List.map iv a) (startseq n) (endseq n) (List.map iv b)" unfolding v by (cases b) (auto simp: a join_def iv_def)
    moreover have "rq_total q' = rq_total q" by (simp add: q'_def rq_upd_def rq_remove_def)
    ultimately show ?thesis using c i by (auto simp: advance_def)
  next
    case 3
    obtain r b' where b: "b = r # b'" "startseq r = endseq n" using 3 \<open>?r \<longleftrightarrow> _\<close> by (metis list.collapse)
    define q' where "q' = rq_upd k (\<lambda>x. x\<lparr>startseq := startseq n, pflags := pflags r OR pflags n, seg_cnt := seg_cnt x + seg_cnt n\<rparr>) (rq_remove k q)"
    have c: "coalesce k q = Inr (pflags r OR pflags n, advance k q')"
      unfolding coalesce_def Let_def n using 3 fifo k b by (auto simp: nth_append q'_def)
    have f: "rq_fifo q' = a @ r\<lparr>startseq := startseq n, pflags := pflags r OR pflags n, seg_cnt := seg_cnt r + seg_cnt n\<rparr> # b'"
      using fifo k b by (simp add: q'_def rq_upd_def rq_remove_def nth_append)
    have "ids_ok (rq_remove k q)" by (rule ids_remove[OF ids]) (use fifo k in simp)
    then have i: "ids_ok q'" unfolding q'_def by (rule ids_upd) simp
    have v: "ivs q' = List.map iv a @ (startseq n, endseq r) # List.map iv b'" by (simp add: ivs_def f iv_def)
    have "endseq n \<le> endseq r" using le b by force
    then have "advanced (startseq n) (endseq n) q (advance k q')"
      by (intro advanced_at) (use k f v in \<open>simp_all add: nth_append q'_def rq_upd_def rq_remove_def\<close>)
    moreover have "\<not> (a \<noteq> [] \<and> endseq (last a) = startseq n)" using 3(1) l by blast
    then have "ivs q' = join (List.map iv a) (startseq n) (endseq n) (List.map iv b)"
      unfolding v by (cases "a = []") (auto simp: b join_def iv_def last_map)
    moreover have "rq_total q' = rq_total q" by (simp add: q'_def rq_upd_def rq_remove_def)
    ultimately show ?thesis using c i by (auto simp: advance_def)
  qed
qed

lemma endfast_ok:
  assumes ids: "ids_ok q" and k: "k \<le> length (rq_fifo q)" and se: "s \<le> e" and le: "\<forall>x\<in>set (rq_fifo q). startseq x \<le> endseq x"
    and nm: "nm \<longleftrightarrow> k \<noteq> 0 \<and> snd (last (take k (ivs q))) = s \<or> k \<noteq> length (rq_fifo q) \<and> fst (hd (drop k (ivs q))) = e"
  shows "\<exists>f q'. endfast k k nm s e tf fl c q = Inr (f, q') \<and> ivs q' = join (take k (ivs q)) s e (drop k (ivs q)) \<and>
    rq_total q' = rq_total q + (e - s) \<and> ids_ok q' \<and> advanced s e q q'"
proof -
  define n where "n = \<lparr> startseq = s, endseq = e, pflags = tf, rqflags = fl, seg_cnt = c, seg_id = rq_fresh q \<rparr>"
  define a where "a = take k (rq_fifo q)"
  define b where "b = drop k (rq_fifo q)"
  define q1 where "q1 = q\<lparr>rq_fifo := a @ n # b, rq_lifo := rq_fresh q # rq_lifo q, rq_total := rq_total q + (e - s), rq_fresh := Suc (rq_fresh q)\<rparr>"
  have i: "ids_ok q1" unfolding q1_def a_def b_def by (rule ids_insert[OF ids]) (simp add: n_def)
  have m: "take k (ivs q) = List.map iv a" "drop k (ivs q) = List.map iv b" by (simp_all add: a_def b_def ivs_def take_map drop_map)
  have ab: "a = [] \<longleftrightarrow> k = 0" "b = [] \<longleftrightarrow> k = length (rq_fifo q)" "length a = k" using k by (auto simp: a_def b_def)
  have t: "nm \<longleftrightarrow> a \<noteq> [] \<and> endseq (last a) = s \<or> b \<noteq> [] \<and> startseq (hd b) = e"
    using nm ab m by (auto simp: last_map hd_map)
  have le': "\<forall>x\<in>set a \<union> set b. startseq x \<le> endseq x" using le by (auto simp: a_def b_def dest: in_set_takeD in_set_dropD)
  have e: "endfast k k nm s e tf fl c q = (if nm then coalesce k q1 else Inr (tf, if rcv_nxt q1 \<ge> s then q1\<lparr>rcv_nxt := e\<rparr> else q1))"
    by (simp add: endfast_def q1_def n_def a_def b_def)
  show ?thesis
  proof (cases nm)
    case True
    have tt: "a \<noteq> [] \<and> endseq (last a) = startseq n \<or> b \<noteq> [] \<and> startseq (hd b) = endseq n" using True t by (simp add: n_def)
    obtain f q' where "coalesce k q1 = Inr (f, q')" "ivs q' = join (List.map iv a) (startseq n) (endseq n) (List.map iv b)"
      "rq_total q' = rq_total q1" "ids_ok q'" "advanced (startseq n) (endseq n) q1 q'"
      using coalesce_ok[of q1 a n b k, OF _ _ i _ le' tt] se ab(3) by (auto simp: q1_def n_def)
    then show ?thesis using e True m by (auto simp: q1_def n_def advanced_def)
  next
    case False
    have v: "ivs q1 = List.map iv a @ (s, e) # List.map iv b" by (simp add: ivs_def q1_def iv_def n_def)
    moreover have "\<not> (a \<noteq> [] \<and> endseq (last a) = s)" "\<not> (b \<noteq> [] \<and> startseq (hd b) = e)" using False t by blast+
    then have "ivs q1 = join (List.map iv a) s e (List.map iv b)" unfolding v by (auto simp: join_def Let_def last_map hd_map)
    moreover have "advanced s e q (if rcv_nxt q1 \<ge> s then q1\<lparr>rcv_nxt := e\<rparr> else q1)"
      unfolding advanced_def using v by (intro bexI[of _ "(s, e)"]) (auto simp: q1_def)
    ultimately show ?thesis using e False i m by (auto simp: q1_def)
  qed
qed

text \<open>The searches from both ends.\<close>

lemma search_before_split:
  assumes "apart (List.map iv xs)"
  shows "\<forall>x\<in>set (take (search_before s xs) xs). endseq x \<le> s" and "\<forall>x\<in>set (drop (search_before s xs) xs). s < endseq x"
proof -
  define D where "D = dropWhile (\<lambda>r. endseq r > s) (rev xs)"
  define T where "T = takeWhile (\<lambda>r. endseq r > s) (rev xs)"
  have xs: "xs = rev D @ rev T" unfolding D_def T_def by (metis rev_append rev_rev_ident takeWhile_dropWhile_id)
  have k: "search_before s xs = length D" by (simp add: search_before_def D_def)
  have td: "take (length D) xs = rev D" "drop (length D) xs = rev T" by (subst xs, simp)+
  show "\<forall>x\<in>set (drop (search_before s xs) xs). s < endseq x" unfolding k td by (auto simp: T_def dest: set_takeWhileD)
  show "\<forall>x\<in>set (take (search_before s xs) xs). endseq x \<le> s"
  proof (cases D)
    case (Cons d D')
    then have "endseq d \<le> s" using hd_dropWhile[of "\<lambda>r. endseq r > s" "rev xs"] by (simp add: D_def)
    moreover have "apart (List.map iv (rev D' @ d # rev T))" using assms Cons xs by simp
    then have "endseq x < startseq d" "startseq d \<le> endseq d" if "x \<in> set D'" for x using that by (auto simp: apart_append)
    ultimately have "\<forall>x\<in>set (rev D). endseq x \<le> s" unfolding Cons by fastforce
    then show ?thesis unfolding k td .
  qed (simp add: k td)
qed

lemma search_after_split:
  assumes "apart (List.map iv xs)"
  shows "\<forall>x\<in>set (take (search_after e xs) xs). startseq x < e" and "\<forall>x\<in>set (drop (search_after e xs) xs). e \<le> startseq x"
proof -
  define T where "T = takeWhile (\<lambda>r. startseq r < e) xs"
  define D where "D = dropWhile (\<lambda>r. startseq r < e) xs"
  have xs: "xs = T @ D" by (simp add: T_def D_def)
  have k: "search_after e xs = length T" by (simp add: search_after_def T_def)
  show "\<forall>x\<in>set (take (search_after e xs) xs). startseq x < e" unfolding k by (subst xs) (auto simp: T_def dest: set_takeWhileD)
  have "\<forall>x\<in>set D. e \<le> startseq x"
  proof (cases D)
    case (Cons d D')
    then have "e \<le> startseq d" using hd_dropWhile[of "\<lambda>r. startseq r < e" xs] by (simp add: D_def)
    moreover have "apart (List.map iv (T @ d # D'))" using assms Cons xs by simp
    then have "endseq d < startseq x" "startseq d \<le> endseq d" if "x \<in> set D'" for x using that by (auto simp: apart_append)
    ultimately show ?thesis unfolding Cons by fastforce
  qed simp
  then show "\<forall>x\<in>set (drop (search_after e xs) xs). e \<le> startseq x" unfolding k by (subst xs) simp
qed

definition covers :: "int \<Rightarrow> int \<Rightarrow> seginfo \<Rightarrow> bool" where
  "covers s e x \<longleftrightarrow> s \<le> startseq x \<and> endseq x \<le> e"

text \<open>What the loop over the covered blocks leaves.\<close>

definition killed :: "int \<Rightarrow> int \<Rightarrow> seginfo list \<Rightarrow> seginfo list \<Rightarrow> seginfo list \<Rightarrow> bool \<Rightarrow> reass_queue \<Rightarrow> covered \<Rightarrow> bool" where
  "killed s e P M B alt q r = (case r of
     Exact f q' \<Rightarrow> (s, e) \<in> set (ivs q) \<and> ivs q' = ivs q \<and> rq_total q' = rq_total q \<and> ids_ok q' \<and> rcv_nxt q' = rcv_nxt q
   | Covered a f c q' \<Rightarrow> rq_fifo q' = P @ filter (\<lambda>x. \<not> covers s e x) M @ B \<and> ids_ok q' \<and> rq_total q' = iv_sum (ivs q') \<and>
       rcv_nxt q' = rcv_nxt q \<and> (a \<longleftrightarrow> alt \<or> (\<exists>x\<in>set M. covers s e x)))"

lemma kill_ok:
  assumes "rq_fifo q = P @ M @ B" and "apart (ivs q)" and "ids_ok q" and "rq_total q = iv_sum (ivs q)"
  shows "killed s e P M B alt q (kill_covered (length M) s e (length P) alt f c q)"
  using assms
proof (induction M arbitrary: P alt f c q)
  case Nil
  then show ?case by (simp add: killed_def)
next
  case (Cons r M)
  have r: "rq_fifo q ! length P = r" using Cons.prems(1) by simp
  have ap: "apart (List.map iv P @ iv r # List.map iv M @ List.map iv B)" using Cons.prems(1,2) by (simp add: ivs_def)
  consider "s = startseq r \<and> e = endseq r" | "\<not> (s = startseq r \<and> e = endseq r)" "covers s e r" | "\<not> covers s e r"
    by (auto simp: covers_def)
  then show ?case
  proof cases
    case 1
    have l: "length P < length (rq_fifo q)" using Cons.prems(1) by simp
    let ?f = "pflags r OR f"
    let ?q = "rq_upd (length P) (\<lambda>r. r\<lparr>pflags := ?f\<rparr>) q"
    have "ivs ?q = ivs q" using Cons.prems(1) by (simp add: ivs_def rq_upd_def iv_def)
    moreover have "ids_ok ?q" by (rule ids_upd[OF Cons.prems(3)]) simp
    moreover have "(s, e) \<in> set (ivs q)" using 1 Cons.prems(1) by (simp add: ivs_def iv_def)
    moreover have "kill_covered (length (r # M)) s e (length P) alt f c q = Exact ?f ?q" using 1 r by (simp add: Let_def)
    ultimately show ?thesis by (simp add: killed_def rq_upd_def)
  next
    case 2
    let ?q = "rq_remove (length P) (q\<lparr>rq_total := rq_total q - seg_len r\<rparr>)"
    have fifo: "rq_fifo ?q = P @ M @ B" using Cons.prems(1) by (simp add: rq_remove_def)
    have ids: "ids_ok ?q" by (rule ids_remove) (use Cons.prems(1,3) in simp_all)
    have ap': "apart (ivs ?q)" using ap fifo by (auto simp: ivs_def apart_append)
    have tot: "rq_total ?q = iv_sum (ivs ?q)"
      using Cons.prems(1,4) fifo by (simp add: ivs_def rq_remove_def seg_len_def)
    have run: "kill_covered (length (r # M)) s e (length P) alt f c q = kill_covered (length M) s e (length P) True (f OR pflags r) (c + seg_cnt r) ?q"
      using 2 r unfolding covers_def by (auto simp: Let_def)
    note IH = Cons.IH[OF fifo ap' ids tot, of True "f OR pflags r" "c + seg_cnt r"]
    show ?thesis
    proof (cases "kill_covered (length M) s e (length P) True (f OR pflags r) (c + seg_cnt r) ?q")
      case (Exact f' q')
      then have m: "(s, e) \<in> set (ivs ?q)" using IH by (simp add: killed_def)
      then have "(s, e) \<in> set (ivs q)" "iv r \<in> set (ivs q)" "iv r \<noteq> (s, e)" using Cons.prems(1) fifo 2(1) by (auto simp: ivs_def iv_def)
      then have "endseq r < s \<or> e < startseq r" using apart_disjoint[OF Cons.prems(2), of "iv r" "(s, e)"] by simp
      moreover have "startseq r \<le> endseq r" using ap by (simp add: apart_append)
      ultimately show ?thesis using 2(2) by (simp add: covers_def)
    next
      case (Covered a' f' c' q')
      then show ?thesis using IH run 2(2) by (simp add: killed_def rq_remove_def)
    qed
  next
    case 3
    have fifo: "rq_fifo q = (P @ [r]) @ M @ B" using Cons.prems(1) by simp
    have "\<not> (s = startseq r \<and> e = endseq r)" using 3 by (auto simp: covers_def)
    then have run: "kill_covered (length (r # M)) s e (length P) alt f c q = kill_covered (length M) s e (length (P @ [r])) alt f c q"
      using 3 r unfolding covers_def by (auto simp: Let_def)
    show ?thesis using Cons.IH[OF fifo Cons.prems(2-4), of alt f c] 3 unfolding run
      by (simp add: killed_def split: covered.splits)
  qed
qed

lemma apart_filter: "apart (List.map iv xs) \<Longrightarrow> apart (List.map iv (filter P xs))"
  by (induction xs) auto

lemma apart_killed:
  assumes "apart (List.map iv (P @ M @ B))"
  shows "apart (List.map iv (P @ filter Q M @ B))"
proof -
  have "set (List.map iv (filter Q M)) \<subseteq> set (List.map iv M)" by auto
  then show ?thesis using assms apart_filter[of M Q] unfolding map_append apart_append set_append by blast
qed

lemma merge_in_killed:
  assumes "apart (List.map iv (P @ M @ B))" and "s \<le> e"
  shows "merge_in s e (List.map iv (P @ filter (\<lambda>x. \<not> covers s e x) M @ B)) = merge_in s e (List.map iv (P @ M @ B))"
  using assms
proof (induction M arbitrary: P)
  case (Cons r M)
  show ?case
  proof (cases "covers s e r")
    case True
    have "merge_in s e (List.map iv (P @ r # M @ B)) = merge_in s e (List.map iv (P @ M @ B))"
      using merge_in_covered[of "List.map iv P" "iv r" "List.map iv (M @ B)" s e] Cons.prems True by (simp add: covers_def)
    moreover have "apart (List.map iv (P @ M @ B))" using Cons.prems(1) by (auto simp: apart_append)
    ultimately show ?thesis using True Cons.IH[of P] Cons.prems(2) by simp
  next
    case False
    then show ?thesis using Cons.IH[of "P @ [r]"] Cons.prems by simp
  qed
qed simp

text \<open>The two merges.\<close>

lemma length_ivs [simp]: "length (ivs q) = length (rq_fifo q)"
  by (simp add: ivs_def)

lemma nth_fifo: "i < length (rq_fifo q) \<Longrightarrow> startseq (rq_fifo q ! i) = fst (ivs q ! i)" "i < length (rq_fifo q) \<Longrightarrow> endseq (rq_fifo q ! i) = snd (ivs q ! i)"
  by (simp_all add: ivs_def)

lemma ivs_upd: "i < length (rq_fifo q) \<Longrightarrow> ivs (rq_upd i f q) = (ivs q)[i := iv (f (rq_fifo q ! i))]"
  by (simp add: ivs_def rq_upd_def map_update)

lemma ivs_upd_same: "(\<And>x. iv (f x) = iv x) \<Longrightarrow> ivs (rq_upd i f q) = ivs q"
  by (cases "i < length (rq_fifo q)") (simp_all add: ivs_def rq_upd_def map_update list_update_beyond list_update_same_conv)

lemma merge_left_ok:
  assumes ivs: "ivs q = A @ m # C" and k: "k = length A" and ids: "ids_ok q" and tot: "rq_total q = iv_sum (ivs q)"
  shows "if k = 0 \<or> fst m < s
    then \<exists>q1. merge_left k s tf c q = Inr (True, Suc k, snd m, c - 1, q1) \<and> ivs q1 = A @ (min s (fst m), snd m) # C \<and>
      ids_ok q1 \<and> rq_total q1 = iv_sum (ivs q1) \<and> rcv_nxt q1 = rcv_nxt q
    else merge_left k s tf c q = Inr (False, k, s, c, q)"
proof -
  have l: "k < length (rq_fifo q)" using arg_cong[OF ivs, of length] k by simp
  have m: "ivs q ! k = m" using ivs k by simp
  let ?p = "rq_fifo q ! k"
  have p: "startseq ?p = fst m" "endseq ?p = snd m" using nth_fifo[OF l] m by simp_all
  show ?thesis
  proof (cases "k = 0 \<or> fst m < s")
    case True
    define q1 where "q1 = (if s < fst m then rq_upd k (\<lambda>p. p\<lparr>startseq := s\<rparr>) (q\<lparr>rq_total := rq_total q + (fst m - s)\<rparr>) else q)"
    define q2 where "q2 = rq_upd k (\<lambda>p. p\<lparr>pflags := pflags p OR tf, seg_cnt := seg_cnt p + 1\<rparr>) q1"
    have run: "merge_left k s tf c q = Inr (True, Suc k, snd m, c - 1, q2)"
      using l True by (simp add: merge_left_def Let_def p q1_def q2_def del: ivs_other)
    have v1: "ivs q1 = A @ (min s (fst m), snd m) # C"
    proof (cases "s < fst m")
      case True
      have "ivs q1 = (ivs q)[k := (s, snd m)]" using True l p by (simp add: q1_def ivs_upd iv_def)
      then show ?thesis using True ivs k by simp
    next
      case False
      then show ?thesis using ivs by (cases m) (simp add: q1_def min_def)
    qed
    have "ids_ok q1" using ids by (auto simp: q1_def intro!: ids_upd)
    then have i2: "ids_ok q2" unfolding q2_def by (rule ids_upd) simp
    have v2: "ivs q2 = ivs q1" unfolding q2_def by (rule ivs_upd_same) (simp add: iv_def)
    have "rq_total q2 = iv_sum (ivs q2)" unfolding v2 v1 using tot ivs by (simp add: q2_def q1_def rq_upd_def)
    moreover have "rcv_nxt q2 = rcv_nxt q" by (simp add: q2_def q1_def rq_upd_def)
    ultimately show ?thesis using True run i2 v1 v2 by simp
  next
    case False
    then show ?thesis using l p by (simp add: merge_left_def)
  qed
qed

lemma merge_right_ok:
  assumes ivs: "ivs q = A @ m # C" and j: "j = Suc (length A)" and ids: "ids_ok q" and tot: "rq_total q = iv_sum (ivs q)"
  shows "if C = [] \<or> e < snd m
    then \<exists>q1. merge_right j e tf nm q = Inr (True, length A, fst m, q1) \<and> ivs q1 = A @ (fst m, max e (snd m)) # C \<and>
      ids_ok q1 \<and> rq_total q1 = iv_sum (ivs q1) \<and> rcv_nxt q1 = rcv_nxt q
    else merge_right j e tf nm q = Inr (nm, j, e, q)"
proof -
  have l: "length (rq_fifo q) = j + length C" using arg_cong[OF ivs, of length] j by simp
  have m: "ivs q ! (j - 1) = m" using ivs j by simp
  let ?p = "rq_fifo q ! (j - 1)"
  have p: "startseq ?p = fst m" "endseq ?p = snd m" using nth_fifo[of "j - 1" q] m l j by simp_all
  show ?thesis
  proof (cases "C = [] \<or> e < snd m")
    case True
    define q1 where "q1 = (if e > snd m then rq_upd (length A) (\<lambda>p. p\<lparr>endseq := e\<rparr>) (q\<lparr>rq_total := rq_total q + (e - snd m)\<rparr>) else q)"
    define q2 where "q2 = rq_upd (length A) (\<lambda>p. p\<lparr>pflags := pflags p OR tf\<rparr>) q1"
    have run: "merge_right j e tf nm q = Inr (True, length A, fst m, q2)"
      using l True j p by (simp add: merge_right_def Let_def q1_def q2_def del: ivs_other)
    have v1: "ivs q1 = A @ (fst m, max e (snd m)) # C"
    proof (cases "snd m < e")
      case True
      have "ivs q1 = (ivs q)[length A := (fst m, e)]" using True l j p by (simp add: q1_def ivs_upd iv_def)
      then show ?thesis using True ivs by simp
    next
      case False
      then show ?thesis using ivs by (cases m) (simp add: q1_def max_def)
    qed
    have "ids_ok q1" using ids by (auto simp: q1_def intro!: ids_upd)
    then have i2: "ids_ok q2" unfolding q2_def by (rule ids_upd) simp
    have v2: "ivs q2 = ivs q1" unfolding q2_def by (rule ivs_upd_same) (simp add: iv_def)
    have "rq_total q2 = iv_sum (ivs q2)" unfolding v2 v1 using tot ivs by (simp add: q2_def q1_def rq_upd_def)
    moreover have "rcv_nxt q2 = rcv_nxt q" by (simp add: q2_def q1_def rq_upd_def)
    ultimately show ?thesis using True run i2 v1 v2 by simp
  next
    case False
    then show ?thesis using l j p by (simp add: merge_right_def)
  qed
qed

text \<open>Where \<^verbatim>\<open>rcv_nxt_\<close> moves does not depend on which part of the new interval was inserted.\<close>

lemma advanced_whole:
  assumes "advanced s' e' q1 q'" and "rcv_nxt q1 = rcv_nxt q" and "apart (ivs q')" and "m \<in> set (ivs q')" and "fst m \<le> s" and "e \<le> snd m"
    and "s \<le> s'" and "s' \<le> e'" and "e' \<le> e"
  shows "advanced s e q q'"
proof -
  obtain x where x: "x \<in> set (ivs q')" "x = hd (ivs q') \<or> fst x \<le> s' \<and> e' \<le> snd x" "rcv_nxt q' = (if fst x \<le> rcv_nxt q then snd x else rcv_nxt q)"
    using assms(1) unfolding advanced_def assms(2) by blast
  have "x = m" if "fst x \<le> s'" "e' \<le> snd x"
  proof (rule ccontr)
    assume "x \<noteq> m"
    then have "snd x < fst m \<or> snd m < fst x" by (rule apart_disjoint[OF assms(3) x(1) assms(4)])
    then show False using that assms(5-9) by linarith
  qed
  then have "x = hd (ivs q') \<or> fst x \<le> s \<and> e \<le> snd x" using x(2) assms(5,6) by blast
  then show ?thesis using x(1,3) unfolding advanced_def by blast
qed

lemma join_sum: "A = [] \<or> fst (last A) \<le> snd (last A) \<Longrightarrow> iv_sum (join A s e B) = iv_sum A + iv_sum B + (e - s)"
proof -
  have "iv_sum A = iv_sum (butlast A) + (snd (last A) - fst (last A))" if "A \<noteq> []"
    using that by (metis add.right_neutral append_butlast_last_id iv_sum_simps)
  moreover have "iv_sum B = snd (hd B) - fst (hd B) + iv_sum (tl B)" if "B \<noteq> []" using that by (cases B) auto
  ultimately show ?thesis by (auto simp: join_def Let_def)
qed

text \<open>What \<^verbatim>\<open>add\<close> promises of its result.\<close>

definition added :: "int \<Rightarrow> int \<Rightarrow> reass_queue \<Rightarrow> (int \<times> reass_queue) result \<Rightarrow> bool" where
  "added s e q r \<longleftrightarrow> (\<exists>f q'. r = Inr (f, q') \<and> ivs q' = merge_in s e (ivs q) \<and> rq_total q' = iv_sum (ivs q') \<and> ids_ok q' \<and> advanced s e q q')"

lemma addedI:
  "r = Inr (f, q') \<Longrightarrow> ivs q' = merge_in s e (ivs q) \<Longrightarrow> rq_total q' = iv_sum (ivs q') \<Longrightarrow> ids_ok q' \<Longrightarrow> advanced s e q q' \<Longrightarrow> added s e q r"
  unfolding added_def by blast

text \<open>Inserting a part \<^verbatim>\<open>s'\<close> to \<^verbatim>\<open>e'\<close> of the interval into a queue that has the rest.\<close>

lemma endfast_added:
  assumes ids: "ids_ok q1" and tot: "rq_total q1 = iv_sum (ivs q1)" and rcv: "rcv_nxt q1 = rcv_nxt q" and ap: "apart (ivs q)" "apart (ivs q1)"
    and v: "ivs q1 = A @ B" and k: "k = length A" and se: "s \<le> s'" "s' \<le> e'" "e' \<le> e"
    and nm: "nm \<longleftrightarrow> A \<noteq> [] \<and> snd (last A) = s' \<or> B \<noteq> [] \<and> fst (hd B) = e'"
    and j: "join A s' e' B = merge_in s e (ivs q)"
  shows "added s e q (endfast k k nm s' e' tf fl c q1)"
proof -
  have l: "length (rq_fifo q1) = k + length B" using arg_cong[OF v, of length] k by simp
  have tk: "take k (ivs q1) = A" "drop k (ivs q1) = B" using v k by simp_all
  have le: "\<forall>x\<in>set (rq_fifo q1). startseq x \<le> endseq x" using ap(2) by (auto simp: apart_def ivs_def)
  have "nm \<longleftrightarrow> k \<noteq> 0 \<and> snd (last (take k (ivs q1))) = s' \<or> k \<noteq> length (rq_fifo q1) \<and> fst (hd (drop k (ivs q1))) = e'"
    unfolding tk nm using l k by auto
  then obtain f q' where q': "endfast k k nm s' e' tf fl c q1 = Inr (f, q')" "ivs q' = join A s' e' B"
    "rq_total q' = rq_total q1 + (e' - s')" "ids_ok q'" "advanced s' e' q1 q'"
    using endfast_ok[OF ids _ se(2) le, of k nm tf fl c] l unfolding tk by auto
  have sel: "s \<le> e" using se by linarith
  obtain m where m: "apart (merge_in s e (ivs q))" "merged s e (ivs q) (merge_in s e (ivs q)) m" using merge_in_ok[OF ap(1) sel] by blast
  have "advanced s e q q'"
    by (rule advanced_whole[OF q'(5) rcv, of m]) (use m q'(2) j se in \<open>simp_all add: merged_def\<close>)
  moreover have "A = [] \<or> fst (last A) \<le> snd (last A)" using ap(2) v by (cases "A = []") (auto simp: apart_def)
  then have "rq_total q' = iv_sum (ivs q')" using q'(2,3) tot v by (simp add: join_sum)
  ultimately show ?thesis by (intro addedI[OF q'(1)]) (use q'(2,4) j in simp_all)
qed

lemma advance_added:
  assumes ids: "ids_ok q1" and tot: "rq_total q1 = iv_sum (ivs q1)" and rcv: "rcv_nxt q1 = rcv_nxt q"
    and v: "ivs q1 = merge_in s e (ivs q)" and ne: "ivs q1 \<noteq> []"
  shows "added s e q (Inr (f, advance 0 q1))"
proof (rule addedI[OF refl])
  have "0 < length (rq_fifo q1)" using ne by (simp add: ivs_def)
  then show "advanced s e q (advance 0 q1)" by (rule advanced_at) (use rcv in simp_all)
qed (use assms in \<open>simp_all add: advance_def\<close>)

lemma join_plain: "A = [] \<or> snd (last A) \<noteq> s \<Longrightarrow> B = [] \<or> fst (hd B) \<noteq> e \<Longrightarrow> join A s e B = A @ (s, e) # B"
  by (auto simp: join_def Let_def)

lemma join_snoc: "A = [] \<or> snd (last A) \<noteq> a \<Longrightarrow> join (A @ [(a, b)]) b e B = join A a e B"
  by (auto simp: join_def Let_def)

lemma join_cons: "B = [] \<or> fst (hd B) \<noteq> b \<Longrightarrow> join A s a ((a, b) # B) = join A s b B"
  by (auto simp: join_def Let_def)

text \<open>Nothing is covered, and the interval is not at an end: at most two blocks overlap.\<close>

lemma at_most_two:
  assumes "apart M" and "\<forall>m\<in>set M. s < snd m \<and> fst m < e \<and> \<not> (s \<le> fst m \<and> snd m \<le> e)"
  obtains "M = []" | m where "M = [m]" | m n where "M = [m, n]" "fst m < s" "snd m < fst n" "e < snd n"
proof -
  consider "M = []" | m where "M = [m]" | m n where "M = [m, n]" | m n r M' where "M = m # n # r # M'" by (metis list.exhaust)
  then show ?thesis
  proof cases
    case 3
    have "snd m < fst n" using assms(1) 3 by simp
    moreover have "fst n < e" "s < snd m" using assms(2) 3 by simp_all
    ultimately have "fst m < s" "e < snd n" using assms(2) 3 by force+
    then show ?thesis using that(3) 3 \<open>snd m < fst n\<close> by blast
  next
    case 4
    have "snd m < fst n" "snd n < fst r" using assms(1) 4 by simp_all
    moreover have "fst r < e" "s < snd m" "\<not> (s \<le> fst n \<and> snd n \<le> e)" using assms(2) 4 by simp_all
    ultimately show ?thesis by linarith
  qed (use that in blast)+
qed

lemma add_merged_eq:
  "merge_left k s tf c q = Inr (m1, k', s', c', q1) \<Longrightarrow> merge_right j e tf m1 q1 = Inr (m2, j', e', q2) \<Longrightarrow>
    add_merged k j s e tf fl c q =
      (if e' \<le> s' then Inr (tf, advance 0 q2)
      else if k' = 0 \<and> \<not> m2 \<or> j' \<ge> length (rq_fifo q2) \<and> \<not> m2 then Inl NullDeref
      else endfast k' j' (m2 \<or> k' = j' \<and> endseq (rq_fifo q2 ! (k' - 1)) \<le> s' \<and> startseq (rq_fifo q2 ! j') \<ge> e' \<and>
                  (endseq (rq_fifo q2 ! (k' - 1)) = s' \<or> startseq (rq_fifo q2 ! j') = e')) s' e' tf fl c' q2)"
  by (simp add: add_merged_def Let_def)

lemma add_merged_ok:
  assumes ids: "ids_ok q" and tot: "rq_total q = iv_sum (ivs q)" and ap: "apart (ivs q)" and v: "ivs q = A @ M @ B"
    and k: "k = length A" and j: "j = k + length M" and se: "s < e" and A: "\<forall>a\<in>set A. snd a \<le> s"
    and M: "\<forall>m\<in>set M. s < snd m \<and> fst m < e \<and> \<not> (s \<le> fst m \<and> snd m \<le> e)" and B: "\<forall>b\<in>set B. e \<le> fst b"
    and ne: "M = [] \<longrightarrow> A \<noteq> [] \<and> B \<noteq> []"
  shows "added s e q (add_merged k j s e tf fl c q)"
proof -
  have ap': "apart (A @ M @ B)" using ap v by simp
  have P: "merge_in s e (ivs q) = join A (if M = [] then s else min s (fst (hd M))) (if M = [] then e else max e (snd (last M))) B"
    unfolding v by (rule merge_in_parts[OF ap']) (use se A M B in auto)
  have gapA: "snd (last A) < fst x" if "A \<noteq> []" "x \<in> set (M @ B)" for x using ap' that by (auto simp: apart_append)
  have gapB: "snd x < fst (hd B)" if "B \<noteq> []" "x \<in> set (A @ M)" for x using ap' that by (auto simp: apart_append)
  from ap' have "apart M" by (simp add: apart_append)
  then show ?thesis
  proof (rule at_most_two[where s = s and e = e])
    show "\<forall>m\<in>set M. s < snd m \<and> fst m < e \<and> \<not> (s \<le> fst m \<and> snd m \<le> e)" by (rule M)
  next
    assume M0: "M = []"
    then obtain A' a b B' where AB: "A = A' @ [a]" "B = b # B'" using ne by (metis append_butlast_last_id list.exhaust)
    have kj: "k = Suc (length A')" "j = k" using AB k j M0 by simp_all
    have vq: "ivs q = A' @ a # b # B'" using v M0 AB by simp
    have "\<not> (k = 0 \<or> fst b < s)" using AB B se kj by auto
    then have L: "merge_left k s tf c q = Inr (False, k, s, c, q)"
      using merge_left_ok[OF _ k ids tot, of b B' s tf c] v M0 AB by (simp only: append_Nil if_False)
    have "\<not> (b # B' = [] \<or> e < snd a)" using AB A se by auto
    then have R: "merge_right j e tf False q = Inr (False, j, e, q)"
      using merge_right_ok[OF vq _ ids tot, of j e tf False] kj by simp
    have len: "length (rq_fifo q) = Suc (Suc (length A' + length B'))" using arg_cong[OF vq, of length] by simp
    have nth: "endseq (rq_fifo q ! (k - 1)) = snd a" "startseq (rq_fifo q ! j) = fst b" using nth_fifo[of "k - 1" q] nth_fifo[of j q] kj len vq
      by (simp_all add: nth_append)
    have "snd a \<le> s" "e \<le> fst b" using A B AB by auto
    then have run: "add_merged k j s e tf fl c q = endfast k k (snd a = s \<or> fst b = e) s e tf fl c q"
      unfolding add_merged_eq[OF L R] nth using se kj len by simp
    show ?thesis unfolding run
      by (rule endfast_added[OF ids tot refl ap ap, of A B]) (use v M0 k se AB P in auto)
  next
    fix m assume M1: "M = [m]"
    have m: "s < snd m" "fst m < e" "\<not> (s \<le> fst m \<and> snd m \<le> e)" "fst m \<le> snd m" using M M1 \<open>apart M\<close> by auto
    have P1: "merge_in s e (ivs q) = join A (min s (fst m)) (max e (snd m)) B" using P M1 by simp
    have vm: "ivs q = A @ m # B" using v M1 by simp
    have noA: "A = [] \<or> snd (last A) \<noteq> fst m" using gapA[of m] M1 by auto
    have noB: "B = [] \<or> fst (hd B) \<noteq> snd m" using gapB[of m] M1 by auto
    have jk: "j = Suc (length A)" using j k M1 by simp
    show ?thesis
    proof (cases "k = 0 \<or> fst m < s")
      case True
      obtain q1 where q1: "merge_left k s tf c q = Inr (True, Suc k, snd m, c - 1, q1)" "ivs q1 = A @ (min s (fst m), snd m) # B"
        "ids_ok q1" "rq_total q1 = iv_sum (ivs q1)" "rcv_nxt q1 = rcv_nxt q"
        using merge_left_ok[OF vm k ids tot, of s tf c] True by auto
      note R = merge_right_ok[OF q1(2) jk q1(3,4), of e tf True]
      show ?thesis
      proof (cases "B = [] \<or> e < snd m")
        case ext: True
        obtain q2 where q2: "merge_right j e tf True q1 = Inr (True, length A, min s (fst m), q2)" "ivs q2 = A @ (min s (fst m), max e (snd m)) # B"
          "ids_ok q2" "rq_total q2 = iv_sum (ivs q2)" "rcv_nxt q2 = rcv_nxt q1" using R ext by auto
        have "min s (fst m) \<le> snd m" using m(4) by simp
        then have run: "add_merged k j s e tf fl c q = Inr (tf, advance 0 q2)" unfolding add_merged_eq[OF q1(1) q2(1)] by simp
        have "A = [] \<or> snd (last A) \<noteq> min s (fst m)" using True k noA by (auto simp: min_def)
        moreover have "B = [] \<or> fst (hd B) \<noteq> max e (snd m)" using ext noB by (auto simp: max_def)
        ultimately have "ivs q2 = merge_in s e (ivs q)" unfolding P1 q2(2) by (simp add: join_plain)
        then show ?thesis unfolding run by (intro advance_added) (use q2(2-5) q1(5) in simp_all)
      next
        case False
        then have fs: "fst m < s" "min s (fst m) = fst m" "max e (snd m) = e" using m(3) by auto
        have v1: "ivs q1 = ivs q" using q1(2) vm fs(2) by simp
        have R': "merge_right j e tf True q1 = Inr (True, j, e, q1)" using R False by auto
        show ?thesis
        proof (cases "e \<le> snd m")
          case True
          then have run: "add_merged k j s e tf fl c q = Inr (tf, advance 0 q1)" unfolding add_merged_eq[OF q1(1) R'] by simp
          have "e = snd m" using True False by auto
          then have "ivs q1 = merge_in s e (ivs q)" unfolding P1 fs(2,3) unfolding v1 vm using noA noB by (simp add: join_plain)
          then show ?thesis unfolding run by (intro advance_added) (use q1(3-5) v1 vm in simp_all)
        next
          case e: False
          then have run: "add_merged k j s e tf fl c q = endfast (Suc k) (Suc k) True (snd m) e tf fl (c - 1) q1"
            unfolding add_merged_eq[OF q1(1) R'] using jk k by simp
          have "join (A @ [m]) (snd m) e B = merge_in s e (ivs q)" unfolding P1 fs(2,3) using join_snoc[OF noA, of "snd m" e B] by simp
          then show ?thesis unfolding run
            by (intro endfast_added[OF q1(3) q1(4) q1(5) ap, of "A @ [m]" B]) (use v1 vm ap k m e in simp_all)
        qed
      qed
    next
      case False
      then have fs: "s \<le> fst m" "e < snd m" "min s (fst m) = s" "max e (snd m) = snd m" using m(3) by auto
      have L: "merge_left k s tf c q = Inr (False, k, s, c, q)" using merge_left_ok[OF vm k ids tot, of s tf c] False by simp
      obtain q2 where q2: "merge_right j e tf False q = Inr (True, length A, fst m, q2)" "ivs q2 = A @ (fst m, snd m) # B"
        "ids_ok q2" "rq_total q2 = iv_sum (ivs q2)" "rcv_nxt q2 = rcv_nxt q"
        using merge_right_ok[OF vm jk ids tot, of e tf False] fs by auto
      have v2: "ivs q2 = ivs q" using q2(2) vm by simp
      show ?thesis
      proof (cases "fst m \<le> s")
        case True
        then have run: "add_merged k j s e tf fl c q = Inr (tf, advance 0 q2)" unfolding add_merged_eq[OF L q2(1)] by simp
        have "s = fst m" using True fs(1) by simp
        then have "ivs q2 = merge_in s e (ivs q)" unfolding P1 fs(3,4) q2(2) using noA noB by (simp add: join_plain)
        then show ?thesis unfolding run by (intro advance_added) (use q2(2-5) in simp_all)
      next
        case gt: False
        then have run: "add_merged k j s e tf fl c q = endfast k k True s (fst m) tf fl c q2"
          unfolding add_merged_eq[OF L q2(1)] using k by simp
        have "join A s (fst m) (m # B) = merge_in s e (ivs q)" unfolding P1 fs(3,4) using join_cons[OF noB, of A s "fst m"] by simp
        then show ?thesis unfolding run
          by (intro endfast_added[OF q2(3) q2(4) q2(5) ap, of A "m # B"]) (use v2 vm ap k m fs in simp_all)
      qed
    qed
  next
    fix m n assume M2: "M = [m, n]" "fst m < s" "snd m < fst n" "e < snd n"
    have mn: "s < snd m" "fst n < e" "fst m \<le> snd m" using M M2 \<open>apart M\<close> by auto
    have P2: "merge_in s e (ivs q) = join A (fst m) (snd n) B" using P M2 by simp
    have vm: "ivs q = A @ m # n # B" using v M2 by simp
    have noA: "A = [] \<or> snd (last A) \<noteq> fst m" using gapA[of m] M2 by auto
    have noB: "B = [] \<or> fst (hd B) \<noteq> snd n" using gapB[of n] M2 by auto
    obtain q1 where q1: "merge_left k s tf c q = Inr (True, Suc k, snd m, c - 1, q1)" "ivs q1 = (A @ [m]) @ n # B"
      "ids_ok q1" "rq_total q1 = iv_sum (ivs q1)" "rcv_nxt q1 = rcv_nxt q"
      using merge_left_ok[OF vm k ids tot, of s tf c] M2(2) by (auto simp: min_def)
    have jk: "j = Suc (length (A @ [m]))" using j k M2 by simp
    obtain q2 where q2: "merge_right j e tf True q1 = Inr (True, Suc k, fst n, q2)" "ivs q2 = (A @ [m]) @ n # B"
      "ids_ok q2" "rq_total q2 = iv_sum (ivs q2)" "rcv_nxt q2 = rcv_nxt q1"
      using merge_right_ok[OF q1(2) jk q1(3,4), of e tf True] M2(4) k by auto
    have run: "add_merged k j s e tf fl c q = endfast (Suc k) (Suc k) True (snd m) (fst n) tf fl (c - 1) q2"
      unfolding add_merged_eq[OF q1(1) q2(1)] using M2(3) by simp
    have "join (A @ [m]) (snd m) (fst n) (n # B) = merge_in s e (ivs q)"
      unfolding P2 using join_snoc[OF noA, of "snd m" "fst n" "n # B"] join_cons[OF noB, of A "fst m" "fst n"] by simp
    then show ?thesis unfolding run
      by (intro endfast_added[OF q2(3) q2(4) _ ap, of "A @ [m]" "n # B"]) (use q1 q2 vm ap k mn M2 in simp_all)
  qed
qed

lemma merge_in_mem: "apart xs \<Longrightarrow> (s, e) \<in> set xs \<Longrightarrow> merge_in s e xs = xs"
proof (induction xs)
  case (Cons y xs)
  show ?case
  proof (cases "y = (s, e)")
    case True
    then have "merge_in s e xs = (s, e) # xs" using Cons.prems(1) by (intro merge_in_after) (auto simp: apart_def)
    then show ?thesis using True Cons.prems(1) by simp
  next
    case False
    then show ?thesis using Cons by (cases y) auto
  qed
qed simp

lemma added_same: "merge_in s e (ivs q1) = merge_in s e (ivs q) \<Longrightarrow> rcv_nxt q1 = rcv_nxt q \<Longrightarrow> added s e q1 r \<Longrightarrow> added s e q r"
proof -
  assume e: "merge_in s e (ivs q1) = merge_in s e (ivs q)" "rcv_nxt q1 = rcv_nxt q" and "added s e q1 r"
  from this(3) show "added s e q r" unfolding added_def advanced_def e .
qed

lemma ivs_take [simp]: "List.map iv (take k (rq_fifo q)) = take k (ivs q)" "List.map iv (drop k (rq_fifo q)) = drop k (ivs q)"
  by (simp_all add: ivs_def take_map drop_map)

text \<open>The two ends, where nothing overlaps.\<close>

lemma apart_last: "apart xs \<Longrightarrow> x \<in> set xs \<Longrightarrow> snd x \<le> snd (last xs)"
proof (induction xs rule: rev_induct)
  case (snoc y ys)
  then show ?case by (cases "x = y") (fastforce simp: apart_append)+
qed simp

lemma apart_hd: "apart xs \<Longrightarrow> x \<in> set xs \<Longrightarrow> fst (hd xs) \<le> fst x"
  by (cases xs) force+

lemma add_tail_ok:
  assumes "rq_sound q" and "s \<le> e" and "ivs q \<noteq> []" and "snd (last (ivs q)) \<le> s"
  shows "added s e q (endfast (length (rq_fifo q)) (length (rq_fifo q)) (s = snd (last (ivs q))) s e tf fl c q)"
proof -
  have q: "apart (ivs q)" "rq_total q = iv_sum (ivs q)" "ids_ok q" using assms(1) by (simp_all add: rq_sound_def)
  have "\<forall>x\<in>set (ivs q). snd x \<le> s" using apart_last[OF q(1)] assms(4) by fastforce
  then have "join (ivs q) s e [] = merge_in s e (ivs q)" using merge_in_parts[of "ivs q" "[]" "[]" s e] q(1) assms(2) by simp
  then show ?thesis by (intro endfast_added[OF q(3,2) refl q(1,1), of "ivs q" "[]"]) (use assms in auto)
qed

lemma add_head_ok:
  assumes "rq_sound q" and "s \<le> e" and "ivs q \<noteq> []" and "e \<le> fst (hd (ivs q))"
  shows "added s e q (endfast 0 0 (e = fst (hd (ivs q))) s e tf fl c q)"
proof -
  have q: "apart (ivs q)" "rq_total q = iv_sum (ivs q)" "ids_ok q" using assms(1) by (simp_all add: rq_sound_def)
  have "\<forall>x\<in>set (ivs q). e \<le> fst x" using apart_hd[OF q(1)] assms(4) by fastforce
  then have "join [] s e (ivs q) = merge_in s e (ivs q)" using merge_in_parts[of "[]" "[]" "ivs q" s e] q(1) assms(2) by simp
  then show ?thesis by (intro endfast_added[OF q(3,2) refl q(1,1), of "[]" "ivs q"]) (use assms in auto)
qed

text \<open>The blocks that end before, those that overlap and those behind.\<close>

lemma search_parts:
  assumes ap: "apart (List.map iv xs)" and se: "s < e"
  obtains A M B where "xs = A @ M @ B" "search_before s xs = length A" "search_after e xs = length A + length M"
    "\<forall>x\<in>set A. endseq x \<le> s" "\<forall>x\<in>set M. s < endseq x \<and> startseq x < e" "\<forall>x\<in>set B. e \<le> startseq x"
proof -
  define k where "k = search_before s xs"
  define j where "j = search_after e xs"
  have sk: "\<forall>x\<in>set (take k xs). endseq x \<le> s" "\<forall>x\<in>set (drop k xs). s < endseq x" using search_before_split[OF ap] by (simp_all add: k_def)
  have sj: "\<forall>x\<in>set (take j xs). startseq x < e" "\<forall>x\<in>set (drop j xs). e \<le> startseq x" using search_after_split[OF ap] by (simp_all add: j_def)
  have kl: "k \<le> length xs" "j \<le> length xs" using search_le by (simp_all add: k_def j_def)
  have le: "startseq x \<le> endseq x" if "x \<in> set xs" for x using ap that by (auto simp: apart_def)
  have kj: "k \<le> j"
  proof (rule ccontr)
    assume "\<not> k \<le> j"
    then have "xs ! j \<in> set (take k xs)" "xs ! j \<in> set (drop j xs)" using kl by (auto simp: in_set_conv_nth intro: exI[of _ j] exI[of _ 0])
    then have "endseq (xs ! j) \<le> s" "e \<le> startseq (xs ! j)" "xs ! j \<in> set xs" using sk(1) sj(2) by (auto dest: in_set_takeD)
    then show False using le[of "xs ! j"] se by simp
  qed
  define M where "M = drop k (take j xs)"
  have "take j xs = take k xs @ M" unfolding M_def using kj append_take_drop_id[of k "take j xs"] by (simp add: min_def)
  then have parts: "xs = take k xs @ M @ drop j xs" by (metis append.assoc append_take_drop_id)
  have mid: "s < endseq x \<and> startseq x < e" if "x \<in> set M" for x
  proof -
    have "x \<in> set (take j xs)" using that by (auto simp: M_def dest: in_set_dropD)
    moreover have "x \<in> set (drop k xs)" using that by (auto simp: M_def drop_take dest: in_set_takeD)
    ultimately show ?thesis using sk(2) sj(1) by blast
  qed
  have len: "length (take k xs) = k" "k + length M = j" using kl kj by (simp_all add: M_def)
  show ?thesis
  proof (rule that[OF parts])
    show "search_before s xs = length (take k xs)" "search_after e xs = length (take k xs) + length M"
      unfolding len by (simp_all add: k_def j_def)
  qed (use sk(1) sj(2) mid in blast)+
qed

text \<open>The loop starts one block early, which is not covered.\<close>

lemma kill_phase:
  assumes fifo: "rq_fifo q = A @ M @ B" and q: "rq_sound q" and A: "\<forall>x\<in>set A. endseq x \<le> s" and last: "s < snd (last (ivs q))"
  shows "killed s e A M B False q (kill_covered (length A + length M - (length A - 1)) s e (length A - 1) False tf c q)"
proof -
  have s: "apart (ivs q)" "rq_total q = iv_sum (ivs q)" "ids_ok q" "only_last_empty (ivs q)" using q by (simp_all add: rq_sound_def)
  show ?thesis
  proof (cases "A = []")
    case True
    then show ?thesis using kill_ok[of q "[]" M B s e False tf c] fifo s(1-3) by simp
  next
    case False
    then obtain P p where P: "A = P @ [p]" by (metis append_butlast_last_id)
    have x: "iv p \<in> set (ivs q)" using fifo P by (simp add: ivs_def)
    have "last (ivs q) \<in> set (ivs q)" using x by (cases "ivs q") auto
    moreover have "endseq p \<le> s" using A P by simp
    ultimately have "startseq p < endseq p" using s(4) x last unfolding only_last_empty_def by force
    then have "\<not> covers s e p" using \<open>endseq p \<le> s\<close> by (simp add: covers_def)
    moreover have "killed s e P (p # M) B False q (kill_covered (length (p # M)) s e (length P) False tf c q)"
      by (rule kill_ok) (use fifo P s in simp_all)
    ultimately show ?thesis using P by (simp add: killed_def Suc_diff_le split: covered.splits)
  qed
qed

lemma add_again_middle:
  assumes "rq_fifo q \<noteq> []" and "\<not> snd (last (ivs q)) \<le> s" and "\<not> e \<le> fst (hd (ivs q))"
    and k: "search_before s (rq_fifo q) = k" "search_after e (rq_fifo q) = k + m"
  shows "add_again s e tf fl c q = (case kill_covered (k + m - (k - 1)) s e (k - 1) False tf c q of
         Exact f q' \<Rightarrow> Inr (f, q')
       | Covered altered tiflags' cnt' q' \<Rightarrow>
           if rq_fifo q' = [] then (if k = 0 then endfast 0 0 False s e tiflags' fl cnt' q' else Inl UseAfterFree)
           else if altered then add_again s e tiflags' fl cnt' q'
           else add_merged k (k + m) s e tiflags' fl cnt' q')"
proof -
  have "endseq (last (rq_fifo q)) = snd (last (ivs q))" "startseq (hd (rq_fifo q)) = fst (hd (ivs q))"
    using assms(1) by (simp_all add: ivs_def last_map hd_map)
  moreover have "k - 1 \<le> k + m" by simp
  ultimately show ?thesis using assms by (subst add_again.simps) (simp add: Let_def k)
qed

text \<open>One round leaves a queue to which adding comes to the same.\<close>

lemma added_rest:
  assumes "rq_fifo q = A @ M @ B" and "rq_sound q" and "rcv_ok q" and "s < e" and "may_add s e (ivs q)"
    and "killed s e A M B False q (Covered a f c q')"
  shows "rq_sound q' \<and> rcv_ok q' \<and> may_add s e (ivs q') \<and> merge_in s e (ivs q') = merge_in s e (ivs q) \<and> rcv_nxt q' = rcv_nxt q \<and>
    rq_fifo q' = A @ filter (\<lambda>x. \<not> covers s e x) M @ B \<and> (a \<longleftrightarrow> (\<exists>x\<in>set M. covers s e x))"
proof -
  have q': "rq_fifo q' = A @ filter (\<lambda>x. \<not> covers s e x) M @ B" "ids_ok q'" "rq_total q' = iv_sum (ivs q')" "rcv_nxt q' = rcv_nxt q"
    "a \<longleftrightarrow> (\<exists>x\<in>set M. covers s e x)" using assms(6) by (simp_all add: killed_def)
  have ap: "apart (List.map iv (A @ M @ B))" using assms(1,2) by (simp add: rq_sound_def ivs_def)
  have sub: "set (ivs q') \<subseteq> set (ivs q)" unfolding ivs_def q'(1) assms(1) by auto
  have "apart (ivs q')" using apart_killed[OF ap] unfolding ivs_def q'(1) .
  moreover have "only_last_empty (ivs q')" using assms(2) sub unfolding rq_sound_def only_last_empty_def by blast
  moreover have "merge_in s e (ivs q') = merge_in s e (ivs q)"
    using merge_in_killed[OF ap] assms(4) unfolding ivs_def q'(1) assms(1) by simp
  moreover have "rcv_ok q'" using assms(3) sub q'(4) unfolding rcv_ok_def by auto
  moreover have "may_add s e (ivs q')" using assms(4,5) sub by (auto simp: may_add_def)
  ultimately show ?thesis using q' by (simp add: rq_sound_def)
qed

lemma add_again_ok:
  assumes "rq_sound q" and "rcv_ok q" and "rq_fifo q \<noteq> []" and "may_add s e (ivs q)"
  shows "added s e q (add_again s e tf fl c q)"
  using assms
proof (induction "length (rq_fifo q)" arbitrary: q tf c rule: less_induct)
  case less
  have ne: "ivs q \<noteq> []" using less.prems(3) by (simp add: ivs_def)
  have ap: "apart (ivs q)" using less.prems(1) by (simp add: rq_sound_def)
  have sle: "s \<le> e" using less.prems(4) by (simp add: may_add_def)
  have ends: "endseq (last (rq_fifo q)) = snd (last (ivs q))" "startseq (hd (rq_fifo q)) = fst (hd (ivs q))"
    using less.prems(3) by (simp_all add: ivs_def last_map hd_map)
  consider "snd (last (ivs q)) \<le> s" | "\<not> snd (last (ivs q)) \<le> s" "e \<le> fst (hd (ivs q))" | "\<not> snd (last (ivs q)) \<le> s" "\<not> e \<le> fst (hd (ivs q))"
    by blast
  then show ?case
  proof cases
    case 1
    then have "add_again s e tf fl c q = endfast (length (rq_fifo q)) (length (rq_fifo q)) (s = snd (last (ivs q))) s e tf fl c q"
      using less.prems(3) by (subst add_again.simps) (simp add: ends Let_def)
    then show ?thesis using add_tail_ok[OF less.prems(1) sle ne 1] by simp
  next
    case 2
    then have "add_again s e tf fl c q = endfast 0 0 (e = fst (hd (ivs q))) s e tf fl c q"
      using less.prems(3) by (subst add_again.simps) (simp add: ends Let_def)
    then show ?thesis using add_head_ok[OF less.prems(1) sle ne 2(2)] by simp
  next
    case 3
    have se: "s < e" using less.prems(4) 3(1) ne unfolding may_add_def by auto
    obtain A M B where p: "rq_fifo q = A @ M @ B" "search_before s (rq_fifo q) = length A" "search_after e (rq_fifo q) = length A + length M"
      "\<forall>x\<in>set A. endseq x \<le> s" "\<forall>x\<in>set M. s < endseq x \<and> startseq x < e" "\<forall>x\<in>set B. e \<le> startseq x"
      using search_parts[OF ap[unfolded ivs_def] se] .
    define r where "r = kill_covered (length A + length M - (length A - 1)) s e (length A - 1) False tf c q"
    have kr: "killed s e A M B False q r" unfolding r_def by (rule kill_phase[OF p(1) less.prems(1) p(4)]) (use 3(1) in simp)
    note run = add_again_middle[OF less.prems(3) 3 p(2,3), of tf fl c, folded r_def]
    show ?thesis
    proof (cases r)
      case (Exact f q')
      then have x: "(s, e) \<in> set (ivs q)" "ivs q' = ivs q" "rq_total q' = rq_total q" "ids_ok q'" "rcv_nxt q' = rcv_nxt q"
        using kr by (simp_all add: killed_def)
      have "rcv_nxt q' = (if s \<le> rcv_nxt q then e else rcv_nxt q)" using less.prems(2) x(1,5) by (auto simp: rcv_ok_def)
      then have "advanced s e q q'" unfolding advanced_def x(2) by (intro bexI[OF _ x(1)]) simp
      then show ?thesis unfolding run Exact using x merge_in_mem[OF ap x(1)] less.prems(1) by (auto simp: rq_sound_def intro: addedI)
    next
      case (Covered a f c' q')
      note R = added_rest[OF p(1) less.prems(1,2) se less.prems(4) kr[unfolded Covered]]
      have q': "ids_ok q'" "rq_total q' = iv_sum (ivs q')" "apart (ivs q')" using R by (simp_all add: rq_sound_def)
      show ?thesis
      proof (cases "rq_fifo q' = []")
        case True
        then have "ivs q' = []" "A = []" using R by (simp_all add: ivs_def)
        then have "add_again s e tf fl c q = endfast 0 0 False s e f fl c' q'" unfolding run Covered using True by simp
        moreover have "added s e q (endfast 0 0 False s e f fl c' q')"
          by (rule endfast_added[OF q'(1,2) _ ap q'(3), of "[]" "[]"]) (use R \<open>ivs q' = []\<close> sle in \<open>simp_all add: join_def\<close>)
        ultimately show ?thesis by simp
      next
        case ne': False
        have "added s e q' (if a then add_again s e f fl c' q' else add_merged (length A) (length A + length M) s e f fl c' q')"
        proof (cases a)
          case True
          then have "length (filter (\<lambda>x. \<not> covers s e x) M) < length M" using R by (auto simp: length_filter_less)
          then have "length (rq_fifo q') < length (rq_fifo q)" using R p(1) by simp
          then have "added s e q' (add_again s e f fl c' q')" using less.hyps R ne' by blast
          then show ?thesis using True by simp
        next
          case False
          then have no: "\<forall>x\<in>set M. \<not> covers s e x" using R by blast
          then have fq: "ivs q' = List.map iv A @ List.map iv M @ List.map iv B" using R by (simp add: ivs_def filter_id_conv)
          have "A \<noteq> [] \<and> B \<noteq> []" if "M = []"
          proof -
            have AB: "rq_fifo q = A @ B" using that p(1) by simp
            have "A \<noteq> []" using AB p(6) 3(2) ends(2) less.prems(3) by (metis append_Nil hd_in_set)
            moreover have "B \<noteq> []" using AB p(4) 3(1) ends(1) less.prems(3) by (metis append_Nil2 last_in_set)
            ultimately show ?thesis by blast
          qed
          then show ?thesis using False no p(4-6) by (simp, intro add_merged_ok[OF q'(1-3) fq]) (auto simp: covers_def se)
        qed
        then have "added s e q (if a then add_again s e f fl c' q' else add_merged (length A) (length A + length M) s e f fl c' q')"
          using added_same R by blast
        then show ?thesis unfolding run Covered using ne' by simp
      qed
    qed
  qed
qed

end
