(* ===== verification/ReassemblyProperties.thy ===== *)
theory ReassemblyProperties
  imports ReassemblyOrder
begin

text \<open>
  What the reassembly queue promises: the set of sequence numbers it holds, the next one expected,
  the holes, in any order of arrival; and where the code goes wrong.
\<close>

subsection \<open>The sequence numbers held\<close>

definition bytes :: "interval list \<Rightarrow> int set" where
  "bytes xs = (\<Union>x\<in>set xs. {fst x..<snd x})"

lemma bytes_simps [simp]: "bytes [] = {}" "bytes (x # xs) = {fst x..<snd x} \<union> bytes xs" "bytes (xs @ ys) = bytes xs \<union> bytes ys"
  by (auto simp: bytes_def)

lemma bytes_mem: "b \<in> bytes xs \<longleftrightarrow> (\<exists>x\<in>set xs. fst x \<le> b \<and> b < snd x)"
  by (auto simp: bytes_def)

lemma finite_bytes [simp]: "finite (bytes xs)"
  by (simp add: bytes_def)

lemma bytes_merge_in: "apart xs \<Longrightarrow> s \<le> e \<Longrightarrow> bytes (merge_in s e xs) = bytes xs \<union> {s..<e}"
proof (induction xs arbitrary: s e)
  case (Cons y xs)
  obtain a b where y: "y = (a, b)" by (cases y)
  have ab: "a \<le> b" "apart xs" using Cons.prems(1) y by auto
  consider "b < s" | "\<not> b < s" "e < a" | "\<not> b < s" "\<not> e < a" by blast
  then show ?case
  proof cases
    case 3
    then have "{min s a..<max e b} = {a..<b} \<union> {s..<e}" using ab(1) Cons.prems(2) by (auto simp: min_def max_def)
    moreover have "bytes (merge_in (min s a) (max e b) xs) = bytes xs \<union> {min s a..<max e b}"
      by (rule Cons.IH) (use ab Cons.prems in auto)
    ultimately show ?thesis using 3 y by auto
  qed (use Cons ab y in auto)
qed simp

lemma card_bytes: "apart xs \<Longrightarrow> int (card (bytes xs)) = iv_sum xs"
proof (induction xs)
  case (Cons x xs)
  have "bytes xs \<inter> {fst x..<snd x} = {}" using Cons.prems by (fastforce simp: bytes_mem)
  then have "card (bytes (x # xs)) = card {fst x..<snd x} + card (bytes xs)" by (simp add: card_Un_disjoint Int_commute)
  then show ?case using Cons by simp
qed simp

text \<open>Blocks with data that are apart are determined by what they hold.\<close>

lemma bytes_least: "apart (x # xs) \<Longrightarrow> fst x < snd x \<Longrightarrow> (\<forall>b\<in>bytes (x # xs). fst x \<le> b) \<and> fst x \<in> bytes (x # xs) \<and> snd x \<notin> bytes (x # xs)"
  by (fastforce simp: bytes_mem)

lemma bytes_unique:
  assumes "apart xs" and "apart ys" and "\<forall>x\<in>set xs. fst x < snd x" and "\<forall>y\<in>set ys. fst y < snd y" and "bytes xs = bytes ys"
  shows "xs = ys"
  using assms
proof (induction xs arbitrary: ys)
  case Nil
  then show ?case by (cases ys) auto
next
  case (Cons x xs)
  obtain y ys' where ys: "ys = y # ys'" using Cons.prems(3,5) by (cases ys) auto
  note bx = bytes_least[OF Cons.prems(1)] and yb = bytes_least[OF Cons.prems(2)[unfolded ys]]
  have lt: "fst x < snd x" "fst y < snd y" using Cons.prems(3,4) ys by simp_all
  have eq: "bytes (x # xs) = bytes (y # ys')" using Cons.prems(5) ys by simp
  have f: "fst x = fst y" using bx[OF lt(1)] yb[OF lt(2)] unfolding eq by (metis order_antisym)
  have "\<not> snd x < snd y" using bx[OF lt(1)] f lt(1) unfolding eq by auto
  moreover have "\<not> snd y < snd x" using yb[OF lt(2)] f lt(2) unfolding eq[symmetric] by auto
  ultimately have xy: "x = y" using f by (simp add: prod_eq_iff)
  have tx: "bytes xs = bytes (x # xs) - {fst x..<snd x}" using Cons.prems(1) by (fastforce simp: bytes_mem)
  have ty: "bytes ys' = bytes (y # ys') - {fst y..<snd y}" using Cons.prems(2) ys by (fastforce simp: bytes_mem)
  have "bytes xs = bytes ys'" using tx ty eq xy by argo
  then show ?case using Cons.IH[of ys'] Cons.prems(1-4) ys xy by simp
qed

subsection \<open>Adding a segment\<close>

text \<open>A segment does not lie below the next sequence number expected unless the first block reaches
  down to it.\<close>

definition not_stale :: "int \<Rightarrow> reass_queue \<Rightarrow> bool" where
  "not_stale e q \<longleftrightarrow> rcv_nxt q \<le> e \<or> (\<exists>x\<in>set (ivs q). snd x = rcv_nxt q \<and> fst x \<le> e)"

lemma rq_add_added:
  assumes "rq_sound q" and "rcv_ok q" and "may_add s e (ivs q)"
  shows "added s e q (rq_add s e tf fl q)"
proof (cases "rq_fifo q = []")
  case True
  have l: "rq_lifo q = []" using assms(1) True by (simp add: rq_sound_def ids_ok_def)
  let ?n = "\<lparr> startseq = s, endseq = e, pflags = tf, rqflags = fl, seg_cnt = 1, seg_id = rq_fresh q \<rparr>"
  let ?q = "q\<lparr>rq_fifo := [?n], rq_lifo := [rq_fresh q], rq_fresh := Suc (rq_fresh q), rq_total := e - s\<rparr>"
  have run: "rq_add s e tf fl q = Inr (tf, if rcv_nxt ?q \<ge> s then ?q\<lparr>rcv_nxt := e\<rparr> else ?q)"
    using assms(3) True l by (simp add: rq_add_def may_add_def Let_def)
  have "advanced s e q (if rcv_nxt ?q \<ge> s then ?q\<lparr>rcv_nxt := e\<rparr> else ?q)"
    unfolding advanced_def by (intro bexI[of _ "(s, e)"]) (simp_all add: ivs_def iv_def)
  then show ?thesis by (intro addedI[OF run]) (use True in \<open>auto simp: ivs_def iv_def ids_ok_def\<close>)
next
  case False
  then show ?thesis using add_again_ok[OF assms(1,2) False assms(3)] assms(3) by (simp add: rq_add_def may_add_def)
qed

text \<open>The invariants after adding, and the next sequence number expected.\<close>

lemma added_keeps:
  assumes q: "rq_sound q" "rcv_ok q" and may: "may_add s e (ivs q)" and r: "added s e q (Inr (f, q'))"
  shows "rq_sound q'" and "rcv_ok q'" and "ivs q' = merge_in s e (ivs q)" and "bytes (ivs q') = bytes (ivs q) \<union> {s..<e}"
    and "rcv_nxt q' \<notin> bytes (ivs q')" and "\<exists>m. merged s e (ivs q) (ivs q') m \<and> rcv_nxt q' = (if fst m \<le> rcv_nxt q then snd m else rcv_nxt q)"
proof -
  have s: "apart (ivs q)" "only_last_empty (ivs q)" using q(1) by (simp_all add: rq_sound_def)
  have se: "s \<le> e" using may by (simp add: may_add_def)
  have q': "rq_total q' = iv_sum (ivs q')" "ids_ok q'" "advanced s e q q'" using r by (simp_all add: added_def)
  show v: "ivs q' = merge_in s e (ivs q)" using r by (simp add: added_def)
  show "bytes (ivs q') = bytes (ivs q) \<union> {s..<e}" unfolding v by (rule bytes_merge_in[OF s(1) se])
  obtain m where ap: "apart (ivs q')" and m: "merged s e (ivs q) (ivs q') m" using merge_in_ok[OF s(1) se] v by auto
  have mm: "m \<in> set (ivs q')" "fst m \<le> s" "e \<le> snd m" "set (ivs q') \<subseteq> insert m (set (ivs q))"
    "\<And>x. x \<in> set (ivs q) \<Longrightarrow> s \<le> snd x \<Longrightarrow> fst x \<le> e \<Longrightarrow> fst m \<le> fst x \<and> snd x \<le> snd m" using m by (auto simp: merged_def)
  have "fst x < snd x \<or> (\<forall>y\<in>set (ivs q'). snd y \<le> snd x)" if x: "x \<in> set (ivs q')" for x
  proof (cases "x = m")
    case True
    have "snd y \<le> snd m" if "fst m = snd m" "y \<in> set (ivs q)" for y
      using may that mm(2,3) se unfolding may_add_def by force
    moreover have "fst m \<le> snd m" using mm(2,3) se by linarith
    ultimately show ?thesis using True mm(4) by fastforce
  next
    case False
    then have xq: "x \<in> set (ivs q)" using x mm(4) by blast
    have le: "fst x \<le> snd x" using ap x by (auto simp: apart_def)
    have "snd m \<le> snd x" if "fst x = snd x"
    proof -
      have "e \<le> fst x" using may xq that unfolding may_add_def by blast
      moreover have "snd x < fst m \<or> snd m < fst x" by (rule apart_disjoint[OF ap x mm(1) False])
      ultimately show ?thesis using mm(2,3) se le by linarith
    qed
    then show ?thesis using s(2) xq le mm(4) unfolding only_last_empty_def by fastforce
  qed
  then have "only_last_empty (ivs q')" by (simp add: only_last_empty_def)
  then show "rq_sound q'" using ap q'(1,2) by (simp add: rq_sound_def)
  have old: "rcv_nxt q < fst x \<or> rcv_nxt q = snd x" if "x \<in> set (ivs q)" for x using q(2) that by (simp add: rcv_ok_def)
  have rcv: "rcv_nxt q' = (if fst m \<le> rcv_nxt q then snd m else rcv_nxt q)"
  proof -
    obtain x where x: "x \<in> set (ivs q')" "x = hd (ivs q') \<or> fst x \<le> s \<and> e \<le> snd x" "rcv_nxt q' = (if fst x \<le> rcv_nxt q then snd x else rcv_nxt q)"
      using q'(3) by (auto simp: advanced_def)
    show ?thesis
    proof (cases "x = m")
      case False
      then have d: "snd x < fst m \<or> snd m < fst x" by (rule apart_disjoint[OF ap x(1) mm(1)])
      then have "x = hd (ivs q')" using x(2) mm(2,3) se by linarith
      then have "fst x \<le> fst m" using apart_hd[OF ap mm(1)] by simp
      moreover have "fst x \<le> snd x" "fst m \<le> snd m" using ap x(1) mm(1) by (auto simp: apart_def)
      moreover have "x \<in> set (ivs q)" using x(1) mm(4) False by blast
      ultimately show ?thesis using x(3) old[of x] d by auto
    qed (use x in simp)
  qed
  then show "\<exists>m. merged s e (ivs q) (ivs q') m \<and> rcv_nxt q' = (if fst m \<le> rcv_nxt q then snd m else rcv_nxt q)" using m by blast
  show ok': "rcv_ok q'"
  proof -
    have "rcv_nxt q' < fst x \<or> rcv_nxt q' = snd x" if x: "x \<in> set (ivs q')" for x
    proof (cases "x = m")
      case True
      then show ?thesis using rcv by auto
    next
      case False
      then have xq: "x \<in> set (ivs q)" using x mm(4) by blast
      have d: "snd x < fst m \<or> snd m < fst x" by (rule apart_disjoint[OF ap x mm(1) False])
      have le: "fst x \<le> snd x" using ap x by (auto simp: apart_def)
      show ?thesis using rcv old[OF xq] d le by auto
    qed
    then show ?thesis by (simp add: rcv_ok_def)
  qed
  then show "rcv_nxt q' \<notin> bytes (ivs q')" unfolding bytes_mem rcv_ok_def by fastforce
qed

lemma added_sound:
  assumes q: "rq_sound q" "rcv_ok q" and may: "may_add s e (ivs q)" and st: "not_stale e q" and r: "added s e q (Inr (f, q'))"
  shows "rq_sound q'" and "rcv_ok q'" and "ivs q' = merge_in s e (ivs q)" and "bytes (ivs q') = bytes (ivs q) \<union> {s..<e}"
    and "rcv_nxt q \<le> rcv_nxt q'" and "{rcv_nxt q..<rcv_nxt q'} \<subseteq> bytes (ivs q')" and "rcv_nxt q' \<notin> bytes (ivs q')"
proof -
  note K = added_keeps[OF q may r]
  show "rq_sound q'" "rcv_ok q'" "ivs q' = merge_in s e (ivs q)" "bytes (ivs q') = bytes (ivs q) \<union> {s..<e}" "rcv_nxt q' \<notin> bytes (ivs q')" by (fact K)+
  obtain m where m: "merged s e (ivs q) (ivs q') m" and rcv: "rcv_nxt q' = (if fst m \<le> rcv_nxt q then snd m else rcv_nxt q)" using K(6) by blast
  have se: "s \<le> e" using may by (simp add: may_add_def)
  have mm: "m \<in> set (ivs q')" "e \<le> snd m" "\<And>x. x \<in> set (ivs q) \<Longrightarrow> s \<le> snd x \<Longrightarrow> fst x \<le> e \<Longrightarrow> fst m \<le> fst x \<and> snd x \<le> snd m"
    using m by (auto simp: merged_def)
  have reach: "rcv_nxt q \<le> snd m" if "fst m \<le> rcv_nxt q"
  proof (cases "rcv_nxt q \<le> e")
    case False
    then obtain x where "x \<in> set (ivs q)" "snd x = rcv_nxt q" "fst x \<le> e" using st unfolding not_stale_def by blast
    then show ?thesis using mm(3)[of x] se False by simp
  qed (use mm(2) in linarith)
  show "rcv_nxt q \<le> rcv_nxt q'" using rcv reach by simp
  show "{rcv_nxt q..<rcv_nxt q'} \<subseteq> bytes (ivs q')" using rcv mm(1) by (auto simp: bytes_mem intro!: bexI[of _ m])
qed

text \<open>A stale segment moves the next sequence number expected back to its end.\<close>

lemma added_stale:
  assumes q: "rq_sound q" "rcv_ok q" and may: "may_add s e (ivs q)" and st: "\<not> not_stale e q" and r: "added s e q (Inr (f, q'))"
  shows "rcv_nxt q' = e \<and> e < rcv_nxt q"
proof -
  note K = added_keeps[OF q may r]
  obtain m where m: "merged s e (ivs q) (ivs q') m" and rcv: "rcv_nxt q' = (if fst m \<le> rcv_nxt q then snd m else rcv_nxt q)" using K(6) by blast
  have se: "s \<le> e" using may by (simp add: may_add_def)
  have mm: "m \<in> set (ivs q')" "fst m \<le> s" "e \<le> snd m" using m by (simp_all add: merged_def)
  have less: "e < rcv_nxt q" and no: "\<And>x. x \<in> set (ivs q) \<Longrightarrow> snd x = rcv_nxt q \<Longrightarrow> \<not> fst x \<le> e" using st unfolding not_stale_def by auto
  have "\<not> e < snd m"
  proof
    assume "e < snd m"
    then have "e \<in> bytes (ivs q')" using mm se by (auto simp: bytes_mem intro!: bexI[of _ m])
    then have "e \<in> bytes (ivs q)" using K(4) by simp
    then obtain x where x: "x \<in> set (ivs q)" "fst x \<le> e" "e < snd x" by (auto simp: bytes_mem)
    then have "rcv_nxt q = snd x" using q(2) less by (force simp: rcv_ok_def)
    then show False using no[OF x(1)] x(2) by simp
  qed
  then have "snd m = e" using mm(3) by simp
  then show ?thesis using rcv mm(2) se less by simp
qed

subsection \<open>Removing what was passed on\<close>

fun clear_in :: "int \<Rightarrow> interval list \<Rightarrow> interval list" where
  "clear_in seq [] = []"
| "clear_in seq (x # xs) = (if snd x \<le> seq then clear_in seq xs else if fst x \<le> seq then (seq, snd x) # xs else x # xs)"

lemma clear_in_ok:
  assumes "apart xs"
  shows "apart (clear_in seq xs) \<and> bytes (clear_in seq xs) = bytes xs \<inter> {seq..} \<and> (\<forall>x\<in>set (clear_in seq xs). seq < snd x) \<and>
    (\<forall>x\<in>set (clear_in seq xs). x \<in> set xs \<or> fst x = seq \<and> (\<exists>a. a \<le> seq \<and> (a, snd x) \<in> set xs))"
  using assms
proof (induction xs)
  case (Cons x xs)
  have x: "fst x \<le> snd x" "apart xs" "\<forall>y\<in>set xs. snd x < fst y \<and> fst y \<le> snd y" using Cons.prems by (auto simp: apart_def)
  consider "snd x \<le> seq" | "seq < snd x" "fst x \<le> seq" | "seq < fst x" by linarith
  then show ?case
  proof cases
    case 1
    moreover have "{fst x..<snd x} \<inter> {seq..} = {}" using 1 by auto
    ultimately show ?thesis using Cons.IH[OF x(2)] by auto
  next
    case 2
    have "bytes xs \<inter> {seq..} = bytes xs" "{fst x..<snd x} \<inter> {seq..} = {seq..<snd x}" using 2 x(3) by (fastforce simp: bytes_mem)+
    then have "bytes (clear_in seq (x # xs)) = bytes (x # xs) \<inter> {seq..}" using 2 by auto
    moreover have "(fst x, snd x) \<in> set (x # xs)" by simp
    ultimately show ?thesis using 2 x by fastforce
  next
    case 3
    have "bytes xs \<inter> {seq..} = bytes xs" "{fst x..<snd x} \<inter> {seq..} = {fst x..<snd x}" using 3 x by (fastforce simp: bytes_mem)+
    then have "bytes (clear_in seq (x # xs)) = bytes (x # xs) \<inter> {seq..}" using 3 x by auto
    then show ?thesis using 3 x by fastforce
  qed
qed simp

lemma clear_blocks_ok:
  assumes "ids_ok q" and "rq_total q = iv_sum (ivs q)"
  shows "\<exists>f q'. clear_blocks seq (length (rq_fifo q)) fl q = (f, q') \<and> ivs q' = clear_in seq (ivs q) \<and> ids_ok q' \<and>
    rq_total q' = iv_sum (ivs q') \<and> rcv_nxt q' = rcv_nxt q"
  using assms
proof (induction "rq_fifo q" arbitrary: q fl)
  case Nil
  then show ?case by (simp add: ivs_def flip: Nil(1))
next
  case (Cons p ps)
  note fifo = Cons.hyps(2)[symmetric]
  let ?q = "rq_remove 0 (q\<lparr>rq_total := rq_total q - seg_len p\<rparr>)"
  have v: "ivs q = iv p # List.map iv ps" using fifo by (simp add: ivs_def)
  consider "endseq p \<le> seq" | "\<not> endseq p \<le> seq" "startseq p \<le> seq" | "\<not> endseq p \<le> seq" "\<not> startseq p \<le> seq" by blast
  then show ?case
  proof cases
    case 1
    have f: "rq_fifo ?q = ps" using fifo by (simp add: rq_remove_def)
    have i: "ids_ok ?q" by (rule ids_remove) (use Cons.prems(1) fifo in simp_all)
    have "rq_total ?q = iv_sum (ivs ?q)" using Cons.prems(2) v f by (simp add: ivs_def rq_remove_def seg_len_def)
    then obtain g q' where q': "clear_blocks seq (length (rq_fifo ?q)) (fl OR pflags p) ?q = (g, q')" "ivs q' = clear_in seq (ivs ?q)" "ids_ok q'"
      "rq_total q' = iv_sum (ivs q')" "rcv_nxt q' = rcv_nxt ?q" using Cons.hyps(1)[OF f[symmetric] i] by blast
    have "clear_blocks seq (length (rq_fifo q)) fl q = clear_blocks seq (length (rq_fifo ?q)) (fl OR pflags p) ?q"
      using 1 f fifo by (simp add: Let_def)
    moreover have "clear_in seq (ivs q) = clear_in seq (ivs ?q)" using 1 v f by (simp add: ivs_def)
    ultimately show ?thesis using q' by (simp add: rq_remove_def)
  next
    case 2
    let ?r = "rq_upd 0 (\<lambda>p. p\<lparr>startseq := seq\<rparr>) (q\<lparr>rq_total := rq_total q - (seq - startseq p)\<rparr>)"
    have w: "ivs ?r = (seq, endseq p) # List.map iv ps" using fifo by (simp add: ivs_def rq_upd_def iv_def)
    have "ids_ok ?r" by (rule ids_upd) (use Cons.prems(1) in simp_all)
    moreover have "clear_blocks seq (length (rq_fifo q)) fl q = (fl OR pflags p, ?r)" using 2 fifo by (simp add: Let_def)
    moreover have "rq_total ?r = iv_sum (ivs ?r)" unfolding w using Cons.prems(2) v by (simp add: rq_upd_def)
    ultimately show ?thesis using 2 v w by (simp add: rq_upd_def)
  next
    case 3
    then have "clear_blocks seq (length (rq_fifo q)) fl q = (fl, q)" using fifo by (simp add: Let_def)
    then show ?thesis using 3 Cons.prems v by simp
  qed
qed

lemma clearto_ok:
  assumes "rq_sound q"
  shows "rq_sound (snd (clearto seq q)) \<and> bytes (ivs (snd (clearto seq q))) = bytes (ivs q) \<inter> {seq..} \<and>
    rcv_nxt (snd (clearto seq q)) = rcv_nxt q \<and> (rcv_ok q \<longrightarrow> (\<forall>x\<in>set (ivs (snd (cleartonxt q))). rcv_nxt q < fst x))"
proof -
  have q: "apart (ivs q)" "only_last_empty (ivs q)" "rq_total q = iv_sum (ivs q)" "ids_ok q" using assms by (simp_all add: rq_sound_def)
  have c: "\<exists>f q'. clearto seq q = (f, q') \<and> ivs q' = clear_in seq (ivs q) \<and> ids_ok q' \<and> rq_total q' = iv_sum (ivs q') \<and> rcv_nxt q' = rcv_nxt q" for seq
    unfolding clearto_def by (rule clear_blocks_ok[OF q(4,3)])
  then obtain f q' where q': "clearto seq q = (f, q')" "ivs q' = clear_in seq (ivs q)" "ids_ok q'" "rq_total q' = iv_sum (ivs q')" "rcv_nxt q' = rcv_nxt q"
    by blast
  note ci = clear_in_ok[OF q(1)]
  have "only_last_empty (clear_in seq (ivs q))"
  proof -
    have "fst x < snd x \<or> (\<forall>y\<in>set (clear_in seq (ivs q)). snd y \<le> snd x)" if x: "x \<in> set (clear_in seq (ivs q))" for x
    proof (cases "x \<in> set (ivs q)")
      case True
      have "\<exists>a. (a, snd y) \<in> set (ivs q)" if "y \<in> set (clear_in seq (ivs q))" for y using ci[of seq] that by (metis prod.collapse)
      then show ?thesis using q(2) True unfolding only_last_empty_def by (metis snd_conv)
    next
      case False
      then show ?thesis using ci[of seq] x by fastforce
    qed
    then show ?thesis by (simp add: only_last_empty_def)
  qed
  then have "rq_sound q'" using q' ci[of seq] by (simp add: rq_sound_def)
  moreover have "rcv_nxt q < fst x" if "rcv_ok q" "x \<in> set (ivs (snd (cleartonxt q)))" for x
  proof -
    have "x \<in> set (clear_in (rcv_nxt q) (ivs q))" using c[of "rcv_nxt q"] that(2) unfolding cleartonxt_def by auto
    then have x: "rcv_nxt q < snd x" "x \<in> set (ivs q) \<or> (\<exists>a. a \<le> rcv_nxt q \<and> (a, snd x) \<in> set (ivs q))" using ci[of "rcv_nxt q"] by blast+
    then show ?thesis using that(1) unfolding rcv_ok_def by force
  qed
  ultimately show ?thesis using q' ci[of seq] by simp
qed

text \<open>Clearing up to a sequence number keeps exactly what lies from there on, and the invariant;
  clearing up to \<^verbatim>\<open>rcv_nxt_\<close> leaves only blocks behind it.\<close>

theorem rq_clearto_ok:
  assumes "rq_sound q"
  shows "rq_sound (snd (clearto seq q)) \<and> bytes (ivs (snd (clearto seq q))) = bytes (ivs q) \<inter> {seq..} \<and>
    rcv_nxt (snd (clearto seq q)) = rcv_nxt q \<and> (rcv_ok q \<longrightarrow> (\<forall>x\<in>set (ivs (snd (cleartonxt q))). rcv_nxt q < fst x))"
  by (rule clearto_ok[OF assms])

subsection \<open>Holes\<close>

lemma cnts_eq: "cnts ps = (int (length ps), iv_sum (List.map iv ps))"
  by (induction ps) (simp_all add: seg_len_def)

text \<open>\<^verbatim>\<open>n\<close> is the first hole from \<^verbatim>\<open>seq\<close> on, \<^verbatim>\<open>cnt\<close> blocks with \<^verbatim>\<open>nb\<close> sequence numbers lie behind it.\<close>

definition hole_at :: "int \<Rightarrow> interval list \<Rightarrow> int \<times> int \<times> int \<Rightarrow> bool" where
  "hole_at seq xs r = (case r of (n, cnt, nb) \<Rightarrow>
    if \<exists>x\<in>set xs. seq \<le> snd x
    then seq \<le> n \<and> {seq..<n} \<subseteq> bytes xs \<and> n \<notin> bytes xs \<and>
      (let above = filter (\<lambda>x. n < fst x) xs in
       if above = [] then cnt = -1 \<and> nb = -1 else cnt = int (length above) \<and> nb = int (card (bytes xs \<inter> {n<..})))
    else n = -1 \<and> cnt = -1 \<and> nb = -1)"

lemma hole_in_ok: "apart (List.map iv xs) \<Longrightarrow> hole_at seq (List.map iv xs) (hole_in seq xs)"
proof (induction xs)
  case (Cons p ps)
  have p: "startseq p \<le> endseq p" "apart (List.map iv ps)" "\<forall>y\<in>set (List.map iv ps). endseq p < fst y \<and> fst y \<le> snd y"
    using Cons.prems by (auto simp: apart_def)
  consider "seq < startseq p" | "startseq p \<le> seq" "seq \<le> endseq p" | "endseq p < seq" using p(1) by linarith
  then show ?case
  proof cases
    case 1
    have all: "filter (\<lambda>x. seq < fst x) (List.map iv (p # ps)) = List.map iv (p # ps)" using 1 p by (fastforce simp: filter_id_conv)
    have "bytes (List.map iv (p # ps)) \<inter> {seq<..} = bytes (List.map iv (p # ps))" using 1 p by (fastforce simp: bytes_mem)
    then have "card (bytes (List.map iv (p # ps)) \<inter> {seq<..}) = card (bytes (List.map iv (p # ps)))" by simp
    moreover have "seq \<notin> bytes (List.map iv (p # ps))" using 1 p by (fastforce simp: bytes_mem)
    moreover have "\<exists>x\<in>set (List.map iv (p # ps)). seq \<le> snd x" using 1 p by auto
    moreover have "hole_in seq (p # ps) = (seq, cnts (p # ps))" using 1 by simp
    ultimately show ?thesis using all card_bytes[OF Cons.prems] by (simp add: hole_at_def cnts_eq del: list.map bytes_simps)
  next
    case 2
    let ?n = "endseq p"
    have ab: "filter (\<lambda>x. ?n < fst x) (List.map iv (p # ps)) = List.map iv ps" using p by (auto simp: filter_id_conv)
    have "bytes (List.map iv (p # ps)) \<inter> {?n<..} = bytes (List.map iv ps)" using p(3) by (fastforce simp: bytes_mem)
    then have c: "int (card (bytes (List.map iv (p # ps)) \<inter> {?n<..})) = iv_sum (List.map iv ps)" using card_bytes[OF p(2)] by simp
    have "{seq..<?n} \<subseteq> bytes (List.map iv (p # ps))" "?n \<notin> bytes (List.map iv (p # ps))" using 2 p(3) by (fastforce simp: bytes_mem)+
    moreover have "\<exists>x\<in>set (List.map iv (p # ps)). seq \<le> snd x" using 2 by auto
    moreover have "hole_in seq (p # ps) = (?n, if ps = [] then (-1, -1) else cnts ps)" using 2 by simp
    ultimately show ?thesis using 2 ab c by (cases "ps = []") (simp_all add: hole_at_def cnts_eq del: list.map bytes_simps)
  next
    case 3
    note IH = Cons.IH[OF p(2)]
    obtain n cnt nb where h: "hole_in seq ps = (n, cnt, nb)" by (metis prod_cases3)
    have run: "hole_in seq (p # ps) = (n, cnt, nb)" using 3 p(1) h by simp
    have ex: "(\<exists>x\<in>set (List.map iv (p # ps)). seq \<le> snd x) \<longleftrightarrow> (\<exists>x\<in>set (List.map iv ps). seq \<le> snd x)" using 3 by auto
    show ?thesis
    proof (cases "\<exists>x\<in>set (List.map iv ps). seq \<le> snd x")
      case True
      have n: "seq \<le> n" using IH True unfolding h hole_at_def by simp
      then have "filter (\<lambda>x. n < fst x) (List.map iv (p # ps)) = filter (\<lambda>x. n < fst x) (List.map iv ps)" using 3 p(1) by simp
      moreover have "bytes (List.map iv (p # ps)) \<inter> {n<..} = bytes (List.map iv ps) \<inter> {n<..}" using 3 n by auto
      moreover have "{seq..<n} \<subseteq> bytes (List.map iv ps) \<Longrightarrow> {seq..<n} \<subseteq> bytes (List.map iv (p # ps))" by auto
      moreover have "n \<notin> bytes (List.map iv ps) \<Longrightarrow> n \<notin> bytes (List.map iv (p # ps))" using 3 n by auto
      ultimately show ?thesis using IH True unfolding run h hole_at_def prod.case ex if_P[OF True] by presburger
    next
      case False
      then show ?thesis using IH unfolding run h hole_at_def prod.case ex by simp
    qed
  qed
qed (simp add: hole_at_def)

text \<open>\<^verbatim>\<open>nexthole\<close> finds the first sequence number from \<^verbatim>\<open>seq\<close> on that is missing, if some block
  reaches to \<^verbatim>\<open>seq\<close>, and counts the blocks and the sequence numbers behind the hole; both
  counts are -1 if there are none.  Behind the last block it returns -1.\<close>

theorem rq_nexthole_ok:
  assumes "rq_sound q"
  shows "hole_at seq (ivs q) (nexthole seq q)"
  using hole_in_ok[of "rq_fifo q" seq] assms unfolding rq_sound_def nexthole_def ivs_def by blast

end
