(* ===== verification/ReassemblyArrival.thy ===== *)
theory ReassemblyArrival
  imports ReassemblyProperties
begin

unbundle bit_operations_syntax

text \<open>
  The reassembly queue under any order of arrival, and where its code goes wrong.
\<close>

subsection \<open>Any order of arrival\<close>

fun rq_adds :: "(int \<times> int \<times> int) list \<Rightarrow> reass_queue \<Rightarrow> reass_queue result" where
  "rq_adds [] q = Inr q"
| "rq_adds ((s, e, f) # segs) q = bind_r (rq_add s e f 0 q) (\<lambda>(_, q'). rq_adds segs q')"

definition union_of :: "(int \<times> int \<times> int) list \<Rightarrow> int set" where
  "union_of segs = (\<Union>(s, e, f)\<in>set segs. {s..<e})"

text \<open>Everything since \<^verbatim>\<open>r0\<close> is in the queue, up to \<^verbatim>\<open>rcv_nxt_\<close> in its first block.\<close>

definition keeps_from :: "int \<Rightarrow> reass_queue \<Rightarrow> bool" where
  "keeps_from r0 q \<longleftrightarrow> rq_sound q \<and> rcv_ok q \<and> (\<forall>x\<in>set (ivs q). fst x < snd x \<and> r0 \<le> fst x) \<and>
     (rcv_nxt q = r0 \<or> (\<exists>x\<in>set (ivs q). fst x = r0 \<and> snd x = rcv_nxt q))"

lemma keeps_add:
  assumes k: "keeps_from r0 q" and s: "r0 \<le> s" "s < e"
  shows "\<exists>f' q'. rq_add s e f fl q = Inr (f', q') \<and> keeps_from r0 q' \<and> bytes (ivs q') = bytes (ivs q) \<union> {s..<e}"
proof -
  have q: "rq_sound q" "rcv_ok q" "\<forall>x\<in>set (ivs q). fst x < snd x \<and> r0 \<le> fst x" using k by (simp_all add: keeps_from_def)
  have may: "may_add s e (ivs q)" using q(3) s(2) by (fastforce simp: may_add_def)
  have st: "not_stale e q" using k s unfolding keeps_from_def not_stale_def by force
  obtain f' q' where r: "rq_add s e f fl q = Inr (f', q')" "added s e q (Inr (f', q'))"
    using rq_add_added[OF q(1,2) may, of f fl] unfolding added_def by auto
  note A = added_sound[OF q(1,2) may st r(2)]
  have ap: "apart (ivs q)" "apart (ivs q')" using q(1) A(1) by (simp_all add: rq_sound_def)
  obtain m where m: "merged s e (ivs q) (ivs q') m" using merge_in_ok[OF ap(1)] s(2) A(3) by (metis less_imp_le)
  have ne: "\<forall>x\<in>set (ivs q'). fst x < snd x" using m q(3) s(2) unfolding merged_def by fastforce
  have low: "r0 \<le> fst x" if "x \<in> set (ivs q')" for x
  proof -
    have "fst x \<in> bytes (ivs q')" using that ne by (auto simp: bytes_mem)
    then show ?thesis using A(4) q(3) s(1) by (fastforce simp: bytes_mem)
  qed
  have fill: "{r0..<rcv_nxt q'} \<subseteq> bytes (ivs q')"
  proof -
    have "{r0..<rcv_nxt q} \<subseteq> bytes (ivs q)" using k by (fastforce simp: keeps_from_def bytes_mem)
    moreover have "{r0..<rcv_nxt q'} \<subseteq> {r0..<rcv_nxt q} \<union> {rcv_nxt q..<rcv_nxt q'}" by auto
    ultimately show ?thesis using A(4,6) by blast
  qed
  have "rcv_nxt q' = r0 \<or> (\<exists>x\<in>set (ivs q'). fst x = r0 \<and> snd x = rcv_nxt q')"
  proof (cases "rcv_nxt q' = r0")
    case False
    have "r0 \<le> rcv_nxt q" using k by (fastforce simp: keeps_from_def)
    then have gt: "r0 < rcv_nxt q'" using A(5) False by linarith
    then obtain x where x: "x \<in> set (ivs q')" "fst x \<le> r0" "r0 < snd x" using fill by (fastforce simp: bytes_mem)
    then have "fst x = r0" using low[OF x(1)] by linarith
    moreover have "snd x = rcv_nxt q'" using A(2) x gt low[OF x(1)] unfolding rcv_ok_def by force
    ultimately show ?thesis using x(1) by blast
  qed simp
  then have "keeps_from r0 q'" using A(1,2) ne low by (simp add: keeps_from_def)
  then show ?thesis using r(1) A(4) by blast
qed

lemma rq_adds_keeps:
  assumes "keeps_from r0 q" and "\<forall>(s, e, f)\<in>set segs. r0 \<le> s \<and> s < e"
  shows "\<exists>q'. rq_adds segs q = Inr q' \<and> keeps_from r0 q' \<and> bytes (ivs q') = bytes (ivs q) \<union> union_of segs"
  using assms
proof (induction segs arbitrary: q)
  case (Cons x segs)
  obtain s e f where x: "x = (s, e, f)" by (metis prod_cases3)
  have "r0 \<le> s" "s < e" using Cons.prems(2) x by auto
  from keeps_add[OF Cons.prems(1) this, of f 0]
  obtain f' q1 where q1: "rq_add s e f 0 q = Inr (f', q1)" "keeps_from r0 q1" "bytes (ivs q1) = bytes (ivs q) \<union> {s..<e}" by blast
  obtain q' where "rq_adds segs q1 = Inr q'" "keeps_from r0 q'" "bytes (ivs q') = bytes (ivs q1) \<union> union_of segs"
    using Cons.IH[OF q1(2)] Cons.prems(2) by auto
  moreover have "union_of (x # segs) = {s..<e} \<union> union_of segs" using x by (auto simp: union_of_def)
  ultimately show ?case using q1 x by (auto simp: bind_r_def)
qed (simp add: union_of_def)

lemma keeps_new: "keeps_from r0 (new_ReassemblyQueue r0)"
  by (simp add: keeps_from_def new_ReassemblyQueue_def rq_sound_def ivs_def ids_ok_def only_last_empty_def rcv_ok_def)

lemma keeps_next:
  assumes "keeps_from r0 q"
  shows "r0 \<le> rcv_nxt q" and "{r0..<rcv_nxt q} \<subseteq> bytes (ivs q)" and "rcv_nxt q \<notin> bytes (ivs q)"
proof -
  show "r0 \<le> rcv_nxt q" "{r0..<rcv_nxt q} \<subseteq> bytes (ivs q)" using assms by (fastforce simp: keeps_from_def bytes_mem)+
  show "rcv_nxt q \<notin> bytes (ivs q)" using assms by (fastforce simp: keeps_from_def rcv_ok_def bytes_mem)
qed

text \<open>C11: Whatever the order in which segments arrive, and however they overlap: the queue holds exactly
  the sequence numbers of the segments, \<^verbatim>\<open>total_\<close> counts them, \<^verbatim>\<open>rcv_nxt_\<close> is the first one that
  is missing, and any other arrival of segments with the same sequence numbers leads to the
  same blocks.\<close>

theorem rq_any_order:
  assumes "\<forall>(s, e, f)\<in>set segs. r0 \<le> s \<and> s < e" and "\<forall>(s, e, f)\<in>set segs'. r0 \<le> s \<and> s < e"
  shows "\<exists>q. rq_adds segs (new_ReassemblyQueue r0) = Inr q \<and> bytes (ivs q) = union_of segs \<and> rq_total q = int (card (union_of segs)) \<and>
    r0 \<le> rcv_nxt q \<and> {r0..<rcv_nxt q} \<subseteq> union_of segs \<and> rcv_nxt q \<notin> union_of segs \<and>
    (union_of segs' = union_of segs \<longrightarrow> (\<exists>q'. rq_adds segs' (new_ReassemblyQueue r0) = Inr q' \<and> ivs q' = ivs q \<and> rcv_nxt q' = rcv_nxt q))"
proof -
  have b0: "bytes (ivs (new_ReassemblyQueue r0)) = {}" by (simp add: new_ReassemblyQueue_def ivs_def)
  obtain q where q: "rq_adds segs (new_ReassemblyQueue r0) = Inr q" "keeps_from r0 q" "bytes (ivs q) = union_of segs"
    using rq_adds_keeps[OF keeps_new assms(1)] b0 by auto
  obtain q' where q': "rq_adds segs' (new_ReassemblyQueue r0) = Inr q'" "keeps_from r0 q'" "bytes (ivs q') = union_of segs'"
    using rq_adds_keeps[OF keeps_new assms(2)] b0 by auto
  have "ivs q' = ivs q" if eq: "union_of segs' = union_of segs"
    by (rule bytes_unique) (use q(2,3) q'(2,3) eq in \<open>auto simp: keeps_from_def rq_sound_def\<close>)
  moreover have "rcv_nxt q' = rcv_nxt q" if eq: "union_of segs' = union_of segs"
  proof -
    have "\<not> rcv_nxt q < rcv_nxt q'" using keeps_next[OF q(2)] keeps_next[OF q'(2)] q(3) q'(3) eq by auto
    moreover have "\<not> rcv_nxt q' < rcv_nxt q" using keeps_next[OF q(2)] keeps_next[OF q'(2)] q(3) q'(3) eq by auto
    ultimately show ?thesis by linarith
  qed
  moreover have "rq_total q = int (card (union_of segs))" using q(2,3) card_bytes[of "ivs q"] by (simp add: keeps_from_def rq_sound_def)
  ultimately show ?thesis using q q'(1) keeps_next[OF q(2)] by auto
qed

text \<open>C30: On a queue whose blocks, totals and \<^verbatim>\<open>rcv_nxt_\<close> are sound, adding a segment that is not empty, or is empty
  and at the end of all blocks, and that does not reach behind an empty block, does not fail and is
  the textbook insertion of an interval into a sorted list that merges what
  touches, for the blocks as the stack and the totals see them; soundness is kept, and no block holds \<^verbatim>\<open>rcv_nxt_\<close>.  It
  moves forward over what is now contiguous, except for a stale segment, which ends below it and does not touch
  the block that ends there: this moves \<^verbatim>\<open>rcv_nxt_\<close> back to its end.\<close>

theorem rq_add_is_merge:
  assumes "rq_sound q" and "rcv_ok q" and "may_add s e (ivs q)"
  shows "\<exists>f q'. rq_add s e tf fl q = Inr (f, q') \<and> ivs q' = merge_in s e (ivs q) \<and> rq_sound q' \<and> rcv_ok q' \<and> rcv_nxt q' \<notin> bytes (ivs q') \<and>
    (if not_stale e q then rcv_nxt q \<le> rcv_nxt q' \<and> {rcv_nxt q..<rcv_nxt q'} \<subseteq> bytes (ivs q') else rcv_nxt q' = e \<and> e < rcv_nxt q)"
proof -
  obtain f q' where r: "rq_add s e tf fl q = Inr (f, q')" "added s e q (Inr (f, q'))"
    using rq_add_added[OF assms, of tf fl] unfolding added_def by auto
  show ?thesis
  proof (cases "not_stale e q")
    case True
    then show ?thesis using r(1) added_sound[OF assms True r(2)] by (intro exI[of _ f] exI[of _ q']) simp
  next
    case False
    then show ?thesis using r(1) added_keeps(1-3,5)[OF assms r(2)] added_stale[OF assms False r(2)] by (intro exI[of _ f] exI[of _ q']) simp
  qed
qed

subsection \<open>Where the code goes wrong\<close>

text \<open>When a segment fills the hole between two blocks, the flags of the block on the right are
  lost: the merged block, and the flags that \<^verbatim>\<open>add\<close> returns, have those of the left block and of
  the segment only.  A FIN that arrived out of order is forgotten this way.\<close>

theorem rq_hole_loses_flags:
  assumes "rq_fifo q = [p, r]" and "endseq p = s" and "startseq r = e" and "startseq p < s" and "s < e" and "e < endseq r"
  shows "\<exists>q' b. rq_add s e tf fl q = Inr (pflags p OR tf, q') \<and> rq_fifo q' = [b] \<and> startseq b = startseq p \<and> endseq b = endseq r \<and>
    pflags b = pflags p OR tf"
proof -
  have k: "search_before s [p, r] = 1" "search_after e [p, r] = 1" using assms by (simp_all add: search_before_def search_after_def)
  have r0: "\<not> s \<ge> endseq r" "\<not> e \<le> startseq p" using assms by simp_all
  have kc: "kill_covered 1 s e 0 False tf 1 q = Covered False tf 1 q" using assms by (simp add: Let_def)
  have run: "add_again s e tf fl 1 q = add_merged 1 1 s e tf fl 1 q"
    using r0 kc by (subst add_again.simps) (simp add: assms(1) k Let_def)
  have "merge_left 1 s tf 1 q = Inr (False, 1, s, 1, q)" "merge_right 1 e tf False q = Inr (False, 1, e, q)"
    using assms by (simp_all add: merge_left_def merge_right_def)
  then have "add_merged 1 1 s e tf fl 1 q = endfast 1 1 True s e tf fl 1 q" using assms by (simp add: add_merged_def)
  then have "rq_add s e tf fl q = endfast 1 1 True s e tf fl 1 q" using assms run by (simp add: rq_add_def)
  then show ?thesis
    using assms by (simp add: endfast_def coalesce_def Let_def rq_remove_def rq_upd_def advance_def)
qed

text \<open>An empty block at \<^verbatim>\<open>s\<close> that both the segment and the only other block touch: the loop frees
  both blocks while its variable for the block before the segment still points to the first.\<close>

theorem rq_use_after_free:
  assumes "rq_fifo q = [p, r]" and "startseq p = s" and "endseq p = s" and "s < startseq r" and "startseq r < endseq r" and "endseq r \<le> e"
  shows "rq_add s e tf fl q = Inl UseAfterFree"
proof -
  have k: "search_before s [p, r] = 1" "search_after e [p, r] = 2" using assms by (simp_all add: search_before_def search_after_def)
  have kc: "kill_covered 2 s e 0 False tf 1 q = Covered True (tf OR pflags p OR pflags r) (1 + seg_cnt p + seg_cnt r)
      (rq_remove 0 (rq_remove 0 (q\<lparr>rq_total := rq_total q\<rparr>)\<lparr>rq_total := rq_total q - seg_len r\<rparr>))"
    using assms by (auto simp: numeral_2_eq_2 rq_remove_def seg_len_def or.assoc)
  then show ?thesis using assms k by (subst rq_add_def, subst add_again.simps) (simp add: Let_def rq_remove_def)
qed

text \<open>A late copy of data that the receiver took out of the queue moves \<^verbatim>\<open>rcv_nxt_\<close> back.\<close>

theorem rq_stale_moves_back:
  assumes "rq_fifo q = []" and "rq_lifo q = []" and "s < e" and "e < rcv_nxt q"
  shows "\<exists>q'. rq_add s e tf fl q = Inr (tf, q') \<and> rcv_nxt q' = e \<and> rcv_nxt q' < rcv_nxt q"
  using assms by (simp add: rq_add_def Let_def)

subsection \<open>Loss estimates\<close>

lemma lost_loop_stays:
  assumes "seq \<le> startseq p"
  shows "lost_loop seq thr dup p b n = Some True"
proof (induction "nat (dup - b)" arbitrary: b n rule: less_induct)
  case less
  show ?case
  proof (cases "b + 1 \<ge> dup \<or> n + seg_len p > thr")
    case True
    then show ?thesis using assms by (subst lost_loop.simps) (simp add: Let_def)
  next
    case False
    then have "lost_loop seq thr dup p (b + 1) (n + seg_len p) = Some True" by (intro less) linarith
    then show ?thesis using assms False by (subst lost_loop.simps) (simp add: Let_def)
  qed
qed

text \<open>\<^verbatim>\<open>IsLost\<close> always returns, but since its loop does not move on it looks at the last block
  only: everything before that block counts as lost after a single block, whatever the threshold
  for duplicates.\<close>

theorem rq_IsLost_last_only:
  assumes "rq_fifo q \<noteq> []"
  shows "IsLost seq mss dup q = Some (let p = last (rq_fifo q) in
    seq \<le> startseq p \<or> dup \<le> 1 \<or> (dup - 1) * mss < max 0 (endseq p - seq))"
proof (cases "seq \<le> startseq (last (rq_fifo q))")
  case True
  then show ?thesis using assms lost_loop_stays[OF True] by (simp add: IsLost_def)
next
  case False
  then show ?thesis using assms by (subst IsLost_def, subst lost_loop.simps) (auto simp: Let_def max_def)
qed

lemma fack_loop_ok:
  assumes "apart (List.map iv ps)" and "\<forall>x\<in>set (List.map iv ps). l \<le> fst x"
    and "if ps = [] then stop \<le> l else l < stop \<and> stop \<le> endseq (last ps)"
  shows "fack_loop stop loss l ps = loss + int (card ({l..<stop} - bytes (List.map iv ps)))"
  using assms
proof (induction ps arbitrary: loss l)
  case (Cons p ps)
  note p = Cons.prems
  have le: "startseq p \<le> endseq p" "l \<le> startseq p" using p(1,2) by simp_all
  have beh: "endseq p < b" if "b \<in> bytes (List.map iv ps)" for b
    using that p(1) unfolding list.map apart_simps bytes_mem by (metis iv_simps(2) less_le_trans)
  consider "stop \<le> endseq p" "startseq p \<le> stop" | "stop \<le> endseq p" "stop < startseq p" | "endseq p < stop" by linarith
  then show ?case
  proof cases
    case 1
    have "{l..<stop} - bytes (List.map iv (p # ps)) = {l..<startseq p}"
      using 1 le by (auto dest: beh)
    then show ?thesis using 1 le by simp
  next
    case 2
    have "{l..<stop} - bytes (List.map iv (p # ps)) = {l..<stop}"
      using 2 le by (auto dest: beh)
    then show ?thesis using 2 p(3) by simp
  next
    case 3
    then have ne: "ps \<noteq> []" using p(3) by auto
    have "fack_loop stop (loss + (startseq p - l)) (endseq p) ps = loss + (startseq p - l) + int (card ({endseq p..<stop} - bytes (List.map iv ps)))"
      by (rule Cons.IH) (use p beh ne 3 in \<open>auto intro: less_imp_le\<close>)
    moreover have "{l..<stop} - bytes (List.map iv (p # ps)) = {l..<startseq p} \<union> ({endseq p..<stop} - bytes (List.map iv ps))"
      using 3 le by (auto dest: beh)
    moreover have "card ({l..<startseq p} \<union> ({endseq p..<stop} - bytes (List.map iv ps))) =
        card {l..<startseq p} + card ({endseq p..<stop} - bytes (List.map iv ps))"
      by (rule card_Un_disjoint) (use le in auto)
    ultimately show ?thesis using 3 le by simp
  qed
qed simp

text \<open>The estimate of the loss by forward acknowledgement counts the sequence numbers that are
  missing between the highest acknowledged one and the end of the blocks less the reordering
  threshold, if the first block starts before that point; if it does not, the estimate is 0
  although all of them are missing.\<close>

theorem rq_FACK_loss:
  assumes "rq_sound q" and "rq_fifo q \<noteq> []" and "ack \<le> minseq q" and "0 \<le> thresh * mss"
  shows "let stop = maxseq q - thresh * mss; missing = {ack..<stop} - bytes (ivs q) in
    (minseq q \<le> stop \<longrightarrow> getFACKLossSeqSum mss thresh ack q = int (card missing)) \<and>
    (stop < minseq q \<longrightarrow> getFACKLossSeqSum mss thresh ack q = 0 \<and> missing = {ack..<stop})"
proof -
  obtain p ps where f: "rq_fifo q = p # ps" using assms(2) by (cases "rq_fifo q") auto
  have ap: "apart (List.map iv (p # ps))" using assms(1) f by (simp add: rq_sound_def ivs_def)
  then have sp: "startseq p \<le> endseq p" "apart (List.map iv ps)" "\<forall>x\<in>set (List.map iv ps). endseq p < fst x"
    unfolding list.map apart_simps by auto
  let ?stop = "maxseq q - thresh * mss"
  have mx: "?stop \<le> endseq (last (p # ps))" "minseq q = startseq p" using f assms(4) by (simp_all add: maxseq_def minseq_def)
  have miss: "{ack..<?stop} - bytes (ivs q) = {ack..<?stop}" if "?stop < startseq p"
    using that sp by (auto simp: bytes_mem ivs_def f) force+
  have full: "getFACKLossSeqSum mss thresh ack q = int (card ({ack..<?stop} - bytes (ivs q)))" if le: "startseq p \<le> ?stop" and lt: "ack < ?stop"
  proof -
    have "getFACKLossSeqSum mss thresh ack q = fack_loop ?stop 0 ack (p # ps)"
      using f le lt by (simp add: getFACKLossSeqSum_def Let_def)
    also have "\<dots> = 0 + int (card ({ack..<?stop} - bytes (List.map iv (p # ps))))"
      by (rule fack_loop_ok) (use ap sp assms(3) mx lt in auto)
    finally show ?thesis by (simp add: ivs_def f)
  qed
  have none: "getFACKLossSeqSum mss thresh ack q = 0" if "?stop \<le> ack" using that by (simp add: getFACKLossSeqSum_def)
  have zero: "getFACKLossSeqSum mss thresh ack q = 0" if "?stop < startseq p" using that f sp by (simp add: getFACKLossSeqSum_def Let_def)
  show ?thesis
  proof (cases "?stop \<le> ack")
    case True
    then show ?thesis using none[OF True] miss mx(2) by (simp add: Let_def)
  next
    case False
    then show ?thesis using full zero miss mx(2) by (simp add: Let_def)
  qed
qed

subsection \<open>Selective acknowledgement\<close>

lemma block_of_top:
  assumes "ids_ok q" and "i \<in> set (rq_lifo q)"
  obtains s where "block_of q i = Some s" "s \<in> set (rq_fifo q)" "seg_id s = i"
proof -
  obtain s where "s \<in> set (rq_fifo q)" "seg_id s = i" using assms unfolding ids_ok_def by auto
  then obtain t where "block_of q i = Some t" by (cases "block_of q i") (auto simp: block_of_def find_None_iff)
  then show thesis using that unfolding block_of_def find_Some_iff by (metis nth_mem)
qed

lemma distinct_ivs:
  assumes "apart (ivs q)"
  shows "inj_on iv (set (rq_fifo q))"
proof -
  have "distinct xs" if "apart xs" for xs :: "interval list" using that by (induction xs) force+
  from this[OF assms] show ?thesis by (simp add: ivs_def distinct_map)
qed

lemma map_filter_total: "\<forall>x\<in>set xs. f x \<noteq> None \<Longrightarrow> List.map_filter f xs = List.map (\<lambda>x. the (f x)) xs"
  by (induction xs) (auto simp: map_filter_simps)

text \<open>The blocks of a selective acknowledgement are blocks of the queue, none of them twice, and as
  many as fit.\<close>

theorem rq_gensack_blocks:
  assumes "rq_sound q"
  shows "set (gensack n q) \<subseteq> set (ivs q) \<and> distinct (gensack n q) \<and> length (gensack n q) = min n (length (rq_fifo q))"
proof -
  have ids: "ids_ok q" and inj: "inj_on iv (set (rq_fifo q))" using assms distinct_ivs by (auto simp: rq_sound_def)
  let ?b = "\<lambda>i. the (block_of q i)"
  have b: "block_of q i \<noteq> None" "?b i \<in> set (rq_fifo q)" "seg_id (?b i) = i" if "i \<in> set (rq_lifo q)" for i
    using block_of_top[OF ids that] by (metis option.simps(3), metis option.sel, metis option.sel)
  let ?t = "take n (rq_lifo q)"
  have g: "gensack n q = List.map (\<lambda>i. iv (?b i)) ?t"
    unfolding gensack_def by (subst map_filter_total) (use b(1) set_take_subset in \<open>fastforce simp: iv_def\<close>)+
  have "length (rq_lifo q) = length (rq_fifo q)"
    using ids unfolding ids_ok_def by (metis distinct_card length_map set_map)
  moreover have "inj_on (\<lambda>i. iv (?b i)) (set ?t)"
  proof (rule inj_onI)
    fix i j assume "i \<in> set ?t" "j \<in> set ?t" and eq: "iv (?b i) = iv (?b j)"
    then have ij: "i \<in> set (rq_lifo q)" "j \<in> set (rq_lifo q)" by (auto dest: in_set_takeD)
    then have "?b i = ?b j" using inj_onD[OF inj eq] b(2) by blast
    then show "i = j" using b(3) ij by metis
  qed
  moreover have "distinct ?t" using ids by (simp add: ids_ok_def)
  moreover have "set (gensack n q) \<subseteq> set (ivs q)" unfolding g ivs_def using b(2) by (auto dest!: in_set_takeD)
  ultimately show ?thesis by (simp add: g distinct_map min.commute)
qed

subsection \<open>Concrete queues\<close>

definition two_blocks :: reass_queue where
  "two_blocks = \<lparr> rq_fifo = [\<lparr> startseq = 10, endseq = 20, pflags = 16, rqflags = 0, seg_cnt = 1, seg_id = 0 \<rparr>,
      \<lparr> startseq = 30, endseq = 40, pflags = 17, rqflags = 0, seg_cnt = 1, seg_id = 1 \<rparr>],
     rq_lifo = [1, 0], rq_total = 20, rcv_nxt = 5, rq_fresh = 2 \<rparr>"

lemma two_blocks_sound: "rq_sound two_blocks" "rcv_ok two_blocks" "may_add 15 35 (ivs two_blocks)" "not_stale 35 two_blocks"
  by (auto simp: two_blocks_def rq_sound_def rcv_ok_def may_add_def not_stale_def ivs_def only_last_empty_def ids_ok_def iv_def)

theorem rq_any_order_witness:
  "\<exists>q. rq_adds [(30, 40, 17), (10, 20, 16), (15, 32, 16)] (new_ReassemblyQueue 10) = Inr q \<and>
     rq_total q = int (card (union_of [(30, 40, 17), (10, 20, 16), (15, 32, 16)]))"
proof -
  have "\<forall>(s, e, f)\<in>set [(30::int, 40::int, 17::int), (10, 20, 16), (15, 32, 16)]. 10 \<le> s \<and> s < e"
    "\<forall>(s, e, f)\<in>set [(10::int, 40::int, 16::int)]. 10 \<le> s \<and> s < e" by simp_all
  from rq_any_order[OF this] show ?thesis by blast
qed

theorem rq_add_is_merge_witness:
  "\<exists>f q'. rq_add 15 35 16 0 two_blocks = Inr (f, q') \<and> ivs q' = merge_in 15 35 (ivs two_blocks)"
  using rq_add_is_merge[OF two_blocks_sound(1-3), of 16 0] by blast

theorem rq_hole_loses_flags_witness:
  "\<exists>q' b. rq_add 20 30 16 0 two_blocks = Inr (16, q') \<and> rq_fifo q' = [b] \<and> startseq b = 10 \<and> endseq b = 40 \<and>
    pflags b = 16 \<and> pflags (rq_fifo two_blocks ! 1) = 17"
proof -
  have "\<exists>q' b. rq_add 20 30 16 0 two_blocks = Inr (pflags (rq_fifo two_blocks ! 0) OR 16, q') \<and> rq_fifo q' = [b] \<and>
      startseq b = startseq (rq_fifo two_blocks ! 0) \<and> endseq b = endseq (rq_fifo two_blocks ! 1) \<and> pflags b = pflags (rq_fifo two_blocks ! 0) OR 16"
    by (rule rq_hole_loses_flags) (simp_all add: two_blocks_def)
  then show ?thesis by (simp add: two_blocks_def)
qed

theorem rq_FACK_loss_witness: "getFACKLossSeqSum 5 3 0 two_blocks = int (card ({0..<25} - bytes (ivs two_blocks)))"
  using rq_FACK_loss[of two_blocks 0 3 5] two_blocks_sound(1) by (simp add: two_blocks_def maxseq_def minseq_def)

theorem rq_IsLost_last_only_witness: "IsLost 10 10 3 two_blocks = Some True"
  using rq_IsLost_last_only[of two_blocks 10 10 3] by (simp add: two_blocks_def)

theorem rq_gensack_blocks_witness: "length (gensack 1 two_blocks) = 1"
  using rq_gensack_blocks[OF two_blocks_sound(1), of 1] by (simp add: two_blocks_def)

theorem rq_nexthole_ok_witness: "hole_at 15 (ivs two_blocks) (nexthole 15 two_blocks) \<and> nexthole 15 two_blocks = (20, 1, 10)"
proof
  show "hole_at 15 (ivs two_blocks) (nexthole 15 two_blocks)" by (rule rq_nexthole_ok) (rule two_blocks_sound(1))
  show "nexthole 15 two_blocks = (20, 1, 10)" by code_simp
qed

theorem rq_clearto_ok_witness: "bytes (ivs (snd (clearto 15 two_blocks))) = bytes (ivs two_blocks) \<inter> {15..}"
  using rq_clearto_ok[OF two_blocks_sound(1), of 15] by blast

text \<open>A second segment that continues the block at the bottom of the stack does not bring it to the top:
  the acknowledgement reports the other block first.\<close>

lemma gensack_not_newest:
  "bind_r (rq_adds [(10, 20, 16), (30, 40, 16), (20, 25, 16)] (new_ReassemblyQueue 0)) (\<lambda>q. Inr (gensack 2 q)) = Inr [(30, 40), (10, 25)]"
  by code_simp

text \<open>Three blocks of ten with holes of ten between them: the holes below the threshold are counted
  together with the block between them.\<close>

lemma loss_sum_overcounts:
  "bind_r (rq_adds [(10, 20, 16), (30, 40, 16), (50, 60, 16)] (new_ReassemblyQueue 0)) (\<lambda>q. Inr (getLossSeqSum 10 2 q)) = Inr 40"
  by code_simp

text \<open>An empty block with data behind it, and a segment over both.\<close>

lemma use_after_free_reachable:
  "rq_adds [(10, 10, 1), (20, 30, 16), (10, 30, 16)] (new_ReassemblyQueue 0) = Inl UseAfterFree"
  by code_simp

end
