(* ===== verification/Timer.thy ===== *)
theory Timer
  imports Prelude
begin

text \<open>
  A timer (\<^verbatim>\<open>common/timer-handler.cc\<close>): its status and the time of its event.  The event itself
  is in the scheduler.
\<close>

datatype timer_status = TIMER_IDLE | TIMER_PENDING | TIMER_HANDLING

record timer =
  t_status :: timer_status
  t_event :: "rat option"

definition timer_new :: timer where
  "timer_new = \<lparr> t_status = TIMER_IDLE, t_event = None \<rparr>"

definition timer_cancel :: "timer \<Rightarrow> timer result" where
  "timer_cancel tm = (if t_status tm \<noteq> TIMER_PENDING then Inl Abort else Inr (tm\<lparr>t_event := None, t_status := TIMER_IDLE\<rparr>))"

definition timer_resched :: "rat \<Rightarrow> rat \<Rightarrow> timer \<Rightarrow> timer" where
  "timer_resched now delay tm = tm\<lparr>t_event := Some (now + delay), t_status := TIMER_PENDING\<rparr>"

text \<open>\<^verbatim>\<open>handle\<close> when the event is due; \<^verbatim>\<open>expire\<close> is the action of the subclass on the object
  that holds the timer.\<close>

definition timer_handle :: "('s \<Rightarrow> timer) \<Rightarrow> ((timer \<Rightarrow> timer) \<Rightarrow> 's \<Rightarrow> 's) \<Rightarrow> ('s \<Rightarrow> ('o \<times> 's) result) \<Rightarrow> 's \<Rightarrow> ('o \<times> 's) result" where
  "timer_handle get upd expire s =
    (if t_status (get s) \<noteq> TIMER_PENDING then Inl Abort
     else bind_r (expire (upd (\<lambda>tm. tm\<lparr>t_event := None, t_status := TIMER_HANDLING\<rparr>) s)) (\<lambda>(out, s').
       Inr (out, if t_status (get s') = TIMER_HANDLING then upd (\<lambda>tm. tm\<lparr>t_status := TIMER_IDLE\<rparr>) s' else s')))"

end
