(* ===== verification/TcpSink.thy ===== *)
theory TcpSink
  imports Timer
begin

unbundle bit_operations_syntax

text \<open>
  The TCP receivers of the simulator (\<^verbatim>\<open>tcp/tcp-sink.cc\<close>): the window of packets seen
  (\<^verbatim>\<open>Acker\<close>), the selective acknowledgements (\<^verbatim>\<open>Sacker\<close>) and the agents that acknowledge every
  packet (\<^verbatim>\<open>TcpSink\<close>) or delay acknowledgements (\<^verbatim>\<open>DelAckSink\<close>).  Of a packet only the fields are
  modelled that a receiver reads or writes; the SACK area of the header is the list of its first
  \<^verbatim>\<open>sa_length_\<close> blocks.  Flags are integers that are tested for zero.  Packet numbers are
  unbounded; the size of the window is then never too large for an \<^verbatim>\<open>int\<close>.
\<close>

datatype qs_state = QS_DISABLE | QS_REQUEST | QS_RESPONSE

record tcp_pkt =
  tp_size :: int
  tp_fid :: int
  tp_ttl :: int
  tp_seqno :: int
  tp_ts :: rat
  tp_ts_echo :: rat
  tp_sack :: "(int \<times> int) list"
  tp_ect :: int
  tp_ce :: int
  tp_ecnecho :: int
  tp_cong_action :: int
  qs_flag :: qs_state
  qs_ttl :: int
  qs_rate :: int

definition alloc_ack :: "int \<Rightarrow> tcp_pkt" where
  "alloc_ack sz = \<lparr> tp_size = sz, tp_fid = 0, tp_ttl = 0, tp_seqno = 0, tp_ts = 0, tp_ts_echo = 0, tp_sack = [],
     tp_ect = 0, tp_ce = 0, tp_ecnecho = 0, tp_cong_action = 0, qs_flag = QS_DISABLE, qs_ttl = 0, qs_rate = 0 \<rparr>"

subsection \<open>The window of packets seen\<close>

definition MWS :: int where
  "MWS = 64"

record acker =
  a_next :: int
  a_maxseen :: int
  a_wndmask :: int
  a_ecn_unacked :: int
  a_seen :: "int list"
  a_ts_to_echo :: rat
  a_is_dup :: bool
  a_last_ack_sent :: int

definition new_Acker :: acker where
  "new_Acker = \<lparr> a_next = 0, a_maxseen = 0, a_wndmask = MWS - 1, a_ecn_unacked = 0, a_seen = replicate (nat MWS) 0,
     a_ts_to_echo = 0, a_is_dup = False, a_last_ack_sent = 0 \<rparr>"

definition acker_reset :: "acker \<Rightarrow> acker" where
  "acker_reset a = a\<lparr>a_next := 0, a_maxseen := 0, a_seen := replicate (nat (a_wndmask a + 1)) 0\<rparr>"

text \<open>\<^verbatim>\<open>seen_[i & wndmask_]\<close>; the mask is one less than the length of the array, which is a power of two.\<close>

definition seen_at :: "acker \<Rightarrow> int \<Rightarrow> int" where
  "seen_at a i = a_seen a ! nat (i AND a_wndmask a)"

definition set_seen :: "int \<Rightarrow> int \<Rightarrow> acker \<Rightarrow> acker" where
  "set_seen i v a = a\<lparr>a_seen := (a_seen a)[nat (i AND a_wndmask a) := v]\<rparr>"

definition resize_buffers :: "int \<Rightarrow> acker \<Rightarrow> acker" where
  "resize_buffers sz a =
    fold (\<lambda>i b. set_seen i (seen_at a i) b) [a_next a..a_maxseen a + 1]
      (a\<lparr>a_seen := replicate (nat sz) 0, a_wndmask := sz - 1\<rparr>)"

definition update_ts :: "int \<Rightarrow> rat \<Rightarrow> bool \<Rightarrow> acker \<Rightarrow> acker" where
  "update_ts seqno ts rfc1323 a =
    (if rfc1323 \<and> seqno = a_last_ack_sent a + 1 then a\<lparr>a_ts_to_echo := ts\<rparr>
     else if ts \<ge> a_ts_to_echo a \<and> seqno \<le> a_last_ack_sent a + 1 then a\<lparr>a_ts_to_echo := ts\<rparr>
     else a)"

lemma resize_wndmask [simp]: "a_wndmask (resize_buffers sz a) = sz - 1" "a_next (resize_buffers sz a) = a_next a"
proof -
  have "a_wndmask (fold (\<lambda>i b. set_seen i (seen_at a i) b) is b) = a_wndmask b \<and> a_next (fold (\<lambda>i b. set_seen i (seen_at a i) b) is b) = a_next b" for "is" b
    by (induction "is" arbitrary: b) (simp_all add: set_seen_def)
  then show "a_wndmask (resize_buffers sz a) = sz - 1" "a_next (resize_buffers sz a) = a_next a" by (simp_all add: resize_buffers_def)
qed

text \<open>The loop that enlarges the window.  With a mask below zero it would go on for ever.\<close>

function (sequential) grow_window :: "int \<Rightarrow> acker \<Rightarrow> acker result" where
  "grow_window seq a =
    (if seq + 1 - a_next a < a_wndmask a then Inr a
     else if a_wndmask a < 0 then Inl Loops
     else grow_window seq (resize_buffers ((a_wndmask a + 1) * 2) a))"
  by pat_completeness auto
termination
  by (relation "measure (\<lambda>(seq, a). nat (seq + 2 - a_next a - a_wndmask a))") auto

declare grow_window.simps [simp del]

text \<open>The loop over what can be delivered.  After as many rounds as the array has slots it has seen
  no empty slot and never will.\<close>

definition hdr_len :: int where
  "hdr_len = 40"

fun deliver :: "nat \<Rightarrow> acker \<Rightarrow> int \<Rightarrow> int \<Rightarrow> (int \<times> int) result" where
  "deliver 0 a n num = Inl Loops"
| "deliver (Suc m) a n num = (if seen_at a n \<noteq> 0 then deliver m a (n + 1) (num + (seen_at a n - hdr_len)) else Inr (n, num))"

text \<open>A packet above all others: the packets below it are not seen, nor is the next one.\<close>

definition note_new :: "int \<Rightarrow> int \<Rightarrow> acker \<Rightarrow> acker" where
  "note_new seq v a = set_seen (seq + 1) 0 (set_seen seq v ((fold (\<lambda>i. set_seen i 0) [a_maxseen a + 1..seq - 1] a)\<lparr>a_maxseen := seq\<rparr>))"

definition acker_update :: "int \<Rightarrow> int \<Rightarrow> acker \<Rightarrow> (int \<times> acker) result" where
  "acker_update seq numBytes a =
    bind_r (grow_window seq (a\<lparr>a_is_dup := False\<rparr>)) (\<lambda>a1.
      let new = (seq > a_maxseen a1);
          a2 = (if new then note_new seq numBytes a1 else a1);
          a3 = (if seq < a_next a2 then a2\<lparr>a_is_dup := True\<rparr> else a2)
      in if seq \<ge> a_next a3 \<and> seq \<le> a_maxseen a3 then
           (let a4 = (if seen_at a3 seq \<noteq> 0 \<and> \<not> new then a3\<lparr>a_is_dup := True\<rparr> else a3);
                a5 = set_seen seq numBytes a4
            in bind_r (deliver (Suc (length (a_seen a5))) a5 (a_next a5) 0) (\<lambda>(n, num). Inr (num, a5\<lparr>a_next := n\<rparr>)))
         else Inr (0, a3))"

subsection \<open>Selective acknowledgements\<close>

text \<open>The stack of the blocks reported last; unused entries are \<^verbatim>\<open>(-1, -1)\<close>.\<close>

record sack_stack =
  ss_size :: nat
  ss_cnt :: nat
  ss_entries :: "(int \<times> int) list"

definition new_SackStack :: "nat \<Rightarrow> sack_stack" where
  "new_SackStack sz = \<lparr> ss_size = sz, ss_cnt = 0, ss_entries = replicate sz (-1, -1) \<rparr>"

definition ss_reset :: "sack_stack \<Rightarrow> sack_stack" where
  "ss_reset s = s\<lparr>ss_entries := replicate (ss_cnt s) (-1, -1) @ drop (ss_cnt s) (ss_entries s), ss_cnt := 0\<rparr>"

text \<open>\<^verbatim>\<open>push\<close> and the assignments of the new top; \<^verbatim>\<open>pop\<close> of an entry.\<close>

definition ss_push :: "int \<times> int \<Rightarrow> sack_stack \<Rightarrow> sack_stack result" where
  "ss_push b s =
    (if ss_size s = 0 then Inl OutOfBounds
     else (let c = (if ss_cnt s \<ge> ss_size s then ss_size s - 1 else ss_cnt s)
           in Inr (s\<lparr>ss_entries := b # take c (ss_entries s) @ drop (Suc c) (ss_entries s), ss_cnt := Suc c\<rparr>)))"

definition ss_pop :: "nat \<Rightarrow> sack_stack \<Rightarrow> sack_stack" where
  "ss_pop n s =
    (if n < ss_cnt s
     then s\<lparr>ss_entries := take n (ss_entries s) @ drop (Suc n) (take (ss_cnt s) (ss_entries s)) @ (-1, -1) # drop (ss_cnt s) (ss_entries s)\<rparr>
     else s\<lparr>ss_entries := (ss_entries s)[n := (-1, -1)]\<rparr>)\<lparr>ss_cnt := ss_cnt s - 1\<rparr>"

text \<open>The blocks from the stack; an entry that the newest block covers is removed.\<close>

lemma ss_pop_measure:
  assumes "k < length (ss_entries s)" and "fst (ss_entries s ! k) \<ge> 0"
  shows "length (filter (\<lambda>b. fst b \<ge> (0::int)) (ss_entries (ss_pop k s))) < length (filter (\<lambda>b. fst b \<ge> 0) (ss_entries s))"
proof (cases "k < ss_cnt s")
  case True
  let ?e = "ss_entries s" and ?c = "ss_cnt s"
  have "take ?c ?e = take k ?e @ ?e ! k # drop (Suc k) (take ?c ?e)"
    using True assms(1) id_take_nth_drop[of k "take ?c ?e"] by simp
  then have "?e = (take k ?e @ ?e ! k # drop (Suc k) (take ?c ?e)) @ drop ?c ?e" by (metis append_take_drop_id)
  then have "length (filter (\<lambda>b. fst b \<ge> 0) ?e) = length (filter (\<lambda>b. fst b \<ge> 0) ((take k ?e @ ?e ! k # drop (Suc k) (take ?c ?e)) @ drop ?c ?e))" by (rule arg_cong)
  then show ?thesis using True assms(2) by (simp add: ss_pop_def)
next
  case False
  have "length (filter (\<lambda>b. fst b \<ge> 0) (ss_entries s)) = length (filter (\<lambda>b. fst b \<ge> 0) (take k (ss_entries s) @ ss_entries s ! k # drop (Suc k) (ss_entries s)))"
    using assms(1) id_take_nth_drop by metis
  then show ?thesis using False assms by (simp add: ss_pop_def upd_conv_take_nth_drop)
qed

function (sequential) old_blocks :: "nat \<Rightarrow> int \<Rightarrow> int \<times> int \<Rightarrow> nat \<Rightarrow> (int \<times> int) list \<Rightarrow> sack_stack \<Rightarrow> ((int \<times> int) list \<times> sack_stack) result" where
  "old_blocks nblocks maxseen recent k blocks s =
    (if length blocks \<ge> nblocks then Inr (blocks, s)
     else if k \<ge> length (ss_entries s) then Inl OutOfBounds
     else (let b = ss_entries s ! k in
       if fst b < 0 \<or> snd b < 0 \<or> snd b > maxseen + 1 then Inr (blocks, s)
       else if fst recent \<le> fst b \<and> snd recent \<ge> snd b then old_blocks nblocks maxseen recent k blocks (ss_pop k s)
       else old_blocks nblocks maxseen recent (Suc k) (blocks @ [b]) s))"
  by pat_completeness auto
termination
  by (relation "measure (\<lambda>(nblocks, maxseen, recent, k, blocks, s). (nblocks - length blocks) + length (filter (\<lambda>b. fst b \<ge> 0) (ss_entries s)))")
    (use ss_pop_measure in \<open>fastforce simp: not_le not_less\<close>)+

declare old_blocks.simps [simp del]

definition NSA :: nat where
  "NSA = 3"

text \<open>The newest block: \<^verbatim>\<open>old_seqno\<close> and the packets seen around it, from the first hole above it down
  to the next hole; the packets that are acknowledged count as one block from 0 on.\<close>

definition sack_right :: "acker \<Rightarrow> int \<Rightarrow> int" where
  "sack_right a old_seqno =
    (case List.find (\<lambda>i. seen_at a i = 0) [old_seqno..a_maxseen a] of Some i \<Rightarrow> i | None \<Rightarrow> a_maxseen a + 1)"

definition sack_left :: "acker \<Rightarrow> int \<Rightarrow> int \<Rightarrow> int" where
  "sack_left a old_seqno right =
    (if old_seqno \<le> a_next a - 1 then 0
     else (case List.find (\<lambda>i. seen_at a i = 0) (rev [a_next a..right - 1]) of Some i \<Rightarrow> i + 1 | None \<Rightarrow> -1))"

definition append_ack :: "acker \<Rightarrow> bool \<Rightarrow> nat \<Rightarrow> sack_stack \<Rightarrow> int \<Rightarrow> ((int \<times> int) list \<times> sack_stack) result" where
  "append_ack a dsacks nblocks sf old_seqno =
    (let seqno = a_next a - 1 in
     if old_seqno < 0 then Inr ([], sf)
     else if seqno \<ge> a_maxseen a \<and> ss_cnt sf \<noteq> 0 then Inr ([], ss_reset sf)
     else if (seqno < a_maxseen a \<or> a_is_dup a) \<and> 0 < nblocks then
       (let dblock = (if dsacks \<and> a_is_dup a then [(old_seqno, old_seqno + 1)] else []) in
        if length dblock \<ge> nblocks then Inr (dblock, sf)
        else (let right = sack_right a old_seqno; left = sack_left a old_seqno right;
                  first = (if old_seqno \<le> seqno then [] else [(left, right)])
              in bind_r (old_blocks nblocks (a_maxseen a) (left, right) 0 (dblock @ first) sf) (\<lambda>(blocks, sf1).
                 if old_seqno > seqno then bind_r (ss_push (left, right) sf1) (\<lambda>sf2. Inr (blocks, sf2))
                 else Inr (blocks, sf1))))
     else Inr ([], sf))"

subsection \<open>The agents\<close>

datatype sink_out = RecvBytes int | SendAck tcp_pkt

record tcp_sink =
  sk_acker :: acker
  sk_sacker :: "(nat \<times> sack_stack) option"
  sk_save :: "tcp_pkt option"
  sk_lastreset :: rat
  sk_bytes :: int
  sk_end2end_delay :: rat
  sk_size :: int
  ts_echo_bugfix :: bool
  ts_echo_rfc1323 :: bool
  generate_dsacks :: bool
  qs_enabled :: bool
  RFC2581_immediate_ack :: bool
  SYN_immediate_ack :: bool
  ecn_syn :: bool

record del_sink = tcp_sink +
  ds_interval :: rat
  delay_timer :: timer

text \<open>\<^verbatim>\<open>configure\<close>, also what happens when the number of blocks is set later.\<close>

definition sacker_configure :: "nat \<Rightarrow> 'a tcp_sink_scheme \<Rightarrow> 'a tcp_sink_scheme" where
  "sacker_configure nblocks s = (let n = min nblocks NSA in s\<lparr>sk_sacker := Some (n, new_SackStack n)\<rparr>)"

definition sink_reset :: "rat \<Rightarrow> 'a tcp_sink_scheme \<Rightarrow> 'a tcp_sink_scheme" where
  "sink_reset now s = s\<lparr>sk_acker := acker_reset (sk_acker s), sk_sacker := map_option (\<lambda>(n, sf). (n, ss_reset sf)) (sk_sacker s),
     sk_save := None, sk_lastreset := now\<rparr>"

definition save_flag :: "(tcp_pkt \<Rightarrow> bool) \<Rightarrow> 'a tcp_sink_scheme \<Rightarrow> bool" where
  "save_flag f s = (case sk_save s of None \<Rightarrow> False | Some p \<Rightarrow> f p)"

text \<open>The congestion report that is kept until the sender says that it has responded.\<close>

definition ack_ecn :: "tcp_pkt \<Rightarrow> 'a tcp_sink_scheme \<Rightarrow> int" where
  "ack_ecn opkt s =
    (let e1 = (if save_flag (\<lambda>p. tp_cong_action p \<noteq> 0) s \<or> tp_cong_action opkt \<noteq> 0 then 0 else a_ecn_unacked (sk_acker s))
     in if save_flag (\<lambda>p. tp_ect p \<noteq> 0 \<and> tp_ce p \<noteq> 0) s \<or> tp_ect opkt \<noteq> 0 \<and> tp_ce opkt \<noteq> 0 then 1 else e1)"

definition sink_ack :: "rat \<Rightarrow> tcp_pkt \<Rightarrow> 'a tcp_sink_scheme \<Rightarrow> (tcp_pkt \<times> 'a tcp_sink_scheme) result" where
  "sink_ack now opkt s =
    (let npkt = alloc_ack (sk_size s);
         p1 = (if qs_enabled s then
             (if tp_seqno opkt = 0 \<and> qs_flag opkt = QS_REQUEST
              then npkt\<lparr>qs_flag := QS_RESPONSE, qs_ttl := (tp_ttl opkt - qs_ttl opkt) smod 256, qs_rate := qs_rate opkt\<rparr>
              else npkt\<lparr>qs_flag := QS_DISABLE\<rparr>)
           else npkt);
         seqno = a_next (sk_acker s) - 1;
         p2 = p1\<lparr>tp_seqno := seqno, tp_ts := now, tp_ts_echo := (if ts_echo_bugfix s then a_ts_to_echo (sk_acker s) else tp_ts opkt),
           tp_fid := tp_fid opkt\<rparr>;
         e = ack_ecn opkt s;
         p3 = (if save_flag (\<lambda>p. tp_ect p \<noteq> 0) s \<or> tp_ect opkt \<noteq> 0 then p2\<lparr>tp_ecnecho := e\<rparr> else p2);
         p4 = (if tp_ect opkt = 0 \<and> tp_ecnecho opkt \<noteq> 0 \<or> save_flag (\<lambda>p. tp_ect p = 0 \<and> tp_ecnecho p \<noteq> 0) s
           then (if ecn_syn s then p3\<lparr>tp_ecnecho := 1, tp_ect := 1\<rparr> else p3\<lparr>tp_ecnecho := 1\<rparr>) else p3)
     in bind_r (case sk_sacker s of None \<Rightarrow> Inr ([], None)
          | Some (n, sf) \<Rightarrow> bind_r (append_ack (sk_acker s) (generate_dsacks s) n sf (tp_seqno opkt)) (\<lambda>(bs, sf'). Inr (bs, Some (n, sf')))) (\<lambda>(blocks, sk).
        Inr (p4\<lparr>tp_sack := blocks, tp_size := tp_size p4 + int (length blocks) * 8\<rparr>,
          s\<lparr>sk_acker := (sk_acker s)\<lparr>a_ecn_unacked := e, a_last_ack_sent := seqno\<rparr>, sk_sacker := sk\<rparr>)))"

text \<open>The receiver of both agents up to the acknowledgement; a packet from before the last reset is dropped.\<close>

definition sink_update :: "tcp_pkt \<Rightarrow> 'a tcp_sink_scheme \<Rightarrow> (int \<times> 'a tcp_sink_scheme) result" where
  "sink_update pkt s =
    bind_r (acker_update (tp_seqno pkt) (tp_size pkt) (update_ts (tp_seqno pkt) (tp_ts pkt) (ts_echo_rfc1323 s) (sk_acker s))) (\<lambda>(num, a).
      Inr (num, s\<lparr>sk_acker := a\<rparr>))"

definition sink_recv :: "rat \<Rightarrow> tcp_pkt \<Rightarrow> 'a tcp_sink_scheme \<Rightarrow> (sink_out list \<times> 'a tcp_sink_scheme) result" where
  "sink_recv now pkt s =
    (if tp_ts pkt < sk_lastreset s then Inr ([], s)
     else bind_r (sink_update pkt s) (\<lambda>(num, s1).
       if num < 0 then Inl Exit
       else (let s2 = s1\<lparr>sk_end2end_delay := now - tp_ts pkt, sk_bytes := sk_bytes s1 + (if num > 0 then num else 0)\<rparr>
             in bind_r (sink_ack now pkt s2) (\<lambda>(ack, s3). Inr ((if num > 0 then [RecvBytes num] else []) @ [SendAck ack], s3)))))"

definition del_sink_reset :: "rat \<Rightarrow> del_sink \<Rightarrow> del_sink result" where
  "del_sink_reset now s =
    bind_r (if t_status (delay_timer s) = TIMER_PENDING then timer_cancel (delay_timer s) else Inr (delay_timer s)) (\<lambda>tm.
      Inr (sink_reset now (s\<lparr>delay_timer := tm\<rparr>)))"

definition delays_ack :: "tcp_pkt \<Rightarrow> del_sink \<Rightarrow> bool" where
  "delays_ack pkt s \<longleftrightarrow> t_status (delay_timer s) \<noteq> TIMER_PENDING \<and> tp_seqno pkt = a_next (sk_acker s) - 1 \<and>
     \<not> (RFC2581_immediate_ack s \<and> tp_seqno pkt < a_maxseen (sk_acker s)) \<and> \<not> (SYN_immediate_ack s \<and> tp_seqno pkt = 0)"

definition del_sink_recv :: "rat \<Rightarrow> tcp_pkt \<Rightarrow> del_sink \<Rightarrow> (sink_out list \<times> del_sink) result" where
  "del_sink_recv now pkt s =
    (if tp_ts pkt < sk_lastreset s then Inr ([], s)
     else bind_r (sink_update pkt s) (\<lambda>(num, s1).
       let s2 = s1\<lparr>sk_bytes := sk_bytes s1 + num\<rparr>; out = (if num \<noteq> 0 then [RecvBytes num] else []) in
       if delays_ack pkt s2
       then Inr (out, s2\<lparr>sk_save := Some pkt, delay_timer := timer_resched now (ds_interval s2) (delay_timer s2)\<rparr>)
       else bind_r (if t_status (delay_timer s2) = TIMER_PENDING then timer_cancel (delay_timer s2) else Inr (delay_timer s2)) (\<lambda>tm.
         bind_r (sink_ack now pkt (s2\<lparr>delay_timer := tm\<rparr>)) (\<lambda>(ack, s3). Inr (out @ [SendAck ack], s3\<lparr>sk_save := None\<rparr>)))))"

definition del_sink_timeout :: "rat \<Rightarrow> del_sink \<Rightarrow> (sink_out list \<times> del_sink) result" where
  "del_sink_timeout now s =
    (case sk_save s of None \<Rightarrow> Inr ([], s)
     | Some pkt \<Rightarrow> bind_r (sink_ack now pkt s) (\<lambda>(ack, s1). Inr ([SendAck ack], s1\<lparr>sk_save := None\<rparr>)))"

definition DelayTimer_handle :: "rat \<Rightarrow> del_sink \<Rightarrow> (sink_out list \<times> del_sink) result" where
  "DelayTimer_handle now s = timer_handle delay_timer (\<lambda>f s. s\<lparr>delay_timer := f (delay_timer s)\<rparr>) (del_sink_timeout now) s"

end
