(* ===== verification/TcpSinkWindow.thy ===== *)
theory TcpSinkWindow
  imports TcpSink
begin

unbundle bit_operations_syntax

text \<open>
  The window of a TCP receiver: a ring of slots that grows, as a set of packets.  A packet has the
  same size whenever it is sent.
\<close>

subsection \<open>The ring\<close>

definition seen_shape :: "nat \<Rightarrow> acker \<Rightarrow> bool" where
  "seen_shape k a \<longleftrightarrow> a_wndmask a = 2 ^ k - 1 \<and> length (a_seen a) = 2 ^ k"

lemma and_wndmask: "i AND (2 ^ k - 1) = i mod 2 ^ k" for i :: int
  using take_bit_eq_mask[of k i] by (simp add: take_bit_eq_mod mask_eq_exp_minus_1)

lemma slot_range: "nat (i mod 2 ^ k) < 2 ^ k" for i :: int
  by (simp add: nat_less_iff)

lemma slot_eq: "\<bar>i - j\<bar> < m \<Longrightarrow> i mod m = j mod m \<longleftrightarrow> i = j" for i :: int
  by (metis abs_of_nonneg abs_ge_zero dvd_imp_le_int mod_eq_dvd_iff not_less abs_0_eq eq_iff_diff_eq_0 abs_of_pos order_le_less_trans)

lemma seen_at_shape: "seen_shape k a \<Longrightarrow> seen_at a i = a_seen a ! nat (i mod 2 ^ k)"
  by (simp add: seen_at_def seen_shape_def and_wndmask)

lemma set_seen_shape [simp]: "seen_shape k (set_seen i v a) = seen_shape k a"
  by (simp add: seen_shape_def set_seen_def)

lemma set_seen_other [simp]: "a_next (set_seen i v a) = a_next a" "a_maxseen (set_seen i v a) = a_maxseen a" "a_wndmask (set_seen i v a) = a_wndmask a"
  "a_is_dup (set_seen i v a) = a_is_dup a" "length (a_seen (set_seen i v a)) = length (a_seen a)"
  by (simp_all add: set_seen_def)

lemma seen_at_set: "seen_shape k a \<Longrightarrow> \<bar>i - j\<bar> < 2 ^ k \<Longrightarrow> seen_at (set_seen i v a) j = (if i = j then v else seen_at a j)"
  using slot_eq[of i j "2 ^ k"] slot_range[of i k] slot_range[of j k]
  by (auto simp: seen_at_shape seen_shape_def set_seen_def and_wndmask seen_at_def nth_list_update nat_eq_iff2)

lemma fold_seen:
  assumes "seen_shape k b" and "\<forall>i\<in>set is. \<bar>i - j\<bar> < 2 ^ k"
  shows "seen_at (fold (\<lambda>i. set_seen i (f i)) is b) j = (if j \<in> set is then f j else seen_at b j)"
  using assms
proof (induction "is" arbitrary: b)
  case (Cons i "is")
  then show ?case using seen_at_set[of k b i j] by (auto split: if_splits)
qed simp

lemma fold_seen_other:
  "seen_shape k (fold (\<lambda>i. set_seen i (f i)) is b) = seen_shape k b"
  "a_next (fold (\<lambda>i. set_seen i (f i)) is b) = a_next b" "a_maxseen (fold (\<lambda>i. set_seen i (f i)) is b) = a_maxseen b"
  "a_is_dup (fold (\<lambda>i. set_seen i (f i)) is b) = a_is_dup b"  "a_wndmask (fold (\<lambda>i. set_seen i (f i)) is b) = a_wndmask b"
  by (induction "is" arbitrary: b) simp_all

subsection \<open>What the window holds\<close>

definition window_ok :: "(int \<Rightarrow> int) \<Rightarrow> int set \<Rightarrow> acker \<Rightarrow> bool" where
  "window_ok sz R a \<longleftrightarrow> (\<exists>k. seen_shape k a) \<and> 0 < a_wndmask a \<and> 0 \<le> a_next a \<and> a_next a \<le> a_maxseen a + 1 \<and> a_maxseen a + 1 - a_next a \<le> a_wndmask a \<and>
     {0..<a_next a} \<subseteq> R \<and> R \<subseteq> {0..a_maxseen a} \<and> a_next a \<notin> R \<and>
     (\<forall>i\<in>{a_next a..a_maxseen a + 1}. seen_at a i = (if i \<in> R then sz i else 0))"

lemma window_new: "window_ok sz {} new_Acker"
proof -
  have "seen_shape 6 new_Acker" by (simp add: seen_shape_def new_Acker_def MWS_def)
  moreover have "\<forall>i\<in>{0..1}. seen_at new_Acker i = 0"
  proof
    fix i :: int assume "i \<in> {0..1}"
    then have "i = 0 \<or> i = 1" by auto
    then show "seen_at new_Acker i = 0" by (auto simp: seen_at_def new_Acker_def MWS_def)
  qed
  ultimately show ?thesis by (auto simp: window_ok_def new_Acker_def MWS_def)
qed

lemma grown_ok:
  assumes "window_ok sz R a" and "seen_shape k a"
  shows "seen_shape (Suc k) (resize_buffers (2 ^ Suc k) a)" and "window_ok sz R (resize_buffers (2 ^ Suc k) a)"
    and "a_maxseen (resize_buffers (2 ^ Suc k) a) = a_maxseen a" and "a_is_dup (resize_buffers (2 ^ Suc k) a) = a_is_dup a"
proof -
  let ?b = "a\<lparr>a_seen := replicate (nat (2 ^ Suc k)) 0, a_wndmask := 2 ^ Suc k - 1\<rparr>"
  let ?is = "[a_next a..a_maxseen a + 1]"
  have r: "resize_buffers (2 ^ Suc k) a = fold (\<lambda>i. set_seen i (seen_at a i)) ?is ?b" by (simp add: resize_buffers_def)
  have b: "seen_shape (Suc k) ?b" by (simp add: seen_shape_def nat_mult_distrib nat_power_eq)
  then show s: "seen_shape (Suc k) (resize_buffers (2 ^ Suc k) a)" unfolding r fold_seen_other .
  have wm: "a_wndmask a = 2 ^ k - 1" using assms(2) by (simp add: seen_shape_def)
  show m: "a_maxseen (resize_buffers (2 ^ Suc k) a) = a_maxseen a" unfolding r fold_seen_other by simp
  show "a_is_dup (resize_buffers (2 ^ Suc k) a) = a_is_dup a" unfolding r fold_seen_other by simp
  have span: "a_maxseen a + 1 - a_next a \<le> 2 ^ k - 1" using assms(1) wm by (simp add: window_ok_def)
  have "seen_at (resize_buffers (2 ^ Suc k) a) j = seen_at a j" if j: "j \<in> {a_next a..a_maxseen a + 1}" for j
    unfolding r by (subst fold_seen[OF b]) (use j span in auto)
  then show "window_ok sz R (resize_buffers (2 ^ Suc k) a)"
    using assms(1) s m span wm unfolding window_ok_def by auto
qed

lemma grow_ok:
  assumes "window_ok sz R a"
  shows "\<exists>a'. grow_window seq a = Inr a' \<and> window_ok sz R a' \<and> seq + 1 - a_next a' < a_wndmask a' \<and>
    a_next a' = a_next a \<and> a_maxseen a' = a_maxseen a \<and> a_is_dup a' = a_is_dup a"
  using assms
proof (induction seq a rule: grow_window.induct)
  case (1 seq a)
  show ?case
  proof (cases "seq + 1 - a_next a < a_wndmask a")
    case True
    then show ?thesis using 1(2) by (subst grow_window.simps) simp
  next
    case False
    obtain k where k: "seen_shape k a" using 1(2) by (auto simp: window_ok_def)
    then have wm: "a_wndmask a = 2 ^ k - 1" "\<not> a_wndmask a < 0" by (simp_all add: seen_shape_def not_less)
    have e: "(a_wndmask a + 1) * 2 = 2 ^ Suc k" using wm by simp
    note R = grown_ok[OF 1(2) k]
    have "grow_window seq a = grow_window seq (resize_buffers (2 ^ Suc k) a)"
      by (subst grow_window.simps) (simp only: e if_not_P[OF False] if_not_P[OF wm(2)])
    then show ?thesis using 1(1)[OF False wm(2)] R unfolding e by simp
  qed
qed

subsection \<open>Delivery\<close>

lemma deliver_ok:
  assumes "n \<le> m" and "\<forall>i\<in>{n..<m}. seen_at a i \<noteq> 0" and "seen_at a m = 0" and "m - n < int fuel"
  shows "deliver fuel a n num = Inr (m, num + (\<Sum>i\<in>{n..<m}. seen_at a i - hdr_len))"
  using assms
proof (induction fuel arbitrary: n num)
  case (Suc fuel)
  show ?case
  proof (cases "n = m")
    case False
    then have lt: "n < m" using Suc.prems(1) by simp
    then have "{n..<m} = insert n {n + 1..<m}" by auto
    then have "(\<Sum>i\<in>{n..<m}. seen_at a i - hdr_len) = (seen_at a n - hdr_len) + (\<Sum>i\<in>{n + 1..<m}. seen_at a i - hdr_len)" by simp
    moreover have "seen_at a n \<noteq> 0" using Suc.prems(2) lt by simp
    moreover have "deliver fuel a (n + 1) (num + (seen_at a n - hdr_len)) = Inr (m, num + (seen_at a n - hdr_len) + (\<Sum>i\<in>{n + 1..<m}. seen_at a i - hdr_len))"
      by (rule Suc.IH) (use Suc.prems lt in auto)
    ultimately show ?thesis by simp
  qed (use Suc.prems in simp)
qed simp

text \<open>The first packet that is missing.\<close>

lemma first_missing:
  assumes "(n :: int) \<le> u" and "u \<notin> R"
  obtains m where "n \<le> m" "m \<le> u" "m \<notin> R" "{n..<m} \<subseteq> R"
proof -
  have "\<exists>j. n + int j \<notin> R \<and> n + int j \<le> u" using assms by (intro exI[of _ "nat (u - n)"]) simp
  then obtain j where j: "n + int j \<notin> R" "n + int j \<le> u" "\<forall>i<j. \<not> (n + int i \<notin> R \<and> n + int i \<le> u)"
    using exists_least_iff[of "\<lambda>j. n + int j \<notin> R \<and> n + int j \<le> u"] by blast
  have "{n..<n + int j} \<subseteq> R"
  proof
    fix x assume "x \<in> {n..<n + int j}"
    then have "nat (x - n) < j" "x = n + int (nat (x - n))" by auto
    then show "x \<in> R" using j(2,3) by (metis add_left_mono less_imp_le of_nat_mono order_trans)
  qed
  then show thesis using that[of "n + int j"] j by simp
qed

lemma window_upd [simp]: "seen_at (a\<lparr>a_is_dup := b\<rparr>) i = seen_at a i" "seen_at (a\<lparr>a_next := n\<rparr>) i = seen_at a i" "seen_at (a\<lparr>a_maxseen := n\<rparr>) i = seen_at a i"
  "seen_shape k (a\<lparr>a_is_dup := b\<rparr>) = seen_shape k a" "seen_shape k (a\<lparr>a_next := n\<rparr>) = seen_shape k a" "seen_shape k (a\<lparr>a_maxseen := n\<rparr>) = seen_shape k a"
  by (simp_all add: seen_at_def seen_shape_def)

lemma window_dup [simp]: "window_ok sz R (a\<lparr>a_is_dup := b\<rparr>) = window_ok sz R a"
  by (simp add: window_ok_def)

text \<open>The slots after a packet was recorded, before the window moves.\<close>

definition slots_ok :: "(int \<Rightarrow> int) \<Rightarrow> int set \<Rightarrow> acker \<Rightarrow> bool" where
  "slots_ok sz R a \<longleftrightarrow> (\<exists>k. seen_shape k a) \<and> 0 < a_wndmask a \<and> 0 \<le> a_next a \<and> a_next a \<le> a_maxseen a + 1 \<and> a_maxseen a + 1 - a_next a \<le> a_wndmask a \<and>
     {0..<a_next a} \<subseteq> R \<and> R \<subseteq> {0..a_maxseen a} \<and> (\<forall>i\<in>{a_next a..a_maxseen a + 1}. seen_at a i = (if i \<in> R then sz i else 0))"

lemma deliver_window:
  assumes "slots_ok sz R a" and "\<forall>i\<in>R. 0 < sz i"
  obtains m where "deliver (Suc (length (a_seen a))) a (a_next a) 0 = Inr (m, \<Sum>i\<in>{a_next a..<m}. sz i - hdr_len)"
    "a_next a \<le> m" "window_ok sz R (a\<lparr>a_next := m\<rparr>)"
proof -
  obtain k where k: "seen_shape k a" using assms(1) by (auto simp: slots_ok_def)
  have top: "a_maxseen a + 1 \<notin> R" and le: "a_next a \<le> a_maxseen a + 1" using assms(1) by (auto simp: slots_ok_def)
  obtain m where m: "a_next a \<le> m" "m \<le> a_maxseen a + 1" "m \<notin> R" "{a_next a..<m} \<subseteq> R" using first_missing[OF le top] .
  have at: "seen_at a i = (if i \<in> R then sz i else 0)" if "i \<in> {a_next a..a_maxseen a + 1}" for i using assms(1) that unfolding slots_ok_def by blast
  have at': "seen_at a i = sz i" if "i \<in> {a_next a..<m}" for i using at[of i] that m(2,4) by auto
  have "int (length (a_seen a)) = a_wndmask a + 1" using k by (simp add: seen_shape_def)
  then have f: "m - a_next a < int (Suc (length (a_seen a)))" using assms(1) m(2) by (simp add: slots_ok_def)
  have "deliver (Suc (length (a_seen a))) a (a_next a) 0 = Inr (m, 0 + (\<Sum>i\<in>{a_next a..<m}. seen_at a i - hdr_len))"
  proof (rule deliver_ok[OF m(1) _ _ f])
    show "\<forall>i\<in>{a_next a..<m}. seen_at a i \<noteq> 0" using at' m(4) assms(2) by (metis less_irrefl subsetD)
    show "seen_at a m = 0" using at[of m] m by simp
  qed
  moreover have "(\<Sum>i\<in>{a_next a..<m}. seen_at a i - hdr_len) = (\<Sum>i\<in>{a_next a..<m}. sz i - hdr_len)" by (rule sum.cong) (simp_all add: at')
  moreover have "window_ok sz R (a\<lparr>a_next := m\<rparr>)"
  proof -
    have "{0..<m} \<subseteq> R"
    proof
      fix x assume "x \<in> {0..<m}"
      then show "x \<in> R" using m(4) assms(1) unfolding slots_ok_def by (cases "x < a_next a") auto
    qed
    then show ?thesis using assms(1) m at unfolding slots_ok_def window_ok_def by auto
  qed
  ultimately show thesis using that m(1) by simp
qed

lemma slots_old:
  assumes "window_ok sz R a" and "a_next a \<le> seq" and "seq \<le> a_maxseen a"
  shows "slots_ok sz (insert seq R) (set_seen seq (sz seq) a)"
proof -
  obtain k where k: "seen_shape k a" using assms(1) by (auto simp: window_ok_def)
  have sp: "a_maxseen a + 1 - a_next a \<le> 2 ^ k - 1" using assms(1) k by (simp add: window_ok_def seen_shape_def)
  have "seen_at (set_seen seq (sz seq) a) i = (if seq = i then sz seq else seen_at a i)" if "i \<in> {a_next a..a_maxseen a + 1}" for i
    by (rule seen_at_set[OF k]) (use that assms(2,3) sp in auto)
  then show ?thesis using assms k unfolding window_ok_def slots_ok_def by auto
qed

lemma slots_new:
  assumes w: "window_ok sz R a" and new: "a_maxseen a < seq" and room: "seq + 1 - a_next a < a_wndmask a"
  shows "slots_ok sz (insert seq R) (set_seen seq (sz seq) (note_new seq (sz seq) a))" and "a_next (note_new seq (sz seq) a) = a_next a"
    and "a_maxseen (note_new seq (sz seq) a) = seq" and "a_is_dup (note_new seq (sz seq) a) = a_is_dup a"
proof -
  let ?n = "note_new seq (sz seq) a"
  obtain k where k: "seen_shape k a" using w by (auto simp: window_ok_def)
  have sp: "seq + 1 - a_next a < 2 ^ k - 1" using room k by (simp add: seen_shape_def)
  let ?f = "fold (\<lambda>i. set_seen i 0) [a_maxseen a + 1..seq - 1] a"
  have fk: "seen_shape k (?f\<lparr>a_maxseen := seq\<rparr>)" using k by (simp add: fold_seen_other)
  have le: "a_next a \<le> a_maxseen a + 1" using w by (simp add: window_ok_def)
  have f: "seen_at (?f\<lparr>a_maxseen := seq\<rparr>) j = (if a_maxseen a < j \<and> j < seq then 0 else seen_at a j)" if "j \<in> {a_next a..seq + 1}" for j
    unfolding window_upd by (subst fold_seen[OF k]) (use that le sp new in auto)
  have n: "seen_at ?n j = (if seq + 1 = j then 0 else if seq = j then sz seq else seen_at (?f\<lparr>a_maxseen := seq\<rparr>) j)" if "j \<in> {a_next a..seq + 1}" for j
  proof -
    have "\<bar>seq + 1 - j\<bar> < 2 ^ k" "\<bar>seq - j\<bar> < 2 ^ k" using that sp by auto
    then show ?thesis using fk unfolding note_new_def by (simp add: seen_at_set)
  qed
  have nk: "seen_shape k ?n" using fk by (simp add: note_new_def)
  show nx: "a_next ?n = a_next a" "a_maxseen ?n = seq" "a_is_dup ?n = a_is_dup a" by (simp_all add: note_new_def fold_seen_other)
  have wn: "a_wndmask ?n = a_wndmask a" by (simp add: note_new_def fold_seen_other)
  have "seen_at (set_seen seq (sz seq) ?n) j = (if j \<in> insert seq R then sz j else 0)" if j: "j \<in> {a_next a..seq + 1}" for j
  proof -
    have "\<bar>seq - j\<bar> < 2 ^ k" using j sp by auto
    then have s: "seen_at (set_seen seq (sz seq) ?n) j = (if seq = j then sz seq else seen_at ?n j)" by (rule seen_at_set[OF nk])
    show ?thesis
    proof (cases "j \<le> a_maxseen a")
      case True
      then have "seen_at a j = (if j \<in> R then sz j else 0)" using w j unfolding window_ok_def by auto
      then show ?thesis using s n[OF j] f[OF j] True new by auto
    next
      case False
      then have "j \<notin> R" using w unfolding window_ok_def by auto
      then show ?thesis using s n[OF j] f[OF j] False j by auto
    qed
  qed
  moreover have "\<exists>k. seen_shape k (set_seen seq (sz seq) ?n)" using nk by auto
  moreover have "0 \<le> a_next a" "{0..<a_next a} \<subseteq> R" "R \<subseteq> {0..a_maxseen a}" using w by (simp_all add: window_ok_def)
  ultimately show "slots_ok sz (insert seq R) (set_seen seq (sz seq) ?n)"
    using nx wn room new le unfolding slots_ok_def by auto
qed

text \<open>One packet: it joins the set, the first missing packet is the next one, and what lies between is
  delivered.\<close>

lemma update_ok:
  assumes w: "window_ok sz R a" and "0 \<le> seq" and pos: "0 < sz seq" "\<forall>i\<in>R. 0 < sz i"
  shows "\<exists>a'. acker_update seq (sz seq) a = Inr (\<Sum>i\<in>{a_next a..<a_next a'}. sz i - hdr_len, a') \<and> window_ok sz (insert seq R) a' \<and>
    a_next a \<le> a_next a' \<and> a_maxseen a' = max (a_maxseen a) seq \<and> (a_is_dup a' \<longleftrightarrow> seq \<in> R)"
proof -
  have w0: "window_ok sz R (a\<lparr>a_is_dup := False\<rparr>)" using w by simp
  obtain a1 where g: "grow_window seq (a\<lparr>a_is_dup := False\<rparr>) = Inr a1" and w1: "window_ok sz R a1" and room: "seq + 1 - a_next a1 < a_wndmask a1"
    and same: "a_next a1 = a_next a" "a_maxseen a1 = a_maxseen a" "a_is_dup a1 = False" using grow_ok[OF w0, of seq] by auto
  have le: "a_next a \<le> a_maxseen a + 1" and low: "{0..<a_next a} \<subseteq> R" and top: "R \<subseteq> {0..a_maxseen a}" using w by (simp_all add: window_ok_def)
  have posR: "\<forall>i\<in>insert seq R. 0 < sz i" using pos by simp
  show ?thesis
  proof (cases "seq < a_next a")
    case True
    then have "seq \<in> R" "\<not> a_maxseen a < seq" using low le assms(2) by auto
    then show ?thesis using True g w1 same w by (auto simp: acker_update_def Let_def insert_absorb)
  next
    case ge: False
    obtain b dup where b: "slots_ok sz (insert seq R) b" "a_next b = a_next a" "a_maxseen b = max (a_maxseen a) seq" "a_is_dup b = (seq \<in> R)"
      and run: "acker_update seq (sz seq) a = bind_r (deliver (Suc (length (a_seen b))) b (a_next b) 0) (\<lambda>(n, num). Inr (num, b\<lparr>a_next := n\<rparr>))"
    proof (cases "a_maxseen a < seq")
      case True
      let ?b = "set_seen seq (sz seq) (note_new seq (sz seq) a1)"
      note N = slots_new[OF w1 _ room]
      have new: "a_maxseen a1 < seq" using True same by simp
      have "seq \<notin> R" using top True by auto
      then have "slots_ok sz (insert seq R) ?b" "a_next ?b = a_next a" "a_maxseen ?b = max (a_maxseen a) seq" "a_is_dup ?b = (seq \<in> R)"
        using N[OF new] same True by simp_all
      moreover have "acker_update seq (sz seq) a = bind_r (deliver (Suc (length (a_seen ?b))) ?b (a_next ?b) 0) (\<lambda>(n, num). Inr (num, ?b\<lparr>a_next := n\<rparr>))"
        using ge g new N(2-4)[OF new] same by (simp add: acker_update_def Let_def)
      ultimately show thesis using that by blast
    next
      case False
      let ?b = "set_seen seq (sz seq) (if seen_at a1 seq \<noteq> 0 then a1\<lparr>a_is_dup := True\<rparr> else a1)"
      have r: "a_next a1 \<le> seq" "seq \<le> a_maxseen a1" using ge False same by simp_all
      have "seen_at a1 seq = (if seq \<in> R then sz seq else 0)" using w1 r unfolding window_ok_def by auto
      then have "seen_at a1 seq \<noteq> 0 \<longleftrightarrow> seq \<in> R" using pos by auto
      moreover have "slots_ok sz (insert seq R) ?b" using slots_old[of sz R _ seq] w1 r by auto
      moreover have "acker_update seq (sz seq) a = bind_r (deliver (Suc (length (a_seen ?b))) ?b (a_next ?b) 0) (\<lambda>(n, num). Inr (num, ?b\<lparr>a_next := n\<rparr>))"
        using r g by (simp add: acker_update_def Let_def not_less)
      ultimately show thesis using that[of ?b] same False by auto
    qed
    obtain m where "deliver (Suc (length (a_seen b))) b (a_next b) 0 = Inr (m, \<Sum>i\<in>{a_next b..<m}. sz i - hdr_len)"
      "a_next b \<le> m" "window_ok sz (insert seq R) (b\<lparr>a_next := m\<rparr>)" using deliver_window[OF b(1) posR] .
    then show ?thesis using run b by (intro exI[of _ "b\<lparr>a_next := m\<rparr>"]) simp
  qed
qed

end
