(* ===== verification/TcpSinkSack.thy ===== *)
theory TcpSinkSack
  imports TcpSinkWindow
begin

text \<open>
  What a TCP receiver tells the sender: the first packet missing and, if it is configured for it,
  blocks of packets that it has.
\<close>

subsection \<open>Any order of arrival\<close>

fun acker_updates :: "(int \<times> int) list \<Rightarrow> acker \<Rightarrow> (int \<times> acker) result" where
  "acker_updates [] a = Inr (0, a)"
| "acker_updates ((seq, n) # ps) a = bind_r (acker_update seq n a) (\<lambda>(num, a').
     bind_r (acker_updates ps a') (\<lambda>(num', a''). Inr (num + num', a'')))"

lemma updates_ok:
  assumes "window_ok sz R a" and "\<forall>i\<in>R. 0 < sz i" and "\<forall>(seq, n)\<in>set ps. 0 \<le> seq \<and> 0 < n \<and> n = sz seq"
  shows "\<exists>a'. acker_updates ps a = Inr (\<Sum>i\<in>{a_next a..<a_next a'}. sz i - hdr_len, a') \<and> window_ok sz (fst ` set ps \<union> R) a' \<and>
    a_next a \<le> a_next a' \<and> a_maxseen a' = fold max (List.map fst ps) (a_maxseen a)"
  using assms
proof (induction ps arbitrary: R a)
  case (Cons p ps)
  obtain seq where p: "p = (seq, sz seq)" "0 \<le> seq" "0 < sz seq" using Cons.prems(3) by (cases p) auto
  obtain a1 where a1: "acker_update seq (sz seq) a = Inr (\<Sum>i\<in>{a_next a..<a_next a1}. sz i - hdr_len, a1)" "window_ok sz (insert seq R) a1"
    "a_next a \<le> a_next a1" "a_maxseen a1 = max (a_maxseen a) seq" using update_ok[of sz R a seq] Cons.prems p by auto
  obtain a' where a': "acker_updates ps a1 = Inr (\<Sum>i\<in>{a_next a1..<a_next a'}. sz i - hdr_len, a')" "window_ok sz (fst ` set ps \<union> insert seq R) a'"
    "a_next a1 \<le> a_next a'" "a_maxseen a' = fold max (List.map fst ps) (a_maxseen a1)" using Cons.IH[OF a1(2)] Cons.prems p by auto
  have "(\<Sum>i\<in>{a_next a..<a_next a1}. sz i - hdr_len) + (\<Sum>i\<in>{a_next a1..<a_next a'}. sz i - hdr_len) = (\<Sum>i\<in>{a_next a..<a_next a'}. sz i - hdr_len)"
    using sum.union_disjoint[of "{a_next a..<a_next a1}" "{a_next a1..<a_next a'}" "\<lambda>i. sz i - hdr_len"] a1(3) a'(3)
    by (simp add: ivl_disj_un ivl_disj_int)
  then show ?case using p(1) a1 a' by (auto simp: max.commute)
qed simp

text \<open>C31: Whatever the order in which packets arrive, how often, and how far ahead: the receiver does not fail, it
  expects the first packet that is missing, and it has delivered the data of all packets before it, once each.\<close>

theorem acker_any_order:
  assumes "\<forall>(seq, n)\<in>set ps. 0 \<le> seq \<and> 0 < n \<and> n = sz seq"
  shows "\<exists>a. acker_updates ps new_Acker = Inr (\<Sum>i\<in>{0..<a_next a}. sz i - hdr_len, a) \<and>
    {0..<a_next a} \<subseteq> fst ` set ps \<and> a_next a \<notin> fst ` set ps \<and> a_maxseen a = Max (insert 0 (fst ` set ps))"
proof -
  have n: "a_next new_Acker = 0" "a_maxseen new_Acker = 0" by (simp_all add: new_Acker_def)
  obtain a where a: "acker_updates ps new_Acker = Inr (\<Sum>i\<in>{0..<a_next a}. sz i - hdr_len, a)" "window_ok sz (fst ` set ps \<union> {}) a"
    "a_maxseen a = fold max (List.map fst ps) 0" using updates_ok[OF window_new _ assms] n by auto
  have "fold max (List.map fst ps) 0 = Max (set (0 # List.map fst ps))" by (rule Max.set_eq_fold[symmetric])
  then have "a_maxseen a = Max (insert 0 (fst ` set ps))" using a(3) by simp
  then show ?thesis using a(1,2) by (auto simp: window_ok_def)
qed

subsection \<open>Blocks\<close>

definition good_block :: "int set \<Rightarrow> int \<times> int \<Rightarrow> bool" where
  "good_block R b \<longleftrightarrow> 0 \<le> fst b \<and> fst b < snd b \<and> {fst b..<snd b} \<subseteq> R"

definition stack_ok :: "nat \<Rightarrow> int set \<Rightarrow> sack_stack \<Rightarrow> bool" where
  "stack_ok n R s \<longleftrightarrow> ss_size s = n \<and> ss_cnt s \<le> n \<and>
     (\<exists>bs. length bs = ss_cnt s \<and> ss_entries s = bs @ replicate (n - ss_cnt s) (-1, -1) \<and> (\<forall>b\<in>set bs. good_block R b))"

lemma stack_new: "stack_ok n R (new_SackStack n)"
  by (simp add: stack_ok_def new_SackStack_def)

lemma stack_mono: "stack_ok n R s \<Longrightarrow> R \<subseteq> R' \<Longrightarrow> stack_ok n R' s"
  unfolding stack_ok_def good_block_def by blast

lemma stack_reset: "stack_ok n R s \<Longrightarrow> stack_ok n R' (ss_reset s)"
  by (auto simp: stack_ok_def ss_reset_def simp flip: replicate_add)

lemma stack_at:
  assumes "stack_ok n R s" and "k < n"
  shows "k < length (ss_entries s)" and "k < ss_cnt s \<Longrightarrow> good_block R (ss_entries s ! k)" and "\<not> k < ss_cnt s \<Longrightarrow> ss_entries s ! k = (-1, -1)"
  using assms by (auto simp: stack_ok_def nth_append)

lemma stack_pop:
  assumes "stack_ok n R s" and "k < ss_cnt s"
  shows "stack_ok n R (ss_pop k s)"
proof -
  obtain bs where bs: "length bs = ss_cnt s" "ss_entries s = bs @ replicate (n - ss_cnt s) (-1, -1)" "\<forall>b\<in>set bs. good_block R b" "ss_cnt s \<le> n" "ss_size s = n"
    using assms(1) unfolding stack_ok_def by blast
  have "ss_entries (ss_pop k s) = (take k bs @ drop (Suc k) bs) @ replicate (n - (ss_cnt s - 1)) (-1, -1)"
    using assms(2) bs(1,2,4) by (simp add: ss_pop_def Suc_diff_le flip: replicate_Suc)
  moreover have "length (take k bs @ drop (Suc k) bs) = ss_cnt s - 1" using assms(2) bs(1) by simp
  moreover have "\<forall>b\<in>set (take k bs @ drop (Suc k) bs). good_block R b" using bs(3) by (auto dest: in_set_takeD in_set_dropD)
  moreover have "ss_cnt (ss_pop k s) = ss_cnt s - 1" "ss_size (ss_pop k s) = n" using bs(5) by (simp_all add: ss_pop_def)
  ultimately show ?thesis using bs(4) unfolding stack_ok_def by (metis diff_le_self le_trans)
qed

lemma stack_push:
  assumes "stack_ok n R s" and "0 < n" and "good_block R b"
  shows "\<exists>s'. ss_push b s = Inr s' \<and> stack_ok n R s'"
proof -
  obtain bs where bs: "length bs = ss_cnt s" "ss_entries s = bs @ replicate (n - ss_cnt s) (-1, -1)" "\<forall>b\<in>set bs. good_block R b" "ss_cnt s \<le> n" "ss_size s = n"
    using assms(1) unfolding stack_ok_def by blast
  let ?c = "if ss_cnt s \<ge> n then n - 1 else ss_cnt s"
  let ?s = "s\<lparr>ss_entries := b # take ?c (ss_entries s) @ drop (Suc ?c) (ss_entries s), ss_cnt := Suc ?c\<rparr>"
  have "take ?c (ss_entries s) = take ?c bs" "drop (Suc ?c) (ss_entries s) = replicate (n - Suc ?c) (-1, -1)" using bs(1,2,4) assms(2) by auto
  then have "ss_entries ?s = (b # take ?c bs) @ replicate (n - ss_cnt ?s) (-1, -1)" by simp
  moreover have "length (b # take ?c bs) = ss_cnt ?s" "ss_cnt ?s \<le> n" using bs(1,4) assms(2) by auto
  moreover have "\<forall>b\<in>set (b # take ?c bs). good_block R b" using bs(3) assms(3) by (auto dest: in_set_takeD)
  moreover have "ss_size ?s = n" using bs(5) by simp
  ultimately have "stack_ok n R ?s" unfolding stack_ok_def by blast
  moreover have "ss_push b s = Inr ?s" using bs(5) assms(2) by (simp add: ss_push_def Let_def)
  ultimately show ?thesis by blast
qed

lemma old_blocks_ok:
  assumes "stack_ok n R s" and "length blocks \<le> n" and "k \<le> length blocks" and "\<forall>b\<in>set blocks. good_block R b"
  shows "\<exists>bs s'. old_blocks n maxseen recent k blocks s = Inr (blocks @ bs, s') \<and> stack_ok n R s' \<and> length (blocks @ bs) \<le> n \<and>
    (\<forall>b\<in>set bs. good_block R b)"
  using assms
proof (induction n maxseen recent k blocks s rule: old_blocks.induct)
  case (1 n maxseen recent k blocks s)
  let ?b = "ss_entries s ! k"
  show ?case
  proof (cases "length blocks \<ge> n")
    case True
    then show ?thesis using 1(3,4) by (subst old_blocks.simps) auto
  next
    case F: False
    then have kn: "k < n" using 1(5) by simp
    note at = stack_at[OF 1(3) kn]
    have nl: "\<not> k \<ge> length (ss_entries s)" using at(1) by simp
    show ?thesis
    proof (cases "fst ?b < 0 \<or> snd ?b < 0 \<or> snd ?b > maxseen + 1")
      case True
      then show ?thesis using F nl 1(3,4) by (subst old_blocks.simps) (auto simp: Let_def)
    next
      case G: False
      then have kc: "k < ss_cnt s" using at(3) by (cases "k < ss_cnt s") auto
      show ?thesis
      proof (cases "fst recent \<le> fst ?b \<and> snd recent \<ge> snd ?b")
        case True
        have "old_blocks n maxseen recent k blocks s = old_blocks n maxseen recent k blocks (ss_pop k s)"
          by (subst old_blocks.simps) (simp only: Let_def if_not_P[OF F] if_not_P[OF nl] if_not_P[OF G] if_P[OF True])
        then show ?thesis using 1(1)[OF F nl refl G True stack_pop[OF 1(3) kc] 1(4-6)] by simp
      next
        case False
        have e: "old_blocks n maxseen recent k blocks s = old_blocks n maxseen recent (Suc k) (blocks @ [?b]) s"
          by (subst old_blocks.simps) (simp only: Let_def if_not_P[OF F] if_not_P[OF nl] if_not_P[OF G] if_not_P[OF False])
        have "\<exists>bs s'. old_blocks n maxseen recent (Suc k) (blocks @ [?b]) s = Inr ((blocks @ [?b]) @ bs, s') \<and> stack_ok n R s' \<and> length ((blocks @ [?b]) @ bs) \<le> n \<and>
            (\<forall>b\<in>set bs. good_block R b)"
          by (rule 1(2)[OF F nl refl G False 1(3)]) (use F 1(5,6) at(2)[OF kc] in auto)
        then obtain bs s' where r: "old_blocks n maxseen recent (Suc k) (blocks @ [?b]) s = Inr ((blocks @ [?b]) @ bs, s')" "stack_ok n R s'"
          "length ((blocks @ [?b]) @ bs) \<le> n" "\<forall>b\<in>set bs. good_block R b" by blast
        show ?thesis unfolding e by (rule exI[of _ "?b # bs"], rule exI[of _ s']) (use r at(2)[OF kc] in simp)
      qed
    qed
  qed
qed

subsection \<open>The newest block\<close>

lemma find_upto:
  "List.find P [a..b] = Some x \<Longrightarrow> a \<le> x \<and> x \<le> b \<and> P x \<and> (\<forall>i\<in>{a..<x}. \<not> P i)"
proof -
  assume "List.find P [a..b] = Some x"
  then obtain j where j: "j < length [a..b]" "P ([a..b] ! j)" "x = [a..b] ! j" "\<forall>i<j. \<not> P ([a..b] ! i)" by (auto simp: find_Some_iff)
  then have x: "x = a + int j" "x \<le> b" by (simp_all add: nth_upto)
  have "\<not> P i" if i: "i \<in> {a..<x}" for i
  proof -
    have "nat (i - a) < j" "[a..b] ! nat (i - a) = i" using i x by (auto simp: nth_upto nat_less_iff)
    then show ?thesis using j(4) by metis
  qed
  then show ?thesis using j(2,3) x by simp
qed

lemma find_upto_None: "List.find P [a..b] = None \<Longrightarrow> i \<in> {a..b} \<Longrightarrow> \<not> P i"
  by (auto simp: find_None_iff)

lemma find_rev_upto:
  assumes "List.find P (rev [a..b]) = Some x"
  shows "a \<le> x \<and> x \<le> b \<and> P x \<and> (\<forall>i\<in>{x<..b}. \<not> P i)"
proof -
  obtain j where j: "j < length [a..b]" "P (rev [a..b] ! j)" "x = rev [a..b] ! j" "\<forall>i<j. \<not> P (rev [a..b] ! i)" using assms by (auto simp: find_Some_iff)
  have at: "rev [a..b] ! i = b - int i" if "i < length [a..b]" for i using that by (simp add: rev_nth nth_upto)
  have x: "x = b - int j" "a \<le> x" using j(1,3) at[OF j(1)] by simp_all
  have "\<not> P i" if i: "i \<in> {x<..b}" for i
  proof -
    have n: "nat (b - i) < j" using i x by (auto simp: nat_less_iff)
    then have "rev [a..b] ! nat (b - i) = i" using at[of "nat (b - i)"] j(1) i x(2) by auto
    then show ?thesis using j(4) n by metis
  qed
  then show ?thesis using j(2,3) x by simp
qed

lemma seen_iff:
  assumes "window_ok sz R a" and "\<forall>i\<in>R. 0 < sz i" and "i \<in> {a_next a..a_maxseen a + 1}"
  shows "seen_at a i = 0 \<longleftrightarrow> i \<notin> R"
  using assms unfolding window_ok_def by fastforce

text \<open>Above the packets that are acknowledged, the newest block is all of the run around the packet.\<close>

lemma newest_block:
  assumes w: "window_ok sz R a" and pos: "\<forall>i\<in>R. 0 < sz i" and old: "old \<in> R" "a_next a \<le> old"
  shows "let r = sack_right a old; l = sack_left a old r in a_next a < l \<and> l \<le> old \<and> old < r \<and> {l..<r} \<subseteq> R \<and> l - 1 \<notin> R \<and> r \<notin> R"
proof -
  have top: "R \<subseteq> {0..a_maxseen a}" "0 \<le> a_next a" "a_next a \<notin> R" using w by (simp_all add: window_ok_def)
  note iff = seen_iff[OF w pos]
  define r where "r = sack_right a old"
  have r: "old < r \<and> r \<le> a_maxseen a + 1 \<and> {old..<r} \<subseteq> R \<and> r \<notin> R"
  proof (cases "List.find (\<lambda>i. seen_at a i = 0) [old..a_maxseen a]")
    case None
    then have rr: "r = a_maxseen a + 1" by (simp add: r_def sack_right_def)
    have "i \<in> R" if "i \<in> {old..a_maxseen a}" for i using find_upto_None[OF None that] iff[of i] that old(2) by auto
    then show ?thesis using rr top(1) old(1) by auto
  next
    case (Some x)
    then have rr: "r = x" by (simp add: r_def sack_right_def)
    have x: "old \<le> x" "x \<le> a_maxseen a" "seen_at a x = 0" "\<forall>i\<in>{old..<x}. seen_at a i \<noteq> 0" using find_upto[OF Some] by auto
    have "x \<notin> R" using iff[of x] x old(2) by auto
    moreover have "i \<in> R" if "i \<in> {old..<x}" for i using x(4) iff[of i] that old(2) x(2) by auto
    moreover have "old \<noteq> x" using \<open>x \<notin> R\<close> old(1) by auto
    ultimately show ?thesis using rr x(1,2) by auto
  qed
  then have r: "old < r" "r \<le> a_maxseen a + 1" "{old..<r} \<subseteq> R" "r \<notin> R" by simp_all
  have ne: "a_next a < old" using old top(3) by (cases "a_next a = old") auto
  define l where "l = sack_left a old r"
  obtain x where x: "List.find (\<lambda>i. seen_at a i = 0) (rev [a_next a..r - 1]) = Some x"
  proof (cases "List.find (\<lambda>i. seen_at a i = 0) (rev [a_next a..r - 1])")
    case None
    then have "seen_at a (a_next a) \<noteq> 0" using ne r(1) by (auto simp: find_None_iff)
    then show thesis using iff[of "a_next a"] top(3) w unfolding window_ok_def by auto
  qed (use that in blast)
  have l: "l = x + 1" using x old(2) by (simp add: l_def sack_left_def)
  have p: "a_next a \<le> x" "x \<le> r - 1" "seen_at a x = 0" "\<forall>i\<in>{x<..r - 1}. seen_at a i \<noteq> 0" using find_rev_upto[OF x] by auto
  have "x \<notin> R" using iff[of x] p r(2) by auto
  then have "x < old" using r(3) p(2) by (metis atLeastLessThan_iff not_less subsetD zle_diff1_eq)
  moreover have "i \<in> R" if "i \<in> {l..<r}" for i using p(4) iff[of i] that l p(1) r(2) by auto
  ultimately have "a_next a < l" "l \<le> old" "{l..<r} \<subseteq> R" "l - 1 \<notin> R" using l p(1) \<open>x \<notin> R\<close> by auto
  then show ?thesis using r unfolding Let_def r_def[symmetric] l_def[symmetric] by blast
qed

subsection \<open>The acknowledgement\<close>

lemma append_ack_ok:
  assumes w: "window_ok sz R a" and pos: "\<forall>i\<in>R. 0 < sz i" and st: "stack_ok n R sf" and old: "old \<in> R"
  shows "\<exists>blocks sf'. append_ack a dsacks n sf old = Inr (blocks, sf') \<and> stack_ok n R sf' \<and> length blocks \<le> n \<and> (\<forall>b\<in>set blocks. good_block R b) \<and>
    (a_next a \<le> old \<and> 0 < n \<and> \<not> (dsacks \<and> a_is_dup a) \<longrightarrow>
      (\<exists>l r bs. blocks = (l, r) # bs \<and> l \<le> old \<and> old < r \<and> l - 1 \<notin> R \<and> r \<notin> R))"
proof -
  have top: "R \<subseteq> {0..a_maxseen a}" "0 \<le> a_next a" using w by (simp_all add: window_ok_def)
  then have o: "\<not> old < 0" "old \<le> a_maxseen a" using old by auto
  show ?thesis
  proof (cases "a_next a - 1 \<ge> a_maxseen a \<and> ss_cnt sf \<noteq> 0")
    case True
    have "append_ack a dsacks n sf old = Inr ([], ss_reset sf)" using True o by (simp add: append_ack_def)
    then show ?thesis using stack_reset[OF st] True o(2) by auto
  next
    case R1: False
    show ?thesis
    proof (cases "(a_next a - 1 < a_maxseen a \<or> a_is_dup a) \<and> 0 < n")
      case False
      have "append_ack a dsacks n sf old = Inr ([], sf)" unfolding append_ack_def Let_def if_not_P[OF o(1)] if_not_P[OF R1] if_not_P[OF False] ..
      then show ?thesis using st False o(2) by auto
    next
      case True
      define db where "db = (if dsacks \<and> a_is_dup a then [(old, old + 1)] else [])"
      have db: "length db \<le> n" "\<forall>b\<in>set db. good_block R b" using True old o(1) by (auto simp: db_def good_block_def)
      show ?thesis
      proof (cases "length db \<ge> n")
        case D: True
        have "append_ack a dsacks n sf old = Inr (db, sf)"
          unfolding append_ack_def Let_def if_not_P[OF o(1)] if_not_P[OF R1] if_P[OF True] db_def[symmetric] if_P[OF D] ..
        moreover have "dsacks \<and> a_is_dup a" using D True by (auto simp: db_def split: if_splits)
        ultimately show ?thesis using st db by blast
      next
        case D: False
        define r where "r = sack_right a old"
        define l where "l = sack_left a old r"
        define first where "first = (if old \<le> a_next a - 1 then [] else [(l, r)])"
        have run: "append_ack a dsacks n sf old = bind_r (old_blocks n (a_maxseen a) (l, r) 0 (db @ first) sf) (\<lambda>(blocks, sf1).
             if old > a_next a - 1 then bind_r (ss_push (l, r) sf1) (\<lambda>sf2. Inr (blocks, sf2)) else Inr (blocks, sf1))"
          unfolding append_ack_def Let_def if_not_P[OF o(1)] if_not_P[OF R1] if_P[OF True] db_def[symmetric] if_not_P[OF D]
            r_def[symmetric] l_def[symmetric] first_def[symmetric] ..
        have new: "l \<le> old" "old < r" "l - 1 \<notin> R" "r \<notin> R" "good_block R (l, r)" if "a_next a \<le> old"
          using newest_block[OF w pos old that] top(2) unfolding Let_def r_def[symmetric] l_def[symmetric] good_block_def by auto
        have f: "length (db @ first) \<le> n" "\<forall>b\<in>set (db @ first). good_block R b"
          using D db new by (auto simp: first_def)
        obtain bs sf1 where b: "old_blocks n (a_maxseen a) (l, r) 0 (db @ first) sf = Inr ((db @ first) @ bs, sf1)" "stack_ok n R sf1"
          "length ((db @ first) @ bs) \<le> n" "\<forall>b\<in>set bs. good_block R b" using old_blocks_ok[OF st f(1) _ f(2)] by blast
        have good: "\<forall>b\<in>set ((db @ first) @ bs). good_block R b" using b(4) f(2) by auto
        show ?thesis
        proof (cases "a_next a \<le> old")
          case True
          obtain sf2 where "ss_push (l, r) sf1 = Inr sf2" "stack_ok n R sf2" using stack_push[OF b(2) _ new(5)[OF True]] D by auto
          then have "append_ack a dsacks n sf old = Inr ((db @ first) @ bs, sf2) \<and> stack_ok n R sf2" using run b(1) True by simp
          moreover have "(db @ first) @ bs = (l, r) # bs" if "\<not> (dsacks \<and> a_is_dup a)" using that True by (auto simp: db_def first_def)
          ultimately show ?thesis using b(3) good new[OF True] by blast
        next
          case False
          then show ?thesis using run b good by auto
        qed
      qed
    qed
  qed
qed

end
