(* ===== verification/TcpSinkAgent.thy ===== *)
theory TcpSinkAgent
  imports TcpSinkSack
begin

text \<open>
  The two agents: every acknowledgement is true, an acknowledgement is delayed for one packet at
  most and never for longer than the interval, and congestion is reported until the sender has
  responded.
\<close>

subsection \<open>One acknowledgement\<close>

definition sink_ok :: "(int \<Rightarrow> int) \<Rightarrow> int set \<Rightarrow> 'a tcp_sink_scheme \<Rightarrow> bool" where
  "sink_ok sz R s \<longleftrightarrow> window_ok sz R (sk_acker s) \<and> (\<forall>i\<in>R. 0 < sz i) \<and>
     (case sk_sacker s of None \<Rightarrow> True | Some (n, sf) \<Rightarrow> stack_ok n R sf)"

text \<open>What an acknowledgement says of the packets received: all up to \<^verbatim>\<open>seqno\<close> and not the next one,
  and all in its blocks.\<close>

definition truthful :: "int set \<Rightarrow> tcp_pkt \<Rightarrow> bool" where
  "truthful R ack \<longleftrightarrow> -1 \<le> tp_seqno ack \<and> {0..tp_seqno ack} \<subseteq> R \<and> tp_seqno ack + 1 \<notin> R \<and> (\<forall>b\<in>set (tp_sack ack). good_block R b)"

lemma ack_window [simp]: "window_ok sz R (a\<lparr>a_ecn_unacked := e\<rparr>) = window_ok sz R a" "window_ok sz R (a\<lparr>a_last_ack_sent := l\<rparr>) = window_ok sz R a"
  "window_ok sz R (a\<lparr>a_ts_to_echo := t\<rparr>) = window_ok sz R a"
  by (simp_all add: window_ok_def seen_at_def seen_shape_def)

lemma update_ts_window [simp]: "window_ok sz R (update_ts seqno ts b a) = window_ok sz R a" "a_next (update_ts seqno ts b a) = a_next a"
  by (simp_all add: update_ts_def)

text \<open>All but the blocks.\<close>

definition ack_pkt :: "rat \<Rightarrow> tcp_pkt \<Rightarrow> 'a tcp_sink_scheme \<Rightarrow> (int \<times> int) list \<Rightarrow> tcp_pkt \<Rightarrow> bool" where
  "ack_pkt now opkt s blocks ack \<longleftrightarrow> tp_seqno ack = a_next (sk_acker s) - 1 \<and> tp_ts ack = now \<and> tp_fid ack = tp_fid opkt \<and>
     tp_sack ack = blocks \<and> tp_size ack = sk_size s + int (length blocks) * 8 \<and>
     tp_ts_echo ack = (if ts_echo_bugfix s then a_ts_to_echo (sk_acker s) else tp_ts opkt)"

lemma sink_ack_none:
  assumes "sk_sacker s = None"
  shows "\<exists>ack. sink_ack now opkt s = Inr (ack, s\<lparr>sk_acker := (sk_acker s)\<lparr>a_ecn_unacked := ack_ecn opkt s, a_last_ack_sent := a_next (sk_acker s) - 1\<rparr>, sk_sacker := None\<rparr>) \<and>
    ack_pkt now opkt s [] ack"
  using assms by (simp add: sink_ack_def Let_def ack_pkt_def alloc_ack_def)

lemma sink_ack_some:
  assumes "sk_sacker s = Some (n, sf)" and "append_ack (sk_acker s) (generate_dsacks s) n sf (tp_seqno opkt) = Inr (blocks, sf')"
  shows "\<exists>ack. sink_ack now opkt s = Inr (ack, s\<lparr>sk_acker := (sk_acker s)\<lparr>a_ecn_unacked := ack_ecn opkt s, a_last_ack_sent := a_next (sk_acker s) - 1\<rparr>, sk_sacker := Some (n, sf')\<rparr>) \<and>
    ack_pkt now opkt s blocks ack"
  using assms by (simp add: sink_ack_def Let_def ack_pkt_def alloc_ack_def)

lemma sink_ack_ok:
  assumes ok: "sink_ok sz R s" and old: "tp_seqno opkt \<in> R"
  shows "\<exists>ack s'. sink_ack now opkt s = Inr (ack, s') \<and> truthful R ack \<and> sink_ok sz R s' \<and> sk_save s' = sk_save s \<and>
    a_next (sk_acker s') = a_next (sk_acker s) \<and> sk_lastreset s' = sk_lastreset s \<and> tcp_sink.more s' = tcp_sink.more s"
proof -
  have w: "window_ok sz R (sk_acker s)" "\<forall>i\<in>R. 0 < sz i" using ok by (simp_all add: sink_ok_def)
  have t: "truthful R ack" if "ack_pkt now opkt s blocks ack" "\<forall>b\<in>set blocks. good_block R b" for ack blocks
    using that w(1) unfolding truthful_def ack_pkt_def window_ok_def by auto
  show ?thesis
  proof (cases "sk_sacker s")
    case None
    then show ?thesis using sink_ack_none[OF None, of now opkt] t[of "[]"] w by (auto simp: sink_ok_def)
  next
    case (Some p)
    obtain n sf where p: "p = (n, sf)" by (cases p)
    then have st: "stack_ok n R sf" using ok Some by (simp add: sink_ok_def)
    obtain blocks sf' where a: "append_ack (sk_acker s) (generate_dsacks s) n sf (tp_seqno opkt) = Inr (blocks, sf')" "stack_ok n R sf'"
      "\<forall>b\<in>set blocks. good_block R b" using append_ack_ok[OF w st old] by blast
    obtain ack where k: "sink_ack now opkt s = Inr (ack, s\<lparr>sk_acker := (sk_acker s)\<lparr>a_ecn_unacked := ack_ecn opkt s, a_last_ack_sent := a_next (sk_acker s) - 1\<rparr>, sk_sacker := Some (n, sf')\<rparr>)"
      "ack_pkt now opkt s blocks ack" using sink_ack_some[OF Some[unfolded p] a(1)] by blast
    show ?thesis using k(1) t[OF k(2) a(3)] w a(2) by (intro exI[of _ ack]) (auto simp: sink_ok_def)
  qed
qed

lemma sink_update_ok:
  assumes ok: "sink_ok sz R s" and p: "0 \<le> tp_seqno pkt" "tp_size pkt = sz (tp_seqno pkt)" "0 < tp_size pkt"
  shows "\<exists>s'. sink_update pkt s = Inr (\<Sum>i\<in>{a_next (sk_acker s)..<a_next (sk_acker s')}. sz i - hdr_len, s') \<and> sink_ok sz (insert (tp_seqno pkt) R) s' \<and>
    (\<exists>a. s' = s\<lparr>sk_acker := a\<rparr>) \<and> a_next (sk_acker s) \<le> a_next (sk_acker s')"
proof -
  let ?a = "update_ts (tp_seqno pkt) (tp_ts pkt) (ts_echo_rfc1323 s) (sk_acker s)"
  have w: "window_ok sz R ?a" "\<forall>i\<in>R. 0 < sz i" using ok by (simp_all add: sink_ok_def)
  obtain a' where a': "acker_update (tp_seqno pkt) (sz (tp_seqno pkt)) ?a = Inr (\<Sum>i\<in>{a_next ?a..<a_next a'}. sz i - hdr_len, a')"
    "window_ok sz (insert (tp_seqno pkt) R) a'" "a_next ?a \<le> a_next a'" using update_ok[OF w(1) p(1) _ w(2)] p(2,3) by auto
  have "case sk_sacker s of None \<Rightarrow> True | Some (n, sf) \<Rightarrow> stack_ok n (insert (tp_seqno pkt) R) sf"
    using ok stack_mono[OF _ subset_insertI] unfolding sink_ok_def by (auto split: option.splits)
  then have "sink_ok sz (insert (tp_seqno pkt) R) (s\<lparr>sk_acker := a'\<rparr>)" using a'(2) w(2) p(2,3) by (simp add: sink_ok_def)
  then show ?thesis using a' p(2) by (intro exI[of _ "s\<lparr>sk_acker := a'\<rparr>"]) (auto simp: sink_update_def)
qed

lemma acker_reset_window:
  assumes "window_ok sz R a"
  shows "window_ok sz {} (acker_reset a)"
proof -
  obtain k where k: "seen_shape k a" using assms by (auto simp: window_ok_def)
  then have s: "seen_shape k (acker_reset a)" by (simp add: seen_shape_def acker_reset_def nat_power_eq)
  have "seen_at (acker_reset a) i = 0" for i
    using slot_range[of i k] k unfolding seen_at_shape[OF s] by (simp add: acker_reset_def seen_shape_def nat_power_eq)
  moreover have "a_wndmask (acker_reset a) = a_wndmask a" "a_next (acker_reset a) = 0" "a_maxseen (acker_reset a) = 0" by (simp_all add: acker_reset_def)
  ultimately show ?thesis using s assms unfolding window_ok_def by auto
qed

subsection \<open>The agent that acknowledges every packet\<close>

definition data_pkt :: "(int \<Rightarrow> int) \<Rightarrow> tcp_pkt \<Rightarrow> bool" where
  "data_pkt sz p \<longleftrightarrow> 0 \<le> tp_seqno p \<and> tp_size p = sz (tp_seqno p) \<and> hdr_len \<le> tp_size p"

definition delivery :: "(int \<Rightarrow> int) \<Rightarrow> int \<Rightarrow> int \<Rightarrow> sink_out list" where
  "delivery sz n m = (let d = \<Sum>i\<in>{n..<m}. sz i - hdr_len in if d > 0 then [RecvBytes d] else [])"

inductive sink_reach :: "(int \<Rightarrow> int) \<Rightarrow> tcp_sink \<Rightarrow> int set \<Rightarrow> tcp_sink \<Rightarrow> bool" for sz s0 where
  sink_start: "sk_acker s0 = new_Acker \<Longrightarrow> sk_sacker s0 = None \<or> s0 = sacker_configure n s1 \<Longrightarrow> sink_reach sz s0 {} s0"
| sink_recv: "sink_reach sz s0 R s \<Longrightarrow> data_pkt sz p \<Longrightarrow> sink_recv now p s = Inr (out, s') \<Longrightarrow>
    sink_reach sz s0 (if tp_ts p < sk_lastreset s then R else insert (tp_seqno p) R) s'"
| sink_reset: "sink_reach sz s0 R s \<Longrightarrow> sink_reach sz s0 {} (sink_reset now s)"

lemma reset_ok: "sink_ok sz R s \<Longrightarrow> sink_ok sz {} (sink_reset now s)"
  using acker_reset_window stack_reset by (auto simp: sink_ok_def sink_reset_def split: option.splits)

lemma sink_step:
  assumes ok: "sink_ok sz R s" "\<forall>i\<in>R. hdr_len \<le> sz i" and p: "data_pkt sz p" and fresh: "\<not> tp_ts p < sk_lastreset s"
  shows "\<exists>ack s'. sink_recv now p s = Inr (delivery sz (a_next (sk_acker s)) (a_next (sk_acker s')) @ [SendAck ack], s') \<and>
    truthful (insert (tp_seqno p) R) ack \<and> sink_ok sz (insert (tp_seqno p) R) s' \<and> a_next (sk_acker s) \<le> a_next (sk_acker s')"
proof -
  have p': "0 \<le> tp_seqno p" "tp_size p = sz (tp_seqno p)" "0 < tp_size p" "hdr_len \<le> sz (tp_seqno p)" using p by (auto simp: data_pkt_def hdr_len_def)
  obtain s1 where u: "sink_update p s = Inr (\<Sum>i\<in>{a_next (sk_acker s)..<a_next (sk_acker s1)}. sz i - hdr_len, s1)" "sink_ok sz (insert (tp_seqno p) R) s1"
    "\<exists>a. s1 = s\<lparr>sk_acker := a\<rparr>" "a_next (sk_acker s) \<le> a_next (sk_acker s1)" using sink_update_ok[OF ok(1) p'(1-3)] by blast
  let ?d = "\<Sum>i\<in>{a_next (sk_acker s)..<a_next (sk_acker s1)}. sz i - hdr_len"
  have "{a_next (sk_acker s)..<a_next (sk_acker s1)} \<subseteq> insert (tp_seqno p) R"
  proof -
    have "0 \<le> a_next (sk_acker s)" "{0..<a_next (sk_acker s1)} \<subseteq> insert (tp_seqno p) R" using u(2) ok(1) by (simp_all add: sink_ok_def window_ok_def)
    then show ?thesis by (meson atLeastLessThan_iff order_trans subsetD subsetI)
  qed
  then have nn: "\<not> ?d < 0" using ok(2) p'(4) by (auto simp: not_less intro!: sum_nonneg)
  let ?s = "s1\<lparr>sk_end2end_delay := now - tp_ts p, sk_bytes := sk_bytes s1 + (if ?d > 0 then ?d else 0)\<rparr>"
  have "sink_ok sz (insert (tp_seqno p) R) ?s" using u(2) by (simp add: sink_ok_def)
  from sink_ack_ok[OF this, of p now] obtain ack s' where a: "sink_ack now p ?s = Inr (ack, s')" "truthful (insert (tp_seqno p) R) ack"
    "sink_ok sz (insert (tp_seqno p) R) s'" "a_next (sk_acker s') = a_next (sk_acker s1)" by auto
  have "sink_recv now p s = Inr ((if ?d > 0 then [RecvBytes ?d] else []) @ [SendAck ack], s')"
    using fresh u(1) nn a(1) by (simp add: sink_recv_def Let_def)
  then show ?thesis using a u(4) by (intro exI[of _ ack] exI[of _ s']) (simp add: delivery_def Let_def)
qed

lemma sink_reach_ok: "sink_reach sz s0 R s \<Longrightarrow> sink_ok sz R s \<and> (\<forall>i\<in>R. hdr_len \<le> sz i)"
proof (induction rule: sink_reach.induct)
  case (sink_start n s1)
  then show ?case using window_new stack_new by (auto simp: sink_ok_def sacker_configure_def Let_def)
next
  case (sink_recv R s p now out s')
  show ?case
  proof (cases "tp_ts p < sk_lastreset s")
    case True
    then show ?thesis using sink_recv by (simp add: TcpSink.sink_recv_def)
  next
    case False
    then show ?thesis using sink_step[OF _ _ sink_recv(2) False, of R now] sink_recv by (auto simp: data_pkt_def)
  qed
next
  case (sink_reset R s now)
  then show ?case using reset_ok by auto
qed

text \<open>A receiver that acknowledges every packet: in every state it reaches and for every packet not from
  before the last reset it delivers the data of the packets that became contiguous and sends
  one acknowledgement, and that is true: it does not say of a packet that it was received
  unless it was, and the packet it asks for is missing.\<close>

theorem sink_acks_truthful:
  assumes "sink_reach sz s0 R s" and "data_pkt sz p" and "\<not> tp_ts p < sk_lastreset s"
  shows "\<exists>ack s'. sink_recv now p s = Inr (delivery sz (a_next (sk_acker s)) (a_next (sk_acker s')) @ [SendAck ack], s') \<and>
    truthful (insert (tp_seqno p) R) ack \<and> a_next (sk_acker s) \<le> a_next (sk_acker s')"
  using sink_step[OF _ _ assms(2,3)] sink_reach_ok[OF assms(1)] by blast

subsection \<open>The agent that delays acknowledgements\<close>

definition new_DelAckSink :: "rat \<Rightarrow> tcp_sink \<Rightarrow> del_sink" where
  "new_DelAckSink interval s = tcp_sink.extend s \<lparr> ds_interval = interval, delay_timer = timer_new \<rparr>"

inductive del_reach :: "(int \<Rightarrow> int) \<Rightarrow> del_sink \<Rightarrow> int set \<Rightarrow> del_sink \<Rightarrow> bool" for sz s0 where
  del_start: "sk_acker s0 = new_Acker \<Longrightarrow> sk_sacker s0 = None \<or> s0 = sacker_configure n s1 \<Longrightarrow> sk_save s0 = None \<Longrightarrow> delay_timer s0 = timer_new \<Longrightarrow>
    del_reach sz s0 {} s0"
| del_recv: "del_reach sz s0 R s \<Longrightarrow> data_pkt sz p \<Longrightarrow> del_sink_recv now p s = Inr (out, s') \<Longrightarrow>
    del_reach sz s0 (if tp_ts p < sk_lastreset s then R else insert (tp_seqno p) R) s'"
| del_fire: "del_reach sz s0 R s \<Longrightarrow> DelayTimer_handle now s = Inr (out, s') \<Longrightarrow> del_reach sz s0 R s'"
| del_reset: "del_reach sz s0 R s \<Longrightarrow> del_sink_reset now s = Inr s' \<Longrightarrow> del_reach sz s0 {} s'"

text \<open>A packet is saved exactly while the timer is pending.\<close>

definition del_ok :: "(int \<Rightarrow> int) \<Rightarrow> int set \<Rightarrow> del_sink \<Rightarrow> bool" where
  "del_ok sz R s \<longleftrightarrow> sink_ok sz R s \<and> (t_status (delay_timer s) = TIMER_PENDING \<longleftrightarrow> sk_save s \<noteq> None) \<and>
     (\<forall>p. sk_save s = Some p \<longrightarrow> tp_seqno p \<in> R)"

definition no_ack :: "sink_out list \<Rightarrow> bool" where
  "no_ack out \<longleftrightarrow> (\<forall>ack. SendAck ack \<notin> set out)"

lemma del_more:
  fixes s s' :: del_sink
  assumes "tcp_sink.more s' = tcp_sink.more s"
  shows "delay_timer s' = delay_timer s" and "ds_interval s' = ds_interval s"
  using assms by (cases s, cases s', simp)+

lemma del_step:
  assumes ok: "del_ok sz R s" and p: "data_pkt sz p" and fresh: "\<not> tp_ts p < sk_lastreset s"
  shows "\<exists>out s'. del_sink_recv now p s = Inr (out, s') \<and> del_ok sz (insert (tp_seqno p) R) s' \<and>
    ((\<exists>out' ack. out = out' @ [SendAck ack] \<and> no_ack out' \<and> truthful (insert (tp_seqno p) R) ack \<and> sk_save s' = None) \<or>
     (no_ack out \<and> sk_save s = None \<and> sk_save s' = Some p \<and> a_next (sk_acker s') = tp_seqno p + 1 \<and> t_event (delay_timer s') = Some (now + ds_interval s)))"
proof -
  have p': "0 \<le> tp_seqno p" "tp_size p = sz (tp_seqno p)" "0 < tp_size p" using p by (auto simp: data_pkt_def hdr_len_def)
  have so: "sink_ok sz R s" using ok by (simp add: del_ok_def)
  obtain num s1 a where u: "sink_update p s = Inr (num, s1)" "sink_ok sz (insert (tp_seqno p) R) s1" "s1 = s\<lparr>sk_acker := a\<rparr>"
    using sink_update_ok[OF so p'] by blast
  let ?s = "s1\<lparr>sk_bytes := sk_bytes s1 + num\<rparr>" and ?out = "if num \<noteq> 0 then [RecvBytes num] else []"
  have nout: "no_ack ?out" by (simp add: no_ack_def)
  show ?thesis
  proof (cases "delays_ack p ?s")
    case True
    have "del_sink_recv now p s = Inr (?out, ?s\<lparr>sk_save := Some p, delay_timer := timer_resched now (ds_interval ?s) (delay_timer ?s)\<rparr>)"
      using fresh u(1) True by (simp add: del_sink_recv_def Let_def)
    moreover have "del_ok sz (insert (tp_seqno p) R) (?s\<lparr>sk_save := Some p, delay_timer := timer_resched now (ds_interval ?s) (delay_timer ?s)\<rparr>)"
      using u(2) by (simp add: del_ok_def sink_ok_def timer_resched_def)
    moreover have "sk_save s = None" "a_next (sk_acker s1) = tp_seqno p + 1" using True ok u(3) by (simp_all add: delays_ack_def del_ok_def)
    moreover have "t_event (timer_resched now (ds_interval ?s) (delay_timer ?s)) = Some (now + ds_interval s)" using u(3) by (simp add: timer_resched_def)
    ultimately show ?thesis using nout by (intro exI conjI disjI2) (assumption | simp)+
  next
    case False
    obtain tm where tm: "(if t_status (delay_timer ?s) = TIMER_PENDING then timer_cancel (delay_timer ?s) else Inr (delay_timer ?s)) = Inr tm"
      "t_status tm \<noteq> TIMER_PENDING" by (cases "t_status (delay_timer ?s) = TIMER_PENDING") (simp_all add: timer_cancel_def)
    have "sink_ok sz (insert (tp_seqno p) R) (?s\<lparr>delay_timer := tm\<rparr>)" using u(2) by (simp add: sink_ok_def)
    from sink_ack_ok[OF this, of p now] obtain ack s3 where a: "sink_ack now p (?s\<lparr>delay_timer := tm\<rparr>) = Inr (ack, s3)" "truthful (insert (tp_seqno p) R) ack"
      "sink_ok sz (insert (tp_seqno p) R) s3" "tcp_sink.more s3 = tcp_sink.more (?s\<lparr>delay_timer := tm\<rparr>)" by auto
    have "del_sink_recv now p s = Inr (?out @ [SendAck ack], s3\<lparr>sk_save := None\<rparr>)"
      using fresh u(1) False tm(1) a(1) by (simp add: del_sink_recv_def Let_def)
    moreover have "delay_timer s3 = tm" using del_more(1)[OF a(4)] by simp
    then have "del_ok sz (insert (tp_seqno p) R) (s3\<lparr>sk_save := None\<rparr>)" using a(3) tm(2) by (simp add: del_ok_def sink_ok_def)
    ultimately show ?thesis using nout a(2) by (intro exI conjI disjI1) auto
  qed
qed

lemma del_fires:
  assumes ok: "del_ok sz R s" and pending: "t_status (delay_timer s) = TIMER_PENDING"
  shows "\<exists>ack s'. DelayTimer_handle now s = Inr ([SendAck ack], s') \<and> truthful R ack \<and> sk_save s' = None \<and> del_ok sz R s'"
proof -
  obtain p where p: "sk_save s = Some p" "tp_seqno p \<in> R" using ok pending by (auto simp: del_ok_def)
  let ?s = "s\<lparr>delay_timer := (delay_timer s)\<lparr>t_event := None, t_status := TIMER_HANDLING\<rparr>\<rparr>"
  have "sink_ok sz R ?s" using ok by (simp add: del_ok_def sink_ok_def)
  from sink_ack_ok[OF this p(2), of now] obtain ack s1 where a: "sink_ack now p ?s = Inr (ack, s1)" "truthful R ack" "sink_ok sz R s1"
    "tcp_sink.more s1 = tcp_sink.more ?s" by auto
  have "delay_timer s1 = (delay_timer s)\<lparr>t_event := None, t_status := TIMER_HANDLING\<rparr>" using del_more(1)[OF a(4)] by simp
  then have "DelayTimer_handle now s = Inr ([SendAck ack], s1\<lparr>sk_save := None, delay_timer := (delay_timer s1)\<lparr>t_status := TIMER_IDLE\<rparr>\<rparr>)"
    using pending p(1) a(1) by (simp add: DelayTimer_handle_def timer_handle_def del_sink_timeout_def)
  then show ?thesis using a(2,3) by (intro exI[of _ ack]) (auto simp: del_ok_def sink_ok_def)
qed

lemma del_reach_ok: "del_reach sz s0 R s \<Longrightarrow> del_ok sz R s"
proof (induction rule: del_reach.induct)
  case (del_start n s1)
  then show ?case using window_new stack_new by (auto simp: del_ok_def sink_ok_def sacker_configure_def Let_def timer_new_def)
next
  case (del_recv R s p now out s')
  show ?case
  proof (cases "tp_ts p < sk_lastreset s")
    case True
    then show ?thesis using del_recv by (simp add: del_sink_recv_def)
  next
    case False
    then show ?thesis using del_step[OF del_recv(4,2) False, of now] del_recv(3) by auto
  qed
next
  case (del_fire R s now out s')
  have "t_status (delay_timer s) = TIMER_PENDING" using del_fire(2) by (auto simp: DelayTimer_handle_def timer_handle_def split: if_splits)
  then show ?case using del_fires[OF del_fire(3), of now] del_fire(2) by auto
next
  case (del_reset R s now s')
  have "sink_ok sz R s" using del_reset(3) by (simp add: del_ok_def)
  moreover obtain tm where "s' = sink_reset now (s\<lparr>delay_timer := tm\<rparr>)" "t_status tm \<noteq> TIMER_PENDING"
  proof (cases "t_status (delay_timer s) = TIMER_PENDING")
    case True
    show thesis by (rule that[of "(delay_timer s)\<lparr>t_event := None, t_status := TIMER_IDLE\<rparr>"])
      (use del_reset(2) True in \<open>simp_all add: del_sink_reset_def timer_cancel_def\<close>)
  next
    case False
    have "s\<lparr>delay_timer := delay_timer s\<rparr> = s" by simp
    then show thesis using del_reset(2) that[of "delay_timer s"] False by (simp add: del_sink_reset_def)
  qed
  ultimately show ?case using reset_ok[of sz R "s\<lparr>delay_timer := tm\<rparr>" now] by (auto simp: del_ok_def sink_reset_def sink_ok_def)
qed

text \<open>A receiver that delays acknowledgements, in every state it reaches: a packet is either acknowledged at
  once, truly, or it is the next one expected, no other is waiting, and the timer is set; so of two
  packets at least the second is answered, and one out of order always.\<close>

theorem delayed_ack_at_most_one:
  assumes "del_reach sz s0 R s" and "data_pkt sz p" and "\<not> tp_ts p < sk_lastreset s"
  shows "\<exists>out s'. del_sink_recv now p s = Inr (out, s') \<and>
    ((\<exists>out' ack. out = out' @ [SendAck ack] \<and> no_ack out' \<and> truthful (insert (tp_seqno p) R) ack \<and> sk_save s' = None) \<or>
     (no_ack out \<and> sk_save s = None \<and> sk_save s' = Some p \<and> a_next (sk_acker s') = tp_seqno p + 1 \<and> t_event (delay_timer s') = Some (now + ds_interval s)))"
  using del_step[OF del_reach_ok[OF assms(1)] assms(2,3)] by blast

text \<open>When a packet is waiting, its timer is pending, and when it expires the packet is acknowledged.\<close>

theorem delayed_ack_is_sent:
  assumes "del_reach sz s0 R s" and "sk_save s \<noteq> None"
  shows "\<exists>ack s'. DelayTimer_handle now s = Inr ([SendAck ack], s') \<and> truthful R ack \<and> sk_save s' = None"
  using del_fires[OF del_reach_ok[OF assms(1)]] del_reach_ok[OF assms(1)] assms(2) unfolding del_ok_def by blast

subsection \<open>Congestion reports\<close>

fun sink_recvs :: "(rat \<times> tcp_pkt) list \<Rightarrow> tcp_sink \<Rightarrow> (sink_out list \<times> tcp_sink) result" where
  "sink_recvs [] s = Inr ([], s)"
| "sink_recvs ((now, p) # ps) s = bind_r (sink_recv now p s) (\<lambda>(out, s'). bind_r (sink_recvs ps s') (\<lambda>(out', s''). Inr (out @ out', s'')))"

lemma set_seen_ecn [simp]: "a_ecn_unacked (set_seen i v a) = a_ecn_unacked a"
  by (simp add: set_seen_def)

lemma fold_seen_ecn: "a_ecn_unacked (fold (\<lambda>i. set_seen i (f i)) is a) = a_ecn_unacked a"
  by (induction "is" arbitrary: a) simp_all

lemma grow_ecn: "grow_window seq a = Inr a' \<Longrightarrow> a_ecn_unacked a' = a_ecn_unacked a"
proof (induction seq a rule: grow_window.induct)
  case (1 seq a)
  then show ?case by (subst (asm) (2) grow_window.simps) (auto simp: resize_buffers_def fold_seen_ecn split: if_splits)
qed

lemma update_ecn: "acker_update seq n a = Inr (num, a') \<Longrightarrow> a_ecn_unacked a' = a_ecn_unacked a"
  by (auto simp: acker_update_def Let_def note_new_def fold_seen_ecn split: if_splits dest!: grow_ecn)

text \<open>A packet reports congestion; a packet says that the sender has responded.\<close>

definition marked :: "tcp_pkt \<Rightarrow> bool" where
  "marked p \<longleftrightarrow> tp_ect p \<noteq> 0 \<and> tp_ce p \<noteq> 0"

definition responds :: "tcp_pkt \<Rightarrow> bool" where
  "responds p \<longleftrightarrow> tp_cong_action p \<noteq> 0 \<and> \<not> marked p"

definition ecn_next :: "tcp_pkt \<Rightarrow> int \<Rightarrow> int" where
  "ecn_next p e = (if marked p then 1 else if responds p then 0 else e)"

lemma ecn_step:
  assumes r: "sink_recv now p s = Inr (out, s')" and s: "sk_save s = None" and fresh: "\<not> tp_ts p < sk_lastreset s"
  shows "a_ecn_unacked (sk_acker s') = ecn_next p (a_ecn_unacked (sk_acker s)) \<and> sk_save s' = None \<and> sk_lastreset s' = sk_lastreset s \<and>
    (tp_ect p \<noteq> 0 \<longrightarrow> (\<exists>out' ack. out = out' @ [SendAck ack] \<and> tp_ecnecho ack = a_ecn_unacked (sk_acker s')))"
proof -
  obtain num a where u: "acker_update (tp_seqno p) (tp_size p) (update_ts (tp_seqno p) (tp_ts p) (ts_echo_rfc1323 s) (sk_acker s)) = Inr (num, a)"
    using r fresh by (auto simp: sink_recv_def sink_update_def)
  have e: "a_ecn_unacked a = a_ecn_unacked (sk_acker s)" using update_ecn[OF u] by (simp add: update_ts_def split: if_splits)
  let ?s = "s\<lparr>sk_acker := a, sk_end2end_delay := now - tp_ts p, sk_bytes := sk_bytes s + (if num > 0 then num else 0)\<rparr>"
  have nn: "\<not> num < 0" using r fresh u by (auto simp: sink_recv_def sink_update_def split: if_splits)
  obtain ack where a: "sink_ack now p ?s = Inr (ack, s')" "out = (if num > 0 then [RecvBytes num] else []) @ [SendAck ack]"
    using r fresh u nn by (auto simp: sink_recv_def sink_update_def Let_def)
  have "ack_ecn p ?s = ecn_next p (a_ecn_unacked (sk_acker s))"
    using s e by (simp add: ack_ecn_def save_flag_def ecn_next_def marked_def responds_def)
  then show ?thesis using a s by (auto simp: sink_ack_def Let_def save_flag_def)
qed

text \<open>Of the packets received some reports congestion and no later one says that the sender responded.\<close>

fun ecn_pending :: "tcp_pkt list \<Rightarrow> bool" where
  "ecn_pending [] \<longleftrightarrow> False"
| "ecn_pending (p # ps) \<longleftrightarrow> ecn_pending ps \<or> marked p \<and> \<not> list_ex responds ps"

lemma ecn_fold: "fold ecn_next ps e = (if ecn_pending ps then 1 else if list_ex responds ps then 0 else e)"
  by (induction ps arbitrary: e) (auto simp: ecn_next_def responds_def)

lemma sink_recvs_ecn:
  assumes "sink_recvs ps s = Inr (out, s')" and "sk_save s = None" and "\<forall>(now, p)\<in>set ps. \<not> tp_ts p < sk_lastreset s"
  shows "a_ecn_unacked (sk_acker s') = fold ecn_next (List.map snd ps) (a_ecn_unacked (sk_acker s)) \<and> sk_save s' = None \<and> sk_lastreset s' = sk_lastreset s"
  using assms
proof (induction ps arbitrary: s out)
  case (Cons x ps)
  obtain now p where x: "x = (now, p)" by (cases x)
  obtain o1 s1 o2 where r: "sink_recv now p s = Inr (o1, s1)" "sink_recvs ps s1 = Inr (o2, s')" using Cons.prems(1) x by auto
  have e: "a_ecn_unacked (sk_acker s1) = ecn_next p (a_ecn_unacked (sk_acker s))" "sk_save s1 = None" "sk_lastreset s1 = sk_lastreset s"
    using ecn_step[OF r(1) Cons.prems(2)] Cons.prems(3) x by auto
  show ?case using Cons.IH[OF r(2) e(2)] Cons.prems(3) e x by auto
qed simp

text \<open>C32: An acknowledgement of a packet of a sender capable of ECN echoes congestion exactly if some
  packet so far was marked and no later one carried the sender's response.\<close>

theorem ecn_echo_until_response:
  assumes "sk_acker s = new_Acker" and "sk_save s = None" and "\<forall>(now, p)\<in>set (ps @ [(t, q)]). \<not> tp_ts p < sk_lastreset s"
    and "sink_recvs ps s = Inr (out, s1)" and "sink_recv t q s1 = Inr (out1, s2)" and "tp_ect q \<noteq> 0"
  shows "\<exists>out' ack. out1 = out' @ [SendAck ack] \<and> tp_ecnecho ack = (if ecn_pending (List.map snd ps @ [q]) then 1 else 0)"
proof -
  have s1: "a_ecn_unacked (sk_acker s1) = fold ecn_next (List.map snd ps) (a_ecn_unacked (sk_acker s))" "sk_save s1 = None" "sk_lastreset s1 = sk_lastreset s"
    using sink_recvs_ecn[OF assms(4,2)] assms(3) by auto
  have st: "a_ecn_unacked (sk_acker s2) = ecn_next q (a_ecn_unacked (sk_acker s1))"
    "\<exists>out' ack. out1 = out' @ [SendAck ack] \<and> tp_ecnecho ack = a_ecn_unacked (sk_acker s2)"
    using ecn_step[OF assms(5) s1(2)] assms(3,6) s1(3) by auto
  have "ecn_next q (fold ecn_next (List.map snd ps) 0) = fold ecn_next (List.map snd ps @ [q]) 0" by simp
  also have "\<dots> = (if ecn_pending (List.map snd ps @ [q]) then 1 else 0)" by (simp only: ecn_fold if_cancel)
  finally have "a_ecn_unacked (sk_acker s2) = (if ecn_pending (List.map snd ps @ [q]) then 1 else 0)" using st(1) s1(1) assms(1) by (simp add: new_Acker_def)
  then show ?thesis using st(2) by simp
qed

subsection \<open>Concrete receivers\<close>

definition ex_data :: "int \<Rightarrow> tcp_pkt" where
  "ex_data n = (alloc_ack 1040)\<lparr>tp_seqno := n, tp_ect := 1\<rparr>"

definition ex_tcp_sink :: tcp_sink where
  "ex_tcp_sink = \<lparr> sk_acker = new_Acker, sk_sacker = Some (3, new_SackStack 3), sk_save = None, sk_lastreset = 0, sk_bytes = 0,
     sk_end2end_delay = 0, sk_size = 40, ts_echo_bugfix = True, ts_echo_rfc1323 = False, generate_dsacks = True, qs_enabled = False,
     RFC2581_immediate_ack = False, SYN_immediate_ack = False, ecn_syn = False \<rparr>"

lemma ex_data_simps [simp]: "data_pkt (\<lambda>_. 1040) (ex_data n) \<longleftrightarrow> 0 \<le> n" "tp_ts (ex_data n) = 0" "tp_seqno (ex_data n) = n" "tp_ect (ex_data n) = 1"
  by (simp_all add: ex_data_def alloc_ack_def data_pkt_def hdr_len_def)

lemma ex_sink_simps [simp]: "sk_lastreset ex_tcp_sink = 0" "sk_acker ex_tcp_sink = new_Acker" "sk_save ex_tcp_sink = None"
  by (simp_all add: ex_tcp_sink_def)

lemma ex_sink_start: "sink_reach (\<lambda>_. 1040) ex_tcp_sink {} ex_tcp_sink"
  by (rule sink_start[where n = 3 and ?s1.0 = ex_tcp_sink]) (simp_all add: ex_tcp_sink_def sacker_configure_def NSA_def)

definition ex_del_sink :: del_sink where
  "ex_del_sink = new_DelAckSink (1 / 10) ex_tcp_sink"

lemma ex_del_simps [simp]: "sk_lastreset ex_del_sink = 0" "sk_acker ex_del_sink = new_Acker" "sk_save ex_del_sink = None" "delay_timer ex_del_sink = timer_new"
  "ds_interval ex_del_sink = 1 / 10"
  by (simp_all add: ex_del_sink_def new_DelAckSink_def ex_tcp_sink_def tcp_sink.extend_def)

lemma ex_del_start: "del_reach (\<lambda>_. 1040) ex_del_sink {} ex_del_sink"
  by (rule del_start[where n = 3 and ?s1.0 = ex_del_sink])
    (simp_all, simp add: ex_del_sink_def new_DelAckSink_def ex_tcp_sink_def tcp_sink.extend_def sacker_configure_def NSA_def)

theorem sink_acks_truthful_witness:
  "\<exists>ack s'. sink_recv 1 (ex_data 2) ex_tcp_sink = Inr (delivery (\<lambda>_. 1040) 0 (a_next (sk_acker s')) @ [SendAck ack], s') \<and> truthful {2} ack"
  using sink_acks_truthful[OF ex_sink_start, of "ex_data 2" 1] by (auto simp: new_Acker_def)

theorem delayed_ack_at_most_one_witness:
  "\<exists>out s'. del_sink_recv 1 (ex_data 0) ex_del_sink = Inr (out, s')"
  using delayed_ack_at_most_one[OF ex_del_start, of "ex_data 0" 1] by auto

lemma ex_del_waits: "\<exists>s'. del_sink_recv 1 (ex_data 0) ex_del_sink = Inr ([RecvBytes 1000], s') \<and> sk_save s' = Some (ex_data 0)"
proof -
  have "case del_sink_recv 1 (ex_data 0) ex_del_sink of Inl _ \<Rightarrow> False | Inr (out, s') \<Rightarrow> out = [RecvBytes 1000] \<and> sk_save s' = Some (ex_data 0)" by code_simp
  then show ?thesis by (auto split: sum.splits)
qed

theorem delayed_ack_is_sent_witness:
  "\<exists>s ack s'. del_sink_recv 1 (ex_data 0) ex_del_sink = Inr ([RecvBytes 1000], s) \<and> DelayTimer_handle (11 / 10) s = Inr ([SendAck ack], s') \<and> truthful {0} ack"
proof -
  obtain s where s: "del_sink_recv 1 (ex_data 0) ex_del_sink = Inr ([RecvBytes 1000], s)" "sk_save s = Some (ex_data 0)" using ex_del_waits by blast
  have "del_reach (\<lambda>_. 1040) ex_del_sink {0} s" using del_recv[OF ex_del_start _ s(1)] by simp
  then show ?thesis using delayed_ack_is_sent[of "\<lambda>_. 1040" ex_del_sink "{0}" s "11 / 10"] s by auto
qed

theorem acker_any_order_witness:
  "\<exists>a. acker_updates [(2, 1040), (0, 1040), (2, 1040), (1, 1040)] new_Acker = Inr (\<Sum>i\<in>{0..<a_next a}. 1040 - hdr_len, a) \<and> a_maxseen a = 2"
proof -
  have "\<forall>(seq, n)\<in>set [(2::int, 1040::int), (0, 1040), (2, 1040), (1, 1040)]. 0 \<le> seq \<and> 0 < n \<and> n = (\<lambda>_. 1040) seq" by simp
  from acker_any_order[OF this] show ?thesis by auto
qed

lemma ex_ecn_runs: "\<exists>out s1 out1 s2. sink_recvs [(1, (ex_data 0)\<lparr>tp_ce := 1\<rparr>)] ex_tcp_sink = Inr (out, s1) \<and> sink_recv 2 (ex_data 1) s1 = Inr (out1, s2)"
proof -
  have "case sink_recvs [(1, (ex_data 0)\<lparr>tp_ce := 1\<rparr>)] ex_tcp_sink of Inl _ \<Rightarrow> False
      | Inr (out, s1) \<Rightarrow> (case sink_recv 2 (ex_data 1) s1 of Inl _ \<Rightarrow> False | Inr _ \<Rightarrow> True)" by code_simp
  then show ?thesis by (auto split: sum.splits prod.splits) (metis sumE surj_pair)
qed

theorem ecn_echo_until_response_witness:
  "\<exists>s1 out out1 s2 out' ack. sink_recvs [(1, (ex_data 0)\<lparr>tp_ce := 1\<rparr>)] ex_tcp_sink = Inr (out, s1) \<and> sink_recv 2 (ex_data 1) s1 = Inr (out1, s2) \<and>
     out1 = out' @ [SendAck ack] \<and> tp_ecnecho ack = 1"
proof -
  obtain out s1 out1 s2 where r: "sink_recvs [(1, (ex_data 0)\<lparr>tp_ce := 1\<rparr>)] ex_tcp_sink = Inr (out, s1)" "sink_recv 2 (ex_data 1) s1 = Inr (out1, s2)"
    using ex_ecn_runs by blast
  have "\<exists>out' ack. out1 = out' @ [SendAck ack] \<and> tp_ecnecho ack = (if ecn_pending (List.map snd [(1::rat, (ex_data 0)\<lparr>tp_ce := 1\<rparr>)] @ [ex_data 1]) then 1 else 0)"
    by (rule ecn_echo_until_response[OF _ _ _ r]) (auto simp: ex_data_def alloc_ack_def)
  then show ?thesis using r by (auto simp: marked_def responds_def ex_data_def alloc_ack_def)
qed

text \<open>With duplicate reports and three blocks, a duplicate puts its block on the stack a second time: from
  then on one block is reported twice and another no more.\<close>

definition sacks_of :: "sink_out list \<Rightarrow> (int \<times> int) list list" where
  "sacks_of out = List.concat (List.map (\<lambda>x. case x of SendAck ack \<Rightarrow> [tp_sack ack] | RecvBytes n \<Rightarrow> []) out)"

lemma dsack_repeats_block:
  "bind_r (sink_recvs (List.map (\<lambda>n. (1, ex_data n)) [2, 4, 6, 4, 0]) ex_tcp_sink) (\<lambda>(out, _). Inr (sacks_of out)) =
   Inr [[(2, 3)], [(4, 5), (2, 3)], [(6, 7), (4, 5), (2, 3)], [(4, 5), (4, 5), (6, 7)], [(4, 5), (6, 7), (4, 5)]]"
  by code_simp

end
