(* ===== verification/ScoreBoard.thy ===== *)
theory ScoreBoard
  imports ReassemblyArrival TcpSinkAgent
begin

text \<open>
  The scoreboard of the SACK senders (\<^verbatim>\<open>tcp/scoreboard-rq.cc\<close>): the packets that blocks of
  acknowledgements report, in a reassembly queue, and how far they were retransmitted.  The
  queue holds a reference to \<^verbatim>\<open>sack_min\<close>, which is therefore its field \<^verbatim>\<open>rcv_nxt\<close>.
  \<^verbatim>\<open>IsEmpty\<close> and \<^verbatim>\<open>CheckSndNxt\<close> end the program.
\<close>

record score_board =
  sb_changed :: bool
  h_seqno :: int
  sb_rq :: reass_queue

definition new_ScoreBoardRQ :: score_board where
  "new_ScoreBoardRQ = \<lparr> sb_changed = False, h_seqno = -1, sb_rq = new_ReassemblyQueue (-1) \<rparr>"

definition ClearScoreBoard :: "score_board \<Rightarrow> score_board" where
  "ClearScoreBoard sb = sb\<lparr>sb_rq := rq_clear (sb_rq sb), h_seqno := -1\<rparr>"

definition GetNextRetran :: "score_board \<Rightarrow> int \<times> score_board" where
  "GetNextRetran sb =
    (let h = (if h_seqno sb < rcv_nxt (sb_rq sb) then rcv_nxt (sb_rq sb) else h_seqno sb) in
     case nexthole h (sb_rq sb) of (seq, fcnt, fbytes) \<Rightarrow>
       if seq > 0 then
         (if fcnt \<le> 0 then (-1, sb\<lparr>h_seqno := h\<rparr>)
          else (seq, sb\<lparr>h_seqno := (if seq > h then seq else h)\<rparr>))
       else (-1, sb\<lparr>h_seqno := h\<rparr>))"

fun add_blocks :: "(int \<times> int) list \<Rightarrow> reass_queue \<Rightarrow> reass_queue result" where
  "add_blocks [] q = Inr q"
| "add_blocks ((l, r) # bs) q = bind_r (rq_add l r 0 0 q) (\<lambda>(_, q'). add_blocks bs q')"

definition UpdateScoreBoard :: "int \<Rightarrow> (int \<times> int) list \<Rightarrow> score_board \<Rightarrow> score_board result" where
  "UpdateScoreBoard last_ack blocks sb =
    (let old_total = rq_total (sb_rq sb); q = sb_rq sb;
         (c, q1) = (if rcv_nxt q \<le> last_ack
           then (let q0 = q\<lparr>rcv_nxt := last_ack + 1\<rparr> in if rq_empty q0 then (False, q0) else (True, snd (cleartonxt q0)))
           else (False, q))
     in bind_r (add_blocks blocks q1) (\<lambda>q2. Inr (sb\<lparr>sb_changed := c \<or> old_total \<noteq> rq_total q2, sb_rq := q2\<rparr>)))"

definition GetNextUnacked :: "int \<Rightarrow> score_board \<Rightarrow> int" where
  "GetNextUnacked seqno sb = fst (nexthole seqno (sb_rq sb))"

definition MarkRetran :: "int \<Rightarrow> score_board \<Rightarrow> score_board" where
  "MarkRetran retran_seqno sb = (if retran_seqno \<ge> h_seqno sb then sb\<lparr>h_seqno := retran_seqno + 1\<rparr> else sb)"

definition sb_IsEmpty :: "score_board \<Rightarrow> int result" where
  "sb_IsEmpty sb = Inl Exit"

definition sb_CheckSndNxt :: "score_board \<Rightarrow> int result" where
  "sb_CheckSndNxt sb = Inl Exit"

subsection \<open>What it holds\<close>

definition sb_sacked :: "score_board \<Rightarrow> int set" where
  "sb_sacked sb = bytes (ivs (sb_rq sb))"

definition sb_ok :: "score_board \<Rightarrow> bool" where
  "sb_ok sb \<longleftrightarrow> rq_sound (sb_rq sb) \<and> rcv_ok (sb_rq sb) \<and> (\<forall>x\<in>set (ivs (sb_rq sb)). fst x < snd x)"

lemma add_blocks_ok:
  assumes "rq_sound q" and "rcv_ok q" and "\<forall>x\<in>set (ivs q). fst x < snd x" and "\<forall>b\<in>set bs. fst b < snd b"
  shows "\<exists>q'. add_blocks bs q = Inr q' \<and> rq_sound q' \<and> rcv_ok q' \<and> (\<forall>x\<in>set (ivs q'). fst x < snd x) \<and>
    bytes (ivs q') = bytes (ivs q) \<union> (\<Union>b\<in>set bs. {fst b..<snd b})"
  using assms
proof (induction bs arbitrary: q)
  case (Cons b bs)
  obtain l r where b: "b = (l, r)" "l < r" using Cons.prems(4) by (cases b) auto
  have may: "may_add l r (ivs q)" using Cons.prems(3) b(2) by (fastforce simp: may_add_def)
  obtain f q1 where q1: "rq_add l r 0 0 q = Inr (f, q1)" "added l r q (Inr (f, q1))"
    using rq_add_added[OF Cons.prems(1,2) may, of 0 0] unfolding added_def by auto
  note K = added_keeps[OF Cons.prems(1,2) may q1(2)]
  obtain m where m: "merged l r (ivs q) (ivs q1) m" using K(6) by blast
  have ne: "\<forall>x\<in>set (ivs q1). fst x < snd x" using m Cons.prems(3) b(2) unfolding merged_def by fastforce
  have bs: "\<forall>b\<in>set bs. fst b < snd b" using Cons.prems(4) by simp
  obtain q' where "add_blocks bs q1 = Inr q'" "rq_sound q'" "rcv_ok q'" "\<forall>x\<in>set (ivs q'). fst x < snd x"
    "bytes (ivs q') = bytes (ivs q1) \<union> (\<Union>b\<in>set bs. {fst b..<snd b})" using Cons.IH[OF K(1,2) ne bs] by blast
  then show ?case using q1(1) b(1) K(4) by (intro exI[of _ q']) auto
qed simp

lemma clear_in_nonempty: "\<forall>x\<in>set xs. fst x < snd x \<Longrightarrow> x \<in> set (clear_in seq xs) \<Longrightarrow> fst x < snd x"
  by (induction xs) (auto split: if_splits)

lemma cleared:
  assumes "rq_sound q" and "\<forall>x\<in>set (ivs q). fst x < snd x" and "rcv_nxt q \<notin> bytes (ivs q)"
  defines "q' \<equiv> snd (cleartonxt q)"
  shows "rq_sound q'" and "rcv_ok q'" and "\<forall>x\<in>set (ivs q'). fst x < snd x" and "bytes (ivs q') = bytes (ivs q) \<inter> {rcv_nxt q..}" and "rcv_nxt q' = rcv_nxt q"
proof -
  note C = clearto_ok[OF assms(1), of "rcv_nxt q"]
  show "rq_sound q'" and b: "bytes (ivs q') = bytes (ivs q) \<inter> {rcv_nxt q..}" and r: "rcv_nxt q' = rcv_nxt q"
    using C by (simp_all add: q'_def cleartonxt_def)
  have "ids_ok q" "rq_total q = iv_sum (ivs q)" using assms(1) by (simp_all add: rq_sound_def)
  then have "ivs q' = clear_in (rcv_nxt q) (ivs q)"
    using clear_blocks_ok[of q "rcv_nxt q" 0] by (auto simp: q'_def cleartonxt_def clearto_def)
  then show ne: "\<forall>x\<in>set (ivs q'). fst x < snd x" using clear_in_nonempty[OF assms(2)] by simp
  have "rcv_nxt q' < fst x" if "x \<in> set (ivs q')" for x
  proof -
    have "fst x \<in> bytes (ivs q')" using that ne by (auto simp: bytes_mem)
    then show ?thesis using b r assms(3) by (metis IntD1 IntD2 atLeast_iff order.order_iff_strict)
  qed
  then show "rcv_ok q'" by (simp add: rcv_ok_def)
qed

text \<open>An acknowledgement: what it acknowledges is forgotten, what its blocks report is added.\<close>

lemma update_sb_ok:
  assumes ok: "sb_ok sb" and bs: "\<forall>b\<in>set blocks. fst b < snd b" and hole: "last_ack + 1 \<notin> sb_sacked sb"
  shows "\<exists>sb'. UpdateScoreBoard last_ack blocks sb = Inr sb' \<and> sb_ok sb' \<and> h_seqno sb' = h_seqno sb \<and>
    sb_sacked sb' = (if rcv_nxt (sb_rq sb) \<le> last_ack then sb_sacked sb \<inter> {last_ack + 1..} else sb_sacked sb) \<union> (\<Union>b\<in>set blocks. {fst b..<snd b})"
proof -
  let ?q = "sb_rq sb" and ?z = "(sb_rq sb)\<lparr>rcv_nxt := last_ack + 1\<rparr>"
  have q: "rq_sound ?q" "rcv_ok ?q" "\<forall>x\<in>set (ivs ?q). fst x < snd x" using ok by (simp_all add: sb_ok_def)
  have q0: "rq_sound ?z" "\<forall>x\<in>set (ivs ?z). fst x < snd x" "rcv_nxt ?z \<notin> bytes (ivs ?z)"
    using q hole by (simp_all add: rq_sound_def sb_sacked_def)
  obtain c q1 where q1: "(if rcv_nxt ?q \<le> last_ack then (if rq_empty ?z then (False, ?z) else (True, snd (cleartonxt ?z))) else (False, ?q)) = (c, q1)"
    by (metis surj_pair)
  have Q: "rq_sound q1 \<and> rcv_ok q1 \<and> (\<forall>x\<in>set (ivs q1). fst x < snd x) \<and>
      bytes (ivs q1) = (if rcv_nxt ?q \<le> last_ack then sb_sacked sb \<inter> {last_ack + 1..} else sb_sacked sb)"
  proof (cases "rcv_nxt ?q \<le> last_ack")
    case True
    show ?thesis
    proof (cases "rq_empty ?z")
      case E: True
      then have "ivs ?z = []" "q1 = ?z" "ivs ?q = []" using q1 True by (auto simp: rq_empty_def ivs_def)
      then show ?thesis using q0(1) True by (simp add: rcv_ok_def sb_sacked_def)
    next
      case False
      then have "q1 = snd (cleartonxt ?z)" using q1 True by auto
      then show ?thesis using cleared[OF q0] True by (simp add: sb_sacked_def)
    qed
  next
    case False
    then show ?thesis using q q1 by (auto simp: sb_sacked_def)
  qed
  then obtain q2 where q2: "add_blocks blocks q1 = Inr q2" "rq_sound q2 \<and> rcv_ok q2 \<and> (\<forall>x\<in>set (ivs q2). fst x < snd x)"
    "bytes (ivs q2) = bytes (ivs q1) \<union> (\<Union>b\<in>set blocks. {fst b..<snd b})" using add_blocks_ok[of q1 blocks] bs by blast
  have "UpdateScoreBoard last_ack blocks sb = Inr (sb\<lparr>sb_changed := c \<or> rq_total ?q \<noteq> rq_total q2, sb_rq := q2\<rparr>)"
    unfolding UpdateScoreBoard_def Let_def q1 prod.case q2(1) bind_r_simps ..
  then show ?thesis using q2(2,3) Q by (simp add: sb_ok_def sb_sacked_def)
qed

subsection \<open>What is retransmitted\<close>

definition sb_mark :: "score_board \<Rightarrow> int" where
  "sb_mark sb = max (h_seqno sb) (rcv_nxt (sb_rq sb))"

text \<open>The packets that are missing below a reported one.\<close>

definition sb_holes :: "score_board \<Rightarrow> int set" where
  "sb_holes sb = {n. sb_mark sb \<le> n \<and> n \<notin> sb_sacked sb \<and> (\<exists>m\<in>sb_sacked sb. n < m)}"

text \<open>\<^verbatim>\<open>GetNextRetran\<close> takes a first hole that is not above 0 for none.\<close>

definition sb_blind :: "score_board \<Rightarrow> bool" where
  "sb_blind sb \<longleftrightarrow> (\<exists>m\<in>sb_holes sb. m \<le> 0)"

lemma next_retran:
  assumes ok: "sb_ok sb"
  shows "\<exists>n h. GetNextRetran sb = (n, sb\<lparr>h_seqno := h\<rparr>) \<and>
    (if sb_holes sb = {} \<or> sb_blind sb then n = -1 \<and> h = sb_mark sb else n \<in> sb_holes sb \<and> (\<forall>m\<in>sb_holes sb. n \<le> m) \<and> h = n)"
proof -
  let ?S = "sb_sacked sb" and ?h = "sb_mark sb" and ?xs = "ivs (sb_rq sb)"
  have m: "(if h_seqno sb < rcv_nxt (sb_rq sb) then rcv_nxt (sb_rq sb) else h_seqno sb) = ?h" by (simp add: sb_mark_def max_def)
  obtain n cnt nb where nh: "nexthole ?h (sb_rq sb) = (n, cnt, nb)" by (metis prod_cases3)
  have ap: "apart (List.map iv (rq_fifo (sb_rq sb)))" and ne: "\<forall>x\<in>set ?xs. fst x < snd x" using ok by (simp_all add: sb_ok_def rq_sound_def ivs_def)
  have H: "hole_at ?h ?xs (n, cnt, nb)" using hole_in_ok[OF ap, of ?h] nh unfolding nexthole_def ivs_def by simp
  have run: "GetNextRetran sb = (if n > 0 then (if cnt \<le> 0 then (-1, sb\<lparr>h_seqno := ?h\<rparr>) else (n, sb\<lparr>h_seqno := (if n > ?h then n else ?h)\<rparr>)) else (-1, sb\<lparr>h_seqno := ?h\<rparr>))"
    unfolding GetNextRetran_def Let_def m nh prod.case ..
  have last: "\<exists>x\<in>set ?xs. m < snd x \<and> fst x \<le> m" if "m \<in> ?S" for m using that by (auto simp: sb_sacked_def bytes_mem)
  show ?thesis
  proof (cases "\<exists>x\<in>set ?xs. ?h \<le> snd x")
    case False
    then have "n = -1" using H unfolding hole_at_def by simp
    moreover have "sb_holes sb = {}" using False last unfolding sb_holes_def by fastforce
    ultimately show ?thesis using run by simp
  next
    case True
    then have h: "?h \<le> n" "{?h..<n} \<subseteq> ?S" "n \<notin> ?S" using H unfolding hole_at_def sb_sacked_def by simp_all
    let ?above = "filter (\<lambda>x. n < fst x) ?xs"
    have cnt: "if ?above = [] then cnt = -1 else cnt = int (length ?above)" using H True unfolding hole_at_def by (simp add: Let_def split: if_splits)
    have hole: "(\<exists>m\<in>?S. n < m) \<longleftrightarrow> ?above \<noteq> []"
    proof
      assume "\<exists>m\<in>?S. n < m"
      then obtain m x where x: "x \<in> set ?xs" "fst x \<le> m" "m < snd x" "n < m" using last by blast
      have "n < fst x" using h(3) x unfolding sb_sacked_def bytes_mem by force
      then show "?above \<noteq> []" using x(1) by (auto simp: filter_empty_conv)
    next
      assume "?above \<noteq> []"
      then obtain x where x: "x \<in> set ?xs" "n < fst x" by (auto simp: filter_empty_conv)
      then have "fst x \<in> ?S" using ne unfolding sb_sacked_def bytes_mem by force
      then show "\<exists>m\<in>?S. n < m" using x(2) by blast
    qed
    have least: "n \<le> m" if "m \<in> sb_holes sb" for m using that h(2) unfolding sb_holes_def by force
    show ?thesis
    proof (cases "?above = []")
      case E: True
      have "sb_holes sb = {}"
      proof (rule ccontr)
        assume "sb_holes sb \<noteq> {}"
        then obtain m where "m \<in> sb_holes sb" by blast
        then have "\<exists>m\<in>?S. n < m" using least[of m] unfolding sb_holes_def by force
        then show False using hole E by simp
      qed
      then show ?thesis using run cnt E by simp
    next
      case False
      then have n: "n \<in> sb_holes sb" using h hole by (auto simp: sb_holes_def)
      have c: "\<not> cnt \<le> 0" using cnt False by simp
      show ?thesis
      proof (cases "n > 0")
        case True
        then have "\<not> sb_blind sb" using least unfolding sb_blind_def by force
        then show ?thesis using run h(1) c n True least by (intro exI[of _ n] exI[of _ n]) auto
      next
        case False
        then have "sb_blind sb" using n unfolding sb_blind_def by (auto simp: not_less)
        then show ?thesis using run False by simp
      qed
    qed
  qed
qed

text \<open>Retransmitting while the scoreboard names a packet.\<close>

fun retransmits :: "nat \<Rightarrow> score_board \<Rightarrow> int list" where
  "retransmits 0 sb = []"
| "retransmits (Suc k) sb = (case GetNextRetran sb of (n, sb') \<Rightarrow> if n = -1 then [] else n # retransmits k (MarkRetran n sb'))"

lemma finite_holes: "finite (sb_holes sb)"
proof -
  have "sb_holes sb \<subseteq> (\<Union>m\<in>sb_sacked sb. {sb_mark sb..m})" unfolding sb_holes_def by (auto intro: less_imp_le)
  moreover have "finite (sb_sacked sb)" by (simp add: sb_sacked_def)
  ultimately show ?thesis by (meson finite_UN_I finite_atLeastAtMost_int finite_subset)
qed

lemma mark_next:
  assumes "sb_ok sb" and "n \<in> sb_holes sb" and "\<forall>m\<in>sb_holes sb. n \<le> m"
  defines "sb' \<equiv> MarkRetran n (sb\<lparr>h_seqno := n\<rparr>)"
  shows "sb_ok sb'" and "sb_holes sb' = sb_holes sb - {n}"
proof -
  have e: "sb' = sb\<lparr>h_seqno := n + 1\<rparr>" by (simp add: sb'_def MarkRetran_def)
  have n: "sb_mark sb \<le> n" using assms(2) by (simp add: sb_holes_def)
  then have m: "sb_mark sb' = n + 1" by (simp add: sb_mark_def e)
  show "sb_ok sb'" using assms(1) by (simp add: sb_ok_def e)
  have S: "sb_sacked sb' = sb_sacked sb" by (simp add: sb_sacked_def e)
  show "sb_holes sb' = sb_holes sb - {n}"
  proof
    show "sb_holes sb' \<subseteq> sb_holes sb - {n}" using n unfolding sb_holes_def m S by force
    show "sb_holes sb - {n} \<subseteq> sb_holes sb'"
    proof
      fix x assume x: "x \<in> sb_holes sb - {n}"
      then have "n \<le> x" "x \<noteq> n" using assms(3) by auto
      then show "x \<in> sb_holes sb'" using x unfolding sb_holes_def m S by auto
    qed
  qed
qed

text \<open>C33: The packets that the scoreboard names for retransmission are all the packets that are missing below a
  reported one and not below its mark, each once, the lowest first, and then none; but when one of them has a
  number that is not above 0 it names nothing at all.\<close>

theorem scoreboard_retransmits_holes:
  assumes "sb_ok sb" and "card (sb_holes sb) \<le> k"
  shows "retransmits k sb = (if \<exists>m\<in>sb_holes sb. m \<le> 0 then [] else sorted_list_of_set (sb_holes sb))"
  using assms
proof (induction k arbitrary: sb)
  case 0
  then have "sb_holes sb = {}" using finite_holes by simp
  then show ?case by simp
next
  case (Suc k)
  obtain n h where g: "GetNextRetran sb = (n, sb\<lparr>h_seqno := h\<rparr>)"
    "if sb_holes sb = {} \<or> sb_blind sb then n = -1 \<and> h = sb_mark sb else n \<in> sb_holes sb \<and> (\<forall>m\<in>sb_holes sb. n \<le> m) \<and> h = n"
    using next_retran[OF Suc.prems(1)] by blast
  show ?case
  proof (cases "sb_holes sb = {} \<or> sb_blind sb")
    case True
    then show ?thesis using g by (auto simp: sb_blind_def)
  next
    case False
    then have n: "n \<in> sb_holes sb" "\<forall>m\<in>sb_holes sb. n \<le> m" "h = n" and pos: "\<not> (\<exists>m\<in>sb_holes sb. m \<le> 0)"
      using g(2) by (simp_all add: sb_blind_def)
    note M = mark_next[OF Suc.prems(1) n(1,2)]
    have "n \<noteq> -1" using n(1) pos by auto
    moreover have "retransmits k (MarkRetran n (sb\<lparr>h_seqno := n\<rparr>)) = sorted_list_of_set (sb_holes sb - {n})"
      using Suc.IH[OF M(1)] M(2) Suc.prems(2) n(1) pos finite_holes[of sb] by simp
    moreover have "sorted_list_of_set (sb_holes sb) = n # sorted_list_of_set (sb_holes sb - {n})"
    proof -
      have "n = Min (sb_holes sb)" using n(1,2) finite_holes by (metis Min_eqI)
      then show ?thesis using False finite_holes[of sb] by (simp add: sorted_list_of_set_nonempty)
    qed
    ultimately show ?thesis using g(1) n(3) pos by simp
  qed
qed

definition ex_board :: score_board where
  "ex_board = \<lparr> sb_changed = False, h_seqno = -1, sb_rq = two_blocks \<rparr>"

theorem scoreboard_retransmits_holes_witness:
  "retransmits 15 ex_board = sorted_list_of_set (sb_holes ex_board) \<and> retransmits 15 ex_board = [5..9] @ [20..29]"
proof
  have ok: "sb_ok ex_board" using two_blocks_sound(1,2) by (simp add: sb_ok_def ex_board_def) (simp add: two_blocks_def ivs_def iv_def)
  have m: "sb_mark ex_board = 5" by (simp add: sb_mark_def ex_board_def two_blocks_def)
  have S: "sb_sacked ex_board = {10..<20} \<union> {30..<40}" by (simp add: sb_sacked_def ex_board_def two_blocks_def ivs_def iv_def)
  have "sb_holes ex_board \<subseteq> {5..9} \<union> {20..29}" by (auto simp: sb_holes_def m S)
  then have "card (sb_holes ex_board) \<le> card ({5..9::int} \<union> {20..29})" by (rule card_mono[rotated]) simp
  also have "\<dots> = 15" by (subst card_Un_disjoint) auto
  finally have "retransmits 15 ex_board = (if \<exists>m\<in>sb_holes ex_board. m \<le> 0 then [] else sorted_list_of_set (sb_holes ex_board))"
    by (intro scoreboard_retransmits_holes) (simp_all add: ok)
  moreover have "\<not> (\<exists>m\<in>sb_holes ex_board. m \<le> 0)" by (auto simp: sb_holes_def m)
  ultimately show "retransmits 15 ex_board = sorted_list_of_set (sb_holes ex_board)" by (simp only: if_False)
  show "retransmits 15 ex_board = [5..9] @ [20..29]" by code_simp
qed

end
