(* ===== verification/SackSession.thy ===== *)
theory SackSession
  imports ScoreBoard
begin

text \<open>
  A SACK connection: the receiver \<^verbatim>\<open>TcpSink\<close> with \<^verbatim>\<open>Sacker\<close>, a network that delivers data packets
  and acknowledgements in any order, late, more than once or not at all, and the scoreboard of
  the sender.  The sender takes the highest acknowledgement so far and updates its scoreboard
  with it or does not; it may clear the scoreboard, ask for a packet to retransmit and mark it
  at any time.
\<close>

inductive sack_session :: "(int \<Rightarrow> int) \<Rightarrow> int set \<Rightarrow> tcp_sink \<Rightarrow> tcp_pkt set \<Rightarrow> int \<Rightarrow> score_board \<Rightarrow> bool" for sz where
  session_start: "sink_reach sz s {} s \<Longrightarrow> sack_session sz {} s {} (-1) new_ScoreBoardRQ"
| session_data: "sack_session sz R s net H sb \<Longrightarrow> data_pkt sz p \<Longrightarrow> \<not> tp_ts p < sk_lastreset s \<Longrightarrow> sink_recv now p s = Inr (out, s') \<Longrightarrow>
    sack_session sz (insert (tp_seqno p) R) s' (net \<union> {ack. SendAck ack \<in> set out}) H sb"
| session_ack: "sack_session sz R s net H sb \<Longrightarrow> ack \<in> net \<Longrightarrow> UpdateScoreBoard (max H (tp_seqno ack)) (tp_sack ack) sb = Inr sb' \<Longrightarrow>
    sack_session sz R s net (max H (tp_seqno ack)) sb'"
| session_skip: "sack_session sz R s net H sb \<Longrightarrow> ack \<in> net \<Longrightarrow> sack_session sz R s net (max H (tp_seqno ack)) sb"
| session_clear: "sack_session sz R s net H sb \<Longrightarrow> sack_session sz R s net H (ClearScoreBoard sb)"
| session_next: "sack_session sz R s net H sb \<Longrightarrow> sack_session sz R s net H (snd (GetNextRetran sb))"
| session_mark: "sack_session sz R s net H sb \<Longrightarrow> sack_session sz R s net H (MarkRetran n sb)"

text \<open>For each acknowledgement the packets that had arrived when it was sent, a chain; and those that
  the sender has heard of.\<close>

definition heard :: "int set \<Rightarrow> tcp_pkt set \<Rightarrow> int \<Rightarrow> score_board \<Rightarrow> (tcp_pkt \<Rightarrow> int set) \<Rightarrow> int set \<Rightarrow> bool" where
  "heard R net H sb f K \<longleftrightarrow> (\<forall>a\<in>net. truthful (f a) a \<and> f a \<subseteq> R \<and> (f a \<subseteq> K \<or> K \<subseteq> f a)) \<and>
     (\<forall>a\<in>net. \<forall>b\<in>net. f a \<subseteq> f b \<or> f b \<subseteq> f a) \<and> K \<subseteq> R \<and> -1 \<le> H \<and> {0..H} \<subseteq> K \<and> H + 1 \<notin> K \<and> sb_ok sb \<and> sb_sacked sb \<subseteq> K"

lemma heard_ack:
  assumes h: "heard R net H sb f K" and a: "a \<in> net"
  shows "heard R net (max H (tp_seqno a)) sb f (K \<union> f a)"
proof -
  have t: "-1 \<le> tp_seqno a" "{0..tp_seqno a} \<subseteq> f a" "tp_seqno a + 1 \<notin> f a" "f a \<subseteq> R" and K: "-1 \<le> H" "{0..H} \<subseteq> K" "H + 1 \<notin> K"
    using h a by (auto simp: heard_def truthful_def)
  have chain: "f b \<subseteq> K \<union> f a \<or> K \<union> f a \<subseteq> f b" if "b \<in> net" for b using h a that unfolding heard_def by blast
  consider "f a \<subseteq> K" | "K \<subseteq> f a" using h a unfolding heard_def by blast
  then have "{0..max H (tp_seqno a)} \<subseteq> K \<union> f a \<and> max H (tp_seqno a) + 1 \<notin> K \<union> f a"
  proof cases
    case 1
    have "tp_seqno a \<le> H"
    proof (rule ccontr)
      assume "\<not> tp_seqno a \<le> H"
      then have "H + 1 \<in> {0..tp_seqno a}" using K(1) by simp
      then show False using t(2) 1 K(3) by blast
    qed
    then show ?thesis using 1 K(2,3) by (simp add: max_absorb1 Un_absorb2)
  next
    case 2
    have "H \<le> tp_seqno a"
    proof (rule ccontr)
      assume "\<not> H \<le> tp_seqno a"
      then have "tp_seqno a + 1 \<in> {0..H}" using t(1) by simp
      then show False using K(2) 2 t(3) by blast
    qed
    then show ?thesis using 2 t(2,3) by (simp add: max_absorb2 Un_absorb1)
  qed
  then show ?thesis using h t(4) chain K(1) unfolding heard_def by auto
qed

lemma truthful_blocks: "truthful R a \<Longrightarrow> b \<in> set (tp_sack a) \<Longrightarrow> fst b < snd b \<and> {fst b..<snd b} \<subseteq> R"
  by (auto simp: truthful_def good_block_def)

lemma heard_update:
  assumes h: "heard R net H sb f K" and a: "a \<in> net"
  shows "\<exists>sb'. UpdateScoreBoard (max H (tp_seqno a)) (tp_sack a) sb = Inr sb' \<and> heard R net (max H (tp_seqno a)) sb' f (K \<union> f a)"
proof -
  note h' = heard_ack[OF h a]
  have ok: "sb_ok sb" and hole: "max H (tp_seqno a) + 1 \<notin> sb_sacked sb" using h' by (auto simp: heard_def)
  have tr: "truthful (f a) a" using h a by (simp add: heard_def)
  have bs: "\<forall>b\<in>set (tp_sack a). fst b < snd b" using truthful_blocks[OF tr] by blast
  obtain sb' where u: "UpdateScoreBoard (max H (tp_seqno a)) (tp_sack a) sb = Inr sb'" "sb_ok sb'"
    "sb_sacked sb' = (if rcv_nxt (sb_rq sb) \<le> max H (tp_seqno a) then sb_sacked sb \<inter> {max H (tp_seqno a) + 1..} else sb_sacked sb) \<union> (\<Union>b\<in>set (tp_sack a). {fst b..<snd b})"
    using update_sb_ok[OF ok bs hole] by blast
  then have u3: "sb_sacked sb' \<subseteq> sb_sacked sb \<union> (\<Union>b\<in>set (tp_sack a). {fst b..<snd b})" by (auto split: if_splits)
  have "sb_sacked sb' \<subseteq> K \<union> f a" using u3 truthful_blocks[OF tr] h unfolding heard_def by blast
  then show ?thesis using h' u(1,2) unfolding heard_def by blast
qed

lemma clear_sb_ok: "sb_ok (ClearScoreBoard sb) \<and> sb_sacked (ClearScoreBoard sb) = {}"
  by (simp add: ClearScoreBoard_def sb_ok_def sb_sacked_def rq_clear_def rq_sound_def rcv_ok_def ivs_def only_last_empty_def ids_ok_def)

lemma next_sb_ok: "sb_ok (snd (GetNextRetran sb)) = sb_ok sb \<and> sb_sacked (snd (GetNextRetran sb)) = sb_sacked sb"
  by (simp add: GetNextRetran_def Let_def sb_ok_def sb_sacked_def split: prod.split)

lemma mark_sb_ok: "sb_ok (MarkRetran n sb) = sb_ok sb \<and> sb_sacked (MarkRetran n sb) = sb_sacked sb"
  by (simp add: MarkRetran_def sb_ok_def sb_sacked_def)

lemma session_ok:
  assumes "sack_session sz R s net H sb"
  shows "sink_ok sz R s \<and> (\<forall>i\<in>R. hdr_len \<le> sz i) \<and> (\<exists>f K. heard R net H sb f K)"
  using assms
proof (induction rule: sack_session.induct)
  case (session_start s)
  have "heard {} {} (-1) new_ScoreBoardRQ (\<lambda>_. {}) {}"
    by (simp add: heard_def sb_ok_def sb_sacked_def new_ScoreBoardRQ_def new_ReassemblyQueue_def rq_sound_def rcv_ok_def ivs_def only_last_empty_def ids_ok_def)
  then show ?case using sink_reach_ok[OF session_start] by blast
next
  case (session_data R s net H sb p now out s')
  obtain f K where h: "heard R net H sb f K" using session_data.IH by blast
  obtain ack s1 where st: "sink_recv now p s = Inr (delivery sz (a_next (sk_acker s)) (a_next (sk_acker s1)) @ [SendAck ack], s1)"
    "truthful (insert (tp_seqno p) R) ack" "sink_ok sz (insert (tp_seqno p) R) s1"
    using sink_step[of sz R s p now] session_data by blast
  have net: "{a. SendAck a \<in> set out} = {ack}" "s' = s1" using st(1) session_data.hyps(4) by (auto simp: delivery_def Let_def)
  let ?R = "insert (tp_seqno p) R"
  let ?f = "if ack \<in> net then f else f(ack := ?R)"
  have "heard ?R (net \<union> {ack}) H sb ?f K"
    using h st(2) unfolding heard_def by (cases "ack \<in> net") (auto simp: insert_absorb)
  then show ?case using st(3) session_data net by (auto simp: data_pkt_def)
next
  case (session_ack R s net H sb ack sb')
  then obtain f K where "heard R net H sb f K" by blast
  from heard_update[OF this session_ack.hyps(2)] session_ack show ?case by auto
next
  case (session_skip R s net H sb ack)
  then obtain f K where "heard R net H sb f K" by blast
  from heard_ack[OF this session_skip.hyps(2)] session_skip show ?case by blast
next
  case (session_clear R s net H sb)
  then show ?case using clear_sb_ok[of sb] unfolding heard_def by (metis empty_subsetI)
next
  case (session_next R s net H sb)
  then show ?case using next_sb_ok[of sb] unfolding heard_def by metis
next
  case (session_mark R s net H sb n)
  then show ?case using mark_sb_ok[of n sb] unfolding heard_def by metis
qed

text \<open>C15: Whatever the network does: what the sender believes to be received, by the highest
  acknowledgement or by its scoreboard, was received, and the scoreboard takes every
  acknowledgement without an error.\<close>

theorem sack_sender_knows_truth:
  assumes "sack_session sz R s net H sb"
  shows "{0..H} \<subseteq> R \<and> sb_sacked sb \<subseteq> R \<and> (\<forall>ack\<in>net. \<exists>sb'. UpdateScoreBoard (max H (tp_seqno ack)) (tp_sack ack) sb = Inr sb' \<and> sb_sacked sb' \<subseteq> R)"
proof -
  obtain f K where h: "heard R net H sb f K" using session_ok[OF assms] by blast
  have "\<exists>sb'. UpdateScoreBoard (max H (tp_seqno ack)) (tp_sack ack) sb = Inr sb' \<and> sb_sacked sb' \<subseteq> R" if a: "ack \<in> net" for ack
  proof -
    obtain sb' where u: "UpdateScoreBoard (max H (tp_seqno ack)) (tp_sack ack) sb = Inr sb'" "heard R net (max H (tp_seqno ack)) sb' f (K \<union> f ack)"
      using heard_update[OF h a] by blast
    then show ?thesis unfolding heard_def by blast
  qed
  then show ?thesis using h unfolding heard_def by blast
qed

text \<open>A sender whose packets 0 and 2 arrived.\<close>

theorem sack_sender_knows_truth_witness:
  "\<exists>s ack sb. sink_recv 1 (ex_data 2) ex_tcp_sink = Inr ([SendAck ack], s) \<and> UpdateScoreBoard (-1) (tp_sack ack) new_ScoreBoardRQ = Inr sb \<and> sb_sacked sb \<subseteq> {2}"
proof -
  have "case sink_recv 1 (ex_data 2) ex_tcp_sink of Inl _ \<Rightarrow> False | Inr (out, s') \<Rightarrow> List.map (\<lambda>x. case x of SendAck ack \<Rightarrow> Some (tp_seqno ack) | RecvBytes n \<Rightarrow> None) out = [Some (-1)]" by code_simp
  then obtain ack s where r: "sink_recv 1 (ex_data 2) ex_tcp_sink = Inr ([SendAck ack], s)" "tp_seqno ack = -1"
    by (auto split: sum.splits sink_out.splits simp: map_eq_Cons_conv) (metis sink_out.exhaust)
  have "sack_session (\<lambda>_. 1040) {2} s {ack} (-1) new_ScoreBoardRQ"
    using session_data[OF session_start[OF ex_sink_start] _ _ r(1)] by simp
  from sack_sender_knows_truth[OF this] show ?thesis using r by auto
qed

text \<open>Packet 0 is never named for retransmission.\<close>

lemma packet_zero_not_retransmitted:
  "bind_r (UpdateScoreBoard (-1) [(1, 3)] new_ScoreBoardRQ) (\<lambda>sb. Inr (fst (GetNextRetran sb))) = Inr (-1)"
  by code_simp

end
