(* ===== verification/TcpRtt.thy ===== *)
theory TcpRtt
  imports Timer
begin

text \<open>
  The round trip estimate and the retransmission time of the TCP senders (\<^verbatim>\<open>tcp/tcp.cc\<close>), in ticks of
  the clock as integers with fractional bits.  \<^verbatim>\<open>delta\<close> is a \<^verbatim>\<open>short\<close> and wraps around.
\<close>

record rtt_conf =
  tcp_tick :: rat
  srtt_init :: int
  rttvar_init :: int
  rtxcur_init :: rat
  T_SRTT_BITS :: nat
  T_RTTVAR_BITS :: nat
  rttvar_exp :: nat
  maxrto :: rat
  minrto :: rat
  rfc2988 :: bool
  ts_option :: bool

record rtt_state =
  t_rtt :: int
  t_srtt :: int
  t_rttvar :: int
  t_backoff :: int
  t_rtxcur :: rat
  use_rtt :: bool
  boot_time :: rat

definition short_of_int :: "int \<Rightarrow> int" where
  "short_of_int i = signed_take_bit 15 i"

definition rtt_fmod :: "rat \<Rightarrow> rat \<Rightarrow> rat" where
  "rtt_fmod x y = x - y * of_int (int_of_double (x / y))"

definition rtt_init :: "rtt_conf \<Rightarrow> rtt_state \<Rightarrow> rtt_state result" where
  "rtt_init c s =
    (if tcp_tick c = 0 then Inl DivByZero
     else Inr (s\<lparr>t_rtt := 0, t_srtt := push_bit (T_SRTT_BITS c) (int_of_double (of_int (srtt_init c) / tcp_tick c)),
       t_rttvar := push_bit (T_RTTVAR_BITS c) (int_of_double (of_int (rttvar_init c) / tcp_tick c)),
       t_rtxcur := rtxcur_init c, t_backoff := 1\<rparr>))"

definition rtt_timeout :: "rtt_conf \<Rightarrow> rtt_state \<Rightarrow> (rat \<times> rtt_state) result" where
  "rtt_timeout c s =
    (let b = of_int (t_backoff s);
         t1 = (if rfc2988 c then (if t_rtxcur s < minrto c \<and> \<not> use_rtt s then minrto c * b else t_rtxcur s * b)
               else max (minrto c) (t_rtxcur s * b));
         t2 = (if t1 > maxrto c then maxrto c else t1)
     in if t2 < 2 * tcp_tick c
        then (if t2 < 0 then Inl Exit
              else Inr (if use_rtt s \<and> t2 < tcp_tick c then tcp_tick c else 2 * tcp_tick c, s\<lparr>use_rtt := False\<rparr>))
        else Inr (t2, s\<lparr>use_rtt := False\<rparr>))"

definition srtt_step :: "nat \<Rightarrow> int \<Rightarrow> int \<Rightarrow> int" where
  "srtt_step bits m srtt = (let x = srtt + short_of_int (m - drop_bit bits srtt) in if x \<le> 0 then 1 else x)"

definition rttvar_step :: "nat \<Rightarrow> nat \<Rightarrow> int \<Rightarrow> int \<Rightarrow> int \<Rightarrow> int" where
  "rttvar_step sbits vbits m srtt rttvar =
    (let d = short_of_int (m - drop_bit sbits srtt);
         a = (if d < 0 then short_of_int (- d) else d);
         x = rttvar + short_of_int (a - drop_bit vbits rttvar)
     in if x \<le> 0 then 1 else x)"

definition rtt_update :: "rtt_conf \<Rightarrow> rat \<Rightarrow> rat \<Rightarrow> rtt_state \<Rightarrow> rtt_state result" where
  "rtt_update c now tao s =
    (if tcp_tick c = 0 then Inl DivByZero
     else (let m0 = (if ts_option c then int_of_double (tao / tcp_tick c + 1 / 2)
                 else int_of_double ((tao + rtt_fmod (now - tao + boot_time s) (tcp_tick c)) / tcp_tick c));
               m = (if m0 < 1 then 1 else m0);
               (srtt, rttvar) = (if t_srtt s \<noteq> 0
                 then (srtt_step (T_SRTT_BITS c) m (t_srtt s), rttvar_step (T_SRTT_BITS c) (T_RTTVAR_BITS c) m (t_srtt s) (t_rttvar s))
                 else (push_bit (T_SRTT_BITS c) m, push_bit (T_RTTVAR_BITS c - 1) m))
           in Inr (s\<lparr>t_rtt := m, t_srtt := srtt, t_rttvar := rttvar,
             t_rtxcur := of_int (drop_bit (T_SRTT_BITS c) (push_bit (rttvar_exp c + T_SRTT_BITS c - T_RTTVAR_BITS c) rttvar + srtt)) * tcp_tick c\<rparr>)))"

text \<open>The condition of the backoff calls \<^verbatim>\<open>rtt_timeout\<close>, which resets \<^verbatim>\<open>use_rtt_\<close>.\<close>

definition rtt_backoff :: "rtt_conf \<Rightarrow> rtt_state \<Rightarrow> rtt_state result" where
  "rtt_backoff c s =
    bind_r (if t_backoff s < 64 then Inr (True, s)
            else if rfc2988 c then bind_r (rtt_timeout c s) (\<lambda>(t, s'). Inr (t < maxrto c, s'))
            else Inr (False, s)) (\<lambda>(more, s1).
      let s2 = (if more then s1\<lparr>t_backoff := 2 * t_backoff s1\<rparr> else s1)
      in Inr (if t_backoff s2 > 8 then s2\<lparr>t_rttvar := t_rttvar s2 + drop_bit (T_SRTT_BITS c) (t_srtt s2), t_srtt := 0\<rparr> else s2))"

subsection \<open>Bounds of the timeout\<close>

text \<open>The timeout is never longer than \<^verbatim>\<open>maxrto_\<close> and never shorter than two ticks, or one if the round trip
  time is to be used as it is; with the timers of RFC 2988 it is at least \<^verbatim>\<open>minrto_\<close> as well.\<close>

theorem rtt_timeout_bounds:
  assumes "0 < tcp_tick c" and "2 * tcp_tick c \<le> maxrto c" and "0 \<le> t_rtxcur s" and "1 \<le> t_backoff s" and "0 \<le> minrto c"
  shows "\<exists>t. rtt_timeout c s = Inr (t, s\<lparr>use_rtt := False\<rparr>) \<and> t \<le> maxrto c \<and> tcp_tick c \<le> t \<and> (\<not> use_rtt s \<longrightarrow> 2 * tcp_tick c \<le> t \<and> min (minrto c) (maxrto c) \<le> t)"
proof -
  let ?b = "of_int (t_backoff s) :: rat"
  have b: "1 \<le> ?b" using assms(4) by simp
  have m: "minrto c \<le> minrto c * ?b" "0 \<le> minrto c * ?b" "0 \<le> t_rtxcur s * ?b"
    using b assms(3,5) by (simp_all add: mult_le_cancel_left1)
  have r: "t_rtxcur s \<le> t_rtxcur s * ?b" using b assms(3) by (simp add: mult_le_cancel_left1)
  show ?thesis using assms(1,2) m r by (auto simp: rtt_timeout_def Let_def)
qed

subsection \<open>Backing off\<close>

text \<open>The multiplier is doubled up to 64; with the timers of RFC 2988 for as long as the timeout is shorter
  than \<^verbatim>\<open>maxrto_\<close>.\<close>

lemma rtt_backoff_multiplier:
  assumes "rtt_backoff c s = Inr s'" and "1 \<le> t_backoff s"
  shows "t_backoff s' = t_backoff s \<or> t_backoff s' = 2 * t_backoff s" and "\<not> rfc2988 c \<Longrightarrow> t_backoff s \<le> 64 \<Longrightarrow> t_backoff s' \<le> 126"
  using assms by (auto simp: rtt_backoff_def rtt_timeout_def Let_def split: if_splits)

subsection \<open>A steady round trip time\<close>

lemma short_small: "- 32768 \<le> i \<Longrightarrow> i < 32768 \<Longrightarrow> short_of_int i = i"
  unfolding short_of_int_def by (rule signed_take_bit_int_eq_self) simp_all

definition steady_step :: "int \<Rightarrow> int \<times> int \<Rightarrow> int \<times> int" where
  "steady_step m s = (srtt_step 3 m (fst s), rttvar_step 3 2 m (fst s) (snd s))"

lemma srtt_steady:
  assumes "0 < m" and "m < 32768" and "0 < x" and "x < 262144"
  shows "srtt_step 3 m x = x + (m - x div 8)" and "0 < srtt_step 3 m x" and "srtt_step 3 m x < 262144"
    and "x < 8 * m \<Longrightarrow> x < srtt_step 3 m x \<and> srtt_step 3 m x \<le> 8 * m" and "8 * m + 7 < x \<Longrightarrow> srtt_step 3 m x < x \<and> 8 * m + 7 \<le> srtt_step 3 m x"
    and "8 * m \<le> x \<Longrightarrow> x \<le> 8 * m + 7 \<Longrightarrow> srtt_step 3 m x = x"
proof -
  have d: "drop_bit 3 x = x div 8" by (simp add: drop_bit_eq_div)
  have "short_of_int (m - x div 8) = m - x div 8" by (rule short_small) (use assms in linarith)+
  moreover have "0 < x + (m - x div 8)" using assms by linarith
  ultimately show e: "srtt_step 3 m x = x + (m - x div 8)" by (simp add: srtt_step_def d)
  show "0 < srtt_step 3 m x" "srtt_step 3 m x < 262144" unfolding e using assms by linarith+
  show "x < 8 * m \<Longrightarrow> x < srtt_step 3 m x \<and> srtt_step 3 m x \<le> 8 * m" unfolding e by linarith
  show "8 * m + 7 < x \<Longrightarrow> srtt_step 3 m x < x \<and> 8 * m + 7 \<le> srtt_step 3 m x" unfolding e by linarith
  show "8 * m \<le> x \<Longrightarrow> x \<le> 8 * m + 7 \<Longrightarrow> srtt_step 3 m x = x" unfolding e by linarith
qed

lemma rttvar_steady:
  assumes "0 < m" and "m < 32768" and "8 * m \<le> x" and "x \<le> 8 * m + 7" and "0 \<le> v" and "v < 131072"
  shows "rttvar_step 3 2 m x v = (let w = v - v div 4 in if w \<le> 0 then 1 else w)"
proof -
  have "drop_bit 3 x = m" using assms(3,4) by (simp add: drop_bit_eq_div)
  moreover have "short_of_int (- (v div 4)) = - (v div 4)" by (rule short_small) (use assms(5,6) in linarith)+
  ultimately show ?thesis using short_small[of 0] by (simp add: rttvar_step_def Let_def drop_bit_eq_div)
qed

lemma rttvar_range:
  assumes "0 < m" and "m < 32768" and "0 < x" and "x < 262144" and "0 \<le> v" and "v < 131072"
  shows "1 \<le> rttvar_step 3 2 m x v" and "rttvar_step 3 2 m x v < 131072"
proof -
  have d: "drop_bit 3 x = x div 8" "drop_bit 2 v = v div 4" by (simp_all add: drop_bit_eq_div)
  have s: "short_of_int (m - x div 8) = m - x div 8" by (rule short_small) (use assms in linarith)+
  define a where "a = \<bar>m - x div 8\<bar>"
  have a: "0 \<le> a" "a < 32768" using assms by (simp_all add: a_def)
  have "(if m - x div 8 < 0 then short_of_int (- (m - x div 8)) else m - x div 8) = a"
    using assms short_small[of "- (m - x div 8)"] by (simp add: a_def)
  moreover have "short_of_int (a - v div 4) = a - v div 4" by (rule short_small) (use a assms in linarith)+
  ultimately have e: "rttvar_step 3 2 m x v = (let w = v + (a - v div 4) in if w \<le> 0 then 1 else w)"
    unfolding rttvar_step_def Let_def s d by simp
  show "1 \<le> rttvar_step 3 2 m x v" unfolding e Let_def by simp
  show "rttvar_step 3 2 m x v < 131072" unfolding e Let_def using a assms by simp linarith
qed

lemma srtt_converges:
  assumes "0 < m" and "m < 32768" and "0 < x" and "x < 262144"
  shows "\<exists>N. \<forall>n\<ge>N. 8 * m \<le> (srtt_step 3 m ^^ n) x \<and> (srtt_step 3 m ^^ n) x \<le> 8 * m + 7"
  using assms(3,4)
proof (induction "nat (max (8 * m - x) (x - (8 * m + 7)))" arbitrary: x rule: less_induct)
  case less
  note S = srtt_steady[OF assms(1,2) less.prems]
  show ?case
  proof (cases "8 * m \<le> x \<and> x \<le> 8 * m + 7")
    case True
    have "(srtt_step 3 m ^^ n) x = x" for n using S(6) True by (induction n) simp_all
    then show ?thesis using True by auto
  next
    case False
    have "nat (max (8 * m - srtt_step 3 m x) (srtt_step 3 m x - (8 * m + 7))) < nat (max (8 * m - x) (x - (8 * m + 7)))"
      using S(4,5) False by linarith
    then obtain N where N: "\<forall>n\<ge>N. 8 * m \<le> (srtt_step 3 m ^^ n) (srtt_step 3 m x) \<and> (srtt_step 3 m ^^ n) (srtt_step 3 m x) \<le> 8 * m + 7"
      using less.hyps[OF _ S(2,3)] by blast
    have "8 * m \<le> (srtt_step 3 m ^^ n) x \<and> (srtt_step 3 m ^^ n) x \<le> 8 * m + 7" if n: "n \<ge> Suc N" for n
    proof -
      obtain k where "n = Suc k" "k \<ge> N" using n by (cases n) auto
      then show ?thesis using N by (simp add: funpow_swap1)
    qed
    then show ?thesis by blast
  qed
qed

lemma rttvar_converges:
  assumes "0 < m" and "m < 32768" and "8 * m \<le> x" and "x \<le> 8 * m + 7" and "0 \<le> v" and "v < 131072"
  shows "\<exists>N. \<forall>n\<ge>N. fst ((steady_step m ^^ n) (x, v)) = x \<and> 1 \<le> snd ((steady_step m ^^ n) (x, v)) \<and> snd ((steady_step m ^^ n) (x, v)) \<le> 3"
  using assms(5,6)
proof (induction "nat v" arbitrary: v rule: less_induct)
  case less
  have x: "0 < x" "x < 262144" using assms by linarith+
  have sx: "srtt_step 3 m x = x" using srtt_steady(6)[OF assms(1,2) x assms(3,4)] .
  define w where "w = rttvar_step 3 2 m x v"
  have w: "w = (if v - v div 4 \<le> 0 then 1 else v - v div 4)" using rttvar_steady[OF assms(1-4) less.prems] by (simp add: w_def Let_def)
  have st: "steady_step m (x, v) = (x, w)" by (simp add: steady_step_def sx w_def)
  show ?case
  proof (cases "4 \<le> v")
    case True
    then have "nat w < nat v" "0 \<le> w" "w < 131072" using w less.prems by auto
    from less.hyps[OF this] obtain N where N: "\<forall>n\<ge>N. fst ((steady_step m ^^ n) (x, w)) = x \<and> 1 \<le> snd ((steady_step m ^^ n) (x, w)) \<and> snd ((steady_step m ^^ n) (x, w)) \<le> 3" by blast
    have "fst ((steady_step m ^^ n) (x, v)) = x \<and> 1 \<le> snd ((steady_step m ^^ n) (x, v)) \<and> snd ((steady_step m ^^ n) (x, v)) \<le> 3" if n: "n \<ge> Suc N" for n
    proof -
      obtain k where "n = Suc k" "k \<ge> N" using n by (cases n) auto
      then show ?thesis using N st by (simp add: funpow_swap1)
    qed
    then show ?thesis by blast
  next
    case False
    then have w3: "1 \<le> w" "w \<le> 3" using w less.prems by auto
    have "steady_step m (x, w) = (x, w)" using rttvar_steady[OF assms(1-4), of w] w3 sx by (simp add: steady_step_def Let_def)
    then have "(steady_step m ^^ n) (x, w) = (x, w)" for n by (induction n) simp_all
    then have "(steady_step m ^^ n) (x, v) = (x, w)" if "n \<ge> 1" for n
      using that st by (cases n) (simp_all add: funpow_swap1)
    then show ?thesis using w3 by (intro exI[of _ 1]) simp
  qed
qed

lemma steady_converges:
  assumes "0 < m" and "m < 32768" and "0 < x" and "x < 262144" and "0 \<le> v" and "v < 131072"
  shows "\<exists>N. \<forall>n\<ge>N. let (x', v') = (steady_step m ^^ n) (x, v) in
    drop_bit 3 x' = m \<and> m + 1 \<le> drop_bit 3 (push_bit 3 v' + x') \<and> drop_bit 3 (push_bit 3 v' + x') \<le> m + 3"
proof -
  have F: "fst ((steady_step m ^^ n) (x, v)) = (srtt_step 3 m ^^ n) x \<and> 0 < fst ((steady_step m ^^ n) (x, v)) \<and> fst ((steady_step m ^^ n) (x, v)) < 262144 \<and>
      0 \<le> snd ((steady_step m ^^ n) (x, v)) \<and> snd ((steady_step m ^^ n) (x, v)) < 131072" for n
  proof (induction n)
    case (Suc n)
    let ?y = "fst ((steady_step m ^^ n) (x, v))" and ?w = "snd ((steady_step m ^^ n) (x, v))"
    have "0 < ?y" "?y < 262144" "0 \<le> ?w" "?w < 131072" using Suc by simp_all
    note S = srtt_steady(2,3)[OF assms(1,2) this(1,2)] and V = rttvar_range[OF assms(1,2) this]
    have "(steady_step m ^^ Suc n) (x, v) = (srtt_step 3 m ?y, rttvar_step 3 2 m ?y ?w)" by (simp add: steady_step_def)
    then show ?case using S V Suc by simp
  qed (use assms in simp)
  obtain N where N: "\<forall>n\<ge>N. 8 * m \<le> (srtt_step 3 m ^^ n) x \<and> (srtt_step 3 m ^^ n) x \<le> 8 * m + 7" using srtt_converges[OF assms(1-4)] by blast
  obtain y w where yw: "(steady_step m ^^ N) (x, v) = (y, w)" by (metis surj_pair)
  have y: "8 * m \<le> y" "y \<le> 8 * m + 7" "0 \<le> w" "w < 131072" using F[of N] N yw by auto
  obtain M where M: "\<forall>n\<ge>M. fst ((steady_step m ^^ n) (y, w)) = y \<and> 1 \<le> snd ((steady_step m ^^ n) (y, w)) \<and> snd ((steady_step m ^^ n) (y, w)) \<le> 3"
    using rttvar_converges[OF assms(1,2) y] by blast
  have "let (x', v') = (steady_step m ^^ n) (x, v) in drop_bit 3 x' = m \<and> m + 1 \<le> drop_bit 3 (push_bit 3 v' + x') \<and> drop_bit 3 (push_bit 3 v' + x') \<le> m + 3"
    if n: "n \<ge> M + N" for n
  proof -
    have "(steady_step m ^^ (n - N)) ((steady_step m ^^ N) (x, v)) = (steady_step m ^^ (n - N + N)) (x, v)" by (simp add: funpow_add)
    then have "(steady_step m ^^ n) (x, v) = (steady_step m ^^ (n - N)) (y, w)" using n yw by simp
    moreover have "n - N \<ge> M" using n by simp
    ultimately obtain v' where v': "(steady_step m ^^ n) (x, v) = (y, v')" "1 \<le> v'" "v' \<le> 3" using M by (metis prod.collapse)
    have "y div 8 = m" using y(1,2) by linarith
    then show ?thesis unfolding v'(1) using v'(2,3) by (simp add: drop_bit_eq_div push_bit_eq_mult)
  qed
  then show ?thesis by blast
qed

lemma update_steady:
  assumes "T_SRTT_BITS c = 3" and "T_RTTVAR_BITS c = 2" and "rttvar_exp c = 2" and "ts_option c" and "tcp_tick c \<noteq> 0"
    and "int_of_double (tao / tcp_tick c + 1 / 2) = m" and "0 < m" and "t_srtt s \<noteq> 0"
  shows "rtt_update c now tao s = (let (x, v) = steady_step m (t_srtt s, t_rttvar s) in
    Inr (s\<lparr>t_rtt := m, t_srtt := x, t_rttvar := v, t_rtxcur := of_int (drop_bit 3 (push_bit 3 v + x)) * tcp_tick c\<rparr>))"
  using assms by (simp add: rtt_update_def steady_step_def Let_def)

text \<open>C37: When the round trip time stays the same, \<^verbatim>\<open>m\<close> ticks, the timeout becomes one to three ticks more,
  from any estimate that a \<^verbatim>\<open>short\<close> can hold.\<close>

theorem rto_converges:
  assumes b: "T_SRTT_BITS c = 3" "T_RTTVAR_BITS c = 2" "rttvar_exp c = 2" "ts_option c" and t: "0 < tcp_tick c"
    and m: "int_of_double (tao / tcp_tick c + 1 / 2) = m" "0 < m" "m < 32768"
    and s: "0 < t_srtt s" "t_srtt s < 262144" "0 \<le> t_rttvar s" "t_rttvar s < 131072"
  shows "\<exists>N. \<forall>n\<ge>N. \<exists>s'. ((\<lambda>r. bind_r r (rtt_update c now tao)) ^^ n) (Inr s) = Inr s' \<and>
    of_int (m + 1) * tcp_tick c \<le> t_rtxcur s' \<and> t_rtxcur s' \<le> of_int (m + 3) * tcp_tick c"
proof -
  let ?u = "\<lambda>r. bind_r r (rtt_update c now tao)"
  have run: "\<exists>s'. (?u ^^ n) (Inr s) = Inr s' \<and> (t_srtt s', t_rttvar s') = (steady_step m ^^ n) (t_srtt s, t_rttvar s) \<and> 0 < t_srtt s' \<and> t_srtt s' < 262144 \<and>
      (0 < n \<longrightarrow> t_rtxcur s' = of_int (drop_bit 3 (push_bit 3 (t_rttvar s') + t_srtt s')) * tcp_tick c)" for n
  proof (induction n)
    case (Suc n)
    then obtain s1 where s1: "(?u ^^ n) (Inr s) = Inr s1" "(t_srtt s1, t_rttvar s1) = (steady_step m ^^ n) (t_srtt s, t_rttvar s)" "0 < t_srtt s1" "t_srtt s1 < 262144" by blast
    have nz: "t_srtt s1 \<noteq> 0" "tcp_tick c \<noteq> 0" using s1(3) t by simp_all
    obtain x v where xv: "steady_step m (t_srtt s1, t_rttvar s1) = (x, v)" by (metis surj_pair)
    have u: "rtt_update c now tao s1 = Inr (s1\<lparr>t_rtt := m, t_srtt := x, t_rttvar := v, t_rtxcur := of_int (drop_bit 3 (push_bit 3 v + x)) * tcp_tick c\<rparr>)"
      unfolding update_steady[OF b nz(2) m(1,2) nz(1)] xv by simp
    have "x = srtt_step 3 m (t_srtt s1)" using xv by (simp add: steady_step_def)
    then have "0 < x" "x < 262144" using srtt_steady(2,3)[OF m(2,3) s1(3,4)] by simp_all
    moreover have "(steady_step m ^^ Suc n) (t_srtt s, t_rttvar s) = (x, v)" using xv s1(2) by simp
    ultimately show ?case using s1(1) u by simp
  qed (use s in simp)
  obtain N where N: "\<forall>n\<ge>N. let (x', v') = (steady_step m ^^ n) (t_srtt s, t_rttvar s) in
      drop_bit 3 x' = m \<and> m + 1 \<le> drop_bit 3 (push_bit 3 v' + x') \<and> drop_bit 3 (push_bit 3 v' + x') \<le> m + 3"
    using steady_converges[OF m(2,3) s] by blast
  have "\<exists>s'. (?u ^^ n) (Inr s) = Inr s' \<and> of_int (m + 1) * tcp_tick c \<le> t_rtxcur s' \<and> t_rtxcur s' \<le> of_int (m + 3) * tcp_tick c" if n: "n \<ge> Suc N" for n
  proof -
    obtain s' where s': "(?u ^^ n) (Inr s) = Inr s'" "(t_srtt s', t_rttvar s') = (steady_step m ^^ n) (t_srtt s, t_rttvar s)"
      "0 < n \<longrightarrow> t_rtxcur s' = of_int (drop_bit 3 (push_bit 3 (t_rttvar s') + t_srtt s')) * tcp_tick c" using run by blast
    let ?d = "drop_bit 3 (push_bit 3 (t_rttvar s') + t_srtt s')"
    have "N \<le> n" using n by simp
    from N[rule_format, OF this] have d: "m + 1 \<le> ?d" "?d \<le> m + 3" unfolding s'(2)[symmetric] by simp_all
    then have "of_int (m + 1) * tcp_tick c \<le> of_int ?d * tcp_tick c" "of_int ?d * tcp_tick c \<le> of_int (m + 3) * tcp_tick c"
      using t by (intro mult_right_mono; simp only: of_int_le_iff; simp)+
    then show ?thesis using s' n by auto
  qed
  then show ?thesis by blast
qed

definition ex_rtt_ts :: rtt_conf where
  "ex_rtt_ts = \<lparr> tcp_tick = 1 / 100, srtt_init = 0, rttvar_init = 12, rtxcur_init = 3, T_SRTT_BITS = 3, T_RTTVAR_BITS = 2, rttvar_exp = 2,
     maxrto = 60, minrto = 1 / 5, rfc2988 = True, ts_option = True \<rparr>"

theorem rto_converges_witness:
  "\<exists>N. \<forall>n\<ge>N. \<exists>s'. ((\<lambda>r. bind_r r (rtt_update ex_rtt_ts 0 (1 / 20))) ^^ n)
      (Inr \<lparr> t_rtt = 0, t_srtt = 900, t_rttvar = 4, t_backoff = 1, t_rtxcur = 3, use_rtt = False, boot_time = 0 \<rparr>) = Inr s' \<and>
    of_int (5 + 1) * tcp_tick ex_rtt_ts \<le> t_rtxcur s' \<and> t_rtxcur s' \<le> of_int (5 + 3) * tcp_tick ex_rtt_ts"
proof (rule rto_converges)
  show "int_of_double (1 / 20 / tcp_tick ex_rtt_ts + 1 / 2) = 5" by code_simp
qed (simp_all add: ex_rtt_ts_def)

text \<open>The wrap around: a round trip time of 50000 ticks after one of 12 lowers the estimate to its least value.\<close>

lemma srtt_wraps: "srtt_step 3 50000 100 = 1"
  by (simp add: srtt_step_def short_of_int_def drop_bit_eq_div signed_take_bit_eq_take_bit_shift take_bit_eq_mod)

theorem rtt_timeout_bounds_witness:
  "\<exists>t. rtt_timeout \<lparr> tcp_tick = 1 / 100, srtt_init = 0, rttvar_init = 12, rtxcur_init = 3, T_SRTT_BITS = 3, T_RTTVAR_BITS = 2, rttvar_exp = 2,
     maxrto = 60, minrto = 1 / 5, rfc2988 = True, ts_option = False \<rparr>
   \<lparr> t_rtt = 0, t_srtt = 0, t_rttvar = 0, t_backoff = 1, t_rtxcur = 1 / 10, use_rtt = False, boot_time = 0 \<rparr> =
     Inr (t, \<lparr> t_rtt = 0, t_srtt = 0, t_rttvar = 0, t_backoff = 1, t_rtxcur = 1 / 10, use_rtt = False, boot_time = 0 \<rparr>) \<and> 1 / 5 \<le> t"
  using rtt_timeout_bounds[of "\<lparr> tcp_tick = 1 / 100, srtt_init = 0, rttvar_init = 12, rtxcur_init = 3, T_SRTT_BITS = 3, T_RTTVAR_BITS = 2, rttvar_exp = 2,
     maxrto = 60, minrto = 1 / 5, rfc2988 = True, ts_option = False \<rparr>" "\<lparr> t_rtt = 0, t_srtt = 0, t_rttvar = 0, t_backoff = 1, t_rtxcur = 1 / 10, use_rtt = False, boot_time = 0 \<rparr>"]
  by auto

end
