(* ===== verification/TcpWindow.thy ===== *)
theory TcpWindow
  imports TcpRtt
begin

text \<open>
  The state of the TCP senders and their congestion window (\<^verbatim>\<open>tcp/tcp.cc\<close>, \<^verbatim>\<open>tcp/tcp-reno.cc\<close>): the
  base agent (Tahoe) and the classes Reno and NewReno derived from it; \<^verbatim>\<open>tcp_class\<close> selects the
  methods.  Options that are off by default are off: Quick-Start (\<^verbatim>\<open>qs_enabled_\<close>, then its variables
  stay 0), \<^verbatim>\<open>QOption_\<close>, \<^verbatim>\<open>eln_\<close> and \<^verbatim>\<open>bugfix_ts_\<close>.  Counters that are only printed are left out.
  \<^verbatim>\<open>pow\<close>, \<^verbatim>\<open>log\<close> and \<^verbatim>\<open>exp\<close> of the C library are parameters in the configuration.
\<close>

datatype tcp_class = Tahoe | Reno | NewReno

datatype cwnd_action = CWND_ACTION_NONE | CWND_ACTION_DUPACK | CWND_ACTION_TIMEOUT | CWND_ACTION_ECN | CWND_ACTION_EXITED

datatype slow_flag = CLOSE_SSTHRESH_HALF | CLOSE_CWND_HALF | CLOSE_CWND_RESTART | CLOSE_CWND_INIT | CLOSE_CWND_ONE |
  THREE_QUARTER_SSTHRESH | CLOSE_CWND_HALF_WAY | CWND_HALF_WITH_MIN | TCP_IDLE | NO_OUTSTANDING_DATA | CLOSE_SSTHRESH_DCTCP | CLOSE_CWND_DCTCP

record win_conf =
  wnd :: rat
  wnd_const :: rat
  wnd_th :: rat
  wnd_option :: int
  increase_num :: rat
  maxcwnd :: int
  precision_reduce :: bool
  k_parameter :: rat
  l_parameter :: rat
  low_window :: int
  high_window :: int
  high_p :: rat
  high_decrease :: rat
  max_ssthresh :: int
  cwnd_range :: int
  dctcp :: bool
  dctcp_alpha :: rat
  c_pow :: "rat \<Rightarrow> rat \<Rightarrow> rat"
  c_log :: "rat \<Rightarrow> rat"
  c_exp :: "rat \<Rightarrow> rat"

record hstcp =
  hs_low_p :: rat
  hs_dec1 :: rat
  hs_dec2 :: rat
  hs_p1 :: rat
  hs_p2 :: rat
  hs_cwnd_last :: rat
  hs_increase_last :: rat

record newreno =
  nr_acked :: int
  nr_firstpartial :: bool
  nr_basertt :: rat
  nr_ack2 :: rat
  nr_ack3 :: rat
  nr_new_ssthresh :: int

record tcp =
  t_seqno :: int
  dupacks :: int
  curseq :: int
  highest_ack :: int
  cwnd :: rat
  ssthresh :: int
  maxseq :: int
  last_ack :: int
  recover_seq :: int
  last_cwnd_action :: cwnd_action
  inc_count :: int
  rtt_active :: bool
  rtt_seq :: int
  rtt_ts :: rat
  firstsent :: rat
  tcp_lastreset :: rat
  closed :: bool
  rtt_est :: rtt_state
  ts_peer :: rat
  ts_echo :: rat
  rtx_timer :: timer
  delsnd_timer :: timer
  burstsnd_timer :: timer
  syn_connects :: int
  awnd :: rat
  first_decrease :: bool
  fcnt :: rat
  ect_on :: bool
  ecn_burst :: bool
  ecn_backoff :: bool
  cong_action :: bool
  frto :: int
  pipe_prev :: int
  prev_highest_ack :: int
  decrease_num :: rat
  wnd_init :: rat
  wnd_restart :: rat
  wnd_init_option :: int
  hs_tcp :: hstcp
  w_used :: int
  dupwnd :: "32 word"
  newreno_st :: newreno

subsection \<open>The window\<close>

definition force_wnd :: "int \<Rightarrow> tcp \<Rightarrow> int" where
  "force_wnd num s = recover_seq s + num - highest_ack s"

text \<open>\<^verbatim>\<open>window\<close> and \<^verbatim>\<open>windowd\<close>, of the base class and of Reno.\<close>

definition window :: "tcp_class \<Rightarrow> win_conf \<Rightarrow> tcp \<Rightarrow> int" where
  "window k c s =
    (if k = Tahoe then
       (if frto s = 2 then (if of_int (force_wnd 2 s) < wnd c then force_wnd 2 s else int_of_double (wnd c))
        else (if cwnd s < wnd c then int_of_double (cwnd s) else int_of_double (wnd c)))
     else (let win = (if frto s = 2 then force_wnd 2 s else sint (word_of_int (int_of_double (cwnd s)) + dupwnd s))
           in if win > int_of_double (wnd c) then int_of_double (wnd c) else win))"

definition windowd :: "tcp_class \<Rightarrow> win_conf \<Rightarrow> tcp \<Rightarrow> rat" where
  "windowd k c s =
    (if k = Tahoe then (if cwnd s < wnd c then cwnd s else wnd c)
     else (let win = cwnd s + of_int (uint (dupwnd s)) in if win > wnd c then wnd c else win))"

definition initial_window :: "int \<Rightarrow> tcp \<Rightarrow> rat result" where
  "initial_window sz s =
    (if wnd_init_option s = 1 then Inr (wnd_init s)
     else if wnd_init_option s = 2 then Inr (if sz \<le> 1095 then 4 else if sz < 2190 then 3 else 2)
     else Inl Abort)"

subsection \<open>Opening the window\<close>

definition decrease_param :: "win_conf \<Rightarrow> tcp \<Rightarrow> rat" where
  "decrease_param c s = hs_dec1 (hs_tcp s) + c_log c (cwnd s) * hs_dec2 (hs_tcp s)"

definition increase_param :: "win_conf \<Rightarrow> tcp \<Rightarrow> (rat \<times> tcp) result" where
  "increase_param c s =
    (if cwnd s = 0 then Inl DivByZero
     else if cwnd s \<le> of_int (low_window c) then Inr (1 / cwnd s, s)
     else if cwnd s \<ge> hs_cwnd_last (hs_tcp s) \<and> cwnd s < hs_cwnd_last (hs_tcp s) + of_int (cwnd_range c)
     then Inr (hs_increase_last (hs_tcp s) / cwnd s, s)
     else (let p = c_exp c (hs_p1 (hs_tcp s) + c_log c (cwnd s) * hs_p2 (hs_tcp s)); decrease = decrease_param c s in
       if decrease = 0 \<or> 1 / decrease - 1 / 2 = 0 then Inl DivByZero
       else (let increase = cwnd s * cwnd s * p / (1 / decrease - 1 / 2)
             in Inr (increase / cwnd s, s\<lparr>hs_tcp := (hs_tcp s)\<lparr>hs_cwnd_last := cwnd s, hs_increase_last := increase\<rparr>\<rparr>))))"

definition limited_slow_start :: "rat \<Rightarrow> int \<Rightarrow> rat \<Rightarrow> rat" where
  "limited_slow_start w max_ss increment =
    (if max_ss \<le> 0 then increment
     else (let rounds = int_of_double (w / (of_int max_ss / 2)); increment1 = (if rounds > 0 then 1 / of_int rounds else 0)
           in if increment < increment1 then increment1 else increment))"

definition cap_cwnd :: "win_conf \<Rightarrow> tcp \<Rightarrow> tcp" where
  "cap_cwnd c s = (if maxcwnd c \<noteq> 0 \<and> int_of_double (cwnd s) > maxcwnd c then s\<lparr>cwnd := of_int (maxcwnd c)\<rparr> else s)"

text \<open>The window is increased by one when \<^verbatim>\<open>fcnt_\<close>, increased by \<^verbatim>\<open>f\<close>, exceeds it.\<close>

definition count_up :: "rat \<Rightarrow> tcp \<Rightarrow> tcp" where
  "count_up f0 s = (let f = f0 + fcnt s in if f > cwnd s then s\<lparr>fcnt := 0, cwnd := cwnd s + 1\<rparr> else s\<lparr>fcnt := f\<rparr>)"

definition opencwnd :: "rtt_conf \<Rightarrow> win_conf \<Rightarrow> tcp \<Rightarrow> tcp result" where
  "opencwnd rc c s =
    bind_r (if cwnd s < of_int (ssthresh s) then Inr (s\<lparr>cwnd := cwnd s + 1\<rparr>)
      else (let rtt = of_int (drop_bit (T_SRTT_BITS rc) (t_srtt (rtt_est s))) * tcp_tick rc in
        if wnd_option c = 0 then
          (if of_int (inc_count s + 1) \<ge> cwnd s then Inr (s\<lparr>inc_count := 0, cwnd := cwnd s + 1\<rparr>) else Inr (s\<lparr>inc_count := inc_count s + 1\<rparr>))
        else if wnd_option c = 1 then (if cwnd s = 0 then Inl DivByZero else Inr (s\<lparr>cwnd := cwnd s + increase_num c / cwnd s\<rparr>))
        else if wnd_option c = 2 then Inr (count_up (rtt * rtt * wnd_const c) s)
        else if wnd_option c = 3 then Inr (count_up (awnd s * awnd s * wnd_const c) s)
        else if wnd_option c = 4 then Inr (count_up (awnd s * wnd_const c) s)
        else if wnd_option c = 5 then Inr (count_up (rtt * wnd_const c) s)
        else if wnd_option c = 6 then
          (let d = cwnd s * c_pow c (cwnd s) (k_parameter c) in if d = 0 then Inl DivByZero else Inr (s\<lparr>cwnd := cwnd s + increase_num c / d\<rparr>))
        else if wnd_option c = 8 then
          bind_r (increase_param c s) (\<lambda>(inc, s1).
            Inr (s1\<lparr>cwnd := cwnd s1 + (if (last_cwnd_action s1 = CWND_ACTION_NONE \<or> last_cwnd_action s1 = CWND_ACTION_TIMEOUT) \<and> max_ssthresh c > 0
              then limited_slow_start (cwnd s1) (max_ssthresh c) inc else inc)\<rparr>))
        else Inl Abort)) (\<lambda>s1. Inr (cap_cwnd c s1))"

subsection \<open>Closing the window\<close>

text \<open>The windows after a decrease by half and by \<^verbatim>\<open>decrease_num_\<close>, and the window itself; high-speed TCP
  sets \<^verbatim>\<open>decrease_num_\<close>.\<close>

definition hs_decreases :: "win_conf \<Rightarrow> tcp \<Rightarrow> bool" where
  "hs_decreases c s \<longleftrightarrow> wnd_option c = 8 \<and> cwnd s > of_int (low_window c)"

definition decreased :: "win_conf \<Rightarrow> int \<Rightarrow> rat \<Rightarrow> tcp \<Rightarrow> rat \<times> rat \<times> rat" where
  "decreased c win wind s =
    (if precision_reduce c then
       (wind / 2,
        (if wnd_option c = 6 then wind - (1 - decrease_num s) * c_pow c wind (l_parameter c)
         else if hs_decreases c s then wind - decrease_param c s * wind else decrease_num s * wind),
        wind)
     else
       (of_int (win sdiv 2),
        of_int (int_of_double (if wnd_option c = 6 then of_int win - (1 - decrease_num s) * c_pow c (of_int win) (l_parameter c)
          else if hs_decreases c s then wind - decrease_param c s * wind else decrease_num s * of_int win)),
        of_int win))"

definition note_decrease :: "win_conf \<Rightarrow> tcp \<Rightarrow> tcp" where
  "note_decrease c s = (if hs_decreases c s then s\<lparr>decrease_num := decrease_param c s\<rparr> else s)"

definition slow_ssthresh :: "win_conf \<Rightarrow> slow_flag set \<Rightarrow> bool \<Rightarrow> rat \<Rightarrow> rat \<Rightarrow> rat \<Rightarrow> tcp \<Rightarrow> int" where
  "slow_ssthresh c how slowstart halfwin decreasewin wind s =
    (if CLOSE_SSTHRESH_HALF \<in> how then
       (if first_decrease s \<or> slowstart \<or> last_cwnd_action s = CWND_ACTION_TIMEOUT then int_of_double halfwin else int_of_double decreasewin)
     else if CLOSE_SSTHRESH_DCTCP \<in> how then int_of_double ((1 - dctcp_alpha c / 2) * wind)
     else if THREE_QUARTER_SSTHRESH \<in> how then (if of_int (ssthresh s) < 3 * cwnd s / 4 then int_of_double (3 * cwnd s / 4) else ssthresh s)
     else ssthresh s)"

definition slow_cwnd :: "win_conf \<Rightarrow> slow_flag set \<Rightarrow> bool \<Rightarrow> rat \<Rightarrow> rat \<Rightarrow> rat \<Rightarrow> rat \<Rightarrow> tcp \<Rightarrow> rat" where
  "slow_cwnd c how slowstart halfwin decreasewin win wind s =
    (if CLOSE_CWND_HALF \<in> how then (if first_decrease s \<or> slowstart \<or> decrease_num s = 1 / 2 then halfwin else decreasewin)
     else if CLOSE_CWND_DCTCP \<in> how then (1 - dctcp_alpha c / 2) * wind
     else if CWND_HALF_WITH_MIN \<in> how then max 1 decreasewin
     else if CLOSE_CWND_RESTART \<in> how then of_int (int_of_double (wnd_restart s))
     else if CLOSE_CWND_INIT \<in> how then of_int (int_of_double (wnd_init s))
     else if CLOSE_CWND_ONE \<in> how then 1
     else if CLOSE_CWND_HALF_WAY \<in> how then max 1 (of_int (w_used s) + decrease_num s * (win - of_int (w_used s)))
     else cwnd s)"

text \<open>\<^verbatim>\<open>windowd\<close> is read again after \<^verbatim>\<open>decrease_num_\<close> and \<^verbatim>\<open>ssthresh_\<close> changed, on which it does not depend.\<close>

definition slowdown :: "tcp_class \<Rightarrow> win_conf \<Rightarrow> slow_flag set \<Rightarrow> tcp \<Rightarrow> tcp" where
  "slowdown k c how s =
    (let slowstart = (cwnd s < of_int (ssthresh s)); wind = windowd k c s;
         s1 = note_decrease c s in
     case decreased c (window k c s) wind s of (halfwin, decreasewin, win) \<Rightarrow>
       let ss = slow_ssthresh c how slowstart halfwin decreasewin wind s1;
           cw = slow_cwnd c how slowstart halfwin decreasewin win wind s1
       in s1\<lparr>ssthresh := (if ss < 2 then 2 else ss), cwnd := (if cw < 1 then 1 else cw),
         cong_action := (cong_action s1 \<or> how \<inter> {CLOSE_CWND_HALF, CLOSE_CWND_RESTART, CLOSE_CWND_INIT, CLOSE_CWND_ONE, CLOSE_CWND_DCTCP} \<noteq> {}),
         fcnt := 0, inc_count := 0, first_decrease := False\<rparr>)"

end
