(* ===== verification/TcpSender.thy ===== *)
theory TcpSender
  imports TcpWindow TcpSink
begin

text \<open>
  The operations of the TCP senders: what they send, when they acknowledge progress, loss and
  congestion, and what a timeout does.  A packet is handed to the network as \<^verbatim>\<open>SendData\<close>;
  \<^verbatim>\<open>SendIdle\<close> is the call that asks the application for more, \<^verbatim>\<open>SendDone\<close> the call of the Tcl
  procedure at the end.  \<^verbatim>\<open>u\<close> is the random number a call may draw, between 0 and 1.
  \<^verbatim>\<open>int_of_inf\<close> is what the conversion of a \<^verbatim>\<open>double\<close> that is not finite to an \<^verbatim>\<open>int\<close> gives, which C++ leaves undefined.
\<close>

datatype tcp_reason = TCP_REASON_NONE | TCP_REASON_TIMEOUT | TCP_REASON_DUPACK

datatype tcp_out = SendData tcp_pkt tcp_reason | SendIdle | SendDone

record tcp_conf =
  tc_class :: tcp_class
  tc_rtt :: rtt_conf
  tc_win :: win_conf
  tc_size :: int
  tc_fid :: int
  tcpip_base_hdr_size :: int
  ts_option_size :: int
  useHeaders :: bool
  syn :: bool
  delay_growth :: bool
  max_connects :: int
  ecn_capable :: bool
  old_ecn :: bool
  SetCWRonRetransmit :: bool
  overhead :: rat
  maxburst :: int
  aggressive_maxburst :: bool
  numdupacks :: int
  singledup :: bool
  noFastRetrans :: bool
  exitFastRetrans :: bool
  bug_fix :: bool
  bugfix_ss :: bool
  bugfix_ack :: bool
  less_careful :: bool
  timerfix :: bool
  ts_resetRTO :: bool
  control_increase :: bool
  slow_start_restart :: bool
  restart_bugfix :: bool
  frto_enabled :: bool
  spurious_response :: int
  newreno_changes :: int
  newreno_changes1 :: bool
  partial_window_deflation :: bool
  exit_recovery_fix :: bool
  int_of_inf :: int

type_synonym tcp_step = "(tcp_out list \<times> tcp) result"

definition then_r :: "tcp_step \<Rightarrow> (tcp \<Rightarrow> tcp_step) \<Rightarrow> tcp_step" where
  "then_r m f = bind_r m (\<lambda>(out, s). bind_r (f s) (\<lambda>(out', s'). Inr (out @ out', s')))"

lemma then_r_Inr: "then_r m f = Inr (out, s') \<longleftrightarrow> (\<exists>o1 s1 o2. m = Inr (o1, s1) \<and> f s1 = Inr (o2, s') \<and> out = o1 @ o2)"
  by (auto simp: then_r_def)

lemma then_r_cong [fundef_cong]:
  assumes "m = m'" and "\<And>out s. m' = Inr (out, s) \<Longrightarrow> f s = g s"
  shows "then_r m f = then_r m' g"
  using assms by (cases m') (auto simp: then_r_def)

subsection \<open>The retransmission timer\<close>

definition set_rtx_timer :: "tcp_conf \<Rightarrow> rat \<Rightarrow> tcp \<Rightarrow> tcp result" where
  "set_rtx_timer c now s =
    bind_r (rtt_timeout (tc_rtt c) (rtt_est s)) (\<lambda>(t, r). Inr (s\<lparr>rtt_est := r, rtx_timer := timer_resched now t (rtx_timer s)\<rparr>))"

definition force_cancel :: "timer \<Rightarrow> timer" where
  "force_cancel tm = (if t_status tm = TIMER_PENDING then tm\<lparr>t_event := None, t_status := TIMER_IDLE\<rparr> else tm)"

definition reset_rtx_timer :: "tcp_conf \<Rightarrow> rat \<Rightarrow> bool \<Rightarrow> bool \<Rightarrow> tcp \<Rightarrow> tcp result" where
  "reset_rtx_timer c now mild backoff s =
    bind_r (if backoff then rtt_backoff (tc_rtt c) (rtt_est s) else Inr (rtt_est s)) (\<lambda>r.
    bind_r (set_rtx_timer c now (s\<lparr>rtt_est := r\<rparr>)) (\<lambda>s1.
      Inr ((if mild then s1 else s1\<lparr>t_seqno := highest_ack s1 + 1\<rparr>)\<lparr>rtt_active := False\<rparr>)))"

definition newtimer :: "tcp_conf \<Rightarrow> rat \<Rightarrow> tcp_pkt \<Rightarrow> tcp \<Rightarrow> tcp result" where
  "newtimer c now p s =
    (if t_seqno s > tp_seqno p \<or> tp_seqno p < maxseq s \<or> cwnd s < 1 then set_rtx_timer c now s
     else Inr (s\<lparr>rtx_timer := force_cancel (rtx_timer s)\<rparr>))"

subsection \<open>Sending\<close>

definition headersize :: "tcp_conf \<Rightarrow> int" where
  "headersize c = tcpip_base_hdr_size c + (if ts_option (tc_rtt c) then ts_option_size c else 0)"

definition data_packet :: "tcp_conf \<Rightarrow> rat \<Rightarrow> int \<Rightarrow> bool \<Rightarrow> tcp \<Rightarrow> tcp_pkt" where
  "data_packet c now seqno cwr s =
    (let p = (alloc_ack (tc_size c))\<lparr>tp_fid := tc_fid c, tp_seqno := seqno, tp_ts := now, tp_ts_echo := ts_peer s,
           tp_ect := (if ecn_capable c \<and> seqno \<noteq> 0 then 1 else 0), tp_ecnecho := (if ecn_capable c \<and> seqno = 0 then 1 else 0),
           tp_cong_action := (if cwr then 1 else 0)\<rparr>
     in if seqno = 0 then (if syn c then p\<lparr>tp_size := tcpip_base_hdr_size c\<rparr> else p)
        else if useHeaders c then p\<lparr>tp_size := tp_size p + headersize c\<rparr> else p)"

text \<open>Before a packet is handed over, \<^verbatim>\<open>cong_action_\<close> is reset and the initial packet is counted;
  afterwards \<^verbatim>\<open>maxseq_\<close> and the time of the measured packet are noted.\<close>

definition marks_cwr :: "tcp_conf \<Rightarrow> int \<Rightarrow> tcp \<Rightarrow> bool" where
  "marks_cwr c seqno s \<longleftrightarrow> cong_action s \<and> (\<not> seqno < maxseq s \<or> SetCWRonRetransmit c)"

definition output_prepare :: "tcp_conf \<Rightarrow> int \<Rightarrow> tcp \<Rightarrow> tcp" where
  "output_prepare c seqno s =
    (let s1 = (if marks_cwr c seqno s then s\<lparr>cong_action := False\<rparr> else s)
     in if seqno = 0 \<and> syn c then s1\<lparr>curseq := (if maxseq s1 = -1 then curseq s1 + 1 else curseq s1), syn_connects := syn_connects s1 + 1\<rparr> else s1)"

definition output_sent :: "rat \<Rightarrow> int \<Rightarrow> tcp \<Rightarrow> tcp" where
  "output_sent now seqno s =
    (if seqno > maxseq s then
      (let s' = s\<lparr>maxseq := seqno\<rparr> in
       if rtt_active s' then s'
       else if seqno > rtt_seq s' then s'\<lparr>rtt_active := True, rtt_seq := seqno, rtt_ts := now\<rparr> else s'\<lparr>rtt_active := True\<rparr>)
     else s)"

text \<open>After \<^verbatim>\<open>max_connects_\<close> attempts the first packet is not sent any more.\<close>

definition tcp_output :: "tcp_conf \<Rightarrow> rat \<Rightarrow> int \<Rightarrow> tcp_reason \<Rightarrow> tcp \<Rightarrow> tcp_step" where
  "tcp_output c now seqno reason s =
    (let s2 = output_prepare c seqno s
     in if seqno = 0 \<and> syn c \<and> max_connects c > 0 \<and> syn_connects s2 > max_connects c
        then Inr ([], s2\<lparr>curseq := 0, rtx_timer := timer_resched now 10000 (rtx_timer s2)\<rparr>)
        else (let out = SendData (data_packet c now seqno (marks_cwr c seqno s) s) reason # (if seqno = curseq s2 \<and> seqno > maxseq s2 then [SendIdle] else []);
                  s3 = output_sent now seqno s2
              in if t_status (rtx_timer s3) \<noteq> TIMER_PENDING \<or> highest_ack s2 = maxseq s2
                 then bind_r (set_rtx_timer c now s3) (\<lambda>s4. Inr (out, s4))
                 else Inr (out, s3)))"

text \<open>What \<^verbatim>\<open>output\<close> leaves as it is.\<close>

definition output_frame :: "tcp \<Rightarrow> tcp \<Rightarrow> bool" where
  "output_frame s s' \<longleftrightarrow> t_seqno s' = t_seqno s \<and> dupacks s' = dupacks s \<and> highest_ack s' = highest_ack s \<and> cwnd s' = cwnd s \<and>
    ssthresh s' = ssthresh s \<and> last_ack s' = last_ack s \<and> recover_seq s' = recover_seq s \<and> last_cwnd_action s' = last_cwnd_action s \<and>
    delsnd_timer s' = delsnd_timer s \<and> burstsnd_timer s' = burstsnd_timer s \<and> frto s' = frto s \<and> prev_highest_ack s' = prev_highest_ack s \<and>
    dupwnd s' = dupwnd s \<and> closed s' = closed s \<and> tcp_lastreset s' = tcp_lastreset s \<and> newreno_st s' = newreno_st s"

lemma set_rtx_timerD:
  assumes "set_rtx_timer c now s = Inr s'"
  shows "\<exists>r tm. s' = s\<lparr>rtt_est := r, rtx_timer := tm\<rparr> \<and> t_status tm = TIMER_PENDING"
proof -
  obtain t r where "s' = s\<lparr>rtt_est := r, rtx_timer := timer_resched now t (rtx_timer s)\<rparr>"
    using assms by (cases "rtt_timeout (tc_rtt c) (rtt_est s)") (auto simp: set_rtx_timer_def)
  moreover have "t_status (timer_resched now t (rtx_timer s)) = TIMER_PENDING" by (simp add: timer_resched_def)
  ultimately show ?thesis by blast
qed

lemma output_prepare_frame:
  "output_frame s (output_prepare c seqno s) \<and> maxseq (output_prepare c seqno s) = maxseq s \<and> rtx_timer (output_prepare c seqno s) = rtx_timer s \<and>
    rtt_est (output_prepare c seqno s) = rtt_est s \<and>
    (curseq (output_prepare c seqno s) = curseq s \<or> seqno = 0 \<and> maxseq s = -1 \<and> curseq (output_prepare c seqno s) = curseq s + 1)"
  by (simp add: output_prepare_def output_frame_def Let_def)

lemma output_sent_frame:
  "output_frame s (output_sent now seqno s) \<and> maxseq (output_sent now seqno s) = max (maxseq s) seqno \<and> rtx_timer (output_sent now seqno s) = rtx_timer s \<and>
    rtt_est (output_sent now seqno s) = rtt_est s \<and> curseq (output_sent now seqno s) = curseq s"
  by (simp add: output_sent_def output_frame_def Let_def)

text \<open>\<^verbatim>\<open>output\<close> sends its packet, notes it in \<^verbatim>\<open>maxseq_\<close> and leaves the retransmission timer running.\<close>

definition aborts :: "tcp_conf \<Rightarrow> int \<Rightarrow> tcp \<Rightarrow> bool" where
  "aborts c seqno s \<longleftrightarrow> seqno = 0 \<and> syn c \<and> max_connects c > 0 \<and> syn_connects s \<ge> max_connects c"

lemma aborts_iff: "(seqno = 0 \<and> syn c \<and> max_connects c > 0 \<and> syn_connects (output_prepare c seqno s) > max_connects c) = aborts c seqno s"
  by (auto simp: aborts_def output_prepare_def Let_def)

lemma output_eq:
  assumes "\<not> aborts c seqno s"
  shows "tcp_output c now seqno reason s =
    (let s3 = output_sent now seqno (output_prepare c seqno s);
         out = SendData (data_packet c now seqno (marks_cwr c seqno s) s) reason # (if seqno = curseq s3 \<and> seqno > maxseq s then [SendIdle] else [])
     in if t_status (rtx_timer s) \<noteq> TIMER_PENDING \<or> highest_ack s = maxseq s
        then bind_r (set_rtx_timer c now s3) (\<lambda>s4. Inr (out, s4)) else Inr (out, s3))"
  unfolding tcp_output_def Let_def aborts_iff if_not_P[OF assms]
  using output_prepare_frame[of s c seqno] output_sent_frame[of "output_prepare c seqno s" now seqno]
  by (simp add: output_frame_def)

lemma outputD:
  assumes "tcp_output c now seqno reason s = Inr (out, s')" and "\<not> aborts c seqno s"
  shows "output_frame s s'" and "maxseq s' = max (maxseq s) seqno" and "t_status (rtx_timer s') = TIMER_PENDING"
    and "curseq s' = curseq s \<or> seqno = 0 \<and> maxseq s = -1 \<and> curseq s' = curseq s + 1"
    and "\<exists>p rest. out = SendData p reason # rest \<and> p = data_packet c now seqno (marks_cwr c seqno s) s \<and> (rest = [] \<or> rest = [SendIdle])"
proof -
  define s3 where "s3 = output_sent now seqno (output_prepare c seqno s)"
  note P = output_prepare_frame[of s c seqno] and S = output_sent_frame[of "output_prepare c seqno s" now seqno]
  have s3: "output_frame s s3" "maxseq s3 = max (maxseq s) seqno" "rtx_timer s3 = rtx_timer s"
      "curseq s3 = curseq s \<or> seqno = 0 \<and> maxseq s = -1 \<and> curseq s3 = curseq s + 1"
    using P S by (simp_all add: s3_def output_frame_def)
  have "(s' = s3 \<and> t_status (rtx_timer s3) = TIMER_PENDING) \<or> set_rtx_timer c now s3 = Inr s'"
    using assms(1) s3(3) unfolding output_eq[OF assms(2)] Let_def s3_def[symmetric] by (auto split: if_splits)
  then obtain r tm where "s' = s3 \<and> t_status (rtx_timer s3) = TIMER_PENDING \<or> s' = s3\<lparr>rtt_est := r, rtx_timer := tm\<rparr> \<and> t_status tm = TIMER_PENDING"
    using set_rtx_timerD[of c now s3 s'] by blast
  then show "output_frame s s'" "maxseq s' = max (maxseq s) seqno" "t_status (rtx_timer s') = TIMER_PENDING"
      "curseq s' = curseq s \<or> seqno = 0 \<and> maxseq s = -1 \<and> curseq s' = curseq s + 1"
    using s3 by (auto simp: output_frame_def)
  show "\<exists>p rest. out = SendData p reason # rest \<and> p = data_packet c now seqno (marks_cwr c seqno s) s \<and> (rest = [] \<or> rest = [SendIdle])"
    using assms(1) unfolding output_eq[OF assms(2)] Let_def s3_def[symmetric] by (auto split: if_splits)
qed

lemma output_abortD:
  assumes "tcp_output c now seqno reason s = Inr (out, s')" and "aborts c seqno s"
  shows "output_frame s s'" and "maxseq s' = maxseq s" and "curseq s' = 0" and "out = []"
  using assms(1) output_prepare_frame[of s c seqno] unfolding tcp_output_def Let_def aborts_iff if_P[OF assms(2)]
  by (auto simp: output_frame_def)

function (sequential) send_loop :: "tcp_conf \<Rightarrow> rat \<Rightarrow> rat \<Rightarrow> bool \<Rightarrow> tcp_reason \<Rightarrow> int \<Rightarrow> int \<Rightarrow> int \<Rightarrow> tcp \<Rightarrow> tcp_step" where
  "send_loop c now u force reason burst npackets win s =
    (if t_seqno s \<le> highest_ack s + win \<and> t_seqno s < curseq s then
       (if overhead c = 0 \<or> force then
          then_r (bind_r (tcp_output c now (t_seqno s) reason s) (\<lambda>(out, s1). Inr (out, s1\<lparr>t_seqno := t_seqno s1 + 1\<rparr>))) (\<lambda>s2.
            if burst \<noteq> 0 \<and> npackets + 1 = burst then Inr ([], s2)
            else send_loop c now u force reason burst (npackets + 1) (window (tc_class c) (tc_win c) s2) s2)
        else if t_status (delsnd_timer s) \<noteq> TIMER_PENDING
        then Inr ([], s\<lparr>delsnd_timer := timer_resched now (u * overhead c) (delsnd_timer s)\<rparr>)
        else Inl Loops)
     else Inr ([], s))"
  by pat_completeness auto

termination
proof (relation "measure (\<lambda>(_, _, _, _, _, _, _, _, s). nat (curseq s - t_seqno s + (if maxseq s \<le> -1 \<and> t_seqno s \<le> 0 then 1 else 0)))", goal_cases)
  case (2 c now u force reason burst npackets win s out s2)
  then obtain s1 where s1: "tcp_output c now (t_seqno s) reason s = Inr (out, s1)" "s2 = s1\<lparr>t_seqno := t_seqno s1 + 1\<rparr>" by auto
  have lt: "t_seqno s < curseq s" using 2(1) by blast
  have "nat (curseq s2 - t_seqno s2 + (if maxseq s2 \<le> -1 \<and> t_seqno s2 \<le> 0 then 1 else 0)) <
      nat (curseq s - t_seqno s + (if maxseq s \<le> -1 \<and> t_seqno s \<le> 0 then 1 else 0))"
  proof (cases "aborts c (t_seqno s) s")
    case True
    have "t_seqno s1 = t_seqno s" "curseq s1 = 0" "t_seqno s = 0" using output_abortD[OF s1(1) True] True by (simp_all add: output_frame_def aborts_def)
    then show ?thesis using lt s1(2) by simp
  next
    case False
    have "t_seqno s1 = t_seqno s" "maxseq s1 = max (maxseq s) (t_seqno s)"
        and cu: "curseq s1 = curseq s \<or> t_seqno s = 0 \<and> maxseq s = -1 \<and> curseq s1 = curseq s + 1"
      using outputD[OF s1(1) False] by (simp_all add: output_frame_def)
    then have e: "t_seqno s2 = t_seqno s + 1" "maxseq s2 = max (maxseq s) (t_seqno s)" "curseq s2 = curseq s1" using s1(2) by simp_all
    show ?thesis
    proof (cases "curseq s1 = curseq s")
      case True
      then show ?thesis using lt unfolding e max_def by (cases "maxseq s \<le> - 1"; cases "t_seqno s \<le> 0") auto
    next
      case False
      then show ?thesis using lt cu unfolding e max_def by simp
    qed
  qed
  then show ?case by simp
qed simp

declare send_loop.simps [simp del]

definition send_much :: "tcp_conf \<Rightarrow> rat \<Rightarrow> rat \<Rightarrow> bool \<Rightarrow> tcp_reason \<Rightarrow> int \<Rightarrow> tcp \<Rightarrow> tcp_step" where
  "send_much c now u force reason burst s =
    (if \<not> force \<and> t_status (delsnd_timer s) = TIMER_PENDING then Inr ([], s)
     else (let s1 = (if t_seqno s = 0 then s\<lparr>firstsent := now\<rparr> else s) in
       if t_status (burstsnd_timer s1) = TIMER_PENDING then Inr ([], s1)
       else send_loop c now u force reason burst 0 (window (tc_class c) (tc_win c) s1) s1))"

definition sendmsg :: "tcp_conf \<Rightarrow> rat \<Rightarrow> rat \<Rightarrow> int \<Rightarrow> tcp \<Rightarrow> tcp_step" where
  "sendmsg c now u nbytes s =
    (if nbytes = -1 \<and> curseq s \<le> 2 ^ 30 then send_much c now u False TCP_REASON_NONE (maxburst c) (s\<lparr>curseq := 2 ^ 30\<rparr>)
     else if tc_size c = 0 then Inl DivByZero
     else send_much c now u False TCP_REASON_NONE (maxburst c)
       (s\<lparr>curseq := curseq s + (nbytes sdiv tc_size c + (if nbytes smod tc_size c \<noteq> 0 then 1 else 0))\<rparr>))"

definition advanceby :: "tcp_conf \<Rightarrow> rat \<Rightarrow> rat \<Rightarrow> int \<Rightarrow> tcp \<Rightarrow> tcp_step" where
  "advanceby c now u delta s =
    send_much c now u False TCP_REASON_NONE (maxburst c) (s\<lparr>curseq := curseq s + delta, closed := (if delta > 0 then False else closed s)\<rparr>)"

text \<open>Limited transmit, on the first or second duplicate acknowledgement.\<close>

definition send_one :: "tcp_conf \<Rightarrow> rat \<Rightarrow> tcp \<Rightarrow> tcp_step" where
  "send_one c now s =
    (if of_int (t_seqno s) \<le> of_int (highest_ack s) + wnd (tc_win c) \<and> t_seqno s < curseq s \<and>
        of_int (t_seqno s) \<le> of_int (highest_ack s) + cwnd s + of_int (dupacks s)
     then bind_r (tcp_output c now (t_seqno s) TCP_REASON_NONE s) (\<lambda>(out, s1). Inr (out, s1\<lparr>t_seqno := t_seqno s1 + 1\<rparr>))
     else Inr ([], s))"

subsection \<open>Acknowledgements\<close>

definition ends_backoff :: "tcp_pkt \<Rightarrow> tcp \<Rightarrow> bool" where
  "ends_backoff p s \<longleftrightarrow> \<not> ect_on s \<or> \<not> ecn_backoff s \<or> tp_ecnecho p = 0"

definition end_backoff :: "tcp \<Rightarrow> tcp" where
  "end_backoff s = s\<lparr>rtt_est := (rtt_est s)\<lparr>t_backoff := 1\<rparr>, ecn_backoff := False\<rparr>"

text \<open>The round trip time of a new acknowledgement, by its timestamp or of the packet that is measured.\<close>

definition newack_ts :: "tcp_conf \<Rightarrow> rat \<Rightarrow> tcp_pkt \<Rightarrow> tcp \<Rightarrow> tcp result" where
  "newack_ts c now p s =
    (if ts_option (tc_rtt c) then
       bind_r (rtt_update (tc_rtt c) now (now - tp_ts_echo p) (rtt_est s)) (\<lambda>r.
         let s' = s\<lparr>ts_echo := tp_ts_echo p, rtt_est := r\<rparr> in Inr (if ts_resetRTO c \<and> ends_backoff p s' then end_backoff s' else s'))
     else Inr s)"

definition newack_timed :: "tcp_conf \<Rightarrow> rat \<Rightarrow> tcp_pkt \<Rightarrow> tcp \<Rightarrow> tcp result" where
  "newack_timed c now p s =
    (if rtt_active s \<and> tp_seqno p \<ge> rtt_seq s then
       (let s' = (if ends_backoff p s then end_backoff s else s)\<lparr>rtt_active := False\<rparr> in
        if ts_option (tc_rtt c) then Inr s' else bind_r (rtt_update (tc_rtt c) now (now - rtt_ts s') (rtt_est s')) (\<lambda>r. Inr (s'\<lparr>rtt_est := r\<rparr>)))
     else Inr s)"

definition newack :: "tcp_conf \<Rightarrow> rat \<Rightarrow> tcp_pkt \<Rightarrow> tcp \<Rightarrow> tcp result" where
  "newack c now p s =
    bind_r (if timerfix c then Inr s else newtimer c now p s) (\<lambda>s1.
    bind_r (newack_ts c now p (s1\<lparr>dupacks := 0, last_ack := tp_seqno p, prev_highest_ack := highest_ack s1, highest_ack := tp_seqno p,
          t_seqno := max (t_seqno s1) (tp_seqno p + 1)\<rparr>)) (\<lambda>s2.
    bind_r (newack_timed c now p s2) (\<lambda>s3.
    bind_r (if timerfix c then newtimer c now p s3 else Inr s3) (\<lambda>s4.
      Inr (s4\<lparr>awnd := awnd s4 * (1 - wnd_th (tc_win c)) + wnd_th (tc_win c) * cwnd s4\<rparr>)))))"

definition tcp_slowdown :: "tcp_conf \<Rightarrow> slow_flag set \<Rightarrow> tcp \<Rightarrow> tcp" where
  "tcp_slowdown c how s = slowdown (tc_class c) (tc_win c) how s"

definition tcp_ecn :: "tcp_conf \<Rightarrow> int \<Rightarrow> tcp \<Rightarrow> tcp result" where
  "tcp_ecn c seqno s =
    (if seqno > recover_seq s \<or> last_cwnd_action s = CWND_ACTION_TIMEOUT then
       (let s1 = s\<lparr>recover_seq := maxseq s, last_cwnd_action := CWND_ACTION_ECN\<rparr> in
        bind_r (if cwnd s1 \<le> 1 then
            (if ecn_backoff s1 then bind_r (rtt_backoff (tc_rtt c) (rtt_est s1)) (\<lambda>r. Inr (s1\<lparr>rtt_est := r\<rparr>)) else Inr (s1\<lparr>ecn_backoff := True\<rparr>))
          else Inr (s1\<lparr>ecn_backoff := False\<rparr>)) (\<lambda>s2.
          Inr (tcp_slowdown c (if dctcp (tc_win c) then {CLOSE_CWND_DCTCP, CLOSE_SSTHRESH_DCTCP} else {CLOSE_CWND_HALF, CLOSE_SSTHRESH_HALF}) s2)))
     else Inr s)"

definition network_limited :: "tcp_conf \<Rightarrow> tcp \<Rightarrow> bool" where
  "network_limited c s \<longleftrightarrow> t_seqno s > prev_highest_ack s + window (tc_class c) (tc_win c) s"

definition spurious_timeout :: "tcp_conf \<Rightarrow> tcp \<Rightarrow> tcp" where
  "spurious_timeout c s =
    s\<lparr>frto := 0, cwnd := (if spurious_response c = 2 then of_int (ssthresh s) else if spurious_response c = 3 then 1 else of_int (t_seqno s - prev_highest_ack s)),
      ssthresh := pipe_prev s, recover_seq := highest_ack s - 1\<rparr>"

definition frto_step :: "tcp_conf \<Rightarrow> tcp \<Rightarrow> tcp" where
  "frto_step c s =
    (if frto s = 1 then
       (if of_int (recover_seq s + 1) \<ge> of_int (highest_ack s) + wnd (tc_win c) \<or> recover_seq s + 1 \<ge> curseq s then s\<lparr>frto := 0\<rparr>
        else if highest_ack s = recover_seq s then s\<lparr>frto := 0\<rparr>
        else s\<lparr>t_seqno := recover_seq s + 1, frto := 2\<rparr>)
     else if frto s = 2 then spurious_timeout c s
     else s)"

definition note_ecn :: "tcp_pkt \<Rightarrow> tcp \<Rightarrow> tcp" where
  "note_ecn p s =
    (let s1 = (if ect_on s then s\<lparr>ecn_backoff := (if tp_ecnecho p = 0 then False else ecn_backoff s), ecn_burst := (tp_ecnecho p \<noteq> 0)\<rparr> else s)
     in if \<not> ect_on s1 \<and> tp_ecnecho p \<noteq> 0 \<and> tp_cong_action p = 0 then s1\<lparr>ect_on := True\<rparr> else s1)"

definition recv_newack_helper :: "tcp_conf \<Rightarrow> rat \<Rightarrow> tcp_pkt \<Rightarrow> tcp \<Rightarrow> tcp_step" where
  "recv_newack_helper c now p s =
    bind_r (newack c now p s) (\<lambda>s1.
    bind_r (if (\<not> ect_on s1 \<or> tp_ecnecho p = 0 \<or> old_ecn c \<and> ecn_burst s1) \<and> (\<not> control_increase c \<or> network_limited c s1)
      then opencwnd (tc_rtt c) (tc_win c) s1 else Inr s1) (\<lambda>s2.
      let s3 = note_ecn p s2;
          fin = (highest_ack s3 \<ge> curseq s3 - 1 \<and> \<not> closed s3)
      in Inr (if fin then [SendDone] else [], frto_step c (if fin then s3\<lparr>closed := True\<rparr> else s3))))"

definition recv_frto_helper :: "tcp_pkt \<Rightarrow> tcp \<Rightarrow> tcp" where
  "recv_frto_helper p s =
    (if tp_seqno p = last_ack s \<and> frto s \<noteq> 0 then s\<lparr>t_seqno := highest_ack s + 1, cwnd := of_int (frto s), frto := 0, dupacks := -1\<rparr> else s)"

end
