(* ===== verification/TcpReceive.thy ===== *)
theory TcpReceive
  imports TcpSender
begin

text \<open>
  What the TCP senders do with an acknowledgement and when a timer expires: fast retransmission, fast
  recovery, the partial acknowledgements of NewReno and the retransmission timeout
  (\<^verbatim>\<open>tcp/tcp.cc\<close>, \<^verbatim>\<open>tcp/tcp-reno.cc\<close>, \<^verbatim>\<open>tcp/tcp-newreno.cc\<close>).  \<^verbatim>\<open>frto_enabled\<close> stands for
  \<^verbatim>\<open>frto_enabled_ || sfrto_enabled_\<close>.
\<close>

subsection \<open>Duplicate acknowledgements\<close>

definition retransmit_first :: "tcp_conf \<Rightarrow> rat \<Rightarrow> tcp \<Rightarrow> tcp_step" where
  "retransmit_first c now s =
    bind_r (tcp_output c now (last_ack s + 1) TCP_REASON_DUPACK s) (\<lambda>(out, s1). Inr (out, s1\<lparr>dupwnd := word_of_int (numdupacks c)\<rparr>))"

definition tahoe_dupack_action :: "tcp_conf \<Rightarrow> rat \<Rightarrow> tcp \<Rightarrow> tcp_step" where
  "tahoe_dupack_action c now s =
    (if highest_ack s > recover_seq s \<or> \<not> bug_fix c \<and> \<not> ecn_capable c \<or> bugfix_ss c \<and> highest_ack s = 0 \<or>
        \<not> (ecn_capable c \<and> last_cwnd_action s = CWND_ACTION_ECN) \<and> \<not> bug_fix c
     then bind_r (reset_rtx_timer c now False False
         (tcp_slowdown c {CLOSE_SSTHRESH_HALF, CLOSE_CWND_ONE} (s\<lparr>recover_seq := maxseq s, last_cwnd_action := CWND_ACTION_DUPACK\<rparr>))) (\<lambda>s1. Inr ([], s1))
     else if ecn_capable c \<and> last_cwnd_action s = CWND_ACTION_ECN
     then bind_r (reset_rtx_timer c now False False
         (tcp_slowdown c {CLOSE_CWND_ONE} (s\<lparr>last_cwnd_action := CWND_ACTION_DUPACK\<rparr>))) (\<lambda>s1. Inr ([], s1))
     else Inr ([], s))"

definition reno_dupack_action :: "tcp_conf \<Rightarrow> rat \<Rightarrow> tcp \<Rightarrow> tcp_step" where
  "reno_dupack_action c now s =
    (if highest_ack s > recover_seq s \<or> \<not> bug_fix c \<and> \<not> ecn_capable c \<or> last_cwnd_action s = CWND_ACTION_DUPACK \<or> bugfix_ss c \<and> highest_ack s = 0 \<or>
        \<not> (ecn_capable c \<and> last_cwnd_action s = CWND_ACTION_ECN) \<and> \<not> bug_fix c
     then bind_r (reset_rtx_timer c now True False
         (tcp_slowdown c {CLOSE_SSTHRESH_HALF, CLOSE_CWND_HALF} (s\<lparr>recover_seq := maxseq s, last_cwnd_action := CWND_ACTION_DUPACK\<rparr>))) (retransmit_first c now)
     else if ecn_capable c \<and> last_cwnd_action s = CWND_ACTION_ECN
     then bind_r (reset_rtx_timer c now True False (s\<lparr>last_cwnd_action := CWND_ACTION_DUPACK\<rparr>)) (retransmit_first c now)
     else Inr ([], s))"

definition newreno_dupack_action :: "tcp_conf \<Rightarrow> rat \<Rightarrow> tcp \<Rightarrow> tcp_step" where
  "newreno_dupack_action c now s =
    (let reno_action = bind_r (reset_rtx_timer c now True False (s\<lparr>recover_seq := maxseq s\<rparr>)) (\<lambda>s1.
           retransmit_first c now (tcp_slowdown c {CLOSE_SSTHRESH_HALF, CLOSE_CWND_HALF} (s1\<lparr>last_cwnd_action := CWND_ACTION_DUPACK\<rparr>)))
     in if highest_ack s > recover_seq s \<or> \<not> bug_fix c \<and> \<not> ecn_capable c \<or> bugfix_ss c \<and> highest_ack s = 0 then reno_action
        else if bug_fix c \<and> less_careful c \<and> highest_ack s = recover_seq s then reno_action
        else if ecn_capable c \<and> last_cwnd_action s = CWND_ACTION_ECN
        then bind_r (reset_rtx_timer c now True False (s\<lparr>last_cwnd_action := CWND_ACTION_DUPACK\<rparr>)) (retransmit_first c now)
        else if bug_fix c then
          (if bugfix_ack c \<and> cwnd s > 1 \<and> highest_ack s - prev_highest_ack s \<le> numdupacks c then reno_action else Inr ([], s))
        else reno_action)"

subsection \<open>Partial acknowledgements\<close>

definition deflate_window :: "tcp_pkt \<Rightarrow> tcp \<Rightarrow> tcp" where
  "deflate_window p s =
    (let deflate = (if tp_seqno p > last_ack s then word_of_int (tp_seqno p - last_ack s) else 0 :: 32 word);
         s1 = (if dupwnd s > deflate then s\<lparr>dupwnd := dupwnd s - (deflate - 1)\<rparr>
               else s\<lparr>cwnd := cwnd s - of_int (uint (deflate - dupwnd s)), dupwnd := 1\<rparr>)
     in if cwnd s1 < 1 then s1\<lparr>cwnd := 1\<rparr> else s1)"

definition partialnewack :: "tcp_conf \<Rightarrow> tcp_pkt \<Rightarrow> tcp \<Rightarrow> tcp" where
  "partialnewack c p s =
    (let s1 = (if partial_window_deflation c then deflate_window p s else s);
         s2 = s1\<lparr>last_ack := tp_seqno p, highest_ack := tp_seqno p, t_seqno := max (t_seqno s1) (tp_seqno p + 1)\<rparr>
     in if rtt_active s2 \<and> tp_seqno p \<ge> rtt_seq s2 then s2\<lparr>rtt_active := False, rtt_est := (rtt_est s2)\<lparr>t_backoff := 1\<rparr>\<rparr> else s2)"

definition partialnewack_helper :: "tcp_conf \<Rightarrow> rat \<Rightarrow> tcp_pkt \<Rightarrow> tcp \<Rightarrow> tcp_step" where
  "partialnewack_helper c now p s =
    bind_r (if \<not> newreno_changes1 c \<or> \<not> nr_firstpartial (newreno_st s)
        then newtimer c now p (s\<lparr>newreno_st := (newreno_st s)\<lparr>nr_firstpartial := True\<rparr>\<rparr>) else Inr s) (\<lambda>s1.
      let s2 = partialnewack c p s1 in tcp_output c now (last_ack s2 + 1) TCP_REASON_NONE s2)"

subsection \<open>Acknowledgements\<close>

text \<open>The start of the three functions \<^verbatim>\<open>recv\<close>, and the new acknowledgement.\<close>

definition recv_begin :: "tcp_conf \<Rightarrow> tcp_pkt \<Rightarrow> tcp \<Rightarrow> tcp result" where
  "recv_begin c p s =
    (let s1 = s\<lparr>ts_peer := tp_ts p\<rparr> in
     bind_r (if tp_ecnecho p \<noteq> 0 \<and> ecn_capable c then tcp_ecn c (tp_seqno p) s1 else Inr s1) (\<lambda>s2. Inr (recv_frto_helper p s2)))"

definition recv_newack :: "tcp_conf \<Rightarrow> rat \<Rightarrow> tcp_pkt \<Rightarrow> tcp \<Rightarrow> tcp_step" where
  "recv_newack c now p s =
    bind_r (recv_newack_helper c now p s) (\<lambda>(out, s1).
      if last_ack s1 = 0 \<and> delay_growth c then bind_r (initial_window (tc_size c) s1) (\<lambda>w. Inr (out, s1\<lparr>cwnd := w\<rparr>)) else Inr (out, s1))"

definition tahoe_ack :: "tcp_conf \<Rightarrow> rat \<Rightarrow> tcp_pkt \<Rightarrow> tcp \<Rightarrow> tcp_step" where
  "tahoe_ack c now p s =
    (if tp_seqno p > last_ack s then recv_newack c now p s
     else if tp_seqno p = last_ack s then
       (let s1 = s\<lparr>dupacks := dupacks s + 1\<rparr> in
        if dupacks s1 = numdupacks c \<and> \<not> noFastRetrans c then tahoe_dupack_action c now s1
        else if dupacks s1 < numdupacks c \<and> singledup c then send_one c now s1
        else Inr ([], s1))
     else Inr ([], s))"

definition recv_tahoe :: "tcp_conf \<Rightarrow> rat \<Rightarrow> rat \<Rightarrow> tcp_pkt \<Rightarrow> tcp \<Rightarrow> tcp_step" where
  "recv_tahoe c now u p s =
    (if tp_ts p < tcp_lastreset s then Inr ([], s)
     else bind_r (recv_begin c p s) (\<lambda>s1. then_r (tahoe_ack c now p s1) (\<lambda>s2.
       if tp_seqno p \<ge> last_ack s2 \<or> aggressive_maxburst c then send_much c now u False TCP_REASON_NONE (maxburst c) s2 else Inr ([], s2))))"

text \<open>Duplicate acknowledgements of Reno and NewReno inflate the window; NewReno may send a new packet
  for every second one.\<close>

definition recv_dupack :: "tcp_conf \<Rightarrow> rat \<Rightarrow> tcp \<Rightarrow> tcp_step" where
  "recv_dupack c now s =
    (let s1 = s\<lparr>dupacks := dupacks s + 1\<rparr> in
     if dupacks s1 = numdupacks c then
       bind_r (if tc_class c = NewReno then newreno_dupack_action c now s1 else reno_dupack_action c now s1) (\<lambda>(out, s2).
         Inr (out, if exitFastRetrans c then s2 else s2\<lparr>dupwnd := word_of_int (numdupacks c)\<rparr>))
     else if dupacks s1 > numdupacks c \<and> (\<not> exitFastRetrans c \<or> last_cwnd_action s1 = CWND_ACTION_DUPACK) then
       (let s2 = s1\<lparr>dupwnd := dupwnd s1 + 1\<rparr> in
        if tc_class c = NewReno \<and> newreno_changes c > 0 \<and> dupacks s2 smod 2 = 1
        then tcp_output c now (t_seqno s2) TCP_REASON_NONE (s2\<lparr>t_seqno := t_seqno s2 + 1\<rparr>) else Inr ([], s2))
     else if dupacks s1 < numdupacks c \<and> singledup c then send_one c now s1
     else Inr ([], s1))"

definition reno_ack :: "tcp_conf \<Rightarrow> rat \<Rightarrow> tcp_pkt \<Rightarrow> tcp \<Rightarrow> tcp_step" where
  "reno_ack c now p s =
    (if tp_seqno p > last_ack s then
       recv_newack c now p (s\<lparr>last_cwnd_action := (if last_cwnd_action s = CWND_ACTION_DUPACK then CWND_ACTION_EXITED else last_cwnd_action s), dupwnd := 0\<rparr>)
     else if tp_seqno p = last_ack s then recv_dupack c now s
     else Inr ([], s))"

definition recv_reno :: "tcp_conf \<Rightarrow> rat \<Rightarrow> rat \<Rightarrow> tcp_pkt \<Rightarrow> tcp \<Rightarrow> tcp_step" where
  "recv_reno c now u p s =
    (if tp_ts p < tcp_lastreset s then Inr ([], s)
     else bind_r (recv_begin c p s) (\<lambda>s1. then_r (reno_ack c now p s1) (\<lambda>s2.
       if (tp_seqno p \<ge> last_ack s2 \<or> aggressive_maxburst c) \<and> (dupacks s2 = 0 \<or> dupacks s2 > numdupacks c - 1)
       then send_much c now u False TCP_REASON_NONE (maxburst c) s2 else Inr ([], s2))))"

text \<open>NewReno estimates \<^verbatim>\<open>ssthresh_\<close> from its first three acknowledgements.  When the third comes at the time
  of the second the quotient is infinite.\<close>

definition newreno_estimate :: "tcp_conf \<Rightarrow> rat \<Rightarrow> tcp \<Rightarrow> tcp" where
  "newreno_estimate c now s =
    (let n = (newreno_st s)\<lparr>nr_acked := nr_acked (newreno_st s) + 1\<rparr> in
     if nr_acked n = 1 then s\<lparr>newreno_st := n\<lparr>nr_basertt := now - firstsent s\<rparr>\<rparr>
     else if nr_acked n = 2 then s\<lparr>newreno_st := n\<lparr>nr_ack2 := now\<rparr>\<rparr>
     else if nr_acked n = 3 then
       (let ss = (if now - nr_ack2 n = 0 \<or> tc_size c = 0 then int_of_inf c
              else int_of_double ((nr_basertt n * (of_int (tc_size c) / (now - nr_ack2 n))) / of_int (tc_size c)));
            s1 = s\<lparr>newreno_st := n\<lparr>nr_ack3 := now, nr_new_ssthresh := ss\<rparr>\<rparr>
        in if newreno_changes c > 0 \<and> ss < ssthresh s1 then s1\<lparr>ssthresh := ss\<rparr> else s1)
     else s\<lparr>newreno_st := n\<rparr>)"

definition leave_recovery :: "tcp_conf \<Rightarrow> tcp_pkt \<Rightarrow> tcp \<Rightarrow> tcp" where
  "leave_recovery c p s =
    (if dupwnd s > 0 then
       (let s1 = s\<lparr>dupwnd := 0, last_cwnd_action := (if last_cwnd_action s = CWND_ACTION_DUPACK then CWND_ACTION_EXITED else last_cwnd_action s)\<rparr>;
            outstanding = maxseq s1 - tp_seqno p + 1
        in if exit_recovery_fix c then s1\<lparr>cwnd := of_int (if ssthresh s1 < outstanding then ssthresh s1 else outstanding)\<rparr> else s1)
     else s)"

definition newreno_ack :: "tcp_conf \<Rightarrow> rat \<Rightarrow> tcp_pkt \<Rightarrow> tcp \<Rightarrow> tcp_step" where
  "newreno_ack c now p s =
    (if tp_seqno p > last_ack s then
       (if tp_seqno p \<ge> recover_seq s \<or> last_cwnd_action s \<noteq> CWND_ACTION_DUPACK then
          (let s1 = leave_recovery c p s in recv_newack c now p (s1\<lparr>newreno_st := (newreno_st s1)\<lparr>nr_firstpartial := False\<rparr>\<rparr>))
        else partialnewack_helper c now p (if partial_window_deflation c then s else s\<lparr>dupwnd := 0\<rparr>))
     else if tp_seqno p = last_ack s then recv_dupack c now s
     else Inr ([], s))"

definition recv_newreno :: "tcp_conf \<Rightarrow> rat \<Rightarrow> rat \<Rightarrow> tcp_pkt \<Rightarrow> tcp \<Rightarrow> tcp_step" where
  "recv_newreno c now u p s =
    (let s0 = newreno_estimate c now s in
    if tp_ts p < tcp_lastreset s0 then Inr ([], s0)
    else bind_r (recv_begin c p s0) (\<lambda>s1. then_r (newreno_ack c now p s1) (\<lambda>s2.
      if tp_seqno p \<ge> last_ack s2 \<or> aggressive_maxburst c then
        (if dupacks s2 = 0 then send_much c now u False TCP_REASON_NONE (maxburst c) s2
         else if dupacks s2 > numdupacks c - 1 \<and> newreno_changes c = 0 then send_much c now u False TCP_REASON_NONE 2 s2
         else Inr ([], s2))
      else Inr ([], s2))))"

definition tcp_recv :: "tcp_conf \<Rightarrow> rat \<Rightarrow> rat \<Rightarrow> tcp_pkt \<Rightarrow> tcp \<Rightarrow> tcp_step" where
  "tcp_recv c = (case tc_class c of Tahoe \<Rightarrow> recv_tahoe c | Reno \<Rightarrow> recv_reno c | NewReno \<Rightarrow> recv_newreno c)"

subsection \<open>Timeouts\<close>

text \<open>The window after a retransmission timeout: with nothing outstanding it may be left as it is.\<close>

definition timeout_begin :: "tcp_conf \<Rightarrow> tcp \<Rightarrow> tcp" where
  "timeout_begin c s =
    (let s0 = (if tc_class c = Tahoe then s
          else s\<lparr>dupwnd := 0, dupacks := 0, recover_seq := (if bug_fix c then maxseq s else recover_seq s)\<rparr>);
         s1 = s0\<lparr>frto := 0\<rparr>; w = window (tc_class c) (tc_win c) s1
     in s1\<lparr>pipe_prev := (if w > ssthresh s1 then w else ssthresh s1), cwnd := (if cwnd s1 < 1 then 1 else cwnd s1)\<rparr>)"

definition timeout_slowdown :: "tcp_conf \<Rightarrow> tcp \<Rightarrow> tcp" where
  "timeout_slowdown c s =
    (if highest_ack s = maxseq s \<and> \<not> slow_start_restart c then s
     else (let s1 = s\<lparr>recover_seq := maxseq s\<rparr>;
               s2 = (if highest_ack s1 = -1 \<and> wnd_init_option s1 = 2 then s1\<lparr>wnd_init_option := 1\<rparr>
                     else if highest_ack s1 = -1 \<and> wnd_init_option s1 = 1 \<and> wnd_init s1 > 1 \<and> bugfix_ss c then s1\<lparr>wnd_init := 1\<rparr> else s1)
           in if highest_ack s2 = maxseq s2 \<and> restart_bugfix c then tcp_slowdown c {CLOSE_CWND_ONE, NO_OUTSTANDING_DATA} s2
              else if highest_ack s2 < recover_seq s2 \<and> last_cwnd_action s2 = CWND_ACTION_ECN then
                (let s3 = tcp_slowdown c {CLOSE_CWND_ONE} s2 in if frto_enabled c then s3\<lparr>frto := 1\<rparr> else s3)
              else (let s3 = tcp_slowdown c {CLOSE_SSTHRESH_HALF, CLOSE_CWND_RESTART} (s2\<lparr>last_cwnd_action := CWND_ACTION_TIMEOUT\<rparr>)
                    in if frto_enabled c then s3\<lparr>frto := 1\<rparr> else s3)))"

definition timeout_rtx :: "tcp_conf \<Rightarrow> rat \<Rightarrow> rat \<Rightarrow> tcp \<Rightarrow> tcp_step" where
  "timeout_rtx c now u s =
    (let s1 = timeout_slowdown c (timeout_begin c s) in
     bind_r (reset_rtx_timer c now False (\<not> (highest_ack s1 = maxseq s1 \<and> restart_bugfix c)) s1) (\<lambda>s2.
       send_much c now u False TCP_REASON_TIMEOUT (maxburst c) (s2\<lparr>last_cwnd_action := CWND_ACTION_TIMEOUT\<rparr>)))"

text \<open>The three timers.\<close>

definition RtxTimer_handle :: "tcp_conf \<Rightarrow> rat \<Rightarrow> rat \<Rightarrow> tcp \<Rightarrow> tcp_step" where
  "RtxTimer_handle c now u = timer_handle rtx_timer (\<lambda>f s. s\<lparr>rtx_timer := f (rtx_timer s)\<rparr>) (timeout_rtx c now u)"

definition DelSndTimer_handle :: "tcp_conf \<Rightarrow> rat \<Rightarrow> rat \<Rightarrow> tcp \<Rightarrow> tcp_step" where
  "DelSndTimer_handle c now u = timer_handle delsnd_timer (\<lambda>f s. s\<lparr>delsnd_timer := f (delsnd_timer s)\<rparr>)
    (send_much c now u True TCP_REASON_TIMEOUT (maxburst c))"

definition BurstSndTimer_handle :: "tcp \<Rightarrow> tcp_step" where
  "BurstSndTimer_handle = timer_handle burstsnd_timer (\<lambda>f s. s\<lparr>burstsnd_timer := f (burstsnd_timer s)\<rparr>) (\<lambda>s. Inr ([], s))"

subsection \<open>Reset\<close>

definition set_initial_window :: "tcp_conf \<Rightarrow> tcp \<Rightarrow> tcp result" where
  "set_initial_window c s =
    (if syn c \<and> delay_growth c then Inr (s\<lparr>cwnd := 1, syn_connects := 0\<rparr>)
     else bind_r (initial_window (tc_size c) s) (\<lambda>w. Inr (s\<lparr>cwnd := w\<rparr>)))"

definition hstcp_init :: "win_conf \<Rightarrow> hstcp \<Rightarrow> hstcp result" where
  "hstcp_init c h =
    (let lw = of_int (low_window c); lp = 3 / 2 / (lw * lw); highLowWin = c_log c (of_int (high_window c)) - c_log c lw;
         highLowP = c_log c (high_p c) - c_log c lp
     in if lw = 0 \<or> highLowWin = 0 then Inl DivByZero
        else Inr (h\<lparr>hs_low_p := lp, hs_dec1 := 1 / 2 - c_log c lw * (high_decrease c - 1 / 2) / highLowWin, hs_dec2 := (high_decrease c - 1 / 2) / highLowWin,
          hs_p1 := c_log c lp - c_log c lw * highLowP / highLowWin, hs_p2 := highLowP / highLowWin\<rparr>))"

definition tcp_reset :: "tcp_conf \<Rightarrow> rat \<Rightarrow> rat \<Rightarrow> tcp \<Rightarrow> tcp result" where
  "tcp_reset c now u s =
    bind_r (rtt_init (tc_rtt c) (rtt_est s)) (\<lambda>r.
    bind_r (set_initial_window c (s\<lparr>rtt_est := r, rtt_seq := -1, dupacks := 0, curseq := 0\<rparr>)) (\<lambda>s1.
    let ss = int_of_double (wnd (tc_win c));
        s2 = s1\<lparr>t_seqno := 0, maxseq := -1, last_ack := -1, highest_ack := -1,
          ssthresh := (if max_ssthresh (tc_win c) > 0 \<and> max_ssthresh (tc_win c) < ss then max_ssthresh (tc_win c) else ss),
          wnd_restart := 1, awnd := wnd_init s1 / 2, recover_seq := 0, closed := False, last_cwnd_action := CWND_ACTION_NONE,
          rtt_est := (rtt_est s1)\<lparr>boot_time := u * tcp_tick (tc_rtt c)\<rparr>, first_decrease := True, tcp_lastreset := now,
          rtx_timer := force_cancel (rtx_timer s1), burstsnd_timer := force_cancel (burstsnd_timer s1), delsnd_timer := force_cancel (delsnd_timer s1)\<rparr>;
        s3 = (if control_increase c then s2\<lparr>prev_highest_ack := highest_ack s2\<rparr> else s2)
    in if wnd_option (tc_win c) = 8 then bind_r (hstcp_init (tc_win c) (hs_tcp s3)) (\<lambda>h. Inr (s3\<lparr>hs_tcp := h\<rparr>)) else Inr s3))"

end
