(* ===== verification/TcpInvariant.thy ===== *)
theory TcpInvariant
  imports TcpReceive
begin

text \<open>
  An invariant of the TCP senders and that every operation returns and keeps it: what has been sent has
  no gaps, the receiver's window is respected, and the retransmission timer runs while data is
  outstanding.
\<close>

subsection \<open>Configurations\<close>

text \<open>The default configuration satisfies this.  The high-speed and the binomial increase are left
  out, and with \<^verbatim>\<open>max_connects_\<close> a connection can be given up.\<close>

definition rtt_conf_ok :: "rtt_conf \<Rightarrow> bool" where
  "rtt_conf_ok c \<longleftrightarrow> 0 < tcp_tick c \<and> 2 * tcp_tick c \<le> maxrto c \<and> 0 \<le> minrto c \<and> 0 \<le> rtxcur_init c"

definition win_conf_ok :: "win_conf \<Rightarrow> bool" where
  "win_conf_ok c \<longleftrightarrow> 1 \<le> wnd c \<and> wnd_option c \<in> {0..5} \<and> 0 \<le> increase_num c \<and> (maxcwnd c = 0 \<or> 1 \<le> maxcwnd c)"

definition conf_ok :: "tcp_conf \<Rightarrow> bool" where
  "conf_ok c \<longleftrightarrow> rtt_conf_ok (tc_rtt c) \<and> win_conf_ok (tc_win c) \<and> max_connects c \<le> 0 \<and> newreno_changes c \<le> 0 \<and> tc_size c \<noteq> 0"

definition rcv_window :: "tcp_conf \<Rightarrow> int" where
  "rcv_window c = int_of_double (wnd (tc_win c))"

definition rtt_inv :: "rtt_state \<Rightarrow> bool" where
  "rtt_inv r \<longleftrightarrow> 0 \<le> t_rtxcur r \<and> 1 \<le> t_backoff r"

text \<open>The invariant.\<close>

definition tcp_inv :: "tcp_conf \<Rightarrow> tcp \<Rightarrow> bool" where
  "tcp_inv c s \<longleftrightarrow> last_ack s = highest_ack s \<and> -1 \<le> highest_ack s \<and> highest_ack s \<le> maxseq s \<and> 0 \<le> t_seqno s \<and> t_seqno s \<le> maxseq s + 1 \<and>
    frto s \<in> {0, 1, 2} \<and> (frto s \<noteq> 0 \<longrightarrow> -1 \<le> recover_seq s \<and> recover_seq s \<le> maxseq s \<and> 1 \<le> pipe_prev s) \<and>
    maxseq s \<le> highest_ack s + rcv_window c \<and> (highest_ack s < maxseq s \<longrightarrow> t_status (rtx_timer s) = TIMER_PENDING) \<and>
    1 \<le> cwnd s \<and> 1 \<le> ssthresh s \<and> rtt_inv (rtt_est s) \<and> wnd_init_option s \<in> {1, 2} \<and> 1 \<le> wnd_init s \<and> wnd_restart s = 1"

lemma rcv_window: "conf_ok c \<Longrightarrow> 1 \<le> rcv_window c \<and> rcv_window c = \<lfloor>wnd (tc_win c)\<rfloor>"
  by (simp add: conf_ok_def win_conf_ok_def rcv_window_def int_of_double_def)

text \<open>The sequence numbers of the packets sent.\<close>

definition seqnos :: "tcp_out list \<Rightarrow> int set" where
  "seqnos out = {tp_seqno p | p r. SendData p r \<in> set out}"

lemma seqnos_simps [simp]:
  "seqnos [] = {}" "seqnos (SendData p r # out) = insert (tp_seqno p) (seqnos out)" "seqnos (SendIdle # out) = seqnos out"
  "seqnos (SendDone # out) = seqnos out" "seqnos (a @ b) = seqnos a \<union> seqnos b"
  by (auto simp: seqnos_def)

text \<open>Their sizes.\<close>

definition pkt_size :: "tcp_conf \<Rightarrow> int \<Rightarrow> int" where
  "pkt_size c n = (if n = 0 then (if syn c then tcpip_base_hdr_size c else tc_size c) else if useHeaders c then tc_size c + headersize c else tc_size c)"

definition sized :: "tcp_conf \<Rightarrow> tcp_out list \<Rightarrow> bool" where
  "sized c out \<longleftrightarrow> (\<forall>p r. SendData p r \<in> set out \<longrightarrow> tp_size p = pkt_size c (tp_seqno p))"

lemma sized_simps [simp]: "sized c []" "sized c (a @ b) \<longleftrightarrow> sized c a \<and> sized c b"
  by (auto simp: sized_def)

lemma no_data: "seqnos out = {} \<Longrightarrow> sized c out"
  by (auto simp: seqnos_def sized_def)

lemma data_packet_size: "tp_size (data_packet c now n cwr s) = pkt_size c n" "tp_seqno (data_packet c now n cwr s) = n" "tp_ts (data_packet c now n cwr s) = now"
  by (simp_all add: data_packet_def pkt_size_def alloc_ack_def Let_def)

text \<open>A call returns, keeps the invariant, leaves \<^verbatim>\<open>highest_ack_\<close> at \<^verbatim>\<open>h\<close> and sends what \<^verbatim>\<open>maxseq_\<close> accounts
  for; it reports that the sender is done only when all the data is acknowledged.\<close>

definition step_to :: "tcp_conf \<Rightarrow> int \<Rightarrow> tcp \<Rightarrow> tcp_step \<Rightarrow> bool" where
  "step_to c h s m \<longleftrightarrow> (\<exists>out s'. m = Inr (out, s') \<and> tcp_inv c s' \<and> maxseq s \<le> maxseq s' \<and> {0..maxseq s} \<union> seqnos out = {0..maxseq s'} \<and> highest_ack s' = h \<and>
    curseq s \<le> curseq s' \<and> (SendDone \<in> set out \<longrightarrow> curseq s - 1 \<le> h) \<and> sized c out)"

abbreviation step_ok :: "tcp_conf \<Rightarrow> tcp \<Rightarrow> tcp_step \<Rightarrow> bool" where
  "step_ok c s m \<equiv> step_to c (highest_ack s) s m"

lemma step_ok_nothing: "tcp_inv c s' \<Longrightarrow> maxseq s' = maxseq s \<Longrightarrow> highest_ack s' = highest_ack s \<Longrightarrow> curseq s' = curseq s \<Longrightarrow> step_ok c s (Inr ([], s'))"
  by (simp add: step_to_def)

lemma step_ok_then:
  assumes "step_to c h s m" and "\<And>out s'. m = Inr (out, s') \<Longrightarrow> tcp_inv c s' \<Longrightarrow> step_ok c s' (f s')"
  shows "step_to c h s (then_r m f)"
proof -
  obtain o1 s1 where 1: "m = Inr (o1, s1)" "tcp_inv c s1" "maxseq s \<le> maxseq s1" "{0..maxseq s} \<union> seqnos o1 = {0..maxseq s1}" "highest_ack s1 = h"
      "curseq s \<le> curseq s1" "SendDone \<in> set o1 \<longrightarrow> curseq s - 1 \<le> h" "sized c o1"
    using assms(1) by (auto simp: step_to_def)
  obtain o2 s2 where 2: "f s1 = Inr (o2, s2)" "tcp_inv c s2" "maxseq s1 \<le> maxseq s2" "{0..maxseq s1} \<union> seqnos o2 = {0..maxseq s2}" "highest_ack s2 = h"
      "curseq s1 \<le> curseq s2" "SendDone \<in> set o2 \<longrightarrow> curseq s1 - 1 \<le> h" "sized c o2"
    using assms(2)[OF 1(1,2)] unfolding 1(5) step_to_def by blast
  have "{0..maxseq s} \<union> seqnos (o1 @ o2) = {0..maxseq s2}" using 1(4) 2(4) by auto
  moreover have "SendDone \<in> set (o1 @ o2) \<longrightarrow> curseq s - 1 \<le> h" using 1(6,7) 2(7) by auto
  moreover have "then_r m f = Inr (o1 @ o2, s2)" by (simp add: then_r_def 1(1) 2(1))
  ultimately show ?thesis using 1 2 unfolding step_to_def by auto
qed

subsection \<open>The retransmission timer\<close>

lemma rtt_timeout_returns:
  assumes "rtt_conf_ok c" and "rtt_inv r"
  shows "\<exists>t. rtt_timeout c r = Inr (t, r\<lparr>use_rtt := False\<rparr>)"
proof -
  have b: "(1::rat) \<le> of_int (t_backoff r)" using assms(2) by (simp add: rtt_inv_def)
  then have "0 \<le> minrto c * of_int (t_backoff r)" "0 \<le> t_rtxcur r * of_int (t_backoff r)" using assms by (simp_all add: rtt_inv_def rtt_conf_ok_def)
  then show ?thesis using assms(1) by (auto simp: rtt_timeout_def Let_def rtt_conf_ok_def)
qed

lemma set_rtx_timer_returns:
  assumes "rtt_conf_ok (tc_rtt c)" and "rtt_inv (rtt_est s)"
  shows "\<exists>r tm. set_rtx_timer c now s = Inr (s\<lparr>rtt_est := r, rtx_timer := tm\<rparr>) \<and> rtt_inv r \<and> t_status tm = TIMER_PENDING"
proof -
  obtain t where "rtt_timeout (tc_rtt c) (rtt_est s) = Inr (t, (rtt_est s)\<lparr>use_rtt := False\<rparr>)" using rtt_timeout_returns[OF assms] by blast
  then have "set_rtx_timer c now s = Inr (s\<lparr>rtt_est := (rtt_est s)\<lparr>use_rtt := False\<rparr>, rtx_timer := timer_resched now t (rtx_timer s)\<rparr>)"
    by (simp add: set_rtx_timer_def)
  moreover have "rtt_inv ((rtt_est s)\<lparr>use_rtt := False\<rparr>)" "t_status (timer_resched now t (rtx_timer s)) = TIMER_PENDING"
    using assms(2) by (simp_all add: rtt_inv_def timer_resched_def)
  ultimately show ?thesis by blast
qed

lemma rtt_backoff_returns:
  assumes "rtt_conf_ok c" and "rtt_inv r"
  shows "\<exists>r'. rtt_backoff c r = Inr r' \<and> rtt_inv r'"
proof -
  obtain t where t: "rtt_timeout c r = Inr (t, r\<lparr>use_rtt := False\<rparr>)" using rtt_timeout_returns[OF assms] by blast
  have "\<exists>more r'. (if t_backoff r < 64 then Inr (True, r) else if rfc2988 c then bind_r (rtt_timeout c r) (\<lambda>(t, s'). Inr (t < maxrto c, s')) else Inr (False, r)) = Inr (more, r') \<and> rtt_inv r'"
    using assms(2) by (cases "t_backoff r < 64"; cases "rfc2988 c") (auto simp: t rtt_inv_def intro: exI[of _ True] exI[of _ False])
  then obtain more r' where m: "(if t_backoff r < 64 then Inr (True, r) else if rfc2988 c then bind_r (rtt_timeout c r) (\<lambda>(t, s'). Inr (t < maxrto c, s')) else Inr (False, r)) = Inr (more, r')" "rtt_inv r'" by blast
  show ?thesis using m(2) unfolding rtt_backoff_def m(1) by (simp add: Let_def rtt_inv_def)
qed

lemma rtt_update_returns:
  assumes "rtt_conf_ok c" and "rtt_inv r"
  shows "\<exists>r'. rtt_update c now tao r = Inr r' \<and> rtt_inv r'"
proof -
  have s: "1 \<le> srtt_step b m x" "1 \<le> rttvar_step b b' m x y" for b b' m x y by (simp_all add: srtt_step_def rttvar_step_def Let_def)
  have p: "0 \<le> push_bit b m" if "1 \<le> m" for b and m :: int using that by simp
  have d: "0 \<le> drop_bit b (push_bit b' y + x)" if "0 \<le> x" "0 \<le> y" for b b' and x y :: int using that by simp
  have z: "0 \<le> srtt_step b m x" "0 \<le> rttvar_step b b' m x y" for b b' m x y using s(1)[of b m x] s(2)[of b b' m x y] by linarith+
  have tick: "0 < tcp_tick c" using assms(1) by (simp add: rtt_conf_ok_def)
  show ?thesis using assms(2) tick by (auto simp: rtt_update_def Let_def rtt_inv_def z p d split: prod.splits)
qed

lemma rtx_timer_inv:
  assumes "conf_ok c" and "tcp_inv c (s\<lparr>rtx_timer := tm\<rparr>)"
  shows "\<exists>r tm. set_rtx_timer c now s = Inr (s\<lparr>rtt_est := r, rtx_timer := tm\<rparr>) \<and> tcp_inv c (s\<lparr>rtt_est := r, rtx_timer := tm\<rparr>) \<and> t_status tm = TIMER_PENDING"
proof -
  obtain r tm where "set_rtx_timer c now s = Inr (s\<lparr>rtt_est := r, rtx_timer := tm\<rparr>)" "rtt_inv r" "t_status tm = TIMER_PENDING"
    using set_rtx_timer_returns[of c s now] assms by (auto simp: conf_ok_def tcp_inv_def)
  then show ?thesis using assms(2) by (auto simp: tcp_inv_def)
qed

subsection \<open>Sending\<close>

lemma output_sent_inv:
  assumes "tcp_inv c s" and "0 \<le> n" and "n \<le> maxseq s + 1" and "n \<le> highest_ack s + rcv_window c"
  shows "tcp_inv c ((output_sent now n (output_prepare c n s))\<lparr>rtx_timer := (rtx_timer s)\<lparr>t_status := TIMER_PENDING\<rparr>\<rparr>)"
proof -
  have p: "wnd_init_option (output_sent now n s) = wnd_init_option s" "wnd_init (output_sent now n s) = wnd_init s" "pipe_prev (output_sent now n s) = pipe_prev s"
      "wnd_restart (output_sent now n s) = wnd_restart s" for s
    by (simp_all add: output_sent_def Let_def)
  have q: "wnd_init_option (output_prepare c n s) = wnd_init_option s" "wnd_init (output_prepare c n s) = wnd_init s" "pipe_prev (output_prepare c n s) = pipe_prev s"
      "wnd_restart (output_prepare c n s) = wnd_restart s"
    by (simp_all add: output_prepare_def Let_def)
  define s3 where "s3 = output_sent now n (output_prepare c n s)"
  have "output_frame s s3" "maxseq s3 = max (maxseq s) n" "rtt_est s3 = rtt_est s"
      "wnd_init_option s3 = wnd_init_option s" "wnd_init s3 = wnd_init s" "pipe_prev s3 = pipe_prev s" "wnd_restart s3 = wnd_restart s"
    using output_prepare_frame[of s c n] output_sent_frame[of "output_prepare c n s" now n] by (simp_all add: s3_def output_frame_def p q)
  moreover obtain m where m: "m = max (maxseq s) n" "maxseq s \<le> m" "m \<le> highest_ack s + rcv_window c" using assms(1,4) by (simp add: tcp_inv_def)
  moreover have "frto s \<noteq> 0 \<longrightarrow> recover_seq s \<le> m" using assms(1) m(2) by (auto simp: tcp_inv_def)
  ultimately show ?thesis using assms(1) unfolding s3_def[symmetric] m(1)[symmetric] tcp_inv_def output_frame_def by simp
qed

lemma output_ok:
  assumes c: "conf_ok c" and inv: "tcp_inv c s" and n: "0 \<le> n" "n \<le> maxseq s + 1" "n \<le> highest_ack s + rcv_window c"
  shows "\<exists>out s'. tcp_output c now n reason s = Inr (out, s') \<and> tcp_inv c s' \<and> output_frame s s' \<and> maxseq s' = max (maxseq s) n \<and> seqnos out = {n} \<and>
    curseq s \<le> curseq s' \<and> SendDone \<notin> set out \<and> sized c out"
proof -
  define s3 where "s3 = output_sent now n (output_prepare c n s)"
  have na: "\<not> aborts c n s" using c by (simp add: aborts_def conf_ok_def)
  have i: "tcp_inv c (s3\<lparr>rtx_timer := (rtx_timer s)\<lparr>t_status := TIMER_PENDING\<rparr>\<rparr>)" unfolding s3_def by (rule output_sent_inv[OF inv n])
  have t: "rtx_timer s3 = rtx_timer s" using output_prepare_frame[of s c n] output_sent_frame[of "output_prepare c n s" now n] by (simp add: s3_def)
  obtain r tm where r: "set_rtx_timer c now s3 = Inr (s3\<lparr>rtt_est := r, rtx_timer := tm\<rparr>)" "tcp_inv c (s3\<lparr>rtt_est := r, rtx_timer := tm\<rparr>)"
    using rtx_timer_inv[OF c i] by blast
  have "t_status (rtx_timer s) = TIMER_PENDING \<Longrightarrow> tcp_inv c s3" using i t by (simp add: tcp_inv_def)
  then obtain out s' where o: "tcp_output c now n reason s = Inr (out, s')" "tcp_inv c s'"
    using r unfolding output_eq[OF na] Let_def s3_def[symmetric] by (cases "t_status (rtx_timer s) \<noteq> TIMER_PENDING \<or> highest_ack s = maxseq s") auto
  obtain q rest where q: "out = SendData q reason # rest" "q = data_packet c now n (marks_cwr c n s) s" "rest = [] \<or> rest = [SendIdle]"
    using outputD(5)[OF o(1) na] by blast
  then have "tp_size q = pkt_size c (tp_seqno q)" "tp_seqno q = n" by (simp_all add: data_packet_size)
  then have "sized c out" "seqnos out = {n}" "SendDone \<notin> set out" using q by (auto simp: sized_def)
  then show ?thesis using o outputD(1,2,4)[OF o(1) na] by auto
qed

lemma output_step_ok:
  assumes "conf_ok c" and "tcp_inv c s" and "0 \<le> n" and "n \<le> maxseq s + 1" and "n \<le> highest_ack s + rcv_window c"
  shows "step_ok c s (tcp_output c now n reason s)"
proof -
  obtain out s' where o: "tcp_output c now n reason s = Inr (out, s')" "tcp_inv c s'" "output_frame s s'" "maxseq s' = max (maxseq s) n" "seqnos out = {n}"
      "curseq s \<le> curseq s'" "SendDone \<notin> set out" "sized c out"
    using output_ok[OF assms] by blast
  moreover have "{0..maxseq s} \<union> {n} = {0..max (maxseq s) n}" using assms(3,4) by auto
  ultimately show ?thesis unfolding step_to_def by (auto simp: output_frame_def)
qed

lemma inv_seqno: "tcp_inv c s \<Longrightarrow> 0 \<le> n \<Longrightarrow> n \<le> maxseq s + 1 \<Longrightarrow> tcp_inv c (s\<lparr>t_seqno := n\<rparr>)"
  by (simp add: tcp_inv_def)

lemma output_next_ok:
  assumes "conf_ok c" and "tcp_inv c s" and "t_seqno s \<le> highest_ack s + rcv_window c"
  shows "step_ok c s (bind_r (tcp_output c now (t_seqno s) reason s) (\<lambda>(out, s1). Inr (out, s1\<lparr>t_seqno := t_seqno s1 + 1\<rparr>)))"
proof -
  have t: "0 \<le> t_seqno s" "t_seqno s \<le> maxseq s + 1" using assms(2) by (simp_all add: tcp_inv_def)
  obtain out s' where o: "tcp_output c now (t_seqno s) reason s = Inr (out, s')" "tcp_inv c s'" "output_frame s s'" "maxseq s' = max (maxseq s) (t_seqno s)" "seqnos out = {t_seqno s}"
      "curseq s \<le> curseq s'" "SendDone \<notin> set out" "sized c out"
    using output_ok[OF assms(1,2) t assms(3)] by blast
  have f: "t_seqno s' = t_seqno s" "highest_ack s' = highest_ack s" using o(3) by (simp_all add: output_frame_def)
  have "tcp_inv c (s'\<lparr>t_seqno := t_seqno s' + 1\<rparr>)" by (rule inv_seqno[OF o(2)]) (use o(4) t f in linarith)+
  moreover have "{0..maxseq s} \<union> {t_seqno s} = {0..max (maxseq s) (t_seqno s)}" using t by auto
  ultimately show ?thesis unfolding step_to_def o(1) using o(4-8) f by simp
qed

lemma window_le:
  assumes "conf_ok c"
  shows "window (tc_class c) (tc_win c) s \<le> rcv_window c"
proof -
  have w: "0 \<le> wnd (tc_win c)" using assms by (simp add: conf_ok_def win_conf_ok_def)
  have "int_of_double x \<le> \<lfloor>wnd (tc_win c)\<rfloor>" if "x < wnd (tc_win c)" for x
  proof (cases "0 \<le> x")
    case False
    then have "\<lceil>x\<rceil> \<le> 0" by (simp add: ceiling_le_iff)
    moreover have "0 \<le> \<lfloor>wnd (tc_win c)\<rfloor>" using w by simp
    ultimately have "\<lceil>x\<rceil> \<le> \<lfloor>wnd (tc_win c)\<rfloor>" by linarith
    then show ?thesis using False unfolding int_of_double_def by (simp only: if_False)
  qed (use that in \<open>simp add: int_of_double_def floor_mono\<close>)
  moreover have "i \<le> \<lfloor>wnd (tc_win c)\<rfloor>" if "of_int i < wnd (tc_win c)" for i using that by (simp add: le_floor_iff)
  ultimately show ?thesis using w by (auto simp: window_def rcv_window_def int_of_double_def Let_def)
qed

lemma send_loop_ok:
  assumes "conf_ok c" and "tcp_inv c s" and "win \<le> rcv_window c" and "overhead c = 0 \<or> force \<or> t_status (delsnd_timer s) \<noteq> TIMER_PENDING"
  shows "step_ok c s (send_loop c now u force reason burst npackets win s)"
  using assms
proof (induction c now u force reason burst npackets win s rule: send_loop.induct)
  case (1 c now u force reason burst npackets win s)
  show ?case
  proof (cases "t_seqno s \<le> highest_ack s + win \<and> t_seqno s < curseq s")
    case go: True
    show ?thesis
    proof (cases "overhead c = 0 \<or> force")
      case True
      have "step_ok c s (then_r (bind_r (tcp_output c now (t_seqno s) reason s) (\<lambda>(out, s1). Inr (out, s1\<lparr>t_seqno := t_seqno s1 + 1\<rparr>))) (\<lambda>s2.
            if burst \<noteq> 0 \<and> npackets + 1 = burst then Inr ([], s2)
            else send_loop c now u force reason burst (npackets + 1) (window (tc_class c) (tc_win c) s2) s2))"
      proof (rule step_ok_then)
        show "step_ok c s (bind_r (tcp_output c now (t_seqno s) reason s) (\<lambda>(out, s1). Inr (out, s1\<lparr>t_seqno := t_seqno s1 + 1\<rparr>)))"
          by (rule output_next_ok) (use "1.prems" go in auto)
        show "step_ok c s2 (if burst \<noteq> 0 \<and> npackets + 1 = burst then Inr ([], s2)
            else send_loop c now u force reason burst (npackets + 1) (window (tc_class c) (tc_win c) s2) s2)"
          if "bind_r (tcp_output c now (t_seqno s) reason s) (\<lambda>(out, s1). Inr (out, s1\<lparr>t_seqno := t_seqno s1 + 1\<rparr>)) = Inr (out, s2)" "tcp_inv c s2" for out s2
          using "1.IH"[OF go True that(1)] "1.prems"(1) that(2) window_le[OF "1.prems"(1)] True by (auto intro: step_ok_nothing)
      qed
      then show ?thesis using go True by (subst send_loop.simps) simp
    next
      case False
      have "tcp_inv c (s\<lparr>delsnd_timer := tm\<rparr>)" for tm using "1.prems"(2) by (simp add: tcp_inv_def)
      then show ?thesis using go False "1.prems"(4) by (subst send_loop.simps) (simp add: step_ok_nothing)
    qed
  next
    case False
    then show ?thesis using "1.prems"(2) by (subst send_loop.simps) (auto intro: step_ok_nothing)
  qed
qed

lemma send_much_ok:
  assumes "conf_ok c" and "tcp_inv c s"
  shows "step_ok c s (send_much c now u force reason burst s)"
proof -
  have i: "tcp_inv c (s\<lparr>firstsent := now\<rparr>)" using assms(2) by (simp add: tcp_inv_def)
  have l: "step_ok c s' (send_loop c now u force reason burst 0 (window (tc_class c) (tc_win c) s') s')"
    if "tcp_inv c s'" "force \<or> t_status (delsnd_timer s') \<noteq> TIMER_PENDING" for s'
    by (rule send_loop_ok[OF assms(1) that(1) window_le[OF assms(1)]]) (use that(2) in blast)
  have e: "step_ok c (s\<lparr>firstsent := now\<rparr>) m \<Longrightarrow> step_ok c s m" for m by (simp add: step_to_def)
  show ?thesis using l[OF assms(2)] l[OF i] e assms(2) i
    by (auto simp: send_much_def Let_def intro!: step_ok_nothing)
qed


subsection \<open>Loss and congestion\<close>

lemma slowdown_frame:
  "\<exists>ss cw ca dn. slowdown k w how s =
      s\<lparr>ssthresh := ss, cwnd := cw, cong_action := ca, fcnt := 0, inc_count := 0, first_decrease := False, decrease_num := dn\<rparr> \<and> 2 \<le> ss \<and> 1 \<le> cw"
proof -
  obtain h d w' where e: "decreased w (window k w s) (windowd k w s) s = (h, d, w')" by (metis surj_pair)
  define s1 where "s1 = note_decrease w s"
  have "note_decrease w s = s\<lparr>decrease_num := (if hs_decreases w s then decrease_param w s else decrease_num s)\<rparr>" by (simp add: note_decrease_def)
  then obtain dn where dn: "s1 = s\<lparr>decrease_num := dn\<rparr>" unfolding s1_def by blast
  let ?ss = "slow_ssthresh w how (cwnd s < of_int (ssthresh s)) h d (windowd k w s) s1"
  let ?cw = "slow_cwnd w how (cwnd s < of_int (ssthresh s)) h d w' (windowd k w s) s1"
  have "slowdown k w how s = s\<lparr>ssthresh := (if ?ss < 2 then 2 else ?ss), cwnd := (if ?cw < 1 then 1 else ?cw),
      cong_action := (cong_action s1 \<or> how \<inter> {CLOSE_CWND_HALF, CLOSE_CWND_RESTART, CLOSE_CWND_INIT, CLOSE_CWND_ONE, CLOSE_CWND_DCTCP} \<noteq> {}),
      fcnt := 0, inc_count := 0, first_decrease := False, decrease_num := dn\<rparr>"
    unfolding slowdown_def Let_def e prod.case s1_def[symmetric] by (simp add: dn)
  moreover have "2 \<le> (if ?ss < 2 then 2 else ?ss)" "1 \<le> (if ?cw < 1 then 1 else ?cw)" by simp_all
  ultimately show ?thesis by blast
qed

lemma slowdown_ok:
  assumes "tcp_inv c s"
  shows "tcp_inv c (tcp_slowdown c how s)" and "maxseq (tcp_slowdown c how s) = maxseq s" and "highest_ack (tcp_slowdown c how s) = highest_ack s"
    and "last_ack (tcp_slowdown c how s) = last_ack s" and "rtx_timer (tcp_slowdown c how s) = rtx_timer s" and "recover_seq (tcp_slowdown c how s) = recover_seq s"
    and "curseq (tcp_slowdown c how s) = curseq s" and "frto (tcp_slowdown c how s) = frto s" and "pipe_prev (tcp_slowdown c how s) = pipe_prev s"
proof -
  obtain ss cw ca dn where e: "tcp_slowdown c how s = s\<lparr>ssthresh := ss, cwnd := cw, cong_action := ca, fcnt := 0, inc_count := 0, first_decrease := False, decrease_num := dn\<rparr>"
      "2 \<le> ss" "1 \<le> cw"
    unfolding tcp_slowdown_def using slowdown_frame by blast
  show "tcp_inv c (tcp_slowdown c how s)" using assms e(2,3) unfolding e(1) by (simp add: tcp_inv_def)
  show "maxseq (tcp_slowdown c how s) = maxseq s" "highest_ack (tcp_slowdown c how s) = highest_ack s" "last_ack (tcp_slowdown c how s) = last_ack s"
    "rtx_timer (tcp_slowdown c how s) = rtx_timer s" "recover_seq (tcp_slowdown c how s) = recover_seq s" "curseq (tcp_slowdown c how s) = curseq s" "frto (tcp_slowdown c how s) = frto s" "pipe_prev (tcp_slowdown c how s) = pipe_prev s"
    unfolding e(1) by simp_all
qed

text \<open>A call that sends nothing.\<close>

definition quiet :: "tcp_conf \<Rightarrow> tcp \<Rightarrow> tcp result \<Rightarrow> bool" where
  "quiet c s m \<longleftrightarrow> (\<exists>s'. m = Inr s' \<and> tcp_inv c s' \<and> maxseq s' = maxseq s \<and> highest_ack s' = highest_ack s \<and> curseq s' = curseq s)"

lemma quiet_Inr: "tcp_inv c s' \<Longrightarrow> maxseq s' = maxseq s \<Longrightarrow> highest_ack s' = highest_ack s \<Longrightarrow> curseq s' = curseq s \<Longrightarrow> quiet c s (Inr s')"
  by (simp add: quiet_def)

lemma quiet_step: "quiet c s m \<Longrightarrow> (\<And>s'. m = Inr s' \<Longrightarrow> tcp_inv c s' \<Longrightarrow> step_ok c s' (f s')) \<Longrightarrow> step_ok c s (bind_r m f)"
  by (auto simp: quiet_def step_to_def)

lemma quiet_trans: "quiet c s' m \<Longrightarrow> maxseq s' = maxseq s \<Longrightarrow> highest_ack s' = highest_ack s \<Longrightarrow> curseq s' = curseq s \<Longrightarrow> quiet c s m"
  by (simp add: quiet_def)

lemma quiet_bind: "quiet c s m \<Longrightarrow> (\<And>s'. m = Inr s' \<Longrightarrow> tcp_inv c s' \<Longrightarrow> quiet c s' (f s')) \<Longrightarrow> quiet c s (bind_r m f)"
  by (auto simp: quiet_def)

lemma quiet_done: "quiet c s m \<Longrightarrow> step_ok c s (bind_r m (\<lambda>s1. Inr ([], s1)))"
  by (auto simp: quiet_def step_to_def)

lemma reset_rtx_timer_ok:
  assumes "conf_ok c" and "tcp_inv c (s\<lparr>rtx_timer := tm\<rparr>)"
  shows "quiet c s (reset_rtx_timer c now mild backoff s)"
proof -
  have "rtt_inv (rtt_est s)" "rtt_conf_ok (tc_rtt c)" using assms by (simp_all add: tcp_inv_def conf_ok_def)
  then obtain r where r: "(if backoff then rtt_backoff (tc_rtt c) (rtt_est s) else Inr (rtt_est s)) = Inr r" "rtt_inv r"
    using rtt_backoff_returns by (cases backoff) (simp, blast, simp)
  have i: "tcp_inv c (s\<lparr>rtt_est := r, rtx_timer := tm\<rparr>)" using assms(2) r(2) by (simp add: tcp_inv_def)
  obtain r' tm' where t: "set_rtx_timer c now (s\<lparr>rtt_est := r\<rparr>) = Inr (s\<lparr>rtt_est := r', rtx_timer := tm'\<rparr>)" "tcp_inv c (s\<lparr>rtt_est := r', rtx_timer := tm'\<rparr>)"
    using rtx_timer_inv[OF assms(1), where s = "s\<lparr>rtt_est := r\<rparr>" and tm = tm and now = now] i by auto
  show ?thesis using t(2) unfolding reset_rtx_timer_def r(1) bind_r_simps t(1) by (cases mild) (simp_all add: quiet_def tcp_inv_def)
qed

lemma inv_cwnd_action: "tcp_inv c (s\<lparr>last_cwnd_action := a\<rparr>) = tcp_inv c s" "tcp_inv c (s\<lparr>dupwnd := d\<rparr>) = tcp_inv c s" "tcp_inv c (s\<lparr>dupacks := n\<rparr>) = tcp_inv c s"
  "tcp_inv c (s\<lparr>newreno_st := ns\<rparr>) = tcp_inv c s" "tcp_inv c (s\<lparr>ts_peer := t\<rparr>) = tcp_inv c s" "tcp_inv c (s\<lparr>curseq := n\<rparr>) = tcp_inv c s" "tcp_inv c (s\<lparr>closed := b\<rparr>) = tcp_inv c s"
  "tcp_inv c (s\<lparr>prev_highest_ack := n\<rparr>) = tcp_inv c s" "tcp_inv c (s\<lparr>ecn_backoff := b\<rparr>) = tcp_inv c s" "tcp_inv c (s\<lparr>rtt_active := b\<rparr>) = tcp_inv c s"
  "tcp_inv c (s\<lparr>ect_on := b\<rparr>) = tcp_inv c s" "tcp_inv c (s\<lparr>ecn_burst := b\<rparr>) = tcp_inv c s" "tcp_inv c (s\<lparr>ts_echo := t\<rparr>) = tcp_inv c s" "tcp_inv c (s\<lparr>awnd := w\<rparr>) = tcp_inv c s"
  "tcp_inv c (s\<lparr>delsnd_timer := tm\<rparr>) = tcp_inv c s" "tcp_inv c (s\<lparr>burstsnd_timer := tm\<rparr>) = tcp_inv c s"
  by (simp_all add: tcp_inv_def)

lemma inv_recover: "tcp_inv c s \<Longrightarrow> tcp_inv c (s\<lparr>recover_seq := maxseq s\<rparr>)"
  by (auto simp: tcp_inv_def)

lemma retransmit_first_ok:
  assumes "conf_ok c" and "tcp_inv c s"
  shows "step_ok c s (retransmit_first c now s)"
proof -
  have "0 \<le> last_ack s + 1" "last_ack s + 1 \<le> maxseq s + 1" "last_ack s + 1 \<le> highest_ack s + rcv_window c"
    using assms(2) rcv_window[OF assms(1), THEN conjunct1] by (simp_all add: tcp_inv_def)
  from output_step_ok[OF assms this, of now TCP_REASON_DUPACK] obtain out s' where "tcp_output c now (last_ack s + 1) TCP_REASON_DUPACK s = Inr (out, s')"
      "tcp_inv c s'" "maxseq s \<le> maxseq s'" "{0..maxseq s} \<union> seqnos out = {0..maxseq s'}" "highest_ack s' = highest_ack s"
      "curseq s \<le> curseq s'" "SendDone \<in> set out \<longrightarrow> curseq s - 1 \<le> highest_ack s" "sized c out"
    unfolding step_to_def by blast
  then show ?thesis by (simp add: retransmit_first_def step_to_def inv_cwnd_action)
qed

lemma send_one_ok:
  assumes "conf_ok c" and "tcp_inv c s"
  shows "step_ok c s (send_one c now s)"
proof (cases "of_int (t_seqno s) \<le> of_int (highest_ack s) + wnd (tc_win c)")
  case True
  then have "of_int (t_seqno s - highest_ack s) \<le> wnd (tc_win c)" by simp
  then have "t_seqno s \<le> highest_ack s + rcv_window c" using rcv_window[OF assms(1)] le_floor_iff[of "t_seqno s - highest_ack s" "wnd (tc_win c)"] by simp
  from output_next_ok[OF assms this] show ?thesis using assms(2) by (auto simp: send_one_def intro: step_ok_nothing)
qed (use assms(2) in \<open>simp add: send_one_def step_ok_nothing\<close>)

lemma tahoe_dupack_ok:
  assumes c: "conf_ok c" and i: "tcp_inv c s"
  shows "step_ok c s (tahoe_dupack_action c now s)"
proof -
  have a: "quiet c s (reset_rtx_timer c now False False (tcp_slowdown c how s'))" if "tcp_inv c s'" "maxseq s' = maxseq s" "highest_ack s' = highest_ack s" "curseq s' = curseq s" for how s'
  proof -
    have "tcp_inv c ((tcp_slowdown c how s')\<lparr>rtx_timer := rtx_timer (tcp_slowdown c how s')\<rparr>)" using slowdown_ok(1)[OF that(1)] by simp
    from reset_rtx_timer_ok[OF c this] show ?thesis by (rule quiet_trans) (use slowdown_ok(2,3,7)[OF that(1)] that(2-4) in simp_all)
  qed
  have "tcp_inv c (s\<lparr>recover_seq := maxseq s, last_cwnd_action := CWND_ACTION_DUPACK\<rparr>)" "tcp_inv c (s\<lparr>last_cwnd_action := CWND_ACTION_DUPACK\<rparr>)"
    using i inv_recover[OF i] by (simp_all add: inv_cwnd_action)
  from this[THEN a] show ?thesis using i unfolding tahoe_dupack_action_def by (simp add: quiet_done step_ok_nothing)
qed

lemma reset_retransmit_ok:
  assumes c: "conf_ok c" and i: "tcp_inv c s'" "maxseq s' = maxseq s" "highest_ack s' = highest_ack s" "curseq s' = curseq s"
    and f: "\<And>s1. tcp_inv c s1 \<Longrightarrow> step_ok c s1 (f s1)"
  shows "step_ok c s (bind_r (reset_rtx_timer c now mild backoff s') f)"
proof (rule quiet_step)
  have "tcp_inv c (s'\<lparr>rtx_timer := rtx_timer s'\<rparr>)" using i(1) by simp
  from reset_rtx_timer_ok[OF c this] show "quiet c s (reset_rtx_timer c now mild backoff s')" by (rule quiet_trans) (use i in simp_all)
qed (use f in blast)

lemma reno_dupack_ok:
  assumes c: "conf_ok c" and i: "tcp_inv c s"
  shows "step_ok c s (reno_dupack_action c now s)"
proof -
  let ?s = "s\<lparr>recover_seq := maxseq s, last_cwnd_action := CWND_ACTION_DUPACK\<rparr>"
  have r: "tcp_inv c ?s" "tcp_inv c (s\<lparr>last_cwnd_action := CWND_ACTION_DUPACK\<rparr>)" using i inv_recover[OF i] by (simp_all add: inv_cwnd_action)
  note f = retransmit_first_ok[OF c]
  have "step_ok c s (bind_r (reset_rtx_timer c now True False (tcp_slowdown c how ?s)) (retransmit_first c now))" for how
    by (rule reset_retransmit_ok[OF c slowdown_ok(1)[OF r(1)] _ _ _ f]) (simp_all add: slowdown_ok[OF r(1)])
  moreover have "step_ok c s (bind_r (reset_rtx_timer c now True False (s\<lparr>last_cwnd_action := CWND_ACTION_DUPACK\<rparr>)) (retransmit_first c now))"
    by (rule reset_retransmit_ok[OF c r(2) _ _ _ f]) simp_all
  ultimately show ?thesis using i unfolding reno_dupack_action_def by (simp add: step_ok_nothing)
qed

lemma newreno_dupack_ok:
  assumes c: "conf_ok c" and i: "tcp_inv c s"
  shows "step_ok c s (newreno_dupack_action c now s)"
proof -
  have r: "tcp_inv c (s\<lparr>last_cwnd_action := CWND_ACTION_DUPACK\<rparr>)" using i by (simp add: inv_cwnd_action)
  note f = retransmit_first_ok[OF c]
  have g: "step_ok c s1 (retransmit_first c now (tcp_slowdown c how (s1\<lparr>last_cwnd_action := CWND_ACTION_DUPACK\<rparr>)))" if "tcp_inv c s1" for s1 how
  proof -
    have j: "tcp_inv c (s1\<lparr>last_cwnd_action := CWND_ACTION_DUPACK\<rparr>)" using that by (simp add: inv_cwnd_action)
    show ?thesis using f[OF slowdown_ok(1)[OF j]] by (simp add: step_to_def slowdown_ok[OF j])
  qed
  have "step_ok c s (bind_r (reset_rtx_timer c now True False (s\<lparr>recover_seq := maxseq s\<rparr>)) (\<lambda>s1.
      retransmit_first c now (tcp_slowdown c how (s1\<lparr>last_cwnd_action := CWND_ACTION_DUPACK\<rparr>))))" for how
    by (rule reset_retransmit_ok[OF c inv_recover[OF i] _ _ _ g]) simp_all
  moreover have "step_ok c s (bind_r (reset_rtx_timer c now True False (s\<lparr>last_cwnd_action := CWND_ACTION_DUPACK\<rparr>)) (retransmit_first c now))"
    by (rule reset_retransmit_ok[OF c r _ _ _ f]) simp_all
  moreover have "newreno_dupack_action c now s \<in> {bind_r (reset_rtx_timer c now True False (s\<lparr>recover_seq := maxseq s\<rparr>)) (\<lambda>s1.
      retransmit_first c now (tcp_slowdown c {CLOSE_SSTHRESH_HALF, CLOSE_CWND_HALF} (s1\<lparr>last_cwnd_action := CWND_ACTION_DUPACK\<rparr>))),
      bind_r (reset_rtx_timer c now True False (s\<lparr>last_cwnd_action := CWND_ACTION_DUPACK\<rparr>)) (retransmit_first c now), Inr ([], s)}"
    unfolding newreno_dupack_action_def Let_def by simp
  ultimately show ?thesis using step_ok_nothing[OF i] by auto
qed


subsection \<open>New acknowledgements\<close>

lemma tcp_ecn_ok:
  assumes c: "conf_ok c" and i: "tcp_inv c s"
  shows "quiet c s (tcp_ecn c n s)"
proof -
  let ?s = "s\<lparr>recover_seq := maxseq s, last_cwnd_action := CWND_ACTION_ECN\<rparr>"
  have j: "tcp_inv c ?s" using inv_recover[OF i] by (simp add: inv_cwnd_action)
  have "rtt_inv (rtt_est s)" "rtt_conf_ok (tc_rtt c)" using i c by (simp_all add: tcp_inv_def conf_ok_def)
  then obtain r where r: "rtt_backoff (tc_rtt c) (rtt_est s) = Inr r" "rtt_inv r" using rtt_backoff_returns by blast
  have k: "tcp_inv c (?s\<lparr>rtt_est := r\<rparr>)" using j r(2) by (simp add: tcp_inv_def)
  have q: "quiet c s (Inr (tcp_slowdown c how s'))" if "tcp_inv c s'" "maxseq s' = maxseq s" "highest_ack s' = highest_ack s" "curseq s' = curseq s" for how s'
    by (rule quiet_Inr) (use slowdown_ok[OF that(1)] that in simp_all)
  show ?thesis using i j k r(1) unfolding tcp_ecn_def Let_def
    by (cases "cwnd s \<le> 1"; cases "ecn_backoff s") (simp_all add: q quiet_Inr inv_cwnd_action)
qed

lemma recv_frto_helper_ok:
  assumes i: "tcp_inv c s"
  shows "tcp_inv c (recv_frto_helper p s)" and "maxseq (recv_frto_helper p s) = maxseq s" and "highest_ack (recv_frto_helper p s) = highest_ack s"
    and "last_ack (recv_frto_helper p s) = last_ack s" and "curseq (recv_frto_helper p s) = curseq s"
proof -
  have "frto s \<noteq> 0 \<Longrightarrow> 1 \<le> (of_int (frto s) :: rat)" using i by (auto simp: tcp_inv_def)
  then show "tcp_inv c (recv_frto_helper p s)" using i unfolding recv_frto_helper_def by (simp add: tcp_inv_def)
qed (simp_all add: recv_frto_helper_def)

lemma recv_begin_ok:
  assumes c: "conf_ok c" and i: "tcp_inv c s"
  shows "quiet c s (recv_begin c p s)"
proof -
  let ?s = "s\<lparr>ts_peer := tp_ts p\<rparr>"
  have j: "tcp_inv c ?s" using i by (simp add: inv_cwnd_action)
  have "quiet c ?s (if tp_ecnecho p \<noteq> 0 \<and> ecn_capable c then tcp_ecn c (tp_seqno p) ?s else Inr ?s)"
    using tcp_ecn_ok[OF c j] j by (simp add: quiet_Inr)
  then have "quiet c ?s (recv_begin c p s)" unfolding recv_begin_def Let_def by (rule quiet_bind) (simp add: quiet_Inr recv_frto_helper_ok)
  then show ?thesis by (rule quiet_trans) simp_all
qed

lemma newtimer_returns:
  assumes "conf_ok c" and "rtt_inv (rtt_est s)"
  shows "\<exists>r tm. newtimer c now p s = Inr (s\<lparr>rtt_est := r, rtx_timer := tm\<rparr>) \<and> rtt_inv r \<and> (tp_seqno p < maxseq s \<longrightarrow> t_status tm = TIMER_PENDING)"
proof (cases "t_seqno s > tp_seqno p \<or> tp_seqno p < maxseq s \<or> cwnd s < 1")
  case True
  then show ?thesis using set_rtx_timer_returns[of c s now] assms by (auto simp: newtimer_def conf_ok_def)
next
  case False
  then have "newtimer c now p s = Inr (s\<lparr>rtt_est := rtt_est s, rtx_timer := force_cancel (rtx_timer s)\<rparr>)" by (simp add: newtimer_def)
  then show ?thesis using assms(2) False by blast
qed

lemma rtt_inv_backoff: "rtt_inv r \<Longrightarrow> rtt_inv (r\<lparr>t_backoff := 1\<rparr>)"
  by (simp add: rtt_inv_def)

lemma inv_rtt: "tcp_inv c s \<Longrightarrow> rtt_inv r \<Longrightarrow> tcp_inv c (s\<lparr>rtt_est := r\<rparr>)"
  by (simp add: tcp_inv_def)

lemma end_backoff_inv: "tcp_inv c s \<Longrightarrow> tcp_inv c (end_backoff s)"
  by (simp add: end_backoff_def tcp_inv_def rtt_inv_def)

lemma end_backoff_same: "maxseq (end_backoff s) = maxseq s" "highest_ack (end_backoff s) = highest_ack s" "t_seqno (end_backoff s) = t_seqno s"
  "prev_highest_ack (end_backoff s) = prev_highest_ack s" "last_ack (end_backoff s) = last_ack s"
  by (simp_all add: end_backoff_def)

text \<open>What is left alone while the acknowledgement is processed.\<close>

definition same_seqnos :: "tcp \<Rightarrow> tcp \<Rightarrow> bool" where
  "same_seqnos s s' \<longleftrightarrow> maxseq s' = maxseq s \<and> highest_ack s' = highest_ack s \<and> last_ack s' = last_ack s \<and> t_seqno s' = t_seqno s \<and>
    prev_highest_ack s' = prev_highest_ack s \<and> curseq s' = curseq s \<and> closed s' = closed s"

definition keeps :: "tcp_conf \<Rightarrow> tcp \<Rightarrow> tcp result \<Rightarrow> bool" where
  "keeps c s m \<longleftrightarrow> (\<exists>s'. m = Inr s' \<and> tcp_inv c s' \<and> same_seqnos s s')"

lemma keeps_Inr: "tcp_inv c s' \<Longrightarrow> same_seqnos s s' \<Longrightarrow> keeps c s (Inr s')"
  by (simp add: keeps_def)

lemma keeps_bind: "keeps c s m \<Longrightarrow> (\<And>s'. m = Inr s' \<Longrightarrow> tcp_inv c s' \<Longrightarrow> keeps c s' (f s')) \<Longrightarrow> keeps c s (bind_r m f)"
  by (fastforce simp: keeps_def same_seqnos_def)

lemma newack_ts_keeps:
  assumes "conf_ok c" and i: "tcp_inv c s"
  shows "keeps c s (newack_ts c now p s)"
proof -
  have "rtt_inv (rtt_est s)" "rtt_conf_ok (tc_rtt c)" using assms by (simp_all add: tcp_inv_def conf_ok_def)
  then obtain r where r: "rtt_update (tc_rtt c) now (now - tp_ts_echo p) (rtt_est s) = Inr r" "rtt_inv r" using rtt_update_returns by blast
  have j: "tcp_inv c (s\<lparr>ts_echo := tp_ts_echo p, rtt_est := r\<rparr>)" using inv_rtt[OF i r(2)] by (simp add: tcp_inv_def)
  show ?thesis using i j end_backoff_inv[OF j] unfolding newack_ts_def r(1) bind_r_simps Let_def
    by (simp add: keeps_def same_seqnos_def end_backoff_def)
qed

lemma newack_timed_keeps:
  assumes "conf_ok c" and i: "tcp_inv c s"
  shows "keeps c s (newack_timed c now p s)"
proof -
  define s' where "s' = (if ends_backoff p s then end_backoff s else s)\<lparr>rtt_active := False\<rparr>"
  have j: "tcp_inv c s'" "same_seqnos s s'" using i end_backoff_inv[OF i] by (simp_all add: s'_def inv_cwnd_action same_seqnos_def end_backoff_def)
  have "rtt_inv (rtt_est s')" "rtt_conf_ok (tc_rtt c)" using j assms(1) by (simp_all add: tcp_inv_def conf_ok_def)
  then obtain r where r: "rtt_update (tc_rtt c) now (now - rtt_ts s') (rtt_est s') = Inr r" "rtt_inv r" using rtt_update_returns by blast
  show ?thesis using i j inv_rtt[OF j(1) r(2)] unfolding newack_timed_def Let_def s'_def[symmetric] r(1) bind_r_simps
    by (simp add: keeps_def same_seqnos_def)
qed

lemma newtimer_keeps:
  assumes c: "conf_ok c" and i: "tcp_inv c s" and p: "tp_seqno p = highest_ack s"
  shows "keeps c s (newtimer c now p s)"
proof -
  have "rtt_inv (rtt_est s)" using i by (simp add: tcp_inv_def)
  from newtimer_returns[OF c this] obtain r tm where "newtimer c now p s = Inr (s\<lparr>rtt_est := r, rtx_timer := tm\<rparr>)" "rtt_inv r"
      "tp_seqno p < maxseq s \<longrightarrow> t_status tm = TIMER_PENDING" by blast
  then show ?thesis using i p by (simp add: keeps_def same_seqnos_def tcp_inv_def)
qed

text \<open>With the timer set before or after, the invariant holds once the acknowledgement is noted.\<close>

lemma advance_inv:
  assumes i: "tcp_inv c s" and p: "highest_ack s < n" "n \<le> maxseq s" and r: "rtt_inv r" and t: "n < maxseq s \<longrightarrow> t_status tm = TIMER_PENDING"
  shows "tcp_inv c (s\<lparr>rtt_est := r, rtx_timer := tm, last_ack := n, highest_ack := n, t_seqno := max (t_seqno s) (n + 1)\<rparr>)"
proof -
  have "max (t_seqno s) (n + 1) \<le> maxseq s + 1" "0 \<le> max (t_seqno s) (n + 1)" using i p by (simp_all add: tcp_inv_def le_max_iff_disj)
  then show ?thesis using i p r t by (simp add: tcp_inv_def)
qed

lemma newack_ok:
  assumes c: "conf_ok c" and i: "tcp_inv c s" and p: "highest_ack s < tp_seqno p" "tp_seqno p \<le> maxseq s"
  shows "\<exists>s'. newack c now p s = Inr s' \<and> tcp_inv c s' \<and> maxseq s' = maxseq s \<and> highest_ack s' = tp_seqno p \<and>
    prev_highest_ack s' = highest_ack s \<and> tp_seqno p < t_seqno s' \<and> curseq s' = curseq s \<and> closed s' = closed s"
proof -
  have ri: "rtt_inv (rtt_est s)" using i by (simp add: tcp_inv_def)
  obtain r tm where s1: "(if timerfix c then Inr s else newtimer c now p s) = Inr (s\<lparr>rtt_est := r, rtx_timer := tm\<rparr>)" "rtt_inv r"
      "tp_seqno p < maxseq s \<longrightarrow> t_status tm = TIMER_PENDING"
  proof (cases "timerfix c")
    case True
    have "t_status (rtx_timer s) = TIMER_PENDING" using i p by (simp add: tcp_inv_def)
    then show ?thesis using True that[of "rtx_timer s" "rtt_est s"] ri by simp
  next
    case False
    then show ?thesis using newtimer_returns[OF c ri, of now p] that by auto
  qed
  let ?s = "s\<lparr>rtt_est := r, rtx_timer := tm, dupacks := 0, last_ack := tp_seqno p, prev_highest_ack := highest_ack s, highest_ack := tp_seqno p,
      t_seqno := max (t_seqno s) (tp_seqno p + 1)\<rparr>"
  have j: "tcp_inv c ?s" using advance_inv[OF i p s1(2,3)] by (simp add: tcp_inv_def)
  let ?r = "bind_r (newack_ts c now p ?s) (\<lambda>s2. bind_r (newack_timed c now p s2) (\<lambda>s3. bind_r (if timerfix c then newtimer c now p s3 else Inr s3) (\<lambda>s4.
      Inr (s4\<lparr>awnd := awnd s4 * (1 - wnd_th (tc_win c)) + wnd_th (tc_win c) * cwnd s4\<rparr>))))"
  have w: "keeps c s4 (Inr (s4\<lparr>awnd := w\<rparr>))" if "tcp_inv c s4" for s4 w using that by (simp add: keeps_def same_seqnos_def inv_cwnd_action)
  have t: "keeps c s3 (if timerfix c then newtimer c now p s3 else Inr s3)" if "tcp_inv c s3" "highest_ack s3 = tp_seqno p" for s3
    using newtimer_keeps[OF c that(1)] that by (simp add: keeps_def same_seqnos_def)
  have "keeps c ?s ?r"
  proof (rule keeps_bind[OF newack_ts_keeps[OF c j]], rule keeps_bind[OF newack_timed_keeps[OF c]], assumption, rule keeps_bind[OF t])
    fix s2 s3 assume "newack_ts c now p ?s = Inr s2" "tcp_inv c s2" "newack_timed c now p s2 = Inr s3"
    then show "highest_ack s3 = tp_seqno p" using newack_ts_keeps[OF c j, of now p] newack_timed_keeps[OF c, of s2 now p] by (simp add: keeps_def same_seqnos_def)
  qed (simp_all add: w)
  then obtain s' where s': "?r = Inr s'" "tcp_inv c s'" "same_seqnos ?s s'" unfolding keeps_def by blast
  have e: "newack c now p s = ?r" unfolding newack_def s1(1) bind_r_simps by simp
  show ?thesis unfolding e s'(1) using s'(2,3) by (simp add: same_seqnos_def)
qed


lemma count_up_frame: "\<exists>fc cw. count_up f s = s\<lparr>fcnt := fc, cwnd := cw\<rparr> \<and> cwnd s \<le> cw"
proof (cases "f + fcnt s > cwnd s")
  case True
  then have "count_up f s = s\<lparr>fcnt := 0, cwnd := cwnd s + 1\<rparr>" by (simp add: count_up_def Let_def)
  then show ?thesis using less_eq_rat_def by (metis le_add_same_cancel1 zero_le_one)
next
  case False
  then have "count_up f s = s\<lparr>fcnt := f + fcnt s, cwnd := cwnd s\<rparr>" by (simp add: count_up_def Let_def)
  then show ?thesis by blast
qed

lemma cap_cwnd_frame:
  assumes "win_conf_ok w" and "1 \<le> cwnd s"
  shows "\<exists>cw. cap_cwnd w s = s\<lparr>cwnd := cw\<rparr> \<and> 1 \<le> cw"
proof (cases "maxcwnd w \<noteq> 0 \<and> int_of_double (cwnd s) > maxcwnd w")
  case True
  then have "cap_cwnd w s = s\<lparr>cwnd := of_int (maxcwnd w)\<rparr>" "1 \<le> maxcwnd w" using assms(1) by (auto simp: cap_cwnd_def win_conf_ok_def)
  then show ?thesis by (metis of_int_1_le_iff)
next
  case False
  then have "cap_cwnd w s = s\<lparr>cwnd := cwnd s\<rparr>" unfolding cap_cwnd_def by (simp only: if_False) simp
  then show ?thesis using assms(2) by blast
qed

lemma opencwnd_returns:
  assumes w: "win_conf_ok w" and s: "1 \<le> cwnd s"
  shows "\<exists>cw ic fc. opencwnd rc w s = Inr (s\<lparr>cwnd := cw, inc_count := ic, fcnt := fc\<rparr>) \<and> 1 \<le> cw"
proof -
  have grow: "\<exists>cw ic fc. bind_r (Inr s1) (\<lambda>s1. Inr (cap_cwnd w s1)) = Inr (s\<lparr>cwnd := cw, inc_count := ic, fcnt := fc\<rparr>) \<and> 1 \<le> cw"
    if s1: "s1 = s\<lparr>cwnd := cw', inc_count := ic', fcnt := fc'\<rparr>" "1 \<le> cw'" for s1 cw' ic' fc'
  proof -
    have "1 \<le> cwnd s1" using s1 by simp
    from cap_cwnd_frame[OF w this] obtain cw where "cap_cwnd w s1 = s1\<lparr>cwnd := cw\<rparr>" "1 \<le> cw" by blast
    then have "bind_r (Inr s1) (\<lambda>s1. Inr (cap_cwnd w s1)) = Inr (s\<lparr>cwnd := cw, inc_count := ic', fcnt := fc'\<rparr>)" using s1 by simp
    then show ?thesis using \<open>1 \<le> cw\<close> by blast
  qed
  have up: "\<exists>cw ic fc. bind_r (Inr (count_up f s)) (\<lambda>s1. Inr (cap_cwnd w s1)) = Inr (s\<lparr>cwnd := cw, inc_count := ic, fcnt := fc\<rparr>) \<and> 1 \<le> cw" for f
  proof -
    obtain fc cw where "count_up f s = s\<lparr>fcnt := fc, cwnd := cw\<rparr>" "cwnd s \<le> cw" using count_up_frame by blast
    then have "count_up f s = s\<lparr>cwnd := cw, inc_count := inc_count s, fcnt := fc\<rparr>" "1 \<le> cw" using s by simp_all
    then show ?thesis by (rule grow)
  qed
  have one: "\<exists>cw ic fc. bind_r (Inr (s\<lparr>cwnd := cwnd s + 1\<rparr>)) (\<lambda>s1. Inr (cap_cwnd w s1)) = Inr (s\<lparr>cwnd := cw, inc_count := ic, fcnt := fc\<rparr>) \<and> 1 \<le> cw"
    "\<exists>cw ic fc. bind_r (Inr (s\<lparr>inc_count := 0, cwnd := cwnd s + 1\<rparr>)) (\<lambda>s1. Inr (cap_cwnd w s1)) = Inr (s\<lparr>cwnd := cw, inc_count := ic, fcnt := fc\<rparr>) \<and> 1 \<le> cw"
    "\<exists>cw ic fc. bind_r (Inr (s\<lparr>inc_count := inc_count s + 1\<rparr>)) (\<lambda>s1. Inr (cap_cwnd w s1)) = Inr (s\<lparr>cwnd := cw, inc_count := ic, fcnt := fc\<rparr>) \<and> 1 \<le> cw"
    by (rule grow[where cw' = "cwnd s + 1" and ic' = "inc_count s" and fc' = "fcnt s"], simp, use s in simp)
      (rule grow[where cw' = "cwnd s + 1" and ic' = 0 and fc' = "fcnt s"], simp, use s in simp,
       rule grow[where cw' = "cwnd s" and ic' = "inc_count s + 1" and fc' = "fcnt s"], simp, use s in simp)
  have "0 \<le> increase_num w / cwnd s" using w s by (simp add: win_conf_ok_def)
  then have inc: "\<exists>cw ic fc. bind_r (Inr (s\<lparr>cwnd := cwnd s + increase_num w / cwnd s\<rparr>)) (\<lambda>s1. Inr (cap_cwnd w s1)) = Inr (s\<lparr>cwnd := cw, inc_count := ic, fcnt := fc\<rparr>) \<and> 1 \<le> cw"
    by (intro grow[where cw' = "cwnd s + increase_num w / cwnd s" and ic' = "inc_count s" and fc' = "fcnt s"]) (use s in simp_all)
  have z: "cwnd s \<noteq> 0" using s by auto
  have "0 \<le> wnd_option w" "wnd_option w \<le> 5" using w by (simp_all add: win_conf_ok_def)
  then have opt: "wnd_option w = 0 \<or> wnd_option w = 1 \<or> wnd_option w \<in> {2, 3, 4, 5}" unfolding insert_iff empty_iff by presburger
  consider "cwnd s < of_int (ssthresh s)" | "\<not> cwnd s < of_int (ssthresh s)" "wnd_option w = 0" | "\<not> cwnd s < of_int (ssthresh s)" "wnd_option w = 1" |
    "\<not> cwnd s < of_int (ssthresh s)" "wnd_option w \<in> {2, 3, 4, 5}" using opt by blast
  then show ?thesis
  proof cases
    case 1
    then show ?thesis using one(1) unfolding opencwnd_def by (simp only: if_True)
  next
    case 2
    show ?thesis unfolding opencwnd_def Let_def if_not_P[OF 2(1)] if_P[OF 2(2)] using one(2,3)
      by (cases "of_int (inc_count s + 1) \<ge> cwnd s") (simp_all only: if_True if_False)
  next
    case 3
    then have "wnd_option w \<noteq> 0" by simp
    then show ?thesis using inc unfolding opencwnd_def Let_def if_not_P[OF 3(1)] if_not_P[OF \<open>wnd_option w \<noteq> 0\<close>] if_P[OF 3(2)] if_not_P[OF z] by blast
  next
    case 4
    then have n: "wnd_option w \<noteq> 0" "wnd_option w \<noteq> 1" by auto
    consider "wnd_option w = 2" | "wnd_option w \<noteq> 2" "wnd_option w = 3" | "wnd_option w \<noteq> 2" "wnd_option w \<noteq> 3" "wnd_option w = 4" |
      "wnd_option w \<noteq> 2" "wnd_option w \<noteq> 3" "wnd_option w \<noteq> 4" "wnd_option w = 5" using 4(2) by auto
    then show ?thesis
    proof cases
      case 1
      then show ?thesis unfolding opencwnd_def Let_def if_not_P[OF 4(1)] if_not_P[OF n(1)] if_not_P[OF n(2)] if_P[OF 1] using up by blast
    next
      case 2
      then show ?thesis unfolding opencwnd_def Let_def if_not_P[OF 4(1)] if_not_P[OF n(1)] if_not_P[OF n(2)] if_not_P[OF 2(1)] if_P[OF 2(2)] using up by blast
    next
      case 3
      then show ?thesis unfolding opencwnd_def Let_def if_not_P[OF 4(1)] if_not_P[OF n(1)] if_not_P[OF n(2)] if_not_P[OF 3(1)] if_not_P[OF 3(2)] if_P[OF 3(3)] using up by blast
    next
      case 4
      then show ?thesis unfolding opencwnd_def Let_def if_not_P[OF \<open>\<not> cwnd s < of_int (ssthresh s)\<close>] if_not_P[OF n(1)] if_not_P[OF n(2)]
          if_not_P[OF 4(1)] if_not_P[OF 4(2)] if_not_P[OF 4(3)] if_P[OF 4(4)] using up by blast
    qed
  qed
qed

lemma spurious_timeout_inv:
  assumes i: "tcp_inv c s" and f: "frto s \<noteq> 0" and p: "prev_highest_ack s < t_seqno s"
  shows "tcp_inv c (spurious_timeout c s)"
proof -
  have "(1::rat) \<le> of_int (t_seqno s - prev_highest_ack s)" using p by linarith
  moreover have "(1::rat) \<le> of_int (ssthresh s)" using i by (simp add: tcp_inv_def)
  ultimately show ?thesis using i f unfolding spurious_timeout_def tcp_inv_def by simp
qed

lemma frto_step_inv:
  assumes i: "tcp_inv c s" and p: "prev_highest_ack s < t_seqno s"
  shows "tcp_inv c (frto_step c s)" and "maxseq (frto_step c s) = maxseq s" and "highest_ack (frto_step c s) = highest_ack s" and "curseq (frto_step c s) = curseq s"
proof -
  have z: "tcp_inv c (s\<lparr>frto := 0\<rparr>)" using i by (simp add: tcp_inv_def)
  have t: "tcp_inv c (s\<lparr>t_seqno := recover_seq s + 1, frto := 2\<rparr>)" if "frto s = 1" using i that by (simp add: tcp_inv_def)
  show "tcp_inv c (frto_step c s)"
  proof (cases "frto s = 1")
    case True
    then show ?thesis using z t by (simp add: frto_step_def)
  next
    case False
    then show ?thesis using i spurious_timeout_inv[OF i _ p] by (simp add: frto_step_def)
  qed
qed (simp_all add: frto_step_def spurious_timeout_def)


lemma note_ecn_keeps: "tcp_inv c s \<Longrightarrow> tcp_inv c (note_ecn p s)" "same_seqnos s (note_ecn p s)"
  by (simp_all add: note_ecn_def same_seqnos_def Let_def inv_cwnd_action)

text \<open>The sender reports that it is done only when all its data is acknowledged.\<close>

lemma recv_newack_helper_ok:
  assumes c: "conf_ok c" and i: "tcp_inv c s" and p: "highest_ack s < tp_seqno p" "tp_seqno p \<le> maxseq s"
  shows "\<exists>out s'. recv_newack_helper c now p s = Inr (out, s') \<and> tcp_inv c s' \<and> maxseq s' = maxseq s \<and> highest_ack s' = tp_seqno p \<and>
    curseq s' = curseq s \<and> seqnos out = {} \<and> (SendDone \<in> set out \<longrightarrow> curseq s - 1 \<le> tp_seqno p)"
proof -
  obtain s1 where s1: "newack c now p s = Inr s1" "tcp_inv c s1" "maxseq s1 = maxseq s" "highest_ack s1 = tp_seqno p" "prev_highest_ack s1 = highest_ack s"
      "tp_seqno p < t_seqno s1" "curseq s1 = curseq s" using newack_ok[OF c i p] by blast
  have w: "win_conf_ok (tc_win c)" "1 \<le> cwnd s1" using c s1(2) by (simp_all add: conf_ok_def tcp_inv_def)
  have "keeps c s1 (opencwnd (tc_rtt c) (tc_win c) s1)"
    using opencwnd_returns[OF w, of "tc_rtt c"] s1(2) by (auto simp: keeps_def same_seqnos_def tcp_inv_def)
  then have "keeps c s1 (if (\<not> ect_on s1 \<or> tp_ecnecho p = 0 \<or> old_ecn c \<and> ecn_burst s1) \<and> (\<not> control_increase c \<or> network_limited c s1)
      then opencwnd (tc_rtt c) (tc_win c) s1 else Inr s1)" using s1(2) by (simp add: keeps_Inr same_seqnos_def)
  then obtain s2 where s2: "(if (\<not> ect_on s1 \<or> tp_ecnecho p = 0 \<or> old_ecn c \<and> ecn_burst s1) \<and> (\<not> control_increase c \<or> network_limited c s1)
      then opencwnd (tc_rtt c) (tc_win c) s1 else Inr s1) = Inr s2" "tcp_inv c s2" "same_seqnos s1 s2" unfolding keeps_def by blast
  define s3 where "s3 = note_ecn p s2"
  have s3: "tcp_inv c s3" "same_seqnos s1 s3" using note_ecn_keeps(1)[OF s2(2)] note_ecn_keeps(2)[of s2 p] s2(3) by (simp_all add: s3_def same_seqnos_def)
  define fin where "fin = (highest_ack s3 \<ge> curseq s3 - 1 \<and> \<not> closed s3)"
  define s4 where "s4 = (if fin then s3\<lparr>closed := True\<rparr> else s3)"
  have s4: "tcp_inv c s4" "maxseq s4 = maxseq s" "highest_ack s4 = tp_seqno p" "curseq s4 = curseq s" "prev_highest_ack s4 < t_seqno s4"
    using s3 s1 p by (simp_all add: s4_def inv_cwnd_action same_seqnos_def)
  have e: "recv_newack_helper c now p s = Inr (if fin then [SendDone] else [], frto_step c s4)"
    unfolding recv_newack_helper_def s1(1) bind_r_simps s2(1) Let_def s3_def[symmetric] fin_def[symmetric] s4_def ..
  have d: "fin \<Longrightarrow> curseq s - 1 \<le> tp_seqno p" using s3 s1 by (simp add: fin_def same_seqnos_def)
  show ?thesis unfolding e using frto_step_inv[OF s4(1,5)] s4(2-4) d by simp
qed

lemma initial_window_returns: "wnd_init_option s \<in> {1, 2} \<Longrightarrow> 1 \<le> wnd_init s \<Longrightarrow> \<exists>w. initial_window sz s = Inr w \<and> 1 \<le> w"
  by (auto simp: initial_window_def)

lemma recv_newack_ok:
  assumes c: "conf_ok c" and i: "tcp_inv c s" and p: "highest_ack s < tp_seqno p" "tp_seqno p \<le> maxseq s"
  shows "\<exists>out s'. recv_newack c now p s = Inr (out, s') \<and> tcp_inv c s' \<and> maxseq s' = maxseq s \<and> highest_ack s' = tp_seqno p \<and>
    curseq s' = curseq s \<and> seqnos out = {} \<and> (SendDone \<in> set out \<longrightarrow> curseq s - 1 \<le> tp_seqno p)"
proof -
  obtain out s' where s': "recv_newack_helper c now p s = Inr (out, s')" "tcp_inv c s'" "maxseq s' = maxseq s" "highest_ack s' = tp_seqno p"
    "curseq s' = curseq s" "seqnos out = {}" "SendDone \<in> set out \<longrightarrow> curseq s - 1 \<le> tp_seqno p" using recv_newack_helper_ok[OF c i p] by blast
  obtain w where w: "initial_window (tc_size c) s' = Inr w" "1 \<le> w" using initial_window_returns[of s' "tc_size c"] s'(2) by (auto simp: tcp_inv_def)
  have "tcp_inv c (s'\<lparr>cwnd := w\<rparr>)" using s'(2) w(2) by (simp add: tcp_inv_def)
  then show ?thesis using s' w(1) by (simp add: recv_newack_def)
qed

lemma deflate_window_frame:
  assumes "1 \<le> cwnd s"
  shows "\<exists>dw cw. deflate_window p s = s\<lparr>dupwnd := dw, cwnd := cw\<rparr> \<and> 1 \<le> cw"
proof -
  define d where "d = (if tp_seqno p > last_ack s then word_of_int (tp_seqno p - last_ack s) else 0 :: 32 word)"
  define s1 where "s1 = (if dupwnd s > d then s\<lparr>dupwnd := dupwnd s - (d - 1)\<rparr> else s\<lparr>cwnd := cwnd s - of_int (uint (d - dupwnd s)), dupwnd := 1\<rparr>)"
  have "s1 = s\<lparr>dupwnd := dupwnd s1, cwnd := cwnd s1\<rparr>" by (simp add: s1_def)
  then obtain a b where s1: "s1 = s\<lparr>dupwnd := a, cwnd := b\<rparr>" by blast
  have "deflate_window p s = (if cwnd s1 < 1 then s1\<lparr>cwnd := 1\<rparr> else s1)" unfolding deflate_window_def Let_def d_def[symmetric] s1_def[symmetric] ..
  then have "deflate_window p s = s\<lparr>dupwnd := a, cwnd := (if b < 1 then 1 else b)\<rparr>" unfolding s1 by simp
  moreover have "1 \<le> (if b < 1 then 1 else b)" by simp
  ultimately show ?thesis by blast
qed

lemma partialnewack_inv:
  assumes i: "tcp_inv c (s\<lparr>rtx_timer := tm\<rparr>)" and p: "highest_ack s < tp_seqno p" "tp_seqno p \<le> maxseq s"
    and t: "tp_seqno p < maxseq s \<longrightarrow> t_status (rtx_timer s) = TIMER_PENDING"
  shows "tcp_inv c (partialnewack c p s)" and "maxseq (partialnewack c p s) = maxseq s" and "highest_ack (partialnewack c p s) = tp_seqno p"
    and "last_ack (partialnewack c p s) = tp_seqno p" and "curseq (partialnewack c p s) = curseq s"
proof -
  have "1 \<le> cwnd s" using i by (simp add: tcp_inv_def)
  then obtain dw cw where d: "(if partial_window_deflation c then deflate_window p s else s) = s\<lparr>dupwnd := dw, cwnd := cw\<rparr>" "1 \<le> cw"
    using deflate_window_frame[of s p] that[of "cwnd s" "dupwnd s"] by (cases "partial_window_deflation c") auto
  let ?s = "s\<lparr>rtx_timer := tm, dupwnd := dw, cwnd := cw\<rparr>"
  have j: "tcp_inv c ?s" using i d(2) by (simp add: tcp_inv_def)
  have ri: "rtt_inv (rtt_est s)" using i by (simp add: tcp_inv_def)
  have k: "tcp_inv c (?s\<lparr>rtt_est := r, rtx_timer := rtx_timer s, last_ack := tp_seqno p, highest_ack := tp_seqno p, t_seqno := max (t_seqno s) (tp_seqno p + 1)\<rparr>)"
    if "rtt_inv r" for r
    using advance_inv[OF j _ _ that, of "tp_seqno p" "rtx_timer s"] p t by simp
  from k[OF ri] k[OF rtt_inv_backoff[OF ri]] show "tcp_inv c (partialnewack c p s)"
    unfolding partialnewack_def Let_def d(1) by (simp add: inv_cwnd_action) (simp add: tcp_inv_def)
  show "maxseq (partialnewack c p s) = maxseq s" "highest_ack (partialnewack c p s) = tp_seqno p" "last_ack (partialnewack c p s) = tp_seqno p" "curseq (partialnewack c p s) = curseq s"
    unfolding partialnewack_def Let_def d(1) by simp_all
qed

lemma partialnewack_ok:
  assumes c: "conf_ok c" and i: "tcp_inv c s" and p: "highest_ack s < tp_seqno p" "tp_seqno p \<le> maxseq s"
  shows "step_to c (tp_seqno p) s (partialnewack_helper c now p s)"
proof -
  have ri: "rtt_inv (rtt_est s)" using i by (simp add: tcp_inv_def)
  obtain s1 where s1: "(if \<not> newreno_changes1 c \<or> \<not> nr_firstpartial (newreno_st s) then newtimer c now p (s\<lparr>newreno_st := (newreno_st s)\<lparr>nr_firstpartial := True\<rparr>\<rparr>) else Inr s) = Inr s1"
      "tcp_inv c (s1\<lparr>rtx_timer := rtx_timer s\<rparr>)" "tp_seqno p < maxseq s \<longrightarrow> t_status (rtx_timer s1) = TIMER_PENDING" "same_seqnos s s1"
  proof (cases "\<not> newreno_changes1 c \<or> \<not> nr_firstpartial (newreno_st s)")
    case True
    let ?s = "s\<lparr>newreno_st := (newreno_st s)\<lparr>nr_firstpartial := True\<rparr>\<rparr>"
    obtain r tm where "newtimer c now p ?s = Inr (?s\<lparr>rtt_est := r, rtx_timer := tm\<rparr>)" "rtt_inv r" "tp_seqno p < maxseq s \<longrightarrow> t_status tm = TIMER_PENDING"
      using newtimer_returns[OF c, of ?s now p] ri by auto
    then show ?thesis using True i that[of "?s\<lparr>rtt_est := r, rtx_timer := tm\<rparr>"] by (simp add: tcp_inv_def same_seqnos_def)
  next
    case False
    have "t_status (rtx_timer s) = TIMER_PENDING" using i p by (simp add: tcp_inv_def)
    then show ?thesis using False i that[of s] by (simp add: same_seqnos_def)
  qed
  have p1: "highest_ack s1 < tp_seqno p" "tp_seqno p \<le> maxseq s1" "tp_seqno p < maxseq s1 \<longrightarrow> t_status (rtx_timer s1) = TIMER_PENDING"
    using p s1(3,4) by (simp_all add: same_seqnos_def)
  note P = partialnewack_inv[OF s1(2) p1]
  have "0 \<le> last_ack (partialnewack c p s1) + 1" "last_ack (partialnewack c p s1) + 1 \<le> maxseq (partialnewack c p s1) + 1"
      "last_ack (partialnewack c p s1) + 1 \<le> highest_ack (partialnewack c p s1) + rcv_window c"
    using P(2-4) p i s1(4) rcv_window[OF c, THEN conjunct1] by (simp_all add: same_seqnos_def tcp_inv_def)
  from output_step_ok[OF c P(1) this, of now TCP_REASON_NONE] show ?thesis
    unfolding partialnewack_helper_def s1(1) bind_r_simps Let_def using P(2,3,5) s1(4) p by (simp add: step_to_def same_seqnos_def)
qed

end
