(* ===== verification/TcpRun.thy ===== *)
theory TcpRun
  imports TcpInvariant
begin

text \<open>
  The runs of a TCP sender: acknowledgements, timeouts and data from the application in any order and at
  any time.  Every call returns and the invariant of \<^verbatim>\<open>TcpInvariant\<close> holds throughout.
\<close>

subsection \<open>Acknowledgements\<close>

lemma recv_dupack_ok:
  assumes c: "conf_ok c" and i: "tcp_inv c s"
  shows "step_ok c s (recv_dupack c now s)"
proof -
  have j: "tcp_inv c (s\<lparr>dupacks := n\<rparr>)" for n using i by (simp add: inv_cwnd_action)
  have e: "step_ok c (s\<lparr>dupacks := n\<rparr>) m \<Longrightarrow> step_ok c s m" for m n by (simp add: step_to_def)
  have d: "step_ok c s (bind_r m (\<lambda>(out, s2). Inr (out, if exitFastRetrans c then s2 else s2\<lparr>dupwnd := w\<rparr>)))" if o: "step_ok c (s\<lparr>dupacks := n\<rparr>) m" for m w n
  proof -
    obtain out s2 where "m = Inr (out, s2)" using o unfolding step_to_def by blast
    then have m: "m = Inr (out, s2)" "step_ok c s (Inr (out, s2))" using e[OF o] by simp_all
    have "step_ok c s (Inr (out, s2\<lparr>dupwnd := w\<rparr>))" using m(2) by (simp add: step_to_def inv_cwnd_action)
    then show ?thesis using m(2) unfolding m(1) bind_r_simps prod.case by (cases "exitFastRetrans c") (simp_all only: if_True if_False)
  qed
  have "\<not> newreno_changes c > 0" using c by (simp add: conf_ok_def)
  then show ?thesis unfolding recv_dupack_def Let_def
    using d[OF newreno_dupack_ok[OF c j]] d[OF reno_dupack_ok[OF c j]] e[OF send_one_ok[OF c j]] j[of "dupacks s + 1"] by (simp add: step_ok_nothing inv_cwnd_action)
qed

text \<open>What follows the beginning of \<^verbatim>\<open>recv\<close>.\<close>

lemma newack_step:
  assumes "conf_ok c" and "tcp_inv c s" and "last_ack s < tp_seqno p" and "tp_seqno p \<le> maxseq s"
  shows "step_to c (tp_seqno p) s (recv_newack c now p s)"
proof -
  have "highest_ack s < tp_seqno p" using assms(2,3) by (simp add: tcp_inv_def)
  from recv_newack_ok[OF assms(1,2) this assms(4), of now] this show ?thesis by (auto simp: step_to_def no_data)
qed

text \<open>\<^verbatim>\<open>highest_ack_\<close> is then the highest of the acknowledgements.\<close>

definition acked :: "tcp_pkt \<Rightarrow> tcp \<Rightarrow> int" where
  "acked p s = max (highest_ack s) (tp_seqno p)"

lemma acked_new: "tcp_inv c s \<Longrightarrow> last_ack s < tp_seqno p \<Longrightarrow> acked p s = tp_seqno p"
  and acked_old: "tcp_inv c s \<Longrightarrow> \<not> last_ack s < tp_seqno p \<Longrightarrow> acked p s = highest_ack s"
  by (simp_all add: acked_def tcp_inv_def)

lemma recv_keeps:
  assumes c: "conf_ok c" and i: "tcp_inv c s" and m: "\<And>s1. tcp_inv c s1 \<Longrightarrow> maxseq s1 = maxseq s \<Longrightarrow> step_to c (acked p s1) s1 (m s1)"
    and f: "\<And>s1. tcp_inv c s1 \<Longrightarrow> step_ok c s1 (f s1)"
  shows "step_to c (acked p s) s (bind_r (recv_begin c p s) (\<lambda>s1. then_r (m s1) f))"
proof -
  obtain s1 where s1: "recv_begin c p s = Inr s1" "tcp_inv c s1" "maxseq s1 = maxseq s" "highest_ack s1 = highest_ack s" "curseq s1 = curseq s"
    using recv_begin_ok[OF c i, of p] unfolding quiet_def by blast
  have "step_to c (acked p s1) s1 (then_r (m s1) f)" by (rule step_ok_then[OF m[OF s1(2,3)]]) (rule f)
  then show ?thesis unfolding s1(1) bind_r_simps step_to_def s1(3-5) acked_def .
qed

lemma tahoe_ack_ok:
  assumes c: "conf_ok c" and i: "tcp_inv c s" and p: "tp_seqno p \<le> maxseq s"
  shows "step_to c (acked p s) s (tahoe_ack c now p s)"
proof -
  have k: "tcp_inv c (s\<lparr>dupacks := n\<rparr>)" for n using i by (simp add: inv_cwnd_action)
  have e: "step_ok c (s\<lparr>dupacks := n\<rparr>) m \<Longrightarrow> step_ok c s m" for m n by (simp add: step_to_def)
  show ?thesis unfolding tahoe_ack_def Let_def
    using newack_step[OF c i _ p] i e[OF tahoe_dupack_ok[OF c k]] e[OF send_one_ok[OF c k]] k[of "dupacks s + 1"]
    by (simp add: step_ok_nothing acked_new[OF i] acked_old[OF i])
qed

lemma reno_ack_ok:
  assumes c: "conf_ok c" and i: "tcp_inv c s" and p: "tp_seqno p \<le> maxseq s"
  shows "step_to c (acked p s) s (reno_ack c now p s)"
proof -
  let ?s = "s\<lparr>last_cwnd_action := (if last_cwnd_action s = CWND_ACTION_DUPACK then CWND_ACTION_EXITED else last_cwnd_action s), dupwnd := 0\<rparr>"
  have k: "tcp_inv c ?s" using i by (simp add: inv_cwnd_action)
  have e: "step_to c h ?s m \<Longrightarrow> step_to c h s m" for m h by (simp add: step_to_def)
  have "last_ack s < tp_seqno p \<Longrightarrow> step_to c (tp_seqno p) s (recv_newack c now p ?s)" by (rule e, rule newack_step[OF c k]) (use p in simp_all)
  then show ?thesis unfolding reno_ack_def using recv_dupack_ok[OF c i] i by (simp add: step_ok_nothing acked_new[OF i] acked_old[OF i])
qed

lemma leave_recovery_ok:
  assumes i: "tcp_inv c s" and p: "tp_seqno p \<le> maxseq s"
  shows "tcp_inv c (leave_recovery c p s)" and "same_seqnos s (leave_recovery c p s)"
proof -
  have "1 \<le> (of_int (if ssthresh s < maxseq s - tp_seqno p + 1 then ssthresh s else maxseq s - tp_seqno p + 1) :: rat)"
    using i p by (simp add: tcp_inv_def)
  then show "tcp_inv c (leave_recovery c p s)" using i p unfolding leave_recovery_def Let_def by (simp add: tcp_inv_def)
  show "same_seqnos s (leave_recovery c p s)" by (simp add: leave_recovery_def Let_def same_seqnos_def)
qed

lemma newreno_ack_ok:
  assumes c: "conf_ok c" and i: "tcp_inv c s" and p: "tp_seqno p \<le> maxseq s"
  shows "step_to c (acked p s) s (newreno_ack c now p s)"
proof -
  define s1 where "s1 = leave_recovery c p s"
  note L = leave_recovery_ok[OF i p, folded s1_def]
  let ?s = "s1\<lparr>newreno_st := (newreno_st s1)\<lparr>nr_firstpartial := False\<rparr>\<rparr>"
  have k: "tcp_inv c ?s" using L(1) by (simp add: inv_cwnd_action)
  have e: "step_to c h s' m \<Longrightarrow> same_seqnos s s' \<Longrightarrow> step_to c h s m" for s' m h by (simp add: step_to_def same_seqnos_def)
  have n: "last_ack s < tp_seqno p \<Longrightarrow> step_to c (tp_seqno p) s (recv_newack c now p ?s)"
    by (rule e, rule newack_step[OF c k]) (use p L(2) in \<open>simp_all add: same_seqnos_def\<close>)
  let ?d = "if partial_window_deflation c then s else s\<lparr>dupwnd := 0\<rparr>"
  have d: "tcp_inv c ?d" "same_seqnos s ?d" using i by (simp_all add: inv_cwnd_action same_seqnos_def)
  have "last_ack s < tp_seqno p \<Longrightarrow> step_to c (tp_seqno p) s (partialnewack_helper c now p ?d)"
    by (rule e[OF partialnewack_ok[OF c d(1)] d(2)]) (use p i in \<open>simp_all add: tcp_inv_def\<close>)
  then show ?thesis unfolding newreno_ack_def Let_def s1_def[symmetric] using n recv_dupack_ok[OF c i] i by (simp add: step_ok_nothing acked_new[OF i] acked_old[OF i])
qed

text \<open>Without \<^verbatim>\<open>newreno_changes_\<close> the estimate of NewReno is not used.\<close>

lemma newreno_estimate_frame:
  assumes "newreno_changes c \<le> 0"
  shows "\<exists>n. newreno_estimate c now s = s\<lparr>newreno_st := n\<rparr>"
proof -
  have "\<not> newreno_changes c > 0" using assms by simp
  then show ?thesis unfolding newreno_estimate_def Let_def by (simp only: simp_thms if_False split: if_split) blast
qed

text \<open>An acknowledgement from before the last reset is dropped.\<close>

definition ack_result :: "tcp_pkt \<Rightarrow> tcp \<Rightarrow> int" where
  "ack_result p s = (if tp_ts p < tcp_lastreset s then highest_ack s else acked p s)"

lemma tcp_recv_ok:
  assumes c: "conf_ok c" and i: "tcp_inv c s" and p: "tp_seqno p \<le> maxseq s"
  shows "step_to c (ack_result p s) s (tcp_recv c now u p s)"
proof -
  note f = send_much_ok[OF c]
  have r: "step_ok c s1 (if b s1 then send_much c now u False TCP_REASON_NONE n s1 else Inr ([], s1))" if "tcp_inv c s1" for b s1 n
    using f[OF that] that by (simp add: step_ok_nothing)
  show ?thesis
  proof (cases "tc_class c")
    case Tahoe
    have "step_to c (ack_result p s) s (recv_tahoe c now u p s)"
    proof (cases "tp_ts p < tcp_lastreset s")
      case False
      show ?thesis unfolding recv_tahoe_def ack_result_def if_not_P[OF False] by (rule recv_keeps[OF c i tahoe_ack_ok[OF c] r]) (use p in simp_all)
    qed (use i in \<open>simp add: recv_tahoe_def ack_result_def step_ok_nothing\<close>)
    then show ?thesis using Tahoe by (simp add: tcp_recv_def)
  next
    case Reno
    have "step_to c (ack_result p s) s (recv_reno c now u p s)"
    proof (cases "tp_ts p < tcp_lastreset s")
      case False
      show ?thesis unfolding recv_reno_def ack_result_def if_not_P[OF False] by (rule recv_keeps[OF c i reno_ack_ok[OF c] r]) (use p in simp_all)
    qed (use i in \<open>simp add: recv_reno_def ack_result_def step_ok_nothing\<close>)
    then show ?thesis using Reno by (simp add: tcp_recv_def)
  next
    case NewReno
    have "newreno_changes c \<le> 0" using c by (simp add: conf_ok_def)
    then obtain n where n: "newreno_estimate c now s = s\<lparr>newreno_st := n\<rparr>" using newreno_estimate_frame by blast
    define s0 where "s0 = s\<lparr>newreno_st := n\<rparr>"
    have s0: "newreno_estimate c now s = s0" "tcp_inv c s0" "maxseq s0 = maxseq s" "highest_ack s0 = highest_ack s" "curseq s0 = curseq s"
      using i n by (simp_all add: s0_def inv_cwnd_action)
    have l: "tcp_lastreset s0 = tcp_lastreset s" by (simp add: s0_def)
    have p0: "tp_seqno p \<le> maxseq s0" using s0(3) p by simp
    have q: "ack_result p s0 = ack_result p s" by (simp add: ack_result_def acked_def s0(4) l)
    have v: "step_to c h s0 m \<Longrightarrow> step_to c h s m" for h m by (simp add: step_to_def s0(3,5))
    have "step_to c (ack_result p s0) s0 (if tp_ts p < tcp_lastreset s0 then Inr ([], s0)
        else bind_r (recv_begin c p s0) (\<lambda>s1. then_r (newreno_ack c now p s1) (\<lambda>s2.
          if tp_seqno p \<ge> last_ack s2 \<or> aggressive_maxburst c then
            (if dupacks s2 = 0 then send_much c now u False TCP_REASON_NONE (maxburst c) s2
             else if dupacks s2 > numdupacks c - 1 \<and> newreno_changes c = 0 then send_much c now u False TCP_REASON_NONE 2 s2
             else Inr ([], s2))
          else Inr ([], s2))))"
    proof (cases "tp_ts p < tcp_lastreset s0")
      case False
      show ?thesis unfolding ack_result_def if_not_P[OF False]
        by (rule recv_keeps[OF c s0(2) newreno_ack_ok[OF c]]) (use p0 f in \<open>simp_all add: step_ok_nothing\<close>)
    qed (use s0(2) in \<open>simp add: ack_result_def step_ok_nothing\<close>)
    then have "step_to c (ack_result p s) s (recv_newreno c now u p s)"
      unfolding recv_newreno_def s0(1) Let_def q by (rule v)
    then show ?thesis using NewReno by (simp add: tcp_recv_def)
  qed
qed

subsection \<open>Timeouts\<close>

lemma timeout_begin_ok:
  assumes i: "tcp_inv c (s\<lparr>rtx_timer := tm\<rparr>)"
  shows "tcp_inv c ((timeout_begin c s)\<lparr>rtx_timer := tm\<rparr>)" and "same_seqnos s (timeout_begin c s)" and "frto (timeout_begin c s) = 0"
    and "1 \<le> pipe_prev (timeout_begin c s)" and "rtx_timer (timeout_begin c s) = rtx_timer s"
  using i unfolding timeout_begin_def Let_def by (simp_all add: tcp_inv_def same_seqnos_def)

lemma timeout_slowdown_ok:
  assumes i: "tcp_inv c (s\<lparr>rtx_timer := tm\<rparr>)" and p: "1 \<le> pipe_prev s" and f: "frto s = 0"
  shows "tcp_inv c ((timeout_slowdown c s)\<lparr>rtx_timer := tm\<rparr>) \<and> maxseq (timeout_slowdown c s) = maxseq s \<and> highest_ack (timeout_slowdown c s) = highest_ack s \<and>
    curseq (timeout_slowdown c s) = curseq s"
proof -
  let ?ok = "\<lambda>s'. tcp_inv c (s'\<lparr>rtx_timer := tm\<rparr>) \<and> maxseq s' = maxseq s \<and> highest_ack s' = highest_ack s \<and> curseq s' = curseq s"
  define s2 where "s2 = (let s1 = s\<lparr>recover_seq := maxseq s\<rparr> in if highest_ack s1 = -1 \<and> wnd_init_option s1 = 2 then s1\<lparr>wnd_init_option := 1\<rparr>
      else if highest_ack s1 = -1 \<and> wnd_init_option s1 = 1 \<and> wnd_init s1 > 1 \<and> bugfix_ss c then s1\<lparr>wnd_init := 1\<rparr> else s1)"
  have s2: "?ok s2" "recover_seq s2 = maxseq s2" "1 \<le> pipe_prev s2" "frto s2 = 0" using i p f by (auto simp: s2_def Let_def tcp_inv_def)
  have sl: "?ok (tcp_slowdown c how s')" if "?ok s'" for how s'
  proof -
    obtain ss cw ca dn where e: "tcp_slowdown c how s' = s'\<lparr>ssthresh := ss, cwnd := cw, cong_action := ca, fcnt := 0, inc_count := 0, first_decrease := False, decrease_num := dn\<rparr>"
        "2 \<le> ss" "1 \<le> cw" unfolding tcp_slowdown_def using slowdown_frame by blast
    have "frto s' \<noteq> 0 \<longrightarrow> recover_seq s' \<le> maxseq s" using that by (auto simp: tcp_inv_def)
    then show ?thesis using that e(2,3) unfolding e(1) by (simp add: tcp_inv_def)
  qed
  have fr: "?ok ((tcp_slowdown c how s')\<lparr>frto := 1\<rparr>)" if "?ok s'" "recover_seq s' = maxseq s'" "1 \<le> pipe_prev s'" for how s'
  proof -
    obtain ss cw ca dn where e: "tcp_slowdown c how s' = s'\<lparr>ssthresh := ss, cwnd := cw, cong_action := ca, fcnt := 0, inc_count := 0, first_decrease := False, decrease_num := dn\<rparr>"
        "2 \<le> ss" "1 \<le> cw" unfolding tcp_slowdown_def using slowdown_frame by blast
    have "-1 \<le> maxseq s'" "recover_seq s' \<le> maxseq s" using that by (simp_all add: tcp_inv_def)
    then show ?thesis using that e(2,3) unfolding e(1) by (simp add: tcp_inv_def)
  qed
  have ac: "?ok (s2\<lparr>last_cwnd_action := a\<rparr>)" "recover_seq (s2\<lparr>last_cwnd_action := a\<rparr>) = maxseq (s2\<lparr>last_cwnd_action := a\<rparr>)" "1 \<le> pipe_prev (s2\<lparr>last_cwnd_action := a\<rparr>)" for a
    using s2 by (simp_all add: tcp_inv_def)
  have "timeout_slowdown c s =
    (if highest_ack s = maxseq s \<and> \<not> slow_start_restart c then s
     else if highest_ack s2 = maxseq s2 \<and> restart_bugfix c then tcp_slowdown c {CLOSE_CWND_ONE, NO_OUTSTANDING_DATA} s2
     else if highest_ack s2 < recover_seq s2 \<and> last_cwnd_action s2 = CWND_ACTION_ECN then
       (if frto_enabled c then (tcp_slowdown c {CLOSE_CWND_ONE} s2)\<lparr>frto := 1\<rparr> else tcp_slowdown c {CLOSE_CWND_ONE} s2)
     else (if frto_enabled c then (tcp_slowdown c {CLOSE_SSTHRESH_HALF, CLOSE_CWND_RESTART} (s2\<lparr>last_cwnd_action := CWND_ACTION_TIMEOUT\<rparr>))\<lparr>frto := 1\<rparr>
       else tcp_slowdown c {CLOSE_SSTHRESH_HALF, CLOSE_CWND_RESTART} (s2\<lparr>last_cwnd_action := CWND_ACTION_TIMEOUT\<rparr>)))"
    unfolding timeout_slowdown_def Let_def s2_def by (rule refl)
  then show ?thesis using i sl[OF s2(1)] fr[OF s2(1-3)] sl[OF ac(1)] fr[OF ac] by (simp split: if_splits)
qed

lemma timeout_rtx_ok:
  assumes c: "conf_ok c" and i: "tcp_inv c (s\<lparr>rtx_timer := tm\<rparr>)"
  shows "step_ok c s (timeout_rtx c now u s)"
proof -
  define s1 where "s1 = timeout_slowdown c (timeout_begin c s)"
  note B = timeout_begin_ok[OF i]
  have s1: "tcp_inv c (s1\<lparr>rtx_timer := tm\<rparr>)" "maxseq s1 = maxseq s" "highest_ack s1 = highest_ack s" "curseq s1 = curseq s"
    using timeout_slowdown_ok[OF B(1,4,3)] B(2) unfolding s1_def same_seqnos_def by simp_all
  show ?thesis unfolding timeout_rtx_def Let_def s1_def[symmetric]
  proof (rule quiet_step)
    show "quiet c s (reset_rtx_timer c now False (\<not> (highest_ack s1 = maxseq s1 \<and> restart_bugfix c)) s1)"
      by (rule quiet_trans[OF reset_rtx_timer_ok[OF c s1(1)] s1(2-4)])
    fix s2 assume "tcp_inv c s2"
    then have "tcp_inv c (s2\<lparr>last_cwnd_action := CWND_ACTION_TIMEOUT\<rparr>)" by (simp add: inv_cwnd_action)
    from send_much_ok[OF c this] show "step_ok c s2 (send_much c now u False TCP_REASON_TIMEOUT (maxburst c) (s2\<lparr>last_cwnd_action := CWND_ACTION_TIMEOUT\<rparr>))"
      by (simp add: step_to_def)
  qed
qed


text \<open>The expiry of a timer: it is idle afterwards unless it was started again.\<close>

lemma RtxTimer_ok:
  assumes c: "conf_ok c" and i: "tcp_inv c s" and t: "t_status (rtx_timer s) = TIMER_PENDING"
  shows "step_ok c s (RtxTimer_handle c now u s)"
proof -
  let ?s = "s\<lparr>rtx_timer := (rtx_timer s)\<lparr>t_event := None, t_status := TIMER_HANDLING\<rparr>\<rparr>"
  have "tcp_inv c (?s\<lparr>rtx_timer := rtx_timer s\<rparr>)" using i by simp
  from timeout_rtx_ok[OF c this, of now u] obtain out s' where e: "timeout_rtx c now u ?s = Inr (out, s')" "tcp_inv c s'" and s': "step_ok c s (Inr (out, s'))"
    by (auto simp: step_to_def)
  let ?r = "if t_status (rtx_timer s') = TIMER_HANDLING then s'\<lparr>rtx_timer := (rtx_timer s')\<lparr>t_status := TIMER_IDLE\<rparr>\<rparr> else s'"
  have "tcp_inv c ?r" using e(2) by (auto simp: tcp_inv_def)
  then have "step_ok c s (Inr (out, ?r))" using s' by (simp add: step_to_def)
  then show ?thesis using t unfolding RtxTimer_handle_def timer_handle_def by (simp add: e(1))
qed

lemma DelSndTimer_ok:
  assumes c: "conf_ok c" and i: "tcp_inv c s" and t: "t_status (delsnd_timer s) = TIMER_PENDING"
  shows "step_ok c s (DelSndTimer_handle c now u s)"
proof -
  let ?s = "s\<lparr>delsnd_timer := (delsnd_timer s)\<lparr>t_event := None, t_status := TIMER_HANDLING\<rparr>\<rparr>"
  have j: "tcp_inv c ?s" using i by (simp add: inv_cwnd_action)
  obtain out s' where e: "send_much c now u True TCP_REASON_TIMEOUT (maxburst c) ?s = Inr (out, s')" and s': "step_ok c s (Inr (out, s'))"
    using send_much_ok[OF c j, of now u True TCP_REASON_TIMEOUT "maxburst c"] by (auto simp: step_to_def)
  have "step_ok c s (Inr (out, if t_status (delsnd_timer s') = TIMER_HANDLING then s'\<lparr>delsnd_timer := (delsnd_timer s')\<lparr>t_status := TIMER_IDLE\<rparr>\<rparr> else s'))"
    using s' by (simp add: step_to_def inv_cwnd_action)
  then show ?thesis using t unfolding DelSndTimer_handle_def timer_handle_def by (simp add: e)
qed

lemma BurstSndTimer_ok:
  assumes "tcp_inv c s" and "t_status (burstsnd_timer s) = TIMER_PENDING"
  shows "step_ok c s (BurstSndTimer_handle s)"
  using assms by (simp add: BurstSndTimer_handle_def timer_handle_def step_ok_nothing inv_cwnd_action)

subsection \<open>Events\<close>

datatype tcp_event = Ack tcp_pkt | RtxTimeout | DelSndTimeout | BurstSndTimeout | SendMsg int | AdvanceBy int

fun tcp_handle :: "tcp_conf \<Rightarrow> rat \<Rightarrow> rat \<Rightarrow> tcp_event \<Rightarrow> tcp \<Rightarrow> tcp_step" where
  "tcp_handle c now u (Ack p) s = tcp_recv c now u p s"
| "tcp_handle c now u RtxTimeout s = RtxTimer_handle c now u s"
| "tcp_handle c now u DelSndTimeout s = DelSndTimer_handle c now u s"
| "tcp_handle c now u BurstSndTimeout s = BurstSndTimer_handle s"
| "tcp_handle c now u (SendMsg n) s = sendmsg c now u n s"
| "tcp_handle c now u (AdvanceBy n) s = advanceby c now u n s"

text \<open>What may happen to a sender: an acknowledgement is of a packet that was sent, with any time stamps and ECN bits, at
  any time; a timer expires when it is pending; the application may call at any time.\<close>

fun enabled :: "tcp_conf \<Rightarrow> rat \<Rightarrow> tcp_event \<Rightarrow> tcp \<Rightarrow> bool" where
  "enabled c now (Ack p) s = (tp_seqno p \<le> maxseq s)"
| "enabled c now RtxTimeout s = (t_status (rtx_timer s) = TIMER_PENDING)"
| "enabled c now DelSndTimeout s = (t_status (delsnd_timer s) = TIMER_PENDING)"
| "enabled c now BurstSndTimeout s = (t_status (burstsnd_timer s) = TIMER_PENDING)"
| "enabled c now (SendMsg n) s = True"
| "enabled c now (AdvanceBy n) s = True"

text \<open>The same without the data of the application, which an event may change.\<close>

definition event_ok :: "tcp_conf \<Rightarrow> int \<Rightarrow> tcp \<Rightarrow> tcp_step \<Rightarrow> bool" where
  "event_ok c h s m \<longleftrightarrow> (\<exists>out s'. m = Inr (out, s') \<and> tcp_inv c s' \<and> {0..maxseq s} \<union> seqnos out = {0..maxseq s'} \<and> highest_ack s' = h \<and> sized c out)"

lemma step_event: "step_to c h s m \<Longrightarrow> event_ok c h s m"
  by (auto simp: step_to_def event_ok_def)

lemma send_event:
  assumes c: "conf_ok c" and i: "tcp_inv c s" and e: "tcp_inv c s'" "maxseq s' = maxseq s" "highest_ack s' = highest_ack s"
  shows "event_ok c (highest_ack s) s (send_much c now u force reason burst s')"
  using send_much_ok[OF c e(1), of now u force reason burst] e(2,3) by (auto simp: step_to_def event_ok_def)

fun event_ack :: "tcp_event \<Rightarrow> tcp \<Rightarrow> int" where
  "event_ack (Ack p) s = ack_result p s"
| "event_ack ev s = highest_ack s"

lemma tcp_handle_ok:
  assumes c: "conf_ok c" and i: "tcp_inv c s" and e: "enabled c now ev s"
  shows "event_ok c (event_ack ev s) s (tcp_handle c now u ev s)"
proof (cases ev)
  case (Ack p)
  then show ?thesis using step_event[OF tcp_recv_ok[OF c i]] e by simp
next
  case RtxTimeout
  then show ?thesis using step_event[OF RtxTimer_ok[OF c i]] e by simp
next
  case DelSndTimeout
  then show ?thesis using step_event[OF DelSndTimer_ok[OF c i]] e by simp
next
  case BurstSndTimeout
  then show ?thesis using step_event[OF BurstSndTimer_ok[OF i]] e by simp
next
  case (SendMsg n)
  have "tc_size c \<noteq> 0" using c by (simp add: conf_ok_def)
  then show ?thesis using SendMsg send_event[OF c i] i by (simp add: sendmsg_def inv_cwnd_action)
next
  case (AdvanceBy n)
  then show ?thesis using send_event[OF c i] i by (simp add: advanceby_def inv_cwnd_action)
qed

subsection \<open>Runs\<close>

text \<open>An object on which \<^verbatim>\<open>reset\<close> is called for the first time.\<close>

definition fresh_tcp :: "tcp \<Rightarrow> bool" where
  "fresh_tcp s \<longleftrightarrow> frto s = 0 \<and> wnd_init_option s \<in> {1, 2} \<and> 1 \<le> wnd_init s \<and> rtt_active s = False"

lemma rtt_init_inv:
  assumes "rtt_conf_ok c"
  shows "\<exists>r'. rtt_init c r = Inr r' \<and> rtt_inv r'"
  using assms by (auto simp: rtt_init_def rtt_conf_ok_def rtt_inv_def)

lemma tcp_reset_ok:
  assumes c: "conf_ok c" and f: "fresh_tcp s0"
  shows "\<exists>s. tcp_reset c now u s0 = Inr s \<and> tcp_inv c s \<and> maxseq s = -1 \<and> highest_ack s = -1 \<and> curseq s = 0"
proof -
  obtain r where r: "rtt_init (tc_rtt c) (rtt_est s0) = Inr r" "rtt_inv r" using rtt_init_inv[of "tc_rtt c"] c by (auto simp: conf_ok_def)
  let ?s = "s0\<lparr>rtt_est := r, rtt_seq := -1, dupacks := 0, curseq := 0\<rparr>"
  obtain w where w: "initial_window (tc_size c) ?s = Inr w" "1 \<le> w" using initial_window_returns[of ?s "tc_size c"] f by (auto simp: fresh_tcp_def)
  obtain s1 cw sc where s1: "set_initial_window c ?s = Inr s1" "s1 = ?s\<lparr>cwnd := cw, syn_connects := sc\<rparr>" "1 \<le> cw"
  proof (cases "syn c \<and> delay_growth c")
    case True
    then show ?thesis using that[of "?s\<lparr>cwnd := 1, syn_connects := 0\<rparr>" 0 1] by (simp add: set_initial_window_def)
  next
    case False
    then show ?thesis using that[of "?s\<lparr>cwnd := w\<rparr>" "syn_connects ?s" w] w unfolding set_initial_window_def if_not_P[OF False] by simp
  qed
  have o: "wnd_option (tc_win c) \<noteq> 8" using c by (simp add: conf_ok_def win_conf_ok_def)
  have wr: "1 \<le> rcv_window c" using rcv_window[OF c] by (rule conjunct1)
  let ?ss = "if max_ssthresh (tc_win c) > 0 \<and> max_ssthresh (tc_win c) < rcv_window c then max_ssthresh (tc_win c) else rcv_window c"
  have "1 \<le> ?ss" using wr by auto
  moreover have "rtt_inv (r\<lparr>boot_time := b\<rparr>)" for b using r(2) by (simp add: rtt_inv_def)
  ultimately show ?thesis
    unfolding tcp_reset_def r(1) bind_r_simps s1(1) Let_def rcv_window_def[symmetric] s1(2) if_not_P[OF o]
    using s1(3) f wr by (simp add: tcp_inv_def fresh_tcp_def)
qed

text \<open>The states a sender reaches and the sequence numbers it has sent.\<close>

inductive tcp_reach :: "tcp_conf \<Rightarrow> int set \<Rightarrow> tcp \<Rightarrow> bool" for c where
  reach_reset: "fresh_tcp s0 \<Longrightarrow> tcp_reset c now u s0 = Inr s \<Longrightarrow> tcp_reach c {} s"
| reach_event: "tcp_reach c S s \<Longrightarrow> enabled c now ev s \<Longrightarrow> tcp_handle c now u ev s = Inr (out, s') \<Longrightarrow> tcp_reach c (S \<union> seqnos out) s'"

lemma tcp_reach_inv:
  assumes "tcp_reach c S s" and c: "conf_ok c"
  shows "tcp_inv c s \<and> S = {0..maxseq s}"
  using assms(1)
proof (induction rule: tcp_reach.induct)
  case (reach_reset s0 now u s)
  then show ?case using tcp_reset_ok[OF c reach_reset(1), of now u] by auto
next
  case (reach_event S s now ev u out s')
  then show ?case using tcp_handle_ok[OF c _ reach_event.hyps(2), of u] by (auto simp: event_ok_def)
qed

text \<open>C12: Whatever order acknowledgements, timeouts and data arrive in: what the sender has sent are the
  packets up to \<^verbatim>\<open>maxseq_\<close> without a gap, it does not overrun the receiver's window, its windows
  do not close, and while data is outstanding the retransmission timer is running.\<close>

theorem tcp_sender_invariant:
  assumes "tcp_reach c S s" and "conf_ok c"
  shows "S = {0..maxseq s} \<and> maxseq s \<le> highest_ack s + rcv_window c \<and> t_seqno s \<le> maxseq s + 1 \<and> 1 \<le> cwnd s \<and> 1 \<le> ssthresh s \<and>
    (highest_ack s < maxseq s \<longrightarrow> t_status (rtx_timer s) = TIMER_PENDING)"
  using tcp_reach_inv[OF assms] by (simp add: tcp_inv_def)

text \<open>C34: With a configuration as in \<^verbatim>\<open>conf_ok\<close> a reachable sender handles every acknowledgement of a packet that was
  sent, every expiry of a pending timer and every call of the application without an error, at any time; an
  acknowledgement raises \<^verbatim>\<open>highest_ack_\<close> to its number and nothing else changes it.  The estimate of NewReno
  that is infinite, and in C++ undefined, when the third acknowledgement comes at the time of the second is taken to give
  any \<^verbatim>\<open>int\<close>.\<close>

theorem tcp_sender_never_fails:
  assumes "tcp_reach c S s" and "conf_ok c" and "enabled c now ev s"
  shows "\<exists>out s'. tcp_handle c now u ev s = Inr (out, s') \<and> highest_ack s' = event_ack ev s"
  using tcp_handle_ok[OF assms(2) _ assms(3), of u] tcp_reach_inv[OF assms(1,2)] by (auto simp: event_ok_def)

end
