(* ===== verification/TcpSession.thy ===== *)
theory TcpSession
  imports TcpRun TcpSinkAgent
begin

text \<open>
  A TCP connection: a sender of \<^verbatim>\<open>TcpRun\<close>, the receiver \<^verbatim>\<open>TcpSink\<close> and a network between them that
  delivers data packets and acknowledgements in any order, late, more than once or not at all.
\<close>

subsection \<open>Connections\<close>

definition sent_data :: "tcp_out list \<Rightarrow> tcp_pkt set" where
  "sent_data out = {p. \<exists>r. SendData p r \<in> set out}"

lemma sent_data_seqnos: "tp_seqno ` sent_data out = seqnos out"
  by (auto simp: sent_data_def seqnos_def)

text \<open>The data packets and the acknowledgements in the network, the numbers of the packets that arrived.\<close>

inductive tcp_session :: "tcp_conf \<Rightarrow> tcp_pkt set \<Rightarrow> int set \<Rightarrow> tcp_sink \<Rightarrow> tcp_pkt set \<Rightarrow> tcp \<Rightarrow> bool" for c where
  session_open: "fresh_tcp s0 \<Longrightarrow> tcp_reset c now u s0 = Inr s \<Longrightarrow> sink_reach (pkt_size c) k {} k \<Longrightarrow> tcp_session c {} {} k {} s"
| session_local: "tcp_session c D R k A s \<Longrightarrow> \<forall>p. ev \<noteq> Ack p \<Longrightarrow> enabled c now ev s \<Longrightarrow> tcp_handle c now u ev s = Inr (out, s') \<Longrightarrow>
    tcp_session c (D \<union> sent_data out) R k A s'"
| session_acked: "tcp_session c D R k A s \<Longrightarrow> a \<in> A \<Longrightarrow> tcp_handle c now u (Ack a) s = Inr (out, s') \<Longrightarrow>
    tcp_session c (D \<union> sent_data out) R k A s'"
| session_arrives: "tcp_session c D R k A s \<Longrightarrow> p \<in> D \<Longrightarrow> \<not> tp_ts p < sk_lastreset k \<Longrightarrow> sink_recv now p k = Inr (out, k') \<Longrightarrow>
    tcp_session c D (insert (tp_seqno p) R) k' (A \<union> {a. SendAck a \<in> set out}) s"

text \<open>Every packet has a header.\<close>

definition headers_ok :: "tcp_conf \<Rightarrow> bool" where
  "headers_ok c \<longleftrightarrow> (\<forall>n \<in> {0, 1}. hdr_len \<le> pkt_size c n)"

lemma headers_all: "headers_ok c \<Longrightarrow> hdr_len \<le> pkt_size c n"
  by (cases "n = 0") (auto simp: headers_ok_def pkt_size_def)

definition session_inv :: "tcp_conf \<Rightarrow> tcp_pkt set \<Rightarrow> int set \<Rightarrow> tcp_sink \<Rightarrow> tcp_pkt set \<Rightarrow> tcp \<Rightarrow> bool" where
  "session_inv c D R k A s \<longleftrightarrow> tcp_inv c s \<and> tp_seqno ` D = {0..maxseq s} \<and> (\<forall>p\<in>D. tp_size p = pkt_size c (tp_seqno p)) \<and>
    R \<subseteq> {0..maxseq s} \<and> sink_ok (pkt_size c) R k \<and> (\<forall>a\<in>A. -1 \<le> tp_seqno a \<and> {0..tp_seqno a} \<subseteq> R) \<and> {0..highest_ack s} \<subseteq> R"

lemma sent_sized: "sized c out \<Longrightarrow> p \<in> sent_data out \<Longrightarrow> tp_size p = pkt_size c (tp_seqno p)"
  by (auto simp: sized_def sent_data_def)

text \<open>An acknowledgement is of data that was sent.\<close>

lemma ack_was_sent:
  assumes i: "session_inv c D R k A s" and a: "a \<in> A"
  shows "tp_seqno a \<le> maxseq s"
proof (cases "tp_seqno a < 0")
  case True
  then show ?thesis using i by (simp add: session_inv_def tcp_inv_def)
next
  case False
  then have "tp_seqno a \<in> {0..tp_seqno a}" by simp
  also have "\<dots> \<subseteq> {0..maxseq s}" using i a unfolding session_inv_def by blast
  finally show ?thesis by simp
qed

lemma session_event:
  assumes c: "conf_ok c" and i: "session_inv c D R k A s" and e: "enabled c now ev s" and h: "tcp_handle c now u ev s = Inr (out, s')"
    and r: "{0..event_ack ev s} \<subseteq> R"
  shows "session_inv c (D \<union> sent_data out) R k A s'"
proof -
  have t: "tcp_inv c s" using i by (simp add: session_inv_def)
  have o: "tcp_inv c s'" "{0..maxseq s} \<union> seqnos out = {0..maxseq s'}" "highest_ack s' = event_ack ev s" "sized c out"
    using tcp_handle_ok[OF c t e, of u] h by (simp_all add: event_ok_def)
  have D: "tp_seqno ` (D \<union> sent_data out) = {0..maxseq s'}" using i o(2) by (simp add: image_Un sent_data_seqnos session_inv_def)
  have "\<forall>p\<in>D \<union> sent_data out. tp_size p = pkt_size c (tp_seqno p)" using i sent_sized[OF o(4)] by (auto simp: session_inv_def)
  moreover have "R \<subseteq> {0..maxseq s'}" using i o(2) by (auto simp: session_inv_def)
  ultimately show ?thesis using i o(1,3) D r by (simp add: session_inv_def)
qed

lemma session_arrival:
  assumes c: "conf_ok c" and hd: "headers_ok c" and i: "session_inv c D R k A s" and p: "p \<in> D" and f: "\<not> tp_ts p < sk_lastreset k"
  shows "\<exists>ack k'. sink_recv now p k = Inr (delivery (pkt_size c) (a_next (sk_acker k)) (a_next (sk_acker k')) @ [SendAck ack], k') \<and>
    truthful (insert (tp_seqno p) R) ack \<and> session_inv c D (insert (tp_seqno p) R) k' (insert ack A) s"
proof -
  have n: "tp_seqno p \<in> {0..maxseq s}" using i p unfolding session_inv_def by blast
  have "data_pkt (pkt_size c) p" using i p n headers_all[OF hd] by (simp add: data_pkt_def session_inv_def)
  moreover have "sink_ok (pkt_size c) R k" "\<forall>i\<in>R. hdr_len \<le> pkt_size c i" using i headers_all[OF hd] by (auto simp: session_inv_def)
  ultimately obtain ack k' where a: "sink_recv now p k = Inr (delivery (pkt_size c) (a_next (sk_acker k)) (a_next (sk_acker k')) @ [SendAck ack], k')"
      "truthful (insert (tp_seqno p) R) ack" "sink_ok (pkt_size c) (insert (tp_seqno p) R) k'" using sink_step[OF _ _ _ f] by blast
  have "session_inv c D (insert (tp_seqno p) R) k' (insert ack A) s"
    using i a(2,3) n unfolding session_inv_def truthful_def by auto
  then show ?thesis using a by blast
qed

lemma arrival_acks: "out = delivery sz n m @ [SendAck ack] \<Longrightarrow> {a. SendAck a \<in> set out} = {ack}"
  by (auto simp: delivery_def Let_def)

lemma session_inv:
  assumes "tcp_session c D R k A s" and c: "conf_ok c" and hd: "headers_ok c"
  shows "session_inv c D R k A s"
  using assms(1)
proof (induction rule: tcp_session.induct)
  case (session_open s0 now u s k)
  then show ?case using tcp_reset_ok[OF c session_open(1), of now u] sink_reach_ok[OF session_open(3)] by (auto simp: session_inv_def)
next
  case (session_local D R k A s ev now u out s')
  have "event_ack ev s = highest_ack s" using session_local.hyps(2) by (cases ev) simp_all
  then show ?case using session_event[OF c session_local.IH session_local.hyps(3,4)] session_local.IH by (simp add: session_inv_def)
next
  case (session_acked D R k A s a now u out s')
  have "{0..tp_seqno a} \<subseteq> R" "{0..highest_ack s} \<subseteq> R" using session_acked.IH session_acked.hyps(2) by (auto simp: session_inv_def)
  then have "{0..event_ack (Ack a) s} \<subseteq> R" by (simp add: ack_result_def acked_def max_def)
  then show ?case using session_event[OF c session_acked.IH _ session_acked.hyps(3)] ack_was_sent[OF session_acked.IH session_acked.hyps(2)] by simp
next
  case (session_arrives D R k A s p now out k')
  from session_arrival[OF c hd session_arrives.IH session_arrives.hyps(2,3), of now] session_arrives.hyps(4)
  show ?case using arrival_acks by auto
qed

text \<open>C14: Whatever the network does: the sender takes no packet for acknowledged that has not arrived, the
  receiver takes none for received that was not sent, no acknowledgement names a packet that
  was not sent, and the sender never has more in flight than the receiver's window.\<close>

theorem tcp_session_safe:
  assumes "tcp_session c D R k A s" and "conf_ok c" and "headers_ok c"
  shows "{0..highest_ack s} \<subseteq> R \<and> R \<subseteq> {0..maxseq s} \<and> tp_seqno ` D = {0..maxseq s} \<and> (\<forall>a\<in>A. tp_seqno a \<le> maxseq s \<and> {0..tp_seqno a} \<subseteq> R) \<and>
    maxseq s - highest_ack s \<le> rcv_window c"
  using session_inv[OF assms] ack_was_sent[OF session_inv[OF assms]] by (auto simp: session_inv_def tcp_inv_def)

text \<open>C35: The sender reports that it is done only after all the data it was given has arrived.\<close>

theorem tcp_done_delivered:
  assumes "tcp_session c D R k A s" and "conf_ok c" and "headers_ok c" and "a \<in> A"
    and "tcp_recv c now u a s = Inr (out, s')" and "SendDone \<in> set out"
  shows "{0..<curseq s} \<subseteq> R"
proof -
  note i = session_inv[OF assms(1-3)]
  have t: "tcp_inv c s" using i by (simp add: session_inv_def)
  have "curseq s - 1 \<le> ack_result a s"
    using tcp_recv_ok[OF assms(2) t ack_was_sent[OF i assms(4)], of now u] assms(5,6) by (simp add: step_to_def)
  then have "curseq s - 1 \<le> tp_seqno a \<or> curseq s - 1 \<le> highest_ack s" by (auto simp: ack_result_def acked_def split: if_splits)
  moreover have "{0..tp_seqno a} \<subseteq> R" "{0..highest_ack s} \<subseteq> R" using i assms(4) by (auto simp: session_inv_def)
  ultimately show ?thesis by (meson atLeastLessThan_iff atLeastAtMost_iff order_trans subset_iff zle_diff1_eq)
qed


subsection \<open>Retransmission\<close>

lemma slowdown_cwnd:
  assumes "wnd_restart s = 1" and "how = {CLOSE_CWND_ONE, NO_OUTSTANDING_DATA} \<or> how = {CLOSE_CWND_ONE} \<or> how = {CLOSE_SSTHRESH_HALF, CLOSE_CWND_RESTART}"
  shows "cwnd (tcp_slowdown c how s) = 1"
proof -
  have w: "wnd_restart (note_decrease w s) = 1" for w using assms(1) by (simp add: note_decrease_def)
  have "int_of_double 1 = 1" using int_of_double_of_int[of 1] by simp
  then have "slow_cwnd w how a b d e f (note_decrease w s) = 1" for w a b d e f using assms(2) w by (auto simp: slow_cwnd_def)
  then show ?thesis by (simp add: tcp_slowdown_def slowdown_def Let_def split: prod.split)
qed

lemma slowdown_rest: "frto (tcp_slowdown c how s) = frto s" "dupwnd (tcp_slowdown c how s) = dupwnd s" "delsnd_timer (tcp_slowdown c how s) = delsnd_timer s"
  "burstsnd_timer (tcp_slowdown c how s) = burstsnd_timer s"
proof -
  obtain ss cw ca dn where e: "tcp_slowdown c how s = s\<lparr>ssthresh := ss, cwnd := cw, cong_action := ca, fcnt := 0, inc_count := 0, first_decrease := False, decrease_num := dn\<rparr>"
    unfolding tcp_slowdown_def using slowdown_frame by blast
  show "frto (tcp_slowdown c how s) = frto s" "dupwnd (tcp_slowdown c how s) = dupwnd s" "delsnd_timer (tcp_slowdown c how s) = delsnd_timer s"
    "burstsnd_timer (tcp_slowdown c how s) = burstsnd_timer s" unfolding e by simp_all
qed

lemma timeout_window:
  assumes "highest_ack s < maxseq s" and "wnd_restart s = 1" and "frto s = 0"
  shows "cwnd (timeout_slowdown c s) = 1" and "frto (timeout_slowdown c s) \<noteq> 2" and "dupwnd (timeout_slowdown c s) = dupwnd s"
    and "delsnd_timer (timeout_slowdown c s) = delsnd_timer s" and "burstsnd_timer (timeout_slowdown c s) = burstsnd_timer s"
  using assms by (simp_all add: timeout_slowdown_def Let_def slowdown_cwnd slowdown_rest)

lemma timeout_begin_rest:
  "wnd_restart (timeout_begin c s) = wnd_restart s" "tc_class c \<noteq> Tahoe \<Longrightarrow> dupwnd (timeout_begin c s) = 0" "delsnd_timer (timeout_begin c s) = delsnd_timer s"
  "burstsnd_timer (timeout_begin c s) = burstsnd_timer s"
  by (simp_all add: timeout_begin_def Let_def)

lemma window_one:
  assumes "conf_ok c" and "cwnd s = 1" and "frto s \<noteq> 2" and "tc_class c \<noteq> Tahoe \<longrightarrow> dupwnd s = 0"
  shows "1 \<le> window (tc_class c) (tc_win c) s"
proof -
  have "int_of_double 1 = 1" using int_of_double_of_int[of 1] by simp
  moreover have "1 \<le> int_of_double (wnd (tc_win c))" using rcv_window[OF assms(1), THEN conjunct1] unfolding rcv_window_def .
  ultimately show ?thesis using assms(2-4) by (auto simp: window_def Let_def)
qed

lemma send_much_first:
  assumes c: "conf_ok c" and i: "tcp_inv c s" and w: "1 \<le> window (tc_class c) (tc_win c) s" and t: "t_seqno s = highest_ack s + 1" "t_seqno s < curseq s"
    and d: "t_status (delsnd_timer s) \<noteq> TIMER_PENDING" "t_status (burstsnd_timer s) \<noteq> TIMER_PENDING" and o: "overhead c = 0"
    and m: "send_much c now u force reason burst s = Inr (out, s')"
  shows "\<exists>q rest. out = SendData q reason # rest \<and> tp_seqno q = highest_ack s + 1 \<and> tp_ts q = now"
proof -
  define s1 where "s1 = (if t_seqno s = 0 then s\<lparr>firstsent := now\<rparr> else s)"
  have s1: "t_seqno s1 = highest_ack s + 1" "highest_ack s1 = highest_ack s" "curseq s1 = curseq s" "burstsnd_timer s1 = burstsnd_timer s"
      "window (tc_class c) (tc_win c) s1 = window (tc_class c) (tc_win c) s" using t by (simp_all add: s1_def window_def force_wnd_def)
  have na: "\<not> aborts c (t_seqno s1) s1" using c by (simp add: aborts_def conf_ok_def)
  have "send_loop c now u force reason burst 0 (window (tc_class c) (tc_win c) s) s1 = Inr (out, s')"
    using m d s1 unfolding send_much_def Let_def s1_def[symmetric] by simp
  moreover have "t_seqno s1 \<le> highest_ack s1 + window (tc_class c) (tc_win c) s \<and> t_seqno s1 < curseq s1" using w t s1 by simp
  ultimately obtain o1 s2 o2 where l: "tcp_output c now (t_seqno s1) reason s1 = Inr (o1, s2)" "out = o1 @ o2"
    using o by (subst (asm) send_loop.simps) (auto simp: then_r_Inr)
  obtain q rest where "o1 = SendData q reason # rest" "q = data_packet c now (t_seqno s1) (marks_cwr c (t_seqno s1) s1) s1" using outputD(5)[OF l(1) na] by blast
  then show ?thesis using l(2) s1(1) by (simp add: data_packet_size)
qed

lemma reset_rtxD:
  assumes "reset_rtx_timer c now False backoff s = Inr s'"
  shows "\<exists>r tm. s' = s\<lparr>rtt_est := r, rtx_timer := tm, t_seqno := highest_ack s + 1, rtt_active := False\<rparr>"
proof -
  obtain r s1 where s1: "set_rtx_timer c now (s\<lparr>rtt_est := r\<rparr>) = Inr s1" "s' = s1\<lparr>t_seqno := highest_ack s1 + 1, rtt_active := False\<rparr>"
    using assms by (auto simp: reset_rtx_timer_def)
  obtain r' tm where "s1 = s\<lparr>rtt_est := r', rtx_timer := tm\<rparr>" using set_rtx_timerD[OF s1(1)] by auto
  then show ?thesis using s1(2) by (intro exI[of _ r'] exI[of _ tm]) simp
qed

lemma timeout_first:
  assumes c: "conf_ok c" and i: "tcp_inv c s" and d: "highest_ack s < maxseq s" and n: "highest_ack s + 1 < curseq s" and o: "overhead c = 0"
    and t: "t_status (delsnd_timer s) \<noteq> TIMER_PENDING" "t_status (burstsnd_timer s) \<noteq> TIMER_PENDING"
    and r: "timeout_rtx c now u (s\<lparr>rtx_timer := tm\<rparr>) = Inr (out, s')"
  shows "\<exists>q rest. out = SendData q TCP_REASON_TIMEOUT # rest \<and> tp_seqno q = highest_ack s + 1 \<and> tp_ts q = now"
proof -
  let ?s = "s\<lparr>rtx_timer := tm\<rparr>"
  define s1 where "s1 = timeout_slowdown c (timeout_begin c ?s)"
  have i': "tcp_inv c (?s\<lparr>rtx_timer := rtx_timer s\<rparr>)" using i by simp
  note B = timeout_begin_ok[OF i'] timeout_begin_rest[of c ?s]
  have b: "highest_ack (timeout_begin c ?s) < maxseq (timeout_begin c ?s)" "wnd_restart (timeout_begin c ?s) = 1"
    using B(2,6) d i by (simp_all add: same_seqnos_def tcp_inv_def)
  note W = timeout_window[OF b B(3), where c = c, folded s1_def]
  note S = timeout_slowdown_ok[OF B(1,4,3), folded s1_def]
  have s1: "cwnd s1 = 1" "frto s1 \<noteq> 2" "tc_class c \<noteq> Tahoe \<longrightarrow> dupwnd s1 = 0" "highest_ack s1 = highest_ack s" "curseq s1 = curseq s"
      "delsnd_timer s1 = delsnd_timer s" "burstsnd_timer s1 = burstsnd_timer s"
    using W S B(2,7-9) by (simp_all add: same_seqnos_def)
  let ?b = "\<not> (highest_ack s1 = maxseq s1 \<and> restart_bugfix c)"
  obtain s2 where s2: "reset_rtx_timer c now False ?b s1 = Inr s2"
      "send_much c now u False TCP_REASON_TIMEOUT (maxburst c) (s2\<lparr>last_cwnd_action := CWND_ACTION_TIMEOUT\<rparr>) = Inr (out, s')"
    using r unfolding timeout_rtx_def Let_def s1_def[symmetric] by auto
  obtain rt tm' where e: "s2 = s1\<lparr>rtt_est := rt, rtx_timer := tm', t_seqno := highest_ack s1 + 1, rtt_active := False\<rparr>" using reset_rtxD[OF s2(1)] by blast
  have "tcp_inv c s2" using reset_rtx_timer_ok[OF c, where s = s1 and tm = "rtx_timer s" and now = now and mild = False and backoff = ?b] S s2(1) by (simp add: quiet_def)
  then have j: "tcp_inv c (s2\<lparr>last_cwnd_action := CWND_ACTION_TIMEOUT\<rparr>)" by (simp add: inv_cwnd_action)
  have "1 \<le> window (tc_class c) (tc_win c) (s2\<lparr>last_cwnd_action := CWND_ACTION_TIMEOUT\<rparr>)"
    by (rule window_one[OF c]) (use s1 e in simp_all)
  from send_much_first[OF c j this _ _ _ _ o s2(2)] show ?thesis using s1 e n t by simp
qed

lemma RtxTimer_first:
  assumes c: "conf_ok c" and i: "tcp_inv c s" and d: "highest_ack s < maxseq s" and n: "highest_ack s + 1 < curseq s" and o: "overhead c = 0"
    and t: "t_status (delsnd_timer s) \<noteq> TIMER_PENDING" "t_status (burstsnd_timer s) \<noteq> TIMER_PENDING"
  shows "\<exists>q rest s'. RtxTimer_handle c now u s = Inr (SendData q TCP_REASON_TIMEOUT # rest, s') \<and> tp_seqno q = highest_ack s + 1 \<and> tp_ts q = now"
proof -
  have p: "t_status (rtx_timer s) = TIMER_PENDING" using i d by (simp add: tcp_inv_def)
  obtain out s' where h: "RtxTimer_handle c now u s = Inr (out, s')" using RtxTimer_ok[OF c i p, of now u] by (auto simp: step_to_def)
  then obtain s3 where "timeout_rtx c now u (s\<lparr>rtx_timer := (rtx_timer s)\<lparr>t_event := None, t_status := TIMER_HANDLING\<rparr>\<rparr>) = Inr (out, s3)"
    using p unfolding RtxTimer_handle_def timer_handle_def by auto
  from timeout_first[OF c i d n o t this] show ?thesis using h by blast
qed

text \<open>When the retransmission timer expires while data is outstanding, the first packet sent is the first
  one that is not acknowledged.\<close>

theorem timeout_retransmits:
  assumes "tcp_reach c S s" and "conf_ok c" and "highest_ack s < maxseq s" and "highest_ack s + 1 < curseq s" and "overhead c = 0"
    and "t_status (delsnd_timer s) \<noteq> TIMER_PENDING" and "t_status (burstsnd_timer s) \<noteq> TIMER_PENDING"
  shows "\<exists>q rest s'. RtxTimer_handle c now u s = Inr (SendData q TCP_REASON_TIMEOUT # rest, s') \<and> tp_seqno q = highest_ack s + 1 \<and> tp_ts q = now"
  using RtxTimer_first[OF assms(2) _ assms(3-7)] tcp_reach_inv[OF assms(1,2)] by blast















text \<open>What a timeout leaves as it is.\<close>

definition kept :: "tcp \<Rightarrow> rat \<times> newreno" where
  "kept s = (tcp_lastreset s, newreno_st s)"

lemma output_kept: "tcp_output c now n reason s = Inr (out, s') \<Longrightarrow> kept s' = kept s"
  by (cases "aborts c n s") (auto dest: outputD(1) output_abortD(1) simp: output_frame_def kept_def)

lemma send_loop_kept: "send_loop c now u force reason burst npackets win s = Inr (out, s') \<Longrightarrow> kept s' = kept s"
proof (induction c now u force reason burst npackets win s arbitrary: out rule: send_loop.induct)
  case (1 c now u force reason burst npackets win s)
  show ?case
  proof (cases "t_seqno s \<le> highest_ack s + win \<and> t_seqno s < curseq s")
    case go: True
    show ?thesis
    proof (cases "overhead c = 0 \<or> force")
      case True
      from "1.prems" go True obtain o1 s1 o2 where s1: "tcp_output c now (t_seqno s) reason s = Inr (o1, s1)"
          and r: "(if burst \<noteq> 0 \<and> npackets + 1 = burst then Inr ([], s1\<lparr>t_seqno := t_seqno s1 + 1\<rparr>)
            else send_loop c now u force reason burst (npackets + 1) (window (tc_class c) (tc_win c) (s1\<lparr>t_seqno := t_seqno s1 + 1\<rparr>)) (s1\<lparr>t_seqno := t_seqno s1 + 1\<rparr>)) = Inr (o2, s')"
        by (subst (asm) send_loop.simps) (auto simp: then_r_Inr)
      have k: "kept (s1\<lparr>t_seqno := t_seqno s1 + 1\<rparr>) = kept s" using output_kept[OF s1] by (simp add: kept_def)
      show ?thesis
      proof (cases "burst \<noteq> 0 \<and> npackets + 1 = burst")
        case False
        then show ?thesis using "1.IH"[OF go True, of o1 "s1\<lparr>t_seqno := t_seqno s1 + 1\<rparr>" o2] s1 r[unfolded if_not_P[OF False]] k by simp
      qed (use r k in auto)
    next
      case False
      then show ?thesis using "1.prems" go by (subst (asm) send_loop.simps) (auto simp: kept_def split: if_splits)
    qed
  next
    case False
    then show ?thesis using "1.prems" by (subst (asm) send_loop.simps) auto
  qed
qed

lemma send_much_kept: "send_much c now u force reason burst s = Inr (out, s') \<Longrightarrow> kept s' = kept s"
  by (auto simp: send_much_def Let_def kept_def split: if_splits dest!: send_loop_kept)

lemma timeout_kept:
  assumes "timeout_rtx c now u s = Inr (out, s')"
  shows "kept s' = kept s"
proof -
  have k: "kept (tcp_slowdown c how s) = kept s" for how s
  proof -
    obtain ss cw ca dn where e: "tcp_slowdown c how s = s\<lparr>ssthresh := ss, cwnd := cw, cong_action := ca, fcnt := 0, inc_count := 0, first_decrease := False, decrease_num := dn\<rparr>"
      unfolding tcp_slowdown_def using slowdown_frame by blast
    show ?thesis unfolding e by (simp add: kept_def)
  qed
  then have l: "tcp_lastreset (tcp_slowdown c how s) = tcp_lastreset s" "newreno_st (tcp_slowdown c how s) = newreno_st s" for how s by (simp_all add: kept_def)
  have "kept (timeout_slowdown c s) = kept s" for s by (simp add: timeout_slowdown_def Let_def kept_def l)
  moreover have "kept (timeout_begin c s) = kept s" by (simp add: timeout_begin_def Let_def kept_def)
  ultimately have b: "kept (timeout_slowdown c (timeout_begin c s)) = kept s" by simp
  obtain s2 b' where s2: "reset_rtx_timer c now False b' (timeout_slowdown c (timeout_begin c s)) = Inr s2"
      "send_much c now u False TCP_REASON_TIMEOUT (maxburst c) (s2\<lparr>last_cwnd_action := CWND_ACTION_TIMEOUT\<rparr>) = Inr (out, s')"
    using assms unfolding timeout_rtx_def Let_def by auto
  have "kept s2 = kept s" using reset_rtxD[OF s2(1)] b by (auto simp: kept_def)
  then show ?thesis using send_much_kept[OF s2(2)] by (simp add: kept_def)
qed

lemma RtxTimer_kept:
  assumes "RtxTimer_handle c now u s = Inr (out, s')"
  shows "kept s' = kept s"
proof -
  obtain s1 where s1: "timeout_rtx c now u (s\<lparr>rtx_timer := (rtx_timer s)\<lparr>t_event := None, t_status := TIMER_HANDLING\<rparr>\<rparr>) = Inr (out, s1)"
      "s' = s1 \<or> s' = s1\<lparr>rtx_timer := (rtx_timer s1)\<lparr>t_status := TIMER_IDLE\<rparr>\<rparr>"
    using assms unfolding RtxTimer_handle_def timer_handle_def by (auto split: if_splits)
  then show ?thesis using timeout_kept[OF s1(1)] by (auto simp: kept_def)
qed

lemma sink_ack_time: "sink_ack now p k = Inr (ack, k') \<Longrightarrow> tp_ts ack = now"
  by (auto simp: sink_ack_def Let_def split: if_splits)

lemma sink_recv_time: "sink_recv now p k = Inr (out @ [SendAck ack], k') \<Longrightarrow> tp_ts ack = now"
  by (auto simp: sink_recv_def Let_def split: if_splits dest!: sink_ack_time)

text \<open>C13: A connection recovers from any loss: let the retransmission timer expire, let the first packet it sends and
  the acknowledgement of that packet arrive, and the sender knows of more data that has
  arrived than before.\<close>

theorem tcp_session_recovers:
  assumes ses: "tcp_session c D R k A s" and c: "conf_ok c" and hd: "headers_ok c"
    and d: "highest_ack s < maxseq s" "highest_ack s + 1 < curseq s" and o: "overhead c = 0"
    and t: "t_status (delsnd_timer s) \<noteq> TIMER_PENDING" "t_status (burstsnd_timer s) \<noteq> TIMER_PENDING"
    and now: "sk_lastreset k \<le> t1" "tcp_lastreset s \<le> t2"
  shows "\<exists>q rest s1 ack out k' out2 s2. RtxTimer_handle c t1 u s = Inr (SendData q TCP_REASON_TIMEOUT # rest, s1) \<and>
    sink_recv t2 q k = Inr (out @ [SendAck ack], k') \<and> tcp_recv c t3 u ack s1 = Inr (out2, s2) \<and> highest_ack s < highest_ack s2"
proof -
  note i = session_inv[OF ses c hd]
  have ti: "tcp_inv c s" using i by (simp add: session_inv_def)
  obtain q rest s1 where q: "RtxTimer_handle c t1 u s = Inr (SendData q TCP_REASON_TIMEOUT # rest, s1)" "tp_seqno q = highest_ack s + 1" "tp_ts q = t1"
    using RtxTimer_first[OF c ti d o t] by blast
  have p: "enabled c t1 RtxTimeout s" using ti d(1) by (simp add: tcp_inv_def)
  have i1: "session_inv c (D \<union> sent_data (SendData q TCP_REASON_TIMEOUT # rest)) R k A s1"
    by (rule session_event[OF c i p]) (use q(1) i in \<open>simp_all add: session_inv_def\<close>)
  have h1: "highest_ack s1 = highest_ack s" "tcp_inv c s1" using tcp_handle_ok[OF c ti p, of u] q(1) by (simp_all add: event_ok_def)
  have k1: "tcp_lastreset s1 = tcp_lastreset s" "newreno_st s1 = newreno_st s" using RtxTimer_kept[OF q(1)] by (simp_all add: kept_def)
  have "q \<in> D \<union> sent_data (SendData q TCP_REASON_TIMEOUT # rest)" by (auto simp: sent_data_def)
  from session_arrival[OF c hd i1 this, of t2] q(3) now(1) obtain ack k' where a:
      "sink_recv t2 q k = Inr (delivery (pkt_size c) (a_next (sk_acker k)) (a_next (sk_acker k')) @ [SendAck ack], k')"
      "truthful (insert (tp_seqno q) R) ack" "session_inv c (D \<union> sent_data (SendData q TCP_REASON_TIMEOUT # rest)) (insert (tp_seqno q) R) k' (insert ack A) s1" by auto
  have "highest_ack s + 1 \<le> tp_seqno ack"
  proof (rule ccontr)
    assume "\<not> highest_ack s + 1 \<le> tp_seqno ack"
    then have "tp_seqno ack + 1 \<in> {0..highest_ack s + 1}" using a(2) by (simp add: truthful_def)
    also have "\<dots> = insert (highest_ack s + 1) {0..highest_ack s}" using ti by (auto simp: tcp_inv_def)
    also have "\<dots> \<subseteq> insert (tp_seqno q) R" using i q(2) unfolding session_inv_def by auto
    finally show False using a(2) by (simp add: truthful_def)
  qed
  moreover have "tp_seqno ack \<le> maxseq s1" by (rule ack_was_sent[OF a(3)]) simp
  moreover have "\<not> tp_ts ack < tcp_lastreset s1" using sink_recv_time[OF a(1)] now(2) k1(1) by simp
  ultimately obtain out2 s2 where "tcp_recv c t3 u ack s1 = Inr (out2, s2)" "highest_ack s < highest_ack s2"
    using tcp_recv_ok[OF c h1(2), of ack t3 u] h1(1) by (auto simp: step_to_def ack_result_def acked_def)
  then show ?thesis using q(1) a(1) by blast
qed

end
