(* ===== verification/TcpWitness.thy ===== *)
theory TcpWitness
  imports TcpSession
begin

text \<open>
  A sender with the default configuration of the simulator and a receiver, and short runs of both.
\<close>

definition ex_rtt_conf :: rtt_conf where
  "ex_rtt_conf = \<lparr> tcp_tick = 1 / 100, srtt_init = 0, rttvar_init = 12, rtxcur_init = 3, T_SRTT_BITS = 3, T_RTTVAR_BITS = 2, rttvar_exp = 2,
     maxrto = 60, minrto = 1 / 5, rfc2988 = True, ts_option = False \<rparr>"

definition ex_win_conf :: win_conf where
  "ex_win_conf = \<lparr> wnd = 20, wnd_const = 4, wnd_th = 1 / 500, wnd_option = 1, increase_num = 1, maxcwnd = 0, precision_reduce = True,
     k_parameter = 0, l_parameter = 1, low_window = 38, high_window = 83000, high_p = 1 / 10000000, high_decrease = 1 / 10, max_ssthresh = 0,
     cwnd_range = 0, dctcp = False, dctcp_alpha = 0, c_pow = (\<lambda>x y. x), c_log = (\<lambda>x. x), c_exp = (\<lambda>x. x) \<rparr>"

definition ex_tcp_conf :: "tcp_class \<Rightarrow> tcp_conf" where
  "ex_tcp_conf k = \<lparr> tc_class = k, tc_rtt = ex_rtt_conf, tc_win = ex_win_conf, tc_size = 1000, tc_fid = 1, tcpip_base_hdr_size = 40, ts_option_size = 10,
     useHeaders = True, syn = True, delay_growth = True, max_connects = -1, ecn_capable = False, old_ecn = False, SetCWRonRetransmit = True,
     overhead = 0, maxburst = 0, aggressive_maxburst = True, numdupacks = 3, singledup = True, noFastRetrans = False, exitFastRetrans = True,
     bug_fix = True, bugfix_ss = True, bugfix_ack = False, less_careful = False, timerfix = True, ts_resetRTO = False, control_increase = False,
     slow_start_restart = True, restart_bugfix = True, frto_enabled = False, spurious_response = 1, newreno_changes = 0, newreno_changes1 = True,
     partial_window_deflation = True, exit_recovery_fix = False, int_of_inf = - 2147483648 \<rparr>"

definition ex_tcp :: tcp where
  "ex_tcp = \<lparr> t_seqno = 0, dupacks = 0, curseq = 0, highest_ack = 0, cwnd = 0, ssthresh = 0, maxseq = 0, last_ack = 0, recover_seq = 0,
     last_cwnd_action = CWND_ACTION_NONE, inc_count = 0, rtt_active = False, rtt_seq = -1, rtt_ts = 0, firstsent = 0, tcp_lastreset = 0, closed = False,
     rtt_est = \<lparr> t_rtt = 0, t_srtt = 0, t_rttvar = 0, t_backoff = 0, t_rtxcur = 0, use_rtt = False, boot_time = 0 \<rparr>, ts_peer = 0, ts_echo = 0,
     rtx_timer = timer_new, delsnd_timer = timer_new, burstsnd_timer = timer_new, syn_connects = 0, awnd = 0, first_decrease = True, fcnt = 0,
     ect_on = False, ecn_burst = False, ecn_backoff = False, cong_action = False, frto = 0, pipe_prev = 0, prev_highest_ack = 0,
     decrease_num = 1 / 2, wnd_init = 2, wnd_restart = 0, wnd_init_option = 1,
     hs_tcp = \<lparr> hs_low_p = 0, hs_dec1 = 0, hs_dec2 = 0, hs_p1 = 0, hs_p2 = 0, hs_cwnd_last = 0, hs_increase_last = 0 \<rparr>, w_used = 0, dupwnd = 0,
     newreno_st = \<lparr> nr_acked = 0, nr_firstpartial = False, nr_basertt = 0, nr_ack2 = 0, nr_ack3 = 0, nr_new_ssthresh = 0 \<rparr> \<rparr>"

lemma ex_conf_ok: "conf_ok (ex_tcp_conf k)" "headers_ok (ex_tcp_conf k)" "fresh_tcp ex_tcp"
  by (simp_all add: conf_ok_def rtt_conf_ok_def win_conf_ok_def ex_tcp_conf_def ex_rtt_conf_def ex_win_conf_def headers_ok_def pkt_size_def headersize_def hdr_len_def
    fresh_tcp_def ex_tcp_def)

text \<open>A connection with the packets and acknowledgements as lists: the sender acts, packet \<^verbatim>\<open>i\<close> arrives,
  acknowledgement \<^verbatim>\<open>i\<close> arrives; one step each tenth of a second.\<close>

datatype conn_step = Act tcp_event | Deliver nat | Return nat

type_synonym conn = "tcp_pkt list \<times> int list \<times> tcp_sink \<times> tcp_pkt list \<times> tcp"

definition data_list :: "tcp_out list \<Rightarrow> tcp_pkt list" where
  "data_list out = List.concat (List.map (\<lambda>x. case x of SendData p r \<Rightarrow> [p] | SendIdle \<Rightarrow> [] | SendDone \<Rightarrow> []) out)"

definition ack_list :: "sink_out list \<Rightarrow> tcp_pkt list" where
  "ack_list out = List.concat (List.map (\<lambda>x. case x of SendAck a \<Rightarrow> [a] | RecvBytes n \<Rightarrow> []) out)"

fun conn_do :: "tcp_conf \<Rightarrow> rat \<Rightarrow> conn_step \<Rightarrow> conn \<Rightarrow> conn result" where
  "conn_do c now (Act ev) (D, R, k, A, s) =
    (if enabled c now ev s \<and> (case ev of Ack p \<Rightarrow> False | RtxTimeout \<Rightarrow> True | DelSndTimeout \<Rightarrow> True | BurstSndTimeout \<Rightarrow> True | SendMsg n \<Rightarrow> True | AdvanceBy n \<Rightarrow> True)
     then bind_r (tcp_handle c now 0 ev s) (\<lambda>(out, s'). Inr (D @ data_list out, R, k, A, s')) else Inl Abort)"
| "conn_do c now (Deliver i) (D, R, k, A, s) =
    (if i < length D \<and> \<not> tp_ts (D ! i) < sk_lastreset k
     then bind_r (sink_recv now (D ! i) k) (\<lambda>(out, k'). Inr (D, tp_seqno (D ! i) # R, k', A @ ack_list out, s)) else Inl Abort)"
| "conn_do c now (Return i) (D, R, k, A, s) =
    (if i < length A
     then bind_r (tcp_handle c now 0 (Ack (A ! i)) s) (\<lambda>(out, s'). Inr (D @ data_list out, R, k, A, s')) else Inl Abort)"

fun conn_all :: "tcp_conf \<Rightarrow> rat \<Rightarrow> conn_step list \<Rightarrow> conn \<Rightarrow> conn result" where
  "conn_all c now [] x = Inr x"
| "conn_all c now (st # sts) x = bind_r (conn_do c now st x) (conn_all c (now + 1 / 10) sts)"

definition session_of :: "tcp_conf \<Rightarrow> conn \<Rightarrow> bool" where
  "session_of c x = (case x of (D, R, k, A, s) \<Rightarrow> tcp_session c (set D) (set R) k (set A) s)"

lemma data_list_set: "set (data_list out) = sent_data out"
  by (induction out) (auto simp: data_list_def sent_data_def split: tcp_out.splits)

lemma ack_list_set: "set (ack_list out) = {a. SendAck a \<in> set out}"
  by (induction out) (auto simp: ack_list_def split: sink_out.splits)

lemma conn_do_session:
  assumes "session_of c (D, R, k, A, s)" and "conn_do c now st (D, R, k, A, s) = Inr x"
  shows "session_of c x"
proof (cases st)
  case (Act ev)
  then have e: "enabled c now ev s" "\<forall>p. ev \<noteq> Ack p" using assms(2) by (auto split: if_splits)
  obtain out s' where "tcp_handle c now 0 ev s = Inr (out, s')" "x = (D @ data_list out, R, k, A, s')" using assms(2) Act by (auto split: if_splits)
  then show ?thesis using session_local[OF _ e(2,1)] assms(1) by (simp add: session_of_def data_list_set)
next
  case (Deliver i)
  then have e: "D ! i \<in> set D" "\<not> tp_ts (D ! i) < sk_lastreset k" using assms(2) by (auto split: if_splits)
  obtain out k' where "sink_recv now (D ! i) k = Inr (out, k')" "x = (D, tp_seqno (D ! i) # R, k', A @ ack_list out, s)" using assms(2) Deliver by (auto split: if_splits)
  then show ?thesis using session_arrives[OF _ e] assms(1) by (simp add: session_of_def ack_list_set)
next
  case (Return i)
  then have e: "A ! i \<in> set A" using assms(2) by (auto split: if_splits)
  obtain out s' where "tcp_handle c now 0 (Ack (A ! i)) s = Inr (out, s')" "x = (D @ data_list out, R, k, A, s')" using assms(2) Return by (auto split: if_splits)
  then show ?thesis using session_acked[OF _ e] assms(1) by (simp add: session_of_def data_list_set)
qed

lemma conn_all_session: "session_of c x \<Longrightarrow> conn_all c now sts x = Inr y \<Longrightarrow> session_of c y"
proof (induction sts arbitrary: now x)
  case (Cons st sts)
  then obtain z where z: "conn_do c now st x = Inr z" "conn_all c (now + 1 / 10) sts z = Inr y" by auto
  obtain D R k A s where x: "x = (D, R, k, A, s)" by (cases x)
  have "session_of c z" by (rule conn_do_session) (use Cons.prems(1) z(1) x in simp_all)
  then show ?case using Cons.IH z(2) by blast
qed simp

definition ex_conn :: "tcp_class \<Rightarrow> conn_step list \<Rightarrow> conn result" where
  "ex_conn k sts = bind_r (tcp_reset (ex_tcp_conf k) 0 0 ex_tcp) (\<lambda>s. conn_all (ex_tcp_conf k) 1 sts ([], [], ex_tcp_sink, [], s))"

lemma ex_session: "ex_conn k sts = Inr (D, R, kk, A, s) \<Longrightarrow> tcp_session (ex_tcp_conf k) (set D) (set R) kk (set A) s"
proof -
  assume "ex_conn k sts = Inr (D, R, kk, A, s)"
  then obtain s0 where s0: "tcp_reset (ex_tcp_conf k) 0 0 ex_tcp = Inr s0" "conn_all (ex_tcp_conf k) 1 sts ([], [], ex_tcp_sink, [], s0) = Inr (D, R, kk, A, s)"
    by (auto simp: ex_conn_def)
  have "sink_reach (pkt_size (ex_tcp_conf k)) ex_tcp_sink {} ex_tcp_sink"
    by (rule sink_start[where n = 3 and ?s1.0 = ex_tcp_sink]) (simp_all add: ex_tcp_sink_def sacker_configure_def NSA_def)
  from session_open[OF ex_conf_ok(3) s0(1) this] have "session_of (ex_tcp_conf k) ([], [], ex_tcp_sink, [], s0)" by (simp add: session_of_def)
  from conn_all_session[OF this s0(2)] show ?thesis by (simp add: session_of_def)
qed

text \<open>The sender of a connection is one of \<^verbatim>\<open>TcpRun\<close>.\<close>

lemma session_reach:
  assumes "tcp_session c D R k A s" and "conf_ok c" and "headers_ok c"
  shows "\<exists>S. tcp_reach c S s"
  using assms(1)
proof (induction rule: tcp_session.induct)
  case (session_acked D R k A s a now u out s')
  have "tp_seqno a \<le> maxseq s" using ack_was_sent[OF session_inv[OF session_acked.hyps(1) assms(2,3)] session_acked.hyps(2)] .
  then show ?case using session_acked.IH session_acked.hyps(3) reach_event[of c _ s now "Ack a" u out s'] by auto
qed (blast intro: tcp_reach.intros)+

lemma ex_reach: "ex_conn k sts = Inr (D, R, kk, A, s) \<Longrightarrow> \<exists>S. tcp_reach (ex_tcp_conf k) S s"
  using session_reach[OF ex_session ex_conf_ok(1,2)] .

subsection \<open>Twenty packets, of which the first is sent\<close>

lemma ex_first: "case ex_conn Reno [Act (AdvanceBy 20)] of Inl _ \<Rightarrow> False | Inr (D, R, k, A, s) \<Rightarrow> maxseq s = 0 \<and> highest_ack s = -1 \<and> curseq s = 21 \<and>
    t_status (delsnd_timer s) = TIMER_IDLE \<and> t_status (burstsnd_timer s) = TIMER_IDLE \<and> sk_lastreset k = 0 \<and> tcp_lastreset s = 0 \<and> R = []"
  by code_simp


lemma ex_done: "case ex_conn Reno [Act (AdvanceBy 1), Deliver 0, Return 0, Deliver 1] of Inl _ \<Rightarrow> False
    | Inr (D, R, k, A, s) \<Rightarrow> length A = 2 \<and> curseq s = 2 \<and> R = [1, 0] \<and> (case tcp_recv (ex_tcp_conf Reno) 2 0 (A ! 1) s of Inl _ \<Rightarrow> False | Inr (out, s') \<Rightarrow> SendDone \<in> set out)"
  by code_simp


lemma ex_first_state:
  "\<exists>D k A s. ex_conn Reno [Act (AdvanceBy 20)] = Inr (D, [], k, A, s) \<and> maxseq s = 0 \<and> highest_ack s = -1 \<and> curseq s = 21 \<and>
    t_status (delsnd_timer s) = TIMER_IDLE \<and> t_status (burstsnd_timer s) = TIMER_IDLE \<and> sk_lastreset k = 0 \<and> tcp_lastreset s = 0"
  using ex_first by (auto split: sum.splits prod.splits)

lemma ex_enabled: "overhead (ex_tcp_conf k) = 0" "tc_class (ex_tcp_conf k) = k" "numdupacks (ex_tcp_conf k) = 3"
  by (simp_all add: ex_tcp_conf_def)

theorem tcp_sender_invariant_witness:
  "\<exists>S s. tcp_reach (ex_tcp_conf Reno) S s \<and> S = {0} \<and> t_status (rtx_timer s) = TIMER_PENDING"
proof -
  obtain D k A s where s: "ex_conn Reno [Act (AdvanceBy 20)] = Inr (D, [], k, A, s)" "maxseq s = 0" "highest_ack s = -1" using ex_first_state by blast
  obtain S where r: "tcp_reach (ex_tcp_conf Reno) S s" using ex_reach[OF s(1)] by blast
  from tcp_sender_invariant[OF r ex_conf_ok(1)] have "S = {0} \<and> t_status (rtx_timer s) = TIMER_PENDING" using s(2,3) by simp
  then show ?thesis using r by blast
qed

theorem tcp_sender_never_fails_witness:
  "\<exists>s out s'. tcp_handle (ex_tcp_conf Reno) 2 0 (Ack (ex_data 0)) s = Inr (out, s') \<and> highest_ack s' = 0"
proof -
  obtain D k A s where s: "ex_conn Reno [Act (AdvanceBy 20)] = Inr (D, [], k, A, s)" "maxseq s = 0" "highest_ack s = -1" "tcp_lastreset s = 0" using ex_first_state by blast
  obtain S where r: "tcp_reach (ex_tcp_conf Reno) S s" using ex_reach[OF s(1)] by blast
  have "enabled (ex_tcp_conf Reno) 2 (Ack (ex_data 0)) s" using s(2) by simp
  from tcp_sender_never_fails[OF r ex_conf_ok(1) this, of 0] show ?thesis using s(3,4) by (auto simp: ack_result_def acked_def)
qed

theorem tcp_session_safe_witness:
  "\<exists>D k A s. tcp_session (ex_tcp_conf Reno) D {} k A s \<and> tp_seqno ` D = {0}"
proof -
  obtain D k A s where s: "ex_conn Reno [Act (AdvanceBy 20)] = Inr (D, [], k, A, s)" "maxseq s = 0" using ex_first_state by blast
  note r = ex_session[OF s(1)]
  from tcp_session_safe[OF r ex_conf_ok(1,2)] have "tp_seqno ` set D = {0}" using s(2) by simp
  then show ?thesis using r by auto
qed

theorem tcp_done_delivered_witness:
  "\<exists>D R k A a s out s'. tcp_session (ex_tcp_conf Reno) D R k A s \<and> tcp_recv (ex_tcp_conf Reno) 2 0 a s = Inr (out, s') \<and> SendDone \<in> set out \<and> {0, 1} \<subseteq> R"
proof -
  obtain x where x: "ex_conn Reno [Act (AdvanceBy 1), Deliver 0, Return 0, Deliver 1] = Inr x"
    using ex_done by (cases "ex_conn Reno [Act (AdvanceBy 1), Deliver 0, Return 0, Deliver 1]") auto
  obtain D R k A s where e: "x = (D, R, k, A, s)" by (cases x)
  have d: "length A = 2" "curseq s = 2" "case tcp_recv (ex_tcp_conf Reno) 2 0 (A ! 1) s of Inl _ \<Rightarrow> False | Inr (out, s') \<Rightarrow> SendDone \<in> set out"
    using ex_done unfolding x e by simp_all
  obtain out s' where "tcp_recv (ex_tcp_conf Reno) 2 0 (A ! 1) s = Inr (out, s')" "SendDone \<in> set out"
    using d(3) by (cases "tcp_recv (ex_tcp_conf Reno) 2 0 (A ! 1) s") auto
  note s = x[unfolded e] d(1,2) this
  note r = ex_session[OF s(1)]
  have "A ! 1 \<in> set A" using s(2) by simp
  from tcp_done_delivered[OF r ex_conf_ok(1,2) this s(4,5)] have "{0..<2} \<subseteq> set R" using s(3) by simp
  then have "{0, 1} \<subseteq> set R" by auto
  then show ?thesis using r s(4,5) by blast
qed

theorem timeout_retransmits_witness:
  "\<exists>s q rest s'. RtxTimer_handle (ex_tcp_conf Reno) 5 0 s = Inr (SendData q TCP_REASON_TIMEOUT # rest, s') \<and> tp_seqno q = 0"
proof -
  obtain D k A s where s: "ex_conn Reno [Act (AdvanceBy 20)] = Inr (D, [], k, A, s)" "maxseq s = 0" "highest_ack s = -1" "curseq s = 21"
      "t_status (delsnd_timer s) = TIMER_IDLE" "t_status (burstsnd_timer s) = TIMER_IDLE" using ex_first_state by blast
  obtain S where r: "tcp_reach (ex_tcp_conf Reno) S s" using ex_reach[OF s(1)] by blast
  from timeout_retransmits[OF r ex_conf_ok(1) _ _ ex_enabled(1), of 5 0] show ?thesis using s by auto
qed


theorem tcp_session_recovers_witness:
  "\<exists>(k :: tcp_sink) s q rest s1 ack out k' out2 s2. RtxTimer_handle (ex_tcp_conf Reno) 5 0 s = Inr (SendData q TCP_REASON_TIMEOUT # rest, s1) \<and>
    sink_recv 6 q k = Inr (out @ [SendAck ack], k') \<and> tcp_recv (ex_tcp_conf Reno) 7 0 ack s1 = Inr (out2, s2) \<and> 0 \<le> highest_ack s2"
proof -
  obtain D k A s where s: "ex_conn Reno [Act (AdvanceBy 20)] = Inr (D, [], k, A, s)" "maxseq s = 0" "highest_ack s = -1" "curseq s = 21"
      "t_status (delsnd_timer s) = TIMER_IDLE" "t_status (burstsnd_timer s) = TIMER_IDLE" "sk_lastreset k = 0" "tcp_lastreset s = 0" using ex_first_state by blast
  have "\<exists>q rest s1 ack out k' out2 s2. RtxTimer_handle (ex_tcp_conf Reno) 5 0 s = Inr (SendData q TCP_REASON_TIMEOUT # rest, s1) \<and>
    sink_recv 6 q k = Inr (out @ [SendAck ack], k') \<and> tcp_recv (ex_tcp_conf Reno) 7 0 ack s1 = Inr (out2, s2) \<and> highest_ack s < highest_ack s2"
    by (rule tcp_session_recovers[OF ex_session[OF s(1)] ex_conf_ok(1,2)]) (use s ex_enabled in simp_all)
  then obtain q rest s1 ack out k' out2 s2 where w: "RtxTimer_handle (ex_tcp_conf Reno) 5 0 s = Inr (SendData q TCP_REASON_TIMEOUT # rest, s1)"
      "sink_recv 6 q k = Inr (out @ [SendAck ack], k')" "tcp_recv (ex_tcp_conf Reno) 7 0 ack s1 = Inr (out2, s2)" "highest_ack s < highest_ack s2" by blast
  have "0 \<le> highest_ack s2" using w(4) s(3) by simp
  then show ?thesis using w(1-3) by blast
qed

text \<open>When everything is acknowledged, duplicate acknowledgements make the sender send a packet
  beyond its data: packets 0 to 3 exist, 4 is sent.\<close>

lemma fast_retransmit_beyond_data:
  "bind_r (ex_conn Reno [Act (AdvanceBy 3), Deliver 0, Return 0, Deliver 1, Deliver 2, Return 2, Deliver 3, Return 3, Return 3, Return 3, Return 3]) (\<lambda>(D, R, k, A, s).
     Inr (curseq s, List.map tp_seqno D)) = Inr (4, [0, 1, 2, 3, 4])"
  by code_simp

end
