(* ===== verification/Tunnel.thy ===== *)
theory Tunnel
  imports Packet Timer
begin

text \<open>
  The tunnel between two nodes (\<^verbatim>\<open>apps/clb_tunnel.cc\<close>, \<^verbatim>\<open>apps/clb_tunnel.h\<close>).  The sender
  numbers the packets and adds to each generation of \<^verbatim>\<open>K\<close> packets \<^verbatim>\<open>P\<close> parity packets, each
  of which carries copies of the whole generation; the receiver orders the packets and
  recovers the missing ones of a generation as soon as any \<^verbatim>\<open>K\<close> of its \<^verbatim>\<open>K + P\<close> packets are
  there.  With \<^verbatim>\<open>P = 0\<close> it only orders.

  The counters of virtual paths (\<^verbatim>\<open>VPCost\<close> and so on) are left out: the code that uses them
  is commented out or follows \<^verbatim>\<open>return\<close> in \<^verbatim>\<open>setVP\<close>, which draws a path at random.
\<close>

subsection \<open>Packets\<close>

record tun_hdr = packet +
  ptype_DV :: bool
  genIndex :: int
  ifParity :: int
  genID :: int
  headGenIndex :: int
  ParityIndex :: int
  blockSize :: int

datatype tpacket = Pkt (hdr: tun_hdr) (formerCLBPackets: "tpacket list")

definition set_hdr :: "(tun_hdr \<Rightarrow> tun_hdr) \<Rightarrow> tpacket \<Rightarrow> tpacket" where
  "set_hdr f p = Pkt (f (hdr p)) (formerCLBPackets p)"

text \<open>\<^verbatim>\<open>Packet::copy\<close> copies the header; the new packet has no former packets.\<close>

definition pkt_copy :: "tpacket \<Rightarrow> tpacket" where
  "pkt_copy p = Pkt (hdr p) []"

text \<open>A packet leaves the agent by a call of \<^verbatim>\<open>targetRecv\<close>, or it is freed.\<close>

datatype tun_effect = HandOver tpacket | Freed tpacket

fun handed :: "tun_effect list \<Rightarrow> tpacket list" where
  "handed [] = []"
| "handed (HandOver p # out) = p # handed out"
| "handed (Freed p # out) = handed out"

subsection \<open>Numbers of packets\<close>

definition MAX_PACKETS_COUNT :: int where
  "MAX_PACKETS_COUNT = 65536"

definition MAX_GENERATION :: int where
  "MAX_GENERATION = 65536"

definition ReorderGenNumber :: int where
  "ReorderGenNumber = 3"

text \<open>The distance from index \<^verbatim>\<open>b\<close> to index \<^verbatim>\<open>a\<close>, as the code writes it everywhere.\<close>

definition ahead :: "int \<Rightarrow> int \<Rightarrow> int" where
  "ahead a b = (a - b + MAX_PACKETS_COUNT) smod MAX_PACKETS_COUNT"

subsection \<open>The agent\<close>

record parity_buffer =
  pb_buffer :: "tpacket option list"
  pb_ifUpdated :: int
  pb_genID :: int
  pb_count :: int
  pb_blockSize :: int
  pb_headIndex :: int
  pb_last :: int

record tunnel =
  BlockSize_N :: int
  BlockSize_MaxP :: int
  BlockSize_MaxK :: int
  BlockSize_K :: int
  tun_flowID :: int
  currentGenID :: int
  currentGenIndex :: int
  currentGeneratedParityNumber :: int
  codingRateBlockSize :: rat
  eb_buffer :: "tpacket option list"
  eb_head :: int
  eb_tail :: int
  eb_length :: int
  eb_capacity :: int
  expectHandOverGenIndex :: int
  headReorderBuffer :: int
  rb_buffer :: "tpacket option list"
  rb_head :: int
  rb_count :: int
  rb_capacity :: int
  rb_headIndex :: int
  packetsUnHanded :: int
  packetsCountInParityBuffer :: int
  parityBuffer :: "parity_buffer list"
  decodeTimer :: timer
  encodeTimer :: timer

definition new_parity_buffer :: "int \<Rightarrow> int \<Rightarrow> int \<Rightarrow> parity_buffer" where
  "new_parity_buffer k p i = \<lparr> pb_buffer = replicate (nat p) None, pb_ifUpdated = 0, pb_genID = i, pb_count = 0,
     pb_blockSize = k, pb_headIndex = i, pb_last = i + k \<rparr>"

text \<open>The constructor and \<^verbatim>\<open>initCLBTunnel\<close>.  A negative number of elements makes \<^verbatim>\<open>new\<close> throw.\<close>

definition new_CLBTunnel :: "int \<Rightarrow> int \<Rightarrow> tunnel result" where
  "new_CLBTunnel n p =
    (if p < 0 \<or> n - p < 0 then Inl Abort
     else Inr \<lparr> BlockSize_N = n, BlockSize_MaxP = p, BlockSize_MaxK = n - p, BlockSize_K = n - p, tun_flowID = 0,
       currentGenID = 0, currentGenIndex = 0, currentGeneratedParityNumber = 0, codingRateBlockSize = of_int (n - p),
       eb_buffer = replicate (nat (n - p)) None, eb_head = 0, eb_tail = 0, eb_length = 0, eb_capacity = n - p,
       expectHandOverGenIndex = 0, headReorderBuffer = 0,
       rb_buffer = replicate (nat (ReorderGenNumber * (n - p))) None, rb_head = 0, rb_count = 0,
       rb_capacity = ReorderGenNumber * (n - p), rb_headIndex = 0,
       packetsUnHanded = 0, packetsCountInParityBuffer = 0,
       parityBuffer = List.map (new_parity_buffer (n - p) p) [0, 1, 2],
       decodeTimer = timer_new, encodeTimer = timer_new \<rparr>)"

definition ENCODE_TIMER_LENGTH :: rat where
  "ENCODE_TIMER_LENGTH = 8 / 100000"

definition DECODE_TIMER_LENGTH :: "tunnel \<Rightarrow> rat" where
  "DECODE_TIMER_LENGTH t = of_int (BlockSize_MaxP t + 1) * ENCODE_TIMER_LENGTH"

subsection \<open>Sending\<close>

text \<open>\<^verbatim>\<open>r\<close> is the value of \<^verbatim>\<open>rand()\<close>.\<close>

definition setVP :: "nat \<Rightarrow> int" where
  "setVP r = int (r mod 65536)"

definition setPacket :: "nat \<Rightarrow> tpacket \<Rightarrow> int \<Rightarrow> tunnel \<Rightarrow> tpacket \<times> tunnel" where
  "setPacket r p par t =
    (set_hdr (\<lambda>h. h\<lparr>ifTunnel := 1, vPath := setVP r, genIndex := currentGenIndex t, ifParity := par\<rparr>) p,
     if par = 0 then t\<lparr>currentGenIndex := (currentGenIndex t + 1) smod MAX_PACKETS_COUNT\<rparr> else t)"

fun gather :: "nat \<Rightarrow> int \<Rightarrow> tpacket option list \<Rightarrow> int \<Rightarrow> tpacket list result" where
  "gather 0 pos buf cap = Inr []"
| "gather (Suc n) pos buf cap =
    bind_r (c_rem (pos + cap) cap) (\<lambda>i. bind_r (arr_at i buf) (\<lambda>x. bind_r (deref x) (\<lambda>p.
      bind_r (gather n (pos + 1) buf cap) (\<lambda>ps. Inr (pkt_copy p # ps)))))"

definition createParityPackets :: "nat \<Rightarrow> tunnel \<Rightarrow> (tun_effect list \<times> tunnel) result" where
  "createParityPackets r t0 =
    (let t = t0\<lparr>BlockSize_K := eb_length t0\<rparr>; k = eb_length t in
     if k \<le> 0 \<or> k > eb_capacity t then Inl Exit
     else bind_r (c_rem (eb_tail t - 1 + eb_capacity t) (eb_capacity t)) (\<lambda>i.
       bind_r (arr_at i (eb_buffer t)) (\<lambda>x. bind_r (deref x) (\<lambda>lastp.
       bind_r (gather (nat k) (eb_head t) (eb_buffer t) (eb_capacity t)) (\<lambda>ps.
       bind_r (arr_at (eb_head t) (eb_buffer t)) (\<lambda>y. bind_r (deref y) (\<lambda>headp.
         (let (q, t1) = setPacket r (Pkt (hdr lastp) ps) 1 t;
              q' = set_hdr (\<lambda>h. h\<lparr>genID := currentGenID t1, headGenIndex := genIndex (hdr headp),
                      ParityIndex := currentGeneratedParityNumber t1, blockSize := k\<rparr>) q;
              t2 = t1\<lparr>currentGeneratedParityNumber := currentGeneratedParityNumber t1 + 1\<rparr>
          in if currentGeneratedParityNumber t2 > BlockSize_MaxP t2 then Inl Exit
             else Inr ([HandOver q'], t2)))))))))"

fun parity_loop :: "nat \<Rightarrow> (nat \<Rightarrow> nat) \<Rightarrow> tunnel \<Rightarrow> (tun_effect list \<times> tunnel) result" where
  "parity_loop 0 rnd t = Inr ([], t)"
| "parity_loop (Suc n) rnd t =
    bind_r (createParityPackets (rnd 0) t) (\<lambda>(out, t1).
    bind_r (parity_loop n (\<lambda>i. rnd (Suc i)) t1) (\<lambda>(out', t2). Inr (out @ out', t2)))"

text \<open>The end of a generation: the buffer is emptied (the copies in it are not freed).\<close>

definition end_generation :: "tunnel \<Rightarrow> tunnel" where
  "end_generation t = t\<lparr>eb_head := 0, eb_tail := 0, eb_length := 0,
     eb_buffer := replicate (nat (BlockSize_K t)) None @ drop (nat (BlockSize_K t)) (eb_buffer t),
     currentGeneratedParityNumber := 0, currentGenID := (currentGenID t + 1) smod MAX_GENERATION\<rparr>"

definition encode :: "(nat \<Rightarrow> nat) \<Rightarrow> tpacket \<Rightarrow> tunnel \<Rightarrow> (tun_effect list \<times> tunnel) result" where
  "encode rnd p t =
    (case setPacket (rnd 0) p 0 t of (p1, t1) \<Rightarrow>
      bind_r (arr_put (eb_tail t1) (Some (pkt_copy p1)) (eb_buffer t1)) (\<lambda>buf.
      bind_r (c_rem (eb_tail t1 + 1) (eb_capacity t1)) (\<lambda>tl.
        (let t2 = t1\<lparr>eb_buffer := buf, eb_tail := tl, eb_length := eb_length t1 + 1\<rparr> in
         if eb_length t2 > eb_capacity t2 \<or> eb_length t2 \<le> 0 then Inl Exit
         else if of_int (eb_length t2) \<ge> codingRateBlockSize t2
         then bind_r (parity_loop (nat (BlockSize_MaxP t2)) (\<lambda>i. rnd (Suc i)) t2) (\<lambda>(out, t3).
                Inr (HandOver p1 # out, end_generation t3))
         else Inr ([HandOver p1], t2)))))"

text \<open>The encode timer, which no code starts.\<close>

definition encodeTimeout :: "rat \<Rightarrow> nat \<Rightarrow> tunnel \<Rightarrow> (tun_effect list \<times> tunnel) result" where
  "encodeTimeout now r t =
    (if currentGeneratedParityNumber t < BlockSize_MaxP t
     then createParityPackets r (t\<lparr>encodeTimer := timer_resched now ENCODE_TIMER_LENGTH (encodeTimer t)\<rparr>)
     else bind_r (arr_at (eb_head t) (eb_buffer t)) (\<lambda>x.
       case x of None \<Rightarrow> Inr ([], t)
       | Some p \<Rightarrow> bind_r (arr_put (eb_head t) None (eb_buffer t)) (\<lambda>buf.
           bind_r (c_rem (eb_head t + 1) (eb_capacity t)) (\<lambda>hd.
             Inr ([Freed p], t\<lparr>eb_buffer := buf, eb_length := eb_length t - 1, eb_head := hd,
               encodeTimer := timer_resched now ENCODE_TIMER_LENGTH (encodeTimer t)\<rparr>)))))"

subsection \<open>Receiving\<close>

definition upd_pb :: "int \<Rightarrow> (parity_buffer \<Rightarrow> parity_buffer) \<Rightarrow> tunnel \<Rightarrow> tunnel result" where
  "upd_pb i f t = bind_r (arr_at i (parityBuffer t)) (\<lambda>b.
     Inr (t\<lparr>parityBuffer := (parityBuffer t)[nat i := f b]\<rparr>))"

text \<open>\<^verbatim>\<open>countPacketsInGen\<close> counts the occupied slots of the generation.\<close>

fun count_slots :: "nat \<Rightarrow> int \<Rightarrow> tunnel \<Rightarrow> int result" where
  "count_slots 0 start t = Inr 0"
| "count_slots (Suc n) start t =
    bind_r (c_rem start (rb_capacity t)) (\<lambda>k. bind_r (arr_at k (rb_buffer t)) (\<lambda>x.
    bind_r (count_slots n (start + 1) t) (\<lambda>c. Inr (c + (if x = None then 0 else 1)))))"

definition countPacketsInGen :: "int \<Rightarrow> tunnel \<Rightarrow> tunnel result" where
  "countPacketsInGen i t = bind_r (arr_at i (parityBuffer t)) (\<lambda>b.
     if pb_ifUpdated b = 0 then Inl Exit
     else bind_r (c_rem (rb_head t + ahead (pb_headIndex b) (rb_headIndex t)) (rb_capacity t)) (\<lambda>start.
       bind_r (count_slots (nat (pb_blockSize b)) start t) (\<lambda>c. upd_pb i (\<lambda>b. b\<lparr>pb_count := c\<rparr>) t)))"

text \<open>\<^verbatim>\<open>resetParityBuffer\<close> frees the parity packets of all generations and renumbers these.\<close>

definition some_count :: "'a option list \<Rightarrow> int" where
  "some_count xs = int (length (filter (\<lambda>x. x \<noteq> None) xs))"

definition free_all :: "tpacket option list \<Rightarrow> tun_effect list" where
  "free_all xs = concat (List.map (\<lambda>x. case x of None \<Rightarrow> [] | Some p \<Rightarrow> [Freed p]) xs)"

definition empty_pb :: "int \<Rightarrow> int \<Rightarrow> tunnel \<Rightarrow> (tun_effect list \<times> tunnel) result" where
  "empty_pb i gen t = bind_r (arr_at i (parityBuffer t)) (\<lambda>b.
     let held = (if pb_ifUpdated b \<noteq> 0 then pb_buffer b else []) in
     bind_r (upd_pb i (\<lambda>b. b\<lparr>pb_buffer := (if pb_ifUpdated b \<noteq> 0 then List.map (\<lambda>_. None) (pb_buffer b) else pb_buffer b),
         pb_ifUpdated := 0, pb_count := 0, pb_blockSize := BlockSize_N t - BlockSize_MaxP t, pb_genID := gen\<rparr>) t) (\<lambda>t'.
       Inr (free_all held, t'\<lparr>packetsCountInParityBuffer := packetsCountInParityBuffer t - some_count held\<rparr>)))"

fun reset_pbs :: "nat \<Rightarrow> int \<Rightarrow> int \<Rightarrow> tunnel \<Rightarrow> (tun_effect list \<times> tunnel) result" where
  "reset_pbs 0 j gen t = Inr ([], t)"
| "reset_pbs (Suc n) j gen t =
    bind_r (empty_pb ((headReorderBuffer t + j) smod ReorderGenNumber) ((gen + j) smod MAX_GENERATION) t) (\<lambda>(out, t1).
    bind_r (reset_pbs n (j + 1) gen t1) (\<lambda>(out', t2). Inr (out @ out', t2)))"

definition resetParityBuffer :: "int \<Rightarrow> tunnel \<Rightarrow> (tun_effect list \<times> tunnel) result" where
  "resetParityBuffer headGen t =
    bind_r (arr_at ((headReorderBuffer t + ReorderGenNumber - 1) smod ReorderGenNumber) (parityBuffer t)) (\<lambda>tl.
      if ahead (pb_genID tl) headGen < MAX_GENERATION div 2 then Inl Exit
      else reset_pbs (nat ReorderGenNumber) 0 headGen t)"

text \<open>\<^verbatim>\<open>updateParityBuffInfo\<close> guesses the extent of the generations without parity packets
  from a neighbour: backwards to the head, then forwards to the tail.\<close>

fun update_back :: "nat \<Rightarrow> int \<Rightarrow> int \<Rightarrow> tunnel \<Rightarrow> tunnel result" where
  "update_back 0 i base t = Inr t"
| "update_back (Suc n) i base t =
    (let b = (base - i + ReorderGenNumber) smod ReorderGenNumber in
     bind_r (arr_at b (parityBuffer t)) (\<lambda>x. bind_r (arr_at base (parityBuffer t)) (\<lambda>y.
       if pb_ifUpdated x \<noteq> 0 then Inr t
       else bind_r (upd_pb b (\<lambda>x.
              (let last = ahead (pb_last y) i; hd = ahead (pb_headIndex y) i in
               x\<lparr>pb_last := last, pb_headIndex := hd, pb_blockSize := ahead last hd\<rparr>)) t) (\<lambda>t'.
            if b = headReorderBuffer t then Inr t' else update_back n (i + 1) base t'))))"

fun update_forth :: "nat \<Rightarrow> int \<Rightarrow> int \<Rightarrow> tunnel \<Rightarrow> tunnel result" where
  "update_forth 0 i base t = Inr t"
| "update_forth (Suc n) i base t =
    (let b = (i + base) smod ReorderGenNumber; former = (i + base - 1 + ReorderGenNumber) smod ReorderGenNumber in
     if b = headReorderBuffer t then Inr t
     else bind_r (arr_at b (parityBuffer t)) (\<lambda>x. bind_r (arr_at former (parityBuffer t)) (\<lambda>y.
       if pb_ifUpdated x \<noteq> 0 then Inr t
       else bind_r (upd_pb b (\<lambda>x.
              (let hd = (pb_headIndex y + 1) smod MAX_PACKETS_COUNT in
               x\<lparr>pb_headIndex := hd, pb_last := (hd + BlockSize_MaxK t - 1) smod MAX_PACKETS_COUNT\<rparr>)) t)
            (update_forth n (i + 1) base))))"

definition updateParityBuffInfo :: "int \<Rightarrow> tunnel \<Rightarrow> tunnel result" where
  "updateParityBuffInfo base t =
    bind_r (if base \<noteq> headReorderBuffer t then update_back (nat (ReorderGenNumber - 1)) 1 base t else Inr t) (\<lambda>t'.
      if base \<noteq> (headReorderBuffer t' + ReorderGenNumber - 1) smod ReorderGenNumber
      then update_forth (nat (ReorderGenNumber - 1)) 1 base t' else Inr t')"

definition clearParityBuffer :: "int \<Rightarrow> tunnel \<Rightarrow> (tun_effect list \<times> tunnel) result" where
  "clearParityBuffer i t =
    (if i \<noteq> headReorderBuffer t then Inl Exit
     else bind_r (arr_at i (parityBuffer t)) (\<lambda>b.
       bind_r (empty_pb i ((pb_genID b + ReorderGenNumber) smod MAX_GENERATION) t) (\<lambda>(out, t1).
       bind_r (updateParityBuffInfo ((i - 1 + ReorderGenNumber) smod ReorderGenNumber)
                 (t1\<lparr>headReorderBuffer := (headReorderBuffer t1 + 1) smod ReorderGenNumber\<rparr>)) (\<lambda>t2.
       Inr (out, t2)))))"

text \<open>\<^verbatim>\<open>insertReorderBuffer\<close>: an original packet.  \<^verbatim>\<open>count_in\<close> counts it in the generations
  whose extent is known.\<close>

definition insert_slot :: "tpacket \<Rightarrow> tunnel \<Rightarrow> int result" where
  "insert_slot p t = c_rem ((rb_head t + genIndex (hdr p) - rb_headIndex t + MAX_PACKETS_COUNT) smod MAX_PACKETS_COUNT) (rb_capacity t)"

fun count_in :: "nat \<Rightarrow> int \<Rightarrow> int \<Rightarrow> tunnel \<Rightarrow> tunnel result" where
  "count_in 0 k g t = Inr t"
| "count_in (Suc n) k g t =
    (let i = (headReorderBuffer t + k) smod ReorderGenNumber in
     bind_r (arr_at i (parityBuffer t)) (\<lambda>b.
     bind_r (if pb_ifUpdated b \<noteq> 0 \<and> ahead g (pb_headIndex b) < MAX_PACKETS_COUNT div 2 \<and>
                ahead (pb_last b) g < MAX_PACKETS_COUNT div 2
             then upd_pb i (\<lambda>b. b\<lparr>pb_count := pb_count b + 1\<rparr>) t else Inr t)
       (count_in n (k + 1) g)))"

definition count_original :: "int \<Rightarrow> tunnel \<Rightarrow> tunnel result" where
  "count_original g t =
    bind_r (arr_at (headReorderBuffer t) (parityBuffer t)) (\<lambda>b.
      if ahead g (pb_headIndex b) < MAX_PACKETS_COUNT div 2
      then bind_r (if pb_ifUpdated b = 1 \<and> ahead (pb_last b) g < MAX_PACKETS_COUNT div 2
                   then upd_pb (headReorderBuffer t) (\<lambda>b. b\<lparr>pb_count := pb_count b + 1\<rparr>) t else Inr t) (\<lambda>t'.
             if packetsCountInParityBuffer t' \<noteq> 0 then count_in (nat (ReorderGenNumber - 1)) 1 g t' else Inr t')
      else Inr t)"

definition insert_original :: "tpacket \<Rightarrow> tunnel \<Rightarrow> (tun_effect list \<times> tunnel) result" where
  "insert_original p t =
    (let g = genIndex (hdr p) in
     if ahead g (expectHandOverGenIndex t) > MAX_GENERATION div 2 then Inr ([HandOver p], t)
     else if ahead g (rb_headIndex t) \<ge> rb_capacity t then Inl Exit
     else bind_r (insert_slot p t) (\<lambda>i. bind_r (arr_at i (rb_buffer t)) (\<lambda>x.
       case x of
         Some q \<Rightarrow> if ifParity (hdr q) \<noteq> -1 then Inl Exit else Inr ([Freed p], t)
       | None \<Rightarrow> bind_r (arr_put i (Some p) (rb_buffer t)) (\<lambda>buf.
           (let t1 = t\<lparr>rb_buffer := buf, rb_count := rb_count t + 1, packetsUnHanded := packetsUnHanded t + 1\<rparr> in
            if BlockSize_MaxP t1 = 0 then Inr ([], t1)
            else bind_r (count_original g t1) (\<lambda>t2. Inr ([], t2)))))))"

text \<open>A parity packet goes to the buffer of its generation; the first one tells the extent.\<close>

definition insert_parity :: "tpacket \<Rightarrow> tunnel \<Rightarrow> (tun_effect list \<times> tunnel) result" where
  "insert_parity p t =
    (let h = hdr p; last = (headGenIndex h + blockSize h - 1) smod MAX_PACKETS_COUNT in
     bind_r (arr_at (headReorderBuffer t) (parityBuffer t)) (\<lambda>hb.
     if (genID h - pb_genID hb + MAX_GENERATION) smod MAX_GENERATION > MAX_GENERATION div 2 then Inr ([Freed p], t)
     else if ahead last (expectHandOverGenIndex t) > MAX_PACKETS_COUNT div 2 then Inr ([Freed p], t)
     else (let w = ((genID h - pb_genID hb + MAX_GENERATION) smod MAX_GENERATION + headReorderBuffer t) smod ReorderGenNumber in
       if w < 0 \<or> w \<ge> ReorderGenNumber then Inl Exit
       else bind_r (arr_at w (parityBuffer t)) (\<lambda>wb.
         bind_r (if genID h \<noteq> pb_genID wb then resetParityBuffer (genID h) (t\<lparr>headReorderBuffer := w\<rparr>) else Inr ([], t)) (\<lambda>(out, t1).
         bind_r (arr_at w (parityBuffer t1)) (\<lambda>b. bind_r (arr_at (ParityIndex h) (pb_buffer b)) (\<lambda>x.
           if x \<noteq> None then Inl Exit
           else bind_r (upd_pb w (\<lambda>b. b\<lparr>pb_buffer := (pb_buffer b)[nat (ParityIndex h) := Some p]\<rparr>)
                  (t1\<lparr>packetsCountInParityBuffer := packetsCountInParityBuffer t1 + 1\<rparr>)) (\<lambda>t2.
             bind_r (if pb_ifUpdated b = 0
                     then bind_r (upd_pb w (\<lambda>b. b\<lparr>pb_ifUpdated := 1, pb_headIndex := headGenIndex h, pb_blockSize := blockSize h,
                                     pb_last := last\<rparr>) t2) (countPacketsInGen w)
                     else Inr t2) (\<lambda>t3.
             bind_r (upd_pb w (\<lambda>b. b\<lparr>pb_count := pb_count b + 1\<rparr>) t3) (\<lambda>t4. Inr (out, t4)))))))))))"

definition insertReorderBuffer :: "tpacket \<Rightarrow> tunnel \<Rightarrow> (tun_effect list \<times> tunnel) result" where
  "insertReorderBuffer p t = (if ifParity (hdr p) = 0 then insert_original p t else insert_parity p t)"

text \<open>\<^verbatim>\<open>decodeReorderBuffer\<close>: a generation with enough packets has its missing ones restored
  from the last of its parity packets, marked by \<^verbatim>\<open>ifParity = -1\<close>.\<close>

fun last_some :: "'a option list \<Rightarrow> 'a option" where
  "last_some [] = None"
| "last_some (x # xs) = (case last_some xs of None \<Rightarrow> x | Some y \<Rightarrow> Some y)"

fun recover :: "nat \<Rightarrow> int \<Rightarrow> parity_buffer \<Rightarrow> tpacket \<Rightarrow> tunnel \<Rightarrow> tunnel result" where
  "recover 0 i b q t = Inr t"
| "recover (Suc n) i b q t =
    bind_r (c_rem (i + ahead (pb_headIndex b) (rb_headIndex t) + rb_head t) (rb_capacity t)) (\<lambda>pos.
    bind_r (arr_at pos (rb_buffer t)) (\<lambda>x.
      bind_r (if x = None
              then bind_r (arr_at i (formerCLBPackets q)) (\<lambda>f.
                Inr (t\<lparr>rb_buffer := (rb_buffer t)[nat pos := Some (set_hdr (\<lambda>h. h\<lparr>ifParity := -1\<rparr>) (pkt_copy f))],
                  rb_count := rb_count t + 1, packetsUnHanded := packetsUnHanded t + 1\<rparr>))
              else Inr t)
        (recover n (i + 1) b q)))"

fun decode_gens :: "nat \<Rightarrow> int \<Rightarrow> tunnel \<Rightarrow> tunnel result" where
  "decode_gens 0 p t = Inr t"
| "decode_gens (Suc n) p t =
    bind_r (arr_at ((p + headReorderBuffer t) smod ReorderGenNumber) (parityBuffer t)) (\<lambda>b.
      if pb_count b < 0 then Inl Exit
      else if pb_count b = 0 \<or> pb_count b < pb_blockSize b \<or> pb_ifUpdated b = 0 then decode_gens n (p + 1) t
      else (case last_some (pb_buffer b) of
          None \<Rightarrow> if pb_count b \<noteq> BlockSize_MaxK t then Inl Exit else Inr t
        | Some q \<Rightarrow> bind_r (recover (nat (pb_blockSize b)) 0 b q t) (decode_gens n (p + 1))))"

definition decodeReorderBuffer :: "tunnel \<Rightarrow> tunnel result" where
  "decodeReorderBuffer t = (if packetsCountInParityBuffer t = 0 then Inr t else decode_gens (nat ReorderGenNumber) 0 t)"

text \<open>\<^verbatim>\<open>handOverAndClearBeforeIndex\<close>: the window moves past the packets that were handed over.\<close>

definition clear_head :: "tpacket option \<Rightarrow> tunnel \<Rightarrow> tun_effect list \<times> tunnel" where
  "clear_head x t = (case x of None \<Rightarrow> ([], t)
     | Some q \<Rightarrow>
         ((if genIndex (hdr q) = expectHandOverGenIndex t then [HandOver (pkt_copy q)] else [Freed (pkt_copy q)]) @ [Freed q],
          t\<lparr>packetsUnHanded := packetsUnHanded t - (if genIndex (hdr q) = expectHandOverGenIndex t then 1 else 0),
            rb_buffer := (rb_buffer t)[nat (rb_head t) := None], rb_count := rb_count t - 1\<rparr>))"

fun clear_before :: "nat \<Rightarrow> tunnel \<Rightarrow> (tun_effect list \<times> tunnel) result" where
  "clear_before 0 t = Inr ([], t)"
| "clear_before (Suc n) t =
    bind_r (arr_at (rb_head t) (rb_buffer t)) (\<lambda>x.
      (case clear_head x t of (out, t1) \<Rightarrow>
          bind_r (c_rem (rb_head t1 + 1) (rb_capacity t1)) (\<lambda>hd.
            bind_r (clear_before n (t1\<lparr>expectHandOverGenIndex := (expectHandOverGenIndex t1 + 1) smod MAX_PACKETS_COUNT,
                rb_headIndex := (rb_headIndex t1 + 1) smod MAX_PACKETS_COUNT, rb_head := hd\<rparr>)) (\<lambda>(out', t2).
              Inr (out @ out', t2)))))"

definition handOverAndClearBeforeIndex :: "int \<Rightarrow> tunnel \<Rightarrow> (tun_effect list \<times> tunnel) result" where
  "handOverAndClearBeforeIndex g t =
    (let n = ahead g (rb_headIndex t) in
     if n > rb_capacity t then Inl Exit else clear_before (nat n) t)"

text \<open>\<^verbatim>\<open>checkReorderBuffer\<close> hands over the packets in sequence from the expected one.  Without
  parity packets it frees each one; otherwise it keeps them until their generation is
  complete, since they may help to recover others.\<close>

definition expect_pos :: "tunnel \<Rightarrow> int result" where
  "expect_pos t = c_rem ((expectHandOverGenIndex t - rb_headIndex t + rb_head t + MAX_PACKETS_COUNT) smod MAX_PACKETS_COUNT) (rb_capacity t)"

definition after_hand :: "int \<Rightarrow> tpacket \<Rightarrow> tunnel \<Rightarrow> (tun_effect list \<times> tunnel) result" where
  "after_hand i q t =
    (if BlockSize_MaxP t = 0
     then bind_r (c_rem (rb_head t + 1) (rb_capacity t)) (\<lambda>hd.
       Inr ([Freed q], t\<lparr>rb_buffer := (rb_buffer t)[nat i := None], rb_count := rb_count t - 1, rb_head := hd,
         rb_headIndex := (rb_headIndex t + 1) smod MAX_PACKETS_COUNT\<rparr>))
     else bind_r (arr_at (headReorderBuffer t) (parityBuffer t)) (\<lambda>b.
       if ahead (expectHandOverGenIndex t) (rb_headIndex t) \<ge> pb_blockSize b \<and> packetsCountInParityBuffer t \<noteq> 0
       then bind_r (clearParityBuffer (headReorderBuffer t) t) (\<lambda>(out, t1).
              bind_r (handOverAndClearBeforeIndex (expectHandOverGenIndex t1) t1) (\<lambda>(out', t2). Inr (out @ out', t2)))
       else Inr ([], t)))"

subsection \<open>The recursion of checkReorderBuffer ends\<close>

text \<open>Operations on the parity buffers leave the rest of the agent alone.\<close>

definition pb_only :: "tunnel \<Rightarrow> tunnel \<Rightarrow> bool" where
  "pb_only t t' \<longleftrightarrow> (\<exists>bs. t' = t\<lparr>parityBuffer := bs\<rparr> \<and> length bs = length (parityBuffer t))"

lemma pb_only_refl [simp, intro]: "pb_only t t"
  by (auto simp: pb_only_def intro: exI[of _ "parityBuffer t"])

lemma pb_only_trans [trans]: "pb_only t t' \<Longrightarrow> pb_only t' t'' \<Longrightarrow> pb_only t t''"
  by (auto simp: pb_only_def)

lemma pb_only_upd_pb: "upd_pb i f t = Inr t' \<Longrightarrow> pb_only t t'"
  by (auto simp: upd_pb_def pb_only_def)

lemma pb_only_fields:
  assumes "pb_only t t'"
  shows "packetsUnHanded t' = packetsUnHanded t" and "headReorderBuffer t' = headReorderBuffer t"
    and "length (parityBuffer t') = length (parityBuffer t)"
  using assms by (auto simp: pb_only_def)

lemma pb_only_update_back: "update_back n i base t = Inr t' \<Longrightarrow> pb_only t t'"
proof (induction n arbitrary: i t)
  case (Suc n)
  then show ?case
    by (fastforce simp: Let_def split: if_splits dest: pb_only_upd_pb intro: pb_only_trans)
qed auto

lemma pb_only_update_forth: "update_forth n i base t = Inr t' \<Longrightarrow> pb_only t t'"
proof (induction n arbitrary: i t)
  case (Suc n)
  then show ?case
    by (fastforce simp: Let_def split: if_splits dest: pb_only_upd_pb intro: pb_only_trans)
qed auto

lemma pb_only_updateParityBuffInfo: "updateParityBuffInfo base t = Inr t' \<Longrightarrow> pb_only t t'"
  unfolding updateParityBuffInfo_def
  by (auto split: if_splits dest!: pb_only_update_back pb_only_update_forth intro: pb_only_trans)

lemma clearParityBuffer_unhanded: "clearParityBuffer i t = Inr (out, t') \<Longrightarrow> packetsUnHanded t' = packetsUnHanded t"
  by (auto simp: clearParityBuffer_def empty_pb_def Let_def split: if_splits
      dest!: pb_only_updateParityBuffInfo pb_only_upd_pb pb_only_fields(1))

lemma clear_head_unhanded: "clear_head x t = (out, t') \<Longrightarrow> packetsUnHanded t' \<le> packetsUnHanded t"
  by (auto simp: clear_head_def split: option.splits)

lemma clear_before_unhanded: "clear_before n t = Inr (out, t') \<Longrightarrow> packetsUnHanded t' \<le> packetsUnHanded t"
proof (induction n arbitrary: t out)
  case (Suc n)
  obtain x where x: "arr_at (rb_head t) (rb_buffer t) = Inr x" using Suc.prems by auto
  obtain o1 t1 where c: "clear_head x t = (o1, t1)" by fastforce
  obtain hd o2 where h: "clear_before n (t1\<lparr>expectHandOverGenIndex := (expectHandOverGenIndex t1 + 1) smod MAX_PACKETS_COUNT,
      rb_headIndex := (rb_headIndex t1 + 1) smod MAX_PACKETS_COUNT, rb_head := hd\<rparr>) = Inr (o2, t')"
    using Suc.prems x c by auto
  show ?case using Suc.IH[OF h] clear_head_unhanded[OF c] by simp
qed auto

lemma after_hand_unhanded: "after_hand i q t = Inr (out, t') \<Longrightarrow> packetsUnHanded t' \<le> packetsUnHanded t"
  unfolding after_hand_def
  by (auto simp: handOverAndClearBeforeIndex_def Let_def split: if_splits
      dest!: clearParityBuffer_unhanded clear_before_unhanded)

function checkReorderBuffer :: "rat \<Rightarrow> tunnel \<Rightarrow> (tun_effect list \<times> tunnel) result" where
  "checkReorderBuffer now t =
    (if packetsUnHanded t < 0 then Inl Exit
     else if packetsUnHanded t = 0 then
       (if t_status (decodeTimer t) = TIMER_PENDING
        then bind_r (timer_cancel (decodeTimer t)) (\<lambda>tm. Inr ([], t\<lparr>decodeTimer := tm\<rparr>)) else Inr ([], t))
     else bind_r (expect_pos t) (\<lambda>i.
       if i < 0 \<or> i \<ge> rb_capacity t then Inl Exit
       else bind_r (arr_at i (rb_buffer t)) (\<lambda>x. case x of
         None \<Rightarrow> Inr ([], t\<lparr>decodeTimer := timer_resched now
             (if BlockSize_MaxP t = 0 then 2 * ENCODE_TIMER_LENGTH else DECODE_TIMER_LENGTH t) (decodeTimer t)\<rparr>)
       | Some q \<Rightarrow>
           if ifParity (hdr q) \<noteq> 0 \<and> ifParity (hdr q) \<noteq> -1 then Inl Exit
           else bind_r (after_hand i q (t\<lparr>packetsUnHanded := packetsUnHanded t - 1,
                    expectHandOverGenIndex := (expectHandOverGenIndex t + 1) smod MAX_PACKETS_COUNT\<rparr>)) (\<lambda>r.
                bind_r (checkReorderBuffer now (snd r)) (\<lambda>(out', t2). Inr (HandOver (pkt_copy q) # fst r @ out', t2))))))"
  by auto
termination
proof (relation "measure (\<lambda>(now, t). nat (packetsUnHanded t))", goal_cases)
  case (2 now t i x q r)
  then show ?case using after_hand_unhanded[of i q _ "fst r" "snd r"] by fastforce
qed simp

declare checkReorderBuffer.simps [simp del]

definition decode :: "rat \<Rightarrow> tpacket \<Rightarrow> tunnel \<Rightarrow> (tun_effect list \<times> tunnel) result" where
  "decode now p t =
    bind_r (insertReorderBuffer (set_hdr (\<lambda>h. h\<lparr>ifTunnel := 0\<rparr>) p) t) (\<lambda>(out, t1).
    bind_r (if BlockSize_MaxP t1 > 0 then decodeReorderBuffer t1 else Inr t1) (\<lambda>t2.
    bind_r (checkReorderBuffer now t2) (\<lambda>(out', t3). Inr (out @ out', t3))))"

text \<open>\<^verbatim>\<open>decodeTimeout\<close>.  Without parity packets it gives up the packets that are missing, at most
  one generation of them.\<close>

fun skip_loop :: "nat \<Rightarrow> rat \<Rightarrow> tunnel \<Rightarrow> (tun_effect list \<times> tunnel) result" where
  "skip_loop 0 now t = Inr ([], t)"
| "skip_loop (Suc n) now t =
    bind_r (arr_at (rb_head t) (rb_buffer t)) (\<lambda>x.
      if x \<noteq> None then checkReorderBuffer now t
      else bind_r (c_rem (rb_head t + 1) (rb_capacity t)) (\<lambda>hd.
        skip_loop n now (t\<lparr>expectHandOverGenIndex :=
            (if expectHandOverGenIndex t = rb_headIndex t then (expectHandOverGenIndex t + 1) smod MAX_PACKETS_COUNT
             else expectHandOverGenIndex t),
          rb_headIndex := (rb_headIndex t + 1) smod MAX_PACKETS_COUNT, rb_head := hd\<rparr>)))"

definition decodeTimeout :: "rat \<Rightarrow> tunnel \<Rightarrow> (tun_effect list \<times> tunnel) result" where
  "decodeTimeout now t =
    (if packetsUnHanded t < 0 then Inl Exit
     else if packetsUnHanded t = 0 then Inr ([], t)
     else bind_r (if BlockSize_MaxP t > 0 then decodeReorderBuffer t else Inr t) (\<lambda>t1.
       bind_r (expect_pos t1) (\<lambda>i.
       if i < 0 \<or> i \<ge> rb_capacity t1 then Inl Exit
       else bind_r (arr_at i (rb_buffer t1)) (\<lambda>x.
         if x \<noteq> None then checkReorderBuffer now t1
         else if BlockSize_MaxP t1 = 0 then
           bind_r (arr_at (rb_head t1) (rb_buffer t1)) (\<lambda>y.
             if rb_headIndex t1 \<noteq> expectHandOverGenIndex t1 \<or> y \<noteq> None then Inl Exit
             else skip_loop (nat (BlockSize_MaxK t1)) now t1)
         else bind_r (clearParityBuffer (headReorderBuffer t1) t1) (\<lambda>(out, t2).
           bind_r (checkReorderBuffer now t2) (\<lambda>(out', t3). Inr (out @ out', t3)))))))"

text \<open>The handlers of the two timers.\<close>

definition DecodeTimer_handle :: "rat \<Rightarrow> tunnel \<Rightarrow> (tun_effect list \<times> tunnel) result" where
  "DecodeTimer_handle now = timer_handle decodeTimer (\<lambda>f t. t\<lparr>decodeTimer := f (decodeTimer t)\<rparr>) (decodeTimeout now)"

definition EncodeTimer_handle :: "rat \<Rightarrow> nat \<Rightarrow> tunnel \<Rightarrow> (tun_effect list \<times> tunnel) result" where
  "EncodeTimer_handle now r = timer_handle encodeTimer (\<lambda>f t. t\<lparr>encodeTimer := f (encodeTimer t)\<rparr>) (encodeTimeout now r)"

text \<open>\<^verbatim>\<open>CLBTunnelAgent::recv\<close>.  A distance vector packet is handed over and then treated like any
  other.  \<^verbatim>\<open>node\<close> is \<^verbatim>\<open>nodeID()\<close> of the classifier.\<close>

definition tunnel_recv :: "rat \<Rightarrow> (nat \<Rightarrow> nat) \<Rightarrow> int \<Rightarrow> tpacket \<Rightarrow> tunnel \<Rightarrow> (tun_effect list \<times> tunnel) result" where
  "tunnel_recv now rnd node p t =
    (let dv = (if ptype_DV (hdr p) then [HandOver p] else []) in
     bind_r (if daddr (hdr p) = node
             then (if ifTunnel (hdr p) = 1 then decode now (set_hdr (\<lambda>h. h\<lparr>ifTunnel := 0\<rparr>) p) t else Inr ([], t))
             else (if ifTunnel (hdr p) = 0 then encode rnd (set_hdr (\<lambda>h. h\<lparr>ifTunnel := 1\<rparr>) p) t else Inr ([], t)))
       (\<lambda>(out, t'). Inr (dv @ out, t')))"

end
