(* ===== verification/TunnelSender.thy ===== *)
theory TunnelSender
  imports Tunnel
begin

text \<open>
  What the sender of a tunnel (\<^verbatim>\<open>encode\<close>) puts on the wire: the packets of a generation,
  numbered, then its parity packets with copies of the whole generation.
\<close>

text \<open>A run of the sender: each packet with the random numbers that its call draws.\<close>

fun encode_all :: "((nat \<Rightarrow> nat) \<times> tpacket) list \<Rightarrow> tunnel \<Rightarrow> (tun_effect list \<times> tunnel) result" where
  "encode_all [] t = Inr ([], t)"
| "encode_all ((rnd, p) # xs) t =
    bind_r (encode rnd p t) (\<lambda>(out, t1). bind_r (encode_all xs t1) (\<lambda>(out', t2). Inr (out @ out', t2)))"

lemma encode_all_append:
  assumes "encode_all xs t = Inr (out, t1)"
  shows "encode_all (xs @ ys) t = bind_r (encode_all ys t1) (\<lambda>(out', t2). Inr (out @ out', t2))"
  using assms
proof (induction xs arbitrary: t out)
  case Nil
  then show ?case by (cases "encode_all ys t1") auto
next
  case (Cons x xs)
  obtain rnd p where x: "x = (rnd, p)" by fastforce
  obtain o1 t' o2 where s: "encode rnd p t = Inr (o1, t')" "encode_all xs t' = Inr (o2, t1)" "out = o1 @ o2"
    using Cons.prems x by auto
  show ?case using Cons.IH[OF s(2)] s x by (cases "encode_all ys t1") (auto simp: split_beta)
qed

lemma handed_append [simp]: "handed (xs @ ys) = handed xs @ handed ys"
  by (induction xs rule: handed.induct) auto

lemma handed_map_HandOver [simp]: "handed (List.map HandOver ps) = ps"
  by (induction ps) auto

lemma hdr_set_hdr [simp]: "hdr (set_hdr f p) = f (hdr p)"
  by (simp add: set_hdr_def)

lemma former_set_hdr [simp]: "formerCLBPackets (set_hdr f p) = formerCLBPackets p"
  by (simp add: set_hdr_def)

lemma hdr_pkt_copy [simp]: "hdr (pkt_copy p) = hdr p"
  by (simp add: pkt_copy_def)

lemma pkt_copy_idem [simp]: "pkt_copy (pkt_copy p) = pkt_copy p"
  by (simp add: pkt_copy_def)

text \<open>What the application sees of a packet: not the fields of the tunnel.\<close>

definition inner :: "tpacket \<Rightarrow> tun_hdr" where
  "inner p = (hdr p)\<lparr>ifTunnel := 0, vPath := 0, genIndex := 0, ifParity := 0\<rparr>"

lemma inner_pkt_copy [simp]: "inner (pkt_copy p) = inner p"
  by (simp add: inner_def)

text \<open>The packet on the wire with number \<^verbatim>\<open>i\<close>, and parity packet \<^verbatim>\<open>j\<close> of a generation.\<close>

definition original :: "(nat \<Rightarrow> nat) \<Rightarrow> int \<Rightarrow> tpacket \<Rightarrow> tpacket" where
  "original rnd i p = set_hdr (\<lambda>h. h\<lparr>ifTunnel := 1, vPath := setVP (rnd 0), genIndex := i, ifParity := 0\<rparr>) p"

definition parity :: "(nat \<Rightarrow> nat) \<Rightarrow> int \<Rightarrow> int \<Rightarrow> tpacket list \<Rightarrow> nat \<Rightarrow> tpacket" where
  "parity rnd g i qs j = Pkt ((hdr (last qs))\<lparr>ifTunnel := 1, vPath := setVP (rnd (Suc j)), genIndex := i, ifParity := 1,
     genID := g, headGenIndex := genIndex (hdr (hd qs)), ParityIndex := int j, blockSize := int (length qs)\<rparr>)
     (List.map pkt_copy qs)"

lemma inner_original [simp]: "inner (original rnd i p) = inner p"
  by (simp add: inner_def original_def)

lemma original_fields [simp]:
  "genIndex (hdr (original rnd i p)) = i" "ifParity (hdr (original rnd i p)) = 0"
  by (simp_all add: original_def)

lemma parity_fields [simp]:
  "ifParity (hdr (parity rnd g i qs j)) = 1" "genID (hdr (parity rnd g i qs j)) = g"
  "headGenIndex (hdr (parity rnd g i qs j)) = genIndex (hdr (hd qs))"
  "ParityIndex (hdr (parity rnd g i qs j)) = int j" "blockSize (hdr (parity rnd g i qs j)) = int (length qs)"
  "formerCLBPackets (parity rnd g i qs j) = List.map pkt_copy qs"
  by (simp_all add: parity_def)

text \<open>A sender that has sent the packets \<^verbatim>\<open>qs\<close> of generation \<^verbatim>\<open>g\<close>; the next number is \<^verbatim>\<open>i\<close>.\<close>

definition sending :: "nat \<Rightarrow> nat \<Rightarrow> int \<Rightarrow> int \<Rightarrow> tpacket list \<Rightarrow> tunnel \<Rightarrow> bool" where
  "sending K P g i qs t \<longleftrightarrow> 0 < K \<and> length qs < K \<and> BlockSize_MaxP t = int P \<and> eb_capacity t = int K \<and> codingRateBlockSize t = of_nat K \<and>
     eb_head t = 0 \<and> eb_tail t = int (length qs) \<and> eb_length t = int (length qs) \<and>
     eb_buffer t = List.map (Some \<circ> pkt_copy) qs @ replicate (K - length qs) None \<and>
     currentGenID t = g \<and> currentGenIndex t = i \<and> currentGeneratedParityNumber t = 0 \<and> (P = 0 \<longrightarrow> BlockSize_K t = int K) \<and>
     0 \<le> i \<and> i < MAX_PACKETS_COUNT \<and> 0 \<le> g"

lemma sending_new:
  assumes "new_CLBTunnel (int K + int P) (int P) = Inr t" and "0 < K"
  shows "sending K P 0 0 [] t"
  using assms by (auto simp: new_CLBTunnel_def sending_def MAX_PACKETS_COUNT_def split: if_splits)

lemma gather_full:
  assumes "int n + pos \<le> int (length qs)" and "0 \<le> pos"
  shows "gather n pos (List.map (Some \<circ> pkt_copy) qs) (int (length qs)) = Inr (List.map pkt_copy (take n (drop (nat pos) qs)))"
  using assms
proof (induction n arbitrary: pos)
  case (Suc n)
  have "(pos + int (length qs)) smod int (length qs) = pos"
    using Suc.prems by (subst smod_nonneg) auto
  moreover have "drop (nat pos) qs = qs ! nat pos # drop (nat (pos + 1)) qs"
    using Suc.prems by (simp add: Cons_nth_drop_Suc[symmetric] nat_add_distrib)
  moreover have "qs \<noteq> []" using Suc.prems by auto
  ultimately show ?case using Suc by (simp add: c_rem_def)
qed simp

lemma sending_fields:
  assumes "sending K P g i qs t"
  shows "currentGenIndex t = i" "eb_tail t = int (length qs)" "eb_length t = int (length qs)" "eb_capacity t = int K"
    "length (eb_buffer t) = K" "BlockSize_MaxP t = int P" "codingRateBlockSize t = of_nat K"
  using assms by (auto simp: sending_def)

lemma sending_buffer_put:
  assumes "sending K P g i qs t"
  shows "(eb_buffer t)[length qs := Some (pkt_copy q)] =
    List.map (Some \<circ> pkt_copy) (qs @ [q]) @ replicate (K - Suc (length qs)) None"
proof -
  have "K - length qs = Suc (K - Suc (length qs))" using assms by (auto simp: sending_def)
  then show ?thesis using assms by (simp add: sending_def list_update_append)
qed

lemma encode_stored:
  assumes s: "sending K P g i qs t"
  shows "encode rnd p t =
    (let t2 = t\<lparr>currentGenIndex := (i + 1) mod MAX_PACKETS_COUNT,
         eb_buffer := List.map (Some \<circ> pkt_copy) (qs @ [original rnd i p]) @ replicate (K - Suc (length qs)) None,
         eb_tail := (int (length qs) + 1) mod int K, eb_length := int (length qs) + 1\<rparr> in
     if Suc (length qs) = K
     then bind_r (parity_loop P (\<lambda>i. rnd (Suc i)) t2) (\<lambda>(out, t3). Inr (HandOver (original rnd i p) # out, end_generation t3))
     else Inr ([HandOver (original rnd i p)], t2))"
proof -
  note f = sending_fields[OF s]
  have b: "0 \<le> i" "length qs < K" using s by (simp_all add: sending_def)
  have sp: "setPacket (rnd 0) p 0 t = (original rnd i p, t\<lparr>currentGenIndex := (i + 1) mod MAX_PACKETS_COUNT\<rparr>)"
    using f b by (simp add: setPacket_def original_def smod_nonneg MAX_PACKETS_COUNT_def)
  have tl: "c_rem (int (length qs) + 1) (int K) = Inr ((int (length qs) + 1) mod int K)"
    using b by (simp add: c_rem_def smod_nonneg)
  have cmp: "(of_int (int (length qs) + 1) \<ge> (of_nat K :: rat)) = (Suc (length qs) = K)"
    using b(2) of_nat_le_iff[of K "Suc (length qs)", where 'a = rat] by auto
  show ?thesis
    using b by (simp add: encode_def sp f sending_buffer_put[OF s] tl cmp Let_def del: of_int_add)
qed

lemma encode_in_generation:
  assumes s: "sending K P g i qs t" and l: "Suc (length qs) < K"
  shows "\<exists>t'. encode rnd p t = Inr ([HandOver (original rnd i p)], t') \<and>
    sending K P g ((i + 1) mod MAX_PACKETS_COUNT) (qs @ [original rnd i p]) t'"
  using s l by (simp add: encode_stored[OF s] Let_def sending_def MAX_PACKETS_COUNT_def)

text \<open>The parity packets.\<close>

definition gen_full :: "nat \<Rightarrow> nat \<Rightarrow> int \<Rightarrow> int \<Rightarrow> tpacket list \<Rightarrow> nat \<Rightarrow> tunnel \<Rightarrow> bool" where
  "gen_full K P g i qs j t \<longleftrightarrow> 0 < K \<and> length qs = K \<and> BlockSize_MaxP t = int P \<and> eb_capacity t = int K \<and> codingRateBlockSize t = of_nat K \<and>
     eb_head t = 0 \<and> eb_tail t = 0 \<and> eb_length t = int K \<and> eb_buffer t = List.map (Some \<circ> pkt_copy) qs \<and>
     currentGenID t = g \<and> currentGenIndex t = i \<and> currentGeneratedParityNumber t = int j \<and>
     (P = 0 \<or> 0 < j \<longrightarrow> BlockSize_K t = int K) \<and> 0 \<le> i \<and> 0 \<le> g"

lemma createParityPackets_full:
  assumes g: "gen_full K P g i qs j t" and j: "j < P"
  shows "\<exists>t'. createParityPackets (rnd (Suc j)) t = Inr ([HandOver (parity rnd g i qs j)], t') \<and> gen_full K P g i qs (Suc j) t'"
proof -
  note d = g[unfolded gen_full_def]
  have ne: "qs \<noteq> []" and k: "0 < int K" using d by auto
  have "(int K - 1) smod int K = (int K - 1) mod int K" by (rule smod_nonneg) (use k in auto)
  also have "\<dots> = int K - 1" by (rule mod_pos_pos_trivial) (use k in auto)
  finally have last: "(int K - 1) smod int K = int K - 1" .
  have at: "arr_at (int K - 1) (List.map (Some \<circ> pkt_copy) qs) = Inr (Some (pkt_copy (last qs)))"
    "arr_at 0 (List.map (Some \<circ> pkt_copy) qs) = Inr (Some (pkt_copy (hd qs)))"
    using d ne by (auto simp: last_conv_nth hd_conv_nth arr_at_def nat_diff_distrib)
  have ga: "gather (nat (int K)) 0 (List.map (Some \<circ> pkt_copy) qs) (int K) = Inr (List.map pkt_copy qs)"
    using gather_full[of K 0 qs] d by simp
  let ?t = "t\<lparr>BlockSize_K := int K, currentGeneratedParityNumber := int (Suc j)\<rparr>"
  have "createParityPackets (rnd (Suc j)) t = Inr ([HandOver (parity rnd g i qs j)], ?t)"
    using d j k last at ga
    by (simp add: createParityPackets_def Let_def c_rem_def setPacket_def parity_def set_hdr_def)
  moreover have "gen_full K P g i qs (Suc j) ?t" using d by (simp add: gen_full_def)
  ultimately show ?thesis by blast
qed

lemma parity_loop_full:
  assumes "gen_full K P g i qs j t" and "j + n = P"
  shows "\<exists>t'. parity_loop n (\<lambda>k. rnd (Suc (j + k))) t = Inr (List.map (HandOver \<circ> parity rnd g i qs) [j..<P], t') \<and> gen_full K P g i qs P t'"
  using assms
proof (induction n arbitrary: j t)
  case (Suc n)
  obtain t1 where c: "createParityPackets (rnd (Suc j)) t = Inr ([HandOver (parity rnd g i qs j)], t1)"
    "gen_full K P g i qs (Suc j) t1"
    using createParityPackets_full[of K P g i qs j t rnd] Suc.prems by auto
  have "\<exists>t'. parity_loop n (\<lambda>k. rnd (Suc (Suc j + k))) t1 = Inr (List.map (HandOver \<circ> parity rnd g i qs) [Suc j..<P], t') \<and> gen_full K P g i qs P t'"
    by (rule Suc.IH) (use c Suc.prems in auto)
  moreover have "[j..<P] = j # [Suc j..<P]" using Suc.prems by (simp add: upt_conv_Cons)
  ultimately show ?case using c by auto
qed auto

lemma encode_ends_generation:
  assumes s: "sending K P g i qs t" and l: "Suc (length qs) = K"
  shows "\<exists>t'. encode rnd p t = Inr (HandOver (original rnd i p) #
      List.map (HandOver \<circ> parity rnd g ((i + 1) mod MAX_PACKETS_COUNT) (qs @ [original rnd i p])) [0..<P], t') \<and>
    sending K P ((g + 1) mod MAX_GENERATION) ((i + 1) mod MAX_PACKETS_COUNT) [] t'"
proof -
  let ?q = "original rnd i p" and ?i = "(i + 1) mod MAX_PACKETS_COUNT"
  let ?t = "t\<lparr>currentGenIndex := ?i, eb_buffer := List.map (Some \<circ> pkt_copy) (qs @ [?q]), eb_tail := 0, eb_length := int K\<rparr>"
  have tl2: "int (length qs) + 1 = int K" using l by auto
  then have tl: "(int (length qs) + 1) mod int K = 0" by (simp only: mod_self)
  have full: "gen_full K P g ?i (qs @ [?q]) 0 ?t"
    using s l by (simp add: sending_def gen_full_def MAX_PACKETS_COUNT_def)
  obtain t1 where r: "parity_loop P (\<lambda>k. rnd (Suc k)) ?t = Inr (List.map (HandOver \<circ> parity rnd g ?i (qs @ [?q])) [0..<P], t1)"
    "gen_full K P g ?i (qs @ [?q]) P t1"
    using parity_loop_full[OF full, of P rnd] by auto
  have "encode rnd p t = Inr (HandOver ?q # List.map (HandOver \<circ> parity rnd g ?i (qs @ [?q])) [0..<P], end_generation t1)"
    using r(1) l by (simp add: encode_stored[OF s] tl tl2 Let_def)
  moreover have "sending K P ((g + 1) mod MAX_GENERATION) ?i [] (end_generation t1)"
    using r(2) by (auto simp: gen_full_def sending_def end_generation_def smod_nonneg MAX_GENERATION_def MAX_PACKETS_COUNT_def nat_add_distrib)
  ultimately show ?thesis by blast
qed

subsection \<open>A generation, and a sender without parity packets\<close>

fun numbered_from :: "int \<Rightarrow> ((nat \<Rightarrow> nat) \<times> tpacket) list \<Rightarrow> tpacket list" where
  "numbered_from i [] = []"
| "numbered_from i ((rnd, p) # xs) = original rnd i p # numbered_from ((i + 1) mod MAX_PACKETS_COUNT) xs"

lemma length_numbered_from [simp]: "length (numbered_from i xs) = length xs"
  by (induction xs arbitrary: i) auto

lemma numbered_from_append:
  "0 \<le> i \<Longrightarrow> i < MAX_PACKETS_COUNT \<Longrightarrow>
    numbered_from i (xs @ ys) = numbered_from i xs @ numbered_from ((i + int (length xs)) mod MAX_PACKETS_COUNT) ys"
  by (induction xs arbitrary: i) (auto simp: MAX_PACKETS_COUNT_def mod_simps algebra_simps)

lemma map_inner_numbered_from [simp]: "List.map inner (numbered_from i xs) = List.map (inner \<circ> snd) xs"
  by (induction xs arbitrary: i) auto

lemma numbered_from_nth:
  assumes "k < length xs" and "0 \<le> i" and "i < MAX_PACKETS_COUNT"
  shows "numbered_from i xs ! k = original (fst (xs ! k)) ((i + int k) mod MAX_PACKETS_COUNT) (snd (xs ! k))"
  using assms
proof (induction xs arbitrary: i k)
  case (Cons x xs)
  then show ?case
    by (cases x; cases k) (auto simp: MAX_PACKETS_COUNT_def mod_simps algebra_simps)
qed simp

lemma encode_all_in_generation:
  assumes "sending K P g i qs t" and "length qs + length xs < K"
  shows "\<exists>t'. encode_all xs t = Inr (List.map HandOver (numbered_from i xs), t') \<and>
    sending K P g ((i + int (length xs)) mod MAX_PACKETS_COUNT) (qs @ numbered_from i xs) t'"
  using assms
proof (induction xs arbitrary: i qs t)
  case Nil
  then show ?case by (simp add: sending_def)
next
  case (Cons x xs)
  obtain rnd p where x: "x = (rnd, p)" by fastforce
  obtain t1 where s: "encode rnd p t = Inr ([HandOver (original rnd i p)], t1)"
    "sending K P g ((i + 1) mod MAX_PACKETS_COUNT) (qs @ [original rnd i p]) t1"
    using encode_in_generation[of K P g i qs t rnd p] Cons.prems by auto
  show ?case using Cons.IH[OF s(2)] Cons.prems(2) s(1) x
    by (auto simp: mod_simps algebra_simps)
qed

text \<open>The parity packets of the generation \<^verbatim>\<open>xs\<close>, whose last packet has drawn \<^verbatim>\<open>rnd\<close>.\<close>

definition parities :: "nat \<Rightarrow> int \<Rightarrow> int \<Rightarrow> ((nat \<Rightarrow> nat) \<times> tpacket) list \<Rightarrow> tpacket list" where
  "parities P g i xs = List.map (parity (fst (last xs)) g ((i + int (length xs)) mod MAX_PACKETS_COUNT) (numbered_from i xs)) [0..<P]"

lemma encode_all_generation:
  assumes s: "sending K P g i [] t" and l: "length xs = K"
  shows "\<exists>t'. encode_all xs t = Inr (List.map HandOver (numbered_from i xs @ parities P g i xs), t') \<and>
    sending K P ((g + 1) mod MAX_GENERATION) ((i + int K) mod MAX_PACKETS_COUNT) [] t'"
proof -
  have i: "0 < K" "0 \<le> i" "i < MAX_PACKETS_COUNT" using s by (simp_all add: sending_def)
  obtain ys rnd p where xs: "xs = ys @ [(rnd, p)]"
    using i(1) l by (cases xs rule: rev_cases) auto
  obtain t1 where t1: "encode_all ys t = Inr (List.map HandOver (numbered_from i ys), t1)"
    "sending K P g ((i + int (length ys)) mod MAX_PACKETS_COUNT) (numbered_from i ys) t1"
    using encode_all_in_generation[OF s, of ys] l xs by auto
  have n: "numbered_from i xs = numbered_from i ys @ [original rnd ((i + int (length ys)) mod MAX_PACKETS_COUNT) p]"
    "((i + int (length ys)) mod MAX_PACKETS_COUNT + 1) mod MAX_PACKETS_COUNT = (i + int K) mod MAX_PACKETS_COUNT"
    using i l xs by (auto simp: numbered_from_append mod_simps algebra_simps)
  obtain t2 where t2: "encode rnd p t1 = Inr (HandOver (original rnd ((i + int (length ys)) mod MAX_PACKETS_COUNT) p) #
      List.map (HandOver \<circ> parity rnd g ((i + int K) mod MAX_PACKETS_COUNT) (numbered_from i xs)) [0..<P], t2)"
    "sending K P ((g + 1) mod MAX_GENERATION) ((i + int K) mod MAX_PACKETS_COUNT) [] t2"
    using encode_ends_generation[OF t1(2), of rnd p] l xs unfolding n by auto
  have "encode_all xs t = Inr (List.map HandOver (numbered_from i xs @ parities P g i xs), t2)"
    using encode_all_append[OF t1(1), of "[(rnd, p)]"] t2(1) l unfolding xs
    by (simp add: parities_def n[unfolded xs])
  then show ?thesis using t2(2) by blast
qed

lemma encode_all_plain:
  assumes "sending K 0 g i qs t"
  shows "\<exists>t'. encode_all xs t = Inr (List.map HandOver (numbered_from i xs), t')"
  using assms
proof (induction xs arbitrary: g i qs t)
  case (Cons x xs)
  obtain rnd p where x: "x = (rnd, p)" by fastforce
  have "\<exists>t1 g' qs'. encode rnd p t = Inr ([HandOver (original rnd i p)], t1) \<and>
    sending K 0 g' ((i + 1) mod MAX_PACKETS_COUNT) qs' t1"
  proof (cases "Suc (length qs) < K")
    case True
    then show ?thesis using encode_in_generation[OF Cons.prems True, of rnd p] by blast
  next
    case False
    then have "Suc (length qs) = K" using Cons.prems by (simp add: sending_def)
    then show ?thesis using encode_ends_generation[OF Cons.prems, of rnd p] by auto
  qed
  then obtain t1 g' qs' where s: "encode rnd p t = Inr ([HandOver (original rnd i p)], t1)"
    "sending K 0 g' ((i + 1) mod MAX_PACKETS_COUNT) qs' t1" by blast
  show ?case using Cons.IH[OF s(2)] s(1) x by auto
qed simp

end
