(* ===== verification/TunnelRing.thy ===== *)
theory TunnelRing
  imports TunnelSender
begin

text \<open>
  The reorder buffer of the receiver of a tunnel as a map from packet numbers: numbers are
  unbounded here, the code has them modulo \<^verbatim>\<open>2^16\<close>.
\<close>

lemma ahead_mod:
  assumes "0 \<le> x - y" and "x - y < MAX_PACKETS_COUNT"
  shows "ahead (x mod MAX_PACKETS_COUNT) (y mod MAX_PACKETS_COUNT) = x - y"
proof -
  have "0 \<le> x mod MAX_PACKETS_COUNT - y mod MAX_PACKETS_COUNT + MAX_PACKETS_COUNT"
    using pos_mod_bound[of MAX_PACKETS_COUNT y] pos_mod_sign[of MAX_PACKETS_COUNT x] by (simp add: MAX_PACKETS_COUNT_def)
  then have "ahead (x mod MAX_PACKETS_COUNT) (y mod MAX_PACKETS_COUNT) = (x - y) mod MAX_PACKETS_COUNT"
    by (simp add: ahead_def smod_nonneg MAX_PACKETS_COUNT_def mod_simps)
  then show ?thesis using assms by simp
qed

lemma ahead_mod_behind:
  assumes "0 < y - x" and "y - x < MAX_PACKETS_COUNT"
  shows "ahead (x mod MAX_PACKETS_COUNT) (y mod MAX_PACKETS_COUNT) = MAX_PACKETS_COUNT - (y - x)"
proof -
  have "(x + MAX_PACKETS_COUNT) mod MAX_PACKETS_COUNT = x mod MAX_PACKETS_COUNT" by simp
  then show ?thesis using ahead_mod[of "x + MAX_PACKETS_COUNT" y] assms by simp
qed

lemma next_mod: "(x mod MAX_PACKETS_COUNT + 1) smod MAX_PACKETS_COUNT = (x + 1) mod MAX_PACKETS_COUNT"
  by (simp add: smod_nonneg MAX_PACKETS_COUNT_def mod_simps)

definition ring_on :: "int \<Rightarrow> int \<Rightarrow> (int \<Rightarrow> tpacket option) \<Rightarrow> int \<Rightarrow> tpacket option list \<Rightarrow> int \<Rightarrow> int \<Rightarrow> int \<Rightarrow> int \<Rightarrow> bool" where
  "ring_on h e B cap buf hp hi ex un \<longleftrightarrow>
     0 < cap \<and> 2 * cap \<le> MAX_PACKETS_COUNT \<and> length buf = nat cap \<and> 0 \<le> hp \<and> hp < cap \<and> h \<le> e \<and>
     hi = h mod MAX_PACKETS_COUNT \<and> ex = e mod MAX_PACKETS_COUNT \<and>
     (\<forall>d. 0 \<le> d \<and> d < cap \<longrightarrow> buf ! nat ((hp + d) mod cap) = B (h + d)) \<and>
     (\<forall>i. B i \<noteq> None \<longrightarrow> h \<le> i \<and> i < h + cap) \<and>
     (\<forall>i p. B i = Some p \<longrightarrow> ifParity (hdr p) = 0 \<or> ifParity (hdr p) = -1) \<and>
     un = int (card {i. e \<le> i \<and> B i \<noteq> None})"

text \<open>The window starts at number \<^verbatim>\<open>h\<close>, number \<^verbatim>\<open>e\<close> is expected, and \<^verbatim>\<open>B\<close> maps the numbers to the
  packets in the buffer.\<close>

definition ring :: "int \<Rightarrow> int \<Rightarrow> (int \<Rightarrow> tpacket option) \<Rightarrow> tunnel \<Rightarrow> bool" where
  "ring h e B t \<longleftrightarrow> ring_on h e B (rb_capacity t) (rb_buffer t) (rb_head t) (rb_headIndex t) (expectHandOverGenIndex t) (packetsUnHanded t)"

lemma same_slot:
  fixes cap :: int
  assumes "(hp + d) mod cap = (hp + d') mod cap" and "0 \<le> d" "d < cap" "0 \<le> d'" "d' < cap"
  shows "d = d'"
proof -
  have "(hp + d - hp) mod cap = (hp + d' - hp) mod cap" using assms(1) by (metis mod_diff_cong)
  then show ?thesis using assms by simp
qed

lemma ring_finite: "ring_on h e B cap buf hp hi ex un \<Longrightarrow> finite {i. e' \<le> i \<and> B i \<noteq> None}"
  by (rule finite_subset[of _ "{h..<h + cap}"]) (auto simp: ring_on_def)

lemma ring_put:
  assumes r: "ring_on h e B cap buf hp hi ex un" and i: "e \<le> i" "i < h + cap" and "B i = None"
    and p: "ifParity (hdr p) = 0 \<or> ifParity (hdr p) = -1"
  shows "ring_on h e (B(i \<mapsto> p)) cap (buf[nat ((hp + (i - h)) mod cap) := Some p]) hp hi ex (un + 1)"
proof -
  note d = r[unfolded ring_on_def]
  have "buf[nat ((hp + (i - h)) mod cap) := Some p] ! nat ((hp + k) mod cap) = (B(i \<mapsto> p)) (h + k)"
    if k: "0 \<le> k" "k < cap" for k
  proof (cases "k = i - h")
    case True
    then show ?thesis using d by (simp add: nat_less_iff)
  next
    case False
    then have "(hp + k) mod cap \<noteq> (hp + (i - h)) mod cap" using same_slot[of hp k cap "i - h"] k i d by auto
    then have "nat ((hp + k) mod cap) \<noteq> nat ((hp + (i - h)) mod cap)" using d by (simp add: nat_eq_iff2)
    then show ?thesis using False d k by simp
  qed
  moreover have "{j. e \<le> j \<and> (B(i \<mapsto> p)) j \<noteq> None} = insert i {j. e \<le> j \<and> B j \<noteq> None}" using i by auto
  then have "un + 1 = int (card {j. e \<le> j \<and> (B(i \<mapsto> p)) j \<noteq> None})"
    using ring_finite[OF r, of e] assms(4) d by simp
  ultimately show ?thesis using d i p by (auto simp: ring_on_def)
qed

text \<open>The expected packet is handed over; an expected packet that is missing is given up.\<close>

lemma ring_hand:
  assumes r: "ring_on h e B cap buf hp hi ex un" and "B e = Some q"
  shows "ring_on h (e + 1) B cap buf hp hi ((ex + 1) smod MAX_PACKETS_COUNT) (un - 1)"
proof -
  have "{i. e \<le> i \<and> B i \<noteq> None} = insert e {i. e + 1 \<le> i \<and> B i \<noteq> None}" using assms(2) by auto
  then have "int (card {i. e \<le> i \<and> B i \<noteq> None}) = int (card {i. e + 1 \<le> i \<and> B i \<noteq> None}) + 1"
    using ring_finite[OF r, of "e + 1"] by simp
  then show ?thesis using r by (simp add: ring_on_def next_mod)
qed

lemma ring_skip:
  assumes r: "ring_on h e B cap buf hp hi ex un" and "B e = None"
  shows "ring_on h (e + 1) B cap buf hp hi ((ex + 1) smod MAX_PACKETS_COUNT) un"
proof -
  have "{i. e \<le> i \<and> B i \<noteq> None} = {i. e + 1 \<le> i \<and> B i \<noteq> None}"
    using assms(2) by (auto simp: order_le_less)
  then show ?thesis using r by (simp add: ring_on_def next_mod)
qed

text \<open>The window moves by one.\<close>

lemma ring_slide:
  assumes r: "ring_on h e B cap buf hp hi ex un" and "h < e"
  shows "ring_on (h + 1) e (B(h := None)) cap (buf[nat hp := None]) ((hp + 1) mod cap) ((hi + 1) smod MAX_PACKETS_COUNT) ex un"
proof -
  note d = r[unfolded ring_on_def]
  have "buf[nat hp := None] ! nat (((hp + 1) mod cap + k) mod cap) = (B(h := None)) (h + 1 + k)" if k: "0 \<le> k" "k < cap" for k
  proof (cases "k + 1 = cap")
    case True
    have "((hp + 1) mod cap + k) mod cap = (hp + (k + 1)) mod cap" by (simp add: mod_simps algebra_simps)
    then have "((hp + 1) mod cap + k) mod cap = hp" using True d by simp
    moreover have "B (h + 1 + k) = None" using True d by (metis add.assoc add.commute order_less_irrefl)
    ultimately show ?thesis using d by (simp add: nat_less_iff)
  next
    case False
    have e: "((hp + 1) mod cap + k) mod cap = (hp + (k + 1)) mod cap" by (simp add: mod_simps algebra_simps)
    have "(hp + (k + 1)) mod cap \<noteq> (hp + 0) mod cap" using same_slot[of hp "k + 1" cap 0] k False d by auto
    then have "nat ((hp + (k + 1)) mod cap) \<noteq> nat hp" using d by (simp add: nat_eq_iff2)
    moreover have "buf ! nat ((hp + (k + 1)) mod cap) = B (h + (k + 1))" using d False k by simp
    ultimately show ?thesis using k unfolding e add.assoc[of h 1 k] add.commute[of 1 k] by (simp add: fun_upd_def)
  qed
  moreover have "{i. e \<le> i \<and> (B(h := None)) i \<noteq> None} = {i. e \<le> i \<and> B i \<noteq> None}" using assms(2) by auto
  moreover have "h + 1 \<le> i \<and> i < h + 1 + cap" if "(B(h := None)) i \<noteq> None" for i
  proof -
    have "i \<noteq> h" "B i \<noteq> None" using that by (auto split: if_splits)
    moreover from this(2) have "h \<le> i \<and> i < h + cap" using d by blast
    ultimately show ?thesis by auto
  qed
  moreover have "ifParity (hdr p) = 0 \<or> ifParity (hdr p) = -1" if "(B(h := None)) i = Some p" for i p
    using d that by (metis fun_upd_apply option.distinct(1))
  ultimately show ?thesis unfolding ring_on_def using d assms(2) by (simp add: next_mod del: fun_upd_apply)
qed

lemma ring_at:
  assumes "ring_on h e B cap buf hp hi ex un" and "h \<le> i" "i < h + cap"
  shows "arr_at ((hp + (i - h)) mod cap) buf = Inr (B i)"
  using assms by (auto simp: ring_on_def arr_at_def)

lemma slot_mod: "(a + x mod m - y mod m + m) mod m = (a + (x - y)) mod (m::int)"
proof -
  have "(a + x mod m - y mod m + m) mod m = (a + x mod m - y mod m) mod m" by simp
  also have "\<dots> = (a + x mod m - y) mod m" by (rule mod_diff_right_eq)
  also have "\<dots> = (a - y + x mod m) mod m" by (simp add: algebra_simps)
  also have "\<dots> = (a - y + x) mod m" by (rule mod_add_right_eq)
  finally show ?thesis by (simp add: algebra_simps)
qed

lemma ring_pos:
  assumes r: "ring_on h e B cap buf hp hi ex un" and "h \<le> i" "i < h + cap"
  shows "c_rem ((hp + i mod MAX_PACKETS_COUNT - hi + MAX_PACKETS_COUNT) smod MAX_PACKETS_COUNT) cap = Inr ((hp + (i - h)) mod cap)"
proof -
  note d = r[unfolded ring_on_def]
  have "0 \<le> hp + i mod MAX_PACKETS_COUNT - hi + MAX_PACKETS_COUNT"
  proof -
    have "h mod MAX_PACKETS_COUNT < MAX_PACKETS_COUNT" "0 \<le> i mod MAX_PACKETS_COUNT" by (simp_all add: MAX_PACKETS_COUNT_def)
    then show ?thesis using d by linarith
  qed
  then have "(hp + i mod MAX_PACKETS_COUNT - hi + MAX_PACKETS_COUNT) smod MAX_PACKETS_COUNT = (hp + (i - h)) mod MAX_PACKETS_COUNT"
    using d slot_mod by (simp add: smod_nonneg MAX_PACKETS_COUNT_def)
  also have "\<dots> = hp + (i - h)" by (rule mod_pos_pos_trivial) (use d assms in auto)
  finally show ?thesis using d assms(2) by (simp add: c_rem_def smod_nonneg)
qed

lemma expect_pos_ring:
  assumes "ring h e B t" and "e < h + rb_capacity t"
  shows "expect_pos t = Inr ((rb_head t + (e - h)) mod rb_capacity t)"
proof -
  have "h \<le> e" "expectHandOverGenIndex t = e mod MAX_PACKETS_COUNT" using assms(1) by (simp_all add: ring_def ring_on_def)
  then show ?thesis using ring_pos[OF assms(1)[unfolded ring_def], of e] assms(2)
    by (simp add: expect_pos_def algebra_simps)
qed

lemma insert_slot_ring:
  assumes "ring h e B t" and "h \<le> i" "i < h + rb_capacity t" and "genIndex (hdr p) = i mod MAX_PACKETS_COUNT"
  shows "insert_slot p t = Inr ((rb_head t + (i - h)) mod rb_capacity t)"
  using ring_pos[OF assms(1)[unfolded ring_def] assms(2,3)] assms(4) by (simp add: insert_slot_def)

lemma ring_timer: "ring h e B (t\<lparr>decodeTimer := tm\<rparr>) = ring h e B t"
  by (simp add: ring_def)

lemma ring_unhanded_0:
  assumes "ring h e B t" and "packetsUnHanded t = 0" and "e \<le> i"
  shows "B i = None"
proof -
  have "finite {i. e \<le> i \<and> B i \<noteq> None}" by (rule ring_finite[OF assms(1)[unfolded ring_def]])
  moreover have "card {i. e \<le> i \<and> B i \<noteq> None} = 0" using assms(1,2) by (simp add: ring_def ring_on_def)
  ultimately show ?thesis using assms(3) by auto
qed

lemma ring_unhanded_pos:
  assumes "ring h e B t" and "e \<le> i" and "B i \<noteq> None"
  shows "0 < packetsUnHanded t"
proof -
  have "finite {i. e \<le> i \<and> B i \<noteq> None}" by (rule ring_finite[OF assms(1)[unfolded ring_def]])
  then have "card {i. e \<le> i \<and> B i \<noteq> None} \<noteq> 0" using assms(2,3) by auto
  then show ?thesis using assms(1) by (simp add: ring_def ring_on_def)
qed

subsection \<open>A step of checkReorderBuffer\<close>

definition hand_next :: "tunnel \<Rightarrow> tunnel" where
  "hand_next t = t\<lparr>packetsUnHanded := packetsUnHanded t - 1,
     expectHandOverGenIndex := (expectHandOverGenIndex t + 1) smod MAX_PACKETS_COUNT\<rparr>"

lemma check_stop:
  assumes r: "ring h e B t" and e: "e < h + rb_capacity t" and n: "B e = None"
  shows "\<exists>tm. checkReorderBuffer now t = Inr ([], t\<lparr>decodeTimer := tm\<rparr>) \<and> (t_status tm = TIMER_PENDING \<longleftrightarrow> packetsUnHanded t \<noteq> 0)"
proof (cases "packetsUnHanded t = 0")
  case True
  then show ?thesis
    by (subst checkReorderBuffer.simps) (auto simp: timer_cancel_def intro: exI[of _ "decodeTimer t"])
next
  case False
  note d = r[unfolded ring_def ring_on_def]
  have b: "0 < rb_capacity t" "h \<le> e" "0 \<le> packetsUnHanded t" using d by (simp_all)
  then have ng: "\<not> packetsUnHanded t < 0"
    "\<not> ((rb_head t + (e - h)) mod rb_capacity t < 0 \<or> (rb_head t + (e - h)) mod rb_capacity t \<ge> rb_capacity t)"
    by (simp_all add: not_less not_le)
  show ?thesis
    unfolding checkReorderBuffer.simps[of now t] if_not_P[OF ng(1)] if_not_P[OF False] expect_pos_ring[OF r e] bind_r_simps
      if_not_P[OF ng(2)] ring_at[OF r[unfolded ring_def] b(2) e] n option.case using False by (auto simp: timer_resched_def)
qed

lemma check_step:
  assumes r: "ring h e B t" and e: "e < h + rb_capacity t" and q: "B e = Some q"
  shows "checkReorderBuffer now t = bind_r (after_hand ((rb_head t + (e - h)) mod rb_capacity t) q (hand_next t)) (\<lambda>r.
      bind_r (checkReorderBuffer now (snd r)) (\<lambda>(out', t2). Inr (HandOver (pkt_copy q) # fst r @ out', t2)))"
    and "ring h (e + 1) B (hand_next t)"
proof -
  note d = r[unfolded ring_def ring_on_def]
  have b: "0 < rb_capacity t" "h \<le> e" "0 < packetsUnHanded t"
    using d ring_unhanded_pos[OF r, of e] q by simp_all
  have par: "ifParity (hdr q) = 0 \<or> ifParity (hdr q) = -1" using d q by blast
  from b have ng: "\<not> packetsUnHanded t < 0" "\<not> packetsUnHanded t = 0"
    "\<not> ((rb_head t + (e - h)) mod rb_capacity t < 0 \<or> (rb_head t + (e - h)) mod rb_capacity t \<ge> rb_capacity t)"
    "\<not> (ifParity (hdr q) \<noteq> 0 \<and> ifParity (hdr q) \<noteq> -1)"
    using par by (auto simp add: not_less not_le)
  show "checkReorderBuffer now t = bind_r (after_hand ((rb_head t + (e - h)) mod rb_capacity t) q (hand_next t)) (\<lambda>r.
      bind_r (checkReorderBuffer now (snd r)) (\<lambda>(out', t2). Inr (HandOver (pkt_copy q) # fst r @ out', t2)))"
    unfolding checkReorderBuffer.simps[of now t] if_not_P[OF ng(1)] if_not_P[OF ng(2)] expect_pos_ring[OF r e] bind_r_simps
      if_not_P[OF ng(3)] ring_at[OF r[unfolded ring_def] b(2) e] q option.case if_not_P[OF ng(4)] hand_next_def by (rule refl)
  show "ring h (e + 1) B (hand_next t)"
    using ring_hand[OF r[unfolded ring_def] q] by (simp add: ring_def hand_next_def)
qed

end
