(* ===== verification/TunnelOrder.thy ===== *)
theory TunnelOrder
  imports TunnelRing
begin

text \<open>
  A tunnel without parity packets (\<^verbatim>\<open>P = 0\<close>): the receiver hands over the packets in the
  order in which the sender took them, whatever order the network delivers them in, as
  long as none is \<^verbatim>\<open>3K\<close> or more ahead of a missing one and the decode timer does not expire; what
  happens when it expires is below.
\<close>

text \<open>A run of the receiver: the packets with the times of their arrival.\<close>

fun decode_all :: "(rat \<times> tpacket) list \<Rightarrow> tunnel \<Rightarrow> (tun_effect list \<times> tunnel) result" where
  "decode_all [] t = Inr ([], t)"
| "decode_all ((now, p) # xs) t =
    bind_r (decode now p t) (\<lambda>(out, t1). bind_r (decode_all xs t1) (\<lambda>(out', t2). Inr (out @ out', t2)))"

lemma decode_all_append:
  assumes "decode_all xs t = Inr (out, t1)"
  shows "decode_all (xs @ ys) t = bind_r (decode_all ys t1) (\<lambda>(out', t2). Inr (out @ out', t2))"
  using assms
proof (induction xs arbitrary: t out)
  case Nil
  then show ?case by (cases "decode_all ys t1") auto
next
  case (Cons x xs)
  obtain now p where x: "x = (now, p)" by fastforce
  obtain o1 t' o2 where s: "decode now p t = Inr (o1, t')" "decode_all xs t' = Inr (o2, t1)" "out = o1 @ o2"
    using Cons.prems x by auto
  show ?case using Cons.IH[OF s(2)] s x by (cases "decode_all ys t1") (auto simp: split_beta)
qed

subsection \<open>The decode timer during a run\<close>

text \<open>The scheduler runs the events of the decode timer that are due, at their times, before the next packet
  arrives.  An expiry may start the timer again.\<close>

partial_function (option) expire_until :: "rat \<Rightarrow> tunnel \<Rightarrow> (tun_effect list \<times> tunnel) result option" where
  "expire_until now t =
    (case t_event (decodeTimer t) of None \<Rightarrow> Some (Inr ([], t))
     | Some u \<Rightarrow> if t_status (decodeTimer t) \<noteq> TIMER_PENDING \<or> now < u then Some (Inr ([], t))
         else (case DecodeTimer_handle u t of Inl err \<Rightarrow> Some (Inl err)
           | Inr (out, t1) \<Rightarrow> Option.bind (expire_until now t1) (\<lambda>r. Some (bind_r r (\<lambda>(out', t2). Inr (out @ out', t2))))))"

fun timed_all :: "(rat \<times> tpacket) list \<Rightarrow> tunnel \<Rightarrow> (tun_effect list \<times> tunnel) result option" where
  "timed_all [] t = Some (Inr ([], t))"
| "timed_all ((now, p) # xs) t =
    Option.bind (expire_until now t) (\<lambda>r. case r of Inl err \<Rightarrow> Some (Inl err)
      | Inr (out, t1) \<Rightarrow> (case decode now p t1 of Inl err \<Rightarrow> Some (Inl err)
          | Inr (out1, t2) \<Rightarrow> Option.bind (timed_all xs t2) (\<lambda>r. Some (bind_r r (\<lambda>(out', t3). Inr (out @ out1 @ out', t3))))))"

definition decode_delay :: "tunnel \<Rightarrow> rat" where
  "decode_delay t = (if BlockSize_MaxP t = 0 then 2 * ENCODE_TIMER_LENGTH else DECODE_TIMER_LENGTH t)"

text \<open>If the timer runs, packets wait and it was started at \<^verbatim>\<open>since\<close>.\<close>

definition armed :: "rat \<Rightarrow> tunnel \<Rightarrow> bool" where
  "armed since t \<longleftrightarrow> (t_status (decodeTimer t) = TIMER_PENDING \<longrightarrow>
     packetsUnHanded t \<noteq> 0 \<and> t_event (decodeTimer t) = Some (since + decode_delay t))"

lemma check_armed: "checkReorderBuffer now t = Inr (out, t') \<Longrightarrow> armed now t'"
proof (induction now t arbitrary: out rule: checkReorderBuffer.induct)
  case (1 now t)
  show ?case
  proof (cases "packetsUnHanded t = 0")
    case True
    then show ?thesis using "1.prems"
      by (subst (asm) checkReorderBuffer.simps) (auto simp: armed_def timer_cancel_def split: if_splits)
  next
    case False
    then have n: "\<not> packetsUnHanded t < 0"
      using "1.prems" by (subst (asm) checkReorderBuffer.simps) (auto split: if_splits)
    obtain i where i: "expect_pos t = Inr i" "\<not> (i < 0 \<or> i \<ge> rb_capacity t)"
      using "1.prems" False n by (subst (asm) checkReorderBuffer.simps) (auto split: if_splits)
    obtain x where x: "arr_at i (rb_buffer t) = Inr x"
      using "1.prems" False n i by (subst (asm) checkReorderBuffer.simps) (auto split: if_splits)
    show ?thesis
    proof (cases x)
      case None
      then show ?thesis using "1.prems" False n i x
        by (subst (asm) checkReorderBuffer.simps) (auto simp: armed_def decode_delay_def timer_resched_def DECODE_TIMER_LENGTH_def)
    next
      case (Some q)
      have par: "\<not> (ifParity (hdr q) \<noteq> 0 \<and> ifParity (hdr q) \<noteq> -1)"
        using "1.prems" False n i x Some by (subst (asm) checkReorderBuffer.simps) (auto split: if_splits)
      let ?h = "after_hand i q (t\<lparr>packetsUnHanded := packetsUnHanded t - 1, expectHandOverGenIndex := (expectHandOverGenIndex t + 1) smod MAX_PACKETS_COUNT\<rparr>)"
      have "bind_r ?h (\<lambda>r. bind_r (checkReorderBuffer now (snd r)) (\<lambda>(out', t2). Inr (HandOver (pkt_copy q) # fst r @ out', t2))) = Inr (out, t')"
        using "1.prems" False n i x Some par by (subst (asm) checkReorderBuffer.simps) (simp split: if_splits)
      then obtain r o2 where r: "?h = Inr r" "checkReorderBuffer now (snd r) = Inr (o2, t')" by auto
      show ?thesis by (rule "1.IH"[OF n False i(1,2) x Some par r(1) r(2)])
    qed
  qed
qed

lemma decode_armed: "decode now p t = Inr (out, t') \<Longrightarrow> armed now t'"
  by (auto simp: decode_def dest!: check_armed split: if_splits)

text \<open>While nothing is due, the timer changes nothing.\<close>

lemma timed_step:
  assumes "armed since t" and "packetsUnHanded t \<noteq> 0 \<Longrightarrow> now < since + decode_delay t"
    and "decode now p t = Inr (o1, t1)" and "timed_all xs t1 = Some (Inr (o2, t2))"
  shows "timed_all ((now, p) # xs) t = Some (Inr (o1 @ o2, t2))"
proof -
  have "expire_until now t = Some (Inr ([], t))"
    using assms(1,2) by (subst expire_until.simps) (auto simp: armed_def split: option.split)
  then show ?thesis using assms(3,4) by simp
qed

text \<open>Packets arrive in time: when one of the first \<^verbatim>\<open>N\<close> has arrived and one before it has not, the next arrival is less
  than \<^verbatim>\<open>d\<close> after the last.  \<^verbatim>\<open>S\<close> holds the numbers that have arrived.\<close>

definition gap :: "int \<Rightarrow> int set \<Rightarrow> bool" where
  "gap N S \<longleftrightarrow> (\<exists>n\<in>S. n < N \<and> \<not> {0..<n} \<subseteq> S)"

fun in_time :: "rat \<Rightarrow> int \<Rightarrow> int set \<Rightarrow> rat \<Rightarrow> (rat \<times> int) list \<Rightarrow> bool" where
  "in_time d N S since [] = True"
| "in_time d N S since ((now, n) # xs) = (since \<le> now \<and> (gap N S \<longrightarrow> now < since + d) \<and> in_time d N (insert n S) now xs)"

lemma ring_waiting:
  assumes "ring h e B t" and "packetsUnHanded t \<noteq> 0"
  shows "\<exists>i\<ge>e. B i \<noteq> None"
proof (rule ccontr)
  assume "\<not> (\<exists>i\<ge>e. B i \<noteq> None)"
  then have "{i. e \<le> i \<and> B i \<noteq> None} = {}" by auto
  then have "card {i. e \<le> i \<and> B i \<noteq> None} = 0" by (simp only: card.empty)
  then show False using assms by (simp add: ring_def ring_on_def)
qed

definition same_conf :: "tunnel \<Rightarrow> tunnel \<Rightarrow> bool" where
  "same_conf t t' \<longleftrightarrow> BlockSize_MaxP t' = BlockSize_MaxP t \<and> BlockSize_MaxK t' = BlockSize_MaxK t \<and> rb_capacity t' = rb_capacity t"

text \<open>\<^verbatim>\<open>checkReorderBuffer\<close> hands over the packets up to the first one that is missing; its timer
  runs if packets wait.\<close>

lemma check_plain:
  assumes "ring e e B t" and "BlockSize_MaxP t = 0"
  shows "\<exists>m out t'. checkReorderBuffer now t = Inr (out, t') \<and> e \<le> m \<and> (\<forall>i\<in>{e..<m}. B i \<noteq> None) \<and> B m = None \<and>
    handed out = List.map (\<lambda>i. pkt_copy (the (B i))) [e..m - 1] \<and>
    ring m m (\<lambda>i. if i < m then None else B i) t' \<and> same_conf t t' \<and>
    (t_status (decodeTimer t') = TIMER_PENDING \<longleftrightarrow> packetsUnHanded t' \<noteq> 0)"
  using assms
proof (induction "nat (packetsUnHanded t)" arbitrary: e B t rule: less_induct)
  case less
  note r = less.prems(1)
  note d = r[unfolded ring_def ring_on_def]
  have win: "e < e + rb_capacity t" and hp: "0 \<le> rb_head t" "rb_head t < rb_capacity t" using d by simp_all
  show ?case
  proof (cases "B e")
    case None
    have "B i = None" if "i < e" for i using d that by (metis not_le)
    then have B: "(\<lambda>i. if i < e then None else B i) = B" by (auto simp: fun_eq_iff)
    show ?thesis using check_stop[OF r win None, of now] r B None
      by (intro exI[of _ e]) (auto simp: ring_timer same_conf_def)
  next
    case (Some q)
    let ?t = "(hand_next t)\<lparr>rb_buffer := (rb_buffer t)[nat (rb_head t) := None], rb_count := rb_count t - 1,
      rb_head := (rb_head t + 1) mod rb_capacity t, rb_headIndex := (rb_headIndex t + 1) smod MAX_PACKETS_COUNT\<rparr>"
    have r1: "ring (e + 1) (e + 1) (B(e := None)) ?t"
      using ring_slide[OF check_step(2)[OF r win Some, unfolded ring_def]] by (simp add: ring_def hand_next_def)
    have "c_rem (rb_head t + 1) (rb_capacity t) = Inr ((rb_head t + 1) mod rb_capacity t)"
      using hp by (simp add: c_rem_def smod_nonneg)
    then have "after_hand (rb_head t) q (hand_next t) = Inr ([Freed q], ?t)"
      using less.prems(2) by (simp add: after_hand_def hand_next_def)
    then have step: "checkReorderBuffer now t = bind_r (checkReorderBuffer now ?t) (\<lambda>(out', t2). Inr (HandOver (pkt_copy q) # [Freed q] @ out', t2))"
      using check_step(1)[OF r win Some, of now] hp by simp
    have "nat (packetsUnHanded ?t) < nat (packetsUnHanded t)"
      using ring_unhanded_pos[OF r, of e] Some by (simp add: hand_next_def)
    moreover have "BlockSize_MaxP ?t = 0" using less.prems(2) by (simp add: hand_next_def)
    ultimately obtain m out t' where ih: "checkReorderBuffer now ?t = Inr (out, t')" "e + 1 \<le> m" "\<forall>i\<in>{e + 1..<m}. (B(e := None)) i \<noteq> None"
      "(B(e := None)) m = None" "handed out = List.map (\<lambda>i. pkt_copy (the ((B(e := None)) i))) [e + 1..m - 1]"
      "ring m m (\<lambda>i. if i < m then None else (B(e := None)) i) t'" "same_conf ?t t'"
      "t_status (decodeTimer t') = TIMER_PENDING \<longleftrightarrow> packetsUnHanded t' \<noteq> 0"
      using less.hyps[OF _ r1] by blast
    have m: "(\<lambda>i. if i < m then None else (B(e := None)) i) = (\<lambda>i. if i < m then None else B i)"
      using ih(2) by (auto simp: fun_eq_iff)
    have "\<forall>i\<in>{e..<m}. B i \<noteq> None"
    proof
      fix i assume "i \<in> {e..<m}"
      then show "B i \<noteq> None" using ih(3) Some by (cases "i = e") auto
    qed
    moreover have "B m = None" using ih(2,4) by simp
    moreover have "[e..m - 1] = e # [e + 1..m - 1]" using ih(2) by (subst upto.simps) simp
    then have "handed (HandOver (pkt_copy q) # [Freed q] @ out) = List.map (\<lambda>i. pkt_copy (the (B i))) [e..m - 1]"
      using Some ih(5) by simp
    moreover have "same_conf t t'" using ih(7) by (simp add: same_conf_def hand_next_def)
    ultimately show ?thesis using step ih(1,2,6,8) m
      by (intro exI[of _ m] exI[of _ "HandOver (pkt_copy q) # [Freed q] @ out"] exI[of _ t']) simp
  qed
qed

subsection \<open>One arrival\<close>

definition rcvd :: "tpacket \<Rightarrow> tpacket" where
  "rcvd p = set_hdr (\<lambda>h. h\<lparr>ifTunnel := 0\<rparr>) p"

lemma rcvd_fields [simp]:
  "genIndex (hdr (rcvd p)) = genIndex (hdr p)" "ifParity (hdr (rcvd p)) = ifParity (hdr p)" "inner (rcvd p) = inner p"
  "genID (hdr (rcvd p)) = genID (hdr p)" "headGenIndex (hdr (rcvd p)) = headGenIndex (hdr p)"
  "ParityIndex (hdr (rcvd p)) = ParityIndex (hdr p)" "blockSize (hdr (rcvd p)) = blockSize (hdr p)"
  "formerCLBPackets (rcvd p) = formerCLBPackets p"
  by (simp_all add: rcvd_def inner_def)

text \<open>An original packet within the window that has not arrived is stored.\<close>

lemma insert_original_ring:
  assumes r: "ring h e B t" and p: "ifParity (hdr p) = 0" "genIndex (hdr p) = n mod MAX_PACKETS_COUNT"
    and n: "e \<le> n" "n < h + rb_capacity t" "B n = None"
  shows "\<exists>t1. insert_original p t = (if BlockSize_MaxP t = 0 then Inr ([], t1)
        else bind_r (count_original (n mod MAX_PACKETS_COUNT) t1) (\<lambda>t2. Inr ([], t2))) \<and>
    ring h e (B(n \<mapsto> p)) t1 \<and>
    (\<exists>buf c u. t1 = t\<lparr>rb_buffer := buf, rb_count := c, packetsUnHanded := u\<rparr>)"
proof -
  note d = r[unfolded ring_def ring_on_def]
  have win: "h \<le> n" "n - e < MAX_PACKETS_COUNT" "n - h < MAX_PACKETS_COUNT" "n - e \<le> MAX_PACKETS_COUNT div 2" "n - h < rb_capacity t"
    using d n(1,2) by (auto simp: MAX_PACKETS_COUNT_def)
  have a: "ahead (genIndex (hdr p)) (expectHandOverGenIndex t) = n - e" "ahead (genIndex (hdr p)) (rb_headIndex t) = n - h"
    using ahead_mod[of n e] ahead_mod[of n h] d p n win by auto
  have sl: "insert_slot p t = Inr ((rb_head t + (n - h)) mod rb_capacity t)" (is "_ = Inr ?i")
    by (rule insert_slot_ring[OF r win(1) n(2) p(2)])
  have at: "arr_at ?i (rb_buffer t) = Inr None" using ring_at[OF r[unfolded ring_def] win(1) n(2)] n(3) by simp
  have pt: "arr_put ?i (Some p) (rb_buffer t) = Inr ((rb_buffer t)[nat ?i := Some p])"
    using d by (simp add: arr_put_def)
  let ?t = "t\<lparr>rb_buffer := (rb_buffer t)[nat ?i := Some p], rb_count := rb_count t + 1, packetsUnHanded := packetsUnHanded t + 1\<rparr>"
  have ng: "\<not> n - e > MAX_GENERATION div 2" "\<not> n - h \<ge> rb_capacity t"
    using win by (auto simp: MAX_GENERATION_def MAX_PACKETS_COUNT_def)
  have "insert_original p t = (if BlockSize_MaxP t = 0 then Inr ([], ?t)
        else bind_r (count_original (n mod MAX_PACKETS_COUNT) ?t) (\<lambda>t2. Inr ([], t2)))"
    unfolding insert_original_def Let_def a if_not_P[OF ng(1)] if_not_P[OF ng(2)] sl bind_r_simps at option.case pt
    by (simp add: p(2))
  moreover have "ring h e (B(n \<mapsto> p)) ?t"
    using ring_put[OF r[unfolded ring_def] n(1,2,3), of p] p(1) by (simp add: ring_def)
  ultimately show ?thesis by (intro exI[of _ ?t]) blast
qed

lemma decode_plain:
  assumes r: "ring e e B t" and np: "BlockSize_MaxP t = 0" and p: "ifParity (hdr p) = 0" "genIndex (hdr p) = n mod MAX_PACKETS_COUNT"
    and n: "e \<le> n" "n < e + rb_capacity t" "B n = None"
  shows "\<exists>m out t'. decode now p t = Inr (out, t') \<and> e \<le> m \<and> (\<forall>i\<in>{e..<m}. (B(n \<mapsto> rcvd p)) i \<noteq> None) \<and> (B(n \<mapsto> rcvd p)) m = None \<and>
    handed out = List.map (\<lambda>i. pkt_copy (the ((B(n \<mapsto> rcvd p)) i))) [e..m - 1] \<and>
    ring m m (\<lambda>i. if i < m then None else (B(n \<mapsto> rcvd p)) i) t' \<and> same_conf t t' \<and>
    (t_status (decodeTimer t') = TIMER_PENDING \<longleftrightarrow> packetsUnHanded t' \<noteq> 0)"
proof -
  obtain t1 where t1: "insert_original (rcvd p) t = Inr ([], t1)" "ring e e (B(n \<mapsto> rcvd p)) t1"
    "\<exists>buf c u. t1 = t\<lparr>rb_buffer := buf, rb_count := c, packetsUnHanded := u\<rparr>"
    using insert_original_ring[OF r _ _ n, of "rcvd p"] p np by auto
  have c: "same_conf t t1" "BlockSize_MaxP t1 = 0" using t1(3) np by (auto simp: same_conf_def)
  obtain m out t' where k: "checkReorderBuffer now t1 = Inr (out, t')" "e \<le> m" "\<forall>i\<in>{e..<m}. (B(n \<mapsto> rcvd p)) i \<noteq> None"
    "(B(n \<mapsto> rcvd p)) m = None" "handed out = List.map (\<lambda>i. pkt_copy (the ((B(n \<mapsto> rcvd p)) i))) [e..m - 1]"
    "ring m m (\<lambda>i. if i < m then None else (B(n \<mapsto> rcvd p)) i) t'" "same_conf t1 t'"
    "t_status (decodeTimer t') = TIMER_PENDING \<longleftrightarrow> packetsUnHanded t' \<noteq> 0"
    using check_plain[OF t1(2) c(2), of now] by blast
  have "decode now p t = Inr (out, t')"
    using t1(1) p(1) c(2) k(1) by (simp add: decode_def insertReorderBuffer_def rcvd_def[symmetric])
  then show ?thesis using k(2-8) c(1) by (intro exI[of _ m] exI[of _ out] exI[of _ t']) (auto simp: same_conf_def simp del: fun_upd_apply)
qed

subsection \<open>A run\<close>

text \<open>The numbers may arrive in any order: none twice, and none before all those that are
  \<^verbatim>\<open>cap\<close> or more behind it.\<close>

fun window_ok :: "int \<Rightarrow> int set \<Rightarrow> int list \<Rightarrow> bool" where
  "window_ok cap S [] = True"
| "window_ok cap S (n # ns) = (0 \<le> n \<and> n \<notin> S \<and> {0..n - cap} \<subseteq> S \<and> window_ok cap (insert n S) ns)"

definition stored :: "(int \<Rightarrow> tpacket) \<Rightarrow> int set \<Rightarrow> int \<Rightarrow> int \<Rightarrow> tpacket option" where
  "stored pk S m i = (if i \<in> S \<and> m \<le> i then Some (rcvd (pk i)) else None)"

lemma decode_all_plain:
  assumes "ring m m (stored pk S m) t" and "BlockSize_MaxP t = 0"
    and "0 \<le> m" and "{0..<m} \<subseteq> S" and "m \<notin> S" and "window_ok (rb_capacity t) S (List.map snd xs)"
    and "\<forall>n\<in>snd ` set xs. ifParity (hdr (pk n)) = 0 \<and> genIndex (hdr (pk n)) = n mod MAX_PACKETS_COUNT"
  shows "\<exists>m' out t'. decode_all (List.map (\<lambda>(now, n). (now, pk n)) xs) t = Inr (out, t') \<and> m \<le> m' \<and>
    {0..<m'} \<subseteq> S \<union> snd ` set xs \<and> m' \<notin> S \<union> snd ` set xs \<and>
    handed out = List.map (\<lambda>i. pkt_copy (rcvd (pk i))) [m..m' - 1] \<and>
    (\<forall>N since. armed since t \<longrightarrow> (\<forall>n\<in>S \<union> snd ` set xs. n < N) \<longrightarrow> in_time (16 / 100000) N S since xs \<longrightarrow>
       timed_all (List.map (\<lambda>(now, n). (now, pk n)) xs) t = Some (Inr (out, t')))"
  using assms
proof (induction xs arbitrary: m S t)
  case Nil
  then show ?case by (intro exI[of _ m]) auto
next
  case (Cons x xs)
  obtain now n where x: "x = (now, n)" by fastforce
  have n: "0 \<le> n" "n \<notin> S" "{0..n - rb_capacity t} \<subseteq> S" "window_ok (rb_capacity t) (insert n S) (List.map snd xs)"
    using Cons.prems(6) x by simp_all
  have win1: "m \<le> n" using n(1,2) Cons.prems(4) by (meson atLeastLessThan_iff not_le subsetD)
  have win2: "n < m + rb_capacity t"
    using n(3) Cons.prems(3,5) by (meson atLeastAtMost_iff diff_le_eq le_diff_eq not_le subsetD)
  have win3: "stored pk S m n = None" using n(2) by (simp add: stored_def)
  have pk: "ifParity (hdr (pk n)) = 0" "genIndex (hdr (pk n)) = n mod MAX_PACKETS_COUNT" using Cons.prems(7) x by auto
  have B: "(stored pk S m)(n \<mapsto> rcvd (pk n)) = stored pk (insert n S) m"
    using win1 by (auto simp: stored_def fun_eq_iff)
  obtain m1 o1 t1 where d: "decode now (pk n) t = Inr (o1, t1)" "m \<le> m1" "\<forall>i\<in>{m..<m1}. stored pk (insert n S) m i \<noteq> None"
    "stored pk (insert n S) m m1 = None" "handed o1 = List.map (\<lambda>i. pkt_copy (the (stored pk (insert n S) m i))) [m..m1 - 1]"
    "ring m1 m1 (\<lambda>i. if i < m1 then None else stored pk (insert n S) m i) t1" "same_conf t t1"
    using decode_plain[OF Cons.prems(1,2) pk win1 win2 win3, of now, unfolded B] by blast
  have B1: "(\<lambda>i. if i < m1 then None else stored pk (insert n S) m i) = stored pk (insert n S) m1"
    using d(2) by (auto simp: stored_def fun_eq_iff)
  have in1: "i \<in> insert n S" if "m \<le> i" "i < m1" for i
    using d(3) that by (auto simp: stored_def split: if_splits)
  have "{0..<m1} \<subseteq> insert n S"
  proof
    fix i assume "i \<in> {0..<m1}"
    then show "i \<in> insert n S" using in1[of i] Cons.prems(4) by (cases "i < m") auto
  qed
  moreover have "m1 \<notin> insert n S" using d(2,4) by (auto simp: stored_def split: if_splits)
  moreover have c: "BlockSize_MaxP t1 = 0" "rb_capacity t1 = rb_capacity t" using d(7) Cons.prems(2) by (auto simp: same_conf_def)
  ultimately obtain m' o2 t' where ih: "decode_all (List.map (\<lambda>(now, n). (now, pk n)) xs) t1 = Inr (o2, t')" "m1 \<le> m'"
    "{0..<m'} \<subseteq> insert n S \<union> snd ` set xs" "m' \<notin> insert n S \<union> snd ` set xs"
    "handed o2 = List.map (\<lambda>i. pkt_copy (rcvd (pk i))) [m1..m' - 1]"
    "\<forall>N since. armed since t1 \<longrightarrow> (\<forall>n\<in>insert n S \<union> snd ` set xs. n < N) \<longrightarrow> in_time (16 / 100000) N (insert n S) since xs \<longrightarrow>
       timed_all (List.map (\<lambda>(now, n). (now, pk n)) xs) t1 = Some (Inr (o2, t'))"
    using Cons.IH[of m1 "insert n S" t1] d(2,6) B1 n(4) Cons.prems(3,7) by auto
  have tm: "timed_all (List.map (\<lambda>(now, n). (now, pk n)) (x # xs)) t = Some (Inr (o1 @ o2, t'))"
    if a: "armed since t" "\<forall>n\<in>S \<union> snd ` set (x # xs). n < N" "in_time (16 / 100000) N S since (x # xs)" for N since
  proof -
    have "now < since + decode_delay t" if w: "packetsUnHanded t \<noteq> 0"
    proof -
      obtain i where i: "m \<le> i" "stored pk S m i \<noteq> None" using ring_waiting[OF Cons.prems(1) w] by blast
      then have "i \<in> S" "i \<noteq> m" using Cons.prems(5) by (auto simp: stored_def split: if_splits)
      then have "m \<in> {0..<i}" using i(1) Cons.prems(3) by simp
      then have "gap N S" using \<open>i \<in> S\<close> a(2) Cons.prems(5) unfolding gap_def by blast
      then show ?thesis using a(3) x Cons.prems(2) by (simp add: decode_delay_def ENCODE_TIMER_LENGTH_def)
    qed
    moreover have "timed_all (List.map (\<lambda>(now, n). (now, pk n)) xs) t1 = Some (Inr (o2, t'))"
      using ih(6) decode_armed[OF d(1)] a(2,3) x by simp
    ultimately show ?thesis using timed_step[OF a(1) _ d(1)] x by simp
  qed
  have "[m..m' - 1] = [m..m1 - 1] @ [m1..m' - 1]" using d(2) ih(2) by (cases "m1 = m'") (auto intro: upto_split1)
  moreover have "handed o1 = List.map (\<lambda>i. pkt_copy (rcvd (pk i))) [m..m1 - 1]"
    unfolding d(5) using in1 by (auto simp: stored_def)
  moreover have "decode_all (List.map (\<lambda>(now, n). (now, pk n)) (x # xs)) t = Inr (o1 @ o2, t')" using d(1) ih(1) x by simp
  moreover have "m \<le> m'" "{0..<m'} \<subseteq> S \<union> snd ` set (x # xs)" "m' \<notin> S \<union> snd ` set (x # xs)" using d(2) ih(2-4) x by auto
  moreover have "handed (o1 @ o2) = handed o1 @ handed o2" by simp
  ultimately show ?case using tm ih(5)
    by (intro exI[of _ m'] exI[of _ "o1 @ o2"] exI[of _ t']) (simp only: map_append simp_thms, blast)
qed

lemma ring_new:
  assumes "new_CLBTunnel n p = Inr t" and "p < n" and "6 * (n - p) \<le> MAX_PACKETS_COUNT"
  shows "ring 0 0 (\<lambda>_. None) t" and "BlockSize_MaxP t = p" and "rb_capacity t = 3 * (n - p)" and "BlockSize_MaxK t = n - p"
  using assms by (auto simp: new_CLBTunnel_def ring_def ring_on_def ReorderGenNumber_def split: if_splits)

lemma armed_new: "new_CLBTunnel n p = Inr t \<Longrightarrow> armed since t"
  by (auto simp: new_CLBTunnel_def armed_def timer_new_def split: if_splits)

text \<open>C6: A new tunnel without parity packets, \<^verbatim>\<open>6K \<le> 65536\<close>, keeps the order: the sender takes any number of packets
  (the 16-bit numbers may wrap), the network delivers those with the numbers in \<^verbatim>\<open>xs\<close> in this
  order, none twice and none before all those that are \<^verbatim>\<open>3K\<close> or more behind it, and none 160 microseconds or more
  after the one before it while a packet waits for an earlier one, so that the decode timer does not expire; the
  receiver hands over what the sender took, in order, up to the first packet that has not arrived.\<close>

theorem tunnel_in_order:
  assumes "new_CLBTunnel K 0 = Inr t0" and "0 < K" and "6 * K \<le> 65536"
    and "window_ok (3 * K) {} (List.map snd xs)" and "\<forall>n\<in>snd ` set xs. n < int (length ps)"
    and "in_time (16 / 100000) (int (length ps)) {} 0 xs"
    and "0 \<le> m" and "{0..<m} \<subseteq> snd ` set xs" and "m \<notin> snd ` set xs"
  shows "\<exists>sent t1 out t2. encode_all ps t0 = Inr (List.map HandOver sent, t1) \<and>
    timed_all (List.map (\<lambda>(now, n). (now, sent ! nat n)) xs) t0 = Some (Inr (out, t2)) \<and>
    List.map inner (handed out) = List.map (inner \<circ> snd) (take (nat m) ps)"
proof -
  let ?sent = "numbered_from 0 ps" and ?pk = "\<lambda>n. numbered_from 0 ps ! nat n"
  have s0: "sending (nat K) 0 0 0 [] t0" using sending_new[of "nat K" 0 t0] assms(1,2) by simp
  then obtain t1 where t1: "encode_all ps t0 = Inr (List.map HandOver ?sent, t1)" using encode_all_plain by blast
  have r0: "ring 0 0 (\<lambda>_. None) t0" "BlockSize_MaxP t0 = 0" "rb_capacity t0 = 3 * K"
    using ring_new[OF assms(1)] assms(2,3) by (simp_all add: MAX_PACKETS_COUNT_def)
  have B0: "stored ?pk {} 0 = (\<lambda>_. None)" by (simp add: stored_def fun_eq_iff)
  have nn: "0 \<le> n" if "n \<in> set ns" "window_ok c S ns" for n ns c S
    using that by (induction ns arbitrary: S) auto
  have pk: "\<forall>n\<in>snd ` set xs. ifParity (hdr (?pk n)) = 0 \<and> genIndex (hdr (?pk n)) = n mod MAX_PACKETS_COUNT"
  proof
    fix n assume n: "n \<in> snd ` set xs"
    then have "0 \<le> n" "n < int (length ps)" using nn[of n "List.map snd xs"] assms(4,5) by auto
    then show "ifParity (hdr (?pk n)) = 0 \<and> genIndex (hdr (?pk n)) = n mod MAX_PACKETS_COUNT"
      using numbered_from_nth[of "nat n" ps 0] by (simp add: MAX_PACKETS_COUNT_def)
  qed
  have win: "window_ok (rb_capacity t0) {} (List.map snd xs)" using assms(4) r0(3) by simp
  from decode_all_plain[of 0 ?pk "{}" t0 xs, unfolded B0, OF r0(1,2) _ _ _ win pk]
  obtain m' out t2 where d: "0 \<le> m'"
    "{0..<m'} \<subseteq> snd ` set xs" "m' \<notin> snd ` set xs" "handed out = List.map (\<lambda>i. pkt_copy (rcvd (?pk i))) [0..m' - 1]"
    and tm: "\<forall>N since. armed since t0 \<longrightarrow> (\<forall>n\<in>{} \<union> snd ` set xs. n < N) \<longrightarrow> in_time (16 / 100000) N {} since xs \<longrightarrow>
       timed_all (List.map (\<lambda>(now, n). (now, ?pk n)) xs) t0 = Some (Inr (out, t2))"
    by auto
  have run: "timed_all (List.map (\<lambda>(now, n). (now, ?pk n)) xs) t0 = Some (Inr (out, t2))"
    using tm[rule_format, of 0 "int (length ps)"] armed_new[OF assms(1)] assms(5,6) by simp
  have "\<not> m < m'" "\<not> m' < m"
    using d(1,2,3) assms(7,8,9) by (meson atLeastLessThan_iff subsetD)+
  then have m: "m' = m" by simp
  have "m \<le> int (length ps)"
  proof (rule ccontr)
    assume "\<not> m \<le> int (length ps)"
    then have "int (length ps) \<in> snd ` set xs" using assms(8) by auto
    then show False using assms(5) by fastforce
  qed
  then have "List.map inner (handed out) = List.map (inner \<circ> snd) (take (nat m) ps)"
    using assms(7) by (intro nth_equalityI) (auto simp: d(4) m numbered_from_nth MAX_PACKETS_COUNT_def)
  then show ?thesis using t1 run by blast
qed

text \<open>Four packets through a tunnel with \<^verbatim>\<open>K = 2\<close>, in the order 2, 0, 3, 1, from 5 s, 100 microseconds apart.\<close>

definition ex_tun_packet :: "int \<Rightarrow> tpacket" where
  "ex_tun_packet i = Pkt (packet.extend (Packet_alloc\<lparr>uid := i, daddr := 9\<rparr>)
     \<lparr> ptype_DV = False, genIndex = 0, ifParity = 0, genID = 0, headGenIndex = 0, ParityIndex = 0, blockSize = 0 \<rparr>) []"

definition ex_tun_packets :: "int list \<Rightarrow> ((nat \<Rightarrow> nat) \<times> tpacket) list" where
  "ex_tun_packets is = List.map (\<lambda>i. ((\<lambda>_. 7), ex_tun_packet i)) is"

lemma tunnel_in_order_witness:
  "\<exists>t0 sent t1 out t2. new_CLBTunnel 2 0 = Inr t0 \<and>
    encode_all (ex_tun_packets [10, 11, 12, 13]) t0 = Inr (List.map HandOver sent, t1) \<and>
    timed_all [(5, sent ! 2), (50001 / 10000, sent ! 0), (50002 / 10000, sent ! 3), (50003 / 10000, sent ! 1)] t0 = Some (Inr (out, t2)) \<and>
    List.map inner (handed out) = List.map (inner \<circ> ex_tun_packet) [10, 11, 12, 13]"
proof -
  obtain t0 where t0: "new_CLBTunnel 2 0 = Inr t0" by (simp add: new_CLBTunnel_def)
  let ?xs = "[(5, 2), (50001 / 10000, 0), (50002 / 10000, 3), (50003 / 10000, 1)] :: (rat \<times> int) list"
  have "window_ok (3 * 2) {} (List.map snd ?xs)" by simp
  moreover have "in_time (16 / 100000) 4 {} 0 ?xs" by (simp add: gap_def)
  moreover have "{0..<4} \<subseteq> snd ` set ?xs" by auto
  ultimately show ?thesis
    using tunnel_in_order[OF t0, of ?xs "ex_tun_packets [10, 11, 12, 13]" 4] t0
    by (simp add: ex_tun_packets_def)
qed

subsection \<open>The timeout\<close>

text \<open>The packets that a timeout finds missing are given up one by one.\<close>

lemma ring_give_up:
  assumes r: "ring e e B t" and n: "B e = None"
  shows "ring (e + 1) (e + 1) B (t\<lparr>expectHandOverGenIndex := (expectHandOverGenIndex t + 1) smod MAX_PACKETS_COUNT,
      rb_headIndex := (rb_headIndex t + 1) smod MAX_PACKETS_COUNT, rb_head := (rb_head t + 1) mod rb_capacity t\<rparr>)"
proof -
  have "rb_buffer t ! nat (rb_head t) = None"
    using r n by (auto simp: ring_def ring_on_def dest!: spec[of _ 0])
  then have b: "(rb_buffer t)[nat (rb_head t) := None] = rb_buffer t" by (metis list_update_id)
  have u: "B(e := None) = B" using n by (auto simp: fun_eq_iff)
  show ?thesis using ring_slide[OF ring_skip[OF r[unfolded ring_def] n]] unfolding u b by (simp add: ring_def)
qed

lemma skip_step:
  assumes r: "ring e e B t"
  shows "skip_loop (Suc n) now t = (if B e \<noteq> None then checkReorderBuffer now t
    else skip_loop n now (t\<lparr>expectHandOverGenIndex := (expectHandOverGenIndex t + 1) smod MAX_PACKETS_COUNT,
      rb_headIndex := (rb_headIndex t + 1) smod MAX_PACKETS_COUNT, rb_head := (rb_head t + 1) mod rb_capacity t\<rparr>))"
proof -
  have d: "0 \<le> rb_head t" "rb_head t < rb_capacity t" "expectHandOverGenIndex t = rb_headIndex t"
    using r by (simp_all add: ring_def ring_on_def)
  have "arr_at (rb_head t) (rb_buffer t) = Inr (B e)"
    using ring_at[OF r[unfolded ring_def], of e] d(1,2) by simp
  moreover have "c_rem (rb_head t + 1) (rb_capacity t) = Inr ((rb_head t + 1) mod rb_capacity t)"
    using d by (simp add: c_rem_def smod_nonneg)
  ultimately show ?thesis using d(3) by simp
qed

lemma skip_loop_ring:
  assumes "ring e e B t" and "\<forall>i\<in>{e..<e + int g}. B i = None" and "B (e + int g) \<noteq> None"
  shows "\<exists>t'. skip_loop n now t = (if g < n then checkReorderBuffer now t' else Inr ([], t')) \<and>
    ring (e + int (min g n)) (e + int (min g n)) B t' \<and> same_conf t t' \<and> decodeTimer t' = decodeTimer t"
  using assms
proof (induction n arbitrary: e g t)
  case 0
  then show ?case by (intro exI[of _ t]) (simp add: same_conf_def)
next
  case (Suc n)
  show ?case
  proof (cases g)
    case 0
    then show ?thesis using Suc.prems skip_step[OF Suc.prems(1), of n now] by (intro exI[of _ t]) (simp add: same_conf_def)
  next
    case (Suc g')
    let ?t = "t\<lparr>expectHandOverGenIndex := (expectHandOverGenIndex t + 1) smod MAX_PACKETS_COUNT,
      rb_headIndex := (rb_headIndex t + 1) smod MAX_PACKETS_COUNT, rb_head := (rb_head t + 1) mod rb_capacity t\<rparr>"
    have e: "B e = None" using Suc.prems(2) Suc by auto
    have "\<forall>i\<in>{e + 1..<(e + 1) + int g'}. B i = None" "B ((e + 1) + int g') \<noteq> None"
      using Suc.prems(2,3) Suc by (auto simp: add.assoc)
    from Suc.IH[OF ring_give_up[OF Suc.prems(1) e] this]
    show ?thesis using skip_step[OF Suc.prems(1), of n now] e Suc
      by (auto simp: same_conf_def algebra_simps)
  qed
qed

text \<open>The timer of a tunnel without parity packets expires while \<^verbatim>\<open>g\<close> packets in a row are
  missing.  If they are fewer than \<^verbatim>\<open>K\<close>, they are given up and the packets that follow are
  handed over in order; otherwise \<^verbatim>\<open>K\<close> of them are given up, nothing is handed over, and the
  timer stops although packets wait.\<close>

theorem tunnel_timeout:
  assumes "ring e e B t" and "BlockSize_MaxP t = 0" and "t_status (decodeTimer t) = TIMER_PENDING"
    and "0 < g" and "\<forall>i\<in>{e..<e + int g}. B i = None" and "B (e + int g) \<noteq> None"
  shows "\<exists>out t'. DecodeTimer_handle now t = Inr (out, t') \<and>
    (if int g < BlockSize_MaxK t
     then \<exists>m. e + int g < m \<and> B m = None \<and> handed out = List.map (\<lambda>i. pkt_copy (the (B i))) [e + int g..m - 1] \<and>
       (\<forall>i\<in>{e + int g..<m}. B i \<noteq> None) \<and> ring m m (\<lambda>i. if i < m then None else B i) t' \<and>
       (t_status (decodeTimer t') = TIMER_PENDING \<longleftrightarrow> packetsUnHanded t' \<noteq> 0)
     else out = [] \<and> 0 < packetsUnHanded t' \<and> t_status (decodeTimer t') = TIMER_IDLE)"
proof -
  let ?t = "t\<lparr>decodeTimer := (decodeTimer t)\<lparr>t_event := None, t_status := TIMER_HANDLING\<rparr>\<rparr>"
  let ?n = "nat (BlockSize_MaxK t)"
  have r: "ring e e B ?t" using assms(1) by (simp add: ring_timer)
  have un: "\<not> packetsUnHanded ?t < 0" "packetsUnHanded ?t \<noteq> 0"
    using ring_unhanded_pos[OF assms(1) _ assms(6)] by auto
  have d: "0 \<le> rb_head t" "rb_head t < rb_capacity t" "expectHandOverGenIndex t = rb_headIndex t"
    using assms(1) by (simp_all add: ring_def ring_on_def)
  have Be: "B e = None" using assms(4,5) by auto
  have pos: "expect_pos ?t = Inr (rb_head t)" using expect_pos_ring[OF r] d by simp
  have at: "arr_at (rb_head t) (rb_buffer t) = Inr None"
    using ring_at[OF assms(1)[unfolded ring_def], of e] d(1,2) Be by simp
  have to: "decodeTimeout now ?t = skip_loop ?n now ?t"
    using un d assms(2) pos at by (simp add: decodeTimeout_def)
  obtain t1 where t1: "skip_loop ?n now ?t = (if g < ?n then checkReorderBuffer now t1 else Inr ([], t1))"
    "ring (e + int (min g ?n)) (e + int (min g ?n)) B t1" "same_conf ?t t1" "decodeTimer t1 = decodeTimer ?t"
    using skip_loop_ring[OF r assms(5,6), of ?n now] by blast
  have h: "DecodeTimer_handle now t = bind_r (skip_loop ?n now ?t) (\<lambda>(out, s').
      Inr (out, if t_status (decodeTimer s') = TIMER_HANDLING then s'\<lparr>decodeTimer := (decodeTimer s')\<lparr>t_status := TIMER_IDLE\<rparr>\<rparr> else s'))"
    using assms(3) to by (simp add: DecodeTimer_handle_def timer_handle_def)
  show ?thesis
  proof (cases "int g < BlockSize_MaxK t")
    case True
    then have g: "g < ?n" "min g ?n = g" by auto
    have p1: "BlockSize_MaxP t1 = 0" using t1(3) assms(2) by (simp add: same_conf_def)
    obtain m out t' where c: "checkReorderBuffer now t1 = Inr (out, t')" "e + int g \<le> m" "\<forall>i\<in>{e + int g..<m}. B i \<noteq> None" "B m = None"
      "handed out = List.map (\<lambda>i. pkt_copy (the (B i))) [e + int g..m - 1]" "ring m m (\<lambda>i. if i < m then None else B i) t'"
      "t_status (decodeTimer t') = TIMER_PENDING \<longleftrightarrow> packetsUnHanded t' \<noteq> 0"
      using check_plain[OF t1(2)[unfolded g(2)] p1] by blast
    have "m \<noteq> e + int g" using c(4) assms(6) by auto
    then have "e + int g < m" using c(2) by simp
    then show ?thesis using True g(1) c unfolding h t1(1)
      by (simp add: ring_timer) (auto simp: ring_def)
  next
    case False
    then have g: "\<not> g < ?n" by auto
    have "0 < packetsUnHanded t1" by (rule ring_unhanded_pos[OF t1(2) _ assms(6)]) simp
    then show ?thesis using False g t1(4) unfolding h t1(1) by simp
  qed
qed

text \<open>With \<^verbatim>\<open>K = 2\<close> only packet number 2 has arrived.\<close>

lemma tunnel_timeout_witness:
  "\<exists>t0 out t t'. new_CLBTunnel 2 0 = Inr t0 \<and> decode 0 (original (\<lambda>_. 7) 2 (ex_tun_packet 12)) t0 = Inr (out, t) \<and>
    DecodeTimer_handle 1 t = Inr ([], t') \<and> 0 < packetsUnHanded t' \<and> t_status (decodeTimer t') = TIMER_IDLE"
proof -
  let ?p = "original (\<lambda>_. 7) 2 (ex_tun_packet 12)" and ?B = "(\<lambda>_. None)(2 := Some (rcvd (original (\<lambda>_. 7) 2 (ex_tun_packet 12))))"
  obtain t0 where t0: "new_CLBTunnel 2 0 = Inr t0" by (simp add: new_CLBTunnel_def)
  have r0: "ring 0 0 (\<lambda>_. None) t0" "BlockSize_MaxP t0 = 0" "rb_capacity t0 = 6" "BlockSize_MaxK t0 = 2"
    using ring_new[OF t0] by (simp_all add: MAX_PACKETS_COUNT_def)
  obtain m out t where d: "decode 0 ?p t0 = Inr (out, t)" "0 \<le> m" "\<forall>i\<in>{0..<m}. ?B i \<noteq> None" "?B m = None"
    "ring m m (\<lambda>i. if i < m then None else ?B i) t" "same_conf t0 t"
    "t_status (decodeTimer t) = TIMER_PENDING \<longleftrightarrow> packetsUnHanded t \<noteq> 0"
    using decode_plain[OF r0(1,2), of ?p 2 0] r0(3) by (auto simp: MAX_PACKETS_COUNT_def)
  have m: "m = 0"
  proof (rule ccontr)
    assume "m \<noteq> 0"
    then have "0 \<in> {0..<m}" using d(2) by simp
    from d(3)[rule_format, OF this] show False by simp
  qed
  let ?C = "\<lambda>i. if i < 0 then None else ?B i"
  have r: "ring 0 0 ?C t" using d(5) m by simp
  have g: "\<forall>i\<in>{0..<0 + int 2}. ?C i = None" "?C (0 + int 2) \<noteq> None" by auto
  have "t_status (decodeTimer t) = TIMER_PENDING" "BlockSize_MaxP t = 0" "\<not> int 2 < BlockSize_MaxK t"
    using ring_unhanded_pos[OF r _ g(2)] d(6,7) r0 by (auto simp: same_conf_def)
  then show ?thesis using tunnel_timeout[OF r _ _ _ g, of 1] t0 d(1) by auto
qed

end
