(* ===== verification/TunnelRecover.thy ===== *)
theory TunnelRecover
  imports TunnelOrder
begin

text \<open>
  A tunnel with parity packets (\<^verbatim>\<open>P > 0\<close>): the first generation of a receiver.  The packets of
  a generation have the numbers \<^verbatim>\<open>0..K-1\<close> (originals) and \<^verbatim>\<open>K..K+P-1\<close> (parity packets); \<^verbatim>\<open>pk\<close> maps
  a number to the packet on the wire and \<^verbatim>\<open>S\<close> is the set of the numbers that have arrived.
\<close>

definition orig_of :: "int \<Rightarrow> (int \<Rightarrow> tpacket) \<Rightarrow> int set \<Rightarrow> int \<Rightarrow> tpacket option" where
  "orig_of K pk S i = (if i \<in> S \<and> 0 \<le> i \<and> i < K then Some (rcvd (pk i)) else None)"

definition par_of :: "int \<Rightarrow> nat \<Rightarrow> (int \<Rightarrow> tpacket) \<Rightarrow> int set \<Rightarrow> tpacket option list" where
  "par_of K P pk S = List.map (\<lambda>j. if K + int j \<in> S then Some (rcvd (pk (K + int j))) else None) [0..<P]"

definition pars :: "int \<Rightarrow> int set \<Rightarrow> nat" where
  "pars K S = card {s\<in>S. K \<le> s}"

definition pb_state :: "int \<Rightarrow> nat \<Rightarrow> (int \<Rightarrow> tpacket) \<Rightarrow> int set \<Rightarrow> parity_buffer \<Rightarrow> bool" where
  "pb_state K P pk S b \<longleftrightarrow> pb_buffer b = par_of K P pk S \<and> pb_genID b = 0 \<and> pb_blockSize b = K \<and> pb_headIndex b = 0 \<and>
     (if pars K S = 0 then pb_ifUpdated b = 0 \<and> pb_count b = 0
      else pb_ifUpdated b = 1 \<and> pb_last b = K - 1 \<and> pb_count b = int (card S))"

definition coded :: "int \<Rightarrow> nat \<Rightarrow> tunnel \<Rightarrow> bool" where
  "coded K P t \<longleftrightarrow> 0 < K \<and> 6 * K \<le> MAX_PACKETS_COUNT \<and> 0 < P \<and> BlockSize_MaxP t = int P \<and> BlockSize_N t = K + int P \<and>
     BlockSize_MaxK t = K \<and> rb_capacity t = 3 * K"

definition collecting :: "int \<Rightarrow> nat \<Rightarrow> (int \<Rightarrow> tpacket) \<Rightarrow> int set \<Rightarrow> int \<Rightarrow> tunnel \<Rightarrow> bool" where
  "collecting K P pk S e t \<longleftrightarrow> coded K P t \<and> ring 0 e (orig_of K pk S) t \<and> S \<subseteq> {0..<K + int P} \<and> {0..<e} \<subseteq> S \<and> e \<le> K \<and>
     headReorderBuffer t = 0 \<and> packetsCountInParityBuffer t = int (pars K S) \<and>
     (\<exists>b. parityBuffer t = [b, new_parity_buffer K (int P) 1, new_parity_buffer K (int P) 2] \<and> pb_state K P pk S b)"

text \<open>The packets of a generation on the wire.\<close>

definition wire :: "int \<Rightarrow> nat \<Rightarrow> (int \<Rightarrow> tpacket) \<Rightarrow> bool" where
  "wire K P pk \<longleftrightarrow> (\<forall>i. 0 \<le> i \<and> i < K \<longrightarrow> ifParity (hdr (pk i)) = 0 \<and> genIndex (hdr (pk i)) = i) \<and>
     (\<forall>j. j < P \<longrightarrow> (let p = pk (K + int j) in ifParity (hdr p) = 1 \<and> genID (hdr p) = 0 \<and> headGenIndex (hdr p) = 0 \<and>
        ParityIndex (hdr p) = int j \<and> blockSize (hdr p) = K \<and> formerCLBPackets p = List.map (\<lambda>i. pkt_copy (pk i)) [0..K - 1]))"

lemma finite_arrived: "S \<subseteq> {0..<K + int P} \<Longrightarrow> finite S"
  by (rule finite_subset) auto

lemma pars_insert:
  assumes "finite S" and "n \<notin> S"
  shows "pars K (insert n S) = (if K \<le> n then Suc (pars K S) else pars K S)"
proof -
  have "{s \<in> insert n S. K \<le> s} = (if K \<le> n then insert n {s\<in>S. K \<le> s} else {s\<in>S. K \<le> s})" by auto
  then show ?thesis using assms by (simp add: pars_def)
qed

lemma orig_of_insert:
  "0 \<le> n \<Longrightarrow> n < K \<Longrightarrow> (orig_of K pk S)(n \<mapsto> rcvd (pk n)) = orig_of K pk (insert n S)"
  "K \<le> n \<Longrightarrow> orig_of K pk (insert n S) = orig_of K pk S"
  by (auto simp: orig_of_def fun_eq_iff)

lemma par_of_insert:
  "n < K \<Longrightarrow> par_of K P pk (insert n S) = par_of K P pk S"
  "j < P \<Longrightarrow> par_of K P pk (insert (K + int j) S) = (par_of K P pk S)[j := Some (rcvd (pk (K + int j)))]"
  by (auto simp: par_of_def list_eq_iff_nth_eq nth_list_update)

lemma smod3 [simp]: "(0::int) smod 3 = 0" "(1::int) smod 3 = 1" "(2::int) smod 3 = 2" "(3::int) smod 3 = 0" "(4::int) smod 3 = 1"
  by (simp_all add: smod_nonneg)

lemma upd_pb_head [simp]: "parityBuffer t = b # bs \<Longrightarrow> upd_pb 0 f t = Inr (t\<lparr>parityBuffer := f b # bs\<rparr>)"
  by (simp add: upd_pb_def)

subsection \<open>An original packet arrives\<close>

lemma ring_parity_buffer [simp]: "ring h e B (t\<lparr>parityBuffer := x\<rparr>) = ring h e B t"
  by (simp add: ring_def)

lemma count_original_collecting:
  assumes t: "parityBuffer t = [b, new_parity_buffer K p 1, new_parity_buffer K p 2]" "headReorderBuffer t = 0"
    and b: "pb_headIndex b = 0" and g: "0 \<le> g" "g < K" "6 * K \<le> MAX_PACKETS_COUNT"
    and u: "pb_ifUpdated b = 0 \<or> pb_ifUpdated b = 1 \<and> pb_last b = K - 1"
  shows "count_original (g mod MAX_PACKETS_COUNT) t =
    Inr (t\<lparr>parityBuffer := [if pb_ifUpdated b = 1 then b\<lparr>pb_count := pb_count b + 1\<rparr> else b, new_parity_buffer K p 1, new_parity_buffer K p 2]\<rparr>)"
proof -
  have a: "ahead (g mod MAX_PACKETS_COUNT) 0 = g" "ahead (K - 1) (g mod MAX_PACKETS_COUNT) = K - 1 - g"
    "g < MAX_PACKETS_COUNT div 2" "K - 1 - g < MAX_PACKETS_COUNT div 2"
    using ahead_mod[of g 0] ahead_mod[of "K - 1" g] g by (auto simp: MAX_PACKETS_COUNT_def)
  have n: "nat (ReorderGenNumber - 1) = Suc (Suc 0)" by (simp add: ReorderGenNumber_def)
  have skip: "count_in (nat (ReorderGenNumber - 1)) 1 x (t\<lparr>parityBuffer := [c, new_parity_buffer K p 1, new_parity_buffer K p 2]\<rparr>) =
      Inr (t\<lparr>parityBuffer := [c, new_parity_buffer K p 1, new_parity_buffer K p 2]\<rparr>)" for c x
    unfolding n by (simp add: t(2) ReorderGenNumber_def new_parity_buffer_def arr_at_def Let_def)
  have t': "t\<lparr>parityBuffer := [b, new_parity_buffer K p 1, new_parity_buffer K p 2]\<rparr> = t" using t(1) by simp
  show ?thesis using u
    by (auto simp: count_original_def t b a skip skip[of _ b, unfolded t'] t')
qed

lemma insert_original_collecting:
  assumes c: "collecting K P pk S e t" and w: "wire K P pk" and n: "0 \<le> n" "n < K" "n \<notin> S"
  shows "\<exists>t1. insertReorderBuffer (rcvd (pk n)) t = Inr ([], t1) \<and> collecting K P pk (insert n S) e t1"
proof -
  note d = c[unfolded collecting_def coded_def]
  obtain b where b: "parityBuffer t = [b, new_parity_buffer K (int P) 1, new_parity_buffer K (int P) 2]" "pb_state K P pk S b"
    using d by blast
  have r: "ring 0 e (orig_of K pk S) t" and K: "6 * K \<le> MAX_PACKETS_COUNT" "rb_capacity t = 3 * K" using d by auto
  have e: "e \<le> n" using d n by (meson atLeastLessThan_iff not_le subsetD)
  have p: "ifParity (hdr (rcvd (pk n))) = 0" "genIndex (hdr (rcvd (pk n))) = n mod MAX_PACKETS_COUNT"
    using w n K(1) by (simp_all add: wire_def)
  have B: "(orig_of K pk S)(n \<mapsto> rcvd (pk n)) = orig_of K pk (insert n S)" "orig_of K pk S n = None"
    using orig_of_insert(1)[OF n(1,2)] n(3) by (simp_all add: orig_of_def)
  have S: "finite S" "pars K (insert n S) = pars K S"
    using d finite_arrived[of S K P] n pars_insert[of S n K] by auto
  obtain t1 buf k u where t1: "insert_original (rcvd (pk n)) t = bind_r (count_original (n mod MAX_PACKETS_COUNT) t1) (\<lambda>t2. Inr ([], t2))"
    "ring 0 e (orig_of K pk (insert n S)) t1" "t1 = t\<lparr>rb_buffer := buf, rb_count := k, packetsUnHanded := u\<rparr>"
    using insert_original_ring[OF r p e _ B(2)] B(1) K n d by auto
  let ?b = "if pb_ifUpdated b = 1 then b\<lparr>pb_count := pb_count b + 1\<rparr> else b"
  have "count_original (n mod MAX_PACKETS_COUNT) t1 = Inr (t1\<lparr>parityBuffer := [?b, new_parity_buffer K (int P) 1, new_parity_buffer K (int P) 2]\<rparr>)"
    by (rule count_original_collecting[OF _ _ _ n(1,2) K(1)]) (use t1(3) b d in \<open>auto simp: pb_state_def split: if_splits\<close>)
  then have "insertReorderBuffer (rcvd (pk n)) t = Inr ([], t1\<lparr>parityBuffer := [?b, new_parity_buffer K (int P) 1, new_parity_buffer K (int P) 2]\<rparr>)" (is "_ = Inr ([], ?t)")
    using t1(1) p(1) by (simp add: insertReorderBuffer_def)
  moreover have "pb_state K P pk (insert n S) ?b"
    using b(2) S n by (auto simp: pb_state_def par_of_insert)
  then have "collecting K P pk (insert n S) e ?t"
    using d t1(2,3) S n by (auto simp: collecting_def coded_def)
  ultimately show ?thesis by blast
qed

subsection \<open>A parity packet arrives\<close>

lemma count_slots_ring:
  assumes r: "ring h e B t" and "h \<le> i" and "i + int n \<le> h + rb_capacity t" and "0 \<le> s"
    and "s mod rb_capacity t = (rb_head t + (i - h)) mod rb_capacity t"
  shows "count_slots n s t = Inr (int (card {k. i \<le> k \<and> k < i + int n \<and> B k \<noteq> None}))"
  using assms(2-5)
proof (induction n arbitrary: i s)
  case (Suc n)
  have cap: "0 < rb_capacity t" using r by (simp add: ring_def ring_on_def)
  have at: "arr_at (s mod rb_capacity t) (rb_buffer t) = Inr (B i)"
    using ring_at[OF r[unfolded ring_def] Suc.prems(1)] Suc.prems(2,4) by simp
  have cr: "c_rem s (rb_capacity t) = Inr (s mod rb_capacity t)"
    using Suc.prems(3) cap by (simp add: c_rem_def smod_nonneg)
  let ?R = "{k. i + 1 \<le> k \<and> k < (i + 1) + int n \<and> B k \<noteq> None}"
  have "(s + 1) mod rb_capacity t = (s mod rb_capacity t + 1) mod rb_capacity t" by (simp add: mod_simps)
  also have "\<dots> = (rb_head t + (i + 1 - h)) mod rb_capacity t" unfolding Suc.prems(4) by (simp add: mod_simps algebra_simps)
  finally have "(s + 1) mod rb_capacity t = (rb_head t + (i + 1 - h)) mod rb_capacity t" .
  then have ih: "count_slots n (s + 1) t = Inr (int (card ?R))"
    using Suc.prems by (intro Suc.IH) auto
  have set: "{k. i \<le> k \<and> k < i + int (Suc n) \<and> B k \<noteq> None} = (if B i = None then ?R else insert i ?R)"
    by (auto simp: order_le_less)
  have "finite ?R" by (rule finite_subset[of _ "{i..<i + 1 + int n}"]) auto
  then have "int (card (insert i ?R)) = int (card ?R) + 1" by simp
  then show ?case unfolding count_slots.simps cr bind_r_simps at ih set
    by (cases "B i = None") (simp_all only: if_True if_False add_0_right simp_thms)
next
  case 0
  have "{k. i \<le> k \<and> k < i + int 0 \<and> B k \<noteq> None} = {}" by auto
  then show ?case by (simp only: count_slots.simps card.empty) simp
qed

lemma countPacketsInGen_ring:
  assumes r: "ring 0 e B t" and "parityBuffer t = b # bs" and "pb_ifUpdated b \<noteq> 0" and "pb_headIndex b = 0"
    and "0 \<le> pb_blockSize b" and "pb_blockSize b \<le> rb_capacity t"
  shows "countPacketsInGen 0 t = Inr (t\<lparr>parityBuffer := b\<lparr>pb_count := int (card {k. 0 \<le> k \<and> k < pb_blockSize b \<and> B k \<noteq> None})\<rparr> # bs\<rparr>)"
proof -
  note d = r[unfolded ring_def ring_on_def]
  have a: "ahead 0 (rb_headIndex t) = 0" using ahead_mod[of 0 0] d by simp
  have "c_rem (rb_head t) (rb_capacity t) = Inr (rb_head t)" using d by (simp add: c_rem_def smod_nonneg)
  moreover have "count_slots (nat (pb_blockSize b)) (rb_head t) t = Inr (int (card {k. 0 \<le> k \<and> k < pb_blockSize b \<and> B k \<noteq> None}))"
    using count_slots_ring[OF r, of 0 "nat (pb_blockSize b)" "rb_head t"] assms(5,6) d by simp
  ultimately show ?thesis using assms(2-4) a by (simp add: countPacketsInGen_def)
qed

lemma insert_parity_collecting:
  assumes c: "collecting K P pk S e t" and w: "wire K P pk" and j: "j < P" "K + int j \<notin> S" and e: "e < K"
  shows "\<exists>t1. insertReorderBuffer (rcvd (pk (K + int j))) t = Inr ([], t1) \<and> collecting K P pk (insert (K + int j) S) e t1"
proof -
  let ?p = "rcvd (pk (K + int j))" and ?S = "insert (K + int j) S"
  note d = c[unfolded collecting_def coded_def]
  obtain b where b: "parityBuffer t = [b, new_parity_buffer K (int P) 1, new_parity_buffer K (int P) 2]" "pb_state K P pk S b"
    using d by blast
  note bd = b(2)[unfolded pb_state_def]
  have r: "ring 0 e (orig_of K pk S) t" and K: "6 * K \<le> MAX_PACKETS_COUNT" "rb_capacity t = 3 * K" "0 < K" using d by auto
  have e0: "0 \<le> e" "expectHandOverGenIndex t = e mod MAX_PACKETS_COUNT" using r by (simp_all add: ring_def ring_on_def)
  have p: "ifParity (hdr ?p) = 1" "genID (hdr ?p) = 0" "headGenIndex (hdr ?p) = 0" "ParityIndex (hdr ?p) = int j" "blockSize (hdr ?p) = K"
    using w j by (simp_all add: wire_def Let_def)
  have last: "(K - 1) smod MAX_PACKETS_COUNT = K - 1" using K by (simp add: smod_nonneg)
  have a: "ahead (K - 1) (expectHandOverGenIndex t) = K - 1 - e"
    using ahead_mod[of "K - 1" e] e e0 K by simp
  have ng: "\<not> K - 1 - e > MAX_PACKETS_COUNT div 2" using e0 K by (simp add: MAX_PACKETS_COUNT_def)
  have g0: "MAX_GENERATION smod MAX_GENERATION = 0" "\<not> MAX_GENERATION < 0" by (simp_all add: MAX_GENERATION_def smod_nonneg)
  have at: "arr_at (int j) (pb_buffer b) = Inr None" using bd j by (simp add: arr_at_def par_of_def)
  have S: "finite S" "pars K ?S = Suc (pars K S)" "card ?S = Suc (card S)"
    using d finite_arrived[of S K P] j pars_insert[of S "K + int j" K] by auto
  have B: "orig_of K pk ?S = orig_of K pk S" by (rule orig_of_insert(2)) simp
  let ?b1 = "b\<lparr>pb_buffer := par_of K P pk ?S\<rparr>" and ?pbs = "[new_parity_buffer K (int P) 1, new_parity_buffer K (int P) 2]"
  let ?b2 = "b\<lparr>pb_buffer := par_of K P pk ?S, pb_ifUpdated := 1, pb_headIndex := 0, pb_blockSize := K, pb_last := K - 1, pb_count := int (card ?S)\<rparr>"
  have b1: "(pb_buffer b)[j := Some ?p] = par_of K P pk ?S" using bd par_of_insert(2)[OF j(1)] by simp
  let ?t1 = "t\<lparr>packetsCountInParityBuffer := int (pars K ?S)\<rparr>"
  have pc: "packetsCountInParityBuffer t + 1 = int (pars K ?S)" using d S by simp
  have "insert_parity ?p t = Inr ([], ?t1\<lparr>parityBuffer := ?b2 # ?pbs\<rparr>)"
  proof (cases "pars K S = 0")
    case True
    have "s < K" if "s \<in> S" for s using True that S(1) by (auto simp: pars_def not_le)
    then have "{k. 0 \<le> k \<and> k < K \<and> orig_of K pk S k \<noteq> None} = S"
      using subset_trans[of S "{0..<K + int P}" "{0..}"] d by (auto simp: orig_of_def)
    moreover have r1: "ring 0 e (orig_of K pk S) (t\<lparr>packetsCountInParityBuffer := x, parityBuffer := y\<rparr>)" for x y
      using r by (simp add: ring_def)
    ultimately have "countPacketsInGen 0 (?t1\<lparr>parityBuffer := b\<lparr>pb_buffer := par_of K P pk ?S, pb_ifUpdated := 1, pb_headIndex := 0,
        pb_blockSize := K, pb_last := K - 1\<rparr> # ?pbs\<rparr>) = Inr (?t1\<lparr>parityBuffer := b\<lparr>pb_buffer := par_of K P pk ?S, pb_ifUpdated := 1,
        pb_headIndex := 0, pb_blockSize := K, pb_last := K - 1, pb_count := int (card S)\<rparr> # ?pbs\<rparr>)"
      using countPacketsInGen_ring[OF r1] K by simp
    then show ?thesis using True bd d b(1) p last a ng at b1 pc S
      by (simp add: insert_parity_def Let_def g0 ReorderGenNumber_def)
  next
    case False
    then have "?b2 = ?b1\<lparr>pb_count := pb_count ?b1 + 1\<rparr>" using bd S by simp
    then show ?thesis using False bd d b(1) p last a ng at b1 pc S
      by (simp add: insert_parity_def Let_def g0 ReorderGenNumber_def)
  qed
  then have "insertReorderBuffer ?p t = Inr ([], ?t1\<lparr>parityBuffer := ?b2 # ?pbs\<rparr>)" using p(1) by (simp add: insertReorderBuffer_def)
  moreover have "pb_state K P pk ?S ?b2" using bd S by (simp add: pb_state_def)
  then have "collecting K P pk ?S e (?t1\<lparr>parityBuffer := ?b2 # ?pbs\<rparr>)"
    using d S j r B by (auto simp: collecting_def coded_def ring_def)
  ultimately show ?thesis by blast
qed

subsection \<open>Recovery\<close>

lemma gens3: "nat ReorderGenNumber = Suc (Suc (Suc 0))"
  by (simp add: ReorderGenNumber_def)

lemma decode_gens_idle:
  assumes "parityBuffer t = [b, new_parity_buffer K p 1, new_parity_buffer K p 2]" "headReorderBuffer t = 0"
  shows "decode_gens (Suc (Suc 0)) 1 t = Inr t"
  using assms by (simp add: ReorderGenNumber_def new_parity_buffer_def arr_at_def)

lemma decodeReorderBuffer_waits:
  assumes c: "collecting K P pk S e t" and "pars K S = 0 \<or> int (card S) < K"
  shows "decodeReorderBuffer t = Inr t"
proof (cases "pars K S = 0")
  case True
  then show ?thesis using c by (simp add: decodeReorderBuffer_def collecting_def)
next
  case False
  obtain b where b: "parityBuffer t = [b, new_parity_buffer K (int P) 1, new_parity_buffer K (int P) 2]"
    "pb_count b = int (card S)" "pb_blockSize b = K" "headReorderBuffer t = 0"
    using c False by (auto simp: collecting_def pb_state_def)
  have "decode_gens (Suc (Suc (Suc 0))) 0 t = decode_gens (Suc (Suc 0)) 1 t"
    using b assms(2) False by (simp add: ReorderGenNumber_def arr_at_def)
  then show ?thesis using decode_gens_idle[OF b(1,4)] c by (simp add: decodeReorderBuffer_def gens3)
qed

definition restored :: "tpacket \<Rightarrow> int \<Rightarrow> tpacket" where
  "restored q j = set_hdr (\<lambda>h. h\<lparr>ifParity := -1\<rparr>) (pkt_copy (formerCLBPackets q ! nat j))"

lemma recover_ring:
  assumes "ring 0 e B t" and "\<forall>j. 0 \<le> j \<and> j < e \<longrightarrow> B j \<noteq> None" and "pb_headIndex b = 0"
    and "0 \<le> i" and "i + int n \<le> int (length (formerCLBPackets q))" and "i + int n \<le> rb_capacity t"
  shows "\<exists>t'. recover n i b q t = Inr t' \<and>
    ring 0 e (\<lambda>j. if i \<le> j \<and> j < i + int n \<and> B j = None then Some (restored q j) else B j) t' \<and>
    (\<exists>buf c u. t' = t\<lparr>rb_buffer := buf, rb_count := c, packetsUnHanded := u\<rparr>)"
  using assms
proof (induction n arbitrary: i B t)
  case 0
  have "(\<lambda>j. if i \<le> j \<and> j < i + int 0 \<and> B j = None then Some (restored q j) else B j) = B" by (auto simp: fun_eq_iff)
  moreover have "t = t\<lparr>rb_buffer := rb_buffer t, rb_count := rb_count t, packetsUnHanded := packetsUnHanded t\<rparr>" by simp
  ultimately show ?case using 0(1) unfolding recover.simps by metis
next
  case (Suc n)
  note d = Suc.prems(1)[unfolded ring_def ring_on_def]
  have i: "0 \<le> i" "i < 0 + rb_capacity t" using Suc.prems by auto
  have hi: "ahead (pb_headIndex b) (rb_headIndex t) = 0" using ahead_mod[of 0 0] d Suc.prems(3) by simp
  have "c_rem (i + 0 + rb_head t) (rb_capacity t) = Inr ((i + 0 + rb_head t) mod rb_capacity t)"
    using d i(1) by (simp add: c_rem_def smod_nonneg)
  then have pos: "c_rem (i + 0 + rb_head t) (rb_capacity t) = Inr ((rb_head t + (i - 0)) mod rb_capacity t)" (is "_ = Inr ?k")
    by (simp add: add.commute)
  have at: "arr_at ?k (rb_buffer t) = Inr (B i)" by (rule ring_at[OF Suc.prems(1)[unfolded ring_def] i])
  let ?fill = "\<lambda>i n B j. if i \<le> j \<and> j < i + int n \<and> B j = None then Some (restored q j) else B j"
  show ?case
  proof (cases "B i")
    case None
    have f: "arr_at i (formerCLBPackets q) = Inr (formerCLBPackets q ! nat i)"
      using Suc.prems(5) i(1) by (simp add: arr_at_def)
    have ei: "e \<le> i" using Suc.prems(2) None i(1) by (meson not_le)
    let ?t = "t\<lparr>rb_buffer := (rb_buffer t)[nat ?k := Some (restored q i)], rb_count := rb_count t + 1, packetsUnHanded := packetsUnHanded t + 1\<rparr>"
    have r: "ring 0 e (B(i \<mapsto> restored q i)) ?t"
      using ring_put[OF Suc.prems(1)[unfolded ring_def] ei i(2) None, of "restored q i"] by (simp add: ring_def restored_def)
    have step: "recover (Suc n) i b q t = recover n (i + 1) b q ?t"
      unfolding recover.simps hi pos bind_r_simps at None using f by (simp add: restored_def)
    have B: "?fill (i + 1) n (B(i \<mapsto> restored q i)) = ?fill i (Suc n) B" using None by (auto simp: fun_eq_iff)
    have pre: "\<forall>j. 0 \<le> j \<and> j < e \<longrightarrow> (B(i \<mapsto> restored q i)) j \<noteq> None" using Suc.prems(2) by simp
    have "\<exists>t'. recover n (i + 1) b q ?t = Inr t' \<and> ring 0 e (?fill (i + 1) n (B(i \<mapsto> restored q i))) t' \<and>
      (\<exists>buf c u. t' = ?t\<lparr>rb_buffer := buf, rb_count := c, packetsUnHanded := u\<rparr>)"
      by (rule Suc.IH[OF r pre Suc.prems(3)]) (use Suc.prems in auto)
    then show ?thesis unfolding step B by auto
  next
    case (Some x)
    have step: "recover (Suc n) i b q t = recover n (i + 1) b q t"
      unfolding recover.simps hi pos bind_r_simps at Some by simp
    have B: "?fill (i + 1) n B = ?fill i (Suc n) B"
      using Some by (auto simp: fun_eq_iff order_le_less)
    have "\<exists>t'. recover n (i + 1) b q t = Inr t' \<and> ring 0 e (?fill (i + 1) n B) t' \<and>
      (\<exists>buf c u. t' = t\<lparr>rb_buffer := buf, rb_count := c, packetsUnHanded := u\<rparr>)"
      by (rule Suc.IH) (use Suc.prems in auto)
    then show ?thesis unfolding step B .
  qed
qed

lemma decode_gens_head:
  assumes "headReorderBuffer t = 0" and "parityBuffer t = b # bs" and "0 < pb_count b" and "pb_blockSize b \<le> pb_count b"
    and "pb_ifUpdated b \<noteq> 0" and "last_some (pb_buffer b) = Some q"
  shows "decode_gens (Suc n) 0 t = bind_r (recover (nat (pb_blockSize b)) 0 b q t) (decode_gens n 1)"
  using assms by (simp add: ReorderGenNumber_def arr_at_def)

lemma last_some_map: "last_some xs = Some y \<Longrightarrow> Some y \<in> set xs"
  by (induction xs) (auto split: option.splits)

lemma last_some_None: "last_some xs = None \<longleftrightarrow> set xs \<subseteq> {None}"
  by (induction xs) (auto split: option.splits)

lemma last_some_par_of:
  assumes "S \<subseteq> {0..<K + int P}" and "pars K S \<noteq> 0"
  shows "\<exists>j<P. K + int j \<in> S \<and> last_some (par_of K P pk S) = Some (rcvd (pk (K + int j)))"
proof -
  have "{s \<in> S. K \<le> s} \<noteq> {}" using assms(2) unfolding pars_def by (metis card.empty)
  then obtain s where s: "s \<in> S" "K \<le> s" "s < K + int P" using assms(1) by auto
  then have "par_of K P pk S ! nat (s - K) = Some (rcvd (pk s))" "nat (s - K) < length (par_of K P pk S)"
    by (auto simp: par_of_def)
  then have "Some (rcvd (pk s)) \<in> set (par_of K P pk S)" by (metis nth_mem)
  then obtain y where y: "last_some (par_of K P pk S) = Some y"
    using last_some_None[of "par_of K P pk S"] by (cases "last_some (par_of K P pk S)") auto
  then show ?thesis using last_some_map[OF y] by (auto simp: par_of_def split: if_splits)
qed

text \<open>The buffer when any \<^verbatim>\<open>K\<close> packets with a parity packet among them have arrived.\<close>

definition full_of :: "int \<Rightarrow> (int \<Rightarrow> tpacket) \<Rightarrow> int set \<Rightarrow> int \<Rightarrow> tpacket option" where
  "full_of K pk S j = (if 0 \<le> j \<and> j < K then Some (if j \<in> S then rcvd (pk j) else set_hdr (\<lambda>h. h\<lparr>ifParity := -1\<rparr>) (pkt_copy (pk j))) else None)"

lemma decodeReorderBuffer_recovers:
  assumes c: "collecting K P pk S e t" and w: "wire K P pk" and "pars K S \<noteq> 0" and "K \<le> int (card S)"
  shows "\<exists>t'. decodeReorderBuffer t = Inr t' \<and> ring 0 e (full_of K pk S) t' \<and>
    (\<exists>buf c u. t' = t\<lparr>rb_buffer := buf, rb_count := c, packetsUnHanded := u\<rparr>)"
proof -
  note d = c[unfolded collecting_def coded_def]
  obtain b where b: "parityBuffer t = [b, new_parity_buffer K (int P) 1, new_parity_buffer K (int P) 2]" "pb_state K P pk S b"
    using d by blast
  note bd = b(2)[unfolded pb_state_def if_not_P[OF assms(3)]]
  have K: "0 < K" "rb_capacity t = 3 * K" "headReorderBuffer t = 0" using d by auto
  obtain j where j: "j < P" "K + int j \<in> S" "last_some (par_of K P pk S) = Some (rcvd (pk (K + int j)))"
    using last_some_par_of[of S K P pk] d assms(3) by blast
  let ?q = "rcvd (pk (K + int j))"
  have f: "formerCLBPackets ?q = List.map (\<lambda>i. pkt_copy (pk i)) [0..K - 1]" using w j(1) by (simp add: wire_def Let_def)
  have len: "int (length (formerCLBPackets ?q)) = K" using f K(1) by simp
  have pre: "\<forall>i. 0 \<le> i \<and> i < e \<longrightarrow> orig_of K pk S i \<noteq> None" using d by (auto simp: orig_of_def)
  obtain t' where t': "recover (nat K) 0 b ?q t = Inr t'"
    "ring 0 e (\<lambda>i. if 0 \<le> i \<and> i < 0 + int (nat K) \<and> orig_of K pk S i = None then Some (restored ?q i) else orig_of K pk S i) t'"
    "\<exists>buf c u. t' = t\<lparr>rb_buffer := buf, rb_count := c, packetsUnHanded := u\<rparr>"
    using recover_ring[of e "orig_of K pk S" t b 0 "nat K" ?q] d pre bd len K by auto
  have B: "(\<lambda>i. if 0 \<le> i \<and> i < 0 + int (nat K) \<and> orig_of K pk S i = None then Some (restored ?q i) else orig_of K pk S i) = full_of K pk S"
    using f K(1) by (auto simp: fun_eq_iff orig_of_def full_of_def restored_def)
  have "decode_gens (nat ReorderGenNumber) 0 t = decode_gens (Suc (Suc 0)) 1 t'"
    using decode_gens_head[OF K(3) b(1), of ?q "Suc (Suc 0)"] bd assms(4) K j(3) t'(1) unfolding gens3 by simp
  also have "\<dots> = Inr t'" by (rule decode_gens_idle) (use t'(3) b(1) K(3) in auto)
  finally have "decodeReorderBuffer t = Inr t'" using d assms(3) by (simp add: decodeReorderBuffer_def)
  then show ?thesis using t'(2,3) unfolding B by blast
qed

subsection \<open>Handing over\<close>

lemma hand_next_fields [simp]:
  "BlockSize_MaxP (hand_next t) = BlockSize_MaxP t" "headReorderBuffer (hand_next t) = headReorderBuffer t"
  "parityBuffer (hand_next t) = parityBuffer t" "packetsCountInParityBuffer (hand_next t) = packetsCountInParityBuffer t"
  "rb_capacity (hand_next t) = rb_capacity t"
  by (simp_all add: hand_next_def)

lemma coded_hand_next [simp]: "coded K P (hand_next t) = coded K P t"
  by (simp add: coded_def hand_next_def)

lemma coded_pos:
  assumes "coded K P t" and "e \<le> K"
  shows "e < 0 + rb_capacity t"
  using assms by (auto simp: coded_def)

lemma expect_ahead:
  assumes "ring 0 e B t" and "coded K P t" and "e \<le> K"
  shows "ahead (expectHandOverGenIndex t) (rb_headIndex t) = e"
  using ahead_mod[of e 0] assms by (auto simp: ring_def ring_on_def coded_def)

lemma timer_only: "\<exists>x u tm'. t\<lparr>decodeTimer := tm\<rparr> = t\<lparr>expectHandOverGenIndex := x, packetsUnHanded := u, decodeTimer := tm'\<rparr>"
  by (intro exI[of _ "expectHandOverGenIndex t"] exI[of _ "packetsUnHanded t"] exI[of _ tm]) simp

text \<open>While the generation is not complete, or no parity packet is there, only the expected
  number moves.\<close>

lemma check_run:
  assumes "ring 0 e B t" and "coded K P t" and "e \<le> K" and "\<forall>i. B i \<noteq> None \<longrightarrow> i < K"
    and "headReorderBuffer t = 0" and "parityBuffer t = b # bs" and "pb_blockSize b = K"
    and "packetsCountInParityBuffer t = 0 \<or> (\<exists>i. e \<le> i \<and> i < K \<and> B i = None)"
  shows "\<exists>m out t'. checkReorderBuffer now t = Inr (out, t') \<and> e \<le> m \<and> m \<le> K \<and> (\<forall>i\<in>{e..<m}. B i \<noteq> None) \<and> B m = None \<and>
    handed out = List.map (\<lambda>i. pkt_copy (the (B i))) [e..m - 1] \<and> ring 0 m B t' \<and>
    (\<exists>x u tm. t' = t\<lparr>expectHandOverGenIndex := x, packetsUnHanded := u, decodeTimer := tm\<rparr>)"
  using assms
proof (induction "nat (K - e)" arbitrary: e t)
  case 0
  then have e: "e = K" "B e = None" by auto
  obtain tm where "checkReorderBuffer now t = Inr ([], t\<lparr>decodeTimer := tm\<rparr>)"
    using check_stop[OF 0(2) coded_pos[OF 0(3,4)] e(2), of now] by blast
  then show ?case using e 0(2) timer_only[of tm t] by (intro exI[of _ e] exI[of _ "[]"] exI[of _ "t\<lparr>decodeTimer := tm\<rparr>"]) (auto simp: ring_timer)
next
  case (Suc n)
  note win = coded_pos[OF Suc.prems(2,3)]
  show ?case
  proof (cases "B e")
    case None
    obtain tm where "checkReorderBuffer now t = Inr ([], t\<lparr>decodeTimer := tm\<rparr>)"
      using check_stop[OF Suc.prems(1) win None, of now] by blast
    then show ?thesis using None Suc.prems(1,3) timer_only[of tm t]
      by (intro exI[of _ e] exI[of _ "[]"] exI[of _ "t\<lparr>decodeTimer := tm\<rparr>"]) (auto simp: ring_timer)
  next
    case (Some q)
    let ?t = "hand_next t"
    have e: "e + 1 \<le> K" using Suc.prems(4) Some by (metis add1_zle_eq option.distinct(1))
    have c: "coded K P ?t" using Suc.prems(2) by simp
    note r = check_step(2)[OF Suc.prems(1) win Some]
    have gap: "packetsCountInParityBuffer ?t = 0 \<or> (\<exists>i. e + 1 \<le> i \<and> i < K \<and> B i = None)"
      using Suc.prems(8) Some by (metis add1_zle_eq hand_next_fields(4) option.distinct(1) order_le_less)
    then have "e + 1 < K \<or> packetsCountInParityBuffer ?t = 0" by auto
    moreover have "arr_at (headReorderBuffer ?t) (parityBuffer ?t) = Inr b" using Suc.prems(5,6) by (simp add: arr_at_def)
    ultimately have ah: "after_hand i q ?t = Inr ([], ?t)" for i
      using expect_ahead[OF r c e] Suc.prems(2,7) by (auto simp: after_hand_def coded_def)
    have step: "checkReorderBuffer now t = bind_r (checkReorderBuffer now ?t) (\<lambda>(out', t2). Inr (HandOver (pkt_copy q) # out', t2))"
      unfolding check_step(1)[OF Suc.prems(1) win Some, of now] ah by simp
    have "n = nat (K - (e + 1))" using Suc.hyps(2) by simp
    moreover have "headReorderBuffer ?t = 0" "parityBuffer ?t = b # bs" using Suc.prems(5,6) by simp_all
    ultimately obtain m out t' where ih: "checkReorderBuffer now ?t = Inr (out, t')" "e + 1 \<le> m" "m \<le> K" "\<forall>i\<in>{e + 1..<m}. B i \<noteq> None" "B m = None"
      "handed out = List.map (\<lambda>i. pkt_copy (the (B i))) [e + 1..m - 1]" "ring 0 m B t'"
      "\<exists>x u tm. t' = ?t\<lparr>expectHandOverGenIndex := x, packetsUnHanded := u, decodeTimer := tm\<rparr>"
      using Suc.hyps(1)[OF _ r c e Suc.prems(4) _ _ Suc.prems(7) gap] by blast
    have "\<forall>i\<in>{e..<m}. B i \<noteq> None"
    proof
      fix i assume "i \<in> {e..<m}"
      then show "B i \<noteq> None" using ih(4) Some by (cases "i = e") auto
    qed
    moreover have "[e..m - 1] = e # [e + 1..m - 1]" using ih(2) by (subst upto.simps) simp
    then have "handed (HandOver (pkt_copy q) # out) = List.map (\<lambda>i. pkt_copy (the (B i))) [e..m - 1]"
      using Some ih(6) by simp
    moreover have "\<exists>x u tm. t' = t\<lparr>expectHandOverGenIndex := x, packetsUnHanded := u, decodeTimer := tm\<rparr>"
      using ih(8) by (auto simp: hand_next_def)
    ultimately show ?thesis using step ih(1,2,3,5,7)
      by (intro exI[of _ m] exI[of _ "HandOver (pkt_copy q) # out"] exI[of _ t']) simp
  qed
qed

text \<open>The end of a generation: its parity packets are freed and the window moves past it.\<close>

lemma handed_free_all [simp]: "handed (free_all xs) = []"
  by (induction xs) (auto simp: free_all_def split: option.splits)

lemma updateParityBuffInfo_tail:
  assumes "headReorderBuffer t = 1" and "parityBuffer t = [b0, b1, b2]" and "pb_ifUpdated b0 = 0" and "pb_ifUpdated b1 = 0"
  shows "\<exists>bs. updateParityBuffInfo 2 t = Inr (t\<lparr>parityBuffer := bs\<rparr>)"
proof -
  have n: "nat (ReorderGenNumber - 1) = Suc (Suc 0)" by (simp add: ReorderGenNumber_def)
  show ?thesis using assms unfolding updateParityBuffInfo_def n
    by (simp add: ReorderGenNumber_def arr_at_def upd_pb_def Let_def) (rule exI, rule refl)
qed

lemma clearParityBuffer_gen0:
  assumes "headReorderBuffer t = 0" and "parityBuffer t = [b, new_parity_buffer K p 1, new_parity_buffer K p 2]"
    and "pb_ifUpdated b \<noteq> 0"
  shows "\<exists>bs. clearParityBuffer 0 t = Inr (free_all (pb_buffer b), t\<lparr>parityBuffer := bs, headReorderBuffer := 1,
    packetsCountInParityBuffer := packetsCountInParityBuffer t - some_count (pb_buffer b)\<rparr>)"
proof -
  let ?b = "b\<lparr>pb_buffer := List.map (\<lambda>_. None) (pb_buffer b), pb_ifUpdated := 0, pb_count := 0,
    pb_blockSize := BlockSize_N t - BlockSize_MaxP t, pb_genID := (pb_genID b + 3) smod MAX_GENERATION\<rparr>"
  let ?t = "t\<lparr>parityBuffer := [?b, new_parity_buffer K p 1, new_parity_buffer K p 2],
    packetsCountInParityBuffer := packetsCountInParityBuffer t - some_count (pb_buffer b), headReorderBuffer := 1\<rparr>"
  obtain bs where "updateParityBuffInfo 2 ?t = Inr (?t\<lparr>parityBuffer := bs\<rparr>)"
    using updateParityBuffInfo_tail[of ?t ?b] by (auto simp: new_parity_buffer_def)
  then have "clearParityBuffer 0 t = Inr (free_all (pb_buffer b), ?t\<lparr>parityBuffer := bs\<rparr>)"
    using assms by (simp add: clearParityBuffer_def empty_pb_def ReorderGenNumber_def Let_def arr_at_def)
  then show ?thesis by (intro exI[of _ bs]) simp
qed

lemma clear_before_ring:
  assumes "ring h (h + K) B t" and "\<forall>i\<ge>h + K. B i = None" and "\<forall>i p. B i = Some p \<longrightarrow> genIndex (hdr p) = i mod MAX_PACKETS_COUNT"
    and "0 < K" and "K < MAX_PACKETS_COUNT"
  shows "\<exists>out t'. clear_before n t = Inr (out, t') \<and> handed out = [] \<and>
    ring (h + int n) (h + int n + K) (\<lambda>i. if i < h + int n then None else B i) t' \<and>
    BlockSize_MaxP t' = BlockSize_MaxP t \<and> packetsCountInParityBuffer t' = packetsCountInParityBuffer t"
  using assms
proof (induction n arbitrary: h B t)
  case 0
  have "B i = None" if "i < h" for i using that 0(1) unfolding ring_def ring_on_def by (metis not_le)
  then have "(\<lambda>i. if i < h + int 0 then None else B i) = B" by (auto simp: fun_eq_iff)
  then show ?case using 0(1) by simp
next
  case (Suc n)
  note r = Suc.prems(1)
  note d = r[unfolded ring_def ring_on_def]
  have at: "arr_at (rb_head t) (rb_buffer t) = Inr (B h)"
    using ring_at[OF r[unfolded ring_def], of h] d by simp
  have cr: "c_rem (rb_head t + 1) (rb_capacity t) = Inr ((rb_head t + 1) mod rb_capacity t)"
    using d by (simp add: c_rem_def smod_nonneg)
  have ne: "genIndex (hdr q) \<noteq> expectHandOverGenIndex t" if "B h = Some q" for q
  proof
    assume "genIndex (hdr q) = expectHandOverGenIndex t"
    then have "h mod MAX_PACKETS_COUNT = (h + K) mod MAX_PACKETS_COUNT" using that Suc.prems(3) d by simp
    then show False using ahead_mod[of "h + K" h] ahead_mod[of h h] Suc.prems(4,5) by simp
  qed
  have "rb_buffer t ! nat (rb_head t) = B h" using at d by (simp add: arr_at_def)
  then have same: "(rb_buffer t)[nat (rb_head t) := None] = rb_buffer t" if "B h = None" using that by (metis list_update_id)
  define t1 where "t1 = snd (clear_head (B h) t)"
  have t1: "rb_buffer t1 = (rb_buffer t)[nat (rb_head t) := None]" "rb_head t1 = rb_head t" "rb_capacity t1 = rb_capacity t"
    "rb_headIndex t1 = rb_headIndex t" "expectHandOverGenIndex t1 = expectHandOverGenIndex t" "packetsUnHanded t1 = packetsUnHanded t"
    "BlockSize_MaxP t1 = BlockSize_MaxP t" "packetsCountInParityBuffer t1 = packetsCountInParityBuffer t"
    "handed (fst (clear_head (B h) t)) = []"
    using ne same by (auto simp: t1_def clear_head_def split: option.splits)
  let ?t = "t1\<lparr>expectHandOverGenIndex := (expectHandOverGenIndex t1 + 1) smod MAX_PACKETS_COUNT,
    rb_headIndex := (rb_headIndex t1 + 1) smod MAX_PACKETS_COUNT, rb_head := (rb_head t + 1) mod rb_capacity t\<rparr>"
  have "B (h + K) = None" using Suc.prems(2) by simp
  then have r1: "ring (h + 1) ((h + 1) + K) (B(h := None)) ?t"
    using ring_slide[OF ring_skip[OF r[unfolded ring_def]]] Suc.prems(4) t1 by (simp add: ring_def algebra_simps)
  have B: "(\<lambda>i. if i < h + 1 + int n then None else (B(h := None)) i) = (\<lambda>i. if i < h + int (Suc n) then None else B i)"
    by (auto simp: fun_eq_iff)
  have later: "\<forall>i\<ge>h + 1 + K. (B(h := None)) i = None" using Suc.prems(2) by simp
  have same_numbers: "\<forall>i p. (B(h := None)) i = Some p \<longrightarrow> genIndex (hdr p) = i mod MAX_PACKETS_COUNT"
    using Suc.prems(3) by simp
  obtain out t' where ih: "clear_before n ?t = Inr (out, t')" "handed out = []"
    "ring (h + 1 + int n) (h + 1 + int n + K) (\<lambda>i. if i < h + 1 + int n then None else (B(h := None)) i) t'"
    "BlockSize_MaxP t' = BlockSize_MaxP ?t" "packetsCountInParityBuffer t' = packetsCountInParityBuffer ?t"
    using Suc.IH[OF r1 later same_numbers Suc.prems(4,5)] by blast
  have "clear_before (Suc n) t = Inr (fst (clear_head (B h) t) @ out, t')"
    using ih(1) cr t1 by (simp add: at split_beta t1_def[symmetric])
  then show ?case using ih(2-5) t1 unfolding B by (auto simp: algebra_simps)
qed

lemma check_idle:
  assumes "packetsUnHanded t = 0"
  shows "\<exists>tm. checkReorderBuffer now t = Inr ([], t\<lparr>decodeTimer := tm\<rparr>) \<and> t_status tm \<noteq> TIMER_PENDING"
  using assms by (subst checkReorderBuffer.simps) (auto simp: timer_cancel_def intro: exI[of _ "decodeTimer t"])

text \<open>After a complete generation the receiver expects the first packet of the generation after
  the next one: \<^verbatim>\<open>handOverAndClearBeforeIndex\<close> counts every packet a second time.\<close>

definition finished :: "int \<Rightarrow> nat \<Rightarrow> tunnel \<Rightarrow> bool" where
  "finished K P t \<longleftrightarrow> expectHandOverGenIndex t = 2 * K mod MAX_PACKETS_COUNT \<and> packetsUnHanded t = 0 \<and>
     packetsCountInParityBuffer t = 0 \<and> BlockSize_MaxP t = int P"

lemma after_hand_last:
  assumes r: "ring 0 K B t" and c: "coded K P t" and B: "\<forall>i\<ge>K. B i = None"
    and num: "\<forall>i p. B i = Some p \<longrightarrow> genIndex (hdr p) = i mod MAX_PACKETS_COUNT"
    and pb: "headReorderBuffer t = 0" "parityBuffer t = [b, new_parity_buffer K p 1, new_parity_buffer K p 2]"
      "pb_ifUpdated b \<noteq> 0" "pb_blockSize b = K"
    and cnt: "packetsCountInParityBuffer t = some_count (pb_buffer b)" "some_count (pb_buffer b) \<noteq> 0"
  shows "\<exists>out t'. after_hand i q t = Inr (out, t') \<and> handed out = [] \<and> finished K P t'"
proof -
  note cd = c[unfolded coded_def]
  obtain bs where "clearParityBuffer 0 t = Inr (free_all (pb_buffer b), t\<lparr>parityBuffer := bs, headReorderBuffer := 1,
      packetsCountInParityBuffer := packetsCountInParityBuffer t - some_count (pb_buffer b)\<rparr>)" (is "_ = Inr (_, ?t1)")
    using clearParityBuffer_gen0[OF pb(1-3)] by blast
  moreover have r1: "ring 0 (0 + K) B ?t1" using r by (simp add: ring_def)
  obtain out t2 where t2: "clear_before (nat K) ?t1 = Inr (out, t2)" "handed out = []"
    "ring (0 + int (nat K)) (0 + int (nat K) + K) (\<lambda>i. if i < 0 + int (nat K) then None else B i) t2"
    "BlockSize_MaxP t2 = BlockSize_MaxP ?t1" "packetsCountInParityBuffer t2 = packetsCountInParityBuffer ?t1"
    using clear_before_ring[OF r1, of "nat K"] B num cd by auto
  moreover have a: "ahead (expectHandOverGenIndex t) (rb_headIndex t) = K" by (rule expect_ahead[OF r c]) simp
  ultimately have "after_hand i q t = Inr (free_all (pb_buffer b) @ out, t2)"
    using cd pb cnt by (simp add: after_hand_def arr_at_def handOverAndClearBeforeIndex_def)
  moreover have "(\<lambda>i. if i < 0 + int (nat K) then None else B i) = (\<lambda>_. None)" using B cd by (auto simp: fun_eq_iff)
  then have "ring K (K + K) (\<lambda>_. None) t2" using t2(3) cd by simp
  then have "finished K P t2" using t2(4,5) cnt(1) cd by (simp add: finished_def ring_def ring_on_def)
  ultimately show ?thesis using t2(2) by auto
qed

lemma check_complete:
  assumes "ring 0 e B t" and "coded K P t" and "e < K" and "\<forall>i\<in>{e..<K}. B i \<noteq> None" and "\<forall>i\<ge>K. B i = None"
    and "\<forall>i p. B i = Some p \<longrightarrow> genIndex (hdr p) = i mod MAX_PACKETS_COUNT"
    and "headReorderBuffer t = 0" and "parityBuffer t = [b, new_parity_buffer K p 1, new_parity_buffer K p 2]"
    and "pb_ifUpdated b \<noteq> 0" and "pb_blockSize b = K"
    and "packetsCountInParityBuffer t = some_count (pb_buffer b)" and "some_count (pb_buffer b) \<noteq> 0"
  shows "\<exists>out t'. checkReorderBuffer now t = Inr (out, t') \<and> finished K P t' \<and>
    handed out = List.map (\<lambda>i. pkt_copy (the (B i))) [e..K - 1]"
  using assms
proof (induction "nat (K - e)" arbitrary: e t)
  case (Suc n)
  note win = coded_pos[OF Suc.prems(2) less_imp_le[OF Suc.prems(3)]]
  obtain q where q: "B e = Some q" using Suc.prems(3,4) by (metis atLeastLessThan_iff not_None_eq order_refl)
  let ?t = "hand_next t"
  have c: "coded K P ?t" using Suc.prems(2) by simp
  note r = check_step(2)[OF Suc.prems(1) win q]
  have pb: "headReorderBuffer ?t = 0" "parityBuffer ?t = [b, new_parity_buffer K p 1, new_parity_buffer K p 2]"
    "packetsCountInParityBuffer ?t = some_count (pb_buffer b)" using Suc.prems(7,8,11) by simp_all
  have split: "[e..K - 1] = e # [e + 1..K - 1]" using Suc.prems(3) by (subst upto.simps) simp
  show ?case
  proof (cases "e + 1 = K")
    case True
    obtain o1 t1 where t1: "after_hand ((rb_head t + (e - 0)) mod rb_capacity t) q ?t = Inr (o1, t1)" "handed o1 = []" "finished K P t1"
      using after_hand_last[OF r[unfolded True] c Suc.prems(5,6) pb(1,2) Suc.prems(9,10) pb(3) Suc.prems(12)] by blast
    obtain tm where "checkReorderBuffer now t1 = Inr ([], t1\<lparr>decodeTimer := tm\<rparr>)"
      using check_idle[of t1 now] t1(3) by (auto simp: finished_def)
    then have "checkReorderBuffer now t = Inr (HandOver (pkt_copy q) # o1, t1\<lparr>decodeTimer := tm\<rparr>)"
      unfolding check_step(1)[OF Suc.prems(1) win q, of now] t1(1) by simp
    then show ?thesis using t1(2,3) q True by (simp add: finished_def split)
  next
    case False
    then have e: "e + 1 < K" using Suc.prems(3) by simp
    have "arr_at (headReorderBuffer ?t) (parityBuffer ?t) = Inr b" using Suc.prems(7,8) by (simp add: arr_at_def)
    then have ah: "after_hand i q ?t = Inr ([], ?t)" for i
      using expect_ahead[OF r c less_imp_le[OF e]] e Suc.prems(2,10) by (auto simp: after_hand_def coded_def)
    have n: "n = nat (K - (e + 1))" using Suc.hyps(2) by simp
    have all: "\<forall>i\<in>{e + 1..<K}. B i \<noteq> None" using Suc.prems(4) by auto
    obtain out t' where ih: "checkReorderBuffer now ?t = Inr (out, t')" "finished K P t'"
      "handed out = List.map (\<lambda>i. pkt_copy (the (B i))) [e + 1..K - 1]"
      using Suc.hyps(1)[OF n r c e all Suc.prems(5,6) pb(1,2) Suc.prems(9,10) pb(3) Suc.prems(12)] by blast
    have "checkReorderBuffer now t = Inr (HandOver (pkt_copy q) # out, t')"
      unfolding check_step(1)[OF Suc.prems(1) win q, of now] ah using ih(1) by simp
    then show ?thesis using ih(2,3) q by (simp add: split)
  qed
qed auto

subsection \<open>An arrival\<close>

lemma some_count_par_of:
  assumes "S \<subseteq> {0..<K + int P}"
  shows "some_count (par_of K P pk S) = int (pars K S)"
proof -
  have "{s \<in> S. K \<le> s} = (\<lambda>j. K + int j) ` {j. j < P \<and> K + int j \<in> S}"
  proof
    show "{s \<in> S. K \<le> s} \<subseteq> (\<lambda>j. K + int j) ` {j. j < P \<and> K + int j \<in> S}"
    proof
      fix s assume "s \<in> {s \<in> S. K \<le> s}"
      then have s: "s \<in> S" "K \<le> s" "s < K + int P" using assms by auto
      then have "s = K + int (nat (s - K))" "nat (s - K) < P" by auto
      then show "s \<in> (\<lambda>j. K + int j) ` {j. j < P \<and> K + int j \<in> S}" using s(1) by (intro image_eqI[of _ _ "nat (s - K)"]) auto
    qed
  qed auto
  then have "pars K S = card {j. j < P \<and> K + int j \<in> S}"
    by (simp add: pars_def card_image inj_on_def)
  moreover have "{j. j < length (par_of K P pk S) \<and> par_of K P pk S ! j \<noteq> None} = {j. j < P \<and> K + int j \<in> S}"
    by (auto simp: par_of_def split: if_splits)
  ultimately show ?thesis by (simp only: some_count_def length_filter_conv_card)
qed

lemma full_below: "S \<subseteq> {0..<K + int P} \<Longrightarrow> {0..<K} \<subseteq> S \<Longrightarrow> 0 \<le> K \<Longrightarrow> K \<le> int (card S)"
  using card_mono[of S "{0..<K}"] finite_arrived[of S K P] by auto

lemma missing_original:
  assumes "S \<subseteq> {0..<K + int P}" and "0 \<le> K" and "pars K S \<noteq> 0" and "int (card S) \<le> K"
  shows "\<exists>i. 0 \<le> i \<and> i < K \<and> i \<notin> S"
proof (rule ccontr)
  assume a: "\<not> (\<exists>i. 0 \<le> i \<and> i < K \<and> i \<notin> S)"
  obtain s where s: "s \<in> S" "K \<le> s" using assms(3) unfolding pars_def by (metis (no_types, lifting) Collect_empty_eq card.empty)
  then have "insert s {0..<K} \<subseteq> S" using a by auto
  then have "card (insert s {0..<K}) \<le> card S" by (rule card_mono[OF finite_arrived[OF assms(1)]])
  then show False using s(2) assms(2,4) by simp
qed

lemma insert_collecting:
  assumes "collecting K P pk S e t" and "wire K P pk" and "0 \<le> i" "i < K + int P" "i \<notin> S" and "e < K"
  shows "\<exists>t1. insertReorderBuffer (rcvd (pk i)) t = Inr ([], t1) \<and> collecting K P pk (insert i S) e t1"
proof (cases "i < K")
  case True
  then show ?thesis using insert_original_collecting[OF assms(1,2,3) _ assms(5)] by blast
next
  case False
  then have "nat (i - K) < P" "K + int (nat (i - K)) = i" using assms(4) by auto
  then show ?thesis using insert_parity_collecting[OF assms(1,2), of "nat (i - K)"] assms(5,6) by auto
qed

lemma arrive:
  assumes c: "collecting K P pk S e t" and w: "wire K P pk" and i: "0 \<le> i" "i < K + int P" "i \<notin> S" and T: "int (card S) < K"
  defines "S' \<equiv> insert i S"
  shows "\<exists>out t'. decode now (pk i) t = Inr (out, t') \<and>
    (if pars K S' \<noteq> 0 \<and> int (card S') = K
     then List.map inner (handed out) = List.map (inner \<circ> pk) [e..K - 1] \<and> finished K P t'
     else \<exists>m. e \<le> m \<and> List.map inner (handed out) = List.map (inner \<circ> pk) [e..m - 1] \<and> collecting K P pk S' m t' \<and> (m \<in> S' \<longrightarrow> m = K))"
proof -
  note d = c[unfolded collecting_def]
  have K: "0 < K" "0 < P" using d by (simp_all add: coded_def)
  have eK: "e < K"
  proof (rule ccontr)
    assume "\<not> e < K"
    then have "{0..<K} \<subseteq> S" using d by auto
    then show False using full_below[of S K P] d K T by auto
  qed
  obtain t1 where t1: "insertReorderBuffer (rcvd (pk i)) t = Inr ([], t1)" "collecting K P pk S' e t1"
    using insert_collecting[OF c w i eK] unfolding S'_def by blast
  note d1 = t1(2)[unfolded collecting_def]
  have S: "S' \<subseteq> {0..<K + int P}" "int (card S') = int (card S) + 1" "{0..<e} \<subseteq> S'"
    using d1 d i finite_arrived[of S K P] by (auto simp: S'_def)
  have dec: "decode now (pk i) t = bind_r (decodeReorderBuffer t1) (\<lambda>t2. bind_r (checkReorderBuffer now t2) (\<lambda>(out', t3). Inr (out', t3)))"
    using t1(1) d1 K by (simp add: decode_def rcvd_def[symmetric] coded_def)
  obtain b where b: "parityBuffer t1 = [b, new_parity_buffer K (int P) 1, new_parity_buffer K (int P) 2]" "pb_state K P pk S' b"
    using d1 by blast
  show ?thesis
  proof (cases "pars K S' \<noteq> 0 \<and> int (card S') = K")
    case True
    obtain t2 where t2: "decodeReorderBuffer t1 = Inr t2" "ring 0 e (full_of K pk S') t2"
      "\<exists>buf c u. t2 = t1\<lparr>rb_buffer := buf, rb_count := c, packetsUnHanded := u\<rparr>"
      using decodeReorderBuffer_recovers[OF t1(2) w] True by auto
    have c2: "coded K P t2" "headReorderBuffer t2 = 0" "parityBuffer t2 = [b, new_parity_buffer K (int P) 1, new_parity_buffer K (int P) 2]"
      "packetsCountInParityBuffer t2 = some_count (pb_buffer b)" "some_count (pb_buffer b) \<noteq> 0" "pb_ifUpdated b \<noteq> 0" "pb_blockSize b = K"
      using t2(3) d1 b True some_count_par_of[OF S(1), of pk] by (auto simp: coded_def pb_state_def)
    have f: "\<forall>i\<in>{e..<K}. full_of K pk S' i \<noteq> None" "\<forall>i\<ge>K. full_of K pk S' i = None"
      using t2(2) by (auto simp: full_of_def ring_def ring_on_def)
    have num: "\<forall>i p. full_of K pk S' i = Some p \<longrightarrow> genIndex (hdr p) = i mod MAX_PACKETS_COUNT"
      using w d1 by (auto simp: full_of_def wire_def coded_def split: if_splits)
    obtain out t' where k: "checkReorderBuffer now t2 = Inr (out, t')" "finished K P t'"
      "handed out = List.map (\<lambda>i. pkt_copy (the (full_of K pk S' i))) [e..K - 1]"
      using check_complete[OF t2(2) c2(1) eK f num c2(2,3,6,7,4,5)] by blast
    have "0 \<le> e" using t2(2) by (simp add: ring_def ring_on_def)
    then have "List.map inner (handed out) = List.map (inner \<circ> pk) [e..K - 1]"
      unfolding k(3) by (auto simp: full_of_def inner_def rcvd_def)
    then show ?thesis using True dec t2(1) k(1,2) by simp
  next
    case False
    have wt: "decodeReorderBuffer t1 = Inr t1"
      using decodeReorderBuffer_waits[OF t1(2)] False S(2) T by fastforce
    have gap: "packetsCountInParityBuffer t1 = 0 \<or> (\<exists>i. e \<le> i \<and> i < K \<and> orig_of K pk S' i = None)"
    proof (cases "pars K S' = 0")
      case True
      then show ?thesis using d1 by simp
    next
      case False
      then obtain i where "0 \<le> i" "i < K" "i \<notin> S'" using missing_original[OF S(1)] K S(2) T by fastforce
      moreover from this have "e \<le> i" using S(3) by (meson atLeastLessThan_iff not_le subsetD)
      ultimately show ?thesis by (auto simp: orig_of_def)
    qed
    have r1: "ring 0 e (orig_of K pk S') t1" "coded K P t1" "e \<le> K" "headReorderBuffer t1 = 0" "pb_blockSize b = K"
      using d1 b(2) by (auto simp: pb_state_def)
    have sup: "\<forall>i. orig_of K pk S' i \<noteq> None \<longrightarrow> i < K" by (simp add: orig_of_def)
    obtain m out t' where k: "checkReorderBuffer now t1 = Inr (out, t')" "e \<le> m" "m \<le> K" "\<forall>i\<in>{e..<m}. orig_of K pk S' i \<noteq> None"
      "orig_of K pk S' m = None" "handed out = List.map (\<lambda>i. pkt_copy (the (orig_of K pk S' i))) [e..m - 1]" "ring 0 m (orig_of K pk S') t'"
      "\<exists>x u tm. t' = t1\<lparr>expectHandOverGenIndex := x, packetsUnHanded := u, decodeTimer := tm\<rparr>"
      using check_run[OF r1(1,2,3) sup r1(4) b(1) r1(5) gap] by blast
    have run: "j \<in> S'" "0 \<le> j" "j < K" if "e \<le> j" "j < m" for j
      using k(4) that by (auto simp: orig_of_def split: if_splits)
    have "{0..<m} \<subseteq> S'"
    proof
      fix j assume "j \<in> {0..<m}"
      then show "j \<in> S'" using run(1)[of j] S(3) by (cases "j < e") auto
    qed
    then have "collecting K P pk S' m t'"
      using k(3,7,8) d1 b by (auto simp: collecting_def coded_def)
    moreover have "List.map inner (handed out) = List.map (inner \<circ> pk) [e..m - 1]"
      unfolding k(6) using run by (auto simp: orig_of_def)
    moreover have "m \<in> S' \<longrightarrow> m = K" using k(2,3,5,7) by (auto simp: orig_of_def ring_def ring_on_def split: if_splits)
    moreover have "decode now (pk i) t = Inr (out, t')" using dec wt k(1) by simp
    ultimately show ?thesis using False k(2) by (intro exI[of _ out] exI[of _ t']) auto
  qed
qed

lemma no_pars_full:
  assumes "S \<subseteq> {0..<K + int P}" and "pars K S = 0" and "int (card S) = K"
  shows "S = {0..<K}"
proof (rule card_subset_eq)
  show "S \<subseteq> {0..<K}"
    using assms(1,2) finite_arrived[OF assms(1)] by (auto simp: pars_def not_le)
qed (use assms(3) in auto)

text \<open>The decode timer of a tunnel that collects a generation expires no earlier than \<^verbatim>\<open>(P + 1)\<close> times
  80 microseconds after the last arrival.\<close>

lemma collecting_in_time:
  assumes c: "collecting K P pk S e t" and e: "e \<in> S \<longrightarrow> e = K" and w: "packetsUnHanded t \<noteq> 0"
    and i: "in_time (of_int (int P + 1) * 8 / 100000) K S since ((now, n) # xs)"
  shows "now < since + decode_delay t"
proof -
  note d = c[unfolded collecting_def coded_def]
  have r: "ring 0 e (orig_of K pk S) t" using d by blast
  obtain j where o: "e \<le> j" "orig_of K pk S j \<noteq> None" using ring_waiting[OF r w] by blast
  have "0 \<le> e" using r by (simp add: ring_def ring_on_def)
  have j: "j \<in> S" "j < K" "e < j" using o e by (auto simp: orig_of_def split: if_splits dest: order_le_imp_less_or_eq)
  then have "e \<notin> S" using e by auto
  then have "gap K S" using j \<open>0 \<le> e\<close> unfolding gap_def by (intro bexI[of _ j]) auto
  then have "now < since + of_int (int P + 1) * 8 / 100000" using i by (simp only: in_time.simps simp_thms)
  moreover have "decode_delay t = of_int (int P + 1) * 8 / 100000"
    using d by (simp add: decode_delay_def DECODE_TIMER_LENGTH_def ENCODE_TIMER_LENGTH_def)
  ultimately show ?thesis by (simp only:)
qed

lemma decode_all_generation:
  assumes "collecting K P pk S e t" and "wire K P pk" and "distinct (List.map snd xs)" and "snd ` set xs \<inter> S = {}"
    and "snd ` set xs \<subseteq> {0..<K + int P}" and "int (card S) + int (length xs) = K" and "xs \<noteq> []"
  shows "\<exists>out t'. decode_all (List.map (\<lambda>(now, n). (now, pk n)) xs) t = Inr (out, t') \<and>
    List.map inner (handed out) = List.map (inner \<circ> pk) [e..K - 1] \<and> (pars K (S \<union> snd ` set xs) \<noteq> 0 \<longrightarrow> finished K P t') \<and>
    (\<forall>since. armed since t \<longrightarrow> (e \<in> S \<longrightarrow> e = K) \<longrightarrow> in_time (of_int (int P + 1) * 8 / 100000) K S since xs \<longrightarrow>
       timed_all (List.map (\<lambda>(now, n). (now, pk n)) xs) t = Some (Inr (out, t')))"
  using assms
proof (induction xs arbitrary: S e t)
  case (Cons x xs)
  obtain now i where x: "x = (now, i)" by fastforce
  have i: "0 \<le> i" "i < K + int P" "i \<notin> S" and T: "int (card S) < K" using Cons.prems(4,5,6) x by auto
  let ?S = "insert i S"
  have fin: "finite S" using Cons.prems(1) finite_arrived[of S K P] by (auto simp: collecting_def)
  have S: "int (card ?S) + int (length xs) = K" "?S \<union> snd ` set xs = S \<union> snd ` set (x # xs)"
    using Cons.prems(6) i(3) fin x by auto
  have e: "e \<le> K" using Cons.prems(1) by (simp add: collecting_def)
  obtain o1 t1 where a: "decode now (pk i) t = Inr (o1, t1)"
    "if pars K ?S \<noteq> 0 \<and> int (card ?S) = K
     then List.map inner (handed o1) = List.map (inner \<circ> pk) [e..K - 1] \<and> finished K P t1
     else \<exists>m. e \<le> m \<and> List.map inner (handed o1) = List.map (inner \<circ> pk) [e..m - 1] \<and> collecting K P pk ?S m t1 \<and> (m \<in> ?S \<longrightarrow> m = K)"
    using arrive[OF Cons.prems(1,2) i T, of now] by blast
  have step: "timed_all (List.map (\<lambda>(now, n). (now, pk n)) (x # xs)) t = Some (Inr (o1 @ o2, t2))"
    if q: "armed since t" "e \<in> S \<longrightarrow> e = K" "in_time (of_int (int P + 1) * 8 / 100000) K S since (x # xs)"
      and r: "timed_all (List.map (\<lambda>(now, n). (now, pk n)) xs) t1 = Some (Inr (o2, t2))" for since o2 t2
    using timed_step[OF q(1) collecting_in_time[OF Cons.prems(1) q(2) _ q(3)[unfolded x]] a(1) r] x by simp
  show ?case
  proof (cases "xs = []")
    case True
    then have c: "int (card ?S) = K" using S(1) by simp
    show ?thesis
    proof (cases "pars K ?S = 0")
      case True
      then obtain m where m: "e \<le> m" "List.map inner (handed o1) = List.map (inner \<circ> pk) [e..m - 1]" "collecting K P pk ?S m t1" "m \<in> ?S \<longrightarrow> m = K"
        using a(2) by auto
      have "?S \<subseteq> {0..<K + int P}" using m(3) by (simp add: collecting_def)
      then have "?S = {0..<K}" using no_pars_full[OF _ True c] by blast
      moreover have "0 \<le> m" "m \<le> K" using m(3) by (auto simp: collecting_def ring_def ring_on_def)
      ultimately have "m = K" using m(4) by (metis atLeastLessThan_iff order_le_less)
      then have h: "List.map inner (handed o1) = List.map (inner \<circ> pk) [e..K - 1]" using m(2) by simp
      show ?thesis using a(1) h True step[where ?o2.0 = "[]" and ?t2.0 = t1] x \<open>xs = []\<close> by (intro exI[of _ o1] exI[of _ t1]) auto
    next
      case False
      then have "List.map inner (handed o1) = List.map (inner \<circ> pk) [e..K - 1]" "finished K P t1" using a(2) c by simp_all
      then show ?thesis using a(1) step[where ?o2.0 = "[]" and ?t2.0 = t1] x \<open>xs = []\<close> by (intro exI[of _ o1] exI[of _ t1]) auto
    qed
  next
    case False
    then have nc: "\<not> (pars K ?S \<noteq> 0 \<and> int (card ?S) = K)" using S(1) by auto
    then obtain m where m: "e \<le> m" "List.map inner (handed o1) = List.map (inner \<circ> pk) [e..m - 1]" "collecting K P pk ?S m t1" "m \<in> ?S \<longrightarrow> m = K"
      using a(2) unfolding if_not_P[OF nc] by blast
    have "snd ` set xs \<inter> ?S = {}" "snd ` set xs \<subseteq> {0..<K + int P}" "distinct (List.map snd xs)"
      using Cons.prems(3,4,5) x by auto
    then obtain o2 t2 where ih: "decode_all (List.map (\<lambda>(now, n). (now, pk n)) xs) t1 = Inr (o2, t2)"
      "List.map inner (handed o2) = List.map (inner \<circ> pk) [m..K - 1]" "pars K (?S \<union> snd ` set xs) \<noteq> 0 \<longrightarrow> finished K P t2"
      and tm: "\<forall>since. armed since t1 \<longrightarrow> (m \<in> ?S \<longrightarrow> m = K) \<longrightarrow> in_time (of_int (int P + 1) * 8 / 100000) K ?S since xs \<longrightarrow>
        timed_all (List.map (\<lambda>(now, n). (now, pk n)) xs) t1 = Some (Inr (o2, t2))"
      using Cons.IH[OF m(3) Cons.prems(2) _ _ _ S(1) False] by blast
    have "m \<le> K" using m(3) by (simp add: collecting_def)
    then have "[e..K - 1] = [e..m - 1] @ [m..K - 1]" using m(1) by (cases "m = K") (auto intro: upto_split1)
    then have "List.map inner (handed (o1 @ o2)) = List.map (inner \<circ> pk) [e..K - 1]" using m(2) ih(2) by simp
    moreover have "decode_all (List.map (\<lambda>(now, n). (now, pk n)) (x # xs)) t = Inr (o1 @ o2, t2)" using a(1) ih(1) x by simp
    moreover have "timed_all (List.map (\<lambda>(now, n). (now, pk n)) (x # xs)) t = Some (Inr (o1 @ o2, t2))"
      if q: "armed since t" "e \<in> S \<longrightarrow> e = K" "in_time (of_int (int P + 1) * 8 / 100000) K S since (x # xs)" for since
      using step[OF q] tm[rule_format, OF decode_armed[OF a(1)]] m(4) q(3) x by simp
    ultimately show ?thesis using ih(3) unfolding S(2) by (intro exI[of _ "o1 @ o2"] exI[of _ t2]) blast
  qed
qed simp

subsection \<open>From the sender to the receiver\<close>

lemma collecting_new:
  assumes "new_CLBTunnel (K + int P) (int P) = Inr t" and "0 < K" "0 < P" "6 * K \<le> MAX_PACKETS_COUNT"
  shows "collecting K P pk {} 0 t"
proof -
  have "par_of K P pk {} = replicate P None" by (simp add: par_of_def map_replicate_const)
  moreover have "orig_of K pk {} = (\<lambda>_. None)" by (simp add: orig_of_def fun_eq_iff)
  moreover have "ring 0 0 (\<lambda>_. None) t" using ring_new[OF assms(1)] assms(2,4) by simp
  ultimately show ?thesis using assms
    by (auto simp: collecting_def coded_def pb_state_def pars_def new_CLBTunnel_def new_parity_buffer_def ReorderGenNumber_def split: if_splits)
qed

lemma wire_sent:
  assumes "length ps = nat K" and "0 < K" and "6 * K \<le> MAX_PACKETS_COUNT"
  shows "wire K P (\<lambda>n. (numbered_from 0 ps @ parities P 0 0 ps) ! nat n)"
proof -
  let ?s = "numbered_from 0 ps @ parities P 0 0 ps"
  have ne: "ps \<noteq> []" using assms(1,2) by auto
  have o: "?s ! nat i = original (fst (ps ! nat i)) i (snd (ps ! nat i))" if "0 \<le> i" "i < K" for i
    using numbered_from_nth[of "nat i" ps 0] that assms by (simp add: nth_append MAX_PACKETS_COUNT_def)
  have p: "?s ! nat (K + int j) = parity (fst (last ps)) 0 ((0 + int (length ps)) mod MAX_PACKETS_COUNT) (numbered_from 0 ps) j" if "j < P" for j
    using that assms(1,2) by (simp add: nth_append parities_def nat_add_distrib)
  have "numbered_from 0 ps ! 0 = original (fst (ps ! 0)) 0 (snd (ps ! 0))"
    using numbered_from_nth[of 0 ps 0] ne by (simp add: MAX_PACKETS_COUNT_def)
  moreover have "numbered_from 0 ps \<noteq> []" using ne by (metis length_0_conv length_numbered_from)
  ultimately have h: "genIndex (hdr (hd (numbered_from 0 ps))) = 0" by (simp add: hd_conv_nth)
  have f: "List.map pkt_copy (numbered_from 0 ps) = List.map (\<lambda>i. pkt_copy (?s ! nat i)) [0..K - 1]"
    using assms by (intro nth_equalityI) (auto simp: nth_append)
  have "ifParity (hdr (?s ! nat i)) = 0 \<and> genIndex (hdr (?s ! nat i)) = i" if "0 \<le> i" "i < K" for i
    unfolding o[OF that] by simp
  moreover have "ifParity (hdr (?s ! nat (K + int j))) = 1 \<and> genID (hdr (?s ! nat (K + int j))) = 0 \<and>
      headGenIndex (hdr (?s ! nat (K + int j))) = 0 \<and> ParityIndex (hdr (?s ! nat (K + int j))) = int j \<and>
      blockSize (hdr (?s ! nat (K + int j))) = K \<and>
      formerCLBPackets (?s ! nat (K + int j)) = List.map (\<lambda>i. pkt_copy (?s ! nat i)) [0..K - 1]" if "j < P" for j
    unfolding p[OF that] parity_fields f[symmetric] using h assms(1,2) by simp
  ultimately show ?thesis unfolding wire_def Let_def by blast
qed

text \<open>C5: The first generation of a new tunnel, \<^verbatim>\<open>6K \<le> 65536\<close>, survives the loss of as many packets as it has parity
  packets: the sender takes \<^verbatim>\<open>K\<close> packets and sends \<^verbatim>\<open>K + P\<close>; of these any \<^verbatim>\<open>K\<close> arrive in any order, and none
  \<^verbatim>\<open>80(P + 1)\<close> microseconds or more after the one before it while an original waits for an earlier one, so that the
  decode timer does not expire; the receiver hands over the \<^verbatim>\<open>K\<close> packets in order.\<close>

theorem tunnel_recovers:
  assumes "new_CLBTunnel (K + int P) (int P) = Inr t0" and "0 < K" and "0 < P" and "6 * K \<le> 65536"
    and "length ps = nat K" and "distinct (List.map snd xs)" and "snd ` set xs \<subseteq> {0..<K + int P}" and "length xs = nat K"
    and "in_time (of_int (int P + 1) * 8 / 100000) K {} 0 xs"
  shows "\<exists>sent t1 out t2. encode_all ps t0 = Inr (List.map HandOver sent, t1) \<and> length sent = nat K + P \<and>
    timed_all (List.map (\<lambda>(now, n). (now, sent ! nat n)) xs) t0 = Some (Inr (out, t2)) \<and>
    List.map inner (handed out) = List.map (inner \<circ> snd) ps"
proof -
  let ?s = "numbered_from 0 ps @ parities P 0 0 ps"
  have K: "6 * K \<le> MAX_PACKETS_COUNT" "xs \<noteq> []" "int (card {}) + int (length xs) = K"
    using assms(2,4,8) by (auto simp: MAX_PACKETS_COUNT_def)
  have "sending (nat K) P 0 0 [] t0" using sending_new[of "nat K" P t0] assms(1,2) by simp
  then obtain t1 where t1: "encode_all ps t0 = Inr (List.map HandOver ?s, t1)"
    using encode_all_generation[of "nat K" P 0 0 t0 ps] assms(5) by blast
  obtain out t2 where d: "timed_all (List.map (\<lambda>(now, n). (now, ?s ! nat n)) xs) t0 = Some (Inr (out, t2))"
    "List.map inner (handed out) = List.map (inner \<circ> (\<lambda>n. ?s ! nat n)) [0..K - 1]"
    using decode_all_generation[OF collecting_new[OF assms(1-3) K(1)] wire_sent[OF assms(5,2) K(1)] assms(6) _ assms(7) K(3,2)]
      armed_new[OF assms(1), of 0] assms(9) by auto
  have "List.map (inner \<circ> (\<lambda>n. ?s ! nat n)) [0..K - 1] = List.map inner (numbered_from 0 ps)"
    using assms(2,5) by (intro nth_equalityI) (auto simp: nth_append simp del: map_inner_numbered_from)
  then have "List.map inner (handed out) = List.map (inner \<circ> snd) ps" using d(2) by simp
  moreover have "length ?s = nat K + P" using assms(5) by (simp add: parities_def)
  ultimately show ?thesis using t1 d(1) by blast
qed

text \<open>\<^verbatim>\<open>K = 3\<close>, \<^verbatim>\<open>P = 2\<close>: packets 1 and 2 are lost, a parity packet arrives first, then one packet every 100 microseconds.\<close>

lemma tunnel_recovers_witness:
  "\<exists>t0 sent t1 out t2. new_CLBTunnel 5 2 = Inr t0 \<and>
    encode_all (ex_tun_packets [10, 11, 12]) t0 = Inr (List.map HandOver sent, t1) \<and>
    timed_all [(5, sent ! 4), (50001 / 10000, sent ! 0), (50002 / 10000, sent ! 3)] t0 = Some (Inr (out, t2)) \<and>
    List.map inner (handed out) = List.map (inner \<circ> ex_tun_packet) [10, 11, 12]"
proof -
  obtain t0 where t0: "new_CLBTunnel 5 2 = Inr t0" by (simp add: new_CLBTunnel_def)
  let ?xs = "[(5, 4), (50001 / 10000, 0), (50002 / 10000, 3)] :: (rat \<times> int) list"
  have "in_time (of_int (int 2 + 1) * 8 / 100000) 3 {} 0 ?xs" by (simp add: gap_def)
  then show ?thesis
    using tunnel_recovers[of 3 2 t0 "ex_tun_packets [10, 11, 12]" ?xs] t0
    by (auto simp: ex_tun_packets_def)
qed

end
