(* ===== verification/TunnelLimits.thy ===== *)
theory TunnelLimits
  imports TunnelRecover
begin

text \<open>
  Where a tunnel with parity packets does not do what it is for: it loses the order after a
  recovery, it ends the program when nothing is lost, and a timeout frees the packets that
  could have helped.
\<close>

subsection \<open>After a recovery\<close>

lemma decode_finished:
  assumes f: "finished K P t" and K: "0 < K" "6 * K \<le> MAX_PACKETS_COUNT" and P: "0 < P"
    and q: "ifParity (hdr q) = 0" "0 \<le> genIndex (hdr q)" "genIndex (hdr q) < 2 * K"
  shows "\<exists>t'. decode now q t = Inr ([HandOver (rcvd q)], t') \<and> finished K P t'"
proof -
  let ?g = "genIndex (hdr q)"
  note fd = f[unfolded finished_def]
  have "ahead (?g mod MAX_PACKETS_COUNT) (2 * K mod MAX_PACKETS_COUNT) = MAX_PACKETS_COUNT - (2 * K - ?g)"
    by (rule ahead_mod_behind) (use q K in auto)
  then have "ahead ?g (expectHandOverGenIndex t) > MAX_GENERATION div 2"
    using fd q K by (simp add: MAX_GENERATION_def MAX_PACKETS_COUNT_def)
  then have ins: "insertReorderBuffer (rcvd q) t = Inr ([HandOver (rcvd q)], t)"
    using q(1) by (simp add: insertReorderBuffer_def insert_original_def Let_def)
  obtain tm where k: "checkReorderBuffer now t = Inr ([], t\<lparr>decodeTimer := tm\<rparr>)"
    using check_idle[of t now] fd by auto
  have "decode now q t = Inr ([HandOver (rcvd q)], t\<lparr>decodeTimer := tm\<rparr>)"
    using ins k fd P by (simp add: decode_def rcvd_def[symmetric] decodeReorderBuffer_def)
  then show ?thesis using f by (simp add: finished_def)
qed

lemma decode_all_finished:
  assumes "finished K P t" and "0 < K" "6 * K \<le> MAX_PACKETS_COUNT" and "0 < P"
    and "\<forall>q\<in>snd ` set ys. ifParity (hdr q) = 0 \<and> 0 \<le> genIndex (hdr q) \<and> genIndex (hdr q) < 2 * K"
  shows "\<exists>t'. decode_all ys t = Inr (List.map (HandOver \<circ> rcvd \<circ> snd) ys, t')"
  using assms
proof (induction ys arbitrary: t)
  case (Cons y ys)
  obtain now q where y: "y = (now, q)" by fastforce
  obtain t1 where t1: "decode now q t = Inr ([HandOver (rcvd q)], t1)" "finished K P t1"
    using decode_finished[OF Cons.prems(1-4), of q now] Cons.prems(5) y by auto
  then show ?case using Cons.IH[OF t1(2) Cons.prems(2-4)] Cons.prems(5) y by auto
qed simp

text \<open>After a generation that was completed with the help of a parity packet, the receiver has
  advanced its expected number by two generations.  Original packets of this generation that
  arrive late, although they have been restored, are handed over a second time, and those of
  the next generation are handed over in the order in which they arrive.\<close>

theorem tunnel_order_lost_after_recovery:
  assumes "new_CLBTunnel (K + int P) (int P) = Inr t0" and "0 < K" and "0 < P" and "6 * K \<le> 65536"
    and "length ps = nat K" and "distinct (List.map snd xs)" and "snd ` set xs \<subseteq> {0..<K + int P}" and "length xs = nat K"
    and "n \<in> snd ` set xs" and "K \<le> n"
    and "\<forall>q\<in>snd ` set ys. ifParity (hdr q) = 0 \<and> 0 \<le> genIndex (hdr q) \<and> genIndex (hdr q) < 2 * K"
  shows "\<exists>sent t1 out t2. encode_all ps t0 = Inr (List.map HandOver sent, t1) \<and>
    decode_all (List.map (\<lambda>(now, n). (now, sent ! nat n)) xs @ ys) t0 = Inr (out, t2) \<and>
    List.map inner (handed out) = List.map (inner \<circ> snd) ps @ List.map (inner \<circ> snd) ys"
proof -
  let ?s = "numbered_from 0 ps @ parities P 0 0 ps"
  have K: "6 * K \<le> MAX_PACKETS_COUNT" "xs \<noteq> []" "int (card {}) + int (length xs) = K"
    using assms(2,4,8) by (auto simp: MAX_PACKETS_COUNT_def)
  have "sending (nat K) P 0 0 [] t0" using sending_new[of "nat K" P t0] assms(1,2) by simp
  then obtain t1 where t1: "encode_all ps t0 = Inr (List.map HandOver ?s, t1)"
    using encode_all_generation[of "nat K" P 0 0 t0 ps] assms(5) by blast
  have "finite {s \<in> {} \<union> snd ` set xs. K \<le> s}" by simp
  then have pars: "pars K ({} \<union> snd ` set xs) \<noteq> 0" using assms(9,10) by (auto simp: pars_def)
  obtain out t2 where d: "decode_all (List.map (\<lambda>(now, n). (now, ?s ! nat n)) xs) t0 = Inr (out, t2)"
    "List.map inner (handed out) = List.map (inner \<circ> (\<lambda>n. ?s ! nat n)) [0..K - 1]" "finished K P t2"
    using decode_all_generation[OF collecting_new[OF assms(1-3) K(1)] wire_sent[OF assms(5,2) K(1)] assms(6) _ assms(7) K(3,2)] pars
    by blast
  have "List.map (inner \<circ> (\<lambda>n. ?s ! nat n)) [0..K - 1] = List.map inner (numbered_from 0 ps)"
    using assms(2,5) by (intro nth_equalityI) (auto simp: nth_append simp del: map_inner_numbered_from)
  then have h: "List.map inner (handed out) = List.map (inner \<circ> snd) ps" using d(2) by simp
  obtain t3 where y: "decode_all ys t2 = Inr (List.map (HandOver \<circ> rcvd \<circ> snd) ys, t3)"
    using decode_all_finished[OF d(3) assms(2) K(1) assms(3,11)] by blast
  have "handed (List.map (HandOver \<circ> rcvd \<circ> snd) zs) = List.map (rcvd \<circ> snd) zs" for zs :: "(rat \<times> tpacket) list"
    by (induction zs) auto
  then have "decode_all (List.map (\<lambda>(now, n). (now, ?s ! nat n)) xs @ ys) t0 = Inr (out @ List.map (HandOver \<circ> rcvd \<circ> snd) ys, t3)"
    "List.map inner (handed (out @ List.map (HandOver \<circ> rcvd \<circ> snd) ys)) = List.map (inner \<circ> snd) ps @ List.map (inner \<circ> snd) ys"
    using decode_all_append[OF d(1), of ys] y h by auto
  then show ?thesis using t1 by blast
qed

text \<open>\<^verbatim>\<open>K = 2\<close>, \<^verbatim>\<open>P = 1\<close>: packet 1 is late and delivered twice, then packets 3 and 2 in this order.\<close>

lemma tunnel_order_lost_after_recovery_witness:
  "\<exists>t0 sent t1 out t2. new_CLBTunnel 3 1 = Inr t0 \<and>
    encode_all (ex_tun_packets [10, 11]) t0 = Inr (List.map HandOver sent, t1) \<and>
    decode_all [(0, sent ! 0), (1, sent ! 2), (2, original (\<lambda>_. 7) 1 (ex_tun_packet 11)),
      (3, original (\<lambda>_. 7) 3 (ex_tun_packet 13)), (4, original (\<lambda>_. 7) 2 (ex_tun_packet 12))] t0 = Inr (out, t2) \<and>
    List.map inner (handed out) = List.map (inner \<circ> ex_tun_packet) [10, 11, 11, 13, 12]"
proof -
  obtain t0 where t0: "new_CLBTunnel 3 1 = Inr t0" by (simp add: new_CLBTunnel_def)
  show ?thesis
    using tunnel_order_lost_after_recovery[of 2 1 t0 "ex_tun_packets [10, 11]" "[(0, 0), (1, 2)]" 2
        "[(2, original (\<lambda>_. 7) 1 (ex_tun_packet 11)), (3, original (\<lambda>_. 7) 3 (ex_tun_packet 13)), (4, original (\<lambda>_. 7) 2 (ex_tun_packet 12))]"] t0
    by (auto simp: ex_tun_packets_def)
qed

subsection \<open>Nothing is lost\<close>

text \<open>A receiver that has handed over the packets before \<^verbatim>\<open>e\<close> and has used no parity packet.\<close>

definition plain :: "int \<Rightarrow> nat \<Rightarrow> int \<Rightarrow> tunnel \<Rightarrow> bool" where
  "plain K P e t \<longleftrightarrow> coded K P t \<and> (\<exists>B. ring 0 e B t \<and> (\<forall>i. B i \<noteq> None \<longleftrightarrow> 0 \<le> i \<and> i < e)) \<and> e \<le> 3 * K \<and>
     packetsUnHanded t = 0 \<and> headReorderBuffer t = 0 \<and> packetsCountInParityBuffer t = 0 \<and>
     parityBuffer t = List.map (new_parity_buffer K (int P)) [0, 1, 2]"

lemma plain_new:
  assumes "new_CLBTunnel (K + int P) (int P) = Inr t" and "0 < K" "0 < P" "6 * K \<le> MAX_PACKETS_COUNT"
  shows "plain K P 0 t"
proof -
  have "ring 0 0 (\<lambda>_. None) t" using ring_new[OF assms(1)] assms(2,4) by simp
  then have "\<exists>B. ring 0 0 B t \<and> (\<forall>i. B i \<noteq> None \<longleftrightarrow> 0 \<le> i \<and> i < 0)" by auto
  then show ?thesis using assms
    unfolding plain_def by (auto simp: coded_def new_CLBTunnel_def ReorderGenNumber_def split: if_splits)
qed

lemma plain_timer: "plain K P e (t\<lparr>decodeTimer := tm\<rparr>) = plain K P e t"
  by (simp add: plain_def coded_def ring_timer)

lemma decode_next:
  assumes p: "plain K P e t" and e: "e < 3 * K" and q: "ifParity (hdr q) = 0" "genIndex (hdr q) = e mod MAX_PACKETS_COUNT"
  shows "\<exists>out t'. decode now q t = Inr (out, t') \<and> List.map inner (handed out) = [inner q] \<and> plain K P (e + 1) t'"
proof -
  note d = p[unfolded plain_def coded_def]
  obtain B where r: "ring 0 e B t" "\<forall>i. B i \<noteq> None \<longleftrightarrow> 0 \<le> i \<and> i < e" using d by blast
  have b: "B e = None" "0 \<le> e" using r by (auto simp: ring_def ring_on_def)
  have win: "e < 0 + rb_capacity t" using d e by simp
  obtain t1 where t1: "insert_original (rcvd q) t = bind_r (count_original (e mod MAX_PACKETS_COUNT) t1) (\<lambda>t2. Inr ([], t2))"
    "ring 0 e (B(e \<mapsto> rcvd q)) t1" "\<exists>buf c u. t1 = t\<lparr>rb_buffer := buf, rb_count := c, packetsUnHanded := u\<rparr>"
    using insert_original_ring[OF r(1), of "rcvd q" e] q d win b(1) by auto
  have same: "headReorderBuffer t1 = 0" "packetsCountInParityBuffer t1 = 0" "BlockSize_MaxP t1 = int P" "coded K P t1"
    "parityBuffer t1 = List.map (new_parity_buffer K (int P)) [0, 1, 2]" "rb_capacity t1 = 3 * K"
    using t1(3) d by (auto simp: coded_def)
  have "count_original (e mod MAX_PACKETS_COUNT) t1 = Inr t1"
    using same by (simp add: count_original_def arr_at_def new_parity_buffer_def)
  then have ins: "insertReorderBuffer (rcvd q) t = Inr ([], t1)" using t1(1) q(1) by (simp add: insertReorderBuffer_def)
  let ?B = "B(e \<mapsto> rcvd q)" and ?t = "hand_next t1"
  have w1: "e < 0 + rb_capacity t1" "?B e = Some (rcvd q)" using same(6) e by simp_all
  note cs = check_step[OF t1(2) w1]
  have ah: "after_hand i x ?t = Inr ([], ?t)" for i x
    using same d by (simp add: after_hand_def arr_at_def)
  have un: "packetsUnHanded ?t = 0"
  proof -
    have "B x = None" if "e + 1 \<le> x" for x using r(2)[rule_format, of x] that by simp
    then have "{i. e + 1 \<le> i \<and> ?B i \<noteq> None} = {}" by auto
    then show ?thesis using cs(2) unfolding ring_def ring_on_def by (simp only: card.empty of_nat_0)
  qed
  obtain tm where "checkReorderBuffer now ?t = Inr ([], ?t\<lparr>decodeTimer := tm\<rparr>)" using check_idle[OF un, of now] by blast
  then have "checkReorderBuffer now t1 = Inr ([HandOver (pkt_copy (rcvd q))], ?t\<lparr>decodeTimer := tm\<rparr>)"
    unfolding cs(1) ah by simp
  then have dec: "decode now q t = Inr ([HandOver (pkt_copy (rcvd q))], ?t\<lparr>decodeTimer := tm\<rparr>)"
    using ins same(2,3) d by (simp add: decode_def rcvd_def[symmetric] decodeReorderBuffer_def)
  have "\<forall>i. ?B i \<noteq> None \<longleftrightarrow> 0 \<le> i \<and> i < e + 1" using r(2) b(2) by auto
  then have "\<exists>B. ring 0 (e + 1) B ?t \<and> (\<forall>i. B i \<noteq> None \<longleftrightarrow> 0 \<le> i \<and> i < e + 1)" using cs(2) by blast
  then have "plain K P (e + 1) ?t" using same un e by (simp add: plain_def)
  then show ?thesis using dec by (simp add: plain_timer)
qed

text \<open>A parity packet that comes after its generation is freed.\<close>

lemma decode_late_parity:
  assumes p: "plain K P e t" and e: "0 < e" and q: "ifParity (hdr q) = 1" "0 \<le> genID (hdr q)" "genID (hdr q) < 3"
    and last: "headGenIndex (hdr q) + blockSize (hdr q) = e"
  shows "\<exists>t'. decode now q t = Inr ([Freed (rcvd q)], t') \<and> plain K P e t'"
proof -
  note d = p[unfolded plain_def coded_def]
  obtain B where r: "ring 0 e B t" using d by blast
  have x: "expectHandOverGenIndex t = e mod MAX_PACKETS_COUNT" using r by (simp add: ring_def ring_on_def)
  have l: "(headGenIndex (hdr q) + blockSize (hdr q) - 1) smod MAX_PACKETS_COUNT = (e - 1) mod MAX_PACKETS_COUNT"
    using last e by (simp add: smod_nonneg MAX_PACKETS_COUNT_def)
  have a: "ahead ((e - 1) mod MAX_PACKETS_COUNT) (expectHandOverGenIndex t) = MAX_PACKETS_COUNT - 1"
    using ahead_mod_behind[of e "e - 1"] x by (simp add: MAX_PACKETS_COUNT_def)
  have g: "(genID (hdr q) + MAX_GENERATION) smod MAX_GENERATION = genID (hdr q)"
    using q by (simp add: MAX_GENERATION_def smod_nonneg)
  have "arr_at (headReorderBuffer t) (parityBuffer t) = Inr (new_parity_buffer K (int P) 0)" using d by (simp add: arr_at_def)
  moreover have "ahead ((e - 1) mod MAX_PACKETS_COUNT) (expectHandOverGenIndex t) > MAX_PACKETS_COUNT div 2"
    unfolding a by (simp add: MAX_PACKETS_COUNT_def)
  moreover have "\<not> genID (hdr q) > MAX_GENERATION div 2" using q by (simp add: MAX_GENERATION_def)
  ultimately have ins: "insertReorderBuffer (rcvd q) t = Inr ([Freed (rcvd q)], t)"
    using q(1) l g by (simp add: insertReorderBuffer_def insert_parity_def Let_def new_parity_buffer_def)
  obtain tm where "checkReorderBuffer now t = Inr ([], t\<lparr>decodeTimer := tm\<rparr>)" using check_idle[of t now] d by auto
  then have "decode now q t = Inr ([Freed (rcvd q)], t\<lparr>decodeTimer := tm\<rparr>)"
    using ins d by (simp add: decode_def rcvd_def[symmetric] decodeReorderBuffer_def)
  then show ?thesis using p by (simp add: plain_timer)
qed

lemma decode_all_next:
  assumes "plain K P e t" and "e + int (length qs) \<le> 3 * K" and "\<forall>i<length qs. ifParity (hdr (qs ! i)) = 0 \<and> genIndex (hdr (qs ! i)) = (e + int i) mod MAX_PACKETS_COUNT"
  shows "\<exists>out t'. decode_all (List.map (Pair now) qs) t = Inr (out, t') \<and> List.map inner (handed out) = List.map inner qs \<and>
    plain K P (e + int (length qs)) t'"
  using assms
proof (induction qs arbitrary: e t)
  case (Cons q qs)
  have q: "ifParity (hdr q) = 0" "genIndex (hdr q) = e mod MAX_PACKETS_COUNT" using Cons.prems(3)[rule_format, of 0] by simp_all
  obtain o1 t1 where t1: "decode now q t = Inr (o1, t1)" "List.map inner (handed o1) = [inner q]" "plain K P (e + 1) t1"
    using decode_next[OF Cons.prems(1) _ q, of now] Cons.prems(2) by auto
  have "\<forall>i<length qs. ifParity (hdr (qs ! i)) = 0 \<and> genIndex (hdr (qs ! i)) = (e + 1 + int i) mod MAX_PACKETS_COUNT"
    using Cons.prems(3) by (force simp: algebra_simps)
  then obtain o2 t2 where "decode_all (List.map (Pair now) qs) t1 = Inr (o2, t2)" "List.map inner (handed o2) = List.map inner qs"
    "plain K P (e + 1 + int (length qs)) t2"
    using Cons.IH[OF t1(3)] Cons.prems(2) by auto
  then show ?case using t1 by (auto simp: algebra_simps)
qed simp

lemma decode_all_late_parities:
  assumes "plain K P e t" and "0 < e" and "\<forall>q\<in>set qs. ifParity (hdr q) = 1 \<and> 0 \<le> genID (hdr q) \<and> genID (hdr q) < 3 \<and>
    headGenIndex (hdr q) + blockSize (hdr q) = e"
  shows "\<exists>out t'. decode_all (List.map (Pair now) qs) t = Inr (out, t') \<and> handed out = [] \<and> plain K P e t'"
  using assms
proof (induction qs arbitrary: t)
  case (Cons q qs)
  obtain t1 where t1: "decode now q t = Inr ([Freed (rcvd q)], t1)" "plain K P e t1"
    using decode_late_parity[OF Cons.prems(1,2), of q now] Cons.prems(3) by auto
  then show ?case using Cons.IH[OF t1(2) Cons.prems(2)] Cons.prems(3) by auto
qed simp

lemma decode_all_lossless_generation:
  assumes "plain K P (g * K) t" and "sending (nat K) P g (g * K) [] s" and "0 \<le> g" "g < 3" and "length ps = nat K" and "0 < K" "6 * K \<le> MAX_PACKETS_COUNT"
  shows "\<exists>sent s' out t'. encode_all ps s = Inr (List.map HandOver sent, s') \<and> sending (nat K) P (g + 1) ((g + 1) * K) [] s' \<and>
    decode_all (List.map (Pair now) sent) t = Inr (out, t') \<and> List.map inner (handed out) = List.map (inner \<circ> snd) ps \<and>
    plain K P ((g + 1) * K) t'"
proof -
  have b: "g * K + K \<le> 3 * K" using mult_right_mono[of "g + 1" 3 K] assms(4,6) by (simp add: algebra_simps)
  have k: "(g + 1) * K = g * K + K" "0 \<le> g * K" using assms(3,6) by (simp_all add: distrib_right)
  have m: "0 \<le> g * K" "(g + 1) * K < MAX_PACKETS_COUNT" "g * K < MAX_PACKETS_COUNT"
    unfolding k(1) using b k(2) assms(6,7) by linarith+
  obtain s' where s': "encode_all ps s = Inr (List.map HandOver (numbered_from (g * K) ps @ parities P g (g * K) ps), s')"
    "sending (nat K) P ((g + 1) mod MAX_GENERATION) ((g * K + int (nat K)) mod MAX_PACKETS_COUNT) [] s'"
    using encode_all_generation[OF assms(2,5)] by blast
  have n: "(g + 1) mod MAX_GENERATION = g + 1" "(g * K + int (nat K)) mod MAX_PACKETS_COUNT = (g + 1) * K"
    using assms(3,4,6) m by (simp_all add: MAX_GENERATION_def algebra_simps)
  have "\<forall>i<length (numbered_from (g * K) ps). ifParity (hdr (numbered_from (g * K) ps ! i)) = 0 \<and>
      genIndex (hdr (numbered_from (g * K) ps ! i)) = (g * K + int i) mod MAX_PACKETS_COUNT"
    using numbered_from_nth[of _ ps "g * K"] m by simp
  then obtain o1 t1 where t1: "decode_all (List.map (Pair now) (numbered_from (g * K) ps)) t = Inr (o1, t1)"
    "List.map inner (handed o1) = List.map (inner \<circ> snd) ps" "plain K P ((g + 1) * K) t1"
    using decode_all_next[OF assms(1), of "numbered_from (g * K) ps" now] b assms(5,6) by (auto simp: algebra_simps)
  have ne: "ps \<noteq> []" "numbered_from (g * K) ps \<noteq> []" using assms(5,6) by (auto simp flip: length_greater_0_conv)
  have "hd (numbered_from (g * K) ps) = original (fst (ps ! 0)) (g * K) (snd (ps ! 0))"
    using numbered_from_nth[of 0 ps "g * K"] m ne by (simp add: hd_conv_nth)
  then have "\<forall>q\<in>set (parities P g (g * K) ps). ifParity (hdr q) = 1 \<and> 0 \<le> genID (hdr q) \<and> genID (hdr q) < 3 \<and>
      headGenIndex (hdr q) + blockSize (hdr q) = (g + 1) * K"
    using assms(3-6) by (auto simp: parities_def algebra_simps)
  moreover have "0 < (g + 1) * K" using assms(3,6) by simp
  ultimately obtain o2 t2 where t2: "decode_all (List.map (Pair now) (parities P g (g * K) ps)) t1 = Inr (o2, t2)" "handed o2 = []" "plain K P ((g + 1) * K) t2"
    using decode_all_late_parities[OF t1(3)] by blast
  have "decode_all (List.map (Pair now) (numbered_from (g * K) ps @ parities P g (g * K) ps)) t = Inr (o1 @ o2, t2)"
    using decode_all_append[OF t1(1)] t2(1) by simp
  moreover have "List.map inner (handed (o1 @ o2)) = List.map (inner \<circ> snd) ps" using t1(2) t2(2) by simp
  ultimately show ?thesis using s' n t2(3) by metis
qed

lemma decode_full_window:
  assumes p: "plain K P (3 * K) t" and q: "ifParity (hdr q) = 0" "genIndex (hdr q) = 3 * K"
  shows "decode now q t = Inl Exit"
proof -
  note d = p[unfolded plain_def coded_def]
  obtain B where r: "ring 0 (3 * K) B t" using d by blast
  have x: "expectHandOverGenIndex t = 3 * K mod MAX_PACKETS_COUNT" "rb_headIndex t = 0" using r by (simp_all add: ring_def ring_on_def)
  have m: "3 * K mod MAX_PACKETS_COUNT = 3 * K" using d by simp
  have "ahead (3 * K) (expectHandOverGenIndex t) = 0" "ahead (3 * K) (rb_headIndex t) = 3 * K"
    using ahead_mod[of "3 * K" "3 * K"] ahead_mod[of "3 * K" 0] x m d by (simp_all add: MAX_PACKETS_COUNT_def)
  then show ?thesis using q d by (simp add: decode_def rcvd_def[symmetric] insertReorderBuffer_def insert_original_def Let_def MAX_GENERATION_def)
qed

text \<open>When the network loses and reorders nothing, the receiver hands over three generations and
  ends the program at the first packet of the fourth: a generation is cleared from the buffer
  only with the help of a parity packet, and those of a complete generation are dropped.\<close>

theorem tunnel_lossless_exits:
  assumes "new_CLBTunnel (K + int P) (int P) = Inr t0" and "0 < K" and "0 < P" and "6 * K \<le> 65536"
    and "length ps = 3 * nat K" and "ifParity (hdr q) = 0" and "genIndex (hdr q) = 3 * K"
  shows "\<exists>sent t1 out t2. encode_all ps t0 = Inr (List.map HandOver sent, t1) \<and>
    decode_all (List.map (Pair now) sent) t0 = Inr (out, t2) \<and>
    List.map inner (handed out) = List.map (inner \<circ> snd) ps \<and> decode now q t2 = Inl Exit"
proof -
  have K: "6 * K \<le> MAX_PACKETS_COUNT" using assms(4) by (simp add: MAX_PACKETS_COUNT_def)
  let ?a = "take (nat K) ps" and ?b = "take (nat K) (drop (nat K) ps)" and ?c = "drop (nat K) (drop (nat K) ps)"
  have l: "length ?a = nat K" "length ?b = nat K" "length ?c = nat K" using assms(5) by auto
  have ps: "ps = ?a @ ?b @ ?c" by (metis append_take_drop_id)
  have s0: "sending (nat K) P 0 (0 * K) [] t0" using sending_new[of "nat K" P t0] assms(1,2) by simp
  have p0: "plain K P (0 * K) t0" using plain_new[OF assms(1-3) K] by simp
  obtain w1 s1 o1 r1 where g1: "encode_all ?a t0 = Inr (List.map HandOver w1, s1)" "sending (nat K) P 1 (1 * K) [] s1"
    "decode_all (List.map (Pair now) w1) t0 = Inr (o1, r1)" "List.map inner (handed o1) = List.map (inner \<circ> snd) ?a" "plain K P (1 * K) r1"
    using decode_all_lossless_generation[OF p0 s0 _ _ l(1) assms(2) K, of now] by auto
  obtain w2 s2 o2 r2 where g2: "encode_all ?b s1 = Inr (List.map HandOver w2, s2)" "sending (nat K) P 2 (2 * K) [] s2"
    "decode_all (List.map (Pair now) w2) r1 = Inr (o2, r2)" "List.map inner (handed o2) = List.map (inner \<circ> snd) ?b" "plain K P (2 * K) r2"
    using decode_all_lossless_generation[OF g1(5,2) _ _ l(2) assms(2) K, of now] by auto
  obtain w3 s3 o3 r3 where g3: "encode_all ?c s2 = Inr (List.map HandOver w3, s3)"
    "decode_all (List.map (Pair now) w3) r2 = Inr (o3, r3)" "List.map inner (handed o3) = List.map (inner \<circ> snd) ?c" "plain K P (3 * K) r3"
    using decode_all_lossless_generation[OF g2(5,2) _ _ l(3) assms(2) K, of now] by auto
  have "encode_all (?a @ ?b @ ?c) t0 = Inr (List.map HandOver (w1 @ w2 @ w3), s3)"
    using encode_all_append[OF g1(1), of "?b @ ?c"] encode_all_append[OF g2(1), of ?c] g3(1) by simp
  moreover have "decode_all (List.map (Pair now) (w1 @ w2 @ w3)) t0 = Inr (o1 @ o2 @ o3, r3)"
    using decode_all_append[OF g1(3), of "List.map (Pair now) (w2 @ w3)"] decode_all_append[OF g2(3), of "List.map (Pair now) w3"] g3(2)
    by simp
  moreover have "List.map inner (handed (o1 @ o2 @ o3)) = List.map (inner \<circ> snd) (?a @ ?b @ ?c)"
    unfolding handed_append map_append g1(4) g2(4) g3(3) by (rule refl)
  ultimately show ?thesis using decode_full_window[OF g3(4) assms(6,7), of now] unfolding ps[symmetric] by blast
qed

lemma tunnel_lossless_exits_witness:
  "\<exists>t0 sent t1 out t2. new_CLBTunnel 3 1 = Inr t0 \<and> encode_all (ex_tun_packets [10, 11, 12, 13, 14, 15]) t0 = Inr (List.map HandOver sent, t1) \<and>
    decode_all (List.map (Pair 0) sent) t0 = Inr (out, t2) \<and>
    List.map inner (handed out) = List.map (inner \<circ> ex_tun_packet) [10, 11, 12, 13, 14, 15] \<and>
    decode 0 (original (\<lambda>_. 7) 6 (ex_tun_packet 16)) t2 = Inl Exit"
proof -
  obtain t0 where t0: "new_CLBTunnel 3 1 = Inr t0" by (simp add: new_CLBTunnel_def)
  show ?thesis
    using tunnel_lossless_exits[of 2 1 t0 "ex_tun_packets [10, 11, 12, 13, 14, 15]" "original (\<lambda>_. 7) 6 (ex_tun_packet 16)" 0] t0
    by (auto simp: ex_tun_packets_def)
qed

subsection \<open>The timeout\<close>

text \<open>The timer expires while a generation is incomplete: \<^verbatim>\<open>S\<close> has arrived, fewer than \<^verbatim>\<open>K\<close>
  packets but a parity packet among them, packet \<^verbatim>\<open>e\<close> is missing and a later one waits.  The
  parity packets are freed, so that the generation can not be recovered from them any more;
  nothing is handed over, the same packet is expected, and the timer starts again.\<close>

theorem tunnel_coded_timeout:
  assumes c: "collecting K P pk S e t" and "pars K S \<noteq> 0" and "int (card S) < K" and "e \<notin> S"
    and "i \<in> S" and "e < i" and "i < K"
  shows "\<exists>out t'. decodeTimeout now t = Inr (out, t') \<and> handed out = [] \<and> packetsCountInParityBuffer t' = 0 \<and>
    expectHandOverGenIndex t' = expectHandOverGenIndex t \<and> packetsUnHanded t' = packetsUnHanded t \<and>
    ring 0 e (orig_of K pk S) t' \<and> t_status (decodeTimer t') = TIMER_PENDING"
proof -
  note d = c[unfolded collecting_def coded_def]
  obtain b where b: "parityBuffer t = [b, new_parity_buffer K (int P) 1, new_parity_buffer K (int P) 2]" "pb_state K P pk S b"
    using d by blast
  have r: "ring 0 e (orig_of K pk S) t" and e: "0 \<le> e" "e < 0 + rb_capacity t" "orig_of K pk S e = None"
    using d assms(4) by (auto simp: ring_def ring_on_def orig_of_def)
  have un: "0 < packetsUnHanded t"
    by (rule ring_unhanded_pos[OF r, of i]) (use assms(5-7) e in \<open>auto simp: orig_of_def\<close>)
  have cap: "0 < rb_capacity t" using d by simp
  let ?i = "(rb_head t + (e - 0)) mod rb_capacity t"
  have dr: "decodeReorderBuffer t = Inr t" by (rule decodeReorderBuffer_waits[OF c]) (use assms(3) in simp)
  have cnt: "some_count (pb_buffer b) = packetsCountInParityBuffer t" "pb_ifUpdated b \<noteq> 0" "headReorderBuffer t = 0"
    using b(2) d assms(2) some_count_par_of[of S K P pk] by (auto simp: pb_state_def)
  obtain bs where cl: "clearParityBuffer 0 t = Inr (free_all (pb_buffer b), t\<lparr>parityBuffer := bs, headReorderBuffer := 1,
      packetsCountInParityBuffer := packetsCountInParityBuffer t - some_count (pb_buffer b)\<rparr>)" (is "_ = Inr (_, ?t)")
    using clearParityBuffer_gen0[OF cnt(3) b(1) cnt(2)] by blast
  have r1: "ring 0 e (orig_of K pk S) ?t" using r by (simp add: ring_def)
  have e1: "e < 0 + rb_capacity ?t" using e(2) by simp
  obtain tm where k: "checkReorderBuffer now ?t = Inr ([], ?t\<lparr>decodeTimer := tm\<rparr>)" "t_status tm = TIMER_PENDING"
    using check_stop[OF r1 e1 e(3), of now] un by auto
  have ng: "\<not> packetsUnHanded t < 0" "\<not> packetsUnHanded t = 0" "BlockSize_MaxP t > 0" "\<not> (?i < 0 \<or> ?i \<ge> rb_capacity t)"
    "\<not> (None::tpacket option) \<noteq> None" "\<not> BlockSize_MaxP t = 0"
    using un d cap by (auto simp: not_less not_le)
  have "decodeTimeout now t = Inr (free_all (pb_buffer b), ?t\<lparr>decodeTimer := tm\<rparr>)"
    unfolding decodeTimeout_def if_not_P[OF ng(1)] if_not_P[OF ng(2)] if_P[OF ng(3)] dr bind_r_simps expect_pos_ring[OF r e(2)]
      if_not_P[OF ng(4)] ring_at[OF r[unfolded ring_def] e(1,2)] e(3) if_not_P[OF ng(5)] if_not_P[OF ng(6)] cnt(3) cl
    by (simp add: k(1))
  then show ?thesis using r cnt(1) k(2) by (intro exI[of _ "free_all (pb_buffer b)"] exI[of _ "?t\<lparr>decodeTimer := tm\<rparr>"]) (simp add: ring_def)
qed

text \<open>\<^verbatim>\<open>K = 3\<close>, \<^verbatim>\<open>P = 1\<close>: packet 1 and the parity packet have arrived.\<close>

lemma tunnel_coded_timeout_witness:
  "\<exists>t0 (pk :: int \<Rightarrow> tpacket) o1 t1 o2 t2 out t'. new_CLBTunnel 4 1 = Inr t0 \<and> decode 0 (pk 1) t0 = Inr (o1, t1) \<and> decode 1 (pk 3) t1 = Inr (o2, t2) \<and>
    decodeTimeout 2 t2 = Inr (out, t') \<and> handed out = [] \<and> packetsCountInParityBuffer t' = 0 \<and> t_status (decodeTimer t') = TIMER_PENDING"
proof -
  obtain t0 where t0: "new_CLBTunnel 4 1 = Inr t0" by (simp add: new_CLBTunnel_def)
  define pk where "pk = (\<lambda>n. (numbered_from 0 (ex_tun_packets [10, 11, 12]) @ parities 1 0 0 (ex_tun_packets [10, 11, 12])) ! nat n)"
  have c0: "collecting 3 1 pk {} 0 t0" by (rule collecting_new) (use t0 in \<open>simp_all add: MAX_PACKETS_COUNT_def\<close>)
  have w: "wire 3 1 pk" unfolding pk_def by (rule wire_sent) (simp_all add: ex_tun_packets_def MAX_PACKETS_COUNT_def)
  have sub: "m = 0" if "collecting 3 1 pk S m t" "0 \<notin> S" for m S t
  proof (rule ccontr)
    assume "m \<noteq> 0"
    moreover have "0 \<le> m" using that(1) by (simp add: collecting_def ring_def ring_on_def)
    ultimately have "0 \<in> {0..<m}" by simp
    then show False using that by (auto simp: collecting_def)
  qed
  have "{s \<in> {1::int}. 3 \<le> s} = {}" "{s \<in> {3::int, 1}. 3 \<le> s} = {3}" by auto
  then have p: "pars 3 {1} = 0" "pars 3 {3, 1} \<noteq> 0" "card {3, 1::int} = 2" by (simp_all add: pars_def)
  have n1: "\<not> (pars 3 {1} \<noteq> 0 \<and> int (card {1::int}) = 3)" "\<not> (pars 3 {3, 1} \<noteq> 0 \<and> int (card {3, 1::int}) = 3)" using p by auto
  obtain o1 t1 m1 where a1: "decode 0 (pk 1) t0 = Inr (o1, t1)" "collecting 3 1 pk {1} m1 t1"
    using arrive[OF c0 w, of 1 0] unfolding if_not_P[OF n1(1)] by auto
  have c1: "collecting 3 1 pk {1} 0 t1" using a1(2) sub[OF a1(2)] by simp
  obtain o2 t2 m2 where a2: "decode 1 (pk 3) t1 = Inr (o2, t2)" "collecting 3 1 pk {3, 1} m2 t2"
    using arrive[OF c1 w, of 3 1] unfolding if_not_P[OF n1(2)] by auto
  have c2: "collecting 3 1 pk {3, 1} 0 t2" using a2(2) sub[OF a2(2)] by simp
  show ?thesis using tunnel_coded_timeout[OF c2 p(2), of 1 2] p(3) t0 a1(1) a2(1) by fastforce
qed

end
