(* ===== verification/FlowClassifier.thy ===== *)
theory FlowClassifier
  imports Tunnel
begin

text \<open>
  The table of tunnels of a node (\<^verbatim>\<open>apps/clb_flow_classify.cc\<close>): one tunnel agent for each remote
  address, found by a linear search.  A pointer to an agent is the index of its entry.
\<close>

type_synonym ushort = "16 word"

record flow_entry =
  fe_otherIP :: int
  fe_agent :: tunnel
  fe_age :: int
  fe_valid :: int
  fe_hitTimes :: int

record flow_classifier =
  fc_BlockSize_N :: int
  fc_BlockSize_P :: int
  flowTable :: "flow_entry list"
  maxActiveFlowNumber :: ushort
  invalidEntryNumber :: ushort

definition new_CLBFlowClassifier :: "int \<Rightarrow> int \<Rightarrow> flow_classifier" where
  "new_CLBFlowClassifier n p = \<lparr> fc_BlockSize_N = n, fc_BlockSize_P = p, flowTable = [], maxActiveFlowNumber = 0, invalidEntryNumber = 0 \<rparr>"

text \<open>\<^verbatim>\<open>expandOneFlowTableEntry\<close>.  The counter has 16 bits; at the wrap-around \<^verbatim>\<open>memcpy\<close> gets a
  negative size.\<close>

definition expandOneFlowTableEntry :: "int \<Rightarrow> flow_classifier \<Rightarrow> flow_classifier result" where
  "expandOneFlowTableEntry other fc =
    (if invalidEntryNumber fc \<noteq> 0 then Inl Exit
     else (let n = maxActiveFlowNumber fc + 1 in
       if n = 0 then Inl OutOfBounds
       else bind_r (new_CLBTunnel (fc_BlockSize_N fc) (fc_BlockSize_P fc)) (\<lambda>a.
         Inr (fc\<lparr>maxActiveFlowNumber := n, flowTable := flowTable fc @
           [\<lparr> fe_otherIP = other, fe_agent = a\<lparr>tun_flowID := int (unat n) - 1\<rparr>, fe_age = 1, fe_valid = 1, fe_hitTimes = 1 \<rparr>]\<rparr>))))"

text \<open>The search of \<^verbatim>\<open>getCLBTunnelAgent\<close> from entry \<^verbatim>\<open>i\<close> on; it also counts invalid entries.\<close>

fun get_loop :: "int \<Rightarrow> nat \<Rightarrow> flow_entry list \<Rightarrow> ushort \<Rightarrow> nat option \<times> ushort" where
  "get_loop other i [] bad = (None, bad)"
| "get_loop other i (e # es) bad =
    (let bad' = (if fe_valid e = 0 then bad + 1 else bad) in
     if fe_otherIP e = other then (Some i, bad') else get_loop other (Suc i) es bad')"

definition getCLBTunnelAgent :: "int \<Rightarrow> flow_classifier \<Rightarrow> (nat \<times> flow_classifier) result" where
  "getCLBTunnelAgent other fc =
    (case get_loop other 0 (take (unat (maxActiveFlowNumber fc)) (flowTable fc)) (invalidEntryNumber fc) of (found, bad) \<Rightarrow>
      (let fc1 = fc\<lparr>invalidEntryNumber := bad\<rparr> in
       case found of
         Some i \<Rightarrow>
           (let e = flowTable fc1 ! i;
                fc2 = fc1\<lparr>flowTable := (flowTable fc1)[i := e\<lparr>fe_age := 1, fe_hitTimes := fe_hitTimes e + 1\<rparr>]\<rparr>
            in if tun_flowID (fe_agent e) \<noteq> int i then Inl Exit else Inr (i, fc2))
       | None \<Rightarrow> bind_r (expandOneFlowTableEntry other fc1) (\<lambda>fc2.
           (let i = unat (maxActiveFlowNumber fc2) - 1 in
            if tun_flowID (fe_agent (flowTable fc2 ! i)) \<noteq> int i then Inl Exit else Inr (i, fc2)))))"

text \<open>The destructor of a tunnel cancels both timers.\<close>

definition delete_CLBTunnel :: "tunnel \<Rightarrow> unit result" where
  "delete_CLBTunnel t = bind_r (timer_cancel (encodeTimer t)) (\<lambda>_. bind_r (timer_cancel (decodeTimer t)) (\<lambda>_. Inr ()))"

fun shrink_mark :: "flow_entry list \<Rightarrow> ushort \<Rightarrow> (flow_entry list \<times> ushort) result" where
  "shrink_mark [] bad = Inr ([], bad)"
| "shrink_mark (e # es) bad =
    bind_r (if fe_age e = 0 then bind_r (delete_CLBTunnel (fe_agent e)) (\<lambda>_. Inr (e\<lparr>fe_valid := 0, fe_hitTimes := 0\<rparr>, bad + 1))
            else Inr (e, bad)) (\<lambda>(e', bad').
    bind_r (shrink_mark es bad') (\<lambda>(es', bad''). Inr (e'\<lparr>fe_age := 0\<rparr> # es', bad'')))"

text \<open>The entries that stay get their old index as \<^verbatim>\<open>flowID\<close>.\<close>

fun shrink_keep :: "nat \<Rightarrow> flow_entry list \<Rightarrow> flow_entry list" where
  "shrink_keep i [] = []"
| "shrink_keep i (e # es) =
    (if fe_valid e = 1 then e\<lparr>fe_agent := (fe_agent e)\<lparr>tun_flowID := int i\<rparr>\<rparr> # shrink_keep (Suc i) es else shrink_keep (Suc i) es)"

definition shrinkFlowTable :: "flow_classifier \<Rightarrow> flow_classifier result" where
  "shrinkFlowTable fc =
    bind_r (shrink_mark (take (unat (maxActiveFlowNumber fc)) (flowTable fc)) (invalidEntryNumber fc)) (\<lambda>(es, bad).
      (let n = maxActiveFlowNumber fc - bad in
       if bad = 0 then Inr (fc\<lparr>flowTable := es\<rparr>)
       else if length (shrink_keep 0 es) \<noteq> unat n then Inl Exit
       else Inr (fc\<lparr>flowTable := shrink_keep 0 es, maxActiveFlowNumber := n, invalidEntryNumber := 0\<rparr>)))"

text \<open>A packet for a remote address goes to its agent; \<^verbatim>\<open>node\<close> is the address of this node.\<close>

definition flow_recv :: "rat \<Rightarrow> (nat \<Rightarrow> nat) \<Rightarrow> int \<Rightarrow> int \<Rightarrow> tpacket \<Rightarrow> flow_classifier \<Rightarrow> (tun_effect list \<times> flow_classifier) result" where
  "flow_recv now rnd node other p fc =
    bind_r (getCLBTunnelAgent other fc) (\<lambda>(i, fc1).
    bind_r (tunnel_recv now rnd node p (fe_agent (flowTable fc1 ! i))) (\<lambda>(out, a).
      Inr (out, fc1\<lparr>flowTable := (flowTable fc1)[i := (flowTable fc1 ! i)\<lparr>fe_agent := a\<rparr>]\<rparr>)))"

text \<open>The part of \<^verbatim>\<open>Classifier::recv\<close> for a node with tunnels: the table is made at the first packet,
  and the address that is not the one of the node selects the entry.\<close>

definition tunnel_node_recv ::
    "int \<Rightarrow> int \<Rightarrow> int \<Rightarrow> rat \<Rightarrow> (nat \<Rightarrow> nat) \<Rightarrow> tpacket \<Rightarrow> flow_classifier option \<Rightarrow> (tun_effect list \<times> flow_classifier) result" where
  "tunnel_node_recv n k node now rnd p tb =
    (if tb = None \<and> n = 0 then Inl Exit
     else (let fc = (case tb of None \<Rightarrow> new_CLBFlowClassifier n k | Some fc \<Rightarrow> fc) in
       if saddr (hdr p) = node \<and> daddr (hdr p) = node then Inl Exit
       else flow_recv now rnd node (if saddr (hdr p) = node then daddr (hdr p) else saddr (hdr p)) p fc))"

text \<open>The decode timer of entry \<^verbatim>\<open>i\<close> expires.\<close>

definition flow_timeout :: "rat \<Rightarrow> nat \<Rightarrow> flow_classifier \<Rightarrow> (tun_effect list \<times> flow_classifier) result" where
  "flow_timeout now i fc =
    bind_r (DecodeTimer_handle now (fe_agent (flowTable fc ! i))) (\<lambda>(out, a).
      Inr (out, fc\<lparr>flowTable := (flowTable fc)[i := (flowTable fc ! i)\<lparr>fe_agent := a\<rparr>]\<rparr>))"

subsection \<open>What the operations of a tunnel keep\<close>

definition keeps :: "tunnel \<Rightarrow> tunnel \<Rightarrow> bool" where
  "keeps t t' \<longleftrightarrow> tun_flowID t' = tun_flowID t \<and> encodeTimer t' = encodeTimer t"

lemma keeps_refl [simp, intro]: "keeps t t"
  by (simp add: keeps_def)

lemma keeps_trans: "keeps t t' \<Longrightarrow> keeps t' t'' \<Longrightarrow> keeps t t''"
  by (simp add: keeps_def)

lemma pb_only_keeps: "pb_only t t' \<Longrightarrow> keeps t t'"
  by (auto simp: pb_only_def keeps_def)

lemma upd_pb_keeps: "upd_pb i f t = Inr t' \<Longrightarrow> keeps t t'"
  by (rule pb_only_keeps[OF pb_only_upd_pb])

lemma createParityPackets_keeps: "createParityPackets r t = Inr (out, t') \<Longrightarrow> keeps t t'"
  unfolding createParityPackets_def
  by (auto simp: Let_def setPacket_def keeps_def split: if_splits prod.splits)

lemma parity_loop_keeps: "parity_loop n rnd t = Inr (out, t') \<Longrightarrow> keeps t t'"
proof (induction n arbitrary: rnd t out)
  case (Suc n)
  then obtain o1 t1 o2 where "createParityPackets (rnd 0) t = Inr (o1, t1)" "parity_loop n (\<lambda>i. rnd (Suc i)) t1 = Inr (o2, t')"
    by auto
  then show ?case using Suc.IH createParityPackets_keeps keeps_trans by blast
qed simp

lemma encode_keeps: "encode rnd p t = Inr (out, t') \<Longrightarrow> keeps t t'"
  unfolding encode_def
  by (auto simp: Let_def setPacket_def end_generation_def keeps_def split: if_splits prod.splits dest!: parity_loop_keeps)

lemma empty_pb_keeps: "empty_pb i g t = Inr (out, t') \<Longrightarrow> keeps t t'"
  unfolding empty_pb_def by (auto simp: Let_def keeps_def dest!: upd_pb_keeps)

lemma reset_pbs_keeps: "reset_pbs n j g t = Inr (out, t') \<Longrightarrow> keeps t t'"
proof (induction n arbitrary: j t out)
  case (Suc n)
  then show ?case by (auto dest!: empty_pb_keeps Suc.IH intro: keeps_trans)
qed simp

lemma resetParityBuffer_keeps: "resetParityBuffer g t = Inr (out, t') \<Longrightarrow> keeps t t'"
  unfolding resetParityBuffer_def by (auto split: if_splits dest!: reset_pbs_keeps)

lemma clearParityBuffer_keeps: "clearParityBuffer i t = Inr (out, t') \<Longrightarrow> keeps t t'"
  unfolding clearParityBuffer_def
  by (auto split: if_splits dest!: empty_pb_keeps pb_only_updateParityBuffInfo[THEN pb_only_keeps] simp: keeps_def)

lemma count_in_keeps: "count_in n k g t = Inr t' \<Longrightarrow> keeps t t'"
proof (induction n arbitrary: k t)
  case (Suc n)
  then show ?case by (auto simp: Let_def split: if_splits dest!: upd_pb_keeps Suc.IH intro: keeps_trans)
qed simp

lemma count_original_keeps: "count_original g t = Inr t' \<Longrightarrow> keeps t t'"
  unfolding count_original_def by (auto split: if_splits dest!: upd_pb_keeps count_in_keeps intro: keeps_trans)

lemma insert_original_keeps: "insert_original p t = Inr (out, t') \<Longrightarrow> keeps t t'"
  unfolding insert_original_def
  by (auto simp: Let_def keeps_def split: if_splits option.splits dest!: count_original_keeps)

lemma countPacketsInGen_keeps: "countPacketsInGen i t = Inr t' \<Longrightarrow> keeps t t'"
  unfolding countPacketsInGen_def by (auto split: if_splits dest!: upd_pb_keeps)

lemma insert_parity_keeps: "insert_parity p t = Inr (out, t') \<Longrightarrow> keeps t t'"
  unfolding insert_parity_def Let_def
  by (auto split: if_splits dest!: upd_pb_keeps countPacketsInGen_keeps resetParityBuffer_keeps simp: keeps_def)

lemma recover_keeps: "recover n i b q t = Inr t' \<Longrightarrow> keeps t t'"
proof (induction n arbitrary: i t)
  case (Suc n)
  then show ?case by (auto split: if_splits dest!: Suc.IH simp: keeps_def)
qed simp

lemma decode_gens_keeps: "decode_gens n p t = Inr t' \<Longrightarrow> keeps t t'"
proof (induction n arbitrary: p t)
  case (Suc n)
  then show ?case by (auto split: if_splits option.splits dest!: Suc.IH recover_keeps intro: keeps_trans)
qed simp

lemma clear_before_keeps: "clear_before n t = Inr (out, t') \<Longrightarrow> keeps t t'"
proof (induction n arbitrary: t out)
  case (Suc n)
  obtain x where x: "arr_at (rb_head t) (rb_buffer t) = Inr x" using Suc.prems by auto
  obtain o1 t1 where c: "clear_head x t = (o1, t1)" by fastforce
  obtain hd o2 where h: "clear_before n (t1\<lparr>expectHandOverGenIndex := (expectHandOverGenIndex t1 + 1) smod MAX_PACKETS_COUNT,
      rb_headIndex := (rb_headIndex t1 + 1) smod MAX_PACKETS_COUNT, rb_head := hd\<rparr>) = Inr (o2, t')"
    using Suc.prems x c by auto
  have "keeps t t1" using c by (auto simp: clear_head_def keeps_def split: option.splits)
  then show ?case using Suc.IH[OF h] by (simp add: keeps_def)
qed simp

lemma after_hand_keeps: "after_hand i q t = Inr (out, t') \<Longrightarrow> keeps t t'"
  unfolding after_hand_def handOverAndClearBeforeIndex_def
  by (auto simp: Let_def keeps_def split: if_splits dest!: clearParityBuffer_keeps clear_before_keeps)

lemma checkReorderBuffer_keeps: "checkReorderBuffer now t = Inr (out, t') \<Longrightarrow> keeps t t'"
proof (induction now t arbitrary: out rule: checkReorderBuffer.induct)
  case (1 now t)
  show ?case
  proof (cases "packetsUnHanded t \<le> 0")
    case True
    then show ?thesis using "1.prems" by (subst (asm) checkReorderBuffer.simps) (auto simp: keeps_def split: if_splits)
  next
    case False
    then have un: "\<not> packetsUnHanded t < 0" "packetsUnHanded t \<noteq> 0" by auto
    obtain i x where i: "expect_pos t = Inr i" "\<not> (i < 0 \<or> i \<ge> rb_capacity t)" "arr_at i (rb_buffer t) = Inr x"
      using "1.prems" un by (subst (asm) checkReorderBuffer.simps) (auto split: if_splits)
    show ?thesis
    proof (cases x)
      case None
      then show ?thesis using "1.prems" un i by (subst (asm) checkReorderBuffer.simps) (auto simp: keeps_def)
    next
      case (Some q)
      let ?t = "t\<lparr>packetsUnHanded := packetsUnHanded t - 1, expectHandOverGenIndex := (expectHandOverGenIndex t + 1) smod MAX_PACKETS_COUNT\<rparr>"
      obtain r o2 where r: "\<not> (ifParity (hdr q) \<noteq> 0 \<and> ifParity (hdr q) \<noteq> -1)" "after_hand i q ?t = Inr r"
        "checkReorderBuffer now (snd r) = Inr (o2, t')"
        using "1.prems" un i Some by (subst (asm) checkReorderBuffer.simps) (auto split: if_splits)
      have "keeps (snd r) t'" using "1.IH"[OF un i(1,2,3) Some r(1,2,3)] .
      moreover have "keeps ?t (snd r)" using after_hand_keeps[of i q ?t "fst r" "snd r"] r(2) by simp
      ultimately show ?thesis by (simp add: keeps_def)
    qed
  qed
qed

lemma decode_keeps: "decode now p t = Inr (out, t') \<Longrightarrow> keeps t t'"
  unfolding decode_def insertReorderBuffer_def decodeReorderBuffer_def
  by (auto split: if_splits dest!: insert_original_keeps insert_parity_keeps decode_gens_keeps checkReorderBuffer_keeps simp: keeps_def)

lemma skip_loop_keeps: "skip_loop n now t = Inr (out, t') \<Longrightarrow> keeps t t'"
proof (induction n arbitrary: t)
  case (Suc n)
  then show ?case by (auto split: if_splits dest!: Suc.IH checkReorderBuffer_keeps simp: keeps_def)
qed simp

definition keeping :: "tunnel \<Rightarrow> (tun_effect list \<times> tunnel) result \<Rightarrow> bool" where
  "keeping t r \<longleftrightarrow> (\<forall>out t'. r = Inr (out, t') \<longrightarrow> keeps t t')"

lemma keeping_intros:
  "keeping t (Inl e)"
  "keeps t t' \<Longrightarrow> keeping t (Inr (out, t'))"
  "(\<And>x. m = Inr x \<Longrightarrow> keeping t (f x)) \<Longrightarrow> keeping t (bind_r m f)"
  "(b \<Longrightarrow> keeping t r) \<Longrightarrow> (\<not> b \<Longrightarrow> keeping t r') \<Longrightarrow> keeping t (if b then r else r')"
  by (auto simp: keeping_def)

lemma decodeTimeout_keeps:
  assumes "decodeTimeout now t = Inr (out, t')"
  shows "keeps t t'"
proof -
  have first: "keeps t t1" if "(if BlockSize_MaxP t > 0 then decodeReorderBuffer t else Inr t) = Inr t1" for t1
    using that by (auto simp: decodeReorderBuffer_def split: if_splits dest: decode_gens_keeps)
  have check: "keeping t (checkReorderBuffer now t1)" if "keeps t t1" for t1
    using that checkReorderBuffer_keeps keeps_trans unfolding keeping_def by blast
  have skip: "keeping t (skip_loop n now t1)" if "keeps t t1" for n t1
    using that skip_loop_keeps keeps_trans unfolding keeping_def by blast
  have last: "keeping t (bind_r (clearParityBuffer i t1) (\<lambda>(o1, t2). bind_r (checkReorderBuffer now t2) (\<lambda>(o2, t3). Inr (o1 @ o2, t3))))"
    if k: "keeps t t1" for i t1
  proof (rule keeping_intros)
    fix x
    assume x: "clearParityBuffer i t1 = Inr x"
    then have "keeps t1 (snd x)" using clearParityBuffer_keeps[of i t1 "fst x" "snd x"] by simp
    then have "keeping t (checkReorderBuffer now (snd x))" using check k keeps_trans by blast
    then show "keeping t (case x of (o1, t2) \<Rightarrow> bind_r (checkReorderBuffer now t2) (\<lambda>(o2, t3). Inr (o1 @ o2, t3)))"
      by (auto simp: keeping_def split_beta)
  qed
  have "keeping t (decodeTimeout now t)"
    unfolding decodeTimeout_def by (intro keeping_intros keeps_refl check skip last first)
  then show ?thesis using assms by (simp add: keeping_def)
qed

lemma DecodeTimer_handle_keeps:
  assumes "DecodeTimer_handle now t = Inr (out, t')"
  shows "keeps t t'"
proof -
  let ?upd = "\<lambda>f t. t\<lparr>decodeTimer := f (decodeTimer t)\<rparr>"
  let ?t = "?upd (\<lambda>tm. tm\<lparr>t_event := None, t_status := TIMER_HANDLING\<rparr>) t"
  have "bind_r (decodeTimeout now ?t) (\<lambda>(out, s').
      Inr (out, if t_status (decodeTimer s') = TIMER_HANDLING then ?upd (\<lambda>tm. tm\<lparr>t_status := TIMER_IDLE\<rparr>) s' else s')) = Inr (out, t')"
    using assms unfolding DecodeTimer_handle_def timer_handle_def by (simp only: sum.distinct if_False split: if_splits)
  then obtain x where x: "decodeTimeout now ?t = Inr x" "(case x of (out, s') \<Rightarrow>
      Inr (out, if t_status (decodeTimer s') = TIMER_HANDLING then ?upd (\<lambda>tm. tm\<lparr>t_status := TIMER_IDLE\<rparr>) s' else s')) = (Inr (out, t') :: error + tun_effect list \<times> tunnel)"
    unfolding bind_r_eq_Inr by blast
  obtain o1 t1 where t1: "decodeTimeout now ?t = Inr (o1, t1)"
    "t' = (if t_status (decodeTimer t1) = TIMER_HANDLING then ?upd (\<lambda>tm. tm\<lparr>t_status := TIMER_IDLE\<rparr>) t1 else t1)"
    using x by (cases x) simp
  have "keeps t1 t'" unfolding t1(2) by (simp add: keeps_def)
  then show ?thesis using decodeTimeout_keeps[OF t1(1)] by (simp add: keeps_def)
qed

lemma tunnel_recv_keeps: "tunnel_recv now rnd node p t = Inr (out, t') \<Longrightarrow> keeps t t'"
  unfolding tunnel_recv_def by (auto split: if_splits dest!: decode_keeps encode_keeps)

subsection \<open>The table\<close>

definition fc_inv :: "flow_classifier \<Rightarrow> bool" where
  "fc_inv fc \<longleftrightarrow> unat (maxActiveFlowNumber fc) = length (flowTable fc) \<and> invalidEntryNumber fc = 0 \<and>
     distinct (List.map fe_otherIP (flowTable fc)) \<and>
     (\<forall>i<length (flowTable fc). let e = flowTable fc ! i in
        fe_valid e = 1 \<and> tun_flowID (fe_agent e) = int i \<and> encodeTimer (fe_agent e) = timer_new)"

lemma get_loop_bad: "\<forall>e\<in>set es. fe_valid e = 1 \<Longrightarrow> snd (get_loop other i es b) = b"
  by (induction es arbitrary: i) (auto simp: Let_def)

lemma get_loop_None: "fst (get_loop other i es b) = None \<longleftrightarrow> other \<notin> fe_otherIP ` set es"
  by (induction es arbitrary: i b) (auto simp: Let_def)

lemma get_loop_Some: "fst (get_loop other i es b) = Some k \<Longrightarrow> \<exists>j<length es. k = i + j \<and> fe_otherIP (es ! j) = other"
proof (induction es arbitrary: i b)
  case (Cons e es)
  show ?case
  proof (cases "fe_otherIP e = other")
    case True
    then show ?thesis using Cons.prems by (intro exI[of _ 0]) (simp add: Let_def)
  next
    case False
    then have "fst (get_loop other (Suc i) es (if fe_valid e = 0 then b + 1 else b)) = Some k"
      using Cons.prems by (simp add: Let_def)
    then obtain j where "j < length es" "k = Suc i + j" "fe_otherIP (es ! j) = other" using Cons.IH by blast
    then show ?thesis by (intro exI[of _ "Suc j"]) simp
  qed
qed simp

definition touch :: "flow_entry \<Rightarrow> flow_entry" where
  "touch e = e\<lparr>fe_age := 1, fe_hitTimes := fe_hitTimes e + 1\<rparr>"

definition new_entry :: "int \<Rightarrow> tunnel \<Rightarrow> nat \<Rightarrow> flow_entry" where
  "new_entry other a i = \<lparr> fe_otherIP = other, fe_agent = a\<lparr>tun_flowID := int i\<rparr>, fe_age = 1, fe_valid = 1, fe_hitTimes = 1 \<rparr>"

lemma getCLBTunnelAgent_new:
  assumes inv: "fc_inv fc" and o: "other \<notin> fe_otherIP ` set (flowTable fc)"
  shows "getCLBTunnelAgent other fc = bind_r (expandOneFlowTableEntry other fc) (\<lambda>fc2.
      (let i = unat (maxActiveFlowNumber fc2) - 1 in
       if tun_flowID (fe_agent (flowTable fc2 ! i)) \<noteq> int i then Inl Exit else Inr (i, fc2)))"
proof -
  note d = inv[unfolded fc_inv_def]
  have v: "\<forall>e\<in>set (flowTable fc). fe_valid e = 1" using d by (auto simp: in_set_conv_nth Let_def)
  have tk: "take (unat (maxActiveFlowNumber fc)) (flowTable fc) = flowTable fc" "invalidEntryNumber fc = 0" using d by simp_all
  have r: "get_loop other 0 (flowTable fc) 0 = (None, 0)"
    using get_loop_None[of other 0 "flowTable fc" 0] get_loop_bad[OF v, of other 0 0] o by (simp add: prod_eq_iff)
  have fc1: "fc\<lparr>invalidEntryNumber := 0\<rparr> = fc" using tk(2) by simp
  show ?thesis using r by (simp add: getCLBTunnelAgent_def tk fc1 Let_def)
qed

text \<open>The lookup of an address: its entry, or a new one at the end.\<close>

lemma getCLBTunnelAgent_inv:
  assumes inv: "fc_inv fc"
  shows "other \<in> fe_otherIP ` set (flowTable fc) \<Longrightarrow>
      \<exists>i<length (flowTable fc). fe_otherIP (flowTable fc ! i) = other \<and>
        getCLBTunnelAgent other fc = Inr (i, fc\<lparr>flowTable := (flowTable fc)[i := touch (flowTable fc ! i)]\<rparr>)"
    and "other \<notin> fe_otherIP ` set (flowTable fc) \<Longrightarrow> length (flowTable fc) = 65535 \<Longrightarrow> getCLBTunnelAgent other fc = Inl OutOfBounds"
    and "other \<notin> fe_otherIP ` set (flowTable fc) \<Longrightarrow> length (flowTable fc) < 65535 \<Longrightarrow>
      new_CLBTunnel (fc_BlockSize_N fc) (fc_BlockSize_P fc) = Inr a \<Longrightarrow>
      getCLBTunnelAgent other fc = Inr (length (flowTable fc),
        fc\<lparr>maxActiveFlowNumber := maxActiveFlowNumber fc + 1, flowTable := flowTable fc @ [new_entry other a (length (flowTable fc))]\<rparr>)"
proof -
  note d = inv[unfolded fc_inv_def]
  have v: "\<forall>e\<in>set (flowTable fc). fe_valid e = 1" using d by (auto simp: in_set_conv_nth Let_def)
  have tk: "take (unat (maxActiveFlowNumber fc)) (flowTable fc) = flowTable fc" "invalidEntryNumber fc = 0" using d by simp_all
  obtain r where r: "get_loop other 0 (flowTable fc) 0 = (r, 0)"
    using get_loop_bad[OF v, of other 0 0] by (cases "get_loop other 0 (flowTable fc) 0") simp
  have fc1: "fc\<lparr>invalidEntryNumber := 0\<rparr> = fc" using tk(2) by simp
  show "\<exists>i<length (flowTable fc). fe_otherIP (flowTable fc ! i) = other \<and>
        getCLBTunnelAgent other fc = Inr (i, fc\<lparr>flowTable := (flowTable fc)[i := touch (flowTable fc ! i)]\<rparr>)"
    if mem: "other \<in> fe_otherIP ` set (flowTable fc)"
  proof -
    obtain i where i: "r = Some i" using get_loop_None[of other 0 "flowTable fc" 0] r mem by (cases r) simp_all
    have b: "i < length (flowTable fc)" "fe_otherIP (flowTable fc ! i) = other"
      using get_loop_Some[of other 0 "flowTable fc" 0 i] r i by auto
    moreover have "tun_flowID (fe_agent (flowTable fc ! i)) = int i" using d b(1) by (simp add: Let_def)
    ultimately show ?thesis using r i by (intro exI[of _ i]) (simp add: getCLBTunnelAgent_def tk fc1 touch_def Let_def)
  qed
  show "getCLBTunnelAgent other fc = Inl OutOfBounds"
    if "other \<notin> fe_otherIP ` set (flowTable fc)" "length (flowTable fc) = 65535"
  proof -
    have "maxActiveFlowNumber fc = of_nat 65535" using d that(2) by (simp add: word_unat_eq_iff)
    then have "maxActiveFlowNumber fc + 1 = 0" by simp
    then show ?thesis using getCLBTunnelAgent_new[OF inv that(1)] tk(2) by (simp add: expandOneFlowTableEntry_def)
  qed
  show "getCLBTunnelAgent other fc = Inr (length (flowTable fc),
        fc\<lparr>maxActiveFlowNumber := maxActiveFlowNumber fc + 1, flowTable := flowTable fc @ [new_entry other a (length (flowTable fc))]\<rparr>)"
    if "other \<notin> fe_otherIP ` set (flowTable fc)" "length (flowTable fc) < 65535" "new_CLBTunnel (fc_BlockSize_N fc) (fc_BlockSize_P fc) = Inr a"
  proof -
    have u: "unat (maxActiveFlowNumber fc + 1) = Suc (length (flowTable fc))"
      using d that(2) by (simp add: unat_plus_if')
    then have n: "maxActiveFlowNumber fc + 1 \<noteq> 0" by auto
    then show ?thesis using getCLBTunnelAgent_new[OF inv that(1)] tk(2) that(3) u
      by (simp add: expandOneFlowTableEntry_def new_entry_def Let_def)
  qed
qed

end
