(* ===== verification/FlowTable.thy ===== *)
theory FlowTable
  imports FlowClassifier TunnelOrder
begin

text \<open>
  What the table of tunnels promises: in every state that packets, timeouts and
  \<^verbatim>\<open>shrinkFlowTable\<close> lead to it is a map from addresses to tunnels, and a packet changes the
  tunnel of its address only.
\<close>

subsection \<open>The abstract table\<close>

definition fc_map :: "flow_classifier \<Rightarrow> int \<rightharpoonup> tunnel" where
  "fc_map fc = map_of (List.map (\<lambda>e. (fe_otherIP e, fe_agent e)) (flowTable fc))"

text \<open>The tunnel of an address is made when the first packet comes; its number is the number of
  tunnels.\<close>

definition flow_spec ::
    "int \<Rightarrow> int \<Rightarrow> rat \<Rightarrow> (nat \<Rightarrow> nat) \<Rightarrow> int \<Rightarrow> int \<Rightarrow> tpacket \<Rightarrow> (int \<rightharpoonup> tunnel) \<Rightarrow> (tun_effect list \<times> (int \<rightharpoonup> tunnel)) result" where
  "flow_spec n k now rnd node other p m =
    bind_r (case m other of Some t \<Rightarrow> Inr t
            | None \<Rightarrow> bind_r (new_CLBTunnel n k) (\<lambda>t. Inr (t\<lparr>tun_flowID := int (card (dom m))\<rparr>)))
      (\<lambda>t. bind_r (tunnel_recv now rnd node p t) (\<lambda>(out, t'). Inr (out, m(other \<mapsto> t'))))"

lemma fc_inv_entry:
  assumes "fc_inv fc" and "i < length (flowTable fc)"
  shows "fe_valid (flowTable fc ! i) = 1" and "tun_flowID (fe_agent (flowTable fc ! i)) = int i"
    and "encodeTimer (fe_agent (flowTable fc ! i)) = timer_new"
    and "fc_map fc (fe_otherIP (flowTable fc ! i)) = Some (fe_agent (flowTable fc ! i))"
proof -
  note d = assms(1)[unfolded fc_inv_def Let_def]
  show "fe_valid (flowTable fc ! i) = 1" "tun_flowID (fe_agent (flowTable fc ! i)) = int i"
    "encodeTimer (fe_agent (flowTable fc ! i)) = timer_new"
    using d assms(2) by blast+
  have "distinct (List.map fst (List.map (\<lambda>e. (fe_otherIP e, fe_agent e)) (flowTable fc)))"
    using d by (simp add: comp_def)
  then show "fc_map fc (fe_otherIP (flowTable fc ! i)) = Some (fe_agent (flowTable fc ! i))"
    unfolding fc_map_def using assms(2) by (intro map_of_is_SomeI) auto
qed

lemma dom_fc_map: "dom (fc_map fc) = fe_otherIP ` set (flowTable fc)"
  unfolding fc_map_def dom_map_of_conv_image_fst by (simp add: image_image)

lemma card_dom_fc_map: "fc_inv fc \<Longrightarrow> card (dom (fc_map fc)) = length (flowTable fc)"
  unfolding dom_fc_map fc_inv_def by (metis distinct_card length_map list.set_map)

lemma fc_inv_length: "fc_inv fc \<Longrightarrow> length (flowTable fc) \<le> 65535"
proof -
  have "unat (maxActiveFlowNumber fc) < 2 ^ 16" by (rule order_less_le_trans[OF unsigned_less]) simp
  then show "fc_inv fc \<Longrightarrow> length (flowTable fc) \<le> 65535" by (simp add: fc_inv_def)
qed

text \<open>The agent of an entry is replaced.\<close>

lemma set_entry:
  assumes inv: "fc_inv fc" and i: "i < length (flowTable fc)"
    and e: "fe_otherIP e = fe_otherIP (flowTable fc ! i)" "fe_valid e = 1" "keeps (fe_agent (flowTable fc ! i)) (fe_agent e)"
  shows "fc_inv (fc\<lparr>flowTable := (flowTable fc)[i := e]\<rparr>)"
    and "fc_map (fc\<lparr>flowTable := (flowTable fc)[i := e]\<rparr>) = (fc_map fc)(fe_otherIP (flowTable fc ! i) \<mapsto> fe_agent e)"
proof -
  let ?fc = "fc\<lparr>flowTable := (flowTable fc)[i := e]\<rparr>"
  have ips: "List.map fe_otherIP ((flowTable fc)[i := e]) = List.map fe_otherIP (flowTable fc)"
    using e(1) i by (metis list_update_id map_update nth_map length_map)
  have "\<forall>j<length (flowTable fc). let x = (flowTable fc)[i := e] ! j in
      fe_valid x = 1 \<and> tun_flowID (fe_agent x) = int j \<and> encodeTimer (fe_agent x) = timer_new"
  proof (intro allI impI)
    fix j
    assume j: "j < length (flowTable fc)"
    show "let x = (flowTable fc)[i := e] ! j in
      fe_valid x = 1 \<and> tun_flowID (fe_agent x) = int j \<and> encodeTimer (fe_agent x) = timer_new"
    proof (cases "j = i")
      case True
      then show ?thesis using fc_inv_entry(2,3)[OF inv i] e(2,3) i by (simp add: keeps_def Let_def)
    next
      case False
      then show ?thesis using fc_inv_entry(1,2,3)[OF inv j] by (simp add: Let_def)
    qed
  qed
  then show inv': "fc_inv ?fc" using inv unfolding fc_inv_def by (simp add: ips)
  show "fc_map ?fc = (fc_map fc)(fe_otherIP (flowTable fc ! i) \<mapsto> fe_agent e)"
  proof
    fix a
    show "fc_map ?fc a = ((fc_map fc)(fe_otherIP (flowTable fc ! i) \<mapsto> fe_agent e)) a"
    proof (cases "a \<in> dom (fc_map fc)")
      case True
      then obtain j where j: "j < length (flowTable fc)" "a = fe_otherIP (flowTable fc ! j)"
        unfolding dom_fc_map by (metis image_iff in_set_conv_nth)
      show ?thesis
      proof (cases "j = i")
        case True
        then show ?thesis using fc_inv_entry(4)[OF inv', of i] i j(2) e(1) by simp
      next
        case False
        then have "a \<noteq> fe_otherIP (flowTable fc ! i)"
          using inv i j by (auto simp: fc_inv_def distinct_conv_nth)
        then show ?thesis
          using fc_inv_entry(4)[OF inv', of j] fc_inv_entry(4)[OF inv j(1)] j False by simp
      qed
    next
      case False
      moreover have "dom (fc_map ?fc) = dom (fc_map fc)"
        unfolding dom_fc_map using ips by simp (metis list.set_map)
      moreover have "fe_otherIP (flowTable fc ! i) \<in> dom (fc_map fc)" using i by (simp add: dom_fc_map)
      ultimately show ?thesis by (auto simp: domIff)
    qed
  qed
qed

text \<open>An entry is added.\<close>

lemma add_entry:
  assumes inv: "fc_inv fc" and l: "length (flowTable fc) < 65535" and o: "other \<notin> dom (fc_map fc)"
    and a: "new_CLBTunnel n k = Inr a"
  defines "fc' \<equiv> fc\<lparr>maxActiveFlowNumber := maxActiveFlowNumber fc + 1, flowTable := flowTable fc @ [new_entry other a (length (flowTable fc))]\<rparr>"
  shows "fc_inv fc'" and "fc_map fc' = (fc_map fc)(other \<mapsto> a\<lparr>tun_flowID := int (length (flowTable fc))\<rparr>)"
proof -
  have "unat (maxActiveFlowNumber fc) < 65535" using inv l by (simp add: fc_inv_def)
  then have u: "unat (maxActiveFlowNumber fc + 1) = unat (maxActiveFlowNumber fc) + 1" by (simp add: unat_plus_if')
  have "encodeTimer a = timer_new" using a by (auto simp: new_CLBTunnel_def split: if_splits)
  then show "fc_inv fc'"
    using inv u o unfolding fc_inv_def fc'_def dom_fc_map Let_def by (auto simp: new_entry_def nth_append less_Suc_eq)
  have "fc_map fc' = (fc_map fc)(other \<mapsto> a\<lparr>tun_flowID := int (length (flowTable fc))\<rparr>)"
    if "fc_map fc other = None"
    using that unfolding fc_map_def fc'_def by (auto simp: new_entry_def map_add_def fun_eq_iff split: option.splits)
  then show "fc_map fc' = (fc_map fc)(other \<mapsto> a\<lparr>tun_flowID := int (length (flowTable fc))\<rparr>)" using o by (simp add: domIff)
qed

subsection \<open>The operations\<close>

definition conf :: "int \<Rightarrow> int \<Rightarrow> flow_classifier \<Rightarrow> bool" where
  "conf n k fc \<longleftrightarrow> fc_BlockSize_N fc = n \<and> fc_BlockSize_P fc = k"

lemma flow_recv_full:
  assumes "fc_inv fc" and "other \<notin> dom (fc_map fc)" and "length (flowTable fc) = 65535"
  shows "flow_recv now rnd node other p fc = Inl OutOfBounds"
  using getCLBTunnelAgent_inv(2)[OF assms(1), of other] assms(2,3) by (simp add: flow_recv_def dom_fc_map)

lemma flow_recv_agent:
  assumes inv: "fc_inv fc1" and g: "getCLBTunnelAgent other fc = Inr (i, fc1)" and i: "i < length (flowTable fc1)"
    and a: "fe_agent (flowTable fc1 ! i) = t"
  shows "case tunnel_recv now rnd node p t of Inl e \<Rightarrow> flow_recv now rnd node other p fc = Inl e
    | Inr (out, t') \<Rightarrow> \<exists>fc'. flow_recv now rnd node other p fc = Inr (out, fc') \<and> fc_inv fc' \<and>
        fc_map fc' = (fc_map fc1)(fe_otherIP (flowTable fc1 ! i) \<mapsto> t') \<and> (conf n k fc' \<longleftrightarrow> conf n k fc1)"
proof (cases "tunnel_recv now rnd node p t")
  case (Inl e)
  then show ?thesis using g a by (simp add: flow_recv_def)
next
  case (Inr x)
  obtain out t' where x: "x = (out, t')" by fastforce
  let ?e = "(flowTable fc1 ! i)\<lparr>fe_agent := t'\<rparr>"
  have k: "keeps t t'" using tunnel_recv_keeps Inr x by blast
  have r: "flow_recv now rnd node other p fc = Inr (out, fc1\<lparr>flowTable := (flowTable fc1)[i := ?e]\<rparr>)"
    using g a Inr x by (simp add: flow_recv_def)
  have e: "fe_otherIP ?e = fe_otherIP (flowTable fc1 ! i)" "fe_valid ?e = 1" "keeps (fe_agent (flowTable fc1 ! i)) (fe_agent ?e)"
    using fc_inv_entry(1)[OF inv i] k a by simp_all
  have "conf n k (fc1\<lparr>flowTable := (flowTable fc1)[i := ?e]\<rparr>) = conf n k fc1" by (simp add: conf_def)
  then show ?thesis using r set_entry[OF inv i e] Inr x by simp
qed

lemma flow_recv_refines:
  assumes inv: "fc_inv fc" "conf n k fc" and l: "other \<in> dom (fc_map fc) \<or> length (flowTable fc) < 65535"
  shows "case flow_spec n k now rnd node other p (fc_map fc) of Inl e \<Rightarrow> flow_recv now rnd node other p fc = Inl e
    | Inr (out, m) \<Rightarrow> \<exists>fc'. flow_recv now rnd node other p fc = Inr (out, fc') \<and> fc_map fc' = m \<and> fc_inv fc' \<and> conf n k fc'"
proof (cases "other \<in> dom (fc_map fc)")
  case True
  then obtain i where i: "i < length (flowTable fc)" "fe_otherIP (flowTable fc ! i) = other"
    "getCLBTunnelAgent other fc = Inr (i, fc\<lparr>flowTable := (flowTable fc)[i := touch (flowTable fc ! i)]\<rparr>)" (is "_ = Inr (i, ?fc1)")
    using getCLBTunnelAgent_inv(1)[OF inv(1)] unfolding dom_fc_map by blast
  let ?t = "fe_agent (flowTable fc ! i)"
  have m: "fc_map fc other = Some ?t" using fc_inv_entry(4)[OF inv(1) i(1)] i(2) by simp
  have "fe_otherIP (touch (flowTable fc ! i)) = fe_otherIP (flowTable fc ! i)" "fe_valid (touch (flowTable fc ! i)) = 1"
    "keeps (fe_agent (flowTable fc ! i)) (fe_agent (touch (flowTable fc ! i)))"
    using fc_inv_entry(1)[OF inv(1) i(1)] by (simp_all add: touch_def)
  note s = set_entry[OF inv(1) i(1) this]
  have m1: "(fc_map fc)(other \<mapsto> ?t) = fc_map fc" using m by (rule map_upd_triv)
  have f: "fc_map ?fc1 = fc_map fc" using s(2) i(2) m1 by (simp add: touch_def)
  have c: "conf n k ?fc1" using inv(2) by (simp add: conf_def)
  have at: "i < length (flowTable ?fc1)" "fe_agent (flowTable ?fc1 ! i) = ?t" "fe_otherIP (flowTable ?fc1 ! i) = other"
    using i(1,2) by (simp_all add: touch_def)
  have sp: "flow_spec n k now rnd node other p (fc_map fc) =
      bind_r (tunnel_recv now rnd node p ?t) (\<lambda>(out, t'). Inr (out, (fc_map fc)(other \<mapsto> t')))"
    by (simp add: flow_spec_def m)
  show ?thesis
    using flow_recv_agent[OF s(1) i(3) at(1,2), of now rnd node p n k] c unfolding sp f at(3)
    by (cases "tunnel_recv now rnd node p ?t") auto
next
  case False
  then have l: "length (flowTable fc) < 65535" "fc_map fc other = None" using l by auto
  show ?thesis
  proof (cases "new_CLBTunnel n k")
    case (Inl e)
    have "other \<notin> fe_otherIP ` set (flowTable fc)" using False by (simp add: dom_fc_map)
    note new = getCLBTunnelAgent_new[OF inv(1) this]
    have "unat (maxActiveFlowNumber fc + 1) = Suc (length (flowTable fc))"
      using inv(1) l(1) by (simp add: fc_inv_def unat_plus_if')
    then have "maxActiveFlowNumber fc + 1 \<noteq> 0" by auto
    then have "expandOneFlowTableEntry other fc = Inl e"
      using Inl inv by (simp add: expandOneFlowTableEntry_def fc_inv_def conf_def)
    then show ?thesis using new Inl l(2) by (simp add: flow_spec_def flow_recv_def)
  next
    case (Inr a)
    let ?j = "length (flowTable fc)"
    let ?fc1 = "fc\<lparr>maxActiveFlowNumber := maxActiveFlowNumber fc + 1, flowTable := flowTable fc @ [new_entry other a ?j]\<rparr>"
    have g: "getCLBTunnelAgent other fc = Inr (?j, ?fc1)"
      using getCLBTunnelAgent_inv(3)[OF inv(1), of other a] False l Inr inv(2) by (simp add: dom_fc_map conf_def)
    note ad = add_entry[OF inv(1) l(1) False Inr]
    have at: "?j < length (flowTable ?fc1)" "fe_agent (flowTable ?fc1 ! ?j) = a\<lparr>tun_flowID := int ?j\<rparr>"
      "fe_otherIP (flowTable ?fc1 ! ?j) = other"
      by (simp_all add: new_entry_def)
    have c: "conf n k ?fc1" using inv(2) by (simp add: conf_def)
    have sp: "flow_spec n k now rnd node other p (fc_map fc) = bind_r (tunnel_recv now rnd node p (a\<lparr>tun_flowID := int ?j\<rparr>))
        (\<lambda>(out, t'). Inr (out, (fc_map fc)(other \<mapsto> t')))"
      by (simp add: flow_spec_def l(2) Inr card_dom_fc_map[OF inv(1)])
    show ?thesis
      using flow_recv_agent[OF ad(1) g at(1,2), of now rnd node p n k] c unfolding sp ad(2) at(3) fun_upd_upd
      by (cases "tunnel_recv now rnd node p (a\<lparr>tun_flowID := int ?j\<rparr>)") auto
  qed
qed

subsection \<open>The states of a table\<close>

text \<open>Packets, expiring timers and \<^verbatim>\<open>shrinkFlowTable\<close>.\<close>

inductive table_reach :: "int \<Rightarrow> int \<Rightarrow> int \<Rightarrow> flow_classifier \<Rightarrow> bool" for n k node where
  first: "tunnel_node_recv n k node now rnd p None = Inr (out, fc) \<Longrightarrow> table_reach n k node fc"
| packet: "table_reach n k node fc \<Longrightarrow> tunnel_node_recv n k node now rnd p (Some fc) = Inr (out, fc') \<Longrightarrow> table_reach n k node fc'"
| timeout: "table_reach n k node fc \<Longrightarrow> i < length (flowTable fc) \<Longrightarrow> flow_timeout now i fc = Inr (out, fc') \<Longrightarrow> table_reach n k node fc'"
| shrink: "table_reach n k node fc \<Longrightarrow> shrinkFlowTable fc = Inr fc' \<Longrightarrow> table_reach n k node fc'"

lemma flow_recv_inv:
  assumes "fc_inv fc" "conf n k fc" and "flow_recv now rnd node other p fc = Inr (out, fc')"
  shows "fc_inv fc' \<and> conf n k fc'"
proof (cases "other \<in> dom (fc_map fc) \<or> length (flowTable fc) < 65535")
  case True
  show ?thesis using flow_recv_refines[OF assms(1,2) True, of now rnd node p] assms(3) by (auto split: sum.splits)
next
  case False
  then have "length (flowTable fc) = 65535" using fc_inv_length[OF assms(1)] by simp
  then show ?thesis using flow_recv_full[OF assms(1)] False assms(3) by simp
qed

lemma tunnel_node_recv_Some:
  assumes "tunnel_node_recv n k node now rnd p tb = Inr (out, fc')"
  shows "\<exists>other. flow_recv now rnd node other p (case tb of None \<Rightarrow> new_CLBFlowClassifier n k | Some fc \<Rightarrow> fc) = Inr (out, fc')"
  using assms by (auto simp: tunnel_node_recv_def Let_def split: if_splits)

lemma fc_inv_new: "fc_inv (new_CLBFlowClassifier n k)" "conf n k (new_CLBFlowClassifier n k)"
  by (simp_all add: new_CLBFlowClassifier_def fc_inv_def conf_def)

lemma flow_timeout_inv:
  assumes "fc_inv fc" and i: "i < length (flowTable fc)" and "flow_timeout now i fc = Inr (out, fc')"
  shows "fc_inv fc' \<and> (conf n k fc' \<longleftrightarrow> conf n k fc)"
proof -
  obtain a where a: "DecodeTimer_handle now (fe_agent (flowTable fc ! i)) = Inr (out, a)"
    "fc' = fc\<lparr>flowTable := (flowTable fc)[i := (flowTable fc ! i)\<lparr>fe_agent := a\<rparr>]\<rparr>"
    using assms(3) by (auto simp: flow_timeout_def)
  have "fc_inv fc'" unfolding a(2)
    by (rule set_entry(1)[OF assms(1) i]) (use DecodeTimer_handle_keeps[OF a(1)] fc_inv_entry(1)[OF assms(1) i] in simp_all)
  then show ?thesis using a(2) by (simp add: conf_def)
qed

text \<open>\<^verbatim>\<open>shrinkFlowTable\<close> deletes nothing: the destructor of a tunnel cancels the encode timer, which
  is never started.\<close>

lemma shrink_mark_ages:
  assumes "\<forall>e\<in>set es. encodeTimer (fe_agent e) = timer_new"
  shows "shrink_mark es b = (if \<exists>e\<in>set es. fe_age e = 0 then Inl Abort else Inr (List.map (\<lambda>e. e\<lparr>fe_age := 0\<rparr>) es, b))"
  using assms by (induction es) (auto simp: delete_CLBTunnel_def timer_cancel_def timer_new_def)

lemma shrinkFlowTable_ages:
  assumes "fc_inv fc"
  shows "shrinkFlowTable fc = (if \<exists>e\<in>set (flowTable fc). fe_age e = 0 then Inl Abort
    else Inr (fc\<lparr>flowTable := List.map (\<lambda>e. e\<lparr>fe_age := 0\<rparr>) (flowTable fc)\<rparr>))"
proof -
  have "\<forall>e\<in>set (flowTable fc). encodeTimer (fe_agent e) = timer_new"
    using fc_inv_entry(3)[OF assms] by (auto simp: in_set_conv_nth)
  moreover have "take (unat (maxActiveFlowNumber fc)) (flowTable fc) = flowTable fc" "invalidEntryNumber fc = 0"
    using assms by (simp_all add: fc_inv_def)
  ultimately show ?thesis by (simp add: shrinkFlowTable_def shrink_mark_ages)
qed

lemma ages_inv: "fc_inv fc \<Longrightarrow> fc_inv (fc\<lparr>flowTable := List.map (\<lambda>e. e\<lparr>fe_age := 0\<rparr>) (flowTable fc)\<rparr>)"
  by (auto simp: fc_inv_def Let_def comp_def)

lemma table_reach_inv: "table_reach n k node fc \<Longrightarrow> fc_inv fc \<and> conf n k fc"
proof (induction rule: table_reach.induct)
  case (first now rnd p out fc)
  then show ?case using tunnel_node_recv_Some[OF first] flow_recv_inv[OF fc_inv_new] by auto
next
  case (packet fc now rnd p out fc')
  obtain other where "flow_recv now rnd node other p fc = Inr (out, fc')"
    using tunnel_node_recv_Some[OF packet(2)] by auto
  then show ?case using flow_recv_inv packet.IH by blast
next
  case (timeout fc i now out fc')
  then show ?case using flow_timeout_inv by blast
next
  case (shrink fc fc')
  then have "fc_inv fc" "conf n k fc" by simp_all
  moreover have "fc' = fc\<lparr>flowTable := List.map (\<lambda>e. e\<lparr>fe_age := 0\<rparr>) (flowTable fc)\<rparr>"
    using shrink(2) unfolding shrinkFlowTable_ages[OF calculation(1)] by (metis sum.distinct(1) sum.inject(2))
  ultimately show ?case using ages_inv by (simp add: conf_def)
qed

subsection \<open>The properties\<close>

text \<open>C38: In every state of a node, the table of tunnels is a map from addresses to tunnels: a packet
  of an address goes to the tunnel of this address, which is made when there is none, and no
  other tunnel changes; an error is an error of this tunnel.\<close>

theorem flow_table_is_map:
  assumes "table_reach n k node fc" and "other \<in> dom (fc_map fc) \<or> card (dom (fc_map fc)) < 65535"
  shows "case flow_spec n k now rnd node other p (fc_map fc) of Inl e \<Rightarrow> flow_recv now rnd node other p fc = Inl e
    | Inr (out, m) \<Rightarrow> \<exists>fc'. flow_recv now rnd node other p fc = Inr (out, fc') \<and> fc_map fc' = m"
  using flow_recv_refines[of fc n k other now rnd node p] table_reach_inv[OF assms(1)] assms(2)
  by (auto simp: card_dom_fc_map split: sum.splits)

definition ex_from :: "int \<Rightarrow> tpacket" where
  "ex_from i = set_hdr (\<lambda>h. h\<lparr>saddr := i, daddr := 0\<rparr>) (ex_tun_packet i)"

lemma tunnel_recv_ex_from: "tunnel_recv now rnd 0 (ex_from i) t = Inr ([], t)"
  by (simp add: tunnel_recv_def ex_from_def ex_tun_packet_def set_hdr_def Packet_alloc_def packet.defs)

lemma reach_many:
  assumes "0 < m" and "m \<le> 65535"
  shows "\<exists>fc. table_reach 2 0 0 fc \<and> dom (fc_map fc) = {1..int m}"
  using assms
proof (induction m)
  case (Suc m)
  let ?p = "ex_from (int (Suc m))"
  have h: "saddr (hdr ?p) = int (Suc m)" "daddr (hdr ?p) = 0" by (simp_all add: ex_from_def set_hdr_def)
  have new: "\<exists>fc'. flow_recv 0 (\<lambda>_. 0) 0 (int (Suc m)) ?p fc = Inr ([], fc') \<and> dom (fc_map fc') = {1..int (Suc m)}"
    if inv: "fc_inv fc" "conf 2 0 fc" and d: "dom (fc_map fc) = {1..int m}" for fc
  proof -
    have "int (Suc m) \<notin> dom (fc_map fc)" unfolding d by simp
    then have n: "fc_map fc (int (Suc m)) = None" by blast
    have "length (flowTable fc) < 65535" using card_dom_fc_map[OF inv(1)] d Suc.prems(2) by simp
    moreover obtain a where "new_CLBTunnel 2 0 = Inr a" by (simp add: new_CLBTunnel_def)
    ultimately obtain a fc' where "flow_recv 0 (\<lambda>_. 0) 0 (int (Suc m)) ?p fc = Inr ([], fc')"
      "fc_map fc' = (fc_map fc)(int (Suc m) \<mapsto> a)"
      using flow_recv_refines[OF inv, of "int (Suc m)" 0 "\<lambda>_. 0" 0 ?p] by (auto simp: flow_spec_def n tunnel_recv_ex_from simp del: of_nat_Suc)
    then show ?thesis using d by auto
  qed
  show ?case
  proof (cases "m = 0")
    case True
    have "dom (fc_map (new_CLBFlowClassifier 2 0)) = {1..int m}" using True by (simp add: dom_fc_map new_CLBFlowClassifier_def)
    then obtain fc' where f: "flow_recv 0 (\<lambda>_. 0) 0 (int (Suc m)) ?p (new_CLBFlowClassifier 2 0) = Inr ([], fc')"
      "dom (fc_map fc') = {1..int (Suc m)}" using new[OF fc_inv_new] by blast
    have "tunnel_node_recv 2 0 0 0 (\<lambda>_. 0) ?p None = Inr ([], fc')"
      using f(1) h by (simp add: tunnel_node_recv_def)
    then show ?thesis using f(2) table_reach.first by blast
  next
    case False
    then obtain fc where fc: "table_reach 2 0 0 fc" "dom (fc_map fc) = {1..int m}" using Suc by auto
    then obtain fc' where f: "flow_recv 0 (\<lambda>_. 0) 0 (int (Suc m)) ?p fc = Inr ([], fc')" "dom (fc_map fc') = {1..int (Suc m)}"
      using new table_reach_inv by blast
    have "tunnel_node_recv 2 0 0 0 (\<lambda>_. 0) ?p (Some fc) = Inr ([], fc')"
      using f(1) h by (simp add: tunnel_node_recv_def)
    then show ?thesis using f(2) table_reach.packet[OF fc(1)] by blast
  qed
qed simp

lemma flow_table_is_map_witness:
  "\<exists>fc fc' t. table_reach 2 0 0 fc \<and> flow_recv 1 (\<lambda>_. 0) 0 5 (ex_from 5) fc = Inr ([], fc') \<and>
    fc_map fc' = (fc_map fc)(5 \<mapsto> t) \<and> fc_map fc 2 \<noteq> None"
proof -
  obtain fc where fc: "table_reach 2 0 0 fc" "dom (fc_map fc) = {1..3}" using reach_many[of 3] by auto
  have "5 \<notin> dom (fc_map fc)" "2 \<in> dom (fc_map fc)" unfolding fc(2) by simp_all
  then have n: "fc_map fc 5 = None" "fc_map fc 2 \<noteq> None" by blast+
  obtain a where a: "new_CLBTunnel 2 0 = Inr a" by (simp add: new_CLBTunnel_def)
  have "5 \<in> dom (fc_map fc) \<or> card (dom (fc_map fc)) < 65535" using fc(2) by simp
  from flow_table_is_map[OF fc(1) this, of 1 "\<lambda>_. 0" "ex_from 5"]
  show ?thesis using fc(1) n a by (auto simp: flow_spec_def tunnel_recv_ex_from)
qed

text \<open>C39: A table has at most 65535 entries; when it is full, a packet of a new address ends the
  program: the 16-bit counter wraps around and the size to copy is negative.\<close>

theorem flow_table_full:
  assumes "table_reach n k node fc"
  shows "card (dom (fc_map fc)) \<le> 65535 \<and>
    (card (dom (fc_map fc)) = 65535 \<and> other \<notin> dom (fc_map fc) \<longrightarrow> flow_recv now rnd node other p fc = Inl OutOfBounds)"
  using table_reach_inv[OF assms] fc_inv_length[of fc] flow_recv_full[of fc other] by (auto simp: card_dom_fc_map)

lemma flow_table_full_witness:
  "\<exists>fc. table_reach 2 0 0 fc \<and> dom (fc_map fc) = {1..65535} \<and> flow_recv 1 (\<lambda>_. 0) 0 65536 (ex_from 65536) fc = Inl OutOfBounds"
proof -
  obtain fc where fc: "table_reach 2 0 0 fc" "dom (fc_map fc) = {1..65535}" using reach_many[of 65535] by auto
  then show ?thesis using flow_table_full[OF fc(1), of 65536 1 "\<lambda>_. 0" "ex_from 65536"] by auto
qed

text \<open>\<^verbatim>\<open>shrinkFlowTable\<close> removes no entry: it ends the program when it finds one without a packet
  since its last call, because the destructor cancels a timer that is not pending; otherwise
  it only resets the ages.\<close>

theorem flow_shrink:
  assumes "table_reach n k node fc"
  shows "shrinkFlowTable fc = (if \<exists>e\<in>set (flowTable fc). fe_age e = 0 then Inl Abort
    else Inr (fc\<lparr>flowTable := List.map (\<lambda>e. e\<lparr>fe_age := 0\<rparr>) (flowTable fc)\<rparr>))"
  using shrinkFlowTable_ages table_reach_inv[OF assms] by blast

lemma flow_shrink_witness:
  "\<exists>fc. table_reach 2 0 0 fc \<and> length (flowTable fc) = 1 \<and> shrinkFlowTable fc = Inl Abort"
proof -
  obtain a where a: "new_CLBTunnel 2 0 = Inr a" by (simp add: new_CLBTunnel_def)
  have g: "getCLBTunnelAgent 1 (new_CLBFlowClassifier 2 0) = Inr (0, (new_CLBFlowClassifier 2 0)
      \<lparr>maxActiveFlowNumber := 1, flowTable := [new_entry 1 a 0]\<rparr>)" (is "_ = Inr (0, ?new)")
    using getCLBTunnelAgent_inv(3)[OF fc_inv_new(1), of 1 2 0 a] a by (simp add: new_CLBFlowClassifier_def)
  have "saddr (hdr (ex_from 1)) = 1" by (simp add: ex_from_def set_hdr_def)
  then have "tunnel_node_recv 2 0 0 0 (\<lambda>_. 0) (ex_from 1) None = Inr ([], ?new)"
    by (simp add: tunnel_node_recv_def flow_recv_def g tunnel_recv_ex_from)
  moreover have "List.map fe_age (flowTable ?new) = [1]" by (simp add: new_entry_def)
  ultimately obtain fc where fc: "tunnel_node_recv 2 0 0 0 (\<lambda>_. 0) (ex_from 1) None = Inr ([], fc)"
    "List.map fe_age (flowTable fc) = [1]" by (rule that)
  have r: "table_reach 2 0 0 fc" using table_reach.first[OF fc(1)] .
  let ?fc = "fc\<lparr>flowTable := List.map (\<lambda>e. e\<lparr>fe_age := 0\<rparr>) (flowTable fc)\<rparr>"
  have "fe_age ` set (flowTable fc) = {1}" using arg_cong[OF fc(2), of set] by simp
  then have "fe_age e = 1" if "e \<in> set (flowTable fc)" for e using that by blast
  then have "\<forall>e\<in>set (flowTable fc). fe_age e \<noteq> 0" by simp
  then have "shrinkFlowTable fc = Inr ?fc" unfolding flow_shrink[OF r] by simp
  then have r2: "table_reach 2 0 0 ?fc" by (rule table_reach.shrink[OF r])
  have l: "length (flowTable fc) = 1" using fc(2) by (metis length_map length_Cons list.size(3) One_nat_def)
  then have "shrinkFlowTable ?fc = Inl Abort" unfolding flow_shrink[OF r2] by (cases "flowTable fc") auto
  then show ?thesis using r2 l by (intro exI[of _ ?fc]) simp
qed

end
