(* ===== verification/Spec2Isabelle.thy ===== *)
theory Spec2Isabelle
  imports CLBWitness CLBQueue CloveWitness HermesProperties CongaFeedback Host CalendarScheduler SplayScheduler SackSession TcpWitness TunnelLimits FlowTable
begin

text \<open>
  Load balancing in the data center network of the CLB experiments: a model of the
  part of \<^verbatim>\<open>ns-2.35\<close> that this repository adds to the simulator, and of the parts
  of the simulator it stands on.

  \<^bold>\<open>The program.\<close>  A host's classifier hands every packet to the load balancer of the node
  (\<^verbatim>\<open>clb/clb.cc\<close>, \<^verbatim>\<open>clb/clove.cc\<close>, \<^verbatim>\<open>clb/hermes.cc\<close>).  It keeps a processor for each
  remote address, which chooses a virtual path for a packet that leaves
  (\<^verbatim>\<open>ecmpHashKey\<close>), stamps a row of its own into the header, and reads the row of a packet
  that arrives.  Rows carry reports back: how many packets a path brought, whether one was
  marked, the round trip time.  At a leaf switch CONGA (\<^verbatim>\<open>clb/conga.cc\<close>) chooses the
  port; links (\<^verbatim>\<open>link/delay.cc\<close>, \<^verbatim>\<open>link/dre.cc\<close>) raise the metric that a packet
  carries; queues (\<^verbatim>\<open>queue/\<close>, \<^verbatim>\<open>clb/clb-queue.cc\<close>) mark, drop and order packets.

  \<^bold>\<open>Prelude and data.\<close>  \<^theory_text>\<open>Prelude\<close> has machine types, errors as values of a sum type, and
  \<^verbatim>\<open>std::map\<close> as a locale with its model, an association list in key order.
  \<^theory_text>\<open>Packet\<close> has the headers.  A \<^verbatim>\<open>double\<close> is a rational number and its arithmetic exact; a
  division by zero is an error value, except for the estimate of NewReno, which is not finite when its third
  acknowledgement comes at the time of the second: the \<^verbatim>\<open>int\<close> that it then gives, undefined in C++, is the
  parameter \<^verbatim>\<open>int_of_inf\<close>; an \<^verbatim>\<open>unsigned\<close> is a 32-bit word and wraps; an
  \<^verbatim>\<open>int\<close> is an integer (where the width matters it is written out).  The clock, \<^verbatim>\<open>rand()\<close>
  and the lookup of the next object are arguments.  A pointer into a table is the key of
  the entry.

  \<^bold>\<open>CLB.\<close>  \<^theory_text>\<open>ReorderBuffer\<close> is the ring of packets that wait for their turn
  (\<^verbatim>\<open>reorder\<close>): in any order of arrival inside the window it delivers in sequence; a
  late packet, a packet at the edge of the window and sequence numbers above \<^verbatim>\<open>2^31\<close> break
  this, and the theorems say how.  \<^theory_text>\<open>CLBProcessor\<close> is the rest of
  \<^verbatim>\<open>clb/clb-processor.cc\<close>: the path table, smooth weighted round robin, bursts that measure the
  rate of a path, and reports.  \<^theory_text>\<open>CLBInvariant\<close> and \<^theory_text>\<open>CLBReceive\<close> give the invariant and
  the effect of every operation; \<^theory_text>\<open>CLBProperties\<close> and \<^theory_text>\<open>CLBRoundRobin\<close> the properties,
  for all states reachable from the constructor by sends, receives and expiries;
  \<^theory_text>\<open>CLBWitness\<close> instances.  \<^theory_text>\<open>NodeTable\<close> is the table of processors of a node,
  over the locale \<^theory_text>\<open>end_processor\<close>, which \<^theory_text>\<open>CLBNode\<close>, \<^theory_text>\<open>CloveProperties\<close> and
  \<^theory_text>\<open>HermesProperties\<close> interpret.

  \<^bold>\<open>CLOVE and Hermes.\<close>  \<^theory_text>\<open>PathKeys\<close> holds what the two share (path keys, the ring of
  responses).  \<^theory_text>\<open>Clove\<close> and \<^theory_text>\<open>Hermes\<close> model \<^verbatim>\<open>clb/clove-processor.cc\<close> and
  \<^verbatim>\<open>clb/hermes-processor.cc\<close>; \<^theory_text>\<open>CloveProperties\<close>, \<^theory_text>\<open>CloveWitness\<close> and
  \<^theory_text>\<open>HermesProperties\<close> show the invariants, what a send and a receive do, how long a report
  lives, and that the mark history is a window over all marks.

  \<^bold>\<open>Queues.\<close>  \<^theory_text>\<open>FifoQueue\<close> has \<^verbatim>\<open>PacketQueue\<close> and the operations of the base class
  \<^verbatim>\<open>Queue\<close> over the locale \<^theory_text>\<open>discipline\<close>; \<^theory_text>\<open>DropTail\<close> and \<^theory_text>\<open>CLBQueue\<close> interpret it.
  The theorems: which packet is marked, kept and dropped; limits; no run loses a packet;
  the loop over the burst lists ends.

  \<^bold>\<open>Links and CONGA.\<close>  \<^theory_text>\<open>Dre\<close> is the rate estimator, \<^theory_text>\<open>LinkDelay\<close> the link
  (the runs of a dynamic link have a clock, pending events and a sender that waits for the end of each transmission; if
  the delay is reduced while a packet is in transit the assertion of the link fails),
  \<^theory_text>\<open>Conga\<close> the agent of a leaf switch.  \<^theory_text>\<open>CongaFeedback\<close> composes them: the largest
  metric on the path of a packet comes back to the table of the leaf that routed it.
  \<^theory_text>\<open>Crc16\<close> is the checksum that the classifiers hash flows with, and its equality with
  the usual byte-wise algorithm.

  \<^bold>\<open>Classifiers.\<close>  \<^theory_text>\<open>Classifier\<close> is the slot table of \<^verbatim>\<open>classifier/classifier.cc\<close>, over
  the locale \<^theory_text>\<open>slot_table\<close>; \<^theory_text>\<open>MultiPath\<close> the choice of a slot by flow hash, path key,
  flowlet or CONGA (\<^verbatim>\<open>classifier/classifier-mpath.cc\<close>); \<^theory_text>\<open>Host\<close> is \<^verbatim>\<open>Classifier::recv\<close>,
  which composes the balancers with the table: a packet leaves by the slot whose number
  the balancer stamped.

  \<^bold>\<open>Tunnels.\<close>  \<^theory_text>\<open>Tunnel\<close> is the tunnel between two nodes (\<^verbatim>\<open>apps/clb_tunnel.cc\<close>), an earlier
  design of CLB that a node with \<^verbatim>\<open>CLB_Node_\<close> still uses: the sender numbers packets and adds
  parity packets to each generation, the receiver orders and recovers.  \<^theory_text>\<open>TunnelSender\<close> says
  what is on the wire, \<^theory_text>\<open>TunnelRing\<close> what the reorder buffer holds (a window on the 16-bit
  numbers; the theorems assume \<^verbatim>\<open>6K\<close> numbers, two windows, fit into them), \<^theory_text>\<open>TunnelOrder\<close> that
  a tunnel without parity packets keeps the order and what its timeout does, \<^theory_text>\<open>TunnelRecover\<close> that the first generation
  is recovered from any \<^verbatim>\<open>K\<close> of its packets, \<^theory_text>\<open>TunnelLimits\<close> where the receiver goes wrong (later generations, no loss,
  timeouts).  In a run (\<^theory_text>\<open>timed_all\<close>) the decode timer expires between the arrivals whenever it is due; the
  two properties hold for packets that arrive in time (\<^theory_text>\<open>in_time\<close>), so that it is never due: less than 160 microseconds,
  with parity packets \<^verbatim>\<open>80(P + 1)\<close>, after the last arrival while a packet waits for an earlier one.  The
  counters of virtual paths are left out, because only commented-out code and code behind a
  \<^verbatim>\<open>return\<close> uses them.  \<^theory_text>\<open>FlowClassifier\<close> is the table of tunnels of a node
  (\<^verbatim>\<open>apps/clb_flow_classify.cc\<close>), \<^theory_text>\<open>FlowTable\<close> its refinement of a map from addresses to tunnels.

  \<^bold>\<open>Scheduler.\<close>  \<^theory_text>\<open>EventHeap\<close> is the binary heap of \<^verbatim>\<open>common/heap.h\<close> and \<^theory_text>\<open>Scheduler\<close>
  \<^verbatim>\<open>common/scheduler.cc\<close> over the locale \<^theory_text>\<open>event_queue\<close>, interpreted by the list, the heap and
  the splay tree (\<^theory_text>\<open>SplayScheduler\<close>, \<^verbatim>\<open>common/splay-scheduler.cc\<close>); \<^theory_text>\<open>CalendarQueue\<close>,
  \<^theory_text>\<open>CalendarOrder\<close> and \<^theory_text>\<open>CalendarScheduler\<close> show the same contract for the calendar queue,
  the default of the simulator, with any positive function for \<^verbatim>\<open>sqrt\<close> and for times that are
  not negative.  All dispatch the same events at the same times, the earliest first and
  those of one time in the order they were scheduled, as long as at most \<^verbatim>\<open>2^32\<close> events
  are scheduled (then the counter of the heap wraps; the others have no bound).  \<^theory_text>\<open>sched_run\<close> takes the number of
  dispatches; what the handlers schedule and cancel is a function of the trace.

  \<^bold>\<open>Reassembly.\<close>  \<^theory_text>\<open>ReassemblyQueue\<close> is the queue of received blocks of the full TCP
  agents (\<^verbatim>\<open>tcp/rq.cc\<close>), which keeps them as a list in the order of their numbers and as a
  stack.  \<^theory_text>\<open>ReassemblyOrder\<close> shows that adding a segment is the insertion of an interval into
  a sorted list that merges what touches, \<^theory_text>\<open>ReassemblyProperties\<close> and
  \<^theory_text>\<open>ReassemblyArrival\<close> what the queue then promises for any order of arrival, and where it
  goes wrong.  Sequence numbers are unbounded integers.  \<^verbatim>\<open>hint_\<close>, which is always reset
  before it is read, and \<^verbatim>\<open>dumplist\<close> are left out.

  \<^bold>\<open>TCP acknowledgements.\<close>  \<^theory_text>\<open>TcpSink\<close> is the receiver (\<^verbatim>\<open>tcp/tcp-sink.cc\<close>): a ring of
  packets seen that doubles when a packet lies beyond it, the stack of blocks for selective
  acknowledgements, the echo of congestion marks and the timer of delayed acknowledgements.
  \<^theory_text>\<open>TcpSinkWindow\<close> shows the ring to be the set of packets received, \<^theory_text>\<open>TcpSinkSack\<close> that the
  blocks are parts of that set, \<^theory_text>\<open>TcpSinkAgent\<close> what the agents answer.  \<^theory_text>\<open>ScoreBoard\<close> is the
  sender's record of the blocks (\<^verbatim>\<open>tcp/scoreboard-rq.cc\<close>), a reassembly queue, and
  \<^theory_text>\<open>SackSession\<close> puts receiver, an arbitrary network and scoreboard together.  Packets have
  the same size whenever they are sent, at least the 40 bytes of the headers.  \<^theory_text>\<open>deliver\<close>
  takes one more step than the ring has slots; the window always ends in an empty slot.

  \<^bold>\<open>TCP senders.\<close>  \<^theory_text>\<open>TcpRtt\<close> is the estimate of the round trip time and the retransmission
  time of \<^verbatim>\<open>tcp/tcp.cc\<close>, \<^theory_text>\<open>TcpWindow\<close> the state of a sender and its congestion window,
  \<^theory_text>\<open>TcpSender\<close> and \<^theory_text>\<open>TcpReceive\<close> the operations of the base class (Tahoe), of Reno and of
  NewReno (\<^verbatim>\<open>tcp/tcp-reno.cc\<close>, \<^verbatim>\<open>tcp/tcp-newreno.cc\<close>): sending, acknowledgements, fast
  retransmission, timeouts, F-RTO and ECN.  \<^theory_text>\<open>TcpInvariant\<close> has what each operation keeps,
  \<^theory_text>\<open>TcpRun\<close> the reachable states, with every event in any order, \<^theory_text>\<open>TcpSession\<close> a sender, the
  receiver of \<^theory_text>\<open>TcpSink\<close> and an arbitrary network, \<^theory_text>\<open>TcpWitness\<close> instances.  The theorems
  on reachable states assume \<^theory_text>\<open>conf_ok\<close>: \<^verbatim>\<open>wnd_option_\<close> from 0 to 5, no limit on the attempts
  to connect, \<^verbatim>\<open>newreno_changes_\<close> off, a packet size other than 0, a window of at least one
  packet, an increase that is not negative, a positive tick and a \<^verbatim>\<open>maxrto_\<close> of at least two
  ticks; the definitions have every option.  Quick-Start, \<^verbatim>\<open>QOption_\<close>, ELN and \<^verbatim>\<open>bugfix_ts_\<close> are off, as they are by
  default.  Sequence numbers are unbounded integers.

  \<^bold>\<open>Loops.\<close>  A loop that the code does not obviously leave (over \<^verbatim>\<open>vp_init\<close>, over the burst
  lists, the doubling of the slot table, the expiries of the decode timer) is a partial function to \<^theory_text>\<open>option\<close> and the
  theorems say that it returns.

  \<^bold>\<open>Not modelled.\<close>  The Tcl command parsers, trace and debug files (input and output only);
  the tunnels inside \<^theory_text>\<open>Host\<close>, where they are an argument; the real-time scheduler;
  the full-duplex, SACK and other TCP agents (but for the SACK scoreboard) and the
  wireless, multicast, web and sensor parts of the simulator, which this repository takes
  over from \<^verbatim>\<open>ns-2.35\<close> as they are.
\<close>

end
